(* ===== verification/Prelude.thy ===== *)
theory Prelude
  imports Main "HOL-Library.Word"
begin

text \<open>
  Shared vocabulary of the development: the C integer types the sources use as
  words of their width, byte buffers with faulting reads, and the generic lemmas
  on words, lists and loops that the component theories rely on.  A read outside a
  buffer is undefined behaviour in C; here it is the value \<open>None\<close>, so that the
  absence of such a read is something to be proved.
\<close>

unbundle bit_operations_syntax

type_synonym u8 = "8 word"
type_synonym u16 = "16 word"
type_synonym u32 = "32 word"
type_synonym u64 = "64 word"
type_synonym buffer = "u8 list"

named_theorems fault_free \<open>reads and writes inside a buffer do not fault\<close>

definition rd :: "'a list \<Rightarrow> nat \<Rightarrow> 'a option" where
  "rd buf i = (if i < length buf then Some (buf ! i) else None)"

lemma rd_inside [fault_free]: "i < length buf \<Longrightarrow> rd buf i = Some (buf ! i)"
  by (simp add: rd_def)

lemma rd_outside: "length buf \<le> i \<Longrightarrow> rd buf i = None"
  by (simp add: rd_def)

lemma rd_eq_Some_iff: "rd buf i = Some x \<longleftrightarrow> i < length buf \<and> x = buf ! i"
  by (auto simp: rd_def)

text \<open>A file is the sequence of its bytes: output appends to the bytes written so far,
  input consumes the bytes still to be read.  \<open>fgetc\<close> gives \<open>EOF\<close> (-1) at the end.\<close>

definition fgetc :: "buffer \<Rightarrow> int \<times> buffer" where
  "fgetc f = (case f of [] \<Rightarrow> (-1, []) | c # f' \<Rightarrow> (uint c, f'))"

lemma fgetc_simps [simp]: "fgetc (c # f) = (uint c, f)" "fgetc [] = (-1, [])"
  by (simp_all add: fgetc_def)

text \<open>A buffer as a string of bits, most significant bit of each byte first:
  the order in which DVB streams number the bits of a field.\<close>

definition buf_bit :: "buffer \<Rightarrow> nat \<Rightarrow> bool" where
  "buf_bit buf p = bit (buf ! (p div 8)) (7 - p mod 8)"

lemma bit_mask_word [simp]: "bit (2 ^ n - 1 :: 'a::len word) i \<longleftrightarrow> i < n \<and> i < LENGTH('a)"
  by (auto simp: bit_mask_iff simp flip: mask_eq_exp_minus_1)

lemma ex_upto_Suc:
  assumes "i < n"
  shows "(\<exists>k. i \<le> k \<and> k < n \<and> P k) \<longleftrightarrow> P i \<or> (\<exists>k. Suc i \<le> k \<and> k < n \<and> P k)"
  by (metis assms Suc_leD Suc_leI le_neq_implies_less order_refl)

lemma word_less_exp_of_bits:
  fixes w :: "'a::len word"
  assumes "\<And>i. n \<le> i \<Longrightarrow> \<not> bit w i"
  shows "unat w < 2 ^ n"
proof -
  have "take_bit n w = w"
    by (rule bit_word_eqI) (metis assms bit_take_bit_iff not_less)
  then have "take_bit n (unat w) = unat w"
    by (metis unsigned_take_bit_eq)
  then show ?thesis
    by (simp add: take_bit_nat_eq_self_iff)
qed

text \<open>Words as their bits: masks, small values, and equality bit by bit.\<close>

lemma and_masks:
  "(w :: u8) AND 1 = take_bit 1 w" "w AND 3 = take_bit 2 w"
  "w AND 7 = take_bit 3 w" "w AND 15 = take_bit 4 w"
  by (simp_all add: take_bit_eq_mask mask_eq_exp_minus_1)

lemma take_bit_small:
  fixes w :: "'a::len word"
  assumes "unat w < 2 ^ k"
  shows "take_bit k w = w"
  by (metis assms take_bit_nat_eq_self unsigned_take_bit_eq unsigned_word_eqI)

lemma small_bits: "unat (w :: 'a::len word) < 2 ^ k \<Longrightarrow> k \<le> i \<Longrightarrow> \<not> bit w i"
  by (metis take_bit_small bit_take_bit_iff not_less)
lemmas field_bits = bit_and_iff bit_or_iff bit_push_bit_iff bit_drop_bit_eq bit_take_bit_iff bit_ucast_iff

lemma word8_eqI:
  "bit a 0 = bit b 0 \<Longrightarrow>
   bit a 1 = bit b 1 \<Longrightarrow>
   bit a 2 = bit b 2 \<Longrightarrow>
   bit a 3 = bit b 3 \<Longrightarrow>
   bit a 4 = bit b 4 \<Longrightarrow>
   bit a 5 = bit b 5 \<Longrightarrow>
   bit a 6 = bit b 6 \<Longrightarrow>
   bit a 7 = bit b 7 \<Longrightarrow> a = (b :: u8)"
  by (rule bit_word_eqI) (auto simp: less_Suc_eq numeral_eq_Suc)

lemma word16_eqI:
  "bit a 0 = bit b 0 \<Longrightarrow>
   bit a 1 = bit b 1 \<Longrightarrow>
   bit a 2 = bit b 2 \<Longrightarrow>
   bit a 3 = bit b 3 \<Longrightarrow>
   bit a 4 = bit b 4 \<Longrightarrow>
   bit a 5 = bit b 5 \<Longrightarrow>
   bit a 6 = bit b 6 \<Longrightarrow>
   bit a 7 = bit b 7 \<Longrightarrow>
   bit a 8 = bit b 8 \<Longrightarrow>
   bit a 9 = bit b 9 \<Longrightarrow>
   bit a 10 = bit b 10 \<Longrightarrow>
   bit a 11 = bit b 11 \<Longrightarrow>
   bit a 12 = bit b 12 \<Longrightarrow>
   bit a 13 = bit b 13 \<Longrightarrow>
   bit a 14 = bit b 14 \<Longrightarrow>
   bit a 15 = bit b 15 \<Longrightarrow> a = (b :: u16)"
  by (rule bit_word_eqI) (auto simp: less_Suc_eq numeral_eq_Suc)

text \<open>\<open>struct tm\<close> of the C library, without the day of the week.\<close>

record tm =
  tm_sec :: int
  tm_min :: int
  tm_hour :: int
  tm_mday :: int
  tm_mon :: int
  tm_year :: int

end
