(* ===== verification/Bits.thy ===== *)
theory Bits
  imports Prelude
begin

text \<open>
  common/bits.c: the bit-field reader every section parser is built on, and the
  BCD decoder.  The loops gather only the bytes that hold bits of the field; the
  main results are that the readers deliver exactly the bits of the field and
  touch no byte outside it.
\<close>

subsection \<open>The code\<close>

definition bitsDecodeBcd8 :: "u8 \<Rightarrow> u8" where
  "bitsDecodeBcd8 bcd = (bcd AND 0x0f) + 10 * drop_bit 4 bcd"

text \<open>The byte-collecting loop shared by both readers: byte \<open>i\<close> of the field is
  shifted to bit \<open>hi - 8 * i\<close> of the accumulator.\<close>

function gather :: "buffer \<Rightarrow> nat \<Rightarrow> nat \<Rightarrow> nat \<Rightarrow> nat \<Rightarrow> u64 \<Rightarrow> u64 option" where
  "gather buf b hi max_byte i tmp =
     (if i < max_byte
      then case rd buf (b + i) of
             None \<Rightarrow> None
           | Some x \<Rightarrow> gather buf b hi max_byte (Suc i) (tmp OR push_bit (hi - i * 8) (ucast x))
      else Some tmp)"
  by pat_completeness auto
termination
  by (relation "measure (\<lambda>(buf, b, hi, max_byte, i, tmp). max_byte - i)") auto

definition bitsGet48 :: "buffer \<Rightarrow> nat \<Rightarrow> nat \<Rightarrow> nat \<Rightarrow> u64 option" where
  "bitsGet48 buf byte_offset startbit bitlen =
     (if bitlen > 48 then Some 0xFEFEFEFEFEFEFEFE
      else
        let b = byte_offset + startbit div 8;
            st = startbit mod 8;
            max_byte = 7 - (56 - st - bitlen) div 8
        in case gather buf b 48 max_byte 0 0 of
             None \<Rightarrow> None
           | Some tmp \<Rightarrow> Some (drop_bit (56 - st - bitlen) tmp AND (push_bit bitlen 1 - 1)))"

text \<open>The two-step body of the 1..24 bit cases of \<open>bitsGet\<close>, for a given \<open>bitHigh\<close>.\<close>

definition bitsGet_short :: "buffer \<Rightarrow> nat \<Rightarrow> nat \<Rightarrow> nat \<Rightarrow> nat \<Rightarrow> u64 option" where
  "bitsGet_short buf b st bitlen bitHigh =
     (let max_byte = bitHigh div 8 - (bitHigh - st - bitlen) div 8
      in case gather buf b (bitHigh - 8) max_byte 0 0 of
           None \<Rightarrow> None
         | Some tmp \<Rightarrow> Some (drop_bit (bitHigh - st - bitlen) tmp AND (push_bit bitlen 1 - 1)))"

definition bitsGet :: "buffer \<Rightarrow> nat \<Rightarrow> nat \<Rightarrow> nat \<Rightarrow> u64 option" where
  "bitsGet buf byte_offset startbit bitlen =
     (let b = byte_offset + startbit div 8;
          st = startbit mod 8
      in if bitlen = 0 then Some 0
         else case (bitlen - 1) div 8 of
                0 \<Rightarrow> bitsGet_short buf b st bitlen 16
              | Suc 0 \<Rightarrow> bitsGet_short buf b st bitlen 24
              | Suc (Suc 0) \<Rightarrow> bitsGet_short buf b st bitlen 32
              | Suc (Suc (Suc 0)) \<Rightarrow> bitsGet48 buf b st bitlen
              | _ \<Rightarrow> Some 0xFEFEFEFE)"

declare gather.simps [simp del]

subsection \<open>What the loop collects\<close>

lemma gather_total:
  assumes "b + n \<le> length buf"
  shows "\<exists>r. gather buf b hi n i tmp = Some r"
  using assms
proof (induction buf b hi n i tmp rule: gather.induct)
  case (1 buf b hi n i tmp)
  then show ?case
    by (subst gather.simps) (auto simp: rd_def)
qed

lemma gather_bits:
  assumes "gather buf b hi n i tmp = Some r" and "j < 64"
  shows "bit r j \<longleftrightarrow>
    bit tmp j \<or> (\<exists>k. i \<le> k \<and> k < n \<and> hi - k * 8 \<le> j \<and> bit (buf ! (b + k)) (j - (hi - k * 8)))"
  using assms
proof (induction buf b hi n i tmp rule: gather.induct)
  case (1 buf b hi n i tmp)
  show ?case
  proof (cases "i < n")
    case True
    let ?tmp = "tmp OR push_bit (hi - i * 8) (ucast (buf ! (b + i)))"
    from "1.prems"(1) True have rest: "gather buf b hi n (Suc i) ?tmp = Some r"
      and x: "rd buf (b + i) = Some (buf ! (b + i))"
      by (auto simp: gather.simps [of buf b hi n i] rd_def split: if_splits)
    have "bit r j \<longleftrightarrow> bit ?tmp j \<or> (\<exists>k. Suc i \<le> k \<and> k < n \<and> hi - k * 8 \<le> j \<and>
        bit (buf ! (b + k)) (j - (hi - k * 8)))"
      using "1.IH"[OF True x rest "1.prems"(2)] by simp
    moreover have "bit ?tmp j \<longleftrightarrow> bit tmp j \<or>
        (hi - i * 8 \<le> j \<and> bit (buf ! (b + i)) (j - (hi - i * 8)))"
      using "1.prems"(2) by (simp add: bit_or_iff bit_push_bit_iff bit_unsigned_iff) linarith
    ultimately show ?thesis by (simp add: ex_upto_Suc [OF True])
  next
    case False
    with "1.prems"(1) have "r = tmp" by (simp add: gather.simps [of buf b hi n i])
    with False show ?thesis by auto
  qed
qed

lemma byte_index:
  fixes x y m :: nat
  assumes "y < 8" and "x * 8 + y \<le> 8 * m + 7"
  shows "8 * m - x * 8 \<le> 8 * m + 7 - (x * 8 + y)"
    and "8 * m + 7 - (x * 8 + y) - (8 * m - x * 8) = 7 - y"
proof -
  from assms have "x \<le> m" by presburger
  then obtain e where "m = x + e" using le_Suc_ex by blast
  then show "8 * m - x * 8 \<le> 8 * m + 7 - (x * 8 + y)"
    and "8 * m + 7 - (x * 8 + y) - (8 * m - x * 8) = 7 - y"
    using assms(1) by simp_all
qed

text \<open>The field window: \<open>h\<close> bits are collected (\<open>h\<close> a multiple of 8), the field
  occupies \<open>len\<close> of them after \<open>st\<close> leading bits.\<close>

lemma window_field:
  assumes g: "gather buf b (8 * m) n 0 0 = Some r"
    and n: "n = Suc m - (8 * Suc m - st - len) div 8"
    and h: "8 * Suc m \<le> 64" and fit: "st + len < 8 * Suc m" and st: "st < 8"
  shows "bit (drop_bit (8 * Suc m - st - len) r AND (push_bit len 1 - 1)) i \<longleftrightarrow>
    i < len \<and> buf_bit buf (8 * b + st + len - 1 - i)"
proof (cases "i < len")
  case False
  then show ?thesis by (simp add: bit_and_iff)
next
  case True
  let ?s = "8 * Suc m - st - len"
  define j where "j = i + ?s"
  have j: "j < 8 * Suc m" using True fit by (simp add: j_def)
  have j64: "j < 64" using j h by simp
  define q where "q = 8 * m + 7 - j"
  have q: "q = st + len - 1 - i" using True fit by (simp add: q_def j_def)
  have kq: "q div 8 < n"
  proof -
    have "q div 8 * 8 < st + len" using q True by linarith
    moreover have "(8 * Suc m - st - len) div 8 * 8 + st + len \<le> 8 * Suc m" using fit by linarith
    moreover have "x * 8 < s \<Longrightarrow> d * 8 + s \<le> 8 * Suc m \<Longrightarrow> x < Suc m - d" for x d s :: nat by simp
    ultimately show ?thesis using n by simp
  qed
  have low: "8 * m - (q div 8) * 8 \<le> j" "j - (8 * m - (q div 8) * 8) = 7 - q mod 8"
  proof -
    have "j = 8 * m + 7 - q" "q \<le> 8 * m + 7" using j by (simp_all add: q_def)
    then show "8 * m - (q div 8) * 8 \<le> j" "j - (8 * m - (q div 8) * 8) = 7 - q mod 8"
      using byte_index [of "q mod 8" "q div 8" m] by simp_all
  qed
  have uniq: "k = q div 8" if "k < n" "8 * m - k * 8 \<le> j" "bit (buf ! (b + k)) (j - (8 * m - k * 8))" for k
  proof -
    from that(3) have "j - (8 * m - k * 8) < 8" by (auto dest: bit_imp_le_length)
    moreover have "k \<le> m" using that(1) n by linarith
    ultimately have "k * 8 \<le> q \<and> q < k * 8 + 8" using that(2) j by (simp add: q_def) linarith
    then have "q div 8 = k" by (intro div_nat_eqI) simp_all
    then show ?thesis ..
  qed
  have "bit r j \<longleftrightarrow> bit (buf ! (b + q div 8)) (7 - q mod 8)"
  proof
    assume "bit r j"
    then obtain k where "k < n" "8 * m - k * 8 \<le> j" "bit (buf ! (b + k)) (j - (8 * m - k * 8))"
      using gather_bits [OF g j64] by auto
    moreover from this have "k = q div 8" by (rule uniq)
    ultimately show "bit (buf ! (b + q div 8)) (7 - q mod 8)" by (simp only: low)
  next
    assume "bit (buf ! (b + q div 8)) (7 - q mod 8)"
    then have "bit (buf ! (b + q div 8)) (j - (8 * m - q div 8 * 8))" by (simp only: low)
    with kq low(1) show "bit r j" using gather_bits [OF g j64] by blast
  qed
  moreover have "buf_bit buf (8 * b + q) = bit (buf ! (b + q div 8)) (7 - q mod 8)"
    by (simp add: buf_bit_def)
  moreover have "8 * b + q = 8 * b + st + len - 1 - i" using q True by simp
  ultimately show ?thesis
    using True h fit by (simp add: bit_and_iff bit_drop_bit_eq j_def add.commute)
qed

lemma bytes_needed:
  fixes b st len m L :: nat
  assumes "8 * b + st + len \<le> 8 * L" and "st + len < 8 * Suc m"
  shows "b + (Suc m - (8 * Suc m - st - len) div 8) \<le> L"
proof -
  have "8 * Suc m - st - len < (8 * Suc m - st - len) div 8 * 8 + 8"
    using dividend_less_div_times [of 8 "8 * Suc m - st - len"] by simp
  then have "8 * Suc m < (8 * Suc m - st - len) div 8 * 8 + 8 + (st + len)" by linarith
  moreover have "8 * Suc m < d * 8 + 8 + s \<Longrightarrow> 8 * b + s \<le> 8 * L \<Longrightarrow> b + (Suc m - d) \<le> L"
    for d s :: nat
    by (cases "d \<le> Suc m") auto
  ultimately show ?thesis using assms(1) by (simp add: add.assoc)
qed

text \<open>The word \<open>v\<close> holds the \<open>len\<close> bits of the buffer that start at bit \<open>pos\<close>, the
  first of them as its most significant one.\<close>

definition is_field :: "buffer \<Rightarrow> nat \<Rightarrow> nat \<Rightarrow> u64 \<Rightarrow> bool" where
  "is_field buf pos len v \<longleftrightarrow> (\<forall>i. bit v i \<longleftrightarrow> i < len \<and> buf_bit buf (pos + len - 1 - i))"

lemma is_field_unique: "is_field buf pos len v \<Longrightarrow> is_field buf pos len w \<Longrightarrow> v = w"
  by (auto simp: is_field_def intro!: bit_word_eqI)

lemma is_field_bound: "is_field buf pos len v \<Longrightarrow> unat v < 2 ^ len"
  by (rule word_less_exp_of_bits) (simp add: is_field_def)

lemma window_reads:
  assumes "8 * b + st + len \<le> 8 * length buf" and "st + len < 8 * Suc m" and "m < 8" and "st < 8"
    and "h = 8 * m" and "s = 8 * Suc m - st - len" and "n = Suc m - s div 8"
  shows "\<exists>r. gather buf b h n 0 0 = Some r \<and>
    is_field buf (8 * b + st) len (drop_bit s r AND (push_bit len 1 - 1))"
proof -
  have "b + n \<le> length buf" using bytes_needed [OF assms(1,2)] assms(6,7) by simp
  then obtain r where r: "gather buf b h n 0 0 = Some r" using gather_total by blast
  then show ?thesis
    using window_field [of buf b m n r st len] assms(2-7) by (simp add: is_field_def)
qed

subsection \<open>The readers deliver the field\<close>

lemma field_pos: "8 * (b + s div 8) + s mod 8 = 8 * b + (s::nat)"
  by simp

lemma bitsGet48_field:
  assumes "bitlen \<le> 48" and "8 * byte_offset + startbit + bitlen \<le> 8 * length buf"
  shows "\<exists>v. bitsGet48 buf byte_offset startbit bitlen = Some v \<and>
    is_field buf (8 * byte_offset + startbit) bitlen v"
  using window_reads [of "byte_offset + startbit div 8" "startbit mod 8" bitlen buf 6 48
      "56 - startbit mod 8 - bitlen" "7 - (56 - startbit mod 8 - bitlen) div 8"] assms
  by (auto simp: bitsGet48_def Let_def field_pos add.commute [of startbit])

lemma bitsGet_short_field:
  assumes "8 * byte_offset + startbit + bitlen \<le> 8 * length buf"
    and "st = startbit mod 8" "b = byte_offset + startbit div 8"
    and "bitHigh = 8 * Suc m" and "st + bitlen < bitHigh" and "m < 8"
  shows "\<exists>v. bitsGet_short buf b st bitlen bitHigh = Some v \<and>
    is_field buf (8 * byte_offset + startbit) bitlen v"
  using window_reads [of b st bitlen buf m "bitHigh - 8" "bitHigh - st - bitlen"
      "bitHigh div 8 - (bitHigh - st - bitlen) div 8"] assms
  by (auto simp: bitsGet_short_def Let_def field_pos add.commute [of startbit])

lemma bitsGet_cases:
  assumes "0 < bitlen" "bitlen \<le> 32"
  shows "bitsGet buf byte_offset startbit bitlen =
    (let b = byte_offset + startbit div 8; st = startbit mod 8
     in if bitlen \<le> 8 then bitsGet_short buf b st bitlen 16
        else if bitlen \<le> 16 then bitsGet_short buf b st bitlen 24
        else if bitlen \<le> 24 then bitsGet_short buf b st bitlen 32
        else bitsGet48 buf b st bitlen)"
proof -
  from assms consider "(bitlen - 1) div 8 = 0" "bitlen \<le> 8" | "(bitlen - 1) div 8 = Suc 0" "8 < bitlen" "bitlen \<le> 16"
    | "(bitlen - 1) div 8 = Suc (Suc 0)" "16 < bitlen" "bitlen \<le> 24"
    | "(bitlen - 1) div 8 = Suc (Suc (Suc 0))" "24 < bitlen"
    by linarith
  then show ?thesis
    using assms by cases (simp_all add: bitsGet_def Let_def)
qed

lemma bitsGet_field:
  assumes "bitlen \<le> 32" and inside: "8 * byte_offset + startbit + bitlen \<le> 8 * length buf"
  shows "\<exists>v. bitsGet buf byte_offset startbit bitlen = Some v \<and>
    is_field buf (8 * byte_offset + startbit) bitlen v"
proof (cases "bitlen = 0")
  case True
  then show ?thesis by (simp add: bitsGet_def Let_def is_field_def)
next
  case False
  have st: "startbit mod 8 < 8" by simp
  from assms(1) consider "bitlen \<le> 8" | "8 < bitlen" "bitlen \<le> 16" | "16 < bitlen" "bitlen \<le> 24" | "24 < bitlen"
    by linarith
  then show ?thesis
  proof cases
    case 1
    then show ?thesis
      using False bitsGet_short_field [OF inside refl refl, of 16 1] st by (simp add: bitsGet_cases)
  next
    case 2
    then show ?thesis
      using False bitsGet_short_field [OF inside refl refl, of 24 2] st by (simp add: bitsGet_cases)
  next
    case 3
    then show ?thesis
      using False bitsGet_short_field [OF inside refl refl, of 32 3] st by (simp add: bitsGet_cases)
  next
    case 4
    then show ?thesis
      using bitsGet48_field [of bitlen "byte_offset + startbit div 8" "startbit mod 8" buf] assms
      by (simp add: bitsGet_cases field_pos add.commute [of startbit])
  qed
qed

subsection \<open>Fields as numbers\<close>

text \<open>The number written in \<open>len\<close> bits from bit \<open>pos\<close> of a buffer.\<close>

definition field :: "buffer \<Rightarrow> nat \<Rightarrow> nat \<Rightarrow> u64" where
  "field buf pos len = horner_sum of_bool 2 (map (\<lambda>i. buf_bit buf (pos + len - 1 - i)) [0..<len])"

lemma field_is_field: "len \<le> 64 \<Longrightarrow> is_field buf pos len (field buf pos len)"
  by (auto simp: is_field_def field_def bit_horner_sum_bit_iff)

lemma bitsGet_eq:
  assumes "bitlen \<le> 32" and "8 * byte_offset + startbit + bitlen \<le> 8 * length buf"
  shows "bitsGet buf byte_offset startbit bitlen = Some (field buf (8 * byte_offset + startbit) bitlen)"
  using bitsGet_field [OF assms] field_is_field [of bitlen buf "8 * byte_offset + startbit"] assms(1)
  by (auto dest: is_field_unique)

lemma field_bound: "len \<le> 64 \<Longrightarrow> unat (field buf pos len) < 2 ^ len"
  using field_is_field is_field_bound by blast

lemma bitsGet_unsupported: "32 < bitlen \<Longrightarrow> bitsGet buf byte_offset startbit bitlen = Some 0xFEFEFEFE"
proof -
  assume "32 < bitlen"
  then have "\<exists>n. (bitlen - 1) div 8 = Suc (Suc (Suc (Suc n)))"
    by (intro exI [of _ "(bitlen - 1) div 8 - 4"]) linarith
  with \<open>32 < bitlen\<close> show ?thesis by (auto simp: bitsGet_def Let_def)
qed

lemma bitsGet48_eq:
  assumes "bitlen \<le> 48" and "8 * byte_offset + startbit + bitlen \<le> 8 * length buf"
  shows "bitsGet48 buf byte_offset startbit bitlen = Some (field buf (8 * byte_offset + startbit) bitlen)"
  using bitsGet48_field [OF assms] field_is_field [of bitlen buf "8 * byte_offset + startbit"] assms(1)
  by (auto dest: is_field_unique)

text \<open>C10: both bit-field readers deliver exactly the bits of the field as a number, for every
  start bit and every width they support (32 bits and 48 bits), and do not fault when the field
  lies inside the buffer, even when the buffer ends with it; a width they do not support gives
  their error constant for every buffer and every offset, without reading anything.\<close>
theorem bitsGet_delivers_field:
  "(8 * byte_offset + startbit + bitlen \<le> 8 * length buf \<longrightarrow>
      (bitlen \<le> 32 \<longrightarrow> bitsGet buf byte_offset startbit bitlen = Some (field buf (8 * byte_offset + startbit) bitlen))
      \<and> (bitlen \<le> 48 \<longrightarrow> bitsGet48 buf byte_offset startbit bitlen = Some (field buf (8 * byte_offset + startbit) bitlen)
           \<and> unat (field buf (8 * byte_offset + startbit) bitlen) < 2 ^ bitlen))
    \<and> (32 < bitlen \<longrightarrow> bitsGet buf byte_offset startbit bitlen = Some 0xFEFEFEFE)
    \<and> (48 < bitlen \<longrightarrow> bitsGet48 buf byte_offset startbit bitlen = Some 0xFEFEFEFEFEFEFEFE)"
  using bitsGet_eq [of bitlen byte_offset startbit buf] bitsGet48_eq [of bitlen byte_offset startbit buf]
    bitsGet_unsupported [of bitlen buf byte_offset startbit] field_bound [of bitlen buf "8 * byte_offset + startbit"]
  by (simp add: bitsGet48_def)

theorem bitsGet_delivers_field_witness:
  "bitsGet [0x12, 0x34, 0x56] 0 4 12 = Some (field [0x12, 0x34, 0x56] 4 12)
   \<and> unat (field [0x12, 0x34, 0x56] 4 12) < 4096
   \<and> bitsGet [] 7 3 33 = Some 0xFEFEFEFE"
  using bitsGet_delivers_field [of 0 4 12 "[0x12, 0x34, 0x56]"] bitsGet_delivers_field [of 7 3 33 "[]"] by simp

end
