(* ===== verification/SLists.thy ===== *)
theory SLists
  imports Prelude
begin

text \<open>
  common/list.c, singly linked lists.  Elements are addresses; the \<open>next\<close> fields of
  all elements are one map from addresses to pointers, which the operations update
  the way the code assigns the fields.  A list header is the record of its two
  pointers.  \<open>slist_rep\<close> relates heap and header to the sequence of elements; every
  operation is shown to implement the operation of the same name on sequences.
\<close>

subsection \<open>Data\<close>

type_synonym addr = nat
type_synonym ptr = "addr option"
type_synonym sheap = "addr \<Rightarrow> ptr"

record slist =
  sfirst :: ptr
  slast :: ptr

subsection \<open>Operations\<close>

definition slistInit :: "slist" where
  "slistInit = \<lparr>sfirst = None, slast = None\<rparr>"

definition slistFirst :: "slist \<Rightarrow> ptr" where
  "slistFirst l = sfirst l"

definition slistLast :: "slist \<Rightarrow> ptr" where
  "slistLast l = slast l"

definition slistENext :: "sheap \<Rightarrow> addr \<Rightarrow> ptr" where
  "slistENext h e = h e"

definition slistRemoveFirst :: "sheap \<Rightarrow> slist \<Rightarrow> sheap \<times> slist \<times> ptr" where
  "slistRemoveFirst h l =
     (case sfirst l of
        None \<Rightarrow> (h, l, None)
      | Some f \<Rightarrow>
          let l1 = l\<lparr>sfirst := h f\<rparr>;
              l2 = (if sfirst l1 = None then l1\<lparr>slast := None\<rparr> else l1)
          in (h(f := None), l2, Some f))"

definition slistInsertFirst :: "sheap \<Rightarrow> slist \<Rightarrow> addr \<Rightarrow> sheap \<times> slist" where
  "slistInsertFirst h l e =
     (let h1 = h(e := sfirst l);
          l1 = (if h1 e = None then l\<lparr>slast := Some e\<rparr> else l)
      in (h1, l1\<lparr>sfirst := Some e\<rparr>))"

definition slistInsertLast :: "sheap \<Rightarrow> slist \<Rightarrow> addr \<Rightarrow> sheap \<times> slist" where
  "slistInsertLast h l e =
     (let h1 = h(e := None)
      in case slast l of
           None \<Rightarrow> (h1, l\<lparr>sfirst := Some e, slast := Some e\<rparr>)
         | Some t \<Rightarrow> (h1(t := Some e), l\<lparr>slast := Some e\<rparr>))"

definition slistRemoveNext :: "sheap \<Rightarrow> slist \<Rightarrow> ptr \<Rightarrow> sheap \<times> slist \<times> ptr" where
  "slistRemoveNext h l ep =
     (case ep of
        None \<Rightarrow> slistRemoveFirst h l
      | Some e \<Rightarrow>
          (case h e of
             None \<Rightarrow> (h, l, None)
           | Some n \<Rightarrow>
               let h1 = h(e := h n);
                   h2 = h1(n := None)
               in (h2, (if h2 e = None then l\<lparr>slast := Some e\<rparr> else l), Some n)))"

definition slistInsertAfter :: "sheap \<Rightarrow> slist \<Rightarrow> ptr \<Rightarrow> addr \<Rightarrow> sheap \<times> slist" where
  "slistInsertAfter h l ap b =
     (let (h1, l1) =
        (case ap of
           None \<Rightarrow> (h(b := sfirst l), l\<lparr>sfirst := Some b\<rparr>)
         | Some a \<Rightarrow> ((h(b := h a))(a := Some b), l))
      in (h1, if h1 b = None then l1\<lparr>slast := Some b\<rparr> else l1))"

text \<open>The traversal loops.  \<open>None\<close> stands for a loop that does not end.\<close>

partial_function (option) slist_count_loop :: "sheap \<Rightarrow> ptr \<Rightarrow> nat \<Rightarrow> nat option" where
  "slist_count_loop h p rv =
     (case p of None \<Rightarrow> Some rv | Some e \<Rightarrow> slist_count_loop h (slistENext h e) (Suc rv))"

definition slistCount :: "sheap \<Rightarrow> slist \<Rightarrow> nat option" where
  "slistCount h l = slist_count_loop h (slistFirst l) 0"

text \<open>\<open>slistForEach\<close> reads the \<open>next\<close> field before it calls \<open>func\<close>, which may change
  anything in the state, the element's own field included.\<close>

partial_function (option) slist_each_loop ::
  "('s \<Rightarrow> sheap) \<Rightarrow> ('s \<Rightarrow> addr \<Rightarrow> 's) \<Rightarrow> 's \<Rightarrow> ptr \<Rightarrow> 's option" where
  "slist_each_loop heap func s p =
     (case p of
        None \<Rightarrow> Some s
      | Some e \<Rightarrow> slist_each_loop heap func (func s e) (heap s e))"

definition slistForEach :: "('s \<Rightarrow> sheap) \<Rightarrow> ('s \<Rightarrow> addr \<Rightarrow> 's) \<Rightarrow> 's \<Rightarrow> slist \<Rightarrow> 's option" where
  "slistForEach heap func s l = slist_each_loop heap func s (sfirst l)"

text \<open>Lists on files: each element is preceded by \<open>FID_VALID\<close>, the end is marked by
  \<open>FID_NULL\<close>.  The callbacks are parameters: \<open>write\<close> gives the bytes written for an
  element and whether it failed, \<open>read\<close> consumes bytes, may allocate and initialise
  an element (or fail with NULL), and threads the client's state.\<close>

abbreviation FID_NULL :: u8 where "FID_NULL \<equiv> 48"
abbreviation FID_VALID :: u8 where "FID_VALID \<equiv> 88"

partial_function (option) slist_write_loop ::
  "sheap \<Rightarrow> (addr \<Rightarrow> buffer \<times> bool) \<Rightarrow> ptr \<Rightarrow> buffer \<Rightarrow> (buffer \<times> nat) option" where
  "slist_write_loop h write p f =
     (case p of
        None \<Rightarrow> Some (f @ [FID_NULL], 0)
      | Some e \<Rightarrow>
          if snd (write e) then Some (f @ [FID_VALID] @ fst (write e), 1)
          else slist_write_loop h write (slistENext h e) (f @ [FID_VALID] @ fst (write e)))"

definition slistWrite :: "sheap \<Rightarrow> slist \<Rightarrow> (addr \<Rightarrow> buffer \<times> bool) \<Rightarrow> buffer \<Rightarrow> (buffer \<times> nat) option" where
  "slistWrite h l write f = slist_write_loop h write (slistFirst l) f"

type_synonym 's reader = "'s \<Rightarrow> sheap \<Rightarrow> buffer \<Rightarrow> ptr \<times> 's \<times> sheap \<times> buffer"

partial_function (option) slist_read_loop ::
  "'s reader \<Rightarrow> 's \<Rightarrow> sheap \<Rightarrow> slist \<Rightarrow> int \<Rightarrow> buffer \<Rightarrow> (nat \<times> 's \<times> sheap \<times> slist \<times> buffer) option" where
  "slist_read_loop read s h l node_id f =
     (if node_id = uint FID_VALID
      then case read s h f of
             (None, s1, h1, f1) \<Rightarrow> Some (1, s1, h1, l, f1)
           | (Some e, s1, h1, f1) \<Rightarrow>
               slist_read_loop read s1 (fst (slistInsertLast h1 l e)) (snd (slistInsertLast h1 l e))
                 (fst (fgetc f1)) (snd (fgetc f1))
      else Some (if node_id \<noteq> uint FID_NULL then 1 else 0, s, h, l, f))"

definition slistRead :: "'s reader \<Rightarrow> 's \<Rightarrow> sheap \<Rightarrow> buffer \<Rightarrow> (nat \<times> 's \<times> sheap \<times> slist \<times> buffer) option" where
  "slistRead read s h f =
     slist_read_loop read s h \<lparr>sfirst = None, slast = None\<rparr> (fst (fgetc f)) (snd (fgetc f))"

partial_function (option) slist_size_loop :: "sheap \<Rightarrow> (addr \<Rightarrow> u64) \<Rightarrow> ptr \<Rightarrow> u64 \<Rightarrow> u64 option" where
  "slist_size_loop h sz p rv =
     (case p of None \<Rightarrow> Some (rv + 1) | Some e \<Rightarrow> slist_size_loop h sz (slistENext h e) (rv + (1 + sz e)))"

definition slistWriteSize :: "sheap \<Rightarrow> slist \<Rightarrow> (addr \<Rightarrow> u64) \<Rightarrow> u64 option" where
  "slistWriteSize h l sz = slist_size_loop h sz (slistFirst l) 0"

subsection \<open>Sequences on the heap\<close>

primrec sseg :: "sheap \<Rightarrow> ptr \<Rightarrow> addr list \<Rightarrow> ptr \<Rightarrow> bool" where
  "sseg h p [] q = (p = q)"
| "sseg h p (x # xs) q = (p = Some x \<and> sseg h (h x) xs q)"

definition slist_rep :: "sheap \<Rightarrow> slist \<Rightarrow> addr list \<Rightarrow> bool" where
  "slist_rep h l xs \<longleftrightarrow> sseg h (sfirst l) xs None \<and> distinct xs \<and>
     slast l = (if xs = [] then None else Some (last xs))"

lemma sseg_append: "sseg h p (xs @ ys) q \<longleftrightarrow> (\<exists>m. sseg h p xs m \<and> sseg h m ys q)"
  by (induction xs arbitrary: p) auto

lemma sseg_frame [simp]: "a \<notin> set xs \<Longrightarrow> sseg (h(a := v)) p xs q = sseg h p xs q"
  by (induction xs arbitrary: p) auto

lemma sseg_None [simp]: "sseg h None xs None \<longleftrightarrow> xs = []"
  by (cases xs) auto

lemma sseg_unique: "sseg h p xs None \<Longrightarrow> sseg h p ys None \<Longrightarrow> xs = ys"
proof (induction xs arbitrary: p ys)
  case Nil
  then show ?case by (cases ys) auto
next
  case (Cons x xs)
  then show ?case by (cases ys) auto
qed

lemma slist_rep_unique: "slist_rep h l xs \<Longrightarrow> slist_rep h l ys \<Longrightarrow> xs = ys"
  by (auto simp: slist_rep_def intro: sseg_unique)

lemma slist_rep_Nil_iff: "slist_rep h l [] \<longleftrightarrow> sfirst l = None \<and> slast l = None"
  by (auto simp: slist_rep_def)

lemma slist_rep_first: "slist_rep h l xs \<Longrightarrow> sfirst l = (if xs = [] then None else Some (hd xs))"
  by (cases xs) (auto simp: slist_rep_def)

lemma slist_rep_frame: "a \<notin> set xs \<Longrightarrow> slist_rep (h(a := v)) l xs = slist_rep h l xs"
  by (simp add: slist_rep_def)

subsection \<open>The operations on sequences\<close>

lemma slistInit_rep: "slist_rep h slistInit []"
  by (simp add: slistInit_def slist_rep_def)

lemma slistInsertFirst_rep:
  assumes "slist_rep h l xs" and "e \<notin> set xs" and "slistInsertFirst h l e = (h', l')"
  shows "slist_rep h' l' (e # xs)"
  using assms slist_rep_first [OF assms(1)]
  by (auto simp: slistInsertFirst_def slist_rep_def Let_def split: if_splits)

lemma slistInsertLast_rep:
  assumes "slist_rep h l xs" and "e \<notin> set xs" and "slistInsertLast h l e = (h', l')"
  shows "slist_rep h' l' (xs @ [e])"
proof (cases xs rule: rev_cases)
  case Nil
  with assms show ?thesis by (auto simp: slistInsertLast_def slist_rep_def Let_def)
next
  case (snoc ys t)
  with assms have "slast l = Some t" "sseg h (sfirst l) ys (Some t)" "t \<noteq> e" "t \<notin> set ys" "e \<notin> set ys"
    by (auto simp: slist_rep_def sseg_append)
  with assms snoc show ?thesis
    by (auto simp: slistInsertLast_def slist_rep_def Let_def sseg_append)
qed

lemma slistRemoveFirst_rep:
  assumes "slist_rep h l xs" and "slistRemoveFirst h l = (h', l', r)"
  shows "slist_rep h' l' (tl xs) \<and> r = (case xs of [] \<Rightarrow> None | x # _ \<Rightarrow> Some x) \<and>
    (\<forall>a. a \<notin> set xs \<longrightarrow> h' a = h a)"
proof (cases xs)
  case Nil
  with assms show ?thesis by (auto simp: slistRemoveFirst_def slist_rep_def)
next
  case (Cons x ys)
  with assms(1) have "sfirst l = Some x" "sseg h (h x) ys None" "x \<notin> set ys" "h x = None \<longleftrightarrow> ys = []"
    by (cases ys; auto simp: slist_rep_def)+
  with assms Cons show ?thesis
    by (auto simp: slistRemoveFirst_def slist_rep_def Let_def split: if_splits)
qed

lemma slist_rep_split:
  assumes "slist_rep h l (ys @ e # zs)"
  shows "sseg h (sfirst l) ys (Some e)" "sseg h (h e) zs None" "distinct (ys @ e # zs)"
    "h e = (if zs = [] then None else Some (hd zs))"
proof -
  from assms show "sseg h (sfirst l) ys (Some e)" "sseg h (h e) zs None" "distinct (ys @ e # zs)"
    by (auto simp: slist_rep_def sseg_append)
  then show "h e = (if zs = [] then None else Some (hd zs))" by (cases zs) auto
qed

lemma slistRemoveNext_rep:
  assumes rep: "slist_rep h l (ys @ e # zs)" and op: "slistRemoveNext h l (Some e) = (h', l', r)"
  shows "slist_rep h' l' (ys @ e # tl zs) \<and> r = (case zs of [] \<Rightarrow> None | z # _ \<Rightarrow> Some z)"
proof (cases zs)
  case Nil
  with slist_rep_split [OF rep] op rep show ?thesis by (simp add: slistRemoveNext_def)
next
  case (Cons z zs')
  note split = slist_rep_split [OF rep] and next_split = slist_rep_split [of h l "ys @ [e]" z zs']
  have z: "h z = (if zs' = [] then None else Some (hd zs'))" "sseg h (h z) zs' None"
    using next_split rep Cons by simp_all
  have "slast l = Some (last (z # zs'))" using rep Cons by (simp add: slist_rep_def)
  with split z op Cons show ?thesis
    by (auto simp: slistRemoveNext_def slist_rep_def sseg_append Let_def split: if_splits)
qed

lemma slistInsertAfter_rep:
  assumes rep: "slist_rep h l (ys @ a # zs)" and new: "b \<notin> set (ys @ a # zs)"
    and op: "slistInsertAfter h l (Some a) b = (h', l')"
  shows "slist_rep h' l' (ys @ a # b # zs)"
proof -
  have "slast l = Some (last (a # zs))" using rep by (simp add: slist_rep_def)
  with slist_rep_split [OF rep] new op show ?thesis
    by (auto simp: slistInsertAfter_def slist_rep_def sseg_append Let_def split: if_splits)
qed

lemma slistInsertAfter_None_rep:
  assumes "slist_rep h l xs" and "b \<notin> set xs" and "slistInsertAfter h l None b = (h', l')"
  shows "slist_rep h' l' (b # xs)"
  using assms slist_rep_first [OF assms(1)]
  by (auto simp: slistInsertAfter_def slist_rep_def Let_def split: if_splits)

lemma slist_count_loop_eq: "sseg h p xs None \<Longrightarrow> slist_count_loop h p n = Some (n + length xs)"
  by (induction xs arbitrary: p n) (simp_all add: slist_count_loop.simps slistENext_def)

lemma slistCount_rep: "slist_rep h l xs \<Longrightarrow> slistCount h l = Some (length xs)"
  using slist_count_loop_eq [of h "sfirst l" xs 0]
  by (simp add: slistCount_def slistFirst_def slist_rep_def)

lemma slist_size_loop_eq:
  "sseg h p xs None \<Longrightarrow> slist_size_loop h sz p rv = Some (rv + sum_list (map (\<lambda>e. 1 + sz e) xs) + 1)"
  by (induction xs arbitrary: p rv) (simp_all add: slist_size_loop.simps slistENext_def add.assoc)

text \<open>A visitor may destroy the element it is called on, but not the links of the
  elements that are still to come.\<close>

lemma slist_each_loop_eq:
  assumes "sseg (heap s) p xs None" and "distinct xs"
    and "\<And>t e a. a \<noteq> e \<Longrightarrow> heap (func t e) a = heap t a"
  shows "slist_each_loop heap func s p = Some (fold (\<lambda>e t. func t e) xs s)"
  using assms(1,2)
proof (induction xs arbitrary: s p)
  case Nil
  then show ?case by (simp add: slist_each_loop.simps)
next
  case (Cons x xs)
  have same: "sseg h q ys None \<Longrightarrow> \<forall>y \<in> set ys. g y = h y \<Longrightarrow> sseg g q ys None" for g h q and ys :: "addr list"
    by (induction ys arbitrary: q) auto
  have "\<forall>y \<in> set xs. heap (func s x) y = heap s y" 
    using Cons.prems(2) by (metis assms(3) distinct.simps(2))
  then have "sseg (heap (func s x)) (heap s x) xs None" using same Cons.prems(1) by auto
  with Cons.IH Cons.prems show ?case by (simp add: slist_each_loop.simps)
qed

lemma slistForEach_rep:
  assumes "slist_rep (heap s) l xs" and "\<And>t e a. a \<noteq> e \<Longrightarrow> heap (func t e) a = heap t a"
  shows "slistForEach heap func s l = Some (fold (\<lambda>e t. func t e) xs s)"
  using assms slist_each_loop_eq [of heap s "sfirst l" xs func] by (simp add: slistForEach_def slist_rep_def)

subsection \<open>Lists on files\<close>

lemma slist_write_loop_eq:
  assumes "sseg h p xs None" and "\<forall>e \<in> set xs. \<not> snd (write e)"
  shows "slist_write_loop h write p f = Some (f @ concat (map (\<lambda>e. FID_VALID # fst (write e)) xs) @ [FID_NULL], 0)"
  using assms by (induction xs arbitrary: p f) (simp_all add: slist_write_loop.simps slistENext_def)

lemma slistWrite_rep:
  assumes "slist_rep h l xs" and "\<forall>e \<in> set xs. \<not> snd (write e)"
  shows "slistWrite h l write f = Some (f @ concat (map (\<lambda>e. FID_VALID # fst (write e)) xs) @ [FID_NULL], 0)"
  using assms by (simp add: slistWrite_def slistFirst_def slist_rep_def slist_write_loop_eq)

lemma slistWriteSize_rep:
  assumes "slist_rep h l xs"
  shows "slistWriteSize h l sz = Some (sum_list (map (\<lambda>e. 1 + sz e) xs) + 1)"
  using assms slist_size_loop_eq [of h "sfirst l" xs sz 0]
  by (simp add: slistWriteSize_def slistFirst_def slist_rep_def)

text \<open>Reading back.  The reader is sound for an encoding \<open>enc\<close> of payloads if on every
  encoded payload it allocates an unused element that carries the payload.\<close>

definition reader_sound :: "'s reader \<Rightarrow> ('v \<Rightarrow> buffer) \<Rightarrow> ('s \<Rightarrow> addr set) \<Rightarrow> ('s \<Rightarrow> addr \<Rightarrow> 'v) \<Rightarrow> bool" where
  "reader_sound read enc used pay \<longleftrightarrow>
     (\<forall>s h v rest. \<exists>e s'. read s h (enc v @ rest) = (Some e, s', h(e := None), rest) \<and>
        e \<notin> used s \<and> used s' = insert e (used s) \<and> pay s' = (pay s)(e := v))"

lemma slist_read_loop_eq:
  assumes "reader_sound read enc used pay" and "slist_rep h l xs" and "set xs \<subseteq> used s"
  shows "\<exists>s' h' l' ys. slist_read_loop read s h l (fst (fgetc (concat (map (\<lambda>v. FID_VALID # enc v) vs) @ FID_NULL # rest)))
        (snd (fgetc (concat (map (\<lambda>v. FID_VALID # enc v) vs) @ FID_NULL # rest))) = Some (0, s', h', l', rest) \<and>
      slist_rep h' l' (xs @ ys) \<and> map (pay s') ys = vs \<and> (\<forall>a \<in> used s. pay s' a = pay s a) \<and>
      set ys \<inter> used s = {}"
  using assms(2,3)
proof (induction vs arbitrary: s h l xs)
  case Nil
  then show ?case by (auto simp: slist_read_loop.simps)
next
  case (Cons v vs)
  let ?rest = "concat (map (\<lambda>v. FID_VALID # enc v) vs) @ FID_NULL # rest"
  obtain e s1 where r: "read s h (enc v @ ?rest) = (Some e, s1, h(e := None), ?rest)"
    and e: "e \<notin> used s" "used s1 = insert e (used s)" "pay s1 = (pay s)(e := v)"
    using assms(1) unfolding reader_sound_def by meson
  obtain h2 l2 where ins: "slistInsertLast (h(e := None)) l e = (h2, l2)" by force
  have fresh: "e \<notin> set xs" using e Cons.prems by auto
  have "slist_rep (h(e := None)) l xs" using Cons.prems fresh by (simp add: slist_rep_frame)
  then have rep2: "slist_rep h2 l2 (xs @ [e])" using fresh ins by (rule slistInsertLast_rep)
  have "set (xs @ [e]) \<subseteq> used s1" using Cons.prems e by auto
  from Cons.IH [OF rep2 this] obtain s' h' l' ys where
    loop: "slist_read_loop read s1 h2 l2 (fst (fgetc ?rest)) (snd (fgetc ?rest)) = Some (0, s', h', l', rest)"
    and fin: "slist_rep h' l' ((xs @ [e]) @ ys)" "map (pay s') ys = vs" "\<forall>a \<in> used s1. pay s' a = pay s1 a"
      "set ys \<inter> used s1 = {}"
    by blast
  have "slist_read_loop read s h l (uint FID_VALID) (enc v @ ?rest) = Some (0, s', h', l', rest)"
    using r ins loop by (subst slist_read_loop.simps) simp
  with fin e show ?case
    by (intro exI [of _ s'] exI [of _ h'] exI [of _ l'] exI [of _ "e # ys"]) auto
qed

lemma slistRead_rep:
  assumes "reader_sound read enc used pay"
  shows "\<exists>s' h' l' ys. slistRead read s h (concat (map (\<lambda>v. FID_VALID # enc v) vs) @ FID_NULL # rest)
      = Some (0, s', h', l', rest) \<and> slist_rep h' l' ys \<and> map (pay s') ys = vs"
  using slist_read_loop_eq [OF assms, of h "\<lparr>sfirst = None, slast = None\<rparr>" "[]" s vs rest]
  by (auto simp: slistRead_def slist_rep_def)

subsection \<open>Sequences of operations\<close>

text \<open>The mutators as one step function, and what a client expects of them: the same
  operations on plain sequences, undefined where the client breaks the contract
  (inserting an element that is already linked, naming one that is not).\<close>

datatype sop = SInsertFirst addr | SInsertLast addr | SInsertAfter ptr addr | SRemoveFirst | SRemoveNext ptr

fun slist_exec :: "sop \<Rightarrow> sheap \<times> slist \<Rightarrow> sheap \<times> slist \<times> ptr" where
  "slist_exec (SInsertFirst e) (h, l) = (let (h', l') = slistInsertFirst h l e in (h', l', None))"
| "slist_exec (SInsertLast e) (h, l) = (let (h', l') = slistInsertLast h l e in (h', l', None))"
| "slist_exec (SInsertAfter a b) (h, l) = (let (h', l') = slistInsertAfter h l a b in (h', l', None))"
| "slist_exec SRemoveFirst (h, l) = slistRemoveFirst h l"
| "slist_exec (SRemoveNext e) (h, l) = slistRemoveNext h l e"

fun after :: "addr \<Rightarrow> addr list \<Rightarrow> addr list" where
  "after a [] = []"
| "after a (x # xs) = (if x = a then xs else after a xs)"

fun upto_incl :: "addr \<Rightarrow> addr list \<Rightarrow> addr list" where
  "upto_incl a [] = []"
| "upto_incl a (x # xs) = (if x = a then [x] else x # upto_incl a xs)"

lemma split_at: "a \<in> set xs \<Longrightarrow> \<exists>ys zs. xs = ys @ a # zs \<and> a \<notin> set ys \<and> upto_incl a xs = ys @ [a] \<and> after a xs = zs"
proof (induction xs)
  case (Cons x xs)
  show ?case
  proof (cases "x = a")
    case True
    then have "x # xs = [] @ a # xs \<and> a \<notin> set [] \<and> upto_incl a (x # xs) = [] @ [a] \<and> after a (x # xs) = xs"
      by simp
    then show ?thesis by blast
  next
    case False
    with Cons obtain ys zs where "xs = ys @ a # zs" "a \<notin> set ys" "upto_incl a xs = ys @ [a]" "after a xs = zs"
      by auto
    with False show ?thesis by (intro exI [of _ "x # ys"] exI [of _ zs]) auto
  qed
qed simp

definition front :: "addr list \<Rightarrow> ptr" where
  "front xs = (case xs of [] \<Rightarrow> None | x # _ \<Rightarrow> Some x)"

fun seq_exec :: "sop \<Rightarrow> addr list \<Rightarrow> (addr list \<times> ptr) option" where
  "seq_exec (SInsertFirst e) xs = (if e \<in> set xs then None else Some (e # xs, None))"
| "seq_exec (SInsertLast e) xs = (if e \<in> set xs then None else Some (xs @ [e], None))"
| "seq_exec (SInsertAfter None b) xs = (if b \<in> set xs then None else Some (b # xs, None))"
| "seq_exec (SInsertAfter (Some a) b) xs =
     (if b \<in> set xs \<or> a \<notin> set xs then None else Some (upto_incl a xs @ b # after a xs, None))"
| "seq_exec SRemoveFirst xs = Some (tl xs, front xs)"
| "seq_exec (SRemoveNext None) xs = Some (tl xs, front xs)"
| "seq_exec (SRemoveNext (Some e)) xs =
     (if e \<notin> set xs then None else Some (upto_incl e xs @ tl (after e xs), front (after e xs)))"

lemma slist_exec_refines:
  assumes "slist_rep h l xs" and "seq_exec op xs = Some (xs', r)"
  shows "\<exists>h' l'. slist_exec op (h, l) = (h', l', r) \<and> slist_rep h' l' xs'"
proof (cases op)
  case (SInsertFirst e)
  with assms slistInsertFirst_rep [of h l xs e] show ?thesis
    by (cases "slistInsertFirst h l e") (auto split: if_splits)
next
  case (SInsertLast e)
  with assms slistInsertLast_rep [of h l xs e] show ?thesis
    by (cases "slistInsertLast h l e") (auto split: if_splits)
next
  case (SInsertAfter ap b)
  obtain h' l' where eq: "slistInsertAfter h l ap b = (h', l')" by force
  show ?thesis
  proof (cases ap)
    case None
    with SInsertAfter assms eq slistInsertAfter_None_rep [of h l xs b] show ?thesis
      by (auto split: if_splits)
  next
    case (Some a)
    with SInsertAfter assms have "a \<in> set xs" "b \<notin> set xs" by (auto split: if_splits)
    then obtain ys zs where "xs = ys @ a # zs" "upto_incl a xs = ys @ [a]" "after a xs = zs"
      using split_at by blast
    with Some SInsertAfter assms eq slistInsertAfter_rep [of h l ys a zs b h' l'] \<open>b \<notin> set xs\<close> show ?thesis
      by (auto split: if_splits)
  qed
next
  case SRemoveFirst
  with assms slistRemoveFirst_rep [of h l xs] show ?thesis
    by (cases "slistRemoveFirst h l") (auto simp: front_def)
next
  case (SRemoveNext ep)
  show ?thesis
  proof (cases ep)
    case None
    with SRemoveNext assms slistRemoveFirst_rep [of h l xs] show ?thesis
      by (cases "slistRemoveFirst h l") (auto simp: front_def slistRemoveNext_def)
  next
    case (Some e)
    with SRemoveNext assms have "e \<in> set xs" by (auto split: if_splits)
    then obtain ys zs where "xs = ys @ e # zs" "upto_incl e xs = ys @ [e]" "after e xs = zs"
      using split_at by blast
    with Some SRemoveNext assms slistRemoveNext_rep [of h l ys e zs] show ?thesis
      by (cases "slistRemoveNext h l ep") (auto simp: front_def split: if_splits)
  qed
qed

primrec slist_run :: "sop list \<Rightarrow> sheap \<times> slist \<Rightarrow> sheap \<times> slist \<times> ptr list" where
  "slist_run [] s = (fst s, snd s, [])"
| "slist_run (op # ops) s =
     (let (h, l, r) = slist_exec op s; (h', l', rs) = slist_run ops (h, l) in (h', l', r # rs))"

primrec seq_run :: "sop list \<Rightarrow> addr list \<Rightarrow> (addr list \<times> ptr list) option" where
  "seq_run [] xs = Some (xs, [])"
| "seq_run (op # ops) xs =
     (case seq_exec op xs of
        None \<Rightarrow> None
      | Some (ys, r) \<Rightarrow> map_option (\<lambda>(zs, rs). (zs, r # rs)) (seq_run ops ys))"

lemma slist_run_refines:
  assumes "slist_rep h l xs" and "seq_run ops xs = Some (xs', rs)"
  shows "\<exists>h' l'. slist_run ops (h, l) = (h', l', rs) \<and> slist_rep h' l' xs'"
  using assms
proof (induction ops arbitrary: h l xs rs)
  case Nil
  then show ?case by simp
next
  case (Cons op ops)
  from Cons.prems(2) obtain ys r rs2 where ys: "seq_exec op xs = Some (ys, r)"
    and run: "seq_run ops ys = Some (xs', rs2)" and rs: "rs = r # rs2"
    by (auto split: option.splits)
  from slist_exec_refines [OF Cons.prems(1) ys] obtain h1 l1
    where "slist_exec op (h, l) = (h1, l1, r)" "slist_rep h1 l1 ys" by blast
  with Cons.IH [OF _ run] rs show ?case by fastforce
qed

text \<open>C24: Any sequence of list mutations that respects the callers' contract behaves on
  the linked representation as it does on plain sequences: starting from an
  initialised list, the heap and header after the run represent the resulting
  sequence (so first, last and every link agree with it), and each operation
  returns the element the sequence operation returns.\<close>

theorem slist_implements_sequence:
  assumes "seq_run ops [] = Some (xs, rs)"
  shows "\<exists>h' l'. slist_run ops (h, slistInit) = (h', l', rs) \<and> slist_rep h' l' xs \<and>
    slistFirst l' = front xs \<and> slistCount h' l' = Some (length xs)"
proof -
  from slist_run_refines [OF slistInit_rep assms] obtain h' l'
    where run: "slist_run ops (h, slistInit) = (h', l', rs)" and rep: "slist_rep h' l' xs" by blast
  from rep have "slistFirst l' = front xs" "slistCount h' l' = Some (length xs)"
    using slist_rep_first [OF rep] by (auto simp: slistFirst_def front_def slistCount_rep split: list.split)
  with run rep show ?thesis by blast
qed

theorem slist_implements_sequence_witness:
  "\<exists>h' l'. slist_run [SInsertLast 1, SInsertFirst 2, SInsertAfter (Some 2) 3, SRemoveNext (Some 3), SRemoveFirst]
      (\<lambda>_. None, slistInit) = (h', l', [None, None, None, Some 1, Some 2]) \<and> slist_rep h' l' [3] \<and>
    slistFirst l' = front [3] \<and> slistCount h' l' = Some (length [3::addr])"
proof -
  have "seq_run [SInsertLast 1, SInsertFirst 2, SInsertAfter (Some 2) 3, SRemoveNext (Some 3), SRemoveFirst] []
      = Some ([3], [None, None, None, Some 1, Some 2])" by (simp add: front_def)
  from slist_implements_sequence [OF this, of "\<lambda>_. None"] show ?thesis .
qed

end
