(* ===== verification/DLists.thy ===== *)
theory DLists
  imports SLists
begin

text \<open>
  common/list.c, doubly linked lists, in the style of \<open>SLists\<close>: two fields per
  element, a header with the two ends.  The interface other components rely on is
  the locale \<open>linked_sequence\<close>; it is interpreted on the operations of this theory.
\<close>

subsection \<open>Data\<close>

record dheap =
  dnext :: "addr \<Rightarrow> ptr"
  dprev :: "addr \<Rightarrow> ptr"

record dlist =
  dfirst :: ptr
  dlast :: ptr

abbreviation set_next :: "addr \<Rightarrow> ptr \<Rightarrow> dheap \<Rightarrow> dheap" where
  "set_next a v h \<equiv> h\<lparr>dnext := (dnext h)(a := v)\<rparr>"

abbreviation set_prev :: "addr \<Rightarrow> ptr \<Rightarrow> dheap \<Rightarrow> dheap" where
  "set_prev a v h \<equiv> h\<lparr>dprev := (dprev h)(a := v)\<rparr>"

subsection \<open>Operations\<close>

definition dlistInit :: dlist where
  "dlistInit = \<lparr>dfirst = None, dlast = None\<rparr>"

definition dlistFirst :: "dlist \<Rightarrow> ptr" where
  "dlistFirst l = dfirst l"

definition dlistLast :: "dlist \<Rightarrow> ptr" where
  "dlistLast l = dlast l"

definition dlistENext :: "dheap \<Rightarrow> addr \<Rightarrow> ptr" where
  "dlistENext h e = dnext h e"

definition dlistEPrev :: "dheap \<Rightarrow> addr \<Rightarrow> ptr" where
  "dlistEPrev h e = dprev h e"

definition dlistRemove :: "dheap \<times> dlist \<Rightarrow> addr \<Rightarrow> dheap \<times> dlist" where
  "dlistRemove s e =
     (let (h, l) = s;
          prev = dprev h e;
          next = dnext h e;
          (h1, l1) = (case prev of None \<Rightarrow> (h, l\<lparr>dfirst := next\<rparr>) | Some p \<Rightarrow> (set_next p next h, l));
          (h2, l2) = (case next of None \<Rightarrow> (h1, l1\<lparr>dlast := prev\<rparr>) | Some n \<Rightarrow> (set_prev n prev h1, l1))
      in (set_prev e None (set_next e None h2), l2))"

definition dlistInsertFirst :: "dheap \<times> dlist \<Rightarrow> addr \<Rightarrow> dheap \<times> dlist" where
  "dlistInsertFirst s e =
     (let (h, l) = s;
          h1 = set_next e (dfirst l) h;
          l1 = l\<lparr>dfirst := Some e\<rparr>;
          h2 = set_prev e None h1
      in case dnext h2 e of
           Some n \<Rightarrow> (set_prev n (Some e) h2, l1)
         | None \<Rightarrow> (h2, l1\<lparr>dlast := Some e\<rparr>))"

definition dlistInsertLast :: "dheap \<times> dlist \<Rightarrow> addr \<Rightarrow> dheap \<times> dlist" where
  "dlistInsertLast s e =
     (let (h, l) = s;
          h1 = set_prev e (dlast l) h;
          l1 = l\<lparr>dlast := Some e\<rparr>;
          h2 = set_next e None h1
      in case dprev h2 e of
           Some p \<Rightarrow> (set_next p (Some e) h2, l1)
         | None \<Rightarrow> (h2, l1\<lparr>dfirst := Some e\<rparr>))"

text \<open>\<open>dlistInsertAfter l a b\<close> puts \<open>b\<close> after \<open>a\<close>; \<open>dlistInsertBefore l a b\<close> puts \<open>a\<close> before \<open>b\<close>.\<close>

definition dlistInsertAfter :: "dheap \<times> dlist \<Rightarrow> addr \<Rightarrow> addr \<Rightarrow> dheap \<times> dlist" where
  "dlistInsertAfter s a b =
     (let (h, l) = s;
          h1 = set_next b (dnext h a) h;
          h2 = set_prev b (Some a) h1;
          h3 = set_next a (Some b) h2
      in case dnext h3 b of
           Some n \<Rightarrow> (set_prev n (Some b) h3, l)
         | None \<Rightarrow> (h3, l\<lparr>dlast := Some b\<rparr>))"

definition dlistInsertBefore :: "dheap \<times> dlist \<Rightarrow> addr \<Rightarrow> addr \<Rightarrow> dheap \<times> dlist" where
  "dlistInsertBefore s a b =
     (let (h, l) = s;
          h1 = set_prev a (dprev h b) h;
          h2 = set_next a (Some b) h1;
          h3 = set_prev b (Some a) h2
      in case dprev h3 a of
           Some p \<Rightarrow> (set_next p (Some a) h3, l)
         | None \<Rightarrow> (h3, l\<lparr>dfirst := Some a\<rparr>))"

partial_function (option) dlist_count_loop :: "dheap \<Rightarrow> ptr \<Rightarrow> nat \<Rightarrow> nat option" where
  "dlist_count_loop h p rv =
     (case p of None \<Rightarrow> Some rv | Some e \<Rightarrow> dlist_count_loop h (dlistENext h e) (Suc rv))"

definition dlistCount :: "dheap \<Rightarrow> dlist \<Rightarrow> nat option" where
  "dlistCount h l = dlist_count_loop h (dlistFirst l) 0"

partial_function (option) dlist_each_loop ::
  "('s \<Rightarrow> dheap) \<Rightarrow> ('s \<Rightarrow> addr \<Rightarrow> 's) \<Rightarrow> 's \<Rightarrow> ptr \<Rightarrow> 's option" where
  "dlist_each_loop heap func s p =
     (case p of None \<Rightarrow> Some s | Some e \<Rightarrow> dlist_each_loop heap func (func s e) (dnext (heap s) e))"

definition dlistForEach :: "('s \<Rightarrow> dheap) \<Rightarrow> ('s \<Rightarrow> addr \<Rightarrow> 's) \<Rightarrow> 's \<Rightarrow> dlist \<Rightarrow> 's option" where
  "dlistForEach heap func s l = dlist_each_loop heap func s (dfirst l)"

partial_function (option) dlist_each_rev_loop ::
  "('s \<Rightarrow> dheap) \<Rightarrow> ('s \<Rightarrow> addr \<Rightarrow> 's) \<Rightarrow> 's \<Rightarrow> ptr \<Rightarrow> 's option" where
  "dlist_each_rev_loop heap func s p =
     (case p of None \<Rightarrow> Some s | Some e \<Rightarrow> dlist_each_rev_loop heap func (func s e) (dprev (heap s) e))"

definition dlistForEachRev :: "('s \<Rightarrow> dheap) \<Rightarrow> ('s \<Rightarrow> addr \<Rightarrow> 's) \<Rightarrow> 's \<Rightarrow> dlist \<Rightarrow> 's option" where
  "dlistForEachRev heap func s l = dlist_each_rev_loop heap func s (dlast l)"

subsection \<open>Sequences on the heap\<close>

text \<open>\<open>dseg h pv p xs q t\<close>: from \<open>p\<close>, with predecessor \<open>pv\<close>, the \<open>next\<close> links run through
  \<open>xs\<close> to \<open>q\<close>, the \<open>prev\<close> links run back, and \<open>t\<close> is the last element passed.\<close>

primrec dseg :: "dheap \<Rightarrow> ptr \<Rightarrow> ptr \<Rightarrow> addr list \<Rightarrow> ptr \<Rightarrow> ptr \<Rightarrow> bool" where
  "dseg h pv p [] q t = (p = q \<and> pv = t)"
| "dseg h pv p (x # xs) q t = (p = Some x \<and> dprev h x = pv \<and> dseg h (Some x) (dnext h x) xs q t)"

definition dlist_rep :: "dheap \<times> dlist \<Rightarrow> addr list \<Rightarrow> bool" where
  "dlist_rep s xs \<longleftrightarrow> (case s of (h, l) \<Rightarrow> dseg h None (dfirst l) xs None (dlast l)) \<and> distinct xs"

lemma dseg_append:
  "dseg h pv p (xs @ ys) q t \<longleftrightarrow> (\<exists>m k. dseg h pv p xs m k \<and> dseg h k m ys q t)"
  by (induction xs arbitrary: pv p) auto

lemma dseg_cong:
  assumes "\<forall>x \<in> set xs. dnext h' x = dnext h x \<and> dprev h' x = dprev h x"
  shows "dseg h' pv p xs q t = dseg h pv p xs q t"
  using assms by (induction xs arbitrary: pv p) auto

text \<open>The two ends of a segment: relinking the last \<open>next\<close> field, or the first \<open>prev\<close> field.\<close>

lemma dseg_relink_end:
  assumes "dseg h pv p xs q t" and "distinct xs"
    and "\<And>x. x \<in> set xs \<Longrightarrow> dprev h' x = dprev h x"
    and "\<And>x. x \<in> set xs \<Longrightarrow> x \<noteq> last xs \<Longrightarrow> dnext h' x = dnext h x"
    and "xs \<noteq> [] \<Longrightarrow> dnext h' (last xs) = q'"
  shows "dseg h' pv (if xs = [] then q' else p) xs q' t"
  using assms
proof (induction xs arbitrary: pv p)
  case (Cons x xs)
  show ?case
  proof (cases "xs = []")
    case True
    with Cons.prems show ?thesis by auto
  next
    case False
    with Cons.prems have "x \<noteq> last xs" by auto
    with False Cons.prems(4) have "dnext h' x = dnext h x" by simp
    moreover have "dseg h' (Some x) (if xs = [] then q' else dnext h x) xs q' t"
      using Cons.prems False by (intro Cons.IH) auto
    ultimately show ?thesis using Cons.prems False by simp
  qed
qed simp

lemma dseg_relink_start:
  assumes "dseg h pv p xs q t" and "distinct xs"
    and "\<And>x. x \<in> set xs \<Longrightarrow> dnext h' x = dnext h x"
    and "\<And>x. x \<in> set xs \<Longrightarrow> x \<noteq> hd xs \<Longrightarrow> dprev h' x = dprev h x"
    and "xs \<noteq> [] \<Longrightarrow> dprev h' (hd xs) = pv'"
  shows "dseg h' pv' p xs q (if xs = [] then pv' else t)"
proof (cases xs)
  case (Cons x ys)
  have "dseg h' (Some x) (dnext h x) ys q t = dseg h (Some x) (dnext h x) ys q t"
    using assms(2-4) Cons by (intro dseg_cong) auto
  with assms Cons show ?thesis by simp
qed (use assms in simp)

lemma dseg_ends:
  assumes "dseg h pv p xs q t"
  shows "t = (if xs = [] then pv else Some (last xs))" and "p = (if xs = [] then q else Some (hd xs))"
  using assms by (induction xs arbitrary: pv p) auto

text \<open>Taking a represented sequence apart at one element, and putting two segments together.\<close>

lemma dlist_rep_split:
  assumes "dlist_rep (h, l) (as @ e # bs)"
  shows "dseg h None (dfirst l) as (Some e) (dprev h e)" and "dseg h (Some e) (dnext h e) bs None (dlast l)"
    and "distinct (as @ e # bs)"
    and "dprev h e = (if as = [] then None else Some (last as))"
    and "dnext h e = (if bs = [] then None else Some (hd bs))"
    and "dfirst l = Some (hd (as @ [e]))" and "dlast l = Some (last (e # bs))"
proof -
  from assms show *: "dseg h None (dfirst l) as (Some e) (dprev h e)"
    "dseg h (Some e) (dnext h e) bs None (dlast l)" "distinct (as @ e # bs)"
    by (auto simp: dlist_rep_def dseg_append)
  show "dprev h e = (if as = [] then None else Some (last as))" "dfirst l = Some (hd (as @ [e]))"
    using dseg_ends [OF *(1)] by auto
  show "dnext h e = (if bs = [] then None else Some (hd bs))" "dlast l = Some (last (e # bs))"
    using dseg_ends [OF *(2)] by auto
qed

text \<open>Replacing what lies between two segments: every operation below is an instance.\<close>

lemma dlist_rep_splice:
  assumes left: "dseg h None f as q k" and right: "dseg h k' m bs None t"
    and dist: "distinct (as @ ms @ bs)"
    and mid: "dseg h' k p ms m k2"
    and as: "\<And>x. x \<in> set as \<Longrightarrow> dprev h' x = dprev h x"
      "\<And>x. x \<in> set as \<Longrightarrow> x \<noteq> last as \<Longrightarrow> dnext h' x = dnext h x"
      "as \<noteq> [] \<Longrightarrow> dnext h' (last as) = p"
    and bs: "\<And>x. x \<in> set bs \<Longrightarrow> dnext h' x = dnext h x"
      "\<And>x. x \<in> set bs \<Longrightarrow> x \<noteq> hd bs \<Longrightarrow> dprev h' x = dprev h x"
      "bs \<noteq> [] \<Longrightarrow> dprev h' (hd bs) = k2"
    and l': "dfirst l' = (if as = [] then p else f)" "dlast l' = (if bs = [] then k2 else t)"
  shows "dlist_rep (h', l') (as @ ms @ bs)"
proof -
  have "dseg h' None (dfirst l') as p k"
    using dseg_relink_end [OF left _ as] dist by (simp add: l'(1))
  moreover have "dseg h' k2 m bs None (dlast l')"
    using dseg_relink_start [OF right _ bs] dist by (simp add: l'(2))
  ultimately show ?thesis using mid dist by (auto simp: dlist_rep_def dseg_append)
qed

lemma dlist_rep_parts:
  assumes "dlist_rep (h, l) (as @ bs)"
  obtains k m where "dseg h None (dfirst l) as m k" "dseg h k m bs None (dlast l)" "distinct (as @ bs)"
    "k = (if as = [] then None else Some (last as))" "m = (if bs = [] then None else Some (hd bs))"
proof -
  from assms obtain m k where *: "dseg h None (dfirst l) as m k" "dseg h k m bs None (dlast l)" "distinct (as @ bs)"
    by (auto simp: dlist_rep_def dseg_append)
  from dseg_ends [OF *(1)] dseg_ends [OF *(2)] have "k = (if as = [] then None else Some (last as))"
    "m = (if bs = [] then None else Some (hd bs))" by auto
  with * show thesis by (rule that)
qed

lemma last_hd_outside:
  assumes "distinct (as @ es @ bs)"
  shows "as \<noteq> [] \<Longrightarrow> last as \<notin> set es \<and> last as \<notin> set bs" "bs \<noteq> [] \<Longrightarrow> hd bs \<notin> set es \<and> hd bs \<notin> set as"
proof -
  have d: "set as \<inter> set es = {}" "set as \<inter> set bs = {}" "set es \<inter> set bs = {}" using assms by auto
  show "as \<noteq> [] \<Longrightarrow> last as \<notin> set es \<and> last as \<notin> set bs" using d last_in_set by blast
  show "bs \<noteq> [] \<Longrightarrow> hd bs \<notin> set es \<and> hd bs \<notin> set as" using d hd_in_set by blast
qed

subsection \<open>The operations on sequences\<close>

lemma dlistInit_rep: "dlist_rep (h, dlistInit) []"
  by (simp add: dlist_rep_def dlistInit_def)

lemma dlist_rep_ends:
  assumes "dlist_rep (h, l) xs"
  shows "dfirst l = (if xs = [] then None else Some (hd xs))" and "dlast l = (if xs = [] then None else Some (last xs))"
  using assms dseg_ends [of h None "dfirst l" xs None "dlast l"] by (auto simp: dlist_rep_def)

lemma dlistRemove_rep:
  assumes "dlist_rep s (as @ e # bs)"
  shows "dlist_rep (dlistRemove s e) (as @ bs)"
proof -
  obtain h l where s: "s = (h, l)" by force
  note sp = dlist_rep_split [OF assms [unfolded s]]
  obtain h' l' where r: "dlistRemove s e = (h', l')" by force
  let ?n = "if bs = [] then None else Some (hd bs)" and ?p = "if as = [] then None else Some (last as)"
  have out: "as \<noteq> [] \<Longrightarrow> last as \<noteq> e \<and> last as \<notin> set bs" "bs \<noteq> [] \<Longrightarrow> hd bs \<noteq> e \<and> hd bs \<notin> set as"
    using last_hd_outside [of as "[e]" bs] sp(3) by auto
  have l': "dfirst l' = (if as = [] then ?n else dfirst l)" "dlast l' = (if bs = [] then ?p else dlast l)"
    and h': "dnext h' = ((if as = [] then dnext h else (dnext h)(last as := ?n)))(e := None)"
      "dprev h' = ((if bs = [] then dprev h else (dprev h)(hd bs := ?p)))(e := None)"
    using r sp(4,5) by (auto simp: s dlistRemove_def Let_def split: if_splits)
  have "dlist_rep (h', l') (as @ [] @ bs)"
    using sp(3) out by (intro dlist_rep_splice [OF sp(1,2) _ _ _ _ _ _ _ _ l']) (auto simp: h' sp(4,5))
  then show ?thesis by (simp add: r)
qed

lemma dlist_insert_rep:
  assumes rep: "dlist_rep (h, l) (as @ bs)" and new: "e \<notin> set (as @ bs)"
    and h': "dnext h' = ((if as = [] then dnext h else (dnext h)(last as := Some e)))(e := (if bs = [] then None else Some (hd bs)))"
      "dprev h' = ((if bs = [] then dprev h else (dprev h)(hd bs := Some e)))(e := (if as = [] then None else Some (last as)))"
    and l': "dfirst l' = (if as = [] then Some e else dfirst l)" "dlast l' = (if bs = [] then Some e else dlast l)"
  shows "dlist_rep (h', l') (as @ e # bs)"
proof -
  from rep obtain k m where sp: "dseg h None (dfirst l) as m k" "dseg h k m bs None (dlast l)" "distinct (as @ bs)"
    "k = (if as = [] then None else Some (last as))" "m = (if bs = [] then None else Some (hd bs))"
    by (rule dlist_rep_parts)
  have dist: "distinct (as @ [e] @ bs)" using sp(3) new by auto
  have out: "as \<noteq> [] \<Longrightarrow> last as \<noteq> e \<and> last as \<notin> set bs" "bs \<noteq> [] \<Longrightarrow> hd bs \<noteq> e \<and> hd bs \<notin> set as"
    using last_hd_outside [OF dist] by auto
  have "dlist_rep (h', l') (as @ [e] @ bs)"
    using new out
    by (intro dlist_rep_splice [OF sp(1,2) dist _ _ _ _ _ _ _ l']) (auto simp: h' sp(4,5))
  then show ?thesis by simp
qed

lemma dlistInsertFirst_rep:
  assumes "dlist_rep s xs" and "e \<notin> set xs"
  shows "dlist_rep (dlistInsertFirst s e) (e # xs)"
proof -
  obtain h l where s: "s = (h, l)" by force
  obtain h' l' where r: "dlistInsertFirst s e = (h', l')" by force
  note rep = assms(1) [unfolded s] and ends = dlist_rep_ends [OF assms(1) [unfolded s]]
  have "xs \<noteq> [] \<Longrightarrow> hd xs \<noteq> e" using assms(2) hd_in_set by metis
  with r ends have "dlist_rep (h', l') ([] @ e # xs)"
    by (intro dlist_insert_rep [of h l "[]" xs])
      (use rep assms(2) in \<open>auto simp: s dlistInsertFirst_def Let_def fun_upd_twist split: if_splits\<close>)
  then show ?thesis by (simp add: r)
qed

lemma dlistInsertLast_rep:
  assumes "dlist_rep s xs" and "e \<notin> set xs"
  shows "dlist_rep (dlistInsertLast s e) (xs @ [e])"
proof -
  obtain h l where s: "s = (h, l)" by force
  obtain h' l' where r: "dlistInsertLast s e = (h', l')" by force
  note rep = assms(1) [unfolded s] and ends = dlist_rep_ends [OF assms(1) [unfolded s]]
  have "xs \<noteq> [] \<Longrightarrow> last xs \<noteq> e" using assms(2) last_in_set by metis
  with r ends have "dlist_rep (h', l') (xs @ e # [])"
    by (intro dlist_insert_rep [of h l xs "[]"])
      (use rep assms(2) in \<open>auto simp: s dlistInsertLast_def Let_def fun_upd_twist split: if_splits\<close>)
  then show ?thesis by (simp add: r)
qed

lemma dlistInsertAfter_rep:
  assumes "dlist_rep s (as @ a # bs)" and "b \<notin> set (as @ a # bs)"
  shows "dlist_rep (dlistInsertAfter s a b) (as @ a # b # bs)"
proof -
  obtain h l where s: "s = (h, l)" by force
  obtain h' l' where r: "dlistInsertAfter s a b = (h', l')" by force
  note sp = dlist_rep_split [OF assms(1) [unfolded s]]
  have rep: "dlist_rep (h, l) ((as @ [a]) @ bs)" using assms(1) s by simp
  have "bs \<noteq> [] \<Longrightarrow> hd bs \<noteq> b" "a \<noteq> b" using assms(2) by auto
  with r sp(5) have "dlist_rep (h', l') ((as @ [a]) @ b # bs)"
    by (intro dlist_insert_rep [OF rep])
      (use assms(2) in \<open>auto simp: s dlistInsertAfter_def Let_def fun_upd_twist split: if_splits\<close>)
  then show ?thesis by (simp add: r)
qed

lemma dlistInsertBefore_rep:
  assumes "dlist_rep s (as @ b # bs)" and "a \<notin> set (as @ b # bs)"
  shows "dlist_rep (dlistInsertBefore s a b) (as @ a # b # bs)"
proof -
  obtain h l where s: "s = (h, l)" by force
  obtain h' l' where r: "dlistInsertBefore s a b = (h', l')" by force
  note sp = dlist_rep_split [OF assms(1) [unfolded s]]
  have "as \<noteq> [] \<Longrightarrow> last as \<noteq> a" "a \<noteq> b" using assms(2) by auto
  with r sp(4) have "dlist_rep (h', l') (as @ a # b # bs)"
    by (intro dlist_insert_rep [OF assms(1) [unfolded s]])
      (use assms(2) in \<open>auto simp: s dlistInsertBefore_def Let_def fun_upd_twist split: if_splits\<close>)
  then show ?thesis by (simp add: r)
qed

lemma dlist_count_loop_eq: "dseg h pv p xs None t \<Longrightarrow> dlist_count_loop h p n = Some (n + length xs)"
  by (induction xs arbitrary: pv p n) (simp_all add: dlist_count_loop.simps dlistENext_def)

lemma dlistCount_rep: "dlist_rep (h, l) xs \<Longrightarrow> dlistCount h l = Some (length xs)"
  using dlist_count_loop_eq [of h None "dfirst l" xs "dlast l" 0]
  by (simp add: dlistCount_def dlistFirst_def dlist_rep_def)

text \<open>Traversal in both directions; the visitor may destroy the element it is given.\<close>

lemma dlist_each_loop_eq:
  assumes "dseg (heap s) pv p xs None t" and "distinct xs"
    and "\<And>s e a. a \<noteq> e \<Longrightarrow> dnext (heap (func s e)) a = dnext (heap s) a \<and> dprev (heap (func s e)) a = dprev (heap s) a"
  shows "dlist_each_loop heap func s p = Some (fold (\<lambda>e s. func s e) xs s)"
  using assms(1,2)
proof (induction xs arbitrary: s pv p)
  case Nil
  then show ?case by (simp add: dlist_each_loop.simps)
next
  case (Cons x xs)
  have "dseg (heap (func s x)) (Some x) (dnext (heap s) x) xs None t = dseg (heap s) (Some x) (dnext (heap s) x) xs None t"
    by (rule dseg_cong) (metis Cons.prems(2) assms(3) distinct.simps(2))
  with Cons.IH Cons.prems show ?case by (simp add: dlist_each_loop.simps)
qed

lemma dlistForEach_rep:
  assumes "dlist_rep (heap s, l) xs"
    and "\<And>s e a. a \<noteq> e \<Longrightarrow> dnext (heap (func s e)) a = dnext (heap s) a \<and> dprev (heap (func s e)) a = dprev (heap s) a"
  shows "dlistForEach heap func s l = Some (fold (\<lambda>e s. func s e) xs s)"
  using assms(1) dlist_each_loop_eq [of heap s None "dfirst l" xs "dlast l" func] assms(2)
  by (simp add: dlistForEach_def dlist_rep_def)

lemma dlist_each_rev_loop_eq:
  assumes "dseg (heap s) None p xs q t" and "distinct xs"
    and "\<And>s e a. a \<noteq> e \<Longrightarrow> dnext (heap (func s e)) a = dnext (heap s) a \<and> dprev (heap (func s e)) a = dprev (heap s) a"
  shows "dlist_each_rev_loop heap func s t = Some (fold (\<lambda>e s. func s e) (rev xs) s)"
  using assms(1,2)
proof (induction xs arbitrary: s q t rule: rev_induct)
  case Nil
  then show ?case by (simp add: dlist_each_rev_loop.simps)
next
  case (snoc x xs)
  have "dseg (heap s) None p xs (Some x) (dprev (heap s) x)" and t: "t = Some x"
    using snoc.prems(1) by (auto simp: dseg_append)
  moreover have "dseg (heap (func s x)) None p xs (Some x) (dprev (heap s) x) = dseg (heap s) None p xs (Some x) (dprev (heap s) x)"
    using snoc.prems(2) by (intro dseg_cong ballI) (metis assms(3) distinct_append disjoint_insert(1) distinct.simps(2) in_set_conv_decomp list.set(2) not_distinct_conv_prefix append_Nil2 distinct_append list.set_intros(1) disjoint_iff)
  ultimately show ?case
    using snoc.IH [of "func s x" "Some x" "dprev (heap s) x"] snoc.prems(2)
    by (simp add: dlist_each_rev_loop.simps)
qed

lemma dlistForEachRev_rep:
  assumes "dlist_rep (heap s, l) xs"
    and "\<And>s e a. a \<noteq> e \<Longrightarrow> dnext (heap (func s e)) a = dnext (heap s) a \<and> dprev (heap (func s e)) a = dprev (heap s) a"
  shows "dlistForEachRev heap func s l = Some (fold (\<lambda>e s. func s e) (rev xs) s)"
  using assms(1) dlist_each_rev_loop_eq [of heap s "dfirst l" xs None "dlast l" func] assms(2)
  by (simp add: dlistForEachRev_def dlist_rep_def)

subsection \<open>The interface\<close>

locale linked_sequence =
  fixes rep :: "'s \<Rightarrow> addr list \<Rightarrow> bool"
    and sq_first :: "'s \<Rightarrow> ptr" and sq_last :: "'s \<Rightarrow> ptr"
    and sq_next :: "'s \<Rightarrow> addr \<Rightarrow> ptr" and sq_prev :: "'s \<Rightarrow> addr \<Rightarrow> ptr"
    and sq_insert_first :: "'s \<Rightarrow> addr \<Rightarrow> 's" and sq_insert_last :: "'s \<Rightarrow> addr \<Rightarrow> 's"
    and sq_insert_before :: "'s \<Rightarrow> addr \<Rightarrow> addr \<Rightarrow> 's" and sq_insert_after :: "'s \<Rightarrow> addr \<Rightarrow> addr \<Rightarrow> 's"
    and sq_remove :: "'s \<Rightarrow> addr \<Rightarrow> 's"
  assumes rep_distinct: "rep s xs \<Longrightarrow> distinct xs"
    and first: "rep s xs \<Longrightarrow> sq_first s = (if xs = [] then None else Some (hd xs))"
    and last: "rep s xs \<Longrightarrow> sq_last s = (if xs = [] then None else Some (last xs))"
    and succ: "rep s (as @ e # bs) \<Longrightarrow> sq_next s e = (if bs = [] then None else Some (hd bs))"
    and pred: "rep s (as @ e # bs) \<Longrightarrow> sq_prev s e = (if as = [] then None else Some (List.last as))"
    and insert_first: "rep s xs \<Longrightarrow> e \<notin> set xs \<Longrightarrow> rep (sq_insert_first s e) (e # xs)"
    and insert_last: "rep s xs \<Longrightarrow> e \<notin> set xs \<Longrightarrow> rep (sq_insert_last s e) (xs @ [e])"
    and insert_before: "rep s (as @ b # bs) \<Longrightarrow> a \<notin> set (as @ b # bs) \<Longrightarrow>
      rep (sq_insert_before s a b) (as @ a # b # bs)"
    and insert_after: "rep s (as @ a # bs) \<Longrightarrow> b \<notin> set (as @ a # bs) \<Longrightarrow>
      rep (sq_insert_after s a b) (as @ a # b # bs)"
    and remove: "rep s (as @ e # bs) \<Longrightarrow> rep (sq_remove s e) (as @ bs)"
begin

lemma move_before_pred:
  assumes "rep s (as @ p # e # bs)"
  shows "rep (sq_insert_before (sq_remove s e) e p) (as @ e # p # bs)"
proof -
  have "rep (sq_remove s e) (as @ p # bs)" using remove [of s "as @ [p]" e bs] assms by simp
  moreover have "e \<notin> set (as @ p # bs)" using rep_distinct [OF assms] by auto
  ultimately show ?thesis by (rule insert_before)
qed

lemma empty_iff: "rep s xs \<Longrightarrow> sq_first s = None \<longleftrightarrow> xs = []"
  using first by auto

lemma append_all:
  assumes "rep s xs" and "distinct es" and "set es \<inter> set xs = {}"
  shows "rep (fold (\<lambda>e s. sq_insert_last s e) es s) (xs @ es)"
  using assms
proof (induction es arbitrary: s xs)
  case (Cons e es)
  then have "rep (sq_insert_last s e) (xs @ [e])" by (intro insert_last) auto
  with Cons.IH [of "sq_insert_last s e" "xs @ [e]"] Cons.prems show ?case by auto
qed simp

end

interpretation dl: linked_sequence dlist_rep "\<lambda>s. dlistFirst (snd s)" "\<lambda>s. dlistLast (snd s)"
  "\<lambda>s. dlistENext (fst s)" "\<lambda>s. dlistEPrev (fst s)"
  dlistInsertFirst dlistInsertLast dlistInsertBefore dlistInsertAfter dlistRemove
proof unfold_locales
  fix s xs
  assume rep: "dlist_rep s xs"
  then show "distinct xs" by (simp add: dlist_rep_def)
  from rep show "dlistFirst (snd s) = (if xs = [] then None else Some (hd xs))"
    "dlistLast (snd s) = (if xs = [] then None else Some (last xs))"
    using dlist_rep_ends [of "fst s" "snd s" xs] by (simp_all add: dlistFirst_def dlistLast_def)
next
  fix s as e bs
  assume "dlist_rep s (as @ e # bs)"
  then show "dlistENext (fst s) e = (if bs = [] then None else Some (hd bs))"
    "dlistEPrev (fst s) e = (if as = [] then None else Some (last as))"
    using dlist_rep_split(4,5) [of "fst s" "snd s" as e bs] by (simp_all add: dlistENext_def dlistEPrev_def)
qed (fact dlistInsertFirst_rep dlistInsertLast_rep dlistInsertBefore_rep dlistInsertAfter_rep dlistRemove_rep)+

end
