(* ===== verification/LRU.thy ===== *)
theory LRU
  imports DLists
begin

text \<open>
  stream/lru.c: the self-sorting list of the teletext database, with a pointer to its
  middle element and the number of elements on either side.  The list is the
  doubly linked list of \<open>DLists\<close>; \<open>None\<close> as a result is the dereference of a NULL
  pointer.  The invariant of the balancing comment is kept by every operation.
\<close>

subsection \<open>Data and operations\<close>

record lru =
  lst :: "dheap \<times> dlist"
  wh :: "addr \<Rightarrow> nat"
  before :: int
  behind :: int
  mid :: ptr

definition LRUInit :: "lru \<Rightarrow> lru" where
  "LRUInit l = l\<lparr>lst := (fst (lst l), dlistInit), before := 0, behind := 0, mid := None\<rparr>"

abbreviation set_where :: "addr \<Rightarrow> nat \<Rightarrow> lru \<Rightarrow> lru" where
  "set_where a v l \<equiv> l\<lparr>wh := (wh l)(a := v)\<rparr>"

text \<open>The element that becomes the middle one: a NULL pointer here would be dereferenced.\<close>

definition lru_l :: "lru \<Rightarrow> lru option" where
  "lru_l l =
     (if before l \<ge> 1
      then case mid l of
             None \<Rightarrow> None
           | Some m \<Rightarrow>
               (let l1 = set_where m 1 l
                in case dlistEPrev (fst (lst l1)) m of
                     None \<Rightarrow> None
                   | Some p \<Rightarrow> Some (set_where p 2 (l1\<lparr>mid := Some p\<rparr>)
                                  \<lparr>before := before l - 1, behind := behind l + 1\<rparr>))
      else Some l)"

definition lru_r :: "lru \<Rightarrow> lru option" where
  "lru_r l =
     (if behind l \<ge> 1
      then case mid l of
             None \<Rightarrow> None
           | Some m \<Rightarrow>
               (let l1 = set_where m 0 l
                in case dlistENext (fst (lst l1)) m of
                     None \<Rightarrow> None
                   | Some n \<Rightarrow> Some (set_where n 2 (l1\<lparr>mid := Some n\<rparr>)
                                  \<lparr>before := before l + 1, behind := behind l - 1\<rparr>))
      else Some l)"

definition lru_balance :: "lru \<Rightarrow> lru option" where
  "lru_balance l =
     (if before l = 0 \<and> behind l = 0 then Some l
      else if before l < behind l - 1 then lru_r l
      else if before l > behind l then lru_l l
      else Some l)"

definition LRUPutMid :: "lru \<Rightarrow> addr \<Rightarrow> lru option" where
  "LRUPutMid l e =
     (if dlistFirst (snd (lst l)) = None
      then Some (set_where e 2 (l\<lparr>before := 0, behind := 0, lst := dlistInsertFirst (lst l) e, mid := Some e\<rparr>))
      else case mid l of
             None \<Rightarrow> None
           | Some m \<Rightarrow>
               if before l < behind l
               then Some (set_where e 0 (l\<lparr>lst := dlistInsertBefore (lst l) e m, before := before l + 1\<rparr>))
               else Some (set_where e 1 (l\<lparr>lst := dlistInsertAfter (lst l) m e, behind := behind l + 1\<rparr>)))"

definition LRUGetSize :: "lru \<Rightarrow> int" where
  "LRUGetSize l = (if mid l = None then 0 else before l + behind l + 1)"

definition LRURemoveLast :: "lru \<Rightarrow> (lru \<times> ptr) option" where
  "LRURemoveLast l =
     (if dlistFirst (snd (lst l)) = None then Some (l, None)
      else case dlistLast (snd (lst l)) of
             None \<Rightarrow> None
           | Some e \<Rightarrow>
               (let l1 = l\<lparr>lst := dlistRemove (lst l) e\<rparr>
                in if dlistFirst (snd (lst l1)) = None
                   then Some (l1\<lparr>mid := None, behind := 0, before := 0\<rparr>, Some e)
                   else let l2 = l1\<lparr>behind := behind l1 - 1\<rparr>
                        in if behind l2 < before l2
                           then map_option (\<lambda>l3. (l3, Some e)) (lru_l l2)
                           else Some (l2, Some e)))"

definition LRUFwd :: "lru \<Rightarrow> addr \<Rightarrow> lru" where
  "LRUFwd l e =
     (case dlistEPrev (fst (lst l)) e of
        None \<Rightarrow> l
      | Some prev \<Rightarrow>
          let l1 = (if mid l = Some e
                    then set_where prev 2 (set_where e 0 l)\<lparr>mid := Some prev\<rparr>
                    else if mid l = Some prev
                    then set_where e 2 (set_where prev 1 l)\<lparr>mid := Some e\<rparr>
                    else l)
          in l1\<lparr>lst := dlistInsertBefore (dlistRemove (lst l1) e) e prev\<rparr>)"

definition LRURemove :: "lru \<Rightarrow> addr \<Rightarrow> (lru \<times> nat) option" where
  "LRURemove l e =
     (if dlistFirst (snd (lst l)) = None then Some (l, 1)
      else
        let l1 =
              (if mid l = Some e
               then case dlistEPrev (fst (lst l)) e of
                      Some p \<Rightarrow> set_where p 2 (set_where e 1 (l\<lparr>mid := Some p\<rparr>))
                                 \<lparr>before := before l - 1, behind := behind l + 1\<rparr>
                    | None \<Rightarrow>
                        (case dlistENext (fst (lst l)) e of
                           Some n \<Rightarrow> set_where n 2 (set_where e 0 (l\<lparr>mid := Some n\<rparr>))
                                      \<lparr>before := before l + 1, behind := behind l - 1\<rparr>
                         | None \<Rightarrow> l\<lparr>mid := None\<rparr>)
               else l);
            l2 = l1\<lparr>lst := dlistRemove (lst l1) e\<rparr>;
            l3 = (if wh l2 e = 0 then l2\<lparr>before := before l2 - 1\<rparr>
                  else if wh l2 e = 1 then l2\<lparr>behind := behind l2 - 1\<rparr>
                  else l2\<lparr>mid := None, behind := 0, before := 0\<rparr>)
        in map_option (\<lambda>l4. (l4, 0)) (lru_balance l3))"

subsection \<open>The invariant\<close>

text \<open>Counters, tags and middle pointer describe the represented sequence \<open>as @ m # bs\<close>.\<close>

definition lru_shape :: "lru \<Rightarrow> addr list \<Rightarrow> addr \<Rightarrow> addr list \<Rightarrow> bool" where
  "lru_shape l as m bs \<longleftrightarrow>
     dlist_rep (lst l) (as @ m # bs) \<and> mid l = Some m \<and>
     before l = int (length as) \<and> behind l = int (length bs) \<and>
     (\<forall>a \<in> set as. wh l a = 0) \<and> (\<forall>b \<in> set bs. wh l b = 1) \<and> wh l m = 2"

definition lru_empty :: "lru \<Rightarrow> bool" where
  "lru_empty l \<longleftrightarrow> dlist_rep (lst l) [] \<and> mid l = None \<and> before l = 0 \<and> behind l = 0"

text \<open>The balance the code comment states: \<open>(before==behind)||(before==(behind-1))\<close>.\<close>

definition lru_inv :: "lru \<Rightarrow> addr list \<Rightarrow> bool" where
  "lru_inv l xs \<longleftrightarrow>
     (xs = [] \<and> lru_empty l) \<or>
     (\<exists>as m bs. xs = as @ m # bs \<and> lru_shape l as m bs \<and>
        (length bs = length as \<or> length bs = Suc (length as)))"

lemma lru_invI:
  "lru_shape l as m bs \<Longrightarrow> length bs = length as \<or> length bs = Suc (length as) \<Longrightarrow> xs = as @ m # bs \<Longrightarrow> lru_inv l xs"
  by (auto simp: lru_inv_def)

lemma lru_inv_cases:
  assumes "lru_inv l xs"
  obtains (empty) "xs = []" "lru_empty l"
    | (equal) as m bs where "xs = as @ m # bs" "lru_shape l as m bs" "length bs = length as"
    | (less) as m bs where "xs = as @ m # bs" "lru_shape l as m bs" "length bs = Suc (length as)"
  using assms by (auto simp: lru_inv_def)

lemma lru_shape_distinct: "lru_shape l as m bs \<Longrightarrow> distinct (as @ m # bs)"
  by (auto simp: lru_shape_def dest: dl.rep_distinct)

lemma lru_shape_nonempty: "lru_shape l as m bs \<Longrightarrow> dlistFirst (snd (lst l)) \<noteq> None"
  using dl.first [of "lst l" "as @ m # bs"] by (auto simp: lru_shape_def)

lemma lru_l_shape:
  assumes "lru_shape l (as @ [p]) m bs"
  shows "\<exists>l'. lru_l l = Some l' \<and> lru_shape l' as p (m # bs)"
proof -
  have "dlistEPrev (fst (lst l)) m = Some p"
    using dl.pred [of "lst l" "as @ [p]" m bs] assms by (simp add: lru_shape_def)
  with assms lru_shape_distinct [OF assms] show ?thesis
    by (auto simp: lru_l_def lru_shape_def Let_def)
qed

lemma lru_r_shape:
  assumes "lru_shape l as m (n # bs)"
  shows "\<exists>l'. lru_r l = Some l' \<and> lru_shape l' (as @ [m]) n bs"
proof -
  have "dlistENext (fst (lst l)) m = Some n"
    using dl.succ [of "lst l" as m "n # bs"] assms by (simp add: lru_shape_def)
  with assms lru_shape_distinct [OF assms] show ?thesis
    by (auto simp: lru_r_def lru_shape_def Let_def)
qed

subsection \<open>Every operation keeps the invariant\<close>

lemma LRUInit_inv: "lru_inv (LRUInit l) []"
  using dlistInit_rep by (auto simp: lru_inv_def lru_empty_def LRUInit_def)

text \<open>Where a new element goes in a list of \<open>n\<close> elements: behind the middle one, or in
  front of it when the second half is the longer one.\<close>

definition put_mid :: "addr \<Rightarrow> addr list \<Rightarrow> addr list" where
  "put_mid e xs =
     (let n = length xs; k = (if odd n then (n + 1) div 2 else n div 2 - 1)
      in take k xs @ e # drop k xs)"

lemma LRUPutMid_inv:
  assumes "lru_inv l xs" and "e \<notin> set xs"
  shows "\<exists>l'. LRUPutMid l e = Some l' \<and> lru_inv l' (put_mid e xs)"
  using assms(1)
proof (cases rule: lru_inv_cases)
  case empty
  let ?l = "set_where e 2 (l\<lparr>before := 0, behind := 0, lst := dlistInsertFirst (lst l) e, mid := Some e\<rparr>)"
  have "lru_shape ?l [] e []"
    using empty dl.insert_first [of "lst l" "[]" e] by (simp add: lru_shape_def lru_empty_def)
  then have "lru_inv ?l [e]" by (rule lru_invI) auto
  moreover have "LRUPutMid l e = Some ?l"
    using empty dl.empty_iff [of "lst l" "[]"] by (auto simp: LRUPutMid_def lru_empty_def)
  ultimately show ?thesis using empty by (auto simp: put_mid_def)
next
  case (equal as m bs)
  let ?l = "set_where e 1 (l\<lparr>lst := dlistInsertAfter (lst l) m e, behind := behind l + 1\<rparr>)"
  have "dlist_rep (lst l) (as @ m # bs)" using equal by (simp add: lru_shape_def)
  then have "lru_shape ?l as m (e # bs)"
    using equal assms(2) dl.insert_after [of "lst l" as m bs e] by (auto simp: lru_shape_def)
  then have "lru_inv ?l ((as @ [m]) @ e # bs)" using equal by (intro lru_invI) auto
  moreover have "LRUPutMid l e = Some ?l"
    using equal lru_shape_nonempty [OF equal(2)] by (auto simp: LRUPutMid_def lru_shape_def)
  moreover have "put_mid e xs = (as @ [m]) @ e # bs" using equal by (simp add: put_mid_def)
  ultimately show ?thesis by simp
next
  case (less as m bs)
  let ?l = "set_where e 0 (l\<lparr>lst := dlistInsertBefore (lst l) e m, before := before l + 1\<rparr>)"
  have "dlist_rep (lst l) (as @ m # bs)" using less by (simp add: lru_shape_def)
  then have "lru_shape ?l (as @ [e]) m bs"
    using less assms(2) dl.insert_before [of "lst l" as m bs e] by (auto simp: lru_shape_def)
  then have "lru_inv ?l (as @ e # m # bs)" using less by (intro lru_invI [of _ "as @ [e]" m bs]) auto
  moreover have "LRUPutMid l e = Some ?l"
    using less lru_shape_nonempty [OF less(2)] by (auto simp: LRUPutMid_def lru_shape_def)
  moreover have "put_mid e xs = as @ e # m # bs" using less by (simp add: put_mid_def)
  ultimately show ?thesis by simp
qed

lemma LRUGetSize_inv: "lru_inv l xs \<Longrightarrow> LRUGetSize l = int (length xs)"
  by (erule lru_inv_cases) (auto simp: LRUGetSize_def lru_empty_def lru_shape_def)

text \<open>Dropping the last element of the sequence without touching counters or tags.\<close>

lemma lru_shape_drop_last:
  assumes "lru_shape l as m (bs @ [e])"
  shows "lru_shape (l\<lparr>lst := dlistRemove (lst l) e, behind := behind l - 1\<rparr>) as m bs"
  using assms dl.remove [of "lst l" "as @ m # bs" e "[]"] by (auto simp: lru_shape_def)

lemma LRURemoveLast_inv:
  assumes "lru_inv l xs"
  shows "\<exists>l'. LRURemoveLast l = Some (l', if xs = [] then None else Some (last xs)) \<and> lru_inv l' (butlast xs)"
  using assms
proof (cases rule: lru_inv_cases)
  case empty
  then show ?thesis
    using assms dl.empty_iff [of "lst l" "[]"] by (auto simp: LRURemoveLast_def lru_empty_def)
next
  case (equal as m bs)
  note sh = equal(2) and ne = lru_shape_nonempty [OF equal(2)]
  have rep: "dlist_rep (lst l) (as @ m # bs)" using sh by (simp add: lru_shape_def)
  have lst: "dlistLast (snd (lst l)) = Some (last (as @ m # bs))" using dl.last [OF rep] by simp
  show ?thesis
  proof (cases bs rule: rev_cases)
    case Nil
    then have as: "as = []" using equal by simp
    have rep': "dlist_rep (dlistRemove (lst l) m) []" using dl.remove [of "lst l" "[]" m "[]"] rep Nil as by simp
    then have "dlistFirst (snd (dlistRemove (lst l) m)) = None" using dl.empty_iff by blast
    with rep' lst ne Nil as equal(1) show ?thesis
      by (auto simp: LRURemoveLast_def Let_def lru_inv_def lru_empty_def)
  next
    case (snoc bs' e)
    let ?l = "l\<lparr>lst := dlistRemove (lst l) e, behind := behind l - 1\<rparr>"
    from sh snoc have sh': "lru_shape ?l as m bs'" by (auto intro: lru_shape_drop_last)
    obtain as' p where as: "as = as' @ [p]" using equal(3) snoc by (cases as rule: rev_cases) auto
    obtain l' where l': "lru_l ?l = Some l'" "lru_shape l' as' p (m # bs')"
      using lru_l_shape [of ?l as' p m bs'] sh' as by blast
    have "behind ?l < before ?l" using sh' as equal(3) snoc by (simp add: lru_shape_def)
    then have "LRURemoveLast l = Some (l', Some e)"
      using ne lst snoc l'(1) lru_shape_nonempty [OF sh'] by (auto simp: LRURemoveLast_def Let_def)
    moreover have "lru_inv l' (as @ m # bs')" using l'(2) as equal(3) snoc by (intro lru_invI) auto
    moreover have "butlast xs = as @ m # bs'" "xs \<noteq> []" "last xs = e"
      using equal(1) snoc by (simp_all add: butlast_append)
    ultimately show ?thesis by auto
  qed
next
  case (less as m bs)
  note sh = less(2) and ne = lru_shape_nonempty [OF less(2)]
  have rep: "dlist_rep (lst l) (as @ m # bs)" using sh by (simp add: lru_shape_def)
  have lst: "dlistLast (snd (lst l)) = Some (last (as @ m # bs))" using dl.last [OF rep] by simp
  obtain bs' e where bs: "bs = bs' @ [e]" using less(3) by (cases bs rule: rev_cases) auto
  let ?l = "l\<lparr>lst := dlistRemove (lst l) e, behind := behind l - 1\<rparr>"
  from sh bs have sh': "lru_shape ?l as m bs'" by (auto intro: lru_shape_drop_last)
  have "\<not> behind ?l < before ?l" using sh' less(3) bs by (simp add: lru_shape_def)
  then have "LRURemoveLast l = Some (?l, Some e)"
    using ne lst bs lru_shape_nonempty [OF sh'] by (auto simp: LRURemoveLast_def Let_def)
  moreover have "lru_inv ?l (as @ m # bs')" using sh' less(3) bs by (intro lru_invI) auto
  moreover have "butlast xs = as @ m # bs'" "xs \<noteq> []" "last xs = e"
    using less(1) bs by (simp_all add: butlast_append)
  ultimately show ?thesis by auto
qed

text \<open>Promotion exchanges an element with its predecessor and leaves everything else alone.\<close>

lemma LRUFwd_shape:
  assumes sh: "lru_shape l as m bs" and xs: "as @ m # bs = ys @ p # e # zs"
  shows "\<exists>as' m' bs'. lru_shape (LRUFwd l e) as' m' bs' \<and> as' @ m' # bs' = ys @ e # p # zs \<and>
    length as' = length as \<and> length bs' = length bs"
proof -
  have rep: "dlist_rep (lst l) (ys @ p # e # zs)" using sh xs by (simp add: lru_shape_def)
  have prev: "dlistEPrev (fst (lst l)) e = Some p" using dl.pred [of "lst l" "ys @ [p]" e zs] rep by simp
  have rep': "dlist_rep (dlistInsertBefore (dlistRemove (lst l) e) e p) (ys @ e # p # zs)"
    by (rule dl.move_before_pred [OF rep])
  have dist: "distinct (as @ m # bs)" by (rule lru_shape_distinct [OF sh])
  from xs consider (mid_e) "as = ys @ [p]" "m = e" "bs = zs" | (mid_p) "as = ys" "m = p" "bs = e # zs"
    | (left) us where "as = ys @ p # e # us" "zs = us @ m # bs" | (right) us where "ys = as @ m # us" "bs = us @ p # e # zs"
    by (auto simp: append_eq_append_conv2 append_eq_Cons_conv Cons_eq_append_conv)
  then show ?thesis
  proof cases
    case mid_e
    with sh dist prev rep' show ?thesis
      by (intro exI [of _ "ys @ [e]"] exI [of _ p] exI [of _ zs]) (auto simp: LRUFwd_def lru_shape_def Let_def)
  next
    case mid_p
    with sh dist prev rep' show ?thesis
      by (intro exI [of _ ys] exI [of _ e] exI [of _ "p # zs"]) (auto simp: LRUFwd_def lru_shape_def Let_def)
  next
    case (left us)
    with sh dist prev rep' show ?thesis
      by (intro exI [of _ "ys @ e # p # us"] exI [of _ m] exI [of _ bs]) (auto simp: LRUFwd_def lru_shape_def Let_def)
  next
    case (right us)
    with sh dist prev rep' show ?thesis
      by (intro exI [of _ as] exI [of _ m] exI [of _ "us @ e # p # zs"]) (auto simp: LRUFwd_def lru_shape_def Let_def)
  qed
qed

lemma LRUFwd_inv:
  assumes "lru_inv l (ys @ p # e # zs)"
  shows "lru_inv (LRUFwd l e) (ys @ e # p # zs)"
  using assms
proof (cases rule: lru_inv_cases)
  case (equal as m bs)
  with LRUFwd_shape [of l as m bs ys p e zs] show ?thesis by (metis lru_invI)
next
  case (less as m bs)
  with LRUFwd_shape [of l as m bs ys p e zs] show ?thesis by (metis lru_invI)
qed simp

lemma LRUFwd_first:
  assumes "lru_inv l (e # zs)"
  shows "LRUFwd l e = l"
proof -
  have "dlist_rep (lst l) ([] @ e # zs)" using assms by (auto simp: lru_inv_def lru_shape_def)
  from dl.pred [OF this] show ?thesis by (simp add: LRUFwd_def)
qed

lemma lru_balance_inv:
  assumes sh: "lru_shape l as m bs" and near: "length as \<le> Suc (length bs)" "length bs \<le> length as + 2"
  shows "\<exists>l'. lru_balance l = Some l' \<and> lru_inv l' (as @ m # bs)"
proof -
  have cnt: "before l = int (length as)" "behind l = int (length bs)" using sh by (auto simp: lru_shape_def)
  from near consider (ok) "length bs = length as \<or> length bs = Suc (length as)"
    | (right) "length bs = length as + 2" | (left) "length as = Suc (length bs)" by linarith
  then show ?thesis
  proof cases
    case ok
    then have "lru_balance l = Some l" using cnt by (auto simp: lru_balance_def)
    with sh ok show ?thesis by (auto intro: lru_invI)
  next
    case right
    then obtain n bs' where bs: "bs = n # bs'" by (cases bs) auto
    with lru_r_shape sh obtain l' where "lru_r l = Some l'" "lru_shape l' (as @ [m]) n bs'" by blast
    moreover from this(1) have "lru_balance l = Some l'" using cnt right by (simp add: lru_balance_def)
    ultimately show ?thesis using right bs by (auto intro!: lru_invI [of _ "as @ [m]" n bs'])
  next
    case left
    then obtain as' p where as: "as = as' @ [p]" by (cases as rule: rev_cases) auto
    with lru_l_shape sh obtain l' where "lru_l l = Some l'" "lru_shape l' as' p (m # bs)" by blast
    moreover from this(1) have "lru_balance l = Some l'" using cnt left by (simp add: lru_balance_def)
    ultimately show ?thesis using left as by (auto intro!: lru_invI [of _ as' p "m # bs"])
  qed
qed

lemma lru_balance_empty: "lru_empty l \<Longrightarrow> lru_balance l = Some l"
  by (simp add: lru_balance_def lru_empty_def)

text \<open>The state before rebalancing, for each place the removed element can have.\<close>

lemma LRURemove_shape:
  assumes sh: "lru_shape l as m bs" and xs: "as @ m # bs = ys @ e # zs"
  shows "\<exists>l3. LRURemove l e = map_option (\<lambda>l4. (l4, 0)) (lru_balance l3) \<and>
    ((ys @ zs = [] \<and> lru_empty l3) \<or>
     (\<exists>as' m' bs'. lru_shape l3 as' m' bs' \<and> as' @ m' # bs' = ys @ zs \<and>
        (length as = Suc (length as') \<and> length bs' = length bs \<or> length as' = length as \<and> length bs = Suc (length bs'))))"
proof -
  have rep: "dlist_rep (lst l) (ys @ e # zs)" using sh xs by (simp add: lru_shape_def)
  note rep' = dl.remove [OF rep] and ne = lru_shape_nonempty [OF sh] and dist = lru_shape_distinct [OF sh]
  have nbr: "dlistEPrev (fst (lst l)) e = (if ys = [] then None else Some (last ys))"
    "dlistENext (fst (lst l)) e = (if zs = [] then None else Some (hd zs))"
    using dl.pred [OF rep] dl.succ [OF rep] by simp_all
  from xs consider (mid_p) as' p where "as = as' @ [p]" "m = e" "ys = as' @ [p]" "bs = zs"
    | (mid_n) n bs' where "as = []" "ys = []" "m = e" "bs = n # bs'" "zs = n # bs'"
    | (single) "as = []" "ys = []" "m = e" "bs = []" "zs = []"
    | (left) us where "as = ys @ e # us" "zs = us @ m # bs" | (right) us where "ys = as @ m # us" "bs = us @ e # zs"
    by (cases as rule: rev_cases; cases bs) (auto simp: append_eq_append_conv2 append_eq_Cons_conv Cons_eq_append_conv)
  then show ?thesis
  proof cases
    case (mid_p as' p)
    let ?l3 = "set_where p 2 (set_where e 1 (l\<lparr>mid := Some p\<rparr>))\<lparr>before := before l - 1, lst := dlistRemove (lst l) e, behind := behind l\<rparr>"
    have "lru_shape ?l3 as' p bs" using mid_p sh dist rep' by (auto simp: lru_shape_def)
    moreover have "LRURemove l e = map_option (\<lambda>l4. (l4, 0)) (lru_balance ?l3)"
      using ne nbr mid_p sh dist by (auto simp: LRURemove_def lru_shape_def Let_def)
    ultimately show ?thesis using mid_p by (intro exI [of _ ?l3]) auto
  next
    case (mid_n n bs')
    let ?l3 = "set_where n 2 (set_where e 0 (l\<lparr>mid := Some n\<rparr>))\<lparr>behind := behind l - 1, lst := dlistRemove (lst l) e, before := before l\<rparr>"
    have "lru_shape ?l3 [] n bs'" using mid_n sh dist rep' by (auto simp: lru_shape_def)
    moreover have "LRURemove l e = map_option (\<lambda>l4. (l4, 0)) (lru_balance ?l3)"
      using ne nbr mid_n sh dist by (auto simp: LRURemove_def lru_shape_def Let_def)
    ultimately show ?thesis using mid_n by (intro exI [of _ ?l3]) auto
  next
    case single
    let ?l3 = "l\<lparr>lst := dlistRemove (lst l) e, mid := None, behind := 0, before := 0\<rparr>"
    have "lru_empty ?l3" using single rep' by (auto simp: lru_empty_def)
    moreover have "LRURemove l e = map_option (\<lambda>l4. (l4, 0)) (lru_balance ?l3)"
      using ne nbr single sh by (auto simp: LRURemove_def lru_shape_def Let_def)
    ultimately show ?thesis using single by (intro exI [of _ ?l3]) auto
  next
    case (left us)
    let ?l3 = "l\<lparr>lst := dlistRemove (lst l) e, before := before l - 1\<rparr>"
    have "lru_shape ?l3 (ys @ us) m bs" using left sh rep' by (auto simp: lru_shape_def)
    moreover have "LRURemove l e = map_option (\<lambda>l4. (l4, 0)) (lru_balance ?l3)"
      using ne nbr left sh dist by (auto simp: LRURemove_def lru_shape_def Let_def)
    moreover have "(ys @ us) @ m # bs = ys @ zs" "length as = Suc (length (ys @ us))" using left by simp_all
    ultimately show ?thesis by blast
  next
    case (right us)
    let ?l3 = "l\<lparr>lst := dlistRemove (lst l) e, behind := behind l - 1\<rparr>"
    have "lru_shape ?l3 as m (us @ zs)" using right sh rep' by (auto simp: lru_shape_def)
    moreover have "LRURemove l e = map_option (\<lambda>l4. (l4, 0)) (lru_balance ?l3)"
      using ne nbr right sh dist by (auto simp: LRURemove_def lru_shape_def Let_def)
    moreover have "as @ m # (us @ zs) = ys @ zs" "length bs = Suc (length (us @ zs))" using right by simp_all
    ultimately show ?thesis by blast
  qed
qed

lemma LRURemove_inv:
  assumes "lru_inv l (ys @ e # zs)"
  shows "\<exists>l'. LRURemove l e = Some (l', 0) \<and> lru_inv l' (ys @ zs)"
proof -
  from assms obtain as m bs where xs: "as @ m # bs = ys @ e # zs" and sh: "lru_shape l as m bs"
    and bal: "length bs = length as \<or> length bs = Suc (length as)" by (auto simp: lru_inv_def)
  from LRURemove_shape [OF sh xs] obtain l3 where rm: "LRURemove l e = map_option (\<lambda>l4. (l4, 0)) (lru_balance l3)"
    and st: "(ys @ zs = [] \<and> lru_empty l3) \<or> (\<exists>as' m' bs'. lru_shape l3 as' m' bs' \<and> as' @ m' # bs' = ys @ zs \<and>
        (length as = Suc (length as') \<and> length bs' = length bs \<or> length as' = length as \<and> length bs = Suc (length bs')))"
    by blast
  from st show ?thesis
  proof (elim disjE exE conjE)
    assume "ys @ zs = []" "lru_empty l3"
    with rm lru_balance_empty show ?thesis by (auto simp: lru_inv_def)
  next
    fix as' m' bs'
    assume sh': "lru_shape l3 as' m' bs'" and eq: "as' @ m' # bs' = ys @ zs"
      and "length as = Suc (length as')" "length bs' = length bs"
    then obtain l' where "lru_balance l3 = Some l'" "lru_inv l' (ys @ zs)"
      using lru_balance_inv [OF sh'] bal by fastforce
    with rm show ?thesis by simp
  next
    fix as' m' bs'
    assume sh': "lru_shape l3 as' m' bs'" and eq: "as' @ m' # bs' = ys @ zs"
      and "length as' = length as" "length bs = Suc (length bs')"
    then obtain l' where "lru_balance l3 = Some l'" "lru_inv l' (ys @ zs)"
      using lru_balance_inv [OF sh'] bal by fastforce
    with rm show ?thesis by simp
  qed
qed

subsection \<open>Sequences of operations\<close>

text \<open>A client of the list (stream/vtdb.c) inserts new elements in the middle, promotes
  elements it uses, and removes elements from the end or anywhere.\<close>

datatype lop = PutMid addr | Fwd addr | RemoveLast | Remove addr

text \<open>Which operations the contract allows on a list holding \<open>xs\<close>, and what they mean.\<close>

fun lop_ok :: "lop \<Rightarrow> addr list \<Rightarrow> bool" where
  "lop_ok (PutMid e) xs = (e \<notin> set xs)"
| "lop_ok (Fwd e) xs = (e \<in> set xs)"
| "lop_ok RemoveLast xs = True"
| "lop_ok (Remove e) xs = (e \<in> set xs)"

fun fwd :: "addr \<Rightarrow> addr list \<Rightarrow> addr list" where
  "fwd e (p # x # xs) = (if x = e then x # p # xs else p # fwd e (x # xs))"
| "fwd e xs = xs"

fun lru_seq :: "lop \<Rightarrow> addr list \<Rightarrow> addr list" where
  "lru_seq (PutMid e) xs = put_mid e xs"
| "lru_seq (Fwd e) xs = fwd e xs"
| "lru_seq RemoveLast xs = butlast xs"
| "lru_seq (Remove e) xs = remove1 e xs"

fun lru_step :: "lop \<Rightarrow> lru \<Rightarrow> lru option" where
  "lru_step (PutMid e) l = LRUPutMid l e"
| "lru_step (Fwd e) l = Some (LRUFwd l e)"
| "lru_step RemoveLast l = map_option fst (LRURemoveLast l)"
| "lru_step (Remove e) l = map_option fst (LRURemove l e)"

lemma fwd_absent: "e \<notin> set xs \<Longrightarrow> fwd e xs = xs"
  by (induction e xs rule: fwd.induct) auto

lemma fwd_swap: "e \<notin> set ys \<Longrightarrow> e \<noteq> p \<Longrightarrow> fwd e (ys @ p # e # zs) = ys @ e # p # zs"
proof (induction ys)
  case (Cons y ys)
  then show ?case by (cases ys) auto
qed simp

lemma fwd_hd: "e \<notin> set zs \<Longrightarrow> fwd e (e # zs) = e # zs"
  by (cases zs) (auto simp: fwd_absent)

lemma lru_inv_distinct: "lru_inv l xs \<Longrightarrow> distinct xs"
  by (auto simp: lru_inv_def dest: lru_shape_distinct)

lemma lru_step_refines:
  assumes "lru_inv l xs" and "lop_ok op xs"
  shows "\<exists>l'. lru_step op l = Some l' \<and> lru_inv l' (lru_seq op xs)"
proof (cases op)
  case (PutMid e)
  with assms LRUPutMid_inv [of l xs e] show ?thesis by simp
next
  case (Fwd e)
  with assms(2) obtain ys zs where xs: "xs = ys @ e # zs" by (auto dest: split_list)
  have e: "e \<notin> set ys" "e \<notin> set zs" using lru_inv_distinct [OF assms(1)] xs by auto
  show ?thesis
  proof (cases ys rule: rev_cases)
    case Nil
    with Fwd xs assms(1) LRUFwd_first [of l e zs] fwd_hd e show ?thesis by simp
  next
    case (snoc ys' p)
    with Fwd xs assms(1) LRUFwd_inv [of l ys' p e zs] fwd_swap [of e ys' p zs] e show ?thesis by simp
  qed
next
  case RemoveLast
  with assms LRURemoveLast_inv [of l xs] show ?thesis by auto
next
  case (Remove e)
  with assms(2) obtain ys zs where xs: "xs = ys @ e # zs" by (auto dest: split_list)
  have "e \<notin> set ys" using lru_inv_distinct [OF assms(1)] xs by auto
  with Remove xs assms LRURemove_inv [of l ys e zs] show ?thesis by (auto simp: remove1_append)
qed

primrec lru_run :: "lop list \<Rightarrow> lru \<Rightarrow> lru option" where
  "lru_run [] l = Some l"
| "lru_run (op # ops) l = (case lru_step op l of None \<Rightarrow> None | Some l' \<Rightarrow> lru_run ops l')"

primrec lru_seq_run :: "lop list \<Rightarrow> addr list \<Rightarrow> addr list option" where
  "lru_seq_run [] xs = Some xs"
| "lru_seq_run (op # ops) xs = (if lop_ok op xs then lru_seq_run ops (lru_seq op xs) else None)"

lemma lru_run_refines:
  assumes "lru_inv l xs" and "lru_seq_run ops xs = Some xs'"
  shows "\<exists>l'. lru_run ops l = Some l' \<and> lru_inv l' xs'"
  using assms
proof (induction ops arbitrary: l xs)
  case (Cons op ops)
  then have ok: "lop_ok op xs" "lru_seq_run ops (lru_seq op xs) = Some xs'" by (auto split: if_splits)
  from lru_step_refines [OF Cons.prems(1) ok(1)] Cons.IH [OF _ ok(2)] show ?case by auto
qed simp

text \<open>C25: Every run of the self-sorting list that respects the clients' contract never
  dereferences NULL, holds the elements in the order the operations on plain
  sequences give, reports its size, keeps the two halves balanced as the comment in
  the code demands, and points at the element in the middle. This includes the
  removal of arbitrary elements.\<close>

theorem lru_run_keeps_balance:
  assumes "lru_seq_run ops [] = Some xs"
  shows "\<exists>l'. lru_run ops (LRUInit l) = Some l' \<and> dlist_rep (lst l') xs \<and>
    LRUGetSize l' = int (length xs) \<and> (before l' = behind l' \<or> before l' = behind l' - 1) \<and>
    mid l' = (if xs = [] then None else Some (xs ! nat (before l')))"
proof -
  from lru_run_refines [OF LRUInit_inv assms] obtain l' where run: "lru_run ops (LRUInit l) = Some l'"
    and inv: "lru_inv l' xs" by blast
  from inv have "dlist_rep (lst l') xs \<and> (before l' = behind l' \<or> before l' = behind l' - 1) \<and>
      mid l' = (if xs = [] then None else Some (xs ! nat (before l')))"
    by (cases rule: lru_inv_cases) (auto simp: lru_empty_def lru_shape_def)
  with run LRUGetSize_inv [OF inv] show ?thesis by blast
qed

abbreviation lru_blank :: lru where
  "lru_blank \<equiv> \<lparr>lst = (\<lparr>dnext = (\<lambda>_. None), dprev = (\<lambda>_. None)\<rparr>, dlistInit), wh = (\<lambda>_. 0),
     before = 0, behind = 0, mid = None\<rparr>"

theorem lru_run_keeps_balance_witness:
  "\<exists>l'. lru_run [PutMid 1, PutMid 2, PutMid 3, PutMid 4, Fwd 2, Remove 1, RemoveLast] (LRUInit lru_blank) = Some l' \<and>
    dlist_rep (lst l') [3, 2] \<and> LRUGetSize l' = int (length [3, 2 :: addr]) \<and>
    (before l' = behind l' \<or> before l' = behind l' - 1) \<and>
    mid l' = (if [3, 2 :: addr] = [] then None else Some ([3, 2] ! nat (before l')))"
proof -
  have "lru_seq_run [PutMid 1, PutMid 2, PutMid 3, PutMid 4, Fwd 2, Remove 1, RemoveLast] [] = Some [3, 2]"
    by (simp add: put_mid_def)
  from lru_run_keeps_balance [OF this] show ?thesis .
qed

end
