(* ===== verification/SecCommon.thy ===== *)
theory SecCommon
  imports Bits
begin

text \<open>
  stream/sec_common.c: the fields common to all sections and the section CRC.  The
  table-driven CRC is shown equal to the bitwise division by the MPEG-2 polynomial;
  being linear and injective it detects every error burst of up to 32 bits.
\<close>

subsection \<open>Header fields\<close>

definition MAX_SEC_SIZE :: nat where
  "MAX_SEC_SIZE = 4096"

definition get_sec_size :: "buffer \<Rightarrow> nat option" where
  "get_sec_size sec =
     map_option (\<lambda>v. let s = unat v + 3 in if s > MAX_SEC_SIZE then MAX_SEC_SIZE else s) (bitsGet sec 1 4 12)"

definition get_sec_nr :: "buffer \<Rightarrow> u8 option" where
  "get_sec_nr sec = rd sec 6"

definition get_sec_pnr :: "buffer \<Rightarrow> u64 option" where
  "get_sec_pnr sec = bitsGet sec 3 0 16"

definition get_sec_version :: "buffer \<Rightarrow> u64 option" where
  "get_sec_version sec = bitsGet sec 5 2 5"

definition sec_is_current :: "buffer \<Rightarrow> u64 option" where
  "sec_is_current sec = bitsGet sec 5 7 1"

definition get_sec_id :: "buffer \<Rightarrow> u8 option" where
  "get_sec_id sec = rd sec 0"

definition get_sec_last :: "buffer \<Rightarrow> u8 option" where
  "get_sec_last sec = rd sec 7"

subsection \<open>The CRC\<close>

definition crc_table :: "u32 list" where
  "crc_table =
    [
     0x00000000, 0x04c11db7, 0x09823b6e, 0x0d4326d9, 0x130476dc, 0x17c56b6b, 0x1a864db2, 0x1e475005,
     0x2608edb8, 0x22c9f00f, 0x2f8ad6d6, 0x2b4bcb61, 0x350c9b64, 0x31cd86d3, 0x3c8ea00a, 0x384fbdbd,
     0x4c11db70, 0x48d0c6c7, 0x4593e01e, 0x4152fda9, 0x5f15adac, 0x5bd4b01b, 0x569796c2, 0x52568b75,
     0x6a1936c8, 0x6ed82b7f, 0x639b0da6, 0x675a1011, 0x791d4014, 0x7ddc5da3, 0x709f7b7a, 0x745e66cd,
     0x9823b6e0, 0x9ce2ab57, 0x91a18d8e, 0x95609039, 0x8b27c03c, 0x8fe6dd8b, 0x82a5fb52, 0x8664e6e5,
     0xbe2b5b58, 0xbaea46ef, 0xb7a96036, 0xb3687d81, 0xad2f2d84, 0xa9ee3033, 0xa4ad16ea, 0xa06c0b5d,
     0xd4326d90, 0xd0f37027, 0xddb056fe, 0xd9714b49, 0xc7361b4c, 0xc3f706fb, 0xceb42022, 0xca753d95,
     0xf23a8028, 0xf6fb9d9f, 0xfbb8bb46, 0xff79a6f1, 0xe13ef6f4, 0xe5ffeb43, 0xe8bccd9a, 0xec7dd02d,
     0x34867077, 0x30476dc0, 0x3d044b19, 0x39c556ae, 0x278206ab, 0x23431b1c, 0x2e003dc5, 0x2ac12072,
     0x128e9dcf, 0x164f8078, 0x1b0ca6a1, 0x1fcdbb16, 0x018aeb13, 0x054bf6a4, 0x0808d07d, 0x0cc9cdca,
     0x7897ab07, 0x7c56b6b0, 0x71159069, 0x75d48dde, 0x6b93dddb, 0x6f52c06c, 0x6211e6b5, 0x66d0fb02,
     0x5e9f46bf, 0x5a5e5b08, 0x571d7dd1, 0x53dc6066, 0x4d9b3063, 0x495a2dd4, 0x44190b0d, 0x40d816ba,
     0xaca5c697, 0xa864db20, 0xa527fdf9, 0xa1e6e04e, 0xbfa1b04b, 0xbb60adfc, 0xb6238b25, 0xb2e29692,
     0x8aad2b2f, 0x8e6c3698, 0x832f1041, 0x87ee0df6, 0x99a95df3, 0x9d684044, 0x902b669d, 0x94ea7b2a,
     0xe0b41de7, 0xe4750050, 0xe9362689, 0xedf73b3e, 0xf3b06b3b, 0xf771768c, 0xfa325055, 0xfef34de2,
     0xc6bcf05f, 0xc27dede8, 0xcf3ecb31, 0xcbffd686, 0xd5b88683, 0xd1799b34, 0xdc3abded, 0xd8fba05a,
     0x690ce0ee, 0x6dcdfd59, 0x608edb80, 0x644fc637, 0x7a089632, 0x7ec98b85, 0x738aad5c, 0x774bb0eb,
     0x4f040d56, 0x4bc510e1, 0x46863638, 0x42472b8f, 0x5c007b8a, 0x58c1663d, 0x558240e4, 0x51435d53,
     0x251d3b9e, 0x21dc2629, 0x2c9f00f0, 0x285e1d47, 0x36194d42, 0x32d850f5, 0x3f9b762c, 0x3b5a6b9b,
     0x0315d626, 0x07d4cb91, 0x0a97ed48, 0x0e56f0ff, 0x1011a0fa, 0x14d0bd4d, 0x19939b94, 0x1d528623,
     0xf12f560e, 0xf5ee4bb9, 0xf8ad6d60, 0xfc6c70d7, 0xe22b20d2, 0xe6ea3d65, 0xeba91bbc, 0xef68060b,
     0xd727bbb6, 0xd3e6a601, 0xdea580d8, 0xda649d6f, 0xc423cd6a, 0xc0e2d0dd, 0xcda1f604, 0xc960ebb3,
     0xbd3e8d7e, 0xb9ff90c9, 0xb4bcb610, 0xb07daba7, 0xae3afba2, 0xaafbe615, 0xa7b8c0cc, 0xa379dd7b,
     0x9b3660c6, 0x9ff77d71, 0x92b45ba8, 0x9675461f, 0x8832161a, 0x8cf30bad, 0x81b02d74, 0x857130c3,
     0x5d8a9099, 0x594b8d2e, 0x5408abf7, 0x50c9b640, 0x4e8ee645, 0x4a4ffbf2, 0x470cdd2b, 0x43cdc09c,
     0x7b827d21, 0x7f436096, 0x7200464f, 0x76c15bf8, 0x68860bfd, 0x6c47164a, 0x61043093, 0x65c52d24,
     0x119b4be9, 0x155a565e, 0x18197087, 0x1cd86d30, 0x029f3d35, 0x065e2082, 0x0b1d065b, 0x0fdc1bec,
     0x3793a651, 0x3352bbe6, 0x3e119d3f, 0x3ad08088, 0x2497d08d, 0x2056cd3a, 0x2d15ebe3, 0x29d4f654,
     0xc5a92679, 0xc1683bce, 0xcc2b1d17, 0xc8ea00a0, 0xd6ad50a5, 0xd26c4d12, 0xdf2f6bcb, 0xdbee767c,
     0xe3a1cbc1, 0xe760d676, 0xea23f0af, 0xeee2ed18, 0xf0a5bd1d, 0xf464a0aa, 0xf9278673, 0xfde69bc4,
     0x89b8fd09, 0x8d79e0be, 0x803ac667, 0x84fbdbd0, 0x9abc8bd5, 0x9e7d9662, 0x933eb0bb, 0x97ffad0c,
     0xafb010b1, 0xab710d06, 0xa6322bdf, 0xa2f33668, 0xbcb4666d, 0xb8757bda, 0xb5365d03, 0xb1f740b4
    ]"

text \<open>One pass of the loop body of \<open>sec_crc32\<close>; \<open>data\<close> bytes are masked to 8 bits, so
  the signedness of \<open>char\<close> does not matter.\<close>

definition crc_step :: "u8 \<Rightarrow> u32 \<Rightarrow> u32" where
  "crc_step b crc =
     push_bit 8 crc XOR crc_table ! unat ((drop_bit 24 crc XOR ucast b) AND 0xff)"

definition sec_crc32 :: "buffer \<Rightarrow> nat \<Rightarrow> u32 option" where
  "sec_crc32 data len =
     (if len \<le> length data then Some (fold crc_step (take len data) 0xffffffff) else None)"

definition secCheckCrc :: "buffer \<Rightarrow> u32 option" where
  "secCheckCrc sec =
     (case bitsGet sec 1 4 12 of
        None \<Rightarrow> None
      | Some section_length \<Rightarrow> sec_crc32 sec (unat section_length + 3))"

subsection \<open>Bitwise division\<close>

definition poly_shift :: "u32 \<Rightarrow> u32" where
  "poly_shift s = push_bit 1 s XOR (if bit s 31 then 0x04c11db7 else 0)"

lemma poly_shift_xor: "poly_shift (a XOR b) = poly_shift a XOR poly_shift b"
  by (simp add: poly_shift_def push_bit_xor bit_xor_iff xor.assoc xor.left_commute)

lemma poly_shift_pow_xor: "(poly_shift ^^ n) (a XOR b) = (poly_shift ^^ n) a XOR (poly_shift ^^ n) b"
  by (induction n) (simp_all add: poly_shift_xor)

lemma poly_shift_0 [simp]: "poly_shift 0 = 0"
  by (simp add: poly_shift_def)

lemma poly_shift_pow_0 [simp]: "(poly_shift ^^ n) 0 = 0"
  by (induction n) simp_all

lemma poly_shift_eq_0D:
  assumes "poly_shift s = 0"
  shows "s = 0"
proof -
  have "\<not> bit s 31"
  proof
    assume "bit s 31"
    then have "bit (poly_shift s) 0" by (simp add: poly_shift_def bit_0 even_xor_iff)
    with assms show False by simp
  qed
  with assms have "push_bit 1 s = 0" by (simp add: poly_shift_def)
  moreover have "i < 31 \<Longrightarrow> bit (push_bit 1 s) (Suc i) = bit s i" for i
    by (subst bit_push_bit_iff) simp
  ultimately have "i < 31 \<Longrightarrow> \<not> bit s i" for i by auto
  with \<open>\<not> bit s 31\<close> show ?thesis
    by (intro bit_word_eqI) (auto simp: less_Suc_eq_le numeral_eq_Suc dest: le_neq_implies_less)
qed

lemma poly_shift_pow_eq_0D: "(poly_shift ^^ n) s = 0 \<Longrightarrow> s = 0"
  by (induction n) (auto dest: poly_shift_eq_0D)

text \<open>While the bits that leave the register are zero the division is a plain shift.\<close>

lemma poly_shift_pow_small:
  assumes "\<And>i. 32 - n \<le> i \<Longrightarrow> \<not> bit s i" and "n \<le> 32"
  shows "(poly_shift ^^ n) s = push_bit n s"
  using assms
proof (induction n)
  case (Suc n)
  have "(poly_shift ^^ n) s = push_bit n s" using Suc by simp
  moreover have "\<not> bit (push_bit n s) 31" using Suc.prems by (simp add: bit_push_bit_iff)
  ultimately have "(poly_shift ^^ Suc n) s = push_bit 1 (push_bit n s)" by (simp add: poly_shift_def [of "push_bit n s"])
  then show ?case by (simp only: push_bit_push_bit plus_1_eq_Suc)
qed simp

lemma crc_table_doubling:
  "concat (map (\<lambda>s. [poly_shift s, poly_shift s XOR 0x04c11db7]) (take 128 crc_table)) = crc_table"
  by (simp add: crc_table_def poly_shift_def)

lemma crc_table_first: "crc_table ! 0 = 0" "length crc_table = 256"
  by (simp_all add: crc_table_def)

lemma nth_concat_pairs:
  "j < length xs \<Longrightarrow> concat (map (\<lambda>s. [f s, g s]) xs) ! (2 * j) = f (xs ! j)"
  "j < length xs \<Longrightarrow> concat (map (\<lambda>s. [f s, g s]) xs) ! (2 * j + 1) = g (xs ! j)"
proof (induction xs arbitrary: j)
  case (Cons x xs)
  { case 1 with Cons show ?case by (cases j) auto }
  { case 2 with Cons show ?case by (cases j) auto }
qed simp_all

lemma crc_table_rec:
  assumes "j < 128"
  shows "crc_table ! (2 * j) = poly_shift (crc_table ! j)"
    and "crc_table ! (2 * j + 1) = poly_shift (crc_table ! j) XOR 0x04c11db7"
  using nth_concat_pairs [of j "take 128 crc_table" poly_shift "\<lambda>s. poly_shift s XOR 0x04c11db7"] assms
  by (simp_all add: crc_table_doubling crc_table_first)

lemma poly_shift_double:
  assumes "j < 128"
  shows "poly_shift (push_bit 24 (word_of_nat j)) = push_bit 24 (word_of_nat (2 * j))"
proof -
  have "\<not> bit (word_of_nat j :: u32) 7"
    using assms bit_iff_odd [of j 7] by (simp add: bit_of_nat_iff)
  then have "\<not> bit (push_bit 24 (word_of_nat j :: u32)) 31" by (simp add: bit_push_bit_iff)
  then show ?thesis
    by (simp add: poly_shift_def push_bit_eq_mult mult.commute mult.left_commute)
qed

lemma poly_shift_pow_one: "(poly_shift ^^ 8) (push_bit 24 1) = 0x04c11db7"
  by code_simp

lemma crc_table_poly:
  "i < 256 \<Longrightarrow> crc_table ! i = (poly_shift ^^ 8) (push_bit 24 (word_of_nat i))"
proof (induction i rule: less_induct)
  case (less i)
  define j where "j = i div 2"
  show ?case
  proof (cases "i = 0")
    case True
    then show ?thesis by (simp add: crc_table_first)
  next
    case False
    have j: "j < i" "j < 128" using False less.prems by (simp_all add: j_def)
    have IH: "crc_table ! j = (poly_shift ^^ 8) (push_bit 24 (word_of_nat j))" using less j by simp
    have dbl: "poly_shift (crc_table ! j) = (poly_shift ^^ 8) (push_bit 24 (word_of_nat (2 * j)))"
      by (simp only: IH funpow_swap1 poly_shift_double [OF j(2)])
    show ?thesis
    proof (cases "even i")
      case True
      then have "i = 2 * j" by (simp add: j_def)
      then show ?thesis using crc_table_rec(1) [OF j(2)] dbl by simp
    next
      case False
      then have i: "i = 2 * j + 1" by (simp add: j_def)
      have "word_of_nat i = (word_of_nat (2 * j) XOR 1 :: u32)" by (simp add: i xor_one_eq)
      then have "(poly_shift ^^ 8) (push_bit 24 (word_of_nat i)) =
          (poly_shift ^^ 8) (push_bit 24 (word_of_nat (2 * j))) XOR (poly_shift ^^ 8) (push_bit 24 1)"
        by (simp only: push_bit_xor poly_shift_pow_xor)
      then show ?thesis using crc_table_rec(2) [OF j(2)] dbl i by (simp only: poly_shift_pow_one)
    qed
  qed
qed

lemma crc_step_poly: "crc_step b s = (poly_shift ^^ 8) (s XOR push_bit 24 (ucast b))"
proof -
  define t where "t = s XOR push_bit 24 (ucast b)"
  define hi where "hi = drop_bit 24 s XOR ucast b"
  have hi: "drop_bit 24 t = hi"
    by (rule bit_word_eqI) (auto simp: t_def hi_def bit_drop_bit_eq bit_xor_iff bit_push_bit_iff bit_ucast_iff dest: bit_imp_le_length)
  have low: "push_bit 8 (take_bit 24 t) = push_bit 8 s"
    by (rule bit_word_eqI) (auto simp: t_def bit_take_bit_iff bit_push_bit_iff bit_xor_iff)
  have hi_bits: "bit hi n \<Longrightarrow> n < 8" for n
    by (auto simp: hi_def bit_xor_iff bit_drop_bit_eq bit_ucast_iff dest: bit_imp_le_length)
  have ff: "(0xff :: u32) = 2 ^ 8 - 1" by simp
  have hi8: "hi AND 0xff = hi"
    unfolding ff by (rule bit_word_eqI) (use hi_bits in \<open>simp only: bit_and_iff bit_mask_word, blast\<close>)
  have "t = take_bit 24 t XOR push_bit 24 hi"
    unfolding hi [symmetric]
    by (rule bit_word_eqI) (auto simp: bit_xor_iff bit_take_bit_iff bit_push_bit_iff bit_drop_bit_eq)
  then have "(poly_shift ^^ 8) t = (poly_shift ^^ 8) (take_bit 24 t) XOR (poly_shift ^^ 8) (push_bit 24 hi)"
    by (metis poly_shift_pow_xor)
  moreover have "(poly_shift ^^ 8) (take_bit 24 t) = push_bit 8 (take_bit 24 t)"
    by (rule poly_shift_pow_small) (auto simp: bit_take_bit_iff)
  moreover have "(poly_shift ^^ 8) (push_bit 24 hi) = crc_table ! unat hi"
  proof -
    have "unat hi < 2 ^ 8"
      by (rule word_less_exp_of_bits) (use hi_bits not_less in blast)
    then show ?thesis using crc_table_poly [of "unat hi"] by simp
  qed
  ultimately show ?thesis
    by (simp add: crc_step_def low hi8 hi_def [symmetric] t_def [symmetric])
qed

subsection \<open>Linearity and error detection\<close>

lemma crc_step_xor: "crc_step (x XOR e) (s XOR t) = crc_step x s XOR crc_step e t"
proof -
  have "(s XOR t) XOR push_bit 24 (ucast (x XOR e)) =
      (s XOR push_bit 24 (ucast x)) XOR (t XOR push_bit 24 (ucast e) :: u32)"
    by (rule bit_word_eqI) (auto simp: bit_xor_iff bit_push_bit_iff bit_ucast_iff)
  then show ?thesis by (simp only: crc_step_poly poly_shift_pow_xor)
qed

lemma crc_fold_xor:
  "length xs = length es \<Longrightarrow>
     fold crc_step (map2 (XOR) xs es) (s XOR t) = fold crc_step xs s XOR fold crc_step es t"
  by (induction xs es arbitrary: s t rule: list_induct2) (simp_all add: crc_step_xor)

lemma crc_step_zero: "crc_step 0 s = (poly_shift ^^ 8) s"
  by (simp add: crc_step_poly)

lemma crc_zeros [simp]: "fold crc_step (replicate n 0) 0 = 0"
  by (induction n) (simp_all add: crc_step_zero)

lemma crc_zeros_eq_0D: "fold crc_step (replicate n 0) s = 0 \<Longrightarrow> s = 0"
  by (induction n arbitrary: s) (auto simp: crc_step_zero dest: poly_shift_pow_eq_0D)

text \<open>Up to four bytes, left aligned in a register.\<close>

primrec be32 :: "buffer \<Rightarrow> u32" where
  "be32 [] = 0"
| "be32 (e # es) = push_bit 24 (ucast e) XOR drop_bit 8 (be32 es)"

lemma be32_low:
  "length es \<le> 4 \<Longrightarrow> i < 32 - 8 * length es \<Longrightarrow> \<not> bit (be32 es) i"
  by (induction es arbitrary: i) (auto simp: bit_xor_iff bit_push_bit_iff bit_drop_bit_eq)

lemma be32_eq_0D:
  assumes "length es \<le> 4" and "be32 es = 0"
  shows "es = replicate (length es) 0"
  using assms
proof (induction es)
  case (Cons e es)
  have bits: "bit (be32 (e # es)) i = (bit (push_bit 24 (ucast e :: u32)) i \<noteq> bit (be32 es) (i + 8))" for i
    by (simp add: bit_xor_iff bit_drop_bit_eq add.commute)
  have "\<not> bit e i" for i
  proof
    assume e: "bit e i"
    then have "i < 8" by (auto dest: bit_imp_le_length)
    with e have "bit (push_bit 24 (ucast e :: u32)) (24 + i)" by (simp add: bit_push_bit_iff bit_ucast_iff)
    moreover have "\<not> bit (be32 es) (24 + i + 8)" by (auto dest: bit_imp_le_length)
    ultimately show False using bits [of "24 + i"] Cons.prems(2) by simp
  qed
  then have e0: "e = 0" by (intro bit_word_eqI) simp
  have "be32 es = 0"
  proof (rule bit_word_eqI)
    fix i
    show "bit (be32 es) i = bit 0 i"
    proof (cases "i < 8")
      case True
      then show ?thesis using be32_low [of es i] Cons.prems(1) by simp
    next
      case False
      then have "i = (i - 8) + 8" by simp
      then show ?thesis using bits [of "i - 8"] Cons.prems(2) e0 by simp
    qed
  qed
  with Cons e0 show ?case by simp
qed simp

lemma crc_fold_be32:
  "length es \<le> 4 \<Longrightarrow> fold crc_step es s = (poly_shift ^^ (8 * length es)) (s XOR be32 es)"
proof (induction es arbitrary: s)
  case (Cons e es)
  have "\<not> bit (drop_bit 8 (be32 es)) i" if "24 \<le> i" for i
    using that by (auto simp: bit_drop_bit_eq dest: bit_imp_le_length)
  then have "(poly_shift ^^ 8) (drop_bit 8 (be32 es)) = push_bit 8 (drop_bit 8 (be32 es))"
    by (intro poly_shift_pow_small) auto
  also have "\<dots> = be32 es"
  proof (rule bit_word_eqI)
    fix n
    have "n < 8 \<Longrightarrow> n < 32 - 8 * length es" using Cons.prems by simp
    then have "bit (be32 es) n \<Longrightarrow> 8 \<le> n" using be32_low [of es n] Cons.prems by fastforce
    then show "bit (push_bit 8 (drop_bit 8 (be32 es))) n = bit (be32 es) n"
      using bit_imp_le_length [of "be32 es" n] by (auto simp: bit_push_bit_iff bit_drop_bit_eq)
  qed
  finally have bk: "(poly_shift ^^ 8) (drop_bit 8 (be32 es)) = be32 es" .
  have "fold crc_step (e # es) s = (poly_shift ^^ (8 * length es)) ((poly_shift ^^ 8) (s XOR push_bit 24 (ucast e)) XOR be32 es)"
    using Cons by (simp add: crc_step_poly [of e s])
  also have "\<dots> = (poly_shift ^^ (8 * length es)) ((poly_shift ^^ 8) (s XOR be32 (e # es)))"
    by (simp only: be32.simps xor.assoc [symmetric] poly_shift_pow_xor bk)
  finally show ?case by (simp add: funpow_add [symmetric, THEN fun_cong, simplified comp_def] add.commute)
qed simp

text \<open>An error pattern: non-zero only inside a window of at most four bytes.\<close>

lemma crc_burst_nonzero:
  assumes "length bs \<le> 4" and "bs \<noteq> replicate (length bs) 0"
  shows "fold crc_step (replicate i 0 @ bs @ replicate k 0) 0 \<noteq> 0"
proof
  assume "fold crc_step (replicate i 0 @ bs @ replicate k 0) 0 = 0"
  then have "fold crc_step (replicate k 0) (fold crc_step bs 0) = 0" by (simp only: fold_append comp_apply crc_zeros)
  then have "fold crc_step bs 0 = 0" by (rule crc_zeros_eq_0D)
  then have "be32 bs = 0" using crc_fold_be32 [OF assms(1), of 0] poly_shift_pow_eq_0D by fastforce
  with be32_eq_0D assms show False by blast
qed

lemma xor_eq_0D: "a XOR b = 0 \<Longrightarrow> a = (b :: 'a::len word)"
  by (metis xor.assoc xor.right_neutral xor_self_eq xor.left_neutral)

lemma xor_eq_selfD: "a = a XOR b \<Longrightarrow> b = (0 :: 'a::len word)"
  by (metis xor.assoc xor_self_eq xor.left_neutral)

lemma xor_bytes_cancel:
  "length xs = length ys \<Longrightarrow> map2 (XOR) xs (map2 (XOR) xs ys) = (ys :: buffer)"
  by (induction xs ys rule: list_induct2) (simp_all add: xor.assoc [symmetric])

lemma window_split:
  assumes "length es = n" and "\<And>j. j < n \<Longrightarrow> es ! j \<noteq> 0 \<Longrightarrow> i \<le> j \<and> j < i + 4"
  shows "\<exists>a bs k. es = replicate a 0 @ bs @ replicate k 0 \<and> length bs \<le> 4"
proof -
  let ?bs = "take 4 (drop i es)"
  have "x = 0" if "x \<in> set (take i es)" for x
  proof -
    from that obtain j where "j < i" "j < n" "x = es ! j" using assms(1) by (auto simp: in_set_conv_nth)
    with assms(2) [of j] show ?thesis by auto
  qed
  then have "take i es = replicate (length (take i es)) 0" by (metis replicate_eqI)
  moreover have "x = 0" if "x \<in> set (drop (i + 4) es)" for x
  proof -
    from that obtain j where "j < length (drop (i + 4) es)" "x = drop (i + 4) es ! j"
      by (metis in_set_conv_nth)
    moreover from this have "i + 4 + j < n" using assms(1) by simp
    ultimately show ?thesis using assms(2) [of "i + 4 + j"] by auto
  qed
  then have "drop (i + 4) es = replicate (length (drop (i + 4) es)) 0" by (metis replicate_eqI)
  moreover have "es = take i es @ ?bs @ drop (i + 4) es"
    by (metis append_take_drop_id drop_drop add.commute)
  ultimately show ?thesis by (metis length_take min.cobounded2 min.commute)
qed

lemma crc_window_detected:
  assumes "length xs = length ys" and "xs \<noteq> ys"
    and "\<And>j. j < length xs \<Longrightarrow> xs ! j \<noteq> ys ! j \<Longrightarrow> i \<le> j \<and> j < i + 4"
  shows "fold crc_step ys s \<noteq> fold crc_step xs s"
proof
  assume eq: "fold crc_step ys s = fold crc_step xs s"
  define es where "es = map2 (XOR) xs ys"
  have es: "length es = length xs" "\<And>j. j < length xs \<Longrightarrow> es ! j = xs ! j XOR ys ! j"
    using assms(1) by (simp_all add: es_def)
  have nz: "j < length xs \<Longrightarrow> es ! j \<noteq> 0 \<Longrightarrow> xs ! j \<noteq> ys ! j" for j using es(2) by auto
  from window_split [of es "length xs" i] obtain a bs k
    where split: "es = replicate a 0 @ bs @ replicate k 0" "length bs \<le> 4"
    using es(1) nz assms(3) by blast
  have "fold crc_step ys s = fold crc_step xs s XOR fold crc_step es 0"
    using crc_fold_xor [of xs es s 0] es(1) xor_bytes_cancel [OF assms(1)] by (simp add: es_def)
  with eq have "fold crc_step es 0 = 0" by (metis xor_eq_selfD)
  with crc_burst_nonzero split have "bs = replicate (length bs) 0" by blast
  with split have "es = replicate (length xs) 0" by (metis es(1) length_append length_replicate replicate_add)
  then have "xs ! j = ys ! j" if "j < length xs" for j
    using es(2) [OF that] that by (metis nth_replicate xor_eq_0D)
  with assms(1) have "xs = ys" by (intro nth_equalityI) auto
  with assms(2) show False ..
qed

subsection \<open>Properties\<close>

lemma bitsGet_cong:
  assumes "bitlen \<le> 32" "8 * off + st + bitlen \<le> 8 * length a" "8 * off + st + bitlen \<le> 8 * length b"
    and "\<And>i. off \<le> i \<Longrightarrow> 8 * i < 8 * off + st + bitlen \<Longrightarrow> a ! i = b ! i"
  shows "bitsGet a off st bitlen = bitsGet b off st bitlen"
proof -
  from bitsGet_field [OF assms(1,2)] bitsGet_field [OF assms(1,3)] obtain v w
    where v: "bitsGet a off st bitlen = Some v" "is_field a (8 * off + st) bitlen v"
      and w: "bitsGet b off st bitlen = Some w" "is_field b (8 * off + st) bitlen w" by blast
  have "buf_bit a p = buf_bit b p" if "8 * off \<le> p" "p < 8 * off + st + bitlen" for p
  proof -
    have "off \<le> p div 8" "8 * (p div 8) < 8 * off + st + bitlen" using that by linarith+
    then show ?thesis by (simp add: buf_bit_def assms(4))
  qed
  then have "is_field a (8 * off + st) bitlen w" using w(2) by (auto simp: is_field_def)
  with v w is_field_unique show ?thesis by metis
qed

text \<open>C26: A section that passes the CRC check stops passing it when any bytes behind its
  length field are altered inside a window of four consecutive bytes (every burst of
  up to 25 arbitrary bits, and every aligned 32-bit burst): the table-driven CRC
  then returns a non-zero value.\<close>

theorem secCheckCrc_detects_burst:
  assumes "secCheckCrc sec = Some 0" and "bitsGet sec 1 4 12 = Some n"
    and "length sec' = length sec" and "3 \<le> i"
    and "\<And>j. j < length sec \<Longrightarrow> sec' ! j \<noteq> sec ! j \<Longrightarrow> i \<le> j \<and> j < i + 4"
    and "d < unat n + 3" and "sec' ! d \<noteq> sec ! d"
  shows "\<exists>c. secCheckCrc sec' = Some c \<and> c \<noteq> 0"
proof -
  let ?len = "unat n + 3"
  from assms(1,2) have len: "?len \<le> length sec" and crc: "fold crc_step (take ?len sec) 0xffffffff = 0"
    by (auto simp: secCheckCrc_def sec_crc32_def split: if_splits)
  have hdr: "bitsGet sec' 1 4 12 = bitsGet sec 1 4 12"
  proof (rule bitsGet_cong)
    show "sec' ! k = sec ! k" if "1 \<le> k" "8 * k < 8 * 1 + 4 + 12" for k
      using assms(5) [of k] that assms(4) len by fastforce
  qed (use len assms(3) in auto)
  have "fold crc_step (take ?len sec') 0xffffffff \<noteq> fold crc_step (take ?len sec) 0xffffffff"
  proof (rule crc_window_detected [of _ _ i])
    show "length (take ?len sec) = length (take ?len sec')" using assms(3) by simp
    show "take ?len sec \<noteq> take ?len sec'" using assms(6,7) by (metis nth_take)
    show "i \<le> j \<and> j < i + 4"
      if "j < length (take ?len sec)" "take ?len sec ! j \<noteq> take ?len sec' ! j" for j
      using that assms(5) [of j] by auto
  qed
  then show ?thesis
    using crc hdr assms(2,3) len by (simp add: secCheckCrc_def sec_crc32_def)
qed

lemma secCheckCrc_total:
  assumes "length pat = 4096" and "unat (field pat 12 12) \<le> 4093"
  shows "\<exists>c. secCheckCrc pat = Some c"
  using bitsGet_eq [of 12 1 4 pat] assms by (simp add: secCheckCrc_def sec_crc32_def)

lemmas sec_eval = secCheckCrc_def sec_crc32_def bitsGet_def bitsGet_short_def gather.simps rd_def Let_def
  crc_step_def crc_table_def

theorem secCheckCrc_detects_burst_witness:
  "\<exists>c. secCheckCrc [112, 0, 4, 117, 212, 114, 140] = Some c \<and> c \<noteq> 0"
proof (rule secCheckCrc_detects_burst [of "[112, 0, 4, 244, 212, 114, 140]" 4 _ 3 3])
  fix j
  assume "j < length ([112, 0, 4, 244, 212, 114, 140] :: buffer)" "[112, 0, 4, 117, 212, 114, 140] ! j \<noteq> ([112, 0, 4, 244, 212, 114, 140] :: buffer) ! j"
  then show "3 \<le> j \<and> j < 3 + 4"
    by (auto simp: less_Suc_eq numeral_eq_Suc)
qed (simp_all add: sec_eval)

lemma crc_append_zero:
  assumes "sec_crc32 data (length data) = Some c"
  shows "sec_crc32 (data @ [ucast (drop_bit 24 c), ucast (drop_bit 16 c), ucast (drop_bit 8 c), ucast c])
    (length data + 4) = Some 0"
proof -
  let ?bs = "[ucast (drop_bit 24 c), ucast (drop_bit 16 c), ucast (drop_bit 8 c), ucast c] :: buffer"
  have c: "fold crc_step data 0xffffffff = c" using assms by (simp add: sec_crc32_def)
  have bits: "bit (be32 ?bs) i = bit c i" if "i < 32" for i
  proof -
    from that consider "i < 8" | "8 \<le> i" "i < 16" | "16 \<le> i" "i < 24" | "24 \<le> i" "i < 32" by linarith
    then show ?thesis
      by cases (auto simp: bit_xor_iff bit_drop_bit_eq bit_push_bit_iff bit_ucast_iff)
  qed
  have "be32 ?bs = c" by (rule bit_word_eqI) (simp add: bits del: be32.simps)
  then have "fold crc_step ?bs c = 0" using crc_fold_be32 [of ?bs c] by (simp del: fold_simps be32.simps)
  then show ?thesis by (simp add: sec_crc32_def c del: fold_simps)
qed

text \<open>Appending the CRC of some data in big endian order gives a message whose CRC
  is zero, which is what the check of received sections relies on.\<close>

theorem sec_crc32_append_zero:
  assumes "sec_crc32 data (length data) = Some c"
  shows "sec_crc32 (data @ [ucast (drop_bit 24 c), ucast (drop_bit 16 c), ucast (drop_bit 8 c), ucast c])
    (length data + 4) = Some 0"
  using assms by (rule crc_append_zero)

theorem sec_crc32_append_zero_witness:
  "sec_crc32 ([1, 2] @ [ucast (drop_bit 24 (3677134543 :: u32)), ucast (drop_bit 16 (3677134543 :: u32)),
     ucast (drop_bit 8 (3677134543 :: u32)), ucast (3677134543 :: u32)]) (length [1, 2 :: u8] + 4) = Some 0"
proof (rule sec_crc32_append_zero)
  show "sec_crc32 [1, 2] (length [1, 2 :: u8]) = Some 3677134543" by (simp add: sec_eval)
qed

end
