(* ===== verification/VtPk.thy ===== *)
theory VtPk
  imports Prelude "HOL-Library.Monad_Syntax"
begin

text \<open>
  common/vt_pk.c: decoding of teletext packets.  Packet headers are protected by a
  Hamming 8/4 code, enhancement triplets by a Hamming 24/18 code and display text by
  odd parity.  The lookup tables are those of the source; they are shown to correct
  every single-bit error and to flag every double-bit error.
\<close>

subsection \<open>Hamming 8/4 and the packet header\<close>

definition hammtab84_r :: "u8 list" where
  "hammtab84_r =
    [0x01, 0xff, 0xff, 0x08, 0xff, 0x0c, 0x04, 0xff, 0xff, 0x08, 0x08, 0x08, 0x06, 0xff, 0xff, 0x08,
     0xff, 0x0a, 0x02, 0xff, 0x06, 0xff, 0xff, 0x0f, 0x06, 0xff, 0xff, 0x08, 0x06, 0x06, 0x06, 0xff,
     0xff, 0x0a, 0x04, 0xff, 0x04, 0xff, 0x04, 0x04, 0x00, 0xff, 0xff, 0x08, 0xff, 0x0d, 0x04, 0xff,
     0x0a, 0x0a, 0xff, 0x0a, 0xff, 0x0a, 0x04, 0xff, 0xff, 0x0a, 0x03, 0xff, 0x06, 0xff, 0xff, 0x0e,
     0x01, 0x01, 0x01, 0xff, 0x01, 0xff, 0xff, 0x0f, 0x01, 0xff, 0xff, 0x08, 0xff, 0x0d, 0x05, 0xff,
     0x01, 0xff, 0xff, 0x0f, 0xff, 0x0f, 0x0f, 0x0f, 0xff, 0x0b, 0x03, 0xff, 0x06, 0xff, 0xff, 0x0f,
     0x01, 0xff, 0xff, 0x09, 0xff, 0x0d, 0x04, 0xff, 0xff, 0x0d, 0x03, 0xff, 0x0d, 0x0d, 0xff, 0x0d,
     0xff, 0x0a, 0x03, 0xff, 0x07, 0xff, 0xff, 0x0f, 0x03, 0xff, 0x03, 0x03, 0xff, 0x0d, 0x03, 0xff,
     0xff, 0x0c, 0x02, 0xff, 0x0c, 0x0c, 0xff, 0x0c, 0x00, 0xff, 0xff, 0x08, 0xff, 0x0c, 0x05, 0xff,
     0x02, 0xff, 0x02, 0x02, 0xff, 0x0c, 0x02, 0xff, 0xff, 0x0b, 0x02, 0xff, 0x06, 0xff, 0xff, 0x0e,
     0x00, 0xff, 0xff, 0x09, 0xff, 0x0c, 0x04, 0xff, 0x00, 0x00, 0x00, 0xff, 0x00, 0xff, 0xff, 0x0e,
     0xff, 0x0a, 0x02, 0xff, 0x07, 0xff, 0xff, 0x0e, 0x00, 0xff, 0xff, 0x0e, 0xff, 0x0e, 0x0e, 0x0e,
     0x01, 0xff, 0xff, 0x09, 0xff, 0x0c, 0x05, 0xff, 0xff, 0x0b, 0x05, 0xff, 0x05, 0xff, 0x05, 0x05,
     0xff, 0x0b, 0x02, 0xff, 0x07, 0xff, 0xff, 0x0f, 0x0b, 0x0b, 0xff, 0x0b, 0xff, 0x0b, 0x05, 0xff,
     0xff, 0x09, 0x09, 0x09, 0x07, 0xff, 0xff, 0x09, 0x00, 0xff, 0xff, 0x09, 0xff, 0x0d, 0x05, 0xff,
     0x07, 0xff, 0xff, 0x09, 0x07, 0x07, 0x07, 0xff, 0xff, 0x0b, 0x03, 0xff, 0x07, 0xff, 0xff, 0x0e]"

definition hamm84_r :: "u8 \<Rightarrow> u8" where
  "hamm84_r v = hammtab84_r ! unat v"

definition parity8 :: "u8 \<Rightarrow> u8" where
  "parity8 v =
     (let v = drop_bit 4 v XOR v;
          v = drop_bit 2 v XOR v;
          v = drop_bit 1 v XOR v
      in v AND 1)"

text \<open>The loop of \<open>bitrev\<close>, run for the iterations that are left.\<close>

fun bitrev_loop :: "nat \<Rightarrow> u8 \<Rightarrow> u8 \<Rightarrow> u8" where
  "bitrev_loop 0 d rv = rv"
| "bitrev_loop (Suc i) d rv =
     (let rv = push_bit 1 rv;
          rv = (if d AND 1 \<noteq> 0 then rv OR 1 else rv)
      in bitrev_loop i (drop_bit 1 d) rv)"

definition bitrev :: "u8 \<Rightarrow> u8" where
  "bitrev d = bitrev_loop 8 d 0"

definition get_pk_x :: "buffer \<Rightarrow> u8 option" where
  "get_pk_x data = do {
     b2 \<leftarrow> rd data 2;
     let x = hamm84_r b2;
     Some (if x \<noteq> 0xff then x AND 7 else x)
   }"

definition get_pk_y :: "buffer \<Rightarrow> u8 option" where
  "get_pk_y data = do {
     b2 \<leftarrow> rd data 2;
     let err = hamm84_r b2;
     if err = 0xff then Some err
     else do {
       let x = drop_bit 3 err AND 1;
       b3 \<leftarrow> rd data 3;
       let err = hamm84_r b3;
       if err = 0xff then Some err else Some (x OR push_bit 1 err)
     }
   }"

definition get_pk_ext :: "buffer \<Rightarrow> u8 option" where
  "get_pk_ext data = do { b4 \<leftarrow> rd data 4; Some (hamm84_r b4) }"

definition get_magno :: "buffer \<Rightarrow> u8 option" where
  "get_magno data = get_pk_x data"

definition get_pgno :: "buffer \<Rightarrow> u8 option" where
  "get_pgno data = do {
     b4 \<leftarrow> rd data 4;
     let units = hamm84_r b4;
     if units = 0xff then Some units
     else do {
       b5 \<leftarrow> rd data 5;
       let tens = hamm84_r b5;
       if tens = 0xff then Some tens else Some (units OR push_bit 4 tens)
     }
   }"

definition has_c4 :: "buffer \<Rightarrow> u8 option" where
  "has_c4 data = do {
     b7 \<leftarrow> rd data 7;
     let s2 = hamm84_r b7;
     if s2 = 0xff then Some 0 else Some (drop_bit 3 s2 AND 1)
   }"

definition get_subno :: "buffer \<Rightarrow> u16 option" where
  "get_subno data = do {
     b6 \<leftarrow> rd data 6;
     let s1 = hamm84_r b6;
     if s1 = 0xff then Some 0xffff
     else do {
       b7 \<leftarrow> rd data 7;
       let s2 = hamm84_r b7;
       if s2 = 0xff then Some 0xffff
       else do {
         let s2 = s2 AND 7;
         b8 \<leftarrow> rd data 8;
         let s3 = hamm84_r b8;
         if s3 = 0xff then Some 0xffff
         else do {
           b9 \<leftarrow> rd data 9;
           let s4 = hamm84_r b9;
           if s4 = 0xff then Some 0xffff
           else do {
             let s4 = s4 AND 3;
             Some (ucast s1 OR push_bit 4 (ucast s2) OR push_bit 8 (ucast s3) OR push_bit 12 (ucast s4))
           }
         }
       }
     }
   }"

definition is_svc_glob :: "buffer \<Rightarrow> bool option" where
  "is_svc_glob data = do { y \<leftarrow> get_pk_y data; Some (y = 30 \<or> y = 31) }"

definition is_mag_glob :: "buffer \<Rightarrow> bool option" where
  "is_mag_glob data = do { y \<leftarrow> get_pk_y data; Some (y = 29) }"

definition is_pg_hdr :: "buffer \<Rightarrow> bool option" where
  "is_pg_hdr data = do { y \<leftarrow> get_pk_y data; Some (y = 0) }"

subsection \<open>Hamming 24/18 and text parity\<close>

text \<open>The three rows of \<open>hamm24par\<close>, then the value, error and correction tables.\<close>

definition hamm24par_0 :: "u8 list" where
  "hamm24par_0 =
    [0, 33, 34, 3, 35, 2, 1, 32, 36, 5, 6, 39, 7, 38, 37, 4,
     37, 4, 7, 38, 6, 39, 36, 5, 1, 32, 35, 2, 34, 3, 0, 33,
     38, 7, 4, 37, 5, 36, 39, 6, 2, 35, 32, 1, 33, 0, 3, 34,
     3, 34, 33, 0, 32, 1, 2, 35, 39, 6, 5, 36, 4, 37, 38, 7,
     39, 6, 5, 36, 4, 37, 38, 7, 3, 34, 33, 0, 32, 1, 2, 35,
     2, 35, 32, 1, 33, 0, 3, 34, 38, 7, 4, 37, 5, 36, 39, 6,
     1, 32, 35, 2, 34, 3, 0, 33, 37, 4, 7, 38, 6, 39, 36, 5,
     36, 5, 6, 39, 7, 38, 37, 4, 0, 33, 34, 3, 35, 2, 1, 32,
     40, 9, 10, 43, 11, 42, 41, 8, 12, 45, 46, 15, 47, 14, 13, 44,
     13, 44, 47, 14, 46, 15, 12, 45, 41, 8, 11, 42, 10, 43, 40, 9,
     14, 47, 44, 13, 45, 12, 15, 46, 42, 11, 8, 41, 9, 40, 43, 10,
     43, 10, 9, 40, 8, 41, 42, 11, 15, 46, 45, 12, 44, 13, 14, 47,
     15, 46, 45, 12, 44, 13, 14, 47, 43, 10, 9, 40, 8, 41, 42, 11,
     42, 11, 8, 41, 9, 40, 43, 10, 14, 47, 44, 13, 45, 12, 15, 46,
     41, 8, 11, 42, 10, 43, 40, 9, 13, 44, 47, 14, 46, 15, 12, 45,
     12, 45, 46, 15, 47, 14, 13, 44, 40, 9, 10, 43, 11, 42, 41, 8]"

definition hamm24par_1 :: "u8 list" where
  "hamm24par_1 =
    [0, 41, 42, 3, 43, 2, 1, 40, 44, 5, 6, 47, 7, 46, 45, 4,
     45, 4, 7, 46, 6, 47, 44, 5, 1, 40, 43, 2, 42, 3, 0, 41,
     46, 7, 4, 45, 5, 44, 47, 6, 2, 43, 40, 1, 41, 0, 3, 42,
     3, 42, 41, 0, 40, 1, 2, 43, 47, 6, 5, 44, 4, 45, 46, 7,
     47, 6, 5, 44, 4, 45, 46, 7, 3, 42, 41, 0, 40, 1, 2, 43,
     2, 43, 40, 1, 41, 0, 3, 42, 46, 7, 4, 45, 5, 44, 47, 6,
     1, 40, 43, 2, 42, 3, 0, 41, 45, 4, 7, 46, 6, 47, 44, 5,
     44, 5, 6, 47, 7, 46, 45, 4, 0, 41, 42, 3, 43, 2, 1, 40,
     48, 25, 26, 51, 27, 50, 49, 24, 28, 53, 54, 31, 55, 30, 29, 52,
     29, 52, 55, 30, 54, 31, 28, 53, 49, 24, 27, 50, 26, 51, 48, 25,
     30, 55, 52, 29, 53, 28, 31, 54, 50, 27, 24, 49, 25, 48, 51, 26,
     51, 26, 25, 48, 24, 49, 50, 27, 31, 54, 53, 28, 52, 29, 30, 55,
     31, 54, 53, 28, 52, 29, 30, 55, 51, 26, 25, 48, 24, 49, 50, 27,
     50, 27, 24, 49, 25, 48, 51, 26, 30, 55, 52, 29, 53, 28, 31, 54,
     49, 24, 27, 50, 26, 51, 48, 25, 29, 52, 55, 30, 54, 31, 28, 53,
     28, 53, 54, 31, 55, 30, 29, 52, 48, 25, 26, 51, 27, 50, 49, 24]"

definition hamm24par_2 :: "u8 list" where
  "hamm24par_2 =
    [63, 14, 13, 60, 12, 61, 62, 15, 11, 58, 57, 8, 56, 9, 10, 59,
     10, 59, 56, 9, 57, 8, 11, 58, 62, 15, 12, 61, 13, 60, 63, 14,
     9, 56, 59, 10, 58, 11, 8, 57, 61, 12, 15, 62, 14, 63, 60, 13,
     60, 13, 14, 63, 15, 62, 61, 12, 8, 57, 58, 11, 59, 10, 9, 56,
     8, 57, 58, 11, 59, 10, 9, 56, 60, 13, 14, 63, 15, 62, 61, 12,
     61, 12, 15, 62, 14, 63, 60, 13, 9, 56, 59, 10, 58, 11, 8, 57,
     62, 15, 12, 61, 13, 60, 63, 14, 10, 59, 56, 9, 57, 8, 11, 58,
     11, 58, 57, 8, 56, 9, 10, 59, 63, 14, 13, 60, 12, 61, 62, 15,
     31, 46, 45, 28, 44, 29, 30, 47, 43, 26, 25, 40, 24, 41, 42, 27,
     42, 27, 24, 41, 25, 40, 43, 26, 30, 47, 44, 29, 45, 28, 31, 46,
     41, 24, 27, 42, 26, 43, 40, 25, 29, 44, 47, 30, 46, 31, 28, 45,
     28, 45, 46, 31, 47, 30, 29, 44, 40, 25, 26, 43, 27, 42, 41, 24,
     40, 25, 26, 43, 27, 42, 41, 24, 28, 45, 46, 31, 47, 30, 29, 44,
     29, 44, 47, 30, 46, 31, 28, 45, 41, 24, 27, 42, 26, 43, 40, 25,
     30, 47, 44, 29, 45, 28, 31, 46, 42, 27, 24, 41, 25, 40, 43, 26,
     43, 26, 25, 40, 24, 41, 42, 27, 31, 46, 45, 28, 44, 29, 30, 47]"

definition hamm24val :: "u8 list" where
  "hamm24val =
    [0, 0, 0, 0, 1, 1, 1, 1, 0, 0, 0, 0, 1, 1, 1, 1,
     2, 2, 2, 2, 3, 3, 3, 3, 2, 2, 2, 2, 3, 3, 3, 3,
     4, 4, 4, 4, 5, 5, 5, 5, 4, 4, 4, 4, 5, 5, 5, 5,
     6, 6, 6, 6, 7, 7, 7, 7, 6, 6, 6, 6, 7, 7, 7, 7,
     8, 8, 8, 8, 9, 9, 9, 9, 8, 8, 8, 8, 9, 9, 9, 9,
     10, 10, 10, 10, 11, 11, 11, 11, 10, 10, 10, 10, 11, 11, 11, 11,
     12, 12, 12, 12, 13, 13, 13, 13, 12, 12, 12, 12, 13, 13, 13, 13,
     14, 14, 14, 14, 15, 15, 15, 15, 14, 14, 14, 14, 15, 15, 15, 15,
     0, 0, 0, 0, 1, 1, 1, 1, 0, 0, 0, 0, 1, 1, 1, 1,
     2, 2, 2, 2, 3, 3, 3, 3, 2, 2, 2, 2, 3, 3, 3, 3,
     4, 4, 4, 4, 5, 5, 5, 5, 4, 4, 4, 4, 5, 5, 5, 5,
     6, 6, 6, 6, 7, 7, 7, 7, 6, 6, 6, 6, 7, 7, 7, 7,
     8, 8, 8, 8, 9, 9, 9, 9, 8, 8, 8, 8, 9, 9, 9, 9,
     10, 10, 10, 10, 11, 11, 11, 11, 10, 10, 10, 10, 11, 11, 11, 11,
     12, 12, 12, 12, 13, 13, 13, 13, 12, 12, 12, 12, 13, 13, 13, 13,
     14, 14, 14, 14, 15, 15, 15, 15, 14, 14, 14, 14, 15, 15, 15, 15]"

definition hamm24err :: "int list" where
  "hamm24err =
    [0x0000, 0x1000, 0x1000, 0x1000, 0x1000, 0x1000, 0x1000, 0x1000,
     0x1000, 0x1000, 0x1000, 0x1000, 0x1000, 0x1000, 0x1000, 0x1000,
     0x1000, 0x1000, 0x1000, 0x1000, 0x1000, 0x1000, 0x1000, 0x1000,
     0x1000, 0x1000, 0x1000, 0x1000, 0x1000, 0x1000, 0x1000, 0x1000,
     0x0100, 0x0100, 0x0100, 0x0100, 0x0100, 0x0100, 0x0100, 0x0100,
     0x0100, 0x0100, 0x0100, 0x0100, 0x0100, 0x0100, 0x0100, 0x0100,
     0x0100, 0x0100, 0x0100, 0x0100, 0x0100, 0x0100, 0x0100, 0x0100,
     0x1000, 0x1000, 0x1000, 0x1000, 0x1000, 0x1000, 0x1000, 0x1000]"

definition hamm24cor :: "u32 list" where
  "hamm24cor =
    [0x00000, 0x00000, 0x00000, 0x00000, 0x00000, 0x00000, 0x00000, 0x00000,
     0x00000, 0x00000, 0x00000, 0x00000, 0x00000, 0x00000, 0x00000, 0x00000,
     0x00000, 0x00000, 0x00000, 0x00000, 0x00000, 0x00000, 0x00000, 0x00000,
     0x00000, 0x00000, 0x00000, 0x00000, 0x00000, 0x00000, 0x00000, 0x00000,
     0x00000, 0x00000, 0x00000, 0x00001, 0x00000, 0x00002, 0x00004, 0x00008,
     0x00000, 0x00010, 0x00020, 0x00040, 0x00080, 0x00100, 0x00200, 0x00400,
     0x00000, 0x00800, 0x01000, 0x02000, 0x04000, 0x08000, 0x10000, 0x20000,
     0x00000, 0x00000, 0x00000, 0x00000, 0x00000, 0x00000, 0x00000, 0x00000]"

text \<open>\<open>hamm24\<close> reads the three bytes at \<open>p\<close> and adds the error class to \<open>*err\<close>.\<close>

definition hamm24 :: "buffer \<Rightarrow> int \<Rightarrow> (u32 \<times> int) option" where
  "hamm24 p err = do {
     p0 \<leftarrow> rd p 0;
     p1 \<leftarrow> rd p 1;
     p2 \<leftarrow> rd p 2;
     let e = unat (hamm24par_0 ! unat p0 XOR hamm24par_1 ! unat p1 XOR hamm24par_2 ! unat p2);
     let x = ucast (hamm24val ! unat p0) + ucast p1 mod 128 * 16 + ucast p2 mod 128 * 2048;
     Some (x XOR hamm24cor ! e, err + hamm24err ! e)
   }"

text \<open>The loop of \<open>chk_parity\<close>: \<open>done\<close> bytes of \<open>p\<close> have been treated, \<open>n\<close> are left.\<close>

fun chk_parity_loop :: "nat \<Rightarrow> nat \<Rightarrow> buffer \<Rightarrow> int \<Rightarrow> (int \<times> buffer) option" where
  "chk_parity_loop 0 i p err = Some (err, p)"
| "chk_parity_loop (Suc n) i p err = do {
     b \<leftarrow> rd p i;
     if hamm24par_0 ! unat b AND 32 \<noteq> 0
     then chk_parity_loop n (Suc i) (p[i := b AND 0x7f]) err
     else chk_parity_loop n (Suc i) (p[i := 0xff]) (err + 1)
   }"

definition chk_parity :: "buffer \<Rightarrow> nat \<Rightarrow> (int \<times> buffer) option" where
  "chk_parity p n = chk_parity_loop n 0 p 0"

subsection \<open>The code of the standard\<close>

text \<open>The Hamming 8/4 code word of a nibble, by the parity equations of ETS 300 706,
  clause 8.2, most significant bit first as DVB carries teletext.\<close>

definition hamm84_code :: "u8 \<Rightarrow> u8" where
  "hamm84_code n =
     (let d1 = bit n 0; d2 = bit n 1; d3 = bit n 2; d4 = bit n 3;
          p1 = (True \<noteq> (d1 \<noteq> (d3 \<noteq> d4)));
          p2 = (True \<noteq> (d1 \<noteq> (d2 \<noteq> d4)));
          p3 = (True \<noteq> (d1 \<noteq> (d2 \<noteq> d3)));
          p4 = (True \<noteq> (p1 \<noteq> (d1 \<noteq> (p2 \<noteq> (d2 \<noteq> (p3 \<noteq> (d3 \<noteq> d4)))))))
      in horner_sum of_bool 2 [d4, p4, d3, p3, d2, p2, d1, p1])"

definition nibbles :: "u8 list" where
  "nibbles = [0, 1, 2, 3, 4, 5, 6, 7, 8, 9, 10, 11, 12, 13, 14, 15]"

definition hamm84_words :: "u8 list" where
  "hamm84_words =
    [0xa8, 0x40, 0x92, 0x7a, 0x26, 0xce, 0x1c, 0xf4, 0x0b, 0xe3, 0x31, 0xd9, 0x85, 0x6d, 0xbf, 0x57]"

lemma hamm84_words: "map hamm84_code nibbles = hamm84_words"
  by (simp add: hamm84_code_def nibbles_def hamm84_words_def Let_def)

text \<open>Sixteen words, each checked against itself, its 8 neighbours and the 28 words
  at distance two.\<close>

definition bit_pairs :: "(nat \<times> nat) list" where
  "bit_pairs = [(i, j). j \<leftarrow> [0..<8], i \<leftarrow> [0..<j]]"

lemma hamm84_exact: "list_all2 (\<lambda>n c. hamm84_r c = n) nibbles hamm84_words"
  by (simp add: nibbles_def hamm84_words_def hamm84_r_def hammtab84_r_def)

lemma hamm84_single:
  "list_all2 (\<lambda>n c. list_all (\<lambda>i. hamm84_r (flip_bit i c) = n) [0..<8]) nibbles hamm84_words"
  by (simp add: nibbles_def hamm84_words_def hamm84_r_def hammtab84_r_def upt_conv_Cons flip_bit_eq_xor)

lemma hamm84_double:
  "list_all (\<lambda>c. list_all (\<lambda>(i, j). hamm84_r (flip_bit i (flip_bit j c)) = 0xff) bit_pairs) hamm84_words"
  by (simp add: nibbles_def hamm84_words_def hamm84_r_def hammtab84_r_def upt_conv_Cons flip_bit_eq_xor bit_pairs_def)

lemma nibble_nth:
  assumes "n < 16"
  shows "unat n < length nibbles" and "nibbles ! unat n = n" and "hamm84_words ! unat n = hamm84_code n"
proof -
  have n: "unat n < 16" using assms by (simp add: word_less_nat_alt)
  then show "unat n < length nibbles" by (simp add: nibbles_def)
  have "list_all (\<lambda>k. nibbles ! k = word_of_nat k) [0..<16]"
    by (simp add: nibbles_def upt_conv_Cons)
  with n show nth: "nibbles ! unat n = n" by (auto simp: list_all_iff)
  have "map hamm84_code nibbles ! unat n = hamm84_code (nibbles ! unat n)"
    by (rule nth_map) fact
  then show "hamm84_words ! unat n = hamm84_code n" by (simp add: hamm84_words nth)
qed

lemma flip_bit_commute: "flip_bit i (flip_bit j c) = flip_bit j (flip_bit i (c :: 'a::len word))"
  by (simp add: flip_bit_eq_xor ac_simps)

lemma hamm84_code_exact: "n < 16 \<Longrightarrow> hamm84_r (hamm84_code n) = n"
  using list_all2_nthD [OF hamm84_exact nibble_nth(1)] by (simp add: nibble_nth)

lemma hamm84_code_single: "n < 16 \<Longrightarrow> i < 8 \<Longrightarrow> hamm84_r (flip_bit i (hamm84_code n)) = n"
  using list_all2_nthD [OF hamm84_single nibble_nth(1)] by (simp add: nibble_nth list_all_iff)

text \<open>The Hamming 8/4 decoder of the packet header bytes inverts the code of the
  standard, corrects an error in any single bit, and answers 0xff for an error in any
  two bits.\<close>
theorem hamm84_r_corrects:
  assumes "n < 16"
  shows "hamm84_r (hamm84_code n) = n
    \<and> (\<forall>i<8. hamm84_r (flip_bit i (hamm84_code n)) = n)
    \<and> (\<forall>i<8. \<forall>j<8. i \<noteq> j \<longrightarrow> hamm84_r (flip_bit i (flip_bit j (hamm84_code n))) = 0xff)"
proof (intro conjI allI impI)
  have "hamm84_code n \<in> set hamm84_words"
    using nibble_nth [OF assms] list_all2_lengthD [OF hamm84_exact] by (metis nth_mem)
  then have dbl: "hamm84_r (flip_bit i (flip_bit j (hamm84_code n))) = 0xff" if "i < j" "j < 8" for i j
    using hamm84_double that by (fastforce simp: list_all_iff bit_pairs_def)
  show "hamm84_r (flip_bit i (flip_bit j (hamm84_code n))) = 0xff" if "i < 8" "j < 8" "i \<noteq> j" for i j
    using dbl [of i j] dbl [of j i] that by (simp add: flip_bit_commute linorder_neq_iff) blast
qed (use assms hamm84_code_exact hamm84_code_single in blast)+

theorem hamm84_r_corrects_witness:
  "hamm84_r (hamm84_code 11) = 11 \<and> hamm84_r (flip_bit 1 (hamm84_code 11)) = 11
   \<and> hamm84_r (flip_bit 0 (flip_bit 4 (hamm84_code 11))) = 0xff"
  using hamm84_r_corrects [of 11] by simp

subsection \<open>Header fields survive one bit error per byte\<close>

text \<open>\<open>hamm84_near n v\<close>: byte \<open>v\<close> carries nibble \<open>n\<close> with at most one bit in error.\<close>

definition hamm84_near :: "u8 \<Rightarrow> u8 \<Rightarrow> bool" where
  "hamm84_near n v \<longleftrightarrow> n < 16 \<and> (v = hamm84_code n \<or> (\<exists>i<8. v = flip_bit i (hamm84_code n)))"

lemma hamm84_near_decode: "hamm84_near n v \<Longrightarrow> hamm84_r v = n \<and> n \<noteq> 0xff"
  by (auto simp: hamm84_near_def hamm84_code_exact hamm84_code_single)

text \<open>The nibbles of a page header for magazine \<open>m\<close>, packet \<open>y\<close>, page \<open>pg\<close> and subcode
  \<open>sub\<close>, with control bit C4 and the two control bits above the subcode.\<close>

definition carries_header :: "buffer \<Rightarrow> u8 \<Rightarrow> u8 \<Rightarrow> u8 \<Rightarrow> u16 \<Rightarrow> bool \<Rightarrow> u8 \<Rightarrow> bool" where
  "carries_header data m y pg sub c4 ctl \<longleftrightarrow>
     10 \<le> length data
     \<and> hamm84_near (m AND 7 OR push_bit 3 (y AND 1)) (data ! 2)
     \<and> hamm84_near (drop_bit 1 y AND 15) (data ! 3)
     \<and> hamm84_near (pg AND 15) (data ! 4)
     \<and> hamm84_near (drop_bit 4 pg) (data ! 5)
     \<and> hamm84_near (ucast sub AND 15) (data ! 6)
     \<and> hamm84_near (ucast (drop_bit 4 sub) AND 7 OR push_bit 3 (of_bool c4)) (data ! 7)
     \<and> hamm84_near (ucast (drop_bit 8 sub) AND 15) (data ! 8)
     \<and> hamm84_near (ucast (drop_bit 12 sub) AND 3 OR push_bit 2 (ctl AND 3)) (data ! 9)"

lemma magazine_field:
  assumes "m < 8"
  shows "(m AND 7 OR push_bit 3 (y AND 1)) AND 7 = (m :: u8)"
proof -
  have "unat m < 2 ^ 3" using assms by (simp add: word_less_nat_alt)
  note m = small_bits [OF this]
  show ?thesis unfolding and_masks
    by (rule word8_eqI; simp only: field_bits comp_apply; simp add: m)
qed

lemma row_field:
  assumes "y < 32"
  shows "drop_bit 3 (m AND 7 OR push_bit 3 (y AND 1)) AND 1 OR push_bit 1 (drop_bit 1 y AND 15) = (y :: u8)"
proof -
  have "unat y < 2 ^ 5" using assms by (simp add: word_less_nat_alt)
  note y = small_bits [OF this]
  show ?thesis unfolding and_masks
    by (rule word8_eqI; simp only: field_bits comp_apply; simp add: y numeral_eq_Suc)
qed

lemma page_field: "(pg AND 15) OR push_bit 4 (drop_bit 4 pg) = (pg :: u8)"
  unfolding and_masks
    by (rule word8_eqI; simp only: field_bits comp_apply; simp)

lemma subcode_field:
  assumes "sub < 0x4000" and "\<not> bit sub 7"
  shows "ucast (ucast sub AND 15 :: u8)
      OR push_bit 4 (ucast ((ucast (drop_bit 4 sub) AND 7 OR push_bit 3 (of_bool c)) AND 7 :: u8))
      OR push_bit 8 (ucast (ucast (drop_bit 8 sub) AND 15 :: u8))
      OR push_bit 12 (ucast ((ucast (drop_bit 12 sub) AND 3 OR push_bit 2 (ctl AND 3)) AND 3 :: u8)) = (sub :: u16)"
proof -
  have "unat sub < 2 ^ 14" using assms by (simp add: word_less_nat_alt)
  note s = small_bits [OF this]
  show ?thesis unfolding and_masks
    by (rule word16_eqI; simp only: field_bits comp_apply; simp add: s assms(2))
qed

lemma c4_field: "drop_bit 3 (ucast (drop_bit 4 sub) AND 7 OR push_bit 3 (of_bool c)) AND 1 = (of_bool c :: u8)"
  unfolding and_masks
  by (cases c; rule word8_eqI; simp only: field_bits comp_apply; simp)
lemma rd_near:
  assumes "i < length data" and "hamm84_near n (data ! i)"
  shows "rd data i = Some (data ! i)" and "hamm84_r (data ! i) = n" and "hamm84_r (data ! i) \<noteq> 0xff"
  using assms hamm84_near_decode by (auto simp: rd_def)

text \<open>C27: a page header packet whose ten header bytes each carry at most one wrong bit
  is read as the magazine, row, page, subcode and C4 flag that were sent, and is
  classified by its row number.\<close>
theorem header_survives_bit_errors:
  assumes "carries_header data m y pg sub c4 ctl"
    and "m < 8" and "y < 32" and "sub < 0x4000" and "\<not> bit sub 7"
  shows "get_magno data = Some m \<and> get_pk_y data = Some y \<and> get_pgno data = Some pg
    \<and> get_subno data = Some sub \<and> has_c4 data = Some (of_bool c4)
    \<and> is_pg_hdr data = Some (y = 0) \<and> is_mag_glob data = Some (y = 29)
    \<and> is_svc_glob data = Some (y \<in> {30, 31})"
proof -
  have len: "i < 10 \<Longrightarrow> i < length data" for i using assms(1) by (simp add: carries_header_def)
  have near: "hamm84_near (m AND 7 OR push_bit 3 (y AND 1)) (data ! 2)"
    "hamm84_near (drop_bit 1 y AND 15) (data ! 3)"
    "hamm84_near (pg AND 15) (data ! 4)" "hamm84_near (drop_bit 4 pg) (data ! 5)"
    "hamm84_near (ucast sub AND 15) (data ! 6)"
    "hamm84_near (ucast (drop_bit 4 sub) AND 7 OR push_bit 3 (of_bool c4)) (data ! 7)"
    "hamm84_near (ucast (drop_bit 8 sub) AND 15) (data ! 8)"
    "hamm84_near (ucast (drop_bit 12 sub) AND 3 OR push_bit 2 (ctl AND 3)) (data ! 9)"
    using assms(1) by (simp_all only: carries_header_def)
  note dec = near [THEN rd_near(1) [OF len, rotated]] near [THEN rd_near(2) [OF len, rotated]]
    near [THEN rd_near(3) [OF len, rotated]]
  have mag: "get_magno data = Some m"
    using dec magazine_field [OF assms(2)] by (simp add: get_magno_def get_pk_x_def)
  have y: "get_pk_y data = Some y"
    using dec row_field [OF assms(3)] by (simp add: get_pk_y_def Let_def bind.bind_lunit if_False)
  have pg: "get_pgno data = Some pg"
    using dec page_field by (simp add: get_pgno_def Let_def bind.bind_lunit if_False)
  have sub: "get_subno data = Some sub"
    using dec subcode_field [OF assms(4,5)] by (simp add: get_subno_def Let_def bind.bind_lunit if_False)
  have c4: "has_c4 data = Some (of_bool c4)"
    using dec c4_field by (simp add: has_c4_def Let_def bind.bind_lunit if_False)
  show ?thesis
    by (simp add: mag pg sub c4 y is_pg_hdr_def is_mag_glob_def is_svc_glob_def)
qed

theorem header_survives_bit_errors_witness:
  "get_magno [0x55, 0x55, 0x7a, 0xb8, 0x92, 0x26, 0xce, 0xe2, 0x31, 0x31] = Some 3
   \<and> get_pgno [0x55, 0x55, 0x7a, 0xb8, 0x92, 0x26, 0xce, 0xe2, 0x31, 0x31] = Some 0x42
   \<and> get_subno [0x55, 0x55, 0x7a, 0xb8, 0x92, 0x26, 0xce, 0xe2, 0x31, 0x31] = Some 0x2a15"
proof -
  have "carries_header [0x55, 0x55, 0x7a, 0xb8, 0x92, 0x26, 0xce, 0xe2, 0x31, 0x31] 3 0 0x42 0x2a15 True 2"
    by (simp add: carries_header_def hamm84_near_def hamm84_code_def Let_def)
       (auto simp: flip_bit_eq_xor intro: exI [of _ "4::nat"] exI [of _ "0::nat"])
  from header_survives_bit_errors [OF this] show ?thesis by simp
qed

subsection \<open>Affine tables\<close>

text \<open>The rows of \<open>hamm24par\<close> are affine: flipping bit \<open>k\<close> of the index flips the
  result by a fixed column.  \<open>xtab c ds\<close> is the table with value \<open>c\<close> at 0 and the columns
  \<open>ds\<close>, highest index bit first.\<close>

fun xtab :: "u8 \<Rightarrow> u8 list \<Rightarrow> u8 list" where
  "xtab c [] = [c]"
| "xtab c (d # ds) = (let A = xtab c ds in A @ map (\<lambda>x. x XOR d) A)"

lemma xtab_length [simp]: "length (xtab c ds) = 2 ^ length ds"
  by (induction ds) (simp_all add: Let_def)

lemma xtab_nth:
  "i < 2 ^ Suc (length ds) \<Longrightarrow>
     xtab c (d # ds) ! i = (if i < 2 ^ length ds then xtab c ds ! i else xtab c ds ! (i - 2 ^ length ds) XOR d)"
  by (simp add: Let_def nth_append)

text \<open>The columns selected by the bits of an index byte.\<close>

primrec xsum :: "u8 list \<Rightarrow> u8 \<Rightarrow> u8" where
  "xsum [] p = 0"
| "xsum (d # ds) p = (if bit p (length ds) then d else 0) XOR xsum ds p"

lemma xtab_take_bit: "xtab c ds ! take_bit (length ds) (unat p) = c XOR xsum ds p"
proof (induction ds)
  case (Cons d ds)
  define n i where "n = length ds" and "i = take_bit n (unat p)"
  have i: "take_bit (Suc n) (unat p) = i + (if bit p n then 2 ^ n else 0)"
    by (simp add: i_def take_bit_Suc_from_most bit_unsigned_iff)
  have "i < 2 ^ n" by (simp add: i_def)
  then show ?case
    using Cons.IH xtab_nth [of "take_bit (Suc n) (unat p)" ds c d]
    by (simp add: i n_def [symmetric] i_def [symmetric] xor.assoc xor.commute xor.left_commute)
qed simp

lemma xtab_byte: "length ds = 8 \<Longrightarrow> xtab c ds ! unat p = c XOR xsum ds p"
  using xtab_take_bit [of c ds p] take_bit_nat_eq_self [of "unat p" 8] unsigned_less [of p, where 'a = nat] by simp

lemma xsum_flip:
  "k < length ds \<Longrightarrow> length ds \<le> 8 \<Longrightarrow> xsum ds (flip_bit k p) = xsum ds p XOR rev ds ! k"
proof (induction ds)
  case (Cons d ds)
  have upper: "xsum ds' (flip_bit k p) = xsum ds' p" if "length ds' \<le> k" for ds'
    using that by (induction ds') (auto simp: bit_flip_bit_iff dest: bit_imp_le_length)
  show ?case
    using Cons upper [of ds]
    by (cases "k = length ds")
       (auto simp: bit_flip_bit_iff nth_append xor.assoc xor.commute xor.left_commute)
qed simp

definition cols_0 :: "u8 list" where
  "cols_0 = [40, 39, 38, 37, 36, 35, 34, 33]"

definition cols_1 :: "u8 list" where
  "cols_1 = [48, 47, 46, 45, 44, 43, 42, 41]"

definition cols_2 :: "u8 list" where
  "cols_2 = [32, 55, 54, 53, 52, 51, 50, 49]"

definition cols_val :: "u8 list" where
  "cols_val = [0, 8, 4, 2, 0, 1, 0, 0]"

lemmas cols_defs = cols_0_def cols_1_def cols_2_def cols_val_def

lemma cols_length [simp]: "length cols_0 = 8" "length cols_1 = 8" "length cols_2 = 8" "length cols_val = 8"
  by (simp_all add: cols_defs)

lemma hamm24par_affine:
  "hamm24par_0 = xtab 0 cols_0" "hamm24par_1 = xtab 0 cols_1" "hamm24par_2 = xtab 63 cols_2"
  by (simp_all add: hamm24par_0_def hamm24par_1_def hamm24par_2_def cols_defs)

lemma hamm24val_affine: "hamm24val = xtab 0 cols_val"
  by (simp add: hamm24val_def cols_defs)

declare xtab.simps [simp del] xsum.simps [simp del]

lemmas xor_ac = xor.assoc xor.commute xor.left_commute

lemmas hamm24_tables = hamm24par_affine hamm24val_affine xtab_byte

subsection \<open>The Hamming 24/18 code\<close>

text \<open>The parity tests of ETS 300 706, clause 8.3, on the 24 bits of a triplet, bit
  \<open>k\<close> being number \<open>k + 1\<close> of the standard: tests A to E cover the positions up to 23
  that have the corresponding binary digit, test F covers all.  Every test of a code word
  finds odd parity.\<close>

definition trip_bit :: "buffer \<Rightarrow> nat \<Rightarrow> bool" where
  "trip_bit p k = bit (p ! (k div 8)) (k mod 8)"

definition hamm24_covers :: "nat \<Rightarrow> nat \<Rightarrow> bool" where
  "hamm24_covers t k \<longleftrightarrow> t = 5 \<or> k < 23 \<and> odd ((k + 1) div 2 ^ t)"

definition hamm24_test :: "buffer \<Rightarrow> nat \<Rightarrow> bool" where
  "hamm24_test p t \<longleftrightarrow> odd (length (filter (\<lambda>k. trip_bit p k \<and> hamm24_covers t k) [0..<24]))"

definition hamm24_word :: "buffer \<Rightarrow> bool" where
  "hamm24_word p \<longleftrightarrow> length p = 3 \<and> list_all (hamm24_test p) [0..<6]"

text \<open>The 18 data bits and their positions.\<close>

definition hamm24_data :: "buffer \<Rightarrow> u32" where
  "hamm24_data p =
     horner_sum of_bool 2 (map (trip_bit p) [2, 4, 5, 6, 8, 9, 10, 11, 12, 13, 14, 16, 17, 18, 19, 20, 21, 22])"

definition trip_flip :: "nat \<Rightarrow> buffer \<Rightarrow> buffer" where
  "trip_flip k p = p[k div 8 := flip_bit (k mod 8) (p ! (k div 8))]"

definition synd :: "buffer \<Rightarrow> u8" where
  "synd p = hamm24par_0 ! unat (p ! 0) XOR hamm24par_1 ! unat (p ! 1) XOR hamm24par_2 ! unat (p ! 2)"

definition synd_col :: "nat \<Rightarrow> u8" where
  "synd_col k = (if k < 23 then 33 + word_of_nat k else 32)"

definition raw_value :: "buffer \<Rightarrow> u32" where
  "raw_value p = ucast (hamm24val ! unat (p ! 0)) + ucast (p ! 1) mod 128 * 16 + ucast (p ! 2) mod 128 * 2048"

lemma hamm24_synd:
  "length p = 3 \<Longrightarrow>
     hamm24 p err = Some (raw_value p XOR hamm24cor ! unat (synd p), err + hamm24err ! unat (synd p))"
  by (simp add: hamm24_def rd_def raw_value_def synd_def Let_def)

lemma bit_xsum:
  "bit (xsum ds p) t = odd (length (filter (\<lambda>k. bit p k \<and> bit (rev ds ! k) t) [0..<length ds]))"
proof (induction ds)
  case (Cons d ds)
  have "filter (\<lambda>k. bit p k \<and> bit (rev (d # ds) ! k) t) [0..<length ds] =
      filter (\<lambda>k. bit p k \<and> bit (rev ds ! k) t) [0..<length ds]"
    by (rule filter_cong) (simp_all add: nth_append)
  then show ?case using Cons.IH by (simp add: bit_xor_iff nth_append xsum.simps)
qed (simp add: xsum.simps)

lemma synd_xsum:
  "synd p = 63 XOR (xsum cols_0 (p ! 0) XOR (xsum cols_1 (p ! 1) XOR xsum cols_2 (p ! 2)))"
  by (simp add: synd_def hamm24_tables xor_ac)

lemma triple_index:
  fixes k :: nat
  assumes "k < 24"
  obtains j where "k = j" "j < 8" | j where "k = 8 + j" "j < 8" | j where "k = 16 + j" "j < 8"
  using that(1) [of k] that(2) [of "k - 8"] that(3) [of "k - 16"] assms by fastforce

lemma synd_cols:
  "j < 8 \<Longrightarrow> rev cols_0 ! j = synd_col j"
  "j < 8 \<Longrightarrow> rev cols_1 ! j = synd_col (8 + j)"
  "j < 8 \<Longrightarrow> rev cols_2 ! j = synd_col (16 + j)"
proof -
  have "map synd_col [0..<24] = rev cols_0 @ rev cols_1 @ rev cols_2"
    by (simp add: synd_col_def cols_defs upt_conv_Cons)
  then have "synd_col i = (rev cols_0 @ rev cols_1 @ rev cols_2) ! i" if "i < 24" for i
    using that nth_map [of i "[0..<24]" synd_col] by simp
  from this [of j] this [of "8 + j"] this [of "16 + j"] 
  show "j < 8 \<Longrightarrow> rev cols_0 ! j = synd_col j"
    "j < 8 \<Longrightarrow> rev cols_1 ! j = synd_col (8 + j)"
    "j < 8 \<Longrightarrow> rev cols_2 ! j = synd_col (16 + j)"
    by (simp_all add: nth_append)
qed

lemma trip_flip_simps:
  assumes "length p = 3" and "j < 8"
  shows "trip_flip j p = [flip_bit j (p ! 0), p ! 1, p ! 2]"
    and "trip_flip (8 + j) p = [p ! 0, flip_bit j (p ! 1), p ! 2]"
    and "trip_flip (16 + j) p = [p ! 0, p ! 1, flip_bit j (p ! 2)]"
proof -
  obtain a b c where p: "p = [a, b, c]" using assms(1) by (auto simp: numeral_3_eq_3 length_Suc_conv)
  have "(16 + j) div 8 = 2" "(16 + j) mod 8 = j" "(8 + j) div 8 = 1" "(8 + j) mod 8 = j"
    using assms(2) by presburger+
  then show "trip_flip j p = [flip_bit j (p ! 0), p ! 1, p ! 2]"
    and "trip_flip (8 + j) p = [p ! 0, flip_bit j (p ! 1), p ! 2]"
    and "trip_flip (16 + j) p = [p ! 0, p ! 1, flip_bit j (p ! 2)]"
    using assms(2) by (simp_all add: trip_flip_def p)
qed

lemma synd_flip:
  assumes "length p = 3" and "k < 24"
  shows "synd (trip_flip k p) = synd p XOR synd_col k"
  using assms(2)
  by (cases rule: triple_index)
     (simp_all add: synd_xsum trip_flip_simps [OF assms(1)] xsum_flip synd_cols xor_ac)

text \<open>The syndrome collects the failing tests.\<close>

lemma all_less_numeral:
  fixes k :: nat
  shows
  "list_all P [0, 1, 2, 3, 4, 5] \<Longrightarrow> k < 6 \<Longrightarrow> P k"
  "list_all P [0, 1, 2, 3, 4, 5, 6, 7, 8, 9, 10, 11, 12, 13, 14, 15, 16, 17] \<Longrightarrow> k < 18 \<Longrightarrow> P k"
  "list_all P [0, 1, 2, 3, 4, 5, 6, 7, 8, 9, 10, 11, 12, 13, 14, 15, 16, 17, 18, 19, 20, 21, 22, 23] \<Longrightarrow> k < 24 \<Longrightarrow> P k"
proof -
  have u6: "[0, 1, 2, 3, 4, 5] = [0..<6]" by (simp add: upt_conv_Cons)
  have u18: "[0, 1, 2, 3, 4, 5, 6, 7, 8, 9, 10, 11, 12, 13, 14, 15, 16, 17] = [0..<18]" by (simp add: upt_conv_Cons)
  have u24: "[0, 1, 2, 3, 4, 5, 6, 7, 8, 9, 10, 11, 12, 13, 14, 15, 16, 17, 18, 19, 20, 21, 22, 23] = [0..<24]" by (simp add: upt_conv_Cons)
  show "list_all P [0, 1, 2, 3, 4, 5] \<Longrightarrow> k < 6 \<Longrightarrow> P k"
    unfolding u6 by (simp add: list_all_iff)
  show "list_all P [0, 1, 2, 3, 4, 5, 6, 7, 8, 9, 10, 11, 12, 13, 14, 15, 16, 17] \<Longrightarrow> k < 18 \<Longrightarrow> P k"
    unfolding u18 by (simp add: list_all_iff)
  show "list_all P [0, 1, 2, 3, 4, 5, 6, 7, 8, 9, 10, 11, 12, 13, 14, 15, 16, 17, 18, 19, 20, 21, 22, 23] \<Longrightarrow> k < 24 \<Longrightarrow> P k"
    unfolding u24 by (simp add: list_all_iff)
qed

lemma covers_cols:
  assumes "t < 6" and "k < 24"
  shows "hamm24_covers t k = bit (synd_col k) t"
proof -
  have "list_all (\<lambda>k. list_all (\<lambda>t. hamm24_covers t k = bit (synd_col k) t) [0, 1, 2, 3, 4, 5])
      [0, 1, 2, 3, 4, 5, 6, 7, 8, 9, 10, 11, 12, 13, 14, 15, 16, 17, 18, 19, 20, 21, 22, 23]"
    by (simp add: hamm24_covers_def synd_col_def)
  from all_less_numeral(1) [OF all_less_numeral(3) [OF this assms(2)] assms(1)] show ?thesis .
qed

lemma filter_shift: "length (filter P [a..<a + 8]) = length (filter (\<lambda>j. P (a + j)) [0..<8])"
proof -
  have "[a..<a + 8] = map (\<lambda>j. a + j) [0..<8]" by (simp add: map_add_upt add.commute)
  then show ?thesis by (simp add: filter_map comp_def)
qed

lemma trip_byte_test:
  assumes "t < 6" and "q < 3" and "\<And>j. j < 8 \<Longrightarrow> rev ds ! j = synd_col (8 * q + j)" and "length ds = 8"
  shows "odd (length (filter (\<lambda>k. trip_bit p k \<and> hamm24_covers t k) [8 * q..<8 * q + 8])) = bit (xsum ds (p ! q)) t"
proof -
  have "filter (\<lambda>j. trip_bit p (8 * q + j) \<and> hamm24_covers t (8 * q + j)) [0..<8] =
      filter (\<lambda>j. bit (p ! q) j \<and> bit (rev ds ! j) t) [0..<8]"
    by (rule filter_cong) (use assms in \<open>auto simp: trip_bit_def covers_cols\<close>)
  then show ?thesis by (simp only: filter_shift bit_xsum assms(4))
qed

lemma test_synd:
  assumes "t < 6"
  shows "bit (synd p) t \<longleftrightarrow> \<not> hamm24_test p t"
proof -
  have "[0..<24] = [0..<0 + 8] @ [8..<8 + 8] @ [16..<16 + (8::nat)]"
    by (simp add: upt_conv_Cons)
  moreover have "bit (63 :: u8) t" using assms
    by (simp add: less_Suc_eq numeral_eq_Suc) (auto simp flip: numeral_eq_Suc)
  moreover have "odd (length (filter (\<lambda>k. trip_bit p k \<and> hamm24_covers t k) [0..<0 + 8])) = bit (xsum cols_0 (p ! 0)) t"
    "odd (length (filter (\<lambda>k. trip_bit p k \<and> hamm24_covers t k) [8..<8 + 8])) = bit (xsum cols_1 (p ! 1)) t"
    "odd (length (filter (\<lambda>k. trip_bit p k \<and> hamm24_covers t k) [16..<16 + 8])) = bit (xsum cols_2 (p ! 2)) t"
    using trip_byte_test [OF assms, of 0 cols_0 p] trip_byte_test [OF assms, of 1 cols_1 p]
      trip_byte_test [OF assms, of 2 cols_2 p]
    by (simp_all add: synd_cols)
  ultimately show ?thesis
    by (simp only: hamm24_test_def synd_xsum bit_xor_iff filter_append length_append even_add) blast
qed

lemma synd_zero_iff:
  assumes "length p = 3"
  shows "synd p = 0 \<longleftrightarrow> hamm24_word p"
proof -
  have small: "bit (xsum ds q) t \<Longrightarrow> (\<exists>d\<in>set ds. bit d t)" for ds q t
    by (induction ds) (auto simp: xsum.simps bit_xor_iff split: if_splits)
  have "\<not> bit d 6 \<and> \<not> bit d 7" if "d \<in> set cols_0 \<union> set cols_1 \<union> set cols_2" for d
    using that by (auto simp: cols_defs)
  with small have "\<not> bit (synd p) 6" "\<not> bit (synd p) 7"
    by (auto simp: synd_xsum bit_xor_iff)
  then have "synd p = 0 \<longleftrightarrow> (\<forall>t<6. \<not> bit (synd p) t)"
    by (auto intro!: word8_eqI)
  also have "\<dots> \<longleftrightarrow> hamm24_word p"
    using assms by (simp add: test_synd hamm24_word_def list_all_iff Ball_def)
  finally show ?thesis .
qed

text \<open>The data bits.\<close>

lemma xsum_val_bits:
  "ucast (xsum cols_val q) = (horner_sum of_bool 2 [bit q 2, bit q 4, bit q 5, bit q 6] :: u32)"
proof -
  have "xsum cols_val q = (if bit q 6 then 8 else 0) XOR ((if bit q 5 then 4 else 0) XOR
      ((if bit q 4 then 2 else 0) XOR (if bit q 2 then 1 else 0)))"
    by (simp add: cols_defs xsum.simps numeral_eq_Suc)
  then show ?thesis
    by (cases "bit q 2"; cases "bit q 4"; cases "bit q 5"; cases "bit q 6") simp_all
qed

lemma raw_value_data: "raw_value p = hamm24_data p"
proof -
  have low7: "map (\<lambda>k. bit q k) [0, 1, 2, 3, 4, 5, 6] = map (bit (ucast q :: u32)) [0..<7]" for q :: u8
    by (simp add: upt_conv_Cons bit_ucast_iff numeral_eq_Suc)
  have "horner_sum of_bool 2 (map (bit q) [0, 1, 2, 3, 4, 5, 6]) = (ucast q mod 128 :: u32)" for q :: u8
    unfolding low7 horner_sum_bit_eq_take_bit by (simp add: take_bit_eq_mod)
  note low7 = this [unfolded list.map]
  have "map (trip_bit p) [2, 4, 5, 6, 8, 9, 10, 11, 12, 13, 14, 16, 17, 18, 19, 20, 21, 22] =
      map (bit (p ! 0)) [2, 4, 5, 6] @ map (bit (p ! 1)) [0, 1, 2, 3, 4, 5, 6] @ map (bit (p ! 2)) [0, 1, 2, 3, 4, 5, 6]"
    by (simp add: trip_bit_def)
  then have "hamm24_data p = horner_sum of_bool 2 (map (bit (p ! 0)) [2, 4, 5, 6])
      + 16 * (ucast (p ! 1) mod 128 + 128 * (ucast (p ! 2) mod 128))"
    unfolding hamm24_data_def by (simp only: horner_sum_append low7 list.map) simp
  then show ?thesis
    by (simp only: raw_value_def hamm24_tables cols_length xor.left_neutral xsum_val_bits list.map) 
      (simp add: distrib_left)
qed

definition data_col :: "nat \<Rightarrow> u32" where
  "data_col k = [0, 0, 1, 0, 2, 4, 8, 0, 0x10, 0x20, 0x40, 0x80, 0x100, 0x200, 0x400, 0,
     0x800, 0x1000, 0x2000, 0x4000, 0x8000, 0x10000, 0x20000, 0] ! k"

lemma bit_horner_word:
  "bit (horner_sum of_bool 2 bs :: u32) n \<longleftrightarrow> n < 32 \<and> n < length bs \<and> bs ! n"
  by (auto simp: bit_horner_sum_bit_iff bit_word_eqI)

lemma trip_bit_flip:
  "length p = 3 \<Longrightarrow> k < 24 \<Longrightarrow> i < 24 \<Longrightarrow> trip_bit (trip_flip k p) i = (trip_bit p i \<noteq> (i = k))"
  by (auto simp: trip_bit_def trip_flip_def nth_list_update bit_flip_bit_iff) (metis div_mult_mod_eq)+

definition data_positions :: "nat list" where
  "data_positions = [2, 4, 5, 6, 8, 9, 10, 11, 12, 13, 14, 16, 17, 18, 19, 20, 21, 22]"

lemma data_col_bits:
  assumes "k < 24" and "n < 18"
  shows "bit (data_col k) n \<longleftrightarrow> data_positions ! n = k"
proof -
  have "list_all (\<lambda>k. list_all (\<lambda>n. bit (data_col k) n \<longleftrightarrow> data_positions ! n = k)
      [0, 1, 2, 3, 4, 5, 6, 7, 8, 9, 10, 11, 12, 13, 14, 15, 16, 17])
      [0, 1, 2, 3, 4, 5, 6, 7, 8, 9, 10, 11, 12, 13, 14, 15, 16, 17, 18, 19, 20, 21, 22, 23]"
    by (simp add: data_col_def data_positions_def)
  from all_less_numeral(2) [OF all_less_numeral(3) [OF this assms(1)] assms(2)] show ?thesis .
qed

lemma data_col_small: "k < 24 \<Longrightarrow> bit (data_col k) n \<Longrightarrow> n < 18"
proof -
  have "list_all (\<lambda>w. unat (w :: u32) < 2 ^ 18) [0, 0, 1, 0, 2, 4, 8, 0, 0x10, 0x20, 0x40, 0x80, 0x100, 0x200, 0x400, 0,
     0x800, 0x1000, 0x2000, 0x4000, 0x8000, 0x10000, 0x20000, 0]" by simp
  then have "k < 24 \<Longrightarrow> unat (data_col k) < 2 ^ 18"
    by (simp add: list_all_length data_col_def)
  then show "k < 24 \<Longrightarrow> bit (data_col k) n \<Longrightarrow> n < 18"
    using small_bits not_less by blast
qed

lemma data_flip:
  assumes "length p = 3" and "k < 24"
  shows "hamm24_data (trip_flip k p) = hamm24_data p XOR data_col k"
proof (rule bit_word_eqI)
  fix n
  have len: "length data_positions = 18" and less: "n < 18 \<Longrightarrow> data_positions ! n < 24"
    using nth_mem [of n data_positions] by (auto simp: data_positions_def)
  show "bit (hamm24_data (trip_flip k p)) n = bit (hamm24_data p XOR data_col k) n"
    using less data_col_small [OF assms(2), of n]
    by (auto simp: hamm24_data_def data_positions_def [symmetric] bit_horner_word bit_xor_iff len
        trip_bit_flip [OF assms] data_col_bits [OF assms(2)])
qed

lemma hamm24cor_col: "k < 24 \<Longrightarrow> hamm24cor ! unat (synd_col k) = data_col k"
  by (rule all_less_numeral(3)) (simp_all add: synd_col_def hamm24cor_def data_col_def)

lemma hamm24err_col: "k < 24 \<Longrightarrow> hamm24err ! unat (synd_col k) = 0x100"
  by (rule all_less_numeral(3)) (simp_all add: synd_col_def hamm24err_def)

lemma hamm24err_two:
  assumes "j < 24" and "k < 24" and "j \<noteq> k"
  shows "hamm24err ! unat (synd_col j XOR synd_col k) = 0x1000"
proof -
  have "list_all (\<lambda>j. list_all (\<lambda>k. j \<noteq> k \<longrightarrow> hamm24err ! unat (synd_col j XOR synd_col k) = 0x1000)
      [0, 1, 2, 3, 4, 5, 6, 7, 8, 9, 10, 11, 12, 13, 14, 15, 16, 17, 18, 19, 20, 21, 22, 23])
      [0, 1, 2, 3, 4, 5, 6, 7, 8, 9, 10, 11, 12, 13, 14, 15, 16, 17, 18, 19, 20, 21, 22, 23]"
    by (simp add: synd_col_def hamm24err_def)
  from all_less_numeral(3) [OF all_less_numeral(3) [OF this assms(1)] assms(2)] assms(3) show ?thesis by blast
qed

lemma trip_flip_length [simp]: "length (trip_flip k p) = length p"
  by (simp add: trip_flip_def)

text \<open>C28: the Hamming 24/18 decoder delivers the 18 data bits of every code word of the
  standard, also when any one of its 24 bits is wrong (adding the single-error mark to
  \<open>err\<close>), and adds the double-error mark when any two bits are wrong.\<close>
theorem hamm24_corrects:
  assumes "hamm24_word p"
  shows "hamm24 p err = Some (hamm24_data p, err)
    \<and> (\<forall>k<24. hamm24 (trip_flip k p) err = Some (hamm24_data p, err + 0x100))
    \<and> (\<forall>j<24. \<forall>k<24. j \<noteq> k \<longrightarrow> (\<exists>x. hamm24 (trip_flip j (trip_flip k p)) err = Some (x, err + 0x1000)))"
proof (intro conjI allI impI)
  have len: "length p = 3" using assms by (simp add: hamm24_word_def)
  then have s0: "synd p = 0" using assms synd_zero_iff by blast
  show "hamm24 p err = Some (hamm24_data p, err)"
    using hamm24_synd [OF len] by (simp add: s0 raw_value_data hamm24cor_def hamm24err_def)
  show "hamm24 (trip_flip k p) err = Some (hamm24_data p, err + 0x100)" if "k < 24" for k
    using len that
    by (simp add: hamm24_synd synd_flip s0 raw_value_data data_flip hamm24cor_col hamm24err_col xor.assoc)
  show "\<exists>x. hamm24 (trip_flip j (trip_flip k p)) err = Some (x, err + 0x1000)"
    if "j < 24" "k < 24" "j \<noteq> k" for j k
    using len that hamm24err_two [of k j]
    by (simp add: hamm24_synd synd_flip s0)
qed

theorem hamm24_corrects_witness:
  "hamm24 (trip_flip 9 [0x1e, 0x02, 0x90]) 0 = Some (hamm24_data [0x1e, 0x02, 0x90], 0x100)"
proof -
  have "hamm24_word [0x1e, 0x02, 0x90]"
    by (simp add: hamm24_word_def hamm24_test_def trip_bit_def hamm24_covers_def upt_conv_Cons)
  from hamm24_corrects [OF this, of 0] show ?thesis by simp
qed

subsection \<open>Parity of display text\<close>

definition odd_parity :: "u8 \<Rightarrow> bool" where
  "odd_parity b \<longleftrightarrow> odd (length (filter (bit b) [0..<8]))"

lemma parity_bit: "hamm24par_0 ! unat b AND 32 \<noteq> 0 \<longleftrightarrow> odd_parity b"
proof -
  have "(w AND 32 \<noteq> 0) = bit w 5" for w :: u8
    using and_exp_eq_0_iff_not_bit [of w 5] by simp
  moreover have "bit (xsum cols_0 b) 5 = odd (length (filter (bit b) [0..<8]))"
  proof -
    have "filter (\<lambda>k. bit b k \<and> bit (rev cols_0 ! k) 5) [0..<8] = filter (bit b) [0..<8]"
      by (rule filter_cong) (auto simp: synd_cols simp flip: covers_cols simp: hamm24_covers_def)
    then show ?thesis by (simp only: bit_xsum cols_length)
  qed
  ultimately show ?thesis by (simp add: hamm24_tables odd_parity_def)
qed

text \<open>What \<open>chk_parity\<close> makes of one byte.\<close>

definition checked_char :: "u8 \<Rightarrow> u8" where
  "checked_char b = (if odd_parity b then b AND 0x7f else 0xff)"

lemma chk_parity_loop_run:
  "i + n \<le> length p \<Longrightarrow>
     chk_parity_loop n i p err =
       Some (err + int (length (filter (\<lambda>b. \<not> odd_parity b) (take n (drop i p)))),
             take i p @ map checked_char (take n (drop i p)) @ drop (i + n) p)"
proof (induction n arbitrary: i p err)
  case (Suc n)
  then have i: "i < length p" by simp
  then have d: "drop i p = p ! i # drop (Suc i) p" by (simp add: Cons_nth_drop_Suc)
  show ?case
  proof (cases "odd_parity (p ! i)")
    case True
    with Suc.IH [of "Suc i" "p[i := p ! i AND 0x7f]" err] Suc.prems i show ?thesis
      by (simp add: rd_def parity_bit d checked_char_def take_Suc_conv_app_nth)
  next
    case False
    with Suc.IH [of "Suc i" "p[i := 0xff]" "err + 1"] Suc.prems i show ?thesis
      by (simp add: rd_def parity_bit d checked_char_def take_Suc_conv_app_nth)
  qed
qed simp

text \<open>\<open>chk_parity\<close> strips the parity bit of every byte of odd parity, replaces every
  other byte by the bad-character mark, returns how many it replaced and leaves the bytes
  behind the first \<open>n\<close> alone.\<close>
theorem chk_parity_filters:
  assumes "n \<le> length p"
  shows "chk_parity p n =
    Some (int (length (filter (\<lambda>b. \<not> odd_parity b) (take n p))), map checked_char (take n p) @ drop n p)"
  using chk_parity_loop_run [of 0 n p 0] assms by (simp add: chk_parity_def)

theorem chk_parity_filters_witness:
  "chk_parity [0xc1, 0xc2, 0x41, 0x42] 3 = Some (1, [0x41, 0xc2 AND 0x7f, 0xff, 0x42])"
  using chk_parity_filters [of 3 "[0xc1, 0xc2, 0x41, 0x42]"]
  by (simp add: checked_char_def odd_parity_def upt_conv_Cons)

lemma odd_filter_Cons: "odd (length (filter P (x # xs))) = (P x \<noteq> odd (length (filter P xs)))"
  by simp

lemma parity8_odd: "parity8 v = (if odd_parity v then 1 else 0)"
proof -
  have one: "w AND 1 = (if bit w 0 then 1 else 0)" for w :: u8
    by (simp add: and_one_eq odd_iff_mod_2_eq_one even_iff_mod_2_eq_zero bit_0)
  have "[0..<8] = [0, 1, 2, 3, 4, 5, 6, 7 :: nat]" by (simp add: upt_conv_Cons)
  then have par: "odd_parity v = (bit v 0 \<noteq> (bit v 1 \<noteq> (bit v 2 \<noteq> (bit v 3 \<noteq>
      (bit v 4 \<noteq> (bit v 5 \<noteq> (bit v 6 \<noteq> bit v 7)))))))"
    by (simp only: odd_parity_def odd_filter_Cons) simp
  have b4: "bit (drop_bit 4 v XOR v) k = (bit v (4 + k) \<noteq> bit v k)" for k
    by (simp add: bit_xor_iff bit_drop_bit_eq)
  have b2: "bit (drop_bit 2 w XOR w) k = (bit w (2 + k) \<noteq> bit w k)" for k and w :: u8
    by (simp add: bit_xor_iff bit_drop_bit_eq)
  have b1: "bit (drop_bit 1 w XOR w) 0 = (bit w 1 \<noteq> bit w 0)" for w :: u8
    by (simp add: bit_xor_iff bit_drop_bit_eq)
  have "bit (drop_bit 1 (drop_bit 2 (drop_bit 4 v XOR v) XOR (drop_bit 4 v XOR v)) XOR
      (drop_bit 2 (drop_bit 4 v XOR v) XOR (drop_bit 4 v XOR v))) 0 =
      (((bit v 7 \<noteq> bit v 3) \<noteq> (bit v 5 \<noteq> bit v 1)) \<noteq> ((bit v 6 \<noteq> bit v 2) \<noteq> (bit v 4 \<noteq> bit v 0)))"
    unfolding b1 b2 b4 by (simp add: numeral_eq_Suc)
  also have "\<dots> = odd_parity v" unfolding par by argo
  finally show ?thesis by (simp only: parity8_def Let_def one)
qed

lemma bitrev_loop_bits:
  "n \<le> 8 \<Longrightarrow> k < 8 \<Longrightarrow> bit (bitrev_loop n d rv) k = (if k < n then bit d (n - 1 - k) else bit rv (k - n))"
proof (induction n arbitrary: d rv)
  case (Suc n)
  let ?rv = "if d AND 1 \<noteq> 0 then push_bit 1 rv OR 1 else push_bit 1 rv"
  have "bit ?rv j = (if j = 0 then bit d 0 else bit rv (j - 1))" if "j < 8" for j
  proof -
    have "(d AND 1 \<noteq> 0) = bit d 0" using and_exp_eq_0_iff_not_bit [of d 0] by simp
    moreover have "bit (push_bit 1 rv) j = (j \<noteq> 0 \<and> bit rv (j - 1))"
      using that by (auto simp only: bit_push_bit_iff word_size) (simp_all, linarith?)
    moreover have "bit (1 :: u8) j = (j = 0)" by (simp add: bit_1_iff)
    ultimately show ?thesis by (simp only: if_distrib [of "\<lambda>w. bit w j"] bit_or_iff) (simp only: split: if_split, blast)
  qed
  with Suc show ?case
    by (auto simp: Let_def bit_drop_bit_eq not_less less_Suc_eq_le Suc_diff_Suc)
qed simp

text \<open>\<open>bitrev\<close> mirrors the eight bits of its argument and so undoes itself;
  \<open>parity8\<close> is 1 exactly on the bytes with an odd number of set bits.\<close>
theorem bitrev_parity8: "(\<forall>k<8. bit (bitrev d) k = bit d (7 - k)) \<and> bitrev (bitrev d) = d
    \<and> parity8 d = (if odd_parity d then 1 else 0)"
proof -
  have "bit (bitrev d) k = bit d (7 - k)" if "k < 8" for d k
    using that bitrev_loop_bits [of 8 k d 0] by (simp add: bitrev_def)
  then show ?thesis by (auto intro!: bit_word_eqI simp: parity8_odd)
qed

theorem bitrev_parity8_witness: "bitrev (bitrev 0x2d) = 0x2d"
  using bitrev_parity8 by blast

end
