(* ===== verification/Bifi.thy ===== *)
theory Bifi
  imports Prelude "HOL-Library.Monad_Syntax"
begin

text \<open>
  common/bifi.c: large bit fields kept in byte arrays.  A field of \<open>n\<close> bytes holds the
  indices below \<open>8 * n\<close>; every operation faults on an index outside.  The operations
  implement the interface of a finite index set (the locale \<open>index_set\<close>), through
  which the section tables use them.
\<close>

subsection \<open>The code\<close>

fun bifiInit_loop :: "nat \<Rightarrow> nat \<Rightarrow> buffer \<Rightarrow> buffer option" where
  "bifiInit_loop 0 i field = Some field"
| "bifiInit_loop (Suc n) i field =
     (if i < length field then bifiInit_loop n (Suc i) (field[i := 0]) else None)"

definition bifiInit :: "buffer \<Rightarrow> nat \<Rightarrow> buffer option" where
  "bifiInit field size_bytes = bifiInit_loop size_bytes 0 field"

definition bifiAlloc :: "u32 \<Rightarrow> buffer" where
  "bifiAlloc size_in_bits = replicate (unat (drop_bit 3 (size_in_bits + 7))) 0"

definition bifiGet :: "buffer \<Rightarrow> nat \<Rightarrow> u8 option" where
  "bifiGet field bit_idx = do { b \<leftarrow> rd field (bit_idx div 8); Some (b AND push_bit (bit_idx mod 8) 1) }"

definition bifiSet :: "buffer \<Rightarrow> nat \<Rightarrow> buffer option" where
  "bifiSet field bit_idx = do {
     b \<leftarrow> rd field (bit_idx div 8);
     Some (field[bit_idx div 8 := b OR push_bit (bit_idx mod 8) 1])
   }"

definition bifiClr :: "buffer \<Rightarrow> nat \<Rightarrow> buffer option" where
  "bifiClr field bit_idx = do {
     b \<leftarrow> rd field (bit_idx div 8);
     Some (field[bit_idx div 8 := b AND NOT (push_bit (bit_idx mod 8) 1)])
   }"

text \<open>The loop shared by the three byte-wise combinations; \<open>dest\<close> may be \<open>a\<close> or \<open>b\<close> itself,
  since byte \<open>i\<close> of both is read before byte \<open>i\<close> of \<open>dest\<close> is written.\<close>

fun bifi_combine :: "(u8 \<Rightarrow> u8 \<Rightarrow> u8) \<Rightarrow> nat \<Rightarrow> nat \<Rightarrow> buffer \<Rightarrow> buffer \<Rightarrow> buffer \<Rightarrow> buffer option" where
  "bifi_combine f 0 i dest a b = Some dest"
| "bifi_combine f (Suc n) i dest a b = do {
     x \<leftarrow> rd a i;
     y \<leftarrow> rd b i;
     if i < length dest then bifi_combine f n (Suc i) (dest[i := f x y]) a b else None
   }"

definition bifiAnd :: "buffer \<Rightarrow> buffer \<Rightarrow> buffer \<Rightarrow> nat \<Rightarrow> buffer option" where
  "bifiAnd dest a b size_bytes = bifi_combine (AND) size_bytes 0 dest a b"

definition bifiOr :: "buffer \<Rightarrow> buffer \<Rightarrow> buffer \<Rightarrow> nat \<Rightarrow> buffer option" where
  "bifiOr dest a b size_bytes = bifi_combine (OR) size_bytes 0 dest a b"

definition bifiXor :: "buffer \<Rightarrow> buffer \<Rightarrow> buffer \<Rightarrow> nat \<Rightarrow> buffer option" where
  "bifiXor dest a b size_bytes = bifi_combine (XOR) size_bytes 0 dest a b"

fun bifiIsNonzero_loop :: "nat \<Rightarrow> nat \<Rightarrow> buffer \<Rightarrow> u8 \<Rightarrow> u8 option" where
  "bifiIsNonzero_loop 0 i field rv = Some rv"
| "bifiIsNonzero_loop (Suc n) i field rv = do { b \<leftarrow> rd field i; bifiIsNonzero_loop n (Suc i) field (rv OR b) }"

definition bifiIsNonzero :: "buffer \<Rightarrow> nat \<Rightarrow> u8 option" where
  "bifiIsNonzero field size_bytes = bifiIsNonzero_loop size_bytes 0 field 0"

subsection \<open>A bit field is a set of indices\<close>

definition bifi_set :: "buffer \<Rightarrow> nat set" where
  "bifi_set field = {i. i < 8 * length field \<and> bit (field ! (i div 8)) (i mod 8)}"

lemma bifi_byte: "i < 8 * length field \<Longrightarrow> rd field (i div 8) = Some (field ! (i div 8))"
  by (simp add: rd_def less_mult_imp_div_less mult.commute)

lemma and_exp_nonzero: "((w :: u8) AND push_bit n 1 \<noteq> 0) = bit w n"
  using and_exp_eq_0_iff_not_bit [of w n] by simp

lemma bifiGet_set:
  "i < 8 * length field \<Longrightarrow> \<exists>v. bifiGet field i = Some v \<and> (v \<noteq> 0 \<longleftrightarrow> i \<in> bifi_set field)"
  by (simp add: bifiGet_def bifi_byte bifi_set_def and_exp_nonzero del: push_bit_of_1)

lemma byte_bit_eq: "(i :: nat) = j \<longleftrightarrow> i div 8 = j div 8 \<and> i mod 8 = j mod 8"
  by (metis div_mult_mod_eq)

lemma bit_byte_set: "k < 8 \<Longrightarrow> bit ((w :: u8) OR push_bit n 1) k \<longleftrightarrow> bit w k \<or> k = n"
  by (auto simp: bit_or_iff bit_exp_iff)

lemma bit_byte_clr: "k < 8 \<Longrightarrow> bit ((w :: u8) AND NOT (push_bit n 1)) k \<longleftrightarrow> bit w k \<and> k \<noteq> n"
  by (auto simp: bit_and_iff bit_not_iff bit_exp_iff)

lemma bifiSet_set:
  assumes "i < 8 * length field"
  shows "\<exists>f. bifiSet field i = Some f \<and> length f = length field \<and> bifi_set f = insert i (bifi_set field)"
proof -
  let ?f = "field[i div 8 := field ! (i div 8) OR push_bit (i mod 8) 1]"
  have "j \<in> bifi_set ?f \<longleftrightarrow> j \<in> insert i (bifi_set field)" for j
    using assms byte_bit_eq [of j i]
    by (auto simp: bifi_set_def nth_list_update bit_byte_set simp del: push_bit_of_1)
  then show ?thesis using assms by (auto simp: bifiSet_def bifi_byte simp del: push_bit_of_1)
qed

lemma bifiClr_set:
  assumes "i < 8 * length field"
  shows "\<exists>f. bifiClr field i = Some f \<and> length f = length field \<and> bifi_set f = bifi_set field - {i}"
proof -
  let ?f = "field[i div 8 := field ! (i div 8) AND NOT (push_bit (i mod 8) 1)]"
  have "j \<in> bifi_set ?f \<longleftrightarrow> j \<in> bifi_set field - {i}" for j
    using assms byte_bit_eq [of j i]
    by (auto simp: bifi_set_def nth_list_update bit_byte_clr simp del: push_bit_of_1)
  then show ?thesis using assms by (auto simp: bifiClr_def bifi_byte simp del: push_bit_of_1)
qed

lemma bifiInit_loop_run:
  "i + n \<le> length field \<Longrightarrow>
     bifiInit_loop n i field = Some (take i field @ replicate n 0 @ drop (i + n) field)"
proof (induction n arbitrary: i field)
  case (Suc n)
  then show ?case
    using Suc.IH [of "Suc i" "field[i := 0]"] by (simp add: take_Suc_conv_app_nth)
qed simp

lemma bifi_set_replicate [simp]: "bifi_set (replicate n 0) = {}"
  by (auto simp: bifi_set_def less_mult_imp_div_less mult.commute)

lemma bifiInit_set: "bifiInit field (length field) = Some (replicate (length field) 0)"
  using bifiInit_loop_run [of 0 "length field" field] by (simp add: bifiInit_def)

lemma bifiIsNonzero_loop_run:
  "i + n \<le> length field \<Longrightarrow>
     \<exists>v. bifiIsNonzero_loop n i field rv = Some v \<and> (v = 0 \<longleftrightarrow> rv = 0 \<and> (\<forall>k. i \<le> k \<and> k < i + n \<longrightarrow> field ! k = 0))"
proof (induction n arbitrary: i rv)
  case (Suc n)
  then obtain v where v: "bifiIsNonzero_loop n (Suc i) field (rv OR field ! i) = Some v"
    and z: "v = 0 \<longleftrightarrow> (rv OR field ! i) = 0 \<and> (\<forall>k. Suc i \<le> k \<and> k < Suc i + n \<longrightarrow> field ! k = 0)"
    using Suc.IH [of "Suc i" "rv OR field ! i"] by auto
  have "(\<forall>k. i \<le> k \<and> k < i + Suc n \<longrightarrow> field ! k = 0) \<longleftrightarrow>
      field ! i = 0 \<and> (\<forall>k. Suc i \<le> k \<and> k < Suc i + n \<longrightarrow> field ! k = 0)"
    by (auto simp: Suc_le_eq) (metis le_eq_less_or_eq)
  with v z Suc.prems show ?case by (simp add: rd_def or_eq_0_iff)
qed auto

lemma byte_zero_iff: "(w :: u8) = 0 \<longleftrightarrow> (\<forall>k<8. \<not> bit w k)"
  by (auto intro!: bit_word_eqI)

lemma bifiIsNonzero_set:
  "\<exists>v. bifiIsNonzero field (length field) = Some v \<and> (v = 0 \<longleftrightarrow> bifi_set field = {})"
proof -
  have "bifi_set field = {} \<longleftrightarrow> (\<forall>k<length field. field ! k = 0)"
  proof safe
    fix k assume "bifi_set field = {}" "k < length field"
    then have "j < 8 \<Longrightarrow> \<not> bit (field ! k) j" for j
      using div_less [of j 8] by (auto simp: bifi_set_def dest: spec [of _ "8 * k + j"])
    then show "field ! k = 0" by (simp add: byte_zero_iff)
  qed (auto simp: bifi_set_def less_mult_imp_div_less mult.commute)
  then show ?thesis
    using bifiIsNonzero_loop_run [of 0 "length field" field 0] by (simp add: bifiIsNonzero_def)
qed

lemma bifi_combine_run:
  "i + n \<le> length dest \<Longrightarrow> i + n \<le> length a \<Longrightarrow> i + n \<le> length b \<Longrightarrow>
     bifi_combine f n i dest a b =
       Some (take i dest @ map2 f (take n (drop i a)) (take n (drop i b)) @ drop (i + n) dest)"
proof (induction n arbitrary: i dest)
  case (Suc n)
  then have "drop i a = a ! i # drop (Suc i) a" "drop i b = b ! i # drop (Suc i) b"
    by (simp_all add: Cons_nth_drop_Suc)
  with Suc.prems Suc.IH [of "Suc i" "dest[i := f (a ! i) (b ! i)]"] show ?case
    by (simp add: rd_def take_Suc_conv_app_nth)
qed simp

lemma bifi_combine_set:
  assumes "length a = length b" and "length dest = length a"
    and "\<And>x y k. bit (f x y) k \<longleftrightarrow> g (bit x k) (bit y k)"
  shows "\<exists>d. bifi_combine f (length dest) 0 dest a b = Some d \<and> length d = length dest
    \<and> bifi_set d = {i. i < 8 * length dest \<and> g (i \<in> bifi_set a) (i \<in> bifi_set b)}"
  using bifi_combine_run [of 0 "length dest" dest a b f] assms
  by (auto simp: bifi_set_def less_mult_imp_div_less mult.commute)

subsection \<open>The interface\<close>

text \<open>A set of indices below a bound, with partial operations that succeed inside it.\<close>

locale index_set =
  fixes mem :: "'s \<Rightarrow> nat \<Rightarrow> 'v::zero option"
    and ins :: "'s \<Rightarrow> nat \<Rightarrow> 's option"
    and del :: "'s \<Rightarrow> nat \<Rightarrow> 's option"
    and cap :: "'s \<Rightarrow> nat"
    and elems :: "'s \<Rightarrow> nat set"
  assumes mem_law: "i < cap s \<Longrightarrow> \<exists>v. mem s i = Some v \<and> (v \<noteq> 0 \<longleftrightarrow> i \<in> elems s)"
    and ins_law: "i < cap s \<Longrightarrow> \<exists>t. ins s i = Some t \<and> cap t = cap s \<and> elems t = insert i (elems s)"
    and del_law: "i < cap s \<Longrightarrow> \<exists>t. del s i = Some t \<and> cap t = cap s \<and> elems t = elems s - {i}"
    and elems_bound: "elems s \<subseteq> {..<cap s}"
begin

lemma mem_cases:
  assumes "i < cap s"
  obtains v where "mem s i = Some v" "v \<noteq> 0" "i \<in> elems s" | "mem s i = Some 0" "i \<notin> elems s"
  using mem_law [OF assms] by (metis (full_types))

lemma ins_del_elems:
  assumes "i < cap s"
  shows "\<exists>t u. del s i = Some t \<and> ins t i = Some u \<and> cap u = cap s \<and> elems u = insert i (elems s)"
proof -
  from del_law [OF assms] obtain t where t: "del s i = Some t" "cap t = cap s" "elems t = elems s - {i}" by blast
  with ins_law [of i t] assms show ?thesis by auto
qed

text \<open>The first member in an interval, found by probing in ascending order.\<close>

lemma first_member:
  assumes "\<exists>i\<in>elems s. a \<le> i \<and> i < n"
  obtains i where "i \<in> elems s" "a \<le> i" "i < n" "\<And>j. a \<le> j \<Longrightarrow> j < i \<Longrightarrow> j \<notin> elems s"
proof -
  define i where "i = (LEAST i. i \<in> elems s \<and> a \<le> i \<and> i < n)"
  from assms have "i \<in> elems s \<and> a \<le> i \<and> i < n"
    unfolding i_def by (metis (mono_tags, lifting) LeastI)
  moreover from this have "j \<notin> elems s" if "a \<le> j" "j < i" for j
    using not_less_Least [of j "\<lambda>i. i \<in> elems s \<and> a \<le> i \<and> i < n"] that unfolding i_def [symmetric] by auto
  ultimately show thesis using that by blast
qed

end

interpretation bf: index_set bifiGet bifiSet bifiClr "\<lambda>f. 8 * length f" bifi_set
  using bifiGet_set bifiSet_set bifiClr_set by unfold_locales (auto simp: bifi_set_def)

text \<open>C29: on fields of equal size the bit-field operations are the set operations:
  conjunction, disjunction and exclusive or of two fields give intersection, union and
  symmetric difference, and the zero test is the emptiness test.\<close>
theorem bifi_set_algebra:
  assumes "length a = n" and "length b = n" and "length dest = n"
  shows "(\<exists>d. bifiAnd dest a b n = Some d \<and> length d = n \<and> bifi_set d = bifi_set a \<inter> bifi_set b)
    \<and> (\<exists>d. bifiOr dest a b n = Some d \<and> length d = n \<and> bifi_set d = bifi_set a \<union> bifi_set b)
    \<and> (\<exists>d. bifiXor dest a b n = Some d \<and> length d = n
          \<and> bifi_set d = (bifi_set a - bifi_set b) \<union> (bifi_set b - bifi_set a))
    \<and> (\<exists>v. bifiIsNonzero a n = Some v \<and> (v = 0 \<longleftrightarrow> bifi_set a = {}))"
proof -
  note eqs = assms [symmetric] bifiAnd_def bifiOr_def bifiXor_def
  note bound = bf.elems_bound [of a] bf.elems_bound [of b]
  have "bifi_set a \<inter> bifi_set b = {i. i < 8 * n \<and> i \<in> bifi_set a \<and> i \<in> bifi_set b}"
    "bifi_set a \<union> bifi_set b = {i. i < 8 * n \<and> (i \<in> bifi_set a \<or> i \<in> bifi_set b)}"
    "(bifi_set a - bifi_set b) \<union> (bifi_set b - bifi_set a) =
       {i. i < 8 * n \<and> ((i \<in> bifi_set a) \<noteq> (i \<in> bifi_set b))}"
    using bound assms by auto
  then show ?thesis
    using bifi_combine_set [of a b dest "(AND)" "(\<and>)"] bifi_combine_set [of a b dest "(OR)" "(\<or>)"]
      bifi_combine_set [of a b dest "(XOR)" "(\<noteq>)"] bifiIsNonzero_set [of a] assms
    by (simp add: bifiAnd_def bifiOr_def bifiXor_def bit_and_iff bit_or_iff bit_xor_iff)
qed

theorem bifi_set_algebra_witness:
  "\<exists>d. bifiAnd [0, 0] [0x0f, 0x81] [0x3c, 0x80] 2 = Some d
     \<and> bifi_set d = bifi_set [0x0f, 0x81] \<inter> bifi_set [0x3c, 0x80]"
  using bifi_set_algebra [of "[0x0f, 0x81]" 2 "[0x3c, 0x80]" "[0, 0]"] by auto

end
