(* ===== verification/Table.thy ===== *)
theory Table
  imports Bifi "HOL-Library.Multiset"
begin

text \<open>
  stream/table.c: tables of sections (PAT, PMT, NIT, SDT).  A table records in a bit
  field which of its section slots are in use.  What a section owns on the heap (its
  program, stream or service arrays) is one block, the \<open>payload\<close>; the operations report
  the blocks they free, so that a leak or a double free shows as an unbalanced account.
  A slot that \<open>realloc\<close> has added holds indeterminate bytes and reading it is a fault.
\<close>

subsection \<open>Data\<close>

record 'b psection =
  sc_version :: u8
  sc_current :: u8
  sc_section :: u8
  sc_last_section :: u8
  program_number :: u16
  payload :: "'b option"

datatype kind = KPas | KPms | KNis | KSds

text \<open>The structure that a table id selects, the switch in every operation.\<close>

definition sec_kind :: "u8 \<Rightarrow> kind option" where
  "sec_kind type =
     (if type = 0x00 then Some KPas
      else if type = 0x02 then Some KPms
      else if type = 0x40 \<or> type = 0x41 then Some KNis
      else if type = 0x42 \<or> type = 0x46 then Some KSds
      else None)"

record 'b table =
  table_id :: u8
  tbl_version :: int
  tbl_pnr :: u16
  active :: u8
  occupied :: buffer
  num_sections :: nat
  sections :: "'b psection option list"

definition zero_section :: "'b psection" where
  "zero_section = \<lparr>sc_version = 0, sc_current = 0, sc_section = 0, sc_last_section = 0,
     program_number = 0, payload = None\<rparr>"

text \<open>\<open>ok\<close> says whether the allocation of the section array succeeds.\<close>

definition calloc_sections :: "bool \<Rightarrow> nat \<Rightarrow> 'b psection option list" where
  "calloc_sections ok n = (if ok then replicate n (Some zero_section) else [])"

subsection \<open>Creation\<close>

definition new_plain :: "u8 \<Rightarrow> bool \<Rightarrow> nat \<Rightarrow> 'b table" where
  "new_plain tid ok n = \<lparr>table_id = tid, tbl_version = -1, tbl_pnr = 0, active = 0,
     occupied = replicate 32 0, num_sections = n, sections = calloc_sections ok n\<rparr>"

definition new_pat :: "bool \<Rightarrow> nat \<Rightarrow> 'b table" where
  "new_pat ok n = new_plain 0 ok n"

definition init_pmt :: "bool \<Rightarrow> 'b table \<Rightarrow> nat \<Rightarrow> (int \<times> 'b table) option" where
  "init_pmt ok rv n =
     (let secs = calloc_sections ok n in
      if secs = [] then Some (1, rv\<lparr>sections := secs\<rparr>)
      else do {
        occ \<leftarrow> bifiInit (occupied rv) 32;
        Some (0, rv\<lparr>sections := secs, occupied := occ, num_sections := n, tbl_version := -1, table_id := 2\<rparr>)
      })"

definition zero_table :: "'b table" where
  "zero_table = \<lparr>table_id = 0, tbl_version = 0, tbl_pnr = 0, active = 0,
     occupied = replicate 32 0, num_sections = 0, sections = []\<rparr>"

definition new_pmt :: "bool \<Rightarrow> nat \<Rightarrow> 'b table option option" where
  "new_pmt ok n = do {
     (r, t) \<leftarrow> init_pmt ok zero_table n;
     Some (if r \<noteq> 0 then None else Some t)
   }"

definition new_nit :: "bool \<Rightarrow> nat \<Rightarrow> 'b table" where
  "new_nit ok n = new_plain 0x40 ok n"

definition new_sdt :: "bool \<Rightarrow> nat \<Rightarrow> 'b table" where
  "new_sdt ok n = new_plain 0x42 ok n"

text \<open>The outer option is a fault, the inner one a returned null pointer.\<close>

definition new_tbl :: "bool \<Rightarrow> nat \<Rightarrow> u8 \<Rightarrow> 'b table option option" where
  "new_tbl ok num_sec type =
     (case sec_kind type of
        Some KPas \<Rightarrow> Some (Some (new_pat ok num_sec))
      | Some KPms \<Rightarrow> new_pmt ok num_sec
      | Some KNis \<Rightarrow> Some (Some (new_nit ok num_sec))
      | Some KSds \<Rightarrow> Some (Some (new_sdt ok num_sec))
      | None \<Rightarrow> Some None)"

text \<open>\<open>realloc\<close> keeps the slots that fit and adds indeterminate ones.\<close>

definition resize_tbl :: "bool \<Rightarrow> 'b table \<Rightarrow> nat \<Rightarrow> u8 \<Rightarrow> int \<times> 'b table" where
  "resize_tbl ok pat num_sec type =
     (if num_sec = 0 then (1, pat)
      else if sec_kind type = None then (1, pat)
      else if \<not> ok then (1, pat)
      else (0, pat\<lparr>sections := take num_sec (sections pat) @ replicate (num_sec - length (sections pat)) None,
                   num_sections := num_sec\<rparr>))"

subsection \<open>Entering and clearing sections\<close>

text \<open>The array holds structures of the table's kind; indexing it as another kind would
  miss the element boundaries and is a fault.\<close>

definition same_kind :: "'b table \<Rightarrow> u8 \<Rightarrow> bool" where
  "same_kind t type \<longleftrightarrow> sec_kind type = sec_kind (table_id t)"

definition enter_sec :: "'b table \<Rightarrow> u16 \<Rightarrow> 'b psection \<Rightarrow> u8 \<Rightarrow> (int \<times> 'b table) option" where
  "enter_sec t sec_idx sec type =
     (if sec_kind type = None then Some (1, t)
      else if same_kind t type \<and> unat sec_idx < length (sections t)
      then do {
        occ \<leftarrow> bifiSet (occupied t) (unat (sc_section sec));
        Some (0, t\<lparr>sections := (sections t)[unat sec_idx := Some sec], occupied := occ\<rparr>)
      }
      else None)"

definition blocks :: "'b psection \<Rightarrow> 'b list" where
  "blocks s = (case payload s of None \<Rightarrow> [] | Some b \<Rightarrow> [b])"

text \<open>\<open>clear_pas\<close>, \<open>clear_pms\<close>, \<open>clear_nis\<close> and \<open>clear_sds\<close> free what the section owns and
  forget it.\<close>

definition clear_section :: "'b psection \<Rightarrow> 'b psection" where
  "clear_section s = s\<lparr>payload := None\<rparr>"

definition get_secptr :: "'b table \<Rightarrow> u8 \<Rightarrow> u8 \<Rightarrow> 'b psection option" where
  "get_secptr t sec_idx type =
     (if sec_kind type \<noteq> None \<and> same_kind t type
      then do { slot \<leftarrow> rd (sections t) (unat sec_idx); slot }
      else None)"

definition clear_tbl_sec :: "'b table \<Rightarrow> u8 \<Rightarrow> u8 \<Rightarrow> (int \<times> 'b table \<times> 'b list) option" where
  "clear_tbl_sec t sec_idx type =
     (if sec_kind type = None then Some (1, t, [])
      else do {
        s \<leftarrow> get_secptr t sec_idx type;
        occ \<leftarrow> bifiClr (occupied t) (unat sec_idx);
        Some (0, t\<lparr>sections := (sections t)[unat sec_idx := Some (clear_section s)], occupied := occ\<rparr>, blocks s)
      })"

fun clear_tbl_loop :: "nat \<Rightarrow> nat \<Rightarrow> 'b table \<Rightarrow> 'b list \<Rightarrow> ('b table \<times> 'b list) option" where
  "clear_tbl_loop 0 i t freed = Some (t, freed)"
| "clear_tbl_loop (Suc n) i t freed = do {
     v \<leftarrow> bifiGet (occupied t) i;
     if v \<noteq> 0
     then do {
       (r, t', fr) \<leftarrow> clear_tbl_sec t (word_of_nat i) (table_id t);
       clear_tbl_loop n (Suc i) t' (freed @ fr)
     }
     else clear_tbl_loop n (Suc i) t freed
   }"

definition clear_tbl :: "'b table option \<Rightarrow> (int \<times> 'b table option \<times> 'b list) option" where
  "clear_tbl tp =
     (case tp of
        None \<Rightarrow> Some (0, None, [])
      | Some t \<Rightarrow> do {
          (t', freed) \<leftarrow> clear_tbl_loop (num_sections t) 0 t [];
          Some (0, Some (t'\<lparr>sections := []\<rparr>), freed)
        })"

text \<open>\<open>check_enter_sec\<close> returns its result code, the table, the blocks freed and the calls
  made to \<open>action\<close> (old section or none, new section).\<close>

definition store_pas :: "'b table \<Rightarrow> 'b psection \<Rightarrow> u8 \<Rightarrow> 'b table option" where
  "store_pas t pas type = do {
     (r, t1) \<leftarrow> enter_sec t (ucast (sc_section pas)) pas type;
     let t2 = (if type = 0x02 then t1\<lparr>tbl_pnr := program_number pas\<rparr> else t1);
     Some (t2\<lparr>tbl_version := uint (sc_version pas)\<rparr>)
   }"

definition check_enter_sec ::
  "'b table \<Rightarrow> 'b psection \<Rightarrow> u8 \<Rightarrow> (int \<times> 'b table \<times> 'b list \<times> ('b psection option \<times> 'b psection) list) option" where
  "check_enter_sec t pas type = do {
     v \<leftarrow> bifiGet (occupied t) (unat (sc_section pas));
     if v \<noteq> 0
     then do {
       old \<leftarrow> get_secptr t (sc_section pas) type;
       if sc_version old \<noteq> sc_version pas
       then do {
         (r, t1, freed) \<leftarrow> clear_tbl_sec t (sc_section pas) type;
         t2 \<leftarrow> store_pas t1 pas type;
         Some (0, t2, freed, [(Some old, pas)])
       }
       else if sec_kind type = None then Some (1, t, [], [])
       else Some (0, t, blocks pas, [])
     }
     else do {
       nz \<leftarrow> bifiIsNonzero (occupied t) 32;
       if type = 0x02 \<and> nz \<noteq> 0 \<and> tbl_pnr t \<noteq> program_number pas
       then Some (1, t, [], [])
       else do {
         t1 \<leftarrow> store_pas t pas type;
         Some (0, t1, [], [(None, pas)])
       }
     }
   }"

subsection \<open>Traversal\<close>

text \<open>The four \<open>for_each\<close> functions run the same loop on the array of their kind.\<close>

fun for_each_loop :: "nat \<Rightarrow> nat \<Rightarrow> 'b table \<Rightarrow> ('x \<Rightarrow> 'b psection \<Rightarrow> 'x) \<Rightarrow> 'x \<Rightarrow> 'x option" where
  "for_each_loop 0 i t func x = Some x"
| "for_each_loop (Suc n) i t func x = do {
     v \<leftarrow> bifiGet (occupied t) i;
     if v \<noteq> 0
     then do { slot \<leftarrow> rd (sections t) i; s \<leftarrow> slot; for_each_loop n (Suc i) t func (func x s) }
     else for_each_loop n (Suc i) t func x
   }"

definition for_each_pas :: "'b table \<Rightarrow> 'x \<Rightarrow> ('x \<Rightarrow> 'b psection \<Rightarrow> 'x) \<Rightarrow> 'x option" where
  "for_each_pas t x func = (if sec_kind (table_id t) = Some KPas then for_each_loop (num_sections t) 0 t func x else None)"

definition for_each_pms :: "'b table \<Rightarrow> 'x \<Rightarrow> ('x \<Rightarrow> 'b psection \<Rightarrow> 'x) \<Rightarrow> 'x option" where
  "for_each_pms t x func = (if sec_kind (table_id t) = Some KPms then for_each_loop (num_sections t) 0 t func x else None)"

definition for_each_nis :: "'b table \<Rightarrow> 'x \<Rightarrow> ('x \<Rightarrow> 'b psection \<Rightarrow> 'x) \<Rightarrow> 'x option" where
  "for_each_nis t x func = (if sec_kind (table_id t) = Some KNis then for_each_loop (num_sections t) 0 t func x else None)"

definition for_each_sds :: "'b table \<Rightarrow> 'x \<Rightarrow> ('x \<Rightarrow> 'b psection \<Rightarrow> 'x) \<Rightarrow> 'x option" where
  "for_each_sds t x func = (if sec_kind (table_id t) = Some KSds then for_each_loop (num_sections t) 0 t func x else None)"

fun tbl_is_complete_loop :: "nat \<Rightarrow> nat \<Rightarrow> 'b table \<Rightarrow> int option" where
  "tbl_is_complete_loop 0 i t = Some 1"
| "tbl_is_complete_loop (Suc n) i t = do {
     v \<leftarrow> bifiGet (occupied t) i;
     if v = 0 then Some 0 else tbl_is_complete_loop n (Suc i) t
   }"

definition tbl_is_complete :: "'b table \<Rightarrow> int option" where
  "tbl_is_complete t = tbl_is_complete_loop (num_sections t) 0 t"

text \<open>The iterator keeps the index of the current section.  Upward and downward scans for an
  occupied slot; the result is the slot found, if any.\<close>

fun scan_up :: "nat \<Rightarrow> nat \<Rightarrow> buffer \<Rightarrow> nat option option" where
  "scan_up 0 ctr occ = Some None"
| "scan_up (Suc n) ctr occ = do {
     v \<leftarrow> bifiGet occ ctr;
     if v \<noteq> 0 then Some (Some ctr) else scan_up n (Suc ctr) occ
   }"

fun scan_down :: "nat \<Rightarrow> buffer \<Rightarrow> nat option option" where
  "scan_down 0 occ = Some None"
| "scan_down (Suc ctr) occ = do {
     v \<leftarrow> bifiGet occ ctr;
     if v \<noteq> 0 then Some (Some ctr) else scan_down ctr occ
   }"

definition iterTblInit :: "'b table option \<Rightarrow> bool \<Rightarrow> nat option option" where
  "iterTblInit tp ok =
     (case tp of
        None \<Rightarrow> Some None
      | Some t \<Rightarrow>
          if num_sections t = 0 then Some None
          else do {
            nz \<leftarrow> bifiIsNonzero (occupied t) 32;
            if nz = 0 \<or> \<not> ok then Some None
            else scan_up (num_sections t) 0 (occupied t)
          })"

definition iterTblFirst :: "'b table \<Rightarrow> nat \<Rightarrow> nat option" where
  "iterTblFirst t idx = do {
     r \<leftarrow> scan_up (num_sections t) 0 (occupied t);
     Some (case r of Some ctr \<Rightarrow> ctr | None \<Rightarrow> idx)
   }"

text \<open>With no sections at all the counter of \<open>iterTblLast\<close> wraps below zero and the bit
  field is read out of range.\<close>

definition iterTblLast :: "'b table \<Rightarrow> nat \<Rightarrow> nat option" where
  "iterTblLast t idx =
     (if num_sections t = 0 then None
      else do {
        r \<leftarrow> scan_down (num_sections t) (occupied t);
        Some (case r of Some ctr \<Rightarrow> ctr | None \<Rightarrow> idx)
      })"

definition iterTblAdvance :: "'b table \<Rightarrow> nat \<Rightarrow> (int \<times> nat) option" where
  "iterTblAdvance t idx = do {
     r \<leftarrow> scan_up (num_sections t - (idx + 1)) (idx + 1) (occupied t);
     Some (case r of Some ctr \<Rightarrow> (0, ctr) | None \<Rightarrow> (1, idx))
   }"

definition iterTblRewind :: "'b table \<Rightarrow> nat \<Rightarrow> (int \<times> nat) option" where
  "iterTblRewind t idx =
     (if idx = 0 then Some (1, idx)
      else do {
        r \<leftarrow> scan_down idx (occupied t);
        Some (case r of Some ctr \<Rightarrow> (0, ctr) | None \<Rightarrow> (1, idx))
      })"

definition iterTblGet :: "'b table \<Rightarrow> nat \<Rightarrow> 'b psection option" where
  "iterTblGet t idx = get_secptr t (word_of_nat idx) (table_id t)"

subsection \<open>Well-formed tables\<close>

abbreviation occ :: "'b table \<Rightarrow> nat set" where
  "occ t \<equiv> bifi_set (occupied t)"

text \<open>Every occupied slot lies in the array, has been written and holds the section of its
  number.\<close>

definition table_inv :: "'b table \<Rightarrow> bool" where
  "table_inv t \<longleftrightarrow> length (occupied t) = 32 \<and> num_sections t = length (sections t)
     \<and> length (sections t) \<le> 256 \<and> sec_kind (table_id t) \<noteq> None
     \<and> (\<forall>i \<in> occ t. i < length (sections t) \<and> (\<exists>s. sections t ! i = Some s \<and> sc_section s = word_of_nat i))"

text \<open>The blocks owned by the sections of a table.\<close>

definition slot_blocks :: "'b table \<Rightarrow> nat \<Rightarrow> 'b multiset" where
  "slot_blocks t i = (case sections t ! i of None \<Rightarrow> {#} | Some s \<Rightarrow> mset (blocks s))"

definition owned :: "'b table \<Rightarrow> 'b multiset" where
  "owned t = (\<Sum>i\<in>occ t. slot_blocks t i)"

lemma finite_bifi [simp]: "finite (bifi_set f)"
  using bf.elems_bound [of f] finite_subset by blast

lemma occ_less: "table_inv t \<Longrightarrow> i \<in> occ t \<Longrightarrow> i < length (sections t) \<and> i < 256"
  by (auto simp: table_inv_def)

lemma occ_probe:
  assumes "table_inv t" and "i < 256"
  obtains v where "bifiGet (occupied t) i = Some v" "v \<noteq> 0" "i \<in> occ t"
  | "bifiGet (occupied t) i = Some 0" "i \<notin> occ t"
proof -
  have "i < 8 * length (occupied t)" using assms by (simp add: table_inv_def)
  from bf.mem_cases [OF this] that show thesis by blast
qed

lemma index_u8: "i < 256 \<Longrightarrow> unat (word_of_nat i :: u8) = i"
  by (simp add: unat_of_nat)

lemma index_u16: "unat (ucast (n :: u8) :: u16) = unat n"
  by (simp add: unsigned_ucast_eq take_bit_nat_eq_self_iff less_le_trans [OF unsigned_less])

lemma sec_index [simp]: "unat (n :: u8) < 256"
  using unsigned_less [of n, where 'a = nat] by simp

lemma enter_sec_run:
  assumes "length (occupied t) = 32" and "same_kind t type" and "sec_kind type \<noteq> None"
    and "unat (sc_section s) < length (sections t)"
  shows "\<exists>oc. enter_sec t (ucast (sc_section s)) s type
      = Some (0, t\<lparr>sections := (sections t)[unat (sc_section s) := Some s], occupied := oc\<rparr>)
    \<and> length oc = 32 \<and> bifi_set oc = insert (unat (sc_section s)) (occ t)"
  using bf.ins_law [of "unat (sc_section s)" "occupied t"] assms
  by (auto simp: enter_sec_def index_u16)

lemma store_pas_run:
  assumes "length (occupied t) = 32" and "same_kind t type" and "sec_kind type \<noteq> None"
    and "unat (sc_section s) < length (sections t)"
  shows "\<exists>oc pn. store_pas t s type
      = Some (t\<lparr>sections := (sections t)[unat (sc_section s) := Some s], occupied := oc,
                tbl_pnr := pn, tbl_version := uint (sc_version s)\<rparr>)
    \<and> length oc = 32 \<and> bifi_set oc = insert (unat (sc_section s)) (occ t)
    \<and> pn = (if type = 2 then program_number s else tbl_pnr t)"
  using enter_sec_run [OF assms] by (auto simp: store_pas_def)

lemma clear_tbl_sec_run:
  assumes "length (occupied t) = 32" and "same_kind t type" and "sec_kind type \<noteq> None"
    and "unat k < length (sections t)" and "sections t ! unat k = Some s"
  shows "\<exists>oc. clear_tbl_sec t k type
      = Some (0, t\<lparr>sections := (sections t)[unat k := Some (clear_section s)], occupied := oc\<rparr>, blocks s)
    \<and> length oc = 32 \<and> bifi_set oc = occ t - {unat k}"
  using bf.del_law [of "unat k" "occupied t"] assms
  by (auto simp: clear_tbl_sec_def get_secptr_def rd_def)

lemma owned_update:
  assumes "bifi_set (occupied t') = insert k (occ t - {k})"
    and "sections t' = (sections t)[k := Some s]" and "k < length (sections t)"
  shows "owned t' = mset (blocks s) + (\<Sum>i\<in>occ t - {k}. slot_blocks t i)"
proof -
  have "(\<Sum>i\<in>occ t - {k}. slot_blocks t' i) = (\<Sum>i\<in>occ t - {k}. slot_blocks t i)"
    by (rule sum.cong) (auto simp: slot_blocks_def assms(2) nth_list_update)
  moreover have "owned t' = slot_blocks t' k + (\<Sum>i\<in>occ t - {k}. slot_blocks t' i)"
    unfolding owned_def assms(1) by (rule sum.insert) simp_all
  moreover have "slot_blocks t' k = mset (blocks s)"
    using assms(2,3) by (simp add: slot_blocks_def)
  ultimately show ?thesis by simp
qed

lemma owned_split: "k \<in> occ t \<Longrightarrow> owned t = slot_blocks t k + (\<Sum>i\<in>occ t - {k}. slot_blocks t i)"
  by (simp add: owned_def sum.remove)

lemma table_inv_store:
  assumes "table_inv t" and "unat (sc_section s) < length (sections t)"
    and "bifi_set oc = insert (unat (sc_section s)) (occ t)" and "length oc = 32"
  shows "table_inv (t\<lparr>sections := (sections t)[unat (sc_section s) := Some s], occupied := oc,
      tbl_pnr := pn, tbl_version := v\<rparr>)"
  using assms by (auto simp: table_inv_def nth_list_update)

text \<open>C2: entering a section of the table's kind whose number lies inside the table keeps the
  table well formed and accounts for every block: what the table owned and what the section
  brought is either owned by the table or freed.  The only refusal is a programme map section
  of another programme, which changes nothing and leaves the section with the caller.
  Otherwise the slot afterwards holds the version entered.\<close>
theorem check_enter_sec_balanced:
  assumes "table_inv t" and "same_kind t type" and "unat (sc_section pas) < num_sections t"
  shows "\<exists>rc t' freed acts. check_enter_sec t pas type = Some (rc, t', freed, acts) \<and> table_inv t'
    \<and> (rc = 0 \<longrightarrow> owned t' + mset freed = owned t + mset (blocks pas)
         \<and> occ t' = insert (unat (sc_section pas)) (occ t)
         \<and> map_option sc_version (sections t' ! unat (sc_section pas)) = Some (sc_version pas))
    \<and> (rc \<noteq> 0 \<longrightarrow> type = 2 \<and> occ t \<noteq> {} \<and> tbl_pnr t \<noteq> program_number pas \<and> t' = t \<and> freed = [] \<and> acts = [])"
proof -
  let ?k = "unat (sc_section pas)"
  have len: "length (occupied t) = 32" and k: "?k < length (sections t)" and kind: "sec_kind type \<noteq> None"
    using assms by (auto simp: table_inv_def same_kind_def)
  show ?thesis
    using assms(1) sec_index
  proof (cases rule: occ_probe [of t ?k])
    case (1 v)
    then obtain old where old: "sections t ! ?k = Some old" "sc_section old = sc_section pas"
      using assms(1) by (auto simp: table_inv_def)
    have ptr: "get_secptr t (sc_section pas) type = Some old"
      using old k assms(2) kind by (simp add: get_secptr_def rd_def)
    show ?thesis
    proof (cases "sc_version old = sc_version pas")
      case True
      then show ?thesis
        using 1 ptr kind assms(1) old by (auto simp: check_enter_sec_def)
    next
      case False
      obtain oc where oc: "clear_tbl_sec t (sc_section pas) type =
          Some (0, t\<lparr>sections := (sections t)[?k := Some (clear_section old)], occupied := oc\<rparr>, blocks old)"
        "length oc = 32" "bifi_set oc = occ t - {?k}"
        using clear_tbl_sec_run [OF len assms(2) kind k old(1)] by blast
      let ?t1 = "t\<lparr>sections := (sections t)[?k := Some (clear_section old)], occupied := oc\<rparr>"
      obtain oc2 pn where st: "store_pas ?t1 pas type =
          Some (?t1\<lparr>sections := (sections ?t1)[?k := Some pas], occupied := oc2, tbl_pnr := pn,
                    tbl_version := uint (sc_version pas)\<rparr>)"
        "length oc2 = 32" "bifi_set oc2 = insert ?k (occ ?t1)"
        using store_pas_run [of ?t1 type pas] oc assms(2) kind k by (auto simp: same_kind_def)
      let ?t2 = "t\<lparr>sections := (sections t)[?k := Some pas], occupied := oc2, tbl_pnr := pn,
          tbl_version := uint (sc_version pas)\<rparr>"
      have res: "check_enter_sec t pas type = Some (0, ?t2, blocks old, [(Some old, pas)])"
        using 1 ptr False oc(1) st(1) by (simp add: check_enter_sec_def)
      have occ2: "bifi_set oc2 = insert ?k (occ t)" using st(3) oc(3) 1 by auto
      have "table_inv ?t2" using table_inv_store [OF assms(1) k occ2 st(2)] .
      moreover have "owned ?t2 + mset (blocks old) = owned t + mset (blocks pas)"
        using owned_update [of ?t2 ?k t pas] occ2 1 k owned_split [of ?k t] old
        by (simp add: slot_blocks_def insert_absorb)
      ultimately show ?thesis using res occ2 k by simp
    qed
  next
    case 2
    obtain nz where nz: "bifiIsNonzero (occupied t) 32 = Some nz" "nz = 0 \<longleftrightarrow> occ t = {}"
      using bifiIsNonzero_set [of "occupied t"] len by auto
    show ?thesis
    proof (cases "type = 2 \<and> nz \<noteq> 0 \<and> tbl_pnr t \<noteq> program_number pas")
      case True
      then show ?thesis using 2 nz assms(1) by (auto simp: check_enter_sec_def)
    next
      case False
      obtain oc2 pn where st: "store_pas t pas type =
          Some (t\<lparr>sections := (sections t)[?k := Some pas], occupied := oc2, tbl_pnr := pn,
                  tbl_version := uint (sc_version pas)\<rparr>)"
        "length oc2 = 32" "bifi_set oc2 = insert ?k (occ t)"
        using store_pas_run [OF len assms(2) kind k] by blast
      let ?t2 = "t\<lparr>sections := (sections t)[?k := Some pas], occupied := oc2, tbl_pnr := pn,
          tbl_version := uint (sc_version pas)\<rparr>"
      have res: "check_enter_sec t pas type = Some (0, ?t2, [], [(None, pas)])"
        using 2 nz False st(1) by (auto simp: check_enter_sec_def)
      have "table_inv ?t2" using table_inv_store [OF assms(1) k st(3,2)] .
      moreover have "owned ?t2 = owned t + mset (blocks pas)"
        using owned_update [of ?t2 ?k t pas] st(3) 2 k by (simp add: owned_def)
      ultimately show ?thesis using res st(3) k by simp
    qed
  qed
qed

text \<open>A table with one section of version 3, entered again in version 4.\<close>

abbreviation sec_v :: "u8 \<Rightarrow> nat \<Rightarrow> nat psection" where
  "sec_v v b \<equiv> \<lparr>sc_version = v, sc_current = 1, sc_section = 1, sc_last_section = 1,
     program_number = 7, payload = Some b\<rparr>"

abbreviation tbl_v3 :: "nat table" where
  "tbl_v3 \<equiv> (new_pat True 2)\<lparr>sections := [Some zero_section, Some (sec_v 3 50)], occupied := (replicate 32 0)[0 := 2]\<rparr>"

lemma bifi_set_two: "bifi_set ((replicate 32 0)[0 := 2]) = {1}"
  using bifiSet_set [of 1 "replicate 32 0"] by (simp add: bifiSet_def rd_def)

lemma tbl_v3_inv: "table_inv tbl_v3"
  by (simp add: table_inv_def new_pat_def new_plain_def sec_kind_def calloc_sections_def bifi_set_two)

theorem check_enter_sec_balanced_witness:
  "\<exists>rc t' freed acts. check_enter_sec tbl_v3 (sec_v 4 60) 0 = Some (rc, t', freed, acts) \<and> table_inv t'
     \<and> owned t' + mset freed = {#50, 60#}"
proof -
  have own: "owned tbl_v3 = {#50#}"
    by (simp add: owned_def slot_blocks_def bifi_set_two blocks_def)
  have "same_kind tbl_v3 0" "unat (sc_section (sec_v 4 60)) < num_sections tbl_v3"
    by (simp_all add: same_kind_def new_pat_def new_plain_def)
  from check_enter_sec_balanced [OF tbl_v3_inv this] obtain rc t' freed acts
    where "check_enter_sec tbl_v3 (sec_v 4 60) 0 = Some (rc, t', freed, acts)" "table_inv t'"
      "rc = 0 \<longrightarrow> owned t' + mset freed = owned tbl_v3 + mset (blocks (sec_v 4 60))"
      "rc \<noteq> 0 \<longrightarrow> (0 :: u8) = 2" by blast
  then show ?thesis using own by (auto simp: blocks_def)
qed

subsection \<open>Clearing\<close>

lemma table_inv_clear:
  assumes "table_inv t" and "k < length (sections t)"
    and "bifi_set oc = occ t - {k}" and "length oc = 32"
  shows "table_inv (t\<lparr>sections := (sections t)[k := Some s], occupied := oc\<rparr>)"
  using assms by (auto simp: table_inv_def nth_list_update)

lemma clear_tbl_loop_run:
  assumes "table_inv t" and "i + n = length (sections t)" and "\<forall>j\<in>occ t. i \<le> j"
  shows "\<exists>t' fr. clear_tbl_loop n i t freed = Some (t', freed @ fr) \<and> table_inv t'
    \<and> occ t' = {} \<and> mset fr = owned t"
  using assms
proof (induction n arbitrary: i t freed)
  case 0
  then have "occ t = {}" using occ_less by fastforce
  with 0 show ?case by (simp add: owned_def)
next
  case (Suc n)
  have i: "i < 256" "i < length (sections t)" using Suc.prems by (auto simp: table_inv_def)
  show ?case
    using Suc.prems(1) i(1)
  proof (cases rule: occ_probe)
    case (1 v)
    obtain s where s: "sections t ! i = Some s" using 1 Suc.prems(1) by (auto simp: table_inv_def)
    obtain oc where oc: "clear_tbl_sec t (word_of_nat i) (table_id t) =
        Some (0, t\<lparr>sections := (sections t)[i := Some (clear_section s)], occupied := oc\<rparr>, blocks s)"
      "length oc = 32" "bifi_set oc = occ t - {i}"
      using clear_tbl_sec_run [of t "table_id t" "word_of_nat i" s] Suc.prems(1) i s
      by (auto simp: table_inv_def same_kind_def index_u8)
    let ?t = "t\<lparr>sections := (sections t)[i := Some (clear_section s)], occupied := oc\<rparr>"
    have inv: "table_inv ?t"
      using table_inv_clear [OF Suc.prems(1) i(2) oc(3,2)] .
    have "\<forall>j\<in>occ ?t. Suc i \<le> j" using Suc.prems(3) oc(3) by (auto simp: Suc_le_eq le_less)
    with Suc.IH [OF inv, of "Suc i" "freed @ blocks s"] Suc.prems(2)
    obtain t' fr where t': "clear_tbl_loop n (Suc i) ?t (freed @ blocks s) = Some (t', (freed @ blocks s) @ fr)"
      "table_inv t'" "occ t' = {}" "mset fr = owned ?t" by auto
    have "owned ?t = (\<Sum>j\<in>occ t - {i}. slot_blocks t j)"
      unfolding owned_def using oc(3) by (auto intro!: sum.cong simp: slot_blocks_def)
    then have "mset (blocks s @ fr) = owned t"
      using t'(4) owned_split [OF 1(3)] s by (simp add: slot_blocks_def)
    then show ?thesis using 1 oc t' by auto
  next
    case 2
    then have "\<forall>j\<in>occ t. Suc i \<le> j" using Suc.prems(3) by (metis Suc_leI le_neq_implies_less)
    with Suc.IH [OF Suc.prems(1), of "Suc i" freed] Suc.prems(2) 2 show ?thesis by auto
  qed
qed

text \<open>Clearing a well-formed table frees every block its sections own exactly once and
  leaves no slot marked as occupied.\<close>
theorem clear_tbl_frees_all:
  assumes "table_inv t"
  shows "\<exists>t' freed. clear_tbl (Some t) = Some (0, Some t', freed) \<and> mset freed = owned t
    \<and> occ t' = {} \<and> sections t' = []"
  using clear_tbl_loop_run [OF assms, of 0 "num_sections t" "[]"] assms
  by (fastforce simp: clear_tbl_def table_inv_def)

theorem clear_tbl_frees_all_witness:
  "\<exists>t' freed. clear_tbl (Some tbl_v3) = Some (0, Some t', freed) \<and> mset freed = {#50#}"
  using clear_tbl_frees_all [OF tbl_v3_inv]
  by (auto simp: owned_def slot_blocks_def bifi_set_two blocks_def)

subsection \<open>Resizing\<close>

lemma resize_grow_inv:
  assumes "table_inv t" and "length (sections t) \<le> n" and "n \<le> 256"
    and "resize_tbl ok t n type = (rc, t')"
  shows "table_inv t' \<and> owned t' = owned t"
proof -
  have "slot_blocks t' i = slot_blocks t i" if "i \<in> occ t" for i
    using assms occ_less [OF assms(1) that]
    by (auto simp: resize_tbl_def slot_blocks_def nth_append split: if_splits)
  moreover have "occ t' = occ t" using assms(4) by (auto simp: resize_tbl_def split: if_splits)
  ultimately have "owned t' = owned t" by (simp add: owned_def cong: sum.cong)
  moreover have "table_inv t'"
    using assms by (auto simp: table_inv_def resize_tbl_def nth_append split: if_splits) (meson less_le_trans)
  ultimately show ?thesis by blast
qed

text \<open>Shrinking drops slots but not their marks in the bit field.  The sections in them are
  leaked, and growing the table again makes the marks point at indeterminate slots, which
  the next section with that number reads.\<close>

abbreviation tbl_shrunk :: "nat table" where
  "tbl_shrunk \<equiv> snd (resize_tbl True tbl_v3 1 0)"

abbreviation tbl_regrown :: "nat table" where
  "tbl_regrown \<equiv> snd (resize_tbl True tbl_shrunk 2 0)"

text \<open>Shrinking a table and growing it again, as the programme database does when the last
  section number of a table changes, breaks the table: the block of the dropped section is
  neither owned nor freed and the next section of that number is compared with
  indeterminate memory.\<close>
theorem resize_shrink_breaks_table:
  "table_inv tbl_v3 \<and> owned tbl_v3 = {#50#} \<and> owned tbl_regrown = {#}
   \<and> 1 \<in> occ tbl_regrown \<and> sections tbl_regrown ! 1 = None
   \<and> check_enter_sec tbl_regrown (sec_v 4 60) 0 = None"
proof -
  have secs: "sections tbl_regrown = [Some zero_section, None]" "occupied tbl_regrown = (replicate 32 0)[0 := 2]"
    by (simp_all add: resize_tbl_def sec_kind_def)
  have "bifiGet ((replicate 32 0)[0 := 2]) 1 = Some 2"
    by (simp add: bifiGet_def rd_def)
  moreover have "get_secptr tbl_regrown 1 0 = None"
    using secs by (simp add: get_secptr_def rd_def)
  ultimately have "check_enter_sec tbl_regrown (sec_v 4 60) 0 = None"
    using secs by (simp add: check_enter_sec_def)
  moreover have "owned tbl_v3 = {#50#}" "owned tbl_regrown = {#}"
    using secs by (simp_all add: owned_def slot_blocks_def bifi_set_two blocks_def)
  ultimately show ?thesis
    using tbl_v3_inv secs bifi_set_two by simp
qed

subsection \<open>Completeness and iteration\<close>

lemma tbl_is_complete_loop_run:
  assumes "table_inv t" and "i + n \<le> 256"
  shows "tbl_is_complete_loop n i t = Some (if {i..<i + n} \<subseteq> occ t then 1 else 0)"
  using assms(2)
proof (induction n arbitrary: i)
  case (Suc n)
  have ivl: "{i..<i + Suc n} = insert i {Suc i..<Suc i + n}" by auto
  have "i < 256" using Suc.prems by simp
  with assms(1) show ?case
  proof (cases rule: occ_probe)
    case 1
    with Suc.IH [of "Suc i"] Suc.prems show ?thesis unfolding ivl by simp
  next
    case 2
    then show ?thesis unfolding ivl by simp
  qed
qed simp

lemma scan_up_run:
  assumes "length f = 32" and "ctr + n \<le> 256"
  shows "scan_up n ctr f = Some (if \<exists>j\<in>bifi_set f. ctr \<le> j \<and> j < ctr + n
     then Some (Min {j\<in>bifi_set f. ctr \<le> j}) else None)"
  using assms(2)
proof (induction n arbitrary: ctr)
  case (Suc n)
  have "ctr < 8 * length f" using Suc.prems assms(1) by simp
  then show ?case
  proof (cases rule: bf.mem_cases)
    case (1 v)
    then have "Min {j\<in>bifi_set f. ctr \<le> j} = ctr" by (intro Min_eqI) auto
    with 1 show ?thesis by auto
  next
    case 2
    then have "j \<in> bifi_set f \<Longrightarrow> ctr \<le> j \<longleftrightarrow> Suc ctr \<le> j" for j by (metis Suc_le_eq le_less)
    then have "{j\<in>bifi_set f. ctr \<le> j} = {j\<in>bifi_set f. Suc ctr \<le> j}"
      and "(\<exists>j\<in>bifi_set f. ctr \<le> j \<and> j < ctr + Suc n) \<longleftrightarrow> (\<exists>j\<in>bifi_set f. Suc ctr \<le> j \<and> j < Suc ctr + n)"
      by (simp_all cong: bex_cong conj_cong)
    then show ?thesis using 2 Suc.IH [of "Suc ctr"] Suc.prems by simp
  qed
qed auto

lemma scan_down_run:
  assumes "length f = 32" and "ctr \<le> 256"
  shows "scan_down ctr f = Some (if \<exists>j\<in>bifi_set f. j < ctr then Some (Max {j\<in>bifi_set f. j < ctr}) else None)"
  using assms(2)
proof (induction ctr)
  case (Suc ctr)
  have "ctr < 8 * length f" using Suc.prems assms(1) by simp
  then show ?case
  proof (cases rule: bf.mem_cases)
    case (1 v)
    then have "Max {j\<in>bifi_set f. j < Suc ctr} = ctr" by (intro Max_eqI) auto
    with 1 show ?thesis by auto
  next
    case 2
    then have "{j\<in>bifi_set f. j < Suc ctr} = {j\<in>bifi_set f. j < ctr}" by (auto simp: less_Suc_eq)
    moreover have "(\<exists>j\<in>bifi_set f. j < Suc ctr) \<longleftrightarrow> (\<exists>j\<in>bifi_set f. j < ctr)"
      using 2 by (auto simp: less_Suc_eq)
    ultimately show ?thesis using 2 Suc by simp
  qed
qed auto

text \<open>C30: on a well-formed table with sections, the iterator starts at the least section
  present, steps to the next larger or next smaller one or reports that there is none, and
  can be put on the first or last one; at a section present it delivers the section of that
  number.  The completeness test asks whether all slots are occupied.\<close>
theorem table_iterator_in_order:
  assumes "table_inv t" and "occ t \<noteq> {}"
  shows "iterTblInit (Some t) True = Some (Some (Min (occ t)))
    \<and> iterTblFirst t idx = Some (Min (occ t)) \<and> iterTblLast t idx = Some (Max (occ t))
    \<and> (idx \<in> occ t \<longrightarrow>
         iterTblAdvance t idx = Some (if {j\<in>occ t. idx < j} = {} then (1, idx) else (0, Min {j\<in>occ t. idx < j}))
       \<and> iterTblRewind t idx = Some (if {j\<in>occ t. j < idx} = {} then (1, idx) else (0, Max {j\<in>occ t. j < idx}))
       \<and> (\<exists>s. iterTblGet t idx = Some s \<and> unat (sc_section s) = idx))
    \<and> tbl_is_complete t = Some (if occ t = {..<num_sections t} then 1 else 0)"
proof -
  have t: "length (occupied t) = 32" "num_sections t = length (sections t)" "num_sections t \<le> 256"
    "sec_kind (table_id t) \<noteq> None" using assms(1) by (auto simp: table_inv_def)
  have less: "j < num_sections t" if "j \<in> occ t" for j using occ_less [OF assms(1) that] t(2) by simp
  then have ex: "\<exists>j\<in>occ t. j < num_sections t" using assms(2) by blast
  then have n0: "num_sections t \<noteq> 0" by auto
  have all: "{j \<in> occ t. j < num_sections t} = occ t" using less by auto
  obtain nz where nz: "bifiIsNonzero (occupied t) 32 = Some nz" "nz \<noteq> 0"
    using bifiIsNonzero_set [of "occupied t"] t(1) assms(2) by auto
  have up: "scan_up (num_sections t) 0 (occupied t) = Some (Some (Min (occ t)))"
    using scan_up_run [OF t(1), of 0 "num_sections t"] t(3) ex by simp
  have down: "scan_down (num_sections t) (occupied t) = Some (Some (Max (occ t)))"
    using scan_down_run [OF t(1,3)] ex all by simp
  have compl: "tbl_is_complete t = Some (if occ t = {..<num_sections t} then 1 else 0)"
    using tbl_is_complete_loop_run [OF assms(1), of 0 "num_sections t"] t(3) less
    by (auto simp: tbl_is_complete_def atLeast0LessThan)
  have adv: "iterTblAdvance t idx = Some (if {j\<in>occ t. idx < j} = {} then (1, idx) else (0, Min {j\<in>occ t. idx < j}))"
    if "idx \<in> occ t"
  proof -
    have "{j \<in> occ t. idx + 1 \<le> j} = {j\<in>occ t. idx < j}" by (auto simp: Suc_le_eq)
    moreover have "(idx + 1) + (num_sections t - (idx + 1)) = num_sections t" using less [OF that] by simp
    moreover have "(\<exists>j\<in>occ t. idx + 1 \<le> j \<and> j < num_sections t) \<longleftrightarrow> {j\<in>occ t. idx < j} \<noteq> {}"
      using less by (auto simp: Suc_le_eq)
    ultimately show ?thesis
      using scan_up_run [OF t(1), of "idx + 1" "num_sections t - (idx + 1)"] t(3)
      by (simp only: iterTblAdvance_def) simp
  qed
  have rew: "iterTblRewind t idx = Some (if {j\<in>occ t. j < idx} = {} then (1, idx) else (0, Max {j\<in>occ t. j < idx}))"
    if "idx \<in> occ t"
    using scan_down_run [OF t(1), of idx] t(3) less [OF that] by (auto simp: iterTblRewind_def)
  have get: "\<exists>s. iterTblGet t idx = Some s \<and> unat (sc_section s) = idx" if "idx \<in> occ t"
    using assms(1) that occ_less [OF assms(1) that]
    by (auto simp: table_inv_def iterTblGet_def get_secptr_def same_kind_def index_u8 rd_def)
  show ?thesis
    by (intro conjI impI adv rew get compl)
       (simp_all add: iterTblInit_def iterTblFirst_def iterTblLast_def up down nz n0)
qed

theorem table_iterator_in_order_witness:
  "iterTblInit (Some tbl_v3) True = Some (Some 1) \<and> iterTblAdvance tbl_v3 1 = Some (1, 1)
   \<and> tbl_is_complete tbl_v3 = Some 0"
proof -
  have o: "occ tbl_v3 = {1}" "num_sections tbl_v3 = 2"
    using bifi_set_two by (simp_all add: new_pat_def new_plain_def)
  have "{j\<in>{1}. 1 < j} = ({} :: nat set)" by auto
  moreover have "{1} \<noteq> {..<2 :: nat}" by (metis lessThan_iff singletonD zero_less_numeral zero_neq_one)
  ultimately show ?thesis
    using table_iterator_in_order [OF tbl_v3_inv, of 1] unfolding o by simp
qed

end
