(* ===== verification/BTree.thy ===== *)
theory BTree
  imports Prelude "HOL-Library.Monad_Syntax" "HOL-Library.Multiset"
begin

text \<open>
  common/btre.c: the height-balanced tree that holds every keyed collection of the
  programs.  A node's \<open>Parent\<close> pointers are its position in the tree: code that walks
  upwards works on a focus and the list of frames above it, innermost first.  The type
  \<open>'a\<close> stands for a node with its payload; node identity is equality on \<open>'a\<close>.  A dereference of
  a missing child is a fault (\<open>None\<close>).
\<close>

subsection \<open>The data\<close>

datatype 'a bt = BNil | Bt "'a bt" 'a nat "'a bt"

text \<open>\<open>x ? x->height : 0\<close> and the child array.\<close>

fun hgt :: "'a bt \<Rightarrow> nat" where
  "hgt BNil = 0"
| "hgt (Bt l a h r) = h"

fun child :: "nat \<Rightarrow> 'a bt \<Rightarrow> 'a bt" where
  "child i BNil = BNil"
| "child i (Bt l a h r) = (if i = 0 then l else r)"

fun set_child :: "nat \<Rightarrow> 'a bt \<Rightarrow> 'a bt \<Rightarrow> 'a bt" where
  "set_child i BNil c = BNil"
| "set_child i (Bt l a h r) c = (if i = 0 then Bt c a h r else Bt l a h c)"

type_synonym 'a frame = "nat \<times> 'a \<times> nat \<times> 'a bt"

fun plug1 :: "'a frame \<Rightarrow> 'a bt \<Rightarrow> 'a bt" where
  "plug1 (d, a, h, s) t = (if d = 0 then Bt t a h s else Bt s a h t)"

fun plug :: "'a bt \<Rightarrow> 'a frame list \<Rightarrow> 'a bt" where
  "plug t [] = t"
| "plug t (f # fs) = plug (plug1 f t) fs"

subsection \<open>The code\<close>

fun btreeNodeFind :: "('a \<Rightarrow> 'e \<Rightarrow> int) \<Rightarrow> 'a bt \<Rightarrow> 'e \<Rightarrow> 'a option" where
  "btreeNodeFind compar BNil e = None"
| "btreeNodeFind compar (Bt l a h r) e =
     (let cmp = compar a e in
      if cmp = 0 then Some a
      else if cmp < 0 then btreeNodeFind compar l e
      else btreeNodeFind compar r e)"

fun btree_node_height_fix :: "'a bt \<Rightarrow> 'a bt" where
  "btree_node_height_fix BNil = BNil"
| "btree_node_height_fix (Bt l a h r) = Bt l a (max (hgt l) (hgt r) + 1) r"

definition btree_rot :: "nat \<Rightarrow> 'a bt \<Rightarrow> 'a bt option" where
  "btree_rot i x =
     (case child (1 - i) x of
        BNil \<Rightarrow> None
      | Bt yl q yh yr \<Rightarrow>
          let y = Bt yl q yh yr;
              x = set_child (1 - i) x (child i y);
              x = btree_node_height_fix x
          in Some (btree_node_height_fix (set_child i y x)))"

definition btree_node_balance :: "nat \<Rightarrow> 'a bt \<Rightarrow> 'a bt option" where
  "btree_node_balance dir prnt =
     (let c = child (1 - dir) prnt in
      if c = BNil then None
      else do {
        prnt' \<leftarrow>
          (if child dir c \<noteq> BNil \<and>
              (child (1 - dir) c = BNil \<or> hgt (child (1 - dir) c) < hgt (child dir c))
           then do { c' \<leftarrow> btree_rot (1 - dir) c; Some (set_child (1 - dir) prnt c') }
           else Some prnt);
        btree_rot dir prnt'
      })"

text \<open>The upward loop; the frames above the focus are those still to be visited.\<close>

fun btree_node_height :: "'a bt \<Rightarrow> 'a frame list \<Rightarrow> 'a bt option" where
  "btree_node_height prnt path =
     (let h0 = hgt (child 0 prnt); h1 = hgt (child 1 prnt) in
      if h0 \<le> h1 + 1 \<and> h1 \<le> h0 + 1 \<and> hgt prnt = max h0 h1 + 1
      then Some (plug prnt path)
      else do {
        prnt' \<leftarrow>
          (if h0 > h1 + 1 then btree_node_balance 1 prnt
           else if h1 > h0 + 1 then btree_node_balance 0 prnt
           else Some prnt);
        let prnt' = btree_node_height_fix prnt';
        (case path of
           [] \<Rightarrow> Some prnt'
         | f # fs \<Rightarrow> btree_node_height (plug1 f prnt') fs)
      })"

declare btree_node_height.simps [simp del]

text \<open>The descent of \<open>btreeNodeInsert\<close>: \<open>None\<close> when an equal element is met, otherwise the
  node that takes the new child, with the child in place, and the frames above.\<close>

fun btree_ins_descend :: "('a \<Rightarrow> 'a \<Rightarrow> int) \<Rightarrow> 'a \<Rightarrow> 'a bt \<Rightarrow> 'a frame list \<Rightarrow> ('a bt \<times> 'a frame list) option" where
  "btree_ins_descend compar e BNil path = None"
| "btree_ins_descend compar e (Bt l a h r) path =
     (let cmp = compar a e in
      if cmp = 0 then None
      else if cmp < 0 then
        (if l \<noteq> BNil then btree_ins_descend compar e l ((0, a, h, r) # path)
         else Some (Bt (Bt BNil e 1 BNil) a h r, path))
      else
        (if r \<noteq> BNil then btree_ins_descend compar e r ((1, a, h, l) # path)
         else Some (Bt l a h (Bt BNil e 1 BNil), path)))"

text \<open>\<open>elem->height = 1\<close> comes before the search: when the node passed in hangs in the tree
  already, its height there is overwritten.\<close>

fun reset_height :: "'a \<Rightarrow> 'a bt \<Rightarrow> 'a bt" where
  "reset_height e BNil = BNil"
| "reset_height e (Bt l a h r) =
     Bt (reset_height e l) a (if a = e then 1 else h) (reset_height e r)"

definition btreeNodeInsert :: "('a \<Rightarrow> 'a \<Rightarrow> int) \<Rightarrow> 'a bt \<Rightarrow> 'a \<Rightarrow> (int \<times> 'a bt) option" where
  "btreeNodeInsert compar root e =
     (let root = reset_height e root in
      if root = BNil then Some (0, Bt BNil e 1 BNil)
      else case btree_ins_descend compar e root [] of
             None \<Rightarrow> Some (2, root)
           | Some (prnt, path) \<Rightarrow> do { t \<leftarrow> btree_node_height prnt path; Some (0, t) })"

text \<open>\<open>alloc\<close> makes the new node from the element, or fails.\<close>

definition btreeNodeGetOrIns ::
  "('a \<Rightarrow> 'a \<Rightarrow> int) \<Rightarrow> ('a \<Rightarrow> 'a option) \<Rightarrow> 'a bt \<Rightarrow> 'a \<Rightarrow> ('a option \<times> 'a bt) option" where
  "btreeNodeGetOrIns cmp alloc root cv =
     (case btreeNodeFind cmp root cv of
        Some n \<Rightarrow> Some (Some n, root)
      | None \<Rightarrow>
          (case alloc cv of
             None \<Rightarrow> Some (None, root)
           | Some n \<Rightarrow> do { (r, t) \<leftarrow> btreeNodeInsert cmp root n; Some (Some n, t) }))"

fun btree_walk :: "'a bt \<Rightarrow> nat \<Rightarrow> ('a \<times> nat \<times> nat) list" where
  "btree_walk BNil depth = []"
| "btree_walk (Bt l a h r) depth =
     (if l = BNil \<and> r = BNil then [(a, 3, depth)]
      else [(a, 0, depth)] @ btree_walk l (depth + 1) @ [(a, 1, depth)]
           @ btree_walk r (depth + 1) @ [(a, 2, depth)])"

definition btreeWalk :: "'a bt \<Rightarrow> 'x \<Rightarrow> ('x \<Rightarrow> 'a \<Rightarrow> nat \<Rightarrow> nat \<Rightarrow> 'x) \<Rightarrow> 'x" where
  "btreeWalk root x visit = foldl (\<lambda>x (n, which, depth). visit x n which depth) x (btree_walk root 0)"

text \<open>The position of a node: the subtree at it and the frames above.\<close>

fun locate :: "'a \<Rightarrow> 'a bt \<Rightarrow> 'a frame list \<Rightarrow> ('a bt \<times> 'a frame list) option" where
  "locate e BNil path = None"
| "locate e (Bt l a h r) path =
     (if a = e then Some (Bt l a h r, path)
      else case locate e l ((0, a, h, r) # path) of
             Some z \<Rightarrow> Some z
           | None \<Rightarrow> locate e r ((1, a, h, l) # path))"

text \<open>\<open>btree_node_relink\<close> hangs \<open>new\<close> where the node was; the height loop then starts at the
  parent, if there is one.\<close>

definition relink_height :: "'a bt \<Rightarrow> 'a frame list \<Rightarrow> 'a bt option" where
  "relink_height new path =
     (case path of [] \<Rightarrow> Some new | f # fs \<Rightarrow> btree_node_height (plug1 f new) fs)"

text \<open>The descent of \<open>btree_node_pre\<close> to the last node of the left subtree.\<close>

fun btree_node_pre :: "'a bt \<Rightarrow> 'a frame list \<Rightarrow> ('a \<times> 'a bt \<times> 'a frame list) option" where
  "btree_node_pre BNil path = None"
| "btree_node_pre (Bt l a h r) path =
     (if r \<noteq> BNil then btree_node_pre r ((1, a, h, l) # path) else Some (a, l, path))"

definition btreeNodeRemove :: "'a bt \<Rightarrow> 'a \<Rightarrow> 'a bt option" where
  "btreeNodeRemove root e = do {
     (sub, path) \<leftarrow> locate e root [];
     (case sub of
        BNil \<Rightarrow> None
      | Bt l a h r \<Rightarrow>
          if l = BNil then relink_height r path
          else if r = BNil then relink_height l path
          else do {
            (tmp, tl, fs) \<leftarrow> btree_node_pre l ((0, a, h, r) # path);
            root' \<leftarrow> relink_height tl fs;
            Some (map_bt (\<lambda>n. if n = e then tmp else n) root')
          })
   }"

subsection \<open>Files\<close>

text \<open>\<open>write\<close> gives its result code and the bytes it put out.\<close>

fun btreeWrite :: "('a \<Rightarrow> int \<times> buffer) \<Rightarrow> 'a bt \<Rightarrow> int \<times> buffer" where
  "btreeWrite write BNil = (0, [0x30])"
| "btreeWrite write (Bt l a h r) =
     (let (rc, out) = write a in
      if rc \<noteq> 0 then (1, 0x58 # out)
      else let (rl, outl) = btreeWrite write l in
           if rl \<noteq> 0 then (1, 0x58 # out @ outl)
           else let (rr, outr) = btreeWrite write r in
                (if rr \<noteq> 0 then 1 else 0, 0x58 # out @ outl @ outr))"

fun btreeWriteSize :: "('a \<Rightarrow> u64) \<Rightarrow> 'a bt \<Rightarrow> u64" where
  "btreeWriteSize sz BNil = 1"
| "btreeWriteSize sz (Bt l a h r) = 1 + sz a + btreeWriteSize sz l + btreeWriteSize sz r"

text \<open>\<open>read\<close> allocates a node and reads its payload, or gives a null pointer; the result
  code 1 leaves the part read so far in the tree.  The recursion is bounded only by the file.\<close>

partial_function (option) btree_read ::
  "(buffer \<Rightarrow> 'a option \<times> buffer) \<Rightarrow> buffer \<Rightarrow> (int \<times> 'a bt \<times> buffer) option" where
  "btree_read read f =
     (let (node_id, f) = fgetc f in
      if node_id = 0x30 then Some (0, BNil, f)
      else if node_id \<noteq> 0x58 then Some (1, BNil, f)
      else case read f of
             (None, f) \<Rightarrow> Some (1, BNil, f)
           | (Some n, f) \<Rightarrow> do {
               (rl, l, f) \<leftarrow> btree_read read f;
               (if rl \<noteq> 0 then Some (1, btree_node_height_fix (Bt l n 0 BNil), f)
                else do {
                  (rr, r, f) \<leftarrow> btree_read read f;
                  Some (if rr \<noteq> 0 then 1 else 0, btree_node_height_fix (Bt l n 0 r), f)
                })
             })"

definition btreeRead :: "(buffer \<Rightarrow> 'a option \<times> buffer) \<Rightarrow> buffer \<Rightarrow> (int \<times> 'a bt \<times> buffer) option" where
  "btreeRead read f = btree_read read f"

subsection \<open>Order\<close>

fun inorder :: "'a bt \<Rightarrow> 'a list" where
  "inorder BNil = []"
| "inorder (Bt l a h r) = inorder l @ a # inorder r"

fun before :: "'a frame list \<Rightarrow> 'a list" where
  "before [] = []"
| "before ((d, a, h, s) # fs) = before fs @ (if d = 0 then [] else inorder s @ [a])"

fun after :: "'a frame list \<Rightarrow> 'a list" where
  "after [] = []"
| "after ((d, a, h, s) # fs) = (if d = 0 then a # inorder s else []) @ after fs"

lemma inorder_plug: "inorder (plug t path) = before path @ inorder t @ after path"
  by (induction path arbitrary: t) (auto split: if_splits)

lemma reset_height_fresh [simp]: "e \<notin> set (inorder t) \<Longrightarrow> reset_height e t = t"
  by (induction t) auto

lemma inorder_height_fix [simp]: "inorder (btree_node_height_fix t) = inorder t"
  by (cases t) auto

lemma inorder_rot: "btree_rot i x = Some y \<Longrightarrow> i \<le> 1 \<Longrightarrow> inorder y = inorder x"
  by (cases x; cases "i = 0") (auto simp: btree_rot_def split: bt.splits)

lemma inorder_set_child:
  "inorder c' = inorder (child i t) \<Longrightarrow> t \<noteq> BNil \<Longrightarrow> inorder (set_child i t c') = inorder t"
  by (cases t) auto

lemma inorder_balance:
  assumes "btree_node_balance dir prnt = Some t" and "dir \<le> 1"
  shows "inorder t = inorder prnt"
proof -
  let ?c = "child (1 - dir) prnt"
  from assms(1) obtain prnt' where p: "btree_rot dir prnt' = Some t"
    and "prnt' = prnt \<or> (\<exists>c'. btree_rot (1 - dir) ?c = Some c' \<and> prnt' = set_child (1 - dir) prnt c')"
    and "?c \<noteq> BNil"
    by (auto simp: btree_node_balance_def Let_def split: if_splits bind_splits)
  moreover from this have "prnt \<noteq> BNil" by auto
  ultimately have "inorder prnt' = inorder prnt"
    using inorder_rot [of "1 - dir" ?c] by (auto intro: inorder_set_child)
  with inorder_rot [OF p assms(2)] show ?thesis by simp
qed

lemma height_unfold:
  assumes "btree_node_height prnt path = Some t"
  obtains "t = plug prnt path"
  | p where "inorder p = inorder prnt" "(case path of [] \<Rightarrow> Some p | f # fs \<Rightarrow> btree_node_height (plug1 f p) fs) = Some t"
proof -
  let ?h0 = "hgt (child 0 prnt)" and ?h1 = "hgt (child 1 prnt)"
  show thesis
  proof (cases "?h0 \<le> ?h1 + 1 \<and> ?h1 \<le> ?h0 + 1 \<and> hgt prnt = max ?h0 ?h1 + 1")
    case True
    with assms that(1) show thesis unfolding btree_node_height.simps [of prnt path] by simp
  next
    case False
    obtain q where q: "(if ?h0 > ?h1 + 1 then btree_node_balance 1 prnt
        else if ?h1 > ?h0 + 1 then btree_node_balance 0 prnt else Some prnt) = Some q"
      "(case path of [] \<Rightarrow> Some (btree_node_height_fix q)
         | f # fs \<Rightarrow> btree_node_height (plug1 f (btree_node_height_fix q)) fs) = Some t"
      using assms False unfolding btree_node_height.simps [of prnt path] Let_def
      by (simp only: if_False) (auto split: bind_splits)
    moreover from q(1) have "inorder q = inorder prnt" by (auto split: if_splits dest: inorder_balance)
    ultimately show thesis using that(2) [of "btree_node_height_fix q"] by simp
  qed
qed

lemma inorder_height:
  "btree_node_height prnt path = Some t \<Longrightarrow> inorder t = before path @ inorder prnt @ after path"
proof (induction path arbitrary: prnt)
  case Nil
  then show ?case by (cases rule: height_unfold) auto
next
  case (Cons f fs)
  from Cons.prems show ?case
  proof (cases rule: height_unfold)
    case 1
    then show ?thesis by (simp only: inorder_plug)
  next
    case (2 p)
    then show ?thesis using Cons.IH [of "plug1 f p"] by (cases f) auto
  qed
qed

subsection \<open>Balance\<close>

fun avl :: "'a bt \<Rightarrow> bool" where
  "avl BNil = True"
| "avl (Bt l a h r) \<longleftrightarrow> avl l \<and> avl r \<and> hgt l \<le> hgt r + 1 \<and> hgt r \<le> hgt l + 1
     \<and> h = max (hgt l) (hgt r) + 1"

text \<open>The frames above a subtree of height \<open>hc\<close> in a balanced tree.\<close>

fun path_ok :: "nat \<Rightarrow> 'a frame list \<Rightarrow> bool" where
  "path_ok hc [] = True"
| "path_ok hc ((d, a, h, s) # fs) \<longleftrightarrow> avl s \<and> hc \<le> hgt s + 1 \<and> hgt s \<le> hc + 1
     \<and> h = max hc (hgt s) + 1 \<and> path_ok h fs"

lemma avl_plug: "avl t \<Longrightarrow> path_ok (hgt t) path \<Longrightarrow> avl (plug t path)"
proof (induction path arbitrary: t)
  case (Cons f fs)
  then show ?case by (cases f) (auto simp: max.commute)
qed simp

lemma avl_height_fix [simp]: "avl t \<Longrightarrow> btree_node_height_fix t = t"
  by (cases t) auto

lemma rot_eqs:
  "btree_rot 1 (Bt (Bt a q g b) p h c) =
     Some (Bt a q (max (hgt a) (max (hgt b) (hgt c) + 1) + 1) (Bt b p (max (hgt b) (hgt c) + 1) c))"
  "btree_rot 0 (Bt a p h (Bt b q g c)) =
     Some (Bt (Bt a p (max (hgt a) (hgt b) + 1) b) q (max (max (hgt a) (hgt b) + 1) (hgt c) + 1) c)"
  by (simp_all add: btree_rot_def Let_def)

lemmas rot_eqs' = rot_eqs [unfolded One_nat_def]

lemma balance_left:
  assumes "avl l" and "avl r" and "hgt l = hgt r + 2"
  shows "\<exists>t. btree_node_balance 1 (Bt l a h r) = Some t \<and> avl t \<and> hgt t \<in> {hgt l, hgt l + 1}"
proof -
  obtain ll la lh lr where l: "l = Bt ll la lh lr" using assms(3) by (cases l) auto
  show ?thesis
  proof (cases "lr \<noteq> BNil \<and> (ll = BNil \<or> hgt ll < hgt lr)")
    case True
    then obtain rl ra rh rr where lr: "lr = Bt rl ra rh rr" by (cases lr) auto
    have "hgt ll < hgt lr" using True by (auto simp: lr) (use assms(1) l lr in auto)
    then have "hgt ll = hgt r" "hgt lr = hgt r + 1" using assms l by auto
    moreover have "rh = max (hgt rl) (hgt rr) + 1" "hgt rl \<le> hgt rr + 1" "hgt rr \<le> hgt rl + 1" "avl rl" "avl rr" "avl ll"
      using assms(1) l lr by auto
    moreover have "btree_node_balance 1 (Bt l a h r) =
        do { c' \<leftarrow> btree_rot 0 l; btree_rot 1 (Bt c' a h r) }"
      using True by (simp add: btree_node_balance_def l lr)
    ultimately show ?thesis using assms(2,3) by (auto simp: l lr rot_eqs' max_def)
  next
    case False
    then have "hgt lr \<le> hgt ll" by (cases lr) auto
    then have "hgt ll = hgt r + 1" "hgt r \<le> hgt lr" "hgt lr \<le> hgt r + 1" "avl ll" "avl lr" using assms l by auto
    moreover have "btree_node_balance 1 (Bt l a h r) = btree_rot 1 (Bt l a h r)"
      using False by (auto simp: btree_node_balance_def l)
    ultimately show ?thesis using assms(2,3) by (auto simp: l rot_eqs' max_def)
  qed
qed

lemma balance_right:
  assumes "avl l" and "avl r" and "hgt r = hgt l + 2"
  shows "\<exists>t. btree_node_balance 0 (Bt l a h r) = Some t \<and> avl t \<and> hgt t \<in> {hgt r, hgt r + 1}"
proof -
  obtain rl ra rh rr where r: "r = Bt rl ra rh rr" using assms(3) by (cases r) auto
  show ?thesis
  proof (cases "rl \<noteq> BNil \<and> (rr = BNil \<or> hgt rr < hgt rl)")
    case True
    then obtain ll la lh lr where rl: "rl = Bt ll la lh lr" by (cases rl) auto
    have "hgt rr < hgt rl" using True by (auto simp: rl) (use assms(2) r rl in auto)
    then have "hgt rr = hgt l" "hgt rl = hgt l + 1" using assms r by auto
    moreover have "lh = max (hgt ll) (hgt lr) + 1" "hgt ll \<le> hgt lr + 1" "hgt lr \<le> hgt ll + 1" "avl ll" "avl lr" "avl rr"
      using assms(2) r rl by auto
    moreover have "btree_node_balance 0 (Bt l a h r) =
        do { c' \<leftarrow> btree_rot 1 r; btree_rot 0 (Bt l a h c') }"
      using True by (simp add: btree_node_balance_def r rl)
    ultimately show ?thesis using assms(1,3) by (auto simp: r rl rot_eqs' max_def)
  next
    case False
    then have "hgt rl \<le> hgt rr" by (cases rl) auto
    then have "hgt rr = hgt l + 1" "hgt l \<le> hgt rl" "hgt rl \<le> hgt l + 1" "avl rr" "avl rl" using assms r by auto
    moreover have "btree_node_balance 0 (Bt l a h r) = btree_rot 0 (Bt l a h r)"
      using False by (auto simp: btree_node_balance_def r)
    ultimately show ?thesis using assms(1,3) by (auto simp: r rot_eqs' max_def)
  qed
qed

text \<open>One child of a balanced node has grown or shrunk by at most one.\<close>

definition one_changed :: "'a bt \<Rightarrow> nat \<Rightarrow> 'a bt \<Rightarrow> bool" where
  "one_changed l h r \<longleftrightarrow> (\<exists>ol or. (ol = hgt l \<or> or = hgt r)
     \<and> ol \<le> hgt l + 1 \<and> hgt l \<le> ol + 1 \<and> or \<le> hgt r + 1 \<and> hgt r \<le> or + 1
     \<and> ol \<le> or + 1 \<and> or \<le> ol + 1 \<and> h = max ol or + 1)"

lemma balance_step:
  assumes "avl l" and "avl r" and "one_changed l h r"
  shows "\<exists>t. (if hgt l > hgt r + 1 then btree_node_balance 1 (Bt l a h r)
         else if hgt r > hgt l + 1 then btree_node_balance 0 (Bt l a h r) else Some (Bt l a h r)) = Some t
    \<and> avl (btree_node_height_fix t) \<and> hgt (btree_node_height_fix t) \<le> h + 1 \<and> h \<le> hgt (btree_node_height_fix t) + 1"
proof -
  from assms(3) obtain ol or where o: "ol = hgt l \<or> or = hgt r" "ol \<le> hgt l + 1" "hgt l \<le> ol + 1"
    "or \<le> hgt r + 1" "hgt r \<le> or + 1" "ol \<le> or + 1" "or \<le> ol + 1" "h = max ol or + 1"
    unfolding one_changed_def by blast
  consider "hgt l > hgt r + 1" | "hgt r > hgt l + 1" | "hgt l \<le> hgt r + 1" "hgt r \<le> hgt l + 1" by linarith
  then show ?thesis
  proof cases
    case 1
    with o have "hgt l = hgt r + 2" and "h \<in> {hgt l, hgt l + 1}" by auto
    with 1 balance_left [OF assms(1,2), of a h] show ?thesis by auto
  next
    case 2
    with o have "hgt r = hgt l + 2" and "h \<in> {hgt r, hgt r + 1}" by auto
    with 2 balance_right [OF assms(1,2), of a h] show ?thesis by auto
  next
    case 3
    with o assms show ?thesis by auto
  qed
qed

lemma height_loop_avl:
  assumes "avl l" and "avl r" and "one_changed l h r" and "path_ok h path"
  shows "\<exists>t. btree_node_height (Bt l a h r) path = Some t \<and> avl t"
  using assms
proof (induction path arbitrary: l a h r)
  case Nil
  show ?case
    using balance_step [OF Nil(1-3), of a] Nil(1,2)
    by (subst btree_node_height.simps) (auto simp: Let_def)
next
  case (Cons f fs)
  obtain d b g s where f: "f = (d, b, g, s)" by (cases f) auto
  show ?case
  proof (cases "hgt l \<le> hgt r + 1 \<and> hgt r \<le> hgt l + 1 \<and> h = max (hgt l) (hgt r) + 1")
    case True
    then have "avl (Bt l a h r)" using Cons.prems by simp
    with avl_plug [of "Bt l a h r" "f # fs"] True Cons.prems(4) show ?thesis
      by (subst btree_node_height.simps) simp
  next
    case False
    obtain t where t: "(if hgt l > hgt r + 1 then btree_node_balance 1 (Bt l a h r)
         else if hgt r > hgt l + 1 then btree_node_balance 0 (Bt l a h r) else Some (Bt l a h r)) = Some t"
      and t': "avl (btree_node_height_fix t)" "hgt (btree_node_height_fix t) \<le> h + 1" "h \<le> hgt (btree_node_height_fix t) + 1"
      using balance_step [OF Cons.prems(1-3), of a] by blast
    let ?t = "btree_node_height_fix t"
    have s: "avl s" "h \<le> hgt s + 1" "hgt s \<le> h + 1" "g = max h (hgt s) + 1" "path_ok g fs"
      using Cons.prems(4) by (auto simp: f)
    have "one_changed ?t g s" "one_changed s g ?t"
      unfolding one_changed_def using t' s by (metis max.commute le_add1)+
    then have "\<exists>u. btree_node_height (plug1 f ?t) fs = Some u \<and> avl u"
      using Cons.IH [of ?t s g b] Cons.IH [of s ?t g b] t' s by (auto simp: f)
    then show ?thesis
      using False t by (subst btree_node_height.simps) (auto simp: Let_def)
  qed
qed

lemma relink_height_avl:
  assumes "avl new" and "hgt new \<le> hc + 1" and "hc \<le> hgt new + 1" and "path_ok hc path"
  shows "\<exists>t. relink_height new path = Some t \<and> avl t \<and> inorder t = before path @ inorder new @ after path"
proof (cases path)
  case Nil
  then show ?thesis using assms by (simp add: relink_height_def)
next
  case (Cons f fs)
  obtain d b g s where f: "f = (d, b, g, s)" by (cases f) auto
  have s: "avl s" "hc \<le> hgt s + 1" "hgt s \<le> hc + 1" "g = max hc (hgt s) + 1" "path_ok g fs"
    using assms(4) by (auto simp: Cons f)
  have "one_changed new g s" "one_changed s g new"
    unfolding one_changed_def using assms s by (metis max.commute le_add1)+
  then have "\<exists>t. btree_node_height (plug1 f new) fs = Some t \<and> avl t"
    using height_loop_avl [of new s g fs b] height_loop_avl [of s new g fs b] assms(1) s by (auto simp: f)
  then show ?thesis
    using inorder_height [of "plug1 f new" fs] by (auto simp: relink_height_def Cons f)
qed

subsection \<open>Insertion\<close>

lemma ins_descend_avl:
  assumes "btree_ins_descend compar e t path = Some (prnt, path')" and "avl t" and "path_ok (hgt t) path"
  shows "\<exists>l a h r. prnt = Bt l a h r \<and> avl l \<and> avl r \<and> one_changed l h r \<and> path_ok h path'"
  using assms
proof (induction compar e t path rule: btree_ins_descend.induct)
  case (2 compar e l a h r path)
  have leaf: "one_changed (Bt BNil e 1 BNil) h r" if "l = BNil"
    unfolding one_changed_def using "2.prems"(2) that by (intro exI [of _ 0] exI [of _ "hgt r"]) auto
  have leaf': "one_changed l h (Bt BNil e 1 BNil)" if "r = BNil"
    unfolding one_changed_def using "2.prems"(2) that by (intro exI [of _ "hgt l"] exI [of _ 0]) auto
  consider "compar a e < 0" "l \<noteq> BNil" | "compar a e < 0" "l = BNil"
    | "compar a e > 0" "r \<noteq> BNil" | "compar a e > 0" "r = BNil"
    using "2.prems"(1) by (cases "l = BNil"; cases "r = BNil"; cases "compar a e" "0 :: int" rule: linorder_cases) auto
  then show ?case
  proof cases
    case 1
    with 2 show ?thesis by auto
  next
    case 2
    with "2.prems" leaf show ?thesis by auto
  next
    case 3
    with "2.IH"(2) "2.prems" show ?thesis by (auto simp: max.commute)
  next
    case 4
    with "2.prems" leaf' show ?thesis by auto
  qed
qed simp

text \<open>The interface between the tree and the code that keeps things in it: the comparison
  function orders the nodes by a key.\<close>

locale node_order =
  fixes compar :: "'a \<Rightarrow> 'a \<Rightarrow> int" and key :: "'a \<Rightarrow> 'k::linorder"
  assumes compar_less: "compar a b < 0 \<longleftrightarrow> key b < key a"
    and compar_eq: "compar a b = 0 \<longleftrightarrow> key a = key b"
begin

definition bst :: "'a bt \<Rightarrow> bool" where
  "bst t \<longleftrightarrow> sorted_wrt (<) (map key (inorder t))"

lemma compar_greater: "compar a b > 0 \<longleftrightarrow> key a < key b"
  using compar_less [of a b] compar_eq [of a b] by (metis linorder_neqE not_less_iff_gr_or_eq)

lemma bst_node:
  "bst (Bt l a h r) \<longleftrightarrow> bst l \<and> bst r \<and> (\<forall>x\<in>set (inorder l). key x < key a) \<and> (\<forall>x\<in>set (inorder r). key a < key x)"
  by (fastforce simp: bst_def sorted_wrt_append)

lemma find_some:
  "bst t \<Longrightarrow> btreeNodeFind compar t e = Some a \<longleftrightarrow> a \<in> set (inorder t) \<and> key a = key e"
proof (induction t)
  case (Bt l b h r)
  then show ?case
    using compar_less [of b e] compar_eq [of b e]
    by (auto simp: bst_node Let_def)
qed simp

lemma find_none: "bst t \<Longrightarrow> btreeNodeFind compar t e = None \<longleftrightarrow> key e \<notin> key ` set (inorder t)"
  by (auto simp: find_some simp flip: not_Some_eq) (metis imageI)

lemma ins_descend_none:
  "bst t \<Longrightarrow> t \<noteq> BNil \<Longrightarrow> btree_ins_descend compar e t path = None \<longleftrightarrow> key e \<in> key ` set (inorder t)"
proof (induction t arbitrary: path)
  case (Bt l b h r)
  then show ?case
    using compar_less [of b e] compar_eq [of b e]
    by (auto simp: bst_node Let_def)
qed simp

lemma ins_descend_inorder:
  assumes "btree_ins_descend compar e t path = Some (prnt, path')" and "bst t"
  shows "\<exists>xs ys. inorder t = xs @ ys \<and> before path' @ inorder prnt @ after path' = before path @ xs @ e # ys @ after path
    \<and> (\<forall>x\<in>set xs. key x < key e) \<and> (\<forall>y\<in>set ys. key e < key y)"
  using assms
proof (induction t arbitrary: path)
  case (Bt l a h r)
  consider "compar a e < 0" "key e < key a" | "compar a e > 0" "key a < key e"
    using Bt.prems(1) compar_less [of a e] compar_greater [of a e] by (cases "compar a e = 0") auto
  then show ?case
  proof cases
    case 1
    show ?thesis
    proof (cases "l = BNil")
      case True
      with 1 Bt.prems show ?thesis
        by (intro exI [of _ "[]"] exI [of _ "a # inorder r"]) (auto simp: bst_node)
    next
      case False
      with 1 Bt.prems Bt.IH(1) [of "(0, a, h, r) # path"] obtain xs ys where
        "inorder l = xs @ ys" "before path' @ inorder prnt @ after path' = before path @ xs @ e # ys @ a # inorder r @ after path"
        "\<forall>x\<in>set xs. key x < key e" "\<forall>y\<in>set ys. key e < key y" by (auto simp: bst_node)
      with 1 Bt.prems(2) show ?thesis
        by (intro exI [of _ xs] exI [of _ "ys @ a # inorder r"]) (auto simp: bst_node)
    qed
  next
    case 2
    show ?thesis
    proof (cases "r = BNil")
      case True
      with 2 Bt.prems show ?thesis
        by (intro exI [of _ "inorder l @ [a]"] exI [of _ "[]"]) (auto simp: bst_node)
    next
      case False
      with 2 Bt.prems Bt.IH(2) [of "(1, a, h, l) # path"] obtain xs ys where
        "inorder r = xs @ ys" "before path' @ inorder prnt @ after path' = before path @ inorder l @ a # xs @ e # ys @ after path"
        "\<forall>x\<in>set xs. key x < key e" "\<forall>y\<in>set ys. key e < key y" by (auto simp: bst_node)
      with 2 Bt.prems(2) show ?thesis
        by (intro exI [of _ "inorder l @ a # xs"] exI [of _ ys]) (auto simp: bst_node)
    qed
  qed
qed simp

lemma insert_new:
  assumes "avl t" and "bst t" and "key e \<notin> key ` set (inorder t)"
  shows "\<exists>t'. btreeNodeInsert compar t e = Some (0, t') \<and> avl t' \<and> bst t'
    \<and> set (inorder t') = insert e (set (inorder t)) \<and> length (inorder t') = Suc (length (inorder t))"
proof (cases "t = BNil")
  case True
  then show ?thesis by (simp add: btreeNodeInsert_def bst_def)
next
  case False
  have fresh: "e \<notin> set (inorder t)" using assms(3) by blast
  from False assms ins_descend_none [of t e "[]"] obtain prnt path
    where d: "btree_ins_descend compar e t [] = Some (prnt, path)" by auto
  obtain t' where t': "btree_node_height prnt path = Some t'" "avl t'"
    using ins_descend_avl [OF d assms(1)] height_loop_avl by fastforce
  obtain xs ys where "inorder t = xs @ ys" "inorder t' = xs @ e # ys"
    "\<forall>x\<in>set xs. key x < key e" "\<forall>y\<in>set ys. key e < key y"
    using ins_descend_inorder [OF d assms(2)] inorder_height [OF t'(1)] by auto
  then show ?thesis
    using False fresh d t' assms(2) by (auto simp: btreeNodeInsert_def bst_def sorted_wrt_append)
qed

lemma insert_dup:
  "bst t \<Longrightarrow> key e \<in> key ` set (inorder t) \<Longrightarrow> e \<notin> set (inorder t) \<Longrightarrow>
     btreeNodeInsert compar t e = Some (2, t)"
  using ins_descend_none [of t e "[]"] by (cases "t = BNil") (auto simp: btreeNodeInsert_def)

lemma bst_distinct: "bst t \<Longrightarrow> distinct (inorder t)"
  unfolding bst_def by (metis distinct_map strict_sorted_iff)

end

subsection \<open>Removal\<close>

lemma locate_some:
  assumes "locate e t path = Some (sub, path')"
  shows "\<exists>l h r. sub = Bt l e h r" and "avl t \<Longrightarrow> path_ok (hgt t) path \<Longrightarrow> avl sub \<and> path_ok (hgt sub) path'"
    and "before path' @ inorder sub @ after path' = before path @ inorder t @ after path"
  using assms
  by (induction e t path rule: locate.induct)
     (auto split: if_splits option.splits simp: max.commute)

lemma locate_none: "locate e t path = None \<longleftrightarrow> e \<notin> set (inorder t)"
  by (induction e t path rule: locate.induct) (auto split: option.splits)

lemma pre_some:
  assumes "l \<noteq> BNil"
  shows "\<exists>m ml fs. btree_node_pre l path = Some (m, ml, fs) \<and> after fs = after path
    \<and> before path @ inorder l = before fs @ inorder ml @ [m]
    \<and> (avl l \<longrightarrow> path_ok (hgt l) path \<longrightarrow> avl ml \<and> path_ok (hgt ml + 1) fs)"
  using assms
proof (induction l path rule: btree_node_pre.induct)
  case (2 l a h r path)
  then show ?case
    by (cases "r = BNil") (auto simp: max.commute)
qed simp

lemma inorder_map_bt [simp]: "inorder (map_bt f t) = map f (inorder t)"
  by (induction t) auto

lemma hgt_map_bt [simp]: "hgt (map_bt f t) = hgt t"
  by (cases t) auto

lemma avl_map_bt [simp]: "avl (map_bt f t) = avl t"
  by (induction t) auto

lemma remove_inorder:
  assumes "avl t" and "distinct (inorder t)" and "e \<in> set (inorder t)"
  shows "\<exists>t'. btreeNodeRemove t e = Some t' \<and> avl t' \<and> inorder t' = remove1 e (inorder t)"
proof -
  obtain sub path where loc: "locate e t [] = Some (sub, path)"
    using assms(3) locate_none [of e t "[]"] by fastforce
  obtain l h r where sub: "sub = Bt l e h r" using locate_some(1) [OF loc] by blast
  have av: "avl sub" "path_ok (hgt sub) path" using locate_some(2) [OF loc] assms(1) by auto
  have io: "inorder t = before path @ inorder l @ e # inorder r @ after path"
    using locate_some(3) [OF loc] by (simp add: sub)
  then have rem: "remove1 e (inorder t) = before path @ inorder l @ inorder r @ after path"
    using assms(2) by (simp add: remove1_append)
  consider "l = BNil" | "l \<noteq> BNil" "r = BNil" | "l \<noteq> BNil" "r \<noteq> BNil" by blast
  then show ?thesis
  proof cases
    case 1
    then show ?thesis
      using relink_height_avl [of r "hgt sub" path] av loc rem by (auto simp: btreeNodeRemove_def sub)
  next
    case 2
    then show ?thesis
      using relink_height_avl [of l "hgt sub" path] av loc rem by (auto simp: btreeNodeRemove_def sub)
  next
    case 3
    have "path_ok (hgt l) ((0, e, h, r) # path)" using av by (auto simp: sub)
    then obtain m ml fs where pre: "btree_node_pre l ((0, e, h, r) # path) = Some (m, ml, fs)"
      "after fs = after ((0, e, h, r) # path)" "before ((0, e, h, r) # path) @ inorder l = before fs @ inorder ml @ [m]"
      "avl ml" "path_ok (hgt ml + 1) fs"
      using pre_some [OF 3(1), of "(0, e, h, r) # path"] av(1) by (auto simp: sub)
    then obtain t' where t': "relink_height ml fs = Some t'" "avl t'" "inorder t' = before fs @ inorder ml @ after fs"
      using relink_height_avl [of ml "hgt ml + 1" fs] by auto
    have pieces: "before path @ inorder l = before fs @ inorder ml @ [m]" "after fs = e # inorder r @ after path"
      using pre by simp_all
    have "inorder t = (before fs @ inorder ml) @ m # e # inorder r @ after path" using io pieces(1) by simp
    then have "e \<notin> set (before fs @ inorder ml)" "e \<notin> set (inorder r @ after path)" using assms(2) by auto
    then have "map (\<lambda>n. if n = e then m else n) (inorder t') = (before fs @ inorder ml) @ m # inorder r @ after path"
      using t'(3) pieces(2) by (auto intro!: map_idI)
    also have "\<dots> = before path @ inorder l @ inorder r @ after path" using pieces(1) by simp
    finally show ?thesis
      using 3 loc pre(1) t' rem by (auto simp: btreeNodeRemove_def sub)
  qed
qed

subsection \<open>Height\<close>

lemma avl_size: "avl t \<Longrightarrow> 2 ^ (hgt t div 2) \<le> length (inorder t) + 1"
proof (induction t)
  case (Bt l a h r)
  have le: "2 ^ (hgt l div 2) \<le> length (inorder l) + 1" "2 ^ (hgt r div 2) \<le> length (inorder r) + 1"
    using Bt by auto
  define k where "k = h div 2"
  have "k = 0 \<or> k - 1 \<le> hgt l div 2 \<and> k - 1 \<le> hgt r div 2"
    using Bt.prems by (auto simp: k_def)
  then have "k = 0 \<or> (2 :: nat) ^ (k - 1) + 2 ^ (k - 1) \<le> 2 ^ (hgt l div 2) + 2 ^ (hgt r div 2)"
    by (meson add_mono one_le_numeral power_increasing)
  moreover have "k \<noteq> 0 \<Longrightarrow> (2 :: nat) ^ k = 2 ^ (k - 1) + 2 ^ (k - 1)"
    by (cases k) auto
  ultimately show ?case using le by (cases "k = 0") (auto simp: k_def)
qed simp

subsection \<open>The tree as a keyed set\<close>

datatype 'a tree_op = Ins 'a | Rmv 'a

fun bt_step :: "('a \<Rightarrow> 'a \<Rightarrow> int) \<Rightarrow> 'a tree_op \<Rightarrow> 'a bt \<Rightarrow> 'a bt option" where
  "bt_step compar (Ins e) t = map_option snd (btreeNodeInsert compar t e)"
| "bt_step compar (Rmv e) t = btreeNodeRemove t e"

fun bt_run :: "('a \<Rightarrow> 'a \<Rightarrow> int) \<Rightarrow> 'a tree_op list \<Rightarrow> 'a bt \<Rightarrow> 'a bt option" where
  "bt_run compar [] t = Some t"
| "bt_run compar (p # ps) t = do { t' \<leftarrow> bt_step compar p t; bt_run compar ps t' }"

text \<open>What the operations mean: insertion is refused when the key is taken.  A node that is
  inserted must not hang in the tree itself (another node with the same key may), since its
  height there would be overwritten; a node that is removed must be in the tree.\<close>

fun set_step :: "('a \<Rightarrow> 'k) \<Rightarrow> 'a tree_op \<Rightarrow> 'a set \<Rightarrow> 'a set" where
  "set_step key (Ins e) S = (if key e \<in> key ` S then S else insert e S)"
| "set_step key (Rmv e) S = S - {e}"

fun ops_allowed :: "('a \<Rightarrow> 'k) \<Rightarrow> 'a tree_op list \<Rightarrow> 'a set \<Rightarrow> bool" where
  "ops_allowed key [] S = True"
| "ops_allowed key (p # ps) S = ((case p of Ins e \<Rightarrow> e \<notin> S | Rmv e \<Rightarrow> e \<in> S) \<and> ops_allowed key ps (set_step key p S))"

lemma sorted_wrt_remove1: "sorted_wrt P xs \<Longrightarrow> sorted_wrt P (remove1 x xs)"
  by (induction xs) (use set_remove1_subset in fastforce)+

context node_order
begin

lemma step_sim:
  assumes "avl t" and "bst t" and "ops_allowed key [p] (set (inorder t))"
  shows "\<exists>t'. bt_step compar p t = Some t' \<and> avl t' \<and> bst t' \<and> set (inorder t') = set_step key p (set (inorder t))"
proof (cases p)
  case (Ins e)
  then show ?thesis
    using insert_new [OF assms(1,2), of e] insert_dup [OF assms(2), of e] assms by (cases "key e \<in> key ` set (inorder t)") auto
next
  case (Rmv e)
  obtain t' where t': "btreeNodeRemove t e = Some t'" "avl t'" "inorder t' = remove1 e (inorder t)"
    using remove_inorder [OF assms(1) bst_distinct [OF assms(2)], of e] assms(3) Rmv by auto
  moreover have "bst t'"
    using assms(2) t'(3) by (simp add: bst_def sorted_wrt_map sorted_wrt_remove1)
  ultimately show ?thesis using Rmv bst_distinct [OF assms(2)] by auto
qed

lemma run_sim:
  assumes "avl t" and "bst t" and "ops_allowed key ps (set (inorder t))"
  shows "\<exists>t'. bt_run compar ps t = Some t' \<and> avl t' \<and> bst t'
    \<and> set (inorder t') = fold (set_step key) ps (set (inorder t))"
  using assms
proof (induction ps arbitrary: t)
  case (Cons p ps)
  obtain t1 where "bt_step compar p t = Some t1" "avl t1" "bst t1" "set (inorder t1) = set_step key p (set (inorder t))"
    using step_sim [OF Cons.prems(1,2), of p] Cons.prems(3) by auto
  with Cons.IH [of t1] Cons.prems(3) show ?case by auto
qed simp

end

text \<open>C9: under a comparison function that orders the nodes by a key, every sequence of
  insertions of nodes that are not in the tree already (their key may be taken, which refuses
  them) and removals of nodes in the tree runs without a fault and leaves a
  height-balanced tree in key order that holds exactly the nodes the operations ask for;
  lookups find precisely the node with an equal key, and the height is logarithmic.\<close>
theorem btree_implements_keyed_set:
  assumes "node_order compar key" and "ops_allowed key ps {}"
  shows "\<exists>t. bt_run compar ps BNil = Some t \<and> avl t
    \<and> sorted_wrt (<) (map key (inorder t))
    \<and> set (inorder t) = fold (set_step key) ps {}
    \<and> (\<forall>e a. btreeNodeFind compar t e = Some a \<longleftrightarrow> a \<in> fold (set_step key) ps {} \<and> key a = key e)
    \<and> 2 ^ (hgt t div 2) \<le> card (fold (set_step key) ps {}) + 1"
proof -
  have "node_order.bst key BNil" by (simp add: node_order.bst_def [OF assms(1)])
  then obtain t where t: "bt_run compar ps BNil = Some t" "avl t" "node_order.bst key t"
    "set (inorder t) = fold (set_step key) ps {}"
    using node_order.run_sim [OF assms(1), of BNil ps] assms(2) by auto
  moreover have "card (set (inorder t)) = length (inorder t)"
    using node_order.bst_distinct [OF assms(1) t(3)] distinct_card by blast
  ultimately show ?thesis
    using node_order.find_some [OF assms(1) t(3)] avl_size [OF t(2)]
    by (auto simp: node_order.bst_def [OF assms(1)])
qed

lemma fst_compar_order: "node_order (\<lambda>a b. fst b - fst a) (fst :: int \<times> int \<Rightarrow> int)"
  by unfold_locales auto

theorem btree_implements_keyed_set_witness:
  "\<exists>t. bt_run (\<lambda>a b. fst b - fst a) [Ins (3, 0), Ins (1, 0), Ins (2, 0), Ins (3, 1), Rmv (1, 0)] BNil = Some t
     \<and> avl t \<and> set (inorder t) = {(2, 0), (3 :: int, 0 :: int)}"
proof -
  let ?ops = "[Ins (3, 0), Ins (1, 0), Ins (2, 0), Ins (3, 1), Rmv (1, 0)] :: (int \<times> int) tree_op list"
  have "ops_allowed fst ?ops {}" and "fold (set_step fst) ?ops {} = {(2, 0), (3, 0)}"
    by auto
  with btree_implements_keyed_set [OF fst_compar_order this(1)] show ?thesis by auto
qed

text \<open>Why a node of the tree must not be inserted again: the refusal leaves the height of the
  node at 1, and the tree is no longer the balanced one it was.\<close>

lemma reinsert_overwrites_height:
  assumes "node_order compar key" and "node_order.bst key (Bt l a h r)"
  shows "btreeNodeInsert compar (Bt l a h r) a = Some (2, Bt l a 1 r)"
proof -
  have "a \<notin> set (inorder l)" "a \<notin> set (inorder r)"
    using node_order.bst_distinct [OF assms] by auto
  then have "reset_height a l = l" "reset_height a r = r" using reset_height_fresh by fast+
  moreover have "compar a a = 0" using node_order.compar_eq [OF assms(1)] by simp
  ultimately show ?thesis by (simp add: btreeNodeInsert_def)
qed

subsection \<open>Traversal\<close>

lemma walk_inorder: "map fst (filter (\<lambda>(n, w, d). w = 1 \<or> w = 3) (btree_walk t depth)) = inorder t"
  by (induction t arbitrary: depth) auto

lemma walk_last_mset: "mset (map fst (filter (\<lambda>(n, w, d). w = 2 \<or> w = 3) (btree_walk t depth))) = mset (inorder t)"
  by (induction t arbitrary: depth) auto

lemma walk_nodes: "fst ` set (btree_walk t depth) = set (inorder t)"
  by (induction t arbitrary: depth) (auto simp: image_Un)

text \<open>After the last visit of a node (\<open>which\<close> 2 or 3) it is not visited again.\<close>

fun last_visits :: "('a \<times> nat \<times> nat) list \<Rightarrow> bool" where
  "last_visits [] = True"
| "last_visits ((n, w, d) # es) = ((w = 2 \<or> w = 3 \<longrightarrow> n \<notin> fst ` set es) \<and> last_visits es)"

lemma last_visits_append:
  "last_visits (xs @ ys) \<longleftrightarrow> last_visits xs \<and> last_visits ys
     \<and> (\<forall>(n, w, d)\<in>set xs. w = 2 \<or> w = 3 \<longrightarrow> n \<notin> fst ` set ys)"
  by (induction xs rule: last_visits.induct) auto

lemma walk_last_visits: "distinct (inorder t) \<Longrightarrow> last_visits (btree_walk t depth)"
proof (induction t arbitrary: depth)
  case (Bt l a h r)
  have "n \<in> set (inorder l)" if "(n, w, d) \<in> set (btree_walk l k)" for n w d k
    using walk_nodes [of l k] that by force
  moreover have "n \<in> set (inorder r)" if "(n, w, d) \<in> set (btree_walk r k)" for n w d k
    using walk_nodes [of r k] that by force
  ultimately show ?case
    using Bt by (auto simp: last_visits_append walk_nodes) blast+
qed simp

text \<open>The walk visits the nodes in key order at its middle visits, visits every node
  exactly once as a last visit and never touches a node after that, so a visitor may free
  nodes there.\<close>
theorem btreeWalk_order:
  assumes "distinct (inorder t)"
  shows "map fst (filter (\<lambda>(n, w, d). w = 1 \<or> w = 3) (btree_walk t 0)) = inorder t
    \<and> mset (map fst (filter (\<lambda>(n, w, d). w = 2 \<or> w = 3) (btree_walk t 0))) = mset (inorder t)
    \<and> last_visits (btree_walk t 0)
    \<and> btreeWalk t [] (\<lambda>xs n which depth. if which = 1 \<or> which = 3 then xs @ [n] else xs) = inorder t"
proof -
  have "foldl (\<lambda>xs (n, w, d). if w = 1 \<or> w = 3 then xs @ [n] else xs) ys evs =
      ys @ map fst (filter (\<lambda>(n, w, d). w = 1 \<or> w = 3) evs)" for ys :: "'a list" and evs :: "('a \<times> nat \<times> nat) list"
    by (induction evs arbitrary: ys) (auto split: if_splits)
  then show ?thesis
    using walk_inorder [of t 0] walk_last_mset [of t 0] walk_last_visits [OF assms, of 0]
    by (simp add: btreeWalk_def)
qed

theorem btreeWalk_order_witness:
  "btreeWalk (Bt (Bt BNil 1 1 BNil) 2 2 (Bt BNil (3 :: int) 1 BNil)) []
     (\<lambda>xs n which depth. if which = 1 \<or> which = 3 then xs @ [n] else xs) = [1, 2, 3]"
  using btreeWalk_order [of "Bt (Bt BNil 1 1 BNil) 2 2 (Bt BNil (3 :: int) 1 BNil)"] by simp

subsection \<open>Writing and reading back\<close>

lemma btreeWrite_run:
  "(\<And>a. a \<in> set (inorder t) \<Longrightarrow> write a = (0, enc a)) \<Longrightarrow>
     \<exists>out. btreeWrite write t = (0, out) \<and>
       ((\<forall>a\<in>set (inorder t). \<forall>rest. read (enc a @ rest) = (Some a, rest)) \<longrightarrow> avl t \<longrightarrow>
          (\<forall>rest. btree_read read (out @ rest) = Some (0, t, rest)))
       \<and> ((\<forall>a\<in>set (inorder t). sz a = word_of_nat (length (enc a))) \<longrightarrow>
          btreeWriteSize sz t = word_of_nat (length out))"
proof (induction t)
  case BNil
  then show ?case by (auto simp: btree_read.simps)
next
  case (Bt l a h r)
  from Bt.IH(1) Bt.prems obtain ol where ol: "btreeWrite write l = (0, ol)"
    "(\<forall>a\<in>set (inorder l). \<forall>rest. read (enc a @ rest) = (Some a, rest)) \<longrightarrow> avl l \<longrightarrow>
       (\<forall>rest. btree_read read (ol @ rest) = Some (0, l, rest))"
    "(\<forall>a\<in>set (inorder l). sz a = word_of_nat (length (enc a))) \<longrightarrow> btreeWriteSize sz l = word_of_nat (length ol)"
    by auto
  from Bt.IH(2) Bt.prems obtain or where or: "btreeWrite write r = (0, or)"
    "(\<forall>a\<in>set (inorder r). \<forall>rest. read (enc a @ rest) = (Some a, rest)) \<longrightarrow> avl r \<longrightarrow>
       (\<forall>rest. btree_read read (or @ rest) = Some (0, r, rest))"
    "(\<forall>a\<in>set (inorder r). sz a = word_of_nat (length (enc a))) \<longrightarrow> btreeWriteSize sz r = word_of_nat (length or)"
    by auto
  have "btree_read read (0x58 # enc a @ ol @ or @ rest) = Some (0, Bt l a h r, rest)"
    if "\<forall>b\<in>set (inorder (Bt l a h r)). \<forall>rest. read (enc b @ rest) = (Some b, rest)" "avl (Bt l a h r)" for rest
    using that ol(2) or(2) by (subst btree_read.simps) (simp add: Let_def)
  with ol or Bt.prems show ?case by simp
qed

text \<open>C31: a balanced tree written to a file is read back as the same tree with the rest of
  the file untouched, provided the callbacks write and read each payload back; the size
  computed beforehand is the number of bytes written.\<close>
theorem btree_write_read:
  assumes "avl t" and "\<And>a. a \<in> set (inorder t) \<Longrightarrow> write a = (0, enc a)"
    and "\<And>a rest. a \<in> set (inorder t) \<Longrightarrow> read (enc a @ rest) = (Some a, rest)"
    and "\<And>a. a \<in> set (inorder t) \<Longrightarrow> sz a = word_of_nat (length (enc a))"
  shows "\<exists>out. btreeWrite write t = (0, out) \<and> btreeRead read (out @ rest) = Some (0, t, rest)
    \<and> btreeWriteSize sz t = word_of_nat (length out)"
  using btreeWrite_run [of t "write" enc "read" sz] assms by (auto simp: btreeRead_def)

theorem btree_write_read_witness:
  "\<exists>out. btreeWrite (\<lambda>a. (0, [a])) (Bt BNil 7 2 (Bt BNil (9 :: u8) 1 BNil)) = (0, out)
     \<and> btreeRead (\<lambda>f. (Some (hd f), tl f)) (out @ [1, 2]) = Some (0, Bt BNil 7 2 (Bt BNil 9 1 BNil), [1, 2])
     \<and> btreeWriteSize (\<lambda>a. 1) (Bt BNil 7 2 (Bt BNil (9 :: u8) 1 BNil)) = word_of_nat (length out)"
  by (rule btree_write_read [where enc = "\<lambda>a. [a]"]) auto

end
