(* ===== verification/TrnStrm.thy ===== *)
theory TrnStrm
  imports Prelude "HOL-Library.Monad_Syntax"
begin

text \<open>
  stream/trn_strm.c and stream/pes_ex.c: header fields of a transport stream packet and
  the extraction of PES payload from it.  A packet is a buffer of \<open>TS_LEN\<close> bytes.
\<close>

subsection \<open>Packet header\<close>

definition TS_LEN :: nat where
  "TS_LEN = 188"

text \<open>\<open>memmove\<close> of two bytes followed by \<open>ntohs\<close>.\<close>

definition rd_be16 :: "buffer \<Rightarrow> nat \<Rightarrow> u16 option" where
  "rd_be16 d i = do { hi \<leftarrow> rd d i; lo \<leftarrow> rd d (i + 1); Some (push_bit 8 (ucast hi) OR ucast lo) }"

definition tsIsStuffing :: "buffer \<Rightarrow> bool option" where
  "tsIsStuffing d = do { v \<leftarrow> rd_be16 d 1; Some (v AND 0x1fff = 0x1fff) }"

definition tsGetPid :: "buffer \<Rightarrow> u16 option" where
  "tsGetPid ts = do { v \<leftarrow> rd_be16 ts 1; Some (v AND (push_bit 13 1 - 1)) }"

definition tsGetAFC :: "buffer \<Rightarrow> u8 option" where
  "tsGetAFC ts = do { b \<leftarrow> rd ts 3; Some (drop_bit 4 b AND 3) }"

definition tsGetPUSI :: "buffer \<Rightarrow> u8 option" where
  "tsGetPUSI ts = do { b \<leftarrow> rd ts 1; Some (drop_bit 6 b AND 1) }"

subsection \<open>PES extraction\<close>

text \<open>\<open>Inl\<close> is an error return; \<open>Inr (a, b, c)\<close> the range \<open>a..b\<close> of payload and whether a
  PES packet starts here (\<open>c = 0\<close>) or not (\<open>c = -1\<close>).\<close>

definition pes_ex_get_ranges :: "buffer \<Rightarrow> (int + nat \<times> nat \<times> int) option" where
  "pes_ex_get_ranges data = do {
     afc \<leftarrow> tsGetAFC data;
     pusi \<leftarrow> tsGetPUSI data;
     (if afc = 1 then Some (Inr (4, TS_LEN, if pusi \<noteq> 0 then 0 else -1))
      else if afc = 2 then Some (Inl 2)
      else if afc = 3 then do {
        l \<leftarrow> rd data 4;
        let ra = unat l + 5;
        if ra \<ge> TS_LEN then Some (Inl 3)
        else Some (Inr (ra, TS_LEN, if pusi \<noteq> 0 then 0 else -1))
      }
      else Some (Inl 1))
   }"

record pesbuf =
  pb_data :: nat
  pb_pid :: u16
  pb_len :: u8
  pb_start :: bool

text \<open>The returned buffer points into the packet: \<open>pb_data\<close> is the offset.\<close>

definition pes_ex_process_buf :: "pesbuf \<Rightarrow> buffer \<Rightarrow> (pesbuf \<times> bool) option" where
  "pes_ex_process_buf ex buf = do {
     r \<leftarrow> pes_ex_get_ranges buf;
     (case r of
        Inl e \<Rightarrow> Some (ex, False)
      | Inr (a, b, c) \<Rightarrow> do {
          pid \<leftarrow> tsGetPid buf;
          Some (\<lparr>pb_data = a, pb_pid = pid, pb_len = word_of_nat (b - a), pb_start = (c = 0)\<rparr>, True)
        })
   }"

definition pesExInit :: "pesbuf" where
  "pesExInit = \<lparr>pb_data = 0, pb_pid = 0, pb_len = 0, pb_start = False\<rparr>"

definition pesExClear :: "pesbuf \<Rightarrow> pesbuf" where
  "pesExClear ex = \<lparr>pb_data = 0, pb_pid = 0, pb_len = 0, pb_start = False\<rparr>"

definition pesExPut :: "pesbuf \<Rightarrow> buffer \<Rightarrow> (pesbuf \<times> bool) option" where
  "pesExPut ex tsbuf = pes_ex_process_buf ex tsbuf"

subsection \<open>Properties\<close>

text \<open>The header fields as the bits of the packet.\<close>

definition ts_pid :: "buffer \<Rightarrow> u16" where
  "ts_pid p = (push_bit 8 (ucast (p ! 1)) OR ucast (p ! 2)) AND 0x1fff"

definition ts_afc :: "buffer \<Rightarrow> u8" where
  "ts_afc p = drop_bit 4 (p ! 3) AND 3"

definition ts_pusi :: "buffer \<Rightarrow> bool" where
  "ts_pusi p \<longleftrightarrow> bit (p ! 1) 6"

lemma tsGetPid_ts: "length p = 188 \<Longrightarrow> tsGetPid p = Some (ts_pid p)"
  by (simp add: tsGetPid_def rd_be16_def rd_def ts_pid_def numeral_2_eq_2)

lemma tsGetAFC_ts: "length p = 188 \<Longrightarrow> tsGetAFC p = Some (ts_afc p)"
  by (simp add: tsGetAFC_def rd_def ts_afc_def)

lemma tsGetPUSI_ts: "length p = 188 \<Longrightarrow> tsGetPUSI p = Some (of_bool (ts_pusi p))"
  using bit_iff_odd_drop_bit [of "p ! 1" 6]
  by (simp add: tsGetPUSI_def rd_def ts_pusi_def and_one_eq mod_2_eq_odd)

lemmas ts_header = tsGetPid_ts tsGetAFC_ts tsGetPUSI_ts

text \<open>Where the payload of a packet begins, if it has any.\<close>

definition payload_start :: "buffer \<Rightarrow> nat option" where
  "payload_start p =
     (if ts_afc p = 1 then Some 4
      else if ts_afc p = 3 \<and> unat (p ! 4) < 183 then Some (unat (p ! 4) + 5)
      else None)"

lemma pes_ranges:
  assumes "length p = 188"
  shows "\<exists>r. pes_ex_get_ranges p = Some r \<and> (case payload_start p of
      None \<Rightarrow> (\<exists>e. r = Inl e) | Some a \<Rightarrow> r = Inr (a, 188, if ts_pusi p then 0 else -1) \<and> a < 188)"
  using assms by (auto simp: pes_ex_get_ranges_def ts_header rd_def payload_start_def TS_LEN_def)

text \<open>C32: from every packet with payload the PES extractor delivers exactly the bytes behind
  the header and the adaptation field up to the end of the packet, with the packet's PID and
  its unit start flag; from every other packet it delivers nothing.  No byte outside the
  packet is read.\<close>
theorem pesExPut_delivers_payload:
  assumes "length p = 188"
  shows "\<exists>ex' got. pesExPut ex p = Some (ex', got) \<and> (got \<longleftrightarrow> payload_start p \<noteq> None)
    \<and> (got \<longrightarrow> payload_start p = Some (pb_data ex') \<and> pb_data ex' + unat (pb_len ex') = 188
         \<and> 0 < pb_len ex' \<and> pb_pid ex' = ts_pid p \<and> pb_start ex' = ts_pusi p)"
proof -
  have len: "unat (word_of_nat (188 - a) :: u8) = 188 - a" for a
    by (simp add: unat_of_nat)
  have pos: "a < 188 \<Longrightarrow> 0 < (word_of_nat (188 - a) :: u8)" for a
    using len [of a] by (metis unat_eq_0 word_neq_0_conv zero_less_diff less_numeral_extra(3))
  obtain r where r: "pes_ex_get_ranges p = Some r" "case payload_start p of
      None \<Rightarrow> (\<exists>e. r = Inl e) | Some a \<Rightarrow> r = Inr (a, 188, if ts_pusi p then 0 else -1) \<and> a < 188"
    using pes_ranges [OF assms] by blast
  show ?thesis
  proof (cases "payload_start p")
    case None
    with r show ?thesis by (auto simp: pesExPut_def pes_ex_process_buf_def)
  next
    case (Some a)
    with r assms len [of a] pos [of a] show ?thesis by (auto simp: pesExPut_def pes_ex_process_buf_def ts_header)
  qed
qed

theorem pesExPut_delivers_payload_witness:
  "\<exists>ex' got. pesExPut pesExInit ([0x47, 0x41, 0x00, 0x31, 7] @ replicate 183 0) = Some (ex', got)
     \<and> got \<and> pb_data ex' = 12 \<and> pb_start ex'"
proof -
  let ?p = "[0x47, 0x41, 0x00, 0x31, 7] @ replicate 183 0 :: buffer"
  have "payload_start ?p = Some 12" "ts_pusi ?p"
    by (simp_all add: payload_start_def ts_afc_def ts_pusi_def)
  with pesExPut_delivers_payload [of ?p pesExInit] show ?thesis by auto
qed

end
