(* ===== verification/SecEx.thy ===== *)
theory SecEx
  imports TrnStrm BTree
begin

text \<open>
  stream/sec_ex.c: reassembly of sections from transport stream packets, one state per PID
  in a balanced tree.  A packet is identified by a number and its bytes; the extractor owns
  every packet it is given until it releases it.  Released packets are reported in order.
\<close>

subsection \<open>Data\<close>

definition MAX_SEC_SZ :: nat where
  "MAX_SEC_SZ = 4096"

type_synonym packet = "nat \<times> buffer"

record sec_ex_state =
  s_pid :: u16
  s_data :: buffer
  s_idx :: nat
  s_aux :: "packet option"
  s_state :: nat

definition zero_state :: "u16 \<Rightarrow> sec_ex_state" where
  "zero_state pid = \<lparr>s_pid = pid, s_data = replicate MAX_SEC_SZ 0, s_idx = 0, s_aux = None, s_state = 0\<rparr>"

definition sec_ex_compar :: "sec_ex_state \<Rightarrow> sec_ex_state \<Rightarrow> int" where
  "sec_ex_compar a b = uint (s_pid b) - uint (s_pid a)"

type_synonym sec_ex = "sec_ex_state bt"

definition secExInit :: "sec_ex" where
  "secExInit = BNil"

text \<open>\<open>ok\<close> says whether the allocation of a new state succeeds.\<close>

definition sec_ex_get_or_ins_state :: "bool \<Rightarrow> sec_ex \<Rightarrow> u16 \<Rightarrow> (sec_ex_state option \<times> sec_ex) option" where
  "sec_ex_get_or_ins_state ok ex pid =
     (case btreeNodeFind sec_ex_compar ex (zero_state pid) of
        Some st \<Rightarrow> Some (Some st, ex)
      | None \<Rightarrow>
          if \<not> ok then Some (None, ex)
          else do {
            (r, ex') \<leftarrow> btreeNodeInsert sec_ex_compar ex (zero_state pid);
            Some (if r \<noteq> 0 then None else Some (zero_state pid), ex')
          })"

text \<open>Writing through the pointer to a state changes the node that holds it.\<close>

definition put_state :: "sec_ex_state \<Rightarrow> sec_ex \<Rightarrow> sec_ex" where
  "put_state st ex = map_bt (\<lambda>n. if s_pid n = s_pid st then st else n) ex"

subsection \<open>Ranges\<close>

text \<open>\<open>Inr (a, b, c)\<close>: \<open>a..b\<close> continues a section, \<open>b..c\<close> begins one; \<open>c\<close> is \<open>None\<close> where the
  code has -1.\<close>

definition sec_ex_get_ranges :: "buffer \<Rightarrow> (int + nat \<times> nat \<times> nat option) option" where
  "sec_ex_get_ranges data = do {
     afc \<leftarrow> tsGetAFC data;
     pusi \<leftarrow> tsGetPUSI data;
     ra \<leftarrow> (if afc = 1 then Some (Inr 4)
           else if afc = 2 then Some (Inl 2)
           else if afc = 3 then do {
             l \<leftarrow> rd data 4;
             Some (if unat l + 5 > TS_LEN then Inl 3 else Inr (unat l + 5))
           }
           else Some (Inl 1));
     (case ra of
        Inl e \<Rightarrow> Some (Inl e)
      | Inr ra \<Rightarrow>
          if pusi \<noteq> 0 then do {
            p \<leftarrow> rd data ra;
            let rb = ra + 1 + unat p;
            let ra = ra + 1;
            Some (if rb > TS_LEN \<or> ra > TS_LEN then Inl 4
                  else if ra > rb then Inl 5
                  else if TS_LEN < rb then Inl 6
                  else Inr (ra, rb, Some TS_LEN))
          }
          else Some (if ra > TS_LEN then Inl 5 else Inr (ra, TS_LEN, None)))
   }"

subsection \<open>The state machine\<close>

definition copy_bytes :: "buffer \<Rightarrow> nat \<Rightarrow> buffer \<Rightarrow> nat \<Rightarrow> nat \<Rightarrow> buffer option" where
  "copy_bytes dst i src j n =
     (if i + n \<le> length dst \<and> j + n \<le> length src
      then Some (take i dst @ take n (drop j src) @ drop (i + n) dst) else None)"

text \<open>The clamped \<open>memmove\<close> that every state of the machine performs.\<close>

definition append_part :: "sec_ex_state \<Rightarrow> buffer \<Rightarrow> nat \<Rightarrow> nat \<Rightarrow> sec_ex_state option" where
  "append_part st src from n =
     (if n + s_idx st > MAX_SEC_SZ
      then do {
        d \<leftarrow> copy_bytes (s_data st) (s_idx st) src from (MAX_SEC_SZ - s_idx st);
        Some (st\<lparr>s_data := d, s_idx := MAX_SEC_SZ\<rparr>)
      }
      else do {
        d \<leftarrow> copy_bytes (s_data st) (s_idx st) src from n;
        Some (st\<lparr>s_data := d, s_idx := s_idx st + n\<rparr>)
      })"

type_synonym sec_out = "(u16 \<times> buffer) option"

text \<open>Case 1 of the switch: the new state, the packets released, the section delivered.\<close>

definition sec_ex_first_seen ::
  "sec_ex_state \<Rightarrow> packet \<Rightarrow> nat \<Rightarrow> nat \<Rightarrow> nat option \<Rightarrow> (sec_ex_state \<times> packet list \<times> sec_out) option" where
  "sec_ex_first_seen st buf a b c = do {
     st \<leftarrow> append_part st (snd buf) a (b - a);
     Some (case c of
        Some _ \<Rightarrow> (st\<lparr>s_aux := Some buf, s_state := 2, s_idx := 0\<rparr>, [], Some (s_pid st, s_data st))
      | None \<Rightarrow> (st, [buf], None))
   }"

definition sec_ex_new ::
  "sec_ex_state \<Rightarrow> packet \<Rightarrow> nat \<Rightarrow> nat option \<Rightarrow> (sec_ex_state \<times> packet list \<times> sec_out) option" where
  "sec_ex_new st buf b c =
     (case c of
        None \<Rightarrow> Some (st, [buf], None)
      | Some c \<Rightarrow> do {
          st \<leftarrow> append_part st (snd buf) b (c - b);
          Some (st\<lparr>s_state := 1\<rparr>, [buf], None)
        })"

definition sec_ex_partial ::
  "sec_ex_state \<Rightarrow> packet \<Rightarrow> (sec_ex_state \<times> packet list \<times> sec_out) option" where
  "sec_ex_partial st buf = do {
     aux \<leftarrow> s_aux st;
     r \<leftarrow> sec_ex_get_ranges (snd aux);
     (case r of
        Inl e \<Rightarrow> Some (st\<lparr>s_state := 0, s_idx := 0, s_aux := None\<rparr>, [aux, buf], None)
      | Inr (a, b, c) \<Rightarrow> do {
          c \<leftarrow> c;
          st \<leftarrow> append_part st (snd aux) b (c - b);
          let st = st\<lparr>s_aux := None, s_state := 1\<rparr>;
          r \<leftarrow> sec_ex_get_ranges (snd buf);
          (case r of
             Inl e \<Rightarrow> Some (st, [aux, buf], None)
           | Inr (a, b, c) \<Rightarrow> do {
               (st, rel, out) \<leftarrow> sec_ex_first_seen st buf a b c;
               Some (st, aux # rel, out)
             })
        })
   }"

definition sec_ex_process_buf :: "bool \<Rightarrow> sec_ex \<Rightarrow> packet \<Rightarrow> (sec_ex \<times> packet list \<times> sec_out) option" where
  "sec_ex_process_buf ok ex buf = do {
     pid \<leftarrow> tsGetPid (snd buf);
     (stp, ex) \<leftarrow> sec_ex_get_or_ins_state ok ex pid;
     (case stp of
        None \<Rightarrow> Some (ex, [buf], None)
      | Some st \<Rightarrow> do {
          r \<leftarrow> sec_ex_get_ranges (snd buf);
          (case r of
             Inl e \<Rightarrow> Some (ex, [buf], None)
           | Inr (a, b, c) \<Rightarrow> do {
               (st, rel, out) \<leftarrow>
                 (if s_state st = 0 then sec_ex_new st buf b c
                  else if s_state st = 2 then sec_ex_partial st buf
                  else if s_state st = 1 then sec_ex_first_seen st buf a b c
                  else Some (st, [], None));
               Some (put_state st ex, rel, out)
             })
        })
   }"

definition secExPut :: "bool \<Rightarrow> sec_ex \<Rightarrow> packet \<Rightarrow> (sec_ex \<times> packet list \<times> sec_out) option" where
  "secExPut ok ex tsbuf = sec_ex_process_buf ok ex tsbuf"

text \<open>Flushing walks the tree, releases what is pending and frees the nodes.\<close>

definition sec_ex_st_destroy :: "packet list \<Rightarrow> sec_ex_state \<Rightarrow> nat \<Rightarrow> nat \<Rightarrow> packet list" where
  "sec_ex_st_destroy rel st which depth =
     (if which = 2 \<or> which = 3 then (case s_aux st of Some p \<Rightarrow> rel @ [p] | None \<Rightarrow> rel) else rel)"

definition secExFlush :: "sec_ex \<Rightarrow> sec_ex \<times> packet list" where
  "secExFlush ex = (BNil, btreeWalk ex [] sec_ex_st_destroy)"

definition secExClear :: "sec_ex \<Rightarrow> sec_ex \<times> packet list" where
  "secExClear ex = (BNil, btreeWalk ex [] sec_ex_st_destroy)"

subsection \<open>Specification\<close>

text \<open>What a packet carries of sections: bytes that continue the current section and, when a
  unit starts in it, the bytes that begin the next one.\<close>

definition byte_range :: "nat \<Rightarrow> nat \<Rightarrow> 'a list \<Rightarrow> 'a list" where
  "byte_range a b xs = take (b - a) (drop a xs)"

definition section_chunk :: "buffer \<Rightarrow> (buffer \<times> buffer option) option" where
  "section_chunk p =
     (case payload_start p of
        None \<Rightarrow> None
      | Some a \<Rightarrow>
          if ts_pusi p then
            (let q = a + 1 + unat (p ! a) in
             if q \<le> 188 then Some (byte_range (a + 1) q p, Some (drop q p)) else None)
          else Some (drop a p, None))"

text \<open>Reassembly of one PID: the bytes of the section being collected, if any, and a section
  delivered when the next one starts.  A section never exceeds the buffer.\<close>

fun asm_step :: "buffer option \<Rightarrow> (buffer \<times> buffer option) option \<Rightarrow> buffer option \<times> buffer option" where
  "asm_step acc None = (acc, None)"
| "asm_step None (Some (t, h)) = (h, None)"
| "asm_step (Some v) (Some (t, None)) = (Some (take 4096 (v @ t)), None)"
| "asm_step (Some v) (Some (t, Some h)) = (Some h, Some (take 4096 (v @ t)))"

fun asm_run :: "buffer option \<Rightarrow> buffer list \<Rightarrow> buffer list" where
  "asm_run acc [] = []"
| "asm_run acc (p # ps) =
     (let (acc', out) = asm_step acc (section_chunk p)
      in (case out of None \<Rightarrow> [] | Some v \<Rightarrow> [v]) @ asm_run acc' ps)"

text \<open>The packets the code can handle: an adaptation field that fills the packet must not come
  with a unit start.\<close>

definition packet_ok :: "buffer \<Rightarrow> bool" where
  "packet_ok p \<longleftrightarrow> length p = 188 \<and> \<not> (ts_afc p = 3 \<and> p ! 4 = 183 \<and> ts_pusi p)"

lemma ranges_chunk:
  assumes "packet_ok p"
  shows "\<exists>r. sec_ex_get_ranges p = Some r \<and> (case r of
      Inl e \<Rightarrow> section_chunk p = None
    | Inr (a, b, c) \<Rightarrow> a \<le> b \<and> b \<le> 188 \<and>
        ((c = Some 188 \<and> section_chunk p = Some (byte_range a b p, Some (drop b p)))
         \<or> (c = None \<and> b = 188 \<and> section_chunk p = Some (drop a p, None))
         \<or> (c = None \<and> a = 188 \<and> b = 188 \<and> section_chunk p = None)))"
proof -
  have len: "length p = 188" using assms by (simp add: packet_ok_def)
  consider "ts_afc p = 1" | "ts_afc p = 3" "unat (p ! 4) < 183" | "ts_afc p = 3" "unat (p ! 4) = 183"
    | "ts_afc p = 3" "unat (p ! 4) > 183" | "ts_afc p \<noteq> 1" "ts_afc p \<noteq> 3"
    by linarith
  then show ?thesis
  proof cases
    case 1
    then show ?thesis
      by (cases "ts_pusi p")
         (auto simp: sec_ex_get_ranges_def section_chunk_def payload_start_def ts_header len rd_def TS_LEN_def Let_def)
  next
    case 2
    then show ?thesis
      by (cases "ts_pusi p")
         (auto simp: sec_ex_get_ranges_def section_chunk_def payload_start_def ts_header len rd_def TS_LEN_def Let_def add.assoc)
  next
    case 3
    then have "p ! 4 = 183" by (simp add: word_unat_eq_iff)
    with assms 3 have "\<not> ts_pusi p" by (simp add: packet_ok_def)
    with 3 show ?thesis
      by (auto simp: sec_ex_get_ranges_def section_chunk_def payload_start_def ts_header len rd_def TS_LEN_def)
  next
    case 4
    then show ?thesis
      by (auto simp: sec_ex_get_ranges_def section_chunk_def payload_start_def ts_header len rd_def TS_LEN_def)
  next
    case 5
    then show ?thesis
      by (auto simp: sec_ex_get_ranges_def section_chunk_def payload_start_def ts_header len rd_def TS_LEN_def)
  qed
qed

lemma ranges_cases:
  assumes "packet_ok p"
  obtains e where "sec_ex_get_ranges p = Some (Inl e)" "section_chunk p = None"
  | a b where "sec_ex_get_ranges p = Some (Inr (a, b, Some 188))" "a \<le> b" "b \<le> 188"
      "section_chunk p = Some (byte_range a b p, Some (drop b p))"
  | a where "sec_ex_get_ranges p = Some (Inr (a, 188, None))" "a \<le> 188"
      "section_chunk p = Some (drop a p, None) \<or> a = 188 \<and> section_chunk p = None"
proof -
  from ranges_chunk [OF assms] obtain r where r: "sec_ex_get_ranges p = Some r" "case r of
      Inl e \<Rightarrow> section_chunk p = None
    | Inr (a, b, c) \<Rightarrow> a \<le> b \<and> b \<le> 188 \<and>
        ((c = Some 188 \<and> section_chunk p = Some (byte_range a b p, Some (drop b p)))
         \<or> (c = None \<and> b = 188 \<and> section_chunk p = Some (drop a p, None))
         \<or> (c = None \<and> a = 188 \<and> b = 188 \<and> section_chunk p = None))" by blast
  then show thesis by (cases r) (auto intro: that)
qed

subsection \<open>One PID\<close>

definition pending :: "sec_ex_state \<Rightarrow> packet multiset" where
  "pending st = (case s_aux st of None \<Rightarrow> {#} | Some p \<Rightarrow> {#p#})"

definition st_inv :: "sec_ex_state \<Rightarrow> bool" where
  "st_inv st \<longleftrightarrow> length (s_data st) = 4096 \<and> s_idx st \<le> 4096 \<and>
     (s_state st = 0 \<and> s_idx st = 0 \<and> s_aux st = None
      \<or> s_state st = 1 \<and> s_aux st = None
      \<or> s_state st = 2 \<and> s_idx st = 0 \<and>
        (\<exists>q t h. s_aux st = Some q \<and> packet_ok (snd q) \<and> section_chunk (snd q) = Some (t, Some h)))"

definition collected :: "sec_ex_state \<Rightarrow> buffer option" where
  "collected st =
     (if s_state st = 0 then None
      else if s_state st = 1 then Some (take (s_idx st) (s_data st))
      else (case s_aux st of None \<Rightarrow> None | Some q \<Rightarrow>
              (case section_chunk (snd q) of Some (t, h) \<Rightarrow> h | None \<Rightarrow> None)))"

text \<open>A delivered buffer begins with the section.\<close>

definition delivers :: "u16 \<Rightarrow> buffer option \<Rightarrow> sec_out \<Rightarrow> bool" where
  "delivers pid v out \<longleftrightarrow> (case v of None \<Rightarrow> out = None
     | Some v \<Rightarrow> (\<exists>d. out = Some (pid, d) \<and> length d = 4096 \<and> take (length v) d = v))"

lemma zero_state_inv: "st_inv (zero_state pid)" "collected (zero_state pid) = None" "pending (zero_state pid) = {#}"
  by (simp_all add: st_inv_def zero_state_def MAX_SEC_SZ_def collected_def pending_def)

lemma append_part_run:
  assumes "length (s_data st) = 4096" and "s_idx st \<le> 4096" and "from + n \<le> length src"
  shows "\<exists>d. append_part st src from n = Some (st\<lparr>s_data := d, s_idx := min 4096 (s_idx st + n)\<rparr>)
    \<and> length d = 4096
    \<and> take (min 4096 (s_idx st + n)) d = take 4096 (take (s_idx st) (s_data st) @ take n (drop from src))"
proof -
  define k where "k = min n (4096 - s_idx st)"
  let ?d = "take (s_idx st) (s_data st) @ take k (drop from src) @ drop (s_idx st + k) (s_data st)"
  have k: "s_idx st + k = min 4096 (s_idx st + n)" "s_idx st + k \<le> 4096" "from + k \<le> length src"
    using assms by (auto simp: k_def)
  have lk: "length (take k (drop from src)) = k" using k(3) by simp
  have run: "append_part st src from n = Some (st\<lparr>s_data := ?d, s_idx := s_idx st + k\<rparr>)"
  proof (cases "n + s_idx st > 4096")
    case True
    then have "k = 4096 - s_idx st" by (simp add: k_def)
    with True assms k show ?thesis by (simp add: append_part_def copy_bytes_def MAX_SEC_SZ_def)
  next
    case False
    then have "k = n" using assms(2) by (simp add: k_def)
    with False assms k show ?thesis by (simp add: append_part_def copy_bytes_def MAX_SEC_SZ_def)
  qed
  have "take (s_idx st + k) ?d = take (s_idx st) (s_data st) @ take k (drop from src)"
    using assms(1,2) lk by simp
  also have "\<dots> = take 4096 (take (s_idx st) (s_data st) @ take n (drop from src))"
    using assms(1,2) by (simp add: k_def min.commute)
  finally have "take (s_idx st + k) ?d = take 4096 (take (s_idx st) (s_data st) @ take n (drop from src))" .
  moreover have "length ?d = 4096" using assms(1) k(2) lk by simp
  ultimately show ?thesis using run k(1) by metis
qed

lemma first_seen_run:
  assumes "length (s_data st) = 4096" and "s_idx st \<le> 4096" and "s_state st = 1" and "s_aux st = None"
    and "packet_ok (snd p)" and "sec_ex_get_ranges (snd p) = Some (Inr (a, b, c))"
  shows "\<exists>st' rel out. sec_ex_first_seen st p a b c = Some (st', rel, out) \<and> st_inv st' \<and> s_pid st' = s_pid st
    \<and> mset rel + pending st' = {#p#}
    \<and> collected st' = fst (asm_step (Some (take (s_idx st) (s_data st))) (section_chunk (snd p)))
    \<and> delivers (s_pid st) (snd (asm_step (Some (take (s_idx st) (s_data st))) (section_chunk (snd p)))) out"
proof -
  have r: "a \<le> b" "b \<le> 188" "(c = Some 188 \<and> section_chunk (snd p) = Some (byte_range a b (snd p), Some (drop b (snd p))))
         \<or> (c = None \<and> b = 188 \<and> section_chunk (snd p) = Some (drop a (snd p), None))
         \<or> (c = None \<and> a = 188 \<and> b = 188 \<and> section_chunk (snd p) = None)"
    using ranges_chunk [OF assms(5)] assms(6) by auto
  have len: "length (snd p) = 188" using assms(5) by (simp add: packet_ok_def)
  obtain d where d: "append_part st (snd p) a (b - a) = Some (st\<lparr>s_data := d, s_idx := min 4096 (s_idx st + (b - a))\<rparr>)"
    "length d = 4096"
    "take (min 4096 (s_idx st + (b - a))) d = take 4096 (take (s_idx st) (s_data st) @ take (b - a) (drop a (snd p)))"
    using append_part_run [OF assms(1,2), of a "b - a" "snd p"] r len by auto
  let ?v = "take 4096 (take (s_idx st) (s_data st) @ take (b - a) (drop a (snd p)))"
  have "length (take (b - a) (drop a (snd p))) = b - a" using r(2) len by simp
  then have lv: "length ?v = min 4096 (s_idx st + (b - a))"
    unfolding length_take length_append using assms(1,2) by simp
  from r(3) show ?thesis
  proof (elim disjE conjE)
    assume "c = Some 188" "section_chunk (snd p) = Some (byte_range a b (snd p), Some (drop b (snd p)))"
    then show ?thesis
      using d assms lv
      by (cases p) (auto simp: sec_ex_first_seen_def st_inv_def pending_def collected_def delivers_def byte_range_def)
  next
    assume "c = None" "b = 188" "section_chunk (snd p) = Some (drop a (snd p), None)"
    then show ?thesis
      using d assms len by (auto simp: sec_ex_first_seen_def st_inv_def pending_def collected_def delivers_def)
  next
    assume "c = None" "a = 188" "b = 188" "section_chunk (snd p) = None"
    then show ?thesis
      using d assms len by (auto simp: sec_ex_first_seen_def st_inv_def pending_def collected_def delivers_def)
  qed
qed

lemma new_run:
  assumes "st_inv st" and "s_state st = 0"
    and "packet_ok (snd p)" and "sec_ex_get_ranges (snd p) = Some (Inr (a, b, c))"
  shows "\<exists>st' rel. sec_ex_new st p b c = Some (st', rel, None) \<and> st_inv st' \<and> s_pid st' = s_pid st
    \<and> mset rel + pending st' = {#p#} \<and> collected st' = fst (asm_step None (section_chunk (snd p)))"
proof -
  have r: "a \<le> b" "b \<le> 188" "(c = Some 188 \<and> section_chunk (snd p) = Some (byte_range a b (snd p), Some (drop b (snd p))))
         \<or> (c = None \<and> (section_chunk (snd p) = None \<or> section_chunk (snd p) = Some (drop a (snd p), None)))"
    using ranges_chunk [OF assms(3)] assms(4) by auto
  have len: "length (snd p) = 188" using assms(3) by (simp add: packet_ok_def)
  have st: "length (s_data st) = 4096" "s_idx st = 0" "s_aux st = None" using assms(1,2) by (auto simp: st_inv_def)
  from r(3) show ?thesis
  proof (elim disjE conjE)
    assume c: "c = Some 188" "section_chunk (snd p) = Some (byte_range a b (snd p), Some (drop b (snd p)))"
    obtain d where d: "append_part st (snd p) b (188 - b) = Some (st\<lparr>s_data := d, s_idx := min 4096 (188 - b)\<rparr>)"
      "length d = 4096" "take (min 4096 (188 - b)) d = take 4096 (take (188 - b) (drop b (snd p)))"
      using append_part_run [of st b "188 - b" "snd p"] st r len by auto
    with c st len show ?thesis
      by (auto simp: sec_ex_new_def st_inv_def pending_def collected_def)
  qed (use assms st in \<open>auto simp: sec_ex_new_def pending_def collected_def\<close>)
qed

lemma partial_run:
  assumes "st_inv st" and "s_state st = 2"
    and "packet_ok (snd p)" and "sec_ex_get_ranges (snd p) = Some (Inr (a, b, c))"
  shows "\<exists>st' rel out. sec_ex_partial st p = Some (st', rel, out) \<and> st_inv st' \<and> s_pid st' = s_pid st
    \<and> mset rel + pending st' = pending st + {#p#}
    \<and> collected st' = fst (asm_step (collected st) (section_chunk (snd p)))
    \<and> delivers (s_pid st) (snd (asm_step (collected st) (section_chunk (snd p)))) out"
proof -
  obtain q t h where q: "s_aux st = Some q" "packet_ok (snd q)" "section_chunk (snd q) = Some (t, Some h)"
    and st: "length (s_data st) = 4096" "s_idx st = 0"
    using assms(1,2) by (auto simp: st_inv_def)
  obtain a2 b2 where r: "sec_ex_get_ranges (snd q) = Some (Inr (a2, b2, Some 188))" "b2 \<le> 188" "h = drop b2 (snd q)"
    by (cases rule: ranges_cases [OF q(2)]) (use q(3) that in auto)
  have len: "length (snd q) = 188" using q(2) by (simp add: packet_ok_def)
  obtain d where d: "append_part st (snd q) b2 (188 - b2) = Some (st\<lparr>s_data := d, s_idx := min 4096 (188 - b2)\<rparr>)"
    "length d = 4096" "take (min 4096 (188 - b2)) d = take 4096 (take (188 - b2) (drop b2 (snd q)))"
    using append_part_run [of st b2 "188 - b2" "snd q"] st r len by auto
  have th: "take (min 4096 (188 - b2)) d = h" using d(3) r(3) len by simp
  have le: "188 - b2 \<le> (4096 :: nat)" by simp
  let ?st = "st\<lparr>s_data := d, s_idx := min 4096 (188 - b2), s_aux := None, s_state := 1\<rparr>"
  obtain st' rel out where f: "sec_ex_first_seen ?st p a b c = Some (st', rel, out)" "st_inv st'" "s_pid st' = s_pid st"
    "mset rel + pending st' = {#p#}" "collected st' = fst (asm_step (Some h) (section_chunk (snd p)))"
    "delivers (s_pid st) (snd (asm_step (Some h) (section_chunk (snd p)))) out"
    using first_seen_run [of ?st p a b c] assms(3,4) d(2) th le by auto
  have "collected st = Some h" using assms(2) q by (simp add: collected_def)
  moreover have "sec_ex_partial st p = Some (st', q # rel, out)"
    using q(1) r(1) d(1) assms(4) f(1) by (simp add: sec_ex_partial_def)
  ultimately show ?thesis using f q(1) by (simp add: pending_def)
qed

text \<open>The switch as a whole.\<close>

lemma machine_run:
  assumes "st_inv st" and "packet_ok (snd p)" and "sec_ex_get_ranges (snd p) = Some (Inr (a, b, c))"
  shows "\<exists>st' rel out. (if s_state st = 0 then sec_ex_new st p b c
      else if s_state st = 2 then sec_ex_partial st p
      else if s_state st = 1 then sec_ex_first_seen st p a b c else Some (st, [], None)) = Some (st', rel, out)
    \<and> st_inv st' \<and> s_pid st' = s_pid st \<and> mset rel + pending st' = pending st + {#p#}
    \<and> collected st' = fst (asm_step (collected st) (section_chunk (snd p)))
    \<and> delivers (s_pid st) (snd (asm_step (collected st) (section_chunk (snd p)))) out"
proof -
  have none: "snd (asm_step None ch) = None" for ch by (cases ch) auto
  consider "s_state st = 0" "collected st = None" "s_aux st = None"
    | "s_state st = 2" | "s_state st = 1" "collected st = Some (take (s_idx st) (s_data st))" "s_aux st = None"
    using assms(1) by (auto simp: st_inv_def collected_def)
  then show ?thesis
  proof cases
    case 1
    with new_run [OF assms(1) _ assms(2,3)] none show ?thesis by (fastforce simp: delivers_def pending_def)
  next
    case 2
    with partial_run [OF assms(1) _ assms(2,3)] show ?thesis by auto
  next
    case 3
    with first_seen_run [of st p a b c] assms show ?thesis by (auto simp: st_inv_def pending_def)
  qed
qed

subsection \<open>All PIDs\<close>

interpretation so: node_order sec_ex_compar "\<lambda>st. uint (s_pid st)"
  by unfold_locales (auto simp: sec_ex_compar_def)

abbreviation states :: "sec_ex \<Rightarrow> sec_ex_state set" where
  "states ex \<equiv> set (inorder ex)"

definition ex_inv :: "sec_ex \<Rightarrow> bool" where
  "ex_inv ex \<longleftrightarrow> avl ex \<and> so.bst ex \<and> (\<forall>st\<in>states ex. st_inv st)"

definition held :: "sec_ex \<Rightarrow> packet multiset" where
  "held ex = (\<Sum>st\<in>states ex. pending st)"

definition lookup :: "sec_ex \<Rightarrow> u16 \<Rightarrow> sec_ex_state option" where
  "lookup ex pid = btreeNodeFind sec_ex_compar ex (zero_state pid)"

definition collecting :: "sec_ex \<Rightarrow> u16 \<Rightarrow> buffer option" where
  "collecting ex pid = (case lookup ex pid of None \<Rightarrow> None | Some st \<Rightarrow> collected st)"

lemma lookup_some: "ex_inv ex \<Longrightarrow> lookup ex pid = Some st \<longleftrightarrow> st \<in> states ex \<and> s_pid st = pid"
  using so.find_some [of ex "zero_state pid" st] by (auto simp: ex_inv_def lookup_def zero_state_def word_uint_eq_iff)

lemma unique_pid: "ex_inv ex \<Longrightarrow> st \<in> states ex \<Longrightarrow> st' \<in> states ex \<Longrightarrow> s_pid st = s_pid st' \<Longrightarrow> st = st'"
  using lookup_some [of ex "s_pid st"] by (metis option.inject)

lemma put_state_states:
  assumes "ex_inv ex" and "st0 \<in> states ex" and "s_pid st = s_pid st0"
  shows "states (put_state st ex) = insert st (states ex - {st0})"
  using assms unique_pid [OF assms(1) _ assms(2)] by (auto simp: put_state_def)

lemma put_state_inv:
  assumes "ex_inv ex" and "st0 \<in> states ex" and "s_pid st = s_pid st0" and "st_inv st"
  shows "ex_inv (put_state st ex)"
proof -
  have "map (\<lambda>n. uint (s_pid n)) (inorder (put_state st ex)) = map (\<lambda>n. uint (s_pid n)) (inorder ex)"
    by (simp add: put_state_def)
  then have "so.bst (put_state st ex)" using assms(1) by (simp add: ex_inv_def so.bst_def)
  then show ?thesis
    using assms put_state_states [OF assms(1-3)] by (auto simp: ex_inv_def put_state_def)
qed

lemma put_state_held:
  assumes "ex_inv ex" and "st0 \<in> states ex" and "s_pid st = s_pid st0"
  shows "held (put_state st ex) + pending st0 = held ex + pending st"
proof -
  have "st \<notin> states ex - {st0}" using unique_pid [OF assms(1) _ assms(2)] assms(3) by blast
  then have "held (put_state st ex) = pending st + (\<Sum>s\<in>states ex - {st0}. pending s)"
    by (simp add: held_def put_state_states [OF assms])
  moreover have "held ex = pending st0 + (\<Sum>s\<in>states ex - {st0}. pending s)"
    using assms(2) by (simp add: held_def sum.remove)
  ultimately show ?thesis by simp
qed

lemma put_state_lookup:
  assumes "ex_inv ex" and "st0 \<in> states ex" and "s_pid st = s_pid st0" and "st_inv st"
  shows "lookup (put_state st ex) q = (if q = s_pid st then Some st else lookup ex q)"
proof -
  have "lookup (put_state st ex) q = Some s \<longleftrightarrow> (if q = s_pid st then Some st else lookup ex q) = Some s" for s
    using lookup_some [OF put_state_inv [OF assms], of q s] lookup_some [OF assms(1), of q s]
      put_state_states [OF assms(1-3)] unique_pid [OF assms(1) _ assms(2)] assms(3) by auto
  then show ?thesis by (metis option.exhaust)
qed

lemma get_or_ins_run:
  assumes "ex_inv ex"
  shows "\<exists>stp ex'. sec_ex_get_or_ins_state ok ex pid = Some (stp, ex') \<and> ex_inv ex' \<and> held ex' = held ex
    \<and> (\<forall>q. collecting ex' q = collecting ex q)
    \<and> (case stp of None \<Rightarrow> \<not> ok \<and> lookup ex pid = None \<and> ex' = ex | Some st \<Rightarrow> lookup ex' pid = Some st)"
proof (cases "lookup ex pid")
  case (Some st)
  then show ?thesis using assms by (auto simp: sec_ex_get_or_ins_state_def lookup_def)
next
  case None
  show ?thesis
  proof (cases ok)
    case False
    with None assms show ?thesis by (auto simp: sec_ex_get_or_ins_state_def lookup_def)
  next
    case True
    have "uint (s_pid (zero_state pid)) \<notin> (\<lambda>st. uint (s_pid st)) ` states ex"
      using None assms so.find_none [of ex "zero_state pid"] by (simp add: lookup_def ex_inv_def)
    then obtain ex' where i: "btreeNodeInsert sec_ex_compar ex (zero_state pid) = Some (0, ex')"
      "avl ex'" "so.bst ex'" "states ex' = insert (zero_state pid) (states ex)"
      using so.insert_new [of ex "zero_state pid"] assms by (auto simp: ex_inv_def)
    have new: "zero_state pid \<notin> states ex"
      using lookup_some [OF assms, of pid "zero_state pid"] None by (simp add: zero_state_def)
    have inv: "ex_inv ex'" using i assms zero_state_inv by (auto simp: ex_inv_def)
    have look: "lookup ex' q = (if q = pid then Some (zero_state pid) else lookup ex q)" for q
    proof -
      have "lookup ex' q = Some s \<longleftrightarrow> (if q = pid then Some (zero_state pid) else lookup ex q) = Some s" for s
        using lookup_some [OF inv, of q s] lookup_some [OF assms, of q s] i(4) None lookup_some [OF assms, of pid s]
        by (auto simp: zero_state_def)
      then show ?thesis by (metis option.exhaust)
    qed
    have "held ex' = held ex" using i(4) new by (simp add: held_def zero_state_inv)
    then show ?thesis
      using True None i inv look by (auto simp: sec_ex_get_or_ins_state_def lookup_def [symmetric] collecting_def zero_state_inv)
  qed
qed

lemma put_run:
  assumes "ex_inv ex" and "packet_ok (snd p)"
  shows "\<exists>ex' rel out. secExPut ok ex p = Some (ex', rel, out) \<and> ex_inv ex' \<and> mset rel + held ex' = held ex + {#p#}
    \<and> (ok \<longrightarrow> (\<forall>q. collecting ex' q =
           (if q = ts_pid (snd p) then fst (asm_step (collecting ex q) (section_chunk (snd p))) else collecting ex q))
        \<and> delivers (ts_pid (snd p)) (snd (asm_step (collecting ex (ts_pid (snd p))) (section_chunk (snd p)))) out)"
proof -
  let ?pid = "ts_pid (snd p)"
  have pid: "tsGetPid (snd p) = Some ?pid" using assms(2) by (simp add: packet_ok_def ts_header)
  obtain stp ex1 where g: "sec_ex_get_or_ins_state ok ex ?pid = Some (stp, ex1)" "ex_inv ex1" "held ex1 = held ex"
    "\<forall>q. collecting ex1 q = collecting ex q"
    "case stp of None \<Rightarrow> \<not> ok \<and> lookup ex ?pid = None \<and> ex1 = ex | Some st \<Rightarrow> lookup ex1 ?pid = Some st"
    using get_or_ins_run [OF assms(1), of ok ?pid] by blast
  obtain r where r: "sec_ex_get_ranges (snd p) = Some r" "(case r of Inl e \<Rightarrow> section_chunk (snd p) = None | Inr z \<Rightarrow> True)"
    by (cases rule: ranges_cases [OF assms(2)]) (use that in auto)
  show ?thesis
  proof (cases stp)
    case None
    with g pid show ?thesis by (auto simp: secExPut_def sec_ex_process_buf_def)
  next
    case (Some st)
    show ?thesis
    proof (cases r)
      case (Inl e)
      with Some g pid r show ?thesis
        by (auto simp: secExPut_def sec_ex_process_buf_def delivers_def)
    next
      case (Inr z)
      obtain a b c where z: "z = (a, b, c)" by (cases z) auto
      have st: "st \<in> states ex1" "s_pid st = ?pid" using g(5) Some lookup_some [OF g(2)] by auto
      then have inv: "st_inv st" using g(2) by (simp add: ex_inv_def)
      from machine_run [OF inv assms(2), of a b c] r(1) Inr z obtain st' rel out where m:
        "(if s_state st = 0 then sec_ex_new st p b c
          else if s_state st = 2 then sec_ex_partial st p
          else if s_state st = 1 then sec_ex_first_seen st p a b c else Some (st, [], None)) = Some (st', rel, out)"
        "st_inv st'" "s_pid st' = s_pid st" "mset rel + pending st' = pending st + {#p#}"
        "collected st' = fst (asm_step (collected st) (section_chunk (snd p)))"
        "delivers (s_pid st) (snd (asm_step (collected st) (section_chunk (snd p)))) out" by blast
      have res: "secExPut ok ex p = Some (put_state st' ex1, rel, out)"
        using pid g(1) Some r(1) Inr z m(1) by (simp add: secExPut_def sec_ex_process_buf_def)
      have "collecting ex1 ?pid = collected st" using g(5) Some by (simp add: collecting_def)
      then have col: "collecting ex ?pid = collected st" using g(4) by simp
      have "mset rel + held (put_state st' ex1) + pending st = held ex + {#p#} + pending st"
        using put_state_held [OF g(2) st(1) m(3)] m(4) g(3)
        by (metis (no_types, lifting) add.assoc add.commute)
      moreover have "collecting (put_state st' ex1) q =
          (if q = ?pid then fst (asm_step (collecting ex q) (section_chunk (snd p))) else collecting ex q)" for q
        using put_state_lookup [OF g(2) st(1) m(3,2), of q] m(3,5) st(2) col g(4) by (auto simp: collecting_def)
      ultimately show ?thesis
        using res put_state_inv [OF g(2) st(1) m(3,2)] m(6) col st(2) by auto
    qed
  qed
qed

text \<open>C11: from any reachable extractor state, putting in a packet the code can handle never
  reads or writes outside a buffer, and every packet ever put in is either held for the
  next call or has been released exactly once, also when no memory is left for a new PID.\<close>
theorem secExPut_releases_once:
  assumes "ex_inv ex" and "packet_ok (snd p)"
  shows "\<exists>ex' rel out. secExPut ok ex p = Some (ex', rel, out) \<and> ex_inv ex'
    \<and> mset rel + held ex' = held ex + {#p#}"
  using put_run [OF assms, of ok] by blast

abbreviation start_packet :: "buffer" where
  "start_packet \<equiv> [0x47, 0x40, 0x11, 0x10, 0] @ replicate 183 7"

lemma start_packet_ok: "packet_ok start_packet"
  by (simp add: packet_ok_def ts_afc_def)

lemma secExInit_inv: "ex_inv secExInit"
  by (simp add: ex_inv_def secExInit_def so.bst_def)

theorem secExPut_releases_once_witness:
  "\<exists>ex' rel out. secExPut True secExInit (1, start_packet) = Some (ex', rel, out)
     \<and> mset rel + held ex' = {#(1, start_packet)#}"
proof -
  have "held secExInit = {#}" by (simp add: held_def secExInit_def)
  with secExPut_releases_once [of secExInit "(1, start_packet)" True] secExInit_inv start_packet_ok show ?thesis
    by auto
qed

fun secEx_run :: "sec_ex \<Rightarrow> packet list \<Rightarrow> (sec_ex \<times> packet list \<times> (u16 \<times> buffer) list) option" where
  "secEx_run ex [] = Some (ex, [], [])"
| "secEx_run ex (p # ps) = do {
     (ex1, rel, out) \<leftarrow> secExPut True ex p;
     (ex2, rels, outs) \<leftarrow> secEx_run ex1 ps;
     Some (ex2, rel @ rels, (case out of None \<Rightarrow> outs | Some s \<Rightarrow> s # outs))
   }"

lemma secEx_run_sim:
  assumes "ex_inv ex" and "\<forall>p\<in>set ps. packet_ok (snd p)"
  shows "\<exists>ex' rels outs. secEx_run ex ps = Some (ex', rels, outs) \<and> ex_inv ex'
    \<and> mset rels + held ex' = held ex + mset ps
    \<and> (\<forall>q. list_all2 (\<lambda>v d. take (length v) d = v)
          (asm_run (collecting ex q) (filter (\<lambda>b. ts_pid b = q) (map snd ps)))
          (map snd (filter (\<lambda>s. fst s = q) outs)))"
  using assms
proof (induction ps arbitrary: ex)
  case (Cons p ps)
  let ?pid = "ts_pid (snd p)"
  obtain ex1 rel out where s: "secExPut True ex p = Some (ex1, rel, out)" "ex_inv ex1"
    "mset rel + held ex1 = held ex + {#p#}"
    "\<forall>q. collecting ex1 q = (if q = ?pid then fst (asm_step (collecting ex q) (section_chunk (snd p))) else collecting ex q)"
    "delivers ?pid (snd (asm_step (collecting ex ?pid) (section_chunk (snd p)))) out"
    using put_run [OF Cons.prems(1), of p True] Cons.prems(2) by auto
  obtain ex2 rels outs where t: "secEx_run ex1 ps = Some (ex2, rels, outs)" "ex_inv ex2"
    "mset rels + held ex2 = held ex1 + mset ps"
    "\<forall>q. list_all2 (\<lambda>v d. take (length v) d = v)
        (asm_run (collecting ex1 q) (filter (\<lambda>b. ts_pid b = q) (map snd ps)))
        (map snd (filter (\<lambda>s. fst s = q) outs))"
    using Cons.IH [OF s(2)] Cons.prems(2) by auto
  let ?outs = "case out of None \<Rightarrow> outs | Some s \<Rightarrow> s # outs"
  have "list_all2 (\<lambda>v d. take (length v) d = v)
      (asm_run (collecting ex q) (filter (\<lambda>b. ts_pid b = q) (map snd (p # ps))))
      (map snd (filter (\<lambda>s. fst s = q) ?outs))" for q
    using s(4,5) t(4) [rule_format, of q]
    by (cases "q = ?pid"; cases "snd (asm_step (collecting ex ?pid) (section_chunk (snd p)))")
       (auto simp: delivers_def split_beta Let_def)
  moreover have "mset (rel @ rels) + held ex2 = held ex + mset (p # ps)"
    using s(3) t(3) by (simp add: add.assoc)
  ultimately show ?case using s(1) t(1,2) by simp
qed simp

text \<open>C1: for every sequence of packets of any mixture of PIDs, as long as memory for the state of a new PID is
  available and every packet is one that the code can handle (\<open>packet_ok\<close>: 188 bytes, and not a unit start behind an adaptation
  field of 183 bytes, whose pointer field \<open>sec_ex_get_ranges\<close> reads one byte behind the packet), the sections delivered for one
  PID are exactly those that reassembling that PID's packets alone gives, in order: each is
  the concatenation of the pieces from one unit start to the next, cut at the buffer size.\<close>
theorem secEx_reassembles:
  assumes "\<forall>p\<in>set ps. packet_ok (snd p)"
  shows "\<exists>ex rels outs. secEx_run secExInit ps = Some (ex, rels, outs)
    \<and> mset rels + held ex = mset ps
    \<and> (\<forall>q. list_all2 (\<lambda>v d. take (length v) d = v)
          (asm_run None (filter (\<lambda>b. ts_pid b = q) (map snd ps)))
          (map snd (filter (\<lambda>s. fst s = q) outs)))"
proof -
  have "held secExInit = {#}" "collecting secExInit q = None" for q
    by (simp_all add: held_def secExInit_def collecting_def lookup_def)
  then show ?thesis using secEx_run_sim [OF secExInit_inv assms] by auto
qed

theorem secEx_reassembles_witness:
  "\<exists>ex rels outs. secEx_run secExInit [(1, start_packet), (2, start_packet)] = Some (ex, rels, outs)
     \<and> length (filter (\<lambda>s. fst s = 0x11) outs) = 1"
proof -
  have c: "section_chunk start_packet = Some ([], Some (replicate 183 7))"
    by (simp add: section_chunk_def payload_start_def ts_afc_def ts_pusi_def byte_range_def Let_def)
  have "ts_pid start_packet = 0x11" by (simp add: ts_pid_def)
  then have "length (asm_run None (filter (\<lambda>b. ts_pid b = 0x11) (map snd [(1 :: nat, start_packet), (2, start_packet)]))) = 1"
    using c by simp
  then show ?thesis
    using secEx_reassembles [of "[(1, start_packet), (2, start_packet)]"] start_packet_ok
    by (auto dest!: spec [of _ "0x11"] list_all2_lengthD)
qed

subsection \<open>Flushing\<close>

lemma destroy_fold:
  "mset (foldl (\<lambda>x (n, which, depth). sec_ex_st_destroy x n which depth) rel evs) =
     mset rel + (\<Sum>st\<leftarrow>map fst (filter (\<lambda>(n, w, d). w = 2 \<or> w = 3) evs). pending st)"
  by (induction evs arbitrary: rel)
     (auto simp: sec_ex_st_destroy_def pending_def split: option.splits if_splits)

lemma flush_held:
  assumes "ex_inv ex"
  shows "mset (snd (secExFlush ex)) = held ex \<and> fst (secExFlush ex) = secExInit
    \<and> mset (snd (secExClear ex)) = held ex \<and> fst (secExClear ex) = secExInit"
proof -
  let ?last = "map fst (filter (\<lambda>(n, w, d). w = 2 \<or> w = 3) (btree_walk ex 0))"
  have "distinct (inorder ex)" using so.bst_distinct assms by (auto simp: ex_inv_def)
  then have "(\<Sum>st\<leftarrow>inorder ex. pending st) = held ex"
    by (simp add: held_def sum_list_distinct_conv_sum_set)
  moreover have "(\<Sum>st\<leftarrow>?last. pending st) = (\<Sum>st\<leftarrow>inorder ex. pending st)"
  proof -
    have "(\<Sum>st\<leftarrow>xs. pending st) = sum_mset (image_mset pending (mset xs))" for xs
      by (simp flip: sum_mset_sum_list)
    then show ?thesis by (simp only: walk_last_mset [of ex 0])
  qed
  ultimately show ?thesis
    using destroy_fold [of "[]" "btree_walk ex 0"]
    by (simp add: secExFlush_def secExClear_def secExInit_def btreeWalk_def)
qed

text \<open>Flushing or clearing the extractor releases every packet it still holds exactly once
  and leaves it empty.\<close>
theorem secExFlush_releases_held:
  assumes "ex_inv ex"
  shows "mset (snd (secExFlush ex)) = held ex \<and> fst (secExFlush ex) = secExInit
    \<and> mset (snd (secExClear ex)) = held ex \<and> fst (secExClear ex) = secExInit"
  by (rule flush_held [OF assms])

theorem secExFlush_releases_held_witness:
  "mset (snd (secExFlush (Bt BNil ((zero_state 5)\<lparr>s_aux := Some (9, start_packet), s_state := 2\<rparr>) 1 BNil))) =
     {#(9, start_packet)#}"
proof -
  have "section_chunk start_packet = Some ([], Some (replicate 183 7))"
    by (simp add: section_chunk_def payload_start_def ts_afc_def ts_pusi_def byte_range_def Let_def)
  then have "ex_inv (Bt BNil ((zero_state 5)\<lparr>s_aux := Some (9, start_packet), s_state := 2\<rparr>) 1 BNil)"
    using start_packet_ok by (simp add: ex_inv_def so.bst_def st_inv_def zero_state_def MAX_SEC_SZ_def)
  from secExFlush_releases_held [OF this] show ?thesis
    by (simp add: held_def pending_def)
qed

subsection \<open>The packet that is not handled\<close>

text \<open>A packet whose adaptation field claims 183 bytes and whose unit start flag is set makes
  the range computation read the byte behind the packet: the guard of the section extractor
  lets the payload begin at offset 188, which the PES extractor refuses.\<close>
theorem sec_ex_get_ranges_overread:
  "length p = 188 \<and> ts_afc p = 3 \<and> p ! 4 = 183 \<and> ts_pusi p \<longleftrightarrow>
     length p = 188 \<and> sec_ex_get_ranges p = None"
proof -
  have "sec_ex_get_ranges p = None" if "length p = 188" "ts_afc p = 3" "p ! 4 = 183" "ts_pusi p"
    using that by (simp add: sec_ex_get_ranges_def ts_header rd_def TS_LEN_def)
  moreover have "packet_ok p \<Longrightarrow> sec_ex_get_ranges p \<noteq> None"
    using ranges_chunk [of p] by auto
  ultimately show ?thesis unfolding packet_ok_def by blast
qed

end
