(* ===== verification/SizeStack.thy ===== *)
theory SizeStack
  imports Prelude "HOL-Library.Monad_Syntax"
begin

text \<open>
  common/size_stack.c: nested size constraints for a read pointer.  Addresses are integers;
  the two arrays hold 32 bounds and an access beyond them is a fault.  Successful operations
  keep the pointer inside every pushed area, which is what the section parsers rely on.
\<close>

subsection \<open>The code\<close>

record size_stack =
  num_bounds :: nat
  ss_start :: "int list"
  ss_end :: "int list"
  ss_ptr :: int

text \<open>A null pointer argument is \<open>None\<close>.\<close>

definition sizeStackInit :: "size_stack \<Rightarrow> int option \<Rightarrow> int \<times> size_stack" where
  "sizeStackInit s ptr =
     (case ptr of
        None \<Rightarrow> (1, s)
      | Some p \<Rightarrow> (0, \<lparr>num_bounds = 0, ss_start = replicate 32 0, ss_end = replicate 32 0, ss_ptr = p\<rparr>))"

definition sizeStackPop :: "size_stack \<Rightarrow> int \<times> size_stack" where
  "sizeStackPop s = (if num_bounds s = 0 then (1, s) else (0, s\<lparr>num_bounds := num_bounds s - 1\<rparr>))"

definition sizeStackPush :: "size_stack \<Rightarrow> u32 \<Rightarrow> (int \<times> size_stack) option" where
  "sizeStackPush s sz =
     (if num_bounds s \<ge> 32 then Some (1, s)
      else do {
        over \<leftarrow> (if num_bounds s \<noteq> 0
                then do { e \<leftarrow> rd (ss_end s) (num_bounds s - 1); Some (ss_ptr s + uint sz > e) }
                else Some False);
        (if over then Some (1, s)
         else if num_bounds s < length (ss_start s) \<and> num_bounds s < length (ss_end s)
         then Some (0, s\<lparr>ss_start := (ss_start s)[num_bounds s := ss_ptr s],
                         ss_end := (ss_end s)[num_bounds s := ss_ptr s + uint sz],
                         num_bounds := num_bounds s + 1\<rparr>)
         else None)
      })"

definition sizeStackPtr :: "size_stack \<Rightarrow> int" where
  "sizeStackPtr s = ss_ptr s"

definition sizeStackAdvance :: "size_stack \<Rightarrow> u32 \<Rightarrow> u32 \<Rightarrow> (int \<times> size_stack) option" where
  "sizeStackAdvance s dist space = do {
     over \<leftarrow> (if num_bounds s > 0
             then do { e \<leftarrow> rd (ss_end s) (num_bounds s - 1); Some (ss_ptr s + uint dist + uint space > e) }
             else Some False);
     Some (if over then (1, s) else (0, s\<lparr>ss_ptr := ss_ptr s + uint dist\<rparr>))
   }"

definition sizeStackRewind :: "size_stack \<Rightarrow> u32 \<Rightarrow> u32 \<Rightarrow> (int \<times> size_stack) option" where
  "sizeStackRewind s dist space = do {
     over \<leftarrow> (if num_bounds s > 0
             then do {
               e \<leftarrow> rd (ss_end s) (num_bounds s - 1);
               b \<leftarrow> rd (ss_start s) (num_bounds s - 1);
               Some (ss_ptr s - uint dist + uint space > e \<or> ss_ptr s - uint dist < b)
             }
             else Some False);
     Some (if over then (1, s) else (0, s\<lparr>ss_ptr := ss_ptr s - uint dist\<rparr>))
   }"

subsection \<open>Nesting\<close>

text \<open>The pushed areas are nested, innermost last, and the pointer lies in the innermost.\<close>

definition ss_inv :: "size_stack \<Rightarrow> bool" where
  "ss_inv s \<longleftrightarrow> length (ss_start s) = 32 \<and> length (ss_end s) = 32 \<and> num_bounds s \<le> 32
     \<and> (\<forall>i<num_bounds s. ss_start s ! i \<le> ss_ptr s \<and> ss_ptr s \<le> ss_end s ! i)
     \<and> (\<forall>i j. i \<le> j \<and> j < num_bounds s \<longrightarrow> ss_start s ! i \<le> ss_start s ! j \<and> ss_end s ! j \<le> ss_end s ! i)"

text \<open>The area between the start and end of every bound of the stack.\<close>

definition in_bounds :: "size_stack \<Rightarrow> int \<Rightarrow> int \<Rightarrow> bool" where
  "in_bounds s a b \<longleftrightarrow> (\<forall>i<num_bounds s. ss_start s ! i \<le> a \<and> b \<le> ss_end s ! i)"

lemma sizeStackInit_inv: "sizeStackInit s (Some p) = (rc, s') \<Longrightarrow> rc = 0 \<and> ss_inv s' \<and> num_bounds s' = 0 \<and> ss_ptr s' = p"
  by (auto simp: sizeStackInit_def ss_inv_def)

lemma pop_inv: "ss_inv s \<Longrightarrow> sizeStackPop s = (rc, s') \<Longrightarrow> ss_inv s' \<and> ss_ptr s' = ss_ptr s"
  by (auto simp: sizeStackPop_def ss_inv_def split: if_splits)

lemma last_bound:
  assumes "ss_inv s" and "0 < num_bounds s" and "ss_start s ! (num_bounds s - 1) \<le> a" and "b \<le> ss_end s ! (num_bounds s - 1)"
  shows "in_bounds s a b"
  unfolding in_bounds_def
proof (intro allI impI)
  fix i assume "i < num_bounds s"
  then have "i \<le> num_bounds s - 1" "num_bounds s - 1 < num_bounds s" by auto
  then show "ss_start s ! i \<le> a \<and> b \<le> ss_end s ! i"
    using assms unfolding ss_inv_def by (meson order_trans)
qed

lemma ss_inv_move:
  assumes "ss_inv s" and "in_bounds s a b" and "a \<le> p" and "p \<le> b"
  shows "ss_inv (s\<lparr>ss_ptr := p\<rparr>)"
proof -
  have "ss_start s ! i \<le> p \<and> p \<le> ss_end s ! i" if "i < num_bounds s" for i
    using assms(2-4) that unfolding in_bounds_def by (meson order_trans)
  with assms(1) show ?thesis by (simp add: ss_inv_def)
qed

lemma advance_run:
  assumes "ss_inv s"
  shows "\<exists>rc s'. sizeStackAdvance s dist space = Some (rc, s') \<and> ss_inv s'
    \<and> (rc = 0 \<longrightarrow> s' = s\<lparr>ss_ptr := ss_ptr s + uint dist\<rparr> \<and> in_bounds s (ss_ptr s) (ss_ptr s + uint dist + uint space))
    \<and> (rc \<noteq> 0 \<longrightarrow> s' = s \<and> num_bounds s > 0 \<and> ss_ptr s + uint dist + uint space > ss_end s ! (num_bounds s - 1))"
proof (cases "num_bounds s = 0")
  case True
  with assms show ?thesis by (simp add: sizeStackAdvance_def ss_inv_def in_bounds_def)
next
  case False
  then have r: "rd (ss_end s) (num_bounds s - 1) = Some (ss_end s ! (num_bounds s - 1))"
    and st: "ss_start s ! (num_bounds s - 1) \<le> ss_ptr s"
    using assms by (auto simp: ss_inv_def rd_def)
  show ?thesis
  proof (cases "ss_ptr s + uint dist + uint space > ss_end s ! (num_bounds s - 1)")
    case True
    with False r assms show ?thesis by (simp add: sizeStackAdvance_def)
  next
    case inside: False
    have nn: "0 \<le> uint dist" "0 \<le> uint space" by simp_all
    have b: "in_bounds s (ss_ptr s) (ss_ptr s + uint dist + uint space)"
      using last_bound [OF assms _ st] False inside by simp
    then have "ss_inv (s\<lparr>ss_ptr := ss_ptr s + uint dist\<rparr>)"
      using ss_inv_move [OF assms b] nn by simp
    with False r inside b show ?thesis by (simp add: sizeStackAdvance_def)
  qed
qed

lemma push_run:
  assumes "ss_inv s"
  shows "\<exists>rc s'. sizeStackPush s sz = Some (rc, s') \<and> ss_inv s' \<and> ss_ptr s' = ss_ptr s
    \<and> (rc = 0 \<longrightarrow> num_bounds s' = num_bounds s + 1 \<and> in_bounds s (ss_ptr s) (ss_ptr s + uint sz)
         \<and> ss_start s' ! num_bounds s = ss_ptr s \<and> ss_end s' ! num_bounds s = ss_ptr s + uint sz)
    \<and> (rc \<noteq> 0 \<longrightarrow> s' = s \<and> (num_bounds s = 32 \<or> num_bounds s > 0 \<and> ss_ptr s + uint sz > ss_end s ! (num_bounds s - 1)))"
proof (cases "num_bounds s \<ge> 32")
  case True
  with assms show ?thesis by (auto simp: sizeStackPush_def ss_inv_def)
next
  case False
  note n = False
  show ?thesis
  proof (cases "num_bounds s > 0 \<and> ss_ptr s + uint sz > ss_end s ! (num_bounds s - 1)")
    case True
    with n assms show ?thesis by (auto simp: sizeStackPush_def ss_inv_def rd_def)
  next
    case False
    let ?s = "s\<lparr>ss_start := (ss_start s)[num_bounds s := ss_ptr s],
      ss_end := (ss_end s)[num_bounds s := ss_ptr s + uint sz], num_bounds := num_bounds s + 1\<rparr>"
    have nn: "0 \<le> uint sz" by simp
    have b: "in_bounds s (ss_ptr s) (ss_ptr s + uint sz)"
    proof (cases "num_bounds s = 0")
      case nz: False
      then show ?thesis using last_bound [OF assms, of "ss_ptr s" "ss_ptr s + uint sz"] False assms
        by (simp add: ss_inv_def)
    qed (simp add: in_bounds_def)
    have "ss_inv ?s"
      using assms b n nn unfolding ss_inv_def in_bounds_def
      by (auto simp: nth_list_update less_Suc_eq)
    moreover have "sizeStackPush s sz = Some (0, ?s)"
      using n False assms by (auto simp: sizeStackPush_def ss_inv_def rd_def)
    moreover have "num_bounds s < length (ss_start s)" "num_bounds s < length (ss_end s)"
      using n assms by (simp_all add: ss_inv_def)
    ultimately show ?thesis using b by simp
  qed
qed

lemma rewind_run:
  assumes "ss_inv s"
  shows "\<exists>rc s'. sizeStackRewind s dist space = Some (rc, s') \<and> ss_inv s'
    \<and> (rc = 0 \<longrightarrow> s' = s\<lparr>ss_ptr := ss_ptr s - uint dist\<rparr>
         \<and> in_bounds s (ss_ptr s - uint dist) (max (ss_ptr s) (ss_ptr s - uint dist + uint space)))
    \<and> (rc \<noteq> 0 \<longrightarrow> s' = s \<and> num_bounds s > 0 \<and> (ss_ptr s - uint dist + uint space > ss_end s ! (num_bounds s - 1)
         \<or> ss_ptr s - uint dist < ss_start s ! (num_bounds s - 1)))"
proof (cases "num_bounds s = 0")
  case True
  with assms show ?thesis by (simp add: sizeStackRewind_def ss_inv_def in_bounds_def)
next
  case False
  let ?k = "num_bounds s - 1"
  have r: "rd (ss_end s) ?k = Some (ss_end s ! ?k)" "rd (ss_start s) ?k = Some (ss_start s ! ?k)" "ss_ptr s \<le> ss_end s ! ?k"
    using False assms by (auto simp: ss_inv_def rd_def)
  show ?thesis
  proof (cases "ss_ptr s - uint dist + uint space > ss_end s ! ?k \<or> ss_ptr s - uint dist < ss_start s ! ?k")
    case True
    with False r assms show ?thesis by (auto simp: sizeStackRewind_def)
  next
    case inside: False
    have nn: "0 \<le> uint dist" by simp
    have b: "in_bounds s (ss_ptr s - uint dist) (max (ss_ptr s) (ss_ptr s - uint dist + uint space))"
      using last_bound [OF assms] False inside r(3) by simp
    then have "ss_inv (s\<lparr>ss_ptr := ss_ptr s - uint dist\<rparr>)"
      using ss_inv_move [OF assms b, of "ss_ptr s - uint dist"] nn by (simp add: le_max_iff_disj)
    with False r inside b show ?thesis by (simp add: sizeStackRewind_def)
  qed
qed

subsection \<open>Sequences of operations\<close>

datatype ss_op = Push u32 | Pop | Advance u32 u32 | Rewind u32 u32

fun ss_step :: "ss_op \<Rightarrow> size_stack \<Rightarrow> size_stack option" where
  "ss_step (Push sz) s = map_option snd (sizeStackPush s sz)"
| "ss_step Pop s = Some (snd (sizeStackPop s))"
| "ss_step (Advance dist space) s = map_option snd (sizeStackAdvance s dist space)"
| "ss_step (Rewind dist space) s = map_option snd (sizeStackRewind s dist space)"

fun ss_run :: "ss_op list \<Rightarrow> size_stack \<Rightarrow> size_stack option" where
  "ss_run [] s = Some s"
| "ss_run (p # ps) s = do { s' \<leftarrow> ss_step p s; ss_run ps s' }"

lemma ss_step_inv: "ss_inv s \<Longrightarrow> \<exists>s'. ss_step p s = Some s' \<and> ss_inv s'"
proof (cases p)
  case (Push sz)
  then show "ss_inv s \<Longrightarrow> ?thesis" using push_run [of s sz] by auto
next
  case Pop
  then show "ss_inv s \<Longrightarrow> ?thesis" using pop_inv [of s] by (cases "sizeStackPop s") auto
next
  case (Advance dist space)
  then show "ss_inv s \<Longrightarrow> ?thesis" using advance_run [of s dist space] by auto
next
  case (Rewind dist space)
  then show "ss_inv s \<Longrightarrow> ?thesis" using rewind_run [of s dist space] by auto
qed

lemma ss_run_inv: "ss_inv s \<Longrightarrow> \<exists>s'. ss_run ps s = Some s' \<and> ss_inv s'"
proof (induction ps arbitrary: s)
  case (Cons p ps)
  then show ?case using ss_step_inv [of s p] by fastforce
qed simp

lemma outside_last:
  "0 < num_bounds s \<Longrightarrow> b > ss_end s ! (num_bounds s - 1) \<or> a < ss_start s ! (num_bounds s - 1) \<Longrightarrow> \<not> in_bounds s a b"
  unfolding in_bounds_def by (meson diff_less leD zero_less_one)

lemma push_frame:
  "sizeStackPush s sz = Some (0, s') \<Longrightarrow> i < num_bounds s \<Longrightarrow>
     ss_start s' ! i = ss_start s ! i \<and> ss_end s' ! i = ss_end s ! i"
  by (auto simp: sizeStackPush_def rd_def split: if_splits bind_splits)

text \<open>What each operation answers and leaves, on a stack whose areas are nested around the pointer.\<close>

lemma advance_exact:
  assumes "ss_inv s"
  shows "\<exists>rc s'. sizeStackAdvance s dist space = Some (rc, s')
    \<and> (rc = 0 \<longrightarrow> s' = s\<lparr>ss_ptr := ss_ptr s + uint dist\<rparr> \<and> in_bounds s (ss_ptr s) (ss_ptr s + uint dist + uint space))
    \<and> (rc \<noteq> 0 \<longrightarrow> s' = s \<and> \<not> in_bounds s (ss_ptr s) (ss_ptr s + uint dist + uint space))"
  using advance_run [OF assms, of dist space] outside_last [of s "ss_ptr s + uint dist + uint space"] by blast

lemma rewind_exact:
  assumes "ss_inv s"
  shows "\<exists>rc s'. sizeStackRewind s dist space = Some (rc, s')
    \<and> (rc = 0 \<longrightarrow> s' = s\<lparr>ss_ptr := ss_ptr s - uint dist\<rparr>
         \<and> in_bounds s (ss_ptr s - uint dist) (ss_ptr s - uint dist + uint space))
    \<and> (rc \<noteq> 0 \<longrightarrow> s' = s \<and> \<not> in_bounds s (ss_ptr s - uint dist) (ss_ptr s - uint dist + uint space))"
proof -
  have weaken: "in_bounds s a (max c b) \<Longrightarrow> in_bounds s a b" for a b c by (auto simp: in_bounds_def)
  show ?thesis
    using rewind_run [OF assms, of dist space] weaken
      outside_last [of s "ss_ptr s - uint dist + uint space" "ss_ptr s - uint dist"] by blast
qed

lemma push_exact:
  assumes "ss_inv s"
  shows "\<exists>rc s'. sizeStackPush s sz = Some (rc, s')
    \<and> (rc = 0 \<longrightarrow> num_bounds s' = num_bounds s + 1 \<and> ss_ptr s' = ss_ptr s \<and> in_bounds s (ss_ptr s) (ss_ptr s + uint sz)
         \<and> ss_start s' ! num_bounds s = ss_ptr s \<and> ss_end s' ! num_bounds s = ss_ptr s + uint sz
         \<and> (\<forall>i<num_bounds s. ss_start s' ! i = ss_start s ! i \<and> ss_end s' ! i = ss_end s ! i))
    \<and> (rc \<noteq> 0 \<longrightarrow> s' = s \<and> (num_bounds s = 32 \<or> \<not> in_bounds s (ss_ptr s) (ss_ptr s + uint sz)))"
  using push_run [OF assms, of sz] push_frame [of s sz] outside_last [of s "ss_ptr s + uint sz" "ss_ptr s"] by blast

text \<open>C12: after any sequence of operations on a size stack the pushed areas are nested, the
  pointer lies in all of them, and no array is overrun.  An advance or a rewind succeeds exactly
  when the new pointer and the requested space after it lie in every area, and moves the pointer
  only; a push succeeds exactly when fewer than 32 areas are pushed and the requested one, which
  starts at the pointer and has the requested size, lies in all others, and leaves these and the
  pointer alone; a pop succeeds exactly when there is an area and removes the innermost; a refused
  operation of the four changes nothing.\<close>
theorem size_stack_guards_areas:
  assumes "sizeStackInit s0 (Some p) = (rc0, s1)"
  shows "\<exists>s. ss_run ps s1 = Some s \<and> ss_inv s
    \<and> (\<exists>rc s'. sizeStackAdvance s dist space = Some (rc, s')
         \<and> (rc = 0 \<longrightarrow> s' = s\<lparr>ss_ptr := ss_ptr s + uint dist\<rparr> \<and> in_bounds s (ss_ptr s) (ss_ptr s + uint dist + uint space))
         \<and> (rc \<noteq> 0 \<longrightarrow> s' = s \<and> \<not> in_bounds s (ss_ptr s) (ss_ptr s + uint dist + uint space)))
    \<and> (\<exists>rc s'. sizeStackRewind s dist space = Some (rc, s')
         \<and> (rc = 0 \<longrightarrow> s' = s\<lparr>ss_ptr := ss_ptr s - uint dist\<rparr>
              \<and> in_bounds s (ss_ptr s - uint dist) (ss_ptr s - uint dist + uint space))
         \<and> (rc \<noteq> 0 \<longrightarrow> s' = s \<and> \<not> in_bounds s (ss_ptr s - uint dist) (ss_ptr s - uint dist + uint space)))
    \<and> (\<exists>rc s'. sizeStackPush s dist = Some (rc, s')
         \<and> (rc = 0 \<longrightarrow> num_bounds s' = num_bounds s + 1 \<and> ss_ptr s' = ss_ptr s
              \<and> in_bounds s (ss_ptr s) (ss_ptr s + uint dist)
              \<and> ss_start s' ! num_bounds s = ss_ptr s \<and> ss_end s' ! num_bounds s = ss_ptr s + uint dist
              \<and> (\<forall>i<num_bounds s. ss_start s' ! i = ss_start s ! i \<and> ss_end s' ! i = ss_end s ! i))
         \<and> (rc \<noteq> 0 \<longrightarrow> s' = s \<and> (num_bounds s = 32 \<or> \<not> in_bounds s (ss_ptr s) (ss_ptr s + uint dist))))
    \<and> (if num_bounds s = 0 then sizeStackPop s = (1, s)
       else sizeStackPop s = (0, s\<lparr>num_bounds := num_bounds s - 1\<rparr>))"
proof -
  have "ss_inv s1" using sizeStackInit_inv [OF assms] by blast
  then obtain s where s: "ss_run ps s1 = Some s" "ss_inv s" using ss_run_inv by blast
  have pop: "if num_bounds s = 0 then sizeStackPop s = (1, s)
    else sizeStackPop s = (0, s\<lparr>num_bounds := num_bounds s - 1\<rparr>)"
    by (simp add: sizeStackPop_def)
  show ?thesis
    by (intro exI [of _ s] conjI s advance_exact [OF s(2)] rewind_exact [OF s(2)] push_exact [OF s(2)] pop)
qed

definition empty_stack :: size_stack where
  "empty_stack = \<lparr>num_bounds = 0, ss_start = [], ss_end = [], ss_ptr = 0\<rparr>"

theorem size_stack_guards_areas_witness:
  "\<exists>s. ss_run [Push 10, Advance 4 2, Push 7, Push 6] (snd (sizeStackInit empty_stack (Some 100))) = Some s
     \<and> ss_inv s \<and> num_bounds s = 2"
proof -
  have "ss_run [Push 10, Advance 4 2, Push 7, Push 6] (snd (sizeStackInit empty_stack (Some 100))) =
      Some \<lparr>num_bounds = 2, ss_start = (replicate 32 0)[0 := 100, 1 := 104],
            ss_end = (replicate 32 0)[0 := 110, 1 := 110], ss_ptr = 104\<rparr>"
    by (simp add: sizeStackInit_def sizeStackPush_def sizeStackAdvance_def rd_def)
  with size_stack_guards_areas [of empty_stack 100 0 "snd (sizeStackInit empty_stack (Some 100))" "[Push 10, Advance 4 2, Push 7, Push 6]"]
  show ?thesis by (auto simp: sizeStackInit_def)
qed

end
