(* ===== verification/Pas.thy ===== *)
theory Pas
  imports SecCommon SizeStack
begin

text \<open>
  stream/pas.c: the programme association section.  The parser reads a section buffer of
  \<open>MAX_SEC_SIZE\<close> bytes under the control of a size stack; reads outside the buffer and
  writes outside the allocated array are faults.
\<close>

subsection \<open>The code\<close>

record pas =
  p_version :: u8
  p_current :: u8
  p_section :: u8
  p_last_section :: u8
  p_tsid :: u16
  pa_count :: u16
  pas_arr :: "(u16 \<times> u16) list option"

text \<open>The loop over the programme associations.  The remaining length is a 16 bit number and wraps
  below zero; only the size stack ends the loop then.  \<open>Inl\<close> is the error return.\<close>

partial_function (option) parse_pas_loop ::
  "buffer \<Rightarrow> size_stack \<Rightarrow> u16 \<Rightarrow> nat \<Rightarrow> (u16 \<times> u16) list \<Rightarrow> (int + size_stack \<times> (u16 \<times> u16) list) option" where
  "parse_pas_loop pat s section_length i arr =
     (if section_length > 0 then do {
        let ptr = nat (sizeStackPtr s);
        pnr \<leftarrow> bitsGet pat ptr 0 16;
        pid \<leftarrow> bitsGet pat (ptr + 2) 3 13;
        (r, s) \<leftarrow> sizeStackAdvance s 4 4;
        (if r \<noteq> 0 then Some (Inl 1)
         else if i < length arr
         then parse_pas_loop pat s (section_length - 4) (i + 1) (arr[i := (ucast pnr, ucast pid)])
         else None)
      }
      else Some (Inr (s, arr)))"

text \<open>The uninitialised local variable; its contents are overwritten at once.\<close>

definition blank_stack :: size_stack where
  "blank_stack = \<lparr>num_bounds = 0, ss_start = [], ss_end = [], ss_ptr = 0\<rparr>"

text \<open>From the computation of the count to the end; \<open>ok\<close> says whether the array can be
  allocated.\<close>

definition parse_pas_entries ::
  "bool \<Rightarrow> buffer \<Rightarrow> pas \<Rightarrow> size_stack \<Rightarrow> u16 \<Rightarrow> u64 \<Rightarrow> u64 \<Rightarrow> u64 \<Rightarrow> u8 \<Rightarrow> u8 \<Rightarrow> (int \<times> pas) option" where
  "parse_pas_entries ok pat p s section_length transport_stream_id version_number current_next
       section_number last_section_number =
     (let section_length = section_length - 9;
          p = p\<lparr>pa_count := section_length div 4\<rparr>
      in if pa_count p = 0 then Some (1, p\<lparr>pas_arr := None\<rparr>)
         else if \<not> ok then Some (1, p\<lparr>pas_arr := None\<rparr>)
         else do {
           res \<leftarrow> parse_pas_loop pat s section_length 0 (replicate (unat (pa_count p)) (0, 0));
           (case res of
              Inl e \<Rightarrow> Some (1, p\<lparr>pas_arr := None\<rparr>)
            | Inr (s, arr) \<Rightarrow> do {
                crc \<leftarrow> bitsGet pat (nat (sizeStackPtr s)) 0 32;
                Some (0, p\<lparr>pas_arr := Some arr, p_tsid := ucast transport_stream_id,
                           p_version := ucast version_number, p_current := ucast current_next,
                           p_section := section_number, p_last_section := last_section_number\<rparr>)
              })
         })"

text \<open>The fixed fields behind the length.\<close>

definition parse_pas_fields :: "bool \<Rightarrow> buffer \<Rightarrow> pas \<Rightarrow> size_stack \<Rightarrow> u64 \<Rightarrow> (int \<times> pas) option" where
  "parse_pas_fields ok pat p s section_length = do {
     (r, s) \<leftarrow> sizeStackAdvance s 0 5;
     if r \<noteq> 0 then Some (1, p)
     else do {
       let ptr = nat (sizeStackPtr s);
       transport_stream_id \<leftarrow> bitsGet pat ptr 0 16;
       version_number \<leftarrow> bitsGet pat (ptr + 2) 2 5;
       current_next \<leftarrow> bitsGet pat (ptr + 2) 7 1;
       section_number \<leftarrow> rd pat (ptr + 3);
       last_section_number \<leftarrow> rd pat (ptr + 4);
       (r, s) \<leftarrow> sizeStackAdvance s 5 4;
       if r \<noteq> 0 then Some (1, p)
       else parse_pas_entries ok pat p s (ucast section_length) transport_stream_id version_number
              current_next section_number last_section_number
     }
   }"

definition parse_pas :: "bool \<Rightarrow> buffer \<Rightarrow> pas \<Rightarrow> (int \<times> pas) option" where
  "parse_pas ok pat p = do {
     crc \<leftarrow> secCheckCrc pat;
     if crc \<noteq> 0 then Some (1, p)
     else do {
       let (r, s) = sizeStackInit blank_stack (Some 0);
       (r, s) \<leftarrow> sizeStackPush s (word_of_nat MAX_SEC_SIZE);
       if r \<noteq> 0 then Some (1, p)
       else do {
         (r, s) \<leftarrow> sizeStackAdvance s 1 2;
         if r \<noteq> 0 then Some (1, p)
         else do {
           section_length \<leftarrow> bitsGet pat (nat (sizeStackPtr s)) 4 12;
           (r, s) \<leftarrow> sizeStackAdvance s 2 1;
           if r \<noteq> 0 then Some (1, p)
           else do {
             (r, s) \<leftarrow> sizeStackPush s (ucast section_length);
             if r \<noteq> 0 then Some (1, p)
             else parse_pas_fields ok pat p s section_length
           }
         }
       }
     }
   }"

definition clear_pas :: "pas \<Rightarrow> pas" where
  "clear_pas p = p\<lparr>pas_arr := None, pa_count := 0\<rparr>"

subsection \<open>The size stack during parsing\<close>

text \<open>The section area of 4096 bytes and inside it the \<open>L\<close> bytes behind the length field.\<close>

definition pas_stack :: "nat \<Rightarrow> nat \<Rightarrow> size_stack" where
  "pas_stack L p = \<lparr>num_bounds = 2, ss_start = (replicate 32 0)[0 := 0, 1 := 3],
     ss_end = (replicate 32 0)[0 := 4096, 1 := 3 + int L], ss_ptr = int p\<rparr>"

lemma pas_stack_advance:
  "sizeStackAdvance (pas_stack L p) d n =
     Some (if p + unat d + unat n > 3 + L then (1, pas_stack L p) else (0, pas_stack L (p + unat d)))"
proof -
  have "int p + uint d + uint n > 3 + int L \<longleftrightarrow> p + unat d + unat n > 3 + L"
    using of_nat_less_iff [of "3 + L" "p + unat d + unat n", where 'a = int] by simp
  then show ?thesis by (simp add: pas_stack_def sizeStackAdvance_def rd_def)
qed

lemma pas_stack_ptr [simp]: "sizeStackPtr (pas_stack L p) = int p"
  by (simp add: pas_stack_def sizeStackPtr_def)

text \<open>Programme association \<open>j\<close> of a section.\<close>

definition pas_entry :: "buffer \<Rightarrow> nat \<Rightarrow> u16 \<times> u16" where
  "pas_entry pat j = (ucast (field pat (8 * (8 + 4 * j)) 16), ucast (field pat (8 * (10 + 4 * j) + 3) 13))"

lemma pas_reads:
  assumes "length pat = 4096" and "12 + 4 * i \<le> 4096"
  shows "bitsGet pat (8 + 4 * i) 0 16 = Some (field pat (8 * (8 + 4 * i)) 16)"
    and "bitsGet pat (8 + 4 * i + 2) 3 13 = Some (field pat (8 * (10 + 4 * i) + 3) 13)"
  using bitsGet_eq [of 16 "8 + 4 * i" 0 pat] bitsGet_eq [of 13 "8 + 4 * i + 2" 3 pat] assms
  by simp_all

lemma parse_pas_loop_step:
  assumes "length pat = 4096" and "12 + 4 * i \<le> 4096"
  shows "parse_pas_loop pat (pas_stack L (8 + 4 * i)) sl i arr =
    (if sl > 0
     then if 16 + 4 * i > 3 + L then Some (Inl 1)
          else if i < length arr
          then parse_pas_loop pat (pas_stack L (8 + 4 * (i + 1))) (sl - 4) (i + 1) (arr[i := pas_entry pat i])
          else None
     else Some (Inr (pas_stack L (8 + 4 * i), arr)))"
proof -
  have p: "nat (sizeStackPtr (pas_stack L (8 + 4 * i))) = 8 + 4 * i" "8 + 4 * i + 4 = 8 + 4 * (i + 1)"
    by (simp_all only: pas_stack_ptr nat_int) simp
  have four: "unat (4 :: u32) = 4" by simp
  show ?thesis
    unfolding parse_pas_loop.simps [of pat "pas_stack L (8 + 4 * i)" sl i arr] Let_def p(1)
      pas_reads [OF assms] pas_stack_advance four p(2) bind.bind_lunit pas_entry_def
    by simp
qed

lemma parse_pas_loop_run:
  assumes "length pat = 4096" and "L \<le> 4093" and "9 + 4 * q + r = L" and "r < 4" and "i \<le> q"
  shows "parse_pas_loop pat (pas_stack L (8 + 4 * i)) (word_of_nat (L - 9 - 4 * i)) i
      (map (pas_entry pat) [0..<i] @ replicate (q - i) (0, 0)) =
    Some (if r = 0 then Inr (pas_stack L (8 + 4 * q), map (pas_entry pat) [0..<q]) else Inl 1)"
  using assms(5)
proof (induction "q - i" arbitrary: i)
  case 0
  then have i: "i = q" by simp
  have left: "L - 9 - 4 * i = r" using assms(3) i by simp
  have pos: "(word_of_nat r :: u16) > 0 \<longleftrightarrow> r \<noteq> 0" using assms(4) by (simp add: word_less_nat_alt unat_of_nat)
  have le: "12 + 4 * i \<le> 4096" and "16 + 4 * i > 3 + L" using assms i by auto
  then show ?case
    unfolding left parse_pas_loop_step [OF assms(1) le] pos by (simp add: i)
next
  case (Suc k)
  then have i: "i < q" by simp
  define m where "m = L - 9 - 4 * i"
  have m: "4 \<le> m" "m < 4096" "L - 9 - 4 * (i + 1) = m - 4" using i assms(2,3) by (auto simp: m_def)
  have pos: "(word_of_nat m :: u16) > 0" using m by (simp add: word_less_nat_alt unat_of_nat)
  have dec: "word_of_nat m - 4 = (word_of_nat (m - 4) :: u16)" using m(1) by (simp add: of_nat_diff)
  have arr: "(map (pas_entry pat) [0..<i] @ replicate (q - i) (0, 0))[i := pas_entry pat i] =
      map (pas_entry pat) [0..<i + 1] @ replicate (q - (i + 1)) (0, 0)"
    using i by (simp add: list_update_append Suc_diff_Suc [symmetric, of i q])
  have "12 + 4 * i \<le> 4096" "\<not> 16 + 4 * i > 3 + L" using assms i by auto
  then have "parse_pas_loop pat (pas_stack L (8 + 4 * i)) (word_of_nat m) i
      (map (pas_entry pat) [0..<i] @ replicate (q - i) (0, 0)) =
    parse_pas_loop pat (pas_stack L (8 + 4 * (i + 1))) (word_of_nat (m - 4)) (i + 1)
      (map (pas_entry pat) [0..<i + 1] @ replicate (q - (i + 1)) (0, 0))"
    unfolding parse_pas_loop_step [OF assms(1) \<open>12 + 4 * i \<le> 4096\<close>] using pos i by (simp only: arr dec) simp
  also have "\<dots> = Some (if r = 0 then Inr (pas_stack L (8 + 4 * q), map (pas_entry pat) [0..<q]) else Inl 1)"
    using Suc.hyps(1) [of "i + 1"] Suc.hyps(2) i m(3) by simp
  finally show ?case by (simp add: m_def)
qed

subsection \<open>What the parser accepts and delivers\<close>

definition sec_stack :: "nat \<Rightarrow> size_stack" where
  "sec_stack p = \<lparr>num_bounds = 1, ss_start = (replicate 32 0)[0 := 0], ss_end = (replicate 32 0)[0 := 4096], ss_ptr = int p\<rparr>"

definition fresh_stack :: size_stack where
  "fresh_stack = \<lparr>num_bounds = 0, ss_start = replicate 32 0, ss_end = replicate 32 0, ss_ptr = 0\<rparr>"

lemma sec_stack_init:
  "sizeStackInit blank_stack (Some 0) = (0, fresh_stack)"
  "sizeStackPush fresh_stack (word_of_nat MAX_SEC_SIZE) = Some (0, sec_stack 0)"
  by (simp_all add: sizeStackInit_def sizeStackPush_def sec_stack_def fresh_stack_def MAX_SEC_SIZE_def)

lemma sec_stack_advance:
  "sizeStackAdvance (sec_stack p) d n =
     Some (if p + unat d + unat n > 4096 then (1, sec_stack p) else (0, sec_stack (p + unat d)))"
proof -
  have "int p + uint d + uint n > 4096 \<longleftrightarrow> p + unat d + unat n > 4096"
    using of_nat_less_iff [of 4096 "p + unat d + unat n", where 'a = int] by simp
  then show ?thesis by (simp add: sec_stack_def sizeStackAdvance_def rd_def)
qed

lemma sec_stack_ptr [simp]: "sizeStackPtr (sec_stack p) = int p"
  by (simp add: sec_stack_def sizeStackPtr_def)

lemma sec_stack_push:
  assumes "unat w \<le> 4093"
  shows "sizeStackPush (sec_stack 3) w = Some (0, pas_stack (unat w) 3)"
proof -
  have "uint w \<le> 4093" using of_nat_le_iff [of "unat w" 4093, where 'a = int] assms by simp
  then show ?thesis
    by (simp add: sizeStackPush_def sec_stack_def pas_stack_def rd_def list_update_swap)
qed

abbreviation sec_len :: "buffer \<Rightarrow> nat" where
  "sec_len pat \<equiv> unat (field pat 12 12)"

lemma ucast_len:
  "unat (ucast (field pat 12 12) :: u32) = sec_len pat" "ucast (field pat 12 12) = (word_of_nat (sec_len pat) :: u16)"
proof -
  have "sec_len pat < 2 ^ 12" by (rule field_bound) simp
  then have lt: "sec_len pat < 4096" by simp
  show "unat (ucast (field pat 12 12) :: u32) = sec_len pat"
    using lt by (simp add: unsigned_ucast_eq take_bit_nat_eq_self_iff)
  show "ucast (field pat 12 12) = (word_of_nat (sec_len pat) :: u16)"
    by simp
qed

text \<open>The header fields of an accepted section.\<close>

definition pas_of :: "buffer \<Rightarrow> pas" where
  "pas_of pat = \<lparr>p_version = ucast (field pat 42 5), p_current = ucast (field pat 47 1),
     p_section = pat ! 6, p_last_section = pat ! 7, p_tsid = ucast (field pat 24 16),
     pa_count = word_of_nat ((sec_len pat - 9) div 4),
     pas_arr = Some (map (pas_entry pat) [0..<(sec_len pat - 9) div 4])\<rparr>"

lemma parse_pas_run:
  assumes "length pat = 4096" and "sec_len pat \<le> 4093"
  shows "\<exists>rc p'. parse_pas ok pat p = Some (rc, p')
    \<and> (rc = 0 \<longleftrightarrow> ok \<and> secCheckCrc pat = Some 0 \<and> 13 \<le> sec_len pat \<and> (sec_len pat - 9) mod 4 = 0)
    \<and> (rc = 0 \<longrightarrow> p' = pas_of pat) \<and> (rc \<noteq> 0 \<longrightarrow> rc = 1)"
proof -
  define L where "L = sec_len pat"
  note L = L_def [symmetric]
  obtain c where c: "secCheckCrc pat = Some c" using secCheckCrc_total [OF assms] by blast
  have g: "bitsGet pat 1 4 12 = Some (field pat 12 12)" "bitsGet pat 3 0 16 = Some (field pat 24 16)"
    "bitsGet pat 5 2 5 = Some (field pat 42 5)" "bitsGet pat 5 7 1 = Some (field pat 47 1)"
    "rd pat 6 = Some (pat ! 6)" "rd pat 7 = Some (pat ! 7)"
    using bitsGet_eq [of 12 1 4 pat] bitsGet_eq [of 16 3 0 pat] bitsGet_eq [of 5 5 2 pat] bitsGet_eq [of 1 5 7 pat] assms(1)
    by (simp_all add: rd_def)
  have push: "sizeStackPush (sec_stack 3) (ucast (field pat 12 12)) = Some (0, pas_stack L 3)"
    using sec_stack_push [of "ucast (field pat 12 12)"] assms(2) by (simp only: ucast_len L)
  have head: "parse_pas ok pat p = (if c \<noteq> 0 then Some (1, p) else parse_pas_fields ok pat p (pas_stack L 3) (field pat 12 12))"
    using c g(1) push by (simp add: parse_pas_def sec_stack_init sec_stack_advance numeral_3_eq_3)
  have uc: "ucast (field pat 12 12) = (word_of_nat L :: u16)" by (simp only: ucast_len(2) L)
  have fields: "parse_pas_fields ok pat p (pas_stack L 3) (field pat 12 12) =
      (if L < 9 then Some (1, p)
       else parse_pas_entries ok pat p (pas_stack L 8) (word_of_nat L) (field pat 24 16) (field pat 42 5)
              (field pat 47 1) (pat ! 6) (pat ! 7))"
    using g uc by (simp add: parse_pas_fields_def pas_stack_advance L)
  show ?thesis
  proof (cases "c \<noteq> 0 \<or> L < 13")
    case True
    have "parse_pas_entries ok pat p (pas_stack L 8) (word_of_nat L) t v n sn ln = Some (1, p\<lparr>pa_count := 0, pas_arr := None\<rparr>)"
      if "9 \<le> L" "L < 13" for t v n sn ln
    proof -
      have "word_of_nat L - 9 = (word_of_nat (L - 9) :: u16)" using that by (simp add: of_nat_diff)
      moreover have "(word_of_nat (L - 9) :: u16) div 4 = 0" using that
        by (simp add: word_unat_eq_iff unat_div unat_of_nat del: of_nat_diff)
      ultimately show ?thesis by (simp add: parse_pas_entries_def)
    qed
    with True head fields c show ?thesis by (cases "c \<noteq> 0"; cases "L < 9") (auto simp: L)
  next
    case False
    define q r where "q = (L - 9) div 4" and "r = (L - 9) mod 4"
    have qr: "9 + 4 * q + r = L" "r < 4" "q \<noteq> 0" "q < 1022" using False assms(2) by (auto simp: q_def r_def L)
    have len: "word_of_nat L - 9 = (word_of_nat (L - 9) :: u16)" using False by (simp add: of_nat_diff)
    have cnt: "(word_of_nat (L - 9) :: u16) div 4 = word_of_nat q" "unat (word_of_nat q :: u16) = q"
      using assms(2) qr by (simp_all add: word_unat_eq_iff unat_div unat_of_nat q_def L del: of_nat_diff)
    have nz: "(word_of_nat q :: u16) \<noteq> 0" using cnt(2) qr(3) by auto
    have loop: "parse_pas_loop pat (pas_stack L 8) (word_of_nat (L - 9)) 0 (replicate q (0, 0)) =
        Some (if r = 0 then Inr (pas_stack L (8 + 4 * q), map (pas_entry pat) [0..<q]) else Inl 1)"
      using parse_pas_loop_run [OF assms(1) _ qr(1,2), of 0] assms(2) by (simp add: L)
    have crc: "bitsGet pat (8 + 4 * q) 0 32 = Some (field pat (8 * (8 + 4 * q)) 32)"
      using bitsGet_eq [of 32 "8 + 4 * q" 0 pat] assms(1) qr(4) by simp
    have ent: "parse_pas_entries ok pat p (pas_stack L 8) (word_of_nat L) (field pat 24 16) (field pat 42 5)
        (field pat 47 1) (pat ! 6) (pat ! 7) =
      (if \<not> ok \<or> r \<noteq> 0 then Some (1, p\<lparr>pa_count := word_of_nat q, pas_arr := None\<rparr>) else Some (0, pas_of pat))"
      using nz loop crc by (auto simp: parse_pas_entries_def len cnt pas_of_def Let_def q_def [symmetric] L nat_add_distrib nat_mult_distrib)
    show ?thesis using False head fields ent c by (auto simp: L r_def)
  qed
qed

text \<open>C23: on a section buffer of full size whose length field is at most 4093 the parser reads
  and writes inside its buffers only and always returns.  It accepts exactly the sections with
  a correct CRC and a positive whole number of associations (given memory), although its
  length counter may wrap, and then delivers the fields of the section.\<close>
theorem parse_pas_correct:
  assumes "length pat = 4096" and "sec_len pat \<le> 4093"
  shows "\<exists>rc p'. parse_pas ok pat p = Some (rc, p')
    \<and> (rc = 0 \<longleftrightarrow> ok \<and> secCheckCrc pat = Some 0 \<and> 13 \<le> sec_len pat \<and> (sec_len pat - 9) mod 4 = 0)
    \<and> (rc = 0 \<longrightarrow> p' = pas_of pat) \<and> (rc \<noteq> 0 \<longrightarrow> rc = 1)"
  using parse_pas_run [OF assms] .

abbreviation small_pat :: buffer where
  "small_pat \<equiv> [0x0, 0xb0, 0xd, 0x4, 0x1, 0xc7, 0x0, 0x0, 0x0, 0x2a, 0xe1, 0x0, 0xbd, 0x33, 0xbd, 0xbc] @ replicate 4080 0"

theorem parse_pas_correct_witness:
  "parse_pas True small_pat (clear_pas (pas_of small_pat)) = Some (0, pas_of small_pat)"
proof -
  have len: "field small_pat 12 12 = 13"
    using bitsGet_eq [of 12 1 4 small_pat] by (simp add: sec_eval)
  have "secCheckCrc small_pat = Some 0" by (simp add: sec_eval)
  then show ?thesis
    using parse_pas_correct [of small_pat True "clear_pas (pas_of small_pat)"] len by auto
qed

text \<open>The CRC check does not know the size of the buffer: for the two largest length values it reads
  behind a buffer of \<open>MAX_SEC_SIZE\<close> bytes, before any size constraint is set up.\<close>

text \<open>For a section buffer of \<open>MAX_SEC_SIZE\<close> bytes the CRC check, and so the parser, reads outside
  the buffer exactly when the 12 bit length field is 4094 or 4095, whereas \<open>get_sec_size\<close>
  limits the size to the buffer.\<close>
theorem secCheckCrc_overread:
  assumes "length pat = 4096"
  shows "(secCheckCrc pat = None \<longleftrightarrow> sec_len pat \<ge> 4094)
    \<and> (sec_len pat \<ge> 4094 \<longrightarrow> parse_pas ok pat p = None) \<and> get_sec_size pat = Some (min 4096 (sec_len pat + 3))"
proof -
  have g: "bitsGet pat 1 4 12 = Some (field pat 12 12)"
    using bitsGet_eq [of 12 1 4 pat] assms by simp
  then have "secCheckCrc pat = None \<longleftrightarrow> sec_len pat \<ge> 4094"
    using assms by (auto simp: secCheckCrc_def sec_crc32_def)
  then show ?thesis
    using g by (auto simp: parse_pas_def get_sec_size_def MAX_SEC_SIZE_def Let_def)
qed

theorem secCheckCrc_overread_witness:
  "secCheckCrc (0 # 0xff # 0xff # replicate 4093 0) = None"
proof -
  have "field (0 # 0xff # 0xff # replicate 4093 0) 12 12 = 4095"
    using bitsGet_eq [of 12 1 4 "0 # 0xff # 0xff # replicate 4093 0"] by (simp add: sec_eval)
  then show ?thesis using secCheckCrc_overread [of "0 # 0xff # 0xff # replicate 4093 0"] by simp
qed

end
