(* ===== verification/RcPtr.thy ===== *)
theory RcPtr
  imports Prelude "HOL-Library.Monad_Syntax" "HOL-Library.Multiset"
begin

text \<open>
  common/item_list.c and common/rcptr.c: a cache of equal-sized blocks in front of
  \<open>calloc\<close>, and reference-counted blocks on top of it.  Blocks are named by their
  address.  Allocation is driven by an arbitrary failure pattern: \<open>ok k\<close> says whether the
  \<open>k\<close>-th call of \<open>calloc\<close> succeeds, and the state counts the calls, so that a successful
  call returns an address never returned before.  The cached blocks keep their stale
  content (only \<open>calloc\<close> clears a block), and the list of the cache is the sequence that
  \<open>SLists\<close> shows the linked list to represent.
\<close>

subsection \<open>Block cache\<close>

definition sizeof_SListE :: u32 where
  "sizeof_SListE = 8"

record 'a item_list =
  il_l :: "(nat \<times> 'a) list"
  il_high_water :: u32
  il_count :: u32
  il_size :: u32

definition itemListInit :: "'a item_list \<Rightarrow> u32 \<Rightarrow> u32 \<Rightarrow> int \<times> 'a item_list" where
  "itemListInit l sz high_water =
     (if sz < sizeof_SListE then (1, l)
      else (0, l\<lparr>il_count := 0, il_size := sz, il_high_water := high_water, il_l := []\<rparr>))"

text \<open>The blocks given back to the system are the second component.\<close>

definition itemListClear :: "'a item_list \<Rightarrow> 'a item_list \<times> nat list" where
  "itemListClear l = (l\<lparr>il_l := [], il_count := 0\<rparr>, map fst (il_l l))"

definition itemAcquire :: "(nat \<Rightarrow> bool) \<Rightarrow> 'a \<Rightarrow> 'a item_list \<times> nat \<Rightarrow> (nat \<times> 'a) option \<times> 'a item_list \<times> nat" where
  "itemAcquire ok zero s = (case s of (l, n) \<Rightarrow>
     (case il_l l of
        i # r \<Rightarrow>
          if il_count l = 0 then (None, l, n)
          else (Some i, l\<lparr>il_l := r, il_count := il_count l - 1\<rparr>, n)
      | [] \<Rightarrow> (if ok n then Some (n, zero) else None, l, Suc n)))"

definition itemRelease :: "'a item_list \<Rightarrow> nat \<times> 'a \<Rightarrow> 'a item_list" where
  "itemRelease l i =
     (if il_count l \<ge> il_high_water l then l
      else l\<lparr>il_l := i # il_l l, il_count := il_count l + 1\<rparr>)"

definition il_inv :: "'a item_list \<times> nat \<Rightarrow> bool" where
  "il_inv s = (case s of (l, n) \<Rightarrow>
     unat (il_count l) = length (il_l l) \<and> il_count l \<le> il_high_water l \<and>
     distinct (map fst (il_l l)) \<and> (\<forall>a\<in>set (map fst (il_l l)). a < n))"

subsection \<open>The contract of a block pool\<close>

text \<open>What a user of the cache relies on: a block that is handed out is neither cached
  any more nor a future result of \<open>calloc\<close>, and nothing but a released block enters the
  cache.\<close>

locale block_pool =
  fixes acquire :: "'s \<Rightarrow> (nat \<times> 'a) option \<times> 's"
    and release :: "'s \<Rightarrow> nat \<times> 'a \<Rightarrow> 's"
    and pool_inv :: "'s \<Rightarrow> bool"
    and cached :: "'s \<Rightarrow> nat set"
    and fresh :: "'s \<Rightarrow> nat \<Rightarrow> bool"
  assumes acquire_inv: "pool_inv s \<Longrightarrow> acquire s = (r, s') \<Longrightarrow> pool_inv s'"
    and acquire_from: "pool_inv s \<Longrightarrow> acquire s = (Some (a, x), s') \<Longrightarrow> a \<in> cached s \<or> fresh s a"
    and acquire_gone: "pool_inv s \<Longrightarrow> acquire s = (Some (a, x), s') \<Longrightarrow> a \<notin> cached s' \<and> \<not> fresh s' a"
    and acquire_cached: "pool_inv s \<Longrightarrow> acquire s = (r, s') \<Longrightarrow> cached s' \<subseteq> cached s"
    and acquire_fresh: "pool_inv s \<Longrightarrow> acquire s = (r, s') \<Longrightarrow> fresh s' b \<Longrightarrow> fresh s b"
    and cached_old: "pool_inv s \<Longrightarrow> a \<in> cached s \<Longrightarrow> \<not> fresh s a"
    and release_inv: "pool_inv s \<Longrightarrow> a \<notin> cached s \<Longrightarrow> \<not> fresh s a \<Longrightarrow> pool_inv (release s (a, x))"
    and release_cached: "cached (release s (a, x)) \<subseteq> insert a (cached s)"
    and release_fresh: "fresh (release s (a, x)) b = fresh s b"
begin

text \<open>\<open>out\<close> is the set of blocks in use.\<close>

definition safe :: "'s \<Rightarrow> nat set \<Rightarrow> bool" where
  "safe s out \<longleftrightarrow> pool_inv s \<and> out \<inter> cached s = {} \<and> (\<forall>a\<in>out. \<not> fresh s a)"

lemma safe_acquire:
  assumes "safe s out" "acquire s = (Some (a, x), s')"
  shows "a \<notin> out" "safe s' (insert a out)"
proof -
  show "a \<notin> out"
    using assms acquire_from [OF _ assms(2)] unfolding safe_def by blast
  show "safe s' (insert a out)"
    using assms acquire_inv [OF _ assms(2)] acquire_gone [OF _ assms(2)] acquire_cached [OF _ assms(2)]
      acquire_fresh [OF _ assms(2)]
    unfolding safe_def by blast
qed

lemma safe_acquire_fail: "safe s out \<Longrightarrow> acquire s = (None, s') \<Longrightarrow> safe s' out"
  using acquire_inv acquire_cached acquire_fresh unfolding safe_def by blast

lemma safe_release:
  assumes "safe s out" "a \<in> out"
  shows "safe (release s (a, x)) (out - {a})"
  using assms release_inv [of s a x] release_cached [of s a x] unfolding safe_def
  by (auto simp: release_fresh)

lemma safe_subset: "safe s out \<Longrightarrow> out' \<subseteq> out \<Longrightarrow> safe s out'"
  unfolding safe_def by blast

end

definition il_cached :: "'a item_list \<times> nat \<Rightarrow> nat set" where
  "il_cached s = fst ` set (il_l (fst s))"

definition il_fresh :: "'a item_list \<times> nat \<Rightarrow> nat \<Rightarrow> bool" where
  "il_fresh s a \<longleftrightarrow> snd s \<le> a"

definition il_release :: "'a item_list \<times> nat \<Rightarrow> nat \<times> 'a \<Rightarrow> 'a item_list \<times> nat" where
  "il_release s i = (itemRelease (fst s) i, snd s)"

lemma unat_minus_one: "(w :: u32) \<noteq> 0 \<Longrightarrow> unat (w - 1) = unat w - 1"
  by (simp add: unat_minus_one)

lemma unat_Suc_below: "(w :: u32) < v \<Longrightarrow> unat (w + 1) = Suc (unat w) \<and> w + 1 \<le> v"
  using unsigned_less [of v, where ?'a=nat] by (auto simp: word_less_nat_alt word_le_nat_alt unat_word_ariths)

lemma itemAcquire_il:
  assumes "il_inv (l, n)"
  shows "il_inv (snd (itemAcquire ok z (l, n)))"
proof (cases "il_l l")
  case Nil
  with assms show ?thesis by (simp add: itemAcquire_def il_inv_def)
next
  case (Cons i r)
  moreover from assms Cons have "il_count l \<noteq> 0" by (auto simp: il_inv_def)
  ultimately show ?thesis
    using assms by (auto simp: itemAcquire_def il_inv_def unat_minus_one word_le_nat_alt)
qed

interpretation pool: block_pool "itemAcquire ok z" il_release il_inv il_cached il_fresh
  for ok and z :: 'a
proof unfold_locales
  show "il_inv s \<Longrightarrow> itemAcquire ok z s = (r, s') \<Longrightarrow> il_inv s'" for s r s'
    using itemAcquire_il [of "fst s" "snd s" ok z] by simp
  show "il_inv s \<Longrightarrow> itemAcquire ok z s = (Some (a, x), s') \<Longrightarrow> a \<in> il_cached s \<or> il_fresh s a" for s a x s'
    by (auto simp: itemAcquire_def il_cached_def il_fresh_def split: prod.splits list.splits if_splits)
  show "il_inv s \<Longrightarrow> itemAcquire ok z s = (Some (a, x), s') \<Longrightarrow> a \<notin> il_cached s' \<and> \<not> il_fresh s' a" for s a x s'
    by (auto simp: itemAcquire_def il_cached_def il_fresh_def il_inv_def split: prod.splits list.splits if_splits)
  show "il_inv s \<Longrightarrow> itemAcquire ok z s = (r, s') \<Longrightarrow> il_cached s' \<subseteq> il_cached s" for s r s'
    by (auto simp: itemAcquire_def il_cached_def split: prod.splits list.splits if_splits)
  show "il_inv s \<Longrightarrow> itemAcquire ok z s = (r, s') \<Longrightarrow> il_fresh s' b \<Longrightarrow> il_fresh s b" for s r s' b
    by (auto simp: itemAcquire_def il_fresh_def split: prod.splits list.splits if_splits)
  show "il_inv s \<Longrightarrow> a \<in> il_cached s \<Longrightarrow> \<not> il_fresh s a" for s :: "'a item_list \<times> nat" and a
    by (fastforce simp: il_inv_def il_cached_def il_fresh_def split: prod.splits)
  show "il_inv s \<Longrightarrow> a \<notin> il_cached s \<Longrightarrow> \<not> il_fresh s a \<Longrightarrow> il_inv (il_release s (a, x))"
    for s :: "'a item_list \<times> nat" and a x
    using unat_Suc_below [of "il_count (fst s)" "il_high_water (fst s)"]
    by (auto simp: il_inv_def il_cached_def il_fresh_def il_release_def itemRelease_def not_le split: prod.splits)
  show "il_cached (il_release s (a, x)) \<subseteq> insert a (il_cached s)" for s :: "'a item_list \<times> nat" and a x
    by (auto simp: il_cached_def il_release_def itemRelease_def)
  show "il_fresh (il_release s (a, x)) b = il_fresh s b" for s :: "'a item_list \<times> nat" and a b x
    by (simp add: il_fresh_def il_release_def)
qed

text \<open>A client of the cache: it acquires blocks and gives back blocks it holds.\<close>

datatype 'a il_op = Acquire | Release nat 'a

fun il_exec :: "(nat \<Rightarrow> bool) \<Rightarrow> 'a \<Rightarrow> 'a il_op list \<Rightarrow> ('a item_list \<times> nat) \<times> nat list \<Rightarrow> (('a item_list \<times> nat) \<times> nat list) option" where
  "il_exec ok z [] s = Some s"
| "il_exec ok z (Acquire # ops) (s, out) = (case itemAcquire ok z s of
     (Some (a, x), s') \<Rightarrow> il_exec ok z ops (s', a # out)
   | (None, s') \<Rightarrow> il_exec ok z ops (s', out))"
| "il_exec ok z (Release a x # ops) (s, out) =
     (if a \<in> set out then il_exec ok z ops (il_release s (a, x), remove1 a out) else None)"

lemma il_exec_safe:
  assumes "il_exec ok z ops (s, out) = Some (s', out')" "pool.safe s (set out)" "distinct out"
  shows "pool.safe s' (set out') \<and> distinct out'"
  using assms
proof (induction ops arbitrary: s out)
  case Nil
  then show ?case by simp
next
  case (Cons op ops)
  show ?case
  proof (cases op)
    case Acquire
    obtain r s1 where a: "itemAcquire ok z s = (r, s1)" by (cases "itemAcquire ok z s") auto
    show ?thesis
    proof (cases r)
      case None
      with Cons.prems a Acquire pool.safe_acquire_fail [of s "set out" ok z s1] show ?thesis
        using Cons.IH [of s1 out] by simp
    next
      case (Some ax)
      obtain b x where "r = Some (b, x)" using Some by (cases ax) auto
      with Cons.prems a Acquire pool.safe_acquire [of s "set out" ok z b x s1] show ?thesis
        using Cons.IH [of s1 "b # out"] by simp
    qed
  next
    case (Release b x)
    with Cons.prems pool.safe_release [of s "set out" b x] show ?thesis
      using Cons.IH [of "il_release s (b, x)" "remove1 b out"] by (simp split: if_splits)
  qed
qed

text \<open>The block cache never hands out a block that is still in use, whatever the failure
  pattern of \<open>calloc\<close>: after any sequence of acquisitions and releases of held blocks from
  an initialised cache, the blocks held by the client are pairwise different and none of
  them is in the cache, and the cache counts its blocks correctly and holds at most
  \<open>high_water\<close> of them.\<close>

theorem item_list_never_shares:
  assumes "sizeof_SListE \<le> sz"
    and "il_exec ok z ops ((snd (itemListInit l sz high), 0), []) = Some ((l', n), out)"
  shows "distinct out \<and> set out \<inter> fst ` set (il_l l') = {} \<and> distinct (map fst (il_l l')) \<and>
    unat (il_count l') = length (il_l l') \<and> il_count l' \<le> il_high_water l'"
proof -
  have "il_inv (snd (itemListInit l sz high), 0)"
    using assms(1) by (auto simp: itemListInit_def il_inv_def)
  then have "pool.safe (snd (itemListInit l sz high), 0) (set [])"
    by (simp add: pool.safe_def)
  from il_exec_safe [OF assms(2) this] show ?thesis
    by (auto simp: pool.safe_def il_inv_def il_cached_def)
qed

theorem item_list_never_shares_witness:
  "distinct [3::nat, 2, 0] \<and> set [3, 2, 0] \<inter> fst ` set [(1 :: nat, True)] = {}"
proof -
  let ?l = "\<lparr>il_l = [], il_high_water = 0, il_count = 0, il_size = 0\<rparr> :: bool item_list"
  have "il_exec (\<lambda>_. True) False [Acquire, Acquire, Acquire, Acquire, Release 1 True]
      ((snd (itemListInit ?l 16 1), 0), [])
    = Some ((\<lparr>il_l = [(1, True)], il_high_water = 1, il_count = 1, il_size = 16\<rparr>, 4), [3, 2, 0])"
    by (simp add: itemListInit_def sizeof_SListE_def itemAcquire_def il_release_def itemRelease_def)
  from item_list_never_shares [OF _ this] show ?thesis
    by (simp add: sizeof_SListE_def)
qed

subsection \<open>Reference-counted blocks\<close>

text \<open>\<open>mem\<close> maps the address of a live block (that of its payload) to its header and
  content.  Using the address of a block that has been given back is a fault, \<open>None\<close>.
  \<open>rcptrReleaseIl\<close> aborts on a wrong identifier, which is a fault as well.\<close>

definition RCPTR_ID :: u32 where
  "RCPTR_ID = 0xa32f801b"

record 'a rcblock =
  rc_ctr :: u32
  rc_id :: u32
  rc_body :: 'a

type_synonym 'a rcmem = "nat \<rightharpoonup> 'a rcblock"

definition rcptrMalloc :: "(nat \<Rightarrow> bool) \<Rightarrow> 'a \<Rightarrow> nat \<Rightarrow> 'a rcmem \<Rightarrow> nat option \<times> nat \<times> 'a rcmem" where
  "rcptrMalloc ok zero n mem =
     (if ok n then (Some n, Suc n, mem(n \<mapsto> \<lparr>rc_ctr = 1, rc_id = RCPTR_ID, rc_body = zero\<rparr>))
      else (None, Suc n, mem))"

definition rcptrAcquire :: "'a rcmem \<Rightarrow> nat \<Rightarrow> (int \<times> 'a rcmem) option" where
  "rcptrAcquire mem p = do {
     b \<leftarrow> mem p;
     if rc_id b \<noteq> RCPTR_ID then Some (-1, mem)
     else Some (0, mem(p \<mapsto> b\<lparr>rc_ctr := rc_ctr b + 1\<rparr>))
   }"

definition rcptrRelease :: "'a rcmem \<Rightarrow> nat \<Rightarrow> (int \<times> 'a rcmem) option" where
  "rcptrRelease mem p = do {
     b \<leftarrow> mem p;
     if rc_id b \<noteq> RCPTR_ID \<or> rc_ctr b = 0 then Some (-1, mem)
     else if rc_ctr b - 1 = 0 then Some (1, mem(p := None))
     else Some (0, mem(p \<mapsto> b\<lparr>rc_ctr := rc_ctr b - 1\<rparr>))
   }"

definition rcptrRefcount :: "'a rcmem \<Rightarrow> nat \<Rightarrow> u32 option" where
  "rcptrRefcount mem p = do {
     b \<leftarrow> mem p;
     if rc_id b \<noteq> RCPTR_ID \<or> rc_ctr b = 0 then Some 0 else Some (rc_ctr b)
   }"

definition sizeof_RCPtr :: u32 where
  "sizeof_RCPtr = 8"

definition rcptrListInit :: "'a item_list \<Rightarrow> u32 \<Rightarrow> u32 \<Rightarrow> int \<times> 'a item_list" where
  "rcptrListInit l sz high_water = itemListInit l (sz + sizeof_RCPtr) high_water"

definition rcptrListClear :: "'a item_list \<Rightarrow> 'a item_list \<times> nat list" where
  "rcptrListClear l = itemListClear l"

definition rcptrMallocIl :: "(nat \<Rightarrow> bool) \<Rightarrow> 'a \<Rightarrow> 'a item_list \<times> nat \<Rightarrow> 'a rcmem \<Rightarrow>
    nat option \<times> ('a item_list \<times> nat) \<times> 'a rcmem" where
  "rcptrMallocIl ok zero s mem = (case itemAcquire ok zero s of
     (None, s') \<Rightarrow> (None, s', mem)
   | (Some (p, x), s') \<Rightarrow> (Some p, s', mem(p \<mapsto> \<lparr>rc_ctr = 1, rc_id = RCPTR_ID, rc_body = x\<rparr>)))"

definition rcptrReleaseIl :: "'a item_list \<Rightarrow> 'a rcmem \<Rightarrow> nat \<Rightarrow> (int \<times> 'a item_list \<times> 'a rcmem) option" where
  "rcptrReleaseIl l mem p = do {
     b \<leftarrow> mem p;
     if rc_id b \<noteq> RCPTR_ID then None
     else if rc_ctr b = 0 then Some (-1, l, mem)
     else if rc_ctr b - 1 = 0 then Some (1, itemRelease l (p, rc_body b), mem(p := None))
     else Some (0, l, mem(p \<mapsto> b\<lparr>rc_ctr := rc_ctr b - 1\<rparr>))
   }"

end
