(* ===== verification/PidBuf.thy ===== *)
theory PidBuf
  imports Prelude "HOL-Library.Monad_Syntax"
begin

text \<open>
  stream/pidbuf.c: sets of PIDs kept in heap arrays.  An array is \<open>None\<close> (NULL) or the list
  of its cells; every access is checked, and an access outside the array is the fault
  \<open>None\<close>.  The \<open>m\<close> arguments say whether an allocation of the call succeeds; \<open>utlCalloc\<close> of
  nothing is NULL, and so is \<open>realloc\<close> to size zero.
\<close>

type_synonym pid_array = "u16 list option"

definition utlCalloc16 :: "bool \<Rightarrow> u16 \<Rightarrow> pid_array" where
  "utlCalloc16 m n = (if n = 0 \<or> \<not> m then None else Some (replicate (unat n) 0))"

text \<open>Cells beyond the old size are indeterminate after \<open>realloc\<close>; they are written before
  they are read, and \<open>0\<close> stands for them.\<close>

definition utlRealloc16 :: "bool \<Rightarrow> pid_array \<Rightarrow> nat \<Rightarrow> pid_array" where
  "utlRealloc16 m p n =
     (if n = 0 \<or> \<not> m then None
      else let l = (case p of None \<Rightarrow> [] | Some l \<Rightarrow> l) in Some (take n l @ replicate (n - length l) 0))"

definition wr :: "'a list \<Rightarrow> nat \<Rightarrow> 'a \<Rightarrow> 'a list option" where
  "wr l i x = (if i < length l then Some (l[i := x]) else None)"

subsection \<open>The code\<close>

function contains_loop :: "u16 \<Rightarrow> u16 list \<Rightarrow> nat \<Rightarrow> nat \<Rightarrow> bool option" where
  "contains_loop v l n i =
     (if i < n then case rd l i of
        None \<Rightarrow> None
      | Some x \<Rightarrow> if x = v then Some True else contains_loop v l n (Suc i)
      else Some False)"
  by pat_completeness auto
termination
  by (relation "measure (\<lambda>(v, l, n, i). n - i)") auto

definition pidbufContains :: "u16 \<Rightarrow> pid_array \<Rightarrow> u16 \<Rightarrow> bool option" where
  "pidbufContains v arr n = (case arr of None \<Rightarrow> Some False | Some l \<Rightarrow> contains_loop v l (unat n) 0)"

function merge_loop :: "u16 list option \<Rightarrow> nat \<Rightarrow> nat \<Rightarrow> u16 list \<Rightarrow> u16 \<Rightarrow> (u16 list \<times> u16) option" where
  "merge_loop b nb i rv final_num =
     (if i < nb then
        case (case b of None \<Rightarrow> None | Some l \<Rightarrow> rd l i) of
          None \<Rightarrow> None
        | Some x \<Rightarrow>
            (case pidbufContains x (Some rv) final_num of
               None \<Rightarrow> None
             | Some True \<Rightarrow> merge_loop b nb (Suc i) rv final_num
             | Some False \<Rightarrow>
                 (case wr rv (unat final_num) x of
                    None \<Rightarrow> None
                  | Some rv' \<Rightarrow> merge_loop b nb (Suc i) rv' (final_num + 1)))
      else Some (rv, final_num))"
  by pat_completeness auto
termination
  by (relation "measure (\<lambda>(b, nb, i, rv, fn). nb - i)") auto

text \<open>\<open>memmove\<close> of the first \<open>n\<close> cells of \<open>a\<close> to the front of \<open>rv\<close>.\<close>

definition copy_front :: "pid_array \<Rightarrow> nat \<Rightarrow> u16 list \<Rightarrow> u16 list option" where
  "copy_front a n rv =
     (if n = 0 then Some rv
      else case a of
        None \<Rightarrow> None
      | Some l \<Rightarrow> if n \<le> length l \<and> n \<le> length rv then Some (take n l @ drop n rv) else None)"

text \<open>The result is the returned array and the value of \<open>*num_ret\<close>.\<close>

definition pidbufMergeUniq :: "bool \<Rightarrow> bool \<Rightarrow> pid_array \<Rightarrow> u16 \<Rightarrow> pid_array \<Rightarrow> u16 \<Rightarrow> u16 \<Rightarrow> (pid_array \<times> u16) option" where
  "pidbufMergeUniq m1 m2 a num_a b num_b num_ret =
     (case utlCalloc16 m1 (num_a + num_b) of
        None \<Rightarrow> Some (None, num_ret)
      | Some rv \<Rightarrow> do {
          rv1 \<leftarrow> copy_front a (unat num_a) rv;
          (rv2, final_num) \<leftarrow> merge_loop b (unat num_b) 0 rv1 num_a;
          Some (utlRealloc16 m2 (Some rv2) (unat final_num), final_num)
        })"

text \<open>The results are the returned array, \<open>*pidbuf\<close> and \<open>*num_pids\<close>.\<close>

definition pidbufAddPid :: "bool \<Rightarrow> u16 \<Rightarrow> pid_array \<Rightarrow> u16 \<Rightarrow> (pid_array \<times> pid_array \<times> u16) option" where
  "pidbufAddPid m pid buf num = do {
     c \<leftarrow> pidbufContains pid buf num;
     if c then Some (buf, buf, num)
     else case utlRealloc16 m buf (unat num + 1) of
       None \<Rightarrow> Some (None, buf, num)
     | Some p \<Rightarrow> do { p' \<leftarrow> wr p (unat num) pid; Some (Some p', Some p', num + 1) }
   }"

function rmv_loop :: "u16 \<Rightarrow> pid_array \<Rightarrow> nat \<Rightarrow> nat \<Rightarrow> bool \<Rightarrow> (pid_array \<times> nat \<times> bool) option" where
  "rmv_loop pid buf num i found =
     (if i < num then
        case buf of
          None \<Rightarrow> None
        | Some l \<Rightarrow>
            (case rd l i of
               None \<Rightarrow> None
             | Some x \<Rightarrow>
                 if x = pid then
                   if num \<le> length l
                   then rmv_loop pid (Some (take i l @ take (num - i - 1) (drop (i + 1) l) @ drop (num - 1) l))
                          (num - 1) (Suc i) True
                   else None
                 else rmv_loop pid buf num (Suc i) found)
      else Some (buf, num, found))"
  by pat_completeness auto
termination
  by (relation "measure (\<lambda>(pid, buf, num, i, found). num - i)") auto

definition pidbufRmvPid :: "bool \<Rightarrow> u16 \<Rightarrow> pid_array \<Rightarrow> u16 \<Rightarrow> (pid_array \<times> pid_array \<times> u16) option" where
  "pidbufRmvPid m pid buf num = do {
     (buf2, num2, found) \<leftarrow> rmv_loop pid buf (unat num) 0 False;
     if found then
       let rv = utlRealloc16 m buf2 num2 in Some (rv, rv, of_nat num2)
     else Some (None, buf, num)
   }"

function difference_loop :: "(nat \<Rightarrow> bool) \<Rightarrow> pid_array \<Rightarrow> nat \<Rightarrow> pid_array \<Rightarrow> u16 \<Rightarrow> nat \<Rightarrow> pid_array \<Rightarrow> u16 \<Rightarrow> (pid_array \<times> u16) option" where
  "difference_loop m a na b nb i rv num_rv =
     (if i < na then
        case (case a of None \<Rightarrow> None | Some l \<Rightarrow> rd l i) of
          None \<Rightarrow> None
        | Some x \<Rightarrow>
            (case pidbufContains x b nb of
               None \<Rightarrow> None
             | Some True \<Rightarrow> difference_loop m a na b nb (Suc i) rv num_rv
             | Some False \<Rightarrow>
                 (case pidbufAddPid (m i) x rv num_rv of
                    None \<Rightarrow> None
                  | Some (None, rv', n') \<Rightarrow> Some (rv', n')
                  | Some (Some _, rv', n') \<Rightarrow> difference_loop m a na b nb (Suc i) rv' n'))
      else Some (rv, num_rv))"
  by pat_completeness auto
termination
  by (relation "measure (\<lambda>(m, a, na, b, nb, i, rv, n). na - i)") auto

definition pidbufDifference :: "(nat \<Rightarrow> bool) \<Rightarrow> pid_array \<Rightarrow> u16 \<Rightarrow> pid_array \<Rightarrow> u16 \<Rightarrow> (pid_array \<times> u16) option" where
  "pidbufDifference m a_buf a_sz b_buf b_sz =
     difference_loop m a_buf (if a_buf = None then 0 else unat a_sz)
       b_buf (if b_buf = None then 0 else b_sz) 0 None 0"

definition pidbufDup :: "bool \<Rightarrow> pid_array \<Rightarrow> u16 \<Rightarrow> pid_array option" where
  "pidbufDup m a num_a =
     (case utlCalloc16 m num_a of
        None \<Rightarrow> Some None
      | Some rv \<Rightarrow> do { rv' \<leftarrow> copy_front a (unat num_a) rv; Some (Some rv') })"

subsection \<open>Arrays as sets\<close>

declare contains_loop.simps [simp del] merge_loop.simps [simp del] rmv_loop.simps [simp del]
  difference_loop.simps [simp del]

text \<open>The PIDs an array of the given count holds, and the arrays the code builds: as many
  cells as the count says, no duplicates, NULL for the empty set.\<close>

definition pids_of :: "pid_array \<Rightarrow> u16 list" where
  "pids_of arr = (case arr of None \<Rightarrow> [] | Some l \<Rightarrow> l)"

definition pb_ok :: "pid_array \<Rightarrow> u16 \<Rightarrow> bool" where
  "pb_ok arr n \<longleftrightarrow> length (pids_of arr) = unat n \<and> (arr = None \<longleftrightarrow> n = 0)"

lemma pids_of_simps [simp]: "pids_of None = []" "pids_of (Some l) = l"
  by (simp_all add: pids_of_def)

lemma contains_loop_spec:
  "n \<le> length l \<Longrightarrow> contains_loop v l n i = Some (\<exists>k. i \<le> k \<and> k < n \<and> l ! k = v)"
proof (induction v l n i rule: contains_loop.induct)
  case (1 v l n i)
  show ?case
  proof (cases "i < n")
    case True
    with 1 show ?thesis
      by (subst contains_loop.simps) (auto simp: rd_inside ex_upto_Suc [OF True])
  next
    case False
    then show ?thesis by (subst contains_loop.simps) auto
  qed
qed

lemma pidbufContains_take:
  "unat n \<le> length l \<Longrightarrow> pidbufContains v (Some l) n = Some (v \<in> set (take (unat n) l))"
  by (auto simp: pidbufContains_def contains_loop_spec in_set_conv_nth)

lemma pidbufContains_ok: "pb_ok arr n \<Longrightarrow> pidbufContains v arr n = Some (v \<in> set (pids_of arr))"
  using pidbufContains_take [of n "pids_of arr"]
  by (cases arr) (simp_all add: pb_ok_def, simp add: pidbufContains_def)

lemma pb_ok_empty [simp]: "pb_ok None 0"
  by (simp add: pb_ok_def)

lemma unat_plus_one16: "unat (n :: u16) < 65535 \<Longrightarrow> unat (n + 1) = Suc (unat n)"
  by (simp add: unat_word_ariths)

lemma pidbufAddPid_ok:
  assumes "pb_ok buf n" "unat n < 65535"
  shows "\<exists>buf' n'. pidbufAddPid True pid buf n = Some (buf', buf', n') \<and> buf' \<noteq> None \<and> pb_ok buf' n' \<and>
    pids_of buf' = (if pid \<in> set (pids_of buf) then pids_of buf else pids_of buf @ [pid])"
proof (cases "pid \<in> set (pids_of buf)")
  case True
  then have "buf \<noteq> None" by (cases buf) auto
  with True assms show ?thesis
    by (simp add: pidbufAddPid_def pidbufContains_ok)
next
  case False
  have "n + 1 \<noteq> 0" using unat_plus_one16 [OF assms(2)] by (metis nat.discI unsigned_0)
  with False assms unat_plus_one16 [OF assms(2)] show ?thesis
    by (auto simp: pidbufAddPid_def pidbufContains_ok utlRealloc16_def wr_def pb_ok_def pids_of_def
        list_update_append split: option.splits)
qed

lemma rmv_loop_absent:
  "num \<le> length l \<Longrightarrow> pid \<notin> set (drop i (take num l)) \<Longrightarrow>
   rmv_loop pid (Some l) num i f = Some (Some l, num, f)"
proof (induction "num - i" arbitrary: i)
  case 0
  then show ?case by (subst rmv_loop.simps) auto
next
  case (Suc k)
  then have "drop i (take num l) = l ! i # drop (Suc i) (take num l)"
    by (metis Cons_nth_drop_Suc length_take min.absorb2 nth_take zero_less_Suc zero_less_diff)
  with Suc show ?case by (subst rmv_loop.simps) (auto simp: rd_inside)
qed

lemma rmv_loop_present:
  "num \<le> length l \<Longrightarrow> distinct (take num l) \<Longrightarrow> pid \<in> set (drop i (take num l)) \<Longrightarrow>
   \<exists>l'. rmv_loop pid (Some l) num i f = Some (Some l', num - 1, True) \<and> length l' = length l \<and>
     take (num - 1) l' = remove1 pid (take num l)"
proof (induction "num - i" arbitrary: i)
  case 0
  then show ?case by auto
next
  case (Suc k)
  then have i: "i < num" by auto
  with Suc have d: "drop i (take num l) = l ! i # drop (Suc i) (take num l)"
    by (metis Cons_nth_drop_Suc length_take min.absorb2 nth_take)
  have spl: "take num l = take i l @ l ! i # drop (Suc i) (take num l)"
    by (metis append_take_drop_id d i less_imp_le min.absorb1 take_take)
  show ?case
  proof (cases "l ! i = pid")
    case False
    with Suc d i show ?thesis by (subst rmv_loop.simps) (auto simp: rd_inside)
  next
    case True
    let ?l = "take i l @ take (num - i - 1) (drop (i + 1) l) @ drop (num - 1) l"
    have len: "length ?l = length l" using i Suc.prems by auto
    have tk: "take (num - 1) ?l = take i l @ drop (Suc i) (take num l)"
      using i Suc.prems by (simp add: drop_take)
    have nin: "pid \<notin> set (take i l)" "pid \<notin> set (drop (Suc i) (take num l))"
    proof -
      have "distinct (take i l @ l ! i # drop (Suc i) (take num l))"
        by (subst spl [symmetric]) (fact Suc.prems(2))
      with True show "pid \<notin> set (take i l)" "pid \<notin> set (drop (Suc i) (take num l))" by auto
    qed
    have r: "remove1 pid (take num l) = take (num - 1) ?l"
    proof -
      have "remove1 pid (take i l @ l ! i # drop (Suc i) (take num l)) = take (num - 1) ?l"
        using nin by (simp only: tk) (simp add: remove1_append True)
      then show ?thesis by (simp only: spl [symmetric])
    qed
    have "pid \<notin> set (drop (Suc i) (take (num - 1) ?l))"
      unfolding tk using nin set_drop_subset [of "Suc i" "take i l @ drop (Suc i) (take num l)"]
      by (auto simp del: drop_append drop_drop)
    then have "rmv_loop pid (Some ?l) (num - 1) (Suc i) True = Some (Some ?l, num - 1, True)"
      using len Suc.prems by (intro rmv_loop_absent) auto
    with True i Suc.prems r len show ?thesis
      by (subst rmv_loop.simps) (simp add: rd_inside)
  qed
qed

lemma pidbufRmvPid_ok:
  assumes "pb_ok buf n" "distinct (pids_of buf)"
  shows "\<exists>rv buf' n'. pidbufRmvPid True pid buf n = Some (rv, buf', n') \<and> pb_ok buf' n' \<and>
    pids_of buf' = remove1 pid (pids_of buf) \<and> (pid \<notin> set (pids_of buf) \<longrightarrow> rv = None)"
proof (cases buf)
  case None
  with assms show ?thesis
    by (auto simp: pidbufRmvPid_def pb_ok_def rmv_loop.simps)
next
  case (Some l)
  with assms have l: "length l = unat n" "n \<noteq> 0" by (auto simp: pb_ok_def)
  show ?thesis
  proof (cases "pid \<in> set l")
    case False
    with l assms Some show ?thesis
      by (auto simp: pidbufRmvPid_def rmv_loop_absent remove1_idem)
  next
    case True
    with l assms Some rmv_loop_present [of "unat n" l pid 0 False] obtain l' where
      l': "rmv_loop pid (Some l) (unat n) 0 False = Some (Some l', unat n - 1, True)"
      "length l' = length l" "take (unat n - 1) l' = remove1 pid l" by auto
    have "unat (of_nat (unat n - 1) :: u16) = unat n - 1" "of_nat (unat n - 1) = n - 1"
      using l(2) by (simp_all add: unat_minus_one of_nat_diff Suc_le_eq unat_gt_0)
    moreover from this have "n - 1 = 0 \<longleftrightarrow> unat n \<le> 1"
      by (metis diff_is_0_eq unat_eq_zero)
    ultimately show ?thesis
      using l l' Some by (auto simp: pidbufRmvPid_def utlRealloc16_def pb_ok_def length_remove1 True Let_def)
  qed
qed

definition add_uniq :: "u16 list \<Rightarrow> u16 \<Rightarrow> u16 list" where
  "add_uniq r x = (if x \<in> set r then r else r @ [x])"

lemma set_add_uniq [simp]: "set (add_uniq r x) = insert x (set r)"
  by (auto simp: add_uniq_def)

lemma distinct_add_uniq [simp]: "distinct (add_uniq r x) = distinct r"
  by (auto simp: add_uniq_def)

lemma length_add_uniq: "length (add_uniq r x) \<le> Suc (length r)"
  by (simp add: add_uniq_def)

lemma foldl_add_uniq [simp]:
  "set (foldl add_uniq r xs) = set r \<union> set xs"
  "distinct (foldl add_uniq r xs) = distinct r"
  by (induction xs arbitrary: r) auto

lemma drop_take_step: "i < n \<Longrightarrow> n \<le> length l \<Longrightarrow> drop i (take n l) = l ! i # drop (Suc i) (take n l)"
  by (metis Cons_nth_drop_Suc length_take min.absorb2 nth_take)

lemma merge_loop_spec:
  assumes "nb \<le> length l" "i \<le> nb" "length r = unat fn" "nb - i \<le> length rest"
    "unat fn + (nb - i) < 65536"
  shows "\<exists>r' rest' fn'. merge_loop (Some l) nb i (r @ rest) fn = Some (r' @ rest', fn') \<and>
    r' = foldl add_uniq r (drop i (take nb l)) \<and> length r' = unat fn'"
  using assms
proof (induction "nb - i" arbitrary: i r rest fn)
  case 0
  then show ?case by (subst merge_loop.simps) auto
next
  case (Suc k)
  then have i: "i < nb" by auto
  note d = drop_take_step [OF i Suc.prems(1)]
  have c: "pidbufContains (l ! i) (Some (r @ rest)) fn = Some (l ! i \<in> set r)"
    using Suc.prems(3) by (subst pidbufContains_take) auto
  show ?case
  proof (cases "l ! i \<in> set r")
    case True
    with Suc.hyps(1) [of "Suc i" r fn rest] Suc.hyps(2) Suc.prems i c d show ?thesis
      by (subst merge_loop.simps) (auto simp: rd_inside add_uniq_def)
  next
    case False
    obtain y rest2 where rest: "rest = y # rest2" using Suc.prems(4) i by (cases rest) auto
    have w: "wr (r @ rest) (unat fn) (l ! i) = Some ((r @ [l ! i]) @ rest2)"
      using Suc.prems(3) rest by (simp add: wr_def list_update_append)
    have "unat (fn + 1) = Suc (unat fn)" using Suc.prems(5) i by (intro unat_plus_one16) linarith
    with Suc.hyps(1) [of "Suc i" "r @ [l ! i]" "fn + 1" rest2] Suc.hyps(2) Suc.prems i c d False rest w
    show ?thesis
      by (subst merge_loop.simps) (auto simp: rd_inside add_uniq_def)
  qed
qed

lemma difference_loop_spec:
  assumes "na \<le> length l" "i \<le> na" "na < 65536" "pb_ok rv n" "length (pids_of rv) \<le> i" "pb_ok b nb"
  shows "\<exists>rv' n'. difference_loop (\<lambda>_. True) (Some l) na b nb i rv n = Some (rv', n') \<and> pb_ok rv' n' \<and>
    pids_of rv' = foldl add_uniq (pids_of rv) (filter (\<lambda>x. x \<notin> set (pids_of b)) (drop i (take na l)))"
  using assms
proof (induction "na - i" arbitrary: i rv n)
  case 0
  then show ?case by (subst difference_loop.simps) auto
next
  case (Suc k)
  then have i: "i < na" by auto
  note d = drop_take_step [OF i Suc.prems(1)]
  show ?case
  proof (cases "l ! i \<in> set (pids_of b)")
    case True
    with Suc.hyps(1) [of "Suc i" rv n] Suc.hyps(2) Suc.prems i d show ?thesis
      by (subst difference_loop.simps) (auto simp: rd_inside pidbufContains_ok)
  next
    case False
    have "unat n < 65535" using Suc.prems i by (simp add: pb_ok_def)
    from pidbufAddPid_ok [OF Suc.prems(4) this, of "l ! i"] obtain rv1 n1 where
      a: "pidbufAddPid True (l ! i) rv n = Some (rv1, rv1, n1)" "rv1 \<noteq> None" "pb_ok rv1 n1"
        "pids_of rv1 = add_uniq (pids_of rv) (l ! i)"
      unfolding add_uniq_def by blast
    moreover have "length (pids_of rv1) \<le> Suc i"
      using a(4) length_add_uniq [of "pids_of rv" "l ! i"] Suc.prems(5) by simp
    ultimately show ?thesis
      using Suc.hyps(1) [of "Suc i" rv1 n1] Suc.hyps(2) Suc.prems i d False
      by (subst difference_loop.simps) (auto simp: rd_inside pidbufContains_ok)
  qed
qed

lemma pidbufDifference_ok:
  assumes "pb_ok a na" "pb_ok b nb"
  shows "\<exists>rv n. pidbufDifference (\<lambda>_. True) a na b nb = Some (rv, n) \<and> pb_ok rv n \<and> distinct (pids_of rv) \<and>
    set (pids_of rv) = set (pids_of a) - set (pids_of b)"
proof (cases a)
  case None
  then show ?thesis by (auto simp: pidbufDifference_def difference_loop.simps)
next
  case (Some l)
  have "(if b = None then 0 else nb) = nb" using assms(2) by (simp add: pb_ok_def)
  moreover have "unat na = length l" using assms(1) Some by (simp add: pb_ok_def)
  moreover have "unat na < 65536" using unsigned_less [of na] by simp
  ultimately show ?thesis
    using difference_loop_spec [of "unat na" l 0 None 0 b nb] assms(2) Some
    by (auto simp: pidbufDifference_def)
qed

text \<open>With allocations that may fail: a part of the difference, but always a proper array.\<close>

lemma pidbufAddPid_any:
  assumes "pb_ok rv n" "unat n < 65535"
  shows "\<exists>r rv' n'. pidbufAddPid m x rv n = Some (r, rv', n') \<and> pb_ok rv' n' \<and> length (pids_of rv') \<le> Suc (length (pids_of rv))"
proof (cases m)
  case True
  with pidbufAddPid_ok [OF assms, of x] show ?thesis
    using length_add_uniq [of "pids_of rv" x] by (auto simp: add_uniq_def split: if_splits)
next
  case False
  with assms show ?thesis
    by (auto simp: pidbufAddPid_def pidbufContains_ok utlRealloc16_def Let_def pb_ok_def split: option.splits)
qed

lemma difference_loop_any:
  assumes "na \<le> length l" "i \<le> na" "na < 65536" "pb_ok rv n" "length (pids_of rv) \<le> i" "pb_ok b nb"
  shows "\<exists>rv' n'. difference_loop m (Some l) na b nb i rv n = Some (rv', n') \<and> pb_ok rv' n'"
  using assms
proof (induction "na - i" arbitrary: i rv n)
  case 0
  then show ?case by (subst difference_loop.simps) auto
next
  case (Suc k)
  then have i: "i < na" by auto
  have "unat n < 65535" using Suc.prems i by (simp add: pb_ok_def)
  from pidbufAddPid_any [OF Suc.prems(4) this, of "m i" "l ! i"] obtain r rv1 n1 where
    a: "pidbufAddPid (m i) (l ! i) rv n = Some (r, rv1, n1)" "pb_ok rv1 n1" "length (pids_of rv1) \<le> Suc i"
    using Suc.prems(5) by fastforce
  show ?case
  proof (cases "l ! i \<in> set (pids_of b)")
    case True
    with Suc.hyps(1) [of "Suc i" rv n] Suc.hyps(2) Suc.prems i show ?thesis
      by (subst difference_loop.simps) (auto simp: rd_inside pidbufContains_ok)
  next
    case False
    with Suc.hyps(1) [of "Suc i" rv1 n1] Suc.hyps(2) Suc.prems i a show ?thesis
      by (subst difference_loop.simps) (auto simp: rd_inside pidbufContains_ok split: option.split)
  qed
qed

lemma pidbufDifference_total:
  assumes "pb_ok a na" "pb_ok b nb"
  shows "\<exists>rv n. pidbufDifference m a na b nb = Some (rv, n) \<and> pb_ok rv n"
proof (cases a)
  case None
  then show ?thesis by (auto simp: pidbufDifference_def difference_loop.simps)
next
  case (Some l)
  have "(if b = None then 0 else nb) = nb" using assms(2) by (simp add: pb_ok_def)
  moreover have "unat na = length l" using assms(1) Some by (simp add: pb_ok_def)
  moreover have "unat na < 65536" using unsigned_less [of na] by simp
  ultimately show ?thesis
    using difference_loop_any [of "unat na" l 0 None 0 b nb m] assms(2) Some
    by (auto simp: pidbufDifference_def)
qed

lemma pb_ok_zero: "pb_ok a n \<Longrightarrow> n = 0 \<longleftrightarrow> pids_of a = []"
  unfolding pb_ok_def by (metis length_0_conv unat_eq_zero)

lemma pb_ok_cases: "pb_ok a n \<Longrightarrow> a = None \<and> n = 0 \<or> (\<exists>l. a = Some l \<and> length l = unat n \<and> n \<noteq> 0)"
  by (cases a) (auto simp: pb_ok_def)

lemma copy_front_ok:
  "pb_ok a na \<Longrightarrow> unat na \<le> length rv \<Longrightarrow> copy_front a (unat na) rv = Some (pids_of a @ drop (unat na) rv)"
  by (auto dest!: pb_ok_cases simp: copy_front_def)

lemma merge_loop_ok:
  assumes "pb_ok b nb" "length r = unat fn" "unat nb \<le> length rest" "unat fn + unat nb < 65536"
  shows "\<exists>rest' fn'. merge_loop b (unat nb) 0 (r @ rest) fn = Some (foldl add_uniq r (pids_of b) @ rest', fn') \<and>
    length (foldl add_uniq r (pids_of b)) = unat fn'"
proof (cases b)
  case None
  with assms show ?thesis by (auto simp: merge_loop.simps pb_ok_def)
next
  case (Some l)
  with assms merge_loop_spec [of "unat nb" l 0 r fn rest] show ?thesis
    by (auto simp: pb_ok_def)
qed

lemma pidbufMergeUniq_ok:
  assumes "pb_ok a na" "pb_ok b nb" "unat na + unat nb < 65536" "na + nb \<noteq> 0"
  shows "\<exists>rv n. pidbufMergeUniq True True a na b nb num_ret = Some (rv, n) \<and> pb_ok rv n \<and>
    pids_of rv = foldl add_uniq (pids_of a) (pids_of b)"
proof -
  let ?r = "pids_of a"
  have s: "unat (na + nb) = unat na + unat nb" using assms(3) by (simp add: unat_word_ariths)
  have la: "length ?r = unat na" using assms(1) by (simp add: pb_ok_def)
  have cf: "copy_front a (unat na) (replicate (unat (na + nb)) 0) = Some (?r @ replicate (unat nb) 0)"
    using copy_front_ok [OF assms(1), of "replicate (unat (na + nb)) 0"] by (simp add: s)
  obtain rest fn where ml: "merge_loop b (unat nb) 0 (?r @ replicate (unat nb) 0) na =
      Some (foldl add_uniq ?r (pids_of b) @ rest, fn)" "length (foldl add_uniq ?r (pids_of b)) = unat fn"
    using merge_loop_ok [OF assms(2) la _ assms(3), of "replicate (unat nb) 0"] by auto
  have "foldl add_uniq ?r (pids_of b) \<noteq> []"
  proof
    assume "foldl add_uniq ?r (pids_of b) = []"
    then have "set ?r \<union> set (pids_of b) = {}" by (metis foldl_add_uniq(1) set_empty)
    with assms show False using pb_ok_zero [OF assms(1)] pb_ok_zero [OF assms(2)] by auto
  qed
  with ml(2) have "unat fn \<noteq> 0" by (metis length_0_conv)
  then have "fn \<noteq> 0" by auto
  with cf ml assms(4) \<open>unat fn \<noteq> 0\<close> show ?thesis
    by (auto simp: pidbufMergeUniq_def utlCalloc16_def utlRealloc16_def pb_ok_def)
qed

lemma pidbufDup_ok:
  assumes "pb_ok a n"
  shows "pidbufDup True a n = Some a"
  using pb_ok_cases [OF assms] copy_front_ok [OF assms, of "replicate (unat n) 0"]
  by (auto simp: pidbufDup_def utlCalloc16_def)

subsection \<open>Correctness\<close>

datatype pid_op = AddPid u16 | RmvPid u16

fun pid_exec :: "pid_op list \<Rightarrow> pid_array \<times> u16 \<Rightarrow> (pid_array \<times> u16) option" where
  "pid_exec [] s = Some s"
| "pid_exec (AddPid p # ops) (buf, n) = do {
     (_, buf', n') \<leftarrow> pidbufAddPid True p buf n; pid_exec ops (buf', n') }"
| "pid_exec (RmvPid p # ops) (buf, n) = do {
     (_, buf', n') \<leftarrow> pidbufRmvPid True p buf n; pid_exec ops (buf', n') }"

fun pid_set :: "pid_op list \<Rightarrow> u16 set \<Rightarrow> u16 set" where
  "pid_set [] A = A"
| "pid_set (AddPid p # ops) A = pid_set ops (insert p A)"
| "pid_set (RmvPid p # ops) A = pid_set ops (A - {p})"

lemma pid_exec_ok:
  assumes "pb_ok buf n" "distinct (pids_of buf)" "unat n + length ops < 65536"
  shows "\<exists>buf' n'. pid_exec ops (buf, n) = Some (buf', n') \<and> pb_ok buf' n' \<and> distinct (pids_of buf') \<and>
    set (pids_of buf') = pid_set ops (set (pids_of buf))"
  using assms
proof (induction ops arbitrary: buf n)
  case Nil
  then show ?case by simp
next
  case (Cons op ops)
  show ?case
  proof (cases op)
    case (AddPid p)
    have "unat n < 65535" using Cons.prems(3) by simp
    from pidbufAddPid_ok [OF Cons.prems(1) this, of p] obtain buf1 n1 where
      a: "pidbufAddPid True p buf n = Some (buf1, buf1, n1)" "pb_ok buf1 n1" "pids_of buf1 = add_uniq (pids_of buf) p"
      unfolding add_uniq_def by blast
    then have "unat n1 \<le> Suc (unat n)"
      using length_add_uniq [of "pids_of buf" p] Cons.prems(1) by (simp add: pb_ok_def)
    with Cons.IH [of buf1 n1] a Cons.prems AddPid show ?thesis by simp
  next
    case (RmvPid p)
    from pidbufRmvPid_ok [OF Cons.prems(1,2), of p] obtain rv buf1 n1 where
      r: "pidbufRmvPid True p buf n = Some (rv, buf1, n1)" "pb_ok buf1 n1" "pids_of buf1 = remove1 p (pids_of buf)"
      by blast
    then have "unat n1 \<le> unat n"
      using Cons.prems(1) length_remove1 [of p "pids_of buf"] by (auto simp: pb_ok_def split: if_splits)
    with Cons.IH [of buf1 n1] r Cons.prems RmvPid show ?thesis by simp
  qed
qed

text \<open>C34: With memory available, an array of PIDs built from NULL by any sequence of fewer than
  65536 additions and removals never reads or writes outside its cells and holds exactly
  the PIDs of the corresponding sequence of set insertions and deletions, each once, in as
  many cells as its count says, and is NULL exactly when it is empty.\<close>

theorem pidbuf_implements_set:
  assumes "length ops < 65536"
  shows "\<exists>buf n. pid_exec ops (None, 0) = Some (buf, n) \<and> pb_ok buf n \<and> distinct (pids_of buf) \<and>
    set (pids_of buf) = pid_set ops {}"
  using pid_exec_ok [of None 0 ops] assms by simp

theorem pidbuf_implements_set_witness:
  "\<exists>buf n. pid_exec [AddPid 17, AddPid 5, AddPid 17, RmvPid 17, RmvPid 5] (None, 0) = Some (buf, n) \<and> pb_ok buf n \<and>
    distinct (pids_of buf) \<and> set (pids_of buf) = {}"
proof -
  have "pid_set [AddPid 17, AddPid 5, AddPid 17, RmvPid 17, RmvPid 5] {} = {}" by auto
  with pidbuf_implements_set [of "[AddPid 17, AddPid 5, AddPid 17, RmvPid 17, RmvPid 5]"] show ?thesis
    by (simp del: pid_exec.simps pid_set.simps)
qed

text \<open>The difference of two PID arrays and the merge of two PID arrays (of together fewer
  than 65536 entries) are computed without an out-of-bounds access and give the set
  difference and the set union; the difference has no duplicates, and the merge has none
  when its first argument has none.\<close>

theorem pidbuf_set_operations:
  assumes "pb_ok a na" "pb_ok b nb" "unat na + unat nb < 65536" "a \<noteq> None \<or> b \<noteq> None"
  shows "(\<exists>d nd. pidbufDifference (\<lambda>_. True) a na b nb = Some (d, nd) \<and> pb_ok d nd \<and> distinct (pids_of d) \<and>
      set (pids_of d) = set (pids_of a) - set (pids_of b)) \<and>
    (\<exists>u nu. pidbufMergeUniq True True a na b nb num_ret = Some (u, nu) \<and> pb_ok u nu \<and>
      set (pids_of u) = set (pids_of a) \<union> set (pids_of b) \<and> (distinct (pids_of u) \<longleftrightarrow> distinct (pids_of a)))"
proof -
  have "unat (na + nb) = unat na + unat nb" using assms(3) by (simp add: unat_word_ariths)
  with assms have "na + nb \<noteq> 0"
    by (metis add_is_0 pb_ok_def unat_eq_zero)
  from pidbufMergeUniq_ok [OF assms(1,2,3) this, of num_ret] pidbufDifference_ok [OF assms(1,2)]
  show ?thesis by auto
qed

theorem pidbuf_set_operations_witness:
  "(\<exists>d nd. pidbufDifference (\<lambda>_. True) (Some [1, 2, 1, 3]) 4 (Some [2]) 1 = Some (d, nd) \<and> pb_ok d nd \<and>
      distinct (pids_of d) \<and> set (pids_of d) = {1, 3}) \<and>
   (\<exists>u nu. pidbufMergeUniq True True (Some [1, 2, 1, 3]) 4 (Some [2]) 1 0 = Some (u, nu) \<and> pb_ok u nu \<and>
      set (pids_of u) = {1, 2, 3} \<and> \<not> distinct (pids_of u))"
proof -
  have p: "pb_ok (Some [1, 2, 1, 3]) 4" "pb_ok (Some [2]) 1" by (simp_all add: pb_ok_def)
  have s: "{1, 2, 1, 3 :: u16} - {2} = {1, 3}" "{1, 2, 1, 3 :: u16} \<union> {2} = {1, 2, 3}" by auto
  show ?thesis
    using pidbuf_set_operations [OF p, where num_ret = 0] s by simp
qed

end
