(* ===== verification/Selector.thy ===== *)
theory Selector
  imports RcPtr PidBuf TrnStrm
begin

text \<open>
  stream/selector.c: the demultiplexer.  Transport stream packets and events live in
  reference-counted blocks; every output port owns a queue of pointers to them.  The ports
  list and the queues are the sequences that \<open>DLists\<close> and \<open>SLists\<close> show the linked lists to
  represent; a queue entry is the address of its \<open>SelE\<close> block and the block it points to.
  Every operation runs under the selector's mutex, so an interleaving of threads is a
  sequence of whole operations.  Callbacks are an output log: a packet-synchronous port is
  handed its reference, and the frontend is told which PIDs to add and remove.
\<close>

subsection \<open>State\<close>

record selbuf =
  sb_type :: u32
  sb_data :: buffer

definition zero_buf :: selbuf where
  "zero_buf = \<lparr>sb_type = 0, sb_data = replicate TS_LEN 0\<rparr>"

record sel_port =
  num_pids :: u16
  pids :: pid_array
  q :: "(nat \<times> nat) list"
  is_sync :: bool

record selector =
  ports :: "(nat \<times> sel_port) list"
  payload :: "selbuf item_list"
  elements :: "unit item_list"
  num_buffers :: u32
  limit :: u32
  mem :: "selbuf rcmem"
  callocs :: nat

datatype sel_call = PacketHere nat nat | PidChange "u16 list" "u16 list"

definition set_q :: "nat \<Rightarrow> ((nat \<times> nat) list \<Rightarrow> (nat \<times> nat) list) \<Rightarrow> selector \<Rightarrow> selector" where
  "set_q k f d = d\<lparr>ports := map (\<lambda>(k', p). (k', if k' = k then p\<lparr>q := f (q p)\<rparr> else p)) (ports d)\<rparr>"

definition set_pids :: "nat \<Rightarrow> u16 \<Rightarrow> pid_array \<Rightarrow> selector \<Rightarrow> selector" where
  "set_pids k n a d = d\<lparr>ports := map (\<lambda>(k', p). (k', if k' = k then p\<lparr>num_pids := n, pids := a\<rparr> else p)) (ports d)\<rparr>"

text \<open>The cells a loop over \<open>port->pids[0..num_pids)\<close> reads.\<close>

definition port_pids :: "sel_port \<Rightarrow> u16 list option" where
  "port_pids p =
     (if num_pids p = 0 then Some []
      else case pids p of
        None \<Rightarrow> None
      | Some l \<Rightarrow> if unat (num_pids p) \<le> length l then Some (take (unat (num_pids p)) l) else None)"

subsection \<open>Elements\<close>

definition sizeof_SelBuf :: u32 where
  "sizeof_SelBuf = 192"

definition sizeof_SelE :: u32 where
  "sizeof_SelE = 16"

definition blank_list :: "'a item_list" where
  "blank_list = \<lparr>il_l = [], il_high_water = 0, il_count = 0, il_size = 0\<rparr>"

definition selectorInit :: "nat \<Rightarrow> u32 \<Rightarrow> selector" where
  "selectorInit n lim =
     \<lparr>ports = [], payload = snd (rcptrListInit blank_list sizeof_SelBuf lim),
      elements = snd (itemListInit blank_list sizeof_SelE (3 * lim)),
      num_buffers = 0, limit = lim, mem = Map.empty, callocs = n\<rparr>"

definition selector_release_element_internal :: "selector \<Rightarrow> nat \<Rightarrow> selector option" where
  "selector_release_element_internal d p = do {
     (r, l, m) \<leftarrow> rcptrReleaseIl (payload d) (mem d) p;
     Some (d\<lparr>payload := l, mem := m, num_buffers := (if r = 1 then num_buffers d - 1 else num_buffers d)\<rparr>)
   }"

definition selector_read_element_internal :: "selector \<Rightarrow> nat \<Rightarrow> (selector \<times> nat option) option" where
  "selector_read_element_internal d k = do {
     prt \<leftarrow> map_of (ports d) k;
     (case q prt of
        [] \<Rightarrow> Some (d, None)
      | (e, rv) # _ \<Rightarrow> Some ((set_q k tl d)\<lparr>elements := itemRelease (elements d) (e, ())\<rparr>, Some rv))
   }"

definition selectorDataAvail :: "selector \<Rightarrow> nat option \<Rightarrow> bool option" where
  "selectorDataAvail d port = (case port of
     None \<Rightarrow> Some False
   | Some k \<Rightarrow> do { prt \<leftarrow> map_of (ports d) k; Some (q prt \<noteq> []) })"

definition selectorAllocElementUnsafe :: "(nat \<Rightarrow> bool) \<Rightarrow> selector \<Rightarrow> selector \<times> nat option" where
  "selectorAllocElementUnsafe ok d =
     (if num_buffers d \<ge> limit d then (d, None)
      else case rcptrMallocIl ok zero_buf (payload d, callocs d) (mem d) of
        (rv, (l, n), m) \<Rightarrow>
          (d\<lparr>payload := l, callocs := n, mem := m,
             num_buffers := (if rv = None then num_buffers d else num_buffers d + 1)\<rparr>, rv))"

definition selectorReadElementUnsafe :: "selector \<Rightarrow> nat option \<Rightarrow> (selector \<times> nat option) option" where
  "selectorReadElementUnsafe d port = (case port of
     None \<Rightarrow> Some (d, None)
   | Some k \<Rightarrow> selector_read_element_internal d k)"

definition selectorReleaseElementUnsafe :: "selector \<Rightarrow> nat \<Rightarrow> selector option" where
  "selectorReleaseElementUnsafe d p = selector_release_element_internal d p"

definition selectorIsEmpty :: "selector \<Rightarrow> bool" where
  "selectorIsEmpty d \<longleftrightarrow> num_buffers d = 0"

subsection \<open>Feeding\<close>

definition buf_packet_here :: "(nat \<Rightarrow> bool) \<Rightarrow> selector \<Rightarrow> nat \<Rightarrow> nat \<Rightarrow> selector option" where
  "buf_packet_here ok d k p =
     (case itemAcquire ok () (elements d, callocs d) of
        (None, _) \<Rightarrow> None
      | (Some (e, _), (l, n)) \<Rightarrow> Some ((set_q k (\<lambda>xs. xs @ [(e, p)]) d)\<lparr>elements := l, callocs := n\<rparr>))"

definition selector_queue_element :: "(nat \<Rightarrow> bool) \<Rightarrow> selector \<Rightarrow> nat \<times> sel_port \<Rightarrow> nat \<Rightarrow> (selector \<times> sel_call list) option" where
  "selector_queue_element ok d port p = do {
     (_, m) \<leftarrow> rcptrAcquire (mem d) p;
     (if is_sync (snd port) then Some (d\<lparr>mem := m\<rparr>, [PacketHere (fst port) p])
      else do { d' \<leftarrow> buf_packet_here ok (d\<lparr>mem := m\<rparr>) (fst port) p; Some (d', []) })
   }"

fun feed_pids :: "(nat \<Rightarrow> bool) \<Rightarrow> nat \<Rightarrow> u16 \<Rightarrow> nat \<times> sel_port \<Rightarrow> u16 list \<Rightarrow> selector \<Rightarrow> (selector \<times> sel_call list) option" where
  "feed_pids ok p pid port [] d = Some (d, [])"
| "feed_pids ok p pid port (x # xs) d =
     (if x = pid then do {
        (d1, c1) \<leftarrow> selector_queue_element ok d port p;
        (d2, c2) \<leftarrow> feed_pids ok p pid port xs d1;
        Some (d2, c1 @ c2) }
      else feed_pids ok p pid port xs d)"

fun feed_ports :: "(nat \<Rightarrow> bool) \<Rightarrow> nat \<Rightarrow> u16 \<Rightarrow> bool \<Rightarrow> (nat \<times> sel_port) list \<Rightarrow> selector \<Rightarrow> (selector \<times> sel_call list) option" where
  "feed_ports ok p pid evt [] d = Some (d, [])"
| "feed_ports ok p pid evt (port # r) d = do {
     (d1, c1) \<leftarrow> (if evt then selector_queue_element ok d port p
                 else do { xs \<leftarrow> port_pids (snd port); feed_pids ok p pid port xs d });
     (d2, c2) \<leftarrow> feed_ports ok p pid evt r d1;
     Some (d2, c1 @ c2)
   }"

definition selectorFeedUnsafe :: "(nat \<Rightarrow> bool) \<Rightarrow> selector \<Rightarrow> nat \<Rightarrow> (selector \<times> sel_call list) option" where
  "selectorFeedUnsafe ok d p = do {
     b \<leftarrow> mem d p;
     pid \<leftarrow> tsGetPid (sb_data (rc_body b));
     (d1, c) \<leftarrow> feed_ports ok p pid (sb_type (rc_body b) \<noteq> 0) (ports d) d;
     d2 \<leftarrow> selector_release_element_internal d1 p;
     Some (d2, c)
   }"

definition sizeof_DvbEvtD :: nat where
  "sizeof_DvbEvtD = 168"

text \<open>The event overlays the packet: its identifier is the first four bytes (little endian),
  its data the bytes after them.\<close>

definition evt_bytes :: "u8 \<Rightarrow> buffer option \<Rightarrow> nat \<Rightarrow> buffer \<Rightarrow> buffer option" where
  "evt_bytes evt e sz old =
     (let w = [evt, 0, 0, 0] @ drop 4 old in
      case e of
        None \<Rightarrow> Some w
      | Some bs \<Rightarrow> if sz \<le> length bs then Some (take 4 w @ take sz bs @ drop (4 + sz) w) else None)"

text \<open>\<open>ok\<close> tells which allocations of blocks succeed, \<open>oke\<close> which of queue entries.\<close>

definition selectorSndEvt :: "(nat \<Rightarrow> bool) \<Rightarrow> (nat \<Rightarrow> bool) \<Rightarrow> selector \<Rightarrow> u8 \<Rightarrow> buffer option \<Rightarrow> nat \<Rightarrow> (int \<times> selector \<times> sel_call list) option" where
  "selectorSndEvt ok oke b evt e sz =
     (if sz > sizeof_DvbEvtD then Some (1, b, [])
      else case rcptrMallocIl ok zero_buf (payload b, callocs b) (mem b) of
        (None, (l, n), m) \<Rightarrow> Some (1, b\<lparr>payload := l, callocs := n, mem := m\<rparr>, [])
      | (Some p, (l, n), m) \<Rightarrow> do {
          blk \<leftarrow> m p;
          bytes \<leftarrow> evt_bytes evt e sz (sb_data (rc_body blk));
          (d, c) \<leftarrow> selectorFeedUnsafe oke
             (b\<lparr>payload := l, callocs := n, num_buffers := num_buffers b + 1,
                mem := m(p \<mapsto> blk\<lparr>rc_body := \<lparr>sb_type = 1, sb_data = bytes\<rparr>\<rparr>)\<rparr>) p;
          Some (0, d, c)
        })"

subsection \<open>Ports\<close>

definition selectorAddPortSyncUnsafe :: "(nat \<Rightarrow> bool) \<Rightarrow> selector \<Rightarrow> bool \<Rightarrow> selector \<times> nat option" where
  "selectorAddPortSyncUnsafe ok d sync =
     (let n = callocs d in
      if ok n then
        (d\<lparr>callocs := Suc n, ports := (n, \<lparr>num_pids = 0, pids = None, q = [], is_sync = sync\<rparr>) # ports d\<rparr>, Some n)
      else (d\<lparr>callocs := Suc n\<rparr>, None))"

definition selectorAddPortUnsafe :: "(nat \<Rightarrow> bool) \<Rightarrow> selector \<Rightarrow> selector \<times> nat option" where
  "selectorAddPortUnsafe ok d = selectorAddPortSyncUnsafe ok d False"

text \<open>The loop collecting the PIDs of all ports.  \<open>m c\<close> says whether the array can be
  (re)allocated with capacity \<open>c\<close>; the capacity is a \<open>uint16_t\<close>, and growing it beyond 32768
  would wrap to \<open>0\<close> and free the array twice, a fault.  \<open>Inl ()\<close> is the early return on
  allocation failure.\<close>

fun get_pids_port :: "(u16 \<Rightarrow> bool) \<Rightarrow> u16 list \<Rightarrow> u16 list \<times> u16 \<times> u16 \<Rightarrow> (unit + u16 list \<times> u16 \<times> u16) option" where
  "get_pids_port m [] s = Some (Inr s)"
| "get_pids_port m (x # xs) (rv, ctr, cap) = do {
     c \<leftarrow> pidbufContains x (Some rv) ctr;
     (if c then get_pids_port m xs (rv, ctr, cap)
      else if ctr \<ge> cap then
        (if cap * 2 = 0 then None
         else if \<not> m (cap * 2) then Some (Inl ())
         else get_pids_port m xs (rv @ [x], ctr + 1, cap * 2))
      else get_pids_port m xs (rv @ [x], ctr + 1, cap))
   }"

fun get_pids_ports :: "(u16 \<Rightarrow> bool) \<Rightarrow> (nat \<times> sel_port) list \<Rightarrow> u16 list \<times> u16 \<times> u16 \<Rightarrow> (unit + u16 list \<times> u16 \<times> u16) option" where
  "get_pids_ports m [] s = Some (Inr s)"
| "get_pids_ports m ((k, prt) # r) s = do {
     xs \<leftarrow> port_pids prt;
     x \<leftarrow> get_pids_port m xs s;
     (case x of Inl _ \<Rightarrow> Some (Inl ()) | Inr s' \<Rightarrow> get_pids_ports m r s')
   }"

text \<open>The array and \<open>*num_ret\<close>, which keeps its old value on failure.\<close>

definition selector_get_pids_internal :: "(u16 \<Rightarrow> bool) \<Rightarrow> selector \<Rightarrow> u16 \<Rightarrow> (pid_array \<times> u16) option" where
  "selector_get_pids_internal m b num_ret =
     (if \<not> m 128 then Some (None, num_ret)
      else do {
        x \<leftarrow> get_pids_ports m (ports b) ([], 0, 128);
        (case x of
           Inl _ \<Rightarrow> Some (None, num_ret)
         | Inr (rv, ctr, _) \<Rightarrow> Some (if ctr = 0 then None else Some rv, ctr))
      })"

text \<open>Removing the stale entries of a queue: the loops of \<open>selPortRSU\<close> and
  \<open>selector_port_remove_packets\<close>, with their condition as the argument \<open>stale\<close>.\<close>

fun prune :: "(selbuf \<Rightarrow> bool option) \<Rightarrow> (nat \<times> nat) list \<Rightarrow> selector \<Rightarrow> (selector \<times> (nat \<times> nat) list) option" where
  "prune stale [] d = Some (d, [])"
| "prune stale ((e, p) # r) d = do {
     b \<leftarrow> mem d p;
     s \<leftarrow> stale (rc_body b);
     (if s then do {
        d1 \<leftarrow> selector_release_element_internal d p;
        prune stale r (d1\<lparr>elements := itemRelease (elements d1) (e, ())\<rparr>) }
      else do { (d1, keep) \<leftarrow> prune stale r d; Some (d1, (e, p) # keep) })
   }"

definition stale_pid :: "sel_port \<Rightarrow> selbuf \<Rightarrow> bool option" where
  "stale_pid prt b =
     (if sb_type b \<noteq> 0 then Some False
      else do { pid \<leftarrow> tsGetPid (sb_data b); c \<leftarrow> pidbufContains pid (pids prt) (num_pids prt); Some (\<not> c) })"

definition selPortRSU :: "selector \<Rightarrow> nat \<Rightarrow> selector option" where
  "selPortRSU d k = do {
     prt \<leftarrow> map_of (ports d) k;
     (d1, keep) \<leftarrow> prune (stale_pid prt) (q prt) d;
     Some (set_q k (\<lambda>_. keep) d1)
   }"

definition selector_port_remove_packets :: "selector \<Rightarrow> nat \<Rightarrow> selector option" where
  "selector_port_remove_packets d k = do {
     prt \<leftarrow> map_of (ports d) k;
     (d1, keep) \<leftarrow> prune (\<lambda>b. Some (sb_type b = 0)) (q prt) d;
     Some (set_q k (\<lambda>_. keep) d1)
   }"

fun reinit_loop :: "nat list \<Rightarrow> selector \<Rightarrow> selector option" where
  "reinit_loop [] d = Some d"
| "reinit_loop (k # ks) d = do {
     d1 \<leftarrow> selector_port_remove_packets d k;
     reinit_loop ks (set_pids k 0 None d1)
   }"

definition selectorReinit :: "selector \<Rightarrow> selector option" where
  "selectorReinit d = reinit_loop (map fst (ports d)) d"

text \<open>The frontend is told about the difference of the selected PIDs before and after.  \<open>m 0\<close> and
  \<open>m 1\<close> are the allocations of the arrays of PIDs before and after, \<open>md 0\<close> and \<open>md 1\<close> those of the
  PIDs to remove and to add, \<open>mdup\<close> the copy of the port's own array.\<close>

definition pid_change_calls :: "(nat \<Rightarrow> nat \<Rightarrow> bool) \<Rightarrow> pid_array \<times> u16 \<Rightarrow> pid_array \<times> u16 \<Rightarrow> sel_call list option" where
  "pid_change_calls md before after = do {
     (rmv, sz_rmv) \<leftarrow> pidbufDifference (md 0) (fst before) (snd before) (fst after) (snd after);
     (add, sz_add) \<leftarrow> pidbufDifference (md 1) (fst after) (snd after) (fst before) (snd before);
     Some (if sz_add \<noteq> 0 \<or> sz_rmv \<noteq> 0 then [PidChange (pids_of add) (pids_of rmv)] else [])
   }"

definition selectorModPortUnsafe :: "(nat \<Rightarrow> u16 \<Rightarrow> bool) \<Rightarrow> bool \<Rightarrow> (nat \<Rightarrow> nat \<Rightarrow> bool) \<Rightarrow> selector \<Rightarrow> nat option \<Rightarrow> u16 \<Rightarrow> pid_array \<Rightarrow>
    (int \<times> selector \<times> sel_call list) option" where
  "selectorModPortUnsafe m mdup md d port n_pids ps = (case port of
     None \<Rightarrow> Some (1, d, [])
   | Some k \<Rightarrow> do {
       _ \<leftarrow> map_of (ports d) k;
       before \<leftarrow> selector_get_pids_internal (m 0) d 0;
       d1 \<leftarrow> (if n_pids = 0 \<or> ps = None then Some (set_pids k 0 None d)
              else do { a \<leftarrow> pidbufDup mdup ps n_pids; Some (set_pids k n_pids a d) });
       after \<leftarrow> selector_get_pids_internal (m 1) d1 0;
       calls \<leftarrow> pid_change_calls md before after;
       d2 \<leftarrow> (if calls \<noteq> [] then selPortRSU d1 k else Some d1);
       Some (0, d2, calls)
     })"

fun drain :: "(nat \<times> nat) list \<Rightarrow> selector \<Rightarrow> selector option" where
  "drain [] d = Some d"
| "drain ((e, p) # r) d = do {
     d1 \<leftarrow> selector_release_element_internal (d\<lparr>elements := itemRelease (elements d) (e, ())\<rparr>) p;
     drain r d1
   }"

definition selectorRemovePort :: "(nat \<Rightarrow> u16 \<Rightarrow> bool) \<Rightarrow> (nat \<Rightarrow> nat \<Rightarrow> bool) \<Rightarrow> selector \<Rightarrow> nat option \<Rightarrow> (int \<times> selector \<times> sel_call list) option" where
  "selectorRemovePort m md s port = (case port of
     None \<Rightarrow> Some (1, s, [])
   | Some k \<Rightarrow> do {
       prt \<leftarrow> map_of (ports s) k;
       before \<leftarrow> selector_get_pids_internal (m 0) s 0;
       s1 \<leftarrow> drain (q prt) s;
       let s2 = s1\<lparr>ports := filter (\<lambda>x. fst x \<noteq> k) (ports s1)\<rparr>;
       after \<leftarrow> selector_get_pids_internal (m 1) s2 0;
       calls \<leftarrow> pid_change_calls md before after;
       Some (0, s2, calls)
     })"

text \<open>Copies of the selected PIDs for the caller.\<close>

definition selectorGetPids :: "(u16 \<Rightarrow> bool) \<Rightarrow> selector \<Rightarrow> u16 \<Rightarrow> (pid_array \<times> u16) option" where
  "selectorGetPids m b num_ret = selector_get_pids_internal m b num_ret"

definition selectorPortGetPids :: "bool \<Rightarrow> selector \<Rightarrow> nat \<Rightarrow> (pid_array \<times> u16) option" where
  "selectorPortGetPids m d k = do {
     prt \<leftarrow> map_of (ports d) k;
     (case utlCalloc16 m (num_pids prt) of
        None \<Rightarrow> Some (None, num_pids prt)
      | Some rv \<Rightarrow> do {
          rv' \<leftarrow> copy_front (pids prt) (unat (num_pids prt)) rv;
          Some (Some rv', num_pids prt) })
   }"

subsection \<open>Tear-down\<close>

fun clear_ports :: "(nat \<Rightarrow> u16 \<Rightarrow> bool) \<Rightarrow> (nat \<Rightarrow> nat \<Rightarrow> bool) \<Rightarrow> nat list \<Rightarrow> selector \<Rightarrow> (selector \<times> sel_call list) option" where
  "clear_ports m md [] d = Some (d, [])"
| "clear_ports m md (k # ks) d = do {
     (_, d1, c1) \<leftarrow> selectorRemovePort m md d (Some k);
     (d2, c2) \<leftarrow> clear_ports m md ks d1;
     Some (d2, c1 @ c2)
   }"

text \<open>The blocks given back to the system, the notifications and the blocks still live are the
  result; the selector itself is overwritten with zeros.\<close>

definition selectorClear :: "(nat \<Rightarrow> u16 \<Rightarrow> bool) \<Rightarrow> (nat \<Rightarrow> nat \<Rightarrow> bool) \<Rightarrow> selector \<Rightarrow> (nat list \<times> sel_call list \<times> selbuf rcmem) option" where
  "selectorClear m md d = do {
     (d1, c) \<leftarrow> clear_ports m md (map fst (ports d)) d;
     Some (snd (itemListClear (elements d1)) @ snd (rcptrListClear (payload d1)), c, mem d1)
   }"

end
