(* ===== verification/SelectorInv.thy ===== *)
theory SelectorInv
  imports Selector
begin

text \<open>
  The correctness of the demultiplexer of \<open>Selector\<close>: an invariant that relates the reference
  counts, the queues, the block caches and the PID arrays, one lemma per operation, and the
  properties of whole runs, of feeding and of changing a port.
\<close>

subsection \<open>Invariant\<close>

text \<open>\<open>R\<close> is the multiset of all references to blocks: a block is live exactly when there is
  a reference to it, and its counter is the number of references.\<close>

fun blk_ok :: "selbuf rcblock option \<Rightarrow> nat \<Rightarrow> bool" where
  "blk_ok None n \<longleftrightarrow> n = 0"
| "blk_ok (Some b) n \<longleftrightarrow>
     0 < n \<and> rc_id b = RCPTR_ID \<and> unat (rc_ctr b) = n \<and> length (sb_data (rc_body b)) = TS_LEN"

definition ref_inv :: "selector \<Rightarrow> nat multiset \<Rightarrow> bool" where
  "ref_inv d R \<longleftrightarrow>
     pool.safe (payload d, callocs d) (dom (mem d)) \<and>
     (\<forall>p. blk_ok (mem d p) (count R p)) \<and>
     unat (num_buffers d) = card (dom (mem d)) \<and>
     (\<forall>i\<in>set (il_l (payload d)). length (sb_data (snd i)) = TS_LEN)"

lemma ref_inv_dom: "ref_inv d R \<Longrightarrow> dom (mem d) = set_mset R"
proof (rule set_eqI)
  fix p assume "ref_inv d R"
  then have "blk_ok (mem d p) (count R p)" by (simp add: ref_inv_def)
  then show "p \<in> dom (mem d) \<longleftrightarrow> p \<in> set_mset R"
    by (cases "mem d p") (auto simp: count_greater_zero_iff count_eq_zero_iff)
qed

lemma safe_later: "pool.safe (l, n) S \<Longrightarrow> n \<le> n' \<Longrightarrow> pool.safe (l, n') S"
  by (fastforce simp: pool.safe_def il_inv_def il_cached_def il_fresh_def)

lemma card_less_size: "card (set_mset R) \<le> size R"
  by (metis card_mono finite_set_mset mset_set_set_mset_msubset size_mset_mono size_mset_set)

lemma ref_inv_live:
  assumes "ref_inv d R" "p \<in># R"
  obtains b where "mem d p = Some b" "rc_id b = RCPTR_ID" "unat (rc_ctr b) = count R p" "rc_ctr b \<noteq> 0"
    "length (sb_data (rc_body b)) = TS_LEN"
proof -
  from assms have "blk_ok (mem d p) (count R p)" "0 < count R p" by (simp_all add: ref_inv_def)
  then show thesis
    by (cases "mem d p") (auto intro!: that simp: count_eq_zero_iff)
qed

lemma release_run:
  assumes "ref_inv d R" "p \<in># R"
  shows "\<exists>pl m n. selector_release_element_internal d p = Some (d\<lparr>payload := pl, mem := m, num_buffers := n\<rparr>) \<and>
    ref_inv (d\<lparr>payload := pl, mem := m, num_buffers := n\<rparr>) (R - {#p#}) \<and>
    (\<forall>p'. p' \<in># R - {#p#} \<longrightarrow> map_option rc_body (m p') = map_option rc_body (mem d p'))"
proof -
  from assms obtain b where b: "mem d p = Some b" "rc_id b = RCPTR_ID" "unat (rc_ctr b) = count R p" "rc_ctr b \<noteq> 0"
    "length (sb_data (rc_body b)) = TS_LEN"
    by (rule ref_inv_live)
  have other: "blk_ok (mem d p') (count (R - {#p#}) p')" if "p' \<noteq> p" for p'
    using assms(1) that by (simp add: ref_inv_def)
  have u: "unat (rc_ctr b - 1) = count R p - 1"
    using b by (simp add: unat_minus_one)
  show ?thesis
  proof (cases "rc_ctr b - 1 = 0")
    case True
    then have c: "count R p = 1" using u b(3,4) by (metis diff_0_eq_0 diff_add_cancel eq_iff_diff_eq_0 unsigned_1)
    have notin: "p \<notin># R - {#p#}" using c by (simp add: not_in_iff)
    have s: "pool.safe (il_release (payload d, callocs d) (p, rc_body b)) (dom (mem d) - {p})"
      using assms(1) b(1) by (intro pool.safe_release) (auto simp: ref_inv_def)
    have n0: "num_buffers d \<noteq> 0"
      using assms ref_inv_dom [OF assms(1)] by (auto simp: ref_inv_def)
    have "dom ((mem d)(p := None)) = dom (mem d) - {p}" by auto
    moreover have "card (dom (mem d) - {p}) = card (dom (mem d)) - 1"
      using b(1) ref_inv_dom [OF assms(1)] by (intro card_Diff_singleton) auto
    ultimately have "ref_inv (d\<lparr>payload := itemRelease (payload d) (p, rc_body b), mem := (mem d)(p := None),
        num_buffers := num_buffers d - 1\<rparr>) (R - {#p#})"
      using assms(1) s n0 other c b(5)
      by (auto simp: ref_inv_def il_release_def itemRelease_def unat_minus_one)
    moreover have "selector_release_element_internal d p = Some (d\<lparr>payload := itemRelease (payload d) (p, rc_body b),
        mem := (mem d)(p := None), num_buffers := num_buffers d - 1\<rparr>)"
      using True b by (simp add: selector_release_element_internal_def rcptrReleaseIl_def)
    moreover have "\<forall>p'. p' \<in># R - {#p#} \<longrightarrow> map_option rc_body (((mem d)(p := None)) p') = map_option rc_body (mem d p')"
      using notin by auto
    ultimately show ?thesis by blast
  next
    case False
    have c: "count R p > 1" using False u b(3) by (metis One_nat_def Suc_lessI assms(2) count_greater_zero_iff diff_Suc_1 unat_eq_zero)
    have "dom ((mem d)(p \<mapsto> b\<lparr>rc_ctr := rc_ctr b - 1\<rparr>)) = dom (mem d)" using b(1) by auto
    then have "ref_inv (d\<lparr>payload := payload d, mem := (mem d)(p \<mapsto> b\<lparr>rc_ctr := rc_ctr b - 1\<rparr>),
        num_buffers := num_buffers d\<rparr>) (R - {#p#})"
      using assms(1) other c b u by (auto simp: ref_inv_def)
    moreover have "selector_release_element_internal d p = Some (d\<lparr>payload := payload d,
        mem := (mem d)(p \<mapsto> b\<lparr>rc_ctr := rc_ctr b - 1\<rparr>), num_buffers := num_buffers d\<rparr>)"
      using False b by (simp add: selector_release_element_internal_def rcptrReleaseIl_def)
    moreover have "\<forall>p'. p' \<in># R - {#p#} \<longrightarrow>
        map_option rc_body (((mem d)(p \<mapsto> b\<lparr>rc_ctr := rc_ctr b - 1\<rparr>)) p') = map_option rc_body (mem d p')"
      using b by auto
    ultimately show ?thesis by blast
  qed
qed

lemma acquire_run:
  assumes "ref_inv d R" "p \<in># R" "size R < 2 ^ 32 - 1"
  shows "\<exists>m. rcptrAcquire (mem d) p = Some (0, m) \<and> ref_inv (d\<lparr>mem := m\<rparr>) (add_mset p R) \<and>
    (\<forall>p'. map_option rc_body (m p') = map_option rc_body (mem d p'))"
proof -
  from assms(1,2) obtain b where b: "mem d p = Some b" "rc_id b = RCPTR_ID" "unat (rc_ctr b) = count R p" "rc_ctr b \<noteq> 0"
    "length (sb_data (rc_body b)) = TS_LEN"
    by (rule ref_inv_live)
  have "count R p \<le> size R" by (rule count_le_size)
  then have u: "unat (rc_ctr b + 1) = Suc (count R p)"
    using assms(3) b(3) by (simp add: unat_word_ariths)
  have "dom ((mem d)(p \<mapsto> b\<lparr>rc_ctr := rc_ctr b + 1\<rparr>)) = dom (mem d)" using b(1) by auto
  then have "ref_inv (d\<lparr>mem := (mem d)(p \<mapsto> b\<lparr>rc_ctr := rc_ctr b + 1\<rparr>)\<rparr>) (add_mset p R)"
    using assms(1) b u by (auto simp: ref_inv_def)
  with b show ?thesis by (auto simp: rcptrAcquire_def)
qed

lemma malloc_run:
  assumes "ref_inv d R" "size R < 2 ^ 32 - 1"
    "rcptrMallocIl ok zero_buf (payload d, callocs d) (mem d) = (rv, (l, n), m)"
  shows "callocs d \<le> n"
    and "rv = None \<Longrightarrow> (\<exists>k. \<not> ok k) \<and> ref_inv (d\<lparr>payload := l, callocs := n, mem := m\<rparr>) R"
    and "rv = Some p \<Longrightarrow> p \<notin># R \<and> m p \<noteq> None \<and> (\<forall>p'. p' \<noteq> p \<longrightarrow> m p' = mem d p') \<and>
      ref_inv (d\<lparr>payload := l, callocs := n, mem := m, num_buffers := num_buffers d + 1\<rparr>) (add_mset p R)"
proof -
  obtain r where a: "itemAcquire ok zero_buf (payload d, callocs d) = (r, (l, n))"
    using assms(3) by (auto simp: rcptrMallocIl_def split: prod.splits option.splits)
  have s: "pool.safe (payload d, callocs d) (dom (mem d))" using assms(1) by (simp add: ref_inv_def)
  show "callocs d \<le> n"
    using a by (auto simp: itemAcquire_def split: list.splits if_splits)
  have len: "\<forall>i\<in>set (il_l l). length (sb_data (snd i)) = TS_LEN"
    using a assms(1) by (auto simp: itemAcquire_def ref_inv_def split: list.splits if_splits)
  { assume "rv = None"
    then have r: "r = None" "m = mem d"
      using assms(3) a by (auto simp: rcptrMallocIl_def split: option.splits)
    have "\<exists>k. \<not> ok k"
      using a r s by (auto simp: itemAcquire_def pool.safe_def il_inv_def split: list.splits if_splits)
    moreover have "pool.safe (l, n) (dom (mem d))"
      using pool.safe_acquire_fail [OF s] a r by simp
    ultimately show "(\<exists>k. \<not> ok k) \<and> ref_inv (d\<lparr>payload := l, callocs := n, mem := m\<rparr>) R"
      using assms(1) r len by (simp add: ref_inv_def) }
  { assume rv: "rv = Some p"
    then obtain x where r: "r = Some (p, x)" "m = (mem d)(p \<mapsto> \<lparr>rc_ctr = 1, rc_id = RCPTR_ID, rc_body = x\<rparr>)"
      using assms(3) a by (auto simp: rcptrMallocIl_def split: option.splits)
    have sa: "p \<notin> dom (mem d)" "pool.safe (l, n) (insert p (dom (mem d)))"
      using pool.safe_acquire [OF s] a r by auto
    then have p: "p \<notin># R" using ref_inv_dom [OF assms(1)] by simp
    have x: "length (sb_data x) = TS_LEN"
      using a r assms(1) by (auto simp: itemAcquire_def ref_inv_def zero_buf_def split: list.splits if_splits)
    have "unat (num_buffers d) \<le> size R"
      using assms(1) ref_inv_dom [OF assms(1)] card_less_size [of R] by (simp add: ref_inv_def)
    then have "unat (num_buffers d + 1) = Suc (unat (num_buffers d))"
      using assms(2) by (simp add: unat_word_ariths)
    moreover have "card (insert p (dom (mem d))) = Suc (card (dom (mem d)))"
      using sa(1) ref_inv_dom [OF assms(1)] by simp
    moreover have "count R p = 0" using p by (simp add: not_in_iff)
    ultimately show "p \<notin># R \<and> m p \<noteq> None \<and> (\<forall>p'. p' \<noteq> p \<longrightarrow> m p' = mem d p') \<and>
      ref_inv (d\<lparr>payload := l, callocs := n, mem := m, num_buffers := num_buffers d + 1\<rparr>) (add_mset p R)"
      using assms(1) r sa p x len by (auto simp: ref_inv_def) }
qed

subsection \<open>Ports and queues\<close>

definition qblocks :: "selector \<Rightarrow> nat list" where
  "qblocks d = concat (map (\<lambda>x. map fst (q (snd x))) (ports d))"

definition qrefs :: "selector \<Rightarrow> nat multiset" where
  "qrefs d = mset (concat (map (\<lambda>x. map snd (q (snd x))) (ports d)))"

abbreviation refs :: "selector \<Rightarrow> nat multiset \<Rightarrow> nat multiset" where
  "refs d H \<equiv> qrefs d + H"

text \<open>What is promised about the ports: their addresses are distinct, no queue entry is used
  twice or cached, and their PID arrays are well formed and hold 13-bit PIDs.\<close>

definition pids_ok :: "sel_port \<Rightarrow> bool" where
  "pids_ok prt \<longleftrightarrow> pb_ok (pids prt) (num_pids prt) \<and> (\<forall>x\<in>set (pids_of (pids prt)). unat x < 8192)"

definition port_inv :: "selector \<Rightarrow> bool" where
  "port_inv d \<longleftrightarrow>
     distinct (map fst (ports d)) \<and> (\<forall>x\<in>set (ports d). fst x < callocs d) \<and>
     pool.safe (elements d, callocs d) (set (qblocks d)) \<and> distinct (qblocks d) \<and>
     (\<forall>x\<in>set (ports d). pids_ok (snd x))"

definition sel_inv :: "selector \<Rightarrow> nat multiset \<Rightarrow> bool" where
  "sel_inv d H \<longleftrightarrow> ref_inv d (refs d H) \<and> port_inv d"

text \<open>The observable content of the ports.\<close>

type_synonym port_view = "nat \<times> u16 \<times> pid_array \<times> bool \<times> nat list"

definition view_of :: "(nat \<times> sel_port) list \<Rightarrow> port_view list" where
  "view_of ps = map (\<lambda>x. (fst x, num_pids (snd x), pids (snd x), is_sync (snd x), map snd (q (snd x)))) ps"

abbreviation view :: "selector \<Rightarrow> port_view list" where
  "view d \<equiv> view_of (ports d)"

definition deliver :: "nat \<Rightarrow> nat \<Rightarrow> nat \<Rightarrow> port_view list \<Rightarrow> port_view list" where
  "deliver k n p v = map (\<lambda>(k', num, ps, s, Q). (k', num, ps, s, if k' = k \<and> \<not> s then Q @ replicate n p else Q)) v"

lemma view_of_simps [simp]:
  "view_of [] = []" "view_of (A @ B) = view_of A @ view_of B"
  "view_of ((k, x) # B) = (k, num_pids x, pids x, is_sync x, map snd (q x)) # view_of B"
  by (simp_all add: view_of_def)

lemma deliver_simps [simp]:
  "deliver k n p [] = []" "deliver k n p (v @ w) = deliver k n p v @ deliver k n p w"
  "deliver k n p ((k', num, ps, s, Q) # v) =
    (k', num, ps, s, if k' = k \<and> \<not> s then Q @ replicate n p else Q) # deliver k n p v"
  by (simp_all add: deliver_def)

definition calls_refs :: "sel_call list \<Rightarrow> nat multiset" where
  "calls_refs c = mset (concat (map (\<lambda>x. case x of PacketHere _ p \<Rightarrow> [p] | PidChange _ _ \<Rightarrow> []) c))"

lemma calls_refs_simps [simp]:
  "calls_refs [] = {#}" "calls_refs (PacketHere k p # c) = add_mset p (calls_refs c)"
  "calls_refs (PidChange a r # c) = calls_refs c" "calls_refs (c1 @ c2) = calls_refs c1 + calls_refs c2"
  by (simp_all add: calls_refs_def)

lemma deliver_deliver: "deliver k n p (deliver k m p v) = deliver k (m + n) p v"
  by (auto simp: deliver_def replicate_add simp flip: replicate_add)

lemma deliver_zero [simp]: "deliver k 0 p v = v"
  by (auto simp: deliver_def intro!: map_idI)

lemma ports_split:
  assumes "distinct (map fst ps)" "map_of ps k = Some p"
  obtains A B where "ps = A @ (k, p) # B" "k \<notin> fst ` set A" "k \<notin> fst ` set B"
proof -
  from assms(2) have "(k, p) \<in> set ps" by (rule map_of_SomeD)
  then obtain A B where "ps = A @ (k, p) # B" by (meson split_list)
  with assms(1) show thesis by (auto intro!: that)
qed

lemma upd_absent: "k \<notin> fst ` set A \<Longrightarrow> map (\<lambda>(k', p). (k', if k' = k then f p else p)) A = A"
  by (rule map_idI) (auto simp: image_iff split: prod.splits)

lemma set_q_split:
  assumes "ports d = A @ (k, p) # B" "k \<notin> fst ` set A" "k \<notin> fst ` set B"
  shows "set_q k f d = d\<lparr>ports := A @ (k, p\<lparr>q := f (q p)\<rparr>) # B\<rparr>"
  using assms by (simp add: set_q_def upd_absent)

lemma set_pids_split:
  assumes "ports d = A @ (k, p) # B" "k \<notin> fst ` set A" "k \<notin> fst ` set B"
  shows "set_pids k n a d = d\<lparr>ports := A @ (k, p\<lparr>num_pids := n, pids := a\<rparr>) # B\<rparr>"
  using assms by (simp add: set_pids_def upd_absent)

lemma qblocks_append: "ports d = A @ (k, p) # B \<Longrightarrow>
    qblocks d = concat (map (\<lambda>x. map fst (q (snd x))) A) @ map fst (q p) @ concat (map (\<lambda>x. map fst (q (snd x))) B)"
  by (simp add: qblocks_def)

lemma qrefs_append: "ports d = A @ (k, p) # B \<Longrightarrow>
    qrefs d = mset (concat (map (\<lambda>x. map snd (q (snd x))) A)) + mset (map snd (q p)) +
      mset (concat (map (\<lambda>x. map snd (q (snd x))) B))"
  by (simp add: qrefs_def)

lemma deliver_absent: "k \<notin> fst ` set A \<Longrightarrow> deliver k n p (view_of A) = view_of A"
  by (induction A) (auto simp: view_of_def deliver_def)

lemma ref_inv_ports [simp]:
  "ref_inv (d\<lparr>ports := x\<rparr>) R = ref_inv d R" "ref_inv (d\<lparr>elements := e\<rparr>) R = ref_inv d R"
  by (simp_all add: ref_inv_def)

lemma ref_inv_callocs: "ref_inv d R \<Longrightarrow> callocs d \<le> n \<Longrightarrow> ref_inv (d\<lparr>callocs := n\<rparr>) R"
  by (auto simp: ref_inv_def intro: safe_later)

lemma port_inv_mem [simp]:
  "port_inv (d\<lparr>mem := m\<rparr>) = port_inv d" "port_inv (d\<lparr>payload := l\<rparr>) = port_inv d"
  "port_inv (d\<lparr>num_buffers := n\<rparr>) = port_inv d"
  by (simp_all add: port_inv_def qblocks_def)

lemma port_inv_callocs: "port_inv d \<Longrightarrow> callocs d \<le> n \<Longrightarrow> port_inv (d\<lparr>callocs := n\<rparr>)"
  by (fastforce simp: port_inv_def qblocks_def intro: safe_later)

lemma qrefs_frame [simp]:
  "qrefs (d\<lparr>mem := m\<rparr>) = qrefs d" "qrefs (d\<lparr>payload := l\<rparr>) = qrefs d" "qrefs (d\<lparr>elements := e\<rparr>) = qrefs d"
  "qrefs (d\<lparr>num_buffers := n\<rparr>) = qrefs d" "qrefs (d\<lparr>callocs := c\<rparr>) = qrefs d"
  by (simp_all add: qrefs_def)

text \<open>Replacing the content of one port.\<close>

lemma port_inv_upd:
  assumes "port_inv d" "ports d = A @ (k, prt) # B" "pids_ok prt'" "callocs d \<le> n"
    "pool.safe (l, n) (set (qblocks (d\<lparr>ports := A @ (k, prt') # B\<rparr>)))" "distinct (qblocks (d\<lparr>ports := A @ (k, prt') # B\<rparr>))"
  shows "port_inv (d\<lparr>ports := A @ (k, prt') # B, elements := l, callocs := n\<rparr>)"
proof -
  have "\<forall>x\<in>set (ports d). fst x < n" using assms(1,4) unfolding port_inv_def by (meson less_le_trans)
  moreover have "qblocks (d\<lparr>ports := A @ (k, prt') # B, elements := l, callocs := n\<rparr>) =
      qblocks (d\<lparr>ports := A @ (k, prt') # B\<rparr>)" by (simp add: qblocks_def)
  ultimately show ?thesis using assms by (simp add: port_inv_def)
qed

lemma pids_ok_q [simp]: "pids_ok (prt\<lparr>q := x\<rparr>) = pids_ok prt"
  by (simp add: pids_ok_def)

text \<open>Putting an entry at the end of a queue.\<close>

lemma buf_packet_run:
  assumes "port_inv d" "map_of (ports d) k = Some prt" "\<not> is_sync prt"
  shows "case buf_packet_here ok d k p of
      None \<Rightarrow> \<exists>n. \<not> ok n
    | Some d' \<Rightarrow> \<exists>ps l n. d' = d\<lparr>ports := ps, elements := l, callocs := n\<rparr> \<and> callocs d \<le> n \<and> port_inv d' \<and>
        qrefs d' = add_mset p (qrefs d) \<and> view d' = deliver k 1 p (view d)"
proof -
  from assms(1) have dk: "distinct (map fst (ports d))" by (simp add: port_inv_def)
  from ports_split [OF dk assms(2)] obtain A B where
    spl: "ports d = A @ (k, prt) # B" "k \<notin> fst ` set A" "k \<notin> fst ` set B" by metis
  obtain r l n where a: "itemAcquire ok () (elements d, callocs d) = (r, (l, n))"
    by (cases "itemAcquire ok () (elements d, callocs d)") auto
  have s: "pool.safe (elements d, callocs d) (set (qblocks d))" using assms(1) by (simp add: port_inv_def)
  have n: "callocs d \<le> n"
    using a by (auto simp: itemAcquire_def split: list.splits if_splits)
  show ?thesis
  proof (cases r)
    case None
    then have "\<exists>n. \<not> ok n"
      using a s by (auto simp: itemAcquire_def pool.safe_def il_inv_def split: list.splits if_splits)
    with a None show ?thesis by (simp add: buf_packet_here_def)
  next
    case (Some ex)
    then obtain e where r: "r = Some (e, ())" by (cases ex) auto
    let ?d = "d\<lparr>ports := A @ (k, prt\<lparr>q := q prt @ [(e, p)]\<rparr>) # B, elements := l, callocs := n\<rparr>"
    have run: "buf_packet_here ok d k p = Some ?d"
      using a r by (simp add: buf_packet_here_def set_q_split [OF spl])
    have sa: "e \<notin> set (qblocks d)" "pool.safe (l, n) (insert e (set (qblocks d)))"
      using pool.safe_acquire [OF s] a r by auto
    let ?e = "d\<lparr>ports := A @ (k, prt\<lparr>q := q prt @ [(e, p)]\<rparr>) # B\<rparr>"
    have "set (qblocks ?e) = insert e (set (qblocks d))" "distinct (qblocks ?e)"
      using assms(1) sa(1) qblocks_append [OF spl(1)] qblocks_append [of ?e A k _ B]
      by (auto simp: port_inv_def)
    with assms(1) sa(2) n spl(1) have "port_inv ?d"
      by (intro port_inv_upd) (auto simp: port_inv_def)
    moreover have "qrefs ?d = add_mset p (qrefs d)"
      using qrefs_append [OF spl(1)] qrefs_append [of ?d A k _ B] by simp
    moreover have "view ?d = deliver k 1 p (view d)"
      using assms(3) spl by (simp add: deliver_absent [unfolded One_nat_def])
    ultimately show ?thesis using run n by auto
  qed
qed


text \<open>The number of copies of a packet a port queues.\<close>

definition copies :: "bool \<Rightarrow> u16 \<Rightarrow> sel_port \<Rightarrow> nat" where
  "copies evt pid prt = (if evt then 1 else count_list (pids_of (pids prt)) pid)"

text \<open>\<open>delivered d H p k n r\<close>: the outcome \<open>r\<close> of handing \<open>n\<close> references to block \<open>p\<close> to port \<open>k\<close>.\<close>

definition bodies :: "selector \<Rightarrow> nat \<Rightarrow> selbuf option" where
  "bodies d p = map_option rc_body (mem d p)"

definition delivered :: "(nat \<Rightarrow> bool) \<Rightarrow> selector \<Rightarrow> nat multiset \<Rightarrow> nat \<Rightarrow> nat \<Rightarrow> bool \<Rightarrow> nat \<Rightarrow>
    (selector \<times> sel_call list) option \<Rightarrow> bool" where
  "delivered ok d H p k sync n r \<longleftrightarrow> (case r of
     None \<Rightarrow> \<exists>j. \<not> ok j
   | Some (d', c) \<Rightarrow> sel_inv d' (H + calls_refs c) \<and> size (refs d' (H + calls_refs c)) = size (refs d H) + n \<and>
       p \<in># refs d' (H + calls_refs c) \<and> view d' = deliver k n p (view d) \<and>
       c = (if sync then replicate n (PacketHere k p) else []) \<and> bodies d' = bodies d \<and>
       limit d' = limit d)"

lemma delivered_Some: "delivered ok d H p k s n (Some (d', c)) \<longleftrightarrow>
    sel_inv d' (H + calls_refs c) \<and> size (refs d' (H + calls_refs c)) = size (refs d H) + n \<and>
    p \<in># refs d' (H + calls_refs c) \<and> view d' = deliver k n p (view d) \<and>
    c = (if s then replicate n (PacketHere k p) else []) \<and> bodies d' = bodies d \<and> limit d' = limit d"
  by (simp only: delivered_def option.case prod.case)

lemma queue_element_run:
  assumes "sel_inv d H" "p \<in># refs d H" "size (refs d H) < 2 ^ 32 - 1"
    "map_of (ports d) k = Some prt" "is_sync prt0 = is_sync prt"
  shows "delivered ok d H p k (is_sync prt) 1 (selector_queue_element ok d (k, prt0) p)"
proof -
  from acquire_run [of d "refs d H" p] assms(1,2,3) obtain m where
    m: "rcptrAcquire (mem d) p = Some (0, m)" "ref_inv (d\<lparr>mem := m\<rparr>) (add_mset p (refs d H))"
      "\<forall>p'. map_option rc_body (m p') = map_option rc_body (mem d p')"
    by (auto simp: sel_inv_def)
  have pi: "port_inv (d\<lparr>mem := m\<rparr>)" using assms(1) by (simp add: sel_inv_def)
  show ?thesis
  proof (cases "is_sync prt")
    case True
    have "deliver k 1 p (view d) = view d"
    proof -
      from assms(1) have dk: "distinct (map fst (ports d))" by (simp add: sel_inv_def port_inv_def)
      from ports_split [OF dk assms(4)] obtain A B where
        spl: "ports d = A @ (k, prt) # B" "k \<notin> fst ` set A" "k \<notin> fst ` set B" by metis
      with True show ?thesis by (simp add: deliver_absent [unfolded One_nat_def])
    qed
    with True assms m pi show ?thesis
      by (auto simp: selector_queue_element_def delivered_def sel_inv_def bodies_def fun_eq_iff)
  next
    case False
    from buf_packet_run [OF pi, of k prt ok p] assms(4) False
    have b: "case buf_packet_here ok (d\<lparr>mem := m\<rparr>) k p of
        None \<Rightarrow> \<exists>n. \<not> ok n
      | Some d' \<Rightarrow> \<exists>ps l n. d' = d\<lparr>mem := m, ports := ps, elements := l, callocs := n\<rparr> \<and> callocs d \<le> n \<and> port_inv d' \<and>
          qrefs d' = add_mset p (qrefs d) \<and> view d' = deliver k 1 p (view d)"
      by (simp split: option.splits)
    show ?thesis
    proof (cases "buf_packet_here ok (d\<lparr>mem := m\<rparr>) k p")
      case None
      with b m False assms(5) show ?thesis
        by (simp add: selector_queue_element_def delivered_def)
    next
      case (Some d')
      with b obtain ps l n where d': "d' = d\<lparr>mem := m, ports := ps, elements := l, callocs := n\<rparr>" "callocs d \<le> n"
        "port_inv d'" "qrefs d' = add_mset p (qrefs d)" "view d' = deliver k 1 p (view d)" by auto
      have "ref_inv ((d\<lparr>mem := m\<rparr>)\<lparr>callocs := n\<rparr>) (add_mset p (refs d H))"
        using m(2) d'(2) by (intro ref_inv_callocs) auto
      then have "ref_inv d' (refs d' H)"
        using d' by (simp add: ref_inv_def)
      with Some m False assms(5) d' show ?thesis
        by (auto simp: selector_queue_element_def delivered_def sel_inv_def bodies_def fun_eq_iff)
    qed
  qed
qed

lemma map_of_view: "map_of (view_of ps) k = map_option (\<lambda>p. (num_pids p, pids p, is_sync p, map snd (q p))) (map_of ps k)"
  by (induction ps) (auto simp: view_of_def)

lemma map_of_deliver: "map_of (deliver k n p v) j =
    map_option (\<lambda>(num, ps, s, Q). (num, ps, s, if j = k \<and> \<not> s then Q @ replicate n p else Q)) (map_of v j)"
  by (induction v) auto

lemma deliver_lookup:
  assumes "view d' = deliver k n p (view d)" "map_of (ports d) j = Some prt"
  obtains prt' where "map_of (ports d') j = Some prt'" "num_pids prt' = num_pids prt" "pids prt' = pids prt"
    "is_sync prt' = is_sync prt"
proof -
  have "map_of (view d') j = map_of (deliver k n p (view d)) j" using assms(1) by simp
  with assms(2) show thesis by (auto simp: map_of_view map_of_deliver intro: that)
qed

text \<open>Deliveries to one port compose.\<close>

lemma delivered_trans:
  assumes "delivered ok d H p k s n (Some (d1, c1))" "delivered ok d1 (H + calls_refs c1) p k s m r"
  shows "delivered ok d H p k s (n + m) (do { (d2, c2) \<leftarrow> r; Some (d2, c1 @ c2) })"
  using assms by (auto simp: delivered_def deliver_deliver replicate_add add.assoc split: option.splits)

lemma feed_pids_run:
  assumes "sel_inv d H" "p \<in># refs d H" "size (refs d H) + count_list xs pid < 2 ^ 32"
    "map_of (ports d) k = Some prt" "is_sync prt0 = is_sync prt"
  shows "delivered ok d H p k (is_sync prt) (count_list xs pid) (feed_pids ok p pid (k, prt0) xs d)"
  using assms
proof (induction xs arbitrary: d H prt)
  case Nil
  then show ?case by (simp add: delivered_def)
next
  case (Cons x xs)
  show ?case
  proof (cases "x = pid")
    case False
    with Cons.IH [OF Cons.prems(1,2) _ Cons.prems(4,5)] Cons.prems(3) show ?thesis by simp
  next
    case True
    have q: "delivered ok d H p k (is_sync prt) 1 (selector_queue_element ok d (k, prt0) p)"
      using Cons.prems True by (intro queue_element_run) auto
    show ?thesis
    proof (cases "selector_queue_element ok d (k, prt0) p")
      case None
      with q True show ?thesis by (simp add: delivered_def)
    next
      case (Some dc)
      then obtain d1 c1 where s: "selector_queue_element ok d (k, prt0) p = Some (d1, c1)" by (cases dc) auto
      from q [unfolded s delivered_Some]
      have r: "sel_inv d1 (H + calls_refs c1)" "size (refs d1 (H + calls_refs c1)) = size (refs d H) + 1"
        "p \<in># refs d1 (H + calls_refs c1)" "view d1 = deliver k 1 p (view d)"
        by blast+
      from deliver_lookup [OF r(4) Cons.prems(4)] obtain prt1 where
        prt1: "map_of (ports d1) k = Some prt1" "is_sync prt1 = is_sync prt" by metis
      have "delivered ok d1 (H + calls_refs c1) p k (is_sync prt) (count_list xs pid) (feed_pids ok p pid (k, prt0) xs d1)"
        using Cons.IH [OF r(1,3) _ prt1(1)] r(2) Cons.prems(3,5) True prt1(2) by simp
      with delivered_trans [OF q [unfolded s] this] s True show ?thesis by simp
    qed
  qed
qed

lemma port_pids_ok: "pb_ok (pids prt) (num_pids prt) \<Longrightarrow> port_pids prt = Some (pids_of (pids prt))"
  by (auto dest!: pb_ok_cases simp: port_pids_def)

text \<open>The outcome of a whole round of the ports.\<close>

definition sync_calls :: "bool \<Rightarrow> u16 \<Rightarrow> nat \<Rightarrow> (nat \<times> sel_port) list \<Rightarrow> sel_call list" where
  "sync_calls evt pid p ps =
     concat (map (\<lambda>x. if is_sync (snd x) then replicate (copies evt pid (snd x)) (PacketHere (fst x) p) else []) ps)"

definition fan_out :: "bool \<Rightarrow> u16 \<Rightarrow> (nat \<times> sel_port) list \<Rightarrow> nat" where
  "fan_out evt pid ps = sum_list (map (\<lambda>x. copies evt pid (snd x)) ps)"

lemma fan_out_simps [simp]:
  "fan_out evt pid [] = 0" "fan_out evt pid (x # ps) = copies evt pid (snd x) + fan_out evt pid ps"
  "sync_calls evt pid p [] = []"
  "sync_calls evt pid p (x # ps) =
    (if is_sync (snd x) then replicate (copies evt pid (snd x)) (PacketHere (fst x) p) else []) @ sync_calls evt pid p ps"
  by (simp_all add: fan_out_def sync_calls_def)

definition fed :: "(nat \<Rightarrow> bool) \<Rightarrow> selector \<Rightarrow> nat multiset \<Rightarrow> nat \<Rightarrow> bool \<Rightarrow> u16 \<Rightarrow> (nat \<times> sel_port) list \<Rightarrow>
    (selector \<times> sel_call list) option \<Rightarrow> bool" where
  "fed ok d H p evt pid ps r \<longleftrightarrow> (case r of
     None \<Rightarrow> \<exists>j. \<not> ok j
   | Some (d', c) \<Rightarrow> sel_inv d' (H + calls_refs c) \<and> p \<in># refs d' (H + calls_refs c) \<and>
       view d' = fold (\<lambda>x. deliver (fst x) (copies evt pid (snd x)) p) ps (view d) \<and>
       c = sync_calls evt pid p ps \<and> bodies d' = bodies d \<and> limit d' = limit d)"

lemma feed_ports_run:
  assumes "sel_inv d H" "p \<in># refs d H" "size (refs d H) + fan_out evt pid ps < 2 ^ 32"
    "\<forall>x\<in>set ps. pb_ok (pids (snd x)) (num_pids (snd x)) \<and>
       (\<exists>prt. map_of (ports d) (fst x) = Some prt \<and> is_sync prt = is_sync (snd x))"
  shows "fed ok d H p evt pid ps (feed_ports ok p pid evt ps d)"
  using assms
proof (induction ps arbitrary: d H)
  case Nil
  then show ?case by (simp add: fed_def)
next
  case (Cons x ps)
  obtain k prt0 where x: "x = (k, prt0)" by (cases x)
  from Cons.prems(4) x obtain prt where prt: "map_of (ports d) k = Some prt" "is_sync prt0 = is_sync prt"
    and ok0: "pb_ok (pids prt0) (num_pids prt0)" by auto
  define r1 where "r1 = (if evt then selector_queue_element ok d x p
                 else do { xs \<leftarrow> port_pids (snd x); feed_pids ok p pid x xs d })"
  have "delivered ok d H p k (is_sync prt) (copies evt pid prt0) r1"
  proof (cases evt)
    case True
    with Cons.prems x show ?thesis
      using queue_element_run [OF Cons.prems(1,2) _ prt, of ok] by (simp add: r1_def copies_def)
  next
    case False
    with Cons.prems x show ?thesis
      using feed_pids_run [OF Cons.prems(1,2) _ prt, of "pids_of (pids prt0)" pid ok]
      by (simp add: r1_def copies_def port_pids_ok [OF ok0])
  qed
  note q = this
  have step: "feed_ports ok p pid evt (x # ps) d =
      do { (d1, c1) \<leftarrow> r1; (d2, c2) \<leftarrow> feed_ports ok p pid evt ps d1; Some (d2, c1 @ c2) }"
    by (simp add: r1_def)
  show ?case
  proof (cases r1)
    case None
    with q step show ?thesis by (simp add: fed_def delivered_def)
  next
    case (Some dc)
    then obtain d1 c1 where r1: "r1 = Some (d1, c1)" by (cases dc) auto
    from q [unfolded r1 delivered_Some]
    have r: "sel_inv d1 (H + calls_refs c1)" "p \<in># refs d1 (H + calls_refs c1)"
      "size (refs d1 (H + calls_refs c1)) = size (refs d H) + copies evt pid prt0"
      "view d1 = deliver k (copies evt pid prt0) p (view d)"
      "c1 = (if is_sync prt then replicate (copies evt pid prt0) (PacketHere k p) else [])"
      "bodies d1 = bodies d" "limit d1 = limit d"
      by blast+
    have "\<forall>x\<in>set ps. pb_ok (pids (snd x)) (num_pids (snd x)) \<and>
       (\<exists>prt. map_of (ports d1) (fst x) = Some prt \<and> is_sync prt = is_sync (snd x))"
      using Cons.prems(4) deliver_lookup [OF r(4)] by (metis list.set_intros(2))
    then have "fed ok d1 (H + calls_refs c1) p evt pid ps (feed_ports ok p pid evt ps d1)"
      using Cons.IH [OF r(1,2)] r(3) Cons.prems(3) x by simp
    with step r1 r x prt show ?thesis
      by (auto simp: fed_def add.assoc split: option.splits)
  qed
qed

lemma fold_deliver: "fold (\<lambda>x. deliver (fst x) (f x) p) ps v =
    map (\<lambda>(k, num, a, s, Q). (k, num, a, s, if s then Q else Q @ replicate (sum_list (map f (filter (\<lambda>x. fst x = k) ps))) p)) v"
  by (induction ps arbitrary: v) (auto simp: deliver_def replicate_add intro!: map_idI [symmetric])

lemma fed_Some: "fed ok d H p evt pid ps (Some (d', c)) \<longleftrightarrow>
    sel_inv d' (H + calls_refs c) \<and> p \<in># refs d' (H + calls_refs c) \<and>
    view d' = fold (\<lambda>x. deliver (fst x) (copies evt pid (snd x)) p) ps (view d) \<and>
    c = sync_calls evt pid p ps \<and> bodies d' = bodies d \<and> limit d' = limit d"
  by (simp only: fed_def option.case prod.case)

lemma tsGetPid_total: "length b = TS_LEN \<Longrightarrow> tsGetPid b = Some (ts_pid b)"
  by (simp add: tsGetPid_ts TS_LEN_def)

text \<open>Dropping a held reference.\<close>

lemma sel_release:
  assumes "sel_inv d (add_mset p H)"
  shows "\<exists>pl m n. selector_release_element_internal d p = Some (d\<lparr>payload := pl, mem := m, num_buffers := n\<rparr>) \<and>
    sel_inv (d\<lparr>payload := pl, mem := m, num_buffers := n\<rparr>) H"
proof -
  from assms release_run [of d "refs d (add_mset p H)" p] obtain pl m n where
    "selector_release_element_internal d p = Some (d\<lparr>payload := pl, mem := m, num_buffers := n\<rparr>)"
    "ref_inv (d\<lparr>payload := pl, mem := m, num_buffers := n\<rparr>) (refs d (add_mset p H) - {#p#})"
    by (auto simp: sel_inv_def)
  with assms show ?thesis by (auto simp: sel_inv_def)
qed

lemma sum_list_key: "distinct (map fst ps) \<Longrightarrow> (k, x) \<in> set ps \<Longrightarrow>
    sum_list (map f (filter (\<lambda>y. fst y = k) ps)) = f (k, x)"
proof (induction ps)
  case (Cons y ps)
  show ?case
  proof (cases "fst y = k")
    case True
    with Cons.prems have "y = (k, x)" by (auto simp: rev_image_eqI)
    moreover have "filter (\<lambda>y. fst y = k) ps = []"
      using True Cons.prems(1) by (simp add: filter_empty_conv) (metis imageI)
    ultimately show ?thesis by simp
  qed (use Cons in auto)
qed simp

lemma fold_deliver_all:
  assumes "distinct (map fst ps)"
  shows "fold (\<lambda>x. deliver (fst x) (copies evt pid (snd x)) p) ps (view_of ps) =
    map (\<lambda>(k, num, a, s, Q). (k, num, a, s,
      if s then Q else Q @ replicate (if evt then 1 else count_list (pids_of a) pid) p)) (view_of ps)"
  unfolding fold_deliver
  by (rule map_cong) (auto simp: view_of_def sum_list_key [OF assms] copies_def)

lemma feed_run:
  assumes inv: "sel_inv d (add_mset p H)" and b: "bodies d p = Some b"
    and room: "size (refs d (add_mset p H)) + fan_out (sb_type b \<noteq> 0) (ts_pid (sb_data b)) (ports d) < 2 ^ 32"
  shows "case selectorFeedUnsafe ok d p of
      None \<Rightarrow> \<exists>j. \<not> ok j
    | Some (d', c) \<Rightarrow> sel_inv d' (H + calls_refs c) \<and>
        c = sync_calls (sb_type b \<noteq> 0) (ts_pid (sb_data b)) p (ports d) \<and>
        view d' = map (\<lambda>(k, num, a, s, Q). (k, num, a, s,
          if s then Q else Q @ replicate (if sb_type b \<noteq> 0 then 1 else count_list (pids_of a) (ts_pid (sb_data b))) p))
          (view d)"
proof -
  let ?evt = "sb_type b \<noteq> 0" and ?pid = "ts_pid (sb_data b)"
  from b obtain blk where blk: "mem d p = Some blk" "rc_body blk = b" by (auto simp: bodies_def)
  have "blk_ok (mem d p) (count (refs d (add_mset p H)) p)"
    using inv unfolding sel_inv_def ref_inv_def by blast
  then have "length (sb_data b) = TS_LEN" using blk by simp
  then have pid: "tsGetPid (sb_data b) = Some ?pid" by (rule tsGetPid_total)
  have dk: "distinct (map fst (ports d))" using inv by (simp add: sel_inv_def port_inv_def)
  have ps: "\<forall>x\<in>set (ports d). pb_ok (pids (snd x)) (num_pids (snd x)) \<and>
       (\<exists>prt. map_of (ports d) (fst x) = Some prt \<and> is_sync prt = is_sync (snd x))"
    using inv dk by (auto simp: sel_inv_def port_inv_def pids_ok_def)
  have "p \<in># refs d (add_mset p H)" by simp
  note fp = feed_ports_run [OF inv this room ps, of ok]
  show ?thesis
  proof (cases "feed_ports ok p ?pid ?evt (ports d) d")
    case None
    with fp blk pid show ?thesis by (simp add: selectorFeedUnsafe_def fed_def)
  next
    case (Some dc)
    then obtain d1 c where s: "feed_ports ok p ?pid ?evt (ports d) d = Some (d1, c)" by (cases dc) auto
    from fp [unfolded s fed_Some]
    have r: "sel_inv d1 (add_mset p (H + calls_refs c))" "c = sync_calls ?evt ?pid p (ports d)"
      "view d1 = fold (\<lambda>x. deliver (fst x) (copies ?evt ?pid (snd x)) p) (ports d) (view d)"
      by (metis union_mset_add_mset_left)+
    from sel_release [OF r(1)] obtain pl m n where
      "selector_release_element_internal d1 p = Some (d1\<lparr>payload := pl, mem := m, num_buffers := n\<rparr>)"
      "sel_inv (d1\<lparr>payload := pl, mem := m, num_buffers := n\<rparr>) (H + calls_refs c)" by blast
    with s r(2,3) blk pid show ?thesis
      by (simp add: selectorFeedUnsafe_def fold_deliver_all [OF dk])
  qed
qed

subsection \<open>Elements of a port\<close>

lemma read_run:
  assumes inv: "sel_inv d H" and k: "map_of (ports d) k = Some prt"
  shows "\<exists>d' rv. selector_read_element_internal d k = Some (d', rv) \<and>
    (case q prt of
       [] \<Rightarrow> d' = d \<and> rv = None
     | (e, p) # r \<Rightarrow> rv = Some p \<and> sel_inv d' (add_mset p H) \<and> mem d' = mem d \<and>
         view d' = map (\<lambda>(k', num, a, s, Q). (k', num, a, s, if k' = k then tl Q else Q)) (view d))"
proof (cases "q prt")
  case Nil
  with k show ?thesis by (simp add: selector_read_element_internal_def)
next
  case (Cons ep r)
  obtain e p where ep: "ep = (e, p)" by (cases ep)
  have pi: "port_inv d" using inv by (simp add: sel_inv_def)
  then have dk: "distinct (map fst (ports d))" by (simp add: port_inv_def)
  from ports_split [OF dk k] obtain A B where
    spl: "ports d = A @ (k, prt) # B" "k \<notin> fst ` set A" "k \<notin> fst ` set B" by metis
  let ?l = "itemRelease (elements d) (e, ())"
  let ?d = "d\<lparr>ports := A @ (k, prt\<lparr>q := r\<rparr>) # B, elements := ?l, callocs := callocs d\<rparr>"
  let ?e = "d\<lparr>ports := A @ (k, prt\<lparr>q := r\<rparr>) # B\<rparr>"
  have run: "selector_read_element_internal d k = Some (?d, Some p)"
    using Cons ep k by (simp add: selector_read_element_internal_def set_q_split [OF spl])
  have "distinct (qblocks d)" using pi by (simp add: port_inv_def)
  then have qb: "set (qblocks ?e) = set (qblocks d) - {e}" "distinct (qblocks ?e)" "e \<in> set (qblocks d)"
    using qblocks_append [OF spl(1)] qblocks_append [of ?e A k _ B] Cons ep by auto
  have "pool.safe (il_release (elements d, callocs d) (e, ())) (set (qblocks d) - {e})"
    using pi qb(3) by (intro pool.safe_release) (auto simp: port_inv_def)
  with qb pi spl have "port_inv ?d"
    by (intro port_inv_upd) (auto simp: port_inv_def il_release_def)
  moreover have "qrefs d = add_mset p (qrefs ?d)"
    using qrefs_append [OF spl(1)] qrefs_append [of ?d A k _ B] Cons ep by simp
  then have "ref_inv ?d (refs ?d (add_mset p H))"
    using inv by (simp add: sel_inv_def)
  moreover have "view ?d = map (\<lambda>(k', num, a, s, Q). (k', num, a, s, if k' = k then tl Q else Q)) (view d)"
    using spl Cons ep by (auto simp: view_of_def)
  ultimately show ?thesis using run Cons ep by (auto simp: sel_inv_def)
qed


text \<open>Removing stale entries: the entries that stay are those the condition spares.  \<open>E\<close> and \<open>R\<close>
  stand for the entries and references elsewhere.\<close>

lemma prune_run:
  assumes "ref_inv d (R + mset (map snd r))" "pool.safe (elements d, callocs d) (E \<union> set (map fst r))"
    "distinct (map fst r)" "E \<inter> set (map fst r) = {}"
    "\<And>b. length (sb_data b) = TS_LEN \<Longrightarrow> stale b = Some (f b)"
  shows "\<exists>pl el m n. prune stale r d = Some (d\<lparr>payload := pl, elements := el, num_buffers := n, mem := m\<rparr>,
        filter (\<lambda>x. \<not> f (the (bodies d (snd x)))) r) \<and>
    ref_inv (d\<lparr>payload := pl, elements := el, num_buffers := n, mem := m\<rparr>)
      (R + mset (map snd (filter (\<lambda>x. \<not> f (the (bodies d (snd x)))) r))) \<and>
    pool.safe (el, callocs d) (E \<union> set (map fst (filter (\<lambda>x. \<not> f (the (bodies d (snd x)))) r)))"
  using assms(1-4)
proof (induction r arbitrary: d R E)
  case Nil
  then show ?case
    by (intro exI [of _ "payload d"] exI [of _ "elements d"] exI [of _ "mem d"] exI [of _ "num_buffers d"]) simp
next
  case (Cons x r)
  obtain e p where x: "x = (e, p)" by (cases x)
  have "p \<in># R + mset (map snd (x # r))" using x by simp
  with Cons.prems(1) obtain b where b: "mem d p = Some b" "length (sb_data (rc_body b)) = TS_LEN"
    by (rule ref_inv_live)
  have bp: "bodies d p = Some (rc_body b)" using b by (simp add: bodies_def)
  show ?case
  proof (cases "f (rc_body b)")
    case False
    from Cons.IH [of d "add_mset p R" "insert e E"] Cons.prems x obtain pl el m n where
      "prune stale r d = Some (d\<lparr>payload := pl, elements := el, num_buffers := n, mem := m\<rparr>,
        filter (\<lambda>x. \<not> f (the (bodies d (snd x)))) r)"
      "ref_inv (d\<lparr>payload := pl, elements := el, num_buffers := n, mem := m\<rparr>)
        (add_mset p R + mset (map snd (filter (\<lambda>x. \<not> f (the (bodies d (snd x)))) r)))"
      "pool.safe (el, callocs d) (insert e E \<union> set (map fst (filter (\<lambda>x. \<not> f (the (bodies d (snd x)))) r)))"
      by auto
    with False x b bp assms(5) [OF b(2)] show ?thesis
      by (intro exI [of _ pl] exI [of _ el] exI [of _ m] exI [of _ n]) simp
  next
    case True
    from release_run [OF Cons.prems(1), of p] x obtain pl1 m1 n1 where
      rel: "selector_release_element_internal d p = Some (d\<lparr>payload := pl1, mem := m1, num_buffers := n1\<rparr>)"
      "ref_inv (d\<lparr>payload := pl1, mem := m1, num_buffers := n1\<rparr>) (R + mset (map snd r))"
      "\<forall>p'. p' \<in># R + mset (map snd r) \<longrightarrow> map_option rc_body (m1 p') = map_option rc_body (mem d p')"
      by auto
    let ?d = "d\<lparr>payload := pl1, mem := m1, num_buffers := n1, elements := itemRelease (elements d) (e, ())\<rparr>"
    have "pool.safe (il_release (elements d, callocs d) (e, ())) (E \<union> set (map fst (x # r)) - {e})"
      using Cons.prems(2) x by (intro pool.safe_release) auto
    moreover have "E \<union> set (map fst (x # r)) - {e} = E \<union> set (map fst r)" using Cons.prems(3,4) x by auto
    ultimately have "pool.safe (elements ?d, callocs ?d) (E \<union> set (map fst r))" by (simp add: il_release_def)
    moreover have "ref_inv ?d (R + mset (map snd r))" using rel(2) by (simp add: ref_inv_def)
    moreover have "filter (\<lambda>x. \<not> f (the (bodies ?d (snd x)))) r = filter (\<lambda>x. \<not> f (the (bodies d (snd x)))) r"
      by (rule filter_cong) (use rel(3) in \<open>auto simp: bodies_def\<close>)
    ultimately obtain pl el m n where
      "prune stale r ?d = Some (?d\<lparr>payload := pl, elements := el, num_buffers := n, mem := m\<rparr>,
        filter (\<lambda>x. \<not> f (the (bodies d (snd x)))) r)"
      "ref_inv (?d\<lparr>payload := pl, elements := el, num_buffers := n, mem := m\<rparr>)
        (R + mset (map snd (filter (\<lambda>x. \<not> f (the (bodies d (snd x)))) r)))"
      "pool.safe (el, callocs d) (E \<union> set (map fst (filter (\<lambda>x. \<not> f (the (bodies d (snd x)))) r)))"
      using Cons.IH [of ?d R E] Cons.prems(3,4) by auto
    with True x b bp rel(1) assms(5) [OF b(2)] show ?thesis
      by (intro exI [of _ pl] exI [of _ el] exI [of _ m] exI [of _ n]) simp
  qed
qed

lemma drain_run:
  assumes "ref_inv d (R + mset (map snd r))" "pool.safe (elements d, callocs d) (E \<union> set (map fst r))"
    "distinct (map fst r)" "E \<inter> set (map fst r) = {}"
  shows "\<exists>pl el m n. drain r d = Some (d\<lparr>payload := pl, elements := el, num_buffers := n, mem := m\<rparr>) \<and>
    ref_inv (d\<lparr>payload := pl, elements := el, num_buffers := n, mem := m\<rparr>) R \<and>
    pool.safe (el, callocs d) E"
  using assms
proof (induction r arbitrary: d)
  case Nil
  then show ?case
    by (intro exI [of _ "payload d"] exI [of _ "elements d"] exI [of _ "mem d"] exI [of _ "num_buffers d"]) simp
next
  case (Cons x r)
  obtain e p where x: "x = (e, p)" by (cases x)
  let ?d0 = "d\<lparr>elements := itemRelease (elements d) (e, ())\<rparr>"
  from release_run [of ?d0 "R + mset (map snd (x # r))" p] Cons.prems(1) x obtain pl1 m1 n1 where
    rel: "selector_release_element_internal ?d0 p = Some (?d0\<lparr>payload := pl1, mem := m1, num_buffers := n1\<rparr>)"
    "ref_inv (?d0\<lparr>payload := pl1, mem := m1, num_buffers := n1\<rparr>) (R + mset (map snd r))"
    by auto
  let ?d = "?d0\<lparr>payload := pl1, mem := m1, num_buffers := n1\<rparr>"
  have "pool.safe (il_release (elements d, callocs d) (e, ())) (E \<union> set (map fst (x # r)) - {e})"
    using Cons.prems(2) x by (intro pool.safe_release) auto
  moreover have "E \<union> set (map fst (x # r)) - {e} = E \<union> set (map fst r)" using Cons.prems(3,4) x by auto
  ultimately have "pool.safe (elements ?d, callocs ?d) (E \<union> set (map fst r))" by (simp add: il_release_def)
  with Cons.IH [of ?d] rel(2) Cons.prems(3,4) obtain pl el m n where
    "drain r ?d = Some (?d\<lparr>payload := pl, elements := el, num_buffers := n, mem := m\<rparr>)"
    "ref_inv (?d\<lparr>payload := pl, elements := el, num_buffers := n, mem := m\<rparr>) R" "pool.safe (el, callocs d) E"
    by auto
  with x rel(1) show ?case
    by (intro exI [of _ pl] exI [of _ el] exI [of _ m] exI [of _ n]) simp
qed


lemma prune_port:
  assumes inv: "sel_inv d H" and k: "map_of (ports d) k = Some prt"
    and stale: "\<And>b. length (sb_data b) = TS_LEN \<Longrightarrow> stale b = Some (f b)"
  shows "\<exists>d'. do { (d1, keep) \<leftarrow> prune stale (q prt) d; Some (set_q k (\<lambda>_. keep) d1) } = Some d' \<and> sel_inv d' H \<and>
    view d' = map (\<lambda>(k', num, a, s, Q). (k', num, a, s,
      if k' = k then filter (\<lambda>p. \<not> f (the (bodies d p))) Q else Q)) (view d)"
proof -
  have pi: "port_inv d" using inv by (simp add: sel_inv_def)
  then have dk: "distinct (map fst (ports d))" by (simp add: port_inv_def)
  from ports_split [OF dk k] obtain A B where
    spl: "ports d = A @ (k, prt) # B" "k \<notin> fst ` set A" "k \<notin> fst ` set B" by metis
  let ?fb = "\<lambda>ps. concat (map (\<lambda>x. map fst (q (snd x))) ps)" and ?fr = "\<lambda>ps. concat (map (\<lambda>x. map snd (q (snd x))) ps)"
  let ?E = "set (?fb A) \<union> set (?fb B)" and ?R = "mset (?fr A) + mset (?fr B) + H"
  let ?keep = "filter (\<lambda>x. \<not> f (the (bodies d (snd x)))) (q prt)"
  have qd: "distinct (qblocks d)" "pool.safe (elements d, callocs d) (set (qblocks d))"
    using pi by (auto simp: port_inv_def)
  have E: "set (qblocks d) = ?E \<union> set (map fst (q prt))" "?E \<inter> set (map fst (q prt)) = {}" "distinct (map fst (q prt))"
    using qd(1) unfolding qblocks_append [OF spl(1)] distinct_append set_append by blast+
  have R: "refs d H = ?R + mset (map snd (q prt))"
    using qrefs_append [OF spl(1)] by simp
  have "ref_inv d (?R + mset (map snd (q prt)))"
    using inv unfolding sel_inv_def R by simp
  from prune_run [OF this _ E(3,2), of stale f] qd(2) stale obtain pl el m n where
    pr: "prune stale (q prt) d = Some (d\<lparr>payload := pl, elements := el, num_buffers := n, mem := m\<rparr>, ?keep)"
    "ref_inv (d\<lparr>payload := pl, elements := el, num_buffers := n, mem := m\<rparr>) (?R + mset (map snd ?keep))"
    "pool.safe (el, callocs d) (?E \<union> set (map fst ?keep))"
    unfolding E(1) by blast
  let ?d1 = "d\<lparr>payload := pl, elements := el, num_buffers := n, mem := m\<rparr>"
  let ?e = "d\<lparr>ports := A @ (k, prt\<lparr>q := ?keep\<rparr>) # B\<rparr>"
  let ?d = "d\<lparr>payload := pl, ports := A @ (k, prt\<lparr>q := ?keep\<rparr>) # B, elements := el, num_buffers := n, mem := m\<rparr>"
  have "ports ?d1 = A @ (k, prt) # B" using spl(1) by simp
  from set_q_split [OF this spl(2,3)] have sq: "set_q k (\<lambda>_. ?keep) ?d1 = ?d" by simp
  have "distinct (map fst ?keep)" using E(3) by (simp add: distinct_map_filter)
  moreover have "set (map fst ?keep) \<subseteq> set (map fst (q prt))" by auto
  moreover have qe: "qblocks ?e = ?fb A @ map fst ?keep @ ?fb B"
    using qblocks_append [of ?e A k "prt\<lparr>q := ?keep\<rparr>" B] by simp
  ultimately have qb: "set (qblocks ?e) = ?E \<union> set (map fst ?keep)" "distinct (qblocks ?e)"
    using qd(1) E(2) unfolding qe qblocks_append [OF spl(1)] distinct_append set_append by blast+
  have "port_inv (d\<lparr>ports := A @ (k, prt\<lparr>q := ?keep\<rparr>) # B, elements := el, callocs := callocs d\<rparr>)"
    using pi spl(1) qb pr(3) by (intro port_inv_upd) (auto simp: port_inv_def)
  then have "port_inv ?d" by (simp add: port_inv_def qblocks_def)
  moreover have rf: "refs ?d H = ?R + mset (map snd ?keep)"
    using qrefs_append [of ?d A k "prt\<lparr>q := ?keep\<rparr>" B] by simp
  have "ref_inv ?d (refs ?d H)"
    unfolding rf using pr(2) by (simp add: ref_inv_def)
  moreover have "view ?d = map (\<lambda>(k', num, a, s, Q). (k', num, a, s,
      if k' = k then filter (\<lambda>p. \<not> f (the (bodies d p))) Q else Q)) (view d)"
    using spl by (auto simp: view_of_def filter_map o_def)
  ultimately show ?thesis using pr(1) sq by (auto simp: sel_inv_def)
qed


definition stale_for :: "u16 set \<Rightarrow> selbuf \<Rightarrow> bool" where
  "stale_for S b \<longleftrightarrow> sb_type b = 0 \<and> ts_pid (sb_data b) \<notin> S"

text \<open>What a queue keeps.\<close>

definition queue_filter :: "(nat \<Rightarrow> selbuf option) \<Rightarrow> nat \<Rightarrow> (selbuf \<Rightarrow> bool) \<Rightarrow> port_view list \<Rightarrow> port_view list" where
  "queue_filter B k f v = map (\<lambda>(k', num, a, s, Q). (k', num, a, s,
     if k' = k then filter (\<lambda>p. \<not> f (the (B p))) Q else Q)) v"

text \<open>The view after changing the PIDs of a port.\<close>

definition repid :: "nat \<Rightarrow> u16 \<Rightarrow> pid_array \<Rightarrow> port_view list \<Rightarrow> port_view list" where
  "repid k n a v = map (\<lambda>(k', num, a', s, Q). if k' = k then (k', n, a, s, Q) else (k', num, a', s, Q)) v"

lemma selPortRSU_run:
  assumes inv: "sel_inv d H" and k: "map_of (ports d) k = Some prt"
  shows "\<exists>d'. selPortRSU d k = Some d' \<and> sel_inv d' H \<and>
    view d' = queue_filter (bodies d) k (stale_for (set (pids_of (pids prt)))) (view d)"
proof -
  have "pids_ok prt"
    using inv map_of_SomeD [OF k] by (force simp: sel_inv_def port_inv_def)
  then have "stale_pid prt b = Some (stale_for (set (pids_of (pids prt))) b)" if "length (sb_data b) = TS_LEN" for b
    using that by (simp add: stale_pid_def stale_for_def tsGetPid_total pidbufContains_ok pids_ok_def)
  from prune_port [OF inv k, of "stale_pid prt" "stale_for (set (pids_of (pids prt)))"] this show ?thesis
    using k by (simp add: selPortRSU_def queue_filter_def)
qed

lemma remove_packets_run:
  assumes inv: "sel_inv d H" and k: "map_of (ports d) k = Some prt"
  shows "\<exists>d'. selector_port_remove_packets d k = Some d' \<and> sel_inv d' H \<and>
    view d' = queue_filter (bodies d) k (\<lambda>b. sb_type b = 0) (view d)"
  using prune_port [OF inv k, of "\<lambda>b. Some (sb_type b = 0)" "\<lambda>b. sb_type b = 0"] k
  by (simp add: selector_port_remove_packets_def queue_filter_def)

lemma set_pids_run:
  assumes inv: "sel_inv d H" and k: "map_of (ports d) k = Some prt"
    and ok: "pb_ok a n" "\<forall>x\<in>set (pids_of a). unat x < 8192"
  shows "sel_inv (set_pids k n a d) H \<and> mem (set_pids k n a d) = mem d \<and>
    view (set_pids k n a d) = repid k n a (view d) \<and>
    map_of (ports (set_pids k n a d)) k = Some (prt\<lparr>num_pids := n, pids := a\<rparr>)"
proof -
  have pi: "port_inv d" using inv by (simp add: sel_inv_def)
  then have dk: "distinct (map fst (ports d))" by (simp add: port_inv_def)
  from ports_split [OF dk k] obtain A B where
    spl: "ports d = A @ (k, prt) # B" "k \<notin> fst ` set A" "k \<notin> fst ` set B" by metis
  let ?d = "d\<lparr>ports := A @ (k, prt\<lparr>num_pids := n, pids := a\<rparr>) # B\<rparr>"
  have "qblocks ?d = qblocks d" "qrefs ?d = qrefs d" using spl by (simp_all add: qblocks_def qrefs_def)
  with inv spl ok have "sel_inv ?d H"
    by (auto simp: sel_inv_def port_inv_def pids_ok_def)
  moreover have "view ?d = repid k n a (view d)"
    using spl by (auto simp: view_of_def repid_def)
  moreover have "map_of (ports ?d) k = Some (prt\<lparr>num_pids := n, pids := a\<rparr>)"
    using spl map_of_eq_None_iff [of A k] by (simp add: map_add_def)
  ultimately show ?thesis by (simp add: set_pids_split [OF spl])
qed

subsection \<open>Selected PIDs\<close>

definition selected :: "selector \<Rightarrow> u16 set" where
  "selected d = (\<Union>x\<in>set (ports d). set (pids_of (pids (snd x))))"

lemma length_add_uniq_mono: "length r \<le> length (add_uniq r x)" "length r \<le> length (foldl add_uniq r xs)"
proof -
  show "length r \<le> length (add_uniq r x)" for r x by (simp add: add_uniq_def)
  then show "length r \<le> length (foldl add_uniq r xs)"
    by (induction xs arbitrary: r) (auto intro: order_trans)
qed

text \<open>The capacity invariant of the collecting loop: it doubles before it is exceeded and never
  wraps as long as at most 32768 PIDs are collected.\<close>

definition cap_ok :: "u16 list \<times> u16 \<times> u16 \<Rightarrow> bool" where
  "cap_ok s = (case s of (rv, ctr, cap) \<Rightarrow> length rv = unat ctr \<and> ctr \<le> cap \<and> cap \<noteq> 0)"

lemma double_cap: "(cap :: u16) \<noteq> 0 \<Longrightarrow> unat cap < 32768 \<Longrightarrow> cap * 2 \<noteq> 0 \<and> unat (cap * 2) = 2 * unat cap"
proof -
  assume c: "cap \<noteq> 0" "unat cap < 32768"
  have "unat (cap * 2) = 2 * unat cap" using c(2) by (simp add: unat_word_ariths)
  moreover have "unat cap \<noteq> 0" using c(1) by (simp add: unat_eq_zero)
  ultimately show ?thesis by (metis mult_eq_0_iff unsigned_0 zero_neq_numeral)
qed

lemma get_pids_port_run:
  assumes "cap_ok (rv, ctr, cap)" "length (foldl add_uniq rv xs) \<le> 32768"
  shows "\<exists>ctr' cap'. get_pids_port (\<lambda>_. True) xs (rv, ctr, cap) = Some (Inr (foldl add_uniq rv xs, ctr', cap')) \<and>
    cap_ok (foldl add_uniq rv xs, ctr', cap')"
  using assms
proof (induction xs arbitrary: rv ctr cap)
  case Nil
  then show ?case by simp
next
  case (Cons x xs)
  have len: "length rv = unat ctr" "ctr \<le> cap" "cap \<noteq> 0" using Cons.prems(1) by (auto simp: cap_ok_def)
  have c: "pidbufContains x (Some rv) ctr = Some (x \<in> set rv)"
    using len(1) by (simp add: pidbufContains_take)
  show ?case
  proof (cases "x \<in> set rv")
    case True
    with Cons.IH [OF Cons.prems(1)] Cons.prems(2) c show ?thesis by (simp add: add_uniq_def)
  next
    case False
    have a: "add_uniq rv x = rv @ [x]" using False by (simp add: add_uniq_def)
    then have "Suc (length rv) \<le> 32768"
      using Cons.prems(2) length_add_uniq_mono(2) [of "rv @ [x]" xs] by simp
    then have u: "unat (ctr + 1) = Suc (unat ctr)" "unat ctr < 32768"
      using len(1) by (simp_all add: unat_plus_one16)
    show ?thesis
    proof (cases "ctr \<ge> cap")
      case True
      then have e: "cap = ctr" using len(2) by simp
      with len(3) u(2) double_cap [of cap] have d: "cap * 2 \<noteq> 0" "unat (cap * 2) = 2 * unat ctr" by auto
      have "unat ctr \<noteq> 0" using len(3) e by (simp add: unat_eq_zero)
      then have "cap_ok (rv @ [x], ctr + 1, cap * 2)"
        using len(1) u(1) d by (simp add: cap_ok_def word_le_nat_alt)
      with Cons.IH [OF this] Cons.prems(2) c d False True a show ?thesis by simp
    next
      case less: False
      then have "cap_ok (rv @ [x], ctr + 1, cap)"
        using len u(1) by (simp add: cap_ok_def word_le_nat_alt)
      with Cons.IH [OF this] Cons.prems(2) c False less a show ?thesis by simp
    qed
  qed
qed

lemma get_pids_ports_run:
  assumes "cap_ok (rv, ctr, cap)" "\<forall>x\<in>set ps. pb_ok (pids (snd x)) (num_pids (snd x))"
    "length (foldl add_uniq rv (concat (map (\<lambda>x. pids_of (pids (snd x))) ps))) \<le> 32768"
  shows "\<exists>ctr' cap'. get_pids_ports (\<lambda>_. True) ps (rv, ctr, cap) =
      Some (Inr (foldl add_uniq rv (concat (map (\<lambda>x. pids_of (pids (snd x))) ps)), ctr', cap')) \<and>
    cap_ok (foldl add_uniq rv (concat (map (\<lambda>x. pids_of (pids (snd x))) ps)), ctr', cap')"
  using assms
proof (induction ps arbitrary: rv ctr cap)
  case Nil
  then show ?case by simp
next
  case (Cons x ps)
  obtain k prt where x: "x = (k, prt)" by (cases x)
  let ?xs = "pids_of (pids prt)" and ?r = "concat (map (\<lambda>x. pids_of (pids (snd x))) ps)"
  have pp: "port_pids prt = Some ?xs" using Cons.prems(2) x by (simp add: port_pids_ok)
  have "length (foldl add_uniq rv ?xs) \<le> 32768"
    using Cons.prems(3) x length_add_uniq_mono(2) [of "foldl add_uniq rv ?xs" ?r] by simp
  from get_pids_port_run [OF Cons.prems(1) this] obtain c1 cap1 where
    g: "get_pids_port (\<lambda>_. True) ?xs (rv, ctr, cap) = Some (Inr (foldl add_uniq rv ?xs, c1, cap1))"
      "cap_ok (foldl add_uniq rv ?xs, c1, cap1)" by blast
  from Cons.IH [OF g(2)] Cons.prems(2,3) x pp g(1) show ?case by simp
qed

text \<open>A failing allocation only makes the collection return early, without an array.\<close>

lemma get_pids_port_early:
  "get_pids_port m xs s = Some (Inl ()) \<or> get_pids_port m xs s = get_pids_port (\<lambda>_. True) xs s"
proof (induction m xs s rule: get_pids_port.induct)
  case (2 m x xs rv ctr cap)
  then show ?case by (cases "pidbufContains x (Some rv) ctr") auto
qed simp

lemma early_cases:
  obtains "x = None" | "x = Some (Inl ())" | s where "x = Some (Inr s)"
proof (cases x)
  case (Some y)
  with that show thesis by (cases y) auto
qed (use that in blast)

lemma get_pids_ports_early:
  "get_pids_ports m ps s = Some (Inl ()) \<or> get_pids_ports m ps s = get_pids_ports (\<lambda>_. True) ps s"
proof (induction ps arbitrary: s)
  case (Cons x r)
  obtain k prt where x: "x = (k, prt)" by (cases x)
  show ?case
  proof (cases "port_pids prt")
    case (Some xs)
    consider "get_pids_port m xs s = Some (Inl ())" | "get_pids_port m xs s = get_pids_port (\<lambda>_. True) xs s"
      using get_pids_port_early by blast
    then show ?thesis
    proof cases
      case 2
      then show ?thesis using Some Cons.IH
        by (cases rule: early_cases [of "get_pids_port (\<lambda>_. True) xs s"]) (simp_all add: x)
    qed (simp add: x Some)
  qed (simp add: x)
qed simp

text \<open>The collection runs through the ports in turn.\<close>

lemma get_pids_ports_append:
  "get_pids_ports m (A @ B) s = do {
     x \<leftarrow> get_pids_ports m A s;
     (case x of Inl _ \<Rightarrow> Some (Inl ()) | Inr s' \<Rightarrow> get_pids_ports m B s') }"
proof (induction A arbitrary: s)
  case (Cons x r)
  obtain k prt where x: "x = (k, prt)" by (cases x)
  show ?case
  proof (cases "port_pids prt")
    case (Some xs)
    then show ?thesis using Cons.IH
      by (cases rule: early_cases [of "get_pids_port m xs s"]) (simp_all add: x)
  qed (simp add: x)
qed simp

lemma get_pids_full:
  assumes "port_inv d"
  shows "\<exists>rv c cap. get_pids_ports (\<lambda>_. True) (ports d) ([], 0, 128) = Some (Inr (rv, c, cap)) \<and>
    cap_ok (rv, c, cap) \<and> distinct rv \<and> set rv = selected d"
proof -
  let ?xs = "concat (map (\<lambda>x. pids_of (pids (snd x))) (ports d))"
  let ?rv = "foldl add_uniq [] ?xs"
  have s: "set ?rv = selected d" "distinct ?rv" by (simp_all add: selected_def)
  have "selected d \<subseteq> of_nat ` {..<8192}"
  proof
    fix x assume "x \<in> selected d"
    then have "unat x < 8192" using assms by (auto simp: selected_def port_inv_def pids_ok_def)
    then show "x \<in> of_nat ` {..<8192}" by (intro image_eqI [of _ _ "unat x"]) simp_all
  qed
  then have "card (selected d) \<le> card ((of_nat :: nat \<Rightarrow> u16) ` {..<8192})"
    by (intro card_mono) auto
  also have "\<dots> \<le> 8192" by (metis card_image_le card_lessThan finite_lessThan)
  finally have "card (selected d) \<le> 8192" .
  moreover have "length ?rv = card (selected d)" using distinct_card [OF s(2)] s(1) by simp
  ultimately have "length ?rv \<le> 32768" by simp
  with get_pids_ports_run [of "[]" 0 128 "ports d"] assms s show ?thesis
    by (fastforce simp: cap_ok_def port_inv_def pids_ok_def)
qed

lemma get_pids_run:
  assumes "port_inv d"
  shows "\<exists>arr n. selector_get_pids_internal (\<lambda>_. True) d num = Some (arr, n) \<and> pb_ok arr n \<and>
    distinct (pids_of arr) \<and> set (pids_of arr) = selected d"
proof -
  from get_pids_full [OF assms] obtain rv c cap where
    g: "get_pids_ports (\<lambda>_. True) (ports d) ([], 0, 128) = Some (Inr (rv, c, cap))" "cap_ok (rv, c, cap)"
    and s: "set rv = selected d" "distinct rv" by blast
  then have len: "length rv = unat c" by (simp add: cap_ok_def)
  show ?thesis
  proof (cases "c = 0")
    case True
    with len s g(1) show ?thesis by (auto simp: selector_get_pids_internal_def)
  next
    case False
    with len s g(1) show ?thesis by (auto simp: selector_get_pids_internal_def pb_ok_def)
  qed
qed

lemma get_pids_any:
  assumes "port_inv d"
  shows "\<exists>arr n. selector_get_pids_internal m d 0 = Some (arr, n) \<and> pb_ok arr n"
proof -
  from get_pids_run [OF assms, of 0] obtain arr n where
    r: "selector_get_pids_internal (\<lambda>_. True) d 0 = Some (arr, n)" "pb_ok arr n" by blast
  then obtain x where x: "get_pids_ports (\<lambda>_. True) (ports d) ([], 0, 128) = Some x"
    by (auto simp: selector_get_pids_internal_def bind_eq_Some_conv)
  show ?thesis
    using get_pids_ports_early [of m "ports d" "([], 0, 128)"] r x
    by (cases "m 128") (auto simp: selector_get_pids_internal_def)
qed

lemma pid_change_any:
  assumes "pb_ok a na" "pb_ok b nb"
  shows "\<exists>c. pid_change_calls md (a, na) (b, nb) = Some c \<and> calls_refs c = {#}"
  using pidbufDifference_total [OF assms, of "md 0"] pidbufDifference_total [OF assms(2,1), of "md 1"]
  by (auto simp: pid_change_calls_def)

lemma pid_change_run:
  assumes "pb_ok a na" "pb_ok b nb"
  shows "\<exists>add rmv. pid_change_calls (\<lambda>_ _. True) (a, na) (b, nb) =
      Some (if set (pids_of a) = set (pids_of b) then [] else [PidChange add rmv]) \<and>
    distinct add \<and> distinct rmv \<and> set add = set (pids_of b) - set (pids_of a) \<and> set rmv = set (pids_of a) - set (pids_of b)"
proof -
  from pidbufDifference_ok [OF assms] obtain r nr where
    r: "pidbufDifference (\<lambda>_. True) a na b nb = Some (r, nr)" "pb_ok r nr" "distinct (pids_of r)"
      "set (pids_of r) = set (pids_of a) - set (pids_of b)" by blast
  from pidbufDifference_ok [OF assms(2,1)] obtain ad nad where
    ad: "pidbufDifference (\<lambda>_. True) b nb a na = Some (ad, nad)" "pb_ok ad nad" "distinct (pids_of ad)"
      "set (pids_of ad) = set (pids_of b) - set (pids_of a)" by blast
  have "(nad \<noteq> 0 \<or> nr \<noteq> 0) \<longleftrightarrow> set (pids_of a) \<noteq> set (pids_of b)"
    using pb_ok_zero [OF r(2)] pb_ok_zero [OF ad(2)] r(4) ad(4) by (auto simp flip: set_empty)
  then show ?thesis
    using r ad by (intro exI [of _ "pids_of ad"] exI [of _ "pids_of r"]) (simp add: pid_change_calls_def)
qed


text \<open>How the frontend's PID filters follow the notifications.\<close>

fun frontend :: "sel_call list \<Rightarrow> u16 set \<Rightarrow> u16 set" where
  "frontend [] F = F"
| "frontend (PidChange add rmv # c) F = frontend c (F - set rmv \<union> set add)"
| "frontend (PacketHere _ _ # c) F = frontend c F"

lemma selected_view: "selected d = (\<Union>x\<in>set (view d). set (pids_of (fst (snd (snd x)))))"
  by (simp add: selected_def view_of_def)

lemma selected_filter: "view d' = queue_filter B k f (view d) \<Longrightarrow> selected d' = selected d"
  unfolding selected_view queue_filter_def by (simp add: case_prod_beta)

lemma bodies_mem: "mem d' = mem d \<Longrightarrow> bodies d' = bodies d"
  by (simp add: bodies_def fun_eq_iff)

lemma mod_port_run:
  assumes inv: "sel_inv d H" and k: "map_of (ports d) k = Some prt"
    and args: "pb_ok ps n" "\<forall>x\<in>set (pids_of ps). unat x < 8192"
  shows "\<exists>d' c. selectorModPortUnsafe (\<lambda>_ _. True) True (\<lambda>_ _. True) d (Some k) n ps = Some (0, d', c) \<and>
    sel_inv d' H \<and> calls_refs c = {#} \<and> frontend c (selected d) = selected d' \<and>
    (c = [] \<longleftrightarrow> selected d' = selected d) \<and>
    (c = [] \<or> (\<exists>add rmv. c = [PidChange add rmv] \<and> distinct add \<and> distinct rmv \<and>
       set add = selected d' - selected d \<and> set rmv = selected d - selected d')) \<and>
    view d' = (if c = [] then repid k n ps (view d)
      else queue_filter (bodies d) k (stale_for (set (pids_of ps))) (repid k n ps (view d)))"
proof -
  let ?d1 = "set_pids k n ps d"
  note sp = set_pids_run [OF inv k args]
  from get_pids_run [of d 0] inv obtain b nb where
    b: "selector_get_pids_internal (\<lambda>_. True) d 0 = Some (b, nb)" "pb_ok b nb" "set (pids_of b) = selected d"
    by (auto simp: sel_inv_def)
  from get_pids_run [of ?d1 0] sp obtain a na where
    a: "selector_get_pids_internal (\<lambda>_. True) ?d1 0 = Some (a, na)" "pb_ok a na" "set (pids_of a) = selected ?d1"
    by (auto simp: sel_inv_def)
  from pid_change_run [OF b(2) a(2)] b(3) a(3) obtain add rmv where
    c: "pid_change_calls (\<lambda>_ _. True) (b, nb) (a, na) = Some (if selected d = selected ?d1 then [] else [PidChange add rmv])"
      "set add = selected ?d1 - selected d" "set rmv = selected d - selected ?d1" "distinct add" "distinct rmv" by auto
  have dup: "(if n = 0 \<or> ps = None then Some (set_pids k 0 None d)
      else do { x \<leftarrow> pidbufDup True ps n; Some (set_pids k n x d) }) = Some ?d1"
    using pidbufDup_ok [OF args(1)] pb_ok_cases [OF args(1)] by auto
  show ?thesis
  proof (cases "selected d = selected ?d1")
    case True
    with b a c dup k sp show ?thesis
      by (simp add: selectorModPortUnsafe_def)
  next
    case False
    from selPortRSU_run [of ?d1 H k] sp obtain d' where
      d': "selPortRSU ?d1 k = Some d'" "sel_inv d' H" "view d' = queue_filter (bodies ?d1) k (stale_for (set (pids_of ps))) (view ?d1)"
      by auto
    have s: "selected d' = selected ?d1" using d'(3) by (rule selected_filter)
    have "bodies ?d1 = bodies d" using sp by (intro bodies_mem) simp
    with d'(3) sp have v: "view d' = queue_filter (bodies d) k (stale_for (set (pids_of ps))) (repid k n ps (view d))"
      by simp
    have "frontend [PidChange add rmv] (selected d) = selected d'" using c(2,3) s by auto
    moreover have "selectorModPortUnsafe (\<lambda>_ _. True) True (\<lambda>_ _. True) d (Some k) n ps = Some (0, d', [PidChange add rmv])"
      using False b(1) a(1) c(1) dup k d'(1) by (simp add: selectorModPortUnsafe_def)
    ultimately show ?thesis
      using False s v d'(2) c(2-5) by (intro exI [of _ d'] exI [of _ "[PidChange add rmv]"]) simp
  qed
qed


text \<open>The same operations when the arrays of PIDs cannot be allocated: the frontend may not be told,
  but the structure stays intact as long as the port gets its own array.\<close>

lemma mod_port_any:
  assumes inv: "sel_inv d H" and k: "map_of (ports d) k = Some prt"
    and args: "pb_ok ps n" "\<forall>x\<in>set (pids_of ps). unat x < 8192"
    and dup: "n \<noteq> 0 \<longrightarrow> mdup"
  shows "\<exists>d' c. selectorModPortUnsafe m mdup md d (Some k) n ps = Some (0, d', c) \<and> sel_inv d' H \<and> calls_refs c = {#}"
proof -
  let ?d1 = "set_pids k n ps d"
  note sp = set_pids_run [OF inv k args]
  from get_pids_any [of d "m 0"] inv obtain b nb where
    b: "selector_get_pids_internal (m 0) d 0 = Some (b, nb)" "pb_ok b nb" by (auto simp: sel_inv_def)
  from get_pids_any [of ?d1 "m 1"] sp obtain a na where
    a: "selector_get_pids_internal (m 1) ?d1 0 = Some (a, na)" "pb_ok a na" by (auto simp: sel_inv_def)
  from pid_change_any [OF b(2) a(2), of md] obtain c where
    c: "pid_change_calls md (b, nb) (a, na) = Some c" "calls_refs c = {#}" by blast
  from selPortRSU_run [of ?d1 H k] sp obtain d' where d': "selPortRSU ?d1 k = Some d'" "sel_inv d' H" by auto
  have dup: "(if n = 0 \<or> ps = None then Some (set_pids k 0 None d)
      else do { x \<leftarrow> pidbufDup mdup ps n; Some (set_pids k n x d) }) = Some ?d1"
    using pidbufDup_ok [OF args(1)] pb_ok_cases [OF args(1)] dup by auto
  show ?thesis
    using a b c d' k sp dup by (cases "c = []") (simp_all add: selectorModPortUnsafe_def)
qed

text \<open>When the copy of the new array fails, the port is left with a count and no array, and the next
  collection of the PIDs, in the same call, reads through the null pointer.\<close>

lemma mod_port_null:
  assumes inv: "sel_inv d H" and k: "map_of (ports d) k = Some prt" and n: "n \<noteq> 0" "ps \<noteq> None"
  shows "selectorModPortUnsafe (\<lambda>_ _. True) False md d (Some k) n ps = None"
proof -
  have pi: "port_inv d" using inv by (simp add: sel_inv_def)
  then have dk: "distinct (map fst (ports d))" by (simp add: port_inv_def)
  from ports_split [OF dk k] obtain A B where
    spl: "ports d = A @ (k, prt) # B" "k \<notin> fst ` set A" "k \<notin> fst ` set B" by metis
  from get_pids_run [OF pi, of 0] obtain b nb where
    b: "selector_get_pids_internal (\<lambda>_. True) d 0 = Some (b, nb)" by blast
  from get_pids_full [OF pi] obtain s2 where "get_pids_ports (\<lambda>_. True) (ports d) ([], 0, 128) = Some (Inr s2)" by blast
  then obtain s1 where "get_pids_ports (\<lambda>_. True) A ([], 0, 128) = Some (Inr s1)"
    unfolding spl(1) get_pids_ports_append
    by (cases rule: early_cases [of "get_pids_ports (\<lambda>_. True) A ([], 0, 128)"]) auto
  moreover have "port_pids (prt\<lparr>num_pids := n, pids := None\<rparr>) = None" using n(1) by (simp add: port_pids_def)
  ultimately have "get_pids_ports (\<lambda>_. True) (ports (set_pids k n None d)) ([], 0, 128) = None"
    by (simp add: set_pids_split [OF spl] get_pids_ports_append)
  then have "selector_get_pids_internal (\<lambda>_. True) (set_pids k n None d) 0 = None"
    by (simp add: selector_get_pids_internal_def)
  moreover have "pidbufDup False ps n = Some None" by (simp add: pidbufDup_def utlCalloc16_def)
  moreover obtain l where "ps = Some l" using n(2) by blast
  ultimately show ?thesis using b k n(1) by (simp add: selectorModPortUnsafe_def)
qed

lemma remove_port_state:
  assumes inv: "sel_inv d H" and k: "map_of (ports d) k = Some prt"
  shows "\<exists>s1. drain (q prt) d = Some s1 \<and> sel_inv (s1\<lparr>ports := filter (\<lambda>x. fst x \<noteq> k) (ports s1)\<rparr>) H \<and>
    view (s1\<lparr>ports := filter (\<lambda>x. fst x \<noteq> k) (ports s1)\<rparr>) = filter (\<lambda>x. fst x \<noteq> k) (view d)"
proof -
  have pi: "port_inv d" using inv by (simp add: sel_inv_def)
  then have dk: "distinct (map fst (ports d))" by (simp add: port_inv_def)
  from ports_split [OF dk k] obtain A B where
    spl: "ports d = A @ (k, prt) # B" "k \<notin> fst ` set A" "k \<notin> fst ` set B" by metis
  let ?fb = "\<lambda>ps. concat (map (\<lambda>x. map fst (q (snd x))) ps)" and ?fr = "\<lambda>ps. concat (map (\<lambda>x. map snd (q (snd x))) ps)"
  let ?E = "set (?fb A) \<union> set (?fb B)" and ?R = "mset (?fr A) + mset (?fr B) + H"
  have qd: "distinct (qblocks d)" "pool.safe (elements d, callocs d) (set (qblocks d))"
    using pi by (auto simp: port_inv_def)
  have E: "set (qblocks d) = ?E \<union> set (map fst (q prt))" "?E \<inter> set (map fst (q prt)) = {}" "distinct (map fst (q prt))"
    "distinct (?fb (A @ B))"
    using qd(1) unfolding qblocks_append [OF spl(1)] map_append concat_append distinct_append set_append by blast+
  have R: "refs d H = ?R + mset (map snd (q prt))"
    using qrefs_append [OF spl(1)] by simp
  have "ref_inv d (?R + mset (map snd (q prt)))"
    using inv unfolding sel_inv_def R by simp
  from drain_run [OF this _ E(3,2)] qd(2) obtain pl el m n where
    dr: "drain (q prt) d = Some (d\<lparr>payload := pl, elements := el, num_buffers := n, mem := m\<rparr>)"
    "ref_inv (d\<lparr>payload := pl, elements := el, num_buffers := n, mem := m\<rparr>) ?R" "pool.safe (el, callocs d) ?E"
    unfolding E(1) by blast
  let ?d = "d\<lparr>payload := pl, elements := el, num_buffers := n, mem := m, ports := A @ B\<rparr>"
  have "filter (\<lambda>x. fst x \<noteq> k) A = A" "filter (\<lambda>x. fst x \<noteq> k) B = B"
    using spl(2,3) by (auto simp: filter_id_conv image_iff)
  then have f: "filter (\<lambda>x. fst x \<noteq> k) (ports d) = A @ B" using spl(1) by simp
  have "qblocks ?d = ?fb (A @ B)" "qrefs ?d = mset (?fr A) + mset (?fr B)" by (simp_all add: qblocks_def qrefs_def)
  with dr(2,3) E(4) pi spl have inv': "sel_inv ?d H"
    by (simp add: sel_inv_def port_inv_def)
  moreover have "view ?d = filter (\<lambda>x. fst x \<noteq> k) (view d)"
    using f by (simp add: view_of_def filter_map o_def)
  ultimately show ?thesis using dr(1) f inv' by simp
qed

lemma remove_port_run:
  assumes inv: "sel_inv d H" and k: "map_of (ports d) k = Some prt"
  shows "\<exists>d' c. selectorRemovePort (\<lambda>_ _. True) (\<lambda>_ _. True) d (Some k) = Some (0, d', c) \<and>
    sel_inv d' H \<and> calls_refs c = {#} \<and> frontend c (selected d) = selected d' \<and>
    view d' = filter (\<lambda>x. fst x \<noteq> k) (view d)"
proof -
  from remove_port_state [OF inv k] obtain s1 where s1: "drain (q prt) d = Some s1" by blast
  define d' where "d' = s1\<lparr>ports := filter (\<lambda>x. fst x \<noteq> k) (ports s1)\<rparr>"
  from remove_port_state [OF inv k] s1 have d': "sel_inv d' H" "view d' = filter (\<lambda>x. fst x \<noteq> k) (view d)"
    by (simp_all add: d'_def)
  from get_pids_run [of d 0] inv obtain b nb where
    b: "selector_get_pids_internal (\<lambda>_. True) d 0 = Some (b, nb)" "pb_ok b nb" "set (pids_of b) = selected d"
    by (auto simp: sel_inv_def)
  from get_pids_run [of d' 0] d'(1) obtain a na where
    a: "selector_get_pids_internal (\<lambda>_. True) d' 0 = Some (a, na)" "pb_ok a na" "set (pids_of a) = selected d'"
    by (auto simp: sel_inv_def)
  from pid_change_run [OF b(2) a(2)] b(3) a(3) obtain add rmv where
    c: "pid_change_calls (\<lambda>_ _. True) (b, nb) (a, na) = Some (if selected d = selected d' then [] else [PidChange add rmv])"
      "set add = selected d' - selected d" "set rmv = selected d - selected d'" by auto
  let ?c = "if selected d = selected d' then [] else [PidChange add rmv]"
  have "frontend ?c (selected d) = selected d'" "calls_refs ?c = {#}" using c(2,3) by auto
  moreover have "selectorRemovePort (\<lambda>_ _. True) (\<lambda>_ _. True) d (Some k) = Some (0, d', ?c)"
    using k b(1) a(1) c(1) s1 by (simp add: selectorRemovePort_def d'_def)
  ultimately show ?thesis using d' by blast
qed

lemma remove_port_any:
  assumes inv: "sel_inv d H" and k: "map_of (ports d) k = Some prt"
  shows "\<exists>d' c. selectorRemovePort m md d (Some k) = Some (0, d', c) \<and> sel_inv d' H \<and> calls_refs c = {#}"
proof -
  from remove_port_state [OF inv k] obtain s1 where s1: "drain (q prt) d = Some s1" by blast
  define d' where "d' = s1\<lparr>ports := filter (\<lambda>x. fst x \<noteq> k) (ports s1)\<rparr>"
  from remove_port_state [OF inv k] s1 have d': "sel_inv d' H" by (simp add: d'_def)
  from get_pids_any [of d "m 0"] inv obtain b nb where
    b: "selector_get_pids_internal (m 0) d 0 = Some (b, nb)" "pb_ok b nb" by (auto simp: sel_inv_def)
  from get_pids_any [of d' "m 1"] d' obtain a na where
    a: "selector_get_pids_internal (m 1) d' 0 = Some (a, na)" "pb_ok a na" by (auto simp: sel_inv_def)
  from pid_change_any [OF b(2) a(2), of md] obtain c where
    "pid_change_calls md (b, nb) (a, na) = Some c" "calls_refs c = {#}" by blast
  with k b(1) a(1) s1 d' show ?thesis by (simp add: selectorRemovePort_def d'_def)
qed

lemma reinit_loop_run:
  assumes "sel_inv d H" "set ks \<subseteq> fst ` set (ports d)"
  shows "\<exists>d'. reinit_loop ks d = Some d' \<and> sel_inv d' H \<and>
    map (\<lambda>(k, num, a, s, Q). (k, a, s)) (view d') =
    map (\<lambda>(k, num, a, s, Q). (k, if k \<in> set ks then None else a, s)) (view d)"
  using assms
proof (induction ks arbitrary: d)
  case Nil
  then show ?case by simp
next
  case (Cons k ks)
  then obtain prt where k: "map_of (ports d) k = Some prt"
    by (metis (no_types, lifting) insert_subset list.simps(15) map_of_eq_None_iff not_None_eq)
  from remove_packets_run [OF Cons.prems(1) k] obtain d1 where
    d1: "selector_port_remove_packets d k = Some d1" "sel_inv d1 H"
      "view d1 = queue_filter (bodies d) k (\<lambda>b. sb_type b = 0) (view d)" by blast
  have keys: "map fst (ports d1) = map fst (ports d)"
    using arg_cong [OF d1(3), of "map fst"] by (simp add: view_of_def queue_filter_def case_prod_beta o_def)
  then have sk: "fst ` set (ports d1) = fst ` set (ports d)" by (metis list.set_map)
  then obtain prt1 where k1: "map_of (ports d1) k = Some prt1"
    using Cons.prems(2) by (metis (no_types, lifting) insert_subset list.simps(15) map_of_eq_None_iff not_None_eq)
  let ?d2 = "set_pids k 0 None d1"
  from set_pids_run [OF d1(2) k1, of None 0] have d2: "sel_inv ?d2 H" "view ?d2 = repid k 0 None (view d1)" by auto
  have "map fst (ports ?d2) = map fst (ports d1)" by (simp add: set_pids_def case_prod_beta o_def)
  then have "fst ` set (ports ?d2) = fst ` set (ports d)" using sk by (metis list.set_map)
  with Cons.IH [OF d2(1)] Cons.prems(2) obtain d' where
    d': "reinit_loop ks ?d2 = Some d'" "sel_inv d' H"
      "map (\<lambda>(k, num, a, s, Q). (k, a, s)) (view d') =
       map (\<lambda>(k, num, a, s, Q). (k, if k \<in> set ks then None else a, s)) (view ?d2)" by auto
  have "map (\<lambda>(k, num, a, s, Q). (k, a, s)) (view d') =
      map (\<lambda>(k', num, a, s, Q). (k', if k' \<in> set (k # ks) then None else a, s)) (view d)"
    unfolding d'(3) d2(2) d1(3) repid_def queue_filter_def map_map
    by (rule map_cong) (auto split: prod.splits)
  with d1(1) d' show ?case by auto
qed

lemma reinit_run:
  assumes "sel_inv d H"
  shows "\<exists>d'. selectorReinit d = Some d' \<and> sel_inv d' H \<and> selected d' = {}"
proof -
  from reinit_loop_run [OF assms, of "map fst (ports d)"] obtain d' where
    d': "reinit_loop (map fst (ports d)) d = Some d'" "sel_inv d' H"
      "map (\<lambda>(k, num, a, s, Q). (k, a, s)) (view d') =
       map (\<lambda>(k, num, a, s, Q). (k, if k \<in> set (map fst (ports d)) then None else a, s)) (view d)" by auto
  have "fst (snd (snd x)) = None" if "x \<in> set (view d')" for x
  proof -
    let ?F = "\<lambda>(k, num :: u16, a :: pid_array, s :: bool, Q :: nat list). (k :: nat, a, s)"
    from that have "?F x \<in> set (map ?F (view d'))" by simp
    then obtain y where "y \<in> set (view d)"
      "?F x = (case y of (k, num, a, s, Q) \<Rightarrow> (k, if k \<in> set (map fst (ports d)) then None else a, s))"
      unfolding d'(3) by auto
    moreover from this(1) have "fst y \<in> set (map fst (ports d))" by (force simp: view_of_def)
    ultimately show ?thesis by (auto split: prod.splits)
  qed
  then have "selected d' = {}" by (auto simp: selected_view)
  with d' show ?thesis by (auto simp: selectorReinit_def)
qed

lemma alloc_run:
  assumes "sel_inv d H" "size (refs d H) < 2 ^ 32 - 1" "selectorAllocElementUnsafe ok d = (d', rv)"
  shows "case rv of None \<Rightarrow> sel_inv d' H \<and> (num_buffers d \<ge> limit d \<or> (\<exists>j. \<not> ok j))
    | Some p \<Rightarrow> sel_inv d' (add_mset p H) \<and> p \<notin># refs d H \<and> num_buffers d < limit d"
proof (cases "num_buffers d \<ge> limit d")
  case True
  with assms show ?thesis by (auto simp: selectorAllocElementUnsafe_def)
next
  case False
  obtain l n m where ml: "rcptrMallocIl ok zero_buf (payload d, callocs d) (mem d) = (rv, (l, n), m)"
    and d': "d' = d\<lparr>payload := l, callocs := n, mem := m, num_buffers := (if rv = None then num_buffers d else num_buffers d + 1)\<rparr>"
    using False assms(3) by (auto simp: selectorAllocElementUnsafe_def split: prod.splits)
  have ri: "ref_inv d (refs d H)" "port_inv d" using assms(1) by (auto simp: sel_inv_def)
  note mr = malloc_run [OF ri(1) assms(2) ml]
  have pi: "port_inv (d\<lparr>callocs := n\<rparr>)" using ri(2) mr(1) by (rule port_inv_callocs)
  show ?thesis
  proof (cases rv)
    case None
    have "port_inv d'" using pi unfolding d' by (simp add: port_inv_def qblocks_def)
    with None mr(2) d' show ?thesis by (auto simp: sel_inv_def)
  next
    case (Some p)
    have "port_inv d'" using pi unfolding d' by (simp add: port_inv_def qblocks_def)
    with Some mr(3) [OF Some] d' False show ?thesis by (auto simp: sel_inv_def)
  qed
qed

lemma add_port_run:
  assumes "sel_inv d H" "selectorAddPortSyncUnsafe ok d s = (d', rv)"
  shows "sel_inv d' H \<and> selected d' = selected d \<and> mem d' = mem d \<and>
    (case rv of None \<Rightarrow> \<exists>j. \<not> ok j | Some k \<Rightarrow> k \<notin> fst ` set (ports d) \<and> view d' = (k, 0, None, s, []) # view d)"
proof -
  let ?n = "callocs d"
  have c: "sel_inv (d\<lparr>callocs := Suc ?n\<rparr>) H"
    using assms(1) ref_inv_callocs [of d _ "Suc ?n"] port_inv_callocs [of d "Suc ?n"] by (simp add: sel_inv_def)
  have new: "?n \<notin> fst ` set (ports d)"
    using assms(1) by (auto simp: sel_inv_def port_inv_def)
  show ?thesis
  proof (cases "ok ?n")
    case False
    with assms(2) c show ?thesis by (auto simp: selectorAddPortSyncUnsafe_def selected_def Let_def)
  next
    case True
    then have d': "d' = (d\<lparr>callocs := Suc ?n\<rparr>)\<lparr>ports := (?n, \<lparr>num_pids = 0, pids = None, q = [], is_sync = s\<rparr>) # ports d\<rparr>"
      "rv = Some ?n" using assms(2) by (auto simp: selectorAddPortSyncUnsafe_def Let_def)
    have "qblocks d' = qblocks d" "qrefs d' = qrefs d" unfolding d' by (simp_all add: qblocks_def qrefs_def)
    with c new d' show ?thesis
      by (simp add: sel_inv_def port_inv_def pids_ok_def selected_def qblocks_def)
  qed
qed


text \<open>Sending an event: no more copies than ports and PIDs are made.\<close>

definition fan_bound :: "(nat \<times> sel_port) list \<Rightarrow> nat" where
  "fan_bound ps = sum_list (map (\<lambda>x. Suc (length (pids_of (pids (snd x))))) ps)"

lemma fan_out_bound: "fan_out evt pid ps \<le> fan_bound ps"
  unfolding fan_out_def fan_bound_def
  by (rule sum_list_mono) (auto simp: copies_def intro: le_SucI count_le_length)

lemma overwrite_run:
  assumes "sel_inv d H" "mem d p = Some blk" "length (sb_data b) = TS_LEN"
  shows "sel_inv (d\<lparr>mem := (mem d)(p \<mapsto> blk\<lparr>rc_body := b\<rparr>)\<rparr>) H"
proof -
  have dom: "dom ((mem d)(p \<mapsto> blk\<lparr>rc_body := b\<rparr>)) = dom (mem d)" using assms(2) by auto
  have "blk_ok (mem d x) (count (refs d H) x)" for x
    using assms(1) unfolding sel_inv_def ref_inv_def by blast
  from this [of p] this have "blk_ok (((mem d)(p \<mapsto> blk\<lparr>rc_body := b\<rparr>)) x) (count (refs d H) x)" for x
    using assms(2,3) by auto
  with assms(1) dom show ?thesis by (simp add: sel_inv_def ref_inv_def)
qed

lemma evt_bytes_length:
  assumes "evt_bytes evt e sz old = Some bs" "length old = TS_LEN" "sz \<le> sizeof_DvbEvtD"
  shows "length bs = TS_LEN"
  using assms by (auto simp: evt_bytes_def Let_def TS_LEN_def sizeof_DvbEvtD_def split: option.splits if_splits)

lemma snd_evt_run:
  assumes inv: "sel_inv d H" and room: "size (refs d H) + 1 + fan_bound (ports d) < 2 ^ 32"
    and e: "case e of None \<Rightarrow> True | Some bs \<Rightarrow> sz \<le> length bs"
  shows "case selectorSndEvt ok oke d evt e sz of
      None \<Rightarrow> \<exists>j. \<not> oke j
    | Some (r, d', c) \<Rightarrow> sel_inv d' (H + calls_refs c) \<and>
        (if r = 0
         then \<exists>p. p \<notin># refs d H \<and> c = sync_calls True 0 p (ports d) \<and>
           view d' = map (\<lambda>(k, num, a, s, Q). (k, num, a, s, if s then Q else Q @ [p])) (view d)
         else c = [] \<and> view d' = view d \<and> (sz > sizeof_DvbEvtD \<or> (\<exists>j. \<not> ok j)))"
proof (cases "sz > sizeof_DvbEvtD")
  case True
  with inv show ?thesis by (simp add: selectorSndEvt_def)
next
  case False
  obtain rv l n m where ml: "rcptrMallocIl ok zero_buf (payload d, callocs d) (mem d) = (rv, (l, n), m)"
    by (metis surj_pair)
  have ri: "ref_inv d (refs d H)" "port_inv d" "size (refs d H) < 2 ^ 32 - 1" using inv room by (auto simp: sel_inv_def)
  note mr = malloc_run [OF ri(1,3) ml]
  have pi: "port_inv (d\<lparr>callocs := n\<rparr>)" using ri(2) mr(1) by (rule port_inv_callocs)
  show ?thesis
  proof (cases rv)
    case None
    then have "sel_inv (d\<lparr>payload := l, callocs := n, mem := m\<rparr>) H"
      using mr(2) pi by (simp add: sel_inv_def) (simp add: port_inv_def qblocks_def)
    with None False ml mr(2) show ?thesis by (simp add: selectorSndEvt_def)
  next
    case (Some p)
    from mr(3) [OF Some] obtain blk where blk: "p \<notin># refs d H" "m p = Some blk"
      and ri1: "ref_inv (d\<lparr>payload := l, callocs := n, mem := m, num_buffers := num_buffers d + 1\<rparr>) (add_mset p (refs d H))"
      by auto
    let ?d1 = "d\<lparr>payload := l, callocs := n, mem := m, num_buffers := num_buffers d + 1\<rparr>"
    have s1: "sel_inv ?d1 (add_mset p H)"
      using ri1 pi by (simp add: sel_inv_def) (simp add: port_inv_def qblocks_def)
    have "blk_ok (mem ?d1 p) (count (refs ?d1 (add_mset p H)) p)"
      using s1 unfolding sel_inv_def ref_inv_def by blast
    then have len: "length (sb_data (rc_body blk)) = TS_LEN" using blk(2) by simp
    obtain bs where bs: "evt_bytes evt e sz (sb_data (rc_body blk)) = Some bs"
      using e by (auto simp: evt_bytes_def Let_def split: option.splits)
    then have lb: "length bs = TS_LEN" using evt_bytes_length [OF bs len] False by simp
    let ?b = "\<lparr>sb_type = 1, sb_data = bs\<rparr>"
    let ?d2 = "d\<lparr>payload := l, callocs := n, num_buffers := num_buffers d + 1, mem := m(p \<mapsto> blk\<lparr>rc_body := ?b\<rparr>)\<rparr>"
    have s2: "sel_inv ?d2 (add_mset p H)"
      using overwrite_run [OF s1, of p blk ?b] blk(2) lb by simp
    have b2: "bodies ?d2 p = Some ?b" by (simp add: bodies_def)
    have "size (refs ?d2 (add_mset p H)) + fan_out (sb_type ?b \<noteq> 0) (ts_pid (sb_data ?b)) (ports ?d2) < 2 ^ 32"
      using room fan_out_bound [of True "ts_pid bs" "ports d"] by simp
    note fr = feed_run [OF s2 b2 this, of oke]
    have sc: "sync_calls True x p (ports d) = sync_calls True 0 p (ports d)" for x
      by (simp only: sync_calls_def copies_def if_True)
    show ?thesis
    proof (cases "selectorFeedUnsafe oke ?d2 p")
      case None
      with fr Some False ml blk(2) bs show ?thesis by (simp add: selectorSndEvt_def)
    next
      case (Some dc)
      with fr \<open>rv = Some p\<close> False ml blk bs sc show ?thesis
        by (cases dc) (auto simp: selectorSndEvt_def)
    qed
  qed
qed

lemma frontend_append: "frontend (c1 @ c2) F = frontend c2 (frontend c1 F)"
  by (induction c1 F rule: frontend.induct) auto

lemma clear_ports_run:
  assumes "sel_inv d H" "set ks \<subseteq> fst ` set (ports d)" "distinct ks"
  shows "\<exists>d' c. clear_ports (\<lambda>_ _. True) (\<lambda>_ _. True) ks d = Some (d', c) \<and> sel_inv d' H \<and>
    view d' = filter (\<lambda>x. fst x \<notin> set ks) (view d) \<and> frontend c (selected d) = selected d'"
  using assms
proof (induction ks arbitrary: d)
  case Nil
  then show ?case by simp
next
  case (Cons k ks)
  then obtain prt where k: "map_of (ports d) k = Some prt"
    by (metis (no_types, lifting) insert_subset list.simps(15) map_of_eq_None_iff not_None_eq)
  from remove_port_run [OF Cons.prems(1) k] obtain d1 c1 where
    d1: "selectorRemovePort (\<lambda>_ _. True) (\<lambda>_ _. True) d (Some k) = Some (0, d1, c1)" "sel_inv d1 H"
      "frontend c1 (selected d) = selected d1" "view d1 = filter (\<lambda>x. fst x \<noteq> k) (view d)" by blast
  have keys: "fst ` set (view_of ps) = fst ` set ps" for ps by (force simp: view_of_def)
  have "fst ` set (ports d1) = fst ` set (ports d) - {k}"
    unfolding keys [symmetric] d1(4) by auto
  with Cons.prems have "set ks \<subseteq> fst ` set (ports d1)" by auto
  from Cons.IH [OF d1(2) this] Cons.prems(3) obtain d2 c2 where
    d2: "clear_ports (\<lambda>_ _. True) (\<lambda>_ _. True) ks d1 = Some (d2, c2)" "sel_inv d2 H"
      "view d2 = filter (\<lambda>x. fst x \<notin> set ks) (view d1)" "frontend c2 (selected d1) = selected d2" by auto
  have "view d2 = filter (\<lambda>x. fst x \<notin> set (k # ks)) (view d)"
    unfolding d2(3) d1(4) filter_filter by (rule filter_cong) auto
  with d1 d2 show ?case by (auto simp: frontend_append)
qed

lemma clear_run:
  assumes "sel_inv d H"
  shows "\<exists>fr c m. selectorClear (\<lambda>_ _. True) (\<lambda>_ _. True) d = Some (fr, c, m) \<and> dom m = set_mset H \<and>
    frontend c (selected d) = {}"
proof -
  have "distinct (map fst (ports d))" using assms by (simp add: sel_inv_def port_inv_def)
  from clear_ports_run [OF assms _ this] obtain d' c where
    d': "clear_ports (\<lambda>_ _. True) (\<lambda>_ _. True) (map fst (ports d)) d = Some (d', c)" "sel_inv d' H"
      "view d' = filter (\<lambda>x. fst x \<notin> set (map fst (ports d))) (view d)" "frontend c (selected d) = selected d'"
    by auto
  have "\<forall>x\<in>set (view d). fst x \<in> set (map fst (ports d))" by (force simp: view_of_def)
  then have "view d' = []" unfolding d'(3) by (simp add: filter_empty_conv)
  then have p: "ports d' = []" by (simp add: view_of_def)
  then have "dom (mem d') = set_mset H"
    using ref_inv_dom [of d' "refs d' H"] d'(2) by (simp add: sel_inv_def qrefs_def)
  moreover have "selected d' = {}" using p by (simp add: selected_def)
  ultimately show ?thesis using d'(1,4) by (simp add: selectorClear_def)
qed

subsection \<open>Whole runs\<close>

text \<open>The clients of a selector: the transfer thread allocates, fills and feeds blocks, readers
  read and release them, and ports come and go.  \<open>H\<close> is the multiset of references the
  clients hold.  An operation that does not respect the contract (\<open>sel_pre\<close>) is a misuse.\<close>

text \<open>Which allocations of arrays of PIDs succeed: those of the sets before and after the change, the copy
  of the port's own array, and the differences for the frontend.\<close>

record pid_alloc =
  al_get :: "nat \<Rightarrow> u16 \<Rightarrow> bool"
  al_dup :: bool
  al_diff :: "nat \<Rightarrow> nat \<Rightarrow> bool"

datatype sel_op =
    OpAddPort bool
  | OpRemovePort nat pid_alloc
  | OpModPort nat u16 pid_array pid_alloc
  | OpReinit
  | OpAlloc
  | OpFill nat buffer
  | OpFeed nat
  | OpSndEvt u8 buffer
  | OpRead nat
  | OpRelease nat

datatype outcome = Done selector "nat multiset" | Misuse | Fault sel_op

definition sel_pre :: "sel_op \<Rightarrow> selector \<Rightarrow> nat multiset \<Rightarrow> bool" where
  "sel_pre op d H = (case op of
     OpAddPort _ \<Rightarrow> True
   | OpRemovePort k al \<Rightarrow> map_of (ports d) k \<noteq> None
   | OpModPort k n ps al \<Rightarrow> map_of (ports d) k \<noteq> None \<and> pb_ok ps n \<and> (\<forall>x\<in>set (pids_of ps). unat x < 8192)
   | OpReinit \<Rightarrow> True
   | OpAlloc \<Rightarrow> size (refs d H) < 2 ^ 32 - 1
   | OpFill p bs \<Rightarrow> p \<in># H \<and> length bs = TS_LEN
   | OpFeed p \<Rightarrow> p \<in># H \<and> size (refs d H) + fan_bound (ports d) < 2 ^ 32
   | OpSndEvt _ _ \<Rightarrow> size (refs d H) + 1 + fan_bound (ports d) < 2 ^ 32
   | OpRead k \<Rightarrow> map_of (ports d) k \<noteq> None
   | OpRelease p \<Rightarrow> p \<in># H)"

text \<open>\<open>ok\<close> tells which allocations of ports and blocks succeed, \<open>oke\<close> which of queue entries.\<close>

definition sel_exec :: "(nat \<Rightarrow> bool) \<Rightarrow> (nat \<Rightarrow> bool) \<Rightarrow> sel_op \<Rightarrow> selector \<Rightarrow> nat multiset \<Rightarrow> (selector \<times> nat multiset) option" where
  "sel_exec ok oke op d H = (case op of
     OpAddPort s \<Rightarrow> Some (fst (selectorAddPortSyncUnsafe ok d s), H)
   | OpRemovePort k al \<Rightarrow> map_option (\<lambda>(r, d', c). (d', H + calls_refs c))
       (selectorRemovePort (al_get al) (al_diff al) d (Some k))
   | OpModPort k n ps al \<Rightarrow> map_option (\<lambda>(r, d', c). (d', H + calls_refs c))
       (selectorModPortUnsafe (al_get al) (al_dup al) (al_diff al) d (Some k) n ps)
   | OpReinit \<Rightarrow> map_option (\<lambda>d'. (d', H)) (selectorReinit d)
   | OpAlloc \<Rightarrow> (case selectorAllocElementUnsafe ok d of
       (d', None) \<Rightarrow> Some (d', H) | (d', Some p) \<Rightarrow> Some (d', add_mset p H))
   | OpFill p bs \<Rightarrow> (case mem d p of
       None \<Rightarrow> None
     | Some blk \<Rightarrow> Some (d\<lparr>mem := (mem d)(p \<mapsto> blk\<lparr>rc_body := \<lparr>sb_type = 0, sb_data = bs\<rparr>\<rparr>)\<rparr>, H))
   | OpFeed p \<Rightarrow> map_option (\<lambda>(d', c). (d', H - {#p#} + calls_refs c)) (selectorFeedUnsafe oke d p)
   | OpSndEvt evt bs \<Rightarrow> map_option (\<lambda>(r, d', c). (d', H + calls_refs c)) (selectorSndEvt ok oke d evt (Some bs) (length bs))
   | OpRead k \<Rightarrow> (case selectorReadElementUnsafe d (Some k) of
       None \<Rightarrow> None | Some (d', None) \<Rightarrow> Some (d', H) | Some (d', Some p) \<Rightarrow> Some (d', add_mset p H))
   | OpRelease p \<Rightarrow> map_option (\<lambda>d'. (d', H - {#p#})) (selectorReleaseElementUnsafe d p))"

fun sel_run :: "(nat \<Rightarrow> bool) \<Rightarrow> (nat \<Rightarrow> bool) \<Rightarrow> sel_op list \<Rightarrow> selector \<Rightarrow> nat multiset \<Rightarrow> outcome" where
  "sel_run ok oke [] d H = Done d H"
| "sel_run ok oke (op # ops) d H =
     (if sel_pre op d H then
        (case sel_exec ok oke op d H of None \<Rightarrow> Fault op | Some (d', H') \<Rightarrow> sel_run ok oke ops d' H')
      else Misuse)"

text \<open>The operations that make queue entries, and the condition that a port gets its own array of PIDs.\<close>

definition feeds :: "sel_op \<Rightarrow> bool" where
  "feeds op = (case op of OpFeed _ \<Rightarrow> True | OpSndEvt _ _ \<Rightarrow> True | _ \<Rightarrow> False)"

definition pid_copy_ok :: "sel_op \<Rightarrow> bool" where
  "pid_copy_ok op = (case op of OpModPort k n ps al \<Rightarrow> n \<noteq> 0 \<longrightarrow> al_dup al | _ \<Rightarrow> True)"

lemma sel_exec_inv:
  assumes inv: "sel_inv d H" and pre: "sel_pre op d H" and copy: "pid_copy_ok op"
  shows "case sel_exec ok oke op d H of None \<Rightarrow> feeds op \<and> (\<exists>j. \<not> oke j) | Some (d', H') \<Rightarrow> sel_inv d' H'"
proof (cases op)
  case (OpAddPort s)
  with add_port_run [OF inv, of ok s] show ?thesis
    by (cases "selectorAddPortSyncUnsafe ok d s") (simp add: sel_exec_def)
next
  case (OpRemovePort k al)
  with pre obtain prt where "map_of (ports d) k = Some prt" by (auto simp: sel_pre_def)
  from remove_port_any [OF inv this] obtain d' c where
    "selectorRemovePort (al_get al) (al_diff al) d (Some k) = Some (0, d', c)" "sel_inv d' H" "calls_refs c = {#}" by blast
  with OpRemovePort show ?thesis by (simp add: sel_exec_def)
next
  case (OpModPort k n ps al)
  with pre copy obtain prt where "map_of (ports d) k = Some prt" "pb_ok ps n" "\<forall>x\<in>set (pids_of ps). unat x < 8192"
    "n \<noteq> 0 \<longrightarrow> al_dup al"
    by (auto simp: sel_pre_def pid_copy_ok_def)
  from mod_port_any [OF inv this] obtain d' c where
    "selectorModPortUnsafe (al_get al) (al_dup al) (al_diff al) d (Some k) n ps = Some (0, d', c)" "sel_inv d' H" "calls_refs c = {#}"
    by blast
  with OpModPort show ?thesis by (simp add: sel_exec_def)
next
  case OpReinit
  with reinit_run [OF inv] show ?thesis by (auto simp: sel_exec_def)
next
  case OpAlloc
  obtain d' rv where a: "selectorAllocElementUnsafe ok d = (d', rv)" by (metis surj_pair)
  from alloc_run [OF inv _ a] pre OpAlloc a show ?thesis
    by (auto simp: sel_exec_def sel_pre_def split: option.splits)
next
  case (OpFill p bs)
  with pre have p: "p \<in># refs d H" "length bs = TS_LEN" by (auto simp: sel_pre_def)
  from inv have "ref_inv d (refs d H)" by (simp add: sel_inv_def)
  from ref_inv_live [OF this p(1)] obtain blk where "mem d p = Some blk" by metis
  with overwrite_run [OF inv this] p(2) OpFill show ?thesis by (simp add: sel_exec_def)
next
  case (OpFeed p)
  with pre have p: "p \<in># H" by (simp add: sel_pre_def)
  then obtain H' where H: "H = add_mset p H'" by (metis mset_add)
  from inv have "ref_inv d (refs d H)" by (simp add: sel_inv_def)
  from ref_inv_live [OF this, of p] p obtain blk where "mem d p = Some blk" by (metis union_iff)
  then have b: "bodies d p = Some (rc_body blk)" by (simp add: bodies_def)
  have "size (refs d (add_mset p H')) + fan_out (sb_type (rc_body blk) \<noteq> 0) (ts_pid (sb_data (rc_body blk))) (ports d) < 2 ^ 32"
    using pre OpFeed H fan_out_bound [of "sb_type (rc_body blk) \<noteq> 0" "ts_pid (sb_data (rc_body blk))" "ports d"]
    by (simp add: sel_pre_def)
  from feed_run [OF _ b this, of oke] inv H OpFeed show ?thesis
    by (auto simp: sel_exec_def feeds_def split: option.splits)
next
  case (OpSndEvt evt bs)
  with pre snd_evt_run [OF inv, where e = "Some bs" and sz = "length bs" and ok = ok and oke = oke and evt = evt] show ?thesis
    by (auto simp: sel_exec_def feeds_def sel_pre_def split: option.splits)
next
  case (OpRead k)
  with pre obtain prt where "map_of (ports d) k = Some prt" by (auto simp: sel_pre_def)
  from read_run [OF inv this] show ?thesis
    by (cases "q prt") (use OpRead inv in \<open>auto simp: sel_exec_def selectorReadElementUnsafe_def\<close>)
next
  case (OpRelease p)
  with pre obtain H' where H: "H = add_mset p H'" by (auto simp: sel_pre_def dest: mset_add)
  with sel_release [of d p H'] inv OpRelease show ?thesis
    by (auto simp: sel_exec_def selectorReleaseElementUnsafe_def)
qed

lemma sel_run_inv:
  assumes "sel_inv d H" "\<forall>op\<in>set ops. pid_copy_ok op"
  shows "case sel_run ok oke ops d H of Done d' H' \<Rightarrow> sel_inv d' H' | Misuse \<Rightarrow> True
    | Fault op \<Rightarrow> op \<in> set ops \<and> feeds op \<and> (\<exists>j. \<not> oke j)"
  using assms
proof (induction ops arbitrary: d H)
  case Nil
  then show ?case by simp
next
  case (Cons op ops)
  show ?case
  proof (cases "sel_pre op d H")
    case True
    show ?thesis
    proof (cases "sel_exec ok oke op d H")
      case None
      with True sel_exec_inv [OF Cons.prems(1) True, where ok = ok and oke = oke] Cons.prems(2) show ?thesis by simp
    next
      case (Some r)
      obtain d1 H1 where "r = (d1, H1)" by (cases r)
      with True Some sel_exec_inv [OF Cons.prems(1) True, where ok = ok and oke = oke] Cons.prems(2) Cons.IH [of d1 H1] show ?thesis
        by (auto split: outcome.splits)
    qed
  qed simp
qed

lemma init_sel_inv: "sel_inv (selectorInit n lim) {#}"
  by (simp add: sel_inv_def ref_inv_def port_inv_def selectorInit_def rcptrListInit_def itemListInit_def
      sizeof_SelBuf_def sizeof_SelE_def sizeof_RCPtr_def sizeof_SListE_def blank_list_def qrefs_def qblocks_def
      pool.safe_def il_inv_def)


text \<open>A selector with one buffering and one packet-synchronous port and one filled block.\<close>

definition demo_pkt :: buffer where
  "demo_pkt = [0x47, 0x00, 0x11] @ replicate 185 0"


definition demo_port :: "bool \<Rightarrow> u16 list \<Rightarrow> (nat \<times> nat) list \<Rightarrow> sel_port" where
  "demo_port s ps Q = \<lparr>num_pids = of_nat (length ps), pids = Some ps, q = Q, is_sync = s\<rparr>"

definition demo_state :: selector where
  "demo_state =
     \<lparr>ports = [(1, demo_port True [17, 18] []), (0, demo_port False [17] [])],
      payload = \<lparr>il_l = [], il_high_water = 4, il_count = 0, il_size = 200\<rparr>,
      elements = \<lparr>il_l = [], il_high_water = 12, il_count = 0, il_size = 16\<rparr>,
      num_buffers = 1, limit = 4,
      mem = [2 \<mapsto> \<lparr>rc_ctr = 1, rc_id = RCPTR_ID, rc_body = \<lparr>sb_type = 0, sb_data = demo_pkt\<rparr>\<rparr>],
      callocs = 3\<rparr>"

lemma demo_inv: "sel_inv demo_state {#2#}"
  by (simp add: sel_inv_def ref_inv_def port_inv_def demo_state_def demo_port_def qrefs_def qblocks_def
      pool.safe_def il_inv_def il_cached_def il_fresh_def pids_ok_def pb_ok_def demo_pkt_def TS_LEN_def)

lemma demo_fields: "map_of (ports demo_state) 0 = Some (demo_port False [17] [])"
  "bodies demo_state 2 = Some \<lparr>sb_type = 0, sb_data = demo_pkt\<rparr>" "ts_pid demo_pkt = 17" "qrefs demo_state = {#}"
  by (simp_all add: demo_state_def bodies_def demo_pkt_def ts_pid_def qrefs_def demo_port_def)

text \<open>C3: Reference counting of the demultiplexer.  After any sequence of operations of clients
  that only use references they hold (fewer than \<open>2 ^ 32\<close> in all) and 13-bit PIDs, whatever allocations of ports, blocks, queue entries, sets of selected PIDs
  and their differences fail, every live block is counted
  once for every queue entry and every reference held by a client, no block is kept without a
  reference, and the buffer count is the number of live blocks, so that it is zero exactly
  when all queues are empty and nothing is held.  The only fault is the missing check of a
  queue entry allocation while a block is fed or an event is sent: when every queue entry can be allocated, no run of
  such clients faults.  One allocation is assumed to succeed, the copy of a port's own array of PIDs
  (\<open>selectorModPortUnsafe\<close> sets the count without looking at the pointer): when it
  fails for a port and the sets of PIDs can be collected, that call itself dereferences the null pointer.\<close>

theorem selector_counts_references:
  assumes "\<forall>op\<in>set ops. pid_copy_ok op"
  shows "case sel_run ok oke ops (selectorInit n lim) {#} of
     Done d H \<Rightarrow>
       (\<forall>p. (case mem d p of None \<Rightarrow> 0 | Some b \<Rightarrow> unat (rc_ctr b)) = count (refs d H) p) \<and>
       unat (num_buffers d) = card (set_mset (refs d H)) \<and>
       (selectorIsEmpty d \<longleftrightarrow> qrefs d = {#} \<and> H = {#}) \<and>
       (\<forall>k num ps md. map_of (ports d) k \<noteq> None \<and> num \<noteq> 0 \<and> ps \<noteq> None \<longrightarrow>
          selectorModPortUnsafe (\<lambda>_ _. True) False md d (Some k) num ps = None)
   | Misuse \<Rightarrow> True
   | Fault op \<Rightarrow> op \<in> set ops \<and> feeds op \<and> (\<exists>j. \<not> oke j)"
proof -
  have counted: "(\<forall>p. (case mem d p of None \<Rightarrow> 0 | Some b \<Rightarrow> unat (rc_ctr b)) = count (refs d H) p) \<and>
       unat (num_buffers d) = card (set_mset (refs d H)) \<and>
       (selectorIsEmpty d \<longleftrightarrow> qrefs d = {#} \<and> H = {#})" if inv: "sel_inv d H" for d H
  proof -
    from inv have r: "ref_inv d (refs d H)" by (simp add: sel_inv_def)
    then have b: "blk_ok (mem d p) (count (refs d H) p)" for p unfolding ref_inv_def by blast
    have "(case mem d p of None \<Rightarrow> 0 | Some b \<Rightarrow> unat (rc_ctr b)) = count (refs d H) p" for p
      using b [of p] by (cases "mem d p") auto
    moreover have nb: "unat (num_buffers d) = card (set_mset (refs d H))"
      using r ref_inv_dom [OF r] by (simp add: ref_inv_def)
    moreover have "num_buffers d = 0 \<longleftrightarrow> refs d H = {#}"
      using nb by (metis card_0_eq finite_set_mset set_mset_eq_empty_iff unat_eq_zero)
    ultimately show ?thesis by (simp add: selectorIsEmpty_def)
  qed
  have null: "\<forall>k num ps md. map_of (ports d) k \<noteq> None \<and> num \<noteq> 0 \<and> ps \<noteq> None \<longrightarrow>
      selectorModPortUnsafe (\<lambda>_ _. True) False md d (Some k) num ps = None" if "sel_inv d H" for d H
  proof (intro allI impI)
    fix k and num :: u16 and ps :: pid_array and md assume "map_of (ports d) k \<noteq> None \<and> num \<noteq> 0 \<and> ps \<noteq> None"
    moreover from this obtain prt where "map_of (ports d) k = Some prt" by auto
    ultimately show "selectorModPortUnsafe (\<lambda>_ _. True) False md d (Some k) num ps = None"
      using mod_port_null [OF that] by simp
  qed
  note run = sel_run_inv [OF init_sel_inv [of n lim] assms, where ok = ok and oke = oke]
  show ?thesis
  proof (cases "sel_run ok oke ops (selectorInit n lim) {#}")
    case (Done d H)
    with run have "sel_inv d H" by simp
    from counted [OF this] null [OF this] show ?thesis unfolding Done outcome.case by blast
  next
    case (Fault op)
    with run show ?thesis by simp
  qed simp
qed

text \<open>C13: Feeding a block the client holds: with memory available it never faults, the client's
  reference is gone, and the block is appended to the queue of every buffering port once
  for each of its entries with the PID of the packet (once to every port for an event), while
  packet-synchronous ports are called the same number of times, each call owning a reference.\<close>

theorem selectorFeed_delivers:
  assumes "sel_inv d (add_mset p H)" and "bodies d p = Some b"
    and "size (refs d (add_mset p H)) + fan_out (sb_type b \<noteq> 0) (ts_pid (sb_data b)) (ports d) < 2 ^ 32"
  shows "\<exists>d' c. selectorFeedUnsafe (\<lambda>_. True) d p = Some (d', c) \<and> sel_inv d' (H + calls_refs c) \<and>
    c = sync_calls (sb_type b \<noteq> 0) (ts_pid (sb_data b)) p (ports d) \<and>
    view d' = map (\<lambda>(k, num, a, s, Q). (k, num, a, s,
      if s then Q else Q @ replicate (if sb_type b \<noteq> 0 then 1 else count_list (pids_of a) (ts_pid (sb_data b))) p))
      (view d)"
  using feed_run [OF assms, of "\<lambda>_. True"] by (auto split: option.splits)

text \<open>C14: Changing the PIDs of a port to any array of 13-bit PIDs (with memory available) makes one call to the frontend, with exactly the
  PIDs that have become selected and those no port selects any more, each once, so that a frontend that
  filtered the selected PIDs goes on doing so; it is not called when nothing changes.  Only
  if it is called are the packets the port does not select any more dropped from its queue,
  with their references; events stay.\<close>

theorem selectorModPort_follows:
  assumes "sel_inv d H" and "map_of (ports d) k = Some prt" and "pb_ok ps n" and "\<forall>x\<in>set (pids_of ps). unat x < 8192"
  shows "\<exists>d' c. selectorModPortUnsafe (\<lambda>_ _. True) True (\<lambda>_ _. True) d (Some k) n ps = Some (0, d', c) \<and>
    sel_inv d' H \<and> frontend c (selected d) = selected d' \<and> (c = [] \<longleftrightarrow> selected d' = selected d) \<and>
    (c = [] \<or> (\<exists>add rmv. c = [PidChange add rmv] \<and> distinct add \<and> distinct rmv \<and>
       set add = selected d' - selected d \<and> set rmv = selected d - selected d')) \<and>
    view d' = (if c = [] then repid k n ps (view d)
      else queue_filter (bodies d) k (stale_for (set (pids_of ps))) (repid k n ps (view d)))"
  using mod_port_run [OF assms] by blast

theorem selectorFeed_delivers_witness:
  "\<exists>d' c. selectorFeedUnsafe (\<lambda>_. True) demo_state 2 = Some (d', c) \<and> sel_inv d' ({#} + calls_refs c) \<and>
    c = [PacketHere 1 2] \<and> view d' = [(1, 2, Some [17, 18], True, []), (0, 1, Some [17], False, [2])]"
proof -
  have "fan_out False 17 (ports demo_state) = 2"
    by (simp add: fan_out_def copies_def demo_state_def demo_port_def)
  moreover have "sync_calls False 17 2 (ports demo_state) = [PacketHere 1 2]"
    by (simp add: demo_state_def demo_port_def copies_def)
  moreover have "view demo_state = [(1, 2, Some [17, 18], True, []), (0, 1, Some [17], False, [])]"
    by (simp add: demo_state_def demo_port_def)
  ultimately show ?thesis
    using selectorFeed_delivers [OF demo_inv demo_fields(2)] by (simp add: demo_fields)
qed

theorem selectorModPort_follows_witness:
  "\<exists>d' c. selectorModPortUnsafe (\<lambda>_ _. True) True (\<lambda>_ _. True) demo_state (Some 0) 1 (Some [20]) = Some (0, d', c) \<and>
    sel_inv d' {#2#} \<and> frontend c {17, 18} = selected d' \<and> (c = [] \<longleftrightarrow> selected d' = {17, 18})"
proof -
  have "selected demo_state = {17, 18}" by (simp add: selected_def demo_state_def demo_port_def insert_commute)
  moreover have "pb_ok (Some [20]) 1" "\<forall>x\<in>set (pids_of (Some [20 :: u16])). unat x < 8192" by (simp_all add: pb_ok_def)
  ultimately show ?thesis
    using selectorModPort_follows [OF demo_inv demo_fields(1)] by metis
qed

theorem selector_counts_references_witness:
  "\<exists>d. sel_run (\<lambda>_. True) (\<lambda>_. True) [OpAddPort False, OpAlloc, OpFill 1 demo_pkt, OpFeed 1] (selectorInit 0 4) {#} = Done d {#} \<and>
    (selectorIsEmpty d \<longleftrightarrow> qrefs d = {#})"
proof -
  have len: "length demo_pkt = 188" by (simp add: demo_pkt_def)
  from tsGetPid_ts [OF this] have pid: "tsGetPid demo_pkt = Some 17" by (simp add: demo_fields)
  obtain d where d: "sel_run (\<lambda>_. True) (\<lambda>_. True) [OpAddPort False, OpAlloc, OpFill 1 demo_pkt, OpFeed 1] (selectorInit 0 4) {#} = Done d {#}"
    by (simp add: sel_pre_def sel_exec_def selectorAddPortSyncUnsafe_def selectorInit_def rcptrListInit_def itemListInit_def
        sizeof_SelBuf_def sizeof_SelE_def sizeof_RCPtr_def sizeof_SListE_def blank_list_def fan_bound_def qrefs_def
        selectorAllocElementUnsafe_def rcptrMallocIl_def itemAcquire_def itemRelease_def pid len TS_LEN_def selectorFeedUnsafe_def
        port_pids_def selector_release_element_internal_def rcptrReleaseIl_def RCPTR_ID_def calls_refs_def)
  with selector_counts_references [of "[OpAddPort False, OpAlloc, OpFill 1 demo_pkt, OpFeed 1]" "\<lambda>_. True" "\<lambda>_. True" 0 4]
  show ?thesis by (auto simp: pid_copy_ok_def simp del: sel_run.simps)
qed

text \<open>Clearing the demultiplexer in any state with its invariant, with memory available, does
  not fault, releases every queued reference, so that exactly the blocks the clients still
  hold stay live, and tells the frontend to drop every PID.\<close>

theorem selectorClear_releases_queues:
  assumes "sel_inv d H"
  shows "\<exists>fr c m. selectorClear (\<lambda>_ _. True) (\<lambda>_ _. True) d = Some (fr, c, m) \<and> dom m = set_mset H \<and>
    frontend c (selected d) = {}"
  using clear_run [OF assms] .

theorem selectorClear_releases_queues_witness:
  "\<exists>fr c m. selectorClear (\<lambda>_ _. True) (\<lambda>_ _. True) demo_state = Some (fr, c, m) \<and> dom m = {2} \<and>
    frontend c (selected demo_state) = {}"
  using selectorClear_releases_queues [OF demo_inv] by simp

end
