(* ===== verification/SecParse.thy ===== *)
theory SecParse
  imports SecCommon SizeStack
begin

text \<open>
  What the section parsers of stream/pms.c, sds.c, nis.c and eis.c share: opening a section
  (CRC check, maximum size, length field), counting the blocks of a loop by their length
  fields, and the loop over the descriptors of a block.  The state of the size stack is
  described by the ends of its areas and the position of the pointer.
\<close>

subsection \<open>Positions in a size stack\<close>

definition ss_at :: "size_stack \<Rightarrow> nat list \<Rightarrow> nat \<Rightarrow> bool" where
  "ss_at s es p \<longleftrightarrow> ss_inv s \<and> num_bounds s = length es \<and> take (length es) (ss_end s) = map int es \<and> ss_ptr s = int p"

lemma ss_at_ptr: "ss_at s es p \<Longrightarrow> nat (sizeStackPtr s) = p"
  by (simp add: ss_at_def sizeStackPtr_def)

lemma ss_at_end:
  assumes "ss_at s (es @ [e]) p"
  shows "ss_end s ! length es = int e" "p \<le> e"
proof -
  have "take (Suc (length es)) (ss_end s) ! length es = map int (es @ [e]) ! length es"
    using assms by (simp add: ss_at_def)
  then show e: "ss_end s ! length es = int e" by (simp add: nth_append)
  have "ss_ptr s \<le> ss_end s ! length es" using assms by (auto simp: ss_at_def ss_inv_def)
  with e assms show "p \<le> e" by (simp add: ss_at_def)
qed

lemma ss_at_advance:
  assumes "ss_at s (es @ [e]) p"
  shows "if p + unat d + unat n \<le> e
    then \<exists>s'. sizeStackAdvance s d n = Some (0, s') \<and> ss_at s' (es @ [e]) (p + unat d)
    else sizeStackAdvance s d n = Some (1, s)"
proof -
  have inv: "ss_inv s" and nb: "num_bounds s = Suc (length es)" and p: "ss_ptr s = int p"
    using assms by (simp_all add: ss_at_def)
  note e = ss_at_end(1) [OF assms]
  have r: "rd (ss_end s) (length es) = Some (int e)"
    using inv nb e by (simp add: ss_inv_def rd_def)
  have cmp: "ss_ptr s + uint d + uint n > int e \<longleftrightarrow> p + unat d + unat n > e"
    using of_nat_less_iff [of e "p + unat d + unat n", where 'a = int] p by simp
  show ?thesis
  proof (cases "p + unat d + unat n \<le> e")
    case False
    with cmp r nb show ?thesis by (simp add: sizeStackAdvance_def)
  next
    case True
    let ?s = "s\<lparr>ss_ptr := ss_ptr s + uint d\<rparr>"
    have run: "sizeStackAdvance s d n = Some (0, ?s)"
      using True cmp r nb by (simp add: sizeStackAdvance_def)
    moreover have "ss_inv ?s" using advance_run [OF inv, of d n] run by auto
    ultimately show ?thesis using True assms by (simp add: ss_at_def)
  qed
qed

lemma ss_at_push:
  assumes "ss_at s (es @ [e]) p" "length es < 31"
  shows "if p + unat w \<le> e
    then \<exists>s'. sizeStackPush s w = Some (0, s') \<and> ss_at s' (es @ [e] @ [p + unat w]) p
    else sizeStackPush s w = Some (1, s)"
proof -
  have inv: "ss_inv s" and nb: "num_bounds s = Suc (length es)" and p: "ss_ptr s = int p"
    and tk: "take (Suc (length es)) (ss_end s) = map int (es @ [e])"
    using assms by (simp_all add: ss_at_def)
  note e = ss_at_end(1) [OF assms(1)]
  have len: "length (ss_end s) = 32" "length (ss_start s) = 32" using inv by (simp_all add: ss_inv_def)
  have r: "rd (ss_end s) (length es) = Some (int e)"
    using len nb e assms(2) by (simp add: rd_def)
  have cmp: "ss_ptr s + uint w > int e \<longleftrightarrow> p + unat w > e"
    using of_nat_less_iff [of e "p + unat w", where 'a = int] p by simp
  show ?thesis
  proof (cases "p + unat w \<le> e")
    case False
    with cmp r nb assms(2) show ?thesis by (simp add: sizeStackPush_def)
  next
    case True
    let ?s = "s\<lparr>ss_start := (ss_start s)[Suc (length es) := ss_ptr s],
                ss_end := (ss_end s)[Suc (length es) := ss_ptr s + uint w], num_bounds := num_bounds s + 1\<rparr>"
    have run: "sizeStackPush s w = Some (0, ?s)"
      using True cmp r nb len assms(2) by (simp add: sizeStackPush_def)
    moreover have "ss_inv ?s" using push_run [OF inv, of w] run by auto
    moreover have "take (Suc (Suc (length es))) ((ss_end s)[Suc (length es) := ss_ptr s + uint w]) =
        map int (es @ [e] @ [p + unat w])"
      using len assms(2) tk p by (simp add: take_Suc_conv_app_nth take_update_cancel nth_list_update)
    ultimately show ?thesis using True nb p by (simp add: ss_at_def)
  qed
qed

lemma ss_at_pop:
  assumes "ss_at s (es @ [e]) p"
  shows "\<exists>s'. sizeStackPop s = (0, s') \<and> ss_at s' es p"
proof -
  have run: "sizeStackPop s = (0, s\<lparr>num_bounds := length es\<rparr>)"
    using assms by (simp add: sizeStackPop_def ss_at_def)
  have tk: "take (Suc (length es)) (ss_end s) = map int (es @ [e])" using assms by (simp add: ss_at_def)
  have "take (length es) (ss_end s) = take (length es) (take (Suc (length es)) (ss_end s))" by simp
  also have "\<dots> = map int es" by (simp add: tk)
  finally show ?thesis
    using run pop_inv [OF _ run] assms by (simp add: ss_at_def)
qed

subsection \<open>Opening a section\<close>

text \<open>The uninitialised local variable; its contents are overwritten at once.\<close>

definition unset_stack :: size_stack where
  "unset_stack = \<lparr>num_bounds = 0, ss_start = [], ss_end = [], ss_ptr = 0\<rparr>"

text \<open>From \<open>sizeStackInit\<close> to the area of the section's length; \<open>Inl ()\<close> is the error return.\<close>

definition sec_open :: "buffer \<Rightarrow> (unit + size_stack \<times> u64) option" where
  "sec_open pat = do {
     let (r, s) = sizeStackInit unset_stack (Some 0);
     (if r \<noteq> 0 then Some (Inl ())
      else do {
        (r, s) \<leftarrow> sizeStackPush s (word_of_nat MAX_SEC_SIZE);
        (if r \<noteq> 0 then Some (Inl ())
         else do {
           (r, s) \<leftarrow> sizeStackAdvance s 1 2;
           (if r \<noteq> 0 then Some (Inl ())
            else do {
              section_length \<leftarrow> bitsGet pat (nat (sizeStackPtr s)) 4 12;
              (r, s) \<leftarrow> sizeStackAdvance s 2 1;
              (if r \<noteq> 0 then Some (Inl ())
               else do {
                 (r, s) \<leftarrow> sizeStackPush s (ucast section_length);
                 Some (if r \<noteq> 0 then Inl () else Inr (s, section_length))
               })
            })
         })
      })
   }"

abbreviation len_field :: "buffer \<Rightarrow> nat" where
  "len_field pat \<equiv> unat (field pat 12 12)"

lemma len_field_bound: "len_field pat < 4096"
  using field_bound [of 12 pat 12] by simp

lemma ucast_small: "unat (w :: u64) < 4096 \<Longrightarrow> unat (ucast w :: u32) = unat w \<and> unat (ucast w :: u16) = unat w \<and> uint w = int (unat w)"
  by (simp add: unsigned_ucast_eq take_bit_nat_eq_self_iff)

lemma sec_open_run:
  assumes "length pat = 4096"
  shows "if len_field pat \<le> 4093
    then \<exists>s. sec_open pat = Some (Inr (s, field pat 12 12)) \<and> ss_at s [4096, 3 + len_field pat] 3
    else sec_open pat = Some (Inl ())"
proof -
  let ?s0 = "\<lparr>num_bounds = 0, ss_start = replicate 32 0, ss_end = replicate 32 0, ss_ptr = 0\<rparr> :: size_stack"
  let ?s1 = "\<lparr>num_bounds = 1, ss_start = (replicate 32 0)[0 := 0], ss_end = (replicate 32 0)[0 := 4096], ss_ptr = 0\<rparr> :: size_stack"
  have i: "sizeStackInit unset_stack (Some 0) = (0, ?s0)" by (simp add: sizeStackInit_def)
  have p1: "sizeStackPush ?s0 (word_of_nat MAX_SEC_SIZE) = Some (0, ?s1)"
    by (simp add: sizeStackPush_def MAX_SEC_SIZE_def)
  have "ss_at ?s1 ([] @ [4096]) 0" by (simp add: ss_at_def ss_inv_def take_Suc nth_list_update hd_conv_nth)
  from ss_at_advance [OF this, of 1 2] obtain s2 where
    s2: "sizeStackAdvance ?s1 1 2 = Some (0, s2)" "ss_at s2 ([] @ [4096]) 1" by auto
  have g: "bitsGet pat 1 4 12 = Some (field pat 12 12)" using bitsGet_eq [of 12 1 4 pat] assms by simp
  from ss_at_advance [OF s2(2), of 2 1] obtain s3 where
    s3: "sizeStackAdvance s2 2 1 = Some (0, s3)" "ss_at s3 ([] @ [4096]) 3" by (auto simp: numeral_3_eq_3)
  have "unat (ucast (field pat 12 12) :: u32) = len_field pat" using ucast_small [OF len_field_bound] by blast
  with ss_at_push [OF s3(2), of "ucast (field pat 12 12)"] show ?thesis
    using i p1 s2(1) s3(1) ss_at_ptr [OF s2(2)] g by (auto simp: sec_open_def split: if_splits)
qed

subsection \<open>Counting the blocks\<close>

text \<open>\<open>i\<close> bytes are left from offset \<open>j\<close>; a block has \<open>hdr\<close> bytes in front of its length field.
  The count is a \<open>uint16_t\<close>.\<close>

function count_blocks :: "buffer \<Rightarrow> nat \<Rightarrow> nat \<Rightarrow> int \<Rightarrow> nat \<Rightarrow> u16 \<Rightarrow> u16 option" where
  "count_blocks pat ptr hdr i j n =
     (if i > 0 then
        case bitsGet pat (ptr + (j + hdr)) 4 12 of
          None \<Rightarrow> None
        | Some l \<Rightarrow>
            let k = unat l + 2
            in count_blocks pat ptr hdr (i - int hdr - int k) (j + hdr + k) (n + 1)
      else Some n)"
  by pat_completeness auto
termination
proof (relation "measure (\<lambda>(pat, ptr, hdr, i, j, n). nat i)", goal_cases)
  case (2 pat ptr hdr i j n l k)
  have "nat (i - int hdr - int k) < nat i" using 2(1,3) by linarith
  then show ?case by simp
qed simp

declare count_blocks.simps [simp del]

text \<open>The length fields lie in the area if every one that is reached does.\<close>

lemma count_blocks_total:
  assumes "i > 0 \<longrightarrow> int (ptr + j + hdr + 1) + i \<le> int (length pat)"
  shows "\<exists>n'. count_blocks pat ptr hdr i j n = Some n' \<and> (i \<le> 0 \<longrightarrow> n' = n)"
  using assms
proof (induction pat ptr hdr i j n rule: count_blocks.induct)
  case (1 pat ptr hdr i j n)
  show ?case
  proof (cases "i > 0")
    case False
    then show ?thesis by (subst count_blocks.simps) simp
  next
    case True
    with "1.prems" have "int (ptr + (j + hdr) + 2) \<le> int (length pat)" by linarith
    then have inb: "8 * (ptr + (j + hdr)) + 4 + 12 \<le> 8 * length pat" by simp
    let ?l = "field pat (8 * (ptr + (j + hdr)) + 4) 12"
    have g: "bitsGet pat (ptr + (j + hdr)) 4 12 = Some ?l" using bitsGet_eq [OF _ inb] by simp
    have "\<exists>n'. count_blocks pat ptr hdr (i - int hdr - int (unat ?l + 2)) (j + hdr + (unat ?l + 2)) (n + 1) = Some n'"
      using "1.IH" [OF True g refl] "1.prems" True by auto
    with True g show ?thesis by (subst count_blocks.simps) (simp add: Let_def)
  qed
qed

lemma length_field_outside: "length pat < p + 2 \<Longrightarrow> bitsGet pat p 4 12 = None"
  by (auto simp: sec_eval)

text \<open>A count that starts far beyond the buffer leaves it.\<close>

lemma count_blocks_leaves:
  assumes "int (ptr + j) + i > int (length pat) + 4100" "0 < i"
  shows "count_blocks pat ptr hdr i j n = None"
  using assms
proof (induction pat ptr hdr i j n rule: count_blocks.induct)
  case (1 pat ptr hdr i j n)
  show ?case
  proof (cases "bitsGet pat (ptr + (j + hdr)) 4 12")
    case None
    with "1.prems" show ?thesis by (subst count_blocks.simps) simp
  next
    case (Some l)
    note s = Some
    show ?thesis
    proof (cases "ptr + (j + hdr) + 2 \<le> length pat")
      case False
      with s show ?thesis using length_field_outside [of pat "ptr + (j + hdr)"] by simp
    next
      case True
      then have "bitsGet pat (ptr + (j + hdr)) 4 12 = Some (field pat (8 * (ptr + (j + hdr)) + 4) 12)"
        using bitsGet_eq [of 12 "ptr + (j + hdr)" 4 pat] by simp
      with s have "unat l < 4096" using field_bound [of 12 pat] by auto
      then have "int (ptr + (j + hdr + (unat l + 2))) + (i - int hdr - int (unat l + 2)) > int (length pat) + 4100"
        "0 < i - int hdr - int (unat l + 2)"
        using "1.prems" True by linarith+
      from "1.IH" [OF "1.prems"(2) s refl this] s "1.prems"(2) show ?thesis
        by (subst count_blocks.simps) (simp add: Let_def)
    qed
  qed
qed

subsection \<open>The loop over the descriptors\<close>

text \<open>\<open>h s d_tag d_len ptr x\<close> is what the parser does with one descriptor whose data starts at
  \<open>ptr\<close>: a return code and the updated item.  The remaining length is signed here (pms.c and
  nis.c), and the loop ends with the return code, the stack and the item.\<close>

type_synonym 'x handler = "size_stack \<Rightarrow> u8 \<Rightarrow> u8 \<Rightarrow> nat \<Rightarrow> 'x \<Rightarrow> (int \<times> 'x) option"

definition descr_step :: "'x handler \<Rightarrow> buffer \<Rightarrow> size_stack \<Rightarrow> 'x \<Rightarrow> (int \<times> size_stack \<times> 'x \<times> u8) option" where
  "descr_step h pat s x = do {
     (r, s) \<leftarrow> sizeStackAdvance s 0 2;
     (if r \<noteq> 0 then Some (1, s, x, 0)
      else do {
        let ptr = nat (sizeStackPtr s);
        d_tag \<leftarrow> rd pat ptr;
        d_len \<leftarrow> rd pat (ptr + 1);
        (r, s) \<leftarrow> sizeStackAdvance s 2 0;
        (if r \<noteq> 0 then Some (1, s, x, d_len)
         else do {
           (r, s) \<leftarrow> sizeStackPush s (ucast d_len);
           (if r \<noteq> 0 then Some (1, s, x, d_len)
            else do {
              (r, x) \<leftarrow> h s d_tag d_len (nat (sizeStackPtr s)) x;
              (if r \<noteq> 0 then Some (1, s, x, d_len)
               else let (r, s) = sizeStackPop s in
                 if r \<noteq> 0 then Some (1, s, x, d_len)
                 else do {
                   (r, s) \<leftarrow> sizeStackAdvance s (ucast d_len) 0;
                   Some (if r \<noteq> 0 then 1 else 0, s, x, d_len)
                 })
            })
         })
      })
   }"

function descr_loop :: "'x handler \<Rightarrow> buffer \<Rightarrow> size_stack \<Rightarrow> int \<Rightarrow> 'x \<Rightarrow> (int \<times> size_stack \<times> 'x) option" where
  "descr_loop h pat s len x =
     (if len > 0 then
        case descr_step h pat s x of
          None \<Rightarrow> None
        | Some (r, s', x', d_len) \<Rightarrow>
            if r \<noteq> 0 then Some (r, s', x') else descr_loop h pat s' (len - (2 + int (unat d_len))) x'
      else Some (0, s, x))"
  by pat_completeness auto
termination
proof (relation "measure (\<lambda>(h, pat, s, len, x). nat len)", goal_cases)
  case (2 h pat s len x y r b s' ba x' d_len)
  have "nat (len - (2 + int (unat d_len))) < nat len" using 2(1) by linarith
  then show ?case by simp
qed simp

text \<open>In sds.c and eis.c the remaining length is a \<open>uint16_t\<close> that could wrap.\<close>

partial_function (option) descr_loop16 :: "'x handler \<Rightarrow> buffer \<Rightarrow> size_stack \<Rightarrow> u16 \<Rightarrow> 'x \<Rightarrow> (int \<times> size_stack \<times> 'x) option" where
  "descr_loop16 h pat s len x =
     (if len > 0 then
        case descr_step h pat s x of
          None \<Rightarrow> None
        | Some (r, s', x', d_len) \<Rightarrow>
            if r \<noteq> 0 then Some (r, s', x') else descr_loop16 h pat s' (len - (2 + ucast d_len)) x'
      else Some (0, s, x))"

declare descr_loop.simps [simp del]

text \<open>A handler is safe if it never faults on a descriptor that lies inside the buffer, and
  \<open>I\<close> is kept by it.\<close>

definition handler_ok :: "'x handler \<Rightarrow> ('x \<Rightarrow> bool) \<Rightarrow> nat list \<Rightarrow> nat \<Rightarrow> bool" where
  "handler_ok h I es e \<longleftrightarrow> (\<forall>s tag len ptr x. ss_at s (es @ [e] @ [ptr + unat len]) ptr \<longrightarrow> ptr + unat len \<le> e \<longrightarrow> I x \<longrightarrow>
     (\<exists>r x'. h s tag len ptr x = Some (r, x') \<and> I x'))"

lemma ucast_byte [simp]: "unat (ucast (d :: u8) :: u32) = unat d" "unat (ucast (d :: u8) :: u16) = unat d"
  using unsigned_less [of d, where ?'a = nat] by (simp_all add: unsigned_ucast_eq take_bit_nat_eq_self)

lemma descr_step_run:
  assumes "ss_at s (es @ [e]) p" "length es < 31" "e \<le> length pat" "handler_ok h I es e" "I x"
  shows "\<exists>r s' x' d. descr_step h pat s x = Some (r, s', x', d) \<and> I x' \<and>
    (r = 0 \<longrightarrow> ss_at s' (es @ [e]) (p + 2 + unat d) \<and> p + 2 + unat d \<le> e)"
proof -
  note a1 = ss_at_advance [OF assms(1), of 0 2]
  show ?thesis
  proof (cases "p + 2 \<le> e")
    case False
    with a1 assms(5) show ?thesis by (simp add: descr_step_def)
  next
    case True
    with a1 obtain s1 where s1: "sizeStackAdvance s 0 2 = Some (0, s1)" "ss_at s1 (es @ [e]) p" by auto
    have r: "rd pat p = Some (pat ! p)" "rd pat (Suc p) = Some (pat ! Suc p)"
      using True assms(3) by (auto simp: rd_def)
    from ss_at_advance [OF s1(2), of 2 0] True obtain s2 where
      s2: "sizeStackAdvance s1 2 0 = Some (0, s2)" "ss_at s2 (es @ [e]) (p + 2)" by auto
    let ?d = "pat ! Suc p"
    have u: "unat (ucast ?d :: u32) = unat ?d" by simp
    show ?thesis
    proof (cases "p + 2 + unat ?d \<le> e")
      case False
      with ss_at_push [OF s2(2) assms(2), of "ucast ?d"] u have "sizeStackPush s2 (ucast ?d) = Some (1, s2)" by simp
      with s1 s2 r assms(5) ss_at_ptr [OF s1(2)] show ?thesis by (simp add: descr_step_def)
    next
      case True
      with ss_at_push [OF s2(2) assms(2), of "ucast ?d"] u obtain s3 where
        s3: "sizeStackPush s2 (ucast ?d) = Some (0, s3)" "ss_at s3 (es @ [e] @ [p + 2 + unat ?d]) (p + 2)" by auto
      with assms(4,5) True obtain r x' where h: "h s3 (pat ! p) ?d (p + 2) x = Some (r, x')" "I x'"
        unfolding handler_ok_def by meson
      have "ss_at s3 ((es @ [e]) @ [p + 2 + unat ?d]) (p + 2)" using s3(2) by simp
      from ss_at_pop [OF this] obtain s4 where s4: "sizeStackPop s3 = (0, s4)" "ss_at s4 (es @ [e]) (p + 2)" by auto
      from ss_at_advance [OF s4(2), of "ucast ?d" 0] u True obtain s5 where
        s5: "sizeStackAdvance s4 (ucast ?d) 0 = Some (0, s5)" "ss_at s5 (es @ [e]) (p + 2 + unat ?d)" by auto
      show ?thesis
      proof (cases "r = 0")
        case False
        then have "descr_step h pat s x = Some (1, s3, x', ?d)"
          using s1 s2(1) r s3(1) h ss_at_ptr [OF s1(2)] ss_at_ptr [OF s3(2)] by (simp add: descr_step_def)
        with h(2) show ?thesis by auto
      next
        case rz: True
        then have "descr_step h pat s x = Some (0, s5, x', ?d)"
          using s1 s2(1) r s3(1) h s4(1) s5(1) ss_at_ptr [OF s1(2)] ss_at_ptr [OF s3(2)] by (simp add: descr_step_def)
        with h(2) s5(2) True show ?thesis by auto
      qed
    qed
  qed
qed

lemma descr_loop_run:
  assumes "ss_at s (es @ [e]) p" "length es < 31" "e \<le> length pat" "handler_ok h I es e" "I x"
  shows "\<exists>r s' x'. descr_loop h pat s len x = Some (r, s', x') \<and> I x' \<and> (r = 0 \<longrightarrow> (\<exists>p'. ss_at s' (es @ [e]) p'))"
  using assms(1,5)
proof (induction "nat len" arbitrary: len s p x rule: less_induct)
  case less
  show ?case
  proof (cases "len > 0")
    case False
    with less.prems show ?thesis by (subst descr_loop.simps) auto
  next
    case True
    from descr_step_run [OF less.prems(1) assms(2-4) less.prems(2)] obtain r s' x' d where
      st: "descr_step h pat s x = Some (r, s', x', d)" "I x'" "r = 0 \<longrightarrow> ss_at s' (es @ [e]) (p + 2 + unat d)" by auto
    show ?thesis
    proof (cases "r = 0")
      case False
      with st True show ?thesis by (subst descr_loop.simps) auto
    next
      case rz: True
      have "nat (len - (2 + int (unat d))) < nat len" using True by linarith
      with less.hyps [OF this] st rz True show ?thesis by (subst descr_loop.simps) auto
    qed
  qed
qed

text \<open>With an area of exactly the remaining length the 16 bit length never wraps.\<close>

lemma descr_loop16_run:
  assumes "ss_at s (es @ [e]) p" "length es < 31" "e \<le> length pat" "handler_ok h I es e" "I x" "e = p + unat len"
  shows "\<exists>r s' x'. descr_loop16 h pat s len x = Some (r, s', x') \<and> I x' \<and> (r = 0 \<longrightarrow> ss_at s' (es @ [e]) e)"
  using assms(1,5,6)
proof (induction "unat len" arbitrary: len s p x rule: less_induct)
  case less
  show ?case
  proof (cases "len > 0")
    case False
    then have "len = 0" by (simp add: word_less_nat_alt unat_eq_zero)
    with less.prems show ?thesis by (simp add: descr_loop16.simps [of h pat s])
  next
    case True
    from descr_step_run [OF less.prems(1) assms(2-4) less.prems(2)] obtain r s' x' d where
      st: "descr_step h pat s x = Some (r, s', x', d)" "I x'"
        "r = 0 \<longrightarrow> ss_at s' (es @ [e]) (p + 2 + unat d) \<and> p + 2 + unat d \<le> e" by auto
    show ?thesis
    proof (cases "r = 0")
      case False
      with st True show ?thesis by (simp add: descr_loop16.simps [of h pat s])
    next
      case rz: True
      have d2: "unat (2 + ucast d :: u16) = 2 + unat d"
        using unsigned_less [of d, where ?'a = nat] by (simp add: unat_word_ariths)
      moreover have "2 + unat d \<le> unat len" using st rz less.prems(3) by simp
      ultimately have l: "unat (len - (2 + ucast d)) = unat len - (2 + unat d)"
        by (simp add: unat_sub word_le_nat_alt)
      then have "unat (len - (2 + ucast d)) < unat len" "e = p + 2 + unat d + unat (len - (2 + ucast d))"
        using \<open>2 + unat d \<le> unat len\<close> less.prems(3) by auto
      then obtain r2 s2 x2 where "descr_loop16 h pat s' (len - (2 + ucast d)) x' = Some (r2, s2, x2)" "I x2"
          "r2 = 0 \<longrightarrow> ss_at s2 (es @ [e]) e"
        using less.hyps [of "len - (2 + ucast d)" s' "p + 2 + unat d" x'] st rz by blast
      with st rz True show ?thesis by (simp add: descr_loop16.simps [of h pat s])
    qed
  qed
qed

subsection \<open>The loop over the items\<close>

text \<open>The items are parsed into the allocated array one after the other; after an error the
  items parsed so far are cleared and the array is freed.\<close>

fun item_loop :: "(nat \<Rightarrow> size_stack \<Rightarrow> (int \<times> size_stack \<times> 'x) option) \<Rightarrow> nat \<Rightarrow> nat \<Rightarrow> size_stack \<Rightarrow>
    (int \<times> size_stack \<times> 'x list) option" where
  "item_loop get 0 i s = Some (0, s, [])"
| "item_loop get (Suc n) i s = do {
     (r, s, x) \<leftarrow> get i s;
     (if r \<noteq> 0 then Some (1, s, [])
      else do {
        (r, s, xs) \<leftarrow> item_loop get n (Suc i) s;
        Some (if r \<noteq> 0 then (1, s, []) else (0, s, x # xs))
      })
   }"

lemma item_loop_run:
  assumes "\<And>i s p. ss_at s (es @ [e]) p \<Longrightarrow>
      \<exists>r s' x. get i s = Some (r, s', x) \<and> (r = 0 \<longrightarrow> I x \<and> (\<exists>p'. ss_at s' (es @ [e]) p'))"
    and "ss_at s (es @ [e]) p"
  shows "\<exists>r s' xs. item_loop get n i s = Some (r, s', xs) \<and> (r = 0 \<or> r = 1) \<and>
    (r = 0 \<longrightarrow> length xs = n \<and> (\<forall>x\<in>set xs. I x) \<and> (\<exists>p'. ss_at s' (es @ [e]) p'))"
  using assms(2)
proof (induction n arbitrary: i s p)
  case 0
  then show ?case by auto
next
  case (Suc n)
  from assms(1) [OF Suc.prems, of i] obtain r s1 x where
    g: "get i s = Some (r, s1, x)" "r = 0 \<longrightarrow> I x \<and> (\<exists>p'. ss_at s1 (es @ [e]) p')" by auto
  show ?case
  proof (cases "r = 0")
    case False
    with g show ?thesis by simp
  next
    case True
    with g obtain p' where "I x" "ss_at s1 (es @ [e]) p'" by auto
    from Suc.IH [OF this(2), of "Suc i"] g True \<open>I x\<close> show ?thesis by auto
  qed
qed

end
