(* ===== verification/Pms.thy ===== *)
theory Pms
  imports SecParse
begin

text \<open>
  stream/pms.c: the programme map section with its elementary streams and their teletext and
  subtitling descriptors.  Reads outside the section buffer are faults; \<open>ok\<close> says which
  allocations succeed (an allocation is named by the offset of its descriptor).
\<close>

subsection \<open>Data\<close>

record vti =
  vt_lang :: "u8 list"
  txt_type :: u8
  magazine :: u8
  page :: u8

text \<open>The three bytes of the language of a subtitle are moved to the start of an array of four
  zeroed words, so that they make up its first word (on a little-endian machine) and the other
  three words stay zero.\<close>

record subi =
  sub_lang :: u32
  sub_type :: u8
  composition :: u16
  ancillary :: u16

record es =
  stream_type :: u8
  es_pid :: u16
  cmp_tag :: u16
  num_txti :: u16
  num_subi :: u16
  es_txt :: "vti list option"
  es_sub :: "subi list option"

definition zero_es :: es where
  "zero_es = \<lparr>stream_type = 0, es_pid = 0, cmp_tag = 0, num_txti = 0, num_subi = 0, es_txt = None, es_sub = None\<rparr>"

record pms =
  m_version :: u8
  m_current :: u8
  m_section :: u8
  m_last_section :: u8
  program_number :: u16
  pcr_pid :: u16
  num_es :: u16
  stream_infos :: "es list option"

text \<open>A zeroed section.\<close>

definition zero_pms :: pms where
  "zero_pms = \<lparr>m_version = 0, m_current = 0, m_section = 0, m_last_section = 0, program_number = 0, pcr_pid = 0,
     num_es = 0, stream_infos = None\<rparr>"

subsection \<open>The parser\<close>

fun read_vtis :: "buffer \<Rightarrow> nat \<Rightarrow> nat \<Rightarrow> vti list option" where
  "read_vtis pat p 0 = Some []"
| "read_vtis pat p (Suc l) = do {
     a \<leftarrow> rd pat p; b \<leftarrow> rd pat (p + 1); c \<leftarrow> rd pat (p + 2);
     ty \<leftarrow> bitsGet pat (p + 3) 0 5;
     mag \<leftarrow> bitsGet pat (p + 3) 5 3;
     pg \<leftarrow> rd pat (p + 4);
     xs \<leftarrow> read_vtis pat (p + 5) l;
     Some (\<lparr>vt_lang = [a, b, c, 0], txt_type = ucast ty, magazine = ucast mag, page = pg\<rparr> # xs)
   }"

fun read_subis :: "buffer \<Rightarrow> nat \<Rightarrow> nat \<Rightarrow> subi list option" where
  "read_subis pat p 0 = Some []"
| "read_subis pat p (Suc l) = do {
     a \<leftarrow> rd pat p; b \<leftarrow> rd pat (p + 1); c \<leftarrow> rd pat (p + 2);
     ty \<leftarrow> rd pat (p + 3);
     co \<leftarrow> bitsGet pat (p + 4) 0 16;
     an \<leftarrow> bitsGet pat (p + 6) 0 16;
     xs \<leftarrow> read_subis pat (p + 8) l;
     Some (\<lparr>sub_lang = ucast a OR push_bit 8 (ucast b) OR push_bit 16 (ucast c), sub_type = ty,
            composition = ucast co, ancillary = ucast an\<rparr> # xs)
   }"

text \<open>The switch over the descriptor tag.\<close>

definition es_descr :: "(nat \<Rightarrow> bool) \<Rightarrow> buffer \<Rightarrow> es handler" where
  "es_descr ok pat s d_tag d_len ptr si =
     (if d_tag = 0x52 then do { t \<leftarrow> rd pat ptr; Some (0, si\<lparr>cmp_tag := ucast t\<rparr>) }
      else if d_tag = 0x46 \<or> d_tag = 0x56 then
        (if es_txt si = None then
           let l = unat d_len div 5
           in if l = 0 then Some (0, si)
              else if \<not> ok ptr then Some (1, si)
              else do { xs \<leftarrow> read_vtis pat ptr l; Some (0, si\<lparr>es_txt := Some xs, num_txti := of_nat l\<rparr>) }
         else Some (0, si))
      else if d_tag = 0x59 then
        (if es_sub si = None then
           let l = unat d_len div 8
           in if l = 0 then Some (0, si)
              else if \<not> ok ptr then Some (1, si)
              else do { xs \<leftarrow> read_subis pat ptr l; Some (0, si\<lparr>es_sub := Some xs, num_subi := of_nat l\<rparr>) }
         else Some (0, si))
      else Some (0, si))"

definition get_es_info :: "(nat \<Rightarrow> bool) \<Rightarrow> buffer \<Rightarrow> nat \<Rightarrow> size_stack \<Rightarrow> (int \<times> size_stack \<times> es) option" where
  "get_es_info ok pat i s = do {
     (r, s) \<leftarrow> sizeStackAdvance s 0 5;
     (if r \<noteq> 0 then Some (1, s, zero_es)
      else do {
        let ptr = nat (sizeStackPtr s);
        st \<leftarrow> rd pat ptr;
        pid \<leftarrow> bitsGet pat (ptr + 1) 3 13;
        esi_len \<leftarrow> bitsGet pat (ptr + 3) 4 12;
        let si = zero_es\<lparr>stream_type := st, es_pid := ucast pid\<rparr>;
        (r, s) \<leftarrow> sizeStackAdvance s 5 2;
        (if r \<noteq> 0 then Some (1, s, si) else descr_loop (es_descr ok pat) pat s (uint esi_len) si)
      })
   }"

text \<open>From the count of the elementary streams to the end; \<open>oka\<close> says whether the array can be
  allocated.\<close>

definition parse_pms_streams :: "bool \<Rightarrow> (nat \<Rightarrow> bool) \<Rightarrow> buffer \<Rightarrow> pms \<Rightarrow> size_stack \<Rightarrow> u16 \<Rightarrow> (int \<times> size_stack \<times> pms) option" where
  "parse_pms_streams oka ok pat p s section_length = do {
     let ptr = nat (sizeStackPtr s);
     n \<leftarrow> count_blocks pat ptr 3 (uint section_length) 0 0;
     let p = p\<lparr>num_es := n, stream_infos := None\<rparr>;
     (if n = 0 \<or> \<not> oka then Some (1, s, p)
      else do {
        (r, s, xs) \<leftarrow> item_loop (get_es_info ok pat) (unat n) 0 s;
        (if r \<noteq> 0 then Some (1, s, p)
         else do {
           (r, s) \<leftarrow> sizeStackAdvance s 0 4;
           (if r \<noteq> 0 then Some (1, s, p) else Some (0, s, p\<lparr>stream_infos := Some xs\<rparr>))
         })
      })
   }"

definition parse_pms_fields :: "bool \<Rightarrow> (nat \<Rightarrow> bool) \<Rightarrow> buffer \<Rightarrow> pms \<Rightarrow> size_stack \<Rightarrow> u64 \<Rightarrow> (int \<times> pms) option" where
  "parse_pms_fields oka ok pat p s section_length = do {
     (r, s) \<leftarrow> sizeStackAdvance s 0 9;
     (if r \<noteq> 0 then Some (1, p)
      else do {
        let ptr = nat (sizeStackPtr s);
        pnr \<leftarrow> bitsGet pat ptr 0 16;
        version_number \<leftarrow> bitsGet pat (ptr + 2) 2 5;
        current_next \<leftarrow> bitsGet pat (ptr + 2) 7 1;
        section_number \<leftarrow> rd pat (ptr + 3);
        last_section_number \<leftarrow> rd pat (ptr + 4);
        pcr \<leftarrow> bitsGet pat (ptr + 5) 3 13;
        pi_len \<leftarrow> bitsGet pat (ptr + 7) 4 12;
        (r, s) \<leftarrow> sizeStackAdvance s (9 + ucast pi_len) 1;
        (if r \<noteq> 0 then Some (1, p)
         else do {
           (r, s, p) \<leftarrow> parse_pms_streams oka ok pat p s (ucast section_length - (9 + 4 + ucast pi_len));
           (if r \<noteq> 0 then Some (1, p)
            else do {
              crc \<leftarrow> bitsGet pat (nat (sizeStackPtr s)) 0 32;
              Some (0, p\<lparr>m_version := ucast version_number, m_current := ucast current_next, m_section := section_number,
                         m_last_section := last_section_number, program_number := ucast pnr, pcr_pid := ucast pcr\<rparr>)
            })
         })
      })
   }"

definition parse_pms :: "bool \<Rightarrow> (nat \<Rightarrow> bool) \<Rightarrow> buffer \<Rightarrow> pms \<Rightarrow> (int \<times> pms) option" where
  "parse_pms oka ok pat p = do {
     c \<leftarrow> secCheckCrc pat;
     (if c \<noteq> 0 then Some (1, p)
      else do {
        let p = p\<lparr>pcr_pid := 0x1fff\<rparr>;
        opn \<leftarrow> sec_open pat;
        (case opn of
           Inl _ \<Rightarrow> Some (1, p)
         | Inr (s, section_length) \<Rightarrow> parse_pms_fields oka ok pat p s section_length)
      })
   }"

definition clear_es_info :: "es \<Rightarrow> es" where
  "clear_es_info si = zero_es"

definition clear_pms :: "pms \<Rightarrow> pms" where
  "clear_pms p = p\<lparr>stream_infos := None, num_es := 0\<rparr>"

text \<open>An array is copied for as many entries as its count says; reading beyond it is a fault.\<close>

definition dup_array :: "nat \<Rightarrow> 'x list option \<Rightarrow> 'x list option" where
  "dup_array n a = (case a of None \<Rightarrow> None | Some xs \<Rightarrow> if n \<le> length xs then Some (take n xs) else None)"

text \<open>A deep copy; \<open>m1\<close> and \<open>m2\<close> say whether the two arrays can be allocated.\<close>

definition copy_es_info :: "bool \<Rightarrow> bool \<Rightarrow> es \<Rightarrow> (int \<times> es) option" where
  "copy_es_info m1 m2 src =
     (let dest = src\<lparr>es_txt := None, es_sub := None\<rparr>
      in if num_txti src \<noteq> 0 \<and> \<not> m1 then Some (1, dest)
         else do {
           dest \<leftarrow> (if num_txti src \<noteq> 0
                    then do { xs \<leftarrow> dup_array (unat (num_txti src)) (es_txt src); Some (dest\<lparr>es_txt := Some xs\<rparr>) }
                    else Some dest);
           (if num_subi src \<noteq> 0 \<and> \<not> m2 then Some (1, dest)
            else do {
              dest \<leftarrow> (if num_subi src \<noteq> 0
                       then do { xs \<leftarrow> dup_array (unat (num_subi src)) (es_sub src); Some (dest\<lparr>es_sub := Some xs\<rparr>) }
                       else Some dest);
              Some (0, dest)
            })
         })"

subsection \<open>Streams with counted arrays\<close>

definition counted :: "u16 \<Rightarrow> 'x list option \<Rightarrow> bool" where
  "counted n a = (case a of None \<Rightarrow> n = 0 | Some xs \<Rightarrow> n \<noteq> 0 \<and> length xs = unat n)"

definition es_wf :: "es \<Rightarrow> bool" where
  "es_wf si \<longleftrightarrow> counted (num_txti si) (es_txt si) \<and> counted (num_subi si) (es_sub si) \<and> unat (es_pid si) < 8192"

lemma es_wf_zero: "unat q < 8192 \<Longrightarrow> es_wf (zero_es\<lparr>stream_type := t, es_pid := q\<rparr>)"
  by (simp add: es_wf_def counted_def zero_es_def)

lemma counted_of_nat: "0 < l \<Longrightarrow> l < 65536 \<Longrightarrow> length xs = l \<Longrightarrow> counted (of_nat l) (Some xs)"
proof -
  assume "0 < l" "l < 65536" "length xs = l"
  moreover from this have "unat (of_nat l :: u16) = l" by (simp add: unat_of_nat)
  moreover from this \<open>0 < l\<close> have "(of_nat l :: u16) \<noteq> 0" by (metis gr_implies_not0 unsigned_0)
  ultimately show ?thesis by (simp add: counted_def)
qed

lemma field13: "unat (ucast (field pat i 13) :: u16) < 8192"
  using field_bound [of 13 pat i] by (simp add: unsigned_ucast_eq take_bit_nat_def)

lemma dup_counted:
  "counted n a \<Longrightarrow> (n \<noteq> 0 \<longrightarrow> (\<exists>xs. a = Some xs \<and> dup_array (unat n) a = Some xs)) \<and> (n = 0 \<longrightarrow> a = None)"
  by (auto simp: counted_def dup_array_def split: option.splits)

lemma copy_wf:
  assumes "es_wf si"
  shows "copy_es_info True True si = Some (0, si)"
  using dup_counted [of "num_txti si" "es_txt si"] dup_counted [of "num_subi si" "es_sub si"] assms
  by (cases "num_txti si = 0"; cases "num_subi si = 0") (auto simp: copy_es_info_def Let_def es_wf_def)

subsection \<open>The parser stays inside the section\<close>

lemma get12: "p + 2 \<le> length pat \<Longrightarrow> bitsGet pat p 4 12 = Some (field pat (8 * p + 4) 12)"
  and get13: "p + 2 \<le> length pat \<Longrightarrow> bitsGet pat p 3 13 = Some (field pat (8 * p + 3) 13)"
  and get16: "p + 2 \<le> length pat \<Longrightarrow> bitsGet pat p 0 16 = Some (field pat (8 * p) 16)"
  and get5: "p + 1 \<le> length pat \<Longrightarrow> bitsGet pat p 0 5 = Some (field pat (8 * p) 5)"
  and get3: "p + 1 \<le> length pat \<Longrightarrow> bitsGet pat p 5 3 = Some (field pat (8 * p + 5) 3)"
  and get25: "p + 1 \<le> length pat \<Longrightarrow> bitsGet pat p 2 5 = Some (field pat (8 * p + 2) 5)"
  and get71: "p + 1 \<le> length pat \<Longrightarrow> bitsGet pat p 7 1 = Some (field pat (8 * p + 7) 1)"
  and get32: "p + 4 \<le> length pat \<Longrightarrow> bitsGet pat p 0 32 = Some (field pat (8 * p) 32)"
  using bitsGet_eq [of 12 p 4 pat] bitsGet_eq [of 13 p 3 pat] bitsGet_eq [of 16 p 0 pat] bitsGet_eq [of 5 p 0 pat]
    bitsGet_eq [of 3 p 5 pat] bitsGet_eq [of 5 p 2 pat] bitsGet_eq [of 1 p 7 pat] bitsGet_eq [of 32 p 0 pat] by simp_all

lemma read_vtis_total: "p + 5 * l \<le> length pat \<Longrightarrow> \<exists>xs. read_vtis pat p l = Some xs \<and> length xs = l"
proof (induction l arbitrary: p)
  case (Suc l)
  from Suc.IH [of "p + 5"] Suc.prems obtain xs where "read_vtis pat (p + 5) l = Some xs" "length xs = l" by auto
  with Suc.prems show ?case using get5 [of "p + 3" pat] get3 [of "p + 3" pat] by (simp add: rd_def)
qed simp

lemma read_subis_total: "p + 8 * l \<le> length pat \<Longrightarrow> \<exists>xs. read_subis pat p l = Some xs \<and> length xs = l"
proof (induction l arbitrary: p)
  case (Suc l)
  from Suc.IH [of "p + 8"] Suc.prems obtain xs where "read_subis pat (p + 8) l = Some xs" "length xs = l" by auto
  with Suc.prems show ?case using get16 [of "p + 4" pat] get16 [of "p + 6" pat] by (simp add: rd_def)
qed simp

lemma es_descr_run:
  assumes "ptr + unat len \<le> e" "e < length pat" "es_wf si"
  shows "\<exists>r si'. es_descr ok pat s tag len ptr si = Some (r, si') \<and> es_wf si'"
proof -
  have len: "unat len < 256" using unsigned_less [of len, where ?'a = nat] by simp
  have fit: "ptr + 5 * (unat len div 5) \<le> length pat" "ptr + 8 * (unat len div 8) \<le> length pat"
    using times_div_less_eq_dividend [of 5 "unat len"] times_div_less_eq_dividend [of 8 "unat len"] assms(1,2) by linarith+
  have "rd pat ptr = Some (pat ! ptr)" using assms by (simp add: rd_def)
  moreover obtain xs where "read_vtis pat ptr (unat len div 5) = Some xs" "length xs = unat len div 5"
    using read_vtis_total [OF fit(1)] by auto
  moreover obtain ys where "read_subis pat ptr (unat len div 8) = Some ys" "length ys = unat len div 8"
    using read_subis_total [OF fit(2)] by auto
  moreover have "0 < unat len div 5 \<Longrightarrow> counted (of_nat (unat len div 5)) (Some xs)"
    "0 < unat len div 8 \<Longrightarrow> counted (of_nat (unat len div 8)) (Some ys)"
    using calculation len by (auto intro!: counted_of_nat)
  ultimately show ?thesis using assms(3) by (auto simp: es_descr_def es_wf_def Let_def)
qed

lemma es_descr_ok: "e < length pat \<Longrightarrow> handler_ok (es_descr ok pat) es_wf es e"
  using es_descr_run unfolding handler_ok_def by blast

lemma get_es_info_run:
  assumes "ss_at s (es @ [e]) p" "length es < 31" "e < length pat"
  shows "\<exists>r s' si. get_es_info ok pat i s = Some (r, s', si) \<and> (r = 0 \<longrightarrow> es_wf si \<and> (\<exists>p'. ss_at s' (es @ [e]) p'))"
proof (cases "p + 5 \<le> e")
  case False
  with ss_at_advance [OF assms(1), of 0 5] show ?thesis by (simp add: get_es_info_def)
next
  case True
  with ss_at_advance [OF assms(1), of 0 5] obtain s1 where
    s1: "sizeStackAdvance s 0 5 = Some (0, s1)" "ss_at s1 (es @ [e]) p" by auto
  have g: "rd pat p = Some (pat ! p)" "bitsGet pat (p + 1) 3 13 = Some (field pat (8 * (p + 1) + 3) 13)"
    "bitsGet pat (p + 3) 4 12 = Some (field pat (8 * (p + 3) + 4) 12)"
    using True assms(3) get13 [of "p + 1" pat] get12 [of "p + 3" pat] by (simp_all add: rd_def)
  note a2 = ss_at_advance [OF s1(2), of 5 2]
  show ?thesis
  proof (cases "p + 5 + 2 \<le> e")
    case False
    with a2 have "sizeStackAdvance s1 5 2 = Some (1, s1)" by simp
    with s1(1) g ss_at_ptr [OF s1(2)] show ?thesis by (simp add: get_es_info_def)
  next
    case True
    with a2 obtain s2 where s2: "sizeStackAdvance s1 5 2 = Some (0, s2)" "ss_at s2 (es @ [e]) (p + 5)" by auto
    let ?si = "zero_es\<lparr>stream_type := pat ! p, es_pid := ucast (field pat (8 * (p + 1) + 3) 13)\<rparr>"
    have "get_es_info ok pat i s = descr_loop (es_descr ok pat) pat s2 (uint (field pat (8 * (p + 3) + 4) 12)) ?si"
      using s1(1) s2(1) g ss_at_ptr [OF s1(2)] by (simp add: get_es_info_def)
    moreover have "es_wf ?si" by (intro es_wf_zero field13)
    ultimately show ?thesis
      using descr_loop_run [OF s2(2) assms(2) less_imp_le [OF assms(3)] es_descr_ok [OF assms(3)]] by metis
  qed
qed

abbreviation pi_len :: "buffer \<Rightarrow> nat" where
  "pi_len pat \<equiv> unat (field pat 84 12)"

lemma parse_pms_streams_run:
  assumes "ss_at s (es @ [e]) ptr" "length es < 31" "e < length pat" "ptr + unat sl + 4 \<le> e"
  shows "\<exists>r s' p'. parse_pms_streams oka ok pat p s sl = Some (r, s', p') \<and> (r = 0 \<or> r = 1) \<and>
    (r = 0 \<longrightarrow> (\<exists>q xs. ss_at s' (es @ [e]) q \<and> q + 4 \<le> e \<and> stream_infos p' = Some xs \<and> xs \<noteq> [] \<and>
      length xs = unat (num_es p') \<and> (\<forall>si\<in>set xs. es_wf si)))"
proof -
  have "uint sl > 0 \<longrightarrow> int (ptr + 0 + 3 + 1) + uint sl \<le> int (length pat)"
    using of_nat_le_iff [of "ptr + unat sl + 4" "length pat", where 'a = int] assms(3,4) by simp
  from count_blocks_total [OF this] obtain n where
    n: "count_blocks pat ptr 3 (uint sl) 0 0 = Some n" by blast
  have get: "\<exists>r s' si. get_es_info ok pat i s = Some (r, s', si) \<and> (r = 0 \<longrightarrow> es_wf si \<and> (\<exists>p'. ss_at s' (es @ [e]) p'))"
    if "ss_at s (es @ [e]) p" for i s p
    using get_es_info_run [OF that assms(2,3)] .
  from item_loop_run [of es e "get_es_info ok pat" es_wf s ptr "unat n" 0, OF _ assms(1)] get obtain r s1 xs where il: "item_loop (get_es_info ok pat) (unat n) 0 s = Some (r, s1, xs)" "r = 0 \<or> r = 1"
    "r = 0 \<longrightarrow> length xs = unat n \<and> (\<forall>si\<in>set xs. es_wf si) \<and> (\<exists>q. ss_at s1 (es @ [e]) q)" by blast
  show ?thesis
  proof (cases "n = 0 \<or> \<not> oka \<or> r \<noteq> 0")
    case True
    with n il ss_at_ptr [OF assms(1)] show ?thesis by (auto simp: parse_pms_streams_def Let_def)
  next
    case False
    with il(3) obtain q where q: "ss_at s1 (es @ [e]) q" by auto
    have "n \<noteq> 0 \<Longrightarrow> unat n \<noteq> 0" by (simp add: unat_eq_zero)
    then have "xs \<noteq> []" using il(3) False by auto
    with ss_at_advance [OF q, of 0 4] n il False ss_at_ptr [OF assms(1)] show ?thesis
      by (cases "q + 4 \<le> e") (auto simp: parse_pms_streams_def Let_def)
  qed
qed

text \<open>The length of the loop over the streams, and what the parser does behind it.\<close>

definition pms_rest :: "buffer \<Rightarrow> u16" where
  "pms_rest pat = ucast (field pat 12 12) - (9 + 4 + ucast (field pat 84 12))"

definition pms_done :: "buffer \<Rightarrow> int \<times> size_stack \<times> pms \<Rightarrow> (int \<times> pms) option" where
  "pms_done pat = (\<lambda>(r, s, p).
     if r \<noteq> 0 then Some (1, p)
     else do {
       crc \<leftarrow> bitsGet pat (nat (sizeStackPtr s)) 0 32;
       Some (0, p\<lparr>m_version := ucast (field pat 42 5), m_current := ucast (field pat 47 1), m_section := pat ! 6,
                  m_last_section := pat ! 7, program_number := ucast (field pat 24 16), pcr_pid := ucast (field pat 67 13)\<rparr>)
     })"

lemma parse_pms_head:
  assumes "length pat = 4096" "len_field pat \<le> 4093" "secCheckCrc pat = Some 0"
  shows "if len_field pat < 10 + pi_len pat \<or> len_field pat < 9
    then \<exists>p'. parse_pms oka ok pat p = Some (1, p')
    else \<exists>s. ss_at s [4096, 3 + len_field pat] (12 + pi_len pat) \<and>
      parse_pms oka ok pat p =
        (parse_pms_streams oka ok pat (p\<lparr>pcr_pid := 0x1fff\<rparr>) s (pms_rest pat) \<bind> pms_done pat)"
proof -
  let ?L = "len_field pat"
  from sec_open_run [OF assms(1)] assms(2) obtain s1 where
    s1: "sec_open pat = Some (Inr (s1, field pat 12 12))" "ss_at s1 ([4096] @ [3 + ?L]) 3" by auto
  have head: "parse_pms oka ok pat p = parse_pms_fields oka ok pat (p\<lparr>pcr_pid := 0x1fff\<rparr>) s1 (field pat 12 12)"
    using s1(1) assms(3) by (simp add: parse_pms_def)
  show ?thesis
  proof (cases "?L < 9")
    case True
    with ss_at_advance [OF s1(2), of 0 9] head show ?thesis by (simp add: parse_pms_fields_def)
  next
    case False
    with ss_at_advance [OF s1(2), of 0 9] obtain s2 where
      s2: "sizeStackAdvance s1 0 9 = Some (0, s2)" "ss_at s2 ([4096] @ [3 + ?L]) 3" by auto
    have g: "bitsGet pat 3 0 16 = Some (field pat 24 16)" "bitsGet pat 5 2 5 = Some (field pat 42 5)"
      "bitsGet pat 5 7 1 = Some (field pat 47 1)" "rd pat 6 = Some (pat ! 6)" "rd pat 7 = Some (pat ! 7)"
      "bitsGet pat 8 3 13 = Some (field pat 67 13)" "bitsGet pat 10 4 12 = Some (field pat 84 12)"
      using assms(1) get16 [of 3 pat] get25 [of 5 pat] get71 [of 5 pat] get13 [of 8 pat] get12 [of 10 pat]
      by (simp_all add: rd_def)
    have pl: "pi_len pat < 4096" using field_bound [of 12 pat 84] by simp
    with ucast_small [OF this] have u: "unat (9 + ucast (field pat 84 12) :: u32) = 9 + pi_len pat"
      by (simp add: unat_word_ariths)
    note a2 = ss_at_advance [OF s2(2), of "9 + ucast (field pat 84 12)" 1]
    show ?thesis
    proof (cases "?L < 10 + pi_len pat")
      case True
      with a2 u have "sizeStackAdvance s2 (9 + ucast (field pat 84 12)) 1 = Some (1, s2)" by simp
      with True head s2(1) ss_at_ptr [OF s2(2)] g show ?thesis by (simp add: parse_pms_fields_def)
    next
      case long: False
      with a2 u obtain s3 where s3: "sizeStackAdvance s2 (9 + ucast (field pat 84 12)) 1 = Some (0, s3)"
        "ss_at s3 ([4096] @ [3 + ?L]) (12 + pi_len pat)" by (auto simp: algebra_simps)
      have "parse_pms oka ok pat p = (parse_pms_streams oka ok pat (p\<lparr>pcr_pid := 0x1fff\<rparr>) s3 (pms_rest pat) \<bind> pms_done pat)"
        using head s2(1) s3(1) ss_at_ptr [OF s2(2)] g by (simp del: One_nat_def add: parse_pms_fields_def pms_rest_def pms_done_def)
      with False long s3(2) show ?thesis by auto
    qed
  qed
qed

lemma pms_rest_length:
  assumes "13 + pi_len pat \<le> len_field pat"
  shows "unat (pms_rest pat) = len_field pat - (13 + pi_len pat)"
proof -
  have pl: "pi_len pat < 4096" using field_bound [of 12 pat 84] by simp
  then have "unat (9 + 4 + ucast (field pat 84 12) :: u16) = 13 + pi_len pat"
    using ucast_small [OF pl] by (simp add: unat_word_ariths)
  moreover have "unat (ucast (field pat 12 12) :: u16) = len_field pat"
    using ucast_small [OF len_field_bound] by blast
  ultimately show ?thesis using assms by (simp add: pms_rest_def unat_sub word_le_nat_alt)
qed

lemma parse_pms_run:
  assumes "length pat = 4096" and "len_field pat \<le> 4092"
    and "len_field pat < 10 + pi_len pat \<or> 13 + pi_len pat \<le> len_field pat"
  shows "\<exists>rc p'. parse_pms oka ok pat p = Some (rc, p') \<and> (rc = 0 \<or> rc = 1) \<and>
    (rc = 0 \<longrightarrow> secCheckCrc pat = Some 0 \<and> oka
      \<and> program_number p' = ucast (field pat 24 16) \<and> pcr_pid p' = ucast (field pat 67 13)
      \<and> m_version p' = ucast (field pat 42 5) \<and> m_current p' = ucast (field pat 47 1)
      \<and> m_section p' = pat ! 6 \<and> m_last_section p' = pat ! 7
      \<and> (\<exists>xs. stream_infos p' = Some xs \<and> xs \<noteq> [] \<and> length xs = unat (num_es p')
          \<and> (\<forall>si\<in>set xs. es_wf si \<and> copy_es_info True True si = Some (0, si))))"
proof -
  obtain c where c: "secCheckCrc pat = Some c" using secCheckCrc_total [OF assms(1)] assms(2) by auto
  show ?thesis
  proof (cases "c = 0")
    case False
    with c show ?thesis by (simp add: parse_pms_def)
  next
    case True
    with c have crc: "secCheckCrc pat = Some 0" by simp
    note head = parse_pms_head [OF assms(1) _ crc, of oka ok p]
    show ?thesis
    proof (cases "len_field pat < 10 + pi_len pat \<or> len_field pat < 9")
      case True
      with head assms(2) show ?thesis by auto
    next
      case False
      with assms(3) have long: "13 + pi_len pat \<le> len_field pat" by auto
      from False head assms(2) obtain s where s: "ss_at s ([4096] @ [3 + len_field pat]) (12 + pi_len pat)"
        and run: "parse_pms oka ok pat p = (parse_pms_streams oka ok pat (p\<lparr>pcr_pid := 0x1fff\<rparr>) s (pms_rest pat) \<bind> pms_done pat)" by auto
      have fits: "length [4096::nat] < 31" "3 + len_field pat < length pat" "12 + pi_len pat + unat (pms_rest pat) + 4 \<le> 3 + len_field pat"
        using pms_rest_length [OF long] assms(1,2) long by simp_all
      from parse_pms_streams_run [OF s fits, of oka ok "p\<lparr>pcr_pid := 0x1fff\<rparr>"]
      obtain r s' p' where st: "parse_pms_streams oka ok pat (p\<lparr>pcr_pid := 0x1fff\<rparr>) s (pms_rest pat) = Some (r, s', p')"
        "r = 0 \<or> r = 1"
        "r = 0 \<longrightarrow> (\<exists>q xs. ss_at s' ([4096] @ [3 + len_field pat]) q \<and> q + 4 \<le> 3 + len_field pat \<and> stream_infos p' = Some xs \<and> xs \<noteq> [] \<and>
          length xs = unat (num_es p') \<and> (\<forall>si\<in>set xs. es_wf si))" by metis
      show ?thesis
      proof (cases "r = 0")
        case False
        with st run show ?thesis by (simp add: pms_done_def)
      next
        case True
        with st obtain q xs where q: "ss_at s' ([4096] @ [3 + len_field pat]) q" "q + 4 \<le> 3 + len_field pat"
          "stream_infos p' = Some xs" "xs \<noteq> []" "length xs = unat (num_es p')" "\<forall>si\<in>set xs. es_wf si" by auto
        have "oka" using st(1) True by (cases oka) (auto simp: parse_pms_streams_def Let_def split: Option.bind_splits)
        moreover have "bitsGet pat q 0 32 = Some (field pat (8 * q) 32)" using get32 [of q pat] q(2) assms(1,2) by simp
        ultimately show ?thesis using True st(1) run q crc ss_at_ptr [OF q(1)] copy_wf by (simp add: pms_done_def)
      qed
    qed
  qed
qed

text \<open>C15: on a section buffer of full size the parser of programme map sections returns and never
  reads outside the buffer if the length field is at most 4092 and the rest behind the programme
  information is either too short for one byte or has room for the CRC.  What it accepts has a
  correct CRC and the header fields of the section, and as many streams as it reports, at least one;
  the descriptor arrays of every stream are as long as counted, so that a deep copy equals the
  original.\<close>
theorem parse_pms_safe:
  assumes "length pat = 4096" and "len_field pat \<le> 4092"
    and "len_field pat < 10 + pi_len pat \<or> 13 + pi_len pat \<le> len_field pat"
  shows "\<exists>rc p'. parse_pms oka ok pat p = Some (rc, p') \<and> (rc = 0 \<or> rc = 1) \<and>
    (rc = 0 \<longrightarrow> secCheckCrc pat = Some 0 \<and> oka
      \<and> program_number p' = ucast (field pat 24 16) \<and> pcr_pid p' = ucast (field pat 67 13)
      \<and> m_version p' = ucast (field pat 42 5) \<and> m_current p' = ucast (field pat 47 1)
      \<and> m_section p' = pat ! 6 \<and> m_last_section p' = pat ! 7
      \<and> (\<exists>xs. stream_infos p' = Some xs \<and> xs \<noteq> [] \<and> length xs = unat (num_es p')
          \<and> (\<forall>si\<in>set xs. es_wf si \<and> copy_es_info True True si = Some (0, si))))"
  using parse_pms_run [OF assms] .

abbreviation small_pmt :: buffer where
  "small_pmt \<equiv> [0x2, 0xb0, 0x1c, 0x0, 0x2a, 0xc3, 0x0, 0x0, 0xe1, 0x1, 0xf0, 0x0, 0x6, 0xe1, 0x2, 0xf0, 0xa, 0x56, 0x5, 0x64, 0x65, 0x75, 0x9, 0x0, 0x52, 0x1, 0x7, 0xa0, 0xdf, 0xbf, 0xa4] @ replicate 4065 0"

lemma small_pmt_fields:
  "field small_pmt 12 12 = 28" "field small_pmt 84 12 = 0" "secCheckCrc small_pmt = Some 0"
  using bitsGet_eq [of 12 1 4 small_pmt] bitsGet_eq [of 12 10 4 small_pmt] by (simp_all add: sec_eval)

theorem parse_pms_safe_witness:
  "\<exists>rc p'. parse_pms True (\<lambda>_. True) small_pmt zero_pms = Some (rc, p') \<and> (rc = 0 \<or> rc = 1)"
  using parse_pms_safe [of small_pmt True "\<lambda>_. True" zero_pms] small_pmt_fields by auto

text \<open>A section with a correct CRC whose programme information leaves between one and three bytes
  makes the 16-bit length of the stream loop wrap around, and the parser then reads behind the
  section buffer while it counts the streams.\<close>
theorem parse_pms_overread:
  assumes "length pat = 4096" and "secCheckCrc pat = Some 0"
    and "10 + pi_len pat \<le> len_field pat" and "len_field pat < 13 + pi_len pat"
  shows "parse_pms oka ok pat p = None"
proof -
  have L: "len_field pat \<le> 4093"
  proof (rule ccontr)
    assume "\<not> len_field pat \<le> 4093"
    then have "secCheckCrc pat = None"
      using get12 [of 1 pat] assms(1) by (simp add: secCheckCrc_def sec_crc32_def)
    with assms(2) show False by simp
  qed
  from parse_pms_head [OF assms(1) L assms(2), of oka ok p] assms(3) obtain s where
    s: "ss_at s [4096, 3 + len_field pat] (12 + pi_len pat)" and
    run: "parse_pms oka ok pat p = (parse_pms_streams oka ok pat (p\<lparr>pcr_pid := 0x1fff\<rparr>) s (pms_rest pat) \<bind> pms_done pat)"
    by (auto split: if_splits)
  have pl: "pi_len pat < 4096" using field_bound [of 12 pat 84] by simp
  have "unat (9 + 4 + ucast (field pat 84 12) :: u16) = 13 + pi_len pat"
    using ucast_small [OF pl] pl by (simp add: unat_word_ariths)
  moreover have "unat (ucast (field pat 12 12) :: u16) = len_field pat"
    using ucast_small [OF len_field_bound] by blast
  ultimately have r: "unat (pms_rest pat) = 65536 + len_field pat - (13 + pi_len pat)"
    using assms(4) by (simp add: pms_rest_def unat_sub_if')
  have "uint (pms_rest pat) = int (unat (pms_rest pat))" by simp
  then have "int (12 + pi_len pat + 0) + uint (pms_rest pat) > int (length pat) + 4100" "0 < uint (pms_rest pat)"
    using r assms(1,3) pl by linarith+
  from count_blocks_leaves [OF this] have "count_blocks pat (12 + pi_len pat) 3 (uint (pms_rest pat)) 0 0 = None" .
  with run ss_at_ptr [OF s] show ?thesis by (simp add: parse_pms_streams_def)
qed

abbreviation short_pmt :: buffer where
  "short_pmt \<equiv> [0x2, 0xb0, 0x14, 0x0, 0x2a, 0xc3, 0x0, 0x0, 0xe1, 0x1, 0xf0, 0x9, 0x0, 0x0, 0x0, 0x0, 0x0, 0x0, 0x0, 0xc9, 0x61, 0xf2, 0x85] @ replicate 4073 0"

theorem parse_pms_overread_witness:
  "secCheckCrc short_pmt = Some 0 \<and> parse_pms True (\<lambda>_. True) short_pmt zero_pms = None"
proof -
  have f: "field short_pmt 12 12 = 20" "field short_pmt 84 12 = 9"
    using bitsGet_eq [of 12 1 4 short_pmt] bitsGet_eq [of 12 10 4 short_pmt] by (simp_all add: sec_eval)
  have c: "secCheckCrc short_pmt = Some 0" by (simp add: sec_eval)
  with f show ?thesis using parse_pms_overread [of short_pmt True "\<lambda>_. True" zero_pms] by simp
qed

end
