(* ===== verification/SecItems.thy ===== *)
theory SecItems
  imports Pms
begin

text \<open>
  What the parsers of service, network and event sections (stream/sds.c, nis.c, eis.c) share beside
  \<open>SecParse\<close>: strings that are copied out of a section, and the part from counting the items of a
  section to the last of them.
\<close>

subsection \<open>Strings\<close>

record dvb_string =
  str_len :: int
  str_buf :: "u8 list option"

definition no_string :: dvb_string where
  "no_string = \<lparr>str_len = 0, str_buf = None\<rparr>"

text \<open>The bytes \<open>p[0..n)\<close> of the section; reading outside the buffer is a fault.\<close>

definition bytes_at :: "buffer \<Rightarrow> nat \<Rightarrow> nat \<Rightarrow> buffer option" where
  "bytes_at pat p n = (if p + n \<le> length pat then Some (take n (drop p pat)) else None)"

text \<open>A string that is still missing is copied from the section; \<open>ok p\<close> says whether its memory can be
  allocated.  Every string of an item starts out empty.\<close>

definition set_string :: "(nat \<Rightarrow> bool) \<Rightarrow> buffer \<Rightarrow> nat \<Rightarrow> nat \<Rightarrow> dvb_string \<Rightarrow> (int \<times> dvb_string) option" where
  "set_string ok pat p n st =
     (if str_buf st = None \<and> n \<noteq> 0 then
        if \<not> ok p then Some (1, st\<lparr>str_len := 0\<rparr>)
        else do { b \<leftarrow> bytes_at pat p n; Some (0, \<lparr>str_len = int n, str_buf = Some b\<rparr>) }
      else Some (0, st))"

definition dvbStringClear :: "dvb_string \<Rightarrow> dvb_string" where
  "dvbStringClear st = \<lparr>str_len = 0, str_buf = None\<rparr>"

text \<open>The length of a string is that of its buffer, and there are no empty buffers.\<close>

definition string_ok :: "dvb_string \<Rightarrow> bool" where
  "string_ok st \<longleftrightarrow> (case str_buf st of None \<Rightarrow> str_len st = 0 | Some b \<Rightarrow> b \<noteq> [] \<and> str_len st = int (length b))"

lemma string_ok_none [simp]: "string_ok no_string"
  by (simp add: string_ok_def no_string_def)

lemma bytes_at_length: "bytes_at pat p n = Some b \<Longrightarrow> length b = n"
  by (auto simp: bytes_at_def split: if_splits)

lemma set_string_run:
  assumes "p + n \<le> length pat" "string_ok st"
  shows "\<exists>r st'. set_string ok pat p n st = Some (r, st') \<and> string_ok st'"
  using assms by (auto simp: set_string_def bytes_at_def string_ok_def split: option.splits)

subsection \<open>Items\<close>

text \<open>The items are counted, their array is allocated (\<open>oka\<close>) and they are parsed one after the other.
  The result is the return code, the stack, the count and the array, which is freed after an error.\<close>

definition parse_items :: "bool \<Rightarrow> (nat \<Rightarrow> size_stack \<Rightarrow> (int \<times> size_stack \<times> 'x) option) \<Rightarrow> buffer \<Rightarrow> nat \<Rightarrow> int \<Rightarrow> size_stack \<Rightarrow>
    (int \<times> size_stack \<times> u16 \<times> 'x list option) option" where
  "parse_items oka get pat hdr len s = do {
     n \<leftarrow> count_blocks pat (nat (sizeStackPtr s)) hdr len 0 0;
     (if n = 0 \<or> \<not> oka then Some (1, s, n, None)
      else do {
        (r, s, xs) \<leftarrow> item_loop get (unat n) 0 s;
        Some (if r \<noteq> 0 then (1, s, n, None) else (0, s, n, Some xs))
      })
   }"

text \<open>The parser of an item never faults inside the area and gives items with \<open>I\<close>.\<close>

definition item_ok :: "(nat \<Rightarrow> size_stack \<Rightarrow> (int \<times> size_stack \<times> 'x) option) \<Rightarrow> ('x \<Rightarrow> bool) \<Rightarrow> nat list \<Rightarrow> nat \<Rightarrow> bool" where
  "item_ok get I es e \<longleftrightarrow> (\<forall>i s p. ss_at s (es @ [e]) p \<longrightarrow>
     (\<exists>r s' x. get i s = Some (r, s', x) \<and> (r = 0 \<longrightarrow> I x \<and> (\<exists>p'. ss_at s' (es @ [e]) p'))))"

lemma parse_items_run:
  assumes get: "item_ok get I es e"
    and s: "ss_at s (es @ [e]) ptr" and inside: "len > 0 \<longrightarrow> int (ptr + hdr + 1) + len \<le> int (length pat)"
  shows "\<exists>r s' n xs. parse_items oka get pat hdr len s = Some (r, s', n, xs) \<and> (r = 0 \<or> r = 1) \<and>
    (r = 0 \<longrightarrow> oka \<and> (\<exists>l q. xs = Some l \<and> l \<noteq> [] \<and> length l = unat n \<and> (\<forall>x\<in>set l. I x) \<and> ss_at s' (es @ [e]) q))"
proof -
  have "len > 0 \<longrightarrow> int (ptr + 0 + hdr + 1) + len \<le> int (length pat)" using inside by simp
  from count_blocks_total [OF this] obtain n where n: "count_blocks pat ptr hdr len 0 0 = Some n" by blast
  from item_loop_run [of es e get I s ptr "unat n" 0, OF _ s] get [unfolded item_ok_def] obtain r s1 xs where
    il: "item_loop get (unat n) 0 s = Some (r, s1, xs)" "r = 0 \<or> r = 1"
      "r = 0 \<longrightarrow> length xs = unat n \<and> (\<forall>x\<in>set xs. I x) \<and> (\<exists>q. ss_at s1 (es @ [e]) q)" by blast
  have "n \<noteq> 0 \<Longrightarrow> unat n \<noteq> 0" by (simp add: unat_eq_zero)
  then show ?thesis using n il ss_at_ptr [OF s] by (auto simp: parse_items_def)
qed

text \<open>What a handler may ask of its size stack.\<close>

lemma area_check:
  assumes "ss_at s (es @ [e] @ [e2]) p"
  shows "\<exists>s'. sizeStackAdvance s 0 n = Some (if p + unat n \<le> e2 then 0 else 1, s') \<and> nat (sizeStackPtr s') = p \<and>
    ss_at s' (es @ [e] @ [e2]) p"
proof -
  have s: "ss_at s ((es @ [e]) @ [e2]) p" using assms by simp
  from ss_at_advance [OF s, of 0 n] s show ?thesis using ss_at_ptr [OF s] by (cases "p + unat n \<le> e2") (auto dest: ss_at_ptr)
qed

lemma small_sum: "unat (2 + ucast (a :: u8) :: u32) = 2 + unat a"
    "unat (3 + ucast (a :: u8) + ucast (b :: u8) :: u32) = 3 + unat a + unat b"
    "unat (4 + ucast (a :: u8) :: u32) = 4 + unat a" "unat (5 + ucast (a :: u8) :: u32) = 5 + unat a"
    "unat (5 + ucast (a :: u8) + ucast (b :: u8) :: u32) = 5 + unat a + unat b"
  using unsigned_less [of a, where 'a = nat] unsigned_less [of b, where 'a = nat] by (simp_all add: unat_word_ariths)

lemma widen16: "unat (ucast (w :: u16) :: u32) = unat w"
  using unsigned_less [of w, where 'a = nat] by (simp add: unsigned_ucast_eq take_bit_nat_eq_self_iff)

text \<open>The loop over the descriptors of an item in an area of its own (sds.c and eis.c).\<close>

definition descr_area :: "'x handler \<Rightarrow> buffer \<Rightarrow> size_stack \<Rightarrow> u16 \<Rightarrow> 'x \<Rightarrow> (int \<times> size_stack \<times> 'x) option" where
  "descr_area h pat s desc_len x = do {
     (r, s) \<leftarrow> sizeStackPush s (ucast desc_len);
     (if r \<noteq> 0 then Some (1, s, x)
      else do {
        (r, s, x) \<leftarrow> descr_loop16 h pat s desc_len x;
        (if r \<noteq> 0 then Some (1, s, x)
         else let (r, s) = sizeStackPop s in Some (if r \<noteq> 0 then 1 else 0, s, x))
      })
   }"

lemma descr_area_run:
  assumes s: "ss_at s (es @ [e]) p" and len: "length es < 30" and e: "e \<le> length pat" and I: "I x"
    and h: "\<And>e'. e' \<le> e \<Longrightarrow> handler_ok h I (es @ [e]) e'"
  shows "\<exists>r s' x'. descr_area h pat s dl x = Some (r, s', x') \<and> I x' \<and> (r = 0 \<longrightarrow> (\<exists>p'. ss_at s' (es @ [e]) p'))"
proof -
  have "length es < 31" using len by simp
  note p1 = ss_at_push [OF s this, of "ucast dl", unfolded widen16]
  show ?thesis
  proof (cases "p + unat dl \<le> e")
    case False
    with p1 I show ?thesis by (simp add: descr_area_def)
  next
    case True
    with p1 obtain s1 where s1: "sizeStackPush s (ucast dl) = Some (0, s1)" "ss_at s1 ((es @ [e]) @ [p + unat dl]) p" by auto
    have "length (es @ [e]) < 31" "p + unat dl \<le> length pat" using len e True by simp_all
    from descr_loop16_run [OF s1(2) this h [OF True] I refl] obtain r s2 x2 where
      l: "descr_loop16 h pat s1 dl x = Some (r, s2, x2)" "I x2" "r = 0 \<longrightarrow> ss_at s2 ((es @ [e]) @ [p + unat dl]) (p + unat dl)"
      by blast
    show ?thesis
    proof (cases "r = 0")
      case False
      with s1(1) l show ?thesis by (simp add: descr_area_def)
    next
      case True
      with l(3) have "ss_at s2 ((es @ [e]) @ [p + unat dl]) (p + unat dl)" by simp
      from ss_at_pop [OF this] obtain s3 where "sizeStackPop s2 = (0, s3)" "ss_at s3 (es @ [e]) (p + unat dl)" by blast
      moreover from this(1) have "descr_area h pat s dl x = Some (0, s3, x2)" using s1(1) l(1) True by (simp add: descr_area_def)
      ultimately show ?thesis using l(2) by blast
    qed
  qed
qed

text \<open>The rest of a section behind its header, as a 16-bit number.\<close>

lemma rest_length:
  fixes k :: nat
  assumes "k < 4096" "len_field pat < 4096"
  shows "unat (ucast (field pat 12 12) - word_of_nat k :: u16) = (if k \<le> len_field pat then len_field pat - k else 65536 + len_field pat - k)"
proof -
  have L: "unat (ucast (field pat 12 12) :: u16) = len_field pat" using ucast_small [OF assms(2)] by blast
  have K: "unat (word_of_nat k :: u16) = k" using assms(1) by (simp add: unat_of_nat)
  show ?thesis using assms L K by (auto simp: unat_sub_if_size word_le_nat_alt word_size)
qed

end
