(* ===== verification/Sds.thy ===== *)
theory Sds
  imports SecItems
begin

text \<open>
  stream/sds.c: the service description section with its services and their names.  \<open>ok\<close> says which
  allocations of strings succeed (a string is named by its offset in the section).
\<close>

subsection \<open>Data\<close>

record svi =
  v_svc_id :: u16
  v_svc_type :: u8
  v_schedule :: u8
  v_present_follow :: u8
  v_status :: u8
  v_ca_mode :: u8
  v_provider_name :: dvb_string
  v_service_name :: dvb_string
  v_bouquet_name :: dvb_string

definition zero_svi :: svi where
  "zero_svi = \<lparr>v_svc_id = 0, v_svc_type = 0, v_schedule = 0, v_present_follow = 0, v_status = 0, v_ca_mode = 0,
     v_provider_name = no_string, v_service_name = no_string, v_bouquet_name = no_string\<rparr>"

record sds =
  d_version :: u8
  d_current :: u8
  d_section :: u8
  d_last_section :: u8
  d_tsid :: u16
  d_onid :: u16
  num_svi :: u16
  service_infos :: "svi list option"

definition zero_sds :: sds where
  "zero_sds = \<lparr>d_version = 0, d_current = 0, d_section = 0, d_last_section = 0, d_tsid = 0, d_onid = 0,
     num_svi = 0, service_infos = None\<rparr>"

subsection \<open>The parser\<close>

definition service_descr :: "(nat \<Rightarrow> bool) \<Rightarrow> buffer \<Rightarrow> size_stack \<Rightarrow> nat \<Rightarrow> svi \<Rightarrow> (int \<times> svi) option" where
  "service_descr ok pat s ptr v = do {
     ty \<leftarrow> rd pat ptr;
     let v = v\<lparr>v_svc_type := ty\<rparr>;
     spnlen \<leftarrow> rd pat (ptr + 1);
     (r, s) \<leftarrow> sizeStackAdvance s 0 (2 + ucast spnlen);
     (if r \<noteq> 0 then Some (1, v)
      else do {
        let ptr = nat (sizeStackPtr s);
        (r, st) \<leftarrow> set_string ok pat (ptr + 2) (unat spnlen) (v_provider_name v);
        let v = v\<lparr>v_provider_name := st\<rparr>;
        (if r \<noteq> 0 then Some (1, v)
         else do {
           snlen \<leftarrow> rd pat (ptr + 2 + unat spnlen);
           (r, s) \<leftarrow> sizeStackAdvance s 0 (3 + ucast spnlen + ucast snlen);
           (if r \<noteq> 0 then Some (1, v)
            else do {
              (r, st) \<leftarrow> set_string ok pat (ptr + 3 + unat spnlen) (unat snlen) (v_service_name v);
              Some (r, v\<lparr>v_service_name := st\<rparr>)
            })
         })
      })
   }"

text \<open>The switch over the descriptor tag.\<close>

definition svi_descr :: "(nat \<Rightarrow> bool) \<Rightarrow> buffer \<Rightarrow> svi handler" where
  "svi_descr ok pat s d_tag d_len ptr v =
     (if d_tag = 0x47 then do {
        (r, st) \<leftarrow> set_string ok pat ptr (unat d_len) (v_bouquet_name v);
        Some (r, v\<lparr>v_bouquet_name := st\<rparr>)
      }
      else if d_tag = 0x48 then service_descr ok pat s ptr v
      else Some (0, v))"

definition get_sv_info :: "(nat \<Rightarrow> bool) \<Rightarrow> buffer \<Rightarrow> nat \<Rightarrow> size_stack \<Rightarrow> (int \<times> size_stack \<times> svi) option" where
  "get_sv_info ok pat i s = do {
     (r, s) \<leftarrow> sizeStackAdvance s 0 5;
     (if r \<noteq> 0 then Some (1, s, zero_svi)
      else do {
        let ptr = nat (sizeStackPtr s);
        svc_id \<leftarrow> bitsGet pat ptr 0 16;
        schedule \<leftarrow> bitsGet pat (ptr + 2) 6 1;
        pf \<leftarrow> bitsGet pat (ptr + 2) 7 1;
        status \<leftarrow> bitsGet pat (ptr + 3) 0 3;
        ca \<leftarrow> bitsGet pat (ptr + 3) 3 1;
        desc_len \<leftarrow> bitsGet pat (ptr + 3) 4 12;
        let v = zero_svi\<lparr>v_svc_id := ucast svc_id, v_schedule := ucast schedule, v_present_follow := ucast pf,
                         v_status := ucast status, v_ca_mode := ucast ca\<rparr>;
        (r, s) \<leftarrow> sizeStackAdvance s 5 0;
        (if r \<noteq> 0 then Some (1, s, v) else descr_area (svi_descr ok pat) pat s (ucast desc_len) v)
      })
   }"

definition clear_sv_info :: "svi \<Rightarrow> svi" where
  "clear_sv_info v = v\<lparr>v_provider_name := dvbStringClear (v_provider_name v), v_service_name := dvbStringClear (v_service_name v),
     v_bouquet_name := dvbStringClear (v_bouquet_name v)\<rparr>"

text \<open>Clearing a section whose array is missing dereferences a null pointer.\<close>

definition clear_sds :: "sds \<Rightarrow> sds option" where
  "clear_sds n =
     (if num_svi n \<noteq> 0 \<and> service_infos n = None then None else Some zero_sds)"

text \<open>From the services to the end.\<close>

definition parse_sds_services :: "bool \<Rightarrow> (nat \<Rightarrow> bool) \<Rightarrow> buffer \<Rightarrow> sds \<Rightarrow> size_stack \<Rightarrow> u16 \<Rightarrow> (int \<times> size_stack \<times> sds) option" where
  "parse_sds_services oka ok pat n s section_length = do {
     (r, s, k, xs) \<leftarrow> parse_items oka (get_sv_info ok pat) pat 3 (uint section_length) s;
     let n = n\<lparr>num_svi := k, service_infos := xs\<rparr>;
     (if r \<noteq> 0 then Some (1, s, n)
      else do {
        let (_, s) = sizeStackPop s;
        (r, s) \<leftarrow> sizeStackAdvance s 0 4;
        (if r \<noteq> 0 then do { n \<leftarrow> clear_sds n; Some (1, s, n) } else Some (0, s, n))
      })
   }"

definition parse_sds_fields :: "bool \<Rightarrow> (nat \<Rightarrow> bool) \<Rightarrow> buffer \<Rightarrow> sds \<Rightarrow> size_stack \<Rightarrow> u64 \<Rightarrow> (int \<times> sds) option" where
  "parse_sds_fields oka ok pat n s section_length = do {
     (r, s) \<leftarrow> sizeStackAdvance s 0 8;
     (if r \<noteq> 0 then Some (1, n)
      else do {
        let ptr = nat (sizeStackPtr s);
        tsid \<leftarrow> bitsGet pat ptr 0 16;
        version_number \<leftarrow> bitsGet pat (ptr + 2) 2 5;
        current_next \<leftarrow> bitsGet pat (ptr + 2) 7 1;
        section_number \<leftarrow> rd pat (ptr + 3);
        last_section_number \<leftarrow> rd pat (ptr + 4);
        onid \<leftarrow> bitsGet pat (ptr + 5) 0 16;
        (r, s) \<leftarrow> sizeStackAdvance s 8 0;
        (if r \<noteq> 0 then Some (1, n)
         else do {
           (r, s, n) \<leftarrow> parse_sds_services oka ok pat n s (ucast section_length - (8 + 4));
           (if r \<noteq> 0 then Some (1, n)
            else do {
              crc \<leftarrow> bitsGet pat (nat (sizeStackPtr s)) 0 32;
              Some (0, n\<lparr>d_version := ucast version_number, d_current := ucast current_next, d_section := section_number,
                         d_last_section := last_section_number, d_tsid := ucast tsid, d_onid := ucast onid\<rparr>)
            })
         })
      })
   }"

definition parse_sds :: "bool \<Rightarrow> (nat \<Rightarrow> bool) \<Rightarrow> buffer \<Rightarrow> sds \<Rightarrow> (int \<times> sds) option" where
  "parse_sds oka ok pat n = do {
     c \<leftarrow> secCheckCrc pat;
     (if c \<noteq> 0 then Some (1, n)
      else do {
        opn \<leftarrow> sec_open pat;
        (case opn of
           Inl _ \<Rightarrow> Some (1, n)
         | Inr (s, section_length) \<Rightarrow> parse_sds_fields oka ok pat n s section_length)
      })
   }"

subsection \<open>The parser stays inside the section\<close>

definition svi_ok :: "svi \<Rightarrow> bool" where
  "svi_ok v \<longleftrightarrow> string_ok (v_provider_name v) \<and> string_ok (v_service_name v) \<and> string_ok (v_bouquet_name v)"

lemma service_descr_run:
  assumes s: "ss_at s (es @ [e] @ [e2]) ptr" and e: "e2 \<le> e" "e + 1 < length pat" and v: "svi_ok v"
  shows "\<exists>r v'. service_descr ok pat s ptr v = Some (r, v') \<and> svi_ok v'"
proof -
  have "ptr \<le> e2" using ss_at_end(2) [of s "es @ [e]" e2 ptr] s by simp
  then obtain ty sp where r: "rd pat ptr = Some ty" "rd pat (ptr + 1) = Some sp" using e by (simp add: rd_def)
  from area_check [OF s, of "2 + ucast sp", unfolded small_sum] obtain s1 where
    s1: "sizeStackAdvance s 0 (2 + ucast sp) = Some (if ptr + (2 + unat sp) \<le> e2 then 0 else 1, s1)" "nat (sizeStackPtr s1) = ptr"
      "ss_at s1 (es @ [e] @ [e2]) ptr" by blast
  show ?thesis
  proof (cases "ptr + (2 + unat sp) \<le> e2")
    case False
    with s1(1) r v show ?thesis by (simp add: service_descr_def svi_ok_def)
  next
    case True
    then have "ptr + 2 + unat sp \<le> length pat" "string_ok (v_provider_name v)" using e v by (simp_all add: svi_ok_def)
    from set_string_run [OF this, of ok] obtain r1 st where
      st: "set_string ok pat (ptr + 2) (unat sp) (v_provider_name v) = Some (r1, st)" "string_ok st" by blast
    obtain sn where n: "rd pat (ptr + 2 + unat sp) = Some sn" using True e by (simp add: rd_def)
    from area_check [OF s1(3), of "3 + ucast sp + ucast sn", unfolded small_sum] obtain s2 where
      s2: "sizeStackAdvance s1 0 (3 + ucast sp + ucast sn) = Some (if ptr + (3 + unat sp + unat sn) \<le> e2 then 0 else 1, s2)" by blast
    show ?thesis
    proof (cases "ptr + (3 + unat sp + unat sn) \<le> e2")
      case False
      with True r s1(1,2) st n s2 v show ?thesis by (cases "r1 = 0") (simp_all add: service_descr_def svi_ok_def)
    next
      case t2: True
      then have "ptr + 3 + unat sp + unat sn \<le> length pat" "string_ok (v_service_name v)" using e v by (simp_all add: svi_ok_def)
      from set_string_run [OF this, of ok] obtain r2 st2 where
        "set_string ok pat (ptr + 3 + unat sp) (unat sn) (v_service_name v) = Some (r2, st2)" "string_ok st2" by blast
      with True t2 r s1(1,2) st n s2 v show ?thesis by (cases "r1 = 0") (simp_all add: service_descr_def svi_ok_def)
    qed
  qed
qed

lemma svi_descr_ok:
  assumes "e + 1 < length pat"
  shows "handler_ok (svi_descr ok pat) svi_ok es e"
  unfolding handler_ok_def
proof (intro allI impI)
  fix s tag and len :: u8 and ptr x
  assume s: "ss_at s (es @ [e] @ [ptr + unat len]) ptr" and le: "ptr + unat len \<le> e" and x: "svi_ok x"
  have "ptr + unat len \<le> length pat" "string_ok (v_bouquet_name x)" using le assms x by (simp_all add: svi_ok_def)
  from set_string_run [OF this, of ok] service_descr_run [OF s le assms x, of ok] x
  show "\<exists>r x'. svi_descr ok pat s tag len ptr x = Some (r, x') \<and> svi_ok x'" by (auto simp: svi_descr_def svi_ok_def)
qed

lemma get_sv_info_run:
  assumes s: "ss_at s (es @ [e]) p" and len: "length es < 30" and e: "e + 1 < length pat"
  shows "\<exists>r s' v. get_sv_info ok pat i s = Some (r, s', v) \<and> (r = 0 \<longrightarrow> svi_ok v \<and> (\<exists>p'. ss_at s' (es @ [e]) p'))"
proof (cases "p + 5 \<le> e")
  case False
  with ss_at_advance [OF s, of 0 5] show ?thesis by (simp add: get_sv_info_def)
next
  case True
  with ss_at_advance [OF s, of 0 5] obtain s1 where
    s1: "sizeStackAdvance s 0 5 = Some (0, s1)" "ss_at s1 (es @ [e]) p" by auto
  with ss_at_advance [OF s1(2), of 5 0] True obtain s2 where s2: "sizeStackAdvance s1 5 0 = Some (0, s2)" "ss_at s2 (es @ [e]) (p + 5)" by auto
  have g: "\<exists>a. bitsGet pat p 0 16 = Some a" "\<exists>a. bitsGet pat (p + 2) 6 1 = Some a" "\<exists>a. bitsGet pat (p + 2) 7 1 = Some a"
    "\<exists>a. bitsGet pat (p + 3) 0 3 = Some a" "\<exists>a. bitsGet pat (p + 3) 3 1 = Some a" "\<exists>a. bitsGet pat (p + 3) 4 12 = Some a"
    using True e bitsGet_eq [of 16 p 0 pat] bitsGet_eq [of 1 "p + 2" 6 pat] bitsGet_eq [of 1 "p + 2" 7 pat] bitsGet_eq [of 3 "p + 3" 0 pat]
      bitsGet_eq [of 1 "p + 3" 3 pat] bitsGet_eq [of 12 "p + 3" 4 pat] by simp_all
  then obtain a b c d f l where g: "bitsGet pat p 0 16 = Some a" "bitsGet pat (p + 2) 6 1 = Some b" "bitsGet pat (p + 2) 7 1 = Some c"
    "bitsGet pat (p + 3) 0 3 = Some d" "bitsGet pat (p + 3) 3 1 = Some f" "bitsGet pat (p + 3) 4 12 = Some l" by blast
  let ?v = "zero_svi\<lparr>v_svc_id := ucast a, v_schedule := ucast b, v_present_follow := ucast c, v_status := ucast d, v_ca_mode := ucast f\<rparr>"
  have run: "get_sv_info ok pat i s = descr_area (svi_descr ok pat) pat s2 (ucast l) ?v"
    using s1(1) s2(1) g ss_at_ptr [OF s1(2)] by (simp add: get_sv_info_def)
  have "svi_ok ?v" by (simp add: svi_ok_def zero_svi_def)
  moreover have "e \<le> length pat" using e by simp
  moreover have "handler_ok (svi_descr ok pat) svi_ok (es @ [e]) e'" if "e' \<le> e" for e' using that e by (intro svi_descr_ok) simp
  ultimately obtain r s' v where
    "descr_area (svi_descr ok pat) pat s2 (ucast l) ?v = Some (r, s', v)" "svi_ok v" "r = 0 \<longrightarrow> (\<exists>p'. ss_at s' (es @ [e]) p')"
    using descr_area_run [OF s2(2) len, where h = "svi_descr ok pat" and I = svi_ok] by metis
  with run show ?thesis by simp
qed

lemma parse_sds_services_run:
  assumes s: "ss_at s (es @ [e0] @ [e]) p" and len: "length es < 28" and e: "e + 1 < length pat" "e \<le> e0" "e0 \<le> length pat"
    and inside: "unat sl > 0 \<longrightarrow> p + 4 + unat sl \<le> length pat"
  shows "\<exists>r s' n'. parse_sds_services oka ok pat n s sl = Some (r, s', n') \<and> (r = 0 \<or> r = 1) \<and>
    (r = 0 \<longrightarrow> oka \<and> (\<exists>q l. ss_at s' (es @ [e0]) q \<and> q + 4 \<le> e0 \<and> service_infos n' = Some l \<and> l \<noteq> [] \<and>
      length l = unat (num_svi n') \<and> (\<forall>x\<in>set l. svi_ok x)))"
proof -
  have s': "ss_at s ((es @ [e0]) @ [e]) p" using s by simp
  have "length (es @ [e0]) < 30" using len by simp
  from get_sv_info_run [OF _ this e(1)] have get: "item_ok (get_sv_info ok pat) svi_ok (es @ [e0]) e" unfolding item_ok_def by blast
  have u: "uint sl = int (unat sl)" by simp
  have "int (unat sl) > 0 \<longrightarrow> int (p + 3 + 1) + int (unat sl) \<le> int (length pat)" using inside by linarith
  then have "uint sl > 0 \<longrightarrow> int (p + 3 + 1) + uint sl \<le> int (length pat)" unfolding u .
  from parse_items_run [OF get s' this, of oka] obtain r s1 k xs where
    it: "parse_items oka (get_sv_info ok pat) pat 3 (uint sl) s = Some (r, s1, k, xs)" "r = 0 \<or> r = 1"
      "r = 0 \<longrightarrow> oka \<and> (\<exists>l q. xs = Some l \<and> l \<noteq> [] \<and> length l = unat k \<and> (\<forall>x\<in>set l. svi_ok x) \<and> ss_at s1 ((es @ [e0]) @ [e]) q)"
    by blast
  show ?thesis
  proof (cases "r = 0")
    case False
    with it(1,2) show ?thesis by (simp add: parse_sds_services_def)
  next
    case True
    with it(3) obtain l q where l: "oka" "xs = Some l" "l \<noteq> []" "length l = unat k" "\<forall>x\<in>set l. svi_ok x" "ss_at s1 ((es @ [e0]) @ [e]) q"
      by blast
    from ss_at_pop [OF l(6)] obtain s2 where s2: "sizeStackPop s1 = (0, s2)" "ss_at s2 (es @ [e0]) q" by blast
    show ?thesis
    proof (cases "q + 4 \<le> e0")
      case False
      with ss_at_advance [OF s2(2), of 0 4] True it(1) l(2) s2(1) show ?thesis
        by (simp add: parse_sds_services_def clear_sds_def)
    next
      case t: True
      with ss_at_advance [OF s2(2), of 0 4] obtain s3 where "sizeStackAdvance s2 0 4 = Some (0, s3)" "ss_at s3 (es @ [e0]) q" by auto
      with True it(1) l s2(1) t show ?thesis by (auto simp: parse_sds_services_def)
    qed
  qed
qed

definition sds_done :: "buffer \<Rightarrow> int \<times> size_stack \<times> sds \<Rightarrow> (int \<times> sds) option" where
  "sds_done pat = (\<lambda>(r, s, n).
     if r \<noteq> 0 then Some (1, n)
     else do {
       crc \<leftarrow> bitsGet pat (nat (sizeStackPtr s)) 0 32;
       Some (0, n\<lparr>d_version := ucast (field pat 42 5), d_current := ucast (field pat 47 1), d_section := pat ! 6,
                  d_last_section := pat ! 7, d_tsid := ucast (field pat 24 16), d_onid := ucast (field pat 64 16)\<rparr>)
     })"

lemma parse_sds_head:
  assumes "length pat = 4096" "len_field pat \<le> 4093" "secCheckCrc pat = Some 0"
  shows "if len_field pat < 8 then parse_sds oka ok pat n = Some (1, n)
    else \<exists>s. ss_at s [4096, 3 + len_field pat] 11 \<and>
      parse_sds oka ok pat n = (parse_sds_services oka ok pat n s (ucast (field pat 12 12) - word_of_nat 12) \<bind> sds_done pat)"
proof -
  let ?L = "len_field pat"
  from sec_open_run [OF assms(1)] assms(2) obtain s1 where
    s1: "sec_open pat = Some (Inr (s1, field pat 12 12))" "ss_at s1 ([4096] @ [3 + ?L]) 3" by auto
  have head: "parse_sds oka ok pat n = parse_sds_fields oka ok pat n s1 (field pat 12 12)"
    using s1(1) assms(3) by (simp add: parse_sds_def)
  show ?thesis
  proof (cases "?L < 8")
    case True
    with ss_at_advance [OF s1(2), of 0 8] head show ?thesis by (simp add: parse_sds_fields_def)
  next
    case False
    with ss_at_advance [OF s1(2), of 0 8] obtain s2 where
      s2: "sizeStackAdvance s1 0 8 = Some (0, s2)" "ss_at s2 ([4096] @ [3 + ?L]) 3" by auto
    with ss_at_advance [OF s2(2), of 8 0] False obtain s3 where
      s3: "sizeStackAdvance s2 8 0 = Some (0, s3)" "ss_at s3 ([4096] @ [3 + ?L]) 11" by auto
    have g: "bitsGet pat 3 0 16 = Some (field pat 24 16)" "bitsGet pat 5 2 5 = Some (field pat 42 5)"
      "bitsGet pat 5 7 1 = Some (field pat 47 1)" "rd pat 6 = Some (pat ! 6)" "rd pat 7 = Some (pat ! 7)"
      "bitsGet pat 8 0 16 = Some (field pat 64 16)"
      using assms(1) get16 [of 3 pat] get25 [of 5 pat] get71 [of 5 pat] get16 [of 8 pat] by (simp_all add: rd_def)
    have "parse_sds oka ok pat n = (parse_sds_services oka ok pat n s3 (ucast (field pat 12 12) - word_of_nat 12) \<bind> sds_done pat)"
      using head s2(1) s3(1) ss_at_ptr [OF s2(2)] g by (simp del: One_nat_def add: parse_sds_fields_def sds_done_def)
    with False s3(2) show ?thesis by auto
  qed
qed

lemma parse_sds_run:
  assumes len: "length pat = 4096" and L: "len_field pat \<le> 4091" "len_field pat < 8 \<or> 12 \<le> len_field pat"
  shows "\<exists>rc n'. parse_sds oka ok pat n = Some (rc, n') \<and> (rc = 0 \<or> rc = 1) \<and>
    (rc = 0 \<longrightarrow> secCheckCrc pat = Some 0 \<and> oka
      \<and> d_tsid n' = ucast (field pat 24 16) \<and> d_onid n' = ucast (field pat 64 16)
      \<and> d_version n' = ucast (field pat 42 5) \<and> d_current n' = ucast (field pat 47 1)
      \<and> d_section n' = pat ! 6 \<and> d_last_section n' = pat ! 7
      \<and> (\<exists>l. service_infos n' = Some l \<and> l \<noteq> [] \<and> length l = unat (num_svi n') \<and> (\<forall>x\<in>set l. svi_ok x)))"
proof -
  obtain c where c: "secCheckCrc pat = Some c" using secCheckCrc_total [OF len] L(1) by auto
  show ?thesis
  proof (cases "c = 0")
    case False
    with c show ?thesis by (simp add: parse_sds_def)
  next
    case True
    with c have crc: "secCheckCrc pat = Some 0" by simp
    note head = parse_sds_head [OF len _ crc, of oka ok n]
    show ?thesis
    proof (cases "len_field pat < 8")
      case True
      with head L(1) show ?thesis by simp
    next
      case False
      with L(2) have ge: "12 \<le> len_field pat" by simp
      from False head L(1) obtain s where s: "ss_at s ([] @ [4096] @ [3 + len_field pat]) 11"
        and run: "parse_sds oka ok pat n = (parse_sds_services oka ok pat n s (ucast (field pat 12 12) - word_of_nat 12) \<bind> sds_done pat)" by auto
      have sl: "unat (ucast (field pat 12 12) - word_of_nat 12 :: u16) = len_field pat - 12"
        using rest_length [of 12 pat] ge L(1) by simp
      have side: "length ([] :: nat list) < 28" "3 + len_field pat + 1 < length pat" "3 + len_field pat \<le> 4096" "4096 \<le> length pat"
        "unat (ucast (field pat 12 12) - word_of_nat 12 :: u16) > 0 \<longrightarrow>
          11 + 4 + unat (ucast (field pat 12 12) - word_of_nat 12 :: u16) \<le> length pat"
        unfolding sl using len L(1) by simp_all
      from parse_sds_services_run [OF s side, of oka ok n] obtain r s' n' where
        st: "parse_sds_services oka ok pat n s (ucast (field pat 12 12) - word_of_nat 12) = Some (r, s', n')" "r = 0 \<or> r = 1"
          "r = 0 \<longrightarrow> oka \<and> (\<exists>q l. ss_at s' ([] @ [4096]) q \<and> q + 4 \<le> 4096 \<and> service_infos n' = Some l \<and> l \<noteq> [] \<and>
            length l = unat (num_svi n') \<and> (\<forall>x\<in>set l. svi_ok x))" by metis
      show ?thesis
      proof (cases "r = 0")
        case False
        with st run show ?thesis by (simp add: sds_done_def)
      next
        case True
        with st obtain q l where q: "oka" "ss_at s' ([] @ [4096]) q" "q + 4 \<le> 4096" "service_infos n' = Some l" "l \<noteq> []"
          "length l = unat (num_svi n')" "\<forall>x\<in>set l. svi_ok x" by blast
        have "bitsGet pat q 0 32 = Some (field pat (8 * q) 32)" using get32 [of q pat] q(3) len by simp
        then show ?thesis using True st(1) run q crc ss_at_ptr [OF q(2)] by (simp add: sds_done_def)
      qed
    qed
  qed
qed

lemma parse_sds_wraps:
  assumes len: "length pat = 4096" and L: "8 \<le> len_field pat" "len_field pat < 12" and crc: "secCheckCrc pat = Some 0"
  shows "parse_sds oka ok pat n = None"
proof -
  from parse_sds_head [OF len _ crc, of oka ok n] L obtain s where s: "ss_at s [4096, 3 + len_field pat] 11"
    and run: "parse_sds oka ok pat n = (parse_sds_services oka ok pat n s (ucast (field pat 12 12) - word_of_nat 12) \<bind> sds_done pat)" by auto
  have "unat (ucast (field pat 12 12) - word_of_nat 12 :: u16) \<ge> 60000" using rest_length [of 12 pat] L by simp
  then have "int (unat (ucast (field pat 12 12) - word_of_nat 12 :: u16)) \<ge> 60000" by linarith
  then have "uint (ucast (field pat 12 12) - word_of_nat 12 :: u16) \<ge> 60000" by (simp only: uint_nat)
  with len have "count_blocks pat 11 3 (uint (ucast (field pat 12 12) - word_of_nat 12 :: u16)) 0 0 = None"
    by (intro count_blocks_leaves) simp_all
  with run ss_at_ptr [OF s] show ?thesis by (simp add: parse_sds_services_def parse_items_def)
qed

end
