(* ===== verification/SdsRead.thy ===== *)
theory SdsRead
  imports Sds
begin

text \<open>
  What stream/sds.c reads out of a well-formed service description section: the syntax of the
  section is stated on the bits of the buffer, and the parser finds exactly the services that the
  buffer holds.
\<close>

subsection \<open>The syntax of a section\<close>

definition holds_string :: "buffer \<Rightarrow> nat \<Rightarrow> nat \<Rightarrow> dvb_string \<Rightarrow> bool" where
  "holds_string pat p n st \<longleftrightarrow> st = (if n = 0 then no_string else \<lparr>str_len = int n, str_buf = Some (take n (drop p pat))\<rparr>)"

text \<open>A service of \<open>n\<close> bytes at offset \<open>p\<close> with a service descriptor.\<close>

definition service_at :: "buffer \<Rightarrow> nat \<Rightarrow> nat \<Rightarrow> svi \<Rightarrow> bool" where
  "service_at pat p n v \<longleftrightarrow> (let lp = unat (pat ! (p + 8)); ln = unat (pat ! (p + 9 + lp)) in
     v_svc_id v = ucast (field pat (8 * p) 16) \<and> v_schedule v = ucast (field pat (8 * p + 22) 1) \<and>
     v_present_follow v = ucast (field pat (8 * p + 23) 1) \<and> v_status v = ucast (field pat (8 * p + 24) 3) \<and>
     v_ca_mode v = ucast (field pat (8 * p + 27) 1) \<and> unat (field pat (8 * p + 28) 12) + 5 = n \<and>
     pat ! (p + 5) = 0x48 \<and> unat (pat ! (p + 6)) + 7 = n \<and> lp + ln + 10 = n \<and>
     v_svc_type v = pat ! (p + 7) \<and> holds_string pat (p + 9) lp (v_provider_name v) \<and>
     holds_string pat (p + 10 + lp) ln (v_service_name v) \<and> v_bouquet_name v = no_string)"

text \<open>Services from offset \<open>p\<close> up to \<open>e\<close>.\<close>

fun services_at :: "buffer \<Rightarrow> nat \<Rightarrow> svi list \<Rightarrow> nat \<Rightarrow> bool" where
  "services_at pat p [] e \<longleftrightarrow> p = e"
| "services_at pat p (v # vs) e \<longleftrightarrow> (let n = unat (pat ! (p + 6)) + 7 in service_at pat p n v \<and> services_at pat (p + n) vs e)"

lemma services_end: "services_at pat p vs e \<Longrightarrow> p + 10 * length vs \<le> e"
proof (induction vs arbitrary: p)
  case (Cons v vs)
  let ?n = "unat (pat ! (p + 6)) + 7"
  from Cons.prems have "service_at pat p ?n v" "services_at pat (p + ?n) vs e" by (simp_all add: Let_def)
  with Cons.IH have "10 \<le> ?n" "p + ?n + 10 * length vs \<le> e" by (auto simp: service_at_def Let_def)
  then show ?case by simp
qed simp

subsection \<open>One descriptor\<close>

lemma descr_step_exact:
  assumes s: "ss_at s (es @ [e]) p" and len: "length es < 31" and e: "e \<le> length pat" and fit: "p + 2 + unat (pat ! (p + 1)) \<le> e"
    and h: "\<And>s'. ss_at s' (es @ [e] @ [p + 2 + unat (pat ! (p + 1))]) (p + 2) \<Longrightarrow> h s' (pat ! p) (pat ! (p + 1)) (p + 2) x = Some (0, x')"
  shows "\<exists>s'. descr_step h pat s x = Some (0, s', x', pat ! (p + 1)) \<and> ss_at s' (es @ [e]) (p + 2 + unat (pat ! (p + 1)))"
proof -
  let ?d = "pat ! (p + 1)"
  from ss_at_advance [OF s, of 0 2] fit obtain s1 where s1: "sizeStackAdvance s 0 2 = Some (0, s1)" "ss_at s1 (es @ [e]) p" by auto
  from ss_at_advance [OF s1(2), of 2 0] fit obtain s2 where s2: "sizeStackAdvance s1 2 0 = Some (0, s2)" "ss_at s2 (es @ [e]) (p + 2)" by auto
  from ss_at_push [OF s2(2) len, of "ucast ?d", unfolded ucast_byte] fit obtain s3 where
    s3: "sizeStackPush s2 (ucast ?d) = Some (0, s3)" "ss_at s3 (es @ [e] @ [p + 2 + unat ?d]) (p + 2)" by auto
  have "ss_at s3 ((es @ [e]) @ [p + 2 + unat ?d]) (p + 2)" using s3(2) by simp
  from ss_at_pop [OF this] obtain s4 where s4: "sizeStackPop s3 = (0, s4)" "ss_at s4 (es @ [e]) (p + 2)" by blast
  from ss_at_advance [OF s4(2), of "ucast ?d" 0] fit obtain s5 where
    s5: "sizeStackAdvance s4 (ucast ?d) 0 = Some (0, s5)" "ss_at s5 (es @ [e]) (p + 2 + unat ?d)" by auto
  have "rd pat p = Some (pat ! p)" "rd pat (p + 1) = Some ?d" using fit e by (simp_all add: rd_def)
  then have "descr_step h pat s x = Some (0, s5, x', ?d)"
    using s1(1) s2(1) s3(1) h [OF s3(2)] s4(1) s5(1) ss_at_ptr [OF s1(2)] ss_at_ptr [OF s3(2)] by (simp add: descr_step_def)
  with s5(2) show ?thesis by blast
qed

lemma set_string_new:
  "p + n \<le> length pat \<Longrightarrow> holds_string pat p n st \<Longrightarrow> set_string (\<lambda>_. True) pat p n no_string = Some (0, st)"
  by (auto simp: set_string_def holds_string_def bytes_at_def no_string_def)

lemma service_descr_exact:
  assumes s: "ss_at s (es @ [e] @ [e2]) ptr" and e: "e2 \<le> length pat"
    and fit: "ptr + 3 + unat (pat ! (ptr + 1)) + unat (pat ! (ptr + 2 + unat (pat ! (ptr + 1)))) \<le> e2"
    and prov: "holds_string pat (ptr + 2) (unat (pat ! (ptr + 1))) pr"
    and nm: "holds_string pat (ptr + 3 + unat (pat ! (ptr + 1))) (unat (pat ! (ptr + 2 + unat (pat ! (ptr + 1))))) sn"
    and v: "v_provider_name v = no_string" "v_service_name v = no_string"
  shows "service_descr (\<lambda>_. True) pat s ptr v = Some (0, v\<lparr>v_svc_type := pat ! ptr, v_provider_name := pr, v_service_name := sn\<rparr>)"
proof -
  define sp where "sp = pat ! (ptr + 1)"
  define sl where "sl = pat ! (ptr + 2 + unat sp)"
  note fit = fit [folded sp_def, folded sl_def] and prov = prov [folded sp_def] and nm = nm [folded sp_def, folded sl_def]
  have r: "rd pat ptr = Some (pat ! ptr)" "rd pat (ptr + 1) = Some sp" "rd pat (ptr + 2 + unat sp) = Some sl"
    using fit e by (simp_all add: rd_def sp_def sl_def)
  from area_check [OF s, of "2 + ucast sp", unfolded small_sum] fit obtain s1 where
    s1: "sizeStackAdvance s 0 (2 + ucast sp) = Some (0, s1)" "nat (sizeStackPtr s1) = ptr" "ss_at s1 (es @ [e] @ [e2]) ptr" by auto
  from area_check [OF s1(3), of "3 + ucast sp + ucast sl", unfolded small_sum] fit obtain s2 where
    s2: "sizeStackAdvance s1 0 (3 + ucast sp + ucast sl) = Some (0, s2)" by auto
  have "set_string (\<lambda>_. True) pat (ptr + 2) (unat sp) no_string = Some (0, pr)"
    "set_string (\<lambda>_. True) pat (ptr + 3 + unat sp) (unat sl) no_string = Some (0, sn)"
    using fit e prov nm by (simp_all add: set_string_new)
  with r s1(1,2) s2 v show ?thesis by (simp add: service_descr_def)
qed

lemma get_sv_info_exact:
  assumes s: "ss_at s (es @ [e]) p" and len: "length es < 30" and e: "e \<le> length pat" and fit: "p + n \<le> e" and v: "service_at pat p n v"
  shows "\<exists>s'. get_sv_info (\<lambda>_. True) pat i s = Some (0, s', v) \<and> ss_at s' (es @ [e]) (p + n)"
proof -
  define lp where "lp = unat (pat ! (p + 8))"
  define ln where "ln = unat (pat ! (p + 9 + lp))"
  note w = v [unfolded service_at_def Let_def, folded lp_def, folded ln_def]
  have n: "10 \<le> n" using w by linarith
  from ss_at_advance [OF s, of 0 5] fit n obtain s1 where s1: "sizeStackAdvance s 0 5 = Some (0, s1)" "ss_at s1 (es @ [e]) p" by auto
  from ss_at_advance [OF s1(2), of 5 0] fit n obtain s2 where s2: "sizeStackAdvance s1 5 0 = Some (0, s2)" "ss_at s2 (es @ [e]) (p + 5)" by auto
  have g: "bitsGet pat p 0 16 = Some (field pat (8 * p) 16)" "bitsGet pat (p + 2) 6 1 = Some (field pat (8 * p + 22) 1)"
    "bitsGet pat (p + 2) 7 1 = Some (field pat (8 * p + 23) 1)" "bitsGet pat (p + 3) 0 3 = Some (field pat (8 * p + 24) 3)"
    "bitsGet pat (p + 3) 3 1 = Some (field pat (8 * p + 27) 1)" "bitsGet pat (p + 3) 4 12 = Some (field pat (8 * p + 28) 12)"
    using n fit e bitsGet_eq [of 16 p 0 pat] bitsGet_eq [of 1 "p + 2" 6 pat] bitsGet_eq [of 1 "p + 2" 7 pat] bitsGet_eq [of 3 "p + 3" 0 pat]
      bitsGet_eq [of 1 "p + 3" 3 pat] bitsGet_eq [of 12 "p + 3" 4 pat] by (simp_all add: algebra_simps)
  let ?dl = "ucast (field pat (8 * p + 28) 12) :: u16"
  let ?v = "zero_svi\<lparr>v_svc_id := ucast (field pat (8 * p) 16), v_schedule := ucast (field pat (8 * p + 22) 1),
      v_present_follow := ucast (field pat (8 * p + 23) 1), v_status := ucast (field pat (8 * p + 24) 3), v_ca_mode := ucast (field pat (8 * p + 27) 1)\<rparr>"
  have run: "get_sv_info (\<lambda>_. True) pat i s = descr_area (svi_descr (\<lambda>_. True) pat) pat s2 ?dl ?v"
    using s1(1) s2(1) g ss_at_ptr [OF s1(2)] by (simp add: get_sv_info_def)
  have "unat (field pat (8 * p + 28) 12) < 4096" using field_bound [of 12 pat] by simp
  then have dl: "unat ?dl = n - 5" using ucast_small w by fastforce
  have dl0: "?dl \<noteq> 0" "?dl > 0" using dl n by (auto simp: word_less_nat_alt)
  have "length es < 31" using len by simp
  from ss_at_push [OF s2(2) this, of "ucast ?dl", unfolded widen16 dl] fit n obtain s3 where
    s3: "sizeStackPush s2 (ucast ?dl) = Some (0, s3)" "ss_at s3 ((es @ [e]) @ [p + n]) (p + 5)" by auto
  have q: "p + 5 + 1 = p + 6" by simp
  have d: "p + 5 + 2 + unat (pat ! (p + 5 + 1)) = p + n" using w unfolding q by linarith
  have step: "\<exists>s'. descr_step (svi_descr (\<lambda>_. True) pat) pat s3 ?v = Some (0, s', v, pat ! (p + 5 + 1)) \<and>
      ss_at s' ((es @ [e]) @ [p + n]) (p + 5 + 2 + unat (pat ! (p + 5 + 1)))"
  proof (rule descr_step_exact [OF s3(2)])
    show "length (es @ [e]) < 31" "p + n \<le> length pat" "p + 5 + 2 + unat (pat ! (p + 5 + 1)) \<le> p + n" using len fit e d by simp_all
    fix s' assume "ss_at s' ((es @ [e]) @ [p + n] @ [p + 5 + 2 + unat (pat ! (p + 5 + 1))]) (p + 5 + 2)"
    then have s': "ss_at s' ((es @ [e]) @ [p + n] @ [p + n]) (p + 7)" unfolding d by (simp add: add.commute)
    have "service_descr (\<lambda>_. True) pat s' (p + 7) ?v =
        Some (0, ?v\<lparr>v_svc_type := pat ! (p + 7), v_provider_name := v_provider_name v, v_service_name := v_service_name v\<rparr>)"
    proof (rule service_descr_exact [OF s'])
      have a: "p + 7 + 1 = p + 8" "p + 7 + 2 + lp = p + 9 + lp" "p + 7 + 2 = p + 9" "p + 7 + 3 + lp = p + 10 + lp" by simp_all
      show "p + n \<le> length pat" using fit e by simp
      show "p + 7 + 3 + unat (pat ! (p + 7 + 1)) + unat (pat ! (p + 7 + 2 + unat (pat ! (p + 7 + 1)))) \<le> p + n"
        using w unfolding a lp_def [symmetric] ln_def [symmetric] by linarith
      show "holds_string pat (p + 7 + 2) (unat (pat ! (p + 7 + 1))) (v_provider_name v)"
        using w unfolding a lp_def [symmetric] by blast
      show "holds_string pat (p + 7 + 3 + unat (pat ! (p + 7 + 1))) (unat (pat ! (p + 7 + 2 + unat (pat ! (p + 7 + 1))))) (v_service_name v)"
        using w unfolding a lp_def [symmetric] a ln_def [symmetric] by blast
    qed (simp_all add: zero_svi_def)
    moreover have "?v\<lparr>v_svc_type := pat ! (p + 7), v_provider_name := v_provider_name v, v_service_name := v_service_name v\<rparr> = v"
      using w by (simp add: zero_svi_def)
    moreover have "pat ! (p + 5) = 0x48" using w by blast
    ultimately show "svi_descr (\<lambda>_. True) pat s' (pat ! (p + 5)) (pat ! (p + 5 + 1)) (p + 5 + 2) ?v = Some (0, v)"
      by (simp add: svi_descr_def numeral_eq_Suc)
  qed
  then obtain s4 where s4: "descr_step (svi_descr (\<lambda>_. True) pat) pat s3 ?v = Some (0, s4, v, pat ! (p + 6))"
      "ss_at s4 ((es @ [e]) @ [p + n]) (p + n)" unfolding d by (auto simp: numeral_eq_Suc)
  have "unat (2 + ucast (pat ! (p + 6)) :: u16) = 2 + unat (pat ! (p + 6))"
    using unsigned_less [of "pat ! (p + 6)", where 'a = nat] by (simp add: unat_word_ariths)
  also have "\<dots> = n - 5" using w by linarith
  finally have "unat (2 + ucast (pat ! (p + 6)) :: u16) = n - 5" .
  with dl have "?dl = 2 + ucast (pat ! (p + 6))" by (simp only: word_unat_eq_iff)
  then have "?dl - (2 + ucast (pat ! (p + 6))) = 0" by (simp only: diff_self)
  with s4(1) dl0 have "descr_loop16 (svi_descr (\<lambda>_. True) pat) pat s3 ?dl ?v = Some (0, s4, v)"
    by (simp add: descr_loop16.simps [of _ _ s3] descr_loop16.simps [of _ _ s4])
  moreover from ss_at_pop [OF s4(2)] obtain s5 where "sizeStackPop s4 = (0, s5)" "ss_at s5 (es @ [e]) (p + n)" by blast
  ultimately show ?thesis using run s3(1) by (simp add: descr_area_def)
qed

subsection \<open>The whole section\<close>

lemma count_services:
  assumes "services_at pat (p + j) vs (p + j + i)" "p + j + i \<le> length pat"
  shows "count_blocks pat p 3 (int i) j k = Some (k + of_nat (length vs))"
  using assms
proof (induction vs arbitrary: i j k)
  case Nil
  then show ?case by (simp add: count_blocks.simps)
next
  case (Cons v vs)
  let ?n = "unat (pat ! (p + j + 6)) + 7"
  from Cons.prems(1) have v: "service_at pat (p + j) ?n v" and vs: "services_at pat (p + j + ?n) vs (p + j + i)" by (simp_all add: Let_def)
  from services_end [OF vs] have le: "?n \<le> i" by simp
  have n: "unat (field pat (8 * (p + j) + 28) 12) + 5 = ?n" "10 \<le> ?n" using v by (auto simp: service_at_def Let_def)
  have pos: "8 * (p + (j + 3)) + 4 = 8 * (p + j) + 28" by simp
  have g: "bitsGet pat (p + (j + 3)) 4 12 = Some (field pat (8 * (p + j) + 28) 12)"
    using get12 [of "p + (j + 3)" pat, unfolded pos] le n(2) Cons.prems(2) by simp
  have step: "int i - int 3 - int (unat (field pat (8 * (p + j) + 28) 12) + 2) = int (i - ?n)"
    "j + 3 + (unat (field pat (8 * (p + j) + 28) 12) + 2) = j + ?n" using n le by linarith+
  have eqs: "p + (j + ?n) = p + j + ?n" "p + j + ?n + (i - ?n) = p + j + i" using le by linarith+
  have "count_blocks pat p 3 (int (i - ?n)) (j + ?n) (k + 1) = Some (k + 1 + of_nat (length vs))"
    using vs Cons.prems(2) Cons.IH [of "j + ?n" "i - ?n" "k + 1", unfolded eqs] by blast
  moreover have "0 < int i" using le n(2) by linarith
  moreover have "k + 1 + of_nat (length vs) = k + of_nat (length (v # vs))" by simp
  ultimately show ?case
    unfolding count_blocks.simps [of pat p 3 "int i" j k] g option.case Let_def step by simp
qed

lemma item_services:
  assumes "services_at pat p vs e" "ss_at s (es @ [e']) p" "e \<le> e'" "length es < 30" "e' \<le> length pat"
  shows "\<exists>s'. item_loop (get_sv_info (\<lambda>_. True) pat) (length vs) i s = Some (0, s', vs) \<and> ss_at s' (es @ [e']) e"
  using assms(1,2)
proof (induction vs arbitrary: p i s)
  case (Cons v vs)
  let ?n = "unat (pat ! (p + 6)) + 7"
  from Cons.prems(1) have v: "service_at pat p ?n v" and vs: "services_at pat (p + ?n) vs e" by (simp_all add: Let_def)
  have "p + ?n \<le> e'" using services_end [OF vs] assms(3) by simp
  from get_sv_info_exact [OF Cons.prems(2) assms(4,5) this v] obtain s1 where
    s1: "get_sv_info (\<lambda>_. True) pat i s = Some (0, s1, v)" "ss_at s1 (es @ [e']) (p + ?n)" by blast
  from Cons.IH [OF vs s1(2), of "Suc i"] s1(1) show ?case by auto
qed simp

lemma parse_sds_exact:
  assumes len: "length pat = 4096" and crc: "secCheckCrc pat = Some 0" and L: "len_field pat \<le> 4093"
    and vs: "services_at pat 11 vs (len_field pat - 1)" "vs \<noteq> []"
  shows "parse_sds True (\<lambda>_. True) pat n = Some (0, n\<lparr>num_svi := of_nat (length vs), service_infos := Some vs,
    d_version := ucast (field pat 42 5), d_current := ucast (field pat 47 1), d_section := pat ! 6,
    d_last_section := pat ! 7, d_tsid := ucast (field pat 24 16), d_onid := ucast (field pat 64 16)\<rparr>)"
proof -
  have fin: "11 + 10 * length vs \<le> len_field pat - 1" using services_end [OF vs(1)] .
  have "length vs \<noteq> 0" using vs(2) by simp
  with fin have ge: "22 \<le> len_field pat" by linarith
  from parse_sds_head [OF len L crc, of True "\<lambda>_. True" n] ge obtain s where s: "ss_at s [4096, 3 + len_field pat] 11"
    and run: "parse_sds True (\<lambda>_. True) pat n =
      (parse_sds_services True (\<lambda>_. True) pat n s (ucast (field pat 12 12) - word_of_nat 12) \<bind> sds_done pat)" by auto
  have "unat (ucast (field pat 12 12) - word_of_nat 12 :: u16) = len_field pat - 12" using rest_length [of 12 pat] ge L by simp
  then have u: "uint (ucast (field pat 12 12) - word_of_nat 12 :: u16) = int (len_field pat - 12)" by (simp only: uint_nat)
  have "11 + (len_field pat - 12) = len_field pat - 1" using ge by simp
  then have "count_blocks pat 11 3 (int (len_field pat - 12)) 0 0 = Some (of_nat (length vs))"
    using count_services [of pat 11 0 vs "len_field pat - 12" 0] vs(1) L len by simp
  moreover have small: "length vs < 65536" using fin L by linarith
  then have "unat (of_nat (length vs) :: u16) = length vs" by (simp add: unat_of_nat)
  moreover from this vs(2) have "(of_nat (length vs) :: u16) \<noteq> 0" by (metis length_0_conv unsigned_0)
  moreover have "len_field pat - 1 \<le> 3 + len_field pat" by linarith
  from item_services [OF vs(1), of s "[4096]" "3 + len_field pat" 0, OF _ this] s L len obtain s1 where
    s1: "item_loop (get_sv_info (\<lambda>_. True) pat) (length vs) 0 s = Some (0, s1, vs)" "ss_at s1 ([4096] @ [3 + len_field pat]) (len_field pat - 1)"
    by auto
  ultimately have items: "parse_items True (get_sv_info (\<lambda>_. True) pat) pat 3 (int (len_field pat - 12)) s =
      Some (0, s1, of_nat (length vs), Some vs)"
    using ss_at_ptr [OF s] by (simp add: parse_items_def)
  from ss_at_pop [OF s1(2)] obtain s2 where s2: "sizeStackPop s1 = (0, s2)" "ss_at s2 ([] @ [4096]) (len_field pat - 1)" by auto
  have "len_field pat - 1 + unat (0 :: u32) + unat (4 :: u32) \<le> 4096" using L by simp
  with ss_at_advance [OF s2(2), of 0 4] obtain s3 where
    s3: "sizeStackAdvance s2 0 4 = Some (0, s3)" "ss_at s3 ([] @ [4096]) (len_field pat - 1)" by auto
  have "bitsGet pat (len_field pat - 1) 0 32 = Some (field pat (8 * (len_field pat - 1)) 32)" using get32 [of "len_field pat - 1" pat] L len by simp
  then show ?thesis unfolding run using items [folded u] s2(1) s3(1) ss_at_ptr [OF s3(2)]
    by (simp del: One_nat_def of_nat_numeral add: parse_sds_services_def sds_done_def)
qed

subsection \<open>Claims\<close>

text \<open>C39: on a full section buffer with a length field of at most 4091 the parser of service sections
  reads outside the buffer exactly when the CRC is correct and between zero and three bytes are left
  behind the header, where the 16-bit remaining length wraps around.  Otherwise it returns 0 or 1,
  and what it accepts has a correct CRC, the header fields of the section and as many services as it
  reports, at least one, whose names are as long as their buffers.\<close>
theorem parse_sds_outcome:
  assumes "length pat = 4096" and "len_field pat \<le> 4091"
  shows "(parse_sds oka ok pat n = None \<longleftrightarrow> secCheckCrc pat = Some 0 \<and> 8 \<le> len_field pat \<and> len_field pat < 12) \<and>
    (\<forall>rc n'. parse_sds oka ok pat n = Some (rc, n') \<longrightarrow> (rc = 0 \<or> rc = 1) \<and> (rc = 0 \<longrightarrow> secCheckCrc pat = Some 0 \<and> oka
      \<and> d_tsid n' = ucast (field pat 24 16) \<and> d_onid n' = ucast (field pat 64 16)
      \<and> d_version n' = ucast (field pat 42 5) \<and> d_current n' = ucast (field pat 47 1)
      \<and> d_section n' = pat ! 6 \<and> d_last_section n' = pat ! 7
      \<and> (\<exists>l. service_infos n' = Some l \<and> l \<noteq> [] \<and> length l = unat (num_svi n') \<and> (\<forall>x\<in>set l. svi_ok x))))"
proof (cases "8 \<le> len_field pat \<and> len_field pat < 12")
  case True
  obtain c where c: "secCheckCrc pat = Some c" using secCheckCrc_total [OF assms(1)] assms(2) by auto
  show ?thesis
  proof (cases "c = 0")
    case True
    with c parse_sds_wraps [OF assms(1)] \<open>8 \<le> len_field pat \<and> len_field pat < 12\<close> show ?thesis by simp
  next
    case False
    with c show ?thesis by (simp add: parse_sds_def)
  qed
next
  case False
  then have "len_field pat < 8 \<or> 12 \<le> len_field pat" by linarith
  from parse_sds_run [OF assms this, of oka ok n] obtain rc n' where run: "parse_sds oka ok pat n = Some (rc, n')"
    "rc = 0 \<or> rc = 1" "rc = 0 \<longrightarrow> secCheckCrc pat = Some 0 \<and> oka
      \<and> d_tsid n' = ucast (field pat 24 16) \<and> d_onid n' = ucast (field pat 64 16)
      \<and> d_version n' = ucast (field pat 42 5) \<and> d_current n' = ucast (field pat 47 1)
      \<and> d_section n' = pat ! 6 \<and> d_last_section n' = pat ! 7
      \<and> (\<exists>l. service_infos n' = Some l \<and> l \<noteq> [] \<and> length l = unat (num_svi n') \<and> (\<forall>x\<in>set l. svi_ok x))" by metis
  show ?thesis unfolding run(1) option.inject prod.inject using False run(2,3) by blast
qed

abbreviation short_sdt :: buffer where
  "short_sdt \<equiv> [0x42, 0xb0, 0xb, 0x0, 0x5, 0xc3, 0x0, 0x0, 0x0, 0x9, 0x7f, 0x83, 0x73, 0x6c] @ replicate 4082 0"

theorem parse_sds_outcome_witness: "secCheckCrc short_sdt = Some 0 \<and> parse_sds True (\<lambda>_. True) short_sdt zero_sds = None"
proof -
  have "field short_sdt 12 12 = 11" using bitsGet_eq [of 12 1 4 short_sdt] by (simp add: sec_eval)
  moreover have c: "secCheckCrc short_sdt = Some 0" by (simp add: sec_eval)
  ultimately show ?thesis using parse_sds_outcome [of short_sdt True "\<lambda>_. True" zero_sds] by simp
qed

text \<open>C36: if the services of a section with a correct CRC lie one after the other from behind the header
  up to the CRC, each with one service descriptor, then the parser accepts the section and its result
  holds exactly these services in their order, with the provider and service names byte for byte, and
  the header fields.\<close>
theorem parse_sds_reads_services:
  assumes "length pat = 4096" and "secCheckCrc pat = Some 0" and "len_field pat \<le> 4093"
    and "services_at pat 11 vs (len_field pat - 1)" and "vs \<noteq> []"
  shows "parse_sds True (\<lambda>_. True) pat n = Some (0, n\<lparr>num_svi := of_nat (length vs), service_infos := Some vs,
    d_version := ucast (field pat 42 5), d_current := ucast (field pat 47 1), d_section := pat ! 6,
    d_last_section := pat ! 7, d_tsid := ucast (field pat 24 16), d_onid := ucast (field pat 64 16)\<rparr>)"
  using parse_sds_exact [OF assms] .

abbreviation small_sdt :: buffer where
  "small_sdt \<equiv> [0x42, 0xb0, 0x1a, 0x0, 0x5, 0xc3, 0x0, 0x0, 0x0, 0x9, 0xff, 0x12, 0x34, 0xfd, 0x80, 0x9, 0x48, 0x7, 0x1, 0x2, 0x42, 0x42, 0x2, 0x43, 0x31, 0x63, 0x8c, 0xc5, 0x2a] @ replicate 4067 0"

abbreviation small_service :: svi where
  "small_service \<equiv> \<lparr>v_svc_id = 0x1234, v_svc_type = 1, v_schedule = 0, v_present_follow = 1, v_status = 4, v_ca_mode = 0,
     v_provider_name = \<lparr>str_len = 2, str_buf = Some [0x42, 0x42]\<rparr>,
     v_service_name = \<lparr>str_len = 2, str_buf = Some [0x43, 0x31]\<rparr>, v_bouquet_name = no_string\<rparr>"

lemma small_sdt_fields: "field small_sdt 12 12 = 26" "field small_sdt 88 16 = 0x1234" "field small_sdt 110 1 = 0"
    "field small_sdt 111 1 = 1" "field small_sdt 112 3 = 4" "field small_sdt 115 1 = 0" "field small_sdt 116 12 = 9"
    "secCheckCrc small_sdt = Some 0"
  using bitsGet_eq [of 12 1 4 small_sdt] bitsGet_eq [of 16 11 0 small_sdt] bitsGet_eq [of 1 13 6 small_sdt]
    bitsGet_eq [of 1 13 7 small_sdt] bitsGet_eq [of 3 14 0 small_sdt] bitsGet_eq [of 1 14 3 small_sdt] bitsGet_eq [of 12 14 4 small_sdt]
  by (simp_all add: sec_eval)

theorem parse_sds_reads_services_witness:
  "\<exists>n'. parse_sds True (\<lambda>_. True) small_sdt zero_sds = Some (0, n') \<and> service_infos n' = Some [small_service]"
proof -
  have "services_at small_sdt 11 [small_service] 25" using small_sdt_fields
    by (simp add: service_at_def holds_string_def Let_def)
  then show ?thesis using parse_sds_reads_services [of small_sdt "[small_service]" zero_sds] small_sdt_fields by simp
qed

end
