(* ===== verification/Nis.thy ===== *)
theory Nis
  imports SecItems
begin

text \<open>
  stream/nis.c: the network information section with its transport streams and the parameters of
  their satellite or terrestrial delivery system.  \<open>ok\<close> says which allocations of names succeed.
\<close>

subsection \<open>Data\<close>

record tsi =
  t_tsid :: u16
  t_onid :: u16
  t_is_sat :: u8
  t_is_terr :: u8
  t_frequency_s :: u32
  t_orbi_pos :: u16
  t_east :: u8
  t_pol :: u8
  t_roff :: u8
  t_modsys :: u8
  t_modtype :: u8
  t_srate :: u32
  t_fec :: u8
  t_frequency_t :: u32
  t_bw :: u8
  t_pri :: u8
  t_slice :: u8
  t_mp_fec :: u8
  t_constellation :: u8
  t_hier :: u8
  t_code_rate_h :: u8
  t_code_rate_l :: u8
  t_guard :: u8
  t_mode :: u8
  t_oth :: u8
  t_netname :: dvb_string

definition zero_tsi :: tsi where
  "zero_tsi = \<lparr>t_tsid = 0, t_onid = 0, t_is_sat = 0, t_is_terr = 0, t_frequency_s = 0, t_orbi_pos = 0, t_east = 0, t_pol = 0,
     t_roff = 0, t_modsys = 0, t_modtype = 0, t_srate = 0, t_fec = 0, t_frequency_t = 0, t_bw = 0, t_pri = 0, t_slice = 0,
     t_mp_fec = 0, t_constellation = 0, t_hier = 0, t_code_rate_h = 0, t_code_rate_l = 0, t_guard = 0, t_mode = 0, t_oth = 0,
     t_netname = no_string\<rparr>"

record nis =
  n_version :: u8
  n_current :: u8
  n_section :: u8
  n_last_section :: u8
  n_net_id :: u16
  num_tsi :: u16
  ts_infos :: "tsi list option"

definition zero_nis :: nis where
  "zero_nis = \<lparr>n_version = 0, n_current = 0, n_section = 0, n_last_section = 0, n_net_id = 0, num_tsi = 0, ts_infos = None\<rparr>"

subsection \<open>The parser\<close>

text \<open>The bytes of the number are read in the order of a little-endian machine.\<close>

fun decode_bcd_loop :: "nat \<Rightarrow> nat \<Rightarrow> u32 \<Rightarrow> u32 \<Rightarrow> u32 \<Rightarrow> u32" where
  "decode_bcd_loop 0 i bcd rv mul = rv"
| "decode_bcd_loop (Suc n) i bcd rv mul =
     (let b = drop_bit (8 * i) bcd AND 0xff;
          rv = rv + (b AND 0xf) * mul;
          mul = mul * 10;
          rv = rv + drop_bit 4 b * mul
      in decode_bcd_loop n (Suc i) bcd rv (mul * 10))"

definition decode_bcd :: "u32 \<Rightarrow> u32" where
  "decode_bcd bcd = decode_bcd_loop 4 0 bcd 0 1"

definition sat_descr :: "buffer \<Rightarrow> size_stack \<Rightarrow> nat \<Rightarrow> tsi \<Rightarrow> (int \<times> tsi) option" where
  "sat_descr pat s ptr t = do {
     (r, s) \<leftarrow> sizeStackAdvance s 0 11;
     (if r \<noteq> 0 then Some (1, t)
      else do {
        freq \<leftarrow> bitsGet pat ptr 0 32;
        orb \<leftarrow> bitsGet pat (ptr + 4) 0 16;
        east \<leftarrow> bitsGet pat (ptr + 6) 0 1;
        pol \<leftarrow> bitsGet pat (ptr + 6) 1 2;
        roff \<leftarrow> bitsGet pat (ptr + 6) 3 2;
        modsys \<leftarrow> bitsGet pat (ptr + 6) 5 1;
        modtype \<leftarrow> bitsGet pat (ptr + 6) 6 2;
        srate \<leftarrow> bitsGet pat (ptr + 7) 0 28;
        fec \<leftarrow> bitsGet pat (ptr + 7) 28 4;
        Some (0, t\<lparr>t_frequency_s := decode_bcd (ucast freq), t_orbi_pos := ucast (decode_bcd (ucast (ucast orb :: u16))),
          t_east := ucast east, t_pol := ucast pol, t_roff := ucast roff, t_modsys := ucast modsys, t_modtype := ucast modtype,
          t_srate := decode_bcd (ucast srate), t_fec := ucast fec, t_is_sat := 1\<rparr>)
      })
   }"

text \<open>The terrestrial descriptor is read without checking its length.\<close>

definition terr_descr :: "buffer \<Rightarrow> nat \<Rightarrow> tsi \<Rightarrow> (int \<times> tsi) option" where
  "terr_descr pat ptr t = do {
     freq \<leftarrow> bitsGet pat ptr 0 32;
     bw \<leftarrow> bitsGet pat (ptr + 4) 0 3;
     pri \<leftarrow> bitsGet pat (ptr + 4) 3 1;
     slice \<leftarrow> bitsGet pat (ptr + 4) 4 1;
     mp_fec \<leftarrow> bitsGet pat (ptr + 4) 5 1;
     constellation \<leftarrow> bitsGet pat (ptr + 5) 0 2;
     hier \<leftarrow> bitsGet pat (ptr + 5) 2 3;
     crh \<leftarrow> bitsGet pat (ptr + 5) 5 3;
     crl \<leftarrow> bitsGet pat (ptr + 6) 0 3;
     guard \<leftarrow> bitsGet pat (ptr + 6) 3 2;
     md \<leftarrow> bitsGet pat (ptr + 6) 5 2;
     oth \<leftarrow> bitsGet pat (ptr + 6) 6 1;
     Some (0, t\<lparr>t_frequency_t := ucast freq, t_bw := ucast bw, t_pri := ucast pri, t_slice := ucast slice, t_mp_fec := ucast mp_fec,
       t_constellation := ucast constellation, t_hier := ucast hier, t_code_rate_h := ucast crh, t_code_rate_l := ucast crl,
       t_guard := ucast guard, t_mode := ucast md, t_oth := ucast oth, t_is_terr := 1\<rparr>)
   }"

text \<open>The switch over the descriptor tag.\<close>

definition tsi_descr :: "(nat \<Rightarrow> bool) \<Rightarrow> buffer \<Rightarrow> tsi handler" where
  "tsi_descr ok pat s d_tag d_len ptr t =
     (if d_tag = 0x43 then sat_descr pat s ptr t
      else if d_tag = 0x5A then terr_descr pat ptr t
      else if d_tag = 0x40 then do {
        (r, st) \<leftarrow> set_string ok pat ptr (unat d_len) (t_netname t);
        Some (r, t\<lparr>t_netname := st\<rparr>)
      }
      else Some (0, t))"

definition get_ts_info :: "(nat \<Rightarrow> bool) \<Rightarrow> buffer \<Rightarrow> nat \<Rightarrow> size_stack \<Rightarrow> (int \<times> size_stack \<times> tsi) option" where
  "get_ts_info ok pat i s = do {
     (r, s) \<leftarrow> sizeStackAdvance s 0 6;
     (if r \<noteq> 0 then Some (1, s, zero_tsi)
      else do {
        let ptr = nat (sizeStackPtr s);
        tsid \<leftarrow> bitsGet pat ptr 0 16;
        onid \<leftarrow> bitsGet pat (ptr + 2) 0 16;
        tsi_len \<leftarrow> bitsGet pat (ptr + 4) 4 12;
        let t = zero_tsi\<lparr>t_tsid := ucast tsid, t_onid := ucast onid\<rparr>;
        (r, s) \<leftarrow> sizeStackAdvance s 6 2;
        (if r \<noteq> 0 then Some (1, s, t) else descr_loop (tsi_descr ok pat) pat s (uint tsi_len) t)
      })
   }"

definition clear_ts_info :: "tsi \<Rightarrow> tsi" where
  "clear_ts_info t = zero_tsi"

text \<open>Clearing a section whose array is missing dereferences a null pointer.\<close>

definition clear_nis :: "nis \<Rightarrow> nis option" where
  "clear_nis n = (if num_tsi n \<noteq> 0 \<and> ts_infos n = None then None else Some zero_nis)"

text \<open>The loop over the transport streams in its own area, and the room for the CRC.\<close>

definition parse_nis_streams :: "bool \<Rightarrow> (nat \<Rightarrow> bool) \<Rightarrow> buffer \<Rightarrow> nis \<Rightarrow> size_stack \<Rightarrow> (int \<times> size_stack \<times> nis) option" where
  "parse_nis_streams oka ok pat n s = do {
     tsl_len \<leftarrow> bitsGet pat (nat (sizeStackPtr s)) 4 12;
     (r, s) \<leftarrow> sizeStackAdvance s 2 1;
     (if r \<noteq> 0 then Some (1, s, n)
      else do {
        (r, s) \<leftarrow> sizeStackPush s (ucast (ucast tsl_len :: u16));
        (if r \<noteq> 0 then Some (1, s, n)
         else do {
           (r, s, k, xs) \<leftarrow> parse_items oka (get_ts_info ok pat) pat 4 (uint (ucast tsl_len :: u16)) s;
           let n = n\<lparr>num_tsi := k, ts_infos := xs\<rparr>;
           (if r \<noteq> 0 then Some (1, s, n)
            else do {
              let (_, s) = sizeStackPop s;
              (r, s) \<leftarrow> sizeStackAdvance s 0 4;
              Some (if r \<noteq> 0 then 1 else 0, s, n)
            })
         })
      })
   }"

definition parse_nis_fields :: "bool \<Rightarrow> (nat \<Rightarrow> bool) \<Rightarrow> buffer \<Rightarrow> nis \<Rightarrow> size_stack \<Rightarrow> (int \<times> nis) option" where
  "parse_nis_fields oka ok pat n s = do {
     (r, s) \<leftarrow> sizeStackAdvance s 0 7;
     (if r \<noteq> 0 then Some (1, n)
      else do {
        let ptr = nat (sizeStackPtr s);
        net_id \<leftarrow> bitsGet pat ptr 0 16;
        version_number \<leftarrow> bitsGet pat (ptr + 2) 2 5;
        current_next \<leftarrow> bitsGet pat (ptr + 2) 7 1;
        section_number \<leftarrow> rd pat (ptr + 3);
        last_section_number \<leftarrow> rd pat (ptr + 4);
        ni_len \<leftarrow> bitsGet pat (ptr + 5) 4 12;
        (r, s) \<leftarrow> sizeStackAdvance s (7 + ucast ni_len) 1;
        (if r \<noteq> 0 then Some (1, n)
         else do {
           (r, s, n) \<leftarrow> parse_nis_streams oka ok pat n s;
           (if r \<noteq> 0 then Some (1, n)
            else do {
              crc \<leftarrow> bitsGet pat (nat (sizeStackPtr s)) 0 32;
              Some (0, n\<lparr>n_version := ucast version_number, n_current := ucast current_next, n_section := section_number,
                         n_last_section := last_section_number, n_net_id := ucast net_id\<rparr>)
            })
         })
      })
   }"

definition parse_nis :: "bool \<Rightarrow> (nat \<Rightarrow> bool) \<Rightarrow> buffer \<Rightarrow> nis \<Rightarrow> (int \<times> nis) option" where
  "parse_nis oka ok pat n = do {
     c \<leftarrow> secCheckCrc pat;
     (if c \<noteq> 0 then Some (1, n)
      else do {
        opn \<leftarrow> sec_open pat;
        (case opn of
           Inl _ \<Rightarrow> Some (1, n)
         | Inr (s, section_length) \<Rightarrow> parse_nis_fields oka ok pat n s)
      })
   }"

subsection \<open>Decimal numbers\<close>

text \<open>Whatever the digits, the number is their decimal sum.\<close>

abbreviation bcd_digit :: "u32 \<Rightarrow> nat \<Rightarrow> nat" where
  "bcd_digit w k \<equiv> unat w div 16 ^ k mod 16"

lemma nibble_digit: "drop_bit (4 * k) w AND 0xf = word_of_nat (bcd_digit w k)" for w :: u32
proof -
  have small: "take_bit 32 (unat w) = unat w" using unsigned_less [of w, where 'a = nat] by (simp add: take_bit_nat_eq_self_iff)
  have "drop_bit (4 * k) w AND 0xf = take_bit 4 (drop_bit (4 * k) w)"
    using take_bit_eq_mask [of 4 "drop_bit (4 * k) w"] by (simp add: mask_eq_exp_minus_1)
  also have "\<dots> = word_of_nat (unat (take_bit 4 (drop_bit (4 * k) w)))" by simp
  also have "unat (take_bit 4 (drop_bit (4 * k) w)) = take_bit 4 (drop_bit (4 * k) (unat w))"
    by (simp add: unsigned_take_bit_eq unsigned_drop_bit_eq small)
  also have "\<dots> = bcd_digit w k" by (simp add: take_bit_eq_mod drop_bit_eq_div power_mult)
  finally show ?thesis .
qed

lemma byte_nibbles: "(drop_bit m w AND 0xff) AND 0xf = drop_bit m w AND 0xf"
    "drop_bit 4 (drop_bit m w AND 0xff) = drop_bit (4 + m) w AND 0xf" for w :: u32
  by (simp_all add: and.assoc drop_bit_and)

lemma decode_bcd_loop_run:
  "decode_bcd_loop n i w rv (10 ^ (2 * i)) = rv + word_of_nat (\<Sum>k=2 * i..<2 * (i + n). bcd_digit w k * 10 ^ k)"
proof (induction n arbitrary: i rv)
  case (Suc n)
  have "drop_bit (8 * i) w AND 0xf = word_of_nat (bcd_digit w (2 * i))" "drop_bit (4 + 8 * i) w AND 0xf = word_of_nat (bcd_digit w (Suc (2 * i)))"
    using nibble_digit [of "2 * i" w] nibble_digit [of "Suc (2 * i)" w] by simp_all
  then have "decode_bcd_loop (Suc n) i w rv (10 ^ (2 * i)) =
      decode_bcd_loop n (Suc i) w (rv + word_of_nat (bcd_digit w (2 * i)) * 10 ^ (2 * i) +
        word_of_nat (bcd_digit w (Suc (2 * i))) * (10 ^ (2 * i) * 10)) (10 ^ (2 * i) * 10 * 10)"
    by (simp only: decode_bcd_loop.simps Let_def byte_nibbles)
  also have "(10 :: u32) ^ (2 * i) * 10 * 10 = 10 ^ (2 * Suc i)" by simp
  also note Suc.IH
  also have "(\<Sum>k=2 * i..<2 * (i + Suc n). bcd_digit w k * 10 ^ k) = bcd_digit w (2 * i) * 10 ^ (2 * i) +
      (bcd_digit w (Suc (2 * i)) * (10 ^ (2 * i) * 10) + (\<Sum>k=2 * Suc i..<2 * (Suc i + n). bcd_digit w k * 10 ^ k))"
    by (simp add: sum.atLeast_Suc_lessThan)
  ultimately show ?case by (simp only: of_nat_add of_nat_mult of_nat_power of_nat_numeral add.assoc)
qed simp

lemma decode_bcd_value: "unat (decode_bcd w) = (\<Sum>k<8. bcd_digit w k * 10 ^ k)"
proof -
  have w: "decode_bcd w = word_of_nat (\<Sum>k<8. bcd_digit w k * 10 ^ k)"
    using decode_bcd_loop_run [of 4 0 w 0] by (simp add: decode_bcd_def atLeast0LessThan)
  have "bcd_digit w k \<le> 15" for k using mod_less_divisor [of 16 "unat w div 16 ^ k"] by linarith
  then have "(\<Sum>k<8. bcd_digit w k * 10 ^ k) \<le> (\<Sum>k<(8::nat). 15 * 10 ^ k)" by (intro sum_mono mult_right_mono) auto
  also have "\<dots> < 2 ^ 32" by (simp add: lessThan_nat_numeral)
  finally show ?thesis unfolding w unat_of_nat by simp
qed

subsection \<open>The parser stays inside the section\<close>

text \<open>Every field of a transport stream is in the range of the table of names it selects from, and the
  decimal numbers have at most eight digits (seven for the symbol rate), each of at most 15.\<close>

definition tsi_ok :: "tsi \<Rightarrow> bool" where
  "tsi_ok t \<longleftrightarrow> string_ok (t_netname t) \<and> unat (t_frequency_s t) \<le> 166666665 \<and> unat (t_srate t) \<le> 16666665 \<and>
     t_is_sat t \<le> 1 \<and> t_is_terr t \<le> 1 \<and> t_east t < 2 \<and> t_pol t < 4 \<and> t_roff t < 4 \<and> t_modsys t < 2 \<and> t_modtype t < 4 \<and> t_fec t < 16 \<and>
     t_bw t < 8 \<and> t_pri t < 2 \<and> t_slice t < 2 \<and> t_mp_fec t < 2 \<and> t_constellation t < 4 \<and> t_hier t < 8 \<and>
     t_code_rate_h t < 8 \<and> t_code_rate_l t < 8 \<and> t_guard t < 4 \<and> t_mode t < 4 \<and> t_oth t < 2"

lemma field_in_byte: "n \<le> 7 \<Longrightarrow> unat (ucast (field pat p n) :: u8) < 2 ^ n"
proof -
  assume n: "n \<le> 7"
  have b: "unat (field pat p n) < 2 ^ n" using field_bound [of n pat p] n by simp
  moreover have "(2 :: nat) ^ n \<le> 2 ^ 7" using n by (intro power_increasing) simp_all
  ultimately have "unat (field pat p n) < 256" by simp
  then have "unat (ucast (field pat p n) :: u8) = unat (field pat p n)"
    by (simp add: unsigned_ucast_eq take_bit_nat_eq_self_iff)
  with b show ?thesis by simp
qed

lemma field_ranges: "ucast (field pat p 1) < (2 :: u8)" "ucast (field pat p 2) < (4 :: u8)" "ucast (field pat p 3) < (8 :: u8)"
    "ucast (field pat p 4) < (16 :: u8)"
  using field_in_byte [of 1 pat p] field_in_byte [of 2 pat p] field_in_byte [of 3 pat p] field_in_byte [of 4 pat p]
  by (simp_all add: word_less_nat_alt del: One_nat_def)

lemma decode_bcd_bound: "unat (decode_bcd w) \<le> 166666665"
proof -
  have "bcd_digit w k \<le> 15" for k using mod_less_divisor [of 16 "unat w div 16 ^ k"] by linarith
  then have "(\<Sum>k<8. bcd_digit w k * 10 ^ k) \<le> (\<Sum>k<(8::nat). 15 * 10 ^ k)" by (intro sum_mono mult_right_mono) auto
  then show ?thesis unfolding decode_bcd_value by (simp add: lessThan_nat_numeral)
qed

lemma decode_bcd_seven: "unat (decode_bcd (ucast (field pat p 28))) \<le> 16666665"
proof -
  let ?w = "ucast (field pat p 28) :: u32"
  have d: "bcd_digit ?w k \<le> 15" for k using mod_less_divisor [of 16 "unat ?w div 16 ^ k"] by linarith
  have "unat (field pat p 28) < 2 ^ 28" using field_bound [of 28 pat p] by simp
  moreover have "unat ?w \<le> unat (field pat p 28)"
    by (simp add: unsigned_ucast_eq take_bit_nat_less_eq_self)
  ultimately have "unat ?w < 16 ^ 7" by simp
  then have "bcd_digit ?w 7 = 0" by simp
  then have "unat (decode_bcd ?w) = (\<Sum>k<7. bcd_digit ?w k * 10 ^ k)"
    unfolding decode_bcd_value by (simp add: lessThan_nat_numeral)
  also have "\<dots> \<le> (\<Sum>k<(7::nat). 15 * 10 ^ k)" using d by (intro sum_mono mult_right_mono) auto
  finally show ?thesis by (simp add: lessThan_nat_numeral)
qed

lemma terr_descr_run:
  assumes "ptr + 7 \<le> length pat" and t: "tsi_ok t"
  shows "\<exists>t'. terr_descr pat ptr t = Some (0, t') \<and> tsi_ok t'"
proof -
  note b = bitsGet_eq [of _ _ _ pat]
  have "bitsGet pat ptr 0 32 = Some (field pat (8 * ptr) 32)"
    "bitsGet pat (ptr + 4) 0 3 = Some (field pat (8 * (ptr + 4)) 3)" "bitsGet pat (ptr + 4) 3 1 = Some (field pat (8 * (ptr + 4) + 3) 1)"
    "bitsGet pat (ptr + 4) 4 1 = Some (field pat (8 * (ptr + 4) + 4) 1)" "bitsGet pat (ptr + 4) 5 1 = Some (field pat (8 * (ptr + 4) + 5) 1)"
    "bitsGet pat (ptr + 5) 0 2 = Some (field pat (8 * (ptr + 5)) 2)" "bitsGet pat (ptr + 5) 2 3 = Some (field pat (8 * (ptr + 5) + 2) 3)"
    "bitsGet pat (ptr + 5) 5 3 = Some (field pat (8 * (ptr + 5) + 5) 3)" "bitsGet pat (ptr + 6) 0 3 = Some (field pat (8 * (ptr + 6)) 3)"
    "bitsGet pat (ptr + 6) 3 2 = Some (field pat (8 * (ptr + 6) + 3) 2)" "bitsGet pat (ptr + 6) 5 2 = Some (field pat (8 * (ptr + 6) + 5) 2)"
    "bitsGet pat (ptr + 6) 6 1 = Some (field pat (8 * (ptr + 6) + 6) 1)"
    using assms(1) by (simp_all add: b)
  then show ?thesis using t by (simp add: terr_descr_def tsi_ok_def field_ranges del: One_nat_def)
qed

lemma sat_descr_run:
  assumes s: "ss_at s (es @ [e] @ [e2]) ptr" and e: "e2 \<le> length pat" and t: "tsi_ok t"
  shows "\<exists>r t'. sat_descr pat s ptr t = Some (r, t') \<and> tsi_ok t'"
proof -
  from area_check [OF s, of 11] obtain s1 where s1: "sizeStackAdvance s 0 11 = Some (if ptr + 11 \<le> e2 then 0 else 1, s1)" by auto
  note b = bitsGet_eq [of _ _ _ pat]
  show ?thesis
  proof (cases "ptr + 11 \<le> e2")
    case False
    with s1 t show ?thesis by (simp add: sat_descr_def)
  next
    case True
    then have "bitsGet pat ptr 0 32 = Some (field pat (8 * ptr) 32)" "bitsGet pat (ptr + 4) 0 16 = Some (field pat (8 * (ptr + 4)) 16)"
      "bitsGet pat (ptr + 6) 0 1 = Some (field pat (8 * (ptr + 6)) 1)" "bitsGet pat (ptr + 6) 1 2 = Some (field pat (8 * (ptr + 6) + 1) 2)"
      "bitsGet pat (ptr + 6) 3 2 = Some (field pat (8 * (ptr + 6) + 3) 2)" "bitsGet pat (ptr + 6) 5 1 = Some (field pat (8 * (ptr + 6) + 5) 1)"
      "bitsGet pat (ptr + 6) 6 2 = Some (field pat (8 * (ptr + 6) + 6) 2)" "bitsGet pat (ptr + 7) 0 28 = Some (field pat (8 * (ptr + 7)) 28)"
      "bitsGet pat (ptr + 7) 28 4 = Some (field pat (8 * (ptr + 7) + 28) 4)"
      using e by (simp_all add: b)
    with s1 True t show ?thesis by (simp add: sat_descr_def tsi_ok_def field_ranges decode_bcd_bound decode_bcd_seven del: One_nat_def)
  qed
qed

lemma tsi_descr_ok:
  assumes "e + 7 \<le> length pat"
  shows "handler_ok (tsi_descr ok pat) tsi_ok es e"
  unfolding handler_ok_def
proof (intro allI impI)
  fix s tag and len :: u8 and ptr x
  assume s: "ss_at s (es @ [e] @ [ptr + unat len]) ptr" and le: "ptr + unat len \<le> e" and x: "tsi_ok x"
  have "ptr + unat len \<le> length pat" "string_ok (t_netname x)" using le assms x by (simp_all add: tsi_ok_def)
  note st = set_string_run [OF this, of ok]
  have "ptr + 7 \<le> length pat" "ptr + unat len \<le> length pat" using le assms by simp_all
  with st sat_descr_run [OF s, of pat x] terr_descr_run [of ptr pat x] x
  obtain r1 st' t1 r2 t2 where "set_string ok pat ptr (unat len) (t_netname x) = Some (r1, st')" "string_ok st'"
    "sat_descr pat s ptr x = Some (r2, t2)" "tsi_ok t2" "terr_descr pat ptr x = Some (0, t1)" "tsi_ok t1" by blast
  with x show "\<exists>r x'. tsi_descr ok pat s tag len ptr x = Some (r, x') \<and> tsi_ok x'" by (simp add: tsi_descr_def tsi_ok_def)
qed

lemma get_ts_info_ok:
  assumes len: "length es < 31" and e: "e + 7 \<le> length pat"
  shows "item_ok (get_ts_info ok pat) tsi_ok es e"
  unfolding item_ok_def
proof (intro allI impI)
  fix i s p assume s: "ss_at s (es @ [e]) p"
  show "\<exists>r s' x. get_ts_info ok pat i s = Some (r, s', x) \<and> (r = 0 \<longrightarrow> tsi_ok x \<and> (\<exists>p'. ss_at s' (es @ [e]) p'))"
  proof (cases "p + 6 \<le> e")
    case False
    with ss_at_advance [OF s, of 0 6] show ?thesis by (simp add: get_ts_info_def)
  next
    case True
    with ss_at_advance [OF s, of 0 6] obtain s1 where
      s1: "sizeStackAdvance s 0 6 = Some (0, s1)" "ss_at s1 (es @ [e]) p" by auto
    obtain a b l where g: "bitsGet pat p 0 16 = Some a" "bitsGet pat (p + 2) 0 16 = Some b" "bitsGet pat (p + 4) 4 12 = Some l"
      using True e get16 [of p pat] get16 [of "p + 2" pat] get12 [of "p + 4" pat] by auto
    let ?t = "zero_tsi\<lparr>t_tsid := ucast a, t_onid := ucast b\<rparr>"
    show ?thesis
    proof (cases "p + 6 + 2 \<le> e")
      case False
      with ss_at_advance [OF s1(2), of 6 2] have "sizeStackAdvance s1 6 2 = Some (1, s1)" by simp
      with s1(1) g ss_at_ptr [OF s1(2)] show ?thesis by (simp add: get_ts_info_def)
    next
      case True
      with ss_at_advance [OF s1(2), of 6 2] obtain s2 where s2: "sizeStackAdvance s1 6 2 = Some (0, s2)" "ss_at s2 (es @ [e]) (p + 6)" by auto
      have run: "get_ts_info ok pat i s = descr_loop (tsi_descr ok pat) pat s2 (uint l) ?t"
        using s1(1) s2(1) g ss_at_ptr [OF s1(2)] by (simp add: get_ts_info_def)
      have "e \<le> length pat" "tsi_ok ?t" using e by (simp_all add: tsi_ok_def zero_tsi_def)
      from descr_loop_run [OF s2(2) len this(1) tsi_descr_ok [OF e] this(2)] run show ?thesis by metis
    qed
  qed
qed

lemma parse_nis_streams_run:
  assumes s: "ss_at s (es @ [e0] @ [e]) p" and len: "length es < 28" and e: "e + 7 \<le> length pat" "e \<le> e0" "e0 \<le> length pat"
    and p: "p < e"
  shows "\<exists>r s' n'. parse_nis_streams oka ok pat n s = Some (r, s', n') \<and> (r = 0 \<or> r = 1) \<and>
    (r = 0 \<longrightarrow> oka \<and> (\<exists>q l. q + 4 \<le> length pat \<and> nat (sizeStackPtr s') = q \<and> ts_infos n' = Some l \<and> l \<noteq> [] \<and>
      length l = unat (num_tsi n') \<and> (\<forall>x\<in>set l. tsi_ok x)))"
proof -
  have s': "ss_at s ((es @ [e0]) @ [e]) p" using s by simp
  have g: "bitsGet pat p 4 12 = Some (field pat (8 * p + 4) 12)" using get12 [of p pat] p e by simp
  let ?l = "ucast (field pat (8 * p + 4) 12) :: u16"
  show ?thesis
  proof (cases "p + 3 \<le> e")
    case False
    with ss_at_advance [OF s', of 2 1] g ss_at_ptr [OF s'] show ?thesis by (simp add: parse_nis_streams_def)
  next
    case True
    with ss_at_advance [OF s', of 2 1] obtain s1 where
      s1: "sizeStackAdvance s 2 1 = Some (0, s1)" "ss_at s1 ((es @ [e0]) @ [e]) (p + 2)" by auto
    have "length (es @ [e0]) < 31" using len by simp
    note p1 = ss_at_push [OF s1(2) this, of "ucast ?l", unfolded widen16]
    show ?thesis
    proof (cases "p + 2 + unat ?l \<le> e")
      case False
      with p1 g s1(1) ss_at_ptr [OF s'] show ?thesis by (simp add: parse_nis_streams_def)
    next
      case fit: True
      with p1 obtain s2 where s2: "sizeStackPush s1 (ucast ?l) = Some (0, s2)" "ss_at s2 ((es @ [e0, e]) @ [p + 2 + unat ?l]) (p + 2)" by auto
      have "int (unat ?l) > 0 \<longrightarrow> int (p + 2 + 4 + 1) + int (unat ?l) \<le> int (length pat)" using fit e by linarith
      moreover have "uint ?l = int (unat ?l)" by simp
      ultimately have inside: "uint ?l > 0 \<longrightarrow> int (p + 2 + 4 + 1) + uint ?l \<le> int (length pat)" by metis
      have "item_ok (get_ts_info ok pat) tsi_ok (es @ [e0, e]) (p + 2 + unat ?l)" using len fit e by (intro get_ts_info_ok) simp_all
      from parse_items_run [OF this s2(2) inside, of oka] obtain r s3 k xs where
        it: "parse_items oka (get_ts_info ok pat) pat 4 (uint ?l) s2 = Some (r, s3, k, xs)" "r = 0 \<or> r = 1"
          "r = 0 \<longrightarrow> oka \<and> (\<exists>l q. xs = Some l \<and> l \<noteq> [] \<and> length l = unat k \<and> (\<forall>x\<in>set l. tsi_ok x) \<and>
            ss_at s3 ((es @ [e0, e]) @ [p + 2 + unat ?l]) q)" by blast
      show ?thesis
      proof (cases "r = 0")
        case False
        with it(1,2) g s1(1) s2(1) ss_at_ptr [OF s'] show ?thesis by (simp add: parse_nis_streams_def)
      next
        case True
        with it(3) obtain l q where l: "oka" "xs = Some l" "l \<noteq> []" "length l = unat k" "\<forall>x\<in>set l. tsi_ok x"
          "ss_at s3 ((es @ [e0, e]) @ [p + 2 + unat ?l]) q" by blast
        from ss_at_pop [OF l(6)] obtain s4 where s4: "sizeStackPop s3 = (0, s4)" "ss_at s4 ((es @ [e0]) @ [e]) q" by auto
        show ?thesis
        proof (cases "q + 4 \<le> e")
          case False
          with ss_at_advance [OF s4(2), of 0 4] True it(1) g s1(1) s2(1) s4(1) ss_at_ptr [OF s'] show ?thesis
            by (simp add: parse_nis_streams_def)
        next
          case t: True
          with ss_at_advance [OF s4(2), of 0 4] obtain s5 where s5: "sizeStackAdvance s4 0 4 = Some (0, s5)" "ss_at s5 ((es @ [e0]) @ [e]) q" by auto
          with True it(1) g s1(1) s2(1) s4(1) ss_at_ptr [OF s'] l t e show ?thesis
            using ss_at_ptr [OF s5(2)] by (simp add: parse_nis_streams_def)
        qed
      qed
    qed
  qed
qed

definition nis_done :: "buffer \<Rightarrow> int \<times> size_stack \<times> nis \<Rightarrow> (int \<times> nis) option" where
  "nis_done pat = (\<lambda>(r, s, n).
     if r \<noteq> 0 then Some (1, n)
     else do {
       crc \<leftarrow> bitsGet pat (nat (sizeStackPtr s)) 0 32;
       Some (0, n\<lparr>n_version := ucast (field pat 42 5), n_current := ucast (field pat 47 1), n_section := pat ! 6,
                  n_last_section := pat ! 7, n_net_id := ucast (field pat 24 16)\<rparr>)
     })"

abbreviation ni_len :: "buffer \<Rightarrow> nat" where
  "ni_len pat \<equiv> unat (field pat 68 12)"

lemma parse_nis_head:
  assumes "length pat = 4096" "len_field pat \<le> 4093" "secCheckCrc pat = Some 0"
  shows "if len_field pat < 8 + ni_len pat then parse_nis oka ok pat n = Some (1, n)
    else \<exists>s. ss_at s [4096, 3 + len_field pat] (10 + ni_len pat) \<and>
      parse_nis oka ok pat n = (parse_nis_streams oka ok pat n s \<bind> nis_done pat)"
proof -
  let ?L = "len_field pat"
  from sec_open_run [OF assms(1)] assms(2) obtain s1 where
    s1: "sec_open pat = Some (Inr (s1, field pat 12 12))" "ss_at s1 ([4096] @ [3 + ?L]) 3" by auto
  have head: "parse_nis oka ok pat n = parse_nis_fields oka ok pat n s1"
    using s1(1) assms(3) by (simp add: parse_nis_def)
  show ?thesis
  proof (cases "?L < 7")
    case True
    with ss_at_advance [OF s1(2), of 0 7] head show ?thesis by (simp add: parse_nis_fields_def)
  next
    case False
    with ss_at_advance [OF s1(2), of 0 7] obtain s2 where
      s2: "sizeStackAdvance s1 0 7 = Some (0, s2)" "ss_at s2 ([4096] @ [3 + ?L]) 3" by auto
    have g: "bitsGet pat 3 0 16 = Some (field pat 24 16)" "bitsGet pat 5 2 5 = Some (field pat 42 5)"
      "bitsGet pat 5 7 1 = Some (field pat 47 1)" "rd pat 6 = Some (pat ! 6)" "rd pat 7 = Some (pat ! 7)"
      "bitsGet pat 8 4 12 = Some (field pat 68 12)"
      using assms(1) get16 [of 3 pat] get25 [of 5 pat] get71 [of 5 pat] get12 [of 8 pat] by (simp_all add: rd_def)
    have pl: "ni_len pat < 4096" using field_bound [of 12 pat 68] by simp
    with ucast_small [OF this] have u: "unat (7 + ucast (field pat 68 12) :: u32) = 7 + ni_len pat"
      by (simp add: unat_word_ariths)
    note a2 = ss_at_advance [OF s2(2), of "7 + ucast (field pat 68 12)" 1, unfolded u]
    show ?thesis
    proof (cases "?L < 8 + ni_len pat")
      case True
      with a2 have "sizeStackAdvance s2 (7 + ucast (field pat 68 12)) 1 = Some (1, s2)" by simp
      with True head s2(1) ss_at_ptr [OF s2(2)] g show ?thesis by (simp add: parse_nis_fields_def)
    next
      case long: False
      with a2 obtain s3 where s3: "sizeStackAdvance s2 (7 + ucast (field pat 68 12)) 1 = Some (0, s3)"
        "ss_at s3 ([4096] @ [3 + ?L]) (10 + ni_len pat)" by (auto simp: algebra_simps)
      have "parse_nis oka ok pat n = (parse_nis_streams oka ok pat n s3 \<bind> nis_done pat)"
        using head s2(1) s3(1) ss_at_ptr [OF s2(2)] g by (simp del: One_nat_def add: parse_nis_fields_def nis_done_def)
      with long s3(2) show ?thesis by auto
    qed
  qed
qed

lemma parse_nis_run:
  assumes len: "length pat = 4096" and L: "len_field pat \<le> 4086"
  shows "\<exists>rc n'. parse_nis oka ok pat n = Some (rc, n') \<and> (rc = 0 \<or> rc = 1) \<and>
    (rc = 0 \<longrightarrow> secCheckCrc pat = Some 0 \<and> oka
      \<and> n_net_id n' = ucast (field pat 24 16)
      \<and> n_version n' = ucast (field pat 42 5) \<and> n_current n' = ucast (field pat 47 1)
      \<and> n_section n' = pat ! 6 \<and> n_last_section n' = pat ! 7
      \<and> (\<exists>l. ts_infos n' = Some l \<and> l \<noteq> [] \<and> length l = unat (num_tsi n') \<and> (\<forall>x\<in>set l. tsi_ok x)))"
proof -
  obtain c where c: "secCheckCrc pat = Some c" using secCheckCrc_total [OF len] L(1) by auto
  show ?thesis
  proof (cases "c = 0")
    case False
    with c show ?thesis by (simp add: parse_nis_def)
  next
    case True
    with c have crc: "secCheckCrc pat = Some 0" by simp
    note head = parse_nis_head [OF len _ crc, of oka ok n]
    show ?thesis
    proof (cases "len_field pat < 8 + ni_len pat")
      case True
      with head L show ?thesis by simp
    next
      case False
      with head L obtain s where s: "ss_at s ([] @ [4096] @ [3 + len_field pat]) (10 + ni_len pat)"
        and run: "parse_nis oka ok pat n = (parse_nis_streams oka ok pat n s \<bind> nis_done pat)" by auto
      have side: "length ([] :: nat list) < 28" "3 + len_field pat + 7 \<le> length pat" "3 + len_field pat \<le> 4096" "4096 \<le> length pat"
        "10 + ni_len pat < 3 + len_field pat" using len L False by simp_all
      from parse_nis_streams_run [OF s side, of oka ok n] obtain r s' n' where
        st: "parse_nis_streams oka ok pat n s = Some (r, s', n')" "r = 0 \<or> r = 1"
          "r = 0 \<longrightarrow> oka \<and> (\<exists>q l. q + 4 \<le> length pat \<and> nat (sizeStackPtr s') = q \<and> ts_infos n' = Some l \<and> l \<noteq> [] \<and>
            length l = unat (num_tsi n') \<and> (\<forall>x\<in>set l. tsi_ok x))" by metis
      show ?thesis
      proof (cases "r = 0")
        case False
        with st run show ?thesis by (simp add: nis_done_def)
      next
        case True
        with st obtain q l where q: "oka" "nat (sizeStackPtr s') = q" "q + 4 \<le> length pat" "ts_infos n' = Some l" "l \<noteq> []"
          "length l = unat (num_tsi n')" "\<forall>x\<in>set l. tsi_ok x" by blast
        have "bitsGet pat q 0 32 = Some (field pat (8 * q) 32)" using get32 [of q pat] q(3) by simp
        then show ?thesis using True st(1) run q crc by (simp add: nis_done_def)
      qed
    qed
  qed
qed

subsection \<open>Claims\<close>

text \<open>C38: on a full section buffer with a length field of at most 4086 the parser of network sections
  always returns 0 or 1 and never reads outside the buffer, whatever the descriptors hold.  What it
  accepts has a correct CRC, the header fields of the section and as many transport streams as it
  reports, at least one; the parameters of every transport stream lie in the range of the tables of
  names they select from; the frequency of a satellite is the sum of eight nibbles (0 to 15 each, whatever the descriptor
  holds) weighted by powers of ten, so at most 166666665, its symbol rate the sum of seven such nibbles, so at most 16666665,
  while the frequency of a terrestrial transmitter can be any 32-bit number; and the name is as long as its buffer.\<close>
theorem parse_nis_safe:
  assumes "length pat = 4096" and "len_field pat \<le> 4086"
  shows "\<exists>rc n'. parse_nis oka ok pat n = Some (rc, n') \<and> (rc = 0 \<or> rc = 1) \<and>
    (rc = 0 \<longrightarrow> secCheckCrc pat = Some 0 \<and> oka
      \<and> n_net_id n' = ucast (field pat 24 16)
      \<and> n_version n' = ucast (field pat 42 5) \<and> n_current n' = ucast (field pat 47 1)
      \<and> n_section n' = pat ! 6 \<and> n_last_section n' = pat ! 7
      \<and> (\<exists>l. ts_infos n' = Some l \<and> l \<noteq> [] \<and> length l = unat (num_tsi n') \<and> (\<forall>x\<in>set l. tsi_ok x)))"
  using parse_nis_run [OF assms] .

abbreviation small_nit :: buffer where
  "small_nit \<equiv> [0x40, 0xb0, 0x20, 0x0, 0x7, 0xc3, 0x0, 0x0, 0xf0, 0x0, 0xf0, 0x13, 0x0, 0x5, 0x0, 0x1, 0xf0, 0xd, 0x43, 0xb, 0x1, 0x17, 0x27, 0x50, 0x1, 0x92, 0xa1, 0x2, 0x75, 0x0, 0x3, 0x3, 0xc4, 0x2b, 0x96] @ replicate 4061 0"

theorem parse_nis_safe_witness:
  "\<exists>rc n'. parse_nis True (\<lambda>_. True) small_nit zero_nis = Some (rc, n') \<and> (rc = 0 \<or> rc = 1)"
proof -
  have "field small_nit 12 12 = 32" using bitsGet_eq [of 12 1 4 small_nit] by (simp add: sec_eval)
  then show ?thesis using parse_nis_safe [of small_nit True "\<lambda>_. True" zero_nis] by auto
qed

end
