(* ===== verification/Timestamp.thy ===== *)
theory Timestamp
  imports Complex_Main SecCommon "HOL-Library.Monad_Syntax"
begin

text \<open>
  common/timestamp.c and stream/tdt.c: modified Julian dates and the time and date table.  The
  floating point expressions of the calendar are modelled by exact rational arithmetic: none
  of them comes nearer than a ten-thousandth to an integer where it could be truncated
  differently, unless it is exact, so that the rounding of doubles has no influence.
\<close>

subsection \<open>Dates\<close>

text \<open>The conversion to an integer type truncates.\<close>

definition c_long :: "rat \<Rightarrow> int" where
  "c_long x = (if x < 0 then \<lceil>x\<rceil> else \<lfloor>x\<rfloor>)"

definition MJD_EPOCH :: u32 where "MJD_EPOCH = 50000"

definition get_mjd :: "int \<Rightarrow> int \<Rightarrow> int \<Rightarrow> u32" where
  "get_mjd d m y =
     (let l = (if m = 1 \<or> m = 2 then 1 else 0)
      in 14956 + word_of_int d + word_of_int (c_long (of_int (y - l) * 365.25)) + word_of_int (c_long (of_int (m + 1 + l * 12) * 30.6001)))"

definition get_time_hms :: "u8 \<Rightarrow> u8 \<Rightarrow> u8 \<Rightarrow> int" where
  "get_time_hms h m s = uint s + uint m * 60 + uint h * 3600"

text \<open>The product is an unsigned 32-bit number.\<close>

definition get_time_mjd :: "u32 \<Rightarrow> int" where
  "get_time_mjd mjd = (if mjd > 0 then uint ((mjd - MJD_EPOCH) * 86400) else 0)"

definition ts_to_mjd :: "u32 \<Rightarrow> int" where
  "ts_to_mjd ts = uint (ts div 86400 + MJD_EPOCH)"

text \<open>Year, month and day, or \<open>None\<close> if the return code is 1.\<close>

definition mjd_to_ymd :: "int \<Rightarrow> (int \<times> int \<times> int) option" where
  "mjd_to_ymd mjd =
     (if mjd > 0 then
        let y = c_long ((of_int mjd - 15078.2) / 365.25);
            m = c_long ((of_int mjd - 14956.1 - of_int (c_long (of_int y * 365.25))) / 30.6001);
            d = mjd - 14956 - c_long (of_int y * 365.25) - c_long (of_int m * 30.6001);
            k = (if m = 14 \<or> m = 15 then 1 else 0)
        in Some (y + k + 1900, m - 1 - k * 12, d)
      else None)"

text \<open>Seconds are converted to unsigned hours and minutes after a truncating division.\<close>

definition get_hour :: "int \<Rightarrow> int \<Rightarrow> u32" where
  "get_hour base t = word_of_int (c_long (of_int (t - base) / 3600))"

definition get_min :: "int \<Rightarrow> int \<Rightarrow> u32" where
  "get_min base t = word_of_int (c_long (of_int (t - base) / 60))"

subsection \<open>The time and date table\<close>

definition leap :: "int \<Rightarrow> bool" where
  "leap y \<longleftrightarrow> y mod 4 = 0 \<and> (y mod 100 \<noteq> 0 \<or> y mod 400 = 0)"

definition month_start :: "int \<Rightarrow> int" where
  "month_start mon = [0, 31, 59, 90, 120, 151, 181, 212, 243, 273, 304, 334] ! nat mon"

text \<open>\<open>timegm\<close> of the C library for months from 0 to 11: the seconds since the Epoch as POSIX defines them.\<close>

definition timegm :: "tm \<Rightarrow> int" where
  "timegm t =
     (let yday = month_start (tm_mon t) + (if leap (tm_year t + 1900) \<and> 2 \<le> tm_mon t then 1 else 0) + tm_mday t - 1
      in tm_sec t + tm_min t * 60 + tm_hour t * 3600 + yday * 86400 + (tm_year t - 70) * 31536000
         + ((tm_year t - 69) div 4) * 86400 - ((tm_year t - 1) div 100) * 86400 + ((tm_year t + 299) div 400) * 86400)"

text \<open>The year, month and day are not initialised if \<open>mjd_to_ymd\<close> fails; reading them is a fault.\<close>

definition tdtParse :: "buffer \<Rightarrow> int option" where
  "tdtParse raw_tdt = do {
     b \<leftarrow> rd raw_tdt 0;
     (if b \<noteq> 0x70 then Some (-1)
      else do {
        syn \<leftarrow> bitsGet raw_tdt 1 0 1;
        (if syn \<noteq> 0 then Some (-1)
         else do {
           section_length \<leftarrow> bitsGet raw_tdt 1 4 12;
           (if section_length \<noteq> 5 then Some (-1)
            else do {
              mjd \<leftarrow> bitsGet raw_tdt 3 0 16;
              h \<leftarrow> bitsGet raw_tdt 3 16 8;
              mi \<leftarrow> bitsGet raw_tdt 3 24 8;
              s \<leftarrow> bitsGet raw_tdt 3 32 8;
              (y, m, d) \<leftarrow> mjd_to_ymd (uint mjd);
              Some (timegm \<lparr>tm_sec = uint (bitsDecodeBcd8 (ucast s)), tm_min = uint (bitsDecodeBcd8 (ucast mi)),
                            tm_hour = uint (bitsDecodeBcd8 (ucast h)), tm_mday = d, tm_mon = m - 1, tm_year = y - 1900\<rparr>)
            })
         })
      })
   }"

subsection \<open>The calendar\<close>

lemma c_long_quot: "0 \<le> a \<Longrightarrow> 0 < b \<Longrightarrow> c_long (of_int a / of_int b) = a div b"
  by (simp add: c_long_def floor_divide_of_int_eq divide_less_0_iff)

lemma c_long_365: "0 \<le> y \<Longrightarrow> c_long (of_int y * 365.25) = (1461 * y) div 4"
  using c_long_quot [of "1461 * y" 4] by (simp add: field_simps)

lemma c_long_30: "0 \<le> m \<Longrightarrow> c_long (of_int m * 30.6001) = (306001 * m) div 10000"
  using c_long_quot [of "306001 * m" 10000] by (simp add: field_simps)

lemma ymd_year:
  assumes "15079 \<le> mjd"
  shows "c_long ((of_int mjd - 15078.2) / 365.25) = (40 * mjd - 603128) div 14610"
proof -
  have eq: "(x - 15078.2) / 365.25 = (40 * x - 603128) / (14610 :: rat)" for x by (simp add: field_simps)
  show ?thesis unfolding eq using c_long_quot [of "40 * mjd - 603128" 14610] assms by simp
qed

lemma ymd_month:
  assumes "1 \<le> r"
  shows "c_long ((of_int r - 0.1) / 30.6001) = (10000 * r - 1000) div 306001"
proof -
  have eq: "(x - 0.1) / 30.6001 = (10000 * x - 1000) / (306001 :: rat)" for x by (simp add: field_simps)
  show ?thesis unfolding eq using c_long_quot [of "10000 * r - 1000" 306001] assms by simp
qed

text \<open>The date of a day in terms of the year that starts in March.\<close>

definition in_year :: "int \<Rightarrow> int \<times> int" where
  "in_year mjd = (let y = (40 * mjd - 603128) div 14610 in (y, mjd - 14956 - (1461 * y) div 4))"

lemma in_year_range:
  assumes "in_year mjd = (y, r)" "15079 \<le> mjd" "mjd < 65536"
  shows "0 \<le> y \<and> y \<le> 138 \<and> 123 \<le> r \<and> r \<le> 488 \<and> (r = 488 \<longrightarrow> y mod 4 = 3)"
proof -
  define q where "q = (1461 * y) div 4"
  define a where "a = (40 * mjd - 603128) mod 14610"
  define b where "b = (1461 * y) mod 4"
  have y: "y = (40 * mjd - 603128) div 14610" and r: "r = mjd - 14956 - q" using assms(1) by (auto simp: in_year_def Let_def q_def)
  have 1: "40 * mjd - 603128 = 14610 * y + a" "0 \<le> a" "a < 14610" unfolding y a_def by simp_all
  have 2: "1461 * y = 4 * q + b" "0 \<le> b" "b < 4" unfolding q_def b_def by simp_all
  have "40 * r = 4888 + a + 10 * b" using 1(1) 2(1) r by linarith
  with 1(2,3) 2(2,3) have rr: "123 \<le> r" "r \<le> 488" "r = 488 \<longrightarrow> b = 3" by linarith+
  have yy: "0 \<le> y" "y \<le> 138" using 1 assms(2,3) by linarith+
  have "(1461 * y) mod 4 = ((1461 mod 4) * (y mod 4)) mod 4" by (simp only: mod_mult_eq)
  then have "b = y mod 4" by (simp add: b_def)
  with rr yy show ?thesis by simp
qed

definition month_len_ok :: "int \<Rightarrow> bool" where
  "month_len_ok r =
     (let m = (10000 * r - 1000) div 306001; s = (306001 * m) div 10000
      in 4 \<le> m \<and> m \<le> 15 \<and> s = [122, 153, 183, 214, 244, 275, 306, 336, 367, 397, 428, 459] ! nat (m - 4) \<and>
        1 \<le> r - s \<and> r - s \<le> [31, 30, 31, 30, 31, 31, 30, 31, 30, 31, 31, 29] ! nat (m - 4))"

lemma month_len:
  assumes "123 \<le> r" "r \<le> 488"
  shows "month_len_ok r"
proof -
  have "list_all month_len_ok [123..488]" by code_simp
  with assms show ?thesis unfolding list_all_iff set_upto by (meson atLeastAtMost_iff)
qed

lemma mjd_to_ymd_eq:
  assumes "in_year mjd = (y, r)" "15079 \<le> mjd" "mjd < 65536"
  shows "mjd_to_ymd mjd =
    (let m = (10000 * r - 1000) div 306001; k = (if m = 14 \<or> m = 15 then 1 else 0)
     in Some (y + k + 1900, m - 1 - k * 12, r - (306001 * m) div 10000))"
proof -
  have rg: "0 \<le> y" "y \<le> 138" "123 \<le> r" "r \<le> 488" using in_year_range [OF assms] by simp_all
  have y: "y = (40 * mjd - 603128) div 14610" and r: "r = mjd - 14956 - (1461 * y) div 4" using assms(1) by (auto simp: in_year_def Let_def)
  let ?m = "(10000 * r - 1000) div 306001"
  have "of_int mjd - 14956.1 - of_int ((1461 * y) div 4) = (of_int r - 0.1 :: rat)" unfolding r by simp
  then have m: "c_long ((of_int mjd - 14956.1 - of_int (c_long (of_int y * 365.25))) / 30.6001) = ?m"
    using ymd_month [of r] rg(1,3) by (simp only: c_long_365)
  have "0 \<le> ?m" using rg(3) by simp
  then have d: "mjd - 14956 - c_long (of_int y * 365.25) - c_long (of_int ?m * 30.6001) = r - (306001 * ?m) div 10000"
    using r by (simp only: c_long_365 [OF rg(1)] c_long_30)
  have y': "c_long ((of_int mjd - 15078.2) / 365.25) = y" using ymd_year [OF assms(2)] y by simp
  show ?thesis using assms(2) unfolding mjd_to_ymd_def Let_def y' m d by simp
qed

text \<open>The two conversions are inverse to each other.\<close>

lemma get_mjd_inverse:
  assumes "mjd_to_ymd mjd = Some (y, m, d)" and rg: "15079 \<le> mjd" "mjd < 65536"
  shows "get_mjd d m (y - 1900) = word_of_int mjd"
proof -
  obtain z r where yr: "in_year mjd = (z, r)" by fastforce
  have z: "0 \<le> z" "123 \<le> r" "r \<le> 488" using in_year_range [OF yr rg] by simp_all
  define n where "n = (10000 * r - 1000) div 306001"
  define l where "l = (if n = 14 \<or> n = 15 then 1 else 0 :: int)"
  have n: "4 \<le> n" "n \<le> 15" using month_len [OF z(2,3)] by (simp_all add: month_len_ok_def Let_def n_def)
  have ymd: "y = z + l + 1900" "m = n - 1 - l * 12" "d = r - (306001 * n) div 10000"
    using mjd_to_ymd_eq [OF yr rg] assms(1) by (simp_all add: Let_def n_def l_def)
  have eq: "(if m = 1 \<or> m = 2 then 1 else 0) = l" "m + 1 + l * 12 = n" "y - 1900 - l = z"
    using ymd n by (auto simp: l_def)
  have c: "c_long (of_int z * 365.25) = (1461 * z) div 4" "c_long (of_int n * 30.6001) = (306001 * n) div 10000"
    using c_long_365 [of z] c_long_30 [of n] z(1) n(1) by simp_all
  have "get_mjd d m (y - 1900) = word_of_int (14956 + d + (1461 * z) div 4 + (306001 * n) div 10000)"
    unfolding get_mjd_def Let_def eq c by simp
  also have "14956 + d + (1461 * z) div 4 + (306001 * n) div 10000 = mjd"
    using ymd(3) yr by (auto simp: in_year_def Let_def)
  finally show ?thesis .
qed

text \<open>Turning a date into days since the Epoch.\<close>

definition century_ok :: "int \<Rightarrow> bool" where
  "century_ok y \<longleftrightarrow> leap (y + 1900) = (y mod 4 = 0 \<and> y \<noteq> 0) \<and>
     (y + 299) div 400 - (y - 1) div 100 = (if y = 0 then 1 else 0)"

lemma century:
  assumes "0 \<le> y" "y \<le> 139"
  shows "century_ok y"
proof -
  have "list_all century_ok [0..139]" by code_simp
  with assms show ?thesis unfolding list_all_iff set_upto by (meson atLeastAtMost_iff)
qed

definition epoch_day :: "int \<Rightarrow> int \<Rightarrow> int \<Rightarrow> int" where
  "epoch_day y mon d = (month_start mon + (if leap (y + 1900) \<and> 2 \<le> mon then 1 else 0) + d - 1) + (y - 70) * 365
     + (y - 69) div 4 - (y - 1) div 100 + (y + 299) div 400"

lemma timegm_eq: "timegm t = tm_sec t + tm_min t * 60 + tm_hour t * 3600 + 86400 * epoch_day (tm_year t) (tm_mon t) (tm_mday t)"
  by (simp add: timegm_def epoch_day_def Let_def algebra_simps)

lemma div_day_year: "(1461 * y) div 4 = 365 * y + y div (4 :: int)"
proof -
  have "1461 * y = y + 4 * (365 * y)" by simp
  then show ?thesis by simp
qed

text \<open>A modified Julian day is a date of the calendar, and its day number is the day of the Epoch it stands for.\<close>

definition days_in_month :: "int \<Rightarrow> int \<Rightarrow> int" where
  "days_in_month y m =
     (if m = 2 then (if leap y then 29 else 28) else if m = 4 \<or> m = 6 \<or> m = 9 \<or> m = 11 then 30 else 31)"

lemma mjd_calendar:
  assumes "15079 \<le> mjd" "mjd < 65536"
  shows "\<exists>y m d. mjd_to_ymd mjd = Some (y, m, d) \<and> 1 \<le> m \<and> m \<le> 12 \<and> 1 \<le> d \<and> d \<le> days_in_month y m \<and>
    epoch_day (y - 1900) (m - 1) d = mjd - 40587"
proof -
  obtain y r where yr: "in_year mjd = (y, r)" by fastforce
  have rg: "0 \<le> y" "y \<le> 138" "123 \<le> r" "r \<le> 488" and lst: "r = 488 \<longrightarrow> y mod 4 = 3" using in_year_range [OF yr assms] by simp_all
  define m where "m = (10000 * r - 1000) div 306001"
  define s where "s = (306001 * m) div 10000"
  have mjd: "mjd = 14956 + 365 * y + y div 4 + r" using yr div_day_year [of y] by (auto simp: in_year_def Let_def)
  have c: "century_ok y" "century_ok (y + 1)" using century rg by simp_all
  have ymd: "mjd_to_ymd mjd = (let k = (if m = 14 \<or> m = 15 then 1 else 0) in Some (y + k + 1900, m - 1 - k * 12, r - s))"
    using mjd_to_ymd_eq [OF yr assms] by (simp add: Let_def m_def s_def)
  have ml: "4 \<le> m" "m \<le> 15" "s = [122, 153, 183, 214, 244, 275, 306, 336, 367, 397, 428, 459] ! nat (m - 4)"
    "1 \<le> r - s" "r - s \<le> [31, 30, 31, 30, 31, 31, 30, 31, 30, 31, 31, 29] ! nat (m - 4)"
    using month_len [OF rg(3,4)] unfolding month_len_ok_def Let_def m_def [symmetric] s_def [symmetric] by blast+
  have lp: "leap (y + 1900) \<longleftrightarrow> y mod 4 = 0 \<and> y \<noteq> 0" "leap (y + 1 + 1900) \<longleftrightarrow> (y + 1) mod 4 = 0"
    and ct: "(y + 299) div 400 - (y - 1) div 100 = (if y = 0 then 1 else 0)" "(y + 1 + 299) div 400 - (y + 1 - 1) div 100 = 0"
    using c rg(1) by (simp_all add: century_ok_def)
  have dv: "(y - 69) div 4 = y div 4 + (if y mod 4 = 0 then - 18 else - 17)" "(y + 1 - 69) div 4 = y div 4 - 17" by presburger+
  have lst': "r = 488 \<longrightarrow> leap (y + 1 + 1900)" using lst lp(2) by presburger
  have e0: "epoch_day y mon d = month_start mon + d - 1 + (y - 70) * 365 + y div 4 - 17" if "2 \<le> mon" for mon d
    using that lp(1) ct(1) dv(1) unfolding epoch_day_def by (auto split: if_splits)
  have e1: "epoch_day (y + 1) mon d = month_start mon + d - 1 + (y - 69) * 365 + y div 4 - 17" if "mon < 2" for mon d
    using that ct(2) dv(2) unfolding epoch_day_def by auto
  have cases: "m = 4 \<or> m = 5 \<or> m = 6 \<or> m = 7 \<or> m = 8 \<or> m = 9 \<or> m = 10 \<or> m = 11 \<or> m = 12 \<or> m = 13 \<or> m = 14 \<or> m = 15"
    using ml(1,2) by presburger
  show ?thesis
  proof (cases "m = 14 \<or> m = 15")
    case True
    then have "mjd_to_ymd mjd = Some (y + 1901, m - 13, r - s)" using ymd by (auto simp: Let_def)
    moreover have "epoch_day (y + 1) (m - 14) (r - s) = mjd - 40587"
      using True e1 [of "m - 14" "r - s"] ml(3) mjd by (auto simp: month_start_def)
    moreover have "r - s \<le> days_in_month (y + 1901) (m - 13)"
      using True ml(3,5) lst' rg(4) by (auto simp: days_in_month_def add.commute)
    moreover have "1 \<le> m - 13" "m - 13 \<le> 12" using True by auto
    moreover have "y + 1901 - 1900 = y + 1" "m - 13 - 1 = m - 14" by simp_all
    ultimately show ?thesis using ml(4) by metis
  next
    case False
    then have "mjd_to_ymd mjd = Some (y + 1900, m - 1, r - s)" using ymd by (auto simp: Let_def)
    moreover have "epoch_day y (m - 2) (r - s) = mjd - 40587"
      using False cases e0 [of "m - 2" "r - s"] ml(3) mjd by (elim disjE) (simp_all add: month_start_def)
    moreover have "r - s \<le> days_in_month (y + 1900) (m - 1)"
      using False cases ml(5) by (elim disjE) (simp_all add: days_in_month_def)
    moreover have "1 \<le> m - 1" "m - 1 \<le> 12" using False ml(1,2) by auto
    moreover have "y + 1900 - 1900 = y" "m - 1 - 1 = m - 2" by simp_all
    ultimately show ?thesis using ml(4) by metis
  qed
qed

subsection \<open>Parsing\<close>

definition bcd_value :: "buffer \<Rightarrow> nat \<Rightarrow> int" where
  "bcd_value raw i = 10 * (uint (raw ! i) div 16) + uint (raw ! i) mod 16"

lemma bitsDecodeBcd8_value: "uint (bitsDecodeBcd8 b) = 10 * (uint b div 16) + uint b mod 16"
proof -
  have "0 \<le> uint b" "uint b < 256" using uint_lt2p [of b] by simp_all
  then have r: "uint b div 16 \<le> 15" "0 \<le> uint b div 16" by (simp, simp only: pos_imp_zdiv_nonneg_iff)
  have "b AND 0x0f = take_bit 4 b" by (simp add: and_masks)
  then have lo: "uint (b AND 0x0f) = uint b mod 16" by (simp only: unsigned_take_bit_eq) (simp add: take_bit_eq_mod)
  have hi: "uint (drop_bit 4 b) = uint b div 16"
  proof -
    have "take_bit 8 (uint b) = uint b" using \<open>0 \<le> uint b\<close> \<open>uint b < 256\<close> by (simp only: take_bit_eq_mod) simp
    then show ?thesis by (simp only: unsigned_drop_bit_eq len_num0 len_num1 len_bit0 len_bit1) (simp add: drop_bit_eq_div)
  qed
  have m: "0 \<le> uint b mod 16" "uint b mod 16 < 16" by simp_all
  have "uint (bitsDecodeBcd8 b) = (uint b mod 16 + 10 * (uint b div 16)) mod 256"
    by (simp add: bitsDecodeBcd8_def uint_word_ariths lo hi mod_simps)
  also have "\<dots> = uint b mod 16 + 10 * (uint b div 16)" using r m by (intro mod_pos_pos_trivial) linarith+
  finally show ?thesis by simp
qed

lemma field_byte:
  assumes "i < length raw"
  shows "ucast (field raw (8 * i) 8) = raw ! i"
proof (rule bit_word_eqI)
  fix k assume "k < LENGTH(8)"
  then have k: "k < 8" by simp
  then have "8 * i + 8 - 1 - k = 8 * i + (7 - k)" by simp
  moreover have "(8 * i + j) div 8 = i" "(8 * i + j) mod 8 = j" if "j < 8" for j using that by simp_all
  then have "(8 * i + (7 - k)) div 8 = i" "(8 * i + (7 - k)) mod 8 = 7 - k" by (simp_all only: less_imp_diff_less zero_less_numeral numeral_less_iff semiring_norm)
  ultimately have "buf_bit raw (8 * i + 8 - 1 - k) = bit (raw ! i) k" using k by (simp only: buf_bit_def) simp
  then show "bit (ucast (field raw (8 * i) 8) :: u8) k = bit (raw ! i) k"
    using k by (simp add: field_def bit_horner_sum_bit_iff bit_ucast_iff)
qed

text \<open>C33: a well-formed time and date table gives the point of time it stands for: the bytes are
  read as a modified Julian day and binary coded decimal hours, minutes and seconds, the day is
  a date of the calendar from which \<open>get_mjd\<close> computes it again, and the result is the number of seconds since the Epoch of that date and
  time, which lies 40587 days before day 0 of the count.\<close>
theorem tdtParse_time:
  assumes "8 \<le> length raw" and "raw ! 0 = 0x70" and "field raw 8 1 = 0" and "field raw 12 12 = 5"
    and "15079 \<le> uint (field raw 24 16)"
  shows "tdtParse raw =
      Some ((uint (field raw 24 16) - 40587) * 86400 + bcd_value raw 5 * 3600 + bcd_value raw 6 * 60 + bcd_value raw 7)
    \<and> (\<exists>y m d. mjd_to_ymd (uint (field raw 24 16)) = Some (y, m, d) \<and>
      1 \<le> m \<and> m \<le> 12 \<and> 1 \<le> d \<and> d \<le> days_in_month y m \<and>
      get_mjd d m (y - 1900) = ucast (field raw 24 16))"
proof -
  have "unat (field raw 24 16) < 2 ^ 16" by (rule field_bound) simp
  then have "int (unat (field raw 24 16)) < int 65536" by (simp only: of_nat_less_iff) simp
  then have "uint (field raw 24 16) < 65536" by (simp only: uint_nat of_nat_numeral)
  note rg = assms(5) this
  from mjd_calendar [OF rg] obtain y m d where ymd:
    "mjd_to_ymd (uint (field raw 24 16)) = Some (y, m, d)" "1 \<le> m" "m \<le> 12" "1 \<le> d" "d \<le> days_in_month y m"
    "epoch_day (y - 1900) (m - 1) d = uint (field raw 24 16) - 40587" by blast
  have fields: "bitsGet raw (Suc 0) 0 (Suc 0) = Some 0" "bitsGet raw (Suc 0) 4 12 = Some 5" "bitsGet raw 3 0 16 = Some (field raw 24 16)"
    "bitsGet raw 3 16 8 = Some (field raw 40 8)" "bitsGet raw 3 24 8 = Some (field raw 48 8)" "bitsGet raw 3 32 8 = Some (field raw 56 8)"
    using assms(1) bitsGet_eq [of 1 1 0 raw] bitsGet_eq [of 12 1 4 raw] bitsGet_eq [of 16 3 0 raw]
      bitsGet_eq [of 8 3 16 raw] bitsGet_eq [of 8 3 24 raw] bitsGet_eq [of 8 3 32 raw] assms(3,4) by simp_all
  have bytes: "ucast (field raw 40 8) = raw ! 5" "ucast (field raw 48 8) = raw ! 6" "ucast (field raw 56 8) = raw ! 7"
    using field_byte [of 5 raw] field_byte [of 6 raw] field_byte [of 7 raw] assms(1) by simp_all
  have raw0: "rd raw 0 = Some 0x70" using assms(1,2) by (auto simp: rd_def)
  have "tdtParse raw = Some (timegm \<lparr>tm_sec = bcd_value raw 7, tm_min = bcd_value raw 6, tm_hour = bcd_value raw 5,
      tm_mday = d, tm_mon = m - 1, tm_year = y - 1900\<rparr>)"
    by (simp add: tdtParse_def raw0 fields bytes ymd(1) bcd_value_def bitsDecodeBcd8_value)
  moreover have "timegm \<lparr>tm_sec = bcd_value raw 7, tm_min = bcd_value raw 6, tm_hour = bcd_value raw 5,
      tm_mday = d, tm_mon = m - 1, tm_year = y - 1900\<rparr> =
      (uint (field raw 24 16) - 40587) * 86400 + bcd_value raw 5 * 3600 + bcd_value raw 6 * 60 + bcd_value raw 7"
    by (simp add: timegm_eq ymd(6))
  moreover have "get_mjd d m (y - 1900) = ucast (field raw 24 16)"
    using get_mjd_inverse [OF ymd(1) rg] by (simp only: ucast_eq)
  ultimately show ?thesis using ymd(1-5) by auto
qed

text \<open>The example of the standard: 12:45:00 on 13 October 1993.\<close>

lemma tdtParse_time_witness:
  "tdtParse [0x70, 0x70, 5, 0xC0, 0x79, 0x12, 0x45, 0x00] = Some 750516300"
proof -
  have v: "field [0x70, 0x70, 5, 0xC0, 0x79, 0x12, 0x45, 0x00] 8 1 = 0" "field [0x70, 0x70, 5, 0xC0, 0x79, 0x12, 0x45, 0x00] 12 12 = 5"
    "field [0x70, 0x70, 5, 0xC0, 0x79, 0x12, 0x45, 0x00] 24 16 = 49273" by code_simp+
  show ?thesis using tdtParse_time [of "[0x70, 0x70, 5, 0xC0, 0x79, 0x12, 0x45, 0x00]"] v by (simp add: bcd_value_def)
qed

end
