(* ===== verification/Eis.thy ===== *)
theory Eis
  imports SecItems Timestamp
begin

text \<open>
  stream/eis.c: the event information section with its events, and the iterator over the events of a
  raw section.  \<open>ok\<close> says which allocations of names succeed; the code does not check them, so that
  writing a name that could not be allocated is a fault.
\<close>

subsection \<open>Data\<close>

record evt =
  evt_id :: u16
  evt_start :: int
  evt_duration :: int
  running_status :: u8
  evt_ca_mode :: u8
  content1 :: u8
  content2 :: u8
  rating :: u8
  evt_name :: "buffer option"
  evt_description :: "buffer option"

definition zero_evt :: evt where
  "zero_evt = \<lparr>evt_id = 0, evt_start = 0, evt_duration = 0, running_status = 0, evt_ca_mode = 0, content1 = 0, content2 = 0,
     rating = 0, evt_name = None, evt_description = None\<rparr>"

record eis =
  e_version :: u8
  e_current :: u8
  e_section :: u8
  e_last_section :: u8
  e_svc_id :: u16
  segment_last_section_number :: u8
  last_table_id :: u8
  eis_type :: u8
  e_tsid :: u16
  e_onid :: u16
  num_events :: u16
  events :: "evt list option"

definition zero_eis :: eis where
  "zero_eis = \<lparr>e_version = 0, e_current = 0, e_section = 0, e_last_section = 0, e_svc_id = 0, segment_last_section_number = 0,
     last_table_id = 0, eis_type = 0, e_tsid = 0, e_onid = 0, num_events = 0, events = None\<rparr>"

definition get_eis_tsid :: "buffer \<Rightarrow> u64 option" where
  "get_eis_tsid sec = bitsGet sec 8 0 16"

subsection \<open>The parser\<close>

text \<open>A new zeroed string of \<open>n\<close> characters and its terminator.\<close>

definition new_name :: "(nat \<Rightarrow> bool) \<Rightarrow> nat \<Rightarrow> u8 \<Rightarrow> buffer option" where
  "new_name ok p n = (if ok p then Some (replicate (unat n + 1) 0) else None)"

definition short_event_descr :: "(nat \<Rightarrow> bool) \<Rightarrow> buffer \<Rightarrow> size_stack \<Rightarrow> nat \<Rightarrow> evt \<Rightarrow> (int \<times> evt) option" where
  "short_event_descr ok pat s ptr v = do {
     (r, s) \<leftarrow> sizeStackAdvance s 0 4;
     (if r \<noteq> 0 then Some (1, v)
      else do {
        n \<leftarrow> rd pat (ptr + 3);
        let v = v\<lparr>evt_name := new_name ok (ptr + 4) n\<rparr>;
        (r, s) \<leftarrow> sizeStackAdvance s 0 (4 + ucast n);
        (if r \<noteq> 0 then Some (1, v)
         else do {
           b \<leftarrow> bytes_at pat (ptr + 4) (unat n);
           _ \<leftarrow> evt_name v;
           let v = v\<lparr>evt_name := Some (b @ [0])\<rparr>;
           (r, s) \<leftarrow> sizeStackAdvance s 0 (5 + ucast n);
           (if r \<noteq> 0 then Some (1, v)
            else do {
              m \<leftarrow> rd pat (ptr + 4 + unat n);
              let v = v\<lparr>evt_description := new_name ok (ptr + 5 + unat n) m\<rparr>;
              (r, s) \<leftarrow> sizeStackAdvance s 0 (5 + ucast n + ucast m);
              (if r \<noteq> 0 then Some (1, v)
               else do {
                 b \<leftarrow> bytes_at pat (ptr + 5 + unat n) (unat m);
                 _ \<leftarrow> evt_description v;
                 Some (0, v\<lparr>evt_description := Some (b @ [0])\<rparr>)
               })
            })
         })
      })
   }"

text \<open>The switch over the descriptor tag; the content and the rating are read without checking the length.\<close>

definition evt_descr :: "(nat \<Rightarrow> bool) \<Rightarrow> buffer \<Rightarrow> evt handler" where
  "evt_descr ok pat s d_tag d_len ptr v =
     (if d_tag = 0x4d then (if evt_name v = None then short_event_descr ok pat s ptr v else Some (0, v))
      else if d_tag = 0x54 then
        (if content1 v = 0 \<and> content2 v = 0 then do {
           a \<leftarrow> bitsGet pat ptr 0 4;
           b \<leftarrow> bitsGet pat ptr 4 4;
           Some (0, v\<lparr>content1 := ucast a, content2 := ucast b\<rparr>)
         }
         else Some (0, v))
      else if d_tag = 0x55 then
        (if rating v = 0 then do { a \<leftarrow> rd pat (ptr + 3); Some (0, v\<lparr>rating := a\<rparr>) } else Some (0, v))
      else Some (0, v))"

text \<open>The fixed part of an event.\<close>

definition event_head :: "buffer \<Rightarrow> nat \<Rightarrow> (evt \<times> u16) option" where
  "event_head pat ptr = do {
     ident \<leftarrow> bitsGet pat ptr 0 16;
     mjd \<leftarrow> bitsGet pat (ptr + 2) 0 16;
     h1 \<leftarrow> bitsGet pat (ptr + 2) 16 8;
     m1 \<leftarrow> bitsGet pat (ptr + 2) 24 8;
     s1 \<leftarrow> bitsGet pat (ptr + 2) 32 8;
     h2 \<leftarrow> bitsGet pat (ptr + 7) 0 8;
     m2 \<leftarrow> bitsGet pat (ptr + 7) 8 8;
     s2 \<leftarrow> bitsGet pat (ptr + 7) 16 8;
     st \<leftarrow> bitsGet pat (ptr + 10) 0 3;
     ca \<leftarrow> bitsGet pat (ptr + 10) 3 1;
     desc_len \<leftarrow> bitsGet pat (ptr + 10) 4 12;
     Some (zero_evt\<lparr>evt_id := ucast ident,
        evt_start := get_time_mjd (ucast (ucast mjd :: u16)) +
          get_time_hms (bitsDecodeBcd8 (ucast h1)) (bitsDecodeBcd8 (ucast m1)) (bitsDecodeBcd8 (ucast s1)),
        evt_duration := get_time_hms (bitsDecodeBcd8 (ucast h2)) (bitsDecodeBcd8 (ucast m2)) (bitsDecodeBcd8 (ucast s2)),
        running_status := ucast st, evt_ca_mode := ucast ca\<rparr>, ucast desc_len)
   }"

definition get_event :: "(nat \<Rightarrow> bool) \<Rightarrow> buffer \<Rightarrow> nat \<Rightarrow> size_stack \<Rightarrow> (int \<times> size_stack \<times> evt) option" where
  "get_event ok pat i s = do {
     (r, s) \<leftarrow> sizeStackAdvance s 0 12;
     (if r \<noteq> 0 then Some (1, s, zero_evt)
      else do {
        (v, desc_len) \<leftarrow> event_head pat (nat (sizeStackPtr s));
        (r, s) \<leftarrow> sizeStackAdvance s 12 0;
        (if r \<noteq> 0 then Some (1, s, v) else descr_area (evt_descr ok pat) pat s desc_len v)
      })
   }"

definition evtClear :: "evt \<Rightarrow> evt" where
  "evtClear v = v\<lparr>evt_name := None, evt_description := None\<rparr>"

text \<open>Clearing a section whose array is missing dereferences a null pointer.\<close>

definition clear_eis :: "eis \<Rightarrow> eis option" where
  "clear_eis n = (if num_events n \<noteq> 0 \<and> events n = None then None else Some zero_eis)"

definition parse_eis_events :: "bool \<Rightarrow> (nat \<Rightarrow> bool) \<Rightarrow> buffer \<Rightarrow> eis \<Rightarrow> size_stack \<Rightarrow> u16 \<Rightarrow> (int \<times> size_stack \<times> eis) option" where
  "parse_eis_events oka ok pat p s section_length = do {
     (r, s, k, xs) \<leftarrow> parse_items oka (get_event ok pat) pat 10 (uint section_length) s;
     let p = p\<lparr>num_events := k, events := xs\<rparr>;
     (if r \<noteq> 0 then Some (1, s, p)
      else do {
        let (_, s) = sizeStackPop s;
        (r, s) \<leftarrow> sizeStackAdvance s 0 4;
        Some (if r \<noteq> 0 then (1, s, p\<lparr>events := None\<rparr>) else (0, s, p))
      })
   }"

definition parse_eis_fields :: "bool \<Rightarrow> (nat \<Rightarrow> bool) \<Rightarrow> buffer \<Rightarrow> eis \<Rightarrow> size_stack \<Rightarrow> u64 \<Rightarrow> (int \<times> eis) option" where
  "parse_eis_fields oka ok pat p s section_length = do {
     (r, s) \<leftarrow> sizeStackAdvance s 0 11;
     (if r \<noteq> 0 then Some (1, p)
      else do {
        let ptr = nat (sizeStackPtr s);
        svid \<leftarrow> bitsGet pat ptr 0 16;
        version_number \<leftarrow> bitsGet pat (ptr + 2) 2 5;
        current_next \<leftarrow> bitsGet pat (ptr + 2) 7 1;
        section_number \<leftarrow> rd pat (ptr + 3);
        last_section_number \<leftarrow> rd pat (ptr + 4);
        tsid \<leftarrow> bitsGet pat (ptr + 5) 0 16;
        onid \<leftarrow> bitsGet pat (ptr + 7) 0 16;
        segment_last \<leftarrow> rd pat (ptr + 9);
        last_id \<leftarrow> rd pat (ptr + 10);
        (r, s) \<leftarrow> sizeStackAdvance s 11 0;
        (if r \<noteq> 0 then Some (1, p)
         else do {
           (r, s, p) \<leftarrow> parse_eis_events oka ok pat p s (ucast section_length - (11 + 4));
           (if r \<noteq> 0 then Some (1, p)
            else do {
              crc \<leftarrow> bitsGet pat (nat (sizeStackPtr s)) 0 32;
              ty \<leftarrow> rd pat 0;
              Some (0, p\<lparr>e_version := ucast version_number, e_current := ucast current_next, e_section := section_number,
                         e_last_section := last_section_number, e_svc_id := ucast svid, e_onid := ucast onid, e_tsid := ucast tsid,
                         segment_last_section_number := segment_last, last_table_id := last_id, eis_type := ty\<rparr>)
            })
         })
      })
   }"

text \<open>The CRC of the section is not checked here.\<close>

definition parse_eis :: "bool \<Rightarrow> (nat \<Rightarrow> bool) \<Rightarrow> buffer \<Rightarrow> eis \<Rightarrow> (int \<times> eis) option" where
  "parse_eis oka ok pat p = do {
     opn \<leftarrow> sec_open pat;
     (case opn of
        Inl _ \<Rightarrow> Some (1, p)
      | Inr (s, section_length) \<Rightarrow> parse_eis_fields oka ok pat p s section_length)
   }"

subsection \<open>The iterator over a raw section\<close>

record eis_iter =
  it_sec :: buffer
  it_stack :: size_stack

definition get_first_ev :: "eis_iter \<Rightarrow> (int \<times> eis_iter) option" where
  "get_first_ev it = do {
     let (r, s) = sizeStackInit (it_stack it) (Some 0);
     (if r \<noteq> 0 then Some (1, it\<lparr>it_stack := s\<rparr>)
      else do {
        (r, s) \<leftarrow> sizeStackPush s (word_of_nat MAX_SEC_SIZE);
        (if r \<noteq> 0 then Some (1, it\<lparr>it_stack := s\<rparr>)
         else do {
           section_length \<leftarrow> bitsGet (it_sec it) 1 4 12;
           c \<leftarrow> secCheckCrc (it_sec it);
           (if c \<noteq> 0 then Some (1, it\<lparr>it_stack := s\<rparr>)
            else do {
              (r, s) \<leftarrow> sizeStackAdvance s 3 1;
              (if r \<noteq> 0 then Some (1, it\<lparr>it_stack := s\<rparr>)
               else do {
                 (r, s) \<leftarrow> sizeStackPush s (ucast section_length);
                 (if r \<noteq> 0 then Some (1, it\<lparr>it_stack := s\<rparr>)
                  else do {
                    (r, s) \<leftarrow> sizeStackAdvance s 11 16;
                    Some (if r \<noteq> 0 then 1 else 0, it\<lparr>it_stack := s\<rparr>)
                  })
               })
            })
         })
      })
   }"

definition iterEisSecInit :: "bool \<Rightarrow> buffer \<Rightarrow> (int \<times> eis_iter option) option" where
  "iterEisSecInit m sec =
     (if \<not> m then Some (1, None)
      else do {
        (r, it) \<leftarrow> get_first_ev \<lparr>it_sec = sec, it_stack = unset_stack\<rparr>;
        Some (if r \<noteq> 0 then (1, None) else (0, Some it))
      })"

definition iterEisSecFirst :: "eis_iter \<Rightarrow> eis_iter option" where
  "iterEisSecFirst it = do { (_, it) \<leftarrow> get_first_ev it; Some it }"

definition iterEisSecGetCurrent :: "eis_iter \<Rightarrow> nat" where
  "iterEisSecGetCurrent it = nat (sizeStackPtr (it_stack it))"

definition iterEisSecAdvance :: "eis_iter \<Rightarrow> (int \<times> eis_iter) option" where
  "iterEisSecAdvance it = do {
     (r, s) \<leftarrow> sizeStackAdvance (it_stack it) 10 2;
     (if r \<noteq> 0 then Some (1, it\<lparr>it_stack := s\<rparr>)
      else do {
        l \<leftarrow> bitsGet (it_sec it) (nat (sizeStackPtr s)) 4 12;
        (r, s) \<leftarrow> sizeStackAdvance s (ucast l + 2) 16;
        Some (if r \<noteq> 0 then 1 else 0, it\<lparr>it_stack := s\<rparr>)
      })
   }"

subsection \<open>The parser stays inside the section\<close>

text \<open>The name and the description are terminated.\<close>

definition evt_ok :: "evt \<Rightarrow> bool" where
  "evt_ok v \<longleftrightarrow> (\<forall>b\<in>set_option (evt_name v) \<union> set_option (evt_description v). b \<noteq> [] \<and> last b = 0)"

lemma new_name_some [simp]: "new_name (\<lambda>_. True) p n = Some (replicate (unat n + 1) 0)"
  by (simp add: new_name_def)

lemma short_event_run:
  assumes s: "ss_at s (es @ [e] @ [e2]) ptr" and e: "e2 \<le> length pat" and v: "evt_ok v"
  shows "\<exists>r v'. short_event_descr (\<lambda>_. True) pat s ptr v = Some (r, v') \<and> evt_ok v'"
proof -
  from area_check [OF s, of 4] obtain s1 where
    s1: "sizeStackAdvance s 0 4 = Some (if ptr + 4 \<le> e2 then 0 else 1, s1)" "ss_at s1 (es @ [e] @ [e2]) ptr" by auto
  show ?thesis
  proof (cases "ptr + 4 \<le> e2")
    case False
    with s1(1) v show ?thesis by (simp add: short_event_descr_def)
  next
    case 1: True
    then obtain n where n: "rd pat (ptr + 3) = Some n" using e by (simp add: rd_def)
    from area_check [OF s1(2), of "4 + ucast n", unfolded small_sum] obtain s2 where
      s2: "sizeStackAdvance s1 0 (4 + ucast n) = Some (if ptr + (4 + unat n) \<le> e2 then 0 else 1, s2)" "ss_at s2 (es @ [e] @ [e2]) ptr" by blast
    from area_check [OF s2(2), of "5 + ucast n", unfolded small_sum] obtain s3 where
      s3: "sizeStackAdvance s2 0 (5 + ucast n) = Some (if ptr + (5 + unat n) \<le> e2 then 0 else 1, s3)" "ss_at s3 (es @ [e] @ [e2]) ptr" by blast
    show ?thesis
    proof (cases "ptr + (4 + unat n) \<le> e2")
      case False
      with 1 s1(1) n s2(1) v show ?thesis by (simp add: short_event_descr_def evt_ok_def)
    next
      case 2: True
      then obtain b where b: "bytes_at pat (ptr + 4) (unat n) = Some b" using e by (simp add: bytes_at_def)
      show ?thesis
      proof (cases "ptr + (5 + unat n) \<le> e2")
        case False
        with 1 2 s1(1) n s2(1) s3(1) b v show ?thesis by (simp add: short_event_descr_def evt_ok_def)
      next
        case 3: True
        then obtain m where m: "rd pat (ptr + 4 + unat n) = Some m" using e by (simp add: rd_def)
        from area_check [OF s3(2), of "5 + ucast n + ucast m", unfolded small_sum] obtain s4 where
          s4: "sizeStackAdvance s3 0 (5 + ucast n + ucast m) = Some (if ptr + (5 + unat n + unat m) \<le> e2 then 0 else 1, s4)" by blast
        show ?thesis
        proof (cases "ptr + (5 + unat n + unat m) \<le> e2")
          case False
          with 1 2 3 s1(1) n s2(1) s3(1) s4 b m v show ?thesis by (simp add: short_event_descr_def evt_ok_def)
        next
          case 4: True
          then obtain c where "bytes_at pat (ptr + 5 + unat n) (unat m) = Some c" using e by (simp add: bytes_at_def)
          with 1 2 3 4 s1(1) n s2(1) s3(1) s4 b m v show ?thesis by (simp add: short_event_descr_def evt_ok_def)
        qed
      qed
    qed
  qed
qed

lemma evt_descr_ok:
  assumes "e + 4 \<le> length pat"
  shows "handler_ok (evt_descr (\<lambda>_. True) pat) evt_ok es e"
  unfolding handler_ok_def
proof (intro allI impI)
  fix s tag and len :: u8 and ptr v
  assume s: "ss_at s (es @ [e] @ [ptr + unat len]) ptr" and le: "ptr + unat len \<le> e" and v: "evt_ok v"
  have "ptr + unat len \<le> length pat" using le assms by simp
  from short_event_run [OF s this v] obtain r v1 where
    ev: "short_event_descr (\<lambda>_. True) pat s ptr v = Some (r, v1)" "evt_ok v1" by blast
  have "ptr + 4 \<le> length pat" using le assms by simp
  then obtain a b c where "bitsGet pat ptr 0 4 = Some a" "bitsGet pat ptr 4 4 = Some b" "rd pat (ptr + 3) = Some c"
    using bitsGet_eq [of 4 ptr 0 pat] bitsGet_eq [of 4 ptr 4 pat] by (auto simp: rd_def)
  with ev v show "\<exists>r v'. evt_descr (\<lambda>_. True) pat s tag len ptr v = Some (r, v') \<and> evt_ok v'"
    by (auto simp: evt_descr_def evt_ok_def)
qed

lemma event_head_run:
  assumes "p + 12 \<le> length pat"
  shows "\<exists>v l. event_head pat p = Some (v, l) \<and> evt_name v = None \<and> evt_description v = None"
proof -
  note b = bitsGet_eq [of _ _ _ pat]
  have "\<exists>a. bitsGet pat p 0 16 = Some a" "\<exists>a. bitsGet pat (p + 2) 0 16 = Some a" "\<exists>a. bitsGet pat (p + 2) 16 8 = Some a"
    "\<exists>a. bitsGet pat (p + 2) 24 8 = Some a" "\<exists>a. bitsGet pat (p + 2) 32 8 = Some a" "\<exists>a. bitsGet pat (p + 7) 0 8 = Some a"
    "\<exists>a. bitsGet pat (p + 7) 8 8 = Some a" "\<exists>a. bitsGet pat (p + 7) 16 8 = Some a" "\<exists>a. bitsGet pat (p + 10) 0 3 = Some a"
    "\<exists>a. bitsGet pat (p + 10) 3 1 = Some a" "\<exists>a. bitsGet pat (p + 10) 4 12 = Some a"
    using assms by (simp_all add: b)
  then show ?thesis by (auto simp: event_head_def zero_evt_def)
qed

lemma get_event_ok:
  assumes len: "length es < 30" and e: "e + 4 \<le> length pat"
  shows "item_ok (get_event (\<lambda>_. True) pat) evt_ok es e"
  unfolding item_ok_def
proof (intro allI impI)
  fix i s p assume s: "ss_at s (es @ [e]) p"
  show "\<exists>r s' x. get_event (\<lambda>_. True) pat i s = Some (r, s', x) \<and> (r = 0 \<longrightarrow> evt_ok x \<and> (\<exists>p'. ss_at s' (es @ [e]) p'))"
  proof (cases "p + 12 \<le> e")
    case False
    with ss_at_advance [OF s, of 0 12] show ?thesis by (simp add: get_event_def)
  next
    case True
    with ss_at_advance [OF s, of 0 12] obtain s1 where
      s1: "sizeStackAdvance s 0 12 = Some (0, s1)" "ss_at s1 (es @ [e]) p" by auto
    with ss_at_advance [OF s1(2), of 12 0] True obtain s2 where s2: "sizeStackAdvance s1 12 0 = Some (0, s2)" "ss_at s2 (es @ [e]) (p + 12)" by auto
    have "p + 12 \<le> length pat" using True e by simp
    from event_head_run [OF this] obtain v l where v: "event_head pat p = Some (v, l)" "evt_ok v" by (auto simp: evt_ok_def)
    have run: "get_event (\<lambda>_. True) pat i s = descr_area (evt_descr (\<lambda>_. True) pat) pat s2 l v"
      using s1(1) s2(1) v ss_at_ptr [OF s1(2)] by (simp add: get_event_def)
    have "e \<le> length pat" using e by simp
    moreover have "handler_ok (evt_descr (\<lambda>_. True) pat) evt_ok (es @ [e]) e'" if "e' \<le> e" for e' using that e by (intro evt_descr_ok) simp
    ultimately show ?thesis
      using run descr_area_run [where h = "evt_descr (\<lambda>_. True) pat" and I = evt_ok, OF s2(2) len _ v(2)] by metis
  qed
qed

lemma parse_eis_events_run:
  assumes s: "ss_at s (es @ [e0] @ [e]) p" and len: "length es < 28" and e: "e + 4 \<le> length pat" "e \<le> e0" "e0 \<le> length pat"
    and inside: "unat sl > 0 \<longrightarrow> p + 11 + unat sl \<le> length pat"
  shows "\<exists>r s' n'. parse_eis_events oka (\<lambda>_. True) pat n s sl = Some (r, s', n') \<and> (r = 0 \<or> r = 1) \<and>
    (r = 0 \<longrightarrow> oka \<and> (\<exists>q l. ss_at s' (es @ [e0]) q \<and> q + 4 \<le> e0 \<and> events n' = Some l \<and> l \<noteq> [] \<and>
      length l = unat (num_events n') \<and> (\<forall>x\<in>set l. evt_ok x)))"
proof -
  have s': "ss_at s ((es @ [e0]) @ [e]) p" using s by simp
  have "length (es @ [e0]) < 30" using len by simp
  note get = get_event_ok [OF this e(1)]
  have u: "uint sl = int (unat sl)" by simp
  have "int (unat sl) > 0 \<longrightarrow> int (p + 10 + 1) + int (unat sl) \<le> int (length pat)" using inside by linarith
  then have "uint sl > 0 \<longrightarrow> int (p + 10 + 1) + uint sl \<le> int (length pat)" unfolding u .
  from parse_items_run [OF get s' this, of oka] obtain r s1 k xs where
    it: "parse_items oka (get_event (\<lambda>_. True) pat) pat 10 (uint sl) s = Some (r, s1, k, xs)" "r = 0 \<or> r = 1"
      "r = 0 \<longrightarrow> oka \<and> (\<exists>l q. xs = Some l \<and> l \<noteq> [] \<and> length l = unat k \<and> (\<forall>x\<in>set l. evt_ok x) \<and> ss_at s1 ((es @ [e0]) @ [e]) q)"
    by blast
  show ?thesis
  proof (cases "r = 0")
    case False
    with it(1,2) show ?thesis by (simp add: parse_eis_events_def)
  next
    case True
    with it(3) obtain l q where l: "oka" "xs = Some l" "l \<noteq> []" "length l = unat k" "\<forall>x\<in>set l. evt_ok x" "ss_at s1 ((es @ [e0]) @ [e]) q"
      by blast
    from ss_at_pop [OF l(6)] obtain s2 where s2: "sizeStackPop s1 = (0, s2)" "ss_at s2 (es @ [e0]) q" by blast
    show ?thesis
    proof (cases "q + 4 \<le> e0")
      case False
      with ss_at_advance [OF s2(2), of 0 4] True it(1) s2(1) show ?thesis by (simp add: parse_eis_events_def)
    next
      case t: True
      with ss_at_advance [OF s2(2), of 0 4] obtain s3 where "sizeStackAdvance s2 0 4 = Some (0, s3)" "ss_at s3 (es @ [e0]) q" by auto
      with True it(1) l s2(1) t show ?thesis by (auto simp: parse_eis_events_def)
    qed
  qed
qed

definition eis_done :: "buffer \<Rightarrow> int \<times> size_stack \<times> eis \<Rightarrow> (int \<times> eis) option" where
  "eis_done pat = (\<lambda>(r, s, p).
     if r \<noteq> 0 then Some (1, p)
     else do {
       crc \<leftarrow> bitsGet pat (nat (sizeStackPtr s)) 0 32;
       ty \<leftarrow> rd pat 0;
       Some (0, p\<lparr>e_version := ucast (field pat 42 5), e_current := ucast (field pat 47 1), e_section := pat ! 6,
                  e_last_section := pat ! 7, e_svc_id := ucast (field pat 24 16), e_onid := ucast (field pat 80 16),
                  e_tsid := ucast (field pat 64 16), segment_last_section_number := pat ! 12, last_table_id := pat ! 13, eis_type := ty\<rparr>)
     })"

lemma parse_eis_head:
  assumes "length pat = 4096" "len_field pat \<le> 4093"
  shows "if len_field pat < 11 then parse_eis oka ok pat n = Some (1, n)
    else \<exists>s. ss_at s [4096, 3 + len_field pat] 14 \<and>
      parse_eis oka ok pat n = (parse_eis_events oka ok pat n s (ucast (field pat 12 12) - word_of_nat 15) \<bind> eis_done pat)"
proof -
  let ?L = "len_field pat"
  from sec_open_run [OF assms(1)] assms(2) obtain s1 where
    s1: "sec_open pat = Some (Inr (s1, field pat 12 12))" "ss_at s1 ([4096] @ [3 + ?L]) 3" by auto
  have head: "parse_eis oka ok pat n = parse_eis_fields oka ok pat n s1 (field pat 12 12)"
    using s1(1) by (simp add: parse_eis_def)
  show ?thesis
  proof (cases "?L < 11")
    case True
    with ss_at_advance [OF s1(2), of 0 11] head show ?thesis by (simp add: parse_eis_fields_def)
  next
    case False
    with ss_at_advance [OF s1(2), of 0 11] obtain s2 where
      s2: "sizeStackAdvance s1 0 11 = Some (0, s2)" "ss_at s2 ([4096] @ [3 + ?L]) 3" by auto
    with ss_at_advance [OF s2(2), of 11 0] False obtain s3 where
      s3: "sizeStackAdvance s2 11 0 = Some (0, s3)" "ss_at s3 ([4096] @ [3 + ?L]) 14" by auto
    have g: "bitsGet pat 3 0 16 = Some (field pat 24 16)" "bitsGet pat 5 2 5 = Some (field pat 42 5)"
      "bitsGet pat 5 7 1 = Some (field pat 47 1)" "rd pat 6 = Some (pat ! 6)" "rd pat 7 = Some (pat ! 7)"
      "bitsGet pat 8 0 16 = Some (field pat 64 16)" "bitsGet pat 10 0 16 = Some (field pat 80 16)"
      "rd pat 12 = Some (pat ! 12)" "rd pat 13 = Some (pat ! 13)"
      using assms(1) get16 [of 3 pat] get25 [of 5 pat] get71 [of 5 pat] get16 [of 8 pat] get16 [of 10 pat] by (simp_all add: rd_def)
    have "parse_eis oka ok pat n = (parse_eis_events oka ok pat n s3 (ucast (field pat 12 12) - word_of_nat 15) \<bind> eis_done pat)"
      using head s2(1) s3(1) ss_at_ptr [OF s2(2)] g by (simp del: One_nat_def add: parse_eis_fields_def eis_done_def)
    with False s3(2) show ?thesis by auto
  qed
qed

lemma parse_eis_run:
  assumes len: "length pat = 4096" and L: "len_field pat \<le> 4086" "len_field pat < 11 \<or> 15 \<le> len_field pat"
  shows "\<exists>rc n'. parse_eis oka (\<lambda>_. True) pat n = Some (rc, n') \<and> (rc = 0 \<or> rc = 1) \<and>
    (rc = 0 \<longrightarrow> oka
      \<and> e_svc_id n' = ucast (field pat 24 16) \<and> e_tsid n' = ucast (field pat 64 16) \<and> e_onid n' = ucast (field pat 80 16)
      \<and> e_version n' = ucast (field pat 42 5) \<and> e_current n' = ucast (field pat 47 1) \<and> e_section n' = pat ! 6 \<and> e_last_section n' = pat ! 7
      \<and> segment_last_section_number n' = pat ! 12 \<and> last_table_id n' = pat ! 13 \<and> eis_type n' = pat ! 0
      \<and> (\<exists>l. events n' = Some l \<and> l \<noteq> [] \<and> length l = unat (num_events n') \<and> (\<forall>x\<in>set l. evt_ok x)))"
proof -
  note head = parse_eis_head [OF len, of oka "\<lambda>_. True" n]
  show ?thesis
  proof (cases "len_field pat < 11")
    case True
    with head L(1) show ?thesis by simp
  next
    case False
    with L(2) have ge: "15 \<le> len_field pat" by simp
    from False head L(1) obtain s where s: "ss_at s ([] @ [4096] @ [3 + len_field pat]) 14"
      and run: "parse_eis oka (\<lambda>_. True) pat n =
        (parse_eis_events oka (\<lambda>_. True) pat n s (ucast (field pat 12 12) - word_of_nat 15) \<bind> eis_done pat)" by auto
    have sl: "unat (ucast (field pat 12 12) - word_of_nat 15 :: u16) = len_field pat - 15"
      using rest_length [of 15 pat] ge L(1) by simp
    have side: "length ([] :: nat list) < 28" "3 + len_field pat + 4 \<le> length pat" "3 + len_field pat \<le> 4096" "4096 \<le> length pat"
      "unat (ucast (field pat 12 12) - word_of_nat 15 :: u16) > 0 \<longrightarrow>
        14 + 11 + unat (ucast (field pat 12 12) - word_of_nat 15 :: u16) \<le> length pat"
      unfolding sl using len L(1) by simp_all
    from parse_eis_events_run [OF s side, of oka n] obtain r s' n' where
      st: "parse_eis_events oka (\<lambda>_. True) pat n s (ucast (field pat 12 12) - word_of_nat 15) = Some (r, s', n')" "r = 0 \<or> r = 1"
        "r = 0 \<longrightarrow> oka \<and> (\<exists>q l. ss_at s' ([] @ [4096]) q \<and> q + 4 \<le> 4096 \<and> events n' = Some l \<and> l \<noteq> [] \<and>
          length l = unat (num_events n') \<and> (\<forall>x\<in>set l. evt_ok x))" by metis
    show ?thesis
    proof (cases "r = 0")
      case False
      with st run show ?thesis by (simp add: eis_done_def)
    next
      case True
      with st obtain q l where q: "oka" "ss_at s' ([] @ [4096]) q" "q + 4 \<le> 4096" "events n' = Some l" "l \<noteq> []"
        "length l = unat (num_events n')" "\<forall>x\<in>set l. evt_ok x" by blast
      have "bitsGet pat q 0 32 = Some (field pat (8 * q) 32)" "rd pat 0 = Some (pat ! 0)" using get32 [of q pat] q(3) len by (simp_all add: rd_def)
      then show ?thesis using True st(1) run q ss_at_ptr [OF q(2)] by (simp add: eis_done_def)
    qed
  qed
qed

lemma parse_eis_wraps:
  assumes len: "length pat = 4096" and L: "11 \<le> len_field pat" "len_field pat < 15"
  shows "parse_eis oka ok pat n = None"
proof -
  from parse_eis_head [OF len, of oka ok n] L obtain s where s: "ss_at s [4096, 3 + len_field pat] 14"
    and run: "parse_eis oka ok pat n = (parse_eis_events oka ok pat n s (ucast (field pat 12 12) - word_of_nat 15) \<bind> eis_done pat)" by auto
  have "unat (ucast (field pat 12 12) - word_of_nat 15 :: u16) \<ge> 60000" using rest_length [of 15 pat] L by simp
  then have "int (unat (ucast (field pat 12 12) - word_of_nat 15 :: u16)) \<ge> 60000" by linarith
  then have "uint (ucast (field pat 12 12) - word_of_nat 15 :: u16) \<ge> 60000" by (simp only: uint_nat)
  with len have "count_blocks pat 14 10 (uint (ucast (field pat 12 12) - word_of_nat 15 :: u16)) 0 0 = None"
    by (intro count_blocks_leaves) simp_all
  with run ss_at_ptr [OF s] show ?thesis by (simp add: parse_eis_events_def parse_items_def)
qed

subsection \<open>The iterator stays inside the section\<close>

lemma first_ev_run:
  assumes "length sec = 4096" "len_field sec \<le> 4093"
  shows "\<exists>r it'. get_first_ev \<lparr>it_sec = sec, it_stack = s\<rparr> = Some (r, it') \<and> it_sec it' = sec \<and>
    (r = 0 \<longrightarrow> secCheckCrc sec = Some 0 \<and> ss_at (it_stack it') [4096, 3 + len_field sec] 14 \<and> 30 \<le> 3 + len_field sec)"
proof -
  let ?s0 = "\<lparr>num_bounds = 0, ss_start = replicate 32 0, ss_end = replicate 32 0, ss_ptr = 0\<rparr> :: size_stack"
  let ?s1 = "\<lparr>num_bounds = 1, ss_start = (replicate 32 0)[0 := 0], ss_end = (replicate 32 0)[0 := 4096], ss_ptr = 0\<rparr> :: size_stack"
  have i: "sizeStackInit s (Some 0) = (0, ?s0)" by (simp add: sizeStackInit_def)
  have p1: "sizeStackPush ?s0 (word_of_nat MAX_SEC_SIZE) = Some (0, ?s1)" by (simp add: sizeStackPush_def MAX_SEC_SIZE_def)
  have s1: "ss_at ?s1 ([] @ [4096]) 0" by (simp add: ss_at_def ss_inv_def take_Suc nth_list_update hd_conv_nth)
  have g: "bitsGet sec 1 4 12 = Some (field sec 12 12)" using bitsGet_eq [of 12 1 4 sec] assms(1) by simp
  obtain c where c: "secCheckCrc sec = Some c" using secCheckCrc_total [OF assms(1)] assms(2) by auto
  from ss_at_advance [OF s1, of 3 1] obtain s2 where
    s2: "sizeStackAdvance ?s1 3 1 = Some (0, s2)" "ss_at s2 ([] @ [4096]) 3" by auto
  have "unat (ucast (field sec 12 12) :: u32) = len_field sec" using ucast_small [OF len_field_bound] by blast
  with ss_at_push [OF s2(2), of "ucast (field sec 12 12)"] assms(2) obtain s3 where
    s3: "sizeStackPush s2 (ucast (field sec 12 12)) = Some (0, s3)" "ss_at s3 ([4096] @ [3 + len_field sec]) 3" by auto
  note a = ss_at_advance [OF s3(2), of 11 16]
  show ?thesis
  proof (cases "c = 0")
    case False
    with i p1 g c show ?thesis by (simp add: get_first_ev_def)
  next
    case True
    with a i p1 g c s2(1) s3(1) show ?thesis by (auto simp: get_first_ev_def split: if_splits)
  qed
qed

text \<open>The offset of the event behind the one at \<open>p\<close>.\<close>

definition next_event :: "buffer \<Rightarrow> nat \<Rightarrow> nat" where
  "next_event sec p = p + 12 + unat (field sec (8 * (p + 10) + 4) 12)"

lemma iter_advance_exact:
  assumes sec: "length (it_sec it) = 4096" "len_field (it_sec it) \<le> 4093"
    and s: "ss_at (it_stack it) [4096, 3 + len_field (it_sec it)] p" and p: "p + 16 \<le> 3 + len_field (it_sec it)"
  shows "if next_event (it_sec it) p + 16 \<le> 3 + len_field (it_sec it)
    then \<exists>it'. iterEisSecAdvance it = Some (0, it') \<and> it_sec it' = it_sec it \<and>
      ss_at (it_stack it') [4096, 3 + len_field (it_sec it)] (next_event (it_sec it) p)
    else \<exists>it'. iterEisSecAdvance it = Some (1, it')"
proof -
  have "ss_at (it_stack it) ([4096] @ [3 + len_field (it_sec it)]) p" using s by simp
  from ss_at_advance [OF this, of 10 2] p obtain s1 where s1: "sizeStackAdvance (it_stack it) 10 2 = Some (0, s1)"
    "ss_at s1 ([4096] @ [3 + len_field (it_sec it)]) (p + 10)" by auto
  let ?l = "field (it_sec it) (8 * (p + 10) + 4) 12"
  have g: "bitsGet (it_sec it) (p + 10) 4 12 = Some ?l" using get12 [of "p + 10" "it_sec it"] p sec by simp
  have "unat ?l < 4096" using field_bound [of 12 "it_sec it"] by simp
  with ucast_small [OF this] have u: "unat (ucast ?l + 2 :: u32) = unat ?l + 2" by (simp add: unat_word_ariths)
  note a2 = ss_at_advance [OF s1(2), of "ucast ?l + 2" 16, unfolded u]
  have q: "next_event (it_sec it) p = p + 10 + (unat ?l + 2)" by (simp add: next_event_def)
  show ?thesis
  proof (cases "next_event (it_sec it) p + 16 \<le> 3 + len_field (it_sec it)")
    case False
    then have "\<not> p + 10 + (unat ?l + 2) + unat (16 :: u32) \<le> 3 + len_field (it_sec it)" unfolding q by simp
    then have "sizeStackAdvance s1 (ucast ?l + 2) 16 = Some (1, s1)" using a2 by (simp only: if_False)
    with False s1 g ss_at_ptr [OF s1(2)] show ?thesis by (simp add: iterEisSecAdvance_def)
  next
    case True
    then have "p + 10 + (unat ?l + 2) + unat (16 :: u32) \<le> 3 + len_field (it_sec it)" unfolding q by simp
    then obtain s2 where s2: "sizeStackAdvance s1 (ucast ?l + 2) 16 = Some (0, s2)"
      "ss_at s2 ([4096] @ [3 + len_field (it_sec it)]) (next_event (it_sec it) p)" using a2 unfolding q by (simp only: if_True) blast
    with True s1 g ss_at_ptr [OF s1(2)] show ?thesis by (simp add: iterEisSecAdvance_def)
  qed
qed

text \<open>The loop of a client: the current event is used until advancing fails.  Running out of fuel
  gives None.\<close>

fun eis_walk :: "nat \<Rightarrow> eis_iter \<Rightarrow> nat list option" where
  "eis_walk 0 it = None"
| "eis_walk (Suc k) it = do {
     (r, it') \<leftarrow> iterEisSecAdvance it;
     (if r \<noteq> 0 then Some [iterEisSecGetCurrent it]
      else do { ps \<leftarrow> eis_walk k it'; Some (iterEisSecGetCurrent it # ps) })
   }"

text \<open>The offsets of the events from \<open>p\<close> on: an event is visited if it and the CRC fit into the
  section of \<open>e\<close> bytes.\<close>

fun event_offsets :: "buffer \<Rightarrow> nat \<Rightarrow> nat \<Rightarrow> nat list \<Rightarrow> bool" where
  "event_offsets sec e p [] \<longleftrightarrow> False"
| "event_offsets sec e p (q # qs) \<longleftrightarrow> q = p \<and> p + 16 \<le> e \<and>
     (if next_event sec p + 16 \<le> e then event_offsets sec e (next_event sec p) qs else qs = [])"

lemma eis_walk_run:
  assumes "length (it_sec it) = 4096" "len_field (it_sec it) \<le> 4093" "ss_at (it_stack it) [4096, 3 + len_field (it_sec it)] p"
    "p + 16 \<le> 3 + len_field (it_sec it)" "3 + len_field (it_sec it) < p + 16 + 12 * k"
  shows "\<exists>ps. eis_walk k it = Some ps \<and> event_offsets (it_sec it) (3 + len_field (it_sec it)) p ps"
  using assms
proof (induction k arbitrary: it p)
  case (Suc k)
  let ?n = "next_event (it_sec it) p"
  note a = iter_advance_exact [OF Suc.prems(1,2,3,4)]
  have cur: "iterEisSecGetCurrent it = p" using ss_at_ptr [OF Suc.prems(3)] by (simp add: iterEisSecGetCurrent_def)
  show ?case
  proof (cases "?n + 16 \<le> 3 + len_field (it_sec it)")
    case False
    with a cur Suc.prems(4) show ?thesis by auto
  next
    case True
    with a obtain it' where it': "iterEisSecAdvance it = Some (0, it')" "it_sec it' = it_sec it"
      "ss_at (it_stack it') [4096, 3 + len_field (it_sec it)] ?n" by auto
    have "3 + len_field (it_sec it) < ?n + 16 + 12 * k" using Suc.prems(5) by (simp add: next_event_def)
    with Suc.IH [of it' ?n] it' True Suc.prems(1,2) obtain ps where
      "eis_walk k it' = Some ps" "event_offsets (it_sec it) (3 + len_field (it_sec it)) ?n ps" by auto
    with it'(1) cur True Suc.prems(4) show ?thesis by auto
  qed
qed simp

lemma crc_len: "length sec = 4096 \<Longrightarrow> secCheckCrc sec = Some 0 \<Longrightarrow> len_field sec \<le> 4093"
proof (rule ccontr)
  assume "length sec = 4096" "secCheckCrc sec = Some 0" "\<not> len_field sec \<le> 4093"
  moreover from this have "secCheckCrc sec = None"
    using get12 [of 1 sec] by (simp add: secCheckCrc_def sec_crc32_def)
  ultimately show False by simp
qed

subsection \<open>Claims\<close>

text \<open>C40: on a full section buffer with a length field of at most 4086, and if the memory of the names
  can be allocated, the parser of event sections reads outside the buffer exactly when between zero
  and three bytes are left behind the header, where the 16-bit remaining length wraps around.
  Otherwise it returns 0 or 1 and what it accepts has the header fields of the section and as many
  events as it reports, at least one, whose names and descriptions are terminated.\<close>
theorem parse_eis_outcome:
  assumes "length pat = 4096" and "len_field pat \<le> 4086"
  shows "(parse_eis oka (\<lambda>_. True) pat n = None \<longleftrightarrow> 11 \<le> len_field pat \<and> len_field pat < 15) \<and>
    (\<forall>rc n'. parse_eis oka (\<lambda>_. True) pat n = Some (rc, n') \<longrightarrow> (rc = 0 \<or> rc = 1) \<and> (rc = 0 \<longrightarrow> oka
      \<and> e_svc_id n' = ucast (field pat 24 16) \<and> e_tsid n' = ucast (field pat 64 16) \<and> e_onid n' = ucast (field pat 80 16)
      \<and> e_version n' = ucast (field pat 42 5) \<and> e_current n' = ucast (field pat 47 1) \<and> e_section n' = pat ! 6 \<and> e_last_section n' = pat ! 7
      \<and> segment_last_section_number n' = pat ! 12 \<and> last_table_id n' = pat ! 13 \<and> eis_type n' = pat ! 0
      \<and> (\<exists>l. events n' = Some l \<and> l \<noteq> [] \<and> length l = unat (num_events n') \<and> (\<forall>x\<in>set l. evt_ok x))))"
proof (cases "11 \<le> len_field pat \<and> len_field pat < 15")
  case True
  with parse_eis_wraps [OF assms(1)] show ?thesis by simp
next
  case False
  then have "len_field pat < 11 \<or> 15 \<le> len_field pat" by linarith
  from parse_eis_run [OF assms this, of oka n] obtain rc n' where run: "parse_eis oka (\<lambda>_. True) pat n = Some (rc, n')"
    "rc = 0 \<or> rc = 1" "rc = 0 \<longrightarrow> oka
      \<and> e_svc_id n' = ucast (field pat 24 16) \<and> e_tsid n' = ucast (field pat 64 16) \<and> e_onid n' = ucast (field pat 80 16)
      \<and> e_version n' = ucast (field pat 42 5) \<and> e_current n' = ucast (field pat 47 1) \<and> e_section n' = pat ! 6 \<and> e_last_section n' = pat ! 7
      \<and> segment_last_section_number n' = pat ! 12 \<and> last_table_id n' = pat ! 13 \<and> eis_type n' = pat ! 0
      \<and> (\<exists>l. events n' = Some l \<and> l \<noteq> [] \<and> length l = unat (num_events n') \<and> (\<forall>x\<in>set l. evt_ok x))" by metis
  show ?thesis unfolding run(1) option.inject prod.inject using False run(2,3) by blast
qed

abbreviation short_eit :: buffer where
  "short_eit \<equiv> [0x4e, 0xb0, 0xe, 0x0, 0x5, 0xc3, 0x0, 0x0, 0x0, 0x7, 0x0, 0x9, 0x0, 0xad, 0x54, 0xb8, 0xbf] @ replicate 4079 0"

theorem parse_eis_outcome_witness: "parse_eis True (\<lambda>_. True) short_eit zero_eis = None"
proof -
  have "field short_eit 12 12 = 14" using bitsGet_eq [of 12 1 4 short_eit] by (simp add: sec_eval)
  then show ?thesis using parse_eis_outcome [of short_eit True zero_eis] by simp
qed

text \<open>C37: an iterator over a raw event section visits exactly the events of the section one after the
  other, beginning behind the header, as long as an event and the CRC fit into the section; 340
  rounds are always enough.\<close>
theorem eis_iterator_visits_events:
  assumes "length sec = 4096" and "iterEisSecInit m sec = Some (0, Some it)"
  shows "\<exists>ps. eis_walk 340 it = Some ps \<and> event_offsets sec (3 + len_field sec) 14 ps"
proof -
  from assms(2) have it: "get_first_ev \<lparr>it_sec = sec, it_stack = unset_stack\<rparr> = Some (0, it)"
    by (auto simp: iterEisSecInit_def split: if_splits Option.bind_splits)
  have L: "len_field sec \<le> 4093"
  proof (rule crc_len [OF assms(1)])
    show "secCheckCrc sec = Some 0" using it by (auto simp: get_first_ev_def split: if_splits Option.bind_splits prod.splits)
  qed
  from first_ev_run [OF assms(1) L, of unset_stack] it have
    i: "it_sec it = sec" "ss_at (it_stack it) [4096, 3 + len_field sec] 14" "30 \<le> 3 + len_field sec" by auto
  then show ?thesis using eis_walk_run [of it 14 340] L assms(1) by simp
qed

abbreviation two_eit :: buffer where
  "two_eit \<equiv> [0x4e, 0xb0, 0x30, 0x0, 0x5, 0xc3, 0x0, 0x0, 0x0, 0x7, 0x0, 0x9, 0x0, 0x4e, 0x11, 0x22, 0xc0, 0x79, 0x12, 0x45, 0x0, 0x1, 0x45, 0x0, 0x80, 0x9, 0x4d, 0x7, 0x65, 0x6e, 0x67, 0x2, 0x48, 0x69, 0x0, 0x11, 0x23, 0xc0, 0x79, 0x14, 0x45, 0x0, 0x1, 0x45, 0x0, 0x80, 0x0, 0xbd, 0x10, 0x4e, 0x2c] @ replicate 4045 0"

lemma two_eit_fields: "len_field two_eit = 48" "field two_eit 196 12 = 9" "field two_eit 364 12 = 0" "secCheckCrc two_eit = Some 0"
  using bitsGet_eq [of 12 1 4 two_eit] bitsGet_eq [of 12 24 4 two_eit] bitsGet_eq [of 12 45 4 two_eit] by (simp_all add: sec_eval)

lemma two_eit_init: "\<exists>it. iterEisSecInit True two_eit = Some (0, Some it)"
  by (simp add: iterEisSecInit_def get_first_ev_def two_eit_fields(4) sizeStackInit_def sizeStackPush_def sizeStackAdvance_def MAX_SEC_SIZE_def sec_eval)

theorem eis_iterator_visits_events_witness:
  "\<exists>it. iterEisSecInit True two_eit = Some (0, Some it) \<and> eis_walk 340 it = Some [14, 35]"
proof -
  from two_eit_init obtain it where it: "iterEisSecInit True two_eit = Some (0, Some it)" by blast
  from eis_iterator_visits_events [OF _ it] obtain ps where ps: "eis_walk 340 it = Some ps" "event_offsets two_eit 51 14 ps"
    using two_eit_fields(1) by auto
  have "next_event two_eit 14 = 35" "next_event two_eit 35 = 47"
    using two_eit_fields(2,3) by (simp_all add: next_event_def)
  with ps(2) have "ps = [14, 35]" by (cases ps; cases "tl ps") auto
  with it ps(1) show ?thesis by blast
qed

end
