(* ===== verification/VtEx.thy ===== *)
theory VtEx
  imports SecEx SecItems
begin

text \<open>
  stream/vt_extractor.c: collecting the PES packets of teletext streams, one state per PID, and
  cutting complete packets into data units.  A chunk is the payload of one packet of the transport
  stream; it is the memory from its first byte to the end of the packet.  \<open>fresh i\<close> is what byte \<open>i\<close>
  of newly allocated memory holds.
\<close>

subsection \<open>Data units\<close>

definition VT_UNIT_LEN :: nat where
  "VT_UNIT_LEN = 0x2c"

record vt_pk =
  u_pid :: u16
  u_data_id :: u8
  u_unit_id :: u8
  u_unit_len :: u8
  u_data :: buffer

definition vt_unit_ids :: "u8 list" where
  "vt_unit_ids = [0x02, 0xc0, 0x03]"

text \<open>The loop over the units; the units are passed on in this order.\<close>

function vt_ex_units :: "buffer \<Rightarrow> nat \<Rightarrow> int \<Rightarrow> u16 \<Rightarrow> u8 \<Rightarrow> (int \<times> vt_pk list) option" where
  "vt_ex_units m b l pid data_id =
     (if l \<le> 0 then Some (0, [])
      else if l < 3 then Some (1, [])
      else case (rd m b, rd m (b + 1)) of
        (Some unit_id, Some unit_len) \<Rightarrow> do {
          us \<leftarrow> (if unit_id \<in> set vt_unit_ids \<and> unat unit_len \<le> VT_UNIT_LEN \<and> int (unat unit_len) \<le> l - 2 then do {
                   d \<leftarrow> bytes_at m (b + 2) (unat unit_len);
                   Some [\<lparr>u_pid = pid, u_data_id = data_id, u_unit_id = unit_id, u_unit_len = unit_len, u_data = d\<rparr>]
                 }
                 else Some []);
          (r, vs) \<leftarrow> vt_ex_units m (b + unat unit_len + 2) (l - (int (unat unit_len) + 2)) pid data_id;
          Some (r, us @ vs)
        }
      | _ \<Rightarrow> None)"
  by pat_completeness auto
termination
proof (relation "measure (\<lambda>(m, b, l, pid, data_id). nat l)", goal_cases)
  case (2 m b l pid data_id x y unit_id unit_len us)
  have "0 \<le> int (unat unit_len)" by simp
  with 2 show ?case unfolding in_measure prod.case by linarith
qed simp

declare vt_ex_units.simps [simp del]

definition vt_ex_data :: "buffer \<Rightarrow> nat \<Rightarrow> int \<Rightarrow> u16 \<Rightarrow> (int \<times> vt_pk list) option" where
  "vt_ex_data m b l pid =
     (if l < 1 then Some (1, [])
      else do {
        data_id \<leftarrow> rd m b;
        (if 0x10 \<le> data_id \<and> data_id \<le> 0x1f then vt_ex_units m (b + 1) (l - 1) pid data_id else Some (1, []))
      })"

subsection \<open>The state machine of one PID\<close>

definition ES_INIT :: nat where "ES_INIT = 0"
definition ES_BITS :: nat where "ES_BITS = 13"
definition ES_BITS_SKIP :: nat where "ES_BITS_SKIP = 15"

text \<open>\<open>SCR_PFX\<close> is the offset of the data in a \<open>VtPk\<close> (five bytes) minus three.\<close>

definition SCR_PFX :: nat where
  "SCR_PFX = 2"

record vt_state =
  vs_scratch :: buffer
  vs_size :: int
  vs_idx :: int
  vs_pid :: u16
  vs_st :: nat
  vs_plen :: u16

text \<open>\<open>realloc\<close> keeps the old contents.\<close>

definition vt_realloc :: "(nat \<Rightarrow> u8) \<Rightarrow> buffer \<Rightarrow> nat \<Rightarrow> buffer" where
  "vt_realloc fresh m n = take n m @ map fresh [length m..<n]"

text \<open>The header of a PES packet: its prefix, its length and room for its payload.\<close>

definition vt_len :: "u8 \<Rightarrow> u8 \<Rightarrow> u16" where
  "vt_len hi lo = push_bit 8 (ucast hi) OR ucast lo"

definition vt_ex_start :: "bool \<Rightarrow> (nat \<Rightarrow> u8) \<Rightarrow> vt_state \<Rightarrow> buffer \<Rightarrow> (int \<times> vt_state) option" where
  "vt_ex_start ok fresh ex b = do {
     pfx \<leftarrow> bytes_at b 0 4;
     (if pfx \<noteq> [0, 0, 1, 0xbd] then Some (1, ex\<lparr>vs_st := ES_BITS_SKIP\<rparr>)
      else do {
        hi \<leftarrow> rd b 4;
        lo \<leftarrow> rd b 5;
        let ex = ex\<lparr>vs_plen := vt_len hi lo\<rparr>;
        (if (uint (vs_plen ex) + 6) mod 184 \<noteq> 0 then Some (2, ex\<lparr>vs_st := ES_BITS_SKIP\<rparr>)
         else let ex = ex\<lparr>vs_plen := vs_plen ex - 39\<rparr>; n = unat (vs_plen ex) + SCR_PFX in
           if vs_size ex < int n
           then if ok then Some (0, ex\<lparr>vs_scratch := vt_realloc fresh (vs_scratch ex) n, vs_size := int n\<rparr>)
                else Some (3, ex\<lparr>vs_st := ES_BITS_SKIP\<rparr>)
           else Some (0, ex))
      })
   }"

text \<open>\<open>memmove\<close> with a negative length copies a huge number of bytes, which is a fault.\<close>

definition move_bytes :: "buffer \<Rightarrow> int \<Rightarrow> buffer \<Rightarrow> nat \<Rightarrow> int \<Rightarrow> buffer option" where
  "move_bytes dst i src j n = (if i < 0 \<or> n < 0 then None else copy_bytes dst (nat i) src j (nat n))"

text \<open>Collecting the payload; what is complete is cut into units.\<close>

definition vt_ex_collect :: "vt_state \<Rightarrow> buffer \<Rightarrow> nat \<Rightarrow> int \<Rightarrow> (vt_state \<times> vt_pk list) option" where
  "vt_ex_collect ex b off l =
     (let end_idx = int (unat (vs_plen ex) + SCR_PFX) in
      if vs_idx ex \<ge> end_idx then Some (ex, [])
      else do {
        m \<leftarrow> (if vs_size ex - vs_idx ex \<ge> l then move_bytes (vs_scratch ex) (vs_idx ex) b off l else Some (vs_scratch ex));
        let ex = ex\<lparr>vs_scratch := m, vs_idx := vs_idx ex + l\<rparr>;
        (if vs_idx ex \<ge> end_idx then do {
           let sz = min (vs_idx ex) (vs_size ex);
           (_, us) \<leftarrow> vt_ex_data m SCR_PFX (sz - int SCR_PFX) (vs_pid ex);
           Some (ex\<lparr>vs_idx := 0, vs_st := ES_BITS_SKIP\<rparr>, us)
         }
         else Some (ex, []))
      })"

definition vtExProcPES :: "bool \<Rightarrow> (nat \<Rightarrow> u8) \<Rightarrow> vt_state \<Rightarrow> buffer \<Rightarrow> int \<Rightarrow> (int \<times> vt_state \<times> vt_pk list) option" where
  "vtExProcPES ok fresh ex b l =
     (if vs_st ex = ES_INIT then do {
        (r, ex) \<leftarrow> vt_ex_start ok fresh ex b;
        (if r \<noteq> 0 then Some (r, ex, [])
         else do {
           (ex, us) \<leftarrow> vt_ex_collect (ex\<lparr>vs_idx := int SCR_PFX, vs_st := ES_BITS\<rparr>) b 45 (l - 45);
           Some (0, ex, us)
         })
      }
      else if vs_st ex = ES_BITS then do {
        (ex, us) \<leftarrow> vt_ex_collect ex b 0 l;
        Some (0, ex, us)
      }
      else Some (0, ex, []))"

subsection \<open>One state per PID\<close>

text \<open>The fill index of a new state is indeterminate and never read.\<close>

type_synonym vt_ex = "vt_state bt"

definition new_vt_state :: "u16 \<Rightarrow> vt_state" where
  "new_vt_state pid = \<lparr>vs_scratch = [], vs_size = 0, vs_idx = 0, vs_pid = pid, vs_st = ES_BITS_SKIP, vs_plen = 0\<rparr>"

definition vt_ex_state_cmp :: "vt_state \<Rightarrow> vt_state \<Rightarrow> int" where
  "vt_ex_state_cmp ap bp = (if vs_pid bp < vs_pid ap then -1 else if vs_pid bp \<noteq> vs_pid ap then 1 else 0)"

definition vtExInit :: vt_ex where
  "vtExInit = BNil"

definition vt_ex_get_or_ins_state :: "bool \<Rightarrow> vt_ex \<Rightarrow> u16 \<Rightarrow> (vt_state option \<times> vt_ex) option" where
  "vt_ex_get_or_ins_state ok root pid =
     btreeNodeGetOrIns vt_ex_state_cmp (\<lambda>st. if ok then Some st else None) root (new_vt_state pid)"

text \<open>Writing through the pointer to a state changes the node that holds it.\<close>

definition put_vt_state :: "vt_state \<Rightarrow> vt_ex \<Rightarrow> vt_ex" where
  "put_vt_state st root = map_bt (\<lambda>n. if vs_pid n = vs_pid st then st else n) root"

text \<open>\<open>ok1\<close>, \<open>ok2\<close>: whether a state and its memory can be allocated.\<close>

definition vtExPut :: "bool \<Rightarrow> bool \<Rightarrow> (nat \<Rightarrow> u8) \<Rightarrow> vt_ex \<Rightarrow> buffer \<Rightarrow> u16 \<Rightarrow> u8 \<Rightarrow> bool \<Rightarrow> (vt_ex \<times> vt_pk list) option" where
  "vtExPut ok1 ok2 fresh ex buf pid len starts = do {
     (es, root) \<leftarrow> vt_ex_get_or_ins_state ok1 ex pid;
     (case es of
        None \<Rightarrow> Some (root, [])
      | Some es \<Rightarrow> do {
          let es = (if starts then es\<lparr>vs_st := ES_INIT\<rparr> else es);
          (_, es, us) \<leftarrow> vtExProcPES ok2 fresh es buf (int (unat len));
          Some (put_vt_state es root, us)
        })
   }"

text \<open>Clearing frees the scratch buffer of every state and its node.\<close>

definition vt_ex_st_destroy :: "vt_state list \<Rightarrow> vt_state \<Rightarrow> nat \<Rightarrow> nat \<Rightarrow> vt_state list" where
  "vt_ex_st_destroy freed st which depth = (if which = 2 \<or> which = 3 then freed @ [st] else freed)"

definition vtExFlush :: "vt_ex \<Rightarrow> vt_ex \<times> vt_state list" where
  "vtExFlush ex = (BNil, btreeWalk ex [] vt_ex_st_destroy)"

definition vtExClear :: "vt_ex \<Rightarrow> vt_ex \<times> vt_state list" where
  "vtExClear ex = (BNil, btreeWalk ex [] vt_ex_st_destroy)"

text \<open>What the teletext database does with a packet: the payload goes to the extractor.\<close>

definition vt_feed :: "(nat \<Rightarrow> u8) \<Rightarrow> pesbuf \<times> vt_ex \<Rightarrow> buffer \<Rightarrow> ((pesbuf \<times> vt_ex) \<times> vt_pk list) option" where
  "vt_feed fresh = (\<lambda>(pes, ex) p. do {
     (pes, got) \<leftarrow> pesExPut pes p;
     (if got then do {
        (ex, us) \<leftarrow> vtExPut True True fresh ex (drop (pb_data pes) p) (pb_pid pes) (pb_len pes) (pb_start pes);
        Some ((pes, ex), us)
      }
      else Some ((pes, ex), []))
   })"

fun vt_run :: "(nat \<Rightarrow> u8) \<Rightarrow> pesbuf \<times> vt_ex \<Rightarrow> buffer list \<Rightarrow> ((pesbuf \<times> vt_ex) \<times> vt_pk list) option" where
  "vt_run fresh s [] = Some (s, [])"
| "vt_run fresh s (p # ps) = do {
     (s, us) \<leftarrow> vt_feed fresh s p;
     (s, vs) \<leftarrow> vt_run fresh s ps;
     Some (s, us @ vs)
   }"

subsection \<open>Specification\<close>

text \<open>The units of the payload of a complete packet.\<close>

function data_units :: "u16 \<Rightarrow> u8 \<Rightarrow> buffer \<Rightarrow> vt_pk list" where
  "data_units pid d us =
     (if length us < 3 then []
      else let n = unat (us ! 1) in
        (if us ! 0 \<in> set vt_unit_ids \<and> n \<le> VT_UNIT_LEN \<and> n + 2 \<le> length us
         then [\<lparr>u_pid = pid, u_data_id = d, u_unit_id = us ! 0, u_unit_len = us ! 1, u_data = take n (drop 2 us)\<rparr>] else [])
        @ data_units pid d (drop (n + 2) us))"
  by pat_completeness auto
termination by (relation "measure (\<lambda>(pid, d, us). length us)") auto

declare data_units.simps [simp del]

definition packet_units :: "u16 \<Rightarrow> buffer \<Rightarrow> vt_pk list" where
  "packet_units pid bs = (case bs of [] \<Rightarrow> [] | d # us \<Rightarrow> if 0x10 \<le> d \<and> d \<le> 0x1f then data_units pid d us else [])"

text \<open>The length of the payload that a chunk announces, if a teletext packet begins with it.\<close>

definition announced :: "buffer \<Rightarrow> nat option" where
  "announced c = (let n = 256 * unat (c ! 4) + unat (c ! 5) in
     if take 4 c = [0, 0, 1, 0xbd] \<and> (n + 6) mod 184 = 0 then Some (n - 39) else None)"

text \<open>Collecting: the length and the bytes so far; the second result is a complete payload.\<close>

fun vt_step :: "(nat \<times> buffer) option \<Rightarrow> bool \<times> buffer \<Rightarrow> (nat \<times> buffer) option \<times> buffer option" where
  "vt_step s (start, c) =
     (case (if start then map_option (\<lambda>n. (n, drop 45 c)) (announced c) else map_option (\<lambda>(n, bs). (n, bs @ c)) s) of
        None \<Rightarrow> (None, None)
      | Some (n, bs) \<Rightarrow> if n \<le> length bs then (None, Some bs) else (Some (n, bs), None))"

fun vt_packets :: "(nat \<times> buffer) option \<Rightarrow> (bool \<times> buffer) list \<Rightarrow> buffer list" where
  "vt_packets s [] = []"
| "vt_packets s (c # cs) = (case snd (vt_step s c) of None \<Rightarrow> [] | Some bs \<Rightarrow> [bs]) @ vt_packets (fst (vt_step s c)) cs"

text \<open>A chunk with which a packet begins holds its header of 45 bytes, and no packet is longer than
  announced.\<close>

fun chunk_ok :: "(nat \<times> buffer) option \<Rightarrow> bool \<times> buffer \<Rightarrow> bool" where
  "chunk_ok s (start, c) \<longleftrightarrow> length c < 256 \<and>
     (if start then 6 \<le> length c \<and> (\<forall>n. announced c = Some n \<longrightarrow> 45 \<le> length c \<and> length c \<le> n + 45)
      else \<forall>n bs. s = Some (n, bs) \<longrightarrow> length bs + length c \<le> n)"

fun chunks_ok :: "(nat \<times> buffer) option \<Rightarrow> (bool \<times> buffer) list \<Rightarrow> bool" where
  "chunks_ok s [] \<longleftrightarrow> True"
| "chunks_ok s (c # cs) \<longleftrightarrow> chunk_ok s c \<and> chunks_ok (fst (vt_step s c)) cs"

text \<open>The chunks of a PID in a stream of packets.\<close>

fun pid_chunks :: "u16 \<Rightarrow> buffer list \<Rightarrow> (bool \<times> buffer) list" where
  "pid_chunks q [] = []"
| "pid_chunks q (p # ps) =
     (case payload_start p of
        Some a \<Rightarrow> if ts_pid p = q then [(ts_pusi p, drop a p)] else []
      | None \<Rightarrow> []) @ pid_chunks q ps"

subsection \<open>Updating a node\<close>

context node_order
begin

lemma update_node:
  assumes bst: "bst t" and a: "a \<in> set (inorder t)" and k: "key b = key a"
  shows "bst (map_bt (\<lambda>n. if key n = key b then b else n) t)"
    and "btreeNodeFind compar (map_bt (\<lambda>n. if key n = key b then b else n) t) e =
      (if key e = key b then Some b else btreeNodeFind compar t e)"
proof -
  let ?t = "map_bt (\<lambda>n. if key n = key b then b else n) t"
  have "map key (inorder ?t) = map key (inorder t)" by simp
  with bst show b: "bst ?t" unfolding bst_def by (simp only:)
  have set: "set (inorder ?t) = insert b {x \<in> set (inorder t). key x \<noteq> key b}" using a k by auto
  have "btreeNodeFind compar ?t e = Some x \<longleftrightarrow> (if key e = key b then Some b else btreeNodeFind compar t e) = Some x" for x
    using find_some [OF b, of e x] find_some [OF bst, of e x] unfolding set by auto
  then show "btreeNodeFind compar ?t e = (if key e = key b then Some b else btreeNodeFind compar t e)"
    by (metis option.exhaust)
qed

lemma get_or_ins:
  assumes "avl t" "bst t"
  shows "\<exists>t'. btreeNodeGetOrIns compar Some t a = Some (Some (case btreeNodeFind compar t a of None \<Rightarrow> a | Some n \<Rightarrow> n), t')
    \<and> avl t' \<and> bst t' \<and> (case btreeNodeFind compar t a of None \<Rightarrow> a | Some n \<Rightarrow> n) \<in> set (inorder t')
    \<and> (\<forall>e. btreeNodeFind compar t' e =
        (if key e = key a then Some (case btreeNodeFind compar t a of None \<Rightarrow> a | Some n \<Rightarrow> n) else btreeNodeFind compar t e))"
proof (cases "btreeNodeFind compar t a")
  case (Some n)
  then have n: "n \<in> set (inorder t)" "key n = key a" using find_some [OF assms(2)] by auto
  have "btreeNodeFind compar t e = Some n" if "key e = key a" for e using n that find_some [OF assms(2), of e n] by simp
  with Some n assms show ?thesis by (simp add: btreeNodeGetOrIns_def)
next
  case None
  then have new: "key a \<notin> key ` set (inorder t)" using find_none [OF assms(2)] by simp
  from insert_new [OF assms this] obtain t' where i: "btreeNodeInsert compar t a = Some (0, t')" "avl t'" "bst t'"
    "set (inorder t') = insert a (set (inorder t))" by blast
  have new: "x \<in> set (inorder t) \<Longrightarrow> key x \<noteq> key a" for x using new by (metis imageI)
  have "btreeNodeFind compar t' e = Some x \<longleftrightarrow> (if key e = key a then Some a else btreeNodeFind compar t e) = Some x" for e x
    using find_some [OF i(3), of e x] find_some [OF assms(2), of e x] new unfolding i(4) by auto
  then have "btreeNodeFind compar t' e = (if key e = key a then Some a else btreeNodeFind compar t e)" for e
    by (metis option.exhaust)
  with None i show ?thesis by (simp add: btreeNodeGetOrIns_def)
qed

end

interpretation vo: node_order vt_ex_state_cmp "\<lambda>st. uint (vs_pid st)"
  by unfold_locales (auto simp: vt_ex_state_cmp_def word_less_def word_uint_eq_iff)

subsection \<open>Units\<close>

lemma bytes_at_inside: "p + n \<le> length m \<Longrightarrow> bytes_at m p n = Some (take n (drop p m))"
  by (simp add: bytes_at_def)

lemma vt_ex_units_run:
  assumes "b + nat l \<le> length m"
  shows "\<exists>r. vt_ex_units m b l pid d = Some (r, data_units pid d (take (nat l) (drop b m)))"
  using assms
proof (induction m b l pid d rule: vt_ex_units.induct)
  case (1 m b l pid d)
  let ?us = "take (nat l) (drop b m)"
  show ?case
  proof (cases "l < 3")
    case True
    then have "length ?us < 3" by simp
    with True show ?thesis by (simp add: vt_ex_units.simps [of m b l] data_units.simps [of pid d ?us])
  next
    case False
    let ?n = "unat (m ! (b + 1))"
    have r: "rd m b = Some (m ! b)" "rd m (b + 1) = Some (m ! (b + 1))" using False 1(2) by (simp_all add: rd_def)
    have u: "?us ! 0 = m ! b" "?us ! 1 = m ! (b + 1)" "length ?us = nat l" using False 1(2) by simp_all
    let ?keep = "m ! b \<in> set vt_unit_ids \<and> ?n \<le> VT_UNIT_LEN \<and> int ?n \<le> l - 2"
    have keep: "?keep \<longleftrightarrow> ?us ! 0 \<in> set vt_unit_ids \<and> unat (?us ! 1) \<le> VT_UNIT_LEN \<and> unat (?us ! 1) + 2 \<le> length ?us"
      unfolding u using False by linarith
    have inner: "\<exists>r. vt_ex_units m (b + ?n + 2) (l - (int ?n + 2)) pid d =
        Some (r, data_units pid d (take (nat (l - (int ?n + 2))) (drop (b + ?n + 2) m)))"
    proof (cases "l - (int ?n + 2) \<le> 0")
      case True
      then have "take (nat (l - (int ?n + 2))) (drop (b + ?n + 2) m) = []" by simp
      moreover from True have "vt_ex_units m (b + ?n + 2) (l - (int ?n + 2)) pid d = Some (0, [])"
        by (subst vt_ex_units.simps) (simp only: if_True)
      ultimately show ?thesis using data_units.simps [of pid d "[]"] by (metis list.size(3) zero_less_numeral)
    next
      case pos: False
      then have fit: "b + ?n + 2 + nat (l - (int ?n + 2)) \<le> length m" using 1(2) by linarith
      have "\<exists>us. (if ?keep then do {
                   d' \<leftarrow> bytes_at m (b + 2) ?n;
                   Some [\<lparr>u_pid = pid, u_data_id = d, u_unit_id = m ! b, u_unit_len = m ! (b + 1), u_data = d'\<rparr>]
                 } else Some []) = Some us"
      proof (cases ?keep)
        case True
        then have "b + 2 + ?n \<le> length m" using 1(2) False by linarith
        from bytes_at_inside [OF this] True show ?thesis by simp
      next
        case no: False
        then show ?thesis by (simp only: if_False) blast
      qed
      then obtain us where "(if ?keep then do {
                   d' \<leftarrow> bytes_at m (b + 2) ?n;
                   Some [\<lparr>u_pid = pid, u_data_id = d, u_unit_id = m ! b, u_unit_len = m ! (b + 1), u_data = d'\<rparr>]
                 } else Some []) = Some us" by blast
      with 1(1) [of "Some (m ! b)" "Some (m ! (b + 1))" "m ! b" "m ! (b + 1)" us] r False fit
      show ?thesis by auto
    qed
    have rest: "take (nat (l - (int ?n + 2))) (drop (b + ?n + 2) m) = drop (unat (?us ! 1) + 2) ?us"
    proof -
      have "nat (l - (int ?n + 2)) = nat l - (?n + 2)" by linarith
      then show ?thesis unfolding u(2) by (simp add: drop_take add.commute add.left_commute)
    qed
    show ?thesis
    proof (cases ?keep)
      case True
      then have "b + 2 + ?n \<le> length m" "min ?n (nat l - 2) = ?n" using 1(2) False by linarith+
      then have "b + 2 + ?n \<le> length m" "take ?n (drop 2 ?us) = take ?n (drop (b + 2) m)"
        by (simp_all add: drop_take add.commute)
      with True keep inner rest r u False show ?thesis
        by (auto simp: vt_ex_units.simps [of m b l] data_units.simps [of pid d ?us] bytes_at_inside Let_def)
    next
      case no: False
      with keep inner rest r u False show ?thesis
        by (auto simp: vt_ex_units.simps [of m b l] data_units.simps [of pid d ?us] Let_def)
    qed
  qed
qed

lemma vt_ex_data_run:
  assumes "b + nat l \<le> length m"
  shows "\<exists>r. vt_ex_data m b l pid = Some (r, packet_units pid (take (nat l) (drop b m)))"
proof (cases "l < 1")
  case True
  then show ?thesis by (simp add: vt_ex_data_def packet_units_def)
next
  case False
  then have r: "rd m b = Some (m ! b)" using assms by (simp add: rd_def)
  have "take (nat l) (drop b m) = m ! b # take (nat l - 1) (drop (Suc b) m)"
    using False assms by (cases "nat l") (simp_all add: Cons_nth_drop_Suc [symmetric] take_Suc_conv_app_nth)
  moreover have "b + 1 + nat (l - 1) \<le> length m" using False assms by linarith
  from vt_ex_units_run [OF this, of pid "m ! b"] obtain r' where
    "vt_ex_units m (b + 1) (l - 1) pid (m ! b) = Some (r', data_units pid (m ! b) (take (nat (l - 1)) (drop (b + 1) m)))" by blast
  moreover have "nat (l - 1) = nat l - 1" by simp
  ultimately show ?thesis using r False by (simp add: vt_ex_data_def packet_units_def)
qed

subsection \<open>The state machine refines the specification\<close>

definition vt_ok :: "vt_state \<Rightarrow> (nat \<times> buffer) option \<Rightarrow> bool" where
  "vt_ok st s \<longleftrightarrow> vs_size st = int (length (vs_scratch st)) \<and>
     (case s of
        None \<Rightarrow> vs_st st = ES_BITS_SKIP
      | Some (n, bs) \<Rightarrow> vs_st st = ES_BITS \<and> unat (vs_plen st) = n \<and> length bs < n \<and> vs_idx st = int (2 + length bs) \<and>
          n + 2 \<le> length (vs_scratch st) \<and> take (length bs) (drop 2 (vs_scratch st)) = bs)"

lemma new_vt_state_ok: "vt_ok (new_vt_state pid) None"
  by (simp add: vt_ok_def new_vt_state_def)

definition unit_list :: "u16 \<Rightarrow> buffer option \<Rightarrow> vt_pk list" where
  "unit_list pid out = (case out of None \<Rightarrow> [] | Some bs \<Rightarrow> packet_units pid bs)"

text \<open>Collecting a chunk that fits.\<close>

lemma copy_bytes_fits:
  assumes "i + n \<le> length dst" "j + n \<le> length src"
  shows "\<exists>m. copy_bytes dst i src j n = Some m \<and> length m = length dst \<and> take (i + n) m = take i dst @ take n (drop j src)"
  using assms by (simp add: copy_bytes_def)

lemma collect_run:
  assumes size: "vs_size ex = int (length (vs_scratch ex))" "n + 2 \<le> length (vs_scratch ex)" "unat (vs_plen ex) = n"
    and idx: "vs_idx ex = int (2 + length bs)" "length bs < n" "take (length bs) (drop 2 (vs_scratch ex)) = bs" "vs_st ex = ES_BITS"
    and c: "off + k = length b" "length bs + k \<le> n"
  shows "\<exists>ex' us. vt_ex_collect ex b off (int k) = Some (ex', us) \<and> vs_pid ex' = vs_pid ex \<and>
    (if length bs + k = n then vt_ok ex' None \<and> us = packet_units (vs_pid ex) (bs @ drop off b)
     else vt_ok ex' (Some (n, bs @ drop off b)) \<and> us = [])"
proof -
  have len: "length (drop off b) = k" using c(1) by simp
  obtain m where m: "copy_bytes (vs_scratch ex) (2 + length bs) b off k = Some m" "length m = length (vs_scratch ex)"
    "take (2 + length bs + k) m = take (2 + length bs) (vs_scratch ex) @ take k (drop off b)"
    using copy_bytes_fits [of "2 + length bs" k "vs_scratch ex" off b] c size(2) by auto
  have "take (length bs + k) (drop 2 m) = drop 2 (take (2 + length bs + k) m)" by (simp add: drop_take)
  also have "\<dots> = take (length bs) (drop 2 (vs_scratch ex)) @ drop off b"
    unfolding m(3) using size(2) idx(2) len by (simp add: drop_take)
  finally have bytes: "take (length bs + k) (drop 2 m) = bs @ drop off b" using idx(3) by simp
  let ?ex = "ex\<lparr>vs_scratch := m, vs_idx := int (2 + length bs) + int k\<rparr>"
  have mv: "move_bytes (vs_scratch ex) (vs_idx ex) b off (int k) = Some m" using m(1) idx(1)
    by (simp add: move_bytes_def nat_add_distrib)
  have room: "vs_size ex - vs_idx ex \<ge> int k" using size idx(1) c(2) by simp
  show ?thesis
  proof (cases "length bs + k = n")
    case True
    have sz: "min (int (2 + length bs) + int k) (vs_size ex) - int SCR_PFX = int n" using size True by (simp add: SCR_PFX_def)
    have "SCR_PFX + nat (int n) \<le> length m" using m(2) size(2) by (simp add: SCR_PFX_def)
    from vt_ex_data_run [OF this, of "vs_pid ex"] obtain r where
      d: "vt_ex_data m SCR_PFX (int n) (vs_pid ex) = Some (r, packet_units (vs_pid ex) (bs @ drop off b))"
      using bytes True by (auto simp: SCR_PFX_def)
    have "\<not> vs_idx ex \<ge> int (n + SCR_PFX)" "vs_idx ex + int k \<ge> int (n + SCR_PFX)" using idx(1,2) True by (simp_all add: SCR_PFX_def)
    with mv room d sz size m(2) idx(1) True show ?thesis by (simp add: vt_ex_collect_def vt_ok_def)
  next
    case False
    then have less: "length bs + k < n" using c(2) by simp
    then have "\<not> vs_idx ex \<ge> int (n + SCR_PFX)" "\<not> vs_idx ex + int k \<ge> int (n + SCR_PFX)" using idx(1,2) by (simp_all add: SCR_PFX_def)
    with mv room size m(2) idx(1,4) False less bytes len show ?thesis by (simp add: vt_ex_collect_def vt_ok_def)
  qed
qed

lemma unat_vt_len: "unat (vt_len hi lo) = 256 * unat hi + unat lo"
proof -
  have dis: "push_bit 8 (ucast hi) AND ucast lo = (0 :: u16)"
    by (rule bit_eqI) (auto simp: bit_and_iff bit_push_bit_iff bit_ucast_iff dest: bit_imp_le_length)
  have "vt_len hi lo = push_bit 8 (ucast hi) + ucast lo" using disjunctive_add_eq_or [OF dis] by (simp only: vt_len_def)
  also have "\<dots> = word_of_nat (256 * unat hi + unat lo)" by (simp add: push_bit_eq_mult)
  finally have "vt_len hi lo = word_of_nat (256 * unat hi + unat lo)" .
  moreover have "256 * unat hi + unat lo < 2 ^ LENGTH(16)"
    using unsigned_less [of hi, where 'a = nat] unsigned_less [of lo, where 'a = nat] by simp
  then have "unat (word_of_nat (256 * unat hi + unat lo) :: u16) = 256 * unat hi + unat lo" by (simp only: unat_of_nat mod_less)
  ultimately show ?thesis by (simp only:)
qed

lemma start_run:
  assumes size: "vs_size ex = int (length (vs_scratch ex))" and c: "6 \<le> length b"
  shows "\<exists>r ex'. vt_ex_start True fresh ex b = Some (r, ex') \<and> vs_pid ex' = vs_pid ex \<and> vs_size ex' = int (length (vs_scratch ex')) \<and>
    (case announced b of
       None \<Rightarrow> r \<noteq> 0 \<and> vs_st ex' = ES_BITS_SKIP
     | Some n \<Rightarrow> r = 0 \<and> unat (vs_plen ex') = n \<and> n + 2 \<le> length (vs_scratch ex') \<and> 139 \<le> n)"
proof -
  define w n where "w = vt_len (b ! 4) (b ! 5)" and "n = 256 * unat (b ! 4) + unat (b ! 5)"
  have r: "bytes_at b 0 4 = Some (take 4 b)" "rd b 4 = Some (b ! 4)" "rd b 5 = Some (b ! 5)" using c by (simp_all add: bytes_at_def rd_def)
  have w: "unat w = n" by (simp add: w_def n_def unat_vt_len)
  have "(uint w + 6) mod 184 = int ((n + 6) mod 184)" using w by (simp only: uint_nat of_nat_mod of_nat_add of_nat_numeral)
  then have m: "(uint w + 6) mod 184 = 0 \<longleftrightarrow> (n + 6) mod 184 = 0" by simp
  have ann: "announced b = (if take 4 b = [0, 0, 1, 0xbd] \<and> (n + 6) mod 184 = 0 then Some (n - 39) else None)"
    by (simp add: announced_def n_def Let_def)
  have run: "vt_ex_start True fresh ex b =
      (if take 4 b \<noteq> [0, 0, 1, 0xbd] then Some (1, ex\<lparr>vs_st := ES_BITS_SKIP\<rparr>)
       else if (n + 6) mod 184 \<noteq> 0 then Some (2, ex\<lparr>vs_plen := w, vs_st := ES_BITS_SKIP\<rparr>)
       else let k = unat (w - 39) + SCR_PFX in
         if vs_size ex < int k then Some (0, ex\<lparr>vs_plen := w - 39, vs_scratch := vt_realloc fresh (vs_scratch ex) k, vs_size := int k\<rparr>)
         else Some (0, ex\<lparr>vs_plen := w - 39\<rparr>))"
    by (simp only: vt_ex_start_def r bind.bind_lunit Let_def w_def [symmetric] vt_state.simps m if_True) (auto simp: m)
  show ?thesis
  proof (cases "take 4 b = [0, 0, 1, 0xbd] \<and> (n + 6) mod 184 = 0")
    case False
    then show ?thesis unfolding run ann using size by (cases "take 4 b = [0, 0, 1, 0xbd]") simp_all
  next
    case True
    then have "(n + 6) mod 184 = 0" by simp
    then have big: "178 \<le> n" by presburger
    then have u: "unat (w - 39) = n - 39" using w by (simp add: unat_sub word_le_nat_alt)
    have len: "length (vt_realloc fresh (vs_scratch ex) k) = k" if "length (vs_scratch ex) < k" for k using that by (simp add: vt_realloc_def)
    show ?thesis unfolding run ann u Let_def using True size big len by (auto simp: SCR_PFX_def u)
  qed
qed

lemma proc_run:
  assumes st: "vt_ok st s" and c: "chunk_ok s (start, b)"
  shows "\<exists>r st' us. vtExProcPES True fresh (if start then st\<lparr>vs_st := ES_INIT\<rparr> else st) b (int (length b)) = Some (r, st', us) \<and>
    vs_pid st' = vs_pid st \<and> vt_ok st' (fst (vt_step s (start, b))) \<and> us = unit_list (vs_pid st) (snd (vt_step s (start, b)))"
proof (cases start)
  case True
  let ?st = "st\<lparr>vs_st := ES_INIT\<rparr>"
  have "vs_size ?st = int (length (vs_scratch ?st))" "6 \<le> length b" using st c True by (simp_all add: vt_ok_def)
  from start_run [OF this, of fresh] obtain r st1 where h: "vt_ex_start True fresh ?st b = Some (r, st1)" "vs_pid st1 = vs_pid st"
    "vs_size st1 = int (length (vs_scratch st1))"
    "case announced b of None \<Rightarrow> r \<noteq> 0 \<and> vs_st st1 = ES_BITS_SKIP
      | Some n \<Rightarrow> r = 0 \<and> unat (vs_plen st1) = n \<and> n + 2 \<le> length (vs_scratch st1) \<and> 139 \<le> n" by auto
  show ?thesis
  proof (cases "announced b")
    case None
    with h True show ?thesis by (simp add: vtExProcPES_def vt_ok_def unit_list_def)
  next
    case (Some n)
    let ?st1 = "st1\<lparr>vs_idx := int SCR_PFX, vs_st := ES_BITS\<rparr>"
    have l: "45 \<le> length b" "length b \<le> n + 45" using c True Some by simp_all
    have pre: "vs_size ?st1 = int (length (vs_scratch ?st1))" "n + 2 \<le> length (vs_scratch ?st1)" "unat (vs_plen ?st1) = n"
      "vs_idx ?st1 = int (2 + length ([] :: buffer))" "length ([] :: buffer) < n" "take (length ([] :: buffer)) (drop 2 (vs_scratch ?st1)) = []"
      "vs_st ?st1 = ES_BITS" "45 + (length b - 45) = length b" "length ([] :: buffer) + (length b - 45) \<le> n"
      using h Some l by (simp_all add: SCR_PFX_def)
    from collect_run [OF pre] obtain st2 us where
      q: "vt_ex_collect ?st1 b 45 (int (length b - 45)) = Some (st2, us)" "vs_pid st2 = vs_pid ?st1"
        "if length ([] :: buffer) + (length b - 45) = n then vt_ok st2 None \<and> us = packet_units (vs_pid ?st1) ([] @ drop 45 b)
         else vt_ok st2 (Some (n, [] @ drop 45 b)) \<and> us = []" by blast
    have "int (length b - 45) = int (length b) - 45" using l by simp
    with q h Some True l show ?thesis by (cases "length b - 45 = n") (auto simp: vtExProcPES_def unit_list_def)
  qed
next
  case False
  show ?thesis
  proof (cases s)
    case None
    with False st show ?thesis by (simp add: vtExProcPES_def vt_ok_def unit_list_def ES_INIT_def ES_BITS_def ES_BITS_SKIP_def)
  next
    case (Some nb)
    then obtain n bs where nb: "s = Some (n, bs)" by (cases nb) auto
    have pre: "vs_size st = int (length (vs_scratch st))" "n + 2 \<le> length (vs_scratch st)" "unat (vs_plen st) = n"
      "vs_idx st = int (2 + length bs)" "length bs < n" "take (length bs) (drop 2 (vs_scratch st)) = bs"
      "vs_st st = ES_BITS" "0 + length b = length b" "length bs + length b \<le> n"
      using st c nb False by (simp_all add: vt_ok_def)
    from collect_run [OF pre] obtain st2 us where
      q: "vt_ex_collect st b 0 (int (length b)) = Some (st2, us)" "vs_pid st2 = vs_pid st"
        "if length bs + length b = n then vt_ok st2 None \<and> us = packet_units (vs_pid st) (bs @ drop 0 b)
         else vt_ok st2 (Some (n, bs @ drop 0 b)) \<and> us = []" by blast
    have "vs_st st \<noteq> ES_INIT" using pre(7) by (simp add: ES_BITS_def ES_INIT_def)
    with q nb False pre show ?thesis by (cases "length bs + length b = n") (auto simp: vtExProcPES_def unit_list_def)
  qed
qed

subsection \<open>Packets of many PIDs\<close>

definition vt_inv :: "vt_ex \<Rightarrow> bool" where
  "vt_inv ex \<longleftrightarrow> avl ex \<and> vo.bst ex"

definition vt_lookup :: "vt_ex \<Rightarrow> u16 \<Rightarrow> vt_state option" where
  "vt_lookup ex q = btreeNodeFind vt_ex_state_cmp ex (new_vt_state q)"

text \<open>What the extractor has collected is described by one specification state per PID.\<close>

definition vt_sim :: "vt_ex \<Rightarrow> (u16 \<Rightarrow> (nat \<times> buffer) option) \<Rightarrow> bool" where
  "vt_sim ex s \<longleftrightarrow> vt_inv ex \<and> (\<forall>q. case vt_lookup ex q of None \<Rightarrow> s q = None | Some st \<Rightarrow> vs_pid st = q \<and> vt_ok st (s q))"

lemma vt_sim_init: "vt_sim vtExInit (\<lambda>_. None)"
  by (simp add: vt_sim_def vt_inv_def vtExInit_def vt_lookup_def vo.bst_def)

lemma vt_simD:
  "vt_sim ex s \<Longrightarrow> case vt_lookup ex q of None \<Rightarrow> s q = None | Some st \<Rightarrow> vs_pid st = q \<and> vt_ok st (s q)"
  by (simp only: vt_sim_def)

lemma vt_sim_put:
  assumes "vt_sim ex s" "vt_inv t" "\<And>q. vt_lookup t q = (if q = pid then Some st else vt_lookup ex q)" "vs_pid st = pid" "vt_ok st x"
  shows "vt_sim t (s(pid := x))"
proof -
  have "case vt_lookup t q of None \<Rightarrow> (s(pid := x)) q = None | Some st \<Rightarrow> vs_pid st = q \<and> vt_ok st ((s(pid := x)) q)" for q
    using vt_simD [OF assms(1), of q] assms(4,5) unfolding assms(3) by (cases "q = pid") (simp_all only: fun_upd_apply if_True if_False refl simp_thms option.case)
  with assms(2) show ?thesis by (simp add: vt_sim_def)
qed

lemma put_chunk:
  assumes sim: "vt_sim ex s" and c: "chunk_ok (s pid) (start, b)"
  shows "\<exists>ex'. vtExPut True True fresh ex b pid (word_of_nat (length b)) start =
      Some (ex', unit_list pid (snd (vt_step (s pid) (start, b)))) \<and>
    vt_sim ex' (s(pid := fst (vt_step (s pid) (start, b))))"
proof -
  let ?new = "new_vt_state pid"
  define st where "st = (case vt_lookup ex pid of None \<Rightarrow> ?new | Some n \<Rightarrow> n)"
  have inv: "avl ex" "vo.bst ex" using sim by (simp_all add: vt_sim_def vt_inv_def)
  from vo.get_or_ins [OF this, of ?new] obtain t where
    t: "vt_ex_get_or_ins_state True ex pid = Some (Some st, t)" "avl t" "vo.bst t" "st \<in> set (inorder t)"
      "\<And>q. vt_lookup t q = (if q = pid then Some st else vt_lookup ex q)"
    by (auto simp: vt_ex_get_or_ins_state_def vt_lookup_def st_def new_vt_state_def word_uint_eq_iff)
  have st: "vs_pid st = pid" "vt_ok st (s pid)"
    using vt_simD [OF sim, of pid] new_vt_state_ok [of pid] by (cases "vt_lookup ex pid"; simp add: st_def; simp add: new_vt_state_def)+
  from proc_run [OF st(2) c, of fresh] obtain r st' where
    p: "vtExProcPES True fresh (if start then st\<lparr>vs_st := ES_INIT\<rparr> else st) b (int (length b)) =
        Some (r, st', unit_list (vs_pid st) (snd (vt_step (s pid) (start, b))))"
      "vs_pid st' = vs_pid st" "vt_ok st' (fst (vt_step (s pid) (start, b)))" by blast
  have len: "unat (word_of_nat (length b) :: u8) = length b" using c by (simp add: unat_of_nat)
  have run: "vtExPut True True fresh ex b pid (word_of_nat (length b)) start =
      Some (put_vt_state st' t, unit_list pid (snd (vt_step (s pid) (start, b))))"
    unfolding vtExPut_def len using t(1) p(1) st(1) by (cases start) simp_all
  have "uint (vs_pid st') = uint (vs_pid st)" using p(2) by simp
  note u = vo.update_node [OF t(3,4) this, folded word_uint_eq_iff]
  have put: "put_vt_state st' t = map_bt (\<lambda>n. if vs_pid n = vs_pid st' then st' else n) t" by (simp add: put_vt_state_def)
  have "avl (put_vt_state st' t)" using t(2) by (simp add: put_vt_state_def)
  moreover have "vo.bst (put_vt_state st' t)" unfolding put by (rule u(1))
  moreover have "vt_lookup (put_vt_state st' t) q = (if q = pid then Some st' else vt_lookup ex q)" for q
    using u(2) [of "new_vt_state q"] t(5) [of q] p(2) st(1) unfolding put vt_lookup_def by (simp add: new_vt_state_def)
  ultimately have "vt_sim (put_vt_state st' t) (s(pid := fst (vt_step (s pid) (start, b))))"
    using p(2,3) st(1) by (intro vt_sim_put [OF sim]) (simp_all add: vt_inv_def del: vt_step.simps)
  with run show ?thesis by blast
qed

lemma data_units_pid: "u \<in> set (data_units pid d us) \<Longrightarrow> u_pid u = pid"
proof (induction pid d us rule: data_units.induct)
  case (1 pid d us)
  then show ?case by (subst (asm) data_units.simps) (auto simp: Let_def split: if_splits)
qed

lemma unit_list_pid: "u \<in> set (unit_list pid out) \<Longrightarrow> u_pid u = pid"
  by (auto simp: unit_list_def packet_units_def split: option.splits list.splits if_splits dest: data_units_pid)

lemma feed_packet:
  assumes sim: "vt_sim ex s" and p: "length p = 188" and ok: "\<forall>q. chunks_ok (s q) (pid_chunks q (p # ps))"
  shows "\<exists>pes' ex' us s'. vt_feed fresh (pes, ex) p = Some ((pes', ex'), us) \<and> vt_sim ex' s' \<and>
    (\<forall>q. chunks_ok (s' q) (pid_chunks q ps)) \<and>
    (\<forall>q. filter (\<lambda>u. u_pid u = q) us @ concat (map (packet_units q) (vt_packets (s' q) (pid_chunks q ps))) =
      concat (map (packet_units q) (vt_packets (s q) (pid_chunks q (p # ps)))))"
proof -
  from pes_ranges [OF p] obtain r where r: "pes_ex_get_ranges p = Some r" "case payload_start p of
      None \<Rightarrow> (\<exists>e. r = Inl e) | Some a \<Rightarrow> r = Inr (a, 188, if ts_pusi p then 0 else -1) \<and> a < 188" by blast
  show ?thesis
  proof (cases "payload_start p")
    case None
    with r sim ok show ?thesis by (auto simp: vt_feed_def pesExPut_def pes_ex_process_buf_def)
  next
    case (Some a)
    let ?pid = "ts_pid p" and ?c = "(ts_pusi p, drop a p)"
    have a: "a < 188" "r = Inr (a, 188, if ts_pusi p then 0 else -1)" using r Some by auto
    then have l: "word_of_nat (188 - a) = (word_of_nat (length (drop a p)) :: u8)" using p by simp
    have "chunk_ok (s ?pid) ?c" using ok Some by (auto dest!: spec [of _ ?pid])
    from put_chunk [OF sim this, of fresh] obtain ex' us where
      ex': "vtExPut True True fresh ex (drop a p) ?pid (word_of_nat (188 - a)) (ts_pusi p) = Some (ex', us)"
        "us = unit_list ?pid (snd (vt_step (s ?pid) ?c))"
        "vt_sim ex' (s(?pid := fst (vt_step (s ?pid) ?c)))" unfolding l by blast
    let ?s = "s(?pid := fst (vt_step (s ?pid) ?c))" and ?us = "unit_list ?pid (snd (vt_step (s ?pid) ?c))"
    have start: "((if ts_pusi p then 0 else -1 :: int) = 0) = ts_pusi p" by simp
    have "pesExPut pes p = Some (\<lparr>pb_data = a, pb_pid = ?pid, pb_len = word_of_nat (188 - a), pb_start = ts_pusi p\<rparr>, True)"
      using r(1) p unfolding a(2) pesExPut_def pes_ex_process_buf_def by (simp only: start ts_header bind.bind_lunit sum.case prod.case)
    with ex'(1) have "vt_feed fresh (pes, ex) p =
        Some ((\<lparr>pb_data = a, pb_pid = ?pid, pb_len = word_of_nat (188 - a), pb_start = ts_pusi p\<rparr>, ex'), ?us)"
      unfolding ex'(2) [symmetric] by (simp add: vt_feed_def)
    moreover have "chunks_ok (?s q) (pid_chunks q ps)" for q
      using ok [rule_format, of q] Some by (cases "q = ?pid") auto
    moreover have "filter (\<lambda>u. u_pid u = q) ?us @ concat (map (packet_units q) (vt_packets (?s q) (pid_chunks q ps))) =
        concat (map (packet_units q) (vt_packets (s q) (pid_chunks q (p # ps))))" for q
    proof (cases "q = ?pid")
      case True
      have "filter (\<lambda>u. u_pid u = q) ?us = ?us" using unit_list_pid True by (auto intro: filter_True)
      with True Some show ?thesis by (cases "snd (vt_step (s ?pid) ?c)") (simp_all add: unit_list_def del: vt_step.simps)
    next
      case False
      have "filter (\<lambda>u. u_pid u = q) ?us = []" using unit_list_pid False by (auto simp: filter_empty_conv)
      with False Some show ?thesis by (simp del: vt_step.simps)
    qed
    ultimately show ?thesis using ex'(3) by blast
  qed
qed

lemma vt_run_sim:
  assumes "vt_sim ex s" "\<forall>p\<in>set ps. length p = 188" "\<forall>q. chunks_ok (s q) (pid_chunks q ps)"
  shows "\<exists>st us. vt_run fresh (pes, ex) ps = Some (st, us) \<and>
    (\<forall>q. filter (\<lambda>u. u_pid u = q) us = concat (map (packet_units q) (vt_packets (s q) (pid_chunks q ps))))"
  using assms
proof (induction ps arbitrary: pes ex s)
  case (Cons p ps)
  from feed_packet [OF Cons.prems(1) _ Cons.prems(3), of fresh pes] Cons.prems(2) obtain pes' ex' us s' where
    f: "vt_feed fresh (pes, ex) p = Some ((pes', ex'), us)" "vt_sim ex' s'" "\<forall>q. chunks_ok (s' q) (pid_chunks q ps)"
      "\<forall>q. filter (\<lambda>u. u_pid u = q) us @ concat (map (packet_units q) (vt_packets (s' q) (pid_chunks q ps))) =
        concat (map (packet_units q) (vt_packets (s q) (pid_chunks q (p # ps))))" by auto
  from Cons.IH [OF f(2) _ f(3), of pes'] Cons.prems(2) obtain st vs where
    "vt_run fresh (pes', ex') ps = Some (st, vs)"
    "\<forall>q. filter (\<lambda>u. u_pid u = q) vs = concat (map (packet_units q) (vt_packets (s' q) (pid_chunks q ps)))" by auto
  with f(1,4) show ?case by auto
qed simp

subsection \<open>Properties\<close>

text \<open>From any mixture of packets of all PIDs, the data units that reach the teletext database for a
  PID are exactly those of the complete teletext PES packets of this PID, in order: the chunks from
  one unit start up to the announced length are joined, the header of 45 bytes is dropped, and every
  teletext unit of the rest is delivered byte for byte; nothing else is.  What freshly allocated memory
  holds does not matter.\<close>
theorem vtEx_extracts_units:
  assumes "\<forall>p\<in>set ps. length p = 188" and "\<forall>q. chunks_ok None (pid_chunks q ps)"
  shows "\<exists>st us. vt_run fresh (pesExInit, vtExInit) ps = Some (st, us) \<and>
    (\<forall>q. filter (\<lambda>u. u_pid u = q) us = concat (map (packet_units q) (vt_packets None (pid_chunks q ps))))"
  using vt_run_sim [OF vt_sim_init assms(1)] assms(2) by blast

abbreviation vt_unit7 :: buffer where
  "vt_unit7 \<equiv> [2, 0x2c] @ replicate 44 7"

abbreviation vt_pes :: buffer where
  "vt_pes \<equiv> [0, 0, 1, 0xbd, 0, 0xb2] @ replicate 39 0 @ [0x10] @ vt_unit7 @ vt_unit7 @ vt_unit7"

abbreviation vt_packet :: buffer where
  "vt_packet \<equiv> [0x47, 0x40, 0x21, 0x10] @ vt_pes"

lemma vt_packet_chunks: "pid_chunks q [vt_packet] = (if q = 0x21 then [(True, vt_pes)] else [])"
  by (simp add: payload_start_def ts_afc_def ts_pid_def ts_pusi_def)

lemma vt_pes_announced: "announced vt_pes = Some 139"
  by (simp add: announced_def Let_def)

theorem vtEx_extracts_units_witness:
  "\<exists>st us. vt_run (\<lambda>_. 0) (pesExInit, vtExInit) [vt_packet] = Some (st, us) \<and>
    map u_data (filter (\<lambda>u. u_pid u = 0x21) us) = replicate 3 (replicate 44 7)"
proof -
  have ok: "\<forall>q. chunks_ok None (pid_chunks q [vt_packet])"
    unfolding vt_packet_chunks using vt_pes_announced by (simp del: append.simps replicate.simps)
  have "vt_packets None [(True, vt_pes)] = [drop 45 vt_pes]" using vt_pes_announced by (simp del: append.simps replicate.simps)
  moreover have "map u_data (packet_units 0x21 (drop 45 vt_pes)) = replicate 3 (replicate 44 7)"
    by (simp add: packet_units_def data_units.simps vt_unit_ids_def VT_UNIT_LEN_def Let_def numeral_3_eq_3)
  ultimately have e: "map u_data (concat (map (packet_units 0x21) (vt_packets None (pid_chunks 0x21 [vt_packet])))) = replicate 3 (replicate 44 7)"
    unfolding vt_packet_chunks by (simp only: if_True refl list.map concat.simps append_Nil2)
  have "\<forall>p\<in>set [vt_packet]. length p = 188" by simp
  from vtEx_extracts_units [OF this ok, of "\<lambda>_. 0"] obtain st us where
    "vt_run (\<lambda>_. 0) (pesExInit, vtExInit) [vt_packet] = Some (st, us)"
    "filter (\<lambda>u. u_pid u = 0x21) us = concat (map (packet_units 0x21) (vt_packets None (pid_chunks 0x21 [vt_packet])))" by blast
  with e show ?thesis by metis
qed

lemma short_start_run:
  assumes "vs_size st = int (length (vs_scratch st))" "6 \<le> length b" "length b < 45" "announced b \<noteq> None"
  shows "vtExProcPES True fresh (st\<lparr>vs_st := ES_INIT\<rparr>) b (int (length b)) = None"
proof -
  let ?st = "st\<lparr>vs_st := ES_INIT\<rparr>"
  obtain n where n: "announced b = Some n" using assms(4) by blast
  from start_run [of ?st b fresh] assms(1,2) n obtain st1 where
    h: "vt_ex_start True fresh ?st b = Some (0, st1)" "vs_size st1 = int (length (vs_scratch st1))" "unat (vs_plen st1) = n"
      "n + 2 \<le> length (vs_scratch st1)" "139 \<le> n" by auto
  have "\<not> int SCR_PFX \<ge> int (n + SCR_PFX)" "vs_size st1 - int SCR_PFX \<ge> int (length b) - 45" "int (length b) - 45 < 0"
    using h(2,4,5) assms(3) by (simp_all add: SCR_PFX_def)
  then have "vt_ex_collect (st1\<lparr>vs_idx := int SCR_PFX, vs_st := ES_BITS\<rparr>) b 45 (int (length b) - 45) = None"
    using h(3) by (simp add: vt_ex_collect_def move_bytes_def)
  with h(1) show ?thesis by (simp add: vtExProcPES_def)
qed

text \<open>A packet that begins a teletext PES packet but has less than 45 bytes of payload, because the rest
  is filled by an adaptation field, makes the extractor copy a negative number of bytes: the code
  faults whatever it has collected before.\<close>
theorem vt_short_start_faults:
  assumes "length p = 188" and "payload_start p = Some a" and "143 < a" and "a \<le> 182" and "ts_pusi p"
    and "announced (drop a p) \<noteq> None" and "vt_sim ex s"
  shows "vt_feed fresh (pes, ex) p = None"
proof -
  let ?new = "new_vt_state (ts_pid p)"
  define st where "st = (case vt_lookup ex (ts_pid p) of None \<Rightarrow> ?new | Some n \<Rightarrow> n)"
  have inv: "avl ex" "vo.bst ex" using assms(7) by (simp_all add: vt_sim_def vt_inv_def)
  from vo.get_or_ins [OF this, of ?new] obtain t where t: "vt_ex_get_or_ins_state True ex (ts_pid p) = Some (Some st, t)"
    by (auto simp: vt_ex_get_or_ins_state_def vt_lookup_def st_def)
  have "vs_size st = int (length (vs_scratch st))"
    using vt_simD [OF assms(7), of "ts_pid p"]
    by (cases "vt_lookup ex (ts_pid p)"; simp add: st_def vt_ok_def; simp add: new_vt_state_def)
  moreover have "6 \<le> length (drop a p)" "length (drop a p) < 45" using assms(1,3,4) by simp_all
  ultimately have f: "vtExProcPES True fresh (st\<lparr>vs_st := ES_INIT\<rparr>) (drop a p) (int (length (drop a p))) = None"
    using assms(6) by (intro short_start_run)
  have l: "int (unat (word_of_nat (188 - a) :: u8)) = int (length (drop a p))" using assms(1,3) by (simp add: unat_of_nat)
  from pes_ranges [OF assms(1)] assms(2) have "pes_ex_get_ranges p = Some (Inr (a, 188, if ts_pusi p then 0 else -1))" by auto
  then have "pesExPut pes p = Some (\<lparr>pb_data = a, pb_pid = ts_pid p, pb_len = word_of_nat (188 - a), pb_start = True\<rparr>, True)"
    using assms(1,5) unfolding pesExPut_def pes_ex_process_buf_def by (simp only: if_True refl ts_header bind.bind_lunit sum.case prod.case)
  moreover have "vtExPut True True fresh ex (drop a p) (ts_pid p) (word_of_nat (188 - a)) True = None"
    unfolding vtExPut_def l using t f by simp
  ultimately show ?thesis by (simp add: vt_feed_def)
qed

abbreviation short_packet :: buffer where
  "short_packet \<equiv> [0x47, 0x40, 0x21, 0x30, 150] @ replicate 150 0xff @ [0, 0, 1, 0xbd, 0, 0xb2] @ replicate 27 0"

theorem vt_short_start_faults_witness: "vt_feed (\<lambda>_. 0) (pesExInit, vtExInit) short_packet = None"
proof -
  have "payload_start short_packet = Some 155" "ts_pusi short_packet" by (simp_all add: payload_start_def ts_afc_def ts_pusi_def)
  moreover have "announced (drop 155 short_packet) \<noteq> None" by (simp add: announced_def Let_def)
  ultimately show ?thesis using vt_short_start_faults [OF _ _ _ _ _ _ vt_sim_init, of short_packet 155 "\<lambda>_. 0" pesExInit] by simp
qed

end
