(* ===== verification/FpMm.thy ===== *)
theory FpMm
  imports Prelude "HOL-Library.Monad_Syntax"
begin

text \<open>
  common/fp_mm.c: a dynamic allocator inside a file.  The file is a doubly linked list of
  segments, each with a header in front of its data; the free segments also form a binary
  search tree ordered by size whose root is an empty dummy segment.  The headers in the file
  are a map from file offsets; reading or writing a header where none has been written is a
  fault (\<open>None\<close>).  Offsets and sizes are natural numbers (\<open>off_t\<close> values that are never
  negative), the contents of the data areas are left out.
\<close>

subsection \<open>Data\<close>

type_synonym fp_pointer = nat
type_synonym fp_size = nat

record link_header =
  lh_id :: u32
  lh_prev :: fp_pointer
  lh_next :: fp_pointer
  lh_used :: u8
  lh_size :: fp_size
  lh_max :: fp_size
  lh_smaller :: fp_pointer
  lh_bigger :: fp_pointer
  lh_parent :: fp_pointer

type_synonym links = "nat \<Rightarrow> link_header option"

text \<open>The heap header in the file, the headers of the segments, and the fields of \<open>FpHeap\<close>.  The
  seed of the random numbers is a global variable of the file.\<close>

record fp_heap =
  hh_id :: u32
  hh_last :: fp_pointer
  links :: links
  base :: fp_pointer
  fragment_size :: fp_size
  fph_seed :: u32

definition sizeof_heap_header :: nat where "sizeof_heap_header = 12"
definition sizeof_link_header :: nat where "sizeof_link_header = 61"
definition FP_MM_ID :: u32 where "FP_MM_ID = 0x70616568"
definition FP_LINK_ID :: u32 where "FP_LINK_ID = 0x6b6e696c"

text \<open>\<open>rand_r\<close> of the C library is an arbitrary function from seeds to values and seeds.\<close>

type_synonym rand = "u32 \<Rightarrow> int \<times> u32"

definition RAND_MAX :: int where "RAND_MAX = 2147483647"

text \<open>Writing fields of a header in the file.\<close>

definition wr :: "(link_header \<Rightarrow> link_header) \<Rightarrow> nat \<Rightarrow> links \<Rightarrow> links option" where
  "wr f p m = (case m p of None \<Rightarrow> None | Some h \<Rightarrow> Some (m(p \<mapsto> f h)))"

definition fph_read_max :: "nat \<Rightarrow> links \<Rightarrow> nat option" where
  "fph_read_max p m = map_option lh_max (m p)"

definition fph_read_size :: "nat \<Rightarrow> links \<Rightarrow> nat option" where
  "fph_read_size p m = map_option lh_size (m p)"

subsection \<open>The tree of free segments\<close>

partial_function (option) fph_remax :: "nat \<Rightarrow> links \<Rightarrow> links option" where
  "fph_remax e m = do {
     lh_e \<leftarrow> m e;
     (if lh_parent lh_e = 0 then Some m
      else do {
        lh_p \<leftarrow> m (lh_parent lh_e);
        (if lh_smaller lh_p = e then Some m
         else do {
           m' \<leftarrow> wr (\<lambda>h. h\<lparr>lh_max := lh_max lh_e\<rparr>) (lh_parent lh_e) m;
           fph_remax (lh_parent lh_e) m'
         })
      })
   }"

definition fph_relink :: "nat \<Rightarrow> nat \<Rightarrow> nat \<Rightarrow> links \<Rightarrow> links option" where
  "fph_relink par old new m = do {
     m \<leftarrow> (if new \<noteq> 0 then wr (\<lambda>h. h\<lparr>lh_parent := par\<rparr>) new m else Some m);
     lh2 \<leftarrow> m par;
     m \<leftarrow> (if old = lh_smaller lh2 then wr (\<lambda>h. h\<lparr>lh_smaller := new\<rparr>) par m
          else do {
            m \<leftarrow> wr (\<lambda>h. h\<lparr>lh_bigger := new\<rparr>) par m;
            (if new \<noteq> 0 then fph_remax new m
             else do {
               m \<leftarrow> wr (\<lambda>h. h\<lparr>lh_max := lh_size lh2\<rparr>) par m;
               fph_remax par m
             })
          });
     wr (\<lambda>h. h\<lparr>lh_smaller := 0, lh_bigger := 0, lh_parent := 0, lh_max := lh_size h\<rparr>) old m
   }"

definition fph_remove_single :: "nat \<Rightarrow> links \<Rightarrow> links option" where
  "fph_remove_single e m = do {
     lhe \<leftarrow> m e;
     let par = lh_parent lhe;
     lhp \<leftarrow> m par;
     (if lh_bigger lhp = e then
        (if lh_bigger lhe \<noteq> 0 then do {
           m \<leftarrow> wr (\<lambda>h. h\<lparr>lh_bigger := lh_bigger lhe\<rparr>) par m;
           wr (\<lambda>h. h\<lparr>lh_parent := par\<rparr>) (lh_bigger lhe) m
         }
         else if lh_smaller lhe \<noteq> 0 then do {
           m \<leftarrow> wr (\<lambda>h. h\<lparr>lh_bigger := lh_smaller lhe\<rparr>) par m;
           m \<leftarrow> wr (\<lambda>h. h\<lparr>lh_parent := par\<rparr>) (lh_smaller lhe) m;
           fph_remax (lh_smaller lhe) m
         }
         else do {
           m \<leftarrow> wr (\<lambda>h. h\<lparr>lh_bigger := 0\<rparr>) par m;
           newmax \<leftarrow> fph_read_size par m;
           m \<leftarrow> wr (\<lambda>h. h\<lparr>lh_max := newmax\<rparr>) par m;
           fph_remax par m
         })
      else
        (if lh_bigger lhe \<noteq> 0 then do {
           m \<leftarrow> wr (\<lambda>h. h\<lparr>lh_smaller := lh_bigger lhe\<rparr>) par m;
           wr (\<lambda>h. h\<lparr>lh_parent := par\<rparr>) (lh_bigger lhe) m
         }
         else if lh_smaller lhe \<noteq> 0 then do {
           m \<leftarrow> wr (\<lambda>h. h\<lparr>lh_smaller := lh_smaller lhe\<rparr>) par m;
           wr (\<lambda>h. h\<lparr>lh_parent := par\<rparr>) (lh_smaller lhe) m
         }
         else wr (\<lambda>h. h\<lparr>lh_smaller := 0\<rparr>) par m))
   }"

text \<open>Descending to the last bigger or the last smaller node.\<close>

partial_function (option) last_bigger :: "nat \<Rightarrow> links \<Rightarrow> nat option" where
  "last_bigger e m = do {
     lh \<leftarrow> m e;
     (if lh_bigger lh \<noteq> 0 then last_bigger (lh_bigger lh) m else Some e)
   }"

partial_function (option) last_smaller :: "nat \<Rightarrow> links \<Rightarrow> nat option" where
  "last_smaller e m = do {
     lh \<leftarrow> m e;
     (if lh_smaller lh \<noteq> 0 then last_smaller (lh_smaller lh) m else Some e)
   }"

definition fph_pre :: "nat \<Rightarrow> links \<Rightarrow> (nat \<times> links) option" where
  "fph_pre e m = do {
     lh1 \<leftarrow> m e;
     e \<leftarrow> last_bigger (lh_smaller lh1) m;
     m \<leftarrow> fph_remove_single e m;
     Some (e, m)
   }"

definition fph_post :: "nat \<Rightarrow> links \<Rightarrow> (nat \<times> links) option" where
  "fph_post e m = do {
     lh1 \<leftarrow> m e;
     e \<leftarrow> last_smaller (lh_bigger lh1) m;
     m \<leftarrow> fph_remove_single e m;
     Some (e, m)
   }"

text \<open>The node \<open>work\<close> takes the place of \<open>e\<close>.\<close>

definition fph_replace :: "nat \<Rightarrow> nat \<Rightarrow> links \<Rightarrow> links option" where
  "fph_replace e work m = do {
     lh1 \<leftarrow> m e;
     lh2 \<leftarrow> m work;
     max \<leftarrow> (if lh_bigger lh1 \<noteq> 0 then fph_read_max (lh_bigger lh1) m else Some (lh_size lh2));
     let lh2 = lh2\<lparr>lh_max := max, lh_parent := 0, lh_smaller := lh_smaller lh1, lh_bigger := lh_bigger lh1\<rparr>;
     m \<leftarrow> (if lh_bigger lh1 \<noteq> 0 then wr (\<lambda>h. h\<lparr>lh_parent := work\<rparr>) (lh_bigger lh1) m else Some m);
     m \<leftarrow> (if lh_smaller lh1 \<noteq> 0 then wr (\<lambda>h. h\<lparr>lh_parent := work\<rparr>) (lh_smaller lh1) m else Some m);
     m \<leftarrow> wr (\<lambda>_. lh2) work m;
     fph_relink (lh_parent lh1) e work m
   }"

definition fph_remove :: "rand \<Rightarrow> nat \<Rightarrow> u32 \<Rightarrow> links \<Rightarrow> (links \<times> u32) option" where
  "fph_remove rand_r e seed m = do {
     lh1 \<leftarrow> m e;
     (if lh_smaller lh1 = 0 then do {
        m \<leftarrow> fph_relink (lh_parent lh1) e (lh_bigger lh1) m;
        Some (m, seed)
      }
      else if lh_bigger lh1 = 0 then do {
        m \<leftarrow> fph_relink (lh_parent lh1) e (lh_smaller lh1) m;
        Some (m, seed)
      }
      else do {
        let (decision, seed) = rand_r seed;
        (work, m) \<leftarrow> (if decision > RAND_MAX div 2 then fph_post e m else fph_pre e m);
        m \<leftarrow> fph_replace e work m;
        Some (m, seed)
      })
   }"

partial_function (option) fph_get :: "rand \<Rightarrow> nat \<Rightarrow> nat \<Rightarrow> u32 \<Rightarrow> links \<Rightarrow> (nat \<times> links \<times> u32) option" where
  "fph_get rand_r lp1 sz seed m = do {
     lh1 \<leftarrow> m lp1;
     (if lh_size lh1 > sz then do {
        fits \<leftarrow> (if lh_smaller lh1 \<noteq> 0 then do { mx \<leftarrow> fph_read_max (lh_smaller lh1) m; Some (mx \<ge> sz) } else Some False);
        (if fits then fph_get rand_r (lh_smaller lh1) sz seed m
         else do { (m, seed) \<leftarrow> fph_remove rand_r lp1 seed m; Some (lp1, m, seed) })
      }
      else if lh_size lh1 = sz then do { (m, seed) \<leftarrow> fph_remove rand_r lp1 seed m; Some (lp1, m, seed) }
      else if lh_bigger lh1 \<noteq> 0 \<and> lh_max lh1 \<ge> sz then fph_get rand_r (lh_bigger lh1) sz seed m
      else Some (0, m, seed))
   }"

partial_function (option) fph_insert_loop :: "nat \<Rightarrow> nat \<Rightarrow> link_header \<Rightarrow> links \<Rightarrow> links option" where
  "fph_insert_loop ap ep e m = do {
     a \<leftarrow> m ap;
     (if lh_size e \<le> lh_size a then
        (if lh_smaller a = 0 then do {
           m \<leftarrow> wr (\<lambda>h. h\<lparr>lh_smaller := ep\<rparr>) ap m;
           m \<leftarrow> wr (\<lambda>_. e\<lparr>lh_parent := ap\<rparr>) ep m;
           fph_remax ep m
         }
         else fph_insert_loop (lh_smaller a) ep e m)
      else
        (if lh_bigger a = 0 then do {
           m \<leftarrow> wr (\<lambda>h. h\<lparr>lh_bigger := ep\<rparr>) ap m;
           m \<leftarrow> wr (\<lambda>_. e\<lparr>lh_parent := ap\<rparr>) ep m;
           fph_remax ep m
         }
         else fph_insert_loop (lh_bigger a) ep e m))
   }"

definition fph_root :: "fp_heap \<Rightarrow> nat" where
  "fph_root h = base h + sizeof_heap_header"

definition fph_insert :: "nat \<Rightarrow> fp_heap \<Rightarrow> fp_heap option" where
  "fph_insert ep h = do {
     e \<leftarrow> links h ep;
     m \<leftarrow> fph_insert_loop (fph_root h) ep (e\<lparr>lh_smaller := 0, lh_bigger := 0, lh_max := lh_size e\<rparr>) (links h);
     Some (h\<lparr>links := m\<rparr>)
   }"

text \<open>Removing a node from the tree of a heap.\<close>

definition fph_unlink :: "rand \<Rightarrow> nat \<Rightarrow> fp_heap \<Rightarrow> fp_heap option" where
  "fph_unlink rand_r e h = do {
     (m, seed) \<leftarrow> fph_remove rand_r e (fph_seed h) (links h);
     Some (h\<lparr>links := m, fph_seed := seed\<rparr>)
   }"

subsection \<open>The list of segments\<close>

text \<open>Splitting a segment that is not in the tree; the result is the rest, or 0.\<close>

definition fph_split :: "nat \<Rightarrow> nat \<Rightarrow> fp_heap \<Rightarrow> (nat \<times> fp_heap) option" where
  "fph_split link sz h =
     (if link = 0 then Some (0, h)
      else do {
        lh \<leftarrow> links h link;
        let old_size = lh_size lh;
        (if old_size \<le> sz \<or> old_size - sz \<le> sizeof_link_header then Some (0, h)
         else do {
           let rest_size = old_size - sz - sizeof_link_header;
           let ep = link + sizeof_link_header + sz;
           let e = \<lparr>lh_id = FP_LINK_ID, lh_prev = link, lh_next = lh_next lh, lh_used = 0, lh_size = rest_size,
                    lh_max = 0, lh_smaller = 0, lh_bigger = 0, lh_parent = 0\<rparr>;
           let m = (links h)(ep \<mapsto> e);
           m \<leftarrow> wr (\<lambda>x. x\<lparr>lh_next := ep, lh_size := sz\<rparr>) link m;
           (if lh_next lh \<noteq> 0 then do {
              m \<leftarrow> wr (\<lambda>x. x\<lparr>lh_prev := ep\<rparr>) (lh_next lh) m;
              Some (ep, h\<lparr>links := m\<rparr>)
            }
            else Some (ep, h\<lparr>links := m, hh_last := ep\<rparr>))
         })
      })"

definition fph_occupy :: "nat \<Rightarrow> fp_heap \<Rightarrow> fp_heap option" where
  "fph_occupy link h = do { m \<leftarrow> wr (\<lambda>x. x\<lparr>lh_used := 1\<rparr>) link (links h); Some (h\<lparr>links := m\<rparr>) }"

text \<open>The header of \<open>bp\<close> becomes data of \<open>ap\<close>.\<close>

definition fph_merge :: "nat \<Rightarrow> nat \<Rightarrow> fp_heap \<Rightarrow> fp_heap option" where
  "fph_merge ap bp h = do {
     a \<leftarrow> links h ap;
     b \<leftarrow> links h bp;
     let cp = lh_next b;
     h \<leftarrow> (if cp \<noteq> 0 then do { m \<leftarrow> wr (\<lambda>x. x\<lparr>lh_prev := ap\<rparr>) cp (links h); Some (h\<lparr>links := m\<rparr>) }
          else Some (h\<lparr>hh_last := ap\<rparr>));
     m \<leftarrow> wr (\<lambda>x. x\<lparr>lh_next := cp, lh_size := lh_size a + lh_size b + sizeof_link_header\<rparr>) ap (links h);
     Some (h\<lparr>links := m(bp := None)\<rparr>)
   }"

text \<open>Joining a loose segment with the next one, if that is free; \<open>b\<close> is the header of \<open>bp\<close>.\<close>

definition fph_join_next :: "rand \<Rightarrow> nat \<Rightarrow> link_header \<Rightarrow> fp_heap \<Rightarrow> fp_heap option" where
  "fph_join_next rand_r bp b h =
     (if lh_next b \<noteq> 0 then do {
        c \<leftarrow> links h (lh_next b);
        (if lh_used b = 0 \<and> lh_used c = 0 then do {
           h \<leftarrow> fph_unlink rand_r (lh_next b) h;
           fph_merge bp (lh_next b) h
         }
         else Some h)
      }
      else Some h)"

definition fph_coalesce1 :: "rand \<Rightarrow> nat \<Rightarrow> fp_heap \<Rightarrow> (nat \<times> fp_heap) option" where
  "fph_coalesce1 rand_r bp h =
     (if bp = 0 then Some (0, h)
      else do {
        b \<leftarrow> links h bp;
        h \<leftarrow> fph_join_next rand_r bp b h;
        (if lh_prev b \<noteq> 0 then do {
           a \<leftarrow> links h (lh_prev b);
           (if lh_prev a \<noteq> 0 \<and> lh_used a = 0 \<and> lh_used b = 0 then do {
              h \<leftarrow> fph_unlink rand_r (lh_prev b) h;
              h \<leftarrow> fph_merge (lh_prev b) bp h;
              Some (lh_prev b, h)
            }
            else Some (bp, h))
         }
         else Some (bp, h))
      })"

definition fph_grow :: "nat \<Rightarrow> fp_heap \<Rightarrow> fp_heap option" where
  "fph_grow sz h = do {
     let sz = (if sz < fragment_size h then fragment_size h else sz);
     let ap = hh_last h;
     a \<leftarrow> links h ap;
     let bp = ap + lh_size a + sizeof_link_header;
     m \<leftarrow> wr (\<lambda>x. x\<lparr>lh_next := bp\<rparr>) ap (links h);
     let b = \<lparr>lh_id = FP_LINK_ID, lh_prev = ap, lh_next = 0, lh_used = 0, lh_size = sz,
              lh_max = sz, lh_smaller = 0, lh_bigger = 0, lh_parent = 0\<rparr>;
     fph_insert bp (h\<lparr>links := m(bp \<mapsto> b), hh_last := bp\<rparr>)
   }"

text \<open>Truncating the file drops the headers behind its new end.\<close>

partial_function (option) fph_shrink :: "rand \<Rightarrow> fp_heap \<Rightarrow> fp_heap option" where
  "fph_shrink rand_r h = do {
     l \<leftarrow> links h (hh_last h);
     (if lh_used l = 0 \<and> lh_prev l \<noteq> 0 \<and> lh_size l \<ge> 2 * fragment_size h then do {
        h' \<leftarrow> fph_unlink rand_r (hh_last h) h;
        m \<leftarrow> wr (\<lambda>x. x\<lparr>lh_next := 0\<rparr>) (lh_prev l) (links h' |` {..<hh_last h});
        fph_shrink rand_r (h'\<lparr>links := m, hh_last := lh_prev l\<rparr>)
      }
      else Some h)
   }"

subsection \<open>The interface\<close>

definition fph_heap_ok :: "fp_heap \<Rightarrow> bool" where
  "fph_heap_ok h \<longleftrightarrow> hh_id h = FP_MM_ID"

definition fph_link_ok :: "nat \<Rightarrow> fp_heap \<Rightarrow> bool option" where
  "fph_link_ok p h = map_option (\<lambda>x. lh_id x = FP_LINK_ID) (links h p)"

definition fphFree :: "rand \<Rightarrow> nat \<Rightarrow> fp_heap \<Rightarrow> fp_heap option" where
  "fphFree rand_r p h =
     (if p = 0 then Some h
      else do {
        let p = p - sizeof_link_header;
        ok \<leftarrow> fph_link_ok p h;
        (if \<not> ok then Some h
         else do {
           l \<leftarrow> links h p;
           (if lh_used l = 0 then Some h
            else do {
              m \<leftarrow> wr (\<lambda>x. x\<lparr>lh_used := 0\<rparr>) p (links h);
              let h = h\<lparr>links := m\<rparr>;
              (p, h) \<leftarrow> (if lh_prev l \<noteq> 0 then fph_coalesce1 rand_r p h else Some (p, h));
              h \<leftarrow> fph_insert p h;
              fph_shrink rand_r h
            })
         })
      })"

text \<open>What \<open>fphMalloc\<close> does with the segment it has found.\<close>

definition fph_take :: "nat \<Rightarrow> nat \<Rightarrow> fp_heap \<Rightarrow> (nat \<times> fp_heap) option" where
  "fph_take fitting sz h = do {
     s \<leftarrow> fph_read_size fitting (links h);
     h \<leftarrow> (if s > sz + sz div 2 + 2 * sizeof_link_header then do {
            (ptr, h) \<leftarrow> fph_split fitting sz h;
            (if ptr \<noteq> 0 then fph_insert ptr h else Some h)
          }
          else Some h);
     h \<leftarrow> fph_occupy fitting h;
     Some (fitting + sizeof_link_header, h)
   }"

text \<open>\<open>Inl ()\<close> is the call of \<open>abort\<close>.\<close>

definition fphMalloc :: "rand \<Rightarrow> nat \<Rightarrow> fp_heap \<Rightarrow> (unit + nat \<times> fp_heap) option" where
  "fphMalloc rand_r sz h =
     (if sz = 0 then Some (Inr (0, h))
      else if \<not> fph_heap_ok h then Some (Inr (0, h))
      else do {
        (fitting, m, seed) \<leftarrow> fph_get rand_r (fph_root h) sz (fph_seed h) (links h);
        (fitting, h) \<leftarrow> (if fitting = 0 then do {
             h \<leftarrow> fph_grow sz (h\<lparr>links := m, fph_seed := seed\<rparr>);
             (fitting, m, seed) \<leftarrow> fph_get rand_r (fph_root h) sz (fph_seed h) (links h);
             Some (fitting, h\<lparr>links := m, fph_seed := seed\<rparr>)
           }
           else Some (fitting, h\<lparr>links := m, fph_seed := seed\<rparr>));
        (if fitting = 0 then Some (Inl ())
         else do { (p, h) \<leftarrow> fph_take fitting sz h; Some (Inr (p, h)) })
      })"

definition MIBYTES :: nat where "MIBYTES = 1024 * 1024"

text \<open>A new heap at the file position \<open>pos\<close>.\<close>

definition fphInit :: "nat \<Rightarrow> u32 \<Rightarrow> fp_heap" where
  "fphInit pos seed =
     \<lparr>hh_id = FP_MM_ID, hh_last = pos + sizeof_heap_header,
      links = [pos + sizeof_heap_header \<mapsto>
        \<lparr>lh_id = FP_LINK_ID, lh_prev = 0, lh_next = 0, lh_used = 0, lh_size = 0, lh_max = 0,
         lh_smaller = 0, lh_bigger = 0, lh_parent = 0\<rparr>],
      base = pos, fragment_size = 10 * MIBYTES, fph_seed = seed\<rparr>"

definition fphSetFragmentSize :: "fp_heap \<Rightarrow> nat \<Rightarrow> fp_heap" where
  "fphSetFragmentSize h sz = h\<lparr>fragment_size := (if sz < 2 * sizeof_link_header then 2 * sizeof_link_header else sz)\<rparr>"

text \<open>Truncation to the base and a new heap.\<close>

definition fphZero :: "fp_heap \<Rightarrow> fp_heap" where
  "fphZero h = fphInit (base h) (fph_seed h)"

text \<open>Attaching to the heap found in a file; the statistics of the debug output are left out.\<close>

definition fphAttach :: "fp_heap \<Rightarrow> int \<times> fp_heap" where
  "fphAttach h = (if hh_id h \<noteq> FP_MM_ID then (1, h) else (0, h\<lparr>fragment_size := 10 * MIBYTES\<rparr>))"

partial_function (option) fph_count_loop :: "nat \<Rightarrow> nat \<Rightarrow> links \<Rightarrow> nat option" where
  "fph_count_loop current rv m =
     (if current \<noteq> 0 then do {
        l \<leftarrow> m current;
        (if lh_id l \<noteq> FP_LINK_ID then Some 0 else fph_count_loop (lh_next l) (rv + 1) m)
      }
      else Some rv)"

definition fph_count_nodes :: "fp_heap \<Rightarrow> nat option" where
  "fph_count_nodes h = fph_count_loop (fph_root h) 0 (links h)"

partial_function (option) fph_count_free :: "links \<Rightarrow> nat \<Rightarrow> nat option" where
  "fph_count_free m root =
     (if root = 0 then Some 0
      else do {
        lh \<leftarrow> m root;
        a \<leftarrow> fph_count_free m (lh_smaller lh);
        b \<leftarrow> fph_count_free m (lh_bigger lh);
        Some (1 + a + b)
      })"

end
