(* ===== verification/FpTree.thy ===== *)
theory FpTree
  imports FpMm "HOL-Library.Tree"
begin

text \<open>
  The tree of free segments of common/fp_mm.c: the headers in the file represent a binary tree
  of offsets with correct parent links and maxima, and the pointer operations of \<open>FpMm\<close> are
  shown to be removal, insertion and best-fit search on that tree.
\<close>

subsection \<open>Trees in the file\<close>

definition szf :: "links \<Rightarrow> nat \<Rightarrow> nat" where
  "szf m a = (case m a of None \<Rightarrow> 0 | Some h \<Rightarrow> lh_size h)"

text \<open>The maximum a node of a tree has to store, and what its parent has to know of a subtree.\<close>

fun mxs :: "(nat \<Rightarrow> nat) \<Rightarrow> nat tree \<Rightarrow> nat" where
  "mxs s Leaf = 0"
| "mxs s (Node l a r) = (if r = Leaf then s a else mxs s r)"

definition vof :: "(nat \<Rightarrow> nat) \<Rightarrow> nat tree \<Rightarrow> nat option" where
  "vof s t = (if t = Leaf then None else Some (mxs s t))"

fun tr :: "links \<Rightarrow> nat \<Rightarrow> nat \<Rightarrow> nat tree \<Rightarrow> bool" where
  "tr m par p Leaf \<longleftrightarrow> p = 0"
| "tr m par p (Node l a r) \<longleftrightarrow> p = a \<and> a \<noteq> 0 \<and>
     (case m a of
        None \<Rightarrow> False
      | Some h \<Rightarrow> lh_parent h = par \<and> tr m a (lh_smaller h) l \<and> tr m a (lh_bigger h) r \<and>
          lh_max h = mxs (szf m) (Node l a r))"

text \<open>A context is the path from a subtree up to the root.\<close>

datatype frame = FS nat "nat tree" | FB "nat tree" nat

fun plug :: "frame list \<Rightarrow> nat tree \<Rightarrow> nat tree" where
  "plug [] t = t"
| "plug (FS a r # c) t = plug c (Node t a r)"
| "plug (FB l a # c) t = plug c (Node l a t)"

fun cset :: "frame list \<Rightarrow> nat set" where
  "cset [] = {}"
| "cset (FS a r # c) = insert a (set_tree r \<union> cset c)"
| "cset (FB l a # c) = insert a (set_tree l \<union> cset c)"

fun lo :: "frame list \<Rightarrow> nat list" where
  "lo [] = []"
| "lo (FS a r # c) = lo c"
| "lo (FB l a # c) = lo c @ inorder l @ [a]"

fun hi :: "frame list \<Rightarrow> nat list" where
  "hi [] = []"
| "hi (FS a r # c) = a # inorder r @ hi c"
| "hi (FB l a # c) = hi c"

text \<open>The path with hole pointer \<open>p\<close>, parent \<open>par\<close> and the maximum \<open>v\<close> of the subtree in the hole.\<close>

fun cx :: "links \<Rightarrow> nat \<Rightarrow> frame list \<Rightarrow> nat \<Rightarrow> nat \<Rightarrow> nat option \<Rightarrow> bool" where
  "cx m rt [] p par v \<longleftrightarrow> par = 0 \<and> p = rt"
| "cx m rt (FS a r # c) p par v \<longleftrightarrow> par = a \<and> a \<noteq> 0 \<and>
     (case m a of
        None \<Rightarrow> False
      | Some h \<Rightarrow> lh_smaller h = p \<and> tr m a (lh_bigger h) r \<and>
          lh_max h = (case vof (szf m) r of None \<Rightarrow> lh_size h | Some x \<Rightarrow> x) \<and> cx m rt c a (lh_parent h) (Some (lh_max h)))"
| "cx m rt (FB l a # c) p par v \<longleftrightarrow> par = a \<and> a \<noteq> 0 \<and>
     (case m a of
        None \<Rightarrow> False
      | Some h \<Rightarrow> lh_bigger h = p \<and> tr m a (lh_smaller h) l \<and>
          lh_max h = (case v of None \<Rightarrow> lh_size h | Some x \<Rightarrow> x) \<and> cx m rt c a (lh_parent h) (Some (lh_max h)))"

definition trt :: "links \<Rightarrow> nat \<Rightarrow> nat tree \<Rightarrow> bool" where
  "trt m rt t \<longleftrightarrow> tr m 0 rt t \<and> distinct (inorder t)"

text \<open>What the tree operations leave alone: the fields of the list of segments.\<close>

definition segp :: "link_header \<Rightarrow> u32 \<times> nat \<times> nat \<times> u8 \<times> nat" where
  "segp h = (lh_id h, lh_prev h, lh_next h, lh_used h, lh_size h)"

definition segeq :: "links \<Rightarrow> links \<Rightarrow> bool" where
  "segeq m m' \<longleftrightarrow> (\<forall>a. map_option segp (m a) = map_option segp (m' a))"

definition outside :: "nat set \<Rightarrow> links \<Rightarrow> links \<Rightarrow> bool" where
  "outside A m m' \<longleftrightarrow> (\<forall>a. a \<notin> A \<longrightarrow> m' a = m a)"

subsection \<open>Basic facts\<close>

lemma segeq_refl [simp]: "segeq m m"
  by (simp add: segeq_def)

lemma segeq_trans: "segeq m m' \<Longrightarrow> segeq m' m'' \<Longrightarrow> segeq m m''"
  by (simp add: segeq_def)

lemma outside_refl [simp]: "outside A m m"
  by (simp add: outside_def)

lemma outside_trans: "outside A m m' \<Longrightarrow> outside A m' m'' \<Longrightarrow> outside A m m''"
  by (simp add: outside_def)

lemma outside_mono: "outside A m m' \<Longrightarrow> A \<subseteq> B \<Longrightarrow> outside B m m'"
  by (auto simp: outside_def)

lemma segeq_szf: "segeq m m' \<Longrightarrow> szf m' = szf m"
proof
  fix a
  assume "segeq m m'"
  then have "map_option segp (m a) = map_option segp (m' a)" by (simp add: segeq_def)
  then show "szf m' a = szf m a" by (cases "m a"; cases "m' a") (auto simp: szf_def segp_def)
qed

lemma segeq_upd: "m a = Some h \<Longrightarrow> segp h' = segp h \<Longrightarrow> segeq m (m(a \<mapsto> h'))"
  by (simp add: segeq_def)

lemma outside_upd: "a \<in> A \<Longrightarrow> outside A m (m(a \<mapsto> h))"
  by (simp add: outside_def)

lemma wr_Some: "m a = Some h \<Longrightarrow> wr f a m = Some (m(a \<mapsto> f h))"
  by (simp add: wr_def)

lemma vof_Leaf [simp]: "vof s Leaf = None" and vof_Node [simp]: "vof s (Node l a r) = Some (mxs s (Node l a r))"
  by (simp_all add: vof_def)

lemma mxs_vof: "mxs s (Node l a r) = (case vof s r of None \<Rightarrow> s a | Some x \<Rightarrow> x)"
  by (cases r) auto

lemma mxs_cong: "(\<And>a. a \<in> set_tree t \<Longrightarrow> s a = s' a) \<Longrightarrow> mxs s t = mxs s' t"
  by (induction t) auto

lemma vof_cong: "(\<And>a. a \<in> set_tree t \<Longrightarrow> s a = s' a) \<Longrightarrow> vof s t = vof s' t"
  by (auto simp: vof_def intro: mxs_cong)

lemma szf_cong: "m a = m' a \<Longrightarrow> szf m a = szf m' a"
  by (simp add: szf_def)

lemma szf_Some: "m a = Some h \<Longrightarrow> szf m a = lh_size h"
  by (simp add: szf_def)

lemma tr_cong: "(\<And>a. a \<in> set_tree t \<Longrightarrow> m a = m' a) \<Longrightarrow> tr m par p t \<longleftrightarrow> tr m' par p t"
proof (induction t arbitrary: par p)
  case (Node l a r)
  have "mxs (szf m) (Node l a r) = mxs (szf m') (Node l a r)"
    using Node.prems by (intro mxs_cong szf_cong) auto
  moreover have "tr m a q l \<longleftrightarrow> tr m' a q l" "tr m a q r \<longleftrightarrow> tr m' a q r" for q
    using Node.IH(1) [of a q] Node.IH(2) [of a q] Node.prems by auto
  ultimately show ?case using Node.prems [of a] by (simp split: option.split)
qed simp

lemma tr_outside: "outside A m m' \<Longrightarrow> set_tree t \<inter> A = {} \<Longrightarrow> tr m' par p t \<longleftrightarrow> tr m par p t"
  by (rule tr_cong) (auto simp: outside_def)

lemma cx_cong: "(\<And>a. a \<in> cset c \<Longrightarrow> m a = m' a) \<Longrightarrow> cx m rt c p par v \<longleftrightarrow> cx m' rt c p par v"
proof (induction c arbitrary: p par v)
  case (Cons f c)
  show ?case
  proof (cases f)
    case (FS a r)
    have "tr m a q r \<longleftrightarrow> tr m' a q r" for q using Cons.prems FS by (intro tr_cong) auto
    moreover have "vof (szf m) r = vof (szf m') r" using Cons.prems FS by (intro vof_cong szf_cong) auto
    moreover have "cx m rt c q b w \<longleftrightarrow> cx m' rt c q b w" for q b w using Cons FS by auto
    ultimately show ?thesis using Cons.prems [of a] FS by (simp split: option.split)
  next
    case (FB l a)
    have "tr m a q l \<longleftrightarrow> tr m' a q l" for q using Cons.prems FB by (intro tr_cong) auto
    moreover have "cx m rt c q b w \<longleftrightarrow> cx m' rt c q b w" for q b w using Cons FB by auto
    ultimately show ?thesis using Cons.prems [of a] FB by (simp split: option.split)
  qed
qed simp

lemma cx_outside: "outside A m m' \<Longrightarrow> cset c \<inter> A = {} \<Longrightarrow> cx m' rt c p par v \<longleftrightarrow> cx m rt c p par v"
  by (rule cx_cong) (auto simp: outside_def)

lemma tr_plug: "tr m 0 rt (plug c t) \<longleftrightarrow> (\<exists>p par. cx m rt c p par (vof (szf m) t) \<and> tr m par p t)"
proof (induction c arbitrary: t)
  case (Cons f c)
  show ?case
  proof (cases f)
    case (FS a r)
    then show ?thesis
      by (auto simp: Cons.IH mxs_vof szf_Some split: option.splits simp del: mxs.simps)
  next
    case (FB l a)
    then show ?thesis
      by (auto simp: Cons.IH mxs_vof szf_Some split: option.splits simp del: mxs.simps)
  qed
qed auto

lemma inorder_tplug: "inorder (plug c t) = lo c @ inorder t @ hi c"
proof (induction c arbitrary: t)
  case (Cons f c)
  then show ?case by (cases f) auto
qed simp

lemma cset_lo_hi: "cset c = set (lo c) \<union> set (hi c)"
proof (induction c)
  case (Cons f c)
  then show ?case by (cases f) auto
qed simp

lemma set_plug: "set_tree (plug c t) = cset c \<union> set_tree t"
  by (auto simp: cset_lo_hi inorder_tplug simp flip: set_inorder)

lemma plug_append: "plug (c @ d) t = plug d (plug c t)"
proof (induction c arbitrary: t)
  case (Cons f c)
  then show ?case by (cases f) auto
qed simp

lemma distinct_plug: "distinct (inorder (plug c t)) \<longleftrightarrow>
    distinct (lo c @ hi c) \<and> distinct (inorder t) \<and> cset c \<inter> set_tree t = {}"
  by (auto simp: inorder_tplug cset_lo_hi simp flip: set_inorder)

lemma tr_dom: "tr m par p t \<Longrightarrow> a \<in> set_tree t \<Longrightarrow> a \<noteq> 0 \<and> m a \<noteq> None"
  by (induction t arbitrary: par p) (auto split: option.splits)

lemma tr_ptr: "tr m par p t \<Longrightarrow> (p = 0 \<longleftrightarrow> t = Leaf) \<and> (t \<noteq> Leaf \<longrightarrow> p \<in> set_tree t)"
  by (cases t) auto

lemma find_context: "a \<in> set_tree t \<Longrightarrow> \<exists>c l r. t = plug c (Node l a r)"
proof (induction t)
  case (Node l b r)
  consider "a = b" | "a \<in> set_tree l" | "a \<in> set_tree r" using Node.prems by auto
  then show ?case
  proof cases
    case 1
    then have "Node l b r = plug [] (Node l a r)" by simp
    then show ?thesis by blast
  next
    case 2
    with Node.IH(1) obtain c x y where "l = plug c (Node x a y)" by blast
    then have "Node l b r = plug (c @ [FS b r]) (Node x a y)" by (simp add: plug_append)
    then show ?thesis by blast
  next
    case 3
    with Node.IH(2) obtain c x y where "r = plug c (Node x a y)" by blast
    then have "Node l b r = plug (c @ [FB l b]) (Node x a y)" by (simp add: plug_append)
    then show ?thesis by blast
  qed
qed simp

subsection \<open>Adjusting the maxima\<close>

lemma remax_run:
  assumes "cx m rt c p par v" "tr m par p t" "t \<noteq> Leaf" "distinct (inorder (plug c t))"
  shows "\<exists>m'. fph_remax p m = Some m' \<and> cx m' rt c p par (vof (szf m) t) \<and> outside (cset c) m m' \<and> segeq m m'"
  using assms
proof (induction c arbitrary: p par t m v)
  case Nil
  then obtain l r h where t: "t = Node l p r" "m p = Some h" "lh_parent h = 0" by (cases t) (auto split: option.splits)
  then show ?case using Nil by (subst fph_remax.simps) simp
next
  case (Cons f c)
  from Cons.prems(2,3) obtain x y h where t: "t = Node x p y" and p: "m p = Some h" "lh_parent h = par"
    "lh_max h = mxs (szf m) t" by (cases t) (auto split: option.splits)
  show ?case
  proof (cases f)
    case (FS a r)
    with Cons.prems(1) obtain ha where ha: "m a = Some ha" "lh_smaller ha = p" "par = a" "a \<noteq> 0" by (auto split: option.splits)
    then have "fph_remax p m = Some m" using p by (subst fph_remax.simps) simp
    with Cons.prems(1) FS show ?thesis by auto
  next
    case (FB l a)
    have ds: "distinct (inorder (plug c (Node l a t)))" using Cons.prems(4) FB by simp
    then have dj: "cset c \<inter> set_tree (Node l a t) = {}" "distinct (inorder (Node l a t))" by (simp_all only: distinct_plug)
    have "p \<in> set_tree t" using t by simp
    then have pl: "p \<noteq> a" "p \<notin> set_tree l" using dj by auto
    from Cons.prems(1) FB obtain ha where ha: "m a = Some ha" "lh_bigger ha = p" "par = a" "a \<noteq> 0" "tr m a (lh_smaller ha) l"
      "cx m rt c a (lh_parent ha) (Some (lh_max ha))" by (auto split: option.splits)
    have "p \<noteq> 0" using Cons.prems(2,3) tr_ptr by blast
    then have sm: "lh_smaller ha \<noteq> p" using pl tr_ptr [OF ha(5)] by auto
    let ?ha = "ha\<lparr>lh_max := mxs (szf m) t\<rparr>"
    let ?m = "m(a \<mapsto> ?ha)"
    have step: "fph_remax p m = fph_remax a ?m"
      using p ha(1,3,4) sm by (subst fph_remax.simps) (simp add: wr_def)
    have o1: "outside {a} m ?m" and s1: "segeq m ?m" using ha(1) by (simp_all add: outside_upd segeq_upd segp_def)
    have na: "a \<notin> set_tree l" "a \<notin> set_tree t" "a \<notin> cset c" using dj by auto
    have "tr ?m a (lh_smaller ha) l" "tr ?m a p t" "cx ?m rt c a (lh_parent ha) (Some (lh_max ha))"
      using ha Cons.prems(2) tr_outside [OF o1] cx_outside [OF o1] na by simp_all
    moreover have "mxs (szf ?m) (Node l a t) = mxs (szf m) t" using segeq_szf [OF s1] Cons.prems(3) by simp
    ultimately have "tr ?m (lh_parent ha) a (Node l a t)" using ha(2,4) by simp
    from Cons.IH [OF \<open>cx ?m rt c a (lh_parent ha) (Some (lh_max ha))\<close> this tree.distinct(2) ds] obtain m' where
      m': "fph_remax a ?m = Some m'" "cx m' rt c a (lh_parent ha) (vof (szf ?m) (Node l a t))" "outside (cset c) ?m m'" "segeq ?m m'"
      by blast
    have "m' a = Some ?ha" using m'(3) na(3) by (simp add: outside_def)
    moreover have "tr m' a (lh_smaller ha) l"
      using tr_outside [OF m'(3)] \<open>tr ?m a (lh_smaller ha) l\<close> dj by auto
    moreover have "vof (szf ?m) (Node l a t) = Some (mxs (szf m) t)"
      using segeq_szf [OF s1] Cons.prems(3) by simp
    ultimately have "cx m' rt (FB l a # c) p par (vof (szf m) t)"
      using m'(2) ha Cons.prems(3) by (simp add: vof_def)
    moreover have "outside (cset (FB l a # c)) m m'"
      using o1 m'(3) by (auto simp: outside_def)
    ultimately show ?thesis using step m'(1) FB segeq_trans [OF s1 m'(4)] by auto
  qed
qed

text \<open>Writing the pointer into the hole alone.\<close>

lemma point_smaller:
  assumes "cx m rt (FS a r # c) p par v" "m a = Some h" "a \<notin> set_tree r" "a \<notin> cset c"
  shows "cx (m(a \<mapsto> h\<lparr>lh_smaller := q\<rparr>)) rt (FS a r # c) q par w" "par = a" "lh_smaller h = p"
proof -
  let ?m = "m(a \<mapsto> h\<lparr>lh_smaller := q\<rparr>)"
  have o: "outside {a} m ?m" and s: "segeq m ?m" using assms(2) by (simp_all add: outside_upd segeq_upd segp_def)
  show "cx ?m rt (FS a r # c) q par w"
    using assms tr_outside [OF o, of r] cx_outside [OF o, of c] segeq_szf [OF s] by (cases "vof (szf m) r") auto
  show "par = a" "lh_smaller h = p" using assms by auto
qed

lemma point_bigger:
  assumes "cx m rt (FB l a # c) p par v" "m a = Some h" "a \<notin> set_tree l" "a \<notin> cset c"
  shows "cx (m(a \<mapsto> h\<lparr>lh_bigger := q\<rparr>)) rt (FB l a # c) q par v" "par = a" "lh_bigger h = p"
proof -
  let ?m = "m(a \<mapsto> h\<lparr>lh_bigger := q\<rparr>)"
  have o: "outside {a} m ?m" by (simp add: outside_upd)
  show "cx ?m rt (FB l a # c) q par v"
    using assms tr_outside [OF o, of l] cx_outside [OF o, of c] by (cases v) auto
  show "par = a" "lh_bigger h = p" using assms by auto
qed

text \<open>Hanging another subtree into the bigger side of a node.\<close>

definition hang_bigger :: "nat \<Rightarrow> nat \<Rightarrow> links \<Rightarrow> links option" where
  "hang_bigger a q m = do {
     h \<leftarrow> m a;
     m \<leftarrow> wr (\<lambda>h. h\<lparr>lh_bigger := q\<rparr>) a m;
     (if q \<noteq> 0 then fph_remax q m
      else do {
        m \<leftarrow> wr (\<lambda>x. x\<lparr>lh_max := lh_size h\<rparr>) a m;
        fph_remax a m
      })
   }"

lemma hang_bigger_run:
  assumes "cx m rt (FB l a # c) p par v" "tr m par q t" "distinct (inorder (plug (FB l a # c) t))"
  shows "\<exists>m'. hang_bigger a q m = Some m' \<and> cx m' rt (FB l a # c) q par (vof (szf m) t) \<and>
    outside (cset (FB l a # c)) m m' \<and> segeq m m'"
proof -
  have ds: "distinct (inorder (plug c (Node l a t)))" using assms(3) by simp
  then have dj: "cset c \<inter> set_tree (Node l a t) = {}" "distinct (inorder (Node l a t))" by (simp_all only: distinct_plug)
  then have na: "a \<notin> set_tree l" "a \<notin> set_tree t" "a \<notin> cset c" and lc: "set_tree l \<inter> cset c = {}" by auto
  from assms(1) obtain ha where ha: "m a = Some ha" "par = a" "a \<noteq> 0" "tr m a (lh_smaller ha) l"
    "cx m rt c a (lh_parent ha) (Some (lh_max ha))" "lh_max ha = (case v of None \<Rightarrow> lh_size ha | Some x \<Rightarrow> x)"
    by (auto split: option.splits)
  let ?h1 = "ha\<lparr>lh_bigger := q\<rparr>" and ?h2 = "ha\<lparr>lh_bigger := q, lh_max := lh_size ha\<rparr>"
  have o: "outside {a} m (m(a \<mapsto> x))" for x by (simp add: outside_upd)
  show ?thesis
  proof (cases "t = Leaf")
    case False
    then have q: "q \<noteq> 0" using tr_ptr [OF assms(2)] by simp
    have s1: "segeq m (m(a \<mapsto> ?h1))" using ha(1) by (simp add: segeq_upd segp_def)
    have "cx (m(a \<mapsto> ?h1)) rt (FB l a # c) q par v" using point_bigger(1) [OF assms(1) ha(1) na(1,3)] .
    moreover have "tr (m(a \<mapsto> ?h1)) par q t" using assms(2) tr_outside [OF o, of t] na by simp
    ultimately obtain m' where m': "fph_remax q (m(a \<mapsto> ?h1)) = Some m'"
      "cx m' rt (FB l a # c) q par (vof (szf (m(a \<mapsto> ?h1))) t)" "outside (cset (FB l a # c)) (m(a \<mapsto> ?h1)) m'" "segeq (m(a \<mapsto> ?h1)) m'"
      using remax_run [OF _ _ False assms(3)] by blast
    have "outside (cset (FB l a # c)) m m'" using outside_trans [OF outside_mono [OF o] m'(3)] by auto
    with m' ha(1) q segeq_szf [OF s1] segeq_trans [OF s1 m'(4)] show ?thesis by (simp add: hang_bigger_def wr_def)
  next
    case True
    then have q: "q = 0" using assms(2) by simp
    have s1: "segeq m (m(a \<mapsto> ?h2))" using ha(1) by (simp add: segeq_upd segp_def)
    have "cx (m(a \<mapsto> ?h2)) rt c a (lh_parent ha) (Some (lh_max ha))"
      using ha(5) cx_outside [OF o, of c] na by simp
    moreover have "tr (m(a \<mapsto> ?h2)) (lh_parent ha) a (Node l a Leaf)"
      using ha(3,4) q tr_outside [OF o, of l] na by (simp add: szf_def)
    ultimately obtain m' where m': "fph_remax a (m(a \<mapsto> ?h2)) = Some m'"
      "cx m' rt c a (lh_parent ha) (vof (szf (m(a \<mapsto> ?h2))) (Node l a Leaf))" "outside (cset c) (m(a \<mapsto> ?h2)) m'" "segeq (m(a \<mapsto> ?h2)) m'"
      using remax_run [of "m(a \<mapsto> ?h2)" rt c a _ _ "Node l a Leaf"] ds True by blast
    have "m' a = Some ?h2" using m'(3) na by (simp add: outside_def)
    moreover have "tr m' a (lh_smaller ha) l"
      using tr_outside [OF m'(3) lc] tr_outside [OF o, of l] ha(4) na by simp
    moreover have "vof (szf (m(a \<mapsto> ?h2))) (Node l a Leaf) = Some (lh_size ha)" by (simp add: szf_def)
    ultimately have "cx m' rt (FB l a # c) 0 par None" using m'(2) ha q by simp
    moreover have "outside (cset (FB l a # c)) m m'"
      using o [of ?h2] m'(3) by (auto simp: outside_def)
    moreover have "hang_bigger a 0 m = Some m'" using ha(1) m'(1) q by (simp add: hang_bigger_def wr_def)
    ultimately show ?thesis using True q segeq_trans [OF s1 m'(4)] by auto
  qed
qed

subsection \<open>Replacing a subtree\<close>

lemma set_parent:
  assumes "tr m par p t" "t \<noteq> Leaf" "distinct (inorder t)"
  shows "\<exists>m'. wr (\<lambda>h. h\<lparr>lh_parent := par'\<rparr>) p m = Some m' \<and> tr m' par' p t \<and> outside {p} m m' \<and> segeq m m'"
proof -
  from assms obtain l r h where t: "t = Node l p r" "m p = Some h" "p \<noteq> 0" by (cases t) (auto split: option.splits)
  let ?m = "m(p \<mapsto> h\<lparr>lh_parent := par'\<rparr>)"
  have o: "outside {p} m ?m" and s: "segeq m ?m" using t by (simp_all add: outside_upd segeq_upd segp_def)
  have "p \<notin> set_tree l" "p \<notin> set_tree r" using assms(3) t by auto
  then have "tr ?m p x l \<longleftrightarrow> tr m p x l" "tr ?m p x r \<longleftrightarrow> tr m p x r" for x
    using tr_outside [OF o] by simp_all
  then have "tr ?m par' p t" using assms(1) t segeq_szf [OF s] by simp
  with o s t show ?thesis by (auto simp: wr_def)
qed

text \<open>Giving a possibly empty subtree another parent.\<close>

lemma adopt:
  assumes "tr m par p t" "distinct (inorder t)"
  shows "\<exists>m'. (if p \<noteq> 0 then wr (\<lambda>h. h\<lparr>lh_parent := par'\<rparr>) p m else Some m) = Some m' \<and> tr m' par' p t \<and>
    outside (set_tree t) m m' \<and> segeq m m'"
proof (cases "t = Leaf")
  case False
  with set_parent [OF assms(1) False assms(2), of par'] tr_ptr [OF assms(1)] show ?thesis by (auto intro: outside_mono)
qed (use assms in simp)

text \<open>The parent of a hole finds out on which side it is.\<close>

lemma relink_run:
  assumes c: "cx m rt c old par v" and ne: "c \<noteq> []" and t: "tr m par0 new t"
    and ds: "distinct (inorder (plug c t))"
    and old: "old \<noteq> 0" "old \<notin> cset c" "old \<notin> set_tree t" "m old = Some ho"
  shows "\<exists>m'. fph_relink par old new m = Some m' \<and> cx m' rt c new par (vof (szf m) t) \<and> tr m' par new t
    \<and> outside (cset c \<union> set_tree t \<union> {old}) m m' \<and> segeq m m'"
proof -
  have dj: "cset c \<inter> set_tree t = {}" "distinct (inorder t)" using ds by (simp_all only: distinct_plug)
  from adopt [OF t dj(2), of par] obtain m1 where m1: "(if new \<noteq> 0 then wr (\<lambda>h. h\<lparr>lh_parent := par\<rparr>) new m else Some m) = Some m1" "tr m1 par new t"
    "outside (set_tree t) m m1" "segeq m m1" by blast
  have c1: "cx m1 rt c old par v" using c cx_outside [OF m1(3) dj(1)] by simp
  obtain lhp where p: "m1 par = Some lhp" using ne c1 by (cases c rule: cset.cases) (auto split: option.splits)
  have "\<exists>m2. (if old = lh_smaller lhp then wr (\<lambda>h. h\<lparr>lh_smaller := new\<rparr>) par m1 else hang_bigger par new m1) = Some m2
      \<and> cx m2 rt c new par (vof (szf m1) t) \<and> outside (cset c) m1 m2 \<and> segeq m1 m2"
    using ne
  proof (cases c rule: cset.cases)
    case (2 a r d)
    have pa: "par = a" using c1 2 by simp
    have na: "a \<notin> set_tree r" "a \<notin> cset d" using ds 2 by (auto simp: inorder_tplug cset_lo_hi simp flip: set_inorder)
    note pt1 = point_smaller(1) [OF c1 [unfolded 2] p [unfolded pa] na, of new] and pt3 = point_smaller(3) [OF c1 [unfolded 2] p [unfolded pa] na]
    have "outside (cset c) m1 (m1(a \<mapsto> lhp\<lparr>lh_smaller := new\<rparr>))" "segeq m1 (m1(a \<mapsto> lhp\<lparr>lh_smaller := new\<rparr>))"
      using 2 p pa by (simp_all add: outside_upd segeq_upd segp_def)
    then show ?thesis using pt1 pt3 p pa 2 by (simp add: wr_def del: cx.simps)
  next
    case (3 l a d)
    have pa: "par = a" using c1 3 p by auto
    have "tr m1 a (lh_smaller lhp) l" using c1 3 p pa by simp
    then have "lh_smaller lhp \<noteq> old" using tr_ptr [of m1 a "lh_smaller lhp" l] old(1,2) 3 by auto
    then show ?thesis using hang_bigger_run [of m1 rt l a d old par v new t] c1 m1(2) ds 3 pa by auto
  qed auto
  then obtain m2 where m2: "(if old = lh_smaller lhp then wr (\<lambda>h. h\<lparr>lh_smaller := new\<rparr>) par m1 else hang_bigger par new m1) = Some m2"
    "cx m2 rt c new par (vof (szf m1) t)" "outside (cset c) m1 m2" "segeq m1 m2" by blast
  have ho: "m2 old = Some ho" using old m1(3) m2(3) by (simp add: outside_def)
  let ?m3 = "m2(old \<mapsto> ho\<lparr>lh_smaller := 0, lh_bigger := 0, lh_parent := 0, lh_max := lh_size ho\<rparr>)"
  have "fph_relink par old new m = Some ?m3"
    using m1(1) m2(1) p ho by (auto simp: fph_relink_def hang_bigger_def wr_def split: if_splits Option.bind_splits)
  moreover have o: "outside {old} m2 ?m3" and s: "segeq m2 ?m3" using ho by (simp_all add: outside_upd segeq_upd segp_def)
  moreover have "cx ?m3 rt c new par (vof (szf m) t)"
    using m2(2) cx_outside [OF o] old(2) segeq_szf [OF m1(4)] by simp
  moreover have "tr ?m3 par new t"
    using m1(2) tr_outside [OF m2(3), of t] tr_outside [OF o, of t] dj old(3) by (simp add: Int_commute)
  moreover have "outside (cset c \<union> set_tree t \<union> {old}) m ?m3"
    using m1(3) m2(3) o by (auto simp: outside_def)
  ultimately show ?thesis using segeq_trans [OF segeq_trans [OF m1(4) m2(4)] s] by blast
qed

lemma remove_single_run:
  assumes t: "trt m rt (plug c (Node l e r))" and ne: "c \<noteq> []" and one: "l = Leaf \<or> r = Leaf"
  defines "u \<equiv> (if r = Leaf then l else r)"
  shows "\<exists>m'. fph_remove_single e m = Some m' \<and> trt m' rt (plug c u) \<and> outside (set_tree (plug c u)) m m' \<and> segeq m m'"
proof -
  have ds: "distinct (inorder (plug c (Node l e r)))" using t by (simp add: trt_def)
  then have dsu: "distinct (inorder (plug c u))" using one by (auto simp: u_def inorder_tplug)
  have dj: "cset c \<inter> set_tree u = {}" "distinct (inorder u)" using dsu by (simp_all only: distinct_plug)
  have ec: "e \<notin> cset c" using ds by (simp add: distinct_plug)
  from t obtain p par where "cx m rt c p par (vof (szf m) (Node l e r))" "tr m par p (Node l e r)"
    unfolding trt_def tr_plug by blast
  then obtain he where cm: "cx m rt c e par (vof (szf m) (Node l e r))"
    and he: "m e = Some he" "lh_parent he = par" "e \<noteq> 0" "tr m e (lh_smaller he) l" "tr m e (lh_bigger he) r"
    by (auto split: option.splits simp del: cx.simps mxs.simps)
  define q where "q = (if r = Leaf then lh_smaller he else lh_bigger he)"
  have tu: "tr m e q u" using he by (simp add: q_def u_def)
  have q: "q = 0 \<longleftrightarrow> u = Leaf" "u \<noteq> Leaf \<longrightarrow> q \<in> set_tree u" using tr_ptr [OF tu] by auto
  obtain hp where hp: "m par = Some hp" "par \<in> cset c" using ne cm by (cases c rule: cset.cases) (auto split: option.splits)
  from adopt [OF tu dj(2), of par] obtain m1 where m1: "(if q \<noteq> 0 then wr (\<lambda>h. h\<lparr>lh_parent := par\<rparr>) q m else Some m) = Some m1" "tr m1 par q u"
    "outside (set_tree u) m m1" "segeq m m1" by blast
  have hp1: "m1 par = Some hp" using hp m1(3) dj(1) by (auto simp: outside_def)
  have c1: "cx m1 rt c e par (vof (szf m) (Node l e r))" using cm cx_outside [OF m1(3) dj(1)] by simp
  have comm: "(wr f par m \<bind> wr (\<lambda>h. h\<lparr>lh_parent := par\<rparr>) q) = Some (m1(par \<mapsto> f hp))" if "q \<noteq> 0" for f
  proof -
    have "q \<noteq> par" using hp(2) q dj(1) that by auto
    then show ?thesis using m1(1) hp(1) that by (auto simp: wr_def fun_upd_twist split: option.splits)
  qed
  have fin: "trt m2 rt (plug c u) \<and> outside (set_tree (plug c u)) m m2 \<and> segeq m m2"
    if "cx m2 rt c q par (vof (szf m1) u)" "outside (cset c) m1 m2" "segeq m1 m2" for m2
  proof -
    have "tr m2 par q u" using m1(2) tr_outside [OF that(2)] dj(1) by (simp add: Int_commute)
    moreover have "szf m2 = szf m1" using segeq_szf [OF that(3)] .
    ultimately have "tr m2 0 rt (plug c u)" using that(1) unfolding tr_plug by auto
    moreover have "outside (set_tree (plug c u)) m m2" using m1(3) that(2) by (auto simp: set_plug outside_def)
    ultimately show ?thesis using dsu segeq_trans [OF m1(4) that(3)] by (simp add: trt_def)
  qed
  show ?thesis
    using ne
  proof (cases c rule: cset.cases)
    case (2 a s d)
    have pa: "par = a" using c1 2 by simp
    have na: "a \<notin> set_tree s" "a \<notin> cset d" using dsu 2 by (auto simp: inorder_tplug cset_lo_hi simp flip: set_inorder)
    let ?m2 = "m1(a \<mapsto> hp\<lparr>lh_smaller := q\<rparr>)"
    note pt1 = point_smaller(1) [OF c1 [unfolded 2] hp1 [unfolded pa] na, of q] and pt3 = point_smaller(3) [OF c1 [unfolded 2] hp1 [unfolded pa] na]
    have "tr m1 a (lh_bigger hp) s" using c1 2 hp1 pa by simp
    then have nb: "lh_bigger hp \<noteq> e" using tr_ptr [of m1 a "lh_bigger hp" s] ec he(3) 2 by auto
    note cm2 = comm [of "\<lambda>h. h\<lparr>lh_smaller := q\<rparr>"]
    consider "r \<noteq> Leaf" | "r = Leaf" "l \<noteq> Leaf" | "r = Leaf" "l = Leaf" by blast
    then have "fph_remove_single e m = Some ?m2"
    proof cases
      case 1
      with tr_ptr [OF he(5)] have "q \<noteq> 0" "q = lh_bigger he" by (auto simp: q_def)
      with nb he(1,2) hp(1) cm2 show ?thesis by (simp add: fph_remove_single_def pa)
    next
      case 2
      with tr_ptr [OF he(5)] tr_ptr [OF he(4)] have "q \<noteq> 0" "q = lh_smaller he" "lh_bigger he = 0" by (auto simp: q_def)
      with nb he(1,2) hp(1) cm2 show ?thesis by (simp add: fph_remove_single_def pa)
    next
      case 3
      with tr_ptr [OF he(5)] tr_ptr [OF he(4)] have "q = 0" "lh_smaller he = 0" "lh_bigger he = 0" by (auto simp: q_def)
      with nb he(1,2) hp(1) m1(1) show ?thesis by (simp add: fph_remove_single_def pa wr_def)
    qed
    moreover have "outside (cset c) m1 ?m2" "segeq m1 ?m2" using 2 hp1 pa by (simp_all add: outside_upd segeq_upd segp_def)
    ultimately show ?thesis using fin [of ?m2] pt1 2 by auto
  next
    case (3 s a d)
    have pa: "par = a" using c1 3 by simp
    have na: "a \<notin> set_tree s" "a \<notin> cset d" using dsu 3 by (auto simp: inorder_tplug cset_lo_hi simp flip: set_inorder)
    note pt1 = point_bigger(1) [OF c1 [unfolded 3] hp1 [unfolded pa] na, of q] and pt3 = point_bigger(3) [OF c1 [unfolded 3] hp1 [unfolded pa] na]
    show ?thesis
    proof (cases "r = Leaf")
      case False
      let ?m2 = "m1(a \<mapsto> hp\<lparr>lh_bigger := q\<rparr>)"
      have "fph_remove_single e m = Some ?m2"
        using pt3 he hp(1) comm [of "\<lambda>h. h\<lparr>lh_bigger := q\<rparr>"] q False tr_ptr [OF he(5)]
        by (auto simp: fph_remove_single_def q_def u_def pa)
      moreover have "outside (cset c) m1 ?m2" "segeq m1 ?m2" using 3 hp1 pa by (simp_all add: outside_upd segeq_upd segp_def)
      moreover have "vof (szf m) (Node l e r) = vof (szf m1) u" using False segeq_szf [OF m1(4)] by (simp add: vof_def u_def)
      ultimately show ?thesis using fin [of ?m2] pt1 3 by auto
    next
      case True
      from hang_bigger_run [OF c1 [unfolded 3] m1(2) dsu [unfolded 3]] obtain m2 where
        m2: "hang_bigger a q m1 = Some m2" "cx m2 rt c q par (vof (szf m1) u)" "outside (cset c) m1 m2" "segeq m1 m2"
        using 3 by blast
      have "fph_remove_single e m = Some m2"
      proof (cases "q = 0")
        case True
        with \<open>r = Leaf\<close> show ?thesis using pt3 he hp(1) m2(1) m1(1) tr_ptr [OF he(5)]
          by (simp add: fph_remove_single_def q_def pa hang_bigger_def fph_read_size_def wr_def)
      next
        case False
        with \<open>r = Leaf\<close> show ?thesis
          using pt3 he hp(1) hp1 m2(1) comm [of "\<lambda>h. h\<lparr>lh_bigger := q\<rparr>"] tr_ptr [OF he(5)]
          by (auto simp: fph_remove_single_def q_def pa hang_bigger_def wr_def split: Option.bind_splits option.splits if_splits)
      qed
      then show ?thesis using fin [OF m2(2-4)] by blast
    qed
  qed auto
qed

subsection \<open>Removal\<close>

lemma last_bigger_run:
  assumes "tr m par p t" "t \<noteq> Leaf"
  shows "\<exists>d l w. t = plug d (Node l w Leaf) \<and> hi d = [] \<and> last_bigger p m = Some w"
  using assms
proof (induction t arbitrary: par p)
  case (Node l a r)
  then obtain h where h: "m a = Some h" "p = a" "tr m a (lh_bigger h) r" by (auto split: option.splits)
  show ?case
  proof (cases "r = Leaf")
    case True
    then have "last_bigger p m = Some a" using h by (subst last_bigger.simps) simp
    moreover have "Node l a r = plug [] (Node l a Leaf)" using True by simp
    ultimately show ?thesis by (metis hi.simps(1))
  next
    case False
    from Node.IH(2) [OF h(3) this] obtain d x w where
      d: "r = plug d (Node x w Leaf)" "hi d = []" "last_bigger (lh_bigger h) m = Some w" by blast
    have "last_bigger p m = Some w" using h d(3) tr_ptr [OF h(3)] False by (subst last_bigger.simps) simp
    moreover have "Node l a r = plug (d @ [FB l a]) (Node x w Leaf)" using d(1) by (simp add: plug_append)
    moreover have "hi (d @ [FB l a]) = []" using d(2) by (induction d rule: hi.induct) auto
    ultimately show ?thesis by blast
  qed
qed simp

lemma last_smaller_run:
  assumes "tr m par p t" "t \<noteq> Leaf"
  shows "\<exists>d r w. t = plug d (Node Leaf w r) \<and> lo d = [] \<and> last_smaller p m = Some w"
  using assms
proof (induction t arbitrary: par p)
  case (Node l a r)
  then obtain h where h: "m a = Some h" "p = a" "tr m a (lh_smaller h) l" by (auto split: option.splits)
  show ?case
  proof (cases "l = Leaf")
    case True
    then have "last_smaller p m = Some a" using h by (subst last_smaller.simps) simp
    moreover have "Node l a r = plug [] (Node Leaf a r)" using True by simp
    ultimately show ?thesis by (metis lo.simps(1))
  next
    case False
    from Node.IH(1) [OF h(3) this] obtain d x w where
      d: "l = plug d (Node Leaf w x)" "lo d = []" "last_smaller (lh_smaller h) m = Some w" by blast
    have "last_smaller p m = Some w" using h d(3) tr_ptr [OF h(3)] False by (subst last_smaller.simps) simp
    moreover have "Node l a r = plug (d @ [FS a r]) (Node Leaf w x)" using d(1) by (simp add: plug_append)
    moreover have "lo (d @ [FS a r]) = []" using d(2) by (induction d rule: lo.induct) auto
    ultimately show ?thesis by blast
  qed
qed simp

lemma node_header:
  assumes "trt m rt (plug c (Node l e r))"
  shows "\<exists>h par. m e = Some h \<and> lh_parent h = par \<and> e \<noteq> 0 \<and> tr m e (lh_smaller h) l \<and> tr m e (lh_bigger h) r \<and>
    lh_max h = mxs (szf m) (Node l e r) \<and> cx m rt c e par (vof (szf m) (Node l e r))"
  using assms unfolding trt_def tr_plug by (auto split: option.splits simp del: cx.simps mxs.simps vof_Node)

lemma pre_run:
  assumes "trt m rt (plug c (Node l e r))" "l \<noteq> Leaf"
  shows "\<exists>w m' l'. fph_pre e m = Some (w, m') \<and> trt m' rt (plug c (Node l' e r)) \<and> inorder l = inorder l' @ [w] \<and>
    outside (set_tree (plug c (Node l e r)) - {w}) m m' \<and> segeq m m'"
proof -
  from node_header [OF assms(1)] obtain h where h: "m e = Some h" "tr m e (lh_smaller h) l" by blast
  from last_bigger_run [OF h(2) assms(2)] obtain d x w where
    d: "l = plug d (Node x w Leaf)" "hi d = []" "last_bigger (lh_smaller h) m = Some w" by blast
  have eq: "plug c (Node l e r) = plug (d @ FS e r # c) (Node x w Leaf)" using d(1) by (simp add: plug_append)
  from remove_single_run [OF assms(1) [unfolded eq]] obtain m' where
    m': "fph_remove_single w m = Some m'" "trt m' rt (plug (d @ FS e r # c) x)"
    "outside (set_tree (plug (d @ FS e r # c) x)) m m'" "segeq m m'" by auto
  have "w \<notin> set_tree (plug (d @ FS e r # c) x)" "set_tree (plug (d @ FS e r # c) x) \<subseteq> set_tree (plug c (Node l e r))"
    using assms(1) unfolding eq trt_def by (auto simp: distinct_plug set_plug)
  then have "outside (set_tree (plug c (Node l e r)) - {w}) m m'" using m'(3) by (auto intro: outside_mono)
  moreover have "inorder l = inorder (plug d x) @ [w]" using d by (simp add: inorder_tplug)
  ultimately show ?thesis using m' h(1) d(3) by (auto simp: fph_pre_def plug_append)
qed

lemma post_run:
  assumes "trt m rt (plug c (Node l e r))" "r \<noteq> Leaf"
  shows "\<exists>w m' r'. fph_post e m = Some (w, m') \<and> trt m' rt (plug c (Node l e r')) \<and> inorder r = w # inorder r' \<and>
    outside (set_tree (plug c (Node l e r)) - {w}) m m' \<and> segeq m m'"
proof -
  from node_header [OF assms(1)] obtain h where h: "m e = Some h" "tr m e (lh_bigger h) r" by blast
  from last_smaller_run [OF h(2) assms(2)] obtain d x w where
    d: "r = plug d (Node Leaf w x)" "lo d = []" "last_smaller (lh_bigger h) m = Some w" by blast
  have eq: "plug c (Node l e r) = plug (d @ FB l e # c) (Node Leaf w x)" using d(1) by (simp add: plug_append)
  from remove_single_run [OF assms(1) [unfolded eq]] obtain m' where
    m': "fph_remove_single w m = Some m'" "trt m' rt (plug (d @ FB l e # c) x)"
    "outside (set_tree (plug (d @ FB l e # c) x)) m m'" "segeq m m'" by (cases "x = Leaf") auto
  have "w \<notin> set_tree (plug (d @ FB l e # c) x)" "set_tree (plug (d @ FB l e # c) x) \<subseteq> set_tree (plug c (Node l e r))"
    using assms(1) unfolding eq trt_def by (auto simp: distinct_plug set_plug)
  then have "outside (set_tree (plug c (Node l e r)) - {w}) m m'" using m'(3) by (auto intro: outside_mono)
  moreover have "inorder r = w # inorder (plug d x)" using d by (simp add: inorder_tplug)
  ultimately show ?thesis using m' h(1) d(3) by (auto simp: fph_post_def plug_append)
qed

lemma replace_run:
  assumes t: "trt m rt (plug c (Node l e r))" and ne: "c \<noteq> []"
    and w: "w \<notin> set_tree (plug c (Node l e r))" "w \<noteq> 0" "m w = Some hw"
  shows "\<exists>m'. fph_replace e w m = Some m' \<and> trt m' rt (plug c (Node l w r)) \<and>
    outside (insert w (set_tree (plug c (Node l e r)))) m m' \<and> segeq m m'"
proof -
  from node_header [OF t] obtain h par where h: "m e = Some h" "lh_parent h = par" "e \<noteq> 0" "tr m e (lh_smaller h) l"
    "tr m e (lh_bigger h) r" "cx m rt c e par (vof (szf m) (Node l e r))" by blast
  have ds: "distinct (inorder (plug c (Node l e r)))" using t by (simp add: trt_def)
  then have dj: "cset c \<inter> set_tree (Node l e r) = {}" "distinct (inorder (Node l e r))" by (simp_all only: distinct_plug)
  have wn: "w \<notin> cset c" "w \<notin> set_tree l" "w \<notin> set_tree r" "w \<noteq> e" using w(1) by (auto simp: set_plug)
  let ?mx = "mxs (szf m) (Node l w r)"
  have mx: "(if lh_bigger h \<noteq> 0 then fph_read_max (lh_bigger h) m else Some (lh_size hw)) = Some ?mx"
  proof (cases r)
    case Leaf
    with h(5) w(3) show ?thesis by (simp add: szf_def)
  next
    case (Node x b y)
    with h(5) show ?thesis by (auto simp: fph_read_max_def split: option.splits)
  qed
  from adopt [OF h(5), of w] dj(2) obtain m1 where
    m1: "(if lh_bigger h \<noteq> 0 then wr (\<lambda>h. h\<lparr>lh_parent := w\<rparr>) (lh_bigger h) m else Some m) = Some m1"
    "tr m1 w (lh_bigger h) r" "outside (set_tree r) m m1" "segeq m m1" by auto
  have "tr m1 e (lh_smaller h) l" using h(4) tr_outside [OF m1(3), of l] dj(2) by auto
  from adopt [OF this, of w] dj(2) obtain m2 where
    m2: "(if lh_smaller h \<noteq> 0 then wr (\<lambda>h. h\<lparr>lh_parent := w\<rparr>) (lh_smaller h) m1 else Some m1) = Some m2"
    "tr m2 w (lh_smaller h) l" "outside (set_tree l) m1 m2" "segeq m1 m2" by auto
  let ?lh = "hw\<lparr>lh_max := ?mx, lh_parent := 0, lh_smaller := lh_smaller h, lh_bigger := lh_bigger h\<rparr>"
  let ?m3 = "m2(w \<mapsto> ?lh)"
  have hw: "m2 w = Some hw" using w(3) m1(3) m2(3) wn by (simp add: outside_def)
  have o3: "outside {w} m2 ?m3" and s3: "segeq m2 ?m3" using hw by (simp_all add: outside_upd segeq_upd segp_def)
  have s: "segeq m ?m3" using segeq_trans [OF segeq_trans [OF m1(4) m2(4)] s3] .
  have o: "outside (insert w (set_tree l \<union> set_tree r)) m ?m3" using m1(3) m2(3) o3 by (auto simp: outside_def)
  have "tr m2 w (lh_bigger h) r" using m1(2) tr_outside [OF m2(3), of r] dj(2) by (auto simp: Int_commute)
  then have tw: "tr ?m3 0 w (Node l w r)"
    using m2(2) tr_outside [OF o3, of l] tr_outside [OF o3, of r] wn w(2) segeq_szf [OF s] by simp
  have cw: "cx ?m3 rt c e par (vof (szf m) (Node l e r))"
    using h(6) cx_outside [OF o, of c] wn dj(1) by (auto simp: Int_commute)
  have he: "?m3 e = Some h" using h(1) o wn dj(2) by (auto simp: outside_def)
  have dw: "distinct (inorder (plug c (Node l w r)))" using ds wn by (auto simp: distinct_plug)
  have "e \<notin> cset c" "e \<notin> set_tree (Node l w r)" using dj wn by auto
  from relink_run [OF cw ne tw dw h(3) this he] obtain m' where
    m': "fph_relink par e w ?m3 = Some m'" "cx m' rt c w par (vof (szf ?m3) (Node l w r))" "tr m' par w (Node l w r)"
    "outside (cset c \<union> set_tree (Node l w r) \<union> {e}) ?m3 m'" "segeq ?m3 m'" by blast
  have "trt m' rt (plug c (Node l w r))"
    using m'(2,3) dw segeq_szf [OF m'(5)] unfolding trt_def tr_plug by metis
  moreover have "outside (insert w (set_tree (plug c (Node l e r)))) m m'"
    using outside_trans [OF outside_mono [OF o] outside_mono [OF m'(4)], of "insert w (set_tree (plug c (Node l e r)))"]
    by (auto simp: set_plug)
  moreover have "fph_replace e w m = Some m'"
    using h(1,2) w(3) mx m1(1) m2(1) m'(1) hw by (simp add: fph_replace_def wr_Some)
  ultimately show ?thesis using segeq_trans [OF s m'(5)] by blast
qed

lemma remove1_plug: "distinct (inorder (plug c (Node l e r))) \<Longrightarrow>
    remove1 e (inorder (plug c (Node l e r))) = lo c @ inorder l @ inorder r @ hi c"
  by (auto simp: inorder_tplug remove1_append)

text \<open>A node with at most one child is replaced by that child.\<close>

lemma relink_child:
  assumes t: "trt m rt (plug c (Node l e r))" and ne: "c \<noteq> []" and one: "l = Leaf \<or> r = Leaf"
    and h: "m e = Some h" and q: "q = (if l = Leaf then lh_bigger h else lh_smaller h)"
  defines "u \<equiv> (if l = Leaf then r else l)"
  shows "\<exists>m'. fph_relink (lh_parent h) e q m = Some m' \<and> trt m' rt (plug c u) \<and>
    outside (set_tree (plug c (Node l e r))) m m' \<and> segeq m m'"
proof -
  from node_header [OF t] h have n: "e \<noteq> 0" "tr m e (lh_smaller h) l" "tr m e (lh_bigger h) r"
    "cx m rt c e (lh_parent h) (vof (szf m) (Node l e r))" by auto
  have ds: "distinct (inorder (plug c (Node l e r)))" using t by (simp add: trt_def)
  then have du: "distinct (inorder (plug c u))" and eu: "e \<notin> cset c" "e \<notin> set_tree u" using one by (auto simp: u_def distinct_plug)
  have "tr m e q u" using n q by (simp add: u_def)
  from relink_run [OF n(4) ne this du n(1) eu h] obtain m' where
    m': "fph_relink (lh_parent h) e q m = Some m'" "cx m' rt c q (lh_parent h) (vof (szf m) u)" "tr m' (lh_parent h) q u"
    "outside (cset c \<union> set_tree u \<union> {e}) m m'" "segeq m m'" by blast
  have "trt m' rt (plug c u)" using m'(2,3) du segeq_szf [OF m'(5)] unfolding trt_def tr_plug by metis
  moreover have "outside (set_tree (plug c (Node l e r))) m m'"
    using m'(4) by (rule outside_mono) (auto simp: set_plug u_def)
  ultimately show ?thesis using m' by blast
qed

lemma remove_run:
  assumes t: "trt m rt t" and e: "e \<in> set_tree t" "e \<noteq> rt"
  shows "\<exists>m' s' t'. fph_remove rand_r e seed m = Some (m', s') \<and> trt m' rt t' \<and> inorder t' = remove1 e (inorder t) \<and>
    outside (set_tree t) m m' \<and> segeq m m'"
proof -
  from find_context [OF e(1)] obtain c l r where eq: "t = plug c (Node l e r)" by blast
  with t e(2) have ne: "c \<noteq> []" by (auto simp: trt_def)
  note tt = t [unfolded eq]
  have ds: "distinct (inorder (plug c (Node l e r)))" using tt by (simp add: trt_def)
  from node_header [OF tt] obtain h where h: "m e = Some h" "tr m e (lh_smaller h) l" "tr m e (lh_bigger h) r" by blast
  have z: "lh_smaller h = 0 \<longleftrightarrow> l = Leaf" "lh_bigger h = 0 \<longleftrightarrow> r = Leaf" using tr_ptr [OF h(2)] tr_ptr [OF h(3)] by auto
  show ?thesis
  proof (cases "l = Leaf \<or> r = Leaf")
    case True
    from relink_child [OF tt ne True h(1) refl] obtain m' where
      m': "fph_relink (lh_parent h) e (if l = Leaf then lh_bigger h else lh_smaller h) m = Some m'"
      "trt m' rt (plug c (if l = Leaf then r else l))" "outside (set_tree (plug c (Node l e r))) m m'" "segeq m m'" by blast
    have "fph_remove rand_r e seed m = Some (m', seed)" using m'(1) h(1) z True by (auto simp: fph_remove_def split: if_splits)
    moreover have "inorder (plug c (if l = Leaf then r else l)) = remove1 e (inorder t)"
      using remove1_plug [OF ds] True eq by (auto simp: inorder_tplug)
    ultimately show ?thesis using m'(2-4) eq by blast
  next
    case False
    obtain d s' where rs: "rand_r seed = (d, s')" by fastforce
    have "\<exists>w m1 l' r'. (if d > RAND_MAX div 2 then fph_post e m else fph_pre e m) = Some (w, m1) \<and>
      trt m1 rt (plug c (Node l' e r')) \<and> inorder l @ inorder r = inorder l' @ w # inorder r' \<and>
      outside (set_tree (plug c (Node l e r)) - {w}) m m1 \<and> segeq m m1"
    proof (cases "d > RAND_MAX div 2")
      case True
      with post_run [OF tt] False show ?thesis by fastforce
    next
      case d: False
      from pre_run [OF tt] False obtain w m' l' where p: "fph_pre e m = Some (w, m')" "trt m' rt (plug c (Node l' e r))" "inorder l = inorder l' @ [w]"
        "outside (set_tree (plug c (Node l e r)) - {w}) m m'" "segeq m m'" by blast
      then have "inorder l @ inorder r = inorder l' @ w # inorder r" by simp
      with p d show ?thesis by auto
    qed
    then obtain w m1 l' r' where w: "(if d > RAND_MAX div 2 then fph_post e m else fph_pre e m) = Some (w, m1)"
      "trt m1 rt (plug c (Node l' e r'))" "inorder l @ inorder r = inorder l' @ w # inorder r'"
      "outside (set_tree (plug c (Node l e r)) - {w}) m m1" "segeq m m1" by blast
    have wl: "w \<in> set_tree l \<union> set_tree r" "set_tree l' \<union> set_tree r' \<subseteq> set_tree l \<union> set_tree r"
      using arg_cong [OF w(3), of set] by auto
    have "distinct (inorder l @ inorder r)" using ds by (simp add: distinct_plug)
    then have "w \<notin> set_tree l' \<union> set_tree r'" by (auto simp: w(3))
    then have wn: "w \<notin> set_tree (plug c (Node l' e r'))" using wl ds by (auto simp: set_plug distinct_plug)
    have "w \<in> set_tree t" using wl(1) eq by (auto simp: set_plug)
    then obtain hw where hw: "m w = Some hw" "w \<noteq> 0" using t tr_dom [of m 0 rt t w] by (auto simp: trt_def)
    then have "m1 w = Some hw" using w(4) by (simp add: outside_def)
    from replace_run [OF w(2) ne wn hw(2) this] obtain m' where
      m': "fph_replace e w m1 = Some m'" "trt m' rt (plug c (Node l' w r'))"
      "outside (insert w (set_tree (plug c (Node l' e r')))) m1 m'" "segeq m1 m'" by blast
    have "fph_remove rand_r e seed m = Some (m', s')" using h(1) z False rs w(1) m'(1) by (simp add: fph_remove_def)
    moreover have "inorder (plug c (Node l' w r')) = remove1 e (inorder t)"
      using remove1_plug [OF ds] eq w(3) by (simp add: inorder_tplug)
    moreover have "set_tree (plug c (Node l e r)) - {w} \<subseteq> set_tree t" "insert w (set_tree (plug c (Node l' e r'))) \<subseteq> set_tree t"
      using wl(2) \<open>w \<in> set_tree t\<close> by (auto simp: eq set_plug)
    then have "outside (set_tree t) m m'" using outside_trans [OF outside_mono [OF w(4)] outside_mono [OF m'(3)]] by blast
    ultimately show ?thesis using m'(2) segeq_trans [OF w(5) m'(4)] by blast
  qed
qed

subsection \<open>Insertion\<close>

fun tins :: "(nat \<Rightarrow> nat) \<Rightarrow> nat \<Rightarrow> nat tree \<Rightarrow> nat tree" where
  "tins s e Leaf = Node Leaf e Leaf"
| "tins s e (Node l a r) = (if s e \<le> s a then Node (tins s e l) a r else Node l a (tins s e r))"

lemma tins_set: "set_tree (tins s e t) = insert e (set_tree t)"
  by (induction t) auto

lemma insort_append:
  assumes "sorted (map s (xs @ a # ys))"
  shows "insort_key s e (xs @ a # ys) = (if s e \<le> s a then insort_key s e xs @ a # ys else xs @ a # insort_key s e ys)"
  using assms by (induction xs) auto

lemma tins_inorder: "sorted (map s (inorder t)) \<Longrightarrow> inorder (tins s e t) = insort_key s e (inorder t)"
proof (induction t)
  case (Node l a r)
  then have "sorted (map s (inorder l))" "sorted (map s (inorder r))" by (simp_all add: sorted_append)
  then show ?case using Node.IH Node.prems by (simp add: insort_append)
qed simp

text \<open>A new leaf below a node that already points to it.\<close>

lemma attach:
  assumes c: "cx m rt c ep par v" and ep: "ep \<noteq> 0" "m ep = Some e0" "segp e = segp e0"
    and e: "lh_smaller e = 0" "lh_bigger e = 0" "lh_max e = lh_size e"
    and ds: "distinct (inorder (plug c (Node Leaf ep Leaf)))"
  shows "\<exists>m'. (wr (\<lambda>_. e\<lparr>lh_parent := par\<rparr>) ep m \<bind> fph_remax ep) = Some m' \<and>
    trt m' rt (plug c (Node Leaf ep Leaf)) \<and> outside (insert ep (cset c)) m m' \<and> segeq m m'"
proof -
  let ?m = "m(ep \<mapsto> e\<lparr>lh_parent := par\<rparr>)"
  have o: "outside {ep} m ?m" by (simp add: outside_upd)
  have s: "segeq m ?m" using ep by (intro segeq_upd) (auto simp: segp_def)
  have nc: "ep \<notin> cset c" using ds by (simp add: distinct_plug)
  have "cx ?m rt c ep par v" using c cx_outside [OF o] nc by simp
  moreover have tr: "tr ?m par ep (Node Leaf ep Leaf)" using ep(1) e by (simp add: szf_def)
  ultimately obtain m' where m': "fph_remax ep ?m = Some m'" "cx m' rt c ep par (vof (szf ?m) (Node Leaf ep Leaf))"
    "outside (cset c) ?m m'" "segeq ?m m'" using remax_run [OF _ _ tree.distinct(2) ds] by blast
  have "set_tree (Node Leaf ep Leaf) \<inter> cset c = {}" using nc by simp
  from tr_outside [OF m'(3) this] tr have "tr m' par ep (Node Leaf ep Leaf)" by blast
  then have "trt m' rt (plug c (Node Leaf ep Leaf))"
    using m'(2) ds segeq_szf [OF m'(4)] unfolding trt_def tr_plug by metis
  moreover have "outside (insert ep (cset c)) m m'" using o m'(3) by (auto simp: outside_def)
  ultimately show ?thesis using m'(1) ep(2) segeq_trans [OF s m'(4)] by (simp add: wr_def)
qed

lemma leaf_hole:
  assumes "tr m 0 rt (plug c Leaf)" "\<And>q par v. cx m rt c q par v \<Longrightarrow> par = a"
  shows "cx m rt c 0 a None"
proof -
  from assms(1) obtain par where "cx m rt c 0 par None" by (simp only: tr_plug vof_Leaf tr.simps) blast
  with assms(2) show ?thesis by blast
qed

lemma insert_loop_run:
  assumes t: "trt m rt (plug c t)" "tr m par ap t" "t \<noteq> Leaf"
    and ep: "ep \<notin> set_tree (plug c t)" "ep \<noteq> 0" "m ep = Some e0" "segp e = segp e0"
    and e: "lh_smaller e = 0" "lh_bigger e = 0" "lh_max e = lh_size e"
  shows "\<exists>m'. fph_insert_loop ap ep e m = Some m' \<and> trt m' rt (plug c (tins (szf m) ep t)) \<and>
    outside (insert ep (set_tree (plug c t))) m m' \<and> segeq m m'"
  using t ep(1)
proof (induction t arbitrary: c ap par)
  case (Node l a r)
  from Node.prems(2) obtain h where h: "m a = Some h" "ap = a" "a \<noteq> 0" "tr m a (lh_smaller h) l" "tr m a (lh_bigger h) r"
    by (auto split: option.splits)
  have z: "lh_smaller h = 0 \<longleftrightarrow> l = Leaf" "lh_bigger h = 0 \<longleftrightarrow> r = Leaf" using tr_ptr [OF h(4)] tr_ptr [OF h(5)] by auto
  have ds: "distinct (inorder (plug c (Node l a r)))" using Node.prems(1) by (simp add: trt_def)
  have na: "a \<notin> set_tree l" "a \<notin> set_tree r" "a \<notin> cset c" using ds by (auto simp: distinct_plug)
  have sz: "szf m ep = lh_size e" "szf m a = lh_size h" using ep h by (auto simp: szf_def segp_def)
  have nea: "ep \<noteq> a" and epd: "ep \<notin> cset c" "ep \<notin> set_tree l" "ep \<notin> set_tree r" using Node.prems(4) by (auto simp: set_plug)
  show ?case
  proof (cases "lh_size e \<le> lh_size h")
    case True
    show ?thesis
    proof (cases "l = Leaf")
      case False
      from Node.IH(1) [of "FS a r # c", OF _ h(4) False] Node.prems(1,4)
      obtain m' where "fph_insert_loop (lh_smaller h) ep e m = Some m'" "trt m' rt (plug c (Node (tins (szf m) ep l) a r))"
        "outside (insert ep (set_tree (plug c (Node l a r)))) m m'" "segeq m m'" unfolding plug.simps by blast
      with h z False True sz show ?thesis by (subst fph_insert_loop.simps) simp
    next
      case lf: True
      let ?m = "m(a \<mapsto> h\<lparr>lh_smaller := ep\<rparr>)"
      have "tr m 0 rt (plug (FS a r # c) Leaf)" using Node.prems(1) lf by (simp add: trt_def)
      then have "cx m rt (FS a r # c) 0 a None" by (rule leaf_hole) simp
      from point_smaller(1) [OF this h(1) na(2,3)] have c1: "cx ?m rt (FS a r # c) ep a None" .
      have s1: "segeq m ?m" using h(1) by (simp add: segeq_upd segp_def)
      have d1: "distinct (inorder (plug (FS a r # c) (Node Leaf ep Leaf)))" using ds lf epd nea by (auto simp: distinct_plug)
      have "?m ep = Some e0" using ep nea by simp
      from attach [OF c1 ep(2) this ep(4) e d1] obtain m' where
        m': "(wr (\<lambda>_. e\<lparr>lh_parent := a\<rparr>) ep ?m \<bind> fph_remax ep) = Some m'" "trt m' rt (plug (FS a r # c) (Node Leaf ep Leaf))"
        "outside (insert ep (cset (FS a r # c))) ?m m'" "segeq ?m m'" by blast
      have "fph_insert_loop ap ep e m = Some m'" using h(1,2) True z lf m'(1) by (subst fph_insert_loop.simps) (simp add: wr_Some)
      moreover have "outside (insert ep (set_tree (plug c (Node l a r)))) m m'"
        using m'(3) lf by (auto simp: outside_def set_plug)
      ultimately show ?thesis using m'(2) lf sz True segeq_trans [OF s1 m'(4)] by simp
    qed
  next
    case big: False
    show ?thesis
    proof (cases "r = Leaf")
      case False
      from Node.IH(2) [of "FB l a # c", OF _ h(5) False] Node.prems(1,4)
      obtain m' where "fph_insert_loop (lh_bigger h) ep e m = Some m'" "trt m' rt (plug c (Node l a (tins (szf m) ep r)))"
        "outside (insert ep (set_tree (plug c (Node l a r)))) m m'" "segeq m m'" unfolding plug.simps by blast
      with h z False big sz show ?thesis by (subst fph_insert_loop.simps) simp
    next
      case lf: True
      let ?m = "m(a \<mapsto> h\<lparr>lh_bigger := ep\<rparr>)"
      have "tr m 0 rt (plug (FB l a # c) Leaf)" using Node.prems(1) lf by (simp add: trt_def)
      then have "cx m rt (FB l a # c) 0 a None" by (rule leaf_hole) simp
      from point_bigger(1) [OF this h(1) na(1,3)] have c1: "cx ?m rt (FB l a # c) ep a None" .
      have s1: "segeq m ?m" using h(1) by (simp add: segeq_upd segp_def)
      have d1: "distinct (inorder (plug (FB l a # c) (Node Leaf ep Leaf)))" using ds lf epd nea by (auto simp: distinct_plug)
      have "?m ep = Some e0" using ep nea by simp
      from attach [OF c1 ep(2) this ep(4) e d1] obtain m' where
        m': "(wr (\<lambda>_. e\<lparr>lh_parent := a\<rparr>) ep ?m \<bind> fph_remax ep) = Some m'" "trt m' rt (plug (FB l a # c) (Node Leaf ep Leaf))"
        "outside (insert ep (cset (FB l a # c))) ?m m'" "segeq ?m m'" by blast
      have "fph_insert_loop ap ep e m = Some m'" using h(1,2) big z lf m'(1) by (subst fph_insert_loop.simps) (simp add: wr_Some)
      moreover have "outside (insert ep (set_tree (plug c (Node l a r)))) m m'"
        using m'(3) lf by (auto simp: outside_def set_plug)
      ultimately show ?thesis using m'(2) lf sz big segeq_trans [OF s1 m'(4)] by simp
    qed
  qed
qed simp

subsection \<open>Best fit\<close>

fun tget :: "(nat \<Rightarrow> nat) \<Rightarrow> nat \<Rightarrow> nat tree \<Rightarrow> nat option" where
  "tget s sz Leaf = None"
| "tget s sz (Node l a r) =
     (if s a > sz then (if l \<noteq> Leaf \<and> mxs s l \<ge> sz then tget s sz l else Some a)
      else if s a = sz then Some a
      else if r \<noteq> Leaf \<and> mxs s r \<ge> sz then tget s sz r else None)"

lemma get_run:
  assumes "tr m par p t" "t \<noteq> Leaf"
  shows "fph_get rand_r p sz seed m = (case tget (szf m) sz t of
    None \<Rightarrow> Some (0, m, seed)
  | Some a \<Rightarrow> do { (m', s') \<leftarrow> fph_remove rand_r a seed m; Some (a, m', s') })"
  using assms
proof (induction t arbitrary: par p)
  case (Node l a r)
  then obtain h where h: "m a = Some h" "p = a" "tr m a (lh_smaller h) l" "tr m a (lh_bigger h) r"
    "lh_max h = mxs (szf m) (Node l a r)" by (auto split: option.splits)
  have z: "lh_smaller h = 0 \<longleftrightarrow> l = Leaf" "lh_bigger h = 0 \<longleftrightarrow> r = Leaf" using tr_ptr [OF h(3)] tr_ptr [OF h(4)] by auto
  have mx: "l \<noteq> Leaf \<Longrightarrow> fph_read_max (lh_smaller h) m = Some (mxs (szf m) l)"
    using h(3) by (cases l) (auto simp: fph_read_max_def split: option.splits)
  have "szf m a = lh_size h" using h(1) by (simp add: szf_def)
  then show ?case
    using h z mx Node.IH(1) [OF h(3)] Node.IH(2) [OF h(4)]
    by (subst fph_get.simps) (auto simp: Let_def)
qed simp

lemma mxs_max:
  assumes "sorted (map s (inorder t))" "t \<noteq> Leaf"
  shows "(\<forall>b\<in>set_tree t. s b \<le> mxs s t) \<and> (\<exists>b\<in>set_tree t. s b = mxs s t)"
  using assms
proof (induction t)
  case (Node l a r)
  show ?case
  proof (cases "r = Leaf")
    case True
    with Node.prems show ?thesis by (auto simp: sorted_append)
  next
    case False
    with Node have ih: "\<forall>b\<in>set_tree r. s b \<le> mxs s r" "\<exists>b\<in>set_tree r. s b = mxs s r" by (auto simp: sorted_append)
    then obtain b where "b \<in> set_tree r" "s b = mxs s r" by blast
    moreover from this Node.prems have "\<forall>x\<in>set_tree l. s x \<le> mxs s r" "s a \<le> mxs s r" by (fastforce simp: sorted_append)+
    ultimately show ?thesis using ih(1) False by auto
  qed
qed simp

lemma tget_best:
  assumes "sorted (map s (inorder t))"
  shows "case tget s sz t of
      None \<Rightarrow> \<forall>b\<in>set_tree t. s b < sz
    | Some a \<Rightarrow> a \<in> set_tree t \<and> sz \<le> s a \<and> (\<forall>b\<in>set_tree t. sz \<le> s b \<longrightarrow> s a \<le> s b)"
  using assms
proof (induction t)
  case (Node l a r)
  then have so: "sorted (map s (inorder l))" "sorted (map s (inorder r))"
    and ord: "\<forall>b\<in>set_tree l. s b \<le> s a" "\<forall>b\<in>set_tree r. s a \<le> s b" by (auto simp: sorted_append)
  note ih = Node.IH(1) [OF so(1)] Node.IH(2) [OF so(2)] and mx = mxs_max [OF so(1)] mxs_max [OF so(2)]
  consider "s a > sz" "l \<noteq> Leaf" "mxs s l \<ge> sz" | "s a > sz" "l = Leaf \<or> mxs s l < sz" | "s a = sz"
    | "s a < sz" "r \<noteq> Leaf" "mxs s r \<ge> sz" | "s a < sz" "r = Leaf \<or> mxs s r < sz" by linarith
  then show ?case
  proof cases
    case 1
    from mx(1) [OF 1(2)] obtain b where b: "b \<in> set_tree l" "sz \<le> s b" using 1(3) by auto
    then obtain x where x: "tget s sz l = Some x" using ih(1) by (cases "tget s sz l") fastforce+
    have "s x \<le> s b" using ih(1) x b by auto
    moreover have "s b \<le> s a" using ord b by blast
    ultimately have "\<forall>b\<in>set_tree r. s x \<le> s b" "s x \<le> s a" using ord(2) by (auto intro: le_trans)
    with 1 x ih(1) show ?thesis by auto
  next
    case 2
    then have "\<forall>b\<in>set_tree l. s b < sz" using mx(1) by (cases "l = Leaf") fastforce+
    with 2 ord show ?thesis by auto
  next
    case 3
    with ord show ?thesis by auto
  next
    case 4
    from mx(2) [OF 4(2)] obtain b where b: "b \<in> set_tree r" "sz \<le> s b" using 4(3) by auto
    then obtain x where x: "tget s sz r = Some x" using ih(2) by (cases "tget s sz r") fastforce+
    have "\<forall>b\<in>set_tree l. s b < sz" using ord(1) 4(1) by fastforce
    with 4 x ih(2) show ?thesis by auto
  next
    case 5
    then have "\<forall>b\<in>set_tree r. s b < sz" using mx(2) by (cases "r = Leaf") fastforce+
    moreover have "\<forall>b\<in>set_tree l. s b < sz" using ord(1) 5(1) by fastforce
    ultimately show ?thesis using 5 by auto
  qed
qed simp

end
