(* ===== verification/FpHeapInv.thy ===== *)
theory FpHeapInv
  imports FpTree
begin

text \<open>
  The allocator of common/fp_mm.c as a whole: the segments tile the file, the free ones are
  the nodes of the tree, and \<open>fphMalloc\<close> and \<open>fphFree\<close> implement a dynamic allocator.
\<close>

subsection \<open>The segments of a heap\<close>

text \<open>A segment is used, free and in the tree, or loose: free, but taken out of the tree.\<close>

datatype sst = SUsed | SFree | SLoose

type_synonym seg = "nat \<times> sst"

abbreviation LH :: nat where "LH \<equiv> sizeof_link_header"

definition used_flag :: "sst \<Rightarrow> u8" where
  "used_flag s = (if s = SUsed then 1 else 0)"

text \<open>The end of a row of segments that starts at \<open>a\<close>, the offsets of its headers, those of its free
  segments, its used blocks, and the offset of its last header.\<close>

fun en :: "nat \<Rightarrow> seg list \<Rightarrow> nat" where
  "en a [] = a"
| "en a ((n, s) # xs) = en (a + LH + n) xs"

fun ad :: "nat \<Rightarrow> seg list \<Rightarrow> nat list" where
  "ad a [] = []"
| "ad a ((n, s) # xs) = a # ad (a + LH + n) xs"

fun fr :: "nat \<Rightarrow> seg list \<Rightarrow> nat list" where
  "fr a [] = []"
| "fr a ((n, s) # xs) = (if s = SFree then [a] else []) @ fr (a + LH + n) xs"

fun blk :: "nat \<Rightarrow> seg list \<Rightarrow> (nat \<times> nat) list" where
  "blk a [] = []"
| "blk a ((n, s) # xs) = (if s = SUsed then [(a + LH, n)] else []) @ blk (a + LH + n) xs"

fun lastp :: "nat \<Rightarrow> nat \<Rightarrow> seg list \<Rightarrow> nat" where
  "lastp pv a [] = pv"
| "lastp pv a ((n, s) # xs) = lastp a (a + LH + n) xs"

fun sg :: "links \<Rightarrow> nat \<Rightarrow> nat \<Rightarrow> seg list \<Rightarrow> nat \<Rightarrow> bool" where
  "sg m pv a [] nx \<longleftrightarrow> True"
| "sg m pv a ((n, s) # xs) nx \<longleftrightarrow>
     map_option segp (m a) = Some (FP_LINK_ID, pv, (if xs = [] then nx else a + LH + n), used_flag s, n) \<and>
     sg m a (a + LH + n) xs nx"

lemma LH_pos [simp]: "0 < LH" and LH_nz [simp]: "LH \<noteq> 0"
  by (simp_all add: sizeof_link_header_def)

lemma en_append: "en a (xs @ ys) = en (en a xs) ys"
  by (induction xs arbitrary: a) auto

lemma ad_append: "ad a (xs @ ys) = ad a xs @ ad (en a xs) ys"
  by (induction xs arbitrary: a) auto

lemma fr_append: "fr a (xs @ ys) = fr a xs @ fr (en a xs) ys"
  by (induction xs arbitrary: a) auto

lemma blk_append: "blk a (xs @ ys) = blk a xs @ blk (en a xs) ys"
  by (induction xs arbitrary: a) auto

lemma lastp_append: "lastp pv a (xs @ ys) = lastp (lastp pv a xs) (en a xs) ys"
  by (induction xs arbitrary: pv a) auto

lemma sg_append: "sg m pv a (xs @ ys) nx \<longleftrightarrow>
    sg m pv a xs (if ys = [] then nx else en a xs) \<and> sg m (lastp pv a xs) (en a xs) ys nx"
proof (induction xs arbitrary: pv a)
  case (Cons x xs)
  obtain n s where x: "x = (n, s)" by fastforce
  show ?case using Cons.IH [of a "a + LH + n"] by (cases "xs = []") (auto simp: x)
qed simp

lemma en_ge: "a \<le> en a xs"
proof (induction xs arbitrary: a)
  case (Cons x xs)
  obtain n s where x: "x = (n, s)" by fastforce
  show ?case using Cons.IH [of "a + LH + n"] by (simp add: x)
qed simp

lemma ad_range: "b \<in> set (ad a xs) \<Longrightarrow> a \<le> b \<and> b < en a xs"
proof (induction xs arbitrary: a)
  case (Cons x xs)
  obtain n s where x: "x = (n, s)" by fastforce
  show ?case
  proof (cases "b = a")
    case True
    have "a < en (a + LH + n) xs" using en_ge [of "a + LH + n" xs] LH_pos by linarith
    with True x show ?thesis by simp
  next
    case False
    with Cons.prems x have "b \<in> set (ad (a + LH + n) xs)" by simp
    from Cons.IH [OF this] show ?thesis by (simp add: x)
  qed
qed simp

lemma fr_ad: "set (fr a xs) \<subseteq> set (ad a xs)"
proof (induction xs arbitrary: a)
  case (Cons x xs)
  obtain n s where "x = (n, s)" by fastforce
  with Cons.IH [of "a + LH + n"] show ?case by auto
qed simp

lemma distinct_ad: "distinct (ad a xs)"
proof (induction xs arbitrary: a)
  case (Cons x xs)
  obtain n s where x: "x = (n, s)" by fastforce
  have "a \<notin> set (ad (a + LH + n) xs)" using ad_range [of a "a + LH + n" xs] LH_pos by auto
  with Cons.IH x show ?case by simp
qed simp

lemma lastp_last: "xs \<noteq> [] \<Longrightarrow> lastp pv a xs = last (ad a xs) \<and> lastp pv a xs \<in> set (ad a xs)"
proof (induction xs arbitrary: pv a)
  case (Cons x xs)
  obtain n s where x: "x = (n, s)" by fastforce
  show ?case
  proof (cases xs)
    case Nil
    then show ?thesis by (simp add: x)
  next
    case (Cons y ys)
    obtain k s' where "y = (k, s')" by fastforce
    with Cons.IH [of a "a + LH + n"] Cons x show ?thesis by auto
  qed
qed simp

lemma split_ad: "e \<in> set (ad a xs) \<Longrightarrow> \<exists>p n s q. xs = p @ (n, s) # q \<and> e = en a p"
proof (induction xs arbitrary: a)
  case (Cons x xs)
  obtain n s where x: "x = (n, s)" by fastforce
  show ?case
  proof (cases "e = a")
    case True
    then have "x # xs = [] @ (n, s) # xs \<and> e = en a []" by (simp add: x)
    then show ?thesis by blast
  next
    case False
    with Cons x have "\<exists>p k s' q. xs = p @ (k, s') # q \<and> e = en (a + LH + n) p" by auto
    then obtain p k s' q where "xs = p @ (k, s') # q" "e = en (a + LH + n) p" by blast
    then have "x # xs = (x # p) @ (k, s') # q \<and> e = en a (x # p)" by (simp add: x)
    then show ?thesis by blast
  qed
qed simp

lemma split_fr: "e \<in> set (fr a xs) \<Longrightarrow> \<exists>p n q. xs = p @ (n, SFree) # q \<and> e = en a p"
proof (induction xs arbitrary: a)
  case (Cons x xs)
  obtain n s where x: "x = (n, s)" by fastforce
  show ?case
  proof (cases "e = a \<and> s = SFree")
    case True
    then have "x # xs = [] @ (n, SFree) # xs \<and> e = en a []" by (simp add: x)
    then show ?thesis by blast
  next
    case False
    with Cons x have "\<exists>p k q. xs = p @ (k, SFree) # q \<and> e = en (a + LH + n) p" by (auto split: if_splits)
    then obtain p k q where "xs = p @ (k, SFree) # q" "e = en (a + LH + n) p" by blast
    then have "x # xs = (x # p) @ (k, SFree) # q \<and> e = en a (x # p)" by (simp add: x)
    then show ?thesis by blast
  qed
qed simp

lemma sg_cong:
  "(\<And>b. b \<in> set (ad a xs) \<Longrightarrow> map_option segp (m b) = map_option segp (m' b)) \<Longrightarrow> sg m pv a xs nx \<longleftrightarrow> sg m' pv a xs nx"
proof (induction xs arbitrary: pv a)
  case (Cons x xs)
  obtain n s where x: "x = (n, s)" by fastforce
  have "sg m a (a + LH + n) xs nx \<longleftrightarrow> sg m' a (a + LH + n) xs nx" using Cons.prems x by (intro Cons.IH) simp
  with Cons.prems [of a] show ?case by (simp add: x)
qed simp

lemma sg_segeq: "segeq m m' \<Longrightarrow> sg m' pv a xs nx \<longleftrightarrow> sg m pv a xs nx"
  by (rule sg_cong) (simp add: segeq_def)

lemma segeq_dom: "segeq m m' \<Longrightarrow> dom m' = dom m"
proof -
  assume "segeq m m'"
  then have "m' a = None \<longleftrightarrow> m a = None" for a unfolding segeq_def by (metis map_option_is_None)
  then show ?thesis by (auto simp: dom_def)
qed

lemma sg_dom: "sg m pv a xs nx \<Longrightarrow> b \<in> set (ad a xs) \<Longrightarrow> m b \<noteq> None"
proof (induction xs arbitrary: pv a)
  case (Cons x xs)
  obtain n s where x: "x = (n, s)" by fastforce
  with Cons show ?case by (cases "b = a") auto
qed simp

text \<open>The tree part of a header.\<close>

definition trp :: "link_header \<Rightarrow> nat \<times> nat \<times> nat \<times> nat \<times> nat" where
  "trp h = (lh_size h, lh_max h, lh_smaller h, lh_bigger h, lh_parent h)"

lemma trp_szf: "map_option trp (m a) = map_option trp (m' a) \<Longrightarrow> szf m a = szf m' a"
  by (cases "m a"; cases "m' a") (auto simp: szf_def trp_def)

lemma tr_treq: "(\<And>a. a \<in> set_tree t \<Longrightarrow> map_option trp (m a) = map_option trp (m' a)) \<Longrightarrow> tr m par p t \<longleftrightarrow> tr m' par p t"
proof (induction t arbitrary: par p)
  case (Node l a r)
  have "mxs (szf m) (Node l a r) = mxs (szf m') (Node l a r)"
    using Node.prems by (intro mxs_cong trp_szf) auto
  moreover have "tr m a q l \<longleftrightarrow> tr m' a q l" "tr m a q r \<longleftrightarrow> tr m' a q r" for q
    using Node.IH(1) [of a q] Node.IH(2) [of a q] Node.prems by auto
  moreover have "map_option trp (m a) = map_option trp (m' a)" using Node.prems by simp
  ultimately show ?case by (cases "m a"; cases "m' a") (auto simp: trp_def)
qed simp

subsection \<open>The invariant\<close>

definition hp :: "fp_heap \<Rightarrow> seg list \<Rightarrow> nat tree \<Rightarrow> bool" where
  "hp h xs t \<longleftrightarrow> hh_id h = FP_MM_ID \<and> (\<exists>ys. xs = (0, SFree) # ys \<and> (\<forall>(n, s)\<in>set ys. 0 < n))
     \<and> sg (links h) 0 (fph_root h) xs 0 \<and> dom (links h) = set (ad (fph_root h) xs)
     \<and> hh_last h = lastp 0 (fph_root h) xs
     \<and> trt (links h) (fph_root h) t \<and> set_tree t = set (fr (fph_root h) xs)
     \<and> sorted (map (szf (links h)) (inorder t))"

definition no_loose :: "seg list \<Rightarrow> bool" where
  "no_loose xs \<longleftrightarrow> (\<forall>(n, s)\<in>set xs. s \<noteq> SLoose)"

definition heap_inv :: "fp_heap \<Rightarrow> bool" where
  "heap_inv h \<longleftrightarrow> (\<exists>xs t. hp h xs t \<and> no_loose xs)"

text \<open>The allocated blocks of a heap.\<close>

definition allocated :: "fp_heap \<Rightarrow> (nat \<times> nat) set" where
  "allocated h = {(a + LH, lh_size l) | a l. links h a = Some l \<and> lh_used l \<noteq> 0}"

lemma root_pos: "0 < fph_root h"
  by (simp add: fph_root_def sizeof_heap_header_def)

lemma root_cong [simp]: "fph_root (h\<lparr>links := m\<rparr>) = fph_root h" "fph_root (h\<lparr>fph_seed := s\<rparr>) = fph_root h"
  "fph_root (h\<lparr>hh_last := l\<rparr>) = fph_root h"
  by (simp_all add: fph_root_def)

lemma hp_header:
  assumes "hp h (p @ (n, s) # q) t"
  shows "\<exists>l. links h (en (fph_root h) p) = Some l \<and>
    segp l = (FP_LINK_ID, lastp 0 (fph_root h) p, (if q = [] then 0 else en (fph_root h) p + LH + n), used_flag s, n)"
  using assms by (auto simp: hp_def sg_append)

lemma hp_blocks:
  assumes "hp h xs t"
  shows "allocated h = set (blk (fph_root h) xs)"
proof -
  have sgx: "sg m pv a xs nx \<Longrightarrow> {(b + LH, lh_size l) | b l. b \<in> set (ad a xs) \<and> m b = Some l \<and> lh_used l \<noteq> 0} = set (blk a xs)" for m pv a xs nx
  proof (induction xs arbitrary: pv a)
    case (Cons x xs)
    obtain n s where x: "x = (n, s)" by fastforce
    from Cons.prems x obtain l where l: "m a = Some l" "lh_used l = used_flag s" "lh_size l = n" by (auto simp: segp_def)
    have ih: "{(b + LH, lh_size l) | b l. b \<in> set (ad (a + LH + n) xs) \<and> m b = Some l \<and> lh_used l \<noteq> 0} = set (blk (a + LH + n) xs)"
      by (rule Cons.IH [of a]) (use Cons.prems x in simp)
    have "{(b + LH, lh_size l) | b l. b \<in> set (ad a (x # xs)) \<and> m b = Some l \<and> lh_used l \<noteq> 0} =
        (if s = SUsed then {(a + LH, n)} else {}) \<union>
        {(b + LH, lh_size l) | b l. b \<in> set (ad (a + LH + n) xs) \<and> m b = Some l \<and> lh_used l \<noteq> 0}"
      using l by (auto simp: x used_flag_def)
    then show ?case unfolding ih by (simp add: x)
  qed simp
  have "sg (links h) 0 (fph_root h) xs 0" and d: "dom (links h) = set (ad (fph_root h) xs)" using assms by (simp_all add: hp_def)
  have "allocated h = {(b + LH, lh_size l) | b l. b \<in> set (ad (fph_root h) xs) \<and> links h b = Some l \<and> lh_used l \<noteq> 0}"
    unfolding allocated_def d [symmetric] by (auto simp: dom_def)
  with sgx [OF \<open>sg (links h) 0 (fph_root h) xs 0\<close>] show ?thesis by simp
qed

definition keeps :: "fp_heap \<Rightarrow> fp_heap \<Rightarrow> bool" where
  "keeps h h' \<longleftrightarrow> base h' = base h \<and> fragment_size h' = fragment_size h"

lemma keeps_refl [simp]: "keeps h h"
  by (simp add: keeps_def)

lemma keeps_trans: "keeps h h' \<Longrightarrow> keeps h' h'' \<Longrightarrow> keeps h h''"
  by (simp add: keeps_def)

lemma keeps_root: "keeps h h' \<Longrightarrow> fph_root h' = fph_root h"
  by (simp add: keeps_def fph_root_def)

subsection \<open>Taking segments out of the tree and putting them back\<close>

lemma sg_state: "used_flag s = used_flag s' \<Longrightarrow> sg m pv a (p @ (n, s) # q) nx \<longleftrightarrow> sg m pv a (p @ (n, s') # q) nx"
  by (simp add: sg_append)

lemma ad_state: "ad a (p @ (n, s) # q) = ad a (p @ (n, s') # q)" "lastp pv a (p @ (n, s) # q) = lastp pv a (p @ (n, s') # q)"
  by (simp_all add: ad_append lastp_append)

lemma en_notin: "en a p \<notin> set (ad a p)" "en a p \<notin> set (ad (en a p + LH + n) q)"
  using ad_range [of "en a p" a p] ad_range [of "en a p" "en a p + LH + n" q] LH_pos by auto

lemma fr_loose:
  "set (fr a (p @ (n, SFree) # q)) = insert (en a p) (set (fr a (p @ (n, s) # q)))"
  "s \<noteq> SFree \<Longrightarrow> en a p \<notin> set (fr a (p @ (n, s) # q))"
  using en_notin [of a p] en_notin(2) [of a p n q] fr_ad [of a p] fr_ad [of "en a p + LH + n" q] by (auto simp: fr_append)

lemma first_free: "hp h (p @ (n, s) # q) t \<Longrightarrow> s \<noteq> SFree \<Longrightarrow> p \<noteq> []"
  by (auto simp: hp_def)

lemma hp_pos: "hp h (p @ (n, s) # q) t \<Longrightarrow> p \<noteq> [] \<Longrightarrow> 0 < n \<and> (\<forall>(k, s')\<in>set q. 0 < k)"
  by (cases p) (auto simp: hp_def)

lemma hp_shape:
  assumes "hp h (p @ xs) t" "p \<noteq> []" "\<forall>(n, s)\<in>set ys. 0 < n"
  shows "\<exists>zs. p @ ys = (0, SFree) # zs \<and> (\<forall>(n, s)\<in>set zs. 0 < n)"
  using assms by (cases p) (auto simp: hp_def)

lemma en_root: "p \<noteq> [] \<Longrightarrow> fph_root h < en (fph_root h) p"
proof (cases p)
  case (Cons x p')
  obtain n s where x: "x = (n, s)" by fastforce
  have "fph_root h < en (fph_root h + LH + n) p'"
    using en_ge [of "fph_root h + LH + n" p'] LH_pos by linarith
  then show ?thesis using Cons x by simp
qed simp

lemma unlink_run:
  assumes hp: "hp h (p @ (n, SFree) # q) t" and p: "p \<noteq> []"
  shows "\<exists>h' t'. fph_unlink rand_r (en (fph_root h) p) h = Some h' \<and> hp h' (p @ (n, SLoose) # q) t' \<and> keeps h h'"
proof -
  let ?e = "en (fph_root h) p"
  have t: "trt (links h) (fph_root h) t" "set_tree t = set (fr (fph_root h) (p @ (n, SFree) # q))"
    "sorted (map (szf (links h)) (inorder t))" using hp by (simp_all add: hp_def)
  have "?e \<in> set_tree t" unfolding t(2) by (simp add: fr_append)
  moreover have "?e \<noteq> fph_root h" using en_root [OF p, of h] by simp
  ultimately obtain m' s' t' where r: "fph_remove rand_r ?e (fph_seed h) (links h) = Some (m', s')" "trt m' (fph_root h) t'"
    "inorder t' = remove1 ?e (inorder t)" "segeq (links h) m'" using remove_run [OF t(1)] by meson
  let ?h = "h\<lparr>links := m', fph_seed := s'\<rparr>"
  have "set_tree t' = set (fr (fph_root h) (p @ (n, SLoose) # q))"
  proof -
    have "set_tree t' = set_tree t - {?e}" using r(3) t(1) by (simp add: trt_def flip: set_inorder)
    also have "\<dots> = set (fr (fph_root h) (p @ (n, SLoose) # q))"
      unfolding t(2) fr_loose(1) [of _ p n q SLoose] using fr_loose(2) [of SLoose "fph_root h" p n q] by simp
    finally show ?thesis .
  qed
  moreover have "dom m' = dom (links h)" using r(4) by (rule segeq_dom)
  moreover have "sg m' 0 (fph_root h) (p @ (n, SLoose) # q) 0"
    using hp sg_segeq [OF r(4)] sg_state [of SFree SLoose] by (simp add: hp_def used_flag_def)
  moreover have "\<forall>(k, s)\<in>set ((n, SLoose) # q). 0 < k" using hp_pos [OF hp p] by auto
  moreover have "sorted (map (szf m') (inorder t'))" using t(3) r(3) segeq_szf [OF r(4)] by (simp add: sorted_map_remove1)
  ultimately have "hp ?h (p @ (n, SLoose) # q) t'"
    using hp hp_shape [OF hp p, of "(n, SLoose) # q"] r(2) ad_state [where p = p and n = n and q = q and s = SFree and s' = SLoose]
    by (simp add: hp_def fph_root_def)
  then show ?thesis using r(1) by (auto simp: fph_unlink_def keeps_def)
qed

lemma insert_run:
  assumes hp: "hp h (p @ (n, SLoose) # q) t"
  shows "\<exists>h' t'. fph_insert (en (fph_root h) p) h = Some h' \<and> hp h' (p @ (n, SFree) # q) t' \<and> keeps h h'"
proof -
  let ?e = "en (fph_root h) p"
  have p: "p \<noteq> []" using first_free [OF hp] by simp
  have t: "trt (links h) (fph_root h) t" "set_tree t = set (fr (fph_root h) (p @ (n, SLoose) # q))"
    "sorted (map (szf (links h)) (inorder t))" using hp by (simp_all add: hp_def)
  from hp_header [OF hp] obtain e0 where e0: "links h ?e = Some e0" by blast
  let ?e1 = "e0\<lparr>lh_smaller := 0, lh_bigger := 0, lh_max := lh_size e0\<rparr>"
  have "fph_root h \<in> set_tree t" using hp unfolding t(2) by (auto simp: hp_def)
  then have tl: "t \<noteq> Leaf" "tr (links h) 0 (fph_root h) t" using t(1) by (auto simp: trt_def)
  have "?e \<notin> set_tree t" unfolding t(2) using fr_loose(2) [of SLoose "fph_root h" p n q] by simp
  moreover have "?e \<noteq> 0" using en_ge [of "fph_root h" p] root_pos [of h] by linarith
  ultimately obtain m' where r: "fph_insert_loop (fph_root h) ?e ?e1 (links h) = Some m'"
    "trt m' (fph_root h) (tins (szf (links h)) ?e t)" "segeq (links h) m'"
    using insert_loop_run [of "links h" "fph_root h" "[]" t 0 "fph_root h" ?e e0 ?e1] t(1) tl e0
    by (auto simp: segp_def)
  let ?h = "h\<lparr>links := m'\<rparr>"
  let ?t = "tins (szf (links h)) ?e t"
  have "set_tree ?t = set (fr (fph_root h) (p @ (n, SFree) # q))"
    unfolding tins_set t(2) fr_loose(1) [of _ p n q SLoose] by simp
  moreover have "dom m' = dom (links h)" using r(3) by (rule segeq_dom)
  moreover have "sg m' 0 (fph_root h) (p @ (n, SFree) # q) 0"
    using hp sg_segeq [OF r(3)] sg_state [of SFree SLoose] by (simp add: hp_def used_flag_def)
  moreover have "\<forall>(k, s)\<in>set ((n, SFree) # q). 0 < k" using hp_pos [OF hp p] by auto
  moreover have "sorted (map (szf m') (inorder ?t))"
    using t(3) segeq_szf [OF r(3)] by (simp add: tins_inorder sorted_insort_key)
  ultimately have "hp ?h (p @ (n, SFree) # q) ?t"
    using hp hp_shape [OF hp p, of "(n, SFree) # q"] r(2) ad_state [where p = p and n = n and q = q and s = SFree and s' = SLoose]
    by (simp add: hp_def fph_root_def)
  then show ?thesis using r(1) e0 by (auto simp: fph_insert_def keeps_def)
qed

subsection \<open>Changing the row of segments\<close>

text \<open>The tree stays as long as the tree parts of its nodes do.\<close>

lemma hp_rebuild:
  assumes hp: "hp h xs t" and h': "hh_id h' = hh_id h" "fph_root h' = fph_root h"
    and sh: "\<exists>ys. xs' = (0, SFree) # ys \<and> (\<forall>(n, s)\<in>set ys. 0 < n)"
    and sgl: "sg (links h') 0 (fph_root h) xs' 0" "dom (links h') = set (ad (fph_root h) xs')"
      "hh_last h' = lastp 0 (fph_root h) xs'"
    and free: "set (fr (fph_root h) xs') = set (fr (fph_root h) xs)"
    and eq: "\<And>a. a \<in> set (fr (fph_root h) xs) \<Longrightarrow> map_option trp (links h a) = map_option trp (links h' a)"
  shows "hp h' xs' t"
proof -
  have t: "tr (links h) 0 (fph_root h) t" "distinct (inorder t)" "set_tree t = set (fr (fph_root h) xs)"
    "sorted (map (szf (links h)) (inorder t))" using hp by (simp_all add: hp_def trt_def)
  have "tr (links h') 0 (fph_root h) t" using t(1) tr_treq [of t "links h" "links h'"] eq t(3) by simp
  moreover have "map (szf (links h')) (inorder t) = map (szf (links h)) (inorder t)"
  proof (rule map_cong [OF refl])
    fix a
    assume "a \<in> set (inorder t)"
    then have "a \<in> set (fr (fph_root h) xs)" using t(3) by simp
    from trp_szf [of "links h" a "links h'", OF eq [OF this]] show "szf (links h') a = szf (links h) a" by simp
  qed
  then have "sorted (map (szf (links h')) (inorder t))" using t(4) by (simp only:)
  ultimately show ?thesis using assms t by (simp add: hp_def trt_def)
qed

lemma sg_front: "sg m pv a (p @ x # q) nx \<Longrightarrow> (\<And>b. b \<in> set (ad a p) \<Longrightarrow> m' b = m b) \<Longrightarrow> sg m' pv a p (en a p)"
  using sg_cong [of a p m m' pv "en a p"] by (auto simp: sg_append)

lemma sg_back: "sg m pv a q nx \<Longrightarrow> (\<And>b. b \<in> set (ad a q) \<Longrightarrow> m' b = m b) \<Longrightarrow> sg m' pv a q nx"
  using sg_cong [of a q m m' pv nx] by auto

lemma free_elsewhere: "b \<in> set (fr a (p @ (n, s) # q)) \<Longrightarrow> s \<noteq> SFree \<Longrightarrow> b \<noteq> en a p"
  using fr_loose(2) by metis

text \<open>Marking a segment as used or not used.\<close>

lemma mark_run:
  assumes hp: "hp h (p @ (n, s) # q) t" and s: "s \<noteq> SFree" "s' \<noteq> SFree"
    and l: "links h (en (fph_root h) p) = Some l"
  shows "hp (h\<lparr>links := (links h)(en (fph_root h) p \<mapsto> l\<lparr>lh_used := used_flag s'\<rparr>)\<rparr>) (p @ (n, s') # q) t"
proof (rule hp_rebuild [OF hp])
  let ?e = "en (fph_root h) p"
  let ?m = "(links h)(?e \<mapsto> l\<lparr>lh_used := used_flag s'\<rparr>)"
  have p: "p \<noteq> []" using first_free [OF hp s(1)] .
  show "\<exists>ys. p @ (n, s') # q = (0, SFree) # ys \<and> (\<forall>(n, s)\<in>set ys. 0 < n)"
    using hp_shape [OF hp p, of "(n, s') # q"] hp_pos [OF hp p] by auto
  have sgh: "sg (links h) 0 (fph_root h) (p @ (n, s) # q) 0" using hp by (simp add: hp_def)
  have "sg ?m 0 (fph_root h) p ?e" using en_notin(1) [of "fph_root h" p] by (intro sg_front [OF sgh]) auto
  moreover have "sg (links h) ?e (?e + LH + n) q 0" using sgh by (simp add: sg_append)
  then have "sg ?m ?e (?e + LH + n) q 0"
    by (rule sg_back) (use en_notin(2) [of "fph_root h" p n q] in auto)
  moreover have "segp (l\<lparr>lh_used := used_flag s'\<rparr>) = (FP_LINK_ID, lastp 0 (fph_root h) p, (if q = [] then 0 else ?e + LH + n), used_flag s', n)"
    using hp_header [OF hp] l by (simp add: segp_def)
  ultimately show "sg (links (h\<lparr>links := ?m\<rparr>)) 0 (fph_root h) (p @ (n, s') # q) 0" by (simp add: sg_append)
  have "dom (links h) = set (ad (fph_root h) (p @ (n, s) # q))" using hp by (simp add: hp_def)
  then show "dom (links (h\<lparr>links := ?m\<rparr>)) = set (ad (fph_root h) (p @ (n, s') # q))" by (auto simp: ad_append)
  show "hh_last (h\<lparr>links := ?m\<rparr>) = lastp 0 (fph_root h) (p @ (n, s') # q)" using hp by (simp add: hp_def lastp_append)
  show "set (fr (fph_root h) (p @ (n, s') # q)) = set (fr (fph_root h) (p @ (n, s) # q))" using s by (simp add: fr_append)
  fix a
  assume "a \<in> set (fr (fph_root h) (p @ (n, s) # q))"
  then have "a \<noteq> ?e" using free_elsewhere s(1) by blast
  then show "map_option trp (links h a) = map_option trp (links (h\<lparr>links := ?m\<rparr>) a)" by simp
qed simp_all

text \<open>A row with another predecessor.\<close>

lemma sg_prev:
  assumes "sg m pv a (x # q) nx" "m a = Some l"
  shows "sg (m(a \<mapsto> l\<lparr>lh_prev := pv'\<rparr>)) pv' a (x # q) nx"
proof -
  obtain n s where x: "x = (n, s)" by fastforce
  have "a \<notin> set (ad (a + LH + n) q)" using ad_range [of a "a + LH + n" q] LH_pos by auto
  then have "sg (m(a \<mapsto> l\<lparr>lh_prev := pv'\<rparr>)) a (a + LH + n) q nx \<longleftrightarrow> sg m a (a + LH + n) q nx"
    by (intro sg_cong) auto
  with assms x show ?thesis by (simp add: segp_def)
qed

text \<open>The header at the end of a row points to what follows.\<close>

definition fix_prev :: "nat \<Rightarrow> nat \<Rightarrow> seg list \<Rightarrow> links \<Rightarrow> links" where
  "fix_prev pv a q m = (if q = [] then m else m(a := map_option (\<lambda>l. l\<lparr>lh_prev := pv\<rparr>) (m a)))"

lemma fix_prev_sg: "sg m pv a q nx \<Longrightarrow> sg (fix_prev pv' a q m) pv' a q nx"
proof (cases q)
  case (Cons x q')
  obtain n s where x: "x = (n, s)" by fastforce
  assume "sg m pv a q nx"
  moreover from this obtain l where "m a = Some l" using Cons x by auto
  ultimately show ?thesis using sg_prev [of m pv a x q' nx l pv'] Cons by (simp add: fix_prev_def)
qed simp

lemma fix_prev_other: "b \<noteq> a \<Longrightarrow> fix_prev pv a q m b = m b"
  by (simp add: fix_prev_def)

lemma fix_prev_dom: "dom (fix_prev pv a q m) = dom m"
  by (auto simp: fix_prev_def dom_def split: if_splits)

lemma fix_prev_trp: "map_option trp (fix_prev pv a q m b) = map_option trp (m b)"
  by (cases "m b") (auto simp: fix_prev_def trp_def)

text \<open>Splitting, merging, appending and dropping loose segments.\<close>

lemma split_run:
  assumes hp: "hp h (p @ (n, SLoose) # q) t" and sz: "0 < sz" "sz + LH < n"
  shows "\<exists>h'. fph_split (en (fph_root h) p) sz h = Some (en (fph_root h) p + LH + sz, h') \<and>
    hp h' (p @ (sz, SLoose) # (n - sz - LH, SLoose) # q) t \<and> keeps h h'"
proof -
  let ?r = "fph_root h"
  let ?e = "en ?r p"
  let ?ep = "?e + LH + sz"
  let ?nx = "?e + LH + n"
  have p: "p \<noteq> []" using first_free [OF hp] by simp
  have sgh: "sg (links h) 0 ?r (p @ (n, SLoose) # q) 0" and dm: "dom (links h) = set (ad ?r (p @ (n, SLoose) # q))"
    and la: "hh_last h = lastp 0 ?r (p @ (n, SLoose) # q)" and id: "hh_id h = FP_MM_ID" using hp by (simp_all add: hp_def)
  from hp_header [OF hp] obtain l where l: "links h ?e = Some l"
    and lf: "lh_next l = (if q = [] then 0 else ?nx)" "lh_size l = n" "lh_id l = FP_LINK_ID" "lh_prev l = lastp 0 ?r p" "lh_used l = 0"
    by (auto simp: segp_def used_flag_def)
  define E where "E = \<lparr>lh_id = FP_LINK_ID, lh_prev = ?e, lh_next = lh_next l, lh_used = 0, lh_size = n - sz - LH,
                    lh_max = 0, lh_smaller = 0, lh_bigger = 0, lh_parent = 0\<rparr>"
  define m1 where "m1 = (links h)(?ep \<mapsto> E, ?e \<mapsto> l\<lparr>lh_next := ?ep, lh_size := sz\<rparr>)"
  define m where "m = fix_prev ?ep ?nx q m1"
  define h' where "h' = (if q = [] then h\<lparr>links := m, hh_last := ?ep\<rparr> else h\<lparr>links := m\<rparr>)"
  have ord: "?e < ?ep" "?ep < ?nx" "?ep + LH + (n - sz - LH) = ?nx" using sz LH_pos by linarith+
  have rng: "b \<in> set (ad ?r p) \<Longrightarrow> b < ?e" "b \<in> set (ad ?nx q) \<Longrightarrow> ?nx \<le> b" for b
    using ad_range [of b ?r p] ad_range [of b ?nx q] by auto
  have nxd: "q \<noteq> [] \<Longrightarrow> \<exists>x. links h ?nx = Some x" using dm by (cases q) (auto simp: ad_append dom_def)
  have run: "fph_split ?e sz h = Some (?ep, h')"
  proof -
    have "?e \<noteq> 0" using en_ge [of ?r p] root_pos [of h] by linarith
    moreover have "\<not> (n \<le> sz \<or> n - sz \<le> LH)" using sz by auto
    moreover have "((links h)(?ep \<mapsto> E)) ?e = Some l" using l ord by simp
    moreover have "m1 ?nx = links h ?nx" using ord by (simp add: m1_def)
    ultimately show ?thesis using l lf(1,2) nxd LH_pos
      by (auto simp: fph_split_def wr_def h'_def m_def fix_prev_def m1_def E_def Let_def)
  qed
  have "hp h' (p @ (sz, SLoose) # (n - sz - LH, SLoose) # q) t"
  proof (rule hp_rebuild [OF hp])
    show "hh_id h' = hh_id h" "fph_root h' = ?r" by (simp_all add: h'_def fph_root_def)
    have lk: "links h' = m" by (simp add: h'_def)
    show "\<exists>ys. p @ (sz, SLoose) # (n - sz - LH, SLoose) # q = (0, SFree) # ys \<and> (\<forall>(n, s)\<in>set ys. 0 < n)"
      by (rule hp_shape [OF hp p]) (use sz hp_pos [OF hp p] in auto)
    have "sg m 0 ?r p ?e"
    proof (rule sg_front [OF sgh])
      fix b
      assume "b \<in> set (ad ?r p)"
      from rng(1) [OF this] ord show "m b = links h b" by (simp add: m_def fix_prev_other m1_def)
    qed
    moreover have "sg m1 ?e ?nx q 0"
    proof (rule sg_back)
      show "sg (links h) ?e ?nx q 0" using sgh by (simp add: sg_append)
      fix b
      assume "b \<in> set (ad ?nx q)"
      from rng(2) [OF this] ord show "m1 b = links h b" by (simp add: m1_def)
    qed
    then have "sg m ?ep ?nx q 0" unfolding m_def by (rule fix_prev_sg)
    moreover have "m ?e = Some (l\<lparr>lh_next := ?ep, lh_size := sz\<rparr>)" "m ?ep = Some E"
      using ord by (simp_all add: m_def fix_prev_other m1_def)
    ultimately show "sg (links h') 0 ?r (p @ (sz, SLoose) # (n - sz - LH, SLoose) # q) 0"
      using lf ord by (simp add: sg_append lk segp_def E_def used_flag_def add.assoc)
    show "dom (links h') = set (ad ?r (p @ (sz, SLoose) # (n - sz - LH, SLoose) # q))"
      using dm ord by (auto simp: lk m_def fix_prev_dom m1_def ad_append add.assoc)
    show "hh_last h' = lastp 0 ?r (p @ (sz, SLoose) # (n - sz - LH, SLoose) # q)"
    proof (cases q)
      case Nil
      then show ?thesis by (simp add: h'_def lastp_append)
    next
      case (Cons x q')
      obtain k s where "x = (k, s)" by fastforce
      with Cons la ord show ?thesis by (simp add: h'_def lastp_append add.assoc)
    qed
    show "set (fr ?r (p @ (sz, SLoose) # (n - sz - LH, SLoose) # q)) = set (fr ?r (p @ (n, SLoose) # q))"
      using ord by (simp add: fr_append add.assoc)
    fix a
    assume a: "a \<in> set (fr ?r (p @ (n, SLoose) # q))"
    then have "a \<noteq> ?e" using free_elsewhere by blast
    moreover have "a \<noteq> ?ep" using a fr_ad [of ?r p] fr_ad [of ?nx q] rng [of a] ord by (auto simp: fr_append)
    ultimately show "map_option trp (links h a) = map_option trp (links h' a)"
      by (simp add: lk m_def fix_prev_trp m1_def)
  qed
  with run show ?thesis by (auto simp: h'_def keeps_def)
qed

lemma merge_run:
  assumes hp: "hp h (p @ (n, SLoose) # (k, SLoose) # q) t"
  shows "\<exists>h'. fph_merge (en (fph_root h) p) (en (fph_root h) p + LH + n) h = Some h' \<and>
    hp h' (p @ (n + k + LH, SLoose) # q) t \<and> keeps h h'"
proof -
  let ?r = "fph_root h"
  let ?e = "en ?r p"
  let ?b = "?e + LH + n"
  let ?nx = "?b + LH + k"
  have p: "p \<noteq> []" using first_free [OF hp] by simp
  have sgh: "sg (links h) 0 ?r (p @ (n, SLoose) # (k, SLoose) # q) 0"
    and dm: "dom (links h) = set (ad ?r (p @ (n, SLoose) # (k, SLoose) # q))"
    and la: "hh_last h = lastp 0 ?r (p @ (n, SLoose) # (k, SLoose) # q)" using hp by (simp_all add: hp_def)
  from hp_header [OF hp] obtain l where l: "links h ?e = Some l"
    and lf: "lh_size l = n" "lh_id l = FP_LINK_ID" "lh_prev l = lastp 0 ?r p" "lh_used l = 0"
    by (auto simp: segp_def used_flag_def)
  have "hp h ((p @ [(n, SLoose)]) @ (k, SLoose) # q) t" using hp by simp
  from hp_header [OF this] obtain b where b: "links h ?b = Some b" "lh_next b = (if q = [] then 0 else ?nx)" "lh_size b = k"
    by (auto simp: segp_def en_append)
  let ?l = "l\<lparr>lh_next := lh_next b, lh_size := n + k + LH\<rparr>"
  define m1 where "m1 = (links h)(?e \<mapsto> ?l, ?b := None)"
  define m where "m = fix_prev ?e ?nx q m1"
  define h' where "h' = (if q = [] then h\<lparr>links := m, hh_last := ?e\<rparr> else h\<lparr>links := m\<rparr>)"
  have ord: "?e < ?b" "?b < ?nx" "?e + LH + (n + k + LH) = ?nx" using LH_pos by linarith+
  have rng: "b \<in> set (ad ?r p) \<Longrightarrow> b < ?e" "b \<in> set (ad ?nx q) \<Longrightarrow> ?nx \<le> b" for b
    using ad_range [of b ?r p] ad_range [of b ?nx q] by auto
  have nxd: "q \<noteq> [] \<Longrightarrow> \<exists>x. links h ?nx = Some x" using dm by (cases q) (auto simp: ad_append dom_def)
  have run: "fph_merge ?e ?b h = Some h'"
  proof (cases "q = []")
    case True
    then show ?thesis using l b lf(1) by (simp add: fph_merge_def wr_def h'_def m_def fix_prev_def m1_def Let_def)
  next
    case False
    then obtain x where x: "links h ?nx = Some x" using nxd by blast
    have "((links h)(?nx \<mapsto> x\<lparr>lh_prev := ?e\<rparr>)) (?e \<mapsto> ?l, ?b := None) = m1(?nx := map_option (\<lambda>l. l\<lparr>lh_prev := ?e\<rparr>) (m1 ?nx))"
      using ord x by (auto simp: m1_def fun_eq_iff)
    then show ?thesis using False l b lf(1) x ord
      by (simp add: fph_merge_def wr_def h'_def m_def fix_prev_def Let_def)
  qed
  have "hp h' (p @ (n + k + LH, SLoose) # q) t"
  proof (rule hp_rebuild [OF hp])
    show "hh_id h' = hh_id h" "fph_root h' = ?r" by (simp_all add: h'_def fph_root_def)
    have lk: "links h' = m" by (simp add: h'_def)
    show "\<exists>ys. p @ (n + k + LH, SLoose) # q = (0, SFree) # ys \<and> (\<forall>(n, s)\<in>set ys. 0 < n)"
      by (rule hp_shape [OF hp p]) (use hp_pos [OF hp p] in auto)
    have "sg m 0 ?r p ?e"
    proof (rule sg_front [OF sgh])
      fix c
      assume "c \<in> set (ad ?r p)"
      from rng(1) [OF this] ord show "m c = links h c" by (simp add: m_def fix_prev_other m1_def)
    qed
    moreover have "sg m1 ?b ?nx q 0"
    proof (rule sg_back)
      show "sg (links h) ?b ?nx q 0" using sgh by (simp add: sg_append)
      fix c
      assume "c \<in> set (ad ?nx q)"
      from rng(2) [OF this] ord have "c \<noteq> ?e" "c \<noteq> ?b" by linarith+
      then show "m1 c = links h c" by (simp add: m1_def)
    qed
    then have "sg m ?e ?nx q 0" unfolding m_def by (rule fix_prev_sg)
    moreover have "m ?e = Some ?l" using ord by (simp add: m_def fix_prev_other m1_def)
    ultimately show "sg (links h') 0 ?r (p @ (n + k + LH, SLoose) # q) 0"
      using lf b ord by (simp add: sg_append lk segp_def used_flag_def ac_simps)
    have "?b \<notin> set (ad ?r p)" "?b \<notin> set (ad ?nx q)" "?b \<noteq> ?e" using rng [of ?b] ord by auto
    moreover have "set (ad ?r (p @ (n + k + LH, SLoose) # q)) = insert ?e (set (ad ?r p) \<union> set (ad ?nx q))"
      by (simp add: ad_append ac_simps)
    moreover have "dom (links h) = insert ?e (insert ?b (set (ad ?r p) \<union> set (ad ?nx q)))" using dm by (auto simp: ad_append)
    ultimately show "dom (links h') = set (ad ?r (p @ (n + k + LH, SLoose) # q))"
      by (auto simp: lk m_def fix_prev_dom m1_def)
    show "hh_last h' = lastp 0 ?r (p @ (n + k + LH, SLoose) # q)"
    proof (cases q)
      case Nil
      then show ?thesis by (simp add: h'_def lastp_append)
    next
      case (Cons x q')
      obtain k s where "x = (k, s)" by fastforce
      with Cons la ord show ?thesis by (simp add: h'_def lastp_append ac_simps)
    qed
    show "set (fr ?r (p @ (n + k + LH, SLoose) # q)) = set (fr ?r (p @ (n, SLoose) # (k, SLoose) # q))"
      by (simp add: fr_append ac_simps)
    fix a
    assume a: "a \<in> set (fr ?r (p @ (n, SLoose) # (k, SLoose) # q))"
    then have "a \<noteq> ?e" using free_elsewhere by blast
    moreover have "a \<noteq> ?b" using a fr_ad [of ?r p] fr_ad [of ?nx q] rng [of a] ord by (auto simp: fr_append)
    ultimately show "map_option trp (links h a) = map_option trp (links h' a)"
      by (simp add: lk m_def fix_prev_trp m1_def)
  qed
  with run show ?thesis by (auto simp: h'_def keeps_def)
qed

lemma append_run:
  assumes hp: "hp h xs t" and k: "0 < k" and l: "links h (hh_last h) = Some l"
  defines "bp \<equiv> en (fph_root h) xs"
  defines "m \<equiv> (links h)(hh_last h \<mapsto> l\<lparr>lh_next := bp\<rparr>, bp \<mapsto>
    \<lparr>lh_id = FP_LINK_ID, lh_prev = hh_last h, lh_next = 0, lh_used = 0, lh_size = k,
     lh_max = k, lh_smaller = 0, lh_bigger = 0, lh_parent = 0\<rparr>)"
  shows "hp (h\<lparr>links := m, hh_last := bp\<rparr>) (xs @ [(k, SLoose)]) t" "hh_last h + lh_size l + LH = bp"
proof -
  let ?r = "fph_root h"
  have "xs \<noteq> []" using hp by (auto simp: hp_def)
  then obtain p n s where xs: "xs = p @ [(n, s)]" by (metis rev_exhaust surj_pair)
  let ?e = "en ?r p"
  have la: "hh_last h = ?e" using hp by (simp add: hp_def xs lastp_append)
  from hp_header [of h p n s "[]" t] hp xs l la have lf: "segp l = (FP_LINK_ID, lastp 0 ?r p, 0, used_flag s, n)" by auto
  have bp: "bp = ?e + LH + n" by (simp add: bp_def xs en_append)
  show "hh_last h + lh_size l + LH = bp" using la bp lf by (simp add: segp_def)
  have ord: "?e < bp" using bp by simp
  have sgh: "sg (links h) 0 ?r (p @ (n, s) # []) 0" and dm: "dom (links h) = set (ad ?r xs)" using hp by (simp_all add: hp_def xs)
  have rng: "b \<in> set (ad ?r p) \<Longrightarrow> b < ?e" "b \<in> set (ad ?r xs) \<Longrightarrow> b < bp" for b
    using ad_range [of b ?r p] ad_range [of b ?r xs] by (auto simp: bp_def)
  show "hp (h\<lparr>links := m, hh_last := bp\<rparr>) (xs @ [(k, SLoose)]) t"
  proof (rule hp_rebuild [OF hp])
    let ?h = "h\<lparr>links := m, hh_last := bp\<rparr>"
    show "\<exists>ys. xs @ [(k, SLoose)] = (0, SFree) # ys \<and> (\<forall>(n, s)\<in>set ys. 0 < n)" using hp k by (auto simp: hp_def)
    have "sg m 0 ?r p ?e"
    proof (rule sg_front [OF sgh])
      fix b
      assume "b \<in> set (ad ?r p)"
      from rng(1) [OF this] ord show "m b = links h b" by (simp add: m_def la)
    qed
    moreover have "m ?e = Some (l\<lparr>lh_next := bp\<rparr>)" using ord la by (simp add: m_def)
    ultimately show "sg (links ?h) 0 ?r (xs @ [(k, SLoose)]) 0"
      using lf la bp by (simp add: xs sg_append m_def segp_def used_flag_def lastp_append en_append)
    show "dom (links ?h) = set (ad ?r (xs @ [(k, SLoose)]))"
      using dm la by (auto simp: m_def ad_append bp_def xs en_append)
    show "hh_last ?h = lastp 0 ?r (xs @ [(k, SLoose)])" by (simp add: lastp_append bp_def)
    show "set (fr ?r (xs @ [(k, SLoose)])) = set (fr ?r xs)" by (simp add: fr_append)
    fix a
    assume "a \<in> set (fr ?r xs)"
    then have "a < bp" using fr_ad rng(2) by blast
    then show "map_option trp (links h a) = map_option trp (links ?h a)" using l by (auto simp: m_def trp_def)
  qed (simp_all add: fph_root_def)
qed

lemma drop_run:
  assumes hp: "hp h (p @ [(n, SLoose)]) t"
  shows "\<exists>m. wr (\<lambda>x. x\<lparr>lh_next := 0\<rparr>) (lastp 0 (fph_root h) p) (links h |` {..<hh_last h}) = Some m \<and>
    hp (h\<lparr>links := m, hh_last := lastp 0 (fph_root h) p\<rparr>) p t"
proof -
  let ?r = "fph_root h"
  have "p \<noteq> []" using first_free [of h p n SLoose "[]"] hp by auto
  then obtain p' k s where p: "p = p' @ [(k, s)]" by (metis rev_exhaust surj_pair)
  let ?e = "en ?r p" and ?a = "en ?r p'"
  have la: "hh_last h = ?e" "lastp 0 ?r p = ?a" using hp by (simp_all add: hp_def lastp_append p en_append)
  have ord: "?a < ?e" by (simp add: p en_append)
  from hp_header [of h p' k s "[(n, SLoose)]" t] hp p obtain l where l: "links h ?a = Some l" "segp l = (FP_LINK_ID, lastp 0 ?r p', ?e, used_flag s, k)"
    by (auto simp: en_append)
  define m where "m = (links h |` {..<?e})(?a \<mapsto> l\<lparr>lh_next := 0\<rparr>)"
  have run: "wr (\<lambda>x. x\<lparr>lh_next := 0\<rparr>) (lastp 0 ?r p) (links h |` {..<hh_last h}) = Some m"
    using l(1) ord by (simp add: wr_def la m_def)
  have sgh: "sg (links h) 0 ?r (p' @ (k, s) # [(n, SLoose)]) 0" and dm: "dom (links h) = set (ad ?r (p @ [(n, SLoose)]))"
    using hp by (simp_all add: hp_def p)
  have rng: "b \<in> set (ad ?r p') \<Longrightarrow> b < ?a" "b \<in> set (ad ?r p) \<Longrightarrow> b < ?e" for b
    using ad_range [of b ?r p'] ad_range [of b ?r p] by auto
  have "hp (h\<lparr>links := m, hh_last := lastp 0 ?r p\<rparr>) p t"
  proof (rule hp_rebuild [OF hp])
    let ?h = "h\<lparr>links := m, hh_last := lastp 0 ?r p\<rparr>"
    show "\<exists>ys. p = (0, SFree) # ys \<and> (\<forall>(n, s)\<in>set ys. 0 < n)" using hp \<open>p \<noteq> []\<close> by (cases p) (auto simp: hp_def)
    have "sg m 0 ?r p' ?a"
    proof (rule sg_front [OF sgh])
      fix b
      assume "b \<in> set (ad ?r p')"
      from rng(1) [OF this] ord show "m b = links h b" by (simp add: m_def)
    qed
    then show "sg (links ?h) 0 ?r p 0" using l(2) by (simp add: p sg_append m_def segp_def)
    show "dom (links ?h) = set (ad ?r p)"
    proof -
      have "dom (links ?h) = insert ?a (dom (links h) \<inter> {..<?e})" by (auto simp: m_def)
      also have "\<dots> = set (ad ?r p)" using rng(2) ord by (auto simp: dm ad_append p en_append)
      finally show ?thesis .
    qed
    show "set (fr ?r p) = set (fr ?r (p @ [(n, SLoose)]))" by (simp add: fr_append)
    fix a
    assume "a \<in> set (fr ?r (p @ [(n, SLoose)]))"
    then have "a \<in> set (fr ?r p)" by (simp add: fr_append)
    then have "a < ?e" using fr_ad rng(2) by blast
    then show "map_option trp (links h a) = map_option trp (links ?h a)" using l(1) by (auto simp: m_def trp_def)
  qed (simp_all add: fph_root_def)
  with run show ?thesis by blast
qed

subsection \<open>Allocation\<close>

lemma hp_last:
  assumes "hp h xs t"
  shows "\<exists>p n s. xs = p @ [(n, s)] \<and> hh_last h = en (fph_root h) p"
proof -
  have "xs \<noteq> []" using assms by (auto simp: hp_def)
  then obtain p n s where xs: "xs = p @ [(n, s)]" by (metis rev_exhaust surj_pair)
  then have "hh_last h = en (fph_root h) p" using assms by (simp add: hp_def lastp_append)
  with xs show ?thesis by blast
qed

lemma grow_run:
  assumes hp: "hp h xs t" and sz: "0 < sz"
  shows "\<exists>h' t' k. fph_grow sz h = Some h' \<and> hp h' (xs @ [(k, SFree)]) t' \<and> keeps h h' \<and> sz \<le> k"
proof -
  let ?k = "if sz < fragment_size h then fragment_size h else sz"
  have k: "0 < ?k" "sz \<le> ?k" using sz by auto
  from hp_last [OF hp] obtain p n s where "xs = p @ [(n, s)]" "hh_last h = en (fph_root h) p" by blast
  with hp_header [of h p n s "[]" t] hp obtain l where l: "links h (hh_last h) = Some l" by auto
  let ?bp = "en (fph_root h) xs"
  let ?m = "(links h)(hh_last h \<mapsto> l\<lparr>lh_next := ?bp\<rparr>, ?bp \<mapsto>
    \<lparr>lh_id = FP_LINK_ID, lh_prev = hh_last h, lh_next = 0, lh_used = 0, lh_size = ?k,
     lh_max = ?k, lh_smaller = 0, lh_bigger = 0, lh_parent = 0\<rparr>)"
  let ?h = "h\<lparr>links := ?m, hh_last := ?bp\<rparr>"
  note ap = append_run [OF hp k(1) l]
  from insert_run [of ?h xs ?k "[]" t] ap(1) obtain h' t' where
    i: "fph_insert ?bp ?h = Some h'" "hp h' (xs @ [(?k, SFree)]) t'" "keeps ?h h'" by (auto simp: fph_root_def)
  have "fph_grow sz h = Some h'" using l ap(2) i(1) by (simp add: fph_grow_def wr_def Let_def cong: if_cong)
  moreover have "keeps h h'" using i(3) by (simp add: keeps_def)
  ultimately show ?thesis using i(2) k(2) by blast
qed

lemma szf_seg: "hp h (p @ (n, s) # q) t \<Longrightarrow> szf (links h) (en (fph_root h) p) = n"
  using hp_header by (fastforce simp: szf_def segp_def)

text \<open>The search takes the smallest free segment that is big enough, if there is one.\<close>

definition best_fit :: "nat \<Rightarrow> nat \<Rightarrow> seg list \<Rightarrow> bool" where
  "best_fit sz n xs \<longleftrightarrow> sz \<le> n \<and> (\<forall>k. (k, SFree) \<in> set xs \<and> sz \<le> k \<longrightarrow> n \<le> k)"

lemma free_in_tree: "hp h xs t \<Longrightarrow> (k, SFree) \<in> set xs \<Longrightarrow> \<exists>a\<in>set_tree t. szf (links h) a = k"
proof -
  assume hp: "hp h xs t" and k: "(k, SFree) \<in> set xs"
  then obtain p q where xs: "xs = p @ (k, SFree) # q" by (meson split_list)
  have "en (fph_root h) p \<in> set_tree t" using hp xs by (simp add: hp_def fr_append)
  with szf_seg [of h p k SFree q t] hp xs show ?thesis by auto
qed

lemma get_heap_run:
  assumes hp: "hp h xs t" and sz: "0 < sz"
  shows "(fph_get rand_r (fph_root h) sz (fph_seed h) (links h) = Some (0, links h, fph_seed h) \<and> (\<forall>k. (k, SFree) \<in> set xs \<longrightarrow> k < sz))
    \<or> (\<exists>p n q m s t'. fph_get rand_r (fph_root h) sz (fph_seed h) (links h) = Some (en (fph_root h) p, m, s) \<and>
        xs = p @ (n, SFree) # q \<and> p \<noteq> [] \<and> best_fit sz n xs \<and> hp (h\<lparr>links := m, fph_seed := s\<rparr>) (p @ (n, SLoose) # q) t')"
proof -
  have t: "tr (links h) 0 (fph_root h) t" "set_tree t = set (fr (fph_root h) xs)" "sorted (map (szf (links h)) (inorder t))"
    using hp by (simp_all add: hp_def trt_def)
  have "fph_root h \<in> set_tree t" using hp unfolding t(2) by (auto simp: hp_def)
  then have "t \<noteq> Leaf" by auto
  note g = get_run [OF t(1) this, of rand_r sz "fph_seed h"] and b = tget_best [OF t(3), of sz]
  show ?thesis
  proof (cases "tget (szf (links h)) sz t")
    case None
    with b have "\<forall>k. (k, SFree) \<in> set xs \<longrightarrow> k < sz" using free_in_tree [OF hp] by fastforce
    with g None show ?thesis by simp
  next
    case (Some a)
    with b have a: "a \<in> set_tree t" "sz \<le> szf (links h) a" "\<forall>b\<in>set_tree t. sz \<le> szf (links h) b \<longrightarrow> szf (links h) a \<le> szf (links h) b" by auto
    from a(1) t(2) split_fr [of a "fph_root h" xs] obtain p n q where xs: "xs = p @ (n, SFree) # q" "a = en (fph_root h) p" by auto
    have n: "szf (links h) a = n" using szf_seg [of h p n SFree q t] hp xs by simp
    have p: "p \<noteq> []"
    proof
      assume "p = []"
      with hp xs(1) have "n = 0" by (auto simp: hp_def)
      with n a(2) sz show False by simp
    qed
    from unlink_run [of h p n q t rand_r] hp xs p obtain h' t' where
      u: "fph_unlink rand_r a h = Some h'" "hp h' (p @ (n, SLoose) # q) t'" by auto
    then obtain m s where r: "fph_remove rand_r a (fph_seed h) (links h) = Some (m, s)" "h' = h\<lparr>links := m, fph_seed := s\<rparr>"
      by (auto simp: fph_unlink_def split: Option.bind_splits)
    have "best_fit sz n xs" using a(2,3) n free_in_tree [OF hp] unfolding best_fit_def by metis
    with g Some r u(2) xs p show ?thesis by auto
  qed
qed

lemma blk_ad: "(b, k) \<in> set (blk a xs) \<Longrightarrow> b - LH \<in> set (ad a xs) \<and> LH \<le> b"
proof (induction xs arbitrary: a)
  case (Cons x xs)
  obtain n s where x: "x = (n, s)" by fastforce
  with Cons show ?case by (cases "s = SUsed \<and> (b, k) = (a + LH, n)") (auto split: if_splits)
qed simp

lemma blk_new: "en a p + LH \<notin> fst ` set (blk a (p @ (n, SLoose) # q))"
proof
  assume "en a p + LH \<in> fst ` set (blk a (p @ (n, SLoose) # q))"
  then obtain k where "(en a p + LH, k) \<in> set (blk a p) \<union> set (blk (en a p + LH + n) q)"
    unfolding blk_append by (auto, blast+)
  then have "en a p \<in> set (ad a p) \<union> set (ad (en a p + LH + n) q)" using blk_ad by fastforce
  then show False using en_notin [of a p] en_notin(2) [of a p n q] by auto
qed

lemma occupy_run:
  assumes "hp h (p @ (n, SLoose) # q) t"
  shows "\<exists>h'. fph_occupy (en (fph_root h) p) h = Some h' \<and> hp h' (p @ (n, SUsed) # q) t \<and> keeps h h'"
proof -
  from hp_header [OF assms] obtain l where l: "links h (en (fph_root h) p) = Some l" by blast
  with mark_run [OF assms _ _ l, of SUsed] show ?thesis by (simp add: fph_occupy_def wr_def used_flag_def keeps_def)
qed

lemma fph_take_run:
  assumes hp: "hp h (p @ (n, SLoose) # q) t" and sz: "0 < sz" "sz \<le> n" and nl: "no_loose (p @ q)"
  shows "\<exists>h' xs' t' k. fph_take (en (fph_root h) p) sz h = Some (en (fph_root h) p + LH, h') \<and> hp h' xs' t' \<and> no_loose xs' \<and> keeps h h' \<and>
    set (blk (fph_root h) xs') = insert (en (fph_root h) p + LH, k) (set (blk (fph_root h) (p @ (n, SLoose) # q))) \<and>
    sz \<le> k \<and> k \<le> sz + sz div 2 + 2 * LH"
proof -
  let ?e = "en (fph_root h) p"
  have rs: "fph_read_size ?e (links h) = Some n" using hp_header [OF hp] by (auto simp: fph_read_size_def segp_def)
  show ?thesis
  proof (cases "n > sz + sz div 2 + 2 * LH")
    case False
    from occupy_run [OF hp] obtain h' where h': "fph_occupy ?e h = Some h'" "hp h' (p @ (n, SUsed) # q) t" "keeps h h'" by blast
    have "fph_take ?e sz h = Some (?e + LH, h')" using rs False h'(1) by (simp add: fph_take_def)
    moreover have "no_loose (p @ (n, SUsed) # q)" using nl by (auto simp: no_loose_def)
    moreover have "set (blk (fph_root h) (p @ (n, SUsed) # q)) = insert (?e + LH, n) (set (blk (fph_root h) (p @ (n, SLoose) # q)))"
      by (simp add: blk_append)
    ultimately show ?thesis using h' sz False by (metis not_le)
  next
    case True
    then have "sz + LH < n" by (simp add: sizeof_link_header_def)
    from split_run [OF hp sz(1) this] obtain h1 where
      h1: "fph_split ?e sz h = Some (?e + LH + sz, h1)" "hp h1 ((p @ [(sz, SLoose)]) @ (n - sz - LH, SLoose) # q) t" "keeps h h1" by auto
    have r1: "fph_root h1 = fph_root h" using keeps_root [OF h1(3)] .
    from insert_run [OF h1(2)] obtain h2 t2 where
      h2: "fph_insert (?e + LH + sz) h1 = Some h2" "hp h2 ((p @ [(sz, SLoose)]) @ (n - sz - LH, SFree) # q) t2" "keeps h1 h2"
      by (auto simp: r1 en_append)
    have r2: "fph_root h2 = fph_root h" using keeps_root [OF h2(3)] r1 by simp
    have "hp h2 (p @ (sz, SLoose) # (n - sz - LH, SFree) # q) t2" using h2(2) by simp
    from occupy_run [OF this] obtain h3 where
      h3: "fph_occupy ?e h2 = Some h3" "hp h3 (p @ (sz, SUsed) # (n - sz - LH, SFree) # q) t2" "keeps h2 h3" by (auto simp: r2)
    have "fph_take ?e sz h = Some (?e + LH, h3)" using rs True h1(1) h2(1) h3(1) by (simp add: fph_take_def)
    moreover have "no_loose (p @ (sz, SUsed) # (n - sz - LH, SFree) # q)" using nl by (auto simp: no_loose_def)
    moreover have "?e + LH + sz + LH + (n - sz - LH) = ?e + LH + n" using \<open>sz + LH < n\<close> by simp
    then have "set (blk (fph_root h) (p @ (sz, SUsed) # (n - sz - LH, SFree) # q)) =
        insert (?e + LH, sz) (set (blk (fph_root h) (p @ (n, SLoose) # q)))"
      by (simp only: blk_append blk.simps) auto
    moreover have "keeps h h3" using h1(3) h2(3) h3(3) by (simp add: keeps_def)
    ultimately show ?thesis using h3(2) by (metis le_add1 le_refl trans_le_add1)
  qed
qed

lemma malloc_served:
  assumes hp: "hp h xs t" and nl: "no_loose xs" and sz: "0 < sz"
  shows "\<exists>ptr h' xs' t' k. fphMalloc rand_r sz h = Some (Inr (ptr, h')) \<and> hp h' xs' t' \<and> no_loose xs' \<and> keeps h h' \<and>
    set (blk (fph_root h) xs') = insert (ptr, k) (set (blk (fph_root h) xs)) \<and> ptr \<notin> fst ` set (blk (fph_root h) xs) \<and>
    sz \<le> k \<and> k \<le> sz + sz div 2 + 2 * LH"
proof -
  let ?r = "fph_root h"
  have ok: "fph_heap_ok h" using hp by (simp add: hp_def fph_heap_ok_def)
  have fin: "\<exists>h' xs' t' k. fph_take (en ?r p) sz h1 = Some (en ?r p + LH, h') \<and> en ?r p \<noteq> 0 \<and> hp h' xs' t' \<and> no_loose xs' \<and> keeps h h' \<and>
      set (blk ?r xs') = insert (en ?r p + LH, k) (set (blk ?r xs)) \<and> en ?r p + LH \<notin> fst ` set (blk ?r xs) \<and>
      sz \<le> k \<and> k \<le> sz + sz div 2 + 2 * LH"
    if "hp h1 (p @ (n, SLoose) # q) t1" "keeps h h1" "sz \<le> n" "no_loose (p @ q)"
      "set (blk ?r (p @ (n, SLoose) # q)) = set (blk ?r xs)" for h1 p n q t1
  proof -
    have r: "fph_root h1 = ?r" using keeps_root [OF that(2)] .
    have "en ?r p \<noteq> 0" using en_ge [of ?r p] root_pos [of h] by linarith
    moreover have "en ?r p + LH \<notin> fst ` set (blk ?r xs)" using blk_new [of ?r p n q] that(5) by simp
    ultimately show ?thesis
      using fph_take_run [OF that(1) sz that(3,4)] keeps_trans [OF that(2)] unfolding r that(5) by blast
  qed
  from get_heap_run [OF hp sz, of rand_r] show ?thesis
  proof (elim disjE exE conjE)
    assume g: "fph_get rand_r ?r sz (fph_seed h) (links h) = Some (0, links h, fph_seed h)" and small: "\<forall>k. (k, SFree) \<in> set xs \<longrightarrow> k < sz"
    from grow_run [OF hp sz] obtain h1 t1 k where
      h1: "fph_grow sz h = Some h1" "hp h1 (xs @ [(k, SFree)]) t1" "keeps h h1" "sz \<le> k" by blast
    have r1: "fph_root h1 = ?r" using keeps_root [OF h1(3)] .
    have "\<not> (\<forall>j. (j, SFree) \<in> set (xs @ [(k, SFree)]) \<longrightarrow> j < sz)" using h1(4) by fastforce
    then obtain p n q m s t' where g1: "fph_get rand_r ?r sz (fph_seed h1) (links h1) = Some (en ?r p, m, s)"
      "xs @ [(k, SFree)] = p @ (n, SFree) # q" "best_fit sz n (xs @ [(k, SFree)])"
      "hp (h1\<lparr>links := m, fph_seed := s\<rparr>) (p @ (n, SLoose) # q) t'"
      using get_heap_run [OF h1(2) sz, of rand_r] unfolding r1 by blast
    have "sz \<le> n" using g1(3) by (simp add: best_fit_def)
    have nlx: "no_loose (p @ (n, SFree) # q)" using nl unfolding g1(2) [symmetric] by (simp add: no_loose_def)
    then have "no_loose (p @ q)" by (auto simp: no_loose_def)
    moreover have "set (blk ?r (p @ (n, SLoose) # q)) = set (blk ?r (p @ (n, SFree) # q))" by (simp add: blk_append)
    then have "set (blk ?r (p @ (n, SLoose) # q)) = set (blk ?r xs)" unfolding g1(2) [symmetric] by (simp add: blk_append)
    moreover have "keeps h (h1\<lparr>links := m, fph_seed := s\<rparr>)" using h1(3) by (simp add: keeps_def)
    ultimately obtain h' xs' t'' k' where T: "fph_take (en ?r p) sz (h1\<lparr>links := m, fph_seed := s\<rparr>) = Some (en ?r p + LH, h')" "en ?r p \<noteq> 0"
      "hp h' xs' t''" "no_loose xs'" "keeps h h'" "set (blk ?r xs') = insert (en ?r p + LH, k') (set (blk ?r xs))"
      "en ?r p + LH \<notin> fst ` set (blk ?r xs)" "sz \<le> k'" "k' \<le> sz + sz div 2 + 2 * LH"
      using fin [OF g1(4) _ \<open>sz \<le> n\<close>] by blast
    have "fphMalloc rand_r sz h = Some (Inr (en ?r p + LH, h'))"
      using sz ok g h1(1) g1(1) r1 T(1,2) by (simp add: fphMalloc_def)
    with T(3-) show ?thesis by blast
  next
    fix p n q m s t'
    assume g: "fph_get rand_r ?r sz (fph_seed h) (links h) = Some (en ?r p, m, s)" and xs: "xs = p @ (n, SFree) # q"
      and bf: "best_fit sz n xs" and hp1: "hp (h\<lparr>links := m, fph_seed := s\<rparr>) (p @ (n, SLoose) # q) t'"
    have "sz \<le> n" using bf by (simp add: best_fit_def)
    moreover have "no_loose (p @ q)" using nl xs by (auto simp: no_loose_def)
    moreover have "set (blk ?r (p @ (n, SLoose) # q)) = set (blk ?r xs)" by (simp add: blk_append xs)
    moreover have "keeps h (h\<lparr>links := m, fph_seed := s\<rparr>)" by (simp add: keeps_def)
    ultimately obtain h' xs' t'' k' where T: "fph_take (en ?r p) sz (h\<lparr>links := m, fph_seed := s\<rparr>) = Some (en ?r p + LH, h')" "en ?r p \<noteq> 0"
      "hp h' xs' t''" "no_loose xs'" "keeps h h'" "set (blk ?r xs') = insert (en ?r p + LH, k') (set (blk ?r xs))"
      "en ?r p + LH \<notin> fst ` set (blk ?r xs)" "sz \<le> k'" "k' \<le> sz + sz div 2 + 2 * LH"
      using fin [OF hp1] by blast
    have "fphMalloc rand_r sz h = Some (Inr (en ?r p + LH, h'))"
      using sz ok g T(1,2) by (simp add: fphMalloc_def)
    with T(3-) show ?thesis by blast
  qed
qed

subsection \<open>Release\<close>

lemma no_loose_append: "no_loose (p @ q) \<longleftrightarrow> no_loose p \<and> no_loose q"
  by (auto simp: no_loose_def)

lemma no_loose_Cons: "no_loose ((n, s) # q) \<longleftrightarrow> s \<noteq> SLoose \<and> no_loose q"
  by (auto simp: no_loose_def)

lemma lastp_root: "p \<noteq> [] \<Longrightarrow> fph_root h \<le> lastp 0 (fph_root h) p"
  using lastp_last [of p 0 "fph_root h"] ad_range by blast

text \<open>What a release does to the row of segments: the block joins a free segment behind it, then a
  free one before it unless that is the dummy at the start, and the file is cut as long as its last
  segment is free and big.\<close>

definition join_next :: "nat \<Rightarrow> seg list \<Rightarrow> nat \<times> seg list" where
  "join_next n q = (case q of (k, SFree) # r \<Rightarrow> (n + k + LH, r) | _ \<Rightarrow> (n, q))"

definition join_prev :: "seg list \<Rightarrow> nat \<Rightarrow> seg list \<times> nat" where
  "join_prev p n =
     (if p \<noteq> [] \<and> butlast p \<noteq> [] \<and> snd (last p) = SFree then (butlast p, fst (last p) + n + LH) else (p, n))"

definition freed_row :: "seg list \<Rightarrow> nat \<Rightarrow> seg list \<Rightarrow> seg list" where
  "freed_row p n q = (let (n, q) = join_next n q; (p, n) = join_prev p n in p @ (n, SFree) # q)"

function trim :: "nat \<Rightarrow> seg list \<Rightarrow> seg list" where
  "trim fs xs =
     (if 1 < length xs \<and> snd (last xs) = SFree \<and> 2 * fs \<le> fst (last xs) then trim fs (butlast xs) else xs)"
  by pat_completeness auto
termination
  by (relation "measure (\<lambda>(fs, xs). length xs)") auto

declare trim.simps [simp del]

lemma merge_next_run:
  assumes hp: "hp h (p @ (n, SLoose) # q) t" and nl: "no_loose q" and b: "links h (en (fph_root h) p) = Some b"
  shows "\<exists>h' n' q' t'. fph_join_next rand_r (en (fph_root h) p) b h = Some h' \<and> hp h' (p @ (n', SLoose) # q') t' \<and> no_loose q' \<and> keeps h h' \<and>
      blk (fph_root h) (p @ (n', SLoose) # q') = blk (fph_root h) (p @ (n, SLoose) # q) \<and> join_next n q = (n', q')"
proof (cases q)
  case Nil
  from hp_header [OF hp] b Nil have "lh_next b = 0" by (simp add: segp_def)
  then have "fph_join_next rand_r (en (fph_root h) p) b h = Some h" by (simp add: fph_join_next_def)
  then show ?thesis using hp nl Nil by (auto simp: join_next_def)
next
  case (Cons x q')
  obtain k s where x: "x = (k, s)" by fastforce
  let ?e = "en (fph_root h) p"
  from hp_header [OF hp] b Cons have bf: "lh_next b = ?e + LH + n" "lh_used b = 0" by (simp_all add: segp_def used_flag_def)
  have hp': "hp h ((p @ [(n, SLoose)]) @ (k, s) # q') t" using hp Cons x by simp
  from hp_header [OF this] obtain c where c: "links h (?e + LH + n) = Some c" "lh_used c = used_flag s" by (auto simp: segp_def en_append)
  have s: "s \<noteq> SLoose" "no_loose q'" using nl Cons x by (simp_all add: no_loose_Cons)
  show ?thesis
  proof (cases "s = SFree")
    case True
    from unlink_run [of h "p @ [(n, SLoose)]" k q' t rand_r] hp' True obtain h1 t1 where
      h1: "fph_unlink rand_r (?e + LH + n) h = Some h1" "hp h1 (p @ (n, SLoose) # (k, SLoose) # q') t1" "keeps h h1"
      by (auto simp: en_append)
    have r1: "fph_root h1 = fph_root h" using keeps_root [OF h1(3)] .
    from merge_run [OF h1(2)] obtain h2 where
      h2: "fph_merge ?e (?e + LH + n) h1 = Some h2" "hp h2 (p @ (n + k + LH, SLoose) # q') t1" "keeps h1 h2" by (auto simp: r1)
    have "blk (fph_root h) (p @ (n + k + LH, SLoose) # q') = blk (fph_root h) (p @ (n, SLoose) # q)"
      using Cons x True by (simp add: blk_append ac_simps)
    moreover have "lh_used c = 0" using c(2) True by (simp add: used_flag_def)
    ultimately show ?thesis using bf c(1) h1(1) h2 s(2) keeps_trans [OF h1(3) h2(3)] Cons x True
      by (auto simp: fph_join_next_def join_next_def)
  next
    case False
    then have "lh_used c \<noteq> 0" using s(1) c(2) by (cases s) (auto simp: used_flag_def)
    then have "fph_join_next rand_r (en (fph_root h) p) b h = Some h" using bf c(1) by (simp add: fph_join_next_def)
    moreover have "join_next n q = (n, q)" using False s(1) Cons x by (cases s) (simp_all add: join_next_def)
    ultimately show ?thesis using hp nl by auto
  qed
qed

lemma coalesce_run:
  assumes hp: "hp h (p @ (n, SLoose) # q) t" and nl: "no_loose p" "no_loose q"
  shows "\<exists>h' p' n' q' t'. fph_coalesce1 rand_r (en (fph_root h) p) h = Some (en (fph_root h) p', h') \<and>
    hp h' (p' @ (n', SLoose) # q') t' \<and> no_loose p' \<and> no_loose q' \<and> keeps h h' \<and>
    blk (fph_root h) (p' @ (n', SLoose) # q') = blk (fph_root h) (p @ (n, SLoose) # q) \<and>
    p' @ (n', SFree) # q' = freed_row p n q"
proof -
  let ?r = "fph_root h"
  let ?e = "en ?r p"
  have "?e \<noteq> 0" using en_ge [of ?r p] root_pos [of h] by linarith
  have "p \<noteq> []" using first_free [OF hp] by simp
  then obtain p1 j s where p: "p = p1 @ [(j, s)]" by (metis rev_exhaust surj_pair)
  from hp_header [OF hp] obtain b where b: "links h ?e = Some b" "lh_prev b = en ?r p1" "lh_used b = 0"
    by (auto simp: segp_def used_flag_def p lastp_append)
  from merge_next_run [OF hp nl(2) b(1), of rand_r] obtain h1 n1 q1 t1 where
    h1: "fph_join_next rand_r ?e b h = Some h1" "hp h1 (p @ (n1, SLoose) # q1) t1" "no_loose q1" "keeps h h1"
      "blk ?r (p @ (n1, SLoose) # q1) = blk ?r (p @ (n, SLoose) # q)" "join_next n q = (n1, q1)" by blast
  have row: "freed_row p n q = (case join_prev p n1 of (p2, n2) \<Rightarrow> p2 @ (n2, SFree) # q1)"
    using h1(6) by (simp add: freed_row_def)
  have r1: "fph_root h1 = ?r" using keeps_root [OF h1(4)] .
  have hp1: "hp h1 (p1 @ (j, s) # (n1, SLoose) # q1) t1" using h1(2) p by simp
  from hp_header [OF hp1] obtain a where a: "links h1 (en ?r p1) = Some a" "lh_prev a = lastp 0 ?r p1" "lh_used a = used_flag s"
    by (auto simp: segp_def r1)
  have nz: "en ?r p1 \<noteq> 0" using en_ge [of ?r p1] root_pos [of h] by linarith
  show ?thesis
  proof (cases "p1 \<noteq> [] \<and> s = SFree")
    case True
    then have "lh_prev a \<noteq> 0" "lh_used a = 0" using a lastp_root [of p1 h] root_pos [of h] by (auto simp: used_flag_def)
    moreover from unlink_run [of h1 p1 j "(n1, SLoose) # q1" t1 rand_r] hp1 True obtain h2 t2 where
      h2: "fph_unlink rand_r (en ?r p1) h1 = Some h2" "hp h2 (p1 @ (j, SLoose) # (n1, SLoose) # q1) t2" "keeps h1 h2" by (auto simp: r1)
    have r2: "fph_root h2 = ?r" using keeps_root [OF h2(3)] r1 by simp
    from merge_run [OF h2(2)] obtain h3 where
      h3: "fph_merge (en ?r p1) ?e h2 = Some h3" "hp h3 (p1 @ (j + n1 + LH, SLoose) # q1) t2" "keeps h2 h3"
      by (auto simp: r2 p en_append)
    ultimately have "fph_coalesce1 rand_r ?e h = Some (en ?r p1, h3)"
      using \<open>?e \<noteq> 0\<close> b h1(1) a(1) h2(1) h3(1) nz by (simp add: fph_coalesce1_def)
    moreover have "blk ?r (p1 @ (j + n1 + LH, SLoose) # q1) = blk ?r (p1 @ (j, s) # (n1, SLoose) # q1)"
      using True by (simp add: blk_append ac_simps)
    then have "blk ?r (p1 @ (j + n1 + LH, SLoose) # q1) = blk ?r (p @ (n, SLoose) # q)" using h1(5) p by simp
    moreover have "no_loose p1" using nl(1) p by (simp add: no_loose_append)
    moreover have "keeps h h3" using h1(4) h2(3) h3(3) by (simp add: keeps_def)
    moreover have "join_prev p n1 = (p1, j + n1 + LH)" using True p by (simp add: join_prev_def)
    then have "p1 @ (j + n1 + LH, SFree) # q1 = freed_row p n q" unfolding row by simp
    ultimately show ?thesis using h3(2) h1(3) by blast
  next
    case False
    have "s \<noteq> SLoose" using nl(1) p by (simp add: no_loose_append no_loose_Cons)
    with False a have "\<not> (lh_prev a \<noteq> 0 \<and> lh_used a = 0)" by (cases s) (auto simp: used_flag_def)
    then have "fph_coalesce1 rand_r ?e h = Some (?e, h1)"
      using \<open>?e \<noteq> 0\<close> b h1(1) a(1) by (auto simp: fph_coalesce1_def)
    moreover have "join_prev p n1 = (p, n1)" using False p by (simp add: join_prev_def)
    then have "p @ (n1, SFree) # q1 = freed_row p n q" unfolding row by simp
    ultimately show ?thesis using h1 nl(1) by blast
  qed
qed

lemma shrink_run:
  assumes "hp h xs t" "no_loose xs"
  shows "\<exists>h' xs' t'. fph_shrink rand_r h = Some h' \<and> hp h' xs' t' \<and> no_loose xs' \<and> keeps h h' \<and>
    blk (fph_root h) xs' = blk (fph_root h) xs \<and> xs' = trim (fragment_size h) xs"
  using assms
proof (induction "length xs" arbitrary: h xs t rule: less_induct)
  case less
  let ?r = "fph_root h"
  from hp_last [OF less.prems(1)] obtain p n s where xs: "xs = p @ [(n, s)]" and la: "hh_last h = en ?r p" by blast
  from hp_header [of h p n s "[]" t] less.prems(1) xs obtain l where
    l: "links h (en ?r p) = Some l" "lh_prev l = lastp 0 ?r p" "lh_used l = used_flag s" "lh_size l = n" by (auto simp: segp_def)
  show ?case
  proof (cases "lh_used l = 0 \<and> lh_prev l \<noteq> 0 \<and> lh_size l \<ge> 2 * fragment_size h")
    case False
    then have "fph_shrink rand_r h = Some h" using l(1) la by (subst fph_shrink.simps) auto
    moreover have "trim (fragment_size h) xs = xs"
    proof -
      have "lh_prev l \<noteq> 0" if "p \<noteq> []" using that l(2) lastp_root [of p h] root_pos [of h] by simp
      with False l(3,4) show ?thesis by (subst trim.simps) (auto simp: xs used_flag_def)
    qed
    ultimately show ?thesis using less.prems by auto
  next
    case True
    have "s \<noteq> SLoose" using less.prems(2) xs by (simp add: no_loose_append no_loose_Cons)
    with True l(3) have s: "s = SFree" by (cases s) (auto simp: used_flag_def)
    have p: "p \<noteq> []" using True l(2) by auto
    from unlink_run [of h p n "[]" t rand_r] less.prems(1) xs s p obtain h1 t1 where
      h1: "fph_unlink rand_r (en ?r p) h = Some h1" "hp h1 (p @ [(n, SLoose)]) t1" "keeps h h1" by auto
    have r1: "fph_root h1 = ?r" using keeps_root [OF h1(3)] .
    have la1: "hh_last h1 = en ?r p" using h1(2) r1 by (simp add: hp_def lastp_append)
    from drop_run [OF h1(2)] obtain m where
      m: "wr (\<lambda>x. x\<lparr>lh_next := 0\<rparr>) (lastp 0 ?r p) (links h1 |` {..<en ?r p}) = Some m"
      "hp (h1\<lparr>links := m, hh_last := lastp 0 ?r p\<rparr>) p t1" by (auto simp: r1 la1)
    let ?h2 = "h1\<lparr>links := m, hh_last := lastp 0 ?r p\<rparr>"
    have step: "fph_shrink rand_r h = fph_shrink rand_r ?h2"
      using l True la h1(1) m(1) by (subst fph_shrink.simps) simp
    have "no_loose p" using less.prems(2) xs by (simp add: no_loose_append)
    from less.hyps [OF _ m(2) this] xs obtain h' xs' t' where
      "fph_shrink rand_r ?h2 = Some h'" "hp h' xs' t'" "no_loose xs'" "keeps ?h2 h'" "blk (fph_root ?h2) xs' = blk (fph_root ?h2) p" "xs' = trim (fragment_size ?h2) p" by auto
    moreover have "fragment_size ?h2 = fragment_size h" using h1(3) by (simp add: keeps_def)
    moreover have "trim (fragment_size h) xs = trim (fragment_size h) p"
      using True l(4) s p by (subst trim.simps) (simp add: xs)
    moreover have "fph_root ?h2 = ?r" using r1 by (simp add: fph_root_def)
    moreover have "blk ?r p = blk ?r xs" using xs s by (simp add: blk_append)
    moreover have "keeps h ?h2" using h1(3) by (simp add: keeps_def)
    ultimately show ?thesis using step keeps_trans by metis
  qed
qed

lemma free_run:
  assumes hp: "hp h (p @ (n, SUsed) # q) t" and nl: "no_loose (p @ (n, SUsed) # q)"
  shows "\<exists>h' xs' t'. fphFree rand_r (en (fph_root h) p + LH) h = Some h' \<and> hp h' xs' t' \<and> no_loose xs' \<and> keeps h h' \<and>
    set (blk (fph_root h) xs') = set (blk (fph_root h) (p @ (n, SUsed) # q)) - {(en (fph_root h) p + LH, n)} \<and>
    xs' = trim (fragment_size h) (freed_row p n q)"
proof -
  let ?r = "fph_root h"
  let ?e = "en ?r p"
  have p: "p \<noteq> []" using first_free [OF hp] by simp
  from hp_header [OF hp] obtain l where l: "links h ?e = Some l" "lh_id l = FP_LINK_ID" "lh_used l = 1" "lh_prev l = lastp 0 ?r p"
    by (auto simp: segp_def used_flag_def)
  have prev: "lh_prev l \<noteq> 0" using l(4) lastp_root [OF p, of h] root_pos [of h] by simp
  let ?h1 = "h\<lparr>links := (links h)(?e \<mapsto> l\<lparr>lh_used := 0\<rparr>)\<rparr>"
  have hp1: "hp ?h1 (p @ (n, SLoose) # q) t" using mark_run [OF hp _ _ l(1), of SLoose] by (simp add: used_flag_def)
  have nls: "no_loose p" "no_loose q" using nl by (simp_all add: no_loose_append no_loose_Cons)
  have k1: "keeps h ?h1" by (simp add: keeps_def)
  from coalesce_run [OF hp1 nls, of rand_r] obtain h2 p2 n2 q2 t2 where
    h2: "fph_coalesce1 rand_r ?e ?h1 = Some (en ?r p2, h2)" "hp h2 (p2 @ (n2, SLoose) # q2) t2" "no_loose p2" "no_loose q2" "keeps ?h1 h2"
      "blk ?r (p2 @ (n2, SLoose) # q2) = blk ?r (p @ (n, SLoose) # q)" "p2 @ (n2, SFree) # q2 = freed_row p n q" by auto
  have r2: "fph_root h2 = ?r" using keeps_root [OF h2(5)] by simp
  from insert_run [OF h2(2)] obtain h3 t3 where
    h3: "fph_insert (en ?r p2) h2 = Some h3" "hp h3 (p2 @ (n2, SFree) # q2) t3" "keeps h2 h3" by (auto simp: r2)
  have r3: "fph_root h3 = ?r" using keeps_root [OF h3(3)] r2 by simp
  have "no_loose (p2 @ (n2, SFree) # q2)" using h2(3,4) by (simp add: no_loose_append no_loose_Cons)
  from shrink_run [OF h3(2) this, of rand_r] obtain h' xs' t' where
    h': "fph_shrink rand_r h3 = Some h'" "hp h' xs' t'" "no_loose xs'" "keeps h3 h'" "blk ?r xs' = blk ?r (p2 @ (n2, SFree) # q2)"
      "xs' = trim (fragment_size h3) (p2 @ (n2, SFree) # q2)"
    by (auto simp: r3)
  have "fphFree rand_r (?e + LH) h = Some h'"
    using l prev h2(1) h3(1) h'(1) by (simp add: fphFree_def fph_link_ok_def wr_def)
  moreover have "blk ?r xs' = blk ?r (p @ (n, SLoose) # q)" using h'(5) h2(6) by (simp add: blk_append)
  moreover have "(?e + LH, n) \<notin> set (blk ?r (p @ (n, SLoose) # q))" using blk_new [of ?r p n q] by force
  then have "set (blk ?r (p @ (n, SLoose) # q)) = set (blk ?r (p @ (n, SUsed) # q)) - {(?e + LH, n)}"
    by (auto simp: blk_append)
  moreover have "keeps h h'" using h2(5) h3(3) h'(4) by (simp add: keeps_def)
  moreover have "fragment_size h3 = fragment_size h" using h2(5) h3(3) by (simp add: keeps_def)
  then have "xs' = trim (fragment_size h) (freed_row p n q)" using h'(6) h2(7) by simp
  ultimately show ?thesis using h'(2,3) by auto
qed

subsection \<open>The contract of an allocator\<close>

text \<open>Clients request blocks and release blocks they hold; a client keeps a table of its pointers with
  the sizes it asked for.  Releasing anything else is a misuse; \<open>CFault\<close> stands for a fault or an
  abort of the allocator.\<close>

datatype alloc_op = Malloc nat | Free nat

datatype 'h client_outcome = CDone 'h "(nat \<times> nat) list" | CMisuse | CFault

fun client_run :: "(nat \<Rightarrow> 'h \<Rightarrow> (unit + nat \<times> 'h) option) \<Rightarrow> (nat \<Rightarrow> 'h \<Rightarrow> 'h option) \<Rightarrow> alloc_op list \<Rightarrow> 'h \<Rightarrow>
    (nat \<times> nat) list \<Rightarrow> 'h client_outcome" where
  "client_run mal fre [] h live = CDone h live"
| "client_run mal fre (Malloc sz # ops) h live =
     (case mal sz h of
        Some (Inr (p, h')) \<Rightarrow> client_run mal fre ops h' (if sz = 0 then live else (p, sz) # live)
      | _ \<Rightarrow> CFault)"
| "client_run mal fre (Free p # ops) h live =
     (if p \<in> fst ` set live
      then case fre p h of
             Some h' \<Rightarrow> client_run mal fre ops h' (filter (\<lambda>(q, n). q \<noteq> p) live)
           | None \<Rightarrow> CFault
      else CMisuse)"

text \<open>The blocks a client holds do not overlap.\<close>

definition apart :: "(nat \<times> nat) set \<Rightarrow> bool" where
  "apart B \<longleftrightarrow> (\<forall>p n q m. (p, n) \<in> B \<longrightarrow> (q, m) \<in> B \<longrightarrow> (p, n) \<noteq> (q, m) \<longrightarrow> p + n \<le> q \<or> q + m \<le> p)"

lemma fst_image: "q \<in> fst ` A \<longleftrightarrow> (\<exists>j. (q, j) \<in> A)"
  by force

lemma apartD: "apart B \<Longrightarrow> (p, n) \<in> B \<Longrightarrow> (q, m) \<in> B \<Longrightarrow> (p, n) \<noteq> (q, m) \<Longrightarrow> p + n \<le> q \<or> q + m \<le> p"
  unfolding apart_def by blast

locale allocator =
  fixes inv :: "'h \<Rightarrow> bool" and alloc :: "'h \<Rightarrow> (nat \<times> nat) set"
    and mal :: "nat \<Rightarrow> 'h \<Rightarrow> (unit + nat \<times> 'h) option" and fre :: "nat \<Rightarrow> 'h \<Rightarrow> 'h option"
  assumes mal_law: "inv h \<Longrightarrow> 0 < sz \<Longrightarrow> \<exists>p k h'. mal sz h = Some (Inr (p, h')) \<and> inv h' \<and> alloc h' = insert (p, k) (alloc h) \<and>
      p \<notin> fst ` alloc h \<and> sz \<le> k"
    and mal_zero: "mal 0 h = Some (Inr (0, h))"
    and fre_law: "inv h \<Longrightarrow> (p, k) \<in> alloc h \<Longrightarrow> \<exists>h'. fre p h = Some h' \<and> inv h' \<and> alloc h' = alloc h - {(p, k)}"
    and apart_law: "inv h \<Longrightarrow> apart (alloc h)"
    and size_law: "inv h \<Longrightarrow> (p, k) \<in> alloc h \<Longrightarrow> 0 < k"
begin

definition serves :: "'h \<Rightarrow> (nat \<times> nat) list \<Rightarrow> bool" where
  "serves h live \<longleftrightarrow> inv h \<and> distinct (map fst live) \<and> fst ` alloc h = fst ` set live \<and>
     (\<forall>p n. (p, n) \<in> set live \<longrightarrow> (\<exists>k. (p, k) \<in> alloc h \<and> n \<le> k))"

lemma one_size:
  assumes "inv h" "(p, k) \<in> alloc h" "(p, j) \<in> alloc h"
  shows "k = j"
proof (rule ccontr)
  assume "k \<noteq> j"
  with apartD [OF apart_law [OF assms(1)] assms(2,3)] have "p + k \<le> p \<or> p + j \<le> p" by simp
  with size_law [OF assms(1,2)] size_law [OF assms(1,3)] show False by simp
qed

lemma serves_apart:
  assumes "serves h live"
  shows "apart (set live)"
  unfolding apart_def
proof (intro allI impI)
  fix p n q m
  assume xy: "(p, n) \<in> set live" "(q, m) \<in> set live" "(p, n) \<noteq> (q, m)"
  from assms xy(1) obtain k where k: "(p, k) \<in> alloc h" "n \<le> k" unfolding serves_def by blast
  from assms xy(2) obtain j where j: "(q, j) \<in> alloc h" "m \<le> j" unfolding serves_def by blast
  have "p \<noteq> q" using assms xy by (auto simp: serves_def dest: eq_key_imp_eq_value)
  then have "p + k \<le> q \<or> q + j \<le> p"
    using apartD [OF apart_law k(1) j(1)] assms by (simp add: serves_def)
  with k(2) j(2) show "p + n \<le> q \<or> q + m \<le> p" by linarith
qed

lemma serves_mal:
  assumes "serves h live" "0 < sz"
  shows "\<exists>p h'. mal sz h = Some (Inr (p, h')) \<and> serves h' ((p, sz) # live)"
proof -
  from assms have inv: "inv h" and al: "fst ` alloc h = fst ` set live" "distinct (map fst live)"
    and sz: "\<And>p n. (p, n) \<in> set live \<Longrightarrow> \<exists>k. (p, k) \<in> alloc h \<and> n \<le> k" unfolding serves_def by blast+
  from mal_law [OF inv assms(2)] obtain p k h' where m: "mal sz h = Some (Inr (p, h'))" "inv h'" "alloc h' = insert (p, k) (alloc h)"
    "p \<notin> fst ` alloc h" "sz \<le> k" by blast
  have "serves h' ((p, sz) # live)"
    unfolding serves_def
  proof (intro conjI allI impI)
    show "distinct (map fst ((p, sz) # live))" "fst ` alloc h' = fst ` set ((p, sz) # live)" using m al by auto
    fix q n
    assume "(q, n) \<in> set ((p, sz) # live)"
    then consider "q = p" "n = sz" | "(q, n) \<in> set live" by auto
    then show "\<exists>k. (q, k) \<in> alloc h' \<and> n \<le> k" by cases (use m sz [of q n] in auto)
  qed (rule m(2))
  with m(1) show ?thesis by blast
qed

lemma serves_fre:
  assumes "serves h live" "p \<in> fst ` set live"
  shows "\<exists>h'. fre p h = Some h' \<and> serves h' (filter (\<lambda>(q, n). q \<noteq> p) live)"
proof -
  from assms have inv: "inv h" and al: "fst ` alloc h = fst ` set live" "distinct (map fst live)"
    and sz: "\<And>p n. (p, n) \<in> set live \<Longrightarrow> \<exists>k. (p, k) \<in> alloc h \<and> n \<le> k" unfolding serves_def by blast+
  from assms(2) al(1) obtain k where k: "(p, k) \<in> alloc h" by (metis imageE prod.collapse)
  from fre_law [OF inv k] obtain h' where h': "fre p h = Some h'" "inv h'" "alloc h' = alloc h - {(p, k)}" by blast
  have mem: "(q, j) \<in> alloc h' \<longleftrightarrow> (q, j) \<in> alloc h \<and> q \<noteq> p" for q j using one_size [OF inv k] h'(3) by auto
  have "serves h' (filter (\<lambda>(q, n). q \<noteq> p) live)"
    unfolding serves_def
  proof (intro conjI allI impI)
    show "distinct (map fst (filter (\<lambda>(q, n). q \<noteq> p) live))" using al(2) by (simp add: distinct_map_filter)
    have A: "q \<in> fst ` alloc h' \<longleftrightarrow> q \<in> fst ` alloc h \<and> q \<noteq> p" for q
      by (simp add: fst_image mem)
    have B: "q \<in> fst ` set (filter (\<lambda>(q, n). q \<noteq> p) live) \<longleftrightarrow> q \<in> fst ` set live \<and> q \<noteq> p" for q
      by (auto simp: fst_image)
    show "fst ` alloc h' = fst ` set (filter (\<lambda>(q, n). q \<noteq> p) live)" by (rule set_eqI) (simp only: A B al(1))
    fix q n
    assume "(q, n) \<in> set (filter (\<lambda>(q, n). q \<noteq> p) live)"
    then show "\<exists>k. (q, k) \<in> alloc h' \<and> n \<le> k" using sz [of q n] mem by auto
  qed (rule h'(2))
  with h'(1) show ?thesis by blast
qed

lemma client_safe:
  assumes "serves h live"
  shows "case client_run mal fre ops h live of CDone h' live' \<Rightarrow> serves h' live' | CMisuse \<Rightarrow> True | CFault \<Rightarrow> False"
  using assms
proof (induction ops arbitrary: h live)
  case (Cons op ops)
  show ?case
  proof (cases op)
    case (Malloc sz)
    show ?thesis
    proof (cases "sz = 0")
      case True
      with Cons Malloc show ?thesis by (simp add: mal_zero)
    next
      case False
      with serves_mal [OF Cons.prems] obtain p h' where "mal sz h = Some (Inr (p, h'))" "serves h' ((p, sz) # live)" by blast
      with Cons.IH False Malloc show ?thesis by simp
    qed
  next
    case (Free p)
    show ?thesis
    proof (cases "p \<in> fst ` set live")
      case True
      with serves_fre [OF Cons.prems True] obtain h' where "fre p h = Some h'" "serves h' (filter (\<lambda>(q, n). q \<noteq> p) live)" by blast
      with Cons.IH True Free show ?thesis by simp
    qed (simp add: Free)
  qed
qed simp

end

lemma blk_from: "(p, n) \<in> set (blk a xs) \<Longrightarrow> a + LH \<le> p"
proof (induction xs arbitrary: a)
  case (Cons x xs)
  obtain k s where x: "x = (k, s)" by fastforce
  show ?case
  proof (cases "(p, n) \<in> set (blk (a + LH + k) xs)")
    case True
    from Cons.IH [OF this] show ?thesis by simp
  next
    case False
    with Cons.prems x show ?thesis by (auto split: if_splits)
  qed
qed simp

lemma blk_apart: "apart (set (blk a xs))"
proof (induction xs arbitrary: a)
  case (Cons x xs)
  obtain n s where x: "x = (n, s)" by fastforce
  let ?B = "set (blk (a + LH + n) xs)"
  have "a + LH + n \<le> p" if "(p, k) \<in> ?B" for p k using blk_from [OF that] by simp
  then have "apart (insert (a + LH, n) ?B)" using Cons.IH [of "a + LH + n"] unfolding apart_def by auto
  with Cons.IH [of "a + LH + n"] show ?case by (cases "s = SUsed") (auto simp: x)
qed (simp add: apart_def)

lemma blk_used: "(p, k) \<in> set (blk a xs) \<Longrightarrow> \<exists>u q. xs = u @ (k, SUsed) # q \<and> p = en a u + LH"
proof (induction xs arbitrary: a)
  case (Cons x xs)
  obtain n s where x: "x = (n, s)" by fastforce
  show ?case
  proof (cases "s = SUsed \<and> (p, k) = (a + LH, n)")
    case True
    then have "x # xs = [] @ (k, SUsed) # xs \<and> p = en a [] + LH" by (simp add: x)
    then show ?thesis by blast
  next
    case False
    with Cons.prems x have "(p, k) \<in> set (blk (a + LH + n) xs)" by (auto split: if_splits)
    from Cons.IH [OF this] obtain u q where "xs = u @ (k, SUsed) # q" "p = en (a + LH + n) u + LH" by blast
    then have "x # xs = (x # u) @ (k, SUsed) # q \<and> p = en a (x # u) + LH" by (simp add: x)
    then show ?thesis by blast
  qed
qed simp

lemma fph_malloc_law:
  assumes "heap_inv h" "0 < sz"
  shows "\<exists>p k h'. fphMalloc rand_r sz h = Some (Inr (p, h')) \<and> heap_inv h' \<and> allocated h' = insert (p, k) (allocated h) \<and>
    p \<notin> fst ` allocated h \<and> sz \<le> k \<and> k \<le> sz + sz div 2 + 2 * LH"
proof -
  from assms(1) obtain xs t where hp: "hp h xs t" "no_loose xs" by (auto simp: heap_inv_def)
  from malloc_served [OF hp assms(2), of rand_r] obtain p h' xs' t' k where m: "fphMalloc rand_r sz h = Some (Inr (p, h'))" "hp h' xs' t'" "no_loose xs'" "keeps h h'"
    "set (blk (fph_root h) xs') = insert (p, k) (set (blk (fph_root h) xs))" "p \<notin> fst ` set (blk (fph_root h) xs)"
    "sz \<le> k" "k \<le> sz + sz div 2 + 2 * LH" by blast
  have "heap_inv h'" using m(2,3) by (auto simp: heap_inv_def)
  moreover have "allocated h' = insert (p, k) (allocated h)" "p \<notin> fst ` allocated h"
    using m(5,6) by (simp_all add: hp_blocks [OF hp(1)] hp_blocks [OF m(2)] keeps_root [OF m(4)])
  ultimately show ?thesis using m(1,7,8) by blast
qed

text \<open>The row of segments of a heap, read off the headers in the file.\<close>

definition row :: "fp_heap \<Rightarrow> seg list \<Rightarrow> bool" where
  "row h xs \<longleftrightarrow> sg (links h) 0 (fph_root h) xs 0 \<and> dom (links h) = set (ad (fph_root h) xs) \<and> no_loose xs"

lemma fph_free_row:
  assumes "heap_inv h" "(p, k) \<in> allocated h"
  shows "\<exists>u q h'. row h (u @ (k, SUsed) # q) \<and> p = en (fph_root h) u + LH \<and>
    fphFree rand_r p h = Some h' \<and> heap_inv h' \<and> allocated h' = allocated h - {(p, k)} \<and>
    fph_root h' = fph_root h \<and> row h' (trim (fragment_size h) (freed_row u k q))"
proof -
  from assms(1) obtain xs t where hp: "hp h xs t" "no_loose xs" by (auto simp: heap_inv_def)
  from assms(2) hp_blocks [OF hp(1)] blk_used obtain u q where x: "xs = u @ (k, SUsed) # q" "p = en (fph_root h) u + LH" by blast
  from free_run [of h u k q t rand_r] hp x obtain h' xs' t' where f: "fphFree rand_r p h = Some h'" "hp h' xs' t'" "no_loose xs'" "keeps h h'"
    "set (blk (fph_root h) xs') = set (blk (fph_root h) xs) - {(p, k)}" "xs' = trim (fragment_size h) (freed_row u k q)" by auto
  have "heap_inv h'" using f(2,3) by (auto simp: heap_inv_def)
  moreover have "allocated h' = allocated h - {(p, k)}"
    using f(5) by (simp add: hp_blocks [OF hp(1)] hp_blocks [OF f(2)] keeps_root [OF f(4)])
  moreover have "row h (u @ (k, SUsed) # q)" "row h' (trim (fragment_size h) (freed_row u k q))"
    using hp f(2,3,6) x(1) by (simp_all add: row_def hp_def)
  ultimately show ?thesis using f(1) x(2) keeps_root [OF f(4)] by blast
qed

lemma fph_free_law:
  assumes "heap_inv h" "(p, k) \<in> allocated h"
  shows "\<exists>h'. fphFree rand_r p h = Some h' \<and> heap_inv h' \<and> allocated h' = allocated h - {(p, k)}"
  using fph_free_row [OF assms] by blast

interpretation fp: allocator heap_inv allocated "fphMalloc rand_r" "fphFree rand_r" for rand_r
proof
  fix h :: fp_heap and sz :: nat
  assume "heap_inv h" "0 < sz"
  with fph_malloc_law show "\<exists>p k h'. fphMalloc rand_r sz h = Some (Inr (p, h')) \<and> heap_inv h' \<and> allocated h' = insert (p, k) (allocated h) \<and>
      p \<notin> fst ` allocated h \<and> sz \<le> k" by blast
next
  show "fphMalloc rand_r 0 h = Some (Inr (0, h))" for h by (simp add: fphMalloc_def)
next
  show "\<exists>h'. fphFree rand_r p h = Some h' \<and> heap_inv h' \<and> allocated h' = allocated h - {(p, k)}"
    if "heap_inv h" "(p, k) \<in> allocated h" for h p k using fph_free_law that by blast
next
  fix h
  assume "heap_inv h"
  then obtain xs t where "hp h xs t" by (auto simp: heap_inv_def)
  from hp_blocks [OF this] blk_apart show "apart (allocated h)" by metis
next
  fix h p k
  assume "heap_inv h" and k: "(p, k) \<in> allocated h"
  then obtain xs t where hp: "hp h xs t" by (auto simp: heap_inv_def)
  with k hp_blocks blk_used obtain u q where "xs = u @ (k, SUsed) # q" by blast
  with hp hp_pos [of h u k SUsed q t] first_free [of h u k SUsed q t] show "0 < k" by auto
qed

subsection \<open>Properties of the allocator\<close>

lemma init_hp: "hp (fphInit pos seed) [(0, SFree)] (Node Leaf (fph_root (fphInit pos seed)) Leaf)"
  by (simp add: hp_def fphInit_def fph_root_def trt_def segp_def used_flag_def szf_def sizeof_heap_header_def)

lemma init_heap_inv: "heap_inv (fphInit pos seed)"
  using init_hp [of pos seed] by (auto simp: heap_inv_def no_loose_def)

lemma fragment_heap_inv: "heap_inv h \<Longrightarrow> heap_inv (fphSetFragmentSize h fs)"
  by (auto simp: heap_inv_def hp_def fphSetFragmentSize_def fph_root_def)

lemma init_allocated: "allocated (fphInit pos seed) = {}"
  by (auto simp: allocated_def fphInit_def split: if_splits)

lemma attach_heap_inv: "heap_inv h \<Longrightarrow> fphAttach h = (0, h\<lparr>fragment_size := 10 * MIBYTES\<rparr>) \<and> heap_inv (snd (fphAttach h))"
  by (auto simp: heap_inv_def hp_def fphAttach_def fph_root_def)

text \<open>The counters of the statistics are total and correct on a well-formed heap.\<close>

lemma count_loop_run: "sg m pv a xs 0 \<Longrightarrow> 0 < a \<Longrightarrow> xs \<noteq> [] \<Longrightarrow> fph_count_loop a rv m = Some (rv + length xs)"
proof (induction xs arbitrary: pv a rv)
  case (Cons x xs)
  obtain n s where x: "x = (n, s)" by fastforce
  from Cons.prems x obtain l where l: "m a = Some l" "lh_id l = FP_LINK_ID" "lh_next l = (if xs = [] then 0 else a + LH + n)"
    by (auto simp: segp_def)
  show ?case
  proof (cases "xs = []")
    case True
    with l Cons.prems show ?thesis by (subst fph_count_loop.simps) (simp add: fph_count_loop.simps)
  next
    case False
    with Cons.IH [of a "a + LH + n" "Suc rv"] Cons.prems x l show ?thesis by (subst fph_count_loop.simps) simp
  qed
qed simp

lemma count_nodes_run: "hp h xs t \<Longrightarrow> fph_count_nodes h = Some (length xs)"
  using count_loop_run [of "links h" 0 "fph_root h" xs 0] root_pos [of h] by (auto simp: hp_def fph_count_nodes_def)

lemma count_free_run: "tr m par p t \<Longrightarrow> fph_count_free m p = Some (size t)"
proof (induction t arbitrary: par p)
  case Leaf
  then show ?case by (simp add: fph_count_free.simps)
next
  case (Node l a r)
  then obtain h where "m a = Some h" "p = a" "a \<noteq> 0" "tr m a (lh_smaller h) l" "tr m a (lh_bigger h) r" by (auto split: option.splits)
  with Node.IH show ?case by (subst fph_count_free.simps) (fastforce simp: fph_count_free.simps)
qed

text \<open>A free segment of a heap, apart from the dummy at its start.\<close>

definition free_segment :: "fp_heap \<Rightarrow> nat \<Rightarrow> nat \<Rightarrow> bool" where
  "free_segment h a n \<longleftrightarrow> a \<noteq> fph_root h \<and> (\<exists>l. links h a = Some l \<and> lh_used l = 0 \<and> lh_size l = n)"

lemma free_segment_listed:
  assumes "hp h xs t" "no_loose xs" "free_segment h a n"
  shows "(n, SFree) \<in> set xs"
proof -
  from assms(3) obtain l where l: "links h a = Some l" "lh_used l = 0" "lh_size l = n" by (auto simp: free_segment_def)
  then have "a \<in> set (ad (fph_root h) xs)" using assms(1) by (auto simp: hp_def)
  from split_ad [OF this] obtain p k s q where x: "xs = p @ (k, s) # q" "a = en (fph_root h) p" by blast
  from hp_header [of h p k s q t] assms(1) x l have "used_flag s = 0" "k = n" by (auto simp: segp_def)
  moreover have "s \<noteq> SLoose" using assms(2) x by (simp add: no_loose_append no_loose_Cons)
  ultimately have "s = SFree" by (cases s) (auto simp: used_flag_def)
  with x \<open>k = n\<close> show ?thesis by simp
qed

lemma listed_free_segment:
  assumes "hp h (p @ (n, SFree) # q) t" "p \<noteq> []"
  shows "free_segment h (en (fph_root h) p) n"
  using hp_header [OF assms(1)] en_root [OF assms(2), of h] by (auto simp: free_segment_def segp_def used_flag_def)

text \<open>C8: Whatever blocks a client requests from a new heap in a file, and whatever blocks of its own it
  releases in between, in any order and for any random numbers, the allocator never faults,
  never aborts and always returns; the blocks the client holds are exactly the allocated ones, each
  at least as big as requested, and no two of them overlap.\<close>
theorem fp_client_safe:
  "case client_run (fphMalloc rand_r) (fphFree rand_r) ops (fphSetFragmentSize (fphInit pos seed) fs) [] of
     CDone h live \<Rightarrow> distinct (map fst live) \<and> fst ` allocated h = fst ` set live \<and> apart (set live) \<and> apart (allocated h) \<and>
       (\<forall>p n. (p, n) \<in> set live \<longrightarrow> (\<exists>k. (p, k) \<in> allocated h \<and> n \<le> k))
   | CMisuse \<Rightarrow> True
   | CFault \<Rightarrow> False"
proof -
  let ?h = "fphSetFragmentSize (fphInit pos seed) fs"
  have "allocated ?h = {}" using init_allocated by (simp add: allocated_def fphSetFragmentSize_def)
  then have "fp.serves ?h []" using fragment_heap_inv [OF init_heap_inv] by (simp add: fp.serves_def)
  from fp.client_safe [OF this, of rand_r ops] show ?thesis
    using fp.serves_apart fp.apart_law by (auto simp: fp.serves_def split: client_outcome.splits)
qed

lemma only_mallocs: "\<forall>op\<in>set ops. \<exists>n. op = Malloc n \<Longrightarrow> client_run mal fre ops h live \<noteq> CMisuse"
  by (induction ops arbitrary: h live) (auto split: option.splits sum.splits)

theorem fp_client_safe_witness:
  "\<exists>h live. client_run (fphMalloc (\<lambda>s. (0, s))) (fphFree (\<lambda>s. (0, s))) [Malloc 100, Malloc 2000, Malloc 1]
     (fphSetFragmentSize (fphInit 0 0) 512) [] = CDone h live \<and> apart (set live)"
proof -
  let ?o = "client_run (fphMalloc (\<lambda>s. (0, s))) (fphFree (\<lambda>s. (0, s))) [Malloc 100, Malloc 2000, Malloc 1]
     (fphSetFragmentSize (fphInit 0 0) 512) []"
  have "?o \<noteq> CMisuse" by (rule only_mallocs) auto
  then show ?thesis
    using fp_client_safe [of "\<lambda>s. (0, s)" "[Malloc 100, Malloc 2000, Malloc 1]" 0 0 512]
    by (cases ?o) (auto simp del: client_run.simps)
qed

text \<open>C17: In every well-formed heap a request is served: the block is new, has at least the requested size and
  wastes at most half of it and two headers, every other block stays as it is, and the heap is
  well-formed afterwards; in particular the branch that calls \<open>abort\<close> is never reached.\<close>
theorem fphMalloc_allocates:
  assumes "heap_inv h" and "0 < sz"
  shows "\<exists>p k h'. fphMalloc rand_r sz h = Some (Inr (p, h')) \<and> heap_inv h' \<and> allocated h' = insert (p, k) (allocated h) \<and>
    p \<notin> fst ` allocated h \<and> sz \<le> k \<and> k \<le> sz + sz div 2 + 2 * sizeof_link_header"
  by (rule fph_malloc_law [OF assms])

theorem fphMalloc_allocates_witness:
  "\<exists>p k h'. fphMalloc (\<lambda>s. (0, s)) 7 (fphInit 0 0) = Some (Inr (p, h')) \<and> allocated h' = {(p, k)} \<and> 7 \<le> k"
  using fphMalloc_allocates [OF init_heap_inv, of 7 "\<lambda>s. (0, s)" 0 0] by (auto simp: init_allocated)

text \<open>C18: Releasing an allocated block of a well-formed heap removes exactly that block and keeps the heap
  well-formed: all other blocks stay where they are.  In the row of segments of the file the block becomes free and is
  joined with a free segment behind it and with a free one before it (other than the dummy at the start of the file), after
  which the file is cut while its last segment is free and at least twice the fragment size.  A pointer to a segment that
  is not in use is refused and nothing changes.\<close>
theorem fphFree_releases:
  assumes "heap_inv h"
  shows "((p, k) \<in> allocated h \<longrightarrow> (\<exists>u q h'. row h (u @ (k, SUsed) # q) \<and> p = en (fph_root h) u + LH \<and>
        fphFree rand_r p h = Some h' \<and> heap_inv h' \<and> allocated h' = allocated h - {(p, k)} \<and>
        fph_root h' = fph_root h \<and> row h' (trim (fragment_size h) (freed_row u k q))))
    \<and> (free_segment h a n \<longrightarrow> fphFree rand_r (a + sizeof_link_header) h = Some h)"
proof (intro conjI impI)
  show "(p, k) \<in> allocated h \<Longrightarrow> \<exists>u q h'. row h (u @ (k, SUsed) # q) \<and> p = en (fph_root h) u + LH \<and>
      fphFree rand_r p h = Some h' \<and> heap_inv h' \<and> allocated h' = allocated h - {(p, k)} \<and>
      fph_root h' = fph_root h \<and> row h' (trim (fragment_size h) (freed_row u k q))"
    by (rule fph_free_row [OF assms])
  assume "free_segment h a n"
  then show "fphFree rand_r (a + sizeof_link_header) h = Some h"
    by (auto simp: free_segment_def fphFree_def fph_link_ok_def)
qed

theorem fphFree_releases_witness:
  "\<exists>p h h'. fphMalloc (\<lambda>s. (0, s)) 7 (fphInit 0 0) = Some (Inr (p, h)) \<and> fphFree (\<lambda>s. (0, s)) p h = Some h' \<and> allocated h' = {}"
proof -
  from fph_malloc_law [OF init_heap_inv, of 7 "\<lambda>s. (0, s)" 0 0] obtain p k h where
    h: "fphMalloc (\<lambda>s. (0, s)) 7 (fphInit 0 0) = Some (Inr (p, h))" "heap_inv h" "allocated h = {(p, k)}"
    by (auto simp: init_allocated)
  from fphFree_releases [OF h(2), of p k "\<lambda>s. (0, s)" 0 0] h show ?thesis by auto
qed

text \<open>C22: The search in the tree of free segments always ends and is a best fit: it takes a free segment of the smallest
  sufficient size, and reports none only if every free segment is too small.\<close>
theorem fph_get_best_fit:
  assumes "heap_inv h" and "0 < sz"
  shows "\<exists>a m s. fph_get rand_r (fph_root h) sz (fph_seed h) (links h) = Some (a, m, s) \<and>
    (if a = 0 then \<forall>b k. free_segment h b k \<longrightarrow> k < sz
     else \<exists>n. free_segment h a n \<and> sz \<le> n \<and> (\<forall>b k. free_segment h b k \<and> sz \<le> k \<longrightarrow> n \<le> k))"
proof -
  from assms(1) obtain xs t where hp: "hp h xs t" "no_loose xs" by (auto simp: heap_inv_def)
  note listed = free_segment_listed [OF hp]
  from get_heap_run [OF hp(1) assms(2), of rand_r] show ?thesis
  proof (elim disjE exE conjE)
    assume "fph_get rand_r (fph_root h) sz (fph_seed h) (links h) = Some (0, links h, fph_seed h)" "\<forall>k. (k, SFree) \<in> set xs \<longrightarrow> k < sz"
    then show ?thesis using listed by auto
  next
    fix p n q m s t'
    assume g: "fph_get rand_r (fph_root h) sz (fph_seed h) (links h) = Some (en (fph_root h) p, m, s)"
      and xs: "xs = p @ (n, SFree) # q" "p \<noteq> []" and bf: "best_fit sz n xs"
    have "free_segment h (en (fph_root h) p) n" using listed_free_segment [of h p n q t] hp(1) xs by simp
    moreover have "en (fph_root h) p \<noteq> 0" using en_ge [of "fph_root h" p] root_pos [of h] by linarith
    ultimately show ?thesis using g bf listed unfolding best_fit_def by auto
  qed
qed

theorem fph_get_best_fit_witness:
  "\<exists>h a m s n. fph_grow 100 (fphInit 0 0) = Some h \<and>
    fph_get (\<lambda>s. (0, s)) (fph_root h) 60 (fph_seed h) (links h) = Some (a, m, s) \<and> free_segment h a n \<and> 60 \<le> n"
proof -
  have "hp (fphInit 0 0) [(0, SFree)] (Node Leaf (fph_root (fphInit 0 0)) Leaf)" by (rule init_hp)
  from grow_run [OF this, of 100] obtain h t k where
    h: "fph_grow 100 (fphInit 0 0) = Some h" "hp h ([(0, SFree)] @ (k, SFree) # []) t" "100 \<le> k" by auto
  have "heap_inv h" using h(2) by (auto simp: heap_inv_def no_loose_def)
  from fph_get_best_fit [OF this, of 60 "\<lambda>s. (0, s)"] obtain a m s where
    g: "fph_get (\<lambda>s. (0, s)) (fph_root h) 60 (fph_seed h) (links h) = Some (a, m, s)"
      "if a = 0 then \<forall>b k. free_segment h b k \<longrightarrow> k < 60
       else \<exists>n. free_segment h a n \<and> 60 \<le> n \<and> (\<forall>b k. free_segment h b k \<and> 60 \<le> k \<longrightarrow> n \<le> k)" by auto
  have "free_segment h (en (fph_root h) [(0, SFree)]) k" using listed_free_segment [OF h(2)] by simp
  with h(3) have "\<not> (\<forall>b k. free_segment h b k \<longrightarrow> k < 60)" by force
  with g(2) have "\<exists>n. free_segment h a n \<and> 60 \<le> n" by (auto split: if_splits)
  with h(1) g(1) show ?thesis by blast
qed

end
