(* ===== verification/SitCom.thy ===== *)
theory SitCom
  imports SecCommon SecEx
begin

text \<open>
  stream/sit_com.c: compiling selection and discontinuity information sections and cutting
  a section into transport stream packets.  A write outside the section or behind the allocated
  packets is a fault.  What the extractor of stream/sec_ex.c reassembles from the packets is
  the section again.
\<close>

subsection \<open>Writing into buffers\<close>

definition put8 :: "buffer \<Rightarrow> nat \<Rightarrow> u8 \<Rightarrow> buffer option" where
  "put8 b i v = (if i < length b then Some (b[i := v]) else None)"

text \<open>\<open>memmove\<close> of a value that has gone through \<open>htons\<close> or \<open>htonl\<close>.\<close>

definition put_be16 :: "buffer \<Rightarrow> nat \<Rightarrow> u16 \<Rightarrow> buffer option" where
  "put_be16 b i v = do { b \<leftarrow> put8 b i (ucast (drop_bit 8 v)); put8 b (i + 1) (ucast v) }"

definition put_be32 :: "buffer \<Rightarrow> nat \<Rightarrow> u32 \<Rightarrow> buffer option" where
  "put_be32 b i v = do {
     b \<leftarrow> put8 b i (ucast (drop_bit 24 v)); b \<leftarrow> put8 b (i + 1) (ucast (drop_bit 16 v));
     b \<leftarrow> put8 b (i + 2) (ucast (drop_bit 8 v)); put8 b (i + 3) (ucast v)
   }"

subsection \<open>Compiling sections\<close>

definition DIT_TID :: u8 where "DIT_TID = 0x7E"
definition SIT_TID :: u8 where "SIT_TID = 0x7F"

definition ditCompile :: "bool \<Rightarrow> buffer \<Rightarrow> (nat \<times> buffer) option" where
  "ditCompile ts_change section = do {
     let slen = 1;
     s \<leftarrow> put8 section 0 DIT_TID;
     s \<leftarrow> put_be16 s 1 (word_of_nat slen OR push_bit 12 7 OR push_bit 15 1);
     s \<leftarrow> put8 s 3 ((if ts_change then push_bit 7 1 else 0) OR 0x7f);
     Some (slen + 3, s)
   }"

text \<open>The loop over the programme numbers; the length \<open>slen\<close> never exceeds 4092, and an
  inner \<open>None\<close> is the early return when the section is full.\<close>

fun sit_loop :: "u16 list \<Rightarrow> nat \<Rightarrow> buffer \<Rightarrow> (nat option \<times> buffer) option" where
  "sit_loop [] slen s = Some (Some slen, s)"
| "sit_loop (pnr # pnrs) slen s =
     (if slen + 4 > 4092 then Some (None, s)
      else do {
        s \<leftarrow> put_be16 s slen pnr;
        s \<leftarrow> put_be16 s (slen + 2) (push_bit 12 4 OR push_bit 15 1);
        sit_loop pnrs (slen + 4) s
      })"

definition sitCompile :: "u16 list \<Rightarrow> u8 \<Rightarrow> buffer \<Rightarrow> (nat \<times> buffer) option" where
  "sitCompile pnrs vnr section = do {
     s \<leftarrow> put8 section 0 SIT_TID;
     s \<leftarrow> put_be16 s 3 0xffff;
     s \<leftarrow> put8 s 5 (push_bit 1 (vnr AND 31) OR 1 OR push_bit 6 3);
     s \<leftarrow> put8 s 6 0;
     s \<leftarrow> put8 s 7 0;
     s \<leftarrow> put_be16 s 8 0xf000;
     (r, s) \<leftarrow> sit_loop pnrs 10 s;
     (case r of
        None \<Rightarrow> Some (0, s)
      | Some l \<Rightarrow> do {
          let slen = l - 3 + 4;
          s \<leftarrow> put_be16 s 1 (word_of_nat slen OR push_bit 12 7 OR push_bit 15 1);
          crc \<leftarrow> sec_crc32 s (slen + 3 - 4);
          s \<leftarrow> put_be32 s (slen + 3 - 4) crc;
          Some (slen + 3, s)
        })
   }"

subsection \<open>Cutting into packets\<close>

definition ts_put_ctr :: "buffer \<Rightarrow> u8 \<Rightarrow> (int \<times> buffer) option" where
  "ts_put_ctr ts ctr = do { x \<leftarrow> rd ts 3; ts \<leftarrow> put8 ts 3 ((x AND NOT 15) OR (ctr AND 15)); Some (0, ts) }"

definition TS_SYNC_BYTE :: u8 where "TS_SYNC_BYTE = 0x47"

text \<open>The header of packet \<open>k\<close> at \<open>p\<close>, and the offset at which its payload continues.\<close>

definition ts_header_bytes :: "u16 \<Rightarrow> nat \<Rightarrow> nat \<Rightarrow> buffer \<Rightarrow> (nat \<times> buffer) option" where
  "ts_header_bytes pid k p rv = do {
     rv \<leftarrow> put8 rv p TS_SYNC_BYTE;
     rv \<leftarrow> put_be16 rv (p + 1) ((if k = 0 then push_bit 14 1 else 0) OR pid);
     rv \<leftarrow> put8 rv (p + 3) (push_bit 4 1 OR (word_of_nat k AND 15));
     (if k = 0 then do { rv \<leftarrow> put8 rv (p + 4) 0; Some (5, rv) } else Some (4, rv))
   }"

text \<open>The loop over the bytes of the section; \<open>k\<close> is the index of the current packet.\<close>

fun sec_to_ts_loop :: "u16 \<Rightarrow> u8 list \<Rightarrow> nat \<Rightarrow> int \<Rightarrow> buffer \<Rightarrow> (nat \<times> int \<times> buffer) option" where
  "sec_to_ts_loop pid [] j k rv = Some (j, k, rv)"
| "sec_to_ts_loop pid (x # xs) j k rv = do {
     (j, k, rv) \<leftarrow> (if j \<ge> TS_LEN
        then do { (j, rv) \<leftarrow> ts_header_bytes pid (nat (k + 1)) (TS_LEN * nat (k + 1)) rv; Some (j, k + 1, rv) }
        else Some (j, k, rv));
     rv \<leftarrow> put8 rv (TS_LEN * nat k + j) x;
     sec_to_ts_loop pid xs (j + 1) k rv
   }"

text \<open>The last packet is filled up.\<close>

fun sec_to_ts_fill :: "nat \<Rightarrow> nat \<Rightarrow> buffer \<Rightarrow> buffer option" where
  "sec_to_ts_fill p 0 rv = Some rv"
| "sec_to_ts_fill p (Suc n) rv = do { rv \<leftarrow> put8 rv p 0xff; sec_to_ts_fill (p + 1) n rv }"

text \<open>The packets one behind the other; the allocation succeeds.\<close>

definition sec_to_ts :: "u8 list \<Rightarrow> u16 \<Rightarrow> (nat \<times> buffer) option" where
  "sec_to_ts raw_section pid = do {
     let raw_content_sz = length raw_section + 1;
     let payload_ts = TS_LEN - 4;
     let num_ts = (raw_content_sz + (payload_ts - 1)) div payload_ts;
     (j, k, rv) \<leftarrow> sec_to_ts_loop pid raw_section TS_LEN (-1) (replicate (num_ts * TS_LEN) 0);
     rv \<leftarrow> sec_to_ts_fill (TS_LEN * nat k + j) (TS_LEN - j) rv;
     Some (num_ts, rv)
   }"

subsection \<open>The compiled section\<close>

text \<open>Writing at the end of what has been written so far.\<close>

lemma put8_next: "length xs = i \<Longrightarrow> 1 \<le> length ys \<Longrightarrow> put8 (xs @ ys) i v = Some (xs @ v # drop 1 ys)"
  by (cases ys) (auto simp: put8_def list_update_append)

abbreviation be16 :: "u16 \<Rightarrow> buffer" where
  "be16 v \<equiv> [ucast (drop_bit 8 v), ucast v]"

abbreviation be32 :: "u32 \<Rightarrow> buffer" where
  "be32 v \<equiv> [ucast (drop_bit 24 v), ucast (drop_bit 16 v), ucast (drop_bit 8 v), ucast v]"

lemma put_be16_next: "length xs = i \<Longrightarrow> 2 \<le> length ys \<Longrightarrow> put_be16 (xs @ ys) i v = Some (xs @ be16 v @ drop 2 ys)"
  using put8_next [of xs i ys "ucast (drop_bit 8 v)"]
    put8_next [of "xs @ [ucast (drop_bit 8 v)]" "i + 1" "drop 1 ys" "ucast v"] by (simp add: put_be16_def numeral_2_eq_2)

lemma put_be32_next: "length xs = i \<Longrightarrow> 4 \<le> length ys \<Longrightarrow> put_be32 (xs @ ys) i v = Some (xs @ SitCom.be32 v @ drop 4 ys)"
  using put8_next [of xs i ys "ucast (drop_bit 24 v)"]
    put8_next [of "xs @ [ucast (drop_bit 24 v)]" "i + 1" "drop 1 ys" "ucast (drop_bit 16 v)"]
    put8_next [of "xs @ [ucast (drop_bit 24 v), ucast (drop_bit 16 v)]" "i + 2" "drop 2 ys" "ucast (drop_bit 8 v)"]
    put8_next [of "xs @ [ucast (drop_bit 24 v), ucast (drop_bit 16 v), ucast (drop_bit 8 v)]" "i + 3" "drop 3 ys" "ucast v"]
  by (simp add: put_be32_def eval_nat_numeral)

definition sit_entry :: "u16 \<Rightarrow> buffer" where
  "sit_entry p = be16 p @ [0xc0, 0]"

lemma length_sit_entry [simp]: "length (sit_entry p) = 4"
  by (simp add: sit_entry_def)

lemma put_entry:
  assumes "length pre = slen" "4 \<le> length rest"
  shows "(put_be16 (pre @ rest) slen p \<bind> (\<lambda>s. put_be16 s (slen + 2) (push_bit 12 4 OR push_bit 15 1)))
    = Some ((pre @ sit_entry p) @ drop 4 rest)"
proof -
  have v: "(push_bit 12 4 OR push_bit 15 1 :: u16) = 0xc000" by simp
  have "put_be16 (pre @ rest) slen p = Some ((pre @ be16 p) @ drop 2 rest)"
    using assms put_be16_next [of pre slen rest p] by simp
  moreover have "put_be16 ((pre @ be16 p) @ drop 2 rest) (slen + 2) 0xc000 = Some ((pre @ be16 p) @ be16 0xc000 @ drop 2 (drop 2 rest))"
    using assms by (intro put_be16_next) simp_all
  moreover have "be16 0xc000 = [0xc0, 0]" by simp
  ultimately show ?thesis by (simp only: v bind.bind_lunit) (simp add: sit_entry_def)
qed

lemma sit_loop_run:
  assumes "length pre = slen" "slen \<le> 4092" "length pre + length rest = 4096"
  shows "if slen + 4 * length pnrs \<le> 4092
    then sit_loop pnrs slen (pre @ rest) =
      Some (Some (slen + 4 * length pnrs), pre @ concat (map sit_entry pnrs) @ drop (4 * length pnrs) rest)
    else \<exists>s. sit_loop pnrs slen (pre @ rest) = Some (None, s)"
  using assms
proof (induction pnrs arbitrary: slen pre rest)
  case (Cons pnr pnrs)
  show ?case
  proof (cases "slen + 4 > 4092")
    case True
    then show ?thesis by simp
  next
    case False
    have "sit_loop (pnr # pnrs) slen (pre @ rest) = sit_loop pnrs (slen + 4) ((pre @ sit_entry pnr) @ drop 4 rest)"
      using False put_entry [of pre slen rest pnr] Cons.prems
      by (auto simp del: append_assoc split: Option.bind_splits)
    with Cons.IH [of "pre @ sit_entry pnr" "slen + 4" "drop 4 rest"] Cons.prems False show ?thesis
      by (auto simp: add.commute add.left_commute split: if_splits)
  qed
qed simp

text \<open>Header, length field, programmes and CRC.\<close>

definition sit_head :: "u8 \<Rightarrow> nat \<Rightarrow> buffer" where
  "sit_head vnr n = [SIT_TID] @ be16 (word_of_nat (11 + 4 * n) OR 0xf000) @ [0xff, 0xff, push_bit 1 (vnr AND 31) OR 0xc1, 0, 0, 0xf0, 0]"

definition sit_body :: "u16 list \<Rightarrow> u8 \<Rightarrow> buffer" where
  "sit_body pnrs vnr = sit_head vnr (length pnrs) @ concat (map sit_entry pnrs)"

lemma length_sit_body: "length (sit_body pnrs vnr) = 10 + 4 * length pnrs"
  by (simp add: sit_body_def sit_head_def length_concat o_def sum_list_triv)

lemma sitCompile_run:
  assumes "length sec = 4096"
  shows "if 10 + 4 * length pnrs \<le> 4092
    then sitCompile pnrs vnr sec = Some (14 + 4 * length pnrs,
      sit_body pnrs vnr @ SitCom.be32 (fold crc_step (sit_body pnrs vnr) 0xffffffff) @ drop (14 + 4 * length pnrs) sec)
    else \<exists>s. sitCompile pnrs vnr sec = Some (0, s)"
proof -
  obtain a b c where sec: "sec = [a, b, c] @ drop 3 sec"
    using assms by (cases sec; cases "tl sec"; cases "tl (tl sec)") (auto simp: numeral_3_eq_3)
  let ?v = "push_bit 1 (vnr AND 31) OR 1 OR push_bit 6 3 :: u8"
  let ?h = "[0xff, 0xff, ?v, 0, 0, 0xf0, 0] :: buffer"
  have "put8 ([a, b, c] @ drop 3 sec) 0 SIT_TID = Some ([SIT_TID, b, c] @ drop 3 sec)" by (simp add: put8_def)
  moreover have "put_be16 ([SIT_TID, b, c] @ drop 3 sec) 3 0xffff = Some ([SIT_TID, b, c, 0xff, 0xff] @ drop 5 sec)"
    using put_be16_next [of "[SIT_TID, b, c]" 3 "drop 3 sec" "0xffff"] assms by simp
  moreover have "put8 ([SIT_TID, b, c, 0xff, 0xff] @ drop 5 sec) 5 ?v = Some ([SIT_TID, b, c, 0xff, 0xff, ?v] @ drop 6 sec)"
    using put8_next [of "[SIT_TID, b, c, 0xff, 0xff]" 5 "drop 5 sec" ?v] assms by simp
  moreover have "put8 ([SIT_TID, b, c, 0xff, 0xff, ?v] @ drop 6 sec) 6 0 = Some ([SIT_TID, b, c, 0xff, 0xff, ?v, 0] @ drop 7 sec)"
    using put8_next [of "[SIT_TID, b, c, 0xff, 0xff, ?v]" 6 "drop 6 sec" 0] assms by simp
  moreover have "put8 ([SIT_TID, b, c, 0xff, 0xff, ?v, 0] @ drop 7 sec) 7 0 = Some ([SIT_TID, b, c, 0xff, 0xff, ?v, 0, 0] @ drop 8 sec)"
    using put8_next [of "[SIT_TID, b, c, 0xff, 0xff, ?v, 0]" 7 "drop 7 sec" 0] assms by simp
  moreover have "put_be16 ([SIT_TID, b, c, 0xff, 0xff, ?v, 0, 0] @ drop 8 sec) 8 0xf000 = Some (([SIT_TID, b, c] @ ?h) @ drop 10 sec)"
    using put_be16_next [of "[SIT_TID, b, c, 0xff, 0xff, ?v, 0, 0]" 8 "drop 8 sec" "0xf000"] assms by simp
  ultimately have start: "sitCompile pnrs vnr sec = (sit_loop pnrs 10 (([SIT_TID, b, c] @ ?h) @ drop 10 sec) \<bind> (\<lambda>(r, s). case r of
        None \<Rightarrow> Some (0, s)
      | Some l \<Rightarrow> do {
          let slen = l - 3 + 4;
          s \<leftarrow> put_be16 s 1 (word_of_nat slen OR push_bit 12 7 OR push_bit 15 1);
          crc \<leftarrow> sec_crc32 s (slen + 3 - 4);
          s \<leftarrow> put_be32 s (slen + 3 - 4) crc;
          Some (slen + 3, s)
        }))"
    by (subst sec) (simp only: sitCompile_def bind.bind_lunit)
  have lens: "length ([SIT_TID, b, c] @ ?h) = 10" "length ([SIT_TID, b, c] @ ?h) + length (drop 10 sec) = 4096"
    using assms by simp_all
  note run = sit_loop_run [OF lens(1) _ lens(2), of pnrs]
  show ?thesis
  proof (cases "10 + 4 * length pnrs \<le> 4092")
    case False
    with run start show ?thesis by auto
  next
    case True
    let ?body = "concat (map sit_entry pnrs)"
    let ?n = "10 + 4 * length pnrs"
    let ?w = "word_of_nat (11 + 4 * length pnrs) OR push_bit 12 7 OR push_bit 15 1 :: u16"
    have s: "sit_loop pnrs 10 (([SIT_TID, b, c] @ ?h) @ drop 10 sec) = Some (Some ?n, [SIT_TID] @ [b, c] @ ?h @ ?body @ drop ?n sec)"
      using run True by (simp add: add.commute)
    have p1: "put_be16 ([SIT_TID] @ [b, c] @ ?h @ ?body @ drop ?n sec) 1 ?w = Some (([SIT_TID] @ be16 ?w @ ?h @ ?body) @ drop ?n sec)"
      using put_be16_next [of "[SIT_TID]" 1 "[b, c] @ ?h @ ?body @ drop ?n sec" ?w] by simp
    have w: "?w = word_of_nat (11 + 4 * length pnrs) OR 0xf000" by simp
    have v: "?v = push_bit 1 (vnr AND 31) OR 0xc1" by simp
    have eq: "[SIT_TID] @ be16 ?w @ ?h @ ?body = sit_body pnrs vnr" unfolding sit_body_def sit_head_def w v by simp
    have crc: "sec_crc32 (sit_body pnrs vnr @ drop ?n sec) ?n = Some (fold crc_step (sit_body pnrs vnr) 0xffffffff)"
      using assms True length_sit_body [of pnrs vnr] by (simp add: sec_crc32_def)
    have p2: "put_be32 (sit_body pnrs vnr @ drop ?n sec) ?n x = Some (sit_body pnrs vnr @ SitCom.be32 x @ drop (14 + 4 * length pnrs) sec)" for x
      using put_be32_next [OF length_sit_body, of "drop ?n sec" pnrs vnr x] assms True by (simp add: add.commute)
    have "sitCompile pnrs vnr sec = Some (14 + 4 * length pnrs,
        sit_body pnrs vnr @ SitCom.be32 (fold crc_step (sit_body pnrs vnr) 0xffffffff) @ drop (14 + 4 * length pnrs) sec)"
      using p1 crc p2 unfolding start s eq by (simp del: append.simps append_assoc add: Let_def)
    with True show ?thesis by simp
  qed
qed

text \<open>A big endian number in a buffer and the fields inside it.\<close>

lemma buf_bit_be16:
  assumes "xs ! i = ucast (drop_bit 8 (v :: u16))" "xs ! (i + 1) = ucast v" "p < 16"
  shows "buf_bit xs (8 * i + p) = bit v (15 - p)"
proof (cases "p < 8")
  case True
  then have "(8 * i + p) div 8 = i" "(8 * i + p) mod 8 = p" by auto
  with assms(1) True show ?thesis by (simp add: buf_bit_def bit_ucast_iff bit_drop_bit_eq less_imp_diff_less)
next
  case False
  then obtain q where q: "p = 8 + q" "q < 8" using assms(3) by (metis add_diff_inverse_nat add_less_cancel_left numeral_Bit0)
  then have "(8 * i + p) div 8 = i + 1" "(8 * i + p) mod 8 = q" by auto
  with assms(2) q show ?thesis by (simp add: buf_bit_def bit_ucast_iff less_imp_diff_less)
qed

lemma field_be16:
  assumes "xs ! i = ucast (drop_bit 8 (v :: u16))" "xs ! (i + 1) = ucast v" "k + len \<le> 16"
  shows "field xs (8 * i + k) len = ucast (take_bit len (drop_bit (16 - k - len) v))"
proof (rule bit_word_eqI)
  fix j assume j: "j < LENGTH(64)"
  show "bit (field xs (8 * i + k) len) j = bit (ucast (take_bit len (drop_bit (16 - k - len) v)) :: u64) j"
  proof (cases "j < len")
    case True
    then have "8 * i + k + len - 1 - j = 8 * i + (k + len - 1 - j)" "k + len - 1 - j < 16"
      "15 - (k + len - 1 - j) = 16 - k - len + j" using assms(3) by auto
    with buf_bit_be16 [OF assms(1,2), of "k + len - 1 - j"] True j assms(3) show ?thesis
      by (simp add: field_def bit_horner_sum_bit_iff bit_ucast_iff bit_take_bit_iff bit_drop_bit_eq add.commute)
  next
    case False
    then show ?thesis by (simp add: field_def bit_horner_sum_bit_iff bit_ucast_iff bit_take_bit_iff)
  qed
qed

lemma sit_body_nth:
  "sit_body pnrs vnr ! 0 = SIT_TID" "sit_body pnrs vnr ! 5 = push_bit 1 (vnr AND 31) OR 0xc1"
  "sit_body pnrs vnr ! 1 = ucast (drop_bit 8 (word_of_nat (11 + 4 * length pnrs) OR 0xf000 :: u16))"
  "sit_body pnrs vnr ! 2 = ucast (word_of_nat (11 + 4 * length pnrs) OR 0xf000 :: u16)"
  by (simp_all add: sit_body_def sit_head_def nth_append numeral_eq_Suc)

lemma concat_entry: "i < length ps \<Longrightarrow> drop (4 * i) (concat (map sit_entry ps)) = sit_entry (ps ! i) @ concat (map sit_entry (drop (Suc i) ps))"
proof (induction ps arbitrary: i)
  case (Cons p ps)
  then show ?case by (cases i) simp_all
qed simp

lemma sit_body_entry:
  assumes "i < length pnrs"
  shows "take 2 (drop (10 + 4 * i) (sit_body pnrs vnr)) = be16 (pnrs ! i)"
proof -
  have "length (sit_head vnr (length pnrs)) = 10" by (simp add: sit_head_def)
  with concat_entry [OF assms] show ?thesis by (simp add: sit_body_def sit_entry_def)
qed

text \<open>What a receiver sees in a compiled section.\<close>

definition lists_programmes :: "buffer \<Rightarrow> u16 list \<Rightarrow> bool" where
  "lists_programmes s pnrs \<longleftrightarrow> (\<forall>i<length pnrs. field s (8 * (10 + 4 * i)) 16 = ucast (pnrs ! i))"

lemma version_bit:
  assumes "j < 5"
  shows "bit (push_bit 1 (w AND 31) OR 0xc1 :: u8) (Suc j) = bit w j"
proof -
  have "j = 0 \<or> j = 1 \<or> j = 2 \<or> j = 3 \<or> j = 4" using assms by linarith
  then have c: "\<not> bit (0xc1 :: u8) (Suc j)" "bit (31 :: u8) j" by (elim disjE; simp)+
  have "bit (push_bit 1 (w AND 31)) (Suc j) = bit (w AND 31) j" using assms by (subst bit_push_bit_iff) simp
  with c show ?thesis by (simp only: bit_or_iff bit_and_iff simp_thms)
qed

lemma compiled_section:
  assumes "10 + 4 * length pnrs \<le> 4092"
    and "take (14 + 4 * length pnrs) s = sit_body pnrs vnr @ SitCom.be32 (fold crc_step (sit_body pnrs vnr) 0xffffffff)"
  shows "secCheckCrc s = Some 0" "get_sec_size s = Some (14 + 4 * length pnrs)" "get_sec_id s = Some SIT_TID"
    "get_sec_version s = Some (ucast (vnr AND 31))" "lists_programmes s pnrs"
proof -
  let ?n = "10 + 4 * length pnrs"
  let ?b = "sit_body pnrs vnr"
  have len: "14 + 4 * length pnrs \<le> length s"
    using arg_cong [OF assms(2), of length] length_sit_body [of pnrs vnr] by simp
  have nth: "s ! i = ?b ! i" if "i < ?n" for i
  proof -
    have "s ! i = take (14 + 4 * length pnrs) s ! i" using that by simp
    also have "\<dots> = ?b ! i" unfolding assms(2) using that length_sit_body [of pnrs vnr] by (simp add: nth_append)
    finally show ?thesis .
  qed
  let ?L = "word_of_nat (11 + 4 * length pnrs) :: u16"
  have "field s (8 * 1 + 4) 12 = ucast (take_bit 12 (drop_bit (16 - 4 - 12) (?L OR 0xf000)))"
    using nth [of 1] nth [of 2] sit_body_nth [of pnrs vnr] by (intro field_be16) (simp_all add: numeral_2_eq_2)
  then have "field s 12 12 = ucast (take_bit 12 (?L OR 0xf000))" by simp
  also have "take_bit 12 (?L OR 0xf000) = take_bit 12 ?L" by simp
  finally have "unat (field s 12 12) = take_bit 12 (unat ?L)" by (simp add: unsigned_ucast_eq unsigned_take_bit_eq)
  moreover have "unat ?L = 11 + 4 * length pnrs" using assms(1) by (subst unat_of_nat) simp
  ultimately have L: "unat (field s 12 12) = 11 + 4 * length pnrs" using assms(1) by (simp add: take_bit_nat_eq_self_iff)
  have g: "bitsGet s 1 4 12 = Some (field s 12 12)" using bitsGet_eq [of 12 1 4 s] len by simp
  show "get_sec_size s = Some (14 + 4 * length pnrs)" using g L assms(1) by (simp add: get_sec_size_def MAX_SEC_SIZE_def Let_def)
  have "sec_crc32 ?b (length ?b) = Some (fold crc_step ?b 0xffffffff)" by (simp add: sec_crc32_def)
  from crc_append_zero [OF this] have "fold crc_step (take (14 + 4 * length pnrs) s) 0xffffffff = 0"
    unfolding assms(2) by (simp add: sec_crc32_def)
  then show "secCheckCrc s = Some 0" using g L assms(1) len by (simp add: secCheckCrc_def sec_crc32_def add.commute)
  show "get_sec_id s = Some SIT_TID" using nth [of 0] sit_body_nth(1) len by (auto simp: get_sec_id_def rd_def)
  have "field s 42 5 = ucast (vnr AND 31)"
  proof (rule bit_word_eqI)
    fix j assume "j < LENGTH(64)"
    have "s ! 5 = push_bit 1 (vnr AND 31) OR 0xc1" using nth [of 5] sit_body_nth(2) [of pnrs vnr] by (simp only: less_add_same_cancel1)
    then have b: "bit (s ! 5) (Suc j) = bit vnr j" if "j < 5" for j
      using version_bit [OF that, of vnr] by (simp only:)
    have "(46 - j) div 8 = 5" "7 - (46 - j) mod 8 = Suc j" if "j < 5"
    proof -
      have "j = 0 \<or> j = 1 \<or> j = 2 \<or> j = 3 \<or> j = 4" using that by linarith
      then show "(46 - j) div 8 = 5" "7 - (46 - j) mod 8 = Suc j" by (elim disjE; simp)+
    qed
    then have "buf_bit s (46 - j) = bit vnr j" if "j < 5"
      using that b [of j] by (simp only: buf_bit_def)
    then show "bit (field s 42 5) j = bit (ucast (vnr AND 31) :: u64) j"
      using \<open>j < LENGTH(64)\<close> bit_mask_word [of 5 j, where 'a = 8]
      by (cases "j < 5") (simp_all add: field_def bit_horner_sum_bit_iff bit_ucast_iff bit_and_iff)
  qed
  then show "get_sec_version s = Some (ucast (vnr AND 31))"
    using bitsGet_eq [of 5 5 2 s] len by (simp add: get_sec_version_def)
  show "lists_programmes s pnrs" unfolding lists_programmes_def
  proof (intro allI impI)
    fix i assume i: "i < length pnrs"
    have t: "take 2 (drop (10 + 4 * i) (sit_body pnrs vnr)) ! k = be16 (pnrs ! i) ! k" for k using sit_body_entry [OF i] by simp
    have "sit_body pnrs vnr ! (10 + 4 * i) = ucast (drop_bit 8 (pnrs ! i))" "sit_body pnrs vnr ! (10 + 4 * i + 1) = ucast (pnrs ! i)"
      using i length_sit_body [of pnrs vnr] t [of 0] t [of 1] by simp_all
    then have "s ! (10 + 4 * i) = ucast (drop_bit 8 (pnrs ! i))" "s ! (10 + 4 * i + 1) = ucast (pnrs ! i)"
      using i nth [of "10 + 4 * i"] nth [of "10 + 4 * i + 1"] by auto
    from field_be16 [OF this, of 0 16] show "field s (8 * (10 + 4 * i)) 16 = ucast (pnrs ! i)"
      by (simp add: take_bit_word_eq_self)
  qed
qed

text \<open>The compiled section fits any list of programmes up to the size limit: its CRC is right, its
  size, table identifier and version are those a receiver reads back, every programme is
  listed in order, and the bytes behind the section are left alone.  If the list is too long, 0 is returned.
  No byte outside the section buffer is written.\<close>
theorem sitCompile_wellformed:
  assumes "length sec = 4096"
  shows "if length pnrs \<le> 1020
    then \<exists>s. sitCompile pnrs vnr sec = Some (14 + 4 * length pnrs, s) \<and> length s = 4096
      \<and> secCheckCrc s = Some 0 \<and> get_sec_size s = Some (14 + 4 * length pnrs) \<and> get_sec_id s = Some SIT_TID
      \<and> get_sec_version s = Some (ucast (vnr AND 31)) \<and> lists_programmes s pnrs
      \<and> drop (14 + 4 * length pnrs) s = drop (14 + 4 * length pnrs) sec
    else \<exists>s. sitCompile pnrs vnr sec = Some (0, s)"
proof (cases "length pnrs \<le> 1020")
  case False
  with sitCompile_run [OF assms, of pnrs vnr] show ?thesis by auto
next
  case True
  let ?n = "14 + 4 * length pnrs"
  let ?c = "sit_body pnrs vnr @ SitCom.be32 (fold crc_step (sit_body pnrs vnr) 0xffffffff)"
  let ?s = "?c @ drop ?n sec"
  have fits: "10 + 4 * length pnrs \<le> 4092" using True by simp
  have n: "length ?c = ?n" by (simp add: length_sit_body)
  have len: "length ?s = 4096" using n assms fits by simp
  have "take ?n ?s = ?c" "drop ?n ?s = drop ?n sec" using n by (simp_all del: append_assoc)
  with compiled_section [OF fits] len sitCompile_run [OF assms, of pnrs vnr] True show ?thesis by auto
qed

lemma sitCompile_wellformed_witness:
  "\<exists>s. sitCompile [17, 18] 3 (replicate 4096 0) = Some (22, s) \<and> secCheckCrc s = Some 0 \<and> lists_programmes s [17, 18]"
  using sitCompile_wellformed [of "replicate 4096 0" "[17, 18]" 3] by auto

subsection \<open>The packets\<close>

definition ts_first :: "u16 \<Rightarrow> buffer" where
  "ts_first pid = [TS_SYNC_BYTE] @ be16 (0x4000 OR pid) @ [0x10, 0]"

definition ts_cont :: "u16 \<Rightarrow> nat \<Rightarrow> buffer" where
  "ts_cont pid k = [TS_SYNC_BYTE] @ be16 pid @ [0x10 OR (word_of_nat k AND 15)]"

text \<open>Bytes written one behind the other.\<close>

fun puts :: "buffer \<Rightarrow> nat \<Rightarrow> u8 list \<Rightarrow> buffer option" where
  "puts b i [] = Some b"
| "puts b i (v # vs) = do { b \<leftarrow> put8 b i v; puts b (i + 1) vs }"

lemma puts_next: "length xs = i \<Longrightarrow> length vs \<le> length ys \<Longrightarrow> puts (xs @ ys) i vs = Some (xs @ vs @ drop (length vs) ys)"
proof (induction vs arbitrary: xs i ys)
  case (Cons v vs)
  with put8_next [of xs i ys v] Cons.IH [of "xs @ [v]" "i + 1" "drop 1 ys"] show ?case by simp
qed simp

lemma puts_zeros:
  "length xs = i \<Longrightarrow> length vs \<le> n \<Longrightarrow> puts (xs @ replicate n 0) i vs = Some ((xs @ vs) @ replicate (n - length vs) 0)"
  using puts_next [of xs i vs "replicate n 0"] by simp

lemma ts_header_puts:
  "ts_header_bytes pid 0 p rv = map_option (Pair 5) (puts rv p (ts_first pid))"
  "0 < k \<Longrightarrow> ts_header_bytes pid k p rv = map_option (Pair 4) (puts rv p (ts_cont pid k))"
  by (simp_all add: ts_header_bytes_def put_be16_def ts_first_def ts_cont_def eval_nat_numeral
      map_option_case split: Option.bind_splits option.splits)

text \<open>Filling a packet.\<close>

lemma loop_room:
  assumes "length pre = 188 * nat k + j" "j + length xs \<le> 188" "length xs \<le> n"
  shows "sec_to_ts_loop pid (xs @ ys) j k (pre @ replicate n 0)
    = sec_to_ts_loop pid ys (j + length xs) k ((pre @ xs) @ replicate (n - length xs) 0)"
  using assms
proof (induction xs arbitrary: pre j n)
  case (Cons x xs)
  have "put8 (pre @ replicate n 0) (188 * nat k + j) x = Some ((pre @ [x]) @ replicate (n - 1) 0)"
    using put8_next [of pre "188 * nat k + j" "replicate n 0" x] Cons.prems by simp
  with Cons.IH [of "pre @ [x]" "j + 1" "n - 1"] Cons.prems show ?case by (simp add: TS_LEN_def)
qed simp

lemma fill_run: "length q = p \<Longrightarrow> sec_to_ts_fill p m (q @ replicate m 0 @ t) = Some (q @ replicate m 0xff @ t)"
proof (induction m arbitrary: p q)
  case (Suc m)
  with put8_next [of q p "replicate (Suc m) 0 @ t" "0xff"] Suc.IH [of "q @ [0xff]" "p + 1"] show ?case by simp
qed simp

text \<open>The packets of a section.\<close>

definition padded :: "nat \<Rightarrow> buffer \<Rightarrow> buffer" where
  "padded n xs = xs @ replicate (n - length xs) 0xff"

function ts_rest :: "u16 \<Rightarrow> nat \<Rightarrow> buffer \<Rightarrow> buffer list" where
  "ts_rest pid k xs = (if xs = [] then [] else (ts_cont pid k @ padded 184 (take 184 xs)) # ts_rest pid (Suc k) (drop 184 xs))"
  by pat_completeness auto
termination by (relation "measure (\<lambda>(pid, k, xs). length xs)") auto

declare ts_rest.simps [simp del]

definition ts_section :: "u16 \<Rightarrow> buffer \<Rightarrow> buffer list" where
  "ts_section pid xs = (ts_first pid @ padded 183 (take 183 xs)) # ts_rest pid 1 (drop 183 xs)"

lemma length_ts_cont [simp]: "length (ts_cont pid k) = 4"
  by (simp add: ts_cont_def)

lemma length_ts_first [simp]: "length (ts_first pid) = 5"
  by (simp add: ts_first_def)

lemma length_ts_rest: "length (ts_rest pid k xs) = (length xs + 183) div 184"
proof (induction pid k xs rule: ts_rest.induct)
  case (1 pid k xs)
  show ?case
  proof (cases "xs = []")
    case False
    then have "(length xs + 183) div 184 = Suc ((length (drop 184 xs) + 183) div 184)"
      by (cases "length xs \<le> 184") (auto simp: div_if)
    with 1 False show ?thesis by (subst ts_rest.simps) simp
  qed (simp add: ts_rest.simps)
qed

lemma length_padded [simp]: "length xs \<le> n \<Longrightarrow> length (padded n xs) = n"
  by (simp add: padded_def)

lemma loop_open:
  assumes "ts_header_bytes pid (nat (k + 1)) (188 * nat (k + 1)) rv = Some (j', rv')" "j' < 188"
  shows "sec_to_ts_loop pid (x # xs) 188 k rv = sec_to_ts_loop pid (x # xs) j' (k + 1) rv'"
  using assms by (simp add: TS_LEN_def)

definition ts_finish :: "nat \<times> int \<times> buffer \<Rightarrow> buffer option" where
  "ts_finish = (\<lambda>(j, k, rv). sec_to_ts_fill (TS_LEN * nat k + j) (TS_LEN - j) rv)"

text \<open>One packet: the bytes that fit are written, and what is left goes on.\<close>

lemma loop_packet:
  assumes "length pre = 188 * nat k + h" "h \<le> 187" "188 - h \<le> n"
  shows "sec_to_ts_loop pid xs h k (pre @ replicate n 0) \<bind> ts_finish =
    (if length xs \<le> 188 - h
     then Some (pre @ padded (188 - h) xs @ replicate (n - (188 - h)) 0)
     else sec_to_ts_loop pid (drop (188 - h) xs) 188 k ((pre @ take (188 - h) xs) @ replicate (n - (188 - h)) 0) \<bind> ts_finish)"
proof (cases "length xs \<le> 188 - h")
  case True
  let ?r = "188 - h - length xs"
  have "sec_to_ts_loop pid (xs @ []) h k (pre @ replicate n 0) = Some (h + length xs, k, (pre @ xs) @ replicate (n - length xs) 0)"
    using loop_room [OF assms(1), of xs n pid "[]"] True assms by simp
  moreover have "replicate (n - length xs) 0 = replicate ?r 0 @ replicate (n - (188 - h)) (0 :: u8)"
    using True assms(3) by (simp flip: replicate_add)
  moreover have "sec_to_ts_fill (188 * nat k + (h + length xs)) ?r ((pre @ xs) @ replicate ?r 0 @ replicate (n - (188 - h)) 0)
      = Some ((pre @ xs) @ replicate ?r 0xff @ replicate (n - (188 - h)) 0)"
    using assms(1) by (intro fill_run) simp
  ultimately show ?thesis using True assms by (simp add: ts_finish_def padded_def TS_LEN_def)
next
  case False
  with loop_room [OF assms(1), of "take (188 - h) xs" n pid "drop (188 - h) xs"] assms show ?thesis by simp
qed

lemma loop_rest:
  assumes "length pre = 188 * nat (k + 1)" "0 \<le> k"
  shows "sec_to_ts_loop pid xs 188 k (pre @ replicate (188 * length (ts_rest pid (nat (k + 1)) xs)) 0) \<bind> ts_finish
    = Some (pre @ concat (ts_rest pid (nat (k + 1)) xs))"
  using assms
proof (induction "length xs" arbitrary: xs k pre rule: less_induct)
  case less
  let ?k = "nat (k + 1)"
  show ?case
  proof (cases xs)
    case Nil
    then show ?thesis by (simp add: ts_rest.simps ts_finish_def TS_LEN_def)
  next
    case (Cons x ys)
    define m where "m = length (ts_rest pid (Suc ?k) (drop 184 xs))"
    have rest: "ts_rest pid ?k xs = (ts_cont pid ?k @ padded 184 (take 184 xs)) # ts_rest pid (Suc ?k) (drop 184 xs)"
      using Cons by (subst ts_rest.simps) simp
    have "puts (pre @ replicate (188 * (1 + m)) 0) (188 * ?k) (ts_cont pid ?k) = Some ((pre @ ts_cont pid ?k) @ replicate (188 * (1 + m) - 4) 0)"
      using puts_zeros [OF less.prems(1), of "ts_cont pid ?k" "188 * (1 + m)"] by simp
    then have "ts_header_bytes pid ?k (188 * ?k) (pre @ replicate (188 * (1 + m)) 0) = Some (4, (pre @ ts_cont pid ?k) @ replicate (188 * (1 + m) - 4) 0)"
      using ts_header_puts(2) [of ?k] less.prems(2) by simp
    from loop_open [OF this, of x ys] have o: "sec_to_ts_loop pid xs 188 k (pre @ replicate (188 * (1 + m)) 0) \<bind> ts_finish =
        sec_to_ts_loop pid xs 4 (k + 1) ((pre @ ts_cont pid ?k) @ replicate (188 * (1 + m) - 4) 0) \<bind> ts_finish"
      using Cons by simp
    have "length (pre @ ts_cont pid ?k) = 188 * nat (k + 1) + 4" using less.prems(1) by simp
    note pk = loop_packet [OF this, of "188 * (1 + m) - 4" pid xs]
    show ?thesis
    proof (cases "length xs \<le> 184")
      case True
      then have "m = 0" by (simp add: m_def ts_rest.simps)
      with True o pk rest show ?thesis by (simp add: m_def)
    next
      case False
      have sk: "nat (k + 1 + 1) = Suc ?k" using less.prems(2) by simp
      have "length (drop 184 xs) < length xs" using False by simp
      from less.hyps [OF this, of "(pre @ ts_cont pid ?k) @ take 184 xs" "k + 1"] less.prems False sk
      have "sec_to_ts_loop pid (drop 184 xs) 188 (k + 1) (((pre @ ts_cont pid ?k) @ take 184 xs) @ replicate (188 * m) 0) \<bind> ts_finish
          = Some (((pre @ ts_cont pid ?k) @ take 184 xs) @ concat (ts_rest pid (Suc ?k) (drop 184 xs)))"
        by (simp add: m_def)
      with False o pk rest show ?thesis by (simp add: m_def padded_def)
    qed
  qed
qed

lemma length_ts_section: "length (ts_section pid xs) = (length xs + 184) div 184"
proof (cases "length xs < 183")
  case False
  then have "length xs - 183 + 183 = length xs" by simp
  then show ?thesis by (simp add: ts_section_def length_ts_rest)
qed (simp add: ts_section_def length_ts_rest)

lemma sec_to_ts_run:
  assumes "xs \<noteq> []"
  shows "sec_to_ts xs pid = Some (length (ts_section pid xs), concat (ts_section pid xs))"
proof -
  define m where "m = length (ts_rest pid 1 (drop 183 xs))"
  have num: "(length xs + 1 + (TS_LEN - 4 - 1)) div (TS_LEN - 4) = 1 + m"
    using length_ts_section [of pid xs] by (simp add: ts_section_def m_def TS_LEN_def)
  obtain x ys where xs: "xs = x # ys" using assms by (cases xs) auto
  have "puts ([] @ replicate (188 * (1 + m)) 0) 0 (ts_first pid) = Some (([] @ ts_first pid) @ replicate (188 * (1 + m) - 5) 0)"
    using puts_zeros [of "[]" 0 "ts_first pid" "188 * (1 + m)"] by simp
  then have "ts_header_bytes pid (nat (- 1 + 1)) (188 * nat (- 1 + 1)) (replicate (188 * (1 + m)) 0) = Some (5, ts_first pid @ replicate (188 * (1 + m) - 5) 0)"
    by (simp add: ts_header_puts)
  from loop_open [OF this, of x ys] have o: "sec_to_ts_loop pid xs 188 (- 1) (replicate (188 * (1 + m)) 0) \<bind> ts_finish =
      sec_to_ts_loop pid xs 5 0 (ts_first pid @ replicate (188 * (1 + m) - 5) 0) \<bind> ts_finish" by (simp add: xs)
  have pk: "sec_to_ts_loop pid xs 5 0 (ts_first pid @ replicate (188 * (1 + m) - 5) 0) \<bind> ts_finish =
    (if length xs \<le> 183 then Some (ts_first pid @ padded 183 xs @ replicate (188 * m) 0)
     else sec_to_ts_loop pid (drop 183 xs) 188 0 ((ts_first pid @ take 183 xs) @ replicate (188 * m) 0) \<bind> ts_finish)"
    using loop_packet [of "ts_first pid" 0 5 "188 * (1 + m) - 5" pid xs] by simp
  have "sec_to_ts_loop pid xs 188 (- 1) (replicate (188 * (1 + m)) 0) \<bind> ts_finish = Some (concat (ts_section pid xs))"
  proof (cases "length xs \<le> 183")
    case True
    then have "m = 0" by (simp add: m_def ts_rest.simps)
    with True o pk show ?thesis by (simp add: ts_section_def ts_rest.simps)
  next
    case False
    with loop_rest [of "ts_first pid @ take 183 xs" 0 pid "drop 183 xs"] o pk show ?thesis
      by (simp add: m_def ts_section_def padded_def)
  qed
  then show ?thesis
    unfolding sec_to_ts_def Let_def num
    by (auto simp: ts_finish_def TS_LEN_def ts_section_def m_def mult.commute split: Option.bind_splits)
qed

text \<open>What a receiver finds in the packets.\<close>

lemma be16_join: "push_bit 8 (ucast (ucast (drop_bit 8 v) :: u8)) OR ucast (ucast v :: u8) = (v :: u16)"
proof (rule bit_word_eqI)
  fix j assume "j < LENGTH(16)"
  then show "bit (push_bit 8 (ucast (ucast (drop_bit 8 v) :: u8)) OR ucast (ucast v :: u8) :: u16) j = bit v j"
    by (cases "j < 8") (auto simp: bit_or_iff bit_push_bit_iff bit_ucast_iff bit_drop_bit_eq)
qed

lemma pid_mask:
  assumes "pid < 0x2000"
  shows "pid AND 0x1fff = (pid :: u16)" "(0x4000 OR pid) AND 0x1fff = pid" "\<not> bit pid 14"
proof -
  have "unat pid < 2 ^ 13" using assms by (simp add: word_less_nat_alt)
  note small = take_bit_small [OF this] small_bits [OF this]
  show 1: "pid AND 0x1fff = pid" using small(1) by (simp add: take_bit_eq_mask mask_eq_exp_minus_1)
  have "(0x4000 OR pid) AND 0x1fff = (0x4000 AND 0x1fff) OR (pid AND 0x1fff)" by (rule bit.conj_disj_distrib2)
  then show "(0x4000 OR pid) AND 0x1fff = pid" using 1 by simp
  show "\<not> bit pid 14" using small(2) [of 14] by simp
qed

lemma ts_pid_be16: "ts_pid ([s] @ be16 v @ xs) = v AND 0x1fff"
  using be16_join [of v] by (simp add: ts_pid_def)

lemma ts_pusi_be16: "ts_pusi ([s] @ be16 v @ xs) = bit v 14"
  by (simp add: ts_pusi_def bit_ucast_iff bit_drop_bit_eq)

lemma ts_first_fields:
  assumes "pid < 0x2000"
  shows "ts_pid (ts_first pid @ xs) = pid" "ts_afc (ts_first pid @ xs) = 1" "ts_pusi (ts_first pid @ xs)"
    "(ts_first pid @ xs) ! 4 = 0"
proof -
  have eq: "ts_first pid @ xs = [TS_SYNC_BYTE] @ be16 (0x4000 OR pid) @ ([0x10, 0] @ xs)" by (simp add: ts_first_def)
  show "ts_pid (ts_first pid @ xs) = pid" unfolding eq ts_pid_be16 by (rule pid_mask(2) [OF assms])
  show "ts_pusi (ts_first pid @ xs)" unfolding eq ts_pusi_be16 by (simp add: bit_or_iff)
  show "ts_afc (ts_first pid @ xs) = 1" "(ts_first pid @ xs) ! 4 = 0" by (simp_all add: ts_first_def ts_afc_def)
qed

lemma ts_cont_fields:
  assumes "pid < 0x2000"
  shows "ts_pid (ts_cont pid k @ xs) = pid" "ts_afc (ts_cont pid k @ xs) = 1" "\<not> ts_pusi (ts_cont pid k @ xs)"
proof -
  have eq: "ts_cont pid k @ xs = [TS_SYNC_BYTE] @ be16 pid @ ([0x10 OR (word_of_nat k AND 15)] @ xs)" by (simp add: ts_cont_def)
  show "ts_pid (ts_cont pid k @ xs) = pid" unfolding eq ts_pid_be16 by (rule pid_mask(1) [OF assms])
  show "\<not> ts_pusi (ts_cont pid k @ xs)" unfolding eq ts_pusi_be16 by (rule pid_mask(3) [OF assms])
  have "drop_bit 4 (0x10 OR (w AND 15) :: u8) = 1" for w
  proof -
    have "drop_bit 4 (w AND 15) = 0" by (simp add: and_masks drop_bit_take_bit)
    then show ?thesis by (simp add: drop_bit_or)
  qed
  then show "ts_afc (ts_cont pid k @ xs) = 1" by (simp add: ts_cont_def ts_afc_def)
qed

lemma chunk_first:
  assumes "pid < 0x2000" "length xs = 183"
  shows "section_chunk (ts_first pid @ xs) = Some ([], Some xs)" "packet_ok (ts_first pid @ xs)"
  using ts_first_fields [OF assms(1), of xs] assms(2)
  by (simp_all add: section_chunk_def payload_start_def packet_ok_def byte_range_def Let_def)

lemma chunk_cont:
  assumes "pid < 0x2000" "length xs = 184"
  shows "section_chunk (ts_cont pid k @ xs) = Some (xs, None)" "packet_ok (ts_cont pid k @ xs)"
  using ts_cont_fields [OF assms(1), of k xs] assms(2)
  by (simp_all add: section_chunk_def payload_start_def packet_ok_def)

lemma rest_packets:
  assumes "pid < 0x2000" "p \<in> set (ts_rest pid k xs)"
  shows "packet_ok p \<and> ts_pid p = pid"
  using assms
proof (induction pid k xs rule: ts_rest.induct)
  case (1 pid k xs)
  then show ?case using chunk_cont(2) by (subst (asm) (2) ts_rest.simps) (auto simp: ts_cont_fields split: if_splits)
qed

lemma section_packets:
  assumes "pid < 0x2000" "p \<in> set (ts_section pid xs)"
  shows "packet_ok p \<and> ts_pid p = pid"
  using assms rest_packets chunk_first(2) by (auto simp: ts_section_def ts_first_fields)

lemma asm_rest:
  assumes "pid < 0x2000" "length v + length xs \<le> 4096"
  shows "\<exists>w. asm_run (Some v) (ts_rest pid k xs @ ps) = asm_run (Some w) ps \<and> take (length v + length xs) w = v @ xs"
  using assms
proof (induction pid k xs arbitrary: v rule: ts_rest.induct)
  case (1 pid k xs)
  show ?case
  proof (cases "xs = []")
    case True
    then show ?thesis by (auto simp: ts_rest.simps)
  next
    case False
    let ?c = "padded 184 (take 184 xs)"
    let ?v = "take 4096 (v @ ?c)"
    have st: "asm_run (Some v) (ts_rest pid k xs @ ps) = asm_run (Some ?v) (ts_rest pid (Suc k) (drop 184 xs) @ ps)"
      using False chunk_cont(1) [OF "1.prems"(1), of ?c k] by (subst ts_rest.simps) simp
    show ?thesis
    proof (cases "length xs \<le> 184")
      case True
      then have "ts_rest pid (Suc k) (drop 184 xs) = []" by (simp add: ts_rest.simps)
      moreover have "take (length v + length xs) ?v = v @ xs" using True "1.prems"(2) by (simp add: padded_def)
      ultimately show ?thesis using st by auto
    next
      case long: False
      then have "?v = v @ take 184 xs" using "1.prems"(2) by (simp add: padded_def)
      with "1.IH" [OF False "1.prems"(1), of "v @ take 184 xs"] "1.prems"(2) st long show ?thesis by simp
    qed
  qed
qed

lemma asm_section:
  assumes "pid < 0x2000" "xs \<noteq> []" "length xs \<le> 4096"
  shows "\<exists>w. asm_run acc (ts_section pid xs @ ps) = (case acc of None \<Rightarrow> [] | Some v \<Rightarrow> [take 4096 v]) @ asm_run (Some w) ps
    \<and> take (length xs) w = xs"
proof -
  let ?h = "padded 183 (take 183 xs)"
  have st: "asm_run acc (ts_section pid xs @ ps) =
      (case acc of None \<Rightarrow> [] | Some v \<Rightarrow> [take 4096 v]) @ asm_run (Some ?h) (ts_rest pid 1 (drop 183 xs) @ ps)"
    using chunk_first(1) [OF assms(1), of ?h] by (cases acc) (simp_all add: ts_section_def)
  show ?thesis
  proof (cases "length xs \<le> 183")
    case True
    then show ?thesis using st by (auto simp: ts_rest.simps padded_def)
  next
    case False
    then have "?h = take 183 xs" by (simp add: padded_def)
    with asm_rest [OF assms(1), of "take 183 xs" "drop 183 xs" 1 ps] assms(3) False st show ?thesis by auto
  qed
qed

lemma asm_sections:
  assumes "pid < 0x2000" "\<forall>xs\<in>set xss. xs \<noteq> [] \<and> length xs \<le> 4096"
  shows "list_all2 (\<lambda>d xs. take (length xs) d = xs) (asm_run None (concat (map (ts_section pid) xss))) (butlast xss)"
    "take (length u) v = u \<Longrightarrow> length u \<le> 4096 \<Longrightarrow>
      list_all2 (\<lambda>d xs. take (length xs) d = xs) (asm_run (Some v) (concat (map (ts_section pid) xss))) (butlast (u # xss))"
  using assms(2)
proof (induction xss arbitrary: u v)
  case (Cons xs xss)
  have all: "\<forall>xs\<in>set xss. xs \<noteq> [] \<and> length xs \<le> 4096" and xs: "xs \<noteq> []" "length xs \<le> 4096"
    if "\<forall>xs\<in>set (xs # xss). xs \<noteq> [] \<and> length xs \<le> 4096" using that by simp_all
  { case 1
    from asm_section [OF assms(1) xs [OF 1], of None "concat (map (ts_section pid) xss)"] obtain w where
      run: "asm_run None (ts_section pid xs @ concat (map (ts_section pid) xss)) = asm_run (Some w) (concat (map (ts_section pid) xss))"
      and w: "take (length xs) w = xs" by auto
    from Cons.IH(2) [OF w xs(2) [OF 1] all [OF 1]] run show ?case by (simp del: butlast.simps) }
  { case 2
    from asm_section [OF assms(1) xs [OF 2(3)], of "Some v" "concat (map (ts_section pid) xss)"] obtain w where
      run: "asm_run (Some v) (ts_section pid xs @ concat (map (ts_section pid) xss)) = take 4096 v # asm_run (Some w) (concat (map (ts_section pid) xss))"
      and w: "take (length xs) w = xs" by auto
    have "take (length u) (take 4096 v) = u" using 2(1,2) by (simp add: min_absorb1)
    moreover have "butlast (u # xs # xss) = u # butlast (xs # xss)" by simp
    ultimately show ?case using Cons.IH(2) [OF w xs(2) [OF 2(3)] all [OF 2(3)]] run by (simp del: butlast.simps) }
qed simp_all

text \<open>The packets in the memory that \<open>sec_to_ts\<close> returns.\<close>

definition ts_packets :: "nat \<times> buffer \<Rightarrow> buffer list" where
  "ts_packets r = map (\<lambda>i. take 188 (drop (188 * i) (snd r))) [0..<fst r]"

lemma ts_packets_concat:
  assumes "\<forall>p\<in>set ps. length p = 188"
  shows "ts_packets (length ps, concat ps) = ps"
  using assms
proof (induction ps)
  case (Cons p ps)
  have "[0..<length (p # ps)] = 0 # map Suc [0..<length ps]" by (simp add: upt_conv_Cons map_Suc_upt del: upt_Suc)
  with Cons show ?case by (simp add: ts_packets_def o_def del: upt_Suc)
qed (simp add: ts_packets_def)

lemma sec_to_ts_packets:
  assumes "pid < 0x2000" "xs \<noteq> []"
  shows "ts_packets (the (sec_to_ts xs pid)) = ts_section pid xs"
  using ts_packets_concat [of "ts_section pid xs"] section_packets [OF assms(1)] sec_to_ts_run [OF assms(2)]
  by (simp add: packet_ok_def)

lemma sec_to_ts_arrives:
  assumes "pid < 0x2000" and "\<forall>xs\<in>set xss. xs \<noteq> [] \<and> length xs \<le> 4096"
    and "map snd ps = concat (map (\<lambda>xs. ts_packets (the (sec_to_ts xs pid))) xss)"
  shows "\<exists>ex rels outs. secEx_run secExInit ps = Some (ex, rels, outs)
    \<and> list_all2 (\<lambda>(q, d) xs. q = pid \<and> take (length xs) d = xs) outs (butlast xss)"
proof -
  have "concat (map (\<lambda>xs. ts_packets (the (sec_to_ts xs pid))) xss) = concat (map (ts_section pid) xss)"
    using assms(2) sec_to_ts_packets [OF assms(1)] by (intro arg_cong [of _ _ concat] map_cong) auto
  with assms(3) have ps: "map snd ps = concat (map (ts_section pid) xss)" by simp
  then have ok: "packet_ok p" "ts_pid p = pid" if "p \<in> snd ` set ps" for p
  proof -
    have "p \<in> set (map snd ps)" using that by simp
    then show "packet_ok p" "ts_pid p = pid" using section_packets [OF assms(1), of p] unfolding ps by auto
  qed
  have "\<forall>p\<in>set ps. packet_ok (snd p)" using ok(1) by blast
  from secEx_run_sim [OF secExInit_inv this] obtain ex rels outs where
    run: "secEx_run secExInit ps = Some (ex, rels, outs)" and
    outs: "\<And>q. list_all2 (\<lambda>v d. take (length v) d = v)
          (asm_run (collecting secExInit q) (filter (\<lambda>b. ts_pid b = q) (map snd ps)))
          (map snd (filter (\<lambda>s. fst s = q) outs))" by blast
  have none: "collecting secExInit q = None" for q by (simp add: secExInit_def collecting_def lookup_def)
  have "filter (\<lambda>s. fst s = q) outs = []" if "q \<noteq> pid" for q
  proof -
    have "filter (\<lambda>b. ts_pid b = q) (map snd ps) = []" using ok(2) that by (auto simp: filter_empty_conv)
    with outs [of q] none show ?thesis by simp
  qed
  then have only: "\<forall>s\<in>set outs. fst s = pid" by (metis (mono_tags) filter_empty_conv)
  then have "filter (\<lambda>s. fst s = pid) outs = outs" by simp
  moreover have "filter (\<lambda>b. ts_pid b = pid) (map snd ps) = map snd ps" using ok(2) by (auto simp: filter_id_conv)
  ultimately have 2: "list_all2 (\<lambda>v d. take (length v) d = v) (asm_run None (concat (map (ts_section pid) xss))) (map snd outs)"
    using outs [of pid] none ps by simp
  have "take (length x) d = x" if "take (length v) d = v" "take (length x) v = x" for x v d :: buffer
  proof -
    have "length x \<le> length v" using that(2) by (metis length_take min.cobounded1 min.commute)
    then show ?thesis using that by (metis min_absorb1 take_take)
  qed
  then have "list_all2 (\<lambda>xs d. take (length xs) d = xs) (butlast xss) (map snd outs)"
  proof (rule list_all2_trans [OF _ _ 2])
    show "list_all2 (\<lambda>xs v. take (length xs) v = xs) (butlast xss) (asm_run None (concat (map (ts_section pid) xss)))"
      using asm_sections(1) [OF assms(1,2)] by (simp add: list_all2_conv_all_nth)
  qed
  then have "list_all2 (\<lambda>(q, d) xs. q = pid \<and> take (length xs) d = xs) outs (butlast xss)"
    using only by (auto simp: list_all2_conv_all_nth split_beta)
  with run show ?thesis by blast
qed

text \<open>C20: cutting sections into packets and reassembling them are inverse to each other: when the
  packets of any sequence of sections, each of one to 4096 bytes, are put into an empty extractor one
  after the other, no access leaves a buffer and every section but the last, which is still being collected,
  is delivered under its PID, unchanged and in order.\<close>
theorem sec_to_ts_roundtrip:
  assumes "pid < 0x2000" and "\<forall>xs\<in>set xss. xs \<noteq> [] \<and> length xs \<le> 4096"
    and "map snd ps = concat (map (\<lambda>xs. ts_packets (the (sec_to_ts xs pid))) xss)"
  shows "(\<forall>xs\<in>set xss. sec_to_ts xs pid \<noteq> None) \<and> (\<exists>ex rels outs. secEx_run secExInit ps = Some (ex, rels, outs)
    \<and> list_all2 (\<lambda>(q, d) xs. q = pid \<and> take (length xs) d = xs) outs (butlast xss))"
  using sec_to_ts_arrives [OF assms] sec_to_ts_run assms(2) by auto

theorem sec_to_ts_roundtrip_witness:
  "\<exists>ex rels d. secEx_run secExInit
      (map (Pair 0) (concat (map (\<lambda>xs. ts_packets (the (sec_to_ts xs 0x1f))) [[1, 2, 3], [4]])))
    = Some (ex, rels, [(0x1f, d)]) \<and> take 3 d = [1, 2, 3]"
  using sec_to_ts_roundtrip [of "0x1f" "[[1, 2, 3], [4]]"
      "map (Pair 0) (concat (map (\<lambda>xs. ts_packets (the (sec_to_ts xs 0x1f))) [[1, 2, 3], [4]]))"]
  by (auto simp: list_all2_Cons2 o_def numeral_3_eq_3)

end
