(* ===== verification/RecSched.thy ===== *)
theory RecSched
  imports DLists "HOL-Library.Monad_Syntax" "HOL-Library.Product_Lexorder"
begin

text \<open>
  common/rs_entry.c, stream/rec_sched.c and common/reminder.c: the recording schedule and the
  reminders.  Both are doubly linked lists kept in order of their starting times; recurring
  entries are moved to their next time when they are done.  The clock conversions of the C
  library are a parameter; the payload of a freed reminder is gone, so that touching it
  is a fault.
\<close>

subsection \<open>Data\<close>

abbreviation RS_IDLE :: u8 where "RS_IDLE \<equiv> 0"
abbreviation RS_WAITING :: u8 where "RS_WAITING \<equiv> 1"
abbreviation RS_RUNNING :: u8 where "RS_RUNNING \<equiv> 2"

abbreviation RST_ONCE :: u8 where "RST_ONCE \<equiv> 0"
abbreviation RST_DAY :: u8 where "RST_DAY \<equiv> 1"
abbreviation RST_WEEK :: u8 where "RST_WEEK \<equiv> 2"
abbreviation RST_2WEEK :: u8 where "RST_2WEEK \<equiv> 3"
abbreviation RST_3WEEK :: u8 where "RST_3WEEK \<equiv> 4"
abbreviation RST_4WEEK :: u8 where "RST_4WEEK \<equiv> 5"
abbreviation RST_MONTH :: u8 where "RST_MONTH \<equiv> 6"

record rs_entry =
  re_state :: u8
  re_type :: u8
  re_wd :: u8
  re_flags :: u8
  re_pos :: u8
  re_pol :: u8
  re_freq :: u32
  re_pnr :: u16
  re_start :: int
  re_duration :: int
  re_evt_id :: int
  re_name :: "u8 list option"

record wtm = tm +
  tm_wday :: int
  tm_isdst :: int

record clock =
  localtime_r :: "int \<Rightarrow> wtm"
  mktime :: "wtm \<Rightarrow> int"

subsection \<open>The next time of a recurring entry\<close>

definition rs_next_month :: "clock \<Rightarrow> int \<Rightarrow> int" where
  "rs_next_month ck origin = (let b = localtime_r ck origin in mktime ck (b\<lparr>tm_mon := tm_mon b + 1\<rparr>))"

definition rs_next_4week :: "clock \<Rightarrow> int \<Rightarrow> int" where
  "rs_next_4week ck origin = (let b = localtime_r ck origin in mktime ck (b\<lparr>tm_mday := tm_mday b + 28\<rparr>))"

definition rs_next_3week :: "clock \<Rightarrow> int \<Rightarrow> int" where
  "rs_next_3week ck origin = (let b = localtime_r ck origin in mktime ck (b\<lparr>tm_mday := tm_mday b + 21\<rparr>))"

definition rs_next_2week :: "clock \<Rightarrow> int \<Rightarrow> int" where
  "rs_next_2week ck origin = (let b = localtime_r ck origin in mktime ck (b\<lparr>tm_mday := tm_mday b + 14\<rparr>))"

definition rs_next_week :: "clock \<Rightarrow> int \<Rightarrow> int" where
  "rs_next_week ck origin = (let b = localtime_r ck origin in mktime ck (b\<lparr>tm_mday := tm_mday b + 7\<rparr>))"

fun rs_next_day_loop :: "clock \<Rightarrow> u8 \<Rightarrow> nat \<Rightarrow> wtm \<Rightarrow> int" where
  "rs_next_day_loop ck wd 0 b = 0"
| "rs_next_day_loop ck wd (Suc n) b =
     (let b = b\<lparr>tm_wday := tm_wday b + 1\<rparr>;
          b = b\<lparr>tm_mday := tm_mday b + 1\<rparr>;
          b = (if tm_wday b = 7 then b\<lparr>tm_wday := 0\<rparr> else b)
      in if push_bit (nat (tm_wday b)) 1 AND ucast wd \<noteq> (0 :: u32) then mktime ck b
         else rs_next_day_loop ck wd n b)"

definition rs_next_day :: "clock \<Rightarrow> u8 \<Rightarrow> int \<Rightarrow> int" where
  "rs_next_day ck wd origin =
     (if wd AND 0x7f = 0 then 0 else rs_next_day_loop ck wd 7 (localtime_r ck origin))"

definition rsNextTime :: "clock \<Rightarrow> u8 \<Rightarrow> u8 \<Rightarrow> int \<Rightarrow> int" where
  "rsNextTime ck tp wd t =
     (if tp = RST_ONCE then 0
      else if tp = RST_DAY then rs_next_day ck wd t
      else if tp = RST_WEEK then rs_next_week ck t
      else if tp = RST_2WEEK then rs_next_2week ck t
      else if tp = RST_3WEEK then rs_next_3week ck t
      else if tp = RST_4WEEK then rs_next_4week ck t
      else if tp = RST_MONTH then rs_next_month ck t
      else 0)"

subsection \<open>Entries of the schedule\<close>

definition rsPending :: "int \<Rightarrow> rs_entry \<Rightarrow> bool" where
  "rsPending now e \<longleftrightarrow> re_state e = RS_WAITING \<and> now \<ge> re_start e - 2 * 60"

definition rsStart :: "rs_entry \<Rightarrow> int \<times> rs_entry" where
  "rsStart e = (if re_state e = RS_WAITING then (0, e\<lparr>re_state := RS_RUNNING\<rparr>) else (1, e))"

definition rsIsRunning :: "rs_entry \<Rightarrow> bool" where
  "rsIsRunning e \<longleftrightarrow> re_state e = RS_RUNNING"

definition rsStopping :: "int \<Rightarrow> rs_entry \<Rightarrow> bool" where
  "rsStopping now e \<longleftrightarrow> re_state e = RS_RUNNING \<and> now \<ge> re_start e + re_duration e + 2 * 60"

definition rsDone :: "clock \<Rightarrow> rs_entry \<Rightarrow> int \<times> rs_entry" where
  "rsDone ck e =
     (if re_state e = RS_RUNNING then
        if re_type e = RST_ONCE then (0, e\<lparr>re_state := RS_IDLE\<rparr>)
        else let e = e\<lparr>re_state := RS_WAITING, re_start := rsNextTime ck (re_type e) (re_wd e) (re_start e)\<rparr>
             in if re_start e = 0 then (1, e\<lparr>re_state := RS_IDLE\<rparr>) else (0, e)
      else (1, e))"

definition rsNeq :: "rs_entry \<Rightarrow> rs_entry \<Rightarrow> bool" where
  "rsNeq a b \<longleftrightarrow> re_state a \<noteq> re_state b \<or> re_type a \<noteq> re_type b \<or> re_wd a \<noteq> re_wd b \<or> re_flags a \<noteq> re_flags b
     \<or> re_pos a \<noteq> re_pos b \<or> re_pol a \<noteq> re_pol b \<or> re_freq a \<noteq> re_freq b \<or> re_pnr a \<noteq> re_pnr b
     \<or> re_start a \<noteq> re_start b \<or> re_duration a \<noteq> re_duration b \<or> re_evt_id a \<noteq> re_evt_id b
     \<or> (re_name a = None \<and> re_name b \<noteq> None) \<or> (re_name a \<noteq> None \<and> re_name b = None)
     \<or> (re_name a \<noteq> None \<and> re_name b \<noteq> None \<and> the (re_name a) \<noteq> the (re_name b))"

fun rs_neq_loop :: "rs_entry list \<Rightarrow> rs_entry list \<Rightarrow> int" where
  "rs_neq_loop (a # as) (b # bs) = (if rsNeq a b then 2 else rs_neq_loop as bs)"
| "rs_neq_loop _ _ = 0"

definition rsNeqSched :: "rs_entry list \<Rightarrow> rs_entry list \<Rightarrow> int" where
  "rsNeqSched a b = (if length a \<noteq> length b then 1 else rs_neq_loop a b)"

text \<open>\<open>ok\<close> says whether \<open>strdup\<close> succeeds; if not, the copy has no name.\<close>

definition rsClone :: "bool \<Rightarrow> rs_entry \<Rightarrow> rs_entry" where
  "rsClone ok src = (if re_name src \<noteq> None \<and> \<not> ok then src\<lparr>re_name := None\<rparr> else src)"

definition rsCloneSched :: "bool \<Rightarrow> (nat \<Rightarrow> bool) \<Rightarrow> rs_entry list \<Rightarrow> rs_entry list option" where
  "rsCloneSched oka ok src = (if oka then Some (map (\<lambda>i. rsClone (ok i) (src ! i)) [0..<length src]) else None)"

subsection \<open>Ordered insertion\<close>

text \<open>The loop of \<open>rsInsertEntry\<close> and \<open>reminderAdd\<close>: \<open>e\<close> goes before the first element that
  \<open>test\<close> accepts, or to the end.\<close>

partial_function (option) insert_where :: "(addr \<Rightarrow> bool option) \<Rightarrow> dheap \<Rightarrow> dlist \<Rightarrow> addr \<Rightarrow> ptr \<Rightarrow> (dheap \<times> dlist) option" where
  "insert_where test h l e p =
     (case p of
        None \<Rightarrow> Some (dlistInsertLast (h, l) e)
      | Some x \<Rightarrow> do {
          b \<leftarrow> test x;
          (if b then Some (dlistInsertBefore (h, l) e x) else insert_where test h l e (dlistENext h x))
        })"

definition rsEntryCmp :: "rs_entry \<Rightarrow> rs_entry \<Rightarrow> int" where
  "rsEntryCmp ap bp =
     (let rv = (if re_start bp < re_start ap then -1 else if re_start bp \<noteq> re_start ap then 1 else 0);
          rv = (if rv = 0 then if re_pos ap < re_pos bp then -1 else if re_pos ap \<noteq> re_pos bp then 1 else 0 else rv);
          rv = (if rv = 0 then if re_freq ap < re_freq bp then -1 else if re_freq ap \<noteq> re_freq bp then 1 else 0 else rv);
          rv = (if rv = 0 then if re_pol ap < re_pol bp then -1 else if re_pol ap \<noteq> re_pol bp then 1 else 0 else rv);
          rv = (if rv = 0 then if re_pnr ap < re_pnr bp then -1 else if re_pnr ap \<noteq> re_pnr bp then 1 else 0 else rv)
      in if rv = 0 then if re_evt_id ap < re_evt_id bp then -1 else if re_evt_id ap \<noteq> re_evt_id bp then 1 else 0 else rv)"

definition rsInsertEntry :: "(addr \<Rightarrow> rs_entry option) \<Rightarrow> dheap \<times> dlist \<Rightarrow> addr \<Rightarrow> (int \<times> (dheap \<times> dlist)) option" where
  "rsInsertEntry pay sch e = do {
     ee \<leftarrow> pay e;
     s \<leftarrow> insert_where (\<lambda>x. do { xe \<leftarrow> pay x; Some (rsEntryCmp ee xe \<ge> 0) }) (fst sch) (snd sch) e (dlistFirst (snd sch));
     Some (0, s)
   }"

subsection \<open>Reminders\<close>

record reminder =
  rem_type :: u8
  rem_wd :: u8
  rem_start :: int
  rem_duration :: int
  rem_pos :: u32
  rem_freq :: u32
  rem_pol :: u8
  rem_pnr :: u16
  rem_service :: "u8 list"
  rem_event :: "u8 list option"

text \<open>The list, and the payloads of the elements that are not freed.\<close>

record rem_state =
  rm_list :: "dheap \<times> dlist"
  rm_pay :: "addr \<Rightarrow> reminder option"

text \<open>\<open>ok\<close> says which of the three allocations succeed.\<close>

definition reminderNew :: "(nat \<Rightarrow> bool) \<Rightarrow> u8 \<Rightarrow> u8 \<Rightarrow> int \<Rightarrow> int \<Rightarrow> u32 \<Rightarrow> u32 \<Rightarrow> u8 \<Rightarrow> u16 \<Rightarrow> u8 list option \<Rightarrow> u8 list option \<Rightarrow> reminder option" where
  "reminderNew ok type wd start duration pos freq pol pnr svc evt =
     (if \<not> ok 0 then None
      else let r = \<lparr>rem_type = type, rem_wd = wd, rem_start = start, rem_duration = duration, rem_pos = pos, rem_freq = freq,
                    rem_pol = pol, rem_pnr = pnr, rem_service = [], rem_event = None\<rparr>
      in if svc \<noteq> None \<and> \<not> ok 1 then None
         else let r = (case svc of None \<Rightarrow> r | Some v \<Rightarrow> r\<lparr>rem_service := v\<rparr>)
         in case evt of
              None \<Rightarrow> Some r
            | Some v \<Rightarrow> if \<not> ok 2 then None else Some (r\<lparr>rem_event := Some (take 64 v)\<rparr>))"

definition reminderAdd :: "rem_state \<Rightarrow> addr \<Rightarrow> rem_state option" where
  "reminderAdd s rem = do {
     rem2 \<leftarrow> rm_pay s rem;
     (case dlistFirst (snd (rm_list s)) of
        None \<Rightarrow> Some (s\<lparr>rm_list := dlistInsertFirst (rm_list s) rem\<rparr>)
      | Some current \<Rightarrow> do {
          l \<leftarrow> insert_where (\<lambda>x. do { c \<leftarrow> rm_pay s x; Some (rem_start c > rem_start rem2) }) (fst (rm_list s)) (snd (rm_list s)) rem (Some current);
          Some (s\<lparr>rm_list := l\<rparr>)
        })
   }"

definition reminderDel :: "rem_state \<Rightarrow> addr \<Rightarrow> rem_state" where
  "reminderDel s rem = s\<lparr>rm_pay := (rm_pay s)(rem := None)\<rparr>"

definition reminderIsReady :: "int \<Rightarrow> reminder option \<Rightarrow> bool" where
  "reminderIsReady now rem = (case rem of None \<Rightarrow> False | Some r \<Rightarrow> rem_start r \<le> now)"

definition reminderDone :: "clock \<Rightarrow> rem_state \<Rightarrow> addr \<Rightarrow> (int \<times> rem_state) option" where
  "reminderDone ck s rem = do {
     let s = s\<lparr>rm_list := dlistRemove (rm_list s) rem\<rparr>;
     this \<leftarrow> rm_pay s rem;
     (if rem_type this = RST_ONCE then Some (1, reminderDel s rem)
      else do {
        let this = this\<lparr>rem_start := rsNextTime ck (rem_type this) (rem_wd this) (rem_start this)\<rparr>;
        let s = s\<lparr>rm_pay := (rm_pay s)(rem \<mapsto> this)\<rparr>;
        (if rem_start this = 0 then Some (1, reminderDel s rem)
         else do { s \<leftarrow> reminderAdd s rem; Some (0, s) })
      })
   }"

partial_function (option) rem_catch_up :: "clock \<Rightarrow> int \<Rightarrow> addr \<Rightarrow> rem_state \<Rightarrow> rem_state option" where
  "rem_catch_up ck t e s = do {
     current \<leftarrow> rm_pay s e;
     (if rem_start current + rem_duration current < t then do {
        (r, s) \<leftarrow> reminderDone ck s e;
        (if r \<noteq> 0 then Some s else rem_catch_up ck t e s)
      }
      else Some s)
   }"

partial_function (option) rem_update_loop :: "clock \<Rightarrow> int \<Rightarrow> ptr \<Rightarrow> rem_state \<Rightarrow> rem_state option" where
  "rem_update_loop ck t p s =
     (case p of
        None \<Rightarrow> Some s
      | Some e \<Rightarrow> do {
          let next = dlistENext (fst (rm_list s)) e;
          s \<leftarrow> rem_catch_up ck t e s;
          rem_update_loop ck t next s
        })"

definition reminderListUpdate :: "clock \<Rightarrow> rem_state \<Rightarrow> int \<Rightarrow> rem_state option" where
  "reminderListUpdate ck s t = rem_update_loop ck t (dlistFirst (snd (rm_list s))) s"

subsection \<open>The clock\<close>

text \<open>What the code relies on of \<open>localtime_r\<close> and \<open>mktime\<close>: \<open>mktime\<close> ignores the day of the week and
  normalises the other fields, so that adding days or a month to a broken-down local time moves the time by as much, up to the change
  of the offset from UTC in between.  \<open>shift\<close> bounds that change in seconds: 0 without seasonal time, 3600 with the
  usual one; less than a day is all that is needed.\<close>

definition civil_clock :: "int \<Rightarrow> clock \<Rightarrow> bool" where
  "civil_clock shift ck \<longleftrightarrow> 0 \<le> shift \<and> shift < 86400
     \<and> (\<forall>t k w. 0 < k \<and> k \<le> 28 \<longrightarrow>
          \<bar>mktime ck ((localtime_r ck t)\<lparr>tm_mday := tm_mday (localtime_r ck t) + k, tm_wday := w\<rparr>) - (t + 86400 * k)\<bar> \<le> shift)
     \<and> (\<forall>t. \<exists>d. 28 \<le> d \<and> d \<le> 31 \<and>
          \<bar>mktime ck ((localtime_r ck t)\<lparr>tm_mon := tm_mon (localtime_r ck t) + 1\<rparr>) - (t + 86400 * d)\<bar> \<le> shift)
     \<and> (\<forall>t. 0 \<le> tm_wday (localtime_r ck t) \<and> tm_wday (localtime_r ck t) < 7)"

definition flagged :: "u8 \<Rightarrow> int \<Rightarrow> bool" where
  "flagged wd d \<longleftrightarrow> bit wd (nat d)"

lemma day_test:
  assumes "0 \<le> d" "d < 7"
  shows "push_bit (nat d) 1 AND ucast wd \<noteq> (0 :: u32) \<longleftrightarrow> flagged wd d"
proof -
  have "(push_bit (nat d) 1 AND ucast wd = (0 :: u32)) = (ucast wd AND 2 ^ nat d = (0 :: u32))"
    by (simp add: push_bit_eq_mult and.commute)
  also have "\<dots> \<longleftrightarrow> \<not> bit (ucast wd :: u32) (nat d)" by (rule and_exp_eq_0_iff_not_bit)
  finally have "(push_bit (nat d) 1 AND ucast wd = (0 :: u32)) \<longleftrightarrow> \<not> bit (ucast wd :: u32) (nat d)" .
  moreover have "nat d < 32" using assms by linarith
  ultimately show ?thesis by (simp add: flagged_def bit_ucast_iff)
qed

lemma no_days:
  "wd AND 0x7f = 0 \<longleftrightarrow> (\<forall>d\<in>{0..<7}. \<not> flagged wd d)"
proof -
  have "wd AND 0x7f = take_bit 7 wd" by (simp add: take_bit_eq_mask mask_eq_exp_minus_1)
  moreover have "take_bit 7 wd = 0 \<longleftrightarrow> (\<forall>n<7. \<not> bit wd n)"
    by (auto simp: bit_eq_iff bit_take_bit_iff)
  moreover have "(\<forall>n<7. \<not> bit wd n) \<longleftrightarrow> (\<forall>d\<in>{0..<7}. \<not> flagged wd d)"
  proof
    assume *: "\<forall>d\<in>{0..<7}. \<not> flagged wd d"
    show "\<forall>n<7. \<not> bit wd n"
    proof (intro allI impI)
      fix n :: nat assume "n < 7"
      with * have "\<not> flagged wd (int n)" by simp
      then show "\<not> bit wd n" by (simp add: flagged_def)
    qed
  qed (auto simp: flagged_def nat_less_iff)
  ultimately show ?thesis by simp
qed

definition weekday :: "clock \<Rightarrow> int \<Rightarrow> int" where
  "weekday ck t = tm_wday (localtime_r ck t)"

text \<open>The day of the week \<open>k\<close> calendar days after a time.\<close>

definition weekday_in :: "clock \<Rightarrow> int \<Rightarrow> int \<Rightarrow> int" where
  "weekday_in ck t k = (weekday ck t + k) mod 7"

lemma weekday_range: "civil_clock shift ck \<Longrightarrow> 0 \<le> weekday ck t \<and> weekday ck t < 7"
  by (auto simp: civil_clock_def weekday_def)

definition day_after :: "wtm \<Rightarrow> wtm" where
  "day_after b = b\<lparr>tm_mday := tm_mday b + 1, tm_wday := (tm_wday b + 1) mod 7\<rparr>"

lemma next_day_step:
  assumes "0 \<le> tm_wday b" "tm_wday b < 7"
  shows "rs_next_day_loop ck wd (Suc n) b =
    (if flagged wd (tm_wday (day_after b)) then mktime ck (day_after b) else rs_next_day_loop ck wd n (day_after b))"
proof -
  have "tm_wday (day_after b) = (tm_wday b + 1) mod 7" by (simp add: day_after_def)
  then have rg: "0 \<le> tm_wday (day_after b)" "tm_wday (day_after b) < 7" by simp_all
  have "(let b = b\<lparr>tm_wday := tm_wday b + 1\<rparr>; b = b\<lparr>tm_mday := tm_mday b + 1\<rparr>
      in if tm_wday b = 7 then b\<lparr>tm_wday := 0\<rparr> else b) = day_after b"
    using assms by (auto simp: day_after_def Let_def)
  then show ?thesis using day_test [OF rg] by (simp only: rs_next_day_loop.simps Let_def)
qed

text \<open>The loop finds the first of the following days that is flagged.\<close>

lemma next_day_loop:
  assumes "civil_clock shift ck" "0 \<le> i" "i + int n \<le> 28"
  shows "case rs_next_day_loop ck wd n ((localtime_r ck t)\<lparr>tm_mday := tm_mday (localtime_r ck t) + i, tm_wday := (weekday ck t + i) mod 7\<rparr>) of r \<Rightarrow>
    (if \<exists>k. i < k \<and> k \<le> i + int n \<and> flagged wd (weekday_in ck t k)
     then \<exists>k. i < k \<and> k \<le> i + int n \<and> \<bar>r - (t + 86400 * k)\<bar> \<le> shift \<and> flagged wd (weekday_in ck t k) \<and>
       (\<forall>j. i < j \<and> j < k \<longrightarrow> \<not> flagged wd (weekday_in ck t j))
     else r = 0)"
  using assms(2,3)
proof (induction n arbitrary: i)
  case (Suc n)
  let ?b = "\<lambda>i. (localtime_r ck t)\<lparr>tm_mday := tm_mday (localtime_r ck t) + i, tm_wday := (weekday ck t + i) mod 7\<rparr>"
  let ?w = "weekday_in ck t (i + 1)"
  have w: "?w = (weekday ck t + (i + 1)) mod 7" by (simp add: weekday_in_def)
  have da: "day_after (?b i) = ?b (i + 1)" by (simp add: day_after_def mod_simps add.assoc)
  have "tm_wday (?b (i + 1)) = ?w" unfolding w by simp
  then have step: "rs_next_day_loop ck wd (Suc n) (?b i) =
      (if flagged wd ?w then mktime ck (?b (i + 1)) else rs_next_day_loop ck wd n (?b (i + 1)))"
    using next_day_step [of "?b i" ck wd n] by (simp only: da) simp
  show ?case
  proof (cases "flagged wd ?w")
    case True
    have "0 < i + 1" "i + 1 \<le> 28" using Suc.prems by auto
    then have "\<bar>mktime ck (?b (i + 1)) - (t + 86400 * (i + 1))\<bar> \<le> shift" using assms(1) unfolding civil_clock_def by blast
    moreover have "i < i + 1" "i + 1 \<le> i + int (Suc n)" "\<forall>j. i < j \<and> j < i + 1 \<longrightarrow> \<not> flagged wd (weekday_in ck t j)" by auto
    ultimately show ?thesis using True step by (metis (no_types, lifting))
  next
    case False
    have ex: "(\<exists>k. i < k \<and> k \<le> i + int (Suc n) \<and> flagged wd (weekday_in ck t k)) =
        (\<exists>k. i + 1 < k \<and> k \<le> i + 1 + int n \<and> flagged wd (weekday_in ck t k))"
    proof -
      have "i < k \<longleftrightarrow> k = i + 1 \<or> i + 1 < k" for k :: int by linarith
      with False show ?thesis by (auto simp: algebra_simps)
    qed
    have sub: "\<forall>j. i < j \<and> j < k \<longrightarrow> \<not> flagged wd (weekday_in ck t j)"
      if "\<forall>j. i + 1 < j \<and> j < k \<longrightarrow> \<not> flagged wd (weekday_in ck t j)" for k
    proof -
      have "i < j \<longleftrightarrow> j = i + 1 \<or> i + 1 < j" for j :: int by linarith
      with False that show ?thesis by auto
    qed
    have r: "rs_next_day_loop ck wd (Suc n) (?b i) = rs_next_day_loop ck wd n (?b (i + 1))" using step False by simp
    have ih: "if \<exists>k. i + 1 < k \<and> k \<le> i + 1 + int n \<and> flagged wd (weekday_in ck t k)
      then \<exists>k. i + 1 < k \<and> k \<le> i + 1 + int n \<and> \<bar>rs_next_day_loop ck wd n (?b (i + 1)) - (t + 86400 * k)\<bar> \<le> shift \<and>
        flagged wd (weekday_in ck t k) \<and> (\<forall>j. i + 1 < j \<and> j < k \<longrightarrow> \<not> flagged wd (weekday_in ck t j))
      else rs_next_day_loop ck wd n (?b (i + 1)) = 0"
      using Suc.IH [of "i + 1"] Suc.prems by simp
    show ?thesis
    proof (cases "\<exists>k. i + 1 < k \<and> k \<le> i + 1 + int n \<and> flagged wd (weekday_in ck t k)")
      case True
      with ih obtain k where k: "i + 1 < k" "k \<le> i + 1 + int n"
        "\<bar>rs_next_day_loop ck wd n (?b (i + 1)) - (t + 86400 * k)\<bar> \<le> shift" "flagged wd (weekday_in ck t k)"
        "\<forall>j. i + 1 < j \<and> j < k \<longrightarrow> \<not> flagged wd (weekday_in ck t j)" by (simp only: if_True) blast
      from k(1,2) have "i < k" "k \<le> i + int (Suc n)" by auto
      with k(3,4) sub [OF k(5)] show ?thesis unfolding r ex if_P [OF True] by blast
    next
      case False
      with ih show ?thesis unfolding r ex by (simp only: if_False)
    qed
  qed
qed (auto)


lemma rs_next_day_first:
  assumes "civil_clock shift ck"
  shows "if \<exists>d\<in>{0..<7}. flagged wd d
    then \<exists>k. 0 < k \<and> k \<le> 7 \<and> \<bar>rs_next_day ck wd t - (t + 86400 * k)\<bar> \<le> shift \<and> flagged wd (weekday_in ck t k) \<and>
      (\<forall>j. 0 < j \<and> j < k \<longrightarrow> \<not> flagged wd (weekday_in ck t j))
    else rs_next_day ck wd t = 0"
proof (cases "\<exists>d\<in>{0..<7}. flagged wd d")
  case True
  then obtain d where d: "0 \<le> d" "d < 7" "flagged wd d" by auto
  define k where "k = (d - weekday ck t - 1) mod 7 + 1"
  have "(weekday ck t + k) mod 7 = (weekday ck t + 1 + (d - weekday ck t - 1) mod 7) mod 7"
    by (simp add: k_def algebra_simps)
  also have "\<dots> = d" using d by (simp only: mod_add_right_eq) simp
  finally have "weekday_in ck t k = d" by (simp only: weekday_in_def)
  moreover have "0 < k" "k \<le> 7" by (simp_all add: k_def add_nonneg_pos)
  ultimately have "weekday_in ck t k = d" "0 < k" "k \<le> 7" by blast+
  with d(3) have ex: "\<exists>k>0. k \<le> int 7 \<and> flagged wd (weekday_in ck t k)" by auto
  from True have "rs_next_day ck wd t = rs_next_day_loop ck wd 7 (localtime_r ck t)"
    unfolding rs_next_day_def no_days by auto
  also have "localtime_r ck t = (localtime_r ck t)\<lparr>tm_mday := tm_mday (localtime_r ck t) + 0, tm_wday := (weekday ck t + 0) mod 7\<rparr>"
    using weekday_range [OF assms, of t] by (simp add: weekday_def)
  finally show ?thesis
    using next_day_loop [OF assms, where i = 0 and n = 7 and wd = wd and t = t] ex True by auto
next
  case False
  then show ?thesis unfolding rs_next_day_def no_days by auto
qed

lemma rs_next_weeks:
  assumes "civil_clock shift ck"
  shows "\<bar>rs_next_week ck t - (t + 86400 * 7)\<bar> \<le> shift" "\<bar>rs_next_2week ck t - (t + 86400 * 14)\<bar> \<le> shift"
    "\<bar>rs_next_3week ck t - (t + 86400 * 21)\<bar> \<le> shift" "\<bar>rs_next_4week ck t - (t + 86400 * 28)\<bar> \<le> shift"
proof -
  have *: "\<bar>mktime ck ((localtime_r ck t)\<lparr>tm_mday := tm_mday (localtime_r ck t) + k\<rparr>) - (t + 86400 * k)\<bar> \<le> shift"
    if "0 < k" "k \<le> 28" for k
  proof -
    have "(localtime_r ck t)\<lparr>tm_mday := tm_mday (localtime_r ck t) + k, tm_wday := tm_wday (localtime_r ck t)\<rparr> =
        (localtime_r ck t)\<lparr>tm_mday := tm_mday (localtime_r ck t) + k\<rparr>" by simp
    with assms that show ?thesis unfolding civil_clock_def by metis
  qed
  show "\<bar>rs_next_week ck t - (t + 86400 * 7)\<bar> \<le> shift" "\<bar>rs_next_2week ck t - (t + 86400 * 14)\<bar> \<le> shift"
    "\<bar>rs_next_3week ck t - (t + 86400 * 21)\<bar> \<le> shift" "\<bar>rs_next_4week ck t - (t + 86400 * 28)\<bar> \<le> shift"
    unfolding rs_next_week_def rs_next_2week_def rs_next_3week_def rs_next_4week_def Let_def by (rule *; simp)+
qed

lemma rs_next_month_bounds:
  assumes "civil_clock shift ck"
  shows "\<exists>d. 28 \<le> d \<and> d \<le> 31 \<and> \<bar>rs_next_month ck t - (t + 86400 * d)\<bar> \<le> shift"
  using assms unfolding civil_clock_def rs_next_month_def Let_def by blast

text \<open>Every type moves the time by a number of days from 1 to 31, up to the shift, or gives none.\<close>

lemma nextTime_days:
  assumes "civil_clock shift ck"
  shows "rsNextTime ck tp wd t = 0 \<or> (\<exists>d. 1 \<le> d \<and> d \<le> 31 \<and> \<bar>rsNextTime ck tp wd t - (t + 86400 * d)\<bar> \<le> shift)"
proof -
  have "rs_next_day ck wd t = 0 \<or> (\<exists>d. 1 \<le> d \<and> d \<le> 31 \<and> \<bar>rs_next_day ck wd t - (t + 86400 * d)\<bar> \<le> shift)"
  proof (cases "\<exists>d\<in>{0..<7}. flagged wd d")
    case True
    with rs_next_day_first [OF assms, of wd t] obtain k where
      "0 < k" "k \<le> 7" "\<bar>rs_next_day ck wd t - (t + 86400 * k)\<bar> \<le> shift" by auto
    then show ?thesis by (intro disjI2 exI [of _ k]) simp
  next
    case False
    then show ?thesis using rs_next_day_first [OF assms, of wd t] by auto
  qed
  moreover have "\<exists>d. 1 \<le> d \<and> d \<le> 31 \<and> \<bar>r - (t + 86400 * d)\<bar> \<le> shift"
    if "\<bar>r - (t + 86400 * k)\<bar> \<le> shift" "1 \<le> k" "k \<le> 31" for r k using that by blast
  note days = this [OF rs_next_weeks(1) [OF assms]] this [OF rs_next_weeks(2) [OF assms]]
    this [OF rs_next_weeks(3) [OF assms]] this [OF rs_next_weeks(4) [OF assms]]
  moreover obtain d where d: "28 \<le> d" "d \<le> 31" "\<bar>rs_next_month ck t - (t + 86400 * d)\<bar> \<le> shift"
    using rs_next_month_bounds [OF assms, of t] by blast
  then have "\<exists>d. 1 \<le> d \<and> d \<le> 31 \<and> \<bar>rs_next_month ck t - (t + 86400 * d)\<bar> \<le> shift"
    by (intro exI [of _ d]) simp
  ultimately show ?thesis by (simp add: rsNextTime_def)
qed

lemma nextTime_progress:
  assumes "civil_clock shift ck"
  shows "rsNextTime ck tp wd t = 0 \<or>
    (t + 86400 - shift \<le> rsNextTime ck tp wd t \<and> rsNextTime ck tp wd t \<le> t + 86400 * 31 + shift)"
proof -
  consider "rsNextTime ck tp wd t = 0" | d where "1 \<le> d" "d \<le> 31" "\<bar>rsNextTime ck tp wd t - (t + 86400 * d)\<bar> \<le> shift"
    using nextTime_days [OF assms] by blast
  then show ?thesis by cases auto
qed

definition recurs :: "u8 \<Rightarrow> u8 \<Rightarrow> bool" where
  "recurs tp wd \<longleftrightarrow> tp \<in> {RST_WEEK, RST_2WEEK, RST_3WEEK, RST_4WEEK, RST_MONTH} \<or> (tp = RST_DAY \<and> wd AND 0x7f \<noteq> 0)"

lemma later_nonzero: "0 \<le> (t :: int) \<Longrightarrow> \<bar>r - (t + 86400 * d)\<bar> \<le> shift \<Longrightarrow> 1 \<le> d \<Longrightarrow> shift < 86400 \<Longrightarrow> r \<noteq> 0"
  by linarith

lemma nextTime_recurs:
  assumes "civil_clock shift ck" "recurs tp wd" "0 \<le> t"
  shows "t + 86400 - shift \<le> rsNextTime ck tp wd t \<and> rsNextTime ck tp wd t \<le> t + 86400 * 31 + shift"
proof -
  note nz = later_nonzero [OF assms(3)]
  have sh: "shift < 86400" using assms(1) by (simp add: civil_clock_def)
  have "rs_next_day ck wd t \<noteq> 0" if "wd AND 0x7f \<noteq> 0"
  proof -
    from rs_next_day_first [OF assms(1), of wd t] that obtain k where
      "0 < k" "\<bar>rs_next_day ck wd t - (t + 86400 * k)\<bar> \<le> shift" unfolding no_days by auto
    then show ?thesis using nz sh by auto
  qed
  moreover have "rs_next_month ck t \<noteq> 0"
  proof -
    from rs_next_month_bounds [OF assms(1), of t] obtain d where
      "28 \<le> d" "\<bar>rs_next_month ck t - (t + 86400 * d)\<bar> \<le> shift" by blast
    then show ?thesis using nz [of _ d shift] sh by auto
  qed
  moreover note rs_next_weeks(1) [OF assms(1), THEN nz] rs_next_weeks(2) [OF assms(1), THEN nz]
    rs_next_weeks(3) [OF assms(1), THEN nz] rs_next_weeks(4) [OF assms(1), THEN nz]
  ultimately have "rsNextTime ck tp wd t \<noteq> 0"
    using assms(2) sh by (auto simp: recurs_def rsNextTime_def)
  then show ?thesis using nextTime_progress [OF assms(1), of tp wd t] by blast
qed


subsection \<open>Ordered insertion on sequences\<close>

lemma insert_where_rep:
  assumes "dlist_rep (h, l) (as @ bs)" "e \<notin> set (as @ bs)"
    and "\<And>x. x \<in> set bs \<Longrightarrow> test x = Some (P x)"
  shows "\<exists>h' l'. insert_where test h l e (if bs = [] then None else Some (hd bs)) = Some (h', l') \<and>
    dlist_rep (h', l') (as @ takeWhile (\<lambda>x. \<not> P x) bs @ e # dropWhile (\<lambda>x. \<not> P x) bs)"
  using assms
proof (induction bs arbitrary: as)
  case Nil
  then show ?case using dl.insert_last [of "(h, l)" as e]
    by (cases "dlistInsertLast (h, l) e") (simp add: insert_where.simps)
next
  case (Cons x bs)
  show ?case
  proof (cases "P x")
    case True
    then show ?thesis using Cons.prems dl.insert_before [of "(h, l)" as x bs e]
      by (cases "dlistInsertBefore (h, l) e x") (simp add: insert_where.simps)
  next
    case False
    have "dlistENext h x = (if bs = [] then None else Some (hd bs))"
      using dl.succ [of "(h, l)" as x bs] Cons.prems(1) by simp
    with Cons.IH [of "as @ [x]"] Cons.prems False show ?thesis by (simp add: insert_where.simps)
  qed
qed

definition insert_before_first :: "('a \<Rightarrow> bool) \<Rightarrow> 'a \<Rightarrow> 'a list \<Rightarrow> 'a list" where
  "insert_before_first P e xs = takeWhile (\<lambda>x. \<not> P x) xs @ e # dropWhile (\<lambda>x. \<not> P x) xs"

lemma set_insert_before_first [simp]: "set (insert_before_first P e xs) = insert e (set xs)"
  by (metis insert_before_first_def list.simps(15) set_append takeWhile_dropWhile_id Un_insert_right)

lemma length_insert_before_first: "length (insert_before_first P e xs) = Suc (length xs)"
  by (induction xs) (simp_all add: insert_before_first_def)

lemma filter_insert_before_first: "\<not> Q e \<Longrightarrow> filter Q (insert_before_first P e xs) = filter Q xs"
  by (induction xs) (simp_all add: insert_before_first_def)

lemma insert_before_first_cong:
  "(\<And>x. x \<in> set xs \<Longrightarrow> P x = Q x) \<Longrightarrow> insert_before_first P e xs = insert_before_first Q e xs"
  by (simp add: insert_before_first_def cong: takeWhile_cong dropWhile_cong)

lemma map_insert_before_first:
  "map f (insert_before_first (\<lambda>x. P (f x)) e xs) = insert_before_first P (f e) (map f xs)"
  by (simp add: insert_before_first_def takeWhile_map dropWhile_map comp_def)

lemma sorted_insert_before_first:
  assumes "sorted_wrt R xs" "transp R"
    and "\<And>x. x \<in> set xs \<Longrightarrow> \<not> P x \<Longrightarrow> R x e" "\<And>x. x \<in> set xs \<Longrightarrow> P x \<Longrightarrow> R e x"
  shows "sorted_wrt R (insert_before_first P e xs)"
  using assms
proof (induction xs)
  case (Cons x xs)
  show ?case
  proof (cases "P x")
    case True
    with Cons.prems have "R e x" by simp
    with Cons.prems have "\<forall>y\<in>set xs. R e y" by (auto dest: transpD)
    with True Cons.prems \<open>R e x\<close> show ?thesis by (simp add: insert_before_first_def)
  next
    case False
    then have "insert_before_first P e (x # xs) = x # insert_before_first P e xs"
      by (simp add: insert_before_first_def)
    with Cons False show ?thesis by simp
  qed
qed (simp add: insert_before_first_def)

definition sched_key :: "rs_entry \<Rightarrow> int \<times> u8 \<times> u32 \<times> u8 \<times> u16 \<times> int" where
  "sched_key e = (- re_start e, re_pos e, re_freq e, re_pol e, re_pnr e, re_evt_id e)"

definition cmp3 :: "'a::linorder \<Rightarrow> 'a \<Rightarrow> int" where
  "cmp3 a b = (if a < b then -1 else if a \<noteq> b then 1 else 0)"

lemma cmp3_pair: "cmp3 (a, b) (c, d) = (if cmp3 a c = 0 then cmp3 b d else cmp3 a c)"
  by (auto simp: cmp3_def)

lemma cmp3_nonneg: "0 \<le> cmp3 a b \<longleftrightarrow> b \<le> a"
  by (auto simp: cmp3_def)

lemma cmp3_minus: "cmp3 (- a) (- b) = cmp3 b (a :: int)"
  by (auto simp: cmp3_def)

lemma rsEntryCmp_key: "rsEntryCmp a b = cmp3 (sched_key a) (sched_key b)"
proof -
  show ?thesis
    unfolding rsEntryCmp_def cmp3_def [symmetric]
    by (cases "cmp3 (re_start b) (re_start a) = 0"; cases "cmp3 (re_pos a) (re_pos b) = 0";
      cases "cmp3 (re_freq a) (re_freq b) = 0"; cases "cmp3 (re_pol a) (re_pol b) = 0"; cases "cmp3 (re_pnr a) (re_pnr b) = 0")
      (simp_all add: sched_key_def cmp3_pair cmp3_minus Let_def)
qed

text \<open>A schedule is a list of live entries in descending order of their keys, that is by starting time first.\<close>

definition sched_ok :: "(addr \<Rightarrow> rs_entry option) \<Rightarrow> dheap \<times> dlist \<Rightarrow> addr list \<Rightarrow> bool" where
  "sched_ok pay sch xs \<longleftrightarrow> dlist_rep sch xs \<and> (\<forall>x\<in>set xs. pay x \<noteq> None) \<and>
     sorted_wrt (\<lambda>x y. sched_key (the (pay y)) \<le> sched_key (the (pay x))) xs"

text \<open>C21: Inserting an entry (\<open>rsInsertEntry\<close>) always returns 0 and keeps the schedule ordered: by starting time, then by
  position, frequency, polarisation, programme and event in descending order. The new entry is in the list, the
  others stay in it in the order they had, and a new entry goes before those that compare equal.\<close>

theorem rsInsertEntry_sorted:
  assumes "sched_ok pay sch xs" "pay e = Some v" "e \<notin> set xs"
  shows "\<exists>sch'. rsInsertEntry pay sch e = Some (0, sch') \<and>
    sched_ok pay sch' (insert_before_first (\<lambda>x. sched_key (the (pay x)) \<le> sched_key v) e xs) \<and>
    sorted (map (\<lambda>x. re_start (the (pay x))) (insert_before_first (\<lambda>x. sched_key (the (pay x)) \<le> sched_key v) e xs))"
proof -
  let ?P = "\<lambda>x. sched_key (the (pay x)) \<le> sched_key v"
  obtain h l where sch: "sch = (h, l)" by force
  have rep: "dlist_rep (h, l) ([] @ xs)" and live: "\<forall>x\<in>set xs. pay x \<noteq> None"
    and srt: "sorted_wrt (\<lambda>x y. sched_key (the (pay y)) \<le> sched_key (the (pay x))) xs"
    using assms(1) by (simp_all add: sched_ok_def sch)
  have test: "do { xe \<leftarrow> pay x; Some (rsEntryCmp v xe \<ge> 0) } = Some (?P x)" if "x \<in> set xs" for x
    using live that by (auto simp: rsEntryCmp_key cmp3_nonneg)
  have fst: "dlistFirst l = (if xs = [] then None else Some (hd xs))" using dl.first [of "(h, l)" xs] rep by simp
  obtain h' l' where r: "rsInsertEntry pay sch e = Some (0, (h', l'))" "dlist_rep (h', l') (insert_before_first ?P e xs)"
    using insert_where_rep [OF rep, of e "\<lambda>x. do { xe \<leftarrow> pay x; Some (rsEntryCmp v xe \<ge> 0) }" ?P] test assms(2,3) fst
    by (auto simp: rsInsertEntry_def sch insert_before_first_def)
  have "sorted_wrt (\<lambda>x y. sched_key (the (pay y)) \<le> sched_key (the (pay x))) (insert_before_first ?P e xs)"
    using srt assms(2) by (intro sorted_insert_before_first) (auto intro: transpI)
  moreover from this have "sorted_wrt (\<lambda>x y. re_start (the (pay x)) \<le> re_start (the (pay y))) (insert_before_first ?P e xs)"
    by (rule sorted_wrt_mono_rel [rotated]) (auto simp: sched_key_def less_eq_prod_def)
  ultimately show ?thesis using r live assms(2) by (auto simp: sched_ok_def sorted_map)
qed


subsection \<open>The list of reminders\<close>

abbreviation rem_at :: "rem_state \<Rightarrow> addr \<Rightarrow> reminder" where
  "rem_at s x \<equiv> the (rm_pay s x)"

definition rem_ok :: "rem_state \<Rightarrow> addr list \<Rightarrow> bool" where
  "rem_ok s xs \<longleftrightarrow> dlist_rep (rm_list s) xs \<and> (\<forall>x\<in>set xs. rm_pay s x \<noteq> None) \<and>
     sorted (map (\<lambda>x. rem_start (rem_at s x)) xs)"

abbreviation rem_place :: "rem_state \<Rightarrow> reminder \<Rightarrow> addr \<Rightarrow> addr list \<Rightarrow> addr list" where
  "rem_place s r e xs \<equiv> insert_before_first (\<lambda>x. rem_start (rem_at s x) > rem_start r) e xs"

lemma reminderAdd_ok:
  assumes "rem_ok s xs" "rm_pay s e = Some r" "e \<notin> set xs"
  shows "\<exists>s'. reminderAdd s e = Some s' \<and> rm_pay s' = rm_pay s \<and> rem_ok s' (rem_place s r e xs)"
proof -
  obtain h l where sch: "rm_list s = (h, l)" by force
  have rep: "dlist_rep (h, l) ([] @ xs)" and live: "\<forall>x\<in>set xs. rm_pay s x \<noteq> None"
    and srt: "sorted_wrt (\<lambda>x y. rem_start (rem_at s x) \<le> rem_start (rem_at s y)) xs"
    using assms(1) by (simp_all add: rem_ok_def sch sorted_map)
  have fst: "dlistFirst l = (if xs = [] then None else Some (hd xs))" using dl.first [of "(h, l)" xs] rep by simp
  have "sorted_wrt (\<lambda>x y. rem_start (rem_at s x) \<le> rem_start (rem_at s y)) (rem_place s r e xs)"
    using srt assms(2) by (intro sorted_insert_before_first) (auto intro: transpI)
  moreover have "\<exists>h' l'. reminderAdd s e = Some (s\<lparr>rm_list := (h', l')\<rparr>) \<and> dlist_rep (h', l') (rem_place s r e xs)"
  proof (cases "xs = []")
    case True
    then show ?thesis using fst rep assms(2) dl.insert_first [of "(h, l)" "[]" e]
      by (cases "dlistInsertFirst (h, l) e") (auto simp: reminderAdd_def sch insert_before_first_def)
  next
    case False
    have test: "do { c \<leftarrow> rm_pay s x; Some (rem_start c > rem_start r) } = Some (rem_start (rem_at s x) > rem_start r)"
      if "x \<in> set xs" for x using live that by auto
    obtain h' l' where "insert_where (\<lambda>x. do { c \<leftarrow> rm_pay s x; Some (rem_start c > rem_start r) }) h l e (Some (hd xs)) =
        Some (h', l')" "dlist_rep (h', l') (rem_place s r e xs)"
      using insert_where_rep [OF rep, of e "\<lambda>x. do { c \<leftarrow> rm_pay s x; Some (rem_start c > rem_start r) }", OF _ test]
        assms(3) False by (auto simp: insert_before_first_def)
    then show ?thesis using False fst assms(2) by (auto simp: reminderAdd_def sch)
  qed
  ultimately show ?thesis using live assms(2) by (fastforce simp: rem_ok_def sorted_map)
qed

lemma rem_ok_remove:
  assumes "rem_ok s (as @ e # bs)"
  shows "rem_ok (s\<lparr>rm_list := dlistRemove (rm_list s) e, rm_pay := (rm_pay s)(e := v)\<rparr>) (as @ bs)" "e \<notin> set (as @ bs)"
proof -
  have rep: "dlist_rep (rm_list s) (as @ e # bs)" using assms by (simp add: rem_ok_def)
  show new: "e \<notin> set (as @ bs)" using dl.rep_distinct [OF rep] by auto
  have "map (\<lambda>x. rem_start (the (((rm_pay s)(e := v)) x))) (as @ bs) = map (\<lambda>x. rem_start (rem_at s x)) (as @ bs)"
    using new by (intro map_cong) auto
  moreover have "sorted (map (\<lambda>x. rem_start (rem_at s x)) (as @ bs))"
    using assms by (auto simp: rem_ok_def sorted_append)
  ultimately have "sorted (map (\<lambda>x. rem_start (the (((rm_pay s)(e := v)) x))) (as @ bs))" by (simp only:)
  then show "rem_ok (s\<lparr>rm_list := dlistRemove (rm_list s) e, rm_pay := (rm_pay s)(e := v)\<rparr>) (as @ bs)"
    using assms dl.remove [OF rep] new by (simp add: rem_ok_def)
qed

abbreviation rem_next :: "clock \<Rightarrow> reminder \<Rightarrow> int" where
  "rem_next ck r \<equiv> rsNextTime ck (rem_type r) (rem_wd r) (rem_start r)"

lemma reminderDone_ok:
  assumes "rem_ok s (as @ e # bs)" "rm_pay s e = Some r"
  shows "rem_next ck r = 0 \<Longrightarrow> \<exists>s'. reminderDone ck s e = Some (1, s') \<and> rem_ok s' (as @ bs) \<and> rm_pay s' = (rm_pay s)(e := None)"
    and "rem_next ck r \<noteq> 0 \<Longrightarrow> \<exists>s'. reminderDone ck s e = Some (0, s') \<and> rm_pay s' = (rm_pay s)(e \<mapsto> r\<lparr>rem_start := rem_next ck r\<rparr>)
      \<and> rem_ok s' (rem_place s (r\<lparr>rem_start := rem_next ck r\<rparr>) e (as @ bs))"
proof -
  assume z: "rem_next ck r = 0"
  have "reminderDone ck s e = Some (1, s\<lparr>rm_list := dlistRemove (rm_list s) e, rm_pay := (rm_pay s)(e := None)\<rparr>)"
    using assms(2) z by (simp add: reminderDone_def reminderDel_def Let_def)
  then show "\<exists>s'. reminderDone ck s e = Some (1, s') \<and> rem_ok s' (as @ bs) \<and> rm_pay s' = (rm_pay s)(e := None)"
    using rem_ok_remove(1) [OF assms(1), of None] by auto
next
  assume nz: "rem_next ck r \<noteq> 0"
  let ?r = "r\<lparr>rem_start := rem_next ck r\<rparr>"
  let ?s = "s\<lparr>rm_list := dlistRemove (rm_list s) e, rm_pay := (rm_pay s)(e \<mapsto> ?r)\<rparr>"
  note rem = rem_ok_remove(1) [OF assms(1), of "Some ?r"] rem_ok_remove(2) [OF assms(1)]
  have "rem_type r \<noteq> RST_ONCE" using nz by (auto simp: rsNextTime_def)
  then have "reminderDone ck s e = do { s \<leftarrow> reminderAdd ?s e; Some (0, s) }"
    using assms(2) nz by (simp add: reminderDone_def)
  moreover have "rem_place ?s ?r e (as @ bs) = rem_place s ?r e (as @ bs)"
    using rem(2) by (auto intro!: insert_before_first_cong)
  ultimately show "\<exists>s'. reminderDone ck s e = Some (0, s') \<and> rm_pay s' = (rm_pay s)(e \<mapsto> ?r) \<and> rem_ok s' (rem_place s ?r e (as @ bs))"
    using reminderAdd_ok [OF rem(1) _ rem(2), of ?r] by auto
qed


text \<open>What becomes of a reminder at time \<open>t\<close>: its start is moved on as often as it is over, and no further.\<close>

definition rem_nth :: "clock \<Rightarrow> reminder \<Rightarrow> nat \<Rightarrow> int" where
  "rem_nth ck r n = (rsNextTime ck (rem_type r) (rem_wd r) ^^ n) (rem_start r)"

definition rem_outcome :: "clock \<Rightarrow> int \<Rightarrow> reminder \<Rightarrow> reminder option \<Rightarrow> bool" where
  "rem_outcome ck t r res \<longleftrightarrow> (\<exists>n. (\<forall>m<n. rem_nth ck r m + rem_duration r < t) \<and>
     (case res of
        None \<Rightarrow> 0 < n \<and> rem_nth ck r n = 0
      | Some r' \<Rightarrow> r' = r\<lparr>rem_start := rem_nth ck r n\<rparr> \<and> \<not> rem_nth ck r n + rem_duration r < t))"

lemma rem_outcome_same: "\<not> rem_start r + rem_duration r < t \<Longrightarrow> rem_outcome ck t r (Some r)"
  unfolding rem_outcome_def by (rule exI [of _ 0]) (simp add: rem_nth_def)

lemma rem_outcome_gone: "rem_start r + rem_duration r < t \<Longrightarrow> rem_next ck r = 0 \<Longrightarrow> rem_outcome ck t r None"
  unfolding rem_outcome_def by (rule exI [of _ 1]) (simp add: rem_nth_def)

lemma rem_outcome_step:
  assumes "rem_start r + rem_duration r < t" "rem_outcome ck t (r\<lparr>rem_start := rem_next ck r\<rparr>) res"
  shows "rem_outcome ck t r res"
proof -
  from assms(2) obtain n where n: "\<forall>m<n. rem_nth ck (r\<lparr>rem_start := rem_next ck r\<rparr>) m + rem_duration r < t"
    "case res of None \<Rightarrow> 0 < n \<and> rem_nth ck (r\<lparr>rem_start := rem_next ck r\<rparr>) n = 0
      | Some r' \<Rightarrow> r' = r\<lparr>rem_start := rem_nth ck (r\<lparr>rem_start := rem_next ck r\<rparr>) n\<rparr> \<and>
        \<not> rem_nth ck (r\<lparr>rem_start := rem_next ck r\<rparr>) n + rem_duration r < t"
    unfolding rem_outcome_def by (auto split: option.splits)
  have sh: "rem_nth ck (r\<lparr>rem_start := rem_next ck r\<rparr>) m = rem_nth ck r (Suc m)" for m
    by (simp add: rem_nth_def funpow_swap1)
  have "rem_nth ck r m + rem_duration r < t" if "m < Suc n" for m
    using that n(1) assms(1) by (cases m) (auto simp: sh rem_nth_def [of ck r 0])
  with n(2) show ?thesis unfolding rem_outcome_def by (intro exI [of _ "Suc n"]) (auto simp: sh split: option.splits)
qed

lemma rem_outcome_idem:
  assumes "rem_outcome ck t r res" "\<not> rem_start r + rem_duration r < t"
  shows "res = Some r"
proof -
  from assms(1) obtain n where n: "\<forall>m<n. rem_nth ck r m + rem_duration r < t"
    "case res of None \<Rightarrow> 0 < n \<and> rem_nth ck r n = 0
      | Some r' \<Rightarrow> r' = r\<lparr>rem_start := rem_nth ck r n\<rparr> \<and> \<not> rem_nth ck r n + rem_duration r < t"
    by (auto simp: rem_outcome_def)
  with assms(2) have "n = 0" by (auto simp: rem_nth_def [of ck r 0] intro: ccontr)
  with n(2) show ?thesis by (simp add: rem_nth_def split: option.splits)
qed

abbreviation rem_over :: "rem_state \<Rightarrow> int \<Rightarrow> addr \<Rightarrow> bool" where
  "rem_over s t x \<equiv> rem_start (rem_at s x) + rem_duration (rem_at s x) < t"

lemma rem_catch_up_ok:
  assumes "civil_clock shift ck" "rem_ok s (as @ e # bs)"
  shows "\<exists>s' v. rem_catch_up ck t e s = Some s' \<and> rm_pay s' = (rm_pay s)(e := v) \<and> rem_outcome ck t (rem_at s e) v \<and>
    (case v of
       None \<Rightarrow> rem_ok s' (as @ bs)
     | Some r' \<Rightarrow> if rem_over s t e
         then rem_start (rem_at s e) < rem_start r' \<and> rem_ok s' (rem_place s r' e (as @ bs)) else s' = s)"
  using assms(2)
proof (induction "nat (t - rem_start (rem_at s e) - rem_duration (rem_at s e))" arbitrary: s as bs rule: less_induct)
  case less
  obtain r where r: "rm_pay s e = Some r" using less.prems by (auto simp: rem_ok_def)
  consider "\<not> rem_over s t e" | "rem_over s t e" "rem_next ck r = 0" | "rem_over s t e" "rem_next ck r \<noteq> 0" by blast
  then show ?case
  proof cases
    case 1
    with r show ?thesis
      by (intro exI [of _ s] exI [of _ "Some r"]) (simp add: rem_catch_up.simps rem_outcome_same fun_upd_idem)
  next
    case 2
    from reminderDone_ok(1) [OF less.prems r 2(2)] obtain s' where
      "reminderDone ck s e = Some (1, s')" "rem_ok s' (as @ bs)" "rm_pay s' = (rm_pay s)(e := None)" by blast
    with 2 r show ?thesis
      by (intro exI [of _ s'] exI [of _ None]) (simp add: rem_catch_up.simps rem_outcome_gone)
  next
    case 3
    let ?r = "r\<lparr>rem_start := rem_next ck r\<rparr>"
    have later: "rem_start r < rem_next ck r"
      using nextTime_progress [OF assms(1), of "rem_type r" "rem_wd r" "rem_start r"] 3(2) assms(1)
      by (auto simp: civil_clock_def)
    from reminderDone_ok(2) [OF less.prems r 3(2)] obtain s1 where s1: "reminderDone ck s e = Some (0, s1)"
      "rm_pay s1 = (rm_pay s)(e \<mapsto> ?r)" "rem_ok s1 (rem_place s ?r e (as @ bs))" by blast
    have new: "e \<notin> set (as @ bs)" by (rule rem_ok_remove(2) [OF less.prems])
    let ?as = "takeWhile (\<lambda>x. \<not> rem_start (rem_at s x) > rem_start ?r) (as @ bs)"
    let ?bs = "dropWhile (\<lambda>x. \<not> rem_start (rem_at s x) > rem_start ?r) (as @ bs)"
    have eq: "?as @ ?bs = as @ bs" by simp
    have place: "rem_place s1 r' e (as @ bs) = rem_place s r' e (as @ bs)" for r'
      using new s1(2) by (intro insert_before_first_cong) auto
    obtain s' v where ih: "rem_catch_up ck t e s1 = Some s'" "rm_pay s' = (rm_pay s1)(e := v)" "rem_outcome ck t ?r v"
      "case v of None \<Rightarrow> rem_ok s' (as @ bs) | Some r' \<Rightarrow> if rem_over s1 t e
         then rem_start ?r < rem_start r' \<and> rem_ok s' (rem_place s1 r' e (as @ bs)) else s' = s1"
    proof -
      have "nat (t - rem_start (rem_at s1 e) - rem_duration (rem_at s1 e)) < nat (t - rem_start (rem_at s e) - rem_duration (rem_at s e))"
        using s1(2) 3(1) r later by simp
      then have "\<exists>s' v. rem_catch_up ck t e s1 = Some s' \<and> rm_pay s' = (rm_pay s1)(e := v) \<and> rem_outcome ck t (rem_at s1 e) v \<and>
        (case v of None \<Rightarrow> rem_ok s' (?as @ ?bs) | Some r' \<Rightarrow> if rem_over s1 t e
           then rem_start (rem_at s1 e) < rem_start r' \<and> rem_ok s' (rem_place s1 r' e (?as @ ?bs)) else s' = s1)"
        using s1(3) by (intro less.hyps) (simp_all only: insert_before_first_def)
      moreover have "rem_at s1 e = ?r" using s1(2) by simp
      ultimately show ?thesis unfolding eq by (elim exE conjE) (rule that, auto split: option.splits)
    qed
    have out: "rem_outcome ck t r v" using rem_outcome_step [OF _ ih(3)] 3(1) r by simp
    have "rem_catch_up ck t e s = Some s'" using 3(1) r s1(1) ih(1) by (simp add: rem_catch_up.simps [of ck t e s])
    moreover have "case v of None \<Rightarrow> rem_ok s' (as @ bs)
      | Some r' \<Rightarrow> rem_start r < rem_start r' \<and> rem_ok s' (rem_place s r' e (as @ bs))"
    proof (cases "rem_over s1 t e")
      case True
      with ih(4) later place show ?thesis by (auto split: option.splits)
    next
      case False
      then have "v = Some ?r" using rem_outcome_idem [OF ih(3)] s1(2) by simp
      with ih(4) False later s1(3) show ?thesis by simp
    qed
    ultimately show ?thesis using ih(2) s1(2) out r 3(1)
      by (intro exI [of _ s'] exI [of _ v]) (simp split: option.splits)
  qed
qed


lemma rem_update_loop_ok:
  assumes "civil_clock shift ck" "rem_ok s (as @ bs)"
  shows "\<exists>s' ys. rem_update_loop ck t (if bs = [] then None else Some (hd bs)) s = Some s' \<and> rem_ok s' ys \<and>
    set ys \<subseteq> set (as @ bs) \<and> (\<forall>x. x \<notin> set bs \<longrightarrow> rm_pay s' x = rm_pay s x) \<and> (\<forall>x\<in>set as. x \<in> set ys) \<and>
    (\<forall>x\<in>set bs. rem_outcome ck t (rem_at s x) (rm_pay s' x) \<and> (x \<in> set ys \<longleftrightarrow> rm_pay s' x \<noteq> None))"
  using assms(2)
proof (induction "length bs + length (filter (rem_over s t) bs)" arbitrary: s as bs rule: less_induct)
  case less
  show ?case
  proof (cases bs)
    case Nil
    then show ?thesis using less.prems
      by (intro exI [of _ s] exI [of _ as]) (simp add: rem_update_loop.simps)
  next
    case (Cons e cs)
    let ?p = "if cs = [] then None else Some (hd cs)"
    have ok: "rem_ok s (as @ e # cs)" using less.prems Cons by simp
    then have "dlist_rep (rm_list s) (as @ e # cs)" by (simp add: rem_ok_def)
    then have nxt: "dlistENext (fst (rm_list s)) e = ?p" by (rule dl.succ)
    have new: "e \<notin> set (as @ cs)" by (rule rem_ok_remove(2) [OF ok])
    obtain s1 v where c: "rem_catch_up ck t e s = Some s1" "rm_pay s1 = (rm_pay s)(e := v)" "rem_outcome ck t (rem_at s e) v"
      "case v of None \<Rightarrow> rem_ok s1 (as @ cs) | Some r' \<Rightarrow> if rem_over s t e
         then rem_start (rem_at s e) < rem_start r' \<and> rem_ok s1 (rem_place s r' e (as @ cs)) else s1 = s"
      using rem_catch_up_ok [OF assms(1) ok, of t] by blast
    have step: "rem_update_loop ck t (Some (hd bs)) s = rem_update_loop ck t ?p s1"
      using Cons nxt c(1) by (simp add: rem_update_loop.simps [of ck t "Some e" s])
    have srt: "\<forall>x\<in>set as. rem_start (rem_at s x) \<le> rem_start (rem_at s e)"
      using ok by (auto simp: rem_ok_def sorted_append)
    have over: "filter (rem_over s1 t) cs = filter (rem_over s t) cs"
      using new c(2) by (intro filter_cong) auto
    text \<open>where the rest of the traversal begins, and what it covers\<close>
    have "\<exists>as' bs'. rem_ok s1 (as' @ bs') \<and> ?p = (if bs' = [] then None else Some (hd bs')) \<and>
        length bs' + length (filter (rem_over s1 t) bs') < length bs + length (filter (rem_over s t) bs) \<and>
        set as \<subseteq> set as' \<and> set cs \<subseteq> set bs' \<and> set bs' \<subseteq> insert e (set cs) \<and> set as' \<subseteq> insert e (set as) \<and>
        (e \<in> set as' \<or> e \<in> set bs' \<longleftrightarrow> v \<noteq> None) \<and> (e \<in> set bs' \<longrightarrow> e \<notin> set as' \<and> \<not> rem_over s1 t e)"
    proof (cases v)
      case None
      with c(4) new show ?thesis
        by (intro exI [of _ as] exI [of _ cs]) (auto simp: Cons over)
    next
      case (Some r')
      have fin: "\<not> rem_over s1 t e" using c(2,3) Some by (auto simp: rem_outcome_def)
      show ?thesis
      proof (cases "rem_over s t e")
        case False
        with c(4) Some ok new fin show ?thesis
          by (intro exI [of _ "as @ [e]"] exI [of _ cs]) (auto simp: Cons over)
      next
        case True
        with c(4) Some have later: "rem_start (rem_at s e) < rem_start r'" and ok1: "rem_ok s1 (rem_place s r' e (as @ cs))"
          by simp_all
        have place: "rem_place s r' e (as @ cs) = as @ rem_place s r' e cs"
          unfolding insert_before_first_def using srt later
          by (subst takeWhile_append2, fastforce, subst dropWhile_append2, fastforce) simp
        show ?thesis
        proof (cases cs)
          case Nil
          with ok1 place Some new fin show ?thesis
            by (intro exI [of _ "as @ [e]"] exI [of _ "[]"]) (simp add: Cons insert_before_first_def subset_insertI)
        next
          case (Cons d ds)
          show ?thesis
          proof (cases "rem_start (rem_at s d) > rem_start r'")
            case True
            then have "rem_place s r' e cs = e # cs" using Cons by (simp add: insert_before_first_def)
            with ok1 place Some new fin over show ?thesis
              by (intro exI [of _ "as @ [e]"] exI [of _ cs]) (auto simp: \<open>bs = e # cs\<close>)
          next
            case False
            then have hd: "rem_place s r' e cs = d # rem_place s r' e ds" using Cons by (simp add: insert_before_first_def)
            have "length (rem_place s r' e cs) = Suc (length cs)"
              by (rule length_insert_before_first)
            moreover have "length (filter (rem_over s1 t) (rem_place s r' e cs)) = length (filter (rem_over s1 t) cs)"
              using fin by (simp add: filter_insert_before_first)
            ultimately show ?thesis using ok1 place Some new fin over hd Cons \<open>rem_over s t e\<close>
              by (intro exI [of _ as] exI [of _ "rem_place s r' e cs"]) (auto simp: \<open>bs = e # cs\<close>)
          qed
        qed
      qed
    qed
    then obtain as' bs' where n: "rem_ok s1 (as' @ bs')" "?p = (if bs' = [] then None else Some (hd bs'))"
      "length bs' + length (filter (rem_over s1 t) bs') < length bs + length (filter (rem_over s t) bs)"
      "set as \<subseteq> set as'" "set cs \<subseteq> set bs'" "set bs' \<subseteq> insert e (set cs)" "set as' \<subseteq> insert e (set as)"
      "e \<in> set as' \<or> e \<in> set bs' \<longleftrightarrow> v \<noteq> None" "e \<in> set bs' \<longrightarrow> e \<notin> set as' \<and> \<not> rem_over s1 t e" by blast
    from less.hyps [OF n(3,1)] obtain s' ys where ih: "rem_update_loop ck t ?p s1 = Some s'" "rem_ok s' ys"
      "set ys \<subseteq> set (as' @ bs')" "\<forall>x. x \<notin> set bs' \<longrightarrow> rm_pay s' x = rm_pay s1 x" "\<forall>x\<in>set as'. x \<in> set ys"
      "\<forall>x\<in>set bs'. rem_outcome ck t (rem_at s1 x) (rm_pay s' x) \<and> (x \<in> set ys \<longleftrightarrow> rm_pay s' x \<noteq> None)"
      unfolding n(2) [symmetric] by blast
    have e: "rm_pay s' e = v \<and> (e \<in> set ys \<longleftrightarrow> v \<noteq> None)"
    proof (cases "e \<in> set bs'")
      case True
      with n(8,9) obtain r' where v: "v = Some r'" "\<not> rem_over s1 t e" by blast
      with ih(6) True c(2) have "rm_pay s' e = Some r'" using rem_outcome_idem [of ck t r' "rm_pay s' e"] by auto
      with v(1) ih(6) True show ?thesis by auto
    next
      case False
      with ih(3,4,5) c(2) n(8) show ?thesis by auto
    qed
    have others: "\<forall>x\<in>set cs. rem_outcome ck t (rem_at s x) (rm_pay s' x) \<and> (x \<in> set ys \<longleftrightarrow> rm_pay s' x \<noteq> None)"
    proof
      fix x assume x: "x \<in> set cs"
      with new have "x \<noteq> e" by auto
      then have "rem_at s1 x = rem_at s x" using c(2) by simp
      moreover from x n(5) ih(6) have "rem_outcome ck t (rem_at s1 x) (rm_pay s' x) \<and> (x \<in> set ys \<longleftrightarrow> rm_pay s' x \<noteq> None)"
        by blast
      ultimately show "rem_outcome ck t (rem_at s x) (rm_pay s' x) \<and> (x \<in> set ys \<longleftrightarrow> rm_pay s' x \<noteq> None)"
        by (simp only:)
    qed
    show ?thesis
      using ih(1,2) step e others c(2,3) ih(3,4,5) n(4,6,7)
      by (intro exI [of _ s'] exI [of _ ys]) (auto simp: Cons)
  qed
qed


text \<open>C7: Bringing the list of reminders up to date (\<open>reminderListUpdate\<close>) ends, touches no freed element and leaves a
  list that is still ordered by starting time. In it no reminder is over: each one has been moved to the first of its
  times whose end is not past, or, when it has no such time left, it is freed and no longer in the list; a reminder
  that is not over stays as it is.  Of the C library's clock this takes that adding up to 28 days or a month to a broken-down local time moves
  the time by as many days (28 to 31 for a month) up to a seasonal change of less than a day.\<close>

theorem reminderListUpdate_outcome:
  assumes "civil_clock shift ck" "rem_ok s xs"
  shows "\<exists>s' ys. reminderListUpdate ck s t = Some s' \<and> rem_ok s' ys \<and> set ys \<subseteq> set xs \<and> (\<forall>x\<in>set ys. \<not> rem_over s' t x) \<and>
    (\<forall>x\<in>set xs. rem_outcome ck t (rem_at s x) (rm_pay s' x) \<and> (x \<in> set ys \<longleftrightarrow> rm_pay s' x \<noteq> None))"
proof -
  have "dlistFirst (snd (rm_list s)) = (if xs = [] then None else Some (hd xs))"
    using assms(2) dl.first by (simp add: rem_ok_def)
  moreover obtain s' ys where u: "rem_update_loop ck t (if xs = [] then None else Some (hd xs)) s = Some s'" "rem_ok s' ys"
    "set ys \<subseteq> set xs" "\<forall>x\<in>set xs. rem_outcome ck t (rem_at s x) (rm_pay s' x) \<and> (x \<in> set ys \<longleftrightarrow> rm_pay s' x \<noteq> None)"
    using rem_update_loop_ok [OF assms(1), of s "[]" xs t] assms(2) by auto
  moreover have "\<not> rem_over s' t x" if "x \<in> set ys" for x
  proof -
    from that u(2) obtain r' where "rm_pay s' x = Some r'" by (auto simp: rem_ok_def)
    moreover have "rem_outcome ck t (rem_at s x) (rm_pay s' x)" using that u(3,4) by blast
    ultimately show ?thesis by (auto simp: rem_outcome_def)
  qed
  ultimately show ?thesis by (auto simp: reminderListUpdate_def)
qed

text \<open>\<open>n\<close> rounds of a recording, each started when it is due and done when it is over.\<close>

primrec rs_runs :: "clock \<Rightarrow> nat \<Rightarrow> rs_entry \<Rightarrow> rs_entry option" where
  "rs_runs ck 0 e = Some e"
| "rs_runs ck (Suc n) e =
     (case rsStart e of (r, e1) \<Rightarrow>
        if r \<noteq> 0 \<or> \<not> rsPending (re_start e1) e \<or> \<not> rsStopping (re_start e1 + re_duration e1 + 120) e1 then None
        else case rsDone ck e1 of (r, e2) \<Rightarrow> if r = 0 then rs_runs ck n e2 else None)"

text \<open>C19: A recurring recording never dies out. An entry that starts at or after the epoch, waits with a weekly to monthly period, or
  with a daily one and at least one flagged day, and that is run over and over (started when it is due, done when it is over) is always
  waiting again, with the other fields unchanged; each run moves its starting time on by one to thirty-one days, give or take the
  seasonal change of the clock (\<open>shift\<close> seconds, less than a day, 0 without seasonal time), so that after \<open>n\<close> runs
  it lies between \<open>n\<close> and \<open>31 n\<close> days later, give or take \<open>n\<close> such changes, and passes every bound.\<close>

theorem recording_recurs:
  assumes "civil_clock shift ck" "re_state e = RS_WAITING" "recurs (re_type e) (re_wd e)" "0 \<le> re_start e"
  shows "shift < 86400 \<and> (\<exists>st. rs_runs ck n e = Some (e\<lparr>re_start := st\<rparr>) \<and>
    re_start e + (86400 - shift) * int n \<le> st \<and> st \<le> re_start e + (86400 * 31 + shift) * int n)"
proof
  show sh: "shift < 86400" using assms(1) by (simp add: civil_clock_def)
  show "\<exists>st. rs_runs ck n e = Some (e\<lparr>re_start := st\<rparr>) \<and>
    re_start e + (86400 - shift) * int n \<le> st \<and> st \<le> re_start e + (86400 * 31 + shift) * int n"
    using assms(2-4)
  proof (induction n arbitrary: e)
    case (Suc n)
    let ?st = "rsNextTime ck (re_type e) (re_wd e) (re_start e)"
    have nx: "re_start e + 86400 - shift \<le> ?st" "?st \<le> re_start e + 86400 * 31 + shift"
      using nextTime_recurs [OF assms(1) Suc.prems(2,3)] by auto
    have "re_type e \<noteq> RST_ONCE" using Suc.prems(2) by (auto simp: recurs_def)
    have "e\<lparr>re_state := RS_WAITING, re_start := ?st\<rparr> = e\<lparr>re_start := ?st\<rparr>"
      using Suc.prems(1) by (cases e) simp
    then have r: "e\<lparr>re_state := RS_WAITING, re_start := ?st\<rparr> = e\<lparr>re_start := ?st\<rparr>" by (simp only:)
    have "rs_runs ck (Suc n) e = rs_runs ck n (e\<lparr>re_state := RS_WAITING, re_start := ?st\<rparr>)"
      using nx sh Suc.prems \<open>re_type e \<noteq> RST_ONCE\<close> by (simp add: rsStart_def rsPending_def rsStopping_def rsDone_def Let_def)
    then have "rs_runs ck (Suc n) e = rs_runs ck n (e\<lparr>re_start := ?st\<rparr>)" by (simp only: r)
    moreover obtain st where "rs_runs ck n (e\<lparr>re_start := ?st\<rparr>) = Some (e\<lparr>re_start := st\<rparr>)"
      "?st + (86400 - shift) * int n \<le> st" "st \<le> ?st + (86400 * 31 + shift) * int n"
      using Suc.IH [of "e\<lparr>re_start := ?st\<rparr>"] Suc.prems nx sh by auto
    ultimately show ?case using nx by (intro exI [of _ st]) (auto simp: algebra_simps)
  next
    case 0
    have "e = e\<lparr>re_start := re_start e\<rparr>" by (cases e) simp
    then show ?case by (intro exI [of _ "re_start e"]) (simp del: rs_entry.surjective rs_entry.update_convs)
  qed
qed

text \<open>The next time of an entry (\<open>rsNextTime\<close>): none for one that runs once or has an unknown type; the
  first of the following seven calendar days whose weekday is flagged for a daily one, and none without a flagged weekday; one to four
  weeks later for the weekly ones; 28 to 31 days later for a monthly one, each up to the seasonal change.\<close>

theorem rsNextTime_values:
  assumes "civil_clock shift ck"
  shows "rsNextTime ck RST_ONCE wd t = 0 \<and>
    (if \<exists>d\<in>{0..<7}. flagged wd d
     then \<exists>k. 0 < k \<and> k \<le> 7 \<and> \<bar>rsNextTime ck RST_DAY wd t - (t + 86400 * k)\<bar> \<le> shift \<and> flagged wd (weekday_in ck t k) \<and>
       (\<forall>j. 0 < j \<and> j < k \<longrightarrow> \<not> flagged wd (weekday_in ck t j))
     else rsNextTime ck RST_DAY wd t = 0) \<and>
    \<bar>rsNextTime ck RST_WEEK wd t - (t + 86400 * 7)\<bar> \<le> shift \<and> \<bar>rsNextTime ck RST_2WEEK wd t - (t + 86400 * 14)\<bar> \<le> shift \<and>
    \<bar>rsNextTime ck RST_3WEEK wd t - (t + 86400 * 21)\<bar> \<le> shift \<and> \<bar>rsNextTime ck RST_4WEEK wd t - (t + 86400 * 28)\<bar> \<le> shift \<and>
    (\<exists>d. 28 \<le> d \<and> d \<le> 31 \<and> \<bar>rsNextTime ck RST_MONTH wd t - (t + 86400 * d)\<bar> \<le> shift) \<and>
    (\<forall>tp > 6. rsNextTime ck tp wd t = 0)"
proof (intro conjI)
  show "if \<exists>d\<in>{0..<7}. flagged wd d
     then \<exists>k. 0 < k \<and> k \<le> 7 \<and> \<bar>rsNextTime ck RST_DAY wd t - (t + 86400 * k)\<bar> \<le> shift \<and> flagged wd (weekday_in ck t k) \<and>
       (\<forall>j. 0 < j \<and> j < k \<longrightarrow> \<not> flagged wd (weekday_in ck t j))
     else rsNextTime ck RST_DAY wd t = 0"
    using rs_next_day_first [OF assms, of wd t] by (simp add: rsNextTime_def)
qed (use rs_next_weeks [OF assms, of t] rs_next_month_bounds [OF assms, of t] in \<open>auto simp: rsNextTime_def\<close>)

subsection \<open>Clocks\<close>

text \<open>Universal time, with months of thirty days, and a clock with seasonal time: enough to see that the
  hypotheses on the clock can hold.\<close>

definition plain_clock :: clock where
  "plain_clock = \<lparr>
     localtime_r = (\<lambda>t. \<lparr>tm_sec = t mod 86400, tm_min = 0, tm_hour = 0, tm_mday = t div 86400, tm_mon = 0, tm_year = 70,
       tm_wday = (t div 86400 + 4) mod 7, tm_isdst = 0\<rparr>),
     mktime = (\<lambda>b. tm_sec b + 86400 * tm_mday b + 30 * 86400 * tm_mon b)\<rparr>"

text \<open>Summer time, one hour ahead, from the 90th to the 269th day of every 365.\<close>

definition summer :: "int \<Rightarrow> int" where
  "summer t = (if 90 \<le> t div 86400 mod 365 \<and> t div 86400 mod 365 < 270 then 3600 else 0)"

definition season_clock :: clock where
  "season_clock = \<lparr>
     localtime_r = (\<lambda>t. \<lparr>tm_sec = (t + summer t) mod 86400, tm_min = 0, tm_hour = 0, tm_mday = (t + summer t) div 86400,
       tm_mon = 0, tm_year = 70, tm_wday = ((t + summer t) div 86400 + 4) mod 7, tm_isdst = summer t\<rparr>),
     mktime = (\<lambda>b. let l = tm_sec b + 86400 * tm_mday b + 30 * 86400 * tm_mon b in l - summer l)\<rparr>"

lemma plain_clock_civil: "civil_clock 0 plain_clock"
proof -
  have "t mod 86400 + 86400 * (t div 86400 + k) = t + 86400 * k" for t k :: int
    by (simp add: algebra_simps)
  moreover have "\<exists>d\<ge>28. d \<le> 31 \<and> t mod 86400 + 86400 * (t div 86400) + 2592000 = t + 86400 * d" for t :: int
    by (rule exI [of _ 30]) simp
  ultimately show ?thesis by (simp add: civil_clock_def plain_clock_def)
qed

lemma season_clock_civil: "civil_clock 3600 season_clock"
proof -
  have s: "0 \<le> summer t" "summer t \<le> 3600" for t by (simp_all add: summer_def)
  have "t mod 86400 + 86400 * (t div 86400 + k) = t + 86400 * k" for t k :: int
    by (simp add: algebra_simps)
  moreover have "\<bar>a + summer a + x - summer b - (a + x)\<bar> \<le> 3600" for a b x
    using s [of a] s [of b] by linarith
  moreover have "\<exists>d\<ge>28. d \<le> 31 \<and> \<bar>summer t + 2592000 - (d * 86400 + summer b)\<bar> \<le> 3600" for t b
    using s [of t] s [of b] by (intro exI [of _ 30]) linarith
  ultimately show ?thesis
    by (simp add: civil_clock_def season_clock_def Let_def algebra_simps) (metis add.commute)
qed

text \<open>A daily entry for Monday and Thursday: from Friday, 2 January 1970, to Monday, 5 January.\<close>

lemma rsNextTime_values_witness:
  "rsNextTime plain_clock RST_ONCE 0x12 100000 = 0 \<and> rsNextTime plain_clock RST_DAY 0x12 100000 = 100000 + 86400 * 3 \<and>
   rsNextTime plain_clock RST_2WEEK 0x12 100000 = 100000 + 14 * 86400"
proof -
  note v = rsNextTime_values [OF plain_clock_civil, where wd = "0x12" and t = "100000"]
  have "rsNextTime plain_clock RST_DAY 0x12 100000 = 100000 + 86400 * 3" by code_simp
  moreover have "\<bar>rsNextTime plain_clock RST_2WEEK 0x12 100000 - (100000 + 86400 * 14)\<bar> \<le> 0" using v by blast
  ultimately show ?thesis using v by simp
qed

definition ex_entry :: "int \<Rightarrow> rs_entry" where
  "ex_entry st = \<lparr>re_state = RS_WAITING, re_type = RST_WEEK, re_wd = 0, re_flags = 0, re_pos = 0, re_pol = 0, re_freq = 0, re_pnr = 0,
     re_start = st, re_duration = 3600, re_evt_id = 0, re_name = None\<rparr>"

definition ex_pay :: "addr \<Rightarrow> rs_entry option" where
  "ex_pay a = (if a \<in> {1, 2} then Some (ex_entry (if a = 1 then 7000 else 5000)) else None)"

definition ex_heap :: dheap where
  "ex_heap = \<lparr>dnext = \<lambda>_. None, dprev = \<lambda>_. None\<rparr>"

lemma ex_list: "dlist_rep (dlistInsertLast (ex_heap, dlistInit) a) [a]"
  using dl.insert_last [of "(ex_heap, dlistInit)" "[]" a] dlistInit_rep by simp

text \<open>An entry that starts earlier goes before the one that is there.\<close>

lemma rsInsertEntry_sorted_witness:
  "\<exists>sch'. rsInsertEntry ex_pay (dlistInsertLast (ex_heap, dlistInit) 1) 2 = Some (0, sch') \<and> dlist_rep sch' [2, 1]"
proof -
  have "sched_ok ex_pay (dlistInsertLast (ex_heap, dlistInit) 1) [1]"
    using ex_list by (simp add: sched_ok_def ex_pay_def)
  from rsInsertEntry_sorted [OF this, of 2 "ex_entry 5000"] show ?thesis
    by (auto simp: ex_pay_def sched_ok_def insert_before_first_def sched_key_def ex_entry_def less_eq_prod_def)
qed

lemma recording_recurs_witness:
  "\<exists>st. rs_runs season_clock 52 (ex_entry 5000) = Some ((ex_entry 5000)\<lparr>re_start := st\<rparr>) \<and> 5000 + (86400 - 3600) * 52 \<le> st"
  using recording_recurs [OF season_clock_civil, of "ex_entry 5000" 52] by (auto simp: ex_entry_def recurs_def)

text \<open>A weekly reminder that was due three weeks ago is moved on three times.\<close>

definition ex_reminder :: "int \<Rightarrow> reminder" where
  "ex_reminder st = \<lparr>rem_type = RST_WEEK, rem_wd = 0, rem_start = st, rem_duration = 3600, rem_pos = 0, rem_freq = 0, rem_pol = 0,
     rem_pnr = 0, rem_service = [], rem_event = None\<rparr>"

lemma reminderListUpdate_outcome_witness:
  "\<exists>s'. reminderListUpdate plain_clock
      \<lparr>rm_list = dlistInsertLast (ex_heap, dlistInit) 1, rm_pay = [1 \<mapsto> ex_reminder 5000]\<rparr> (10000 + 14 * 86400) = Some s' \<and>
    rm_pay s' 1 = Some (ex_reminder (5000 + 21 * 86400))"
proof -
  let ?s = "\<lparr>rm_list = dlistInsertLast (ex_heap, dlistInit) 1, rm_pay = [1 \<mapsto> ex_reminder 5000]\<rparr>"
  have "rem_ok ?s [1]" using ex_list by (simp add: rem_ok_def)
  from reminderListUpdate_outcome [OF plain_clock_civil this, of "10000 + 14 * 86400"] obtain s' where
    s': "reminderListUpdate plain_clock ?s (10000 + 14 * 86400) = Some s'"
    "rem_outcome plain_clock (10000 + 14 * 86400) (ex_reminder 5000) (rm_pay s' 1)" by auto
  have nth: "rem_nth plain_clock (ex_reminder 5000) n = 5000 + 7 * 86400 * int n" for n
    using rs_next_weeks(1) [OF plain_clock_civil]
    by (induction n) (simp_all add: rem_nth_def ex_reminder_def rsNextTime_def)
  from s'(2) obtain n where n: "\<forall>m<n. 5000 + 7 * 86400 * int m + 3600 < 10000 + 14 * 86400"
    "case rm_pay s' 1 of None \<Rightarrow> 0 < n \<and> 5000 + 7 * 86400 * int n = 0
      | Some r' \<Rightarrow> r' = (ex_reminder 5000)\<lparr>rem_start := 5000 + 7 * 86400 * int n\<rparr> \<and>
        \<not> 5000 + 7 * 86400 * int n + 3600 < 10000 + 14 * 86400"
    unfolding rem_outcome_def nth by (auto simp: ex_reminder_def split: option.splits)
  have "n = 3"
  proof -
    have "n \<le> 3" using n(1) [rule_format, of "n - 1"] by (cases n) auto
    moreover have "2 < n" using n(2) by (auto split: option.splits)
    ultimately show ?thesis by simp
  qed
  with n(2) s'(1) show ?thesis by (auto simp: ex_reminder_def split: option.splits)
qed
end
