(* ===== verification/SvtFuncs.thy ===== *)
theory SvtFuncs
  imports PidBuf Pms Table
begin

text \<open>
  stream/svt.c, first part: which PIDs of a programme belong to a set of functions (audio, video,
  teletext, subtitles, service information), and which functions have to be added and removed
  when an output changes from one set of programmes to another.  Arrays are those of
  \<open>PidBuf\<close>; \<open>m k\<close> says whether an allocation of \<open>k\<close> cells succeeds.
\<close>

subsection \<open>Functions and streams\<close>

abbreviation FUNC_AUDIO :: u16 where "FUNC_AUDIO \<equiv> 0x2"
abbreviation FUNC_VIDEO :: u16 where "FUNC_VIDEO \<equiv> 0x4"
abbreviation FUNC_VT :: u16 where "FUNC_VT \<equiv> 0x40"
abbreviation FUNC_SPU :: u16 where "FUNC_SPU \<equiv> 0x80"
abbreviation FUNC_PSI :: u16 where "FUNC_PSI \<equiv> 0x100"
abbreviation FUNC_ALL :: u16 where "FUNC_ALL \<equiv> 0xffff"
abbreviation NO_PID :: u16 where "NO_PID \<equiv> 0x1fff"

definition includes_stream :: "u16 \<Rightarrow> es \<Rightarrow> bool" where
  "includes_stream func s =
     (if func = FUNC_ALL then True
      else if func AND FUNC_VT \<noteq> 0 \<and> es_txt s \<noteq> None then True
      else if func AND FUNC_SPU \<noteq> 0 \<and> es_sub s \<noteq> None then True
      else let t = stream_type s in
        if func AND FUNC_AUDIO \<noteq> 0 \<and> (t = 3 \<or> t = 4 \<or> t = 0xf \<or> t = 0x11) then True
        else if func AND FUNC_VIDEO \<noteq> 0 \<and> (t = 1 \<or> t = 2 \<or> t = 0x10) then True
        else False)"

definition includes_pcr :: "u16 \<Rightarrow> bool" where
  "includes_pcr func \<longleftrightarrow> func AND FUNC_AUDIO \<noteq> 0 \<or> func AND FUNC_VIDEO \<noteq> 0"

text \<open>The cells of \<open>stream_infos\<close> that the loop of \<open>get_pms_func\<close> reads.\<close>

definition es_cells :: "pms \<Rightarrow> es list option" where
  "es_cells p =
     (if num_es p = 0 then Some []
      else case stream_infos p of
        None \<Rightarrow> None
      | Some l \<Rightarrow> if unat (num_es p) \<le> length l then Some (take (unat (num_es p)) l) else None)"

fun add_streams :: "(nat \<Rightarrow> bool) \<Rightarrow> u16 \<Rightarrow> es list \<Rightarrow> pid_array \<times> u16 \<Rightarrow> (pid_array \<times> u16) option" where
  "add_streams m func [] s = Some s"
| "add_streams m func (e # es) (pids, n) =
     (if includes_stream func e then do {
        (_, pids, n) \<leftarrow> pidbufAddPid (m (unat n + 1)) (es_pid e) pids n;
        add_streams m func es (pids, n)
      }
      else add_streams m func es (pids, n))"

definition get_pms_func :: "(nat \<Rightarrow> bool) \<Rightarrow> u16 \<Rightarrow> pms \<Rightarrow> pid_array \<times> u16 \<Rightarrow> (pid_array \<times> u16) option" where
  "get_pms_func m func sec s = do {
     infos \<leftarrow> es_cells sec;
     (pids, n) \<leftarrow> add_streams m func infos s;
     (if includes_pcr func \<and> pcr_pid sec \<noteq> NO_PID then do {
        (_, pids, n) \<leftarrow> pidbufAddPid (m (unat n + 1)) (pcr_pid sec) pids n;
        Some (pids, n)
      }
      else Some (pids, n))
   }"

text \<open>A table owns the parsed sections of a PMT.\<close>

definition collect_pmt_pids :: "(nat \<Rightarrow> bool) \<Rightarrow> pid_array \<times> u16 \<Rightarrow> u16 \<Rightarrow> pms table \<Rightarrow> (pid_array \<times> u16) option" where
  "collect_pmt_pids m s func pmt = do {
     r \<leftarrow> for_each_pms pmt (Some s) (\<lambda>x sec. do { s \<leftarrow> x; p \<leftarrow> psection.payload sec; get_pms_func m func p s });
     r
   }"

definition get_pids_for_func :: "(nat \<Rightarrow> bool) \<Rightarrow> pid_array \<times> u16 \<Rightarrow> pms table option \<Rightarrow> pms table option \<Rightarrow> u16 \<Rightarrow> u16 \<Rightarrow>
    (pid_array \<times> u16) option" where
  "get_pids_for_func m s pmt0 pmt1 pmt_pid func = do {
     s \<leftarrow> (case pmt0 of None \<Rightarrow> Some s | Some t \<Rightarrow> collect_pmt_pids m s func t);
     (pids, n) \<leftarrow> (case pmt1 of None \<Rightarrow> Some s | Some t \<Rightarrow> collect_pmt_pids m s func t);
     (if func AND FUNC_PSI \<noteq> 0 then do {
        (_, pids, n) \<leftarrow> pidbufAddPid (m (unat n + 1)) 0 pids n;
        (_, pids, n) \<leftarrow> pidbufAddPid (m (unat n + 1)) 17 pids n;
        (if pmt_pid \<noteq> NO_PID then do {
           (_, pids, n) \<leftarrow> pidbufAddPid (m (unat n + 1)) pmt_pid pids n;
           Some (pids, n)
         }
         else Some (pids, n))
      }
      else Some (pids, n))
   }"

subsection \<open>Transitions\<close>

definition cell :: "pid_array \<Rightarrow> nat \<Rightarrow> u16 option" where
  "cell a i = (case a of None \<Rightarrow> None | Some l \<Rightarrow> rd l i)"

function get_idx_loop :: "pid_array \<Rightarrow> nat \<Rightarrow> u16 \<Rightarrow> nat \<Rightarrow> nat option" where
  "get_idx_loop a sz e i =
     (if i < sz then do {
        x \<leftarrow> cell a i;
        (if x = e then Some i else get_idx_loop a sz e (Suc i))
      }
      else Some i)"
  by pat_completeness auto
termination
  by (relation "measure (\<lambda>(a, sz, e, i). sz - i)") auto

declare get_idx_loop.simps [simp del]

definition get_idx :: "pid_array \<Rightarrow> u16 \<Rightarrow> u16 \<Rightarrow> nat option" where
  "get_idx a sz e = get_idx_loop a (unat sz) e 0"

text \<open>The functions of the programmes \<open>p[i..n)\<close>, looked up in the set they come from.\<close>

function copy_funcs :: "pid_array \<Rightarrow> pid_array \<Rightarrow> u16 \<Rightarrow> pid_array \<Rightarrow> nat \<Rightarrow> nat \<Rightarrow> pid_array \<Rightarrow> pid_array option" where
  "copy_funcs funcs pnrs n p np i f =
     (if i < np then do {
        x \<leftarrow> cell p i;
        j \<leftarrow> get_idx pnrs n x;
        v \<leftarrow> cell funcs j;
        l \<leftarrow> f;
        l \<leftarrow> wr l i v;
        copy_funcs funcs pnrs n p np (Suc i) (Some l)
      }
      else Some f)"
  by pat_completeness auto
termination
  by (relation "measure (\<lambda>(funcs, pnrs, n, p, np, i, f). np - i)") auto

declare copy_funcs.simps [simp del]

text \<open>The loop over the programmes that are in both sets; \<open>change\<close> is the bits that were unset or set.\<close>

function common_funcs :: "(nat \<Rightarrow> bool) \<Rightarrow> (u16 \<Rightarrow> u16 \<Rightarrow> u16) \<Rightarrow> pid_array \<Rightarrow> pid_array \<Rightarrow> nat \<Rightarrow> pid_array \<Rightarrow> pid_array \<Rightarrow> u16 \<Rightarrow>
    nat \<Rightarrow> pid_array \<times> pid_array \<times> u16 \<Rightarrow> (pid_array \<times> pid_array \<times> u16) option" where
  "common_funcs m change funcs_a pnrs_a na funcs_b pnrs_b nb i s =
     (if i < na then do {
        x \<leftarrow> cell pnrs_a i;
        c \<leftarrow> pidbufContains x pnrs_b nb;
        (if c then do {
           j \<leftarrow> get_idx pnrs_b nb x;
           fa \<leftarrow> cell funcs_a i;
           fb \<leftarrow> cell funcs_b j;
           let tmp = change fa fb;
           (if tmp \<noteq> 0 then do {
              let (f, p, n) = s;
              (_, p, n) \<leftarrow> pidbufAddPid (m (unat n + 1)) x p n;
              let n = n - 1;
              (_, f, n) \<leftarrow> pidbufAddPid (m (unat n + 1)) tmp f n;
              common_funcs m change funcs_a pnrs_a na funcs_b pnrs_b nb (Suc i) (f, p, n)
            }
            else common_funcs m change funcs_a pnrs_a na funcs_b pnrs_b nb (Suc i) s)
         }
         else common_funcs m change funcs_a pnrs_a na funcs_b pnrs_b nb (Suc i) s)
      }
      else Some s)"
  by pat_completeness auto
termination
  by (relation "measure (\<lambda>(m, ch, funcs_a, pnrs_a, na, funcs_b, pnrs_b, nb, i, s). na - i)") auto

declare common_funcs.simps [simp del]

text \<open>The results are the functions, the programmes and their number.\<close>

definition get_funcs_to_remove :: "(nat \<Rightarrow> bool) \<Rightarrow> pid_array \<Rightarrow> pid_array \<Rightarrow> u16 \<Rightarrow> pid_array \<Rightarrow> pid_array \<Rightarrow> u16 \<Rightarrow>
    (pid_array \<times> pid_array \<times> u16) option" where
  "get_funcs_to_remove m funcs_a pnrs_a n_funcs_a funcs_b pnrs_b n_funcs_b = do {
     (p_rmv, n_rmv) \<leftarrow> pidbufDifference m pnrs_a n_funcs_a pnrs_b n_funcs_b;
     let f_rmv = utlCalloc16 (m (unat n_rmv)) n_rmv;
     f_rmv \<leftarrow> copy_funcs funcs_a pnrs_a n_funcs_a p_rmv (unat n_rmv) 0 f_rmv;
     common_funcs m (\<lambda>fa fb. fa AND NOT fb) funcs_a pnrs_a (unat n_funcs_a) funcs_b pnrs_b n_funcs_b 0 (f_rmv, p_rmv, n_rmv)
   }"

definition get_funcs_to_add :: "(nat \<Rightarrow> bool) \<Rightarrow> pid_array \<Rightarrow> pid_array \<Rightarrow> u16 \<Rightarrow> pid_array \<Rightarrow> pid_array \<Rightarrow> u16 \<Rightarrow>
    (pid_array \<times> pid_array \<times> u16) option" where
  "get_funcs_to_add m funcs_a pnrs_a n_funcs_a funcs_b pnrs_b n_funcs_b = do {
     (p_add, n_add) \<leftarrow> pidbufDifference m pnrs_b n_funcs_b pnrs_a n_funcs_a;
     let f_add = utlCalloc16 (m (unat n_add)) n_add;
     f_add \<leftarrow> copy_funcs funcs_b pnrs_b n_funcs_b p_add (unat n_add) 0 f_add;
     common_funcs m (\<lambda>fa fb. NOT fa AND fb) funcs_a pnrs_a (unat n_funcs_a) funcs_b pnrs_b n_funcs_b 0 (f_add, p_add, n_add)
   }"

subsection \<open>The PIDs of a service\<close>

text \<open>A set of 13-bit PIDs.\<close>

definition pidset_ok :: "pid_array \<times> u16 \<Rightarrow> bool" where
  "pidset_ok s \<longleftrightarrow> pb_ok (fst s) (snd s) \<and> distinct (pids_of (fst s)) \<and> (\<forall>x\<in>set (pids_of (fst s)). unat x < 8192)"

abbreviation pidset :: "pid_array \<times> u16 \<Rightarrow> u16 set" where
  "pidset s \<equiv> set (pids_of (fst s))"

lemma pidset_small:
  assumes "pidset_ok (a, n)"
  shows "unat n \<le> 8192"
proof -
  have "unat ` set (pids_of a) \<subseteq> {..<8192}" using assms by (auto simp: pidset_ok_def)
  then have "card (unat ` set (pids_of a)) \<le> 8192" using card_mono [of "{..<8192::nat}"] by fastforce
  moreover have "card (unat ` set (pids_of a)) = length (pids_of a)"
    using assms by (subst card_image) (auto simp: pidset_ok_def distinct_card inj_on_def word_unat_eq_iff)
  ultimately show ?thesis using assms by (simp add: pidset_ok_def pb_ok_def)
qed

lemma add_pid_run:
  assumes "pidset_ok (a, n)" "unat x < 8192"
  shows "\<exists>a' n'. pidbufAddPid True x a n = Some (a', a', n') \<and> pidset_ok (a', n') \<and> pidset (a', n') = insert x (pidset (a, n))"
proof -
  have "unat n < 65535" using pidset_small [OF assms(1)] by simp
  with pidbufAddPid_ok [of a n x] assms obtain a' n' where
    "pidbufAddPid True x a n = Some (a', a', n')" "pb_ok a' n'"
    "pids_of a' = (if x \<in> set (pids_of a) then pids_of a else pids_of a @ [x])"
    by (auto simp: pidset_ok_def)
  with assms show ?thesis by (auto simp: pidset_ok_def)
qed

definition stream_pids :: "u16 \<Rightarrow> pms \<Rightarrow> u16 set" where
  "stream_pids func p = es_pid ` {e \<in> set (the (es_cells p)). includes_stream func e} \<union>
     (if includes_pcr func \<and> pcr_pid p \<noteq> NO_PID then {pcr_pid p} else {})"

definition pms_ok :: "pms \<Rightarrow> bool" where
  "pms_ok p \<longleftrightarrow> es_cells p \<noteq> None \<and> (\<forall>e\<in>set (the (es_cells p)). unat (es_pid e) < 8192) \<and> unat (pcr_pid p) < 8192"

lemma add_streams_run:
  assumes "pidset_ok s" "\<forall>e\<in>set es. unat (es_pid e) < 8192"
  shows "\<exists>s'. add_streams (\<lambda>_. True) func es s = Some s' \<and> pidset_ok s' \<and>
    pidset s' = pidset s \<union> es_pid ` {e \<in> set es. includes_stream func e}"
  using assms
proof (induction es arbitrary: s)
  case (Cons e es)
  obtain a n where s: "s = (a, n)" by force
  show ?case
  proof (cases "includes_stream func e")
    case True
    from add_pid_run [of a n "es_pid e"] Cons.prems s obtain a' n' where
      "pidbufAddPid True (es_pid e) a n = Some (a', a', n')" "pidset_ok (a', n')" "pidset (a', n') = insert (es_pid e) (pidset s)"
      by auto
    with True Cons.IH [of "(a', n')"] Cons.prems s show ?thesis by auto
  next
    case False
    with Cons.IH [of s] Cons.prems s show ?thesis by auto
  qed
qed simp

lemma get_pms_func_run:
  assumes "pidset_ok s" "pms_ok p"
  shows "\<exists>s'. get_pms_func (\<lambda>_. True) func p s = Some s' \<and> pidset_ok s' \<and> pidset s' = pidset s \<union> stream_pids func p"
proof -
  obtain es where es: "es_cells p = Some es" using assms(2) by (auto simp: pms_ok_def)
  from add_streams_run [OF assms(1), of es func] assms(2) es obtain a n where
    a: "add_streams (\<lambda>_. True) func es s = Some (a, n)" "pidset_ok (a, n)"
      "pidset (a, n) = pidset s \<union> es_pid ` {e \<in> set es. includes_stream func e}" by (auto simp: pms_ok_def)
  moreover from add_pid_run [OF a(2), of "pcr_pid p"] assms(2) obtain a' n' where
    "pidbufAddPid True (pcr_pid p) a n = Some (a', a', n')" "pidset_ok (a', n')"
    "pidset (a', n') = insert (pcr_pid p) (pidset (a, n))" by (auto simp: pms_ok_def)
  ultimately show ?thesis using es by (auto simp: get_pms_func_def stream_pids_def)
qed

text \<open>A table of programme map sections as a tracker holds it.\<close>

definition pmt_ok :: "pms table \<Rightarrow> bool" where
  "pmt_ok t \<longleftrightarrow> length (occupied t) = 32 \<and> num_sections t \<le> 256 \<and> length (sections t) \<le> num_sections t \<and> sec_kind (table_id t) = Some KPms \<and>
     (\<forall>i\<in>occ t. i < num_sections t \<and> i < length (sections t) \<and>
        (\<exists>s p. sections t ! i = Some s \<and> psection.payload s = Some p \<and> pms_ok p))"

definition pmt_sections :: "pms table \<Rightarrow> pms set" where
  "pmt_sections t = {p. \<exists>i\<in>occ t. \<exists>s. sections t ! i = Some s \<and> psection.payload s = Some p}"

definition slot_pms :: "pms table \<Rightarrow> nat \<Rightarrow> pms set" where
  "slot_pms t j = {p. \<exists>s. sections t ! j = Some s \<and> psection.payload s = Some p}"

lemma collect_loop_run:
  assumes "pmt_ok t" "pidset_ok s" "i + n \<le> num_sections t"
  shows "\<exists>s'. for_each_loop n i t (\<lambda>x sec. do { s \<leftarrow> x; p \<leftarrow> psection.payload sec; get_pms_func (\<lambda>_. True) func p s }) (Some s) = Some (Some s') \<and>
    pidset_ok s' \<and>
    pidset s' = pidset s \<union> (\<Union>j\<in>occ t \<inter> {i..<i + n}. \<Union>p\<in>slot_pms t j. stream_pids func p)"
  using assms(2,3)
proof (induction n arbitrary: i s)
  case (Suc n)
  have i: "i < 8 * length (occupied t)" using assms(1) Suc.prems(2) by (auto simp: pmt_ok_def)
  have ivl: "{i..<i + Suc n} = insert i {Suc i..<Suc i + n}" by auto
  from bf.mem_cases [OF i] show ?case
  proof cases
    case (1 v)
    with assms(1) obtain sec p where sec: "i < length (sections t)" "sections t ! i = Some sec"
      "psection.payload sec = Some p" "pms_ok p" by (fastforce simp: pmt_ok_def)
    from get_pms_func_run [OF Suc.prems(1) sec(4)] obtain s1 where
      s1: "get_pms_func (\<lambda>_. True) func p s = Some s1" "pidset_ok s1" "pidset s1 = pidset s \<union> stream_pids func p" by blast
    from Suc.IH [OF s1(2), of "Suc i"] Suc.prems(2) obtain s2 where
      s2: "for_each_loop n (Suc i) t (\<lambda>x sec. do { s \<leftarrow> x; p \<leftarrow> psection.payload sec; get_pms_func (\<lambda>_. True) func p s }) (Some s1) = Some (Some s2)"
      "pidset_ok s2" "pidset s2 = pidset s1 \<union> (\<Union>j\<in>occ t \<inter> {Suc i..<Suc i + n}. \<Union>p\<in>slot_pms t j. stream_pids func p)"
      by auto
    have "slot_pms t i = {p}" using sec by (simp add: slot_pms_def)
    moreover have "occ t \<inter> {i..<i + Suc n} = insert i (occ t \<inter> {Suc i..<Suc i + n})" using 1 ivl by auto
    ultimately have "pidset s2 = pidset s \<union> (\<Union>j\<in>occ t \<inter> {i..<i + Suc n}. \<Union>p\<in>slot_pms t j. stream_pids func p)"
      using s1(3) s2(3) by simp blast
    with 1 sec s1(1) s2(1,2) show ?thesis by (simp add: rd_def)
  next
    case 2
    then have "occ t \<inter> {i..<i + Suc n} = occ t \<inter> {Suc i..<Suc i + n}" using ivl by auto
    with 2 Suc.IH [OF Suc.prems(1), of "Suc i"] Suc.prems(2) show ?thesis by simp
  qed
qed simp

lemma collect_pmt_pids_run:
  assumes "pmt_ok t" "pidset_ok s"
  shows "\<exists>s'. collect_pmt_pids (\<lambda>_. True) s func t = Some s' \<and> pidset_ok s' \<and>
    pidset s' = pidset s \<union> (\<Union>p\<in>pmt_sections t. stream_pids func p)"
proof -
  have "occ t \<inter> {0..<0 + num_sections t} = occ t" using assms(1) by (auto simp: pmt_ok_def)
  moreover have "pmt_sections t = (\<Union>j\<in>occ t. slot_pms t j)" by (auto simp: pmt_sections_def slot_pms_def)
  ultimately show ?thesis
    using collect_loop_run [OF assms, of 0 "num_sections t" func] assms(1)
    by (auto simp: collect_pmt_pids_def for_each_pms_def pmt_ok_def)
qed

definition service_pids :: "u16 \<Rightarrow> pms table option \<Rightarrow> pms table option \<Rightarrow> u16 \<Rightarrow> u16 set" where
  "service_pids func pmt0 pmt1 pmt_pid =
     (\<Union>t\<in>set_option pmt0 \<union> set_option pmt1. \<Union>p\<in>pmt_sections t. stream_pids func p) \<union>
     (if func AND FUNC_PSI \<noteq> 0 then {0, 17} \<union> ({pmt_pid} - {NO_PID}) else {})"

lemma get_pids_for_func_run:
  assumes "pidset_ok s" "\<forall>t\<in>set_option pmt0 \<union> set_option pmt1. pmt_ok t" "unat pmt_pid < 8192"
  shows "\<exists>s'. get_pids_for_func (\<lambda>_. True) s pmt0 pmt1 pmt_pid func = Some s' \<and> pidset_ok s' \<and>
    pidset s' = pidset s \<union> service_pids func pmt0 pmt1 pmt_pid"
proof -
  have opt: "\<exists>s'. (case t of None \<Rightarrow> Some s | Some t \<Rightarrow> collect_pmt_pids (\<lambda>_. True) s func t) = Some s' \<and> pidset_ok s' \<and>
      pidset s' = pidset s \<union> (\<Union>t\<in>set_option t. \<Union>p\<in>pmt_sections t. stream_pids func p)"
    if "pidset_ok s" "\<forall>t\<in>set_option t. pmt_ok t" for s t
    using that collect_pmt_pids_run [of _ s func] by (cases t) auto
  from opt [OF assms(1), of pmt0] assms(2) obtain s1 where s1:
    "(case pmt0 of None \<Rightarrow> Some s | Some t \<Rightarrow> collect_pmt_pids (\<lambda>_. True) s func t) = Some s1" "pidset_ok s1"
    "pidset s1 = pidset s \<union> (\<Union>t\<in>set_option pmt0. \<Union>p\<in>pmt_sections t. stream_pids func p)" by auto
  from opt [OF s1(2), of pmt1] assms(2) obtain a n where s2:
    "(case pmt1 of None \<Rightarrow> Some s1 | Some t \<Rightarrow> collect_pmt_pids (\<lambda>_. True) s1 func t) = Some (a, n)" "pidset_ok (a, n)"
    "pidset (a, n) = pidset s1 \<union> (\<Union>t\<in>set_option pmt1. \<Union>p\<in>pmt_sections t. stream_pids func p)" by auto
  from add_pid_run [OF s2(2), of 0] obtain a0 n0 where a0: "pidbufAddPid True 0 a n = Some (a0, a0, n0)"
    "pidset_ok (a0, n0)" "pidset (a0, n0) = insert 0 (pidset (a, n))" by auto
  from add_pid_run [OF a0(2), of 17] obtain a1 n1 where a1: "pidbufAddPid True 17 a0 n0 = Some (a1, a1, n1)"
    "pidset_ok (a1, n1)" "pidset (a1, n1) = insert 17 (pidset (a0, n0))" by auto
  from add_pid_run [OF a1(2) assms(3)] obtain a2 n2 where a2: "pidbufAddPid True pmt_pid a1 n1 = Some (a2, a2, n2)"
    "pidset_ok (a2, n2)" "pidset (a2, n2) = insert pmt_pid (pidset (a1, n1))" by auto
  consider "func AND FUNC_PSI = 0" | "func AND FUNC_PSI \<noteq> 0" "pmt_pid = NO_PID" | "func AND FUNC_PSI \<noteq> 0" "pmt_pid \<noteq> NO_PID" by blast
  then show ?thesis
  proof cases
    case 1
    with s1 s2 show ?thesis by (auto simp: get_pids_for_func_def service_pids_def)
  next
    case 2
    with s1 s2 a0 a1 show ?thesis by (auto simp: get_pids_for_func_def service_pids_def)
  next
    case 3
    with s1 s2 a0 a1 a2 show ?thesis by (auto simp: get_pids_for_func_def service_pids_def)
  qed
qed


subsection \<open>What a transition removes and adds\<close>

text \<open>The functions of a programme in a set given by two arrays.\<close>

definition func_of :: "pid_array \<Rightarrow> pid_array \<Rightarrow> u16 \<Rightarrow> u16" where
  "func_of pnrs funcs x = the (map_of (zip (pids_of pnrs) (pids_of funcs)) x)"

lemma func_of_nth:
  assumes "distinct (pids_of pnrs)" "length (pids_of pnrs) = length (pids_of funcs)" "i < length (pids_of pnrs)"
  shows "func_of pnrs funcs (pids_of pnrs ! i) = pids_of funcs ! i"
proof -
  have "(pids_of pnrs ! i, pids_of funcs ! i) \<in> set (zip (pids_of pnrs) (pids_of funcs))"
    using assms(2,3) by (auto simp: set_zip)
  with assms(1,2) show ?thesis by (simp add: func_of_def map_of_eq_Some_iff)
qed

lemma cell_nth: "pb_ok a n \<Longrightarrow> i < unat n \<Longrightarrow> cell a i = Some (pids_of a ! i)"
  by (auto dest!: pb_ok_cases simp: cell_def rd_def)

lemma get_idx_loop_run:
  assumes "pb_ok a n" "i \<le> k" "k < unat n" "pids_of a ! k = x" "\<forall>j. i \<le> j \<and> j < k \<longrightarrow> pids_of a ! j \<noteq> x"
  shows "get_idx_loop a (unat n) x i = Some k"
  using assms(2-5)
proof (induction "k - i" arbitrary: i)
  case 0
  then show ?case using cell_nth [OF assms(1), of i] by (simp add: get_idx_loop.simps)
next
  case (Suc d)
  then have "pids_of a ! i \<noteq> x" "i < unat n" by auto
  with Suc cell_nth [OF assms(1), of i] show ?case by (simp add: get_idx_loop.simps [of a "unat n" x i])
qed

lemma get_idx_run:
  assumes "pb_ok a n" "distinct (pids_of a)" "x \<in> set (pids_of a)"
  shows "\<exists>k. get_idx a n x = Some k \<and> k < unat n \<and> pids_of a ! k = x"
proof -
  have len: "length (pids_of a) = unat n" using assms(1) by (simp add: pb_ok_def)
  from assms(3) obtain k where k: "k < unat n" "pids_of a ! k = x" by (auto simp: in_set_conv_nth len)
  have "get_idx a n x = Some k"
    unfolding get_idx_def using assms(1) k assms(2) len
    by (intro get_idx_loop_run) (auto simp: nth_eq_iff_index_eq)
  with k show ?thesis by blast
qed

lemma get_func_run:
  assumes "pb_ok pnrs n" "pb_ok funcs n" "distinct (pids_of pnrs)" "x \<in> set (pids_of pnrs)"
  shows "\<exists>k. get_idx pnrs n x = Some k \<and> cell funcs k = Some (func_of pnrs funcs x)"
proof -
  from get_idx_run [OF assms(1,3,4)] obtain k where k: "get_idx pnrs n x = Some k" "k < unat n" "pids_of pnrs ! k = x" by blast
  have "func_of pnrs funcs x = pids_of funcs ! k"
    using func_of_nth [OF assms(3), of funcs k] assms(1,2) k(2,3) by (simp add: pb_ok_def)
  with k cell_nth [OF assms(2) k(2)] show ?thesis by simp
qed

lemma copy_funcs_run:
  assumes a: "pb_ok pnrs n" "pb_ok funcs n" "distinct (pids_of pnrs)"
    and p: "pb_ok p np" "set (pids_of p) \<subseteq> set (pids_of pnrs)"
    and l: "i \<le> unat np" "length l = unat np" "take i l = map (func_of pnrs funcs) (take i (pids_of p))"
  shows "copy_funcs funcs pnrs n p (unat np) i (Some l) = Some (Some (map (func_of pnrs funcs) (pids_of p)))"
  using l
proof (induction "unat np - i" arbitrary: i l)
  case 0
  then have "i = unat np" "length (pids_of p) = unat np" using p(1) by (simp_all add: pb_ok_def)
  with 0 show ?case by (simp add: copy_funcs.simps)
next
  case (Suc d)
  then have i: "i < unat np" "i < length (pids_of p)" using p(1) by (simp_all add: pb_ok_def)
  then have "pids_of p ! i \<in> set (pids_of pnrs)" using p(2) by auto
  from get_func_run [OF a this] obtain k where
    k: "get_idx pnrs n (pids_of p ! i) = Some k" "cell funcs k = Some (func_of pnrs funcs (pids_of p ! i))" by blast
  let ?l = "l[i := func_of pnrs funcs (pids_of p ! i)]"
  have "take (Suc i) ?l = map (func_of pnrs funcs) (take (Suc i) (pids_of p))"
    using Suc.prems i by (simp add: take_Suc_conv_app_nth)
  with Suc k i cell_nth [OF p(1) i(1)] show ?case
    by (simp add: copy_funcs.simps [of funcs pnrs n p "unat np" i] wr_def)
qed

lemma copy_funcs_all:
  assumes "pb_ok pnrs n" "pb_ok funcs n" "distinct (pids_of pnrs)" "pb_ok p np" "set (pids_of p) \<subseteq> set (pids_of pnrs)"
  shows "\<exists>f. copy_funcs funcs pnrs n p (unat np) 0 (utlCalloc16 True np) = Some f \<and> pb_ok f np \<and>
    pids_of f = map (func_of pnrs funcs) (pids_of p)"
proof (cases "np = 0")
  case True
  with assms(4) show ?thesis by (auto dest!: pb_ok_cases simp: copy_funcs.simps utlCalloc16_def)
next
  case False
  with copy_funcs_run [OF assms, of 0 "replicate (unat np) 0"] assms(4) show ?thesis
    by (auto simp: utlCalloc16_def pb_ok_def)
qed

text \<open>The programmes that stay and whose functions change, with the change.\<close>

definition changes :: "(u16 \<Rightarrow> u16 \<Rightarrow> u16) \<Rightarrow> (u16 \<Rightarrow> u16) \<Rightarrow> (u16 \<Rightarrow> u16) \<Rightarrow> u16 list \<Rightarrow> u16 set \<Rightarrow> (u16 \<times> u16) list" where
  "changes ch fa fb xs B = filter (\<lambda>(x, v). v \<noteq> 0) (map (\<lambda>x. (x, ch (fa x) (fb x))) (filter (\<lambda>x. x \<in> B) xs))"

lemma changes_Cons:
  "changes ch fa fb (x # xs) B =
    (if x \<in> B \<and> ch (fa x) (fb x) \<noteq> 0 then (x, ch (fa x) (fb x)) # changes ch fa fb xs B else changes ch fa fb xs B)"
  by (simp add: changes_def)

lemma common_funcs_run:
  assumes a: "pb_ok pa na" "pb_ok fa na" "distinct (pids_of pa)" and b: "pb_ok pb nb" "pb_ok fb nb" "distinct (pids_of pb)"
    and s: "pb_ok f n" "pb_ok p n" "i \<le> unat na"
    and cs: "cs = changes ch (func_of pa fa) (func_of pb fb) (drop i (pids_of pa)) (set (pids_of pb))"
    and new: "distinct (map snd cs)" "set (map snd cs) \<inter> set (pids_of f) = {}" "set (map fst cs) \<inter> set (pids_of p) = {}"
    and sz: "unat n + length cs < 65536"
  shows "\<exists>f' p' n'. common_funcs (\<lambda>_. True) ch fa pa (unat na) fb pb nb i (f, p, n) = Some (f', p', n') \<and>
    pb_ok f' n' \<and> pb_ok p' n' \<and> pids_of f' = pids_of f @ map snd cs \<and> pids_of p' = pids_of p @ map fst cs"
  using s cs new sz
proof (induction "unat na - i" arbitrary: i f p n cs)
  case 0
  then have "drop i (pids_of pa) = []" using a(1) by (simp add: pb_ok_def)
  with 0 have "cs = []" by (simp add: changes_def)
  with 0 show ?case by (simp add: common_funcs.simps)
next
  case (Suc d)
  then have i: "i < unat na" "i < length (pids_of pa)" using a(1) by (simp_all add: pb_ok_def)
  let ?x = "pids_of pa ! i" and ?fa = "func_of pa fa" and ?fb = "func_of pb fb"
  let ?B = "set (pids_of pb)"
  have dr: "drop i (pids_of pa) = ?x # drop (Suc i) (pids_of pa)" using i(2) by (rule Cons_nth_drop_Suc [symmetric])
  have va: "cell fa i = Some (?fa ?x)"
    using cell_nth [OF a(2) i(1)] func_of_nth [OF a(3), of fa i] a(1,2) i by (simp add: pb_ok_def)
  note unf = common_funcs.simps [of _ ch fa pa "unat na" fb pb nb i]
  note facts = cell_nth [OF a(1) i(1)] pidbufContains_ok [OF b(1), of ?x] va
  define rest where "rest = changes ch ?fa ?fb (drop (Suc i) (pids_of pa)) ?B"
  show ?case
  proof (cases "?x \<in> ?B \<and> ch (?fa ?x) (?fb ?x) \<noteq> 0")
    case False
    then have cs: "cs = rest" using Suc.prems(4) by (simp add: dr changes_Cons rest_def)
    have skip: "common_funcs (\<lambda>_. True) ch fa pa (unat na) fb pb nb i (f, p, n) =
        common_funcs (\<lambda>_. True) ch fa pa (unat na) fb pb nb (Suc i) (f, p, n)"
    proof (cases "?x \<in> ?B")
      case True
      from get_func_run [OF b(1,2,3) True] False True show ?thesis using i(1) facts by (auto simp: unf)
    next
      case False
      then show ?thesis using i(1) facts by (simp add: unf)
    qed
    show ?thesis unfolding skip using Suc.hyps Suc.prems i(1) cs by (intro Suc.hyps) (auto simp: rest_def)
  next
    case True
    let ?v = "ch (?fa ?x) (?fb ?x)"
    have cs: "cs = (?x, ?v) # rest" using True Suc.prems(4) by (simp add: dr changes_Cons rest_def)
    have n: "unat n < 65535" using Suc.prems(8) cs by simp
    from pidbufAddPid_ok [OF Suc.prems(2) n, of ?x] Suc.prems(7) cs obtain p1 n1 where
      p1: "pidbufAddPid True ?x p n = Some (p1, p1, n1)" "pb_ok p1 n1" "pids_of p1 = pids_of p @ [?x]" by auto
    from pidbufAddPid_ok [OF Suc.prems(1) n, of ?v] Suc.prems(6) cs obtain f1 n2 where
      f1: "pidbufAddPid True ?v f n = Some (f1, f1, n2)" "pb_ok f1 n2" "pids_of f1 = pids_of f @ [?v]" by auto
    have u: "unat n1 = Suc (unat n)" "unat n2 = Suc (unat n)" using p1(2,3) f1(2,3) Suc.prems(1,2) by (simp_all add: pb_ok_def)
    then have "n1 = n2" "n1 = n + 1" using n by (simp_all add: word_unat_eq_iff unat_plus_one16)
    then have "n1 - 1 = n + 1 - 1" "n2 = n1" by (simp_all only:)
    then have n12: "n1 - 1 = n" "n2 = n1" by simp_all
    from get_func_run [OF b(1,2,3), of ?x] True obtain j where j: "get_idx pb nb ?x = Some j" "cell fb j = Some (?fb ?x)" by blast
    have step: "common_funcs (\<lambda>_. True) ch fa pa (unat na) fb pb nb i (f, p, n) =
        common_funcs (\<lambda>_. True) ch fa pa (unat na) fb pb nb (Suc i) (f1, p1, n1)"
      using i(1) facts j True p1(1) f1(1) n12 by (simp add: unf Let_def)
    have "\<exists>f' p' n'. common_funcs (\<lambda>_. True) ch fa pa (unat na) fb pb nb (Suc i) (f1, p1, n1) = Some (f', p', n') \<and>
        pb_ok f' n' \<and> pb_ok p' n' \<and> pids_of f' = pids_of f1 @ map snd rest \<and> pids_of p' = pids_of p1 @ map fst rest"
    proof (rule Suc.hyps(1))
      show "d = unat na - Suc i" "pb_ok f1 n1" "pb_ok p1 n1" "Suc i \<le> unat na"
        "rest = changes ch ?fa ?fb (drop (Suc i) (pids_of pa)) ?B"
        using Suc.hyps(2) i(1) f1(2) p1(2) n12 by (simp_all add: rest_def)
      show "distinct (map snd rest)" "set (map snd rest) \<inter> set (pids_of f1) = {}" "unat n1 + length rest < 65536"
        using Suc.prems(5,6,8) cs f1(3) u by auto
      have "fst ` set rest \<subseteq> set (drop (Suc i) (pids_of pa))" by (auto simp: rest_def changes_def)
      moreover have "?x \<notin> set (drop (Suc i) (pids_of pa))"
        using a(3) dr by (metis distinct.simps(2) distinct_drop)
      ultimately show "set (map fst rest) \<inter> set (pids_of p1) = {}" using Suc.prems(7) cs p1(3) by auto
    qed
    then show ?thesis unfolding step using f1(3) p1(3) cs by auto
  qed
qed


text \<open>A set of programmes with their functions, in two arrays.\<close>

definition funcset :: "pid_array \<Rightarrow> pid_array \<Rightarrow> u16 \<Rightarrow> bool" where
  "funcset pnrs funcs n \<longleftrightarrow> pb_ok pnrs n \<and> pb_ok funcs n \<and> distinct (pids_of pnrs)"

text \<open>The programmes of the first set that the second lacks, with their functions.\<close>

definition missing :: "pid_array \<Rightarrow> pid_array \<Rightarrow> pid_array \<Rightarrow> (u16 \<times> u16) list" where
  "missing pa fa pb = map (\<lambda>x. (x, func_of pa fa x)) (filter (\<lambda>x. x \<notin> set (pids_of pb)) (pids_of pa))"

abbreviation bits_gone :: "u16 \<Rightarrow> u16 \<Rightarrow> u16" where "bits_gone \<equiv> \<lambda>a b. a AND NOT b"
abbreviation bits_new :: "u16 \<Rightarrow> u16 \<Rightarrow> u16" where "bits_new \<equiv> \<lambda>a b. NOT a AND b"

abbreviation changed :: "(u16 \<Rightarrow> u16 \<Rightarrow> u16) \<Rightarrow> pid_array \<Rightarrow> pid_array \<Rightarrow> pid_array \<Rightarrow> pid_array \<Rightarrow> (u16 \<times> u16) list" where
  "changed ch pa fa pb fb \<equiv> changes ch (func_of pa fa) (func_of pb fb) (pids_of pa) (set (pids_of pb))"

lemma foldl_add_uniq_distinct: "distinct (r @ xs) \<Longrightarrow> foldl add_uniq r xs = r @ xs"
  by (induction xs arbitrary: r) (auto simp: add_uniq_def)

lemma pidbufDifference_list:
  assumes "pb_ok a na" "pb_ok b nb" "distinct (pids_of a)"
  shows "\<exists>rv n. pidbufDifference (\<lambda>_. True) a na b nb = Some (rv, n) \<and> pb_ok rv n \<and>
    pids_of rv = filter (\<lambda>x. x \<notin> set (pids_of b)) (pids_of a)"
proof (cases a)
  case None
  with assms(1) have "na = 0" by (simp add: pb_ok_def)
  with None show ?thesis using assms(2)
    by (auto simp: pidbufDifference_def difference_loop.simps)
next
  case (Some l)
  with assms(1) have l: "length l = unat na" by (simp add: pb_ok_def)
  have nb: "pb_ok b (if b = None then 0 else nb)" using assms(2) by (auto simp: pb_ok_def)
  from difference_loop_spec [of "unat na" l 0 None 0 b "if b = None then 0 else nb"] l nb obtain rv n where
    "difference_loop (\<lambda>_. True) (Some l) (unat na) b (if b = None then 0 else nb) 0 None 0 = Some (rv, n)" "pb_ok rv n"
    "pids_of rv = foldl add_uniq [] (filter (\<lambda>x. x \<notin> set (pids_of b)) l)"
    using unsigned_less [of na, where 'a = nat] by auto
  with Some assms(3) show ?thesis by (auto simp: pidbufDifference_def foldl_add_uniq_distinct)
qed

text \<open>\<open>X\<close> is the set that the complete entries come from.\<close>

lemma transition_run:
  assumes a: "funcset pa fa na" and b: "funcset pb fb nb" and x: "funcset px fx nx" and y: "pb_ok py ny"
    and new: "distinct (map snd (changed ch pa fa pb fb))"
      "set (map snd (changed ch pa fa pb fb)) \<inter> snd ` set (missing px fx py) = {}"
    and comp: "set (pids_of px) - set (pids_of py) \<subseteq> - (set (pids_of pa) \<inter> set (pids_of pb))"
    and sz: "length (missing px fx py) + length (changed ch pa fa pb fb) < 65536"
  shows "\<exists>f p n. (do {
      (p, n) \<leftarrow> pidbufDifference (\<lambda>_. True) px nx py ny;
      let f = utlCalloc16 True n;
      f \<leftarrow> copy_funcs fx px nx p (unat n) 0 f;
      common_funcs (\<lambda>_. True) ch fa pa (unat na) fb pb nb 0 (f, p, n)
    }) = Some (f, p, n) \<and> pb_ok f n \<and> pb_ok p n \<and>
    zip (pids_of p) (pids_of f) = missing px fx py @ changed ch pa fa pb fb"
proof -
  let ?cs = "changed ch pa fa pb fb"
  have a': "pb_ok pa na" "pb_ok fa na" "distinct (pids_of pa)" and b': "pb_ok pb nb" "pb_ok fb nb" "distinct (pids_of pb)"
    and x': "pb_ok px nx" "pb_ok fx nx" "distinct (pids_of px)" using a b x by (simp_all add: funcset_def)
  from pidbufDifference_list [OF x'(1) y x'(3)] obtain p n where
    p: "pidbufDifference (\<lambda>_. True) px nx py ny = Some (p, n)" "pb_ok p n"
      "pids_of p = filter (\<lambda>x. x \<notin> set (pids_of py)) (pids_of px)" by blast
  from copy_funcs_all [OF x' p(2)] p(3) obtain f where
    f: "copy_funcs fx px nx p (unat n) 0 (utlCalloc16 True n) = Some f" "pb_ok f n"
      "pids_of f = map (func_of px fx) (pids_of p)" by auto
  have m: "missing px fx py = zip (pids_of p) (pids_of f)" unfolding missing_def f(3) p(3) by (simp add: zip_map2 zip_same_conv_map)
  have len: "unat n = length (missing px fx py)" using p(2) by (simp add: pb_ok_def missing_def p(3))
  have "fst ` set ?cs \<subseteq> set (pids_of pa) \<inter> set (pids_of pb)" by (auto simp: changes_def)
  then have dis: "set (map fst ?cs) \<inter> set (pids_of p) = {}" using comp by (auto simp: p(3))
  have "snd ` set (missing px fx py) = set (pids_of f)" unfolding missing_def f(3) p(3) by force
  then have "set (map snd ?cs) \<inter> set (pids_of f) = {}" using new(2) by simp
  from common_funcs_run [OF a' b' f(2) p(2) _ _ new(1) this dis, of 0 ch] sz len obtain f' p' n' where
    "common_funcs (\<lambda>_. True) ch fa pa (unat na) fb pb nb 0 (f, p, n) = Some (f', p', n')" "pb_ok f' n'" "pb_ok p' n'"
    "pids_of f' = pids_of f @ map snd ?cs" "pids_of p' = pids_of p @ map fst ?cs" by auto
  moreover have "length (pids_of p) = length (pids_of f)" using p(2) f(2) by (simp add: pb_ok_def)
  ultimately show ?thesis using p(1) f(1) by (simp add: Let_def m zip_append zip_map_fst_snd)
qed

lemma changes_length_common: "length (changes ch fa fb xs B) \<le> length (filter (\<lambda>x. x \<in> B) xs)"
  unfolding changes_def by (rule order_trans [OF length_filter_le]) simp

lemma changes_length: "length (changes ch fa fb xs B) \<le> length xs"
  by (rule order_trans [OF changes_length_common]) simp

lemma missing_length: "length (missing pa fa pb) \<le> length (pids_of pa)"
  by (simp add: missing_def)

lemma funcs_remove_run:
  assumes a: "funcset pa fa na" and b: "funcset pb fb nb" and sz: "unat na + unat nb < 65536"
    and new: "distinct (map snd (changed bits_gone pa fa pb fb))"
      "set (map snd (changed bits_gone pa fa pb fb)) \<inter> snd ` set (missing pa fa pb) = {}"
  shows "\<exists>f p n. get_funcs_to_remove (\<lambda>_. True) fa pa na fb pb nb = Some (f, p, n) \<and> pb_ok f n \<and> pb_ok p n \<and>
    zip (pids_of p) (pids_of f) = missing pa fa pb @ changed bits_gone pa fa pb fb"
proof -
  have "length (missing pa fa pb) + length (changed bits_gone pa fa pb fb) \<le>
      length (filter (\<lambda>x. x \<notin> set (pids_of pb)) (pids_of pa)) + length (filter (\<lambda>x. x \<in> set (pids_of pb)) (pids_of pa))"
    by (intro add_mono changes_length_common) (simp add: missing_def)
  also have "\<dots> = length (pids_of pa)" using sum_length_filter_compl [of "\<lambda>x. x \<in> set (pids_of pb)" "pids_of pa"] by simp
  also have "\<dots> < 65536" using a sz by (simp add: funcset_def pb_ok_def)
  finally have sz': "length (missing pa fa pb) + length (changed bits_gone pa fa pb fb) < 65536" .
  have "pb_ok pb nb" using b by (simp add: funcset_def)
  then show ?thesis unfolding get_funcs_to_remove_def by (rule transition_run [OF a b a _ new _ sz']) auto
qed

lemma funcs_add_run:
  assumes a: "funcset pa fa na" and b: "funcset pb fb nb" and sz: "unat na + unat nb < 65536"
    and new: "distinct (map snd (changed bits_new pa fa pb fb))"
      "set (map snd (changed bits_new pa fa pb fb)) \<inter> snd ` set (missing pb fb pa) = {}"
  shows "\<exists>f p n. get_funcs_to_add (\<lambda>_. True) fa pa na fb pb nb = Some (f, p, n) \<and> pb_ok f n \<and> pb_ok p n \<and>
    zip (pids_of p) (pids_of f) = missing pb fb pa @ changed bits_new pa fa pb fb"
proof -
  have sz': "length (missing pb fb pa) + length (changed bits_new pa fa pb fb) < 65536"
    using missing_length [of pb fb pa] changes_length [of bits_new "func_of pa fa" "func_of pb fb" "pids_of pa" "set (pids_of pb)"]
      a b sz by (simp add: funcset_def pb_ok_def)
  have "pb_ok pa na" using a by (simp add: funcset_def)
  then show ?thesis unfolding get_funcs_to_add_def by (rule transition_run [OF a b b _ new _ sz']) auto
qed

end
