(* ===== verification/Svt.thy ===== *)
theory Svt
  imports SvtFuncs Pas SecEx SelectorInv
begin

text \<open>
  stream/svt.c, second part: service trackers and outputs.  An output of the demultiplexer
  carries functions of programmes; for each programme it has a tracker, which receives the
  PAT and the PMT through a packet-synchronous port of its own and keeps the PID sets of
  its outputs up to date.  Outputs and trackers are heap objects named by numbers; \<open>sd_outs\<close>
  and \<open>sd_trks\<close> hold the live ones, and touching another one is a fault.  The results of
  almost all allocations are used unchecked by this part of the program; they are taken to
  succeed.  Notifications of the frontend are appended to \<open>sd_log\<close>.
\<close>

subsection \<open>State\<close>

record func_rec =
  fr_pnr :: u16
  fr_func :: u16
  fr_trk :: nat

record svc_out =
  so_port :: nat
  so_n_hpids :: u16
  so_hpids :: pid_array
  so_r :: "func_rec list"

record svc_trk =
  tk_pnr :: u16
  tk_pid :: u16
  tk_input :: "nat option"
  tk_pmt0 :: "pms table option"
  tk_pmt1 :: "pms table option"
  tk_out :: "nat list"
  tk_ex :: sec_ex

record sw_dmx =
  sd_root :: "nat bt"
  sd_outputs :: "nat list"
  sd_outs :: "nat \<rightharpoonup> svc_out"
  sd_trks :: "svc_trk rcmem"
  sd_next :: nat
  sd_sel :: selector
  sd_log :: "sel_call list"

abbreviation always :: "'x \<Rightarrow> bool" where
  "always \<equiv> \<lambda>_. True"

definition put_out :: "nat \<Rightarrow> svc_out \<Rightarrow> sw_dmx \<Rightarrow> sw_dmx" where
  "put_out ou x d = d\<lparr>sd_outs := (sd_outs d)(ou \<mapsto> x)\<rparr>"

definition get_trk :: "sw_dmx \<Rightarrow> nat \<Rightarrow> svc_trk option" where
  "get_trk d a = map_option rc_body (sd_trks d a)"

definition put_trk :: "nat \<Rightarrow> svc_trk \<Rightarrow> sw_dmx \<Rightarrow> sw_dmx" where
  "put_trk a t d = d\<lparr>sd_trks := (sd_trks d)(a := map_option (\<lambda>b. b\<lparr>rc_body := t\<rparr>) (sd_trks d a))\<rparr>"

text \<open>\<open>utlRmv\<close> on an array of so many elements.\<close>

definition utlRmv :: "'a list \<Rightarrow> nat \<Rightarrow> 'a list" where
  "utlRmv xs idx = (if idx \<ge> length xs then xs else take idx xs @ drop (Suc idx) xs)"

definition mod_port :: "nat option \<Rightarrow> u16 \<Rightarrow> pid_array \<Rightarrow> sw_dmx \<Rightarrow> sw_dmx option" where
  "mod_port port n ps d = do {
     (r, s, c) \<leftarrow> selectorModPortUnsafe (\<lambda>_. always) True (\<lambda>_. always) (sd_sel d) port n ps;
     Some (d\<lparr>sd_sel := s, sd_log := sd_log d @ c\<rparr>)
   }"

definition remove_port :: "nat option \<Rightarrow> sw_dmx \<Rightarrow> sw_dmx option" where
  "remove_port port d = do {
     (r, s, c) \<leftarrow> selectorRemovePort (\<lambda>_. always) (\<lambda>_. always) (sd_sel d) port;
     Some (d\<lparr>sd_sel := s, sd_log := sd_log d @ c\<rparr>)
   }"

text \<open>The callback of the section extractor.\<close>

definition svt_release_pk :: "nat \<Rightarrow> sw_dmx \<Rightarrow> sw_dmx option" where
  "svt_release_pk p d = do { s \<leftarrow> selectorReleaseElementUnsafe (sd_sel d) p; Some (d\<lparr>sd_sel := s\<rparr>) }"

fun release_pks :: "packet list \<Rightarrow> sw_dmx \<Rightarrow> sw_dmx option" where
  "release_pks [] d = Some d"
| "release_pks (p # ps) d = do { d \<leftarrow> svt_release_pk (fst p) d; release_pks ps d }"

subsection \<open>Trackers\<close>

definition trk_cmp :: "svc_trk rcmem \<Rightarrow> nat \<Rightarrow> u16 \<Rightarrow> int" where
  "trk_cmp trks a pnr =
     (let ta = tk_pnr (rc_body (the (trks a))) in if pnr < ta then -1 else if pnr \<noteq> ta then 1 else 0)"

definition find_svt :: "sw_dmx \<Rightarrow> u16 \<Rightarrow> nat option option" where
  "find_svt d pnr =
     (if \<forall>a\<in>set (inorder (sd_root d)). sd_trks d a \<noteq> None
      then Some (btreeNodeFind (trk_cmp (sd_trks d)) (sd_root d) pnr) else None)"

text \<open>The new tracker is not entered into the tree.\<close>

definition find_or_new_svt :: "sw_dmx \<Rightarrow> u16 \<Rightarrow> (nat \<times> sw_dmx) option" where
  "find_or_new_svt d pnr = do {
     t \<leftarrow> find_svt d pnr;
     (case t of
        None \<Rightarrow> do {
          let (t, n, m) = rcptrMalloc always \<lparr>tk_pnr = 0, tk_pid = 0, tk_input = None, tk_pmt0 = None, tk_pmt1 = None,
            tk_out = [], tk_ex = BNil\<rparr> (sd_next d) (sd_trks d);
          t \<leftarrow> t;
          let d = d\<lparr>sd_next := n, sd_trks := m\<rparr>;
          let (s, k) = selectorAddPortSyncUnsafe always (sd_sel d) True;
          let d = put_trk t \<lparr>tk_pnr = pnr, tk_pid = NO_PID, tk_input = k, tk_pmt0 = None, tk_pmt1 = None, tk_out = [],
            tk_ex = secExInit\<rparr> (d\<lparr>sd_sel := s\<rparr>);
          d \<leftarrow> mod_port k 1 (Some [0]) d;
          Some (t, d)
        }
      | Some t \<Rightarrow> do {
          (r, m) \<leftarrow> rcptrAcquire (sd_trks d) t;
          Some (t, d\<lparr>sd_trks := m\<rparr>)
        })
   }"

text \<open>A failing \<open>assert\<close> is a fault.\<close>

definition svt_clear :: "nat \<Rightarrow> sw_dmx \<Rightarrow> sw_dmx option" where
  "svt_clear a d = do {
     t \<leftarrow> get_trk d a;
     (if tk_out t \<noteq> [] then None else Some ());
     d \<leftarrow> remove_port (tk_input t) d;
     (_, pmt0, _) \<leftarrow> clear_tbl (tk_pmt0 t);
     (_, pmt1, _) \<leftarrow> clear_tbl (tk_pmt1 t);
     Some (put_trk a (t\<lparr>tk_input := None, tk_pmt0 := None, tk_pmt1 := None\<rparr>) d)
   }"

text \<open>\<open>btreeNodeRemove\<close> on a node that was never inserted: its links are null, so the root
  becomes null.\<close>

definition tree_unlink :: "nat bt \<Rightarrow> nat \<Rightarrow> nat bt option" where
  "tree_unlink root e = (if e \<in> set (inorder root) then btreeNodeRemove root e else Some BNil)"

definition svt_release :: "nat \<Rightarrow> sw_dmx \<Rightarrow> sw_dmx option" where
  "svt_release a d = do {
     c \<leftarrow> rcptrRefcount (sd_trks d) a;
     d \<leftarrow> (if c = 1 then do {
             t \<leftarrow> get_trk d a;
             let (ex, pks) = secExClear (tk_ex t);
             d \<leftarrow> release_pks pks d;
             let d = put_trk a (t\<lparr>tk_ex := ex\<rparr>) d;
             root \<leftarrow> tree_unlink (sd_root d) a;
             svt_clear a (d\<lparr>sd_root := root\<rparr>)
           }
           else Some d);
     (r, m) \<leftarrow> rcptrRelease (sd_trks d) a;
     Some (d\<lparr>sd_trks := m\<rparr>)
   }"

definition index_of :: "'a \<Rightarrow> 'a list \<Rightarrow> nat" where
  "index_of x xs = length (takeWhile (\<lambda>y. y \<noteq> x) xs)"

definition remove_tracker :: "nat \<Rightarrow> nat \<Rightarrow> sw_dmx \<Rightarrow> sw_dmx option" where
  "remove_tracker ou i d = do {
     x \<leftarrow> sd_outs d ou;
     r \<leftarrow> rd (so_r x) i;
     let a = fr_trk r;
     let d = put_out ou (x\<lparr>so_r := utlRmv (so_r x) i\<rparr>) d;
     t \<leftarrow> get_trk d a;
     let j = index_of ou (tk_out t);
     (if j < length (tk_out t) then Some () else None);
     svt_release a (put_trk a (t\<lparr>tk_out := utlRmv (tk_out t) j\<rparr>) d)
   }"

subsection \<open>Functions of an output\<close>

definition add_func :: "nat \<Rightarrow> u16 \<Rightarrow> u16 \<Rightarrow> sw_dmx \<Rightarrow> sw_dmx option" where
  "add_func ou pnr func d = do {
     x \<leftarrow> sd_outs d ou;
     let i = index_of pnr (map fr_pnr (so_r x));
     (if i \<ge> length (so_r x) then do {
        (a, d) \<leftarrow> find_or_new_svt d pnr;
        let d = put_out ou (x\<lparr>so_r := so_r x @ [\<lparr>fr_pnr = pnr, fr_func = func, fr_trk = a\<rparr>]\<rparr>) d;
        t \<leftarrow> get_trk d a;
        Some (put_trk a (t\<lparr>tk_out := tk_out t @ [ou]\<rparr>) d)
      }
      else Some (put_out ou (x\<lparr>so_r := (so_r x)[i := (so_r x ! i)\<lparr>fr_func := func\<rparr>]\<rparr>) d))
   }"

definition rmv_func :: "nat \<Rightarrow> u16 \<Rightarrow> u16 \<Rightarrow> sw_dmx \<Rightarrow> sw_dmx option" where
  "rmv_func ou pnr func d = do {
     x \<leftarrow> sd_outs d ou;
     let i = index_of pnr (map fr_pnr (so_r x));
     (if i \<ge> length (so_r x) then Some d
      else do {
        let f = fr_func (so_r x ! i) AND NOT func;
        let d = put_out ou (x\<lparr>so_r := (so_r x)[i := (so_r x ! i)\<lparr>fr_func := f\<rparr>]\<rparr>) d;
        (if f = 0 then remove_tracker ou i d else Some d)
      })
   }"

text \<open>The functions, the programmes and their number, which is cut to 16 bits.\<close>

definition get_current_funcs :: "svc_out \<Rightarrow> pid_array \<times> pid_array \<times> u16" where
  "get_current_funcs x =
     (if so_r x = [] then (None, None, 0)
      else (Some (map fr_func (so_r x)), Some (map fr_pnr (so_r x)), word_of_nat (length (so_r x))))"

fun out_pids :: "sw_dmx \<Rightarrow> func_rec list \<Rightarrow> pid_array \<times> u16 \<Rightarrow> (pid_array \<times> u16) option" where
  "out_pids d [] s = Some s"
| "out_pids d (r # rs) s = do {
     t \<leftarrow> get_trk d (fr_trk r);
     s \<leftarrow> get_pids_for_func always s (tk_pmt0 t) (tk_pmt1 t) (tk_pid t) (fr_func r);
     out_pids d rs s
   }"

definition get_out_pids :: "sw_dmx \<Rightarrow> svc_out \<Rightarrow> (pid_array \<times> u16) option" where
  "get_out_pids d x = out_pids d (so_r x) (None, 0)"

definition refresh_output :: "nat \<Rightarrow> sw_dmx \<Rightarrow> sw_dmx option" where
  "refresh_output ou d = do {
     x \<leftarrow> sd_outs d ou;
     (svc, n_svc) \<leftarrow> get_out_pids d x;
     (total, n_total) \<leftarrow> pidbufMergeUniq True True svc n_svc (so_hpids x) (so_n_hpids x) 0;
     mod_port (Some (so_port x)) n_total total d
   }"

text \<open>The loops of \<open>svtOutMod\<close> over the functions to add and to remove.\<close>

function each_func :: "(u16 \<Rightarrow> u16 \<Rightarrow> sw_dmx \<Rightarrow> sw_dmx option) \<Rightarrow> pid_array \<Rightarrow> pid_array \<Rightarrow> nat \<Rightarrow> nat \<Rightarrow> sw_dmx \<Rightarrow> sw_dmx option" where
  "each_func f p fn n i d =
     (if i < n then do {
        x \<leftarrow> cell p i;
        v \<leftarrow> cell fn i;
        d \<leftarrow> f x v d;
        each_func f p fn n (Suc i) d
      }
      else Some d)"
  by pat_completeness auto
termination
  by (relation "measure (\<lambda>(f, p, fn, n, i, d). n - i)") auto

declare each_func.simps [simp del]

definition svtOutMod :: "nat \<Rightarrow> u16 \<Rightarrow> pid_array \<Rightarrow> pid_array \<Rightarrow> u16 \<Rightarrow> pid_array \<Rightarrow> sw_dmx \<Rightarrow> (int \<times> sw_dmx) option" where
  "svtOutMod ou n_funcs pnrs funcs n_pids ps d = do {
     x \<leftarrow> sd_outs d ou;
     let (a_funcs, a_pnrs, a_n_funcs) = get_current_funcs x;
     (f_rmv, p_rmv, n_rmv) \<leftarrow> get_funcs_to_remove always a_funcs a_pnrs a_n_funcs funcs pnrs n_funcs;
     (f_add, p_add, n_add) \<leftarrow> get_funcs_to_add always a_funcs a_pnrs a_n_funcs funcs pnrs n_funcs;
     d \<leftarrow> each_func (add_func ou) p_add f_add (unat n_add) 0 d;
     d \<leftarrow> each_func (rmv_func ou) p_rmv f_rmv (unat n_rmv) 0 d;
     x \<leftarrow> sd_outs d ou;
     (svc, n_svc) \<leftarrow> get_out_pids d x;
     (total, n_total) \<leftarrow> pidbufMergeUniq True True svc n_svc ps n_pids 0;
     d \<leftarrow> mod_port (Some (so_port x)) n_total total d;
     hp \<leftarrow> pidbufDup True ps n_pids;
     x \<leftarrow> sd_outs d ou;
     Some (0, put_out ou (x\<lparr>so_hpids := hp, so_n_hpids := n_pids\<rparr>) d)
   }"

subsection \<open>Outputs\<close>

definition svtOutAdd :: "sw_dmx \<Rightarrow> (nat \<times> sw_dmx) option" where
  "svtOutAdd d = do {
     let rv = sd_next d;
     let (s, k) = selectorAddPortUnsafe always (sd_sel d);
     k \<leftarrow> k;
     Some (rv, d\<lparr>sd_next := Suc rv, sd_sel := s, sd_outputs := rv # sd_outputs d,
       sd_outs := (sd_outs d)(rv \<mapsto> \<lparr>so_port = k, so_n_hpids = 0, so_hpids = None, so_r = []\<rparr>)\<rparr>)
   }"

partial_function (option) release_trackers :: "nat \<Rightarrow> sw_dmx \<Rightarrow> sw_dmx option" where
  "release_trackers ou d = do {
     x \<leftarrow> sd_outs d ou;
     (if so_r x \<noteq> [] then do { d \<leftarrow> remove_tracker ou 0 d; release_trackers ou d } else Some d)
   }"

definition svtOutRmv :: "nat \<Rightarrow> sw_dmx \<Rightarrow> sw_dmx option" where
  "svtOutRmv ou d = do {
     d \<leftarrow> release_trackers ou d;
     x \<leftarrow> sd_outs d ou;
     d \<leftarrow> remove_port (Some (so_port x)) d;
     Some (d\<lparr>sd_outputs := remove1 ou (sd_outputs d), sd_outs := (sd_outs d)(ou := None)\<rparr>)
   }"

definition swdmxInit :: "nat \<Rightarrow> u32 \<Rightarrow> sw_dmx" where
  "swdmxInit n lim = \<lparr>sd_root = BNil, sd_outputs = [], sd_outs = Map.empty, sd_trks = Map.empty, sd_next = 0,
     sd_sel = selectorInit n lim, sd_log = []\<rparr>"

partial_function (option) release_outputs :: "sw_dmx \<Rightarrow> sw_dmx option" where
  "release_outputs d =
     (case sd_outputs d of
        [] \<Rightarrow> Some d
      | ou # _ \<Rightarrow> do { d \<leftarrow> svtOutRmv ou d; release_outputs d })"

text \<open>The result is what the selector gives back and reports, and the blocks still live.\<close>

definition swdmxClear :: "sw_dmx \<Rightarrow> (sw_dmx \<times> nat list \<times> sel_call list \<times> selbuf rcmem) option" where
  "swdmxClear d = do {
     d \<leftarrow> release_outputs d;
     r \<leftarrow> selectorClear (\<lambda>_. always) (\<lambda>_. always) (sd_sel d);
     Some (d, r)
   }"
end
