(* ===== verification/SvtInv.thy ===== *)
theory SvtInv
  imports Svt
begin

text \<open>
  The registration invariant of the service trackers (theory \<open>Svt\<close>): who holds a reference to
  whom, which selector port belongs to which object, and which packets the trackers keep; and
  what adding, changing and removing outputs does to it.
\<close>

subsection \<open>Tables\<close>

lemma clear_pmt_loop:
  assumes "pmt_ok t" "i + n \<le> 256" "\<forall>j\<in>occ t. i \<le> j \<and> j < i + n"
  shows "\<exists>t' fr. clear_tbl_loop n i t freed = Some (t', fr) \<and> pmt_ok t' \<and> occ t' = {} \<and>
    num_sections t' = num_sections t \<and> tbl_version t' = tbl_version t \<and> table_id t' = table_id t"
  using assms
proof (induction n arbitrary: i t freed)
  case (Suc n)
  have i: "i < 8 * length (occupied t)" using Suc.prems(1,2) by (auto simp: pmt_ok_def)
  from bf.mem_cases [OF i] show ?case
  proof cases
    case (1 v)
    with Suc.prems(1) obtain s where s: "i < length (sections t)" "sections t ! i = Some s" by (fastforce simp: pmt_ok_def)
    have u: "unat (word_of_nat i :: u8) = i" using Suc.prems(2) by (simp add: index_u8)
    from clear_tbl_sec_run [of t "table_id t" "word_of_nat i" s] Suc.prems(1) s u obtain oc where
      c: "clear_tbl_sec t (word_of_nat i) (table_id t) =
        Some (0, t\<lparr>sections := (sections t)[i := Some (clear_section s)], occupied := oc\<rparr>, blocks s)"
        "length oc = 32" "bifi_set oc = occ t - {i}" by (auto simp: pmt_ok_def same_kind_def)
    let ?t = "t\<lparr>sections := (sections t)[i := Some (clear_section s)], occupied := oc\<rparr>"
    have "pmt_ok ?t" using Suc.prems(1) c(2,3) by (auto simp: pmt_ok_def nth_list_update)
    moreover have "\<forall>j\<in>occ ?t. Suc i \<le> j \<and> j < Suc i + n" using Suc.prems(3) c(3) by force
    ultimately show ?thesis using Suc.IH [of ?t "Suc i" "freed @ blocks s"] Suc.prems(2) 1 c(1) by simp
  next
    case 2
    then have "\<forall>j\<in>occ t. Suc i \<le> j \<and> j < Suc i + n" using Suc.prems(3) by (metis add_Suc le_neq_implies_less Suc_leI add_Suc_right)
    with Suc.IH [of t "Suc i" freed] Suc.prems(1,2) 2 show ?thesis by simp
  qed
qed auto

text \<open>A table without an array of sections.\<close>

definition hollow :: "pms table \<Rightarrow> bool" where
  "hollow t \<longleftrightarrow> sections t = [] \<and> occ t = {}"

lemma clear_pmt:
  assumes "pmt_ok t"
  shows "\<exists>t' fr. clear_tbl (Some t) = Some (0, Some t', fr) \<and> pmt_ok t' \<and> hollow t' \<and>
    num_sections t' = num_sections t \<and> tbl_version t' = tbl_version t"
proof -
  have "\<forall>j\<in>occ t. 0 \<le> j \<and> j < 0 + num_sections t" "0 + num_sections t \<le> 256" using assms by (auto simp: pmt_ok_def)
  from clear_pmt_loop [OF assms this(2,1), of "[]"] obtain t' fr where
    "clear_tbl_loop (num_sections t) 0 t [] = Some (t', fr)" "pmt_ok t'" "occ t' = {}" "num_sections t' = num_sections t"
    "tbl_version t' = tbl_version t" by auto
  then show ?thesis by (auto simp: clear_tbl_def pmt_ok_def hollow_def)
qed

lemma clear_pmts:
  assumes "\<forall>t\<in>set_option p. pmt_ok t"
  shows "\<exists>p' fr. clear_tbl p = Some (0, p', fr) \<and> (\<forall>t\<in>set_option p'. pmt_ok t \<and> hollow t) \<and> (p = None \<longleftrightarrow> p' = None)"
proof (cases p)
  case (Some t)
  with assms clear_pmt [of t] obtain t' fr where "clear_tbl (Some t) = Some (0, Some t', fr)" "pmt_ok t'" "hollow t'" by auto
  with Some show ?thesis by (intro exI [of _ "Some t'"] exI [of _ fr]) simp
qed (simp add: clear_tbl_def)

subsection \<open>The invariant\<close>

definition trk_ok :: "svc_trk \<Rightarrow> bool" where
  "trk_ok t \<longleftrightarrow> ex_inv (tk_ex t) \<and> unat (tk_pid t) < 8192 \<and> (\<forall>p\<in>set_option (tk_pmt0 t) \<union> set_option (tk_pmt1 t). pmt_ok p)"

text \<open>A record of an output refers to a live tracker of its programme, which knows only this output.\<close>

definition rec_ok :: "sw_dmx \<Rightarrow> nat \<Rightarrow> func_rec \<Rightarrow> bool" where
  "rec_ok d ou r \<longleftrightarrow> (\<exists>t. sd_trks d (fr_trk r) = Some \<lparr>rc_ctr = 1, rc_id = RCPTR_ID, rc_body = t\<rparr> \<and>
     tk_pnr t = fr_pnr r \<and> tk_out t = [ou])"

definition hp_ok :: "pid_array \<Rightarrow> u16 \<Rightarrow> bool" where
  "hp_ok a n \<longleftrightarrow> pb_ok a n \<and> unat n \<le> 32768 \<and> (\<forall>x\<in>set (pids_of a). unat x < 8192)"

definition out_ok :: "sw_dmx \<Rightarrow> nat \<Rightarrow> svc_out \<Rightarrow> bool" where
  "out_ok d ou x \<longleftrightarrow> distinct (map fr_pnr (so_r x)) \<and> length (so_r x) < 65536 \<and> (\<forall>r\<in>set (so_r x). rec_ok d ou r) \<and>
     hp_ok (so_hpids x) (so_n_hpids x)"

definition objects :: "sw_dmx \<Rightarrow> nat set" where
  "objects d = dom (sd_outs d) \<union> dom (sd_trks d)"

text \<open>The selector port of an object.\<close>

definition port_of :: "sw_dmx \<Rightarrow> nat \<Rightarrow> nat option" where
  "port_of d a = (case sd_outs d a of
     Some x \<Rightarrow> Some (so_port x)
   | None \<Rightarrow> (case get_trk d a of Some t \<Rightarrow> tk_input t | None \<Rightarrow> None))"

definition held_pks :: "sw_dmx \<Rightarrow> nat multiset" where
  "held_pks d = (\<Sum>a\<in>dom (sd_trks d). image_mset fst (held (tk_ex (rc_body (the (sd_trks d a))))))"

definition keys :: "selector \<Rightarrow> nat set" where
  "keys s = fst ` set (ports s)"

definition reg_inv :: "sw_dmx \<Rightarrow> bool" where
  "reg_inv d \<longleftrightarrow>
     sd_root d = BNil \<and> distinct (sd_outputs d) \<and> dom (sd_outs d) = set (sd_outputs d) \<and> finite (dom (sd_trks d)) \<and>
     set (sd_outputs d) \<inter> dom (sd_trks d) = {} \<and> (\<forall>a\<in>objects d. a < sd_next d) \<and>
     (\<forall>ou x. sd_outs d ou = Some x \<longrightarrow> out_ok d ou x) \<and>
     (\<forall>a\<in>dom (sd_trks d). \<exists>ou x. sd_outs d ou = Some x \<and> a \<in> fr_trk ` set (so_r x)) \<and>
     (\<forall>a t. get_trk d a = Some t \<longrightarrow> trk_ok t)"

definition port_reg :: "sw_dmx \<Rightarrow> bool" where
  "port_reg d \<longleftrightarrow> inj_on (port_of d) (objects d) \<and> (\<forall>a\<in>objects d. \<exists>k. port_of d a = Some k \<and> k \<in> keys (sd_sel d))"

text \<open>\<open>H\<close> is the references to packets that are held outside: by readers of the ports.  The frontend, told
  of every change, receives the PIDs that are selected.\<close>

definition dmx_inv :: "sw_dmx \<Rightarrow> nat multiset \<Rightarrow> bool" where
  "dmx_inv d H \<longleftrightarrow> reg_inv d \<and> port_reg d \<and> sel_inv (sd_sel d) (held_pks d + H) \<and>
     frontend (sd_log d) {} = selected (sd_sel d)"

lemma get_trk_frame [simp]:
  "get_trk (d\<lparr>sd_sel := s\<rparr>) = get_trk d" "get_trk (d\<lparr>sd_log := l\<rparr>) = get_trk d"
  by (simp_all add: get_trk_def fun_eq_iff)

lemma sel_frame [simp]:
  "reg_inv (d\<lparr>sd_sel := s\<rparr>) = reg_inv d" "reg_inv (d\<lparr>sd_log := l\<rparr>) = reg_inv d"
  "objects (d\<lparr>sd_sel := s\<rparr>) = objects d" "objects (d\<lparr>sd_log := l\<rparr>) = objects d"
  "port_of (d\<lparr>sd_sel := s\<rparr>) = port_of d" "port_of (d\<lparr>sd_log := l\<rparr>) = port_of d"
  "held_pks (d\<lparr>sd_sel := s\<rparr>) = held_pks d" "held_pks (d\<lparr>sd_log := l\<rparr>) = held_pks d"
  by (auto simp: reg_inv_def objects_def port_of_def held_pks_def out_ok_def rec_ok_def fun_eq_iff split: option.split)

lemma keys_view: "keys s = fst ` set (view s)"
  by (force simp: keys_def view_of_def)

lemma keys_lookup: "k \<in> keys s \<Longrightarrow> \<exists>prt. map_of (ports s) k = Some prt"
  unfolding keys_def by (metis domD dom_map_of_conv_image_fst)

lemma keys_repid [simp]: "fst ` set (repid k n a v) = fst ` set v"
  unfolding repid_def by force

lemma keys_queue_filter [simp]: "fst ` set (queue_filter B k f v) = fst ` set v"
  unfolding queue_filter_def by force

text \<open>Changing the PIDs of a port: what the selector then carries on each port.\<close>

definition port_set :: "selector \<Rightarrow> nat \<Rightarrow> u16 set" where
  "port_set s k = (case map_of (ports s) k of None \<Rightarrow> {} | Some p \<Rightarrow> set (pids_of (pids p)))"

lemma port_set_view: "port_set s k = (case map_of (view s) k of None \<Rightarrow> {} | Some (n, a, x) \<Rightarrow> set (pids_of a))"
  by (simp add: port_set_def map_of_view split: option.splits)

lemma map_of_repid: "map_of (repid k n a v) j =
    map_option (\<lambda>(n', a', s, Q). if j = k then (n, a, s, Q) else (n', a', s, Q)) (map_of v j)"
  by (induction v) (auto simp: repid_def split: if_splits)

lemma map_of_queue_filter: "map_of (queue_filter B k f v) j =
    map_option (\<lambda>(n', a', s, Q). (n', a', s, if j = k then filter (\<lambda>p. \<not> f (the (B p))) Q else Q)) (map_of v j)"
  by (induction v) (auto simp: queue_filter_def)

lemma mod_port_ok:
  assumes "sel_inv (sd_sel d) R" "k \<in> keys (sd_sel d)" "pb_ok ps n" "\<forall>x\<in>set (pids_of ps). unat x < 8192"
  shows "\<exists>s l. mod_port (Some k) n ps d = Some (d\<lparr>sd_sel := s, sd_log := sd_log d @ l\<rparr>) \<and> sel_inv s R \<and> keys s = keys (sd_sel d) \<and>
    (\<forall>j. port_set s j = (if j = k then set (pids_of ps) else port_set (sd_sel d) j)) \<and> frontend l (selected (sd_sel d)) = selected s"
proof -
  from keys_lookup [OF assms(2)] obtain prt where prt: "map_of (ports (sd_sel d)) k = Some prt" by blast
  from mod_port_run [OF assms(1) prt assms(3,4)] obtain s l where
    s: "selectorModPortUnsafe (\<lambda>_. always) True (\<lambda>_. always) (sd_sel d) (Some k) n ps = Some (0, s, l)" "sel_inv s R"
      "frontend l (selected (sd_sel d)) = selected s"
    and v: "view s = (if l = [] then repid k n ps (view (sd_sel d))
      else queue_filter (bodies (sd_sel d)) k (stale_for (set (pids_of ps))) (repid k n ps (view (sd_sel d))))" by blast
  have "keys s = keys (sd_sel d)" unfolding keys_view v by simp
  moreover have "port_set s j = (if j = k then set (pids_of ps) else port_set (sd_sel d) j)" for j
  proof -
    obtain w where w: "map_of (view (sd_sel d)) k = Some w" using prt by (simp add: map_of_view)
    show ?thesis unfolding port_set_view v using w
      by (auto simp: map_of_repid map_of_queue_filter split: option.splits prod.splits)
  qed
  ultimately show ?thesis using s by (intro exI [of _ s] exI [of _ l]) (simp add: mod_port_def)
qed

lemma remove_port_ok:
  assumes "sel_inv (sd_sel d) R" "k \<in> keys (sd_sel d)"
  shows "\<exists>s l. remove_port (Some k) d = Some (d\<lparr>sd_sel := s, sd_log := sd_log d @ l\<rparr>) \<and> sel_inv s R \<and> keys s = keys (sd_sel d) - {k} \<and>
    (\<forall>j. j \<noteq> k \<longrightarrow> port_set s j = port_set (sd_sel d) j) \<and> frontend l (selected (sd_sel d)) = selected s"
proof -
  from keys_lookup [OF assms(2)] obtain prt where prt: "map_of (ports (sd_sel d)) k = Some prt" by blast
  from remove_port_run [OF assms(1) prt] obtain s l where
    s: "selectorRemovePort (\<lambda>_. always) (\<lambda>_. always) (sd_sel d) (Some k) = Some (0, s, l)" "sel_inv s R"
      "frontend l (selected (sd_sel d)) = selected s" and v: "view s = filter (\<lambda>x. fst x \<noteq> k) (view (sd_sel d))" by blast
  have "keys s = keys (sd_sel d) - {k}" unfolding keys_view v by auto
  moreover have "map_of (filter (\<lambda>x. fst x \<noteq> k) vs) j = map_of vs j" if "j \<noteq> k" for j and vs :: "port_view list"
    using that by (induction vs) auto
  then have "port_set s j = port_set (sd_sel d) j" if "j \<noteq> k" for j
    unfolding port_set_view v using that by simp
  ultimately show ?thesis using s by (intro exI [of _ s] exI [of _ l]) (simp add: remove_port_def)
qed

lemma trks_fresh: "reg_inv d \<Longrightarrow> sd_trks d (sd_next d) = None" "reg_inv d \<Longrightarrow> sd_outs d (sd_next d) = None"
  by (auto simp: reg_inv_def objects_def)

lemma rec_ok_frame: "sd_trks d' (fr_trk r) = sd_trks d (fr_trk r) \<Longrightarrow> rec_ok d' ou r = rec_ok d ou r"
  by (simp add: rec_ok_def)

lemma rec_live: "reg_inv d \<Longrightarrow> sd_outs d ou = Some x \<Longrightarrow> r \<in> set (so_r x) \<Longrightarrow> rec_ok d ou r"
  by (auto simp: reg_inv_def out_ok_def)

lemma rec_dom: "rec_ok d ou r \<Longrightarrow> fr_trk r \<in> dom (sd_trks d)"
  by (auto simp: rec_ok_def)

text \<open>Packets handed back by an extractor.\<close>

lemma release_pks_ok:
  assumes "sel_inv (sd_sel d) (image_mset fst (mset pks) + R)"
  shows "\<exists>s. release_pks pks d = Some (d\<lparr>sd_sel := s\<rparr>) \<and> sel_inv s R \<and> ports s = ports (sd_sel d)"
  using assms
proof (induction pks arbitrary: d)
  case Nil
  then show ?case by (intro exI [of _ "sd_sel d"]) simp
next
  case (Cons p ps)
  then have "sel_inv (sd_sel d) (add_mset (fst p) (image_mset fst (mset ps) + R))" by simp
  from sel_release [OF this] obtain pl m n where
    s: "selector_release_element_internal (sd_sel d) (fst p) = Some ((sd_sel d)\<lparr>payload := pl, mem := m, num_buffers := n\<rparr>)"
    "sel_inv ((sd_sel d)\<lparr>payload := pl, mem := m, num_buffers := n\<rparr>) (image_mset fst (mset ps) + R)" by blast
  let ?d = "d\<lparr>sd_sel := (sd_sel d)\<lparr>payload := pl, mem := m, num_buffers := n\<rparr>\<rparr>"
  from Cons.IH [of ?d] s(2) obtain s' where
    "release_pks ps ?d = Some (?d\<lparr>sd_sel := s'\<rparr>)" "sel_inv s' R" "ports s' = ports (sd_sel d)" by auto
  with s(1) show ?case by (auto simp: svt_release_pk_def selectorReleaseElementUnsafe_def)
qed

lemma ports_frame: "ports s' = ports s \<Longrightarrow> keys s' = keys s \<and> port_set s' = port_set s \<and> selected s' = selected s"
  by (auto simp: keys_def port_set_def selected_def fun_eq_iff)

lemma sum_dom_split:
  assumes "finite (dom m)" "m a = Some b"
  shows "(\<Sum>x\<in>dom m. f x (m x)) = f a (Some b) + (\<Sum>x\<in>dom (m(a := None)). f x ((m(a := None)) x))"
proof -
  have "(\<Sum>x\<in>dom m. f x (m x)) = f a (m a) + (\<Sum>x\<in>dom (m(a := None)). f x (m x))"
    using assms by (simp add: sum.remove [of "dom m" a] domI)
  also have "(\<Sum>x\<in>dom (m(a := None)). f x (m x)) = (\<Sum>x\<in>dom (m(a := None)). f x ((m(a := None)) x))"
    by (intro sum.cong) auto
  finally show ?thesis using assms(2) by simp
qed

lemma held_split:
  assumes "finite (dom (sd_trks d))" "sd_trks d a = Some b"
  shows "held_pks d = image_mset fst (held (tk_ex (rc_body b))) + held_pks (d\<lparr>sd_trks := (sd_trks d)(a := None)\<rparr>)"
  using sum_dom_split [OF assms, of "\<lambda>x y. image_mset fst (held (tk_ex (rc_body (the y))))"] by (simp add: held_pks_def)

lemma held_add:
  assumes "finite (dom (sd_trks d))" "sd_trks d a = None" "sd_trks d' = (sd_trks d)(a \<mapsto> b)"
  shows "held_pks d' = image_mset fst (held (tk_ex (rc_body b))) + held_pks d"
proof -
  have "(sd_trks d')(a := None) = sd_trks d" using assms(2,3) by auto
  then have "held_pks (d'\<lparr>sd_trks := (sd_trks d')(a := None)\<rparr>) = held_pks d" by (simp add: held_pks_def)
  with held_split [of d' a b] assms(1,3) show ?thesis by simp
qed

lemma held_same: "sd_trks d' = sd_trks d \<Longrightarrow> held_pks d' = held_pks d"
  by (simp add: held_pks_def)

subsection \<open>A new tracker\<close>

abbreviation new_trk :: "u16 \<Rightarrow> nat \<Rightarrow> nat \<Rightarrow> svc_trk" where
  "new_trk pnr k ou \<equiv> \<lparr>tk_pnr = pnr, tk_pid = NO_PID, tk_input = Some k, tk_pmt0 = None, tk_pmt1 = None, tk_out = [ou], tk_ex = BNil\<rparr>"

abbreviation live1 :: "svc_trk \<Rightarrow> svc_trk rcblock" where
  "live1 t \<equiv> \<lparr>rc_ctr = 1, rc_id = RCPTR_ID, rc_body = t\<rparr>"

lemma index_of_new: "x \<notin> set xs \<Longrightarrow> index_of x xs = length xs"
  by (auto simp: index_of_def takeWhile_eq_all_conv intro: arg_cong [where f = length])

lemma index_of_mem: "x \<in> set xs \<Longrightarrow> index_of x xs < length xs \<and> xs ! index_of x xs = x"
  unfolding index_of_def by (metis (mono_tags, lifting) nth_length_takeWhile takeWhile_eq_all_conv length_takeWhile_le linorder_not_le nat_less_le takeWhile_eq_take take_all)

lemma add_func_new:
  assumes inv: "dmx_inv d H" and x: "sd_outs d ou = Some x" and new: "pnr \<notin> fr_pnr ` set (so_r x)"
    and sz: "length (so_r x) < 65535"
  shows "\<exists>s l k. add_func ou pnr func d = Some (d\<lparr>sd_next := Suc (sd_next d), sd_sel := s, sd_log := sd_log d @ l,
      sd_trks := (sd_trks d)(sd_next d \<mapsto> live1 (new_trk pnr k ou)),
      sd_outs := (sd_outs d)(ou \<mapsto> x\<lparr>so_r := so_r x @ [\<lparr>fr_pnr = pnr, fr_func = func, fr_trk = sd_next d\<rparr>]\<rparr>)\<rparr>) \<and>
    sel_inv s (held_pks d + H) \<and> k \<notin> keys (sd_sel d) \<and> keys s = insert k (keys (sd_sel d)) \<and>
    port_set s k = {0} \<and> (\<forall>j\<in>keys (sd_sel d). port_set s j = port_set (sd_sel d) j) \<and>
    frontend l (selected (sd_sel d)) = selected s"
proof -
  have reg: "reg_inv d" and sel: "sel_inv (sd_sel d) (held_pks d + H)" using inv by (simp_all add: dmx_inv_def)
  have root: "sd_root d = BNil" using reg by (simp add: reg_inv_def)
  obtain s0 kk where s0: "selectorAddPortSyncUnsafe always (sd_sel d) True = (s0, kk)" by force
  from add_port_run [OF sel s0] obtain k where k: "kk = Some k" "sel_inv s0 (held_pks d + H)" "selected s0 = selected (sd_sel d)"
    "k \<notin> keys (sd_sel d)" "view s0 = (k, 0, None, True, []) # view (sd_sel d)"
    by (auto simp: keys_def split: option.splits)
  have ks: "keys s0 = insert k (keys (sd_sel d))" unfolding keys_view k(5) by simp
  let ?t = "\<lparr>tk_pnr = pnr, tk_pid = NO_PID, tk_input = Some k, tk_pmt0 = None, tk_pmt1 = None, tk_out = [], tk_ex = BNil\<rparr>"
  let ?d = "d\<lparr>sd_next := Suc (sd_next d), sd_sel := s0, sd_trks := (sd_trks d)(sd_next d \<mapsto> live1 ?t)\<rparr>"
  have "pb_ok (Some [0]) 1" by (simp add: pb_ok_def)
  from mod_port_ok [of ?d "held_pks d + H" k "Some [0]" 1] k(2) ks this obtain s l where
    m: "mod_port (Some k) 1 (Some [0]) ?d = Some (?d\<lparr>sd_sel := s, sd_log := sd_log d @ l\<rparr>)" "sel_inv s (held_pks d + H)"
      "keys s = keys s0" "\<forall>j. port_set s j = (if j = k then {0} else port_set s0 j)" "frontend l (selected s0) = selected s"
    by auto
  have find: "find_or_new_svt d pnr = Some (sd_next d, ?d\<lparr>sd_sel := s, sd_log := sd_log d @ l\<rparr>)"
    using root s0 k(1) m(1)
    by (simp add: find_or_new_svt_def find_svt_def rcptrMalloc_def put_trk_def secExInit_def Let_def)
  have "port_set s0 j = port_set (sd_sel d) j" if "j \<noteq> k" for j
    unfolding port_set_view k(5) using that by simp
  then have ps: "\<forall>j\<in>keys (sd_sel d). port_set s j = port_set (sd_sel d) j" using m(4) k(4) by auto
  have "index_of pnr (map fr_pnr (so_r x)) = length (so_r x)" using new index_of_new [of pnr "map fr_pnr (so_r x)"] by simp
  then have "add_func ou pnr func d = Some (d\<lparr>sd_next := Suc (sd_next d), sd_sel := s, sd_log := sd_log d @ l,
      sd_trks := (sd_trks d)(sd_next d \<mapsto> live1 (new_trk pnr k ou)),
      sd_outs := (sd_outs d)(ou \<mapsto> x\<lparr>so_r := so_r x @ [\<lparr>fr_pnr = pnr, fr_func = func, fr_trk = sd_next d\<rparr>]\<rparr>)\<rparr>)"
    using x find by (simp add: add_func_def Let_def put_out_def put_trk_def get_trk_def)
  with k m(2,3,4,5) ks ps show ?thesis
    by (intro exI [of _ s] exI [of _ l] exI [of _ k]) simp
qed


lemma reg_inv_new:
  assumes reg: "reg_inv d" and x: "sd_outs d ou = Some x" and new: "pnr \<notin> fr_pnr ` set (so_r x)" and sz: "length (so_r x) < 65535"
    and d': "sd_root d' = BNil" "sd_outputs d' = sd_outputs d" "sd_next d' = Suc (sd_next d)"
      "sd_trks d' = (sd_trks d)(sd_next d \<mapsto> live1 (new_trk pnr k ou))"
      "sd_outs d' = (sd_outs d)(ou \<mapsto> x\<lparr>so_r := so_r x @ [\<lparr>fr_pnr = pnr, fr_func = func, fr_trk = sd_next d\<rparr>]\<rparr>)"
  shows "reg_inv d'"
proof -
  let ?r = "\<lparr>fr_pnr = pnr, fr_func = func, fr_trk = sd_next d\<rparr>"
  have fr: "sd_trks d (sd_next d) = None" "sd_outs d (sd_next d) = None" using trks_fresh [OF reg] by simp_all
  have ou: "ou \<noteq> sd_next d" using x fr by auto
  have old: "rec_ok d' ou' r" if "rec_ok d ou' r" for ou' r
  proof -
    have "fr_trk r \<noteq> sd_next d" using rec_dom [OF that] fr by auto
    then show ?thesis using that rec_ok_frame [of d' r d] d'(4) by simp
  qed
  have out: "out_ok d' ou' y" if "sd_outs d' ou' = Some y" for ou' y
  proof (cases "ou' = ou")
    case True
    have "rec_ok d' ou ?r" using d'(4) by (simp add: rec_ok_def)
    moreover have "out_ok d ou x" using reg x by (simp add: reg_inv_def)
    moreover have "y = x\<lparr>so_r := so_r x @ [?r]\<rparr>" using that True d'(5) by simp
    ultimately show ?thesis using True new sz old by (auto simp: out_ok_def)
  next
    case False
    then have "out_ok d ou' y" using reg that d'(5) by (simp add: reg_inv_def)
    then show ?thesis using old by (auto simp: out_ok_def)
  qed
  have cov: "\<exists>ou' y. sd_outs d' ou' = Some y \<and> a \<in> fr_trk ` set (so_r y)" if "a \<in> dom (sd_trks d')" for a
  proof (cases "a = sd_next d")
    case True
    with d'(5) show ?thesis by (intro exI [of _ ou] exI [of _ "x\<lparr>so_r := so_r x @ [?r]\<rparr>"]) simp
  next
    case False
    with that d'(4) have "a \<in> dom (sd_trks d)" by auto
    with reg obtain ou' y where y: "sd_outs d ou' = Some y" "a \<in> fr_trk ` set (so_r y)" unfolding reg_inv_def by blast
    show ?thesis
    proof (cases "ou' = ou")
      case True
      with y x have "a \<in> fr_trk ` set (so_r x)" by simp
      then show ?thesis using d'(5) by (intro exI [of _ ou] exI [of _ "x\<lparr>so_r := so_r x @ [?r]\<rparr>"]) simp
    next
      case False
      with y d'(5) show ?thesis by (intro exI [of _ ou'] exI [of _ y]) simp
    qed
  qed
  have tok: "trk_ok t" if "get_trk d' a = Some t" for a t
  proof (cases "a = sd_next d")
    case True
    with that d'(4) show ?thesis using secExInit_inv by (auto simp: get_trk_def trk_ok_def secExInit_def)
  next
    case False
    with that d'(4) have "get_trk d a = Some t" by (simp add: get_trk_def)
    with reg show ?thesis by (simp add: reg_inv_def)
  qed
  have lt: "a < sd_next d" if "a \<in> objects d" for a using reg that by (simp add: reg_inv_def)
  have "objects d' = insert (sd_next d) (objects d)" using d'(4,5) x by (auto simp: objects_def)
  then have "\<forall>a\<in>objects d'. a < sd_next d'" using lt d'(3) by (auto simp: less_Suc_eq)
  moreover have "dom (sd_outs d') = dom (sd_outs d)" "dom (sd_trks d') = insert (sd_next d) (dom (sd_trks d))"
    using x d'(4,5) by auto
  moreover have "sd_next d \<notin> dom (sd_outs d)" using fr by auto
  ultimately show ?thesis using reg d'(1,2) out cov tok unfolding reg_inv_def by simp
qed

lemma port_of_frame:
  "sd_outs d' a = sd_outs d a \<Longrightarrow> sd_trks d' a = sd_trks d a \<Longrightarrow> port_of d' a = port_of d a"
  by (simp add: port_of_def get_trk_def split: option.split)

lemma add_func_new_inv:
  assumes inv: "dmx_inv d H" and x: "sd_outs d ou = Some x" and new: "pnr \<notin> fr_pnr ` set (so_r x)"
    and sz: "length (so_r x) < 65535"
    and d': "d' = d\<lparr>sd_next := Suc (sd_next d), sd_sel := s, sd_log := sd_log d @ l,
      sd_trks := (sd_trks d)(sd_next d \<mapsto> live1 (new_trk pnr k ou)),
      sd_outs := (sd_outs d)(ou \<mapsto> x\<lparr>so_r := so_r x @ [\<lparr>fr_pnr = pnr, fr_func = func, fr_trk = sd_next d\<rparr>]\<rparr>)\<rparr>"
    and s: "sel_inv s (held_pks d + H)" "k \<notin> keys (sd_sel d)" "keys s = insert k (keys (sd_sel d))"
      "frontend l (selected (sd_sel d)) = selected s"
  shows "dmx_inv d' H"
proof -
  have reg: "reg_inv d" and port: "port_reg d" and log: "frontend (sd_log d) {} = selected (sd_sel d)"
    using inv by (simp_all add: dmx_inv_def)
  have fr: "sd_trks d (sd_next d) = None" "sd_outs d (sd_next d) = None" using trks_fresh [OF reg] by simp_all
  have fin: "finite (dom (sd_trks d))" using reg by (simp add: reg_inv_def)
  have reg': "reg_inv d'"
    by (rule reg_inv_new [OF reg x new sz]) (use reg in \<open>simp_all add: d' reg_inv_def\<close>)
  have "held_pks d' = held_pks d"
    using held_add [OF fin fr(1), of d' "live1 (new_trk pnr k ou)"] by (simp add: d' held_def)
  moreover have obj: "objects d' = insert (sd_next d) (objects d)" using x by (auto simp: d' objects_def)
  have same: "port_of d' a = port_of d a" if "a \<in> objects d" for a
  proof -
    have "a \<noteq> sd_next d" using that fr by (auto simp: objects_def)
    then show ?thesis using x by (cases "a = ou") (auto simp: d' port_of_def get_trk_def split: option.split)
  qed
  have "sd_next d \<noteq> ou" using fr(2) x by auto
  then have "port_of d' (sd_next d) = Some k" using fr by (simp add: d' port_of_def get_trk_def)
  moreover have "port_of d a \<noteq> Some k" if "a \<in> objects d" for a using port that s(2) by (auto simp: port_reg_def)
  moreover have "inj_on (port_of d') (objects d)" using port same by (simp add: port_reg_def inj_on_def)
  ultimately have "port_reg d'"
    using port s(3) same unfolding port_reg_def obj by (auto simp: d')
  with reg' \<open>held_pks d' = held_pks d\<close> s(1,4) log show ?thesis
    by (simp add: dmx_inv_def d' frontend_append)
qed


subsection \<open>Changing the functions of a record\<close>

text \<open>Updates of an output that keep its programmes and trackers.\<close>

lemma put_out_inv:
  assumes inv: "dmx_inv d H" and x: "sd_outs d ou = Some x"
    and y: "map fr_pnr (so_r y) = map fr_pnr (so_r x)" "map fr_trk (so_r y) = map fr_trk (so_r x)"
      "so_port y = so_port x" "hp_ok (so_hpids y) (so_n_hpids y)"
  shows "dmx_inv (put_out ou y d) H"
proof -
  let ?d = "put_out ou y d"
  have reg: "reg_inv d" using inv by (simp add: dmx_inv_def)
  have ox: "out_ok d ou x" using reg x by (simp add: reg_inv_def)
  have tr: "sd_trks ?d = sd_trks d" and ou: "sd_outs ?d = (sd_outs d)(ou \<mapsto> y)" by (simp_all add: put_out_def)
  have trk: "fr_trk ` set (so_r y) = fr_trk ` set (so_r x)" using y(2) by (metis list.set_map)
  have len: "length (so_r y) = length (so_r x)" using y(1) by (rule map_eq_imp_length_eq)
  have "rec_ok d ou r" if r: "r \<in> set (so_r y)" for r
  proof -
    from r obtain i where i: "i < length (so_r x)" "r = so_r y ! i" using len by (auto simp: in_set_conv_nth)
    have "map fr_pnr (so_r y) ! i = map fr_pnr (so_r x) ! i" "map fr_trk (so_r y) ! i = map fr_trk (so_r x) ! i"
      by (simp_all only: y)
    with i len have "fr_pnr r = fr_pnr (so_r x ! i)" "fr_trk r = fr_trk (so_r x ! i)" by simp_all
    moreover have "rec_ok d ou (so_r x ! i)" using ox i by (auto simp: out_ok_def)
    ultimately show ?thesis by (simp add: rec_ok_def)
  qed
  then have oy: "out_ok d ou y" using ox y len by (simp add: out_ok_def)
  have same: "out_ok ?d ou' z = out_ok d ou' z" for ou' z by (simp add: out_ok_def rec_ok_def tr)
  have dom: "dom (sd_outs ?d) = dom (sd_outs d)" using x by (auto simp: ou)
  then have obj: "objects ?d = objects d" by (simp add: objects_def tr)
  have port: "port_of ?d = port_of d" using x y(3) by (auto simp: port_of_def ou get_trk_def tr fun_eq_iff split: option.split)
  have cov: "\<exists>ou' z. sd_outs ?d ou' = Some z \<and> a \<in> fr_trk ` set (so_r z)" if "a \<in> dom (sd_trks d)" for a
  proof -
    from that reg obtain ou' z where z: "sd_outs d ou' = Some z" "a \<in> fr_trk ` set (so_r z)" unfolding reg_inv_def by blast
    show ?thesis
    proof (cases "ou' = ou")
      case True
      with z x trk have "a \<in> fr_trk ` set (so_r y)" by simp
      then show ?thesis unfolding ou by (intro exI [of _ ou] exI [of _ y]) simp
    next
      case False
      with z show ?thesis unfolding ou by (intro exI [of _ ou'] exI [of _ z]) simp
    qed
  qed
  have "reg_inv ?d" unfolding reg_inv_def same obj dom tr
  proof (intro conjI)
    show "\<forall>ou' z. sd_outs ?d ou' = Some z \<longrightarrow> out_ok d ou' z" using reg oy unfolding ou by (auto simp: reg_inv_def)
    show "\<forall>a\<in>dom (sd_trks d). \<exists>ou' z. sd_outs ?d ou' = Some z \<and> a \<in> fr_trk ` set (so_r z)" using cov by blast
  qed (use reg in \<open>simp_all add: reg_inv_def put_out_def get_trk_def\<close>)
  then show ?thesis
    using inv by (simp add: dmx_inv_def port_reg_def obj port held_same [OF tr]) (simp add: put_out_def)
qed

text \<open>The programmes of an output and their functions.\<close>

definition progs :: "svc_out \<Rightarrow> (u16 \<times> u16) list" where
  "progs x = map (\<lambda>r. (fr_pnr r, fr_func r)) (so_r x)"

definition add_prog :: "u16 \<Rightarrow> u16 \<Rightarrow> (u16 \<times> u16) list \<Rightarrow> (u16 \<times> u16) list" where
  "add_prog pnr func l =
     (if pnr \<in> fst ` set l then map (\<lambda>(p, f). (p, if p = pnr then func else f)) l else l @ [(pnr, func)])"

definition rmv_prog :: "u16 \<Rightarrow> u16 \<Rightarrow> (u16 \<times> u16) list \<Rightarrow> (u16 \<times> u16) list" where
  "rmv_prog pnr func l =
     filter (\<lambda>(p, f). p \<noteq> pnr \<or> f \<noteq> 0) (map (\<lambda>(p, f). (p, if p = pnr then f AND NOT func else f)) l)"

lemma progs_update:
  assumes "distinct (map fr_pnr rs)" "i < length rs" "fr_pnr (rs ! i) = pnr"
  shows "map (\<lambda>r. (fr_pnr r, fr_func r)) (rs[i := (rs ! i)\<lparr>fr_func := v\<rparr>]) =
    map (\<lambda>(p, f). (p, if p = pnr then v else f)) (map (\<lambda>r. (fr_pnr r, fr_func r)) rs)"
proof (rule nth_equalityI)
  fix j assume "j < length (map (\<lambda>r. (fr_pnr r, fr_func r)) (rs[i := (rs ! i)\<lparr>fr_func := v\<rparr>]))"
  then have j: "j < length rs" by simp
  have "fr_pnr (rs ! j) = pnr \<longleftrightarrow> j = i"
    using assms j by (metis length_map nth_eq_iff_index_eq nth_map)
  then show "map (\<lambda>r. (fr_pnr r, fr_func r)) (rs[i := (rs ! i)\<lparr>fr_func := v\<rparr>]) ! j =
      map (\<lambda>(p, f). (p, if p = pnr then v else f)) (map (\<lambda>r. (fr_pnr r, fr_func r)) rs) ! j"
    using j assms(3) by (simp add: nth_list_update)
qed simp


subsection \<open>Releasing a tracker\<close>

lemma set_utlRmv: "i < length xs \<Longrightarrow> set xs - {xs ! i} \<subseteq> set (utlRmv xs i)" "set (utlRmv xs i) \<subseteq> set xs"
proof -
  assume "i < length xs"
  then have "set xs = set (take i xs) \<union> {xs ! i} \<union> set (drop (Suc i) xs)"
    by (metis id_take_nth_drop list.set(2) set_append Un_insert_right insert_is_Un sup_assoc sup_bot_right)
  with \<open>i < length xs\<close> show "set xs - {xs ! i} \<subseteq> set (utlRmv xs i)" by (auto simp: utlRmv_def)
qed (auto simp: utlRmv_def dest: in_set_takeD in_set_dropD)

lemma map_utlRmv: "map f (utlRmv xs i) = utlRmv (map f xs) i"
  by (simp add: utlRmv_def take_map drop_map)

lemma distinct_utlRmv: "distinct xs \<Longrightarrow> distinct (utlRmv xs i)"
  unfolding utlRmv_def using set_take_disj_set_drop_if_distinct [of xs i "Suc i"] by auto

lemma nth_not_utlRmv: "distinct xs \<Longrightarrow> i < length xs \<Longrightarrow> xs ! i \<notin> set (utlRmv xs i)"
  unfolding utlRmv_def by (auto simp: in_set_conv_nth nth_eq_iff_index_eq)

lemma release_ok:
  assumes sel: "sel_inv (sd_sel d) (image_mset fst (held (tk_ex t)) + R)" and root: "sd_root d = BNil"
    and a: "sd_trks d a = Some (live1 t)" and t: "tk_out t = []" "trk_ok t" "tk_input t = Some k" "k \<in> keys (sd_sel d)"
  shows "\<exists>s l. svt_release a d = Some (d\<lparr>sd_trks := (sd_trks d)(a := None), sd_sel := s, sd_log := sd_log d @ l\<rparr>) \<and>
    sel_inv s R \<and> keys s = keys (sd_sel d) - {k} \<and> (\<forall>j. j \<noteq> k \<longrightarrow> port_set s j = port_set (sd_sel d) j) \<and>
    frontend l (selected (sd_sel d)) = selected s"
proof -
  obtain ex pks where e: "secExClear (tk_ex t) = (ex, pks)" by force
  have pks: "mset pks = held (tk_ex t)" using flush_held [of "tk_ex t"] t(2) e by (auto simp: trk_ok_def)
  from release_pks_ok [of d pks R] sel pks obtain s0 where
    s0: "release_pks pks d = Some (d\<lparr>sd_sel := s0\<rparr>)" "sel_inv s0 R" "ports s0 = ports (sd_sel d)" by auto
  note fr = ports_frame [OF s0(3)]
  let ?t = "t\<lparr>tk_ex := ex\<rparr>"
  let ?d1 = "d\<lparr>sd_sel := s0, sd_trks := (sd_trks d)(a \<mapsto> live1 ?t)\<rparr>"
  from remove_port_ok [of ?d1 R k] s0(2) fr t(4) obtain s l where
    r: "remove_port (Some k) ?d1 = Some (?d1\<lparr>sd_sel := s, sd_log := sd_log d @ l\<rparr>)" "sel_inv s R"
      "keys s = keys (sd_sel d) - {k}" "\<forall>j. j \<noteq> k \<longrightarrow> port_set s j = port_set (sd_sel d) j"
      "frontend l (selected (sd_sel d)) = selected s" by auto
  from clear_pmts [of "tk_pmt0 t"] t(2) obtain p0 f0 where p0: "clear_tbl (tk_pmt0 t) = Some (0, p0, f0)" by (auto simp: trk_ok_def)
  from clear_pmts [of "tk_pmt1 t"] t(2) obtain p1 f1 where p1: "clear_tbl (tk_pmt1 t) = Some (0, p1, f1)" by (auto simp: trk_ok_def)
  have d1: "put_trk a ?t (d\<lparr>sd_sel := s0\<rparr>)\<lparr>sd_root := BNil\<rparr> = ?d1" using a root by (simp add: put_trk_def)
  let ?t' = "?t\<lparr>tk_input := None, tk_pmt0 := None, tk_pmt1 := None\<rparr>"
  have clr: "svt_clear a ?d1 = Some (?d1\<lparr>sd_sel := s, sd_log := sd_log d @ l, sd_trks := (sd_trks d)(a \<mapsto> live1 ?t')\<rparr>)"
    using t r(1) p0 p1 by (simp add: svt_clear_def get_trk_def put_trk_def)
  have rc: "rcptrRefcount (sd_trks d) a = Some 1" using a by (simp add: rcptrRefcount_def)
  have "sd_root (put_trk a ?t (d\<lparr>sd_sel := s0\<rparr>)) = BNil" using root by (simp add: put_trk_def)
  then have "svt_release a d = Some (d\<lparr>sd_trks := (sd_trks d)(a := None), sd_sel := s, sd_log := sd_log d @ l\<rparr>)"
    using a rc e s0(1) clr d1
    by (simp add: svt_release_def get_trk_def tree_unlink_def Let_def rcptrRelease_def)
  with r show ?thesis by (intro exI [of _ s] exI [of _ l]) simp
qed

lemma remove_tracker_ok:
  assumes inv: "dmx_inv d H" and x: "sd_outs d ou = Some x" and i: "i < length (so_r x)"
  shows "\<exists>s l k. remove_tracker ou i d = Some (d\<lparr>sd_outs := (sd_outs d)(ou \<mapsto> x\<lparr>so_r := utlRmv (so_r x) i\<rparr>),
      sd_trks := (sd_trks d)(fr_trk (so_r x ! i) := None), sd_sel := s, sd_log := sd_log d @ l\<rparr>) \<and>
    dmx_inv (d\<lparr>sd_outs := (sd_outs d)(ou \<mapsto> x\<lparr>so_r := utlRmv (so_r x) i\<rparr>),
      sd_trks := (sd_trks d)(fr_trk (so_r x ! i) := None), sd_sel := s, sd_log := sd_log d @ l\<rparr>) H \<and>
    port_of d (fr_trk (so_r x ! i)) = Some k \<and> (\<forall>j. j \<noteq> k \<longrightarrow> port_set s j = port_set (sd_sel d) j)"
proof -
  let ?r = "so_r x ! i"
  let ?a = "fr_trk ?r"
  have reg: "reg_inv d" and pr: "port_reg d" and sel: "sel_inv (sd_sel d) (held_pks d + H)"
    and log: "frontend (sd_log d) {} = selected (sd_sel d)" using inv by (simp_all add: dmx_inv_def)
  have ri: "?r \<in> set (so_r x)" using i by simp
  from rec_live [OF reg x ri] obtain t where t: "sd_trks d ?a = Some (live1 t)" "tk_pnr t = fr_pnr ?r" "tk_out t = [ou]"
    by (auto simp: rec_ok_def)
  have ox: "out_ok d ou x" using reg x by (simp add: reg_inv_def)
  have gt: "get_trk d ?a = Some t" using t(1) by (simp add: get_trk_def)
  have tok: "trk_ok t" using reg gt unfolding reg_inv_def by blast
  have fin: "finite (dom (sd_trks d))" and root: "sd_root d = BNil" and outs: "dom (sd_outs d) = set (sd_outputs d)"
    and dis: "set (sd_outputs d) \<inter> dom (sd_trks d) = {}" using reg by (simp_all add: reg_inv_def)
  have ana: "sd_outs d ?a = None" using t(1) outs dis by (metis domIff domI disjoint_iff)
  have aobj: "?a \<in> objects d" using t(1) by (auto simp: objects_def)
  from pr aobj obtain k where k: "port_of d ?a = Some k" "k \<in> keys (sd_sel d)" unfolding port_reg_def by blast
  then have inp: "tk_input t = Some k" using ana gt by (simp add: port_of_def)
  have held: "held_pks d = image_mset fst (held (tk_ex t)) + held_pks (d\<lparr>sd_trks := (sd_trks d)(?a := None)\<rparr>)"
    using held_split [OF fin t(1)] by simp
  let ?R = "held_pks (d\<lparr>sd_trks := (sd_trks d)(?a := None)\<rparr>) + H"
  let ?x = "x\<lparr>so_r := utlRmv (so_r x) i\<rparr>" and ?t = "t\<lparr>tk_out := []\<rparr>"
  let ?d1 = "d\<lparr>sd_outs := (sd_outs d)(ou \<mapsto> ?x), sd_trks := (sd_trks d)(?a \<mapsto> live1 ?t)\<rparr>"
  have "sel_inv (sd_sel d) (image_mset fst (held (tk_ex t)) + ?R)" using sel held by (simp add: add.assoc)
  with release_ok [of ?d1 ?t ?R ?a k] root tok inp k(2) obtain s l where
    s: "svt_release ?a ?d1 = Some (?d1\<lparr>sd_trks := (sd_trks d)(?a := None), sd_sel := s, sd_log := sd_log d @ l\<rparr>)"
      "sel_inv s ?R" "keys s = keys (sd_sel d) - {k}" "\<forall>j. j \<noteq> k \<longrightarrow> port_set s j = port_set (sd_sel d) j"
      "frontend l (selected (sd_sel d)) = selected s"
    by (auto simp: trk_ok_def)
  let ?d = "d\<lparr>sd_outs := (sd_outs d)(ou \<mapsto> ?x), sd_trks := (sd_trks d)(?a := None), sd_sel := s, sd_log := sd_log d @ l\<rparr>"
  have "index_of ou [ou] = 0" "utlRmv [ou] 0 = []" by (simp_all add: index_of_def utlRmv_def)
  moreover have "put_trk ?a ?t (put_out ou ?x d) = ?d1" using t(1) by (simp add: put_trk_def put_out_def)
  moreover have "get_trk (put_out ou ?x d) ?a = Some t" using gt by (simp add: get_trk_def put_out_def)
  ultimately have run: "remove_tracker ou i d = Some ?d"
    using x i t(3) s(1) by (simp add: remove_tracker_def rd_def Let_def)
  text \<open>records that stay\<close>
  have keep: "rec_ok ?d ou' r" if "sd_outs d ou' = Some y" "r \<in> set (so_r y)" "ou' = ou \<longrightarrow> r \<in> set (so_r ?x)" for ou' y r
  proof -
    have ok: "rec_ok d ou' r" using rec_live [OF reg that(1,2)] .
    have "fr_trk r \<noteq> ?a"
    proof
      assume eq: "fr_trk r = ?a"
      with ok t have "ou' = ou" "fr_pnr r = fr_pnr ?r" by (auto simp: rec_ok_def)
      from that(3) \<open>ou' = ou\<close> have "r \<in> set (utlRmv (so_r x) i)" by simp
      then have "fr_pnr r \<in> fr_pnr ` set (utlRmv (so_r x) i)" by (rule imageI)
      with \<open>fr_pnr r = fr_pnr ?r\<close> have "fr_pnr ?r \<in> fr_pnr ` set (utlRmv (so_r x) i)" by simp
      then have "map fr_pnr (so_r x) ! i \<in> set (utlRmv (map fr_pnr (so_r x)) i)" using i by (simp flip: map_utlRmv)
      with nth_not_utlRmv [of "map fr_pnr (so_r x)" i] ox i show False by (simp add: out_ok_def)
    qed
    with ok rec_ok_frame [of ?d r d] show ?thesis by simp
  qed
  have out: "out_ok ?d ou' y" if y: "sd_outs ?d ou' = Some y" for ou' y
  proof (cases "ou' = ou")
    case True
    with y have yx: "y = ?x" by simp
    have "\<forall>r\<in>set (so_r ?x). rec_ok ?d ou r" using keep [OF x] set_utlRmv(2) [of "so_r x" i] by auto
    moreover have "distinct (map fr_pnr (so_r ?x))" using ox by (simp add: map_utlRmv distinct_utlRmv out_ok_def)
    moreover have "length (so_r x) < 65536" using ox by (simp add: out_ok_def)
    then have "length (so_r ?x) < 65536" using i by (simp add: utlRmv_def)
    ultimately show ?thesis using ox True yx by (simp add: out_ok_def)
  next
    case False
    with y have y': "sd_outs d ou' = Some y" by simp
    then have "out_ok d ou' y" using reg by (simp add: reg_inv_def)
    with keep [OF y'] False show ?thesis by (simp add: out_ok_def)
  qed
  have cov: "\<exists>ou' y. sd_outs ?d ou' = Some y \<and> b \<in> fr_trk ` set (so_r y)" if b: "b \<in> dom (sd_trks ?d)" for b
  proof -
    have b': "b \<in> dom (sd_trks d)" "b \<noteq> ?a" using b by (auto split: if_splits)
    with reg obtain ou' y where y: "sd_outs d ou' = Some y" "b \<in> fr_trk ` set (so_r y)" unfolding reg_inv_def by blast
    show ?thesis
    proof (cases "ou' = ou")
      case True
      with y x b' have "b \<in> fr_trk ` set (so_r ?x)" using set_utlRmv(1) [OF i] by force
      then show ?thesis by (intro exI [of _ ou] exI [of _ ?x]) simp
    next
      case False
      with y show ?thesis by (intro exI [of _ ou'] exI [of _ y]) simp
    qed
  qed
  have tk: "trk_ok t'" if "get_trk ?d b = Some t'" for b t'
  proof -
    have "get_trk d b = Some t'" using that by (simp add: get_trk_def split: if_splits)
    then show ?thesis using reg unfolding reg_inv_def by blast
  qed
  have od: "dom (sd_outs ?d) = dom (sd_outs d)" using x by auto
  have obj: "objects ?d = objects d - {?a}" using x ana by (auto simp: objects_def)
  have "reg_inv ?d" unfolding reg_inv_def od obj
  proof (intro conjI)
    show "\<forall>ou' y. sd_outs ?d ou' = Some y \<longrightarrow> out_ok ?d ou' y" using out by blast
    show "\<forall>b\<in>dom (sd_trks ?d). \<exists>ou' y. sd_outs ?d ou' = Some y \<and> b \<in> fr_trk ` set (so_r y)" using cov by blast
    show "\<forall>b t'. get_trk ?d b = Some t' \<longrightarrow> trk_ok t'" using tk by blast
    show "finite (dom (sd_trks ?d))" using fin by simp
    show "\<forall>b\<in>objects d - {?a}. b < sd_next ?d" using reg by (simp add: reg_inv_def)
    show "set (sd_outputs ?d) \<inter> dom (sd_trks ?d) = {}" using dis by auto
  qed (use reg in \<open>simp_all add: reg_inv_def\<close>)
  moreover have same: "port_of ?d b = port_of d b" if "b \<in> objects d - {?a}" for b
    using that x by (auto simp: port_of_def get_trk_def split: option.split)
  have inj: "inj_on (port_of d) (objects d)" using pr by (simp add: port_reg_def)
  have "port_reg ?d" unfolding port_reg_def obj
  proof (intro conjI ballI)
    show "inj_on (port_of ?d) (objects d - {?a})"
      using inj same by (metis (no_types, lifting) inj_on_cong inj_on_diff)
    fix b assume b: "b \<in> objects d - {?a}"
    with pr obtain j where j: "port_of d b = Some j" "j \<in> keys (sd_sel d)" by (auto simp: port_reg_def)
    have "j \<noteq> k" using inj b aobj j(1) k(1) by (auto simp: inj_on_def)
    with j b same s(3) show "\<exists>j. port_of ?d b = Some j \<and> j \<in> keys (sd_sel ?d)" by auto
  qed
  moreover have "held_pks ?d = held_pks (d\<lparr>sd_trks := (sd_trks d)(?a := None)\<rparr>)" by (simp add: held_pks_def)
  ultimately have "dmx_inv ?d H" using s(2,5) log by (simp add: dmx_inv_def frontend_append)
  with run k(1) s(4) show ?thesis by (intro exI [of _ s] exI [of _ l] exI [of _ k]) blast
qed


subsection \<open>Adding and removing functions\<close>

text \<open>What an operation on the output \<open>ou\<close> leaves alone.\<close>

definition others_kept :: "nat \<Rightarrow> sw_dmx \<Rightarrow> sw_dmx \<Rightarrow> bool" where
  "others_kept ou d d' \<longleftrightarrow> sd_outputs d' = sd_outputs d \<and>
     (\<forall>ou' y. ou' \<noteq> ou \<longrightarrow> sd_outs d' ou' = sd_outs d ou' \<and>
       (sd_outs d ou' = Some y \<longrightarrow> port_set (sd_sel d') (so_port y) = port_set (sd_sel d) (so_port y) \<and>
         (\<forall>r\<in>set (so_r y). sd_trks d' (fr_trk r) = sd_trks d (fr_trk r))))"

lemma others_kept_refl [simp]: "others_kept ou d d"
  by (simp add: others_kept_def)

lemma others_kept_trans: "others_kept ou d d1 \<Longrightarrow> others_kept ou d1 d2 \<Longrightarrow> others_kept ou d d2"
  by (simp add: others_kept_def)

definition out_becomes :: "sw_dmx \<Rightarrow> nat \<Rightarrow> nat multiset \<Rightarrow> svc_out \<Rightarrow> (u16 \<times> u16) list \<Rightarrow> sw_dmx \<Rightarrow> bool" where
  "out_becomes d ou H x l d' \<longleftrightarrow> dmx_inv d' H \<and> others_kept ou d d' \<and>
     (\<exists>x'. sd_outs d' ou = Some x' \<and> progs x' = l \<and> so_port x' = so_port x \<and> so_hpids x' = so_hpids x \<and> so_n_hpids x' = so_n_hpids x)"

lemma progs_pnrs: "map fst (progs x) = map fr_pnr (so_r x)"
  by (simp add: progs_def)

lemma progs_index:
  assumes "pnr \<in> fr_pnr ` set (so_r x)"
  shows "index_of pnr (map fr_pnr (so_r x)) < length (so_r x)" "fr_pnr (so_r x ! index_of pnr (map fr_pnr (so_r x))) = pnr"
  using index_of_mem [of pnr "map fr_pnr (so_r x)"] assms by auto

lemma inv_out: "dmx_inv d H \<Longrightarrow> sd_outs d ou = Some x \<Longrightarrow> out_ok d ou x"
  by (simp add: dmx_inv_def reg_inv_def)

lemma inv_inj:
  assumes "dmx_inv d H" "a \<in> objects d" "b \<in> objects d" "port_of d a = port_of d b"
  shows "a = b"
  using assms by (auto simp: dmx_inv_def port_reg_def inj_on_def)

lemma map_update_same: "i < length rs \<Longrightarrow> f v = f (rs ! i) \<Longrightarrow> map f (rs[i := v]) = map f rs"
  by (simp add: map_update list_update_same_conv)

lemma put_out_becomes:
  assumes inv: "dmx_inv d H" and x: "sd_outs d ou = Some x"
    and y: "map fr_pnr (so_r y) = map fr_pnr (so_r x)" "map fr_trk (so_r y) = map fr_trk (so_r x)" "so_port y = so_port x"
      "so_hpids y = so_hpids x" "so_n_hpids y = so_n_hpids x"
  shows "out_becomes d ou H x (progs y) (put_out ou y d)"
proof -
  have "hp_ok (so_hpids y) (so_n_hpids y)" using inv_out [OF inv x] y by (simp add: out_ok_def)
  from put_out_inv [OF inv x y(1-3) this] y show ?thesis
    by (auto simp: out_becomes_def others_kept_def put_out_def)
qed

lemma add_func_ok:
  assumes inv: "dmx_inv d H" and x: "sd_outs d ou = Some x" and sz: "length (so_r x) < 65535"
  shows "\<exists>d'. add_func ou pnr func d = Some d' \<and> out_becomes d ou H x (add_prog pnr func (progs x)) d'"
proof (cases "pnr \<in> fr_pnr ` set (so_r x)")
  case True
  let ?i = "index_of pnr (map fr_pnr (so_r x))"
  let ?y = "x\<lparr>so_r := (so_r x)[?i := (so_r x ! ?i)\<lparr>fr_func := func\<rparr>]\<rparr>"
  note i = progs_index [OF True]
  have "pnr \<in> fst ` set (progs x)" using True by (force simp: progs_def)
  then have "progs ?y = add_prog pnr func (progs x)"
    using progs_update [of "so_r x" ?i pnr func] inv_out [OF inv x] i by (simp add: progs_def add_prog_def out_ok_def)
  moreover have "add_func ou pnr func d = Some (put_out ou ?y d)" using x i by (simp add: add_func_def Let_def)
  moreover have "out_becomes d ou H x (progs ?y) (put_out ou ?y d)"
    using i by (intro put_out_becomes [OF inv x]) (simp_all add: map_update_same)
  ultimately show ?thesis by simp
next
  case False
  from add_func_new [OF inv x False sz, of func] obtain s l k d' where d':
    "d' = (d\<lparr>sd_next := Suc (sd_next d), sd_sel := s, sd_log := sd_log d @ l,
      sd_trks := (sd_trks d)(sd_next d \<mapsto> live1 (new_trk pnr k ou)),
      sd_outs := (sd_outs d)(ou \<mapsto> x\<lparr>so_r := so_r x @ [\<lparr>fr_pnr = pnr, fr_func = func, fr_trk = sd_next d\<rparr>]\<rparr>)\<rparr>)"
    and n: "add_func ou pnr func d = Some d'" "sel_inv s (held_pks d + H)" "k \<notin> keys (sd_sel d)" "keys s = insert k (keys (sd_sel d))"
    "\<forall>j\<in>keys (sd_sel d). port_set s j = port_set (sd_sel d) j" "frontend l (selected (sd_sel d)) = selected s" by blast
  have reg: "reg_inv d" and pr: "port_reg d" using inv by (simp_all add: dmx_inv_def)
  have inv': "dmx_inv d' H" by (rule add_func_new_inv [OF inv x False sz d' n(2-4,6)])
  have "others_kept ou d d'" unfolding others_kept_def
  proof (intro conjI allI impI ballI)
    fix ou' y assume o': "ou' \<noteq> ou"
    then show "sd_outs d' ou' = sd_outs d ou'" by (simp add: d')
    assume y: "sd_outs d ou' = Some y"
    then have "ou' \<in> objects d" "port_of d ou' = Some (so_port y)" by (auto simp: objects_def port_of_def)
    with pr have "so_port y \<in> keys (sd_sel d)" by (auto simp: port_reg_def)
    then show "port_set (sd_sel d') (so_port y) = port_set (sd_sel d) (so_port y)" using n(5) by (simp add: d')
    fix r assume "r \<in> set (so_r y)"
    then have "sd_trks d (fr_trk r) \<noteq> None" using rec_dom [OF rec_live [OF reg y]] by auto
    then show "sd_trks d' (fr_trk r) = sd_trks d (fr_trk r)" using trks_fresh(1) [OF reg] by (auto simp: d')
  qed (simp add: d')
  moreover have "pnr \<notin> fst ` set (progs x)" using False by (force simp: progs_def)
  ultimately show ?thesis using n(1) inv'
    by (auto simp: out_becomes_def progs_def add_prog_def d')
qed

lemma remove_tracker_becomes:
  assumes inv: "dmx_inv d H" and x: "sd_outs d ou = Some x" and i: "i < length (so_r x)"
  shows "\<exists>d'. remove_tracker ou i d = Some d' \<and> out_becomes d ou H x (utlRmv (progs x) i) d' \<and>
    sd_outs d' ou = Some (x\<lparr>so_r := utlRmv (so_r x) i\<rparr>)"
proof -
  let ?a = "fr_trk (so_r x ! i)"
  from remove_tracker_ok [OF inv x i] obtain s l k d' where d':
    "d' = (d\<lparr>sd_outs := (sd_outs d)(ou \<mapsto> x\<lparr>so_r := utlRmv (so_r x) i\<rparr>),
      sd_trks := (sd_trks d)(?a := None), sd_sel := s, sd_log := sd_log d @ l\<rparr>)"
    and r: "remove_tracker ou i d = Some d'" "dmx_inv d' H" "port_of d ?a = Some k" "\<forall>j. j \<noteq> k \<longrightarrow> port_set s j = port_set (sd_sel d) j" by blast
  have reg: "reg_inv d" using inv by (simp add: dmx_inv_def)
  have ri: "rec_ok d ou (so_r x ! i)" using rec_live [OF reg x] i by simp
  have aobj: "?a \<in> objects d" using rec_dom [OF ri] by (auto simp: objects_def)
  have ana: "?a \<notin> dom (sd_outs d)" using rec_dom [OF ri] reg by (auto simp: reg_inv_def)
  have "others_kept ou d d'" unfolding others_kept_def
  proof (intro conjI allI impI ballI)
    fix ou' y assume o': "ou' \<noteq> ou"
    then show "sd_outs d' ou' = sd_outs d ou'" by (simp add: d')
    assume y: "sd_outs d ou' = Some y"
    then have "ou' \<in> objects d" "port_of d ou' = Some (so_port y)" "ou' \<noteq> ?a" using ana by (auto simp: objects_def port_of_def)
    with inv_inj [OF inv aobj, of ou'] r(3) have "so_port y \<noteq> k" by auto
    then show "port_set (sd_sel d') (so_port y) = port_set (sd_sel d) (so_port y)" using r(4) by (simp add: d')
    fix r assume "r \<in> set (so_r y)"
    then have "rec_ok d ou' r" using rec_live [OF reg y] by simp
    then have "fr_trk r \<noteq> ?a" using ri o' by (auto simp: rec_ok_def)
    then show "sd_trks d' (fr_trk r) = sd_trks d (fr_trk r)" by (simp add: d')
  qed (simp add: d')
  with r(1,2) show ?thesis by (auto simp: out_becomes_def progs_def map_utlRmv d')
qed

lemma utlRmv_filter:
  assumes "distinct (map fst l)" "i < length l" "l ! i = (p, 0)" "\<forall>j < length l. fst (l ! j) = p \<longrightarrow> j = i"
  shows "utlRmv l i = filter (\<lambda>(q, f). q \<noteq> p \<or> f \<noteq> (0 :: u16)) l"
proof -
  have l: "l = take i l @ (p, 0) # drop (Suc i) l" using assms(2,3) by (metis id_take_nth_drop)
  have "p \<notin> fst ` set (take i l) \<and> p \<notin> fst ` set (drop (Suc i) l)" using assms(1) by (subst (asm) l) auto
  then have "filter (\<lambda>(q, f). q \<noteq> p \<or> f \<noteq> 0) (take i l) = take i l"
    "filter (\<lambda>(q, f). q \<noteq> p \<or> f \<noteq> 0) (drop (Suc i) l) = drop (Suc i) l"
    by (auto simp: filter_id_conv image_iff)
  then have "filter (\<lambda>(q, f). q \<noteq> p \<or> f \<noteq> 0) (take i l @ (p, 0) # drop (Suc i) l) = utlRmv l i"
    using assms(2) by (simp add: utlRmv_def)
  with l show ?thesis by simp
qed

lemma rmv_func_ok:
  assumes inv: "dmx_inv d H" and x: "sd_outs d ou = Some x"
  shows "\<exists>d'. rmv_func ou pnr func d = Some d' \<and> out_becomes d ou H x (rmv_prog pnr func (progs x)) d'"
proof (cases "pnr \<in> fr_pnr ` set (so_r x)")
  case False
  then have "index_of pnr (map fr_pnr (so_r x)) = length (so_r x)" using index_of_new [of pnr "map fr_pnr (so_r x)"] by simp
  moreover have "rmv_prog pnr func (progs x) = progs x"
  proof -
    have "\<forall>(p, f)\<in>set (progs x). p \<noteq> pnr" using False by (auto simp: progs_def)
    then have "map (\<lambda>(p, f). (p, if p = pnr then f AND NOT func else f)) (progs x) = progs x"
      by (intro map_idI) auto
    then show ?thesis using \<open>\<forall>(p, f)\<in>set (progs x). p \<noteq> pnr\<close> by (auto simp: rmv_prog_def filter_id_conv)
  qed
  ultimately show ?thesis using inv x by (auto simp: rmv_func_def out_becomes_def)
next
  case True
  let ?i = "index_of pnr (map fr_pnr (so_r x))"
  let ?f = "fr_func (so_r x ! ?i) AND NOT func"
  let ?y = "x\<lparr>so_r := (so_r x)[?i := (so_r x ! ?i)\<lparr>fr_func := ?f\<rparr>]\<rparr>"
  note i = progs_index [OF True]
  have dst: "distinct (map fr_pnr (so_r x))" using inv_out [OF inv x] by (simp add: out_ok_def)
  have uniq: "fr_pnr (so_r x ! j) = pnr \<longleftrightarrow> j = ?i" if "j < length (so_r x)" for j
    using dst i that by (metis length_map nth_eq_iff_index_eq nth_map)
  have py: "progs ?y = map (\<lambda>(p, f). (p, if p = pnr then f AND NOT func else f)) (progs x)"
  proof (rule nth_equalityI)
    fix j assume "j < length (progs ?y)"
    then have j: "j < length (so_r x)" by (simp add: progs_def)
    then show "progs ?y ! j = map (\<lambda>(p, f). (p, if p = pnr then f AND NOT func else f)) (progs x) ! j"
      using uniq [OF j] i by (auto simp: progs_def nth_list_update)
  qed (simp add: progs_def)
  have b: "out_becomes d ou H x (progs ?y) (put_out ou ?y d)"
    using i by (intro put_out_becomes [OF inv x]) (simp_all add: map_update_same)
  have y: "sd_outs (put_out ou ?y d) ou = Some ?y" by (simp add: put_out_def)
  have ly: "length (progs ?y) = length (so_r x)" "distinct (map fst (progs ?y))"
    "\<forall>j < length (progs ?y). fst (progs ?y ! j) = pnr \<longrightarrow> j = ?i"
    using dst uniq unfolding py by (auto simp: progs_def comp_def case_prod_beta)
  show ?thesis
  proof (cases "?f = 0")
    case False
    have "(pnr, 0) \<notin> set (progs ?y)"
    proof
      assume "(pnr, 0) \<in> set (progs ?y)"
      then obtain j where j: "j < length (progs ?y)" "progs ?y ! j = (pnr, 0)" by (auto simp: in_set_conv_nth)
      with ly(3) have "j = ?i" by auto
      with j i False show False by (simp add: progs_def)
    qed
    then have "rmv_prog pnr func (progs x) = progs ?y" unfolding rmv_prog_def py [symmetric] by (auto simp: filter_id_conv)
    moreover have "rmv_func ou pnr func d = Some (put_out ou ?y d)" using x i False by (simp add: rmv_func_def Let_def)
    ultimately show ?thesis using b by simp
  next
    case True
    have inv': "dmx_inv (put_out ou ?y d) H" using b by (simp add: out_becomes_def)
    from remove_tracker_becomes [OF inv' y, of ?i] i obtain d' where
      d': "remove_tracker ou ?i (put_out ou ?y d) = Some d'" "out_becomes (put_out ou ?y d) ou H ?y (utlRmv (progs ?y) ?i) d'" by auto
    have "progs ?y ! ?i = (pnr, 0)" using i True by (simp add: progs_def)
    then have "utlRmv (progs ?y) ?i = rmv_prog pnr func (progs x)"
      using utlRmv_filter [OF ly(2), of ?i pnr] ly(1,3) i unfolding rmv_prog_def py [symmetric] by simp
    moreover have "rmv_func ou pnr func d = Some d'" using x i True d'(1) by (simp add: rmv_func_def Let_def)
    ultimately show ?thesis using b d'(2)
      by (auto simp: out_becomes_def intro: others_kept_trans)
  qed
qed


lemma out_becomes_trans:
  assumes "out_becomes d ou H x l d1" "\<And>x1. sd_outs d1 ou = Some x1 \<Longrightarrow> progs x1 = l \<Longrightarrow> out_becomes d1 ou H x1 l' d2"
  shows "out_becomes d ou H x l' d2"
proof -
  from assms(1) obtain x1 where x1: "others_kept ou d d1" "sd_outs d1 ou = Some x1" "progs x1 = l" "so_port x1 = so_port x"
    "so_hpids x1 = so_hpids x" "so_n_hpids x1 = so_n_hpids x" by (auto simp: out_becomes_def)
  from assms(2) [OF x1(2,3)] obtain x2 where "dmx_inv d2 H" "others_kept ou d1 d2" "sd_outs d2 ou = Some x2" "progs x2 = l'"
    "so_port x2 = so_port x1" "so_hpids x2 = so_hpids x1" "so_n_hpids x2 = so_n_hpids x1" by (auto simp: out_becomes_def)
  with x1 others_kept_trans [OF x1(1)] show ?thesis by (simp add: out_becomes_def)
qed

lemma becomes_out: "out_becomes d ou H x l d' \<Longrightarrow> \<exists>x'. sd_outs d' ou = Some x' \<and> progs x' = l \<and> dmx_inv d' H"
  by (auto simp: out_becomes_def)

lemma progs_length [simp]: "length (progs x) = length (so_r x)"
  by (simp add: progs_def)

lemma drop_zip_step:
  assumes "pb_ok p n" "pb_ok f n" "i < unat n"
  shows "drop i (zip (pids_of p) (pids_of f)) = (pids_of p ! i, pids_of f ! i) # drop (Suc i) (zip (pids_of p) (pids_of f))"
  using assms by (subst Cons_nth_drop_Suc [symmetric]) (simp_all add: pb_ok_def)

text \<open>A loop over two arrays whose step changes the programmes of an output as \<open>spec\<close> says.\<close>

lemma each_func_ok:
  assumes p: "pb_ok p n" "pb_ok f n" and i: "i \<le> unat n" and inv: "dmx_inv d H" "sd_outs d ou = Some x"
    and room: "length (progs x) + (unat n - i) \<le> M"
    and step: "\<And>d x a b. dmx_inv d H \<Longrightarrow> sd_outs d ou = Some x \<Longrightarrow> length (so_r x) < M \<Longrightarrow>
      \<exists>d'. op a b d = Some d' \<and> out_becomes d ou H x (spec a b (progs x)) d'"
    and grow: "\<And>a b l. length (spec a b l) \<le> Suc (length l)"
  shows "\<exists>d'. each_func op p f (unat n) i d = Some d' \<and>
    out_becomes d ou H x (fold (\<lambda>(a, b). spec a b) (drop i (zip (pids_of p) (pids_of f))) (progs x)) d'"
  using i inv room
proof (induction "unat n - i" arbitrary: i d x)
  case 0
  then have "drop i (zip (pids_of p) (pids_of f)) = []" using p by (simp add: pb_ok_def)
  with 0 show ?case by (auto simp: each_func.simps out_becomes_def)
next
  case (Suc m)
  then have lt: "i < unat n" by simp
  have "length (so_r x) < M" using Suc.prems(4) lt by simp
  from step [OF Suc.prems(2,3) this] obtain d1 where
    d1: "op (pids_of p ! i) (pids_of f ! i) d = Some d1" "out_becomes d ou H x (spec (pids_of p ! i) (pids_of f ! i) (progs x)) d1"
    by blast
  from becomes_out [OF d1(2)] obtain x1 where
    x1: "sd_outs d1 ou = Some x1" "progs x1 = spec (pids_of p ! i) (pids_of f ! i) (progs x)" "dmx_inv d1 H" by blast
  have "length (progs x1) + (unat n - Suc i) \<le> M"
    using grow [of "pids_of p ! i" "pids_of f ! i" "progs x"] Suc.prems(4) lt x1(2) by simp
  moreover have "m = unat n - Suc i" "Suc i \<le> unat n" using Suc.hyps(2) lt by simp_all
  ultimately obtain d2 where
    d2: "each_func op p f (unat n) (Suc i) d1 = Some d2"
      "out_becomes d1 ou H x1 (fold (\<lambda>(a, b). spec a b) (drop (Suc i) (zip (pids_of p) (pids_of f))) (progs x1)) d2"
    using Suc.hyps(1) [OF _ _ x1(3,1)] by blast
  have "out_becomes d ou H x (fold (\<lambda>(a, b). spec a b) (drop i (zip (pids_of p) (pids_of f))) (progs x)) d2"
    using out_becomes_trans [OF d1(2)] d2(2) x1 by (simp add: drop_zip_step [OF p lt])
  moreover have "each_func op p f (unat n) i d = Some d2"
    using lt cell_nth [OF p(1) lt] cell_nth [OF p(2) lt] d1(1) d2(1) by (simp add: each_func.simps [of op p f "unat n" i])
  ultimately show ?case by blast
qed

lemma length_add_prog: "length (add_prog a b l) \<le> Suc (length l)"
  by (simp add: add_prog_def)

lemma length_rmv_prog: "length (rmv_prog a b l) \<le> length l"
  unfolding rmv_prog_def by (rule order_trans [OF length_filter_le]) simp

lemma map_of_map_key: "map_of (map (\<lambda>(p, f). (p, g p f)) l) y = map_option (g y) (map_of l y)"
  by (induction l) auto

lemma map_of_add_prog: "map_of (add_prog a b l) = (map_of l)(a \<mapsto> b)"
proof
  fix y
  show "map_of (add_prog a b l) y = ((map_of l)(a \<mapsto> b)) y"
  proof (cases "a \<in> fst ` set l")
    case True
    then obtain v where "map_of l a = Some v" by (metis domD dom_map_of_conv_image_fst)
    with True show ?thesis
      using map_of_map_key [of "\<lambda>p f. if p = a then b else f" l y] by (cases "y = a") (auto simp: add_prog_def map_option.identity option.map_ident)
  next
    case False
    then have "map_of l a = None" by (simp add: map_of_eq_None_iff)
    with False show ?thesis by (auto simp: add_prog_def map_add_def split: option.split)
  qed
qed

definition cut :: "u16 \<Rightarrow> u16 option \<Rightarrow> u16 option" where
  "cut b v = (case v of None \<Rightarrow> None | Some g \<Rightarrow> if g AND NOT b = 0 then None else Some (g AND NOT b))"

lemma map_of_filter_key:
  "distinct (map fst l) \<Longrightarrow> map_of (filter P l) y = (case map_of l y of None \<Rightarrow> None | Some v \<Rightarrow> if P (y, v) then Some v else None)"
proof (induction l)
  case (Cons a l)
  have "fst a \<notin> fst ` set (filter P l)" using Cons.prems by auto
  then have "map_of (filter P l) (fst a) = None" by (simp add: map_of_eq_None_iff)
  with Cons show ?case by (cases a) (auto split: option.split)
qed simp

lemma keys_mapped: "map fst (map (\<lambda>(p, f). (p, g p f)) l) = map fst l"
  by (induction l) auto

lemma map_of_rmv_prog:
  assumes "distinct (map fst l)"
  shows "map_of (rmv_prog a b l) = (map_of l)(a := cut b (map_of l a))"
proof
  fix y
  let ?l = "map (\<lambda>(p, f). (p, if p = a then f AND NOT b else f)) l"
  have "distinct (map fst ?l)" using assms by (simp only: keys_mapped)
  then show "map_of (rmv_prog a b l) y = ((map_of l)(a := cut b (map_of l a))) y"
    unfolding rmv_prog_def using map_of_map_key [of "\<lambda>p f. if p = a then f AND NOT b else f" l y]
    by (auto simp: map_of_filter_key cut_def option.map_ident split: option.split)
qed

lemma distinct_rmv_prog: "distinct (map fst l) \<Longrightarrow> distinct (map fst (rmv_prog a b l))"
  unfolding rmv_prog_def by (rule distinct_map_filter) (simp only: keys_mapped)

lemma distinct_add_prog: "distinct (map fst l) \<Longrightarrow> distinct (map fst (add_prog a b l))"
  by (cases "a \<in> fst ` set l") (simp_all only: add_prog_def if_True if_False keys_mapped, simp_all)


lemma map_of_fold_add:
  "distinct (map fst zs) \<Longrightarrow>
    map_of (fold (\<lambda>(a, b). add_prog a b) zs l) y = (case map_of zs y of None \<Rightarrow> map_of l y | Some b \<Rightarrow> Some b)"
proof (induction zs arbitrary: l)
  case (Cons z zs)
  obtain a b where z: "z = (a, b)" by force
  have "map_of zs a = None" using Cons.prems z by (auto simp: map_of_eq_None_iff)
  with Cons z show ?case by (auto simp: map_of_add_prog split: option.split)
qed simp

lemma map_of_fold_rmv:
  "distinct (map fst zs) \<Longrightarrow> distinct (map fst l) \<Longrightarrow>
    map_of (fold (\<lambda>(a, b). rmv_prog a b) zs l) y = (case map_of zs y of None \<Rightarrow> map_of l y | Some b \<Rightarrow> cut b (map_of l y))"
proof (induction zs arbitrary: l)
  case (Cons z zs)
  obtain a b where z: "z = (a, b)" by force
  have "map_of zs a = None" using Cons.prems z by (auto simp: map_of_eq_None_iff)
  with Cons z show ?case
    by (auto simp: map_of_rmv_prog distinct_rmv_prog split: option.split)
qed simp

lemma distinct_fold_add: "distinct (map fst l) \<Longrightarrow> distinct (map fst (fold (\<lambda>(a, b). add_prog a b) zs l))"
  by (induction zs arbitrary: l) (auto simp: distinct_add_prog)

lemma length_fold_add: "length (fold (\<lambda>(a, b). add_prog a b) zs l) \<le> length l + length zs"
proof (induction zs arbitrary: l)
  case (Cons z zs)
  obtain a b where z: "z = (a, b)" by force
  have "length (fold (\<lambda>(a, b). add_prog a b) zs (add_prog a b l)) \<le> length (add_prog a b l) + length zs" by (rule Cons.IH)
  with length_add_prog [of a b l] z show ?case by simp
qed simp

text \<open>What becomes of a programme with the functions \<open>va\<close> before when \<open>vb\<close> is asked for.\<close>

definition func_after :: "u16 option \<Rightarrow> u16 option \<Rightarrow> u16 option" where
  "func_after va vb = (case vb of
     None \<Rightarrow> None
   | Some b \<Rightarrow> (case va of None \<Rightarrow> Some b | Some a \<Rightarrow> Some (if NOT a AND b \<noteq> 0 then NOT a AND b else b)))"

lemma map_of_missing: "map_of (missing pa fa pb) y =
    (if y \<in> set (pids_of pa) \<and> y \<notin> set (pids_of pb) then Some (func_of pa fa y) else None)"
proof -
  have "map_of (map (\<lambda>x. (x, g x)) xs) y = (if y \<in> set xs then Some (g y) else None)" for g :: "u16 \<Rightarrow> u16" and xs
    by (induction xs) auto
  then show ?thesis by (auto simp: missing_def)
qed

lemma map_of_changes: "map_of (changes ch fa fb xs B) y =
    (if y \<in> set xs \<and> y \<in> B \<and> ch (fa y) (fb y) \<noteq> 0 then Some (ch (fa y) (fb y)) else None)"
  by (induction xs) (auto simp: changes_Cons, simp_all add: changes_def)

lemma fst_changes: "fst ` set (changes ch fa fb xs B) \<subseteq> set xs \<inter> B"
  by (auto simp: changes_def)

lemma distinct_changes: "distinct xs \<Longrightarrow> distinct (map fst (changes ch fa fb xs B))"
  using fst_changes [of ch fa fb _ B] by (induction xs) (auto simp: changes_Cons, simp_all add: changes_def)

lemma distinct_missing: "distinct (pids_of pa) \<Longrightarrow> map fst (missing pa fa pb) = filter (\<lambda>x. x \<notin> set (pids_of pb)) (pids_of pa)"
  by (simp add: missing_def comp_def)

lemma word_bits:
  fixes a b :: u16
  shows "(NOT a AND b) AND NOT (a AND NOT b) = NOT a AND b" "NOT a AND b = 0 \<Longrightarrow> a AND NOT (a AND NOT b) = b"
    "a AND NOT b = 0 \<Longrightarrow> NOT a AND b = 0 \<Longrightarrow> a = b"
  by (auto simp: bit_eq_iff bit_and_iff bit_or_iff bit_not_iff)

lemma map_of_zip_full:
  "length xs = length ys \<Longrightarrow> map_of (zip xs ys) y = (if y \<in> set xs then Some (the (map_of (zip xs ys) y)) else None)"
  using map_of_zip_is_None [of xs ys y] by (cases "map_of (zip xs ys) y") auto

text \<open>The programmes of an output after the loops of \<open>svtOutMod\<close>.\<close>

lemma transition_progs:
  assumes A: "distinct (pids_of pa)" "l = zip (pids_of pa) (pids_of fa)" "length (pids_of pa) = length (pids_of fa)"
    and B: "distinct (pids_of pb)" "length (pids_of pb) = length (pids_of fb)" "0 \<notin> set (pids_of fb)"
  shows "map_of (fold (\<lambda>(a, b). rmv_prog a b) (missing pa fa pb @ changed bits_gone pa fa pb fb)
      (fold (\<lambda>(a, b). add_prog a b) (missing pb fb pa @ changed bits_new pa fa pb fb) l)) y =
    func_after (map_of l y) (map_of (zip (pids_of pb) (pids_of fb)) y)"
proof -
  let ?fa = "func_of pa fa" and ?fb = "func_of pb fb" and ?A = "set (pids_of pa)" and ?B = "set (pids_of pb)"
  have la: "map_of l y = (if y \<in> ?A then Some (?fa y) else None)"
    unfolding A(2) func_of_def by (rule map_of_zip_full [OF A(3)])
  have lb: "map_of (zip (pids_of pb) (pids_of fb)) y = (if y \<in> ?B then Some (?fb y) else None)"
    unfolding func_of_def by (rule map_of_zip_full [OF B(2)])
  have nz: "?fb y \<noteq> 0" if "y \<in> ?B"
  proof -
    have "map_of (zip (pids_of pb) (pids_of fb)) y = Some (?fb y)" using lb that by simp
    then have "?fb y \<in> set (pids_of fb)" by (metis map_of_SomeD set_zip_rightD)
    with B(3) show ?thesis by metis
  qed
  have add: "map_of (missing pb fb pa @ changed bits_new pa fa pb fb) y =
      (if y \<in> ?B \<and> y \<notin> ?A then Some (?fb y) else if y \<in> ?A \<and> y \<in> ?B \<and> NOT (?fa y) AND ?fb y \<noteq> 0 then Some (NOT (?fa y) AND ?fb y) else None)"
    by (auto simp: map_of_missing map_of_changes map_add_def)
  have rmv: "map_of (missing pa fa pb @ changed bits_gone pa fa pb fb) y =
      (if y \<in> ?A \<and> y \<notin> ?B then Some (?fa y) else if y \<in> ?A \<and> y \<in> ?B \<and> ?fa y AND NOT (?fb y) \<noteq> 0 then Some (?fa y AND NOT (?fb y)) else None)"
    by (auto simp: map_of_missing map_of_changes map_add_def)
  have d1: "distinct (map fst (missing pb fb pa @ changed bits_new pa fa pb fb))"
    using A(1) B(1) distinct_changes [OF A(1)] fst_changes [of bits_new ?fa ?fb "pids_of pa" ?B] by (auto simp: distinct_missing missing_def comp_def)
  have d2: "distinct (map fst (missing pa fa pb @ changed bits_gone pa fa pb fb))"
    using A(1) B(1) distinct_changes [OF A(1)] fst_changes [of bits_gone ?fa ?fb "pids_of pa" ?B] by (auto simp: distinct_missing missing_def comp_def)
  have dl: "distinct (map fst l)" using A by simp
  let ?l = "fold (\<lambda>(a, b). add_prog a b) (missing pb fb pa @ changed bits_new pa fa pb fb) l"
  have l1: "map_of ?l y = (case map_of (missing pb fb pa @ changed bits_new pa fa pb fb) y of None \<Rightarrow> map_of l y | Some b \<Rightarrow> Some b)"
    by (rule map_of_fold_add [OF d1])
  show ?thesis
    unfolding map_of_fold_rmv [OF d2 distinct_fold_add [OF dl]] rmv l1 add la lb
    using nz word_bits [of "?fa y" "?fb y"]
    by (auto simp: func_after_def cut_def)
qed

end
