(* ===== verification/SvtOps.thy ===== *)
theory SvtOps
  imports SvtInv
begin

text \<open>
  The operations of the service tracker (stream/svt.c) as a whole: the port of an output
  carries the PIDs of its services and the PIDs asked for directly.
\<close>

subsection \<open>The PIDs of an output\<close>

definition record_pids :: "sw_dmx \<Rightarrow> func_rec \<Rightarrow> u16 set" where
  "record_pids d r = (case get_trk d (fr_trk r) of
     None \<Rightarrow> {}
   | Some t \<Rightarrow> service_pids (fr_func r) (tk_pmt0 t) (tk_pmt1 t) (tk_pid t))"

definition wanted :: "sw_dmx \<Rightarrow> svc_out \<Rightarrow> u16 set" where
  "wanted d x = (\<Union>r\<in>set (so_r x). record_pids d r)"

text \<open>The port of every output carries what the output wants.\<close>

definition routed :: "sw_dmx \<Rightarrow> bool" where
  "routed d \<longleftrightarrow> (\<forall>ou x. sd_outs d ou = Some x \<longrightarrow> port_set (sd_sel d) (so_port x) = wanted d x \<union> set (pids_of (so_hpids x)))"

lemma rec_trk: "rec_ok d ou r \<Longrightarrow> \<exists>t. get_trk d (fr_trk r) = Some t"
  by (auto simp: rec_ok_def get_trk_def)

lemma out_pids_run:
  assumes "\<forall>r\<in>set rs. rec_ok d ou r" "\<forall>a t. get_trk d a = Some t \<longrightarrow> trk_ok t" "pidset_ok s"
  shows "\<exists>s'. out_pids d rs s = Some s' \<and> pidset_ok s' \<and> pidset s' = pidset s \<union> (\<Union>r\<in>set rs. record_pids d r)"
  using assms(1,3)
proof (induction rs arbitrary: s)
  case (Cons r rs)
  from Cons.prems(1) rec_trk obtain t where t: "get_trk d (fr_trk r) = Some t" by fastforce
  with assms(2) have "trk_ok t" by blast
  with get_pids_for_func_run [OF Cons.prems(2), of "tk_pmt0 t" "tk_pmt1 t" "tk_pid t" "fr_func r"] obtain s1 where
    s1: "get_pids_for_func always s (tk_pmt0 t) (tk_pmt1 t) (tk_pid t) (fr_func r) = Some s1" "pidset_ok s1"
      "pidset s1 = pidset s \<union> record_pids d r" using t by (auto simp: trk_ok_def record_pids_def)
  with Cons.IH [OF _ s1(2)] Cons.prems(1) t show ?case by (auto simp: Un_assoc)
qed simp

lemma merge_total:
  assumes "pidset_ok (a, n)" "hp_ok b nb"
  shows "\<exists>c nc. pidbufMergeUniq True True a n b nb 0 = Some (c, nc) \<and> pb_ok c nc \<and>
    set (pids_of c) = set (pids_of a) \<union> set (pids_of b) \<and> (\<forall>x\<in>set (pids_of c). unat x < 8192)"
proof -
  have ok: "pb_ok a n" "pb_ok b nb" "unat n + unat nb < 65536"
    using assms pidset_small [OF assms(1)] by (auto simp: pidset_ok_def hp_ok_def)
  have small: "\<forall>x\<in>set (pids_of a) \<union> set (pids_of b). unat x < 8192" using assms by (auto simp: pidset_ok_def hp_ok_def)
  show ?thesis
  proof (cases "n + nb = 0")
    case True
    have "unat (n + nb) = unat n + unat nb" using ok(3) by (simp add: unat_word_ariths)
    with True have "n = 0" "nb = 0" by (auto simp: unat_eq_zero)
    with ok(1,2) show ?thesis by (auto simp: pb_ok_def pidbufMergeUniq_def utlCalloc16_def)
  next
    case False
    from pidbufMergeUniq_ok [OF ok False, of 0] small show ?thesis by (auto simp: foldl_add_uniq)
  qed
qed

text \<open>The PIDs of a port of the demultiplexer are replaced.\<close>

lemma mod_port_inv:
  assumes "dmx_inv d H" "k \<in> keys (sd_sel d)" "pb_ok ps n" "\<forall>x\<in>set (pids_of ps). unat x < 8192"
  shows "\<exists>s l. mod_port (Some k) n ps d = Some (d\<lparr>sd_sel := s, sd_log := sd_log d @ l\<rparr>) \<and>
    dmx_inv (d\<lparr>sd_sel := s, sd_log := sd_log d @ l\<rparr>) H \<and>
    (\<forall>j. port_set s j = (if j = k then set (pids_of ps) else port_set (sd_sel d) j))"
proof -
  from assms(1) have inv: "reg_inv d" "port_reg d" "sel_inv (sd_sel d) (held_pks d + H)" "frontend (sd_log d) {} = selected (sd_sel d)"
    by (simp_all add: dmx_inv_def)
  from mod_port_ok [OF inv(3) assms(2-)] obtain s l where
    s: "mod_port (Some k) n ps d = Some (d\<lparr>sd_sel := s, sd_log := sd_log d @ l\<rparr>)" "sel_inv s (held_pks d + H)"
      "keys s = keys (sd_sel d)" "\<forall>j. port_set s j = (if j = k then set (pids_of ps) else port_set (sd_sel d) j)"
      "frontend l (selected (sd_sel d)) = selected s" by blast
  have "port_reg (d\<lparr>sd_sel := s, sd_log := sd_log d @ l\<rparr>)"
    using inv(2) s(3) by (simp add: port_reg_def port_of_def)
  moreover have "held_pks (d\<lparr>sd_sel := s, sd_log := sd_log d @ l\<rparr>) = held_pks d" by (rule held_same) simp
  ultimately have "dmx_inv (d\<lparr>sd_sel := s, sd_log := sd_log d @ l\<rparr>) H"
    using inv s by (simp add: dmx_inv_def frontend_append)
  with s show ?thesis by blast
qed

lemma out_port:
  assumes "dmx_inv d H" "sd_outs d ou = Some x"
  shows "so_port x \<in> keys (sd_sel d)"
proof -
  have "ou \<in> objects d" "port_of d ou = Some (so_port x)" using assms(2) by (auto simp: objects_def port_of_def)
  with assms(1) show ?thesis unfolding dmx_inv_def port_reg_def by fastforce
qed

lemma ports_apart:
  assumes "dmx_inv d H" "sd_outs d ou = Some x" "sd_outs d ou' = Some y" "ou' \<noteq> ou"
  shows "so_port y \<noteq> so_port x"
proof
  assume "so_port y = so_port x"
  with assms(2,3) have "port_of d ou = port_of d ou'" by (simp add: port_of_def)
  moreover have "ou \<in> objects d" "ou' \<in> objects d" using assms(2,3) by (auto simp: objects_def)
  ultimately show False using assms(1,4) by (auto simp: dmx_inv_def port_reg_def dest: inj_onD)
qed

text \<open>The part that \<open>refresh_output\<close> and \<open>svtOutMod\<close> share.\<close>

lemma set_output:
  assumes inv: "dmx_inv d H" "sd_outs d ou = Some x" and ps: "hp_ok ps n"
  shows "\<exists>svc n_svc tot n_tot s l. get_out_pids d x = Some (svc, n_svc) \<and> pidbufMergeUniq True True svc n_svc ps n 0 = Some (tot, n_tot) \<and>
    mod_port (Some (so_port x)) n_tot tot d = Some (d\<lparr>sd_sel := s, sd_log := sd_log d @ l\<rparr>) \<and>
    dmx_inv (d\<lparr>sd_sel := s, sd_log := sd_log d @ l\<rparr>) H \<and>
    (\<forall>j. port_set s j = (if j = so_port x then wanted d x \<union> set (pids_of ps) else port_set (sd_sel d) j))"
proof -
  from inv have rec: "\<forall>r\<in>set (so_r x). rec_ok d ou r" "\<forall>a t. get_trk d a = Some t \<longrightarrow> trk_ok t"
    by (auto simp: dmx_inv_def reg_inv_def out_ok_def)
  have "pidset_ok (None, 0)" by (simp add: pidset_ok_def pb_ok_def)
  from out_pids_run [OF rec this] obtain svc n_svc where
    svc: "get_out_pids d x = Some (svc, n_svc)" "pidset_ok (svc, n_svc)" "set (pids_of svc) = wanted d x"
    by (auto simp: get_out_pids_def wanted_def)
  from merge_total [OF svc(2) ps] obtain tot n_tot where
    tot: "pidbufMergeUniq True True svc n_svc ps n 0 = Some (tot, n_tot)" "pb_ok tot n_tot"
      "set (pids_of tot) = set (pids_of svc) \<union> set (pids_of ps)" "\<forall>x\<in>set (pids_of tot). unat x < 8192" by blast
  from mod_port_inv [OF inv(1) out_port [OF inv] tot(2,4)] tot(3) svc(3) obtain s l where
    "mod_port (Some (so_port x)) n_tot tot d = Some (d\<lparr>sd_sel := s, sd_log := sd_log d @ l\<rparr>)"
    "dmx_inv (d\<lparr>sd_sel := s, sd_log := sd_log d @ l\<rparr>) H"
    "\<forall>j. port_set s j = (if j = so_port x then wanted d x \<union> set (pids_of ps) else port_set (sd_sel d) j)" by auto
  with svc(1) tot(1) show ?thesis by blast
qed

lemma refresh_output_ok:
  assumes inv: "dmx_inv d H" "sd_outs d ou = Some x"
  shows "\<exists>s l. refresh_output ou d = Some (d\<lparr>sd_sel := s, sd_log := sd_log d @ l\<rparr>) \<and>
    dmx_inv (d\<lparr>sd_sel := s, sd_log := sd_log d @ l\<rparr>) H \<and>
    (\<forall>j. port_set s j = (if j = so_port x then wanted d x \<union> set (pids_of (so_hpids x)) else port_set (sd_sel d) j))"
proof -
  have "hp_ok (so_hpids x) (so_n_hpids x)" using inv_out [OF inv] by (simp add: out_ok_def)
  from set_output [OF inv this] obtain svc n_svc tot n_tot s l where
    "get_out_pids d x = Some (svc, n_svc)" "pidbufMergeUniq True True svc n_svc (so_hpids x) (so_n_hpids x) 0 = Some (tot, n_tot)"
    "mod_port (Some (so_port x)) n_tot tot d = Some (d\<lparr>sd_sel := s, sd_log := sd_log d @ l\<rparr>)"
    "dmx_inv (d\<lparr>sd_sel := s, sd_log := sd_log d @ l\<rparr>) H"
    "\<forall>j. port_set s j = (if j = so_port x then wanted d x \<union> set (pids_of (so_hpids x)) else port_set (sd_sel d) j)" by blast
  then show ?thesis using inv(2) by (intro exI [of _ s] exI [of _ l]) (simp add: refresh_output_def)
qed

subsection \<open>Changing an output\<close>

lemma current_funcset:
  assumes "out_ok d ou x" "get_current_funcs x = (fa, pa, na)"
  shows "funcset pa fa na" "progs x = zip (pids_of pa) (pids_of fa)" "unat na = length (so_r x)"
    "length (pids_of pa) = length (pids_of fa)"
proof -
  from assms(1) have "distinct (map fr_pnr (so_r x))" "length (so_r x) < 65536" by (simp_all add: out_ok_def)
  with assms(2) show "funcset pa fa na" "progs x = zip (pids_of pa) (pids_of fa)" "unat na = length (so_r x)"
    "length (pids_of pa) = length (pids_of fa)"
    by (auto simp: get_current_funcs_def funcset_def pb_ok_def progs_def unat_of_nat zip_map_map zip_same_conv_map
      word_unat_eq_iff split: if_splits)
qed

text \<open>No two of the changes of the functions of programmes that stay are equal, and none is
  equal to the functions of a programme that is removed or added as a whole.\<close>

definition clash_free :: "svc_out \<Rightarrow> pid_array \<Rightarrow> pid_array \<Rightarrow> bool" where
  "clash_free x pnrs funcs \<longleftrightarrow> (let (fa, pa, na) = get_current_funcs x in
     distinct (map snd (changed bits_gone pa fa pnrs funcs)) \<and> distinct (map snd (changed bits_new pa fa pnrs funcs)) \<and>
     set (map snd (changed bits_gone pa fa pnrs funcs)) \<inter> snd ` set (missing pa fa pnrs) = {} \<and>
     set (map snd (changed bits_new pa fa pnrs funcs)) \<inter> snd ` set (missing pnrs funcs pa) = {})"

lemma wanted_frame: "sd_trks d' = sd_trks d \<Longrightarrow> wanted d' x = wanted d x"
  by (simp add: wanted_def record_pids_def get_trk_def)

lemma others_kept_port:
  assumes "dmx_inv d H" "sd_outs d ou = Some x" "sd_outputs d' = sd_outputs d" "sd_trks d' = sd_trks d" "sd_outs d' = (sd_outs d)(ou \<mapsto> y)"
    "\<forall>j. j \<noteq> so_port x \<longrightarrow> port_set (sd_sel d') j = port_set (sd_sel d) j"
  shows "others_kept ou d d'"
  unfolding others_kept_def using assms ports_apart [OF assms(1,2)] by auto

text \<open>The loops over the functions to add and to remove.\<close>

lemma add_funcs_ok:
  assumes p: "pb_ok p n" "pb_ok f n" and inv: "dmx_inv d H" "sd_outs d ou = Some x" and sz: "length (so_r x) + unat n < 65536"
  shows "\<exists>d'. each_func (add_func ou) p f (unat n) 0 d = Some d' \<and>
    out_becomes d ou H x (fold (\<lambda>(a, b). add_prog a b) (zip (pids_of p) (pids_of f)) (progs x)) d'"
proof -
  have "0 \<le> unat n" "length (progs x) + (unat n - 0) \<le> 65535" using sz by simp_all
  from each_func_ok [where op = "add_func ou" and spec = add_prog, OF p this(1) inv this(2) add_func_ok length_add_prog]
  show ?thesis by simp
qed

lemma rmv_funcs_ok:
  assumes p: "pb_ok p n" "pb_ok f n" and inv: "dmx_inv d H" "sd_outs d ou = Some x"
  shows "\<exists>d'. each_func (rmv_func ou) p f (unat n) 0 d = Some d' \<and>
    out_becomes d ou H x (fold (\<lambda>(a, b). rmv_prog a b) (zip (pids_of p) (pids_of f)) (progs x)) d'"
proof -
  have "0 \<le> unat n" "length (progs x) + (unat n - 0) \<le> length (progs x) + unat n" by simp_all
  from each_func_ok [where op = "rmv_func ou" and spec = rmv_prog, OF p this(1) inv this(2) rmv_func_ok le_SucI [OF length_rmv_prog]]
  show ?thesis by simp
qed

lemma additions_small:
  assumes "distinct (pids_of pa)" "distinct (pids_of pb)"
  shows "length (missing pb fb pa @ changed ch pa fa pb fb) \<le> length (pids_of pb)"
proof -
  let ?l = "map fst (missing pb fb pa @ changed ch pa fa pb fb)"
  note sub = fst_changes [of ch "func_of pa fa" "func_of pb fb" "pids_of pa" "set (pids_of pb)"]
  have "distinct ?l"
    using assms sub distinct_changes [OF assms(1)] by (auto simp: distinct_missing missing_def comp_def)
  then have "length ?l = card (set ?l)" by (rule distinct_card [symmetric])
  also have "\<dots> \<le> card (set (pids_of pb))" using sub by (intro card_mono) (auto simp: missing_def)
  also have "\<dots> \<le> length (pids_of pb)" by (rule card_length)
  finally show ?thesis by simp
qed

lemma svtOutMod_ok:
  assumes inv: "dmx_inv d H" and x: "sd_outs d ou = Some x" and fs: "funcset pnrs funcs n" "0 \<notin> set (pids_of funcs)"
    and sz: "length (so_r x) + unat n < 65536" and ps: "hp_ok ps np" and cf: "clash_free x pnrs funcs"
  shows "\<exists>d' x'. svtOutMod ou n pnrs funcs np ps d = Some (0, d') \<and> dmx_inv d' H \<and> others_kept ou d d' \<and> sd_outs d' ou = Some x' \<and>
    so_hpids x' = ps \<and> so_n_hpids x' = np \<and>
    (\<forall>y. map_of (progs x') y = func_after (map_of (progs x) y) (map_of (zip (pids_of pnrs) (pids_of funcs)) y)) \<and>
    port_set (sd_sel d') (so_port x') = wanted d' x' \<union> set (pids_of ps)"
proof -
  obtain fa pa na where cur: "get_current_funcs x = (fa, pa, na)" by (metis prod_cases3)
  note pa = current_funcset [OF inv_out [OF inv x] cur]
  have len: "unat na + unat n < 65536" "unat n + unat na < 65536" using sz pa(3) by simp_all
  from cf have cf': "distinct (map snd (changed bits_gone pa fa pnrs funcs))" "distinct (map snd (changed bits_new pa fa pnrs funcs))"
     "set (map snd (changed bits_gone pa fa pnrs funcs)) \<inter> snd ` set (missing pa fa pnrs) = {}"
     "set (map snd (changed bits_new pa fa pnrs funcs)) \<inter> snd ` set (missing pnrs funcs pa) = {}"
    by (simp_all add: clash_free_def cur)
  from funcs_remove_run [OF pa(1) fs(1) len(1) cf'(1,3)] obtain fr pr nr where
    r: "get_funcs_to_remove always fa pa na funcs pnrs n = Some (fr, pr, nr)" "pb_ok fr nr" "pb_ok pr nr"
      "zip (pids_of pr) (pids_of fr) = missing pa fa pnrs @ changed bits_gone pa fa pnrs funcs" by blast
  from funcs_add_run [OF pa(1) fs(1) len(1) cf'(2,4)] obtain fd pd nd where
    a: "get_funcs_to_add always fa pa na funcs pnrs n = Some (fd, pd, nd)" "pb_ok fd nd" "pb_ok pd nd"
      "zip (pids_of pd) (pids_of fd) = missing pnrs funcs pa @ changed bits_new pa fa pnrs funcs" by blast
  have nd: "unat nd \<le> unat n"
  proof -
    have "unat nd = length (zip (pids_of pd) (pids_of fd))" using a(2,3) by (simp add: pb_ok_def)
    also have "\<dots> \<le> length (pids_of pnrs)" unfolding a(4) using pa(1) fs by (intro additions_small) (simp_all add: funcset_def)
    also have "\<dots> = unat n" using fs by (simp add: funcset_def pb_ok_def)
    finally show ?thesis .
  qed
  from add_funcs_ok [OF a(3,2) inv x] nd sz obtain d1 where
    d1: "each_func (add_func ou) pd fd (unat nd) 0 d = Some d1"
      "out_becomes d ou H x (fold (\<lambda>(a, b). add_prog a b) (zip (pids_of pd) (pids_of fd)) (progs x)) d1" by auto
  from d1(2) obtain x1 where x1: "dmx_inv d1 H" "others_kept ou d d1" "sd_outs d1 ou = Some x1" "so_port x1 = so_port x"
    "progs x1 = fold (\<lambda>(a, b). add_prog a b) (zip (pids_of pd) (pids_of fd)) (progs x)" by (auto simp: out_becomes_def)
  from rmv_funcs_ok [OF r(3,2) x1(1,3)] obtain d2 where
    d2: "each_func (rmv_func ou) pr fr (unat nr) 0 d1 = Some d2"
      "out_becomes d1 ou H x1 (fold (\<lambda>(a, b). rmv_prog a b) (zip (pids_of pr) (pids_of fr)) (progs x1)) d2" by blast
  from d2(2) obtain x2 where x2: "dmx_inv d2 H" "others_kept ou d1 d2" "sd_outs d2 ou = Some x2"
    "progs x2 = fold (\<lambda>(a, b). rmv_prog a b) (zip (pids_of pr) (pids_of fr)) (progs x1)" by (auto simp: out_becomes_def)
  have after: "map_of (progs x2) y = func_after (map_of (progs x) y) (map_of (zip (pids_of pnrs) (pids_of funcs)) y)" for y
    unfolding x2(4) x1(5) r(4) a(4) using pa fs
    by (intro transition_progs) (auto simp: funcset_def pb_ok_def)
  from set_output [OF x2(1,3) ps] obtain svc n_svc tot n_tot s l where
    o: "get_out_pids d2 x2 = Some (svc, n_svc)" "pidbufMergeUniq True True svc n_svc ps np 0 = Some (tot, n_tot)"
      "mod_port (Some (so_port x2)) n_tot tot d2 = Some (d2\<lparr>sd_sel := s, sd_log := sd_log d2 @ l\<rparr>)"
      "dmx_inv (d2\<lparr>sd_sel := s, sd_log := sd_log d2 @ l\<rparr>) H"
      "\<forall>j. port_set s j = (if j = so_port x2 then wanted d2 x2 \<union> set (pids_of ps) else port_set (sd_sel d2) j)" by blast
  let ?d3 = "d2\<lparr>sd_sel := s, sd_log := sd_log d2 @ l\<rparr>" and ?x = "x2\<lparr>so_hpids := ps, so_n_hpids := np\<rparr>"
  let ?d = "put_out ou ?x ?d3"
  have "pidbufDup True ps np = Some ps" using ps by (intro pidbufDup_ok) (simp add: hp_ok_def)
  then have "svtOutMod ou n pnrs funcs np ps d = Some (0, ?d)"
    using x r(1) a(1) d1(1) d2(1) x2(3) o(1,2,3) by (simp add: svtOutMod_def cur)
  moreover have "dmx_inv ?d H" using x2(3) ps by (intro put_out_inv [OF o(4)]) auto
  moreover have "others_kept ou d2 ?d" using x2(3) o(5)
    by (intro others_kept_port [OF x2(1,3), where y = ?x]) (simp_all add: put_out_def)
  then have "others_kept ou d ?d" using x1(2) x2(2) others_kept_trans by blast
  moreover have "sd_outs ?d ou = Some ?x" by (simp add: put_out_def)
  moreover have "port_set (sd_sel ?d) (so_port ?x) = wanted ?d ?x \<union> set (pids_of ps)"
    using o(5) by (simp add: put_out_def wanted_def record_pids_def get_trk_def)
  moreover have "map_of (progs ?x) y = func_after (map_of (progs x) y) (map_of (zip (pids_of pnrs) (pids_of funcs)) y)" for y
    using after by (simp add: progs_def)
  ultimately show ?thesis by (intro exI [of _ ?d] exI [of _ ?x]) auto
qed

lemma record_pids_same: "sd_trks d' (fr_trk r) = sd_trks d (fr_trk r) \<Longrightarrow> record_pids d' r = record_pids d r"
  by (simp add: record_pids_def get_trk_def)

text \<open>An operation on one output leaves the others routed.\<close>

lemma routed_others:
  assumes "routed d" "others_kept ou d d'"
    and "\<And>x. sd_outs d' ou = Some x \<Longrightarrow> port_set (sd_sel d') (so_port x) = wanted d' x \<union> set (pids_of (so_hpids x))"
  shows "routed d'"
  unfolding routed_def
proof (intro allI impI)
  fix o' x assume x: "sd_outs d' o' = Some x"
  show "port_set (sd_sel d') (so_port x) = wanted d' x \<union> set (pids_of (so_hpids x))"
  proof (cases "o' = ou")
    case True
    with assms(3) x show ?thesis by simp
  next
    case False
    have k: "sd_outs d' o' = sd_outs d o' \<and> (sd_outs d o' = Some x \<longrightarrow> port_set (sd_sel d') (so_port x) = port_set (sd_sel d) (so_port x) \<and>
        (\<forall>r\<in>set (so_r x). sd_trks d' (fr_trk r) = sd_trks d (fr_trk r)))"
      using assms(2) [unfolded others_kept_def, THEN conjunct2, THEN spec [of _ o'], THEN spec [of _ x]] False by blast
    with x have o: "sd_outs d o' = Some x" by metis
    with k have p: "port_set (sd_sel d') (so_port x) = port_set (sd_sel d) (so_port x)"
      "\<forall>r\<in>set (so_r x). sd_trks d' (fr_trk r) = sd_trks d (fr_trk r)" by blast+
    from p(2) have "wanted d' x = wanted d x" unfolding wanted_def by (intro SUP_cong refl record_pids_same) blast
    with o p(1) assms(1) show ?thesis by (simp add: routed_def)
  qed
qed

subsection \<open>Outputs come and go\<close>

lemma svtOutAdd_ok:
  assumes inv: "dmx_inv d H"
  shows "\<exists>d' k. svtOutAdd d = Some (sd_next d, d') \<and> dmx_inv d' H \<and> sd_trks d' = sd_trks d \<and> sd_outs d (sd_next d) = None \<and>
    sd_outs d' = (sd_outs d)(sd_next d \<mapsto> \<lparr>so_port = k, so_n_hpids = 0, so_hpids = None, so_r = []\<rparr>) \<and>
    port_set (sd_sel d') k = {} \<and> (\<forall>j\<in>keys (sd_sel d). port_set (sd_sel d') j = port_set (sd_sel d) j)"
proof -
  have reg: "reg_inv d" and pr: "port_reg d" and sel: "sel_inv (sd_sel d) (held_pks d + H)"
    and log: "frontend (sd_log d) {} = selected (sd_sel d)" using inv by (simp_all add: dmx_inv_def)
  have fr: "sd_trks d (sd_next d) = None" "sd_outs d (sd_next d) = None" using trks_fresh [OF reg] by simp_all
  obtain s kk where s: "selectorAddPortSyncUnsafe always (sd_sel d) False = (s, kk)" by force
  from add_port_run [OF sel s] obtain k where k: "kk = Some k" "sel_inv s (held_pks d + H)" "selected s = selected (sd_sel d)"
    "k \<notin> keys (sd_sel d)" "view s = (k, 0, None, False, []) # view (sd_sel d)"
    by (auto simp: keys_def split: option.splits)
  have ks: "keys s = insert k (keys (sd_sel d))" unfolding keys_view k(5) by simp
  let ?x = "\<lparr>so_port = k, so_n_hpids = 0, so_hpids = None, so_r = []\<rparr>"
  let ?d = "d\<lparr>sd_next := Suc (sd_next d), sd_sel := s, sd_outputs := sd_next d # sd_outputs d,
    sd_outs := (sd_outs d)(sd_next d \<mapsto> ?x)\<rparr>"
  have run: "svtOutAdd d = Some (sd_next d, ?d)" using s k(1) by (simp add: svtOutAdd_def selectorAddPortUnsafe_def Let_def)
  have new: "port_set s k = {}" unfolding port_set_view k(5) by simp
  have old: "port_set s j = port_set (sd_sel d) j" if "j \<noteq> k" for j unfolding port_set_view k(5) using that by simp
  have obj: "objects ?d = insert (sd_next d) (objects d)" by (auto simp: objects_def)
  have nin: "sd_next d \<notin> objects d" using fr by (auto simp: objects_def)
  have same: "port_of ?d a = port_of d a" if "a \<in> objects d" for a
    using that nin by (auto simp: port_of_def get_trk_def split: option.split)
  have own: "port_of ?d (sd_next d) = Some k" by (simp add: port_of_def)
  have out: "out_ok ?d ou y" if "sd_outs ?d ou = Some y" for ou y
  proof (cases "ou = sd_next d")
    case True
    with that have "y = ?x" by simp
    then show ?thesis by (simp add: out_ok_def hp_ok_def pb_ok_def)
  next
    case False
    with that have "out_ok d ou y" using reg by (simp add: reg_inv_def)
    then show ?thesis by (simp add: out_ok_def rec_ok_def)
  qed
  have cov: "\<exists>ou y. sd_outs ?d ou = Some y \<and> a \<in> fr_trk ` set (so_r y)" if "a \<in> dom (sd_trks d)" for a
  proof -
    from that reg obtain ou y where y: "sd_outs d ou = Some y" "a \<in> fr_trk ` set (so_r y)" unfolding reg_inv_def by blast
    moreover from y fr(2) have "ou \<noteq> sd_next d" by auto
    ultimately show ?thesis by (intro exI [of _ ou] exI [of _ y]) simp
  qed
  have outs: "set (sd_outputs d) = dom (sd_outs d)" using reg by (simp add: reg_inv_def)
  have "reg_inv ?d" unfolding reg_inv_def
  proof (intro conjI)
    show "\<forall>ou y. sd_outs ?d ou = Some y \<longrightarrow> out_ok ?d ou y" using out by blast
    show "\<forall>a\<in>dom (sd_trks ?d). \<exists>ou y. sd_outs ?d ou = Some y \<and> a \<in> fr_trk ` set (so_r y)" using cov by simp
    show "\<forall>a\<in>objects ?d. a < sd_next ?d" unfolding obj using reg by (auto simp: reg_inv_def)
    show "distinct (sd_outputs ?d)" using reg fr(2) outs by (auto simp: reg_inv_def)
    show "dom (sd_outs ?d) = set (sd_outputs ?d)" using outs by simp
    show "set (sd_outputs ?d) \<inter> dom (sd_trks ?d) = {}" using reg fr(1) by (auto simp: reg_inv_def)
    show "\<forall>a t. get_trk ?d a = Some t \<longrightarrow> trk_ok t" using reg by (simp add: reg_inv_def get_trk_def)
  qed (use reg in \<open>simp_all add: reg_inv_def\<close>)
  moreover have "port_reg ?d" unfolding port_reg_def obj
  proof (intro conjI)
    have apart: "port_of d a \<noteq> Some k" if "a \<in> objects d" for a using pr that k(4) by (auto simp: port_reg_def)
    have "port_of ?d (sd_next d) \<notin> port_of ?d ` (objects d - {sd_next d})"
    proof
      assume "port_of ?d (sd_next d) \<in> port_of ?d ` (objects d - {sd_next d})"
      then obtain a where "a \<in> objects d" "port_of ?d a = Some k" unfolding own by fastforce
      with same apart show False by metis
    qed
    moreover have "inj_on (port_of ?d) (objects d)" using pr same by (simp add: port_reg_def inj_on_def)
    ultimately show "inj_on (port_of ?d) (insert (sd_next d) (objects d))" unfolding inj_on_insert by (rule conjI [rotated])
    show "\<forall>a\<in>insert (sd_next d) (objects d). \<exists>j. port_of ?d a = Some j \<and> j \<in> keys (sd_sel ?d)"
    proof
      fix a assume a: "a \<in> insert (sd_next d) (objects d)"
      show "\<exists>j. port_of ?d a = Some j \<and> j \<in> keys (sd_sel ?d)"
      proof (cases "a = sd_next d")
        case True
        then show ?thesis using own ks by simp
      next
        case False
        with a pr obtain j where "port_of d a = Some j" "j \<in> keys (sd_sel d)" "a \<in> objects d" by (auto simp: port_reg_def)
        with same ks show ?thesis by simp
      qed
    qed
  qed
  moreover have "held_pks ?d = held_pks d" by (rule held_same) simp
  ultimately have "dmx_inv ?d H" using k(2,3) log by (simp add: dmx_inv_def)
  moreover have "port_set s j = port_set (sd_sel d) j" if "j \<in> keys (sd_sel d)" for j using that k(4) old by metis
  ultimately show ?thesis using run new fr(2) by (intro exI [of _ ?d] exI [of _ k]) simp
qed

lemma release_trackers_ok:
  assumes "dmx_inv d H" "sd_outs d ou = Some x"
  shows "\<exists>d'. release_trackers ou d = Some d' \<and> dmx_inv d' H \<and> others_kept ou d d' \<and> sd_outs d' ou = Some (x\<lparr>so_r := []\<rparr>)"
  using assms
proof (induction "length (so_r x)" arbitrary: d x)
  case 0
  then have "x\<lparr>so_r := []\<rparr> = x" by simp
  with 0 show ?case by (subst release_trackers.simps) simp
next
  case (Suc n)
  then have ne: "0 < length (so_r x)" by linarith
  from remove_tracker_becomes [OF Suc.prems this] obtain d1 where
    d1: "remove_tracker ou 0 d = Some d1" "dmx_inv d1 H" "others_kept ou d d1" "sd_outs d1 ou = Some (x\<lparr>so_r := utlRmv (so_r x) 0\<rparr>)"
    by (auto simp: out_becomes_def)
  have "n = length (so_r (x\<lparr>so_r := utlRmv (so_r x) 0\<rparr>))" using Suc.hyps(2) ne by (simp add: utlRmv_def)
  from Suc.hyps(1) [OF this d1(2,4)] obtain d2 where
    d2: "release_trackers ou d1 = Some d2" "dmx_inv d2 H" "others_kept ou d1 d2" "sd_outs d2 ou = Some (x\<lparr>so_r := []\<rparr>)" by auto
  have "release_trackers ou d = Some d2"
    using Suc.prems(2) ne d1(1) d2(1) by (subst release_trackers.simps) simp
  with d2 others_kept_trans [OF d1(3)] show ?case by blast
qed

text \<open>An output without trackers goes with its port.\<close>

lemma drop_output_ok:
  assumes inv: "dmx_inv d H" and x: "sd_outs d ou = Some x" "so_r x = []"
  shows "\<exists>s l. remove_port (Some (so_port x)) d = Some (d\<lparr>sd_sel := s, sd_log := sd_log d @ l\<rparr>) \<and>
    dmx_inv (d\<lparr>sd_sel := s, sd_log := sd_log d @ l, sd_outputs := remove1 ou (sd_outputs d), sd_outs := (sd_outs d)(ou := None)\<rparr>) H \<and>
    (\<forall>j. j \<noteq> so_port x \<longrightarrow> port_set s j = port_set (sd_sel d) j)"
proof -
  have reg: "reg_inv d" and pr: "port_reg d" and sel: "sel_inv (sd_sel d) (held_pks d + H)"
    and log: "frontend (sd_log d) {} = selected (sd_sel d)" using inv by (simp_all add: dmx_inv_def)
  have outs: "set (sd_outputs d) = dom (sd_outs d)" and dis: "set (sd_outputs d) \<inter> dom (sd_trks d) = {}" and dst: "distinct (sd_outputs d)"
    using reg by (simp_all add: reg_inv_def)
  from remove_port_ok [OF sel out_port [OF inv x(1)]] obtain s l where
    s: "remove_port (Some (so_port x)) d = Some (d\<lparr>sd_sel := s, sd_log := sd_log d @ l\<rparr>)" "sel_inv s (held_pks d + H)"
      "keys s = keys (sd_sel d) - {so_port x}" "\<forall>j. j \<noteq> so_port x \<longrightarrow> port_set s j = port_set (sd_sel d) j"
      "frontend l (selected (sd_sel d)) = selected s" by blast
  let ?d = "d\<lparr>sd_sel := s, sd_log := sd_log d @ l, sd_outputs := remove1 ou (sd_outputs d), sd_outs := (sd_outs d)(ou := None)\<rparr>"
  have od: "dom (sd_outs ?d) = dom (sd_outs d) - {ou}" by auto
  have ont: "ou \<notin> dom (sd_trks d)" using x(1) outs dis by blast
  have obj: "objects ?d = objects d - {ou}" using ont by (auto simp: objects_def)
  have out: "out_ok ?d o' y" if "sd_outs ?d o' = Some y" for o' y
  proof -
    have "sd_outs d o' = Some y" using that by (simp split: if_splits)
    then have "out_ok d o' y" using reg by (simp add: reg_inv_def)
    then show ?thesis by (simp add: out_ok_def rec_ok_def)
  qed
  have cov: "\<exists>o' y. sd_outs ?d o' = Some y \<and> a \<in> fr_trk ` set (so_r y)" if "a \<in> dom (sd_trks d)" for a
  proof -
    from that reg obtain o' y where y: "sd_outs d o' = Some y" "a \<in> fr_trk ` set (so_r y)" unfolding reg_inv_def by blast
    with x have "o' \<noteq> ou" by auto
    with y show ?thesis by (intro exI [of _ o'] exI [of _ y]) simp
  qed
  have "reg_inv ?d" unfolding reg_inv_def od obj
  proof (intro conjI)
    show "\<forall>o' y. sd_outs ?d o' = Some y \<longrightarrow> out_ok ?d o' y" using out by blast
    show "\<forall>a\<in>dom (sd_trks ?d). \<exists>o' y. sd_outs ?d o' = Some y \<and> a \<in> fr_trk ` set (so_r y)" using cov by simp
    show "dom (sd_outs d) - {ou} = set (sd_outputs ?d)" using outs dst by simp
    show "set (sd_outputs ?d) \<inter> dom (sd_trks ?d) = {}" using dis set_remove1_subset [of ou "sd_outputs d"] by auto
    show "\<forall>a t. get_trk ?d a = Some t \<longrightarrow> trk_ok t" using reg by (simp add: reg_inv_def get_trk_def)
  qed (use reg in \<open>simp_all add: reg_inv_def\<close>)
  moreover have "port_reg ?d" unfolding port_reg_def obj
  proof (intro conjI ballI)
    have same: "port_of ?d a = port_of d a" if "a \<in> objects d - {ou}" for a
      using that by (auto simp: port_of_def get_trk_def split: option.split)
    have inj: "inj_on (port_of d) (objects d)" using pr by (simp add: port_reg_def)
    from inj have "inj_on (port_of d) (objects d - {ou})" by (rule inj_on_diff)
    moreover have "inj_on (port_of ?d) (objects d - {ou}) = inj_on (port_of d) (objects d - {ou})" by (rule inj_on_cong) (rule same)
    ultimately show "inj_on (port_of ?d) (objects d - {ou})" by (simp only:)
    fix a assume a: "a \<in> objects d - {ou}"
    with pr obtain j where j: "port_of d a = Some j" "j \<in> keys (sd_sel d)" by (auto simp: port_reg_def)
    have "port_of d ou = Some (so_port x)" "ou \<in> objects d" using x(1) by (auto simp: port_of_def objects_def)
    with a j(1) inj_onD [OF inj, of a ou] have "j \<noteq> so_port x" by auto
    with j s(3) same [OF a] show "\<exists>j. port_of ?d a = Some j \<and> j \<in> keys (sd_sel ?d)" by simp
  qed
  moreover have "held_pks ?d = held_pks d" by (rule held_same) simp
  ultimately have "dmx_inv ?d H" using s(2,5) log by (simp add: dmx_inv_def frontend_append)
  with s(1,4) show ?thesis by blast
qed

lemma svtOutRmv_ok:
  assumes inv: "dmx_inv d H" and x: "sd_outs d ou = Some x"
  shows "\<exists>d'. svtOutRmv ou d = Some d' \<and> dmx_inv d' H \<and> sd_outs d' = (sd_outs d)(ou := None) \<and>
    sd_outputs d' = remove1 ou (sd_outputs d) \<and> (routed d \<longrightarrow> routed d')"
proof -
  from release_trackers_ok [OF inv x] obtain d1 where
    d1: "release_trackers ou d = Some d1" "dmx_inv d1 H" "others_kept ou d d1" "sd_outs d1 ou = Some (x\<lparr>so_r := []\<rparr>)" by blast
  from drop_output_ok [OF d1(2,4)] obtain s l where
    s: "remove_port (Some (so_port x)) d1 = Some (d1\<lparr>sd_sel := s, sd_log := sd_log d1 @ l\<rparr>)"
      "dmx_inv (d1\<lparr>sd_sel := s, sd_log := sd_log d1 @ l, sd_outputs := remove1 ou (sd_outputs d1), sd_outs := (sd_outs d1)(ou := None)\<rparr>) H"
      "\<forall>j. j \<noteq> so_port x \<longrightarrow> port_set s j = port_set (sd_sel d1) j" by auto
  let ?d = "d1\<lparr>sd_sel := s, sd_log := sd_log d1 @ l, sd_outputs := remove1 ou (sd_outputs d1), sd_outs := (sd_outs d1)(ou := None)\<rparr>"
  have run: "svtOutRmv ou d = Some ?d" using d1(1,4) s(1) by (simp add: svtOutRmv_def)
  have others: "sd_outputs d1 = sd_outputs d" "\<And>o'. o' \<noteq> ou \<Longrightarrow> sd_outs d1 o' = sd_outs d o'"
    using d1(3) unfolding others_kept_def by blast+
  have "sd_outs ?d = (sd_outs d)(ou := None)" using others(2) by auto
  moreover have "routed (?d\<lparr>sd_outputs := sd_outputs d\<rparr>)" if "routed d"
  proof (rule routed_others [OF that, of ou])
    have "port_set s (so_port y) = port_set (sd_sel d1) (so_port y)" if "sd_outs d1 o' = Some y" "o' \<noteq> ou" for o' y
      using s(3) ports_apart [OF d1(2,4) that] by simp
    then show "others_kept ou d (?d\<lparr>sd_outputs := sd_outputs d\<rparr>)"
      using d1(3) others unfolding others_kept_def by simp
  qed simp
  then have "routed ?d" if "routed d" using that by (simp add: routed_def wanted_def record_pids_def get_trk_def)
  ultimately show ?thesis using run s(2) others(1) by (intro exI [of _ ?d]) simp
qed

lemma svtOutAdd_routed:
  assumes inv: "dmx_inv d H" "routed d" and run: "svtOutAdd d = Some (ou, d')"
  shows "dmx_inv d' H \<and> routed d' \<and> sd_outs d ou = None"
proof -
  from svtOutAdd_ok [OF inv(1)] run obtain k where d': "dmx_inv d' H" "sd_trks d' = sd_trks d" "sd_outs d ou = None"
    "sd_outs d' = (sd_outs d)(ou \<mapsto> \<lparr>so_port = k, so_n_hpids = 0, so_hpids = None, so_r = []\<rparr>)"
    "port_set (sd_sel d') k = {}" "\<forall>j\<in>keys (sd_sel d). port_set (sd_sel d') j = port_set (sd_sel d) j" by auto
  have "port_set (sd_sel d') (so_port x) = wanted d' x \<union> set (pids_of (so_hpids x))" if x: "sd_outs d' o' = Some x" for o' x
  proof (cases "o' = ou")
    case True
    with x d'(4,5) show ?thesis by (auto simp: wanted_def)
  next
    case False
    with x d'(4) have "sd_outs d o' = Some x" by simp
    with out_port [OF inv(1)] inv(2) d'(6) wanted_frame [OF d'(2)] show ?thesis by (simp add: routed_def)
  qed
  with d'(1,3) show ?thesis by (simp add: routed_def)
qed

subsection \<open>Start and end\<close>

lemma swdmxInit_ok: "dmx_inv (swdmxInit n lim) {#}" "routed (swdmxInit n lim)"
proof -
  have "held_pks (swdmxInit n lim) = {#}" by (simp add: held_pks_def swdmxInit_def)
  moreover have "reg_inv (swdmxInit n lim)" "port_reg (swdmxInit n lim)"
    by (simp_all add: reg_inv_def port_reg_def objects_def swdmxInit_def get_trk_def)
  moreover have "selected (selectorInit n lim) = {}" by (simp add: selected_def selectorInit_def)
  ultimately show "dmx_inv (swdmxInit n lim) {#}" using init_sel_inv [of n lim] by (simp add: dmx_inv_def swdmxInit_def)
  show "routed (swdmxInit n lim)" by (simp add: routed_def swdmxInit_def)
qed

lemma release_outputs_ok:
  assumes "dmx_inv d H"
  shows "\<exists>d'. release_outputs d = Some d' \<and> dmx_inv d' H \<and> sd_outputs d' = []"
  using assms
proof (induction "length (sd_outputs d)" arbitrary: d)
  case 0
  then show ?case by (subst release_outputs.simps) simp
next
  case (Suc n)
  then obtain ou rest where o: "sd_outputs d = ou # rest" by (cases "sd_outputs d") auto
  have "dom (sd_outs d) = set (sd_outputs d)" using Suc.prems by (simp add: dmx_inv_def reg_inv_def)
  with o obtain x where x: "sd_outs d ou = Some x" by fastforce
  from svtOutRmv_ok [OF Suc.prems x] obtain d1 where
    d1: "svtOutRmv ou d = Some d1" "dmx_inv d1 H" "sd_outputs d1 = rest" using o by auto
  from Suc.hyps(1) [OF _ d1(2)] Suc.hyps(2) d1(3) o obtain d2 where
    "release_outputs d1 = Some d2" "dmx_inv d2 H" "sd_outputs d2 = []" by auto
  with d1(1) o show ?case by (subst release_outputs.simps) simp
qed

lemma no_outputs:
  assumes "reg_inv d" "sd_outputs d = []"
  shows "sd_outs d = Map.empty" "sd_trks d = Map.empty"
proof -
  have "dom (sd_outs d) = {}" using assms by (simp add: reg_inv_def)
  then show o: "sd_outs d = Map.empty" by simp
  have "dom (sd_trks d) = {}" using assms(1) o unfolding reg_inv_def by auto
  then show "sd_trks d = Map.empty" by simp
qed

lemma swdmxClear_ok:
  assumes "dmx_inv d H"
  shows "\<exists>d' fr c m. swdmxClear d = Some (d', fr, c, m) \<and> sd_outs d' = Map.empty \<and> sd_trks d' = Map.empty \<and> dom m = set_mset H \<and>
    frontend (sd_log d' @ c) {} = {}"
proof -
  from release_outputs_ok [OF assms] obtain d1 where
    d1: "release_outputs d = Some d1" "dmx_inv d1 H" "sd_outputs d1 = []" by blast
  then have sel: "sel_inv (sd_sel d1) (held_pks d1 + H)" and log: "frontend (sd_log d1) {} = selected (sd_sel d1)" and reg: "reg_inv d1"
    by (simp_all add: dmx_inv_def)
  note none = no_outputs [OF reg d1(3)]
  have "held_pks d1 = {#}" using none(2) by (simp add: held_pks_def)
  with clear_run [OF sel] obtain fr c m where
    "selectorClear (\<lambda>_. always) (\<lambda>_. always) (sd_sel d1) = Some (fr, c, m)" "dom m = set_mset H" "frontend c (selected (sd_sel d1)) = {}" by auto
  with d1(1) none log show ?thesis by (auto simp: swdmxClear_def frontend_append)
qed
end
