(* ===== verification/SvtPut.thy ===== *)
theory SvtPut
  imports SvtOps
begin

text \<open>
  The receiving side of the service tracker (stream/svt.c): a tracker takes the packets of the PAT and of the PMT
  of its programme, keeps the current and the next programme map table, follows the PID of the PMT and
  refreshes its outputs.  The tables and the PIDs of the outputs stay consistent with each
  other through every packet.
\<close>

subsection \<open>Programme map sections\<close>

definition pmt_at :: "bool \<Rightarrow> svc_trk \<Rightarrow> pms table option" where
  "pmt_at nx t = (if nx then tk_pmt1 t else tk_pmt0 t)"

definition set_pmt :: "bool \<Rightarrow> pms table option \<Rightarrow> svc_trk \<Rightarrow> svc_trk" where
  "set_pmt nx p t = (if nx then t\<lparr>tk_pmt1 := p\<rparr> else t\<lparr>tk_pmt0 := p\<rparr>)"

text \<open>A section as an element of a table.\<close>

definition to_section :: "pms \<Rightarrow> pms psection" where
  "to_section p = \<lparr>sc_version = m_version p, sc_current = m_current p, sc_section = m_section p, sc_last_section = m_last_section p,
     program_number = pms.program_number p, payload = Some p\<rparr>"

definition reinit_pmt :: "pms table \<Rightarrow> nat \<Rightarrow> pms table option" where
  "reinit_pmt t sz = do { (_, p, _) \<leftarrow> clear_tbl (Some t); t \<leftarrow> p; (_, t) \<leftarrow> init_pmt True t sz; Some t }"

text \<open>The next table becomes the current one when a current section has its version.\<close>

definition take_next :: "nat \<Rightarrow> bool \<Rightarrow> svc_trk \<Rightarrow> (bool \<times> svc_trk) option" where
  "take_next v nx t =
     (case (tk_pmt0 t, tk_pmt1 t) of
        (Some p0, Some p1) \<Rightarrow>
          if \<not> nx \<and> tbl_version p0 \<noteq> int v \<and> tbl_version p1 = int v
          then do { (_, _, _) \<leftarrow> clear_tbl (Some p0); Some (True, t\<lparr>tk_pmt0 := Some p1, tk_pmt1 := None\<rparr>) }
          else Some (False, t)
      | _ \<Rightarrow> Some (False, t))"

text \<open>The table \<open>p\<close> is brought to the version and the number of sections of the section \<open>s\<close>; \<open>ro\<close> says
  whether anything has changed so far.\<close>

definition renew_pmt :: "buffer \<Rightarrow> bool \<Rightarrow> pms table \<Rightarrow> (bool \<times> pms table) option" where
  "renew_pmt s ro p = do {
     last \<leftarrow> get_sec_last s;
     v \<leftarrow> get_sec_version s;
     (if num_sections p \<noteq> unat last + 1 \<or> int (unat v) \<noteq> tbl_version p
      then do { p \<leftarrow> reinit_pmt p (unat last + 1); Some (True, p) } else Some (ro, p))
   }"

text \<open>The section is entered if it is missing.\<close>

definition enter_missing :: "buffer \<Rightarrow> bool \<Rightarrow> pms table \<Rightarrow> (bool \<times> pms table) option" where
  "enter_missing s ro p = do {
     nr \<leftarrow> get_sec_nr s;
     b \<leftarrow> bifiGet (occupied p) (unat nr);
     (if b = 0 then do {
        (rv, tpms) \<leftarrow> parse_pms True always s zero_pms;
        (if rv = 0 then do {
           (_, p) \<leftarrow> enter_sec p (ucast (m_section tpms)) (to_section tpms) 2;
           Some (True, p\<lparr>tbl_pnr := pms.program_number tpms, tbl_version := int (unat (m_version tpms))\<rparr>)
         }
         else Some (ro, p))
      }
      else Some (ro, p))
   }"

definition update_pmt :: "buffer \<Rightarrow> bool \<Rightarrow> pms table \<Rightarrow> (bool \<times> pms table) option" where
  "update_pmt s ro p = do { (ro, p) \<leftarrow> renew_pmt s ro p; enter_missing s ro p }"

definition svt_handle_pms2 :: "buffer \<Rightarrow> svc_trk \<Rightarrow> bool \<Rightarrow> (bool \<times> svc_trk) option" where
  "svt_handle_pms2 s t nx = do {
     t \<leftarrow> (case pmt_at nx t of
            None \<Rightarrow> do { last \<leftarrow> get_sec_last s; p \<leftarrow> new_tbl True (unat last + 1) 2; Some (set_pmt nx p t) }
          | Some _ \<Rightarrow> Some t);
     (case pmt_at nx t of
        None \<Rightarrow> Some (False, t)
      | Some _ \<Rightarrow> do {
          v \<leftarrow> get_sec_version s;
          (ro, t) \<leftarrow> take_next (unat v) nx t;
          p \<leftarrow> pmt_at nx t;
          (ro, p) \<leftarrow> update_pmt s ro p;
          Some (ro, set_pmt nx (Some p) t)
        })
   }"

definition svt_handle_pms :: "buffer \<Rightarrow> svc_trk \<Rightarrow> (bool \<times> svc_trk) option" where
  "svt_handle_pms s t = do {
     c \<leftarrow> sec_is_current s;
     (if c \<noteq> 0 then svt_handle_pms2 s t False else svt_handle_pms2 s t True)
   }"

subsection \<open>Programme association sections\<close>

text \<open>The loop over the programmes, up to the first that matches.\<close>

fun find_pid :: "u16 \<Rightarrow> (u16 \<times> u16) list \<Rightarrow> u16 option" where
  "find_pid pnr [] = None"
| "find_pid pnr ((n, pid) # xs) = (if n = pnr then Some pid else find_pid pnr xs)"

definition pat_cells :: "pas \<Rightarrow> (u16 \<times> u16) list option" where
  "pat_cells p =
     (if pa_count p = 0 then Some []
      else case pas_arr p of
        None \<Rightarrow> None
      | Some l \<Rightarrow> if unat (pa_count p) \<le> length l then Some (take (unat (pa_count p)) l) else None)"

definition blank_pas :: pas where
  "blank_pas = \<lparr>p_version = 0, p_current = 0, p_section = 0, p_last_section = 0, p_tsid = 0, pa_count = 0, pas_arr = None\<rparr>"

definition svt_new_pid :: "nat \<Rightarrow> u16 \<Rightarrow> sw_dmx \<Rightarrow> sw_dmx option" where
  "svt_new_pid a pid d = do {
     t \<leftarrow> get_trk d a;
     d \<leftarrow> mod_port (tk_input t) 2 (Some [0, pid]) d;
     (_, p0, _) \<leftarrow> clear_tbl (tk_pmt0 t);
     (_, p1, _) \<leftarrow> clear_tbl (tk_pmt1 t);
     Some (put_trk a (t\<lparr>tk_pid := pid, tk_pmt0 := p0, tk_pmt1 := p1\<rparr>) d)
   }"

definition svt_handle_pas :: "nat \<Rightarrow> buffer \<Rightarrow> sw_dmx \<Rightarrow> (bool \<times> sw_dmx) option" where
  "svt_handle_pas a s d = do {
     c \<leftarrow> sec_is_current s;
     (if c \<noteq> 0 then do {
        (rv, tpas) \<leftarrow> parse_pas True s blank_pas;
        (if rv = 0 then do {
           t \<leftarrow> get_trk d a;
           l \<leftarrow> pat_cells tpas;
           (case find_pid (tk_pnr t) l of
              Some pid \<Rightarrow> if pid \<noteq> tk_pid t then do { d \<leftarrow> svt_new_pid a pid d; Some (True, d) } else Some (False, d)
            | None \<Rightarrow> Some (False, d))
         }
         else Some (False, d))
      }
      else Some (False, d))
   }"

subsection \<open>Packets\<close>

fun refresh_all :: "nat list \<Rightarrow> sw_dmx \<Rightarrow> sw_dmx option" where
  "refresh_all [] d = Some d"
| "refresh_all (ou # ous) d = do { d \<leftarrow> refresh_output ou d; refresh_all ous d }"

definition svt_dispatch :: "nat \<Rightarrow> buffer \<Rightarrow> sw_dmx \<Rightarrow> (bool \<times> sw_dmx) option" where
  "svt_dispatch a s d = do {
     id \<leftarrow> get_sec_id s;
     (if id = 0 then svt_handle_pas a s d
      else if id = 2 then do {
        t \<leftarrow> get_trk d a;
        pnr \<leftarrow> get_sec_pnr s;
        (if pnr = ucast (tk_pnr t)
         then do { (ro, t) \<leftarrow> svt_handle_pms s t; Some (ro, put_trk a t d) }
         else Some (False, d))
      }
      else Some (False, d))
   }"

definition svt_section :: "nat \<Rightarrow> buffer \<Rightarrow> sw_dmx \<Rightarrow> sw_dmx option" where
  "svt_section a s d = do {
     (ro, d) \<leftarrow> svt_dispatch a s d;
     t \<leftarrow> get_trk d a;
     (if ro then refresh_all (tk_out t) d else Some d)
   }"

text \<open>\<open>svt_packet_put\<close> on the element \<open>p\<close> of the selector.\<close>

definition svt_packet_put :: "nat \<Rightarrow> nat \<Rightarrow> sw_dmx \<Rightarrow> sw_dmx option" where
  "svt_packet_put a p d = do {
     t \<leftarrow> get_trk d a;
     b \<leftarrow> map_option rc_body (mem (sd_sel d) p);
     (if sb_type b \<noteq> 0 then svt_release_pk p d
      else do {
        (ex, rel, out) \<leftarrow> secExPut True (tk_ex t) (p, sb_data b);
        d \<leftarrow> release_pks rel d;
        let d = put_trk a (t\<lparr>tk_ex := ex\<rparr>) d;
        (case out of
           None \<Rightarrow> Some d
         | Some (pid, s) \<Rightarrow> svt_section a s d)
      })
   }"

subsection \<open>What the parsers accept\<close>

lemma mask13: "unat (ucast (w AND 8191 :: u64) :: u16) < 8192"
proof -
  have "w AND 8191 \<le> 8191" by (rule word_and_le1)
  then have "unat (w AND 8191) < 8192" by (simp add: word_le_nat_alt)
  then show ?thesis by (simp add: unsigned_ucast_eq take_bit_nat_def)
qed

lemma bitsGet13: "bitsGet pat i 3 13 = Some v \<Longrightarrow> unat (ucast v :: u16) < 8192"
  using mask13 by (auto simp: bitsGet_def bitsGet_short_def Let_def push_bit_eq_mult split: option.splits)

lemma es_descr_pid: "es_descr ok pat s tag len ptr x = Some (r, x') \<Longrightarrow> es_pid x' = es_pid x"
  by (auto simp: es_descr_def Let_def bind_eq_Some_conv split: if_splits)

lemma descr_step_pid:
  assumes "descr_step (es_descr ok pat) pat s x = Some (r, s', x', d)"
  shows "es_pid x' = es_pid x"
  using assms
  by (auto simp: descr_step_def Let_def dest!: es_descr_pid split: Option.bind_split_asm if_split_asm prod.split_asm)

lemma descr_loop_pid:
  "descr_loop (es_descr ok pat) pat s len x = Some (r, s', x') \<Longrightarrow> es_pid x' = es_pid x"
proof (induction "es_descr ok pat" pat s len x rule: descr_loop.induct)
  case (1 pat s len x)
  show ?case
  proof (cases "len > 0")
    case False
    with 1 show ?thesis by (simp add: descr_loop.simps)
  next
    case True
    with 1(2) obtain r1 s1 x1 d where d: "descr_step (es_descr ok pat) pat s x = Some (r1, s1, x1, d)"
      by (auto simp: descr_loop.simps [of _ _ _ len] split: option.splits)
    show ?thesis
    proof (cases "r1 = 0")
      case True
      with 1(2) d \<open>len > 0\<close> have "descr_loop (es_descr ok pat) pat s1 (len - (2 + int (unat d))) x1 = Some (r, s', x')"
        by (simp add: descr_loop.simps [of _ _ _ len])
      with 1(1) [OF \<open>len > 0\<close> d] True descr_step_pid [OF d] show ?thesis by simp
    next
      case False
      with 1(2) d \<open>len > 0\<close> descr_step_pid [OF d] show ?thesis by (simp add: descr_loop.simps [of _ _ _ len])
    qed
  qed
qed

lemma get_es_info_pid:
  assumes "get_es_info ok pat i s = Some (0, s', x)"
  shows "unat (es_pid x) < 8192"
  using assms bitsGet13
  by (auto simp: get_es_info_def Let_def bind_eq_Some_conv dest!: descr_loop_pid split: if_splits)

lemma item_loop_all:
  assumes "item_loop get n i s = Some (0, s', xs)" "\<And>i s s' x. get i s = Some (0, s', x) \<Longrightarrow> P x"
  shows "length xs = n \<and> (\<forall>x\<in>set xs. P x)"
  using assms(1)
proof (induction n arbitrary: i s s' xs)
  case (Suc n)
  then obtain s1 x xs1 s2 where "get i s = Some (0, s1, x)" "item_loop get n (Suc i) s1 = Some (0, s2, xs1)" "xs = x # xs1"
    by (auto simp: bind_eq_Some_conv split: if_splits)
  with Suc.IH assms(2) show ?case by auto
qed simp

lemma parsed_pms:
  assumes "parse_pms True always s zero_pms = Some (0, p)"
  shows "pms_ok p"
proof -
  from assms obtain st len where 1: "parse_pms_fields True always s (zero_pms\<lparr>pcr_pid := 0x1fff\<rparr>) st len = Some (0, p)"
    by (auto simp: parse_pms_def Let_def split: Option.bind_split_asm if_split_asm sum.split_asm prod.split_asm)
  then obtain st1 sl st2 p1 i v where 2: "parse_pms_streams True always s (zero_pms\<lparr>pcr_pid := 0x1fff\<rparr>) st1 sl = Some (0, st2, p1)"
      "bitsGet s i 3 13 = Some v" "pcr_pid p = ucast v" "num_es p = num_es p1" "stream_infos p = stream_infos p1"
    by (auto simp: parse_pms_fields_def Let_def bind_eq_Some_conv split: if_splits)
  from 2(1) obtain n xs st3 st4 where 3: "item_loop (get_es_info always s) (unat n) 0 st3 = Some (0, st4, xs)"
      "num_es p1 = n" "stream_infos p1 = Some xs"
    by (auto simp: parse_pms_streams_def Let_def bind_eq_Some_conv split: if_splits)
  from item_loop_all [OF 3(1), of "\<lambda>x. unat (es_pid x) < 8192"] get_es_info_pid
  have "length xs = unat n \<and> (\<forall>x\<in>set xs. unat (es_pid x) < 8192)" by blast
  with 2(3-5) 3(2,3) bitsGet13 [OF 2(2)] show ?thesis by (auto simp: pms_ok_def es_cells_def)
qed

lemma parse_pas_loop_pids:
  assumes "parse_pas_loop pat s sl i arr = Some v"
  shows "(\<forall>x\<in>set arr. unat (snd x) < 8192) \<longrightarrow> (case v of Inl e \<Rightarrow> True | Inr (s', arr') \<Rightarrow> \<forall>x\<in>set arr'. unat (snd x) < 8192)"
proof (rule parse_pas_loop.raw_induct [where P = "\<lambda>pat s sl i arr v. (\<forall>x\<in>set arr. unat (snd x) < 8192) \<longrightarrow>
    (case v of Inl e \<Rightarrow> True | Inr (s', arr') \<Rightarrow> \<forall>x\<in>set arr'. unat (snd x) < 8192)", OF _ assms], rule impI, goal_cases)
  case (1 f pat s sl i arr v)
  show ?case
  proof (cases "sl > 0")
    case False
    with 1(2,3) show ?thesis by auto
  next
    case True
    with 1(2) have "v = Inl 1 \<or> (\<exists>pnr pid s1. bitsGet pat (nat (sizeStackPtr s) + 2) 3 13 = Some pid \<and>
        f pat s1 (sl - 4) (i + 1) (arr[i := (pnr, ucast pid)]) = Some v)"
      by (auto simp: Let_def split: Option.bind_split_asm if_split_asm prod.split_asm)
    then show ?thesis
    proof (elim disjE exE conjE)
      fix pnr pid s1 assume 3: "bitsGet pat (nat (sizeStackPtr s) + 2) 3 13 = Some pid"
        "f pat s1 (sl - 4) (i + 1) (arr[i := (pnr, ucast pid)]) = Some v"
      have "\<forall>x\<in>set (arr[i := (pnr, ucast pid)]). unat (snd x) < 8192"
        using 1(3) bitsGet13 [OF 3(1)] set_update_subset_insert [of arr i "(pnr, ucast pid)"] by auto
      then show ?thesis using 1(1) [OF 3(2)] by blast
    qed simp
  qed
qed

lemma parsed_pas:
  assumes "parse_pas True s blank_pas = Some (0, p)" "pat_cells p = Some l"
  shows "\<forall>x\<in>set l. unat (snd x) < 8192"
proof -
  from assms(1) obtain st len where "parse_pas_fields True s blank_pas st len = Some (0, p)"
    by (auto simp: parse_pas_def Let_def split: Option.bind_split_asm if_split_asm prod.split_asm)
  then obtain st1 sl a b c e f where "parse_pas_entries True s blank_pas st1 sl a b c e f = Some (0, p)"
    by (auto simp: parse_pas_fields_def Let_def split: Option.bind_split_asm if_split_asm prod.split_asm)
  then obtain st2 sl2 n st3 arr where 1: "parse_pas_loop s st2 sl2 0 (replicate n (0, 0)) = Some (Inr (st3, arr))" "pas_arr p = Some arr"
    by (auto simp: parse_pas_entries_def Let_def split: Option.bind_split_asm if_split_asm prod.split_asm sum.split_asm)
  from parse_pas_loop_pids [OF 1(1)] have "\<forall>x\<in>set arr. unat (snd x) < 8192" by simp
  with assms(2) 1(2) show ?thesis by (auto simp: pat_cells_def split: if_split_asm dest: in_set_takeD)
qed

lemma find_pid_in: "find_pid pnr l = Some pid \<Longrightarrow> (pnr, pid) \<in> set l"
  by (induction pnr l rule: find_pid.induct) (auto split: if_split_asm)

subsection \<open>The tables stay consistent\<close>

lemma bifi_fresh: "length b = 32 \<Longrightarrow> \<exists>b'. bifiInit b 32 = Some b' \<and> length b' = 32 \<and> bifi_set b' = {}"
  using bifiInit_set [of b] by auto

lemma init_pmt_ok:
  assumes "length (occupied p) = 32" "0 < sz" "sz \<le> 256"
  shows "\<exists>p'. init_pmt True p sz = Some (0, p') \<and> pmt_ok p' \<and> occ p' = {} \<and> num_sections p' = sz \<and> length (sections p') = sz \<and> tbl_version p' = -1"
proof -
  from bifi_fresh [OF assms(1)] obtain b where "bifiInit (occupied p) 32 = Some b" "length b = 32" "bifi_set b = {}" by blast
  with assms(2,3) show ?thesis by (auto simp: init_pmt_def calloc_sections_def pmt_ok_def sec_kind_def)
qed

lemma reinit_pmt_ok:
  assumes "pmt_ok p" "0 < sz" "sz \<le> 256"
  shows "\<exists>p'. reinit_pmt p sz = Some p' \<and> pmt_ok p' \<and> occ p' = {} \<and> num_sections p' = sz \<and> length (sections p') = sz \<and> tbl_version p' = -1"
proof -
  from clear_pmt [OF assms(1)] obtain t' fr where c: "clear_tbl (Some p) = Some (0, Some t', fr)" "pmt_ok t'" by blast
  then have "length (occupied t') = 32" by (simp add: pmt_ok_def)
  from init_pmt_ok [OF this assms(2,3)] c(1) show ?thesis by (auto simp: reinit_pmt_def)
qed

lemma new_pmt_ok:
  assumes "0 < sz" "sz \<le> 256"
  shows "\<exists>p. new_tbl True sz 2 = Some (Some p) \<and> pmt_ok p \<and> occ p = {} \<and> num_sections p = sz \<and> length (sections p) = sz \<and> tbl_version p = -1"
proof -
  have "length (occupied zero_table) = 32" by (simp add: zero_table_def)
  from init_pmt_ok [OF this assms] show ?thesis by (auto simp: new_tbl_def new_pmt_def sec_kind_def)
qed

lemma enter_pmt_ok:
  assumes "pmt_ok t" "pms_ok p" "enter_sec t (ucast (m_section p)) (to_section p) 2 = Some (r, t')"
  shows "pmt_ok (t'\<lparr>tbl_pnr := n, tbl_version := v\<rparr>)"
proof -
  have k: "sec_kind 2 = Some KPms" by (simp add: sec_kind_def)
  have u: "unat (ucast (m_section p) :: u16) = unat (m_section p)" by simp
  from assms(3) k obtain oc where b: "bifiSet (occupied t) (unat (m_section p)) = Some oc" "unat (m_section p) < length (sections t)"
    "t' = t\<lparr>sections := (sections t)[unat (m_section p) := Some (to_section p)], occupied := oc\<rparr>"
    unfolding enter_sec_def u by (auto simp: to_section_def split: Option.bind_split_asm if_split_asm)
  have "unat (m_section p) < 8 * length (occupied t)" using b(2) assms(1) by (simp add: pmt_ok_def)
  from bifiSet_set [OF this] b(1) have oc: "length oc = 32" "bifi_set oc = insert (unat (m_section p)) (occ t)"
    using assms(1) by (auto simp: pmt_ok_def)
  show ?thesis unfolding pmt_ok_def
  proof (intro conjI ballI)
    fix i assume "i \<in> occ (t'\<lparr>tbl_pnr := n, tbl_version := v\<rparr>)"
    then have i: "i = unat (m_section p) \<or> i \<in> occ t" using b(3) oc by auto
    show "\<exists>s q. sections (t'\<lparr>tbl_pnr := n, tbl_version := v\<rparr>) ! i = Some s \<and> psection.payload s = Some q \<and> pms_ok q"
    proof (cases "i = unat (m_section p)")
      case True
      then show ?thesis using b(2,3) assms(2) by (simp add: to_section_def)
    next
      case False
      with i assms(1) b(3) show ?thesis by (auto simp: pmt_ok_def nth_list_update)
    qed
    show "i < num_sections (t'\<lparr>tbl_pnr := n, tbl_version := v\<rparr>)" "i < length (sections (t'\<lparr>tbl_pnr := n, tbl_version := v\<rparr>))"
      using i assms(1) b(2,3) by (auto simp: pmt_ok_def)
  qed (use assms(1) b(3) oc(1) in \<open>simp_all add: pmt_ok_def\<close>)
qed

lemma renew_pmt_ok:
  assumes "pmt_ok p" "renew_pmt s ro p = Some (ro', p')"
  shows "pmt_ok p' \<and> (ro \<longrightarrow> ro') \<and> (\<not> ro' \<longrightarrow> p' = p \<and> (\<forall>v. get_sec_version s = Some v \<longrightarrow> tbl_version p = int (unat v)))"
proof -
  from assms(2) obtain last v where l: "get_sec_last s = Some last" "get_sec_version s = Some v"
    by (auto simp: renew_pmt_def split: Option.bind_split_asm)
  have "unat last < 256" using unsigned_less [of last, where 'a = nat] by simp
  then have sz: "0 < unat last + 1" "unat last + 1 \<le> 256" by linarith+
  show ?thesis
  proof (cases "num_sections p \<noteq> unat last + 1 \<or> int (unat v) \<noteq> tbl_version p")
    case True
    with reinit_pmt_ok [OF assms(1) sz] assms(2) l show ?thesis by (auto simp: renew_pmt_def)
  next
    case False
    with assms l show ?thesis by (auto simp: renew_pmt_def)
  qed
qed

lemma enter_missing_ok:
  assumes "pmt_ok p" "enter_missing s ro p = Some (ro', p')"
  shows "pmt_ok p' \<and> (ro \<longrightarrow> ro') \<and> (\<not> ro' \<longrightarrow> p' = p)"
proof -
  from assms(2) consider "ro' = ro" "p' = p" | r tpms t where "ro'" "parse_pms True always s zero_pms = Some (0, tpms)"
      "enter_sec p (ucast (m_section tpms)) (to_section tpms) 2 = Some (r, t)"
      "p' = t\<lparr>tbl_pnr := pms.program_number tpms, tbl_version := int (unat (m_version tpms))\<rparr>"
    by (auto simp: enter_missing_def bind_eq_Some_conv split: if_split_asm)
  then show ?thesis
  proof cases
    case 1
    with assms(1) show ?thesis by auto
  next
    case 2
    with enter_pmt_ok [OF assms(1) parsed_pms [OF 2(2)] 2(3)] show ?thesis by auto
  qed
qed

lemma update_pmt_ok:
  assumes "pmt_ok p" "update_pmt s ro p = Some (ro', p')"
  shows "pmt_ok p' \<and> (ro \<longrightarrow> ro') \<and> (\<not> ro' \<longrightarrow> p' = p \<and> (\<forall>v. get_sec_version s = Some v \<longrightarrow> tbl_version p = int (unat v)))"
proof -
  from assms(2) obtain ro1 p1 where 1: "renew_pmt s ro p = Some (ro1, p1)" "enter_missing s ro1 p1 = Some (ro', p')"
    by (auto simp: update_pmt_def split: Option.bind_split_asm prod.split_asm)
  from renew_pmt_ok [OF assms(1) 1(1)] enter_missing_ok [OF _ 1(2)] show ?thesis by auto
qed

text \<open>What a section changes of a tracker: its tables only, and nothing if the outputs are not refreshed.\<close>

definition tables_only :: "svc_trk \<Rightarrow> svc_trk \<Rightarrow> bool" where
  "tables_only t t' \<longleftrightarrow> tk_pnr t' = tk_pnr t \<and> tk_pid t' = tk_pid t \<and> tk_input t' = tk_input t \<and> tk_out t' = tk_out t \<and> tk_ex t' = tk_ex t"

lemma take_next_ok:
  assumes "trk_ok t" "take_next v nx t = Some (ro, t')"
  shows "trk_ok t' \<and> tables_only t t' \<and> (\<not> ro \<longrightarrow> t' = t)"
  using assms by (auto simp: take_next_def trk_ok_def tables_only_def split: option.split_asm if_split_asm Option.bind_split_asm prod.split_asm)

lemma set_pmt_ok: "trk_ok t \<Longrightarrow> (\<And>q. p = Some q \<Longrightarrow> pmt_ok q) \<Longrightarrow> trk_ok (set_pmt nx p t) \<and> tables_only t (set_pmt nx p t)"
  by (auto simp: set_pmt_def trk_ok_def tables_only_def)

lemma set_pmt_same: "pmt_at nx t = Some p \<Longrightarrow> set_pmt nx (Some p) t = t" "pmt_at nx (set_pmt nx pp t) = pp"
  by (auto simp: set_pmt_def pmt_at_def)

lemma pmt_at_ok: "trk_ok t \<Longrightarrow> pmt_at nx t = Some p \<Longrightarrow> pmt_ok p"
  by (auto simp: pmt_at_def trk_ok_def split: if_split_asm)

lemma tables_only_trans: "tables_only t t1 \<Longrightarrow> tables_only t1 t2 \<Longrightarrow> tables_only t t2"
  by (simp add: tables_only_def)

lemma handle_pms2_ok:
  assumes ok: "trk_ok t" and run: "svt_handle_pms2 s t nx = Some (ro, t')"
  shows "trk_ok t' \<and> tables_only t t' \<and> (\<not> ro \<longrightarrow> t' = t)"
proof -
  from run obtain t1 where 1: "(case pmt_at nx t of
        None \<Rightarrow> do { last \<leftarrow> get_sec_last s; p \<leftarrow> new_tbl True (unat last + 1) 2; Some (set_pmt nx p t) }
      | Some _ \<Rightarrow> Some t) = Some t1"
    and 2: "(case pmt_at nx t1 of
        None \<Rightarrow> Some (False, t1)
      | Some _ \<Rightarrow> do {
          v \<leftarrow> get_sec_version s;
          (ro, t) \<leftarrow> take_next (unat v) nx t1;
          p \<leftarrow> pmt_at nx t;
          (ro, p) \<leftarrow> update_pmt s ro p;
          Some (ro, set_pmt nx (Some p) t)
        }) = Some (ro, t')"
    by (auto simp: svt_handle_pms2_def split: Option.bind_split_asm)
  have t1: "trk_ok t1 \<and> tables_only t t1 \<and> pmt_at nx t1 \<noteq> None \<and> (t1 = t \<or> (\<exists>p. pmt_at nx t1 = Some p \<and> tbl_version p = -1))"
  proof (cases "pmt_at nx t")
    case None
    with 1 obtain last :: u8 and p where p: "new_tbl True (unat last + 1) 2 = Some p" "t1 = set_pmt nx p t"
      by (auto simp: bind_eq_Some_conv)
    have "unat last < 256" using unsigned_less [of last, where 'a = nat] by simp
    with new_pmt_ok [of "unat last + 1"] p(1) obtain q where "p = Some q" "pmt_ok q" "tbl_version q = -1" by auto
    with p(2) set_pmt_ok [OF ok, of p] show ?thesis by (simp add: set_pmt_same)
  next
    case (Some p)
    with 1 ok show ?thesis by (simp add: tables_only_def)
  qed
  with 2 obtain v ro1 t2 p p' where 3: "get_sec_version s = Some v" "take_next (unat v) nx t1 = Some (ro1, t2)" "pmt_at nx t2 = Some p"
    "update_pmt s ro1 p = Some (ro, p')" "t' = set_pmt nx (Some p') t2"
    by (auto split: Option.bind_split_asm prod.split_asm)
  from take_next_ok [OF _ 3(2)] t1 have t2: "trk_ok t2" "tables_only t t2" "\<not> ro1 \<longrightarrow> t2 = t1" by (auto intro: tables_only_trans)
  from update_pmt_ok [OF pmt_at_ok [OF t2(1) 3(3)] 3(4)] have p': "pmt_ok p'" "ro1 \<longrightarrow> ro" "\<not> ro \<longrightarrow> p' = p \<and> tbl_version p = int (unat v)"
    using 3(1) by auto
  have "t' = t" if "\<not> ro"
  proof -
    from that p'(2,3) have "\<not> ro1" "p' = p" "tbl_version p = int (unat v)" by auto
    moreover have "int (unat v) \<noteq> -1" by linarith
    ultimately have "t2 = t" using t2(3) 3(3) t1 by (metis option.inject)
    with 3(3,5) \<open>p' = p\<close> show ?thesis by (simp add: set_pmt_same)
  qed
  with set_pmt_ok [OF t2(1), of "Some p'" nx] p'(1) 3(5) t2(2) show ?thesis by (auto intro: tables_only_trans)
qed

lemma handle_pms_ok:
  "trk_ok t \<Longrightarrow> svt_handle_pms s t = Some (ro, t') \<Longrightarrow> trk_ok t' \<and> tables_only t t' \<and> (\<not> ro \<longrightarrow> t' = t)"
  by (auto simp: svt_handle_pms_def handle_pms2_ok split: Option.bind_split_asm if_split_asm)

subsection \<open>Changing a tracker\<close>

lemma put_trk_frame [simp]:
  "sd_outs (put_trk a t d) = sd_outs d" "sd_outputs (put_trk a t d) = sd_outputs d" "sd_sel (put_trk a t d) = sd_sel d"
  "sd_root (put_trk a t d) = sd_root d" "sd_next (put_trk a t d) = sd_next d" "sd_log (put_trk a t d) = sd_log d"
  "dom (sd_trks (put_trk a t d)) = dom (sd_trks d)"
  by (auto simp: put_trk_def domIff)

lemma get_put_trk: "get_trk d a = Some t \<Longrightarrow> get_trk (put_trk a t' d) b = (if b = a then Some t' else get_trk d b)"
  by (auto simp: get_trk_def put_trk_def)

lemma put_trk_reg:
  assumes reg: "reg_inv d" and t: "get_trk d a = Some t" and t': "trk_ok t'" "tk_pnr t' = tk_pnr t" "tk_out t' = tk_out t"
  shows "reg_inv (put_trk a t' d)"
proof -
  let ?d = "put_trk a t' d"
  have rec: "rec_ok ?d ou r = rec_ok d ou r" for ou r
  proof (cases "fr_trk r = a")
    case True
    from t obtain z where z: "sd_trks d a = Some z" "rc_body z = t" by (auto simp: get_trk_def)
    with True t'(2,3) show ?thesis by (cases z) (auto simp: rec_ok_def put_trk_def)
  next
    case False
    then show ?thesis by (simp add: rec_ok_def put_trk_def)
  qed
  have obj: "objects ?d = objects d" by (simp add: objects_def)
  have "\<forall>b u. get_trk ?d b = Some u \<longrightarrow> trk_ok u" using reg t'(1) unfolding get_put_trk [OF t] by (auto simp: reg_inv_def)
  then show ?thesis using reg unfolding reg_inv_def obj by (simp add: out_ok_def rec)
qed

lemma put_trk_port: "get_trk d a = Some t \<Longrightarrow> tk_input t' = tk_input t \<Longrightarrow> port_of (put_trk a t' d) = port_of d"
  by (auto simp: port_of_def get_put_trk fun_eq_iff split: option.split)

lemma put_trk_held:
  assumes "finite (dom (sd_trks d))" "get_trk d a = Some t"
  shows "\<exists>R. held_pks d = image_mset fst (held (tk_ex t)) + R \<and> held_pks (put_trk a t' d) = image_mset fst (held (tk_ex t')) + R"
proof -
  from assms(2) obtain b where b: "sd_trks d a = Some b" "rc_body b = t" by (auto simp: get_trk_def)
  let ?R = "held_pks (d\<lparr>sd_trks := (sd_trks d)(a := None)\<rparr>)"
  let ?d = "put_trk a t' d"
  have "sd_trks ?d a = Some (b\<lparr>rc_body := t'\<rparr>)" using b(1) by (simp add: put_trk_def)
  from held_split [OF _ this] assms(1) have
    "held_pks ?d = image_mset fst (held (tk_ex t')) + held_pks (?d\<lparr>sd_trks := (sd_trks ?d)(a := None)\<rparr>)" by simp
  moreover have "(sd_trks ?d)(a := None) = (sd_trks d)(a := None)" by (auto simp: put_trk_def)
  then have "held_pks (?d\<lparr>sd_trks := (sd_trks ?d)(a := None)\<rparr>) = ?R" by (intro held_same) simp
  ultimately show ?thesis using held_split [OF assms(1) b(1)] b(2) by auto
qed

text \<open>A tracker whose extractor stays as it is.\<close>

lemma put_trk_inv:
  assumes inv: "dmx_inv d H" and t: "get_trk d a = Some t" "trk_ok t'" "tk_pnr t' = tk_pnr t" "tk_out t' = tk_out t"
      "tk_input t' = tk_input t" "tk_ex t' = tk_ex t"
  shows "dmx_inv (put_trk a t' d) H"
proof -
  have reg: "reg_inv d" using inv by (simp add: dmx_inv_def)
  then have fin: "finite (dom (sd_trks d))" by (simp add: reg_inv_def)
  have "held_pks (put_trk a t' d) = held_pks d" using put_trk_held [OF fin t(1), of t'] t(6) by auto
  moreover have "port_reg (put_trk a t' d)" using inv put_trk_port [OF t(1,5)] by (simp add: dmx_inv_def port_reg_def objects_def)
  ultimately show ?thesis using inv put_trk_reg [OF reg t(1-4)] by (simp add: dmx_inv_def)
qed

text \<open>The output of a tracker.\<close>

lemma tracker_output:
  assumes reg: "reg_inv d" and t: "get_trk d a = Some t"
  shows "\<exists>ou x. tk_out t = [ou] \<and> sd_outs d ou = Some x \<and>
    (\<forall>o' y r. sd_outs d o' = Some y \<longrightarrow> r \<in> set (so_r y) \<longrightarrow> fr_trk r = a \<longrightarrow> o' = ou)"
proof -
  have "a \<in> dom (sd_trks d)" using t by (auto simp: get_trk_def)
  moreover have "\<forall>a\<in>dom (sd_trks d). \<exists>ou x. sd_outs d ou = Some x \<and> a \<in> fr_trk ` set (so_r x)" using reg by (simp add: reg_inv_def)
  ultimately obtain ou x where "sd_outs d ou = Some x" "a \<in> fr_trk ` set (so_r x)" by blast
  then obtain r where x: "sd_outs d ou = Some x" "r \<in> set (so_r x)" "fr_trk r = a" by auto
  have out: "tk_out t = [o']" if "sd_outs d o' = Some y" "r \<in> set (so_r y)" "fr_trk r = a" for o' y r
    using rec_live [OF reg that(1,2)] that(3) t by (auto simp: rec_ok_def get_trk_def)
  have "o' = ou" if "sd_outs d o' = Some y" "r \<in> set (so_r y)" "fr_trk r = a" for o' y r
    using out [OF that] out [OF x] by simp
  with out [OF x] x(1) show ?thesis by blast
qed

subsection \<open>Refreshing\<close>

text \<open>Every output but \<open>ou\<close> is routed.\<close>

definition routed_but :: "nat \<Rightarrow> sw_dmx \<Rightarrow> bool" where
  "routed_but ou d \<longleftrightarrow> (\<forall>o' x. o' \<noteq> ou \<longrightarrow> sd_outs d o' = Some x \<longrightarrow>
     port_set (sd_sel d) (so_port x) = wanted d x \<union> set (pids_of (so_hpids x)))"

lemma refresh_routes:
  assumes inv: "dmx_inv d H" "sd_outs d ou = Some x" and rt: "routed_but ou d"
  shows "\<exists>d'. refresh_output ou d = Some d' \<and> dmx_inv d' H \<and> routed d' \<and> sd_outs d' = sd_outs d \<and> sd_trks d' = sd_trks d"
proof -
  from refresh_output_ok [OF inv] obtain s l where
    r: "refresh_output ou d = Some (d\<lparr>sd_sel := s, sd_log := sd_log d @ l\<rparr>)" "dmx_inv (d\<lparr>sd_sel := s, sd_log := sd_log d @ l\<rparr>) H"
      "\<forall>j. port_set s j = (if j = so_port x then wanted d x \<union> set (pids_of (so_hpids x)) else port_set (sd_sel d) j)" by blast
  let ?d = "d\<lparr>sd_sel := s, sd_log := sd_log d @ l\<rparr>"
  have w: "wanted ?d y = wanted d y" for y by (rule wanted_frame) simp
  have "routed ?d" unfolding routed_def w
  proof (intro allI impI)
    fix o' y assume y: "sd_outs ?d o' = Some y"
    show "port_set (sd_sel ?d) (so_port y) = wanted d y \<union> set (pids_of (so_hpids y))"
    proof (cases "o' = ou")
      case True
      with y inv(2) r(3) show ?thesis by simp
    next
      case False
      with y have y': "sd_outs d o' = Some y" by simp
      from ports_apart [OF inv y' False] r(3) rt False y' show ?thesis by (simp add: routed_but_def)
    qed
  qed
  with r(1,2) show ?thesis by (intro exI [of _ ?d]) simp
qed

text \<open>Changing a tracker disturbs its own output only.\<close>

lemma put_trk_routed:
  assumes reg: "reg_inv d" and t: "get_trk d a = Some t" "tk_out t = [ou]" and rt: "routed_but ou d"
  shows "routed_but ou (put_trk a t' d)"
  unfolding routed_but_def
proof (intro allI impI)
  fix o' x assume o': "o' \<noteq> ou" "sd_outs (put_trk a t' d) o' = Some x"
  then have x: "sd_outs d o' = Some x" by simp
  have "fr_trk r \<noteq> a" if "r \<in> set (so_r x)" for r
    using tracker_output [OF reg t(1)] x that o'(1) t(2) by auto
  then have "wanted (put_trk a t' d) x = wanted d x" unfolding wanted_def
    by (intro SUP_cong refl record_pids_same) (simp add: put_trk_def)
  with rt o'(1) x show "port_set (sd_sel (put_trk a t' d)) (so_port x) = wanted (put_trk a t' d) x \<union> set (pids_of (so_hpids x))"
    by (simp add: routed_but_def)
qed

subsection \<open>Sections\<close>

lemma trk_port:
  assumes inv: "dmx_inv d H" and t: "get_trk d a = Some t"
  shows "\<exists>k. tk_input t = Some k \<and> k \<in> keys (sd_sel d) \<and> port_of d a = Some k \<and> a \<in> objects d \<and> (\<forall>ou x. sd_outs d ou = Some x \<longrightarrow> so_port x \<noteq> k)"
proof -
  have reg: "reg_inv d" and pr: "port_reg d" using inv by (simp_all add: dmx_inv_def)
  have a: "a \<in> dom (sd_trks d)" using t by (auto simp: get_trk_def)
  then have ob: "a \<in> objects d" by (simp add: objects_def)
  have "dom (sd_outs d) = set (sd_outputs d)" "set (sd_outputs d) \<inter> dom (sd_trks d) = {}" using reg by (simp_all add: reg_inv_def)
  with a have none: "a \<notin> dom (sd_outs d)" by auto
  from pr ob obtain k where k: "port_of d a = Some k" "k \<in> keys (sd_sel d)" by (auto simp: port_reg_def)
  have "sd_outs d a = None" using none by auto
  with k(1) t have i: "tk_input t = Some k" by (simp add: port_of_def)
  have "so_port x \<noteq> k" if x: "sd_outs d ou = Some x" for ou x
  proof
    assume "so_port x = k"
    with x k(1) have "port_of d ou = port_of d a" by (simp add: port_of_def)
    moreover have "ou \<in> objects d" using x by (auto simp: objects_def)
    ultimately have "ou = a" using pr ob by (auto simp: port_reg_def dest: inj_onD)
    with x none show False by auto
  qed
  with i k ob show ?thesis by blast
qed

lemma routed_all: "routed d \<Longrightarrow> routed_but ou d"
  by (simp add: routed_def routed_but_def)

lemma hollow_pmts:
  assumes "trk_ok t"
  shows "\<exists>p0 f0 p1 f1. clear_tbl (tk_pmt0 t) = Some (0, p0, f0) \<and> clear_tbl (tk_pmt1 t) = Some (0, p1, f1) \<and>
    (\<forall>q\<in>set_option p0 \<union> set_option p1. pmt_ok q \<and> hollow q)"
proof -
  from clear_pmts [of "tk_pmt0 t"] assms obtain p0 f0 where "clear_tbl (tk_pmt0 t) = Some (0, p0, f0)" "\<forall>q\<in>set_option p0. pmt_ok q \<and> hollow q"
    by (auto simp: trk_ok_def)
  moreover from clear_pmts [of "tk_pmt1 t"] assms obtain p1 f1 where "clear_tbl (tk_pmt1 t) = Some (0, p1, f1)"
    "\<forall>q\<in>set_option p1. pmt_ok q \<and> hollow q" by (auto simp: trk_ok_def)
  ultimately show ?thesis by auto
qed

lemma svt_new_pid_ok:
  assumes inv: "dmx_inv d H" "routed d" and t: "get_trk d a = Some t" "tk_out t = [ou]" and pid: "unat pid < 8192"
  shows "\<exists>d' t'. svt_new_pid a pid d = Some d' \<and> dmx_inv d' H \<and> routed_but ou d' \<and> sd_outs d' = sd_outs d \<and> get_trk d' a = Some t' \<and>
    tk_out t' = [ou] \<and> tk_pid t' = pid \<and> tk_pnr t' = tk_pnr t \<and>
    port_set (sd_sel d') (the (tk_input t')) = {0, pid} \<and> (\<forall>q\<in>set_option (tk_pmt0 t') \<union> set_option (tk_pmt1 t'). hollow q)"
proof -
  have reg: "reg_inv d" using inv(1) by (simp add: dmx_inv_def)
  have tok: "trk_ok t" using reg t(1) by (simp add: reg_inv_def)
  from trk_port [OF inv(1) t(1)] obtain k where k: "tk_input t = Some k" "k \<in> keys (sd_sel d)"
    "\<forall>ou x. sd_outs d ou = Some x \<longrightarrow> so_port x \<noteq> k" by blast
  have arg: "pb_ok (Some [0, pid]) 2" "\<forall>x\<in>set (pids_of (Some [0, pid])). unat x < 8192" using pid by (simp_all add: pb_ok_def)
  from mod_port_inv [OF inv(1) k(2) arg] obtain s l where
    m: "mod_port (Some k) 2 (Some [0, pid]) d = Some (d\<lparr>sd_sel := s, sd_log := sd_log d @ l\<rparr>)"
      "dmx_inv (d\<lparr>sd_sel := s, sd_log := sd_log d @ l\<rparr>) H"
      "\<forall>j. port_set s j = (if j = k then {0, pid} else port_set (sd_sel d) j)" by auto
  let ?d = "d\<lparr>sd_sel := s, sd_log := sd_log d @ l\<rparr>"
  from hollow_pmts [OF tok] obtain p0 f0 p1 f1 where
    c: "clear_tbl (tk_pmt0 t) = Some (0, p0, f0)" "clear_tbl (tk_pmt1 t) = Some (0, p1, f1)"
      "\<forall>q\<in>set_option p0 \<union> set_option p1. pmt_ok q \<and> hollow q" by blast
  let ?t = "t\<lparr>tk_pid := pid, tk_pmt0 := p0, tk_pmt1 := p1\<rparr>"
  have gt: "get_trk ?d a = Some t" using t(1) by simp
  have "svt_new_pid a pid d = Some (put_trk a ?t ?d)" using t(1) k(1) m(1) c(1,2) by (simp add: svt_new_pid_def)
  moreover have "trk_ok ?t" using tok pid c(3) by (simp add: trk_ok_def)
  then have "dmx_inv (put_trk a ?t ?d) H" by (intro put_trk_inv [OF m(2) gt]) simp_all
  moreover have "wanted ?d x = wanted d x" for x by (rule wanted_frame) simp
  then have "routed_but ou ?d" using inv(2) k(3) m(3) by (simp add: routed_but_def routed_def)
  then have "routed_but ou (put_trk a ?t ?d)" using m(2) by (intro put_trk_routed [OF _ gt t(2)]) (simp_all add: dmx_inv_def)
  ultimately show ?thesis
    using get_put_trk [OF gt, of ?t a] t(2) k(1) m(3) c(3) by (intro exI [of _ "put_trk a ?t ?d"] exI [of _ ?t]) simp
qed

text \<open>The outcome of a handler of a section: either nothing has changed, or the output \<open>ou\<close> has to be refreshed.\<close>

definition handled :: "sw_dmx \<Rightarrow> nat multiset \<Rightarrow> nat \<Rightarrow> nat \<Rightarrow> bool \<Rightarrow> sw_dmx \<Rightarrow> bool" where
  "handled d H a ou ro d' \<longleftrightarrow> dmx_inv d' H \<and> routed_but ou d' \<and> sd_outs d' = sd_outs d \<and> (\<exists>t. get_trk d' a = Some t \<and> tk_out t = [ou]) \<and>
     (\<not> ro \<longrightarrow> d' = d)"

lemma handled_same: "dmx_inv d H \<Longrightarrow> routed d \<Longrightarrow> get_trk d a = Some t \<Longrightarrow> tk_out t = [ou] \<Longrightarrow> handled d H a ou ro d"
  by (simp add: handled_def routed_all)

lemma svt_handle_pas_ok:
  assumes inv: "dmx_inv d H" "routed d" and t: "get_trk d a = Some t" "tk_out t = [ou]" and run: "svt_handle_pas a s d = Some (ro, d')"
  shows "handled d H a ou ro d'"
proof -
  from run consider "d' = d" | tpas l pid where "parse_pas True s blank_pas = Some (0, tpas)" "pat_cells tpas = Some l"
      "find_pid (tk_pnr t) l = Some pid" "svt_new_pid a pid d = Some d'" "ro"
    using t(1) by (auto simp: svt_handle_pas_def bind_eq_Some_conv split: if_split_asm option.split_asm)
  then show ?thesis
  proof cases
    case 1
    with handled_same [OF inv t] show ?thesis by simp
  next
    case 2
    then have "unat pid < 8192" using parsed_pas [OF 2(1,2)] find_pid_in [OF 2(3)] by force
    from svt_new_pid_ok [OF inv t this] 2(4,5) show ?thesis by (auto simp: handled_def)
  qed
qed

lemma svt_handle_pms_inv:
  assumes inv: "dmx_inv d H" "routed d" and t: "get_trk d a = Some t" "tk_out t = [ou]" and run: "svt_handle_pms s t = Some (ro, t')"
  shows "handled d H a ou ro (put_trk a t' d)"
proof -
  have reg: "reg_inv d" using inv(1) by (simp add: dmx_inv_def)
  then have tok: "trk_ok t" using t(1) by (simp add: reg_inv_def)
  from handle_pms_ok [OF tok run] have t': "trk_ok t'" "tk_pnr t' = tk_pnr t" "tk_out t' = tk_out t" "tk_input t' = tk_input t" "tk_ex t' = tk_ex t"
    "\<not> ro \<longrightarrow> t' = t" by (simp_all add: tables_only_def)
  have "put_trk a t d = d" using t(1) by (auto simp: put_trk_def get_trk_def intro!: sw_dmx.equality)
  with put_trk_inv [OF inv(1) t(1) t'(1-5)] put_trk_routed [OF reg t routed_all [OF inv(2)], of t'] get_put_trk [OF t(1), of t' a] t' t(2)
  show ?thesis by (auto simp: handled_def)
qed

lemma svt_dispatch_ok:
  assumes inv: "dmx_inv d H" "routed d" and t: "get_trk d a = Some t" "tk_out t = [ou]" and run: "svt_dispatch a s d = Some (ro, d')"
  shows "handled d H a ou ro d'"
proof -
  from run consider "d' = d" | "svt_handle_pas a s d = Some (ro, d')" | t' where "svt_handle_pms s t = Some (ro, t')" "d' = put_trk a t' d"
    using t(1) by (auto simp: svt_dispatch_def bind_eq_Some_conv split: if_split_asm)
  then show ?thesis
    using handled_same [OF inv t] svt_handle_pas_ok [OF inv t] svt_handle_pms_inv [OF inv t] by cases auto
qed

lemma svt_section_ok:
  assumes inv: "dmx_inv d H" "routed d" and t: "get_trk d a = Some t" and run: "svt_section a s d = Some d'"
  shows "dmx_inv d' H \<and> routed d' \<and> sd_outs d' = sd_outs d"
proof -
  have reg: "reg_inv d" using inv(1) by (simp add: dmx_inv_def)
  from tracker_output [OF reg t] obtain ou x where ou: "tk_out t = [ou]" "sd_outs d ou = Some x" by blast
  from run obtain ro d1 t1 where 1: "svt_dispatch a s d = Some (ro, d1)" "get_trk d1 a = Some t1"
      "(if ro then refresh_all (tk_out t1) d1 else Some d1) = Some d'"
    by (auto simp: svt_section_def split: Option.bind_split_asm prod.split_asm)
  note h = svt_dispatch_ok [OF inv t ou(1) 1(1)]
  show ?thesis
  proof (cases ro)
    case False
    with h 1(3) inv show ?thesis by (simp add: handled_def)
  next
    case True
    from h 1(2) have d1: "dmx_inv d1 H" "routed_but ou d1" "sd_outs d1 = sd_outs d" "tk_out t1 = [ou]" by (auto simp: handled_def)
    from refresh_routes [OF d1(1) _ d1(2), of x] ou(2) d1(3) True d1(4) 1(3) show ?thesis by auto
  qed
qed

subsection \<open>Packets\<close>

text \<open>Giving packets back changes neither trackers nor PIDs.\<close>

lemma same_ports_routed:
  assumes "port_set (sd_sel d') = port_set (sd_sel d)" "sd_outs d' = sd_outs d"
    "\<And>x. wanted d' x = wanted d x" "routed d"
  shows "routed d'"
  using assms by (simp add: routed_def)

lemma svt_release_pk_ok:
  assumes inv: "dmx_inv d (add_mset p H)" "routed d" and run: "svt_release_pk p d = Some d'"
  shows "dmx_inv d' H \<and> routed d' \<and> sd_outs d' = sd_outs d"
proof -
  have "sel_inv (sd_sel d) (image_mset fst (mset [(p, [] :: buffer)]) + (held_pks d + H))" using inv(1) by (simp add: dmx_inv_def)
  from release_pks_ok [OF this] run obtain s where s: "d' = d\<lparr>sd_sel := s\<rparr>" "sel_inv s (held_pks d + H)" "ports s = ports (sd_sel d)"
    by (auto split: Option.bind_split_asm)
  note fr = ports_frame [OF s(3)]
  have "held_pks d' = held_pks d" by (rule held_same) (simp add: s(1))
  moreover have "port_of d' = port_of d" by (simp add: s(1) port_of_def fun_eq_iff)
  ultimately have "dmx_inv d' H" using inv(1) s(2) fr by (simp add: dmx_inv_def port_reg_def s(1))
  moreover have "routed d'" using fr
    by (intro same_ports_routed [OF _ _ _ inv(2)]) (simp_all add: s(1) wanted_def record_pids_def)
  ultimately show ?thesis by (simp add: s(1))
qed

text \<open>The packet goes through the extractor of the tracker.\<close>

lemma extract_ok:
  assumes inv: "dmx_inv d (add_mset p H)" "routed d" and t: "get_trk d a = Some t" and pk: "packet_ok b"
    and run: "secExPut True (tk_ex t) (p, b) = Some (ex, rel, out)"
  shows "\<exists>d1. release_pks rel d = Some d1 \<and> dmx_inv (put_trk a (t\<lparr>tk_ex := ex\<rparr>) d1) H \<and> routed (put_trk a (t\<lparr>tk_ex := ex\<rparr>) d1) \<and>
    sd_outs (put_trk a (t\<lparr>tk_ex := ex\<rparr>) d1) = sd_outs d \<and> get_trk (put_trk a (t\<lparr>tk_ex := ex\<rparr>) d1) a = Some (t\<lparr>tk_ex := ex\<rparr>)"
proof -
  have reg: "reg_inv d" using inv(1) by (simp add: dmx_inv_def)
  then have fin: "finite (dom (sd_trks d))" and tok: "trk_ok t" using t by (simp_all add: reg_inv_def)
  then have "ex_inv (tk_ex t)" by (simp add: trk_ok_def)
  from put_run [OF this, of "(p, b)" True] pk run have ex: "ex_inv ex" "mset rel + held ex = held (tk_ex t) + {#(p, b)#}" by auto
  let ?t = "t\<lparr>tk_ex := ex\<rparr>"
  from put_trk_held [OF fin t, of ?t] obtain R where R: "held_pks d = image_mset fst (held (tk_ex t)) + R"
    "held_pks (put_trk a ?t d) = image_mset fst (held ex) + R" by auto
  have "image_mset fst (mset rel) + image_mset fst (held ex) = image_mset fst (held (tk_ex t)) + {#p#}"
    using arg_cong [OF ex(2), of "image_mset fst"] by simp
  then have "held_pks d + add_mset p H = image_mset fst (mset rel) + (image_mset fst (held ex) + R + H)"
    unfolding R(1) by (metis (no_types, opaque_lifting) add.assoc add.commute add_mset_add_single)
  moreover have "sel_inv (sd_sel d) (held_pks d + add_mset p H)" using inv(1) by (simp add: dmx_inv_def)
  ultimately have "sel_inv (sd_sel d) (image_mset fst (mset rel) + (image_mset fst (held ex) + R + H))" by metis
  from release_pks_ok [OF this] obtain s where s: "release_pks rel d = Some (d\<lparr>sd_sel := s\<rparr>)"
    "sel_inv s (image_mset fst (held ex) + R + H)" "ports s = ports (sd_sel d)" by blast
  note fr = ports_frame [OF s(3)]
  let ?d1 = "d\<lparr>sd_sel := s\<rparr>"
  let ?d = "put_trk a ?t ?d1"
  have gt: "get_trk ?d1 a = Some t" using t by simp
  have "reg_inv ?d" using reg tok ex(1) by (intro put_trk_reg [OF _ gt]) (simp_all add: trk_ok_def)
  moreover have "port_reg ?d"
    using inv(1) fr put_trk_port [OF gt, of ?t] by (simp add: dmx_inv_def port_reg_def objects_def port_of_def)
  moreover have "held_pks ?d = held_pks (put_trk a ?t d)" by (rule held_same) (simp add: put_trk_def)
  ultimately have "dmx_inv ?d H" using inv(1) s(2) R(2) fr by (simp add: dmx_inv_def)
  moreover have "record_pids ?d r = record_pids d r" for r
    using t by (auto simp: record_pids_def get_put_trk [OF gt])
  then have "routed ?d" using fr by (intro same_ports_routed [OF _ _ _ inv(2)]) (simp_all add: wanted_def)
  ultimately show ?thesis using s(1) get_put_trk [OF gt, of ?t a] by (intro exI [of _ ?d1]) simp
qed

lemma svt_packet_put_ok:
  assumes inv: "dmx_inv d (add_mset p H)" "routed d"
    and pk: "\<And>b. map_option rc_body (mem (sd_sel d) p) = Some b \<Longrightarrow> sb_type b = 0 \<Longrightarrow> packet_ok (sb_data b)"
    and run: "svt_packet_put a p d = Some d'"
  shows "dmx_inv d' H \<and> routed d' \<and> sd_outs d' = sd_outs d"
proof -
  from run obtain t b where t: "get_trk d a = Some t" "map_option rc_body (mem (sd_sel d) p) = Some b"
    and r: "(if sb_type b \<noteq> 0 then svt_release_pk p d
      else do {
        (ex, rel, out) \<leftarrow> secExPut True (tk_ex t) (p, sb_data b);
        d \<leftarrow> release_pks rel d;
        let d = put_trk a (t\<lparr>tk_ex := ex\<rparr>) d;
        (case out of
           None \<Rightarrow> Some d
         | Some (pid, s) \<Rightarrow> svt_section a s d)
      }) = Some d'"
    unfolding svt_packet_put_def by (auto simp only: bind_eq_Some_conv)
  show ?thesis
  proof (cases "sb_type b = 0")
    case False
    with r svt_release_pk_ok [OF inv] show ?thesis by simp
  next
    case True
    with r obtain ex rel out d1 where e: "secExPut True (tk_ex t) (p, sb_data b) = Some (ex, rel, out)" "release_pks rel d = Some d1"
      "(case out of None \<Rightarrow> Some (put_trk a (t\<lparr>tk_ex := ex\<rparr>) d1)
        | Some (pid, s) \<Rightarrow> svt_section a s (put_trk a (t\<lparr>tk_ex := ex\<rparr>) d1)) = Some d'"
      by (auto simp: bind_eq_Some_conv Let_def)
    from extract_ok [OF inv t(1) pk [OF t(2) True] e(1)] e(2) have
      d2: "dmx_inv (put_trk a (t\<lparr>tk_ex := ex\<rparr>) d1) H" "routed (put_trk a (t\<lparr>tk_ex := ex\<rparr>) d1)"
        "sd_outs (put_trk a (t\<lparr>tk_ex := ex\<rparr>) d1) = sd_outs d" "get_trk (put_trk a (t\<lparr>tk_ex := ex\<rparr>) d1) a = Some (t\<lparr>tk_ex := ex\<rparr>)" by auto
    show ?thesis
    proof (cases out)
      case None
      with e(3) d2 show ?thesis by auto
    next
      case (Some q)
      obtain pid s where "q = (pid, s)" by (cases q)
      with Some e(3) svt_section_ok [OF d2(1,2,4)] d2(3) show ?thesis by simp
    qed
  qed
qed
end
