(* ===== verification/SvtTotal.thy ===== *)
theory SvtTotal
  imports SvtPut
begin

text \<open>
  The service tracker (stream/svt.c): which sections it takes in without a fault.  Each function of
  the receiving side returns when the section is inside its bounds and the tables have their arrays.
\<close>

subsection \<open>Sections that are handled\<close>

text \<open>A programme map section that the parser reads inside its buffer and whose number is not behind the last one.\<close>

definition fit_pms :: "buffer \<Rightarrow> bool" where
  "fit_pms s \<longleftrightarrow> (len_field s < 10 + pi_len s \<or> 13 + pi_len s \<le> len_field s) \<and> s ! 6 \<le> s ! 7"

text \<open>A table of the version and size of the section has its array.\<close>

definition has_room :: "buffer \<Rightarrow> pms table \<Rightarrow> bool" where
  "has_room s p \<longleftrightarrow> (tbl_version p = int (unat (field s 42 5)) \<and> num_sections p = unat (s ! 7) + 1 \<longrightarrow> length (sections p) = num_sections p)"

definition digestible :: "svc_trk \<Rightarrow> buffer \<Rightarrow> bool" where
  "digestible t s \<longleftrightarrow> len_field s \<le> 4092 \<and>
     (s ! 0 = 2 \<longrightarrow> fit_pms s \<and> (\<forall>p\<in>set_option (tk_pmt0 t) \<union> set_option (tk_pmt1 t). has_room s p))"

lemma sec_reads:
  assumes "length s = 4096"
  shows "get_sec_last s = Some (s ! 7)" "get_sec_nr s = Some (s ! 6)" "get_sec_id s = Some (s ! 0)"
    "get_sec_version s = Some (field s 42 5)" "sec_is_current s = Some (field s 47 1)" "get_sec_pnr s = Some (field s 24 16)"
  using assms bitsGet_eq [of 5 5 2 s] bitsGet_eq [of 1 5 7 s] bitsGet_eq [of 16 3 0 s]
  by (simp_all add: get_sec_last_def get_sec_nr_def get_sec_id_def get_sec_version_def sec_is_current_def get_sec_pnr_def rd_def)

lemma byte_room: "0 < unat (b :: u8) + 1" "unat b + 1 \<le> 256"
proof -
  have "unat b < 256" using unsigned_less [of b, where 'a = nat] by simp
  then show "0 < unat b + 1" "unat b + 1 \<le> 256" by linarith+
qed

lemma renew_pmt_total:
  assumes "length s = 4096" "pmt_ok p" "has_room s p"
  shows "\<exists>ro' p'. renew_pmt s ro p = Some (ro', p') \<and> length (sections p') = unat (s ! 7) + 1"
proof (cases "num_sections p \<noteq> unat (s ! 7) + 1 \<or> int (unat (field s 42 5)) \<noteq> tbl_version p")
  case True
  with reinit_pmt_ok [OF assms(2) byte_room [of "s ! 7"]] show ?thesis by (auto simp: renew_pmt_def sec_reads [OF assms(1)])
next
  case False
  with assms(3) show ?thesis by (auto simp: renew_pmt_def has_room_def sec_reads [OF assms(1)])
qed

lemma enter_missing_total:
  assumes "length s = 4096" "len_field s \<le> 4092" "fit_pms s" and p: "pmt_ok p" "length (sections p) = unat (s ! 7) + 1"
  shows "\<exists>ro' p'. enter_missing s ro p = Some (ro', p')"
proof -
  have lt: "unat (s ! 6) < 8 * length (occupied p)" using p(1) byte_room(2) [of "s ! 6"] by (simp add: pmt_ok_def)
  obtain b where b: "bifiGet (occupied p) (unat (s ! 6)) = Some b"
    using bf.mem_cases [OF lt] by metis
  from parse_pms_run [of s True always zero_pms] assms(1,2,3) obtain rc q where
    q: "parse_pms True always s zero_pms = Some (rc, q)" "rc = 0 \<longrightarrow> m_section q = s ! 6" by (auto simp: fit_pms_def)
  show ?thesis
  proof (cases "b = 0 \<and> rc = 0")
    case True
    from bifiSet_set [OF lt] obtain oc where "bifiSet (occupied p) (unat (s ! 6)) = Some oc" by blast
    moreover have "unat (ucast (m_section q) :: u16) < length (sections p)"
      using True q(2) p(2) assms(3) by (simp add: fit_pms_def word_le_nat_alt)
    ultimately show ?thesis
      using True b q p(1) by (auto simp: enter_missing_def sec_reads [OF assms(1)] enter_sec_def same_kind_def pmt_ok_def sec_kind_def to_section_def)
  next
    case False
    with b q show ?thesis by (auto simp: enter_missing_def sec_reads [OF assms(1)])
  qed
qed

lemma update_pmt_total:
  assumes "length s = 4096" "len_field s \<le> 4092" "fit_pms s" "pmt_ok p" "has_room s p"
  shows "\<exists>ro' p'. update_pmt s ro p = Some (ro', p')"
proof -
  from renew_pmt_total [OF assms(1,4,5)] obtain ro1 p1 where 1: "renew_pmt s ro p = Some (ro1, p1)" "length (sections p1) = unat (s ! 7) + 1" by blast
  from renew_pmt_ok [OF assms(4) 1(1)] enter_missing_total [OF assms(1-3) _ 1(2)] 1(1) show ?thesis by (auto simp: update_pmt_def)
qed

lemma take_next_total:
  assumes "trk_ok t" "pmt_at nx t \<noteq> None"
  shows "\<exists>ro t'. take_next v nx t = Some (ro, t') \<and> pmt_at nx t' \<noteq> None \<and>
    set_option (tk_pmt0 t') \<union> set_option (tk_pmt1 t') \<subseteq> set_option (tk_pmt0 t) \<union> set_option (tk_pmt1 t)"
proof (cases "tk_pmt0 t")
  case (Some p0)
  with assms(1) clear_pmt [of p0] obtain t' fr where "clear_tbl (Some p0) = Some (0, Some t', fr)" by (auto simp: trk_ok_def)
  with Some assms(2) show ?thesis by (cases nx; cases "tk_pmt1 t") (auto simp: take_next_def pmt_at_def)
qed (use assms(2) in \<open>auto simp: take_next_def split: option.split\<close>)

lemma handle_pms2_total:
  assumes s: "length s = 4096" "len_field s \<le> 4092" "fit_pms s" and t: "trk_ok t"
    "\<forall>p\<in>set_option (tk_pmt0 t) \<union> set_option (tk_pmt1 t). has_room s p"
  shows "\<exists>ro t'. svt_handle_pms2 s t nx = Some (ro, t')"
proof -
  from new_pmt_ok [OF byte_room [of "s ! 7"]] obtain q where
    q: "new_tbl True (unat (s ! 7) + 1) 2 = Some (Some q)" "pmt_ok q" "num_sections q = unat (s ! 7) + 1" "length (sections q) = unat (s ! 7) + 1"
    by blast
  obtain t1 where t1: "(case pmt_at nx t of
            None \<Rightarrow> do { last \<leftarrow> get_sec_last s; p \<leftarrow> new_tbl True (unat last + 1) 2; Some (set_pmt nx p t) }
          | Some _ \<Rightarrow> Some t) = Some t1" "trk_ok t1" "pmt_at nx t1 \<noteq> None"
    "\<forall>p\<in>set_option (tk_pmt0 t1) \<union> set_option (tk_pmt1 t1). has_room s p"
  proof (cases "pmt_at nx t")
    case None
    have "\<forall>p\<in>set_option (tk_pmt0 (set_pmt nx (Some q) t)) \<union> set_option (tk_pmt1 (set_pmt nx (Some q) t)). has_room s p"
      using t(2) q(3,4) by (auto simp: set_pmt_def has_room_def)
    with that [of "set_pmt nx (Some q) t"] None q(1,2) set_pmt_ok [OF t(1), of "Some q" nx] show ?thesis
      by (simp add: sec_reads [OF s(1)] set_pmt_same)
  next
    case (Some p)
    with that [of t] t show ?thesis by simp
  qed
  from take_next_total [OF t1(2,3), of "unat (field s 42 5)"] obtain ro t2 p where
    t2: "take_next (unat (field s 42 5)) nx t1 = Some (ro, t2)" "pmt_at nx t2 = Some p"
      "set_option (tk_pmt0 t2) \<union> set_option (tk_pmt1 t2) \<subseteq> set_option (tk_pmt0 t1) \<union> set_option (tk_pmt1 t1)" by blast
  from take_next_ok [OF t1(2) t2(1)] have tok: "trk_ok t2" by simp
  have "p \<in> set_option (tk_pmt0 t2) \<union> set_option (tk_pmt1 t2)" using t2(2) by (auto simp: pmt_at_def split: if_split_asm)
  with t2(3) t1(4) have "has_room s p" by blast
  from update_pmt_total [OF s pmt_at_ok [OF tok t2(2)] this] obtain ro' p' where "update_pmt s ro p = Some (ro', p')" by blast
  with t1(1,3) t2(1,2) show ?thesis by (auto simp: svt_handle_pms2_def sec_reads [OF s(1)])
qed

lemma pat_cells_pas_of: "\<exists>l. pat_cells (pas_of s) = Some l"
proof -
  let ?n = "(len_field s - 9) div 4"
  have "len_field s < 4096" using field_bound [of 12 s 12] by simp
  then have "?n < 65536" by linarith
  then have "unat (word_of_nat ?n :: u16) = ?n" by (simp add: unat_of_nat)
  then show ?thesis by (simp add: pat_cells_def pas_of_def)
qed

lemma svt_handle_pas_total:
  assumes inv: "dmx_inv d H" "routed d" and t: "get_trk d a = Some t" "tk_out t = [ou]" and s: "length s = 4096" "len_field s \<le> 4092"
  shows "\<exists>ro d'. svt_handle_pas a s d = Some (ro, d')"
proof -
  from parse_pas_run [of s True blank_pas] s obtain rc p where p: "parse_pas True s blank_pas = Some (rc, p)" "rc = 0 \<longrightarrow> p = pas_of s" by auto
  from pat_cells_pas_of [of s] obtain l where l: "pat_cells (pas_of s) = Some l" by blast
  show ?thesis
  proof (cases "field s 47 1 \<noteq> 0 \<and> rc = 0")
    case False
    with p(1) show ?thesis by (auto simp: svt_handle_pas_def sec_reads [OF s(1)])
  next
    case True
    show ?thesis
    proof (cases "find_pid (tk_pnr t) l")
      case None
      with True p l t show ?thesis by (auto simp: svt_handle_pas_def sec_reads [OF s(1)])
    next
      case (Some pid)
      have "parse_pas True s blank_pas = Some (0, pas_of s)" using True p by simp
      from parsed_pas [OF this l] find_pid_in [OF Some] have "unat pid < 8192" by force
      from svt_new_pid_ok [OF inv t this] True p l t Some show ?thesis
        by (cases "pid = tk_pid t") (auto simp: svt_handle_pas_def sec_reads [OF s(1)])
    qed
  qed
qed

lemma svt_dispatch_total:
  assumes inv: "dmx_inv d H" "routed d" and t: "get_trk d a = Some t" "tk_out t = [ou]" and s: "length s = 4096" "digestible t s"
  shows "\<exists>ro d'. svt_dispatch a s d = Some (ro, d')"
proof -
  from inv(1) t(1) have tok: "trk_ok t" by (simp add: dmx_inv_def reg_inv_def)
  show ?thesis
  proof (cases "s ! 0 = 2")
    case True
    with s(2) handle_pms2_total [OF s(1) _ _ tok] have "\<exists>ro t'. svt_handle_pms2 s t nx = Some (ro, t')" for nx by (simp add: digestible_def)
    then have "\<exists>ro t'. svt_handle_pms s t = Some (ro, t')" by (simp add: svt_handle_pms_def sec_reads [OF s(1)])
    then obtain ro t' where "svt_handle_pms s t = Some (ro, t')" by blast
    with True t(1) show ?thesis by (auto simp: svt_dispatch_def sec_reads [OF s(1)])
  next
    case False
    with svt_handle_pas_total [OF inv t s(1)] s(2) show ?thesis by (auto simp: svt_dispatch_def sec_reads [OF s(1)] digestible_def)
  qed
qed

lemma svt_section_total:
  assumes inv: "dmx_inv d H" "routed d" and t: "get_trk d a = Some t" and s: "length s = 4096" "digestible t s"
  shows "\<exists>d'. svt_section a s d = Some d'"
proof -
  have reg: "reg_inv d" using inv(1) by (simp add: dmx_inv_def)
  from tracker_output [OF reg t] obtain ou x where ou: "tk_out t = [ou]" "sd_outs d ou = Some x" by blast
  from svt_dispatch_total [OF inv t ou(1) s] obtain ro d1 where r: "svt_dispatch a s d = Some (ro, d1)" by blast
  from svt_dispatch_ok [OF inv t ou(1) r] obtain t1 where
    d1: "dmx_inv d1 H" "routed_but ou d1" "sd_outs d1 = sd_outs d" "get_trk d1 a = Some t1" "tk_out t1 = [ou]" by (auto simp: handled_def)
  from refresh_routes [OF d1(1) _ d1(2), of x] ou(2) d1(3) obtain d2 where "refresh_output ou d1 = Some d2" by auto
  with r d1(4,5) show ?thesis by (simp add: svt_section_def)
qed

lemma block_live:
  assumes "dmx_inv d (add_mset p H)"
  shows "\<exists>b. map_option rc_body (mem (sd_sel d) p) = Some b"
proof -
  let ?R = "refs (sd_sel d) (held_pks d + add_mset p H)"
  have "ref_inv (sd_sel d) ?R" using assms by (simp add: dmx_inv_def sel_inv_def)
  moreover have "p \<in># ?R" by simp
  ultimately obtain blk where "mem (sd_sel d) p = Some blk" by (metis ref_inv_live)
  then show ?thesis by simp
qed

text \<open>The section that the packet completes, if any.\<close>

definition completes :: "sw_dmx \<Rightarrow> svc_trk \<Rightarrow> nat \<Rightarrow> buffer \<Rightarrow> bool" where
  "completes d t p s \<longleftrightarrow> (\<exists>b ex rel pid. map_option rc_body (mem (sd_sel d) p) = Some b \<and> sb_type b = 0 \<and>
     secExPut True (tk_ex t) (p, sb_data b) = Some (ex, rel, Some (pid, s)))"

end
