(* ===== verification/SvtRun.thy ===== *)
theory SvtRun
  imports SvtTotal
begin

text \<open>
  The service tracker (stream/svt.c) in operation: what holds in every state that the operations
  reach, what a change of an output does, when a packet is handled without a fault, and which
  change of the PAT makes the tracker fault.
\<close>

subsection \<open>Traffic through the selector\<close>

text \<open>The blocks that clients allocate, fill, feed, read and release.  A block that a tracker holds is not
  overwritten.\<close>

definition traffic :: "sel_op \<Rightarrow> nat multiset \<Rightarrow> nat multiset \<Rightarrow> bool" where
  "traffic op X H = (case op of
     OpAlloc \<Rightarrow> True
   | OpFill p _ \<Rightarrow> p \<in># H \<and> p \<notin># X
   | OpFeed p \<Rightarrow> p \<in># H
   | OpRead _ \<Rightarrow> True
   | OpRelease p \<Rightarrow> p \<in># H
   | _ \<Rightarrow> False)"

lemma traffic_copy: "traffic op X H \<Longrightarrow> pid_copy_ok op"
  by (cases op) (simp_all add: traffic_def pid_copy_ok_def)

lemma sel_exec_frame:
  assumes "traffic op X H" "sel_exec ok oke op s H = Some (s', H')"
  shows "sel_exec ok oke op s (X + H) = Some (s', X + H')"
proof (cases op)
  case (OpFeed p)
  with assms(1) obtain H0 where "H = add_mset p H0" by (auto simp: traffic_def dest: mset_add)
  with OpFeed assms(2) show ?thesis by (auto simp: sel_exec_def split: option.split_asm)
next
  case (OpRelease p)
  with assms(1) obtain H0 where "H = add_mset p H0" by (auto simp: traffic_def dest: mset_add)
  with OpRelease assms(2) show ?thesis by (auto simp: sel_exec_def split: option.split_asm)
qed (use assms in \<open>auto simp: traffic_def sel_exec_def split: option.split_asm prod.split_asm\<close>)

lemma pids_view:
  assumes "map (\<lambda>(k, n, a, b, Q). (k, a)) (view s') = map (\<lambda>(k, n, a, b, Q). (k, a)) (view s)"
  shows "keys s' = keys s" "port_set s' = port_set s" "selected s' = selected s"
proof -
  have keys_of: "keys t = fst ` set (map (\<lambda>(k, n, a, b, Q). (k, a)) (view t))" for t
    unfolding keys_view by force
  show "keys s' = keys s" unfolding keys_of assms ..
  have sel_of: "selected t = (\<Union>x\<in>set (map (\<lambda>(k, n, a, b, Q). (k, a)) (view t)). set (pids_of (snd x)))" for t
    unfolding selected_view by force
  show "selected s' = selected s" unfolding sel_of assms ..
  have "map_of (map (\<lambda>(k, n, a, b, Q). (k, a)) v) j = map_option (\<lambda>(n, a, x). a) (map_of v j)" for j and v :: "port_view list"
    by (induction v) auto
  then have set_of: "port_set t j = (case map_of (map (\<lambda>(k, n, a, b, Q). (k, a)) (view t)) j of None \<Rightarrow> {} | Some a \<Rightarrow> set (pids_of a))" for t j
    unfolding port_set_view by (auto split: option.split)
  show "port_set s' = port_set s" unfolding fun_eq_iff set_of assms by simp
qed

lemma traffic_pids:
  assumes inv: "sel_inv s G" and tr: "traffic op X G" and pre: "sel_pre op s G" and run: "sel_exec ok oke op s G = Some (s', G')"
  shows "map (\<lambda>(k, n, a, b, Q). (k, a)) (view s') = map (\<lambda>(k, n, a, b, Q). (k, a)) (view s)"
proof (cases op)
  case OpAlloc
  with run have "ports s' = ports s"
    by (auto simp: sel_exec_def selectorAllocElementUnsafe_def split: prod.split_asm option.split_asm if_split_asm)
  then show ?thesis by simp
next
  case (OpFill p bs)
  with run have "ports s' = ports s" by (auto simp: sel_exec_def split: option.split_asm)
  then show ?thesis by simp
next
  case (OpFeed p)
  with pre have p: "p \<in># G" by (simp add: sel_pre_def)
  then obtain H' where H: "G = add_mset p H'" by (metis mset_add)
  from inv have "ref_inv s (refs s G)" by (simp add: sel_inv_def)
  from ref_inv_live [OF this, of p] p obtain blk where "mem s p = Some blk" by (metis union_iff)
  then have b: "bodies s p = Some (rc_body blk)" by (simp add: bodies_def)
  have "size (refs s (add_mset p H')) + fan_out (sb_type (rc_body blk) \<noteq> 0) (ts_pid (sb_data (rc_body blk))) (ports s) < 2 ^ 32"
    using pre OpFeed H fan_out_bound [of "sb_type (rc_body blk) \<noteq> 0" "ts_pid (sb_data (rc_body blk))" "ports s"]
    by (simp add: sel_pre_def)
  from feed_run [OF _ b this, of oke] inv H OpFeed run show ?thesis
    by (auto simp: sel_exec_def split: option.split_asm)
next
  case (OpRead k)
  with pre obtain prt where prt: "map_of (ports s) k = Some prt" by (auto simp: sel_pre_def)
  from read_run [OF inv prt] obtain d' rv where r: "selector_read_element_internal s k = Some (d', rv)"
    "case q prt of [] \<Rightarrow> d' = s | x # r \<Rightarrow> view d' = map (\<lambda>(k', num, a, s, Q). (k', num, a, s, if k' = k then tl Q else Q)) (view s)"
    by (cases "q prt") auto
  have "s' = d'" using OpRead run r(1) by (auto simp: sel_exec_def selectorReadElementUnsafe_def split: option.split_asm prod.split_asm)
  with r(2) show ?thesis by (cases "q prt") auto
next
  case (OpRelease p)
  with pre obtain H' where H: "G = add_mset p H'" by (auto simp: sel_pre_def dest: mset_add)
  with sel_release [of s p H'] inv OpRelease run have "ports s' = ports s"
    by (auto simp: sel_exec_def selectorReleaseElementUnsafe_def)
  then show ?thesis by simp
qed (use tr in \<open>simp_all add: traffic_def\<close>)

lemma traffic_ok:
  assumes inv: "dmx_inv d H" and tr: "traffic op (held_pks d) H" and pre: "sel_pre op (sd_sel d) (held_pks d + H)"
    and run: "sel_exec ok oke op (sd_sel d) H = Some (s, H')"
  shows "dmx_inv (d\<lparr>sd_sel := s\<rparr>) H' \<and> (routed d \<longrightarrow> routed (d\<lparr>sd_sel := s\<rparr>))"
proof -
  let ?G = "held_pks d + H"
  have sel: "sel_inv (sd_sel d) ?G" using inv by (simp add: dmx_inv_def)
  note ex = sel_exec_frame [OF tr run]
  from sel_exec_inv [OF sel pre, where ok = ok and oke = oke] ex traffic_copy [OF tr] have s: "sel_inv s (held_pks d + H')" by simp
  have "traffic op (held_pks d) ?G" using tr by (auto simp: traffic_def split: sel_op.split)
  note pv = pids_view [OF traffic_pids [OF sel this pre ex]]
  have "held_pks (d\<lparr>sd_sel := s\<rparr>) = held_pks d" by (rule held_same) simp
  moreover have "port_reg (d\<lparr>sd_sel := s\<rparr>)" using inv pv(1) by (simp add: dmx_inv_def port_reg_def port_of_def)
  ultimately have "dmx_inv (d\<lparr>sd_sel := s\<rparr>) H'" using inv s pv(3) by (simp add: dmx_inv_def)
  moreover have "routed (d\<lparr>sd_sel := s\<rparr>)" if "routed d"
    by (rule same_ports_routed [OF _ _ _ that]) (simp_all add: pv(2) wanted_def record_pids_def)
  ultimately show ?thesis by blast
qed

subsection \<open>Reachable states\<close>

text \<open>The demultiplexer in the hands of its clients and of the selector: outputs are added, changed and removed,
  blocks are allocated, filled, fed, read and released, and a tracker receives a packet for which the
  selector gave it a reference.  \<open>H\<close> is the references held outside.\<close>

inductive dmx_reach :: "nat \<Rightarrow> u32 \<Rightarrow> sw_dmx \<Rightarrow> nat multiset \<Rightarrow> bool" for num lim where
  reach_init: "dmx_reach num lim (swdmxInit num lim) {#}"
| reach_add: "dmx_reach num lim d H \<Longrightarrow> svtOutAdd d = Some (ou, d') \<Longrightarrow> dmx_reach num lim d' H"
| reach_mod: "dmx_reach num lim d H \<Longrightarrow> sd_outs d ou = Some x \<Longrightarrow> funcset pnrs funcs n \<Longrightarrow> 0 \<notin> set (pids_of funcs) \<Longrightarrow>
    length (so_r x) + unat n < 65536 \<Longrightarrow> hp_ok ps np \<Longrightarrow> clash_free x pnrs funcs \<Longrightarrow>
    svtOutMod ou n pnrs funcs np ps d = Some (r, d') \<Longrightarrow> dmx_reach num lim d' H"
| reach_rmv: "dmx_reach num lim d H \<Longrightarrow> sd_outs d ou = Some x \<Longrightarrow> svtOutRmv ou d = Some d' \<Longrightarrow> dmx_reach num lim d' H"
| reach_traffic: "dmx_reach num lim d H \<Longrightarrow> traffic op (held_pks d) H \<Longrightarrow> sel_pre op (sd_sel d) (held_pks d + H) \<Longrightarrow>
    sel_exec ok oke op (sd_sel d) H = Some (s, H') \<Longrightarrow> dmx_reach num lim (d\<lparr>sd_sel := s\<rparr>) H'"
| reach_packet: "dmx_reach num lim d (add_mset p H) \<Longrightarrow>
    (\<forall>b. map_option rc_body (mem (sd_sel d) p) = Some b \<longrightarrow> sb_type b = 0 \<longrightarrow> packet_ok (sb_data b)) \<Longrightarrow>
    svt_packet_put a p d = Some d' \<Longrightarrow> dmx_reach num lim d' H"

lemma mod_routed:
  assumes inv: "dmx_inv d H" "routed d" and x: "sd_outs d ou = Some x" and fs: "funcset pnrs funcs n" "0 \<notin> set (pids_of funcs)"
    and sz: "length (so_r x) + unat n < 65536" and ps: "hp_ok ps np" and cf: "clash_free x pnrs funcs"
  shows "\<exists>d' x'. svtOutMod ou n pnrs funcs np ps d = Some (0, d') \<and> dmx_inv d' H \<and> routed d' \<and> others_kept ou d d' \<and>
    sd_outs d' ou = Some x' \<and> so_hpids x' = ps \<and>
    (\<forall>y. map_of (progs x') y = func_after (map_of (progs x) y) (map_of (zip (pids_of pnrs) (pids_of funcs)) y)) \<and>
    port_set (sd_sel d') (so_port x') = wanted d' x' \<union> set (pids_of ps)"
proof -
  from svtOutMod_ok [OF inv(1) x fs sz ps cf] obtain d' x' where
    d': "svtOutMod ou n pnrs funcs np ps d = Some (0, d')" "dmx_inv d' H" "others_kept ou d d'" "sd_outs d' ou = Some x'" "so_hpids x' = ps"
      "\<forall>y. map_of (progs x') y = func_after (map_of (progs x) y) (map_of (zip (pids_of pnrs) (pids_of funcs)) y)"
      "port_set (sd_sel d') (so_port x') = wanted d' x' \<union> set (pids_of ps)" by blast
  have "routed d'" using d' by (intro routed_others [OF inv(2) d'(3)]) simp
  with d' show ?thesis by blast
qed

lemma reach_inv:
  assumes "dmx_reach num lim d H"
  shows "dmx_inv d H \<and> routed d"
  using assms
proof induction
  case reach_init
  show ?case by (simp add: swdmxInit_ok)
next
  case (reach_add d H ou d')
  then show ?case using svtOutAdd_routed by blast
next
  case (reach_mod d H ou x pnrs funcs n ps np r d')
  from mod_routed [OF _ _ reach_mod.hyps(2-7)] reach_mod.IH reach_mod.hyps(8) show ?case by auto
next
  case (reach_rmv d H ou x d')
  with svtOutRmv_ok [of d H ou x] show ?case by auto
next
  case (reach_traffic d H op ok oke s H')
  with traffic_ok [of d H op ok oke s H'] show ?case by blast
next
  case (reach_packet d p H a d')
  then show ?case using svt_packet_put_ok by blast
qed

lemma inv_records:
  assumes "dmx_inv d H" "sd_outs d ou = Some x" "rec \<in> set (so_r x)"
  shows "\<exists>t. get_trk d (fr_trk rec) = Some t \<and> tk_pnr t = fr_pnr rec \<and> tk_out t = [ou]"
proof -
  from assms rec_live [of d ou x rec] have "rec_ok d ou rec" by (simp add: dmx_inv_def)
  then show ?thesis by (auto simp: rec_ok_def get_trk_def)
qed

subsection \<open>An example\<close>

text \<open>An output with the video of programme 42.\<close>

definition example_dmx :: "sw_dmx option" where
  "example_dmx = do {
     (ou, d) \<leftarrow> svtOutAdd (swdmxInit 0 4);
     (_, d) \<leftarrow> svtOutMod ou 1 (Some [42]) (Some [4]) 0 None d;
     Some d
   }"

lemma example_run:
  "case svtOutAdd (swdmxInit 0 4) of None \<Rightarrow> False | Some (ou, d) \<Rightarrow>
     ou = 0 \<and> sd_outs d 0 = Some \<lparr>so_port = 0, so_n_hpids = 0, so_hpids = None, so_r = []\<rparr>"
  by code_simp

lemma example_shape:
  "case example_dmx of None \<Rightarrow> False | Some d \<Rightarrow> (case (get_trk d 1, sd_outs d 0) of
     (Some t, Some x) \<Rightarrow> tk_pnr t = 42 \<and> tk_pmt0 t = None \<and> tk_pmt1 t = None \<and> tk_out t = [0] \<and> progs x = [(42, 4)]
   | _ \<Rightarrow> False)"
  by code_simp

lemma example_inv: "\<exists>d0 d. svtOutAdd (swdmxInit 0 4) = Some (0, d0) \<and> svtOutMod 0 1 (Some [42]) (Some [4]) 0 None d0 = Some (0, d) \<and>
    example_dmx = Some d \<and> dmx_inv d {#} \<and> routed d"
proof -
  from example_run obtain d0 x where a: "svtOutAdd (swdmxInit 0 4) = Some (0, d0)" "sd_outs d0 0 = Some x" "so_r x = []"
    by (auto split: option.splits)
  from svtOutAdd_routed [OF swdmxInit_ok a(1)] have d0: "dmx_inv d0 {#}" "routed d0" by simp_all
  have "funcset (Some [42]) (Some [4]) 1" "hp_ok None 0" "clash_free x (Some [42]) (Some [4])"
    using a(3) by (simp_all add: funcset_def hp_ok_def pb_ok_def clash_free_def get_current_funcs_def changes_def missing_def)
  with svtOutMod_ok [OF d0(1) a(2), of "Some [42]" "Some [4]" 1 None 0] a(3) obtain d x' where
    d: "svtOutMod 0 1 (Some [42]) (Some [4]) 0 None d0 = Some (0, d)" "dmx_inv d {#}" "others_kept 0 d0 d" "sd_outs d 0 = Some x'"
      "so_hpids x' = None" "port_set (sd_sel d) (so_port x') = wanted d x' \<union> set (pids_of None)" by auto
  have "routed d" using d by (intro routed_others [OF d0(2) d(3)]) simp
  with a(1) d(1,2) show ?thesis by (simp add: example_dmx_def)
qed
lemma example_alloc:
  "case example_dmx of None \<Rightarrow> False | Some d \<Rightarrow> (case selectorAllocElementUnsafe always (sd_sel d) of (s, r) \<Rightarrow>
     map_option (\<lambda>p. map_option (\<lambda>z. sb_type (rc_body z) = 0 \<and> packet_ok (sb_data (rc_body z)) \<and>
       map_option (\<lambda>(ex, rel, out). out) (secExPut True BNil (p, sb_data (rc_body z))) = Some None) (mem s p)) r = Some (Some True))"
  by code_simp

lemma example_held:
  assumes "example_dmx = Some d" "dmx_inv d {#}"
  shows "held_pks d = {#}" "qrefs (sd_sel d) = {#}" "\<exists>t. get_trk d 1 = Some t \<and> tk_ex t = BNil"
proof -
  have "case example_dmx of None \<Rightarrow> False | Some d \<Rightarrow> sd_outputs d = [0] \<and>
      map_option tk_ex (get_trk d 1) = Some BNil \<and> map_option (map fr_trk \<circ> so_r) (sd_outs d 0) = Some [1] \<and>
      concat (map (\<lambda>x. map snd (Selector.q (snd x))) (ports (sd_sel d))) = []"
    by code_simp
  then have e: "sd_outputs d = [0]" "map_option tk_ex (get_trk d 1) = Some BNil" "map_option (map fr_trk \<circ> so_r) (sd_outs d 0) = Some [1]"
    "concat (map (\<lambda>x. map snd (Selector.q (snd x))) (ports (sd_sel d))) = []" unfolding assms(1) option.case by blast+
  have reg: "reg_inv d" using assms(2) by (simp add: dmx_inv_def)
  then have "dom (sd_outs d) = {0}" "\<forall>a\<in>dom (sd_trks d). \<exists>ou x. sd_outs d ou = Some x \<and> a \<in> fr_trk ` set (so_r x)"
    using e(1) by (simp_all add: reg_inv_def)
  then have "a = 1" if "a \<in> dom (sd_trks d)" for a
    using that e(3) by (metis (no_types, lifting) comp_apply domI empty_iff insert_iff list.set(1) list.set(2) list.set_map map_option_eq_Some option.inject)
  then have "held (tk_ex (rc_body (the (sd_trks d a)))) = {#}" if "a \<in> dom (sd_trks d)" for a
    using that e(2) by (auto simp: get_trk_def held_def)
  then show "held_pks d = {#}" unfolding held_pks_def by simp
  show "qrefs (sd_sel d) = {#}" using e(4) by (simp add: qrefs_def)
  show "\<exists>t. get_trk d 1 = Some t \<and> tk_ex t = BNil" using e(2) by simp
qed

lemma example_reach: "\<exists>d. dmx_reach 0 4 d {#} \<and> example_dmx = Some d"
proof -
  from example_inv obtain d0 d where a: "svtOutAdd (swdmxInit 0 4) = Some (0, d0)" "svtOutMod 0 1 (Some [42]) (Some [4]) 0 None d0 = Some (0, d)"
    "example_dmx = Some d" by blast
  with example_run have x: "sd_outs d0 0 = Some \<lparr>so_port = 0, so_n_hpids = 0, so_hpids = None, so_r = []\<rparr>" by simp
  have r: "dmx_reach 0 4 d0 {#}" using reach_add [OF reach_init a(1)] .
  have "dmx_reach 0 4 d {#}"
    by (rule reach_mod [OF r x _ _ _ _ _ a(2)])
      (simp_all add: funcset_def hp_ok_def pb_ok_def clash_free_def get_current_funcs_def changes_def missing_def)
  with a(3) show ?thesis by blast
qed

subsection \<open>Properties\<close>

text \<open>C5: in every state that the following operations of the demultiplexer reach, with memory available, from a new one:
  adding, changing (to distinct programmes with non-zero functions, and PIDs below 8192) and removing an output, passing blocks through the selector, and a tracker receiving a packet.  Two
  things are left out: a change of an output in which two programmes would gain or lose the same functions (\<open>clash_free\<close>;
  \<open>svtOutMod\<close> then loses one of them, as \<open>pidbufAddPid\<close> keeps a set), and \<open>selectorReinit\<close>, with which
  dvb.c empties all ports when it tunes, without telling the outputs or the frontend; packets handled are those the
  section extractor can handle (\<open>packet_ok\<close>).  In these states the port of every output carries exactly
  the PIDs of its services, as the tables of their trackers have them, and the PIDs asked for directly; each service has a live
  tracker of its programme that knows this output; the frontend, told of every change, receives
  exactly the PIDs selected by some port.  Adding an output and removing one never fault, and closing the demultiplexer
  releases every output and tracker, gives back every packet that trackers or queues still held, so that only
  packets in the hands of readers stay, and switches the frontend off.\<close>
theorem swdmx_routes_services:
  assumes "dmx_reach num lim d H"
  shows "(\<forall>ou x. sd_outs d ou = Some x \<longrightarrow>
      port_set (sd_sel d) (so_port x) = (\<Union>rec\<in>set (so_r x). record_pids d rec) \<union> set (pids_of (so_hpids x)) \<and>
      (\<forall>rec\<in>set (so_r x). \<exists>t. get_trk d (fr_trk rec) = Some t \<and> tk_pnr t = fr_pnr rec \<and> tk_out t = [ou])) \<and>
    frontend (sd_log d) {} = selected (sd_sel d) \<and> svtOutAdd d \<noteq> None \<and> (\<forall>ou\<in>dom (sd_outs d). svtOutRmv ou d \<noteq> None) \<and>
    (\<exists>d' fr c m. swdmxClear d = Some (d', fr, c, m) \<and> sd_outs d' = Map.empty \<and> sd_trks d' = Map.empty \<and>
      dom m = set_mset H \<and> frontend (sd_log d' @ c) {} = {})"
proof -
  from reach_inv [OF assms] have inv: "dmx_inv d H" "routed d" by simp_all
  have "svtOutAdd d \<noteq> None" using svtOutAdd_ok [OF inv(1)] by auto
  moreover have "\<forall>ou\<in>dom (sd_outs d). svtOutRmv ou d \<noteq> None" using svtOutRmv_ok [OF inv(1)] by fastforce
  ultimately show ?thesis
    using inv swdmxClear_ok [OF inv(1)] inv_records [OF inv(1)] by (auto simp: routed_def wanted_def dmx_inv_def)
qed

theorem swdmx_routes_services_witness:
  "\<exists>d x fr c m d'. dmx_reach 0 4 d {#} \<and> sd_outs d 0 = Some x \<and> progs x = [(42, 4)] \<and>
    port_set (sd_sel d) (so_port x) = (\<Union>rec\<in>set (so_r x). record_pids d rec) \<union> set (pids_of (so_hpids x)) \<and>
    swdmxClear d = Some (d', fr, c, m) \<and> dom m = {}"
proof -
  from example_reach obtain d where d: "dmx_reach 0 4 d {#}" "example_dmx = Some d" by blast
  from example_shape [unfolded d(2) option.case] obtain x where x: "sd_outs d 0 = Some x" "progs x = [(42, 4)]"
    by (auto split: option.split_asm)
  from swdmx_routes_services [OF d(1)] d(1) x show ?thesis by auto
qed

text \<open>C16: changing an output to a set of distinct programmes with non-zero functions and some PIDs of its own (below 8192) never faults,
  with memory available and fewer than 65536 services in all, as long as no two programmes that stay gain the same functions or lose the same functions, and none
  gains or loses exactly the functions with which another programme is added or removed as a whole (\<open>clash_free\<close>; otherwise
  \<open>svtOutMod\<close> loses the second of them, because it collects the functions with \<open>pidbufAddPid\<close>, which keeps a set).  Afterwards the
  output serves exactly the programmes asked for: a new one with the functions asked for, one that stays with
  those asked for unless it gains functions, in which case it is left with the gained ones only (\<open>func_after\<close>).
  Its port carries exactly the PIDs of these services and the PIDs given, the other outputs are untouched,
  and the demultiplexer stays consistent.\<close>
theorem svtOutMod_follows:
  assumes "dmx_inv d H" "routed d" and "sd_outs d ou = Some x"
    and "funcset pnrs funcs n" "0 \<notin> set (pids_of funcs)" "clash_free x pnrs funcs" and "length (so_r x) + unat n < 65536" and "hp_ok ps np"
  shows "\<exists>d' x'. svtOutMod ou n pnrs funcs np ps d = Some (0, d') \<and> dmx_inv d' H \<and> routed d' \<and> sd_outs d' ou = Some x' \<and>
    (\<forall>y. map_of (progs x') y = func_after (map_of (progs x) y) (map_of (zip (pids_of pnrs) (pids_of funcs)) y)) \<and>
    port_set (sd_sel d') (so_port x') = wanted d' x' \<union> set (pids_of ps) \<and> (\<forall>o'. o' \<noteq> ou \<longrightarrow> sd_outs d' o' = sd_outs d o')"
proof -
  from mod_routed [OF assms(1-5,7,8,6)] obtain d' x' where
    "svtOutMod ou n pnrs funcs np ps d = Some (0, d')" "dmx_inv d' H" "routed d'" "others_kept ou d d'" "sd_outs d' ou = Some x'"
    "\<forall>y. map_of (progs x') y = func_after (map_of (progs x) y) (map_of (zip (pids_of pnrs) (pids_of funcs)) y)"
    "port_set (sd_sel d') (so_port x') = wanted d' x' \<union> set (pids_of ps)" by blast
  moreover from this(4) have "\<forall>o'. o' \<noteq> ou \<longrightarrow> sd_outs d' o' = sd_outs d o'" unfolding others_kept_def by blast
  ultimately show ?thesis by blast
qed

theorem svtOutMod_follows_witness:
  "\<exists>d0 x0 d x. sd_outs d0 0 = Some x0 \<and> progs x0 = [(42, 4)] \<and> svtOutMod 0 2 (Some [42, 7]) (Some [6, 64]) 1 (Some [17]) d0 = Some (0, d) \<and>
    sd_outs d 0 = Some x \<and> map_of (progs x) 42 = Some 2 \<and> map_of (progs x) 7 = Some 64 \<and>
    port_set (sd_sel d) (so_port x) = wanted d x \<union> {17}"
proof -
  from example_inv obtain d where d: "example_dmx = Some d" "dmx_inv d {#}" "routed d" by blast
  from example_shape [unfolded d(1) option.case] obtain x where x: "sd_outs d 0 = Some x" "progs x = [(42, 4)]"
    by (auto split: option.split_asm)
  from x(2) have sr: "map fr_pnr (so_r x) = [42]" "map fr_func (so_r x) = [4]" "length (so_r x) = 1" by (auto simp: progs_def)
  have "get_current_funcs x = (Some [4], Some [42], 1)" using sr by (auto simp: get_current_funcs_def)
  moreover have "distinct (map snd (changed bits_gone (Some [42]) (Some [4]) (Some [42, 7]) (Some [6, 64])))"
    by code_simp
  moreover have "distinct (map snd (changed bits_new (Some [42]) (Some [4]) (Some [42, 7]) (Some [6, 64])))"
    by code_simp
  moreover have "set (map snd (changed bits_gone (Some [42]) (Some [4]) (Some [42, 7]) (Some [6, 64]))) \<inter> snd ` set (missing (Some [42]) (Some [4]) (Some [42, 7])) = {}"
    by code_simp
  moreover have "set (map snd (changed bits_new (Some [42]) (Some [4]) (Some [42, 7]) (Some [6, 64]))) \<inter> snd ` set (missing (Some [42, 7]) (Some [6, 64]) (Some [42])) = {}"
    by code_simp
  ultimately have cf: "clash_free x (Some [42, 7]) (Some [6, 64])" by (simp only: clash_free_def Let_def case_prod_conv)
  have "funcset (Some [42, 7]) (Some [6, 64]) 2" "hp_ok (Some [17]) 1" by (simp_all add: funcset_def hp_ok_def pb_ok_def)
  from svtOutMod_follows [OF d(2,3) x(1) this(1) _ cf _ this(2)] sr(3) obtain d' x' where
    r: "svtOutMod 0 2 (Some [42, 7]) (Some [6, 64]) 1 (Some [17]) d = Some (0, d')" "sd_outs d' 0 = Some x'"
      "\<forall>y. map_of (progs x') y = func_after (map_of (progs x) y) (map_of (zip (pids_of (Some [42, 7])) (pids_of (Some [6, 64]))) y)"
      "port_set (sd_sel d') (so_port x') = wanted d' x' \<union> {17}" by auto
  from r(3) [THEN spec, of 42] r(3) [THEN spec, of 7] x(2) have "map_of (progs x') 42 = Some 2" "map_of (progs x') 7 = Some 64"
    by (simp_all add: func_after_def)
  with x r show ?thesis by blast
qed

text \<open>C6: in a consistent state of the demultiplexer, a service tracker that receives a packet through its port, for which it owns the reference, returns
  without touching memory outside its tables and buffers, with memory available, if the packet is one that the section extractor can handle
  (\<open>packet_ok\<close>: not a unit start behind an adaptation field of 183 bytes, for which it reads one byte behind the
  packet) and if the section that the packet completes (if any) has an
  admissible length, no section number behind the last one, and is not of the version and size of a table
  whose array has been freed; it then keeps all counts of references and the
  structure of outputs, trackers and ports, and the port of every output carries again
  exactly the PIDs of its services (under the tables as they now are) and those asked for directly.\<close>
theorem svt_packet_put_follows:
  assumes "dmx_inv d (add_mset p H)" and "routed d" and "get_trk d a = Some t"
    and "\<forall>b. map_option rc_body (mem (sd_sel d) p) = Some b \<longrightarrow> sb_type b = 0 \<longrightarrow> packet_ok (sb_data b)"
    and "\<forall>s. completes d t p s \<longrightarrow> digestible t s"
  shows "\<exists>d'. svt_packet_put a p d = Some d' \<and> dmx_inv d' H \<and> routed d' \<and> sd_outs d' = sd_outs d"
proof -
  from block_live [OF assms(1)] obtain b where b: "map_option rc_body (mem (sd_sel d) p) = Some b" by blast
  then obtain z where z: "mem (sd_sel d) p = Some z" "rc_body z = b" by auto
  have "\<exists>d'. svt_packet_put a p d = Some d'"
  proof (cases "sb_type b = 0")
    case False
    have "sel_inv (sd_sel d) (image_mset fst (mset [(p, [] :: buffer)]) + (held_pks d + H))" using assms(1) by (simp add: dmx_inv_def)
    from release_pks_ok [OF this] False z assms(3) show ?thesis by (auto simp: svt_packet_put_def bind_eq_Some_conv)
  next
    case True
    have tok: "trk_ok t" using assms(1,3) by (simp add: dmx_inv_def reg_inv_def)
    then have exi: "ex_inv (tk_ex t)" by (simp add: trk_ok_def)
    from put_run [OF exi, of "(p, sb_data b)" True] assms(4) b True obtain ex rel out where
      e: "secExPut True (tk_ex t) (p, sb_data b) = Some (ex, rel, out)"
        "delivers (ts_pid (sb_data b)) (snd (asm_step (collecting (tk_ex t) (ts_pid (sb_data b))) (section_chunk (sb_data b)))) out" by auto
    have pk: "packet_ok (sb_data b)" using assms(4) b True by blast
    from extract_ok [OF assms(1-3) pk e(1)] obtain d1 where
      d1: "release_pks rel d = Some d1" "dmx_inv (put_trk a (t\<lparr>tk_ex := ex\<rparr>) d1) H" "routed (put_trk a (t\<lparr>tk_ex := ex\<rparr>) d1)"
        "get_trk (put_trk a (t\<lparr>tk_ex := ex\<rparr>) d1) a = Some (t\<lparr>tk_ex := ex\<rparr>)" by blast
    show ?thesis
    proof (cases out)
      case None
      with True z assms(3) e(1) d1(1) show ?thesis by (simp add: svt_packet_put_def)
    next
      case (Some q)
      obtain pid s where q: "q = (pid, s)" by (cases q)
      have len: "length s = 4096" using e(2) Some q by (auto simp: delivers_def split: option.split_asm)
      have "completes d t p s" using b True e(1) Some q by (auto simp: completes_def)
      then have "digestible (t\<lparr>tk_ex := ex\<rparr>) s" using assms(5) by (auto simp: digestible_def)
      from svt_section_total [OF d1(2-4) len this] True z assms(3) e(1) d1(1) Some q show ?thesis by (simp add: svt_packet_put_def)
    qed
  qed
  with svt_packet_put_ok [OF assms(1,2)] assms(4) show ?thesis by blast
qed

theorem svt_packet_put_follows_witness:
  "\<exists>d p d'. dmx_inv d {#p#} \<and> routed d \<and> svt_packet_put 1 p d = Some d' \<and> dmx_inv d' {#} \<and> routed d'"
proof -
  from example_inv obtain d where d: "example_dmx = Some d" "dmx_inv d {#}" "routed d" by blast
  note held = example_held [OF d(1,2)]
  from example_alloc [unfolded d(1) option.case] obtain s p z x y where a: "selectorAllocElementUnsafe always (sd_sel d) = (s, Some p)"
    "mem s p = Some z" "sb_type (rc_body z) = 0" "packet_ok (sb_data (rc_body z))" "secExPut True BNil (p, sb_data (rc_body z)) = Some (x, y, None)"
    by (auto split: prod.split_asm)
  have "sel_pre OpAlloc (sd_sel d) (held_pks d + {#})" using held by (simp add: sel_pre_def)
  moreover have "sel_exec always always OpAlloc (sd_sel d) {#} = Some (s, {#p#})" using a(1) by (simp add: sel_exec_def)
  moreover have "traffic OpAlloc (held_pks d) {#}" by (simp add: traffic_def)
  ultimately have inv: "dmx_inv (d\<lparr>sd_sel := s\<rparr>) {#p#}" "routed (d\<lparr>sd_sel := s\<rparr>)"
    using traffic_ok [OF d(2)] d(3) by blast+
  from held(3) obtain t where t: "get_trk (d\<lparr>sd_sel := s\<rparr>) 1 = Some t" "tk_ex t = BNil" by auto
  have "\<forall>b. map_option rc_body (mem (sd_sel (d\<lparr>sd_sel := s\<rparr>)) p) = Some b \<longrightarrow> sb_type b = 0 \<longrightarrow> packet_ok (sb_data b)"
    using a(2,4) by simp
  moreover have "\<forall>c. completes (d\<lparr>sd_sel := s\<rparr>) t p c \<longrightarrow> digestible t c" using a(2,5) t(2) by (simp add: completes_def)
  ultimately show ?thesis using svt_packet_put_follows [OF inv t(1)] inv by blast
qed

text \<open>C35: when the PAT gives the PMT of a programme a new PID, the tracker frees the sections of its tables but keeps
  their version and number of sections.  The next current section of the PMT, arriving on the new PID with
  the version and size of the old table, is then written through the missing array: the tracker faults.\<close>
theorem pmt_pid_change_faults:
  assumes inv: "dmx_inv d H" and t: "get_trk d a = Some t" "tk_pmt0 t = Some p" and pid: "unat pid < 8192" and s: "length s = 4096"
    and pmt: "s ! 0 = 2" "field s 24 16 = ucast (tk_pnr t)" "field s 47 1 \<noteq> 0"
    and same: "tbl_version p = int (unat (field s 42 5))" "num_sections p = unat (s ! 7) + 1"
    and parsed: "parse_pms True always s zero_pms = Some (0, pm)"
  shows "\<exists>d'. svt_new_pid a pid d = Some d' \<and> svt_section a s d' = None"
proof -
  have tok: "trk_ok t" using inv t(1) by (simp add: dmx_inv_def reg_inv_def)
  from trk_port [OF inv t(1)] obtain k where k: "tk_input t = Some k" "k \<in> keys (sd_sel d)" by blast
  have "pb_ok (Some [0, pid]) 2" "\<forall>x\<in>set (pids_of (Some [0, pid])). unat x < 8192" using pid by (simp_all add: pb_ok_def)
  from mod_port_inv [OF inv k(2) this] obtain sl l where
    m: "mod_port (Some k) 2 (Some [0, pid]) d = Some (d\<lparr>sd_sel := sl, sd_log := sd_log d @ l\<rparr>)" by blast
  from tok t(2) clear_pmt [of p] obtain p0 f0 where
    p0: "clear_tbl (Some p) = Some (0, Some p0, f0)" "pmt_ok p0" "hollow p0" "num_sections p0 = num_sections p" "tbl_version p0 = tbl_version p"
    by (auto simp: trk_ok_def)
  from tok clear_pmts [of "tk_pmt1 t"] obtain p1 f1 where p1: "clear_tbl (tk_pmt1 t) = Some (0, p1, f1)" by (auto simp: trk_ok_def)
  let ?t = "t\<lparr>tk_pid := pid, tk_pmt0 := Some p0, tk_pmt1 := p1\<rparr>" and ?d = "d\<lparr>sd_sel := sl, sd_log := sd_log d @ l\<rparr>"
  have run: "svt_new_pid a pid d = Some (put_trk a ?t ?d)" using t k(1) m p0(1) p1 by (simp add: svt_new_pid_def)
  have gt: "get_trk (put_trk a ?t ?d) a = Some ?t" using t(1) by (auto simp: get_trk_def put_trk_def)
  have lt: "unat (s ! 6) < 8 * length (occupied p0)" using p0(2) byte_room(2) [of "s ! 6"] by (simp add: pmt_ok_def)
  from bf.mem_cases [OF lt] p0(3) have "bifiGet (occupied p0) (unat (s ! 6)) = Some 0" by (auto simp: hollow_def)
  then have "enter_missing s ro p0 = None" for ro
    using parsed p0(3) by (auto simp: enter_missing_def sec_reads [OF s] enter_sec_def sec_kind_def hollow_def)
  then have "update_pmt s ro p0 = None" for ro
    using p0(4,5) same by (simp add: update_pmt_def renew_pmt_def sec_reads [OF s])
  then have "svt_handle_pms s ?t = None"
    using p0(5) same(1) pmt(3)
    by (auto simp: svt_handle_pms_def svt_handle_pms2_def take_next_def pmt_at_def sec_reads [OF s] split: option.split)
  then have "svt_section a s (put_trk a ?t ?d) = None"
    using gt pmt by (simp add: svt_section_def svt_dispatch_def sec_reads [OF s])
  with run show ?thesis by blast
qed

theorem pmt_pid_change_faults_witness:
  "\<exists>d0 d d'. dmx_inv d0 {#} \<and> svt_dispatch 1 small_pmt d0 = Some (True, d) \<and> svt_new_pid 1 100 d = Some d' \<and> svt_section 1 small_pmt d' = None"
proof -
  from example_inv obtain d where d: "example_dmx = Some d" "dmx_inv d {#}" "routed d" by blast
  from example_shape [unfolded d(1) option.case] obtain t where t: "get_trk d 1 = Some t" "tk_pnr t = 42" "tk_pmt0 t = None" "tk_pmt1 t = None" "tk_out t = [0]"
    by (auto split: option.split_asm)
  define s where "s = small_pmt"
  have len: "length s = 4096" and b: "s ! 0 = 2" "s ! 6 = 0" "s ! 7 = 0" by (simp_all add: s_def)
  have f: "field s 42 5 = 1" "field s 47 1 = 1" "field s 24 16 = 42"
    using bitsGet_eq [of 5 5 2 small_pmt] bitsGet_eq [of 1 5 7 small_pmt] bitsGet_eq [of 16 3 0 small_pmt] by (simp_all add: sec_eval s_def)
  note reads = sec_reads [OF len] b f f(2) [simplified]
  obtain pm where pm: "parse_pms True always s zero_pms = Some (0, pm)" "m_section pm = 0" "m_version pm = 1"
    by (simp add: s_def parse_pms_def small_pmt_fields(3) sec_open_def sec_eval sizeStackInit_def sizeStackPush_def sizeStackAdvance_def
      parse_pms_fields_def parse_pms_streams_def count_blocks.simps get_es_info_def descr_loop.simps descr_step_def es_descr_def
      sizeStackPop_def sizeStackPtr_def unset_stack_def MAX_SEC_SIZE_def zero_es_def bitsGet48_def)
  from new_pmt_ok [of 1] obtain p where p: "new_tbl True 1 2 = Some (Some p)" "pmt_ok p" "occ p = {}" "num_sections p = 1" "length (sections p) = 1" "tbl_version p = -1" by auto
  from reinit_pmt_ok [OF p(2), of 1] obtain p1 where p1: "reinit_pmt p 1 = Some p1" "pmt_ok p1" "occ p1 = {}" "num_sections p1 = 1" "length (sections p1) = 1" by auto
  have lt: "0 < 8 * length (occupied p1)" using p1(2) by (simp add: pmt_ok_def)
  from bf.mem_cases [OF lt] p1(3) have free: "bifiGet (occupied p1) 0 = Some 0" by auto
  from bifiSet_set [OF lt] obtain oc where "bifiSet (occupied p1) 0 = Some oc" by blast
  then obtain p2 where p2: "enter_sec p1 0 (to_section pm) 2 = Some (0, p2)" "num_sections p2 = 1"
    using p1(2,4,5) pm(2) by (auto simp: enter_sec_def same_kind_def sec_kind_def pmt_ok_def to_section_def)
  let ?p = "p2\<lparr>tbl_pnr := pms.program_number pm, tbl_version := 1\<rparr>"
  have "update_pmt s ro p = Some (True, ?p)" for ro
    using p(4,6) p1(1) free pm p2 by (simp add: update_pmt_def renew_pmt_def enter_missing_def reads)
  then have h: "svt_handle_pms s t = Some (True, t\<lparr>tk_pmt0 := Some ?p\<rparr>)"
    using p(1) t(3,4) by (simp add: svt_handle_pms_def svt_handle_pms2_def take_next_def pmt_at_def set_pmt_def reads)
  let ?d = "put_trk 1 (t\<lparr>tk_pmt0 := Some ?p\<rparr>) d"
  have run: "svt_dispatch 1 s d = Some (True, ?d)" using h t(1,2) by (simp add: svt_dispatch_def reads)
  from svt_dispatch_ok [OF d(2,3) t(1,5) run] have "dmx_inv ?d {#}" by (simp add: handled_def)
  moreover have "get_trk ?d 1 = Some (t\<lparr>tk_pmt0 := Some ?p\<rparr>)" using t(1) by (auto simp: get_trk_def put_trk_def)
  ultimately have "\<exists>d'. svt_new_pid 1 100 ?d = Some d' \<and> svt_section 1 s d' = None"
    by (rule pmt_pid_change_faults [where p = ?p and pm = pm]) (use t(2) p2(2) pm(1) in \<open>simp_all add: reads len\<close>)
  with d(2) run show ?thesis unfolding s_def by blast
qed
end
