(* ===== verification/Spec2Isabelle.thy ===== *)
theory Spec2Isabelle
  imports Bits SLists DLists LRU SecCommon VtPk Bifi Table BTree TrnStrm SecEx SizeStack Pas
    RcPtr PidBuf Selector SelectorInv SecParse Pms SecItems Sds SdsRead Nis Eis VtEx
    FpMm FpTree FpHeapInv Timestamp SitCom RecSched SvtRun
begin

text \<open>
  dvb-vulture is a DVB receiver.  A daemon (src/stream) tunes frontends, demultiplexes the
  transport stream and keeps databases of programmes, events and teletext pages; clients
  (src/ncurses_remote, src/x_remote) talk to it over sockets; src/common holds the data
  structures both sides use.  This development models the core of src/common and src/stream in
  shallow embedding, one theory per component, and proves the properties that make each correct.

  How the program hangs together.  Packets of 188 bytes arrive in reference counted blocks
  (common/rcptr.c, taken from the block cache common/item_list.c) in the demultiplexer
  (stream/selector.c), which queues every packet for all ports that selected its PID
  (stream/pidbuf.c).  A consumer reassembles sections (stream/sec_ex.c) or collects the
  payload of PES packets (stream/pes_ex.c) from the packets (stream/trn_strm.c).  A
  section is checked by its CRC (stream/sec_common.c), parsed field by field with the bit reader
  (common/bits.c) under nested size checks (common/size_stack.c) by one parser per kind (pas.c,
  pms.c, nis.c, sds.c, eis.c, tdt.c), and kept in tables with one slot per section
  number (stream/table.c with the bit sets of common/bifi.c).  The service tracker (stream/svt.c) puts
  these together: for each programme an output carries, a tracker reads the PAT and the PMT
  through a port of its own and keeps the PIDs of the output's port up to date.  Event and teletext data are kept
  in a heap inside a file (common/fp_mm.c) and ordered by an LRU list (stream/lru.c); lists and
  trees come from common/list.c and common/btre.c.

  Conventions.  A C function is a HOL function over explicit state; integers of fixed width are
  words wherever they may wrap.  The result \<open>None\<close> is a fault: an access outside a buffer, through a
  null or stale pointer, or to a header that was never written; a theorem that a call
  gives \<open>Some\<close> therefore says that it is memory safe.  Return codes are integers as in the
  code, error paths are branches.  Loops whose end is evident are \<open>fun\<close> or \<open>function\<close> with a
  measure; loops over linked structures and loops on wrapping counters are \<open>partial_function
  (option)\<close>, so that running forever is \<open>None\<close> too and totality theorems prove termination; the
  one use of fuel is the loop of a client over the events of a section (\<open>eis_walk\<close>), where 340 rounds
  are shown to be enough for a buffer of 4096 bytes with events of at least 12 bytes.  Whether \<open>calloc\<close> succeeds is a parameter (a flag or a
  predicate), the random generator \<open>rand_r\<close>, the clock conversions of the C library and character
  set conversions are arbitrary functions, callbacks are arguments or logs of calls.

  Theories and what they show.
  \<^item> Prelude: reads that fault, bits of buffers, word lemmas.
  \<^item> Bits (common/bits.c): both bit-field readers deliver exactly the addressed bits.
  \<^item> SLists, DLists (common/list.c): pointer lists refine sequences; a locale states the
    contract of a doubly linked sequence.
  \<^item> BTree (common/btre.c): AVL trees under an arbitrary comparison (locale \<open>node_order\<close>)
    refine a keyed set; file round trip.  A node that hangs in a tree must not be inserted again:
    \<open>btreeNodeInsert\<close> overwrites its height before it looks for an equal key.
  \<^item> Bifi, Table (common/bifi.c, stream/table.c): index sets (locale \<open>index_set\<close>), tables own
    exactly the sections whose bit is set.
  \<^item> SizeStack, SecParse: nested areas; the shared skeleton of section parsers.
  \<^item> SecCommon: the table-driven CRC is polynomial division and detects bursts of 32 bits.
  \<^item> Pas, Pms, Timestamp: parsers and the calendar of the time and date table.
  \<^item> SecItems, Sds, SdsRead, Nis, Eis (stream/sds.c, nis.c, eis.c): service, network and event sections.
    SecItems holds what they share (copied strings, counting and parsing the items); each parser stays
    inside the section for every content of the buffer, up to the lengths for which its 16-bit remaining length wraps
    around; a section of services is read exactly; the iterator over a raw event section visits its events.
    Lengths above 4086 (4091 for services) are left out: there the unchecked descriptors (the code reads up to
    seven bytes behind the descriptor header) may cross the end of the buffer.
  \<^item> TrnStrm, SecEx: packet headers, PES payload, reassembly of sections against the
    specification of concatenated chunks, for packets that \<open>packet_ok\<close> admits: a unit start behind an adaptation field
    of 183 bytes makes sec_ex.c read one byte behind the packet.
  \<^item> RcPtr, PidBuf, Selector, SelectorInv: block cache (locale \<open>block_pool\<close>), reference counts
    equal the number of queue entries in every run of the demultiplexer, delivery and PID changes.
    Each allocation of the runs may fail but one: the copy of the array of PIDs a port is given
    (\<open>pid_copy_ok\<close>), whose failure the code does not notice; that call then dereferences a null pointer.
  \<^item> SvtFuncs, Svt, SvtInv, SvtOps, SvtPut, SvtTotal, SvtRun (stream/svt.c): the PIDs of the functions of a
    programme and the changes between sets of programmes; outputs and trackers as numbered
    objects over the selector; the invariant that ties records, trackers, ports, reference
    counts and the frontend together; the operations on outputs; the handling of packets and
    sections; when it returns; reachable states and the properties.  The results of the allocations of svt.c,
    which the code mostly does not check, are taken to succeed; the packets of a tracker, which the code hands over by a
    callback inside the feed, are steps of their own, as the reference passed to the callback allows.
    Left out of the reachable states are \<open>selectorReinit\<close>, with which dvb.c empties all ports when it tunes, behind
    the back of the outputs, and changes of an output in which two programmes gain or lose the same functions
    (\<open>clash_free\<close>): \<open>svtOutMod\<close> loses one of them.
  \<^item> VtEx (stream/vt_extractor.c): the data units handed to the teletext database are those of the complete PES packets
    of each PID; a packet of teletext that begins too close to the end of its transport packet faults.
  \<^item> LRU: balance of the self-sorting list.
  \<^item> VtPk (common/vt_pk.c): teletext headers, Hamming 8/4 and 24/18 against the code's equations.
  \<^item> SitCom (stream/sit_com.c): compiled selection information sections and the packets they are cut into;
    the root theory shows that the packets arrive at the section extractor as they were compiled.
  \<^item> RecSched (common/rs_entry.c, stream/rec_sched.c, common/reminder.c): recurrence of
    recordings and reminders over a clock that is a parameter, ordered schedules, catching up.  The clock may have seasonal
    time: adding days moves a time by as many days up to a shift of less than a day (\<open>civil_clock\<close>).
  \<^item> FpMm, FpTree, FpHeapInv (common/fp_mm.c): the file heap; definitions, the tree of free
    segments, the row of segments with the heap invariant and the locale \<open>allocator\<close>.

  Not modelled.  Socket and device I/O (server.c, client.c, ipc.c, dvb.c, net_writer.c), threads
  and locks, process set-up, logging, the curses and X clients and their generated fonts, the
  object carousel code taken from another project, and text conversion through iconv: they are
  glue around interfaces this model cannot observe.  The databases of programmes, events and teletext pages
  (pgmdb.c, epgdb.c, vtdb.c) keep linked structures of their own inside the file heap, address them by
  casts of raw offsets and share them between threads; the heap below them is modelled, they are not.
\<close>

text \<open>C4: a selection section that is compiled, cut into packets and put into the packet stream arrives at a
  receiver as it was meant: after the packets of the section that follows it have begun, the
  extractor of the receiver has delivered exactly one section under the PID, which passes the
  CRC check and has the version and the programmes it was compiled from.\<close>
theorem injected_sit_arrives:
  assumes "length sec = 4096" and "length pnrs \<le> 1020" and "pid < 0x2000" and "next \<noteq> []" and "length next \<le> 4096"
    and "sitCompile pnrs vnr sec = Some (n, s)"
    and "map snd ps = ts_packets (the (sec_to_ts (take n s) pid)) @ ts_packets (the (sec_to_ts next pid))"
  shows "\<exists>ex rels d. secEx_run secExInit ps = Some (ex, rels, [(pid, d)])
    \<and> secCheckCrc d = Some 0 \<and> get_sec_size d = Some n \<and> get_sec_id d = Some SIT_TID
    \<and> get_sec_version d = Some (ucast (vnr AND 31)) \<and> lists_programmes d pnrs"
proof -
  let ?c = "sit_body pnrs vnr @ SitCom.be32 (fold crc_step (sit_body pnrs vnr) 0xffffffff)"
  have fits: "10 + 4 * length pnrs \<le> 4092" using assms(2) by simp
  with sitCompile_run [OF assms(1), of pnrs vnr] assms(6) have n: "n = 14 + 4 * length pnrs"
    and s: "s = ?c @ drop (14 + 4 * length pnrs) sec" by auto
  have len: "length ?c = n" by (simp add: n length_sit_body)
  have c: "take n s = ?c" unfolding s using len by (simp del: append_assoc)
  have "?c \<noteq> []" "length ?c \<le> 4096" using len fits n by (simp_all del: length_append)
  with sec_to_ts_arrives [OF assms(3), of "[take n s, next]" ps] assms(4,5,7) c obtain ex rels outs where
    run: "secEx_run secExInit ps = Some (ex, rels, outs)"
      "list_all2 (\<lambda>(q, d) xs. q = pid \<and> take (length xs) d = xs) outs [?c]" by auto
  then obtain d where d: "outs = [(pid, d)]" "take n d = ?c" using len by (auto simp: list_all2_Cons2)
  from compiled_section [OF fits d(2) [unfolded n]] run(1) d(1) n show ?thesis by auto
qed

lemma injected_sit_arrives_witness:
  "\<exists>s ex rels d. sitCompile [17] 3 (replicate 4096 0) = Some (18, s)
    \<and> secEx_run secExInit (map (Pair 0) (ts_packets (the (sec_to_ts (take 18 s) 0x1f)) @ ts_packets (the (sec_to_ts [1] 0x1f))))
        = Some (ex, rels, [(0x1f, d)]) \<and> secCheckCrc d = Some 0"
proof -
  from sitCompile_run [of "replicate 4096 0" "[17]" 3] obtain s where s: "sitCompile [17] 3 (replicate 4096 0) = Some (18, s)" by auto
  have "map snd (map (Pair (0 :: nat)) ps) = ps" for ps :: "buffer list" by (simp add: o_def)
  with injected_sit_arrives [of "replicate 4096 0" "[17]" "0x1f" "[1]" 3 18 s
      "map (Pair 0) (ts_packets (the (sec_to_ts (take 18 s) 0x1f)) @ ts_packets (the (sec_to_ts [1] 0x1f)))"] s
  show ?thesis by (simp del: map_append) blast
qed

end
